(* ===== verification/Ruby_Prelude.thy ===== *)
theory Ruby_Prelude
  imports Main "HOL-Library.Word" "HOL-Library.Monad_Syntax"
begin

text \<open>
  Shared vocabulary of the development: the machine types of the C code (an LP64 target: a
  \<open>VALUE\<close>, an \<open>st_data_t\<close> and an \<open>st_index_t\<close> are 64 bits wide), the collections of
  simplification rules the component theories fill, and generic lemmas on numbers, lists and
  loops.  A C function that may not return normally (a loop that need not end, an \<open>rb_raise\<close>)
  is modelled in the \<open>option\<close> monad, \<open>None\<close> standing for "does not return normally"; the
  theories say for each function which of the two it is.
\<close>

unbundle bit_operations_syntax

section \<open>Machine types and rule collections\<close>

type_synonym u8 = "8 word"
type_synonym u32 = "32 word"
type_synonym u64 = "64 word"
type_synonym VALUE = "64 word"

named_theorems idt_simps \<open>the fields of a table of id_table.c after an update\<close>
named_theorems bary_simps \<open>the value of a digit array and its parts (bignum.c)\<close>
named_theorems int_simps \<open>the values of integers and their parts (bignum.c, numeric.c)\<close>
named_theorems sync_simps \<open>the small accessors of thread_sync.c\<close>

section \<open>Loops as iteration up to the first stopping state\<close>

text \<open>
  The search loops of the hash tables all have the shape
  \<open>for (;;) { if (stop) return r; advance; }\<close>.  Such a loop returns what the first stopping
  state of the iteration returns.
\<close>

lemma loop_reaches_first_stop:
  assumes step: "\<And>s. \<not> stop s \<Longrightarrow> f s = f (nxt s)"
    and ex: "stop ((nxt ^^ n) s)"
  shows "\<exists>N \<le> n. stop ((nxt ^^ N) s) \<and> (\<forall>m < N. \<not> stop ((nxt ^^ m) s)) \<and> f s = f ((nxt ^^ N) s)"
proof -
  define N where "N = (LEAST k. stop ((nxt ^^ k) s))"
  have stopN: "stop ((nxt ^^ N) s)" and leN: "N \<le> n"
    unfolding N_def using ex by (auto intro: LeastI Least_le)
  have before: "\<not> stop ((nxt ^^ m) s)" if "m < N" for m
    using that not_less_Least unfolding N_def by blast
  have "f s = f ((nxt ^^ m) s)" if "m \<le> N" for m
    using that
  proof (induction m)
    case 0
    then show ?case by simp
  next
    case (Suc m)
    then have "f s = f ((nxt ^^ m) s)" and "\<not> stop ((nxt ^^ m) s)"
      using before by simp_all
    then show ?case using step by simp
  qed
  then show ?thesis using stopN leN before by blast
qed

section \<open>Bit lengths\<close>

fun bit_width :: "nat \<Rightarrow> nat" where
  "bit_width n = (if n = 0 then 0 else Suc (bit_width (n div 2)))"

declare bit_width.simps [simp del]

lemma bit_width_0 [simp]: "bit_width 0 = 0"
  by (simp add: bit_width.simps)

lemma bit_width_le_iff: "bit_width n \<le> k \<longleftrightarrow> n < 2 ^ k"
proof (induction n arbitrary: k rule: bit_width.induct)
  case (1 n)
  show ?case
  proof (cases "n = 0")
    case True
    then show ?thesis by simp
  next
    case False
    note n0 = this
    show ?thesis
    proof (cases k)
      case 0
      with n0 show ?thesis by (simp add: bit_width.simps [of n])
    next
      case (Suc j)
      have "bit_width n \<le> k \<longleftrightarrow> bit_width (n div 2) \<le> j"
        using n0 Suc by (simp add: bit_width.simps [of n])
      also have "\<dots> \<longleftrightarrow> n div 2 < 2 ^ j"
        using "1.IH" n0 by simp
      also have "\<dots> \<longleftrightarrow> n < 2 ^ k"
        using Suc by (auto simp: div_less_iff_less_mult)
      finally show ?thesis .
    qed
  qed
qed

lemma bit_width_less_iff: "k < bit_width n \<longleftrightarrow> 2 ^ k \<le> n"
  using bit_width_le_iff [of n k] by auto

lemma bit_width_bounds: "n < 2 ^ bit_width n" "n \<noteq> 0 \<Longrightarrow> 2 ^ (bit_width n - 1) \<le> n"
proof -
  show "n < 2 ^ bit_width n" using bit_width_le_iff by blast
  assume "n \<noteq> 0"
  then have "bit_width n - 1 < bit_width n" by (simp add: bit_width.simps [of n])
  then show "2 ^ (bit_width n - 1) \<le> n" by (simp add: bit_width_less_iff)
qed

lemma bit_width_div_exp: "bit_width (n div 2 ^ s) = bit_width n - s"
proof -
  have "bit_width (n div 2 ^ s) \<le> k \<longleftrightarrow> bit_width n - s \<le> k" for k
    by (simp add: bit_width_le_iff div_less_iff_less_mult le_diff_conv flip: power_add)
  then show ?thesis by (meson le_antisym order_refl)
qed

lemma bit_width_eq_0_iff [simp]: "bit_width n = 0 \<longleftrightarrow> n = 0"
  by (subst bit_width.simps) simp

section \<open>Words\<close>

lemma unat_mask_and: "p \<le> LENGTH('a) \<Longrightarrow> unat ((w :: 'a::len word) AND mask p) = unat w mod 2 ^ p"
  by (metis take_bit_eq_mask take_bit_eq_mod unsigned_take_bit_eq)

lemma unat_drop_bit_div: "unat (drop_bit s (w :: 'a::len word)) = unat w div 2 ^ s"
  by (metis drop_bit_eq_div unat_drop_bit_eq)

section \<open>Lists\<close>

lemma take_Suc_update: "i < length xs \<Longrightarrow> take (Suc i) (xs[i := x]) = take i xs @ [x]"
  by (simp add: take_Suc_conv_app_nth)

lemma filter_take_update_drop:
  assumes "i < n" "n \<le> length xs"
  shows "filter P (take n (xs[i := x])) =
    filter P (take i xs) @ (if P x then [x] else []) @ filter P (take (n - Suc i) (drop (Suc i) xs))"
proof -
  have "take n (xs[i := x]) = take i xs @ x # take (n - Suc i) (drop (Suc i) xs)"
    using assms by (simp add: upd_conv_take_nth_drop take_Cons' min_def)
  then show ?thesis by simp
qed

lemma filter_take_split:
  assumes "i < n" "n \<le> length xs"
  shows "filter P (take n xs) =
    filter P (take i xs) @ (if P (xs ! i) then [xs ! i] else []) @ filter P (take (n - Suc i) (drop (Suc i) xs))"
  using filter_take_update_drop [OF assms, of P "xs ! i"] by simp

end
