(* ===== verification/Bits.thy ===== *)
theory Bits
  imports Ruby_Prelude
begin

text \<open>
  The leading-zero counts of internal/bits.h, in the portable form (the branch without compiler
  builtins): a binary search over shifted copies of the argument.  The result is the width minus
  the bit length of the argument.
\<close>

section \<open>Definitions\<close>

text \<open>
  One line \<open>y = x >> s; if (y) {n -= s; x = y;}\<close> of the search, on the pair of \<open>n\<close> and \<open>x\<close>.
\<close>

definition nlz_step :: "nat \<Rightarrow> nat \<times> 'a::len word \<Rightarrow> nat \<times> 'a word" where
  "nlz_step s p = (case p of (n, x) \<Rightarrow>
     (let y = drop_bit s x in if y \<noteq> 0 then (n - s, y) else (n, x)))"

definition nlz_int32 :: "u32 \<Rightarrow> nat" where
  "nlz_int32 x =
    (case nlz_step 2 (nlz_step 4 (nlz_step 8 (nlz_step 16 (32, x)))) of
       (n, x) \<Rightarrow> if drop_bit 1 x \<noteq> 0 then n - 2 else n - unat x)"

definition nlz_int64 :: "u64 \<Rightarrow> nat" where
  "nlz_int64 x =
    (case nlz_step 2 (nlz_step 4 (nlz_step 8 (nlz_step 16 (nlz_step 32 (64, x))))) of
       (n, x) \<Rightarrow> if drop_bit 1 x \<noteq> 0 then n - 2 else n - unat x)"

definition nlz_int128 :: "128 word \<Rightarrow> nat" where
  "nlz_int128 x =
    (let y = ucast (drop_bit 64 x) :: u64
     in if x = 0 then 128
        else if y = 0 then nlz_int64 (ucast x) + 64
        else nlz_int64 y)"

text \<open>On an LP64 target \<open>uintptr_t\<close> is not an \<open>unsigned int\<close> but an \<open>unsigned long\<close> of 64 bits.\<close>

definition nlz_long :: "u64 \<Rightarrow> nat" where
  "nlz_long x = nlz_int64 x"

definition nlz_intptr :: "u64 \<Rightarrow> nat" where
  "nlz_intptr x = nlz_long x"

section \<open>One halving step\<close>

lemma nlz_step:
  assumes "bit_width (unat x) \<le> 2 * s" "2 * s \<le> n" "nlz_step s (n, x) = (n', x')"
  shows "bit_width (unat x') \<le> s \<and> s \<le> n' \<and> n' - bit_width (unat x') = n - bit_width (unat x)"
proof (cases "drop_bit s x = 0")
  case True
  then have "unat x div 2 ^ s = 0" by (metis unat_drop_bit_div unat_0)
  then have "bit_width (unat x) \<le> s"
    using bit_width_div_exp [of "unat x" s] by simp
  with True assms show ?thesis by (auto simp: nlz_step_def)
next
  case False
  then have eq: "n' = n - s" "x' = drop_bit s x"
    using assms(3) by (auto simp: nlz_step_def Let_def)
  have "unat x div 2 ^ s \<noteq> 0"
    using False by (metis unat_drop_bit_div unat_eq_zero)
  then have "bit_width (unat x) - s \<noteq> 0"
    using bit_width_div_exp [of "unat x" s] by (metis bit_width_eq_0_iff)
  with assms eq show ?thesis by (auto simp: unat_drop_bit_div bit_width_div_exp)
qed

lemma nlz_finish:
  assumes "bit_width (unat x) \<le> 2" "2 \<le> n"
  shows "(if drop_bit 1 x \<noteq> 0 then n - 2 else n - unat x) = n - bit_width (unat x)"
proof -
  have "unat x < 4" using assms by (simp add: bit_width_le_iff)
  moreover have "drop_bit 1 x = 0 \<longleftrightarrow> unat x div 2 = 0"
    by (metis unat_drop_bit_div unat_eq_zero power_one_right)
  moreover have "bit_width 1 = 1" "bit_width 2 = 2" "bit_width 3 = 2"
    by (simp_all add: bit_width.simps)
  ultimately show ?thesis
    using less_Suc_eq [of "unat x" 3] less_Suc_eq [of "unat x" 2] less_Suc_eq [of "unat x" 1]
    by auto
qed

lemma nlz_int64_bit_width: "nlz_int64 x = 64 - bit_width (unat x)"
proof -
  obtain n1 x1 where s1: "nlz_step 32 (64, x) = (n1, x1)" by fastforce
  obtain n2 x2 where s2: "nlz_step 16 (n1, x1) = (n2, x2)" by fastforce
  obtain n3 x3 where s3: "nlz_step 8 (n2, x2) = (n3, x3)" by fastforce
  obtain n4 x4 where s4: "nlz_step 4 (n3, x3) = (n4, x4)" by fastforce
  obtain n5 x5 where s5: "nlz_step 2 (n4, x4) = (n5, x5)" by fastforce
  have "bit_width (unat x) \<le> 2 * 32"
    using unsigned_less [of x] by (simp add: bit_width_le_iff)
  then have "bit_width (unat x1) \<le> 32 \<and> 32 \<le> n1 \<and> n1 - bit_width (unat x1) = 64 - bit_width (unat x)"
    using nlz_step [OF _ _ s1] by simp
  then have "bit_width (unat x2) \<le> 16 \<and> 16 \<le> n2 \<and> n2 - bit_width (unat x2) = 64 - bit_width (unat x)"
    using nlz_step [OF _ _ s2] by simp
  then have "bit_width (unat x3) \<le> 8 \<and> 8 \<le> n3 \<and> n3 - bit_width (unat x3) = 64 - bit_width (unat x)"
    using nlz_step [OF _ _ s3] by simp
  then have "bit_width (unat x4) \<le> 4 \<and> 4 \<le> n4 \<and> n4 - bit_width (unat x4) = 64 - bit_width (unat x)"
    using nlz_step [OF _ _ s4] by simp
  then have "bit_width (unat x5) \<le> 2 \<and> 2 \<le> n5 \<and> n5 - bit_width (unat x5) = 64 - bit_width (unat x)"
    using nlz_step [OF _ _ s5] by simp
  then show ?thesis
    by (simp only: nlz_int64_def s1 s2 s3 s4 s5 prod.case nlz_finish)
qed

lemma nlz_int32_bit_width: "nlz_int32 x = 32 - bit_width (unat x)"
proof -
  obtain n2 x2 where s2: "nlz_step 16 (32, x) = (n2, x2)" by fastforce
  obtain n3 x3 where s3: "nlz_step 8 (n2, x2) = (n3, x3)" by fastforce
  obtain n4 x4 where s4: "nlz_step 4 (n3, x3) = (n4, x4)" by fastforce
  obtain n5 x5 where s5: "nlz_step 2 (n4, x4) = (n5, x5)" by fastforce
  have "bit_width (unat x) \<le> 2 * 16"
    using unsigned_less [of x] by (simp add: bit_width_le_iff)
  then have "bit_width (unat x2) \<le> 16 \<and> 16 \<le> n2 \<and> n2 - bit_width (unat x2) = 32 - bit_width (unat x)"
    using nlz_step [OF _ _ s2] by simp
  then have "bit_width (unat x3) \<le> 8 \<and> 8 \<le> n3 \<and> n3 - bit_width (unat x3) = 32 - bit_width (unat x)"
    using nlz_step [OF _ _ s3] by simp
  then have "bit_width (unat x4) \<le> 4 \<and> 4 \<le> n4 \<and> n4 - bit_width (unat x4) = 32 - bit_width (unat x)"
    using nlz_step [OF _ _ s4] by simp
  then have "bit_width (unat x5) \<le> 2 \<and> 2 \<le> n5 \<and> n5 - bit_width (unat x5) = 32 - bit_width (unat x)"
    using nlz_step [OF _ _ s5] by simp
  then show ?thesis
    by (simp only: nlz_int32_def s2 s3 s4 s5 prod.case nlz_finish)
qed

lemma nlz_intptr_bit_width: "nlz_intptr x = 64 - bit_width (unat x)"
  by (simp add: nlz_intptr_def nlz_long_def nlz_int64_bit_width)

lemma nlz_int128_bit_width: "nlz_int128 x = 128 - bit_width (unat x)"
proof -
  have lt: "unat x < 2 ^ 128" using unsigned_less [of x] by simp
  have hi: "unat (ucast (drop_bit 64 x) :: u64) = unat x div 2 ^ 64"
  proof -
    have "unat x div 2 ^ 64 < 2 ^ 64" using lt by (simp add: less_mult_imp_div_less)
    then show ?thesis
      by (simp only: unsigned_ucast_eq unat_drop_bit_div) (simp add: take_bit_nat_eq_self_iff)
  qed
  show ?thesis
  proof (cases "unat x div 2 ^ 64 = 0")
    case True
    then have small: "unat x < 2 ^ 64" by (simp add: div_eq_0_iff)
    then have "unat (ucast x :: u64) = unat x"
      by (simp only: unsigned_ucast_eq) (simp add: take_bit_nat_eq_self_iff)
    moreover have "bit_width (unat x) \<le> 64" using small by (simp add: bit_width_le_iff)
    moreover have "(ucast (drop_bit 64 x) :: u64) = 0" using hi True by (metis unat_eq_zero)
    ultimately show ?thesis
      by (auto simp: nlz_int128_def Let_def nlz_int64_bit_width)
  next
    case False
    then have "(ucast (drop_bit 64 x) :: u64) \<noteq> 0" using hi by auto
    moreover have "x \<noteq> 0" using False by auto
    moreover have "64 < bit_width (unat x)"
      using False by (simp add: bit_width_less_iff div_eq_0_iff)
    ultimately show ?thesis
      by (simp add: nlz_int128_def Let_def nlz_int64_bit_width hi bit_width_div_exp del: power_numeral)
  qed
qed

end
