(* ===== verification/St_Table.thy ===== *)
theory St_Table
  imports Bits
begin

text \<open>
  The hash table of st.c (LP64, \<open>RUBY\<close> defined, \<open>QUADRATIC_PROBE\<close> and \<open>HASH_LOG\<close> not
  defined): an array of entries in insertion order and, for larger tables, an open-addressing
  array of bins that hold entry indices.  One definition per C function, in the order of the
  file.

  Conventions.  A table is a record; a C function that writes through \<open>st_table *tab\<close> returns the
  updated record.  \<open>tab->bins\<close> is \<open>None\<close> for \<open>NULL\<close>, else the list of the bin values, one
  element per bin.  Entry indices and counters are natural numbers (they never exceed
  \<open>2 ^ 62\<close>); hash values, bin indices and the perturbation are 64-bit words, since their
  arithmetic wraps.  \<open>UNDEFINED_ENTRY_IND\<close> and \<open>UNDEFINED_BIN_IND\<close> are \<open>None\<close>.  A search loop
  \<open>for (;;)\<close> is a partial function into \<open>option\<close>: the outer \<open>None\<close> is "does not return".
  \<open>rb_raise(rb_eRuntimeError, "st_table too big")\<close> in \<open>get_power2\<close> is an outer \<open>None\<close> too.
  The comparison and hash functions of a table's type are pure functions of the keys: they do
  not change the table, so \<open>rebuilt_p\<close> of \<open>DO_PTR_EQUAL_CHECK\<close> is constantly false and the
  \<open>REBUILT_TABLE_*\<close> results and \<open>goto retry\<close> branches do not arise.
\<close>

section \<open>Data\<close>

type_synonym st_data_t = "64 word"
type_synonym st_index_t = "64 word"
type_synonym st_hash_t = "64 word"

record st_hash_type =
  type_compare :: "st_data_t \<Rightarrow> st_data_t \<Rightarrow> int"
  type_hash :: "st_data_t \<Rightarrow> st_index_t"

record st_table_entry =
  e_hash :: st_hash_t
  e_key :: st_data_t
  e_record :: st_data_t

record st_table =
  entry_power :: nat
  bin_power :: nat
  size_ind :: nat
  rebuilds_num :: u32
  st_type :: st_hash_type
  num_entries :: nat
  bins :: "nat list option"
  entries_start :: nat
  entries_bound :: nat
  entries :: "st_table_entry list"

text \<open>
  Freshly allocated entries hold indeterminate bytes; the model fills them with the pattern of
  \<open>ST_INIT_VAL\<close>.
\<close>

definition ST_INIT_VAL :: st_data_t where
  "ST_INIT_VAL = 0xafafafafafafafaf"

definition uninit_entry :: st_table_entry where
  "uninit_entry = \<lparr>e_hash = ST_INIT_VAL, e_key = ST_INIT_VAL, e_record = ST_INIT_VAL\<rparr>"

definition EQUAL :: "st_table \<Rightarrow> st_data_t \<Rightarrow> st_data_t \<Rightarrow> bool" where
  "EQUAL tab x y \<longleftrightarrow> x = y \<or> type_compare (st_type tab) x y = 0"

definition PTR_EQUAL :: "st_table \<Rightarrow> st_table_entry \<Rightarrow> st_hash_t \<Rightarrow> st_data_t \<Rightarrow> bool" where
  "PTR_EQUAL tab ptr hash_val key \<longleftrightarrow> e_hash ptr = hash_val \<and> EQUAL tab key (e_key ptr)"

section \<open>Features of all possible size tables\<close>

definition MAX_POWER2 :: nat where
  "MAX_POWER2 = 62"

text \<open>Rows: \<open>entry_power\<close>, \<open>bin_power\<close>, \<open>size_ind\<close>, \<open>bins_words\<close>.\<close>

definition features :: "(nat \<times> nat \<times> nat \<times> nat) list" where
  "features = [
    (0, 1, 0, 0x0),
    (1, 2, 0, 0x1),
    (2, 3, 0, 0x1),
    (3, 4, 0, 0x2),
    (4, 5, 0, 0x4),
    (5, 6, 0, 0x8),
    (6, 7, 0, 0x10),
    (7, 8, 0, 0x20),
    (8, 9, 1, 0x80),
    (9, 10, 1, 0x100),
    (10, 11, 1, 0x200),
    (11, 12, 1, 0x400),
    (12, 13, 1, 0x800),
    (13, 14, 1, 0x1000),
    (14, 15, 1, 0x2000),
    (15, 16, 1, 0x4000),
    (16, 17, 2, 0x10000),
    (17, 18, 2, 0x20000),
    (18, 19, 2, 0x40000),
    (19, 20, 2, 0x80000),
    (20, 21, 2, 0x100000),
    (21, 22, 2, 0x200000),
    (22, 23, 2, 0x400000),
    (23, 24, 2, 0x800000),
    (24, 25, 2, 0x1000000),
    (25, 26, 2, 0x2000000),
    (26, 27, 2, 0x4000000),
    (27, 28, 2, 0x8000000),
    (28, 29, 2, 0x10000000),
    (29, 30, 2, 0x20000000),
    (30, 31, 2, 0x40000000),
    (31, 32, 2, 0x80000000),
    (32, 33, 3, 0x200000000),
    (33, 34, 3, 0x400000000),
    (34, 35, 3, 0x800000000),
    (35, 36, 3, 0x1000000000),
    (36, 37, 3, 0x2000000000),
    (37, 38, 3, 0x4000000000),
    (38, 39, 3, 0x8000000000),
    (39, 40, 3, 0x10000000000),
    (40, 41, 3, 0x20000000000),
    (41, 42, 3, 0x40000000000),
    (42, 43, 3, 0x80000000000),
    (43, 44, 3, 0x100000000000),
    (44, 45, 3, 0x200000000000),
    (45, 46, 3, 0x400000000000),
    (46, 47, 3, 0x800000000000),
    (47, 48, 3, 0x1000000000000),
    (48, 49, 3, 0x2000000000000),
    (49, 50, 3, 0x4000000000000),
    (50, 51, 3, 0x8000000000000),
    (51, 52, 3, 0x10000000000000),
    (52, 53, 3, 0x20000000000000),
    (53, 54, 3, 0x40000000000000),
    (54, 55, 3, 0x80000000000000),
    (55, 56, 3, 0x100000000000000),
    (56, 57, 3, 0x200000000000000),
    (57, 58, 3, 0x400000000000000),
    (58, 59, 3, 0x800000000000000),
    (59, 60, 3, 0x1000000000000000),
    (60, 61, 3, 0x2000000000000000),
    (61, 62, 3, 0x4000000000000000),
    (62, 63, 3, 0x8000000000000000)]"

definition feature_bin_power :: "nat \<Rightarrow> nat" where
  "feature_bin_power n = (case features ! n of (_, b, _, _) \<Rightarrow> b)"

definition feature_size_ind :: "nat \<Rightarrow> nat" where
  "feature_size_ind n = (case features ! n of (_, _, s, _) \<Rightarrow> s)"

definition feature_bins_words :: "nat \<Rightarrow> nat" where
  "feature_bins_words n = (case features ! n of (_, _, _, w) \<Rightarrow> w)"

section \<open>Reserved values and accessors\<close>

definition RESERVED_HASH_VAL :: st_hash_t where
  "RESERVED_HASH_VAL = NOT 0"

definition RESERVED_HASH_SUBSTITUTION_VAL :: st_hash_t where
  "RESERVED_HASH_SUBSTITUTION_VAL = 0"

definition type_do_hash :: "st_hash_type \<Rightarrow> st_data_t \<Rightarrow> st_hash_t" where
  "type_do_hash ty key =
    (let hash = type_hash ty key
     in if hash = RESERVED_HASH_VAL then RESERVED_HASH_SUBSTITUTION_VAL else hash)"

definition do_hash :: "st_data_t \<Rightarrow> st_table \<Rightarrow> st_hash_t" where
  "do_hash key tab = type_do_hash (st_type tab) key"

definition MINIMAL_POWER2 :: nat where
  "MINIMAL_POWER2 = 2"

definition MAX_POWER2_FOR_TABLES_WITHOUT_BINS :: nat where
  "MAX_POWER2_FOR_TABLES_WITHOUT_BINS = 4"

definition get_power2 :: "st_index_t \<Rightarrow> nat option" where
  "get_power2 siz =
    (let n = 64 - nlz_intptr siz
     in if n \<le> MAX_POWER2 then Some (if n < MINIMAL_POWER2 then MINIMAL_POWER2 else n)
        else None)"

text \<open>
  The bin array has bins of 8, 16, 32 or 64 bits, by the table's size index; storing a value
  truncates it to that width.
\<close>

definition bin_bits :: "nat \<Rightarrow> nat" where
  "bin_bits s = (if s = 0 then 8 else if s = 1 then 16 else if s = 2 then 32 else 64)"

definition get_bin :: "nat list \<Rightarrow> st_index_t \<Rightarrow> nat" where
  "get_bin bs n = bs ! unat n"

definition set_bin :: "nat list \<Rightarrow> nat \<Rightarrow> st_index_t \<Rightarrow> nat \<Rightarrow> nat list" where
  "set_bin bs s n v = bs[unat n := v mod 2 ^ bin_bits s]"

definition EMPTY_BIN :: nat where "EMPTY_BIN = 0"
definition DELETED_BIN :: nat where "DELETED_BIN = 1"
definition ENTRY_BASE :: nat where "ENTRY_BASE = 2"

definition EMPTY_BIN_P :: "nat \<Rightarrow> bool" where
  "EMPTY_BIN_P b \<longleftrightarrow> b = EMPTY_BIN"

definition DELETED_BIN_P :: "nat \<Rightarrow> bool" where
  "DELETED_BIN_P b \<longleftrightarrow> b = DELETED_BIN"

definition EMPTY_OR_DELETED_BIN_P :: "nat \<Rightarrow> bool" where
  "EMPTY_OR_DELETED_BIN_P b \<longleftrightarrow> b \<le> DELETED_BIN"

definition MARK_BIN_EMPTY :: "st_table \<Rightarrow> st_index_t \<Rightarrow> st_table" where
  "MARK_BIN_EMPTY tab i = tab\<lparr>bins := map_option (\<lambda>bs. set_bin bs (size_ind tab) i EMPTY_BIN) (bins tab)\<rparr>"

definition MARK_BIN_DELETED :: "st_table \<Rightarrow> st_index_t \<Rightarrow> st_table" where
  "MARK_BIN_DELETED tab i = tab\<lparr>bins := map_option (\<lambda>bs. set_bin bs (size_ind tab) i DELETED_BIN) (bins tab)\<rparr>"

definition tab_set_bin :: "st_table \<Rightarrow> st_index_t \<Rightarrow> nat \<Rightarrow> st_table" where
  "tab_set_bin tab i v = tab\<lparr>bins := map_option (\<lambda>bs. set_bin bs (size_ind tab) i v) (bins tab)\<rparr>"

definition tab_bin :: "st_table \<Rightarrow> st_index_t \<Rightarrow> nat" where
  "tab_bin tab i = (case bins tab of None \<Rightarrow> EMPTY_BIN | Some bs \<Rightarrow> get_bin bs i)"

definition MARK_ENTRY_DELETED :: "st_table_entry \<Rightarrow> st_table_entry" where
  "MARK_ENTRY_DELETED e = e\<lparr>e_hash := RESERVED_HASH_VAL\<rparr>"

definition DELETED_ENTRY_P :: "st_table_entry \<Rightarrow> bool" where
  "DELETED_ENTRY_P e \<longleftrightarrow> e_hash e = RESERVED_HASH_VAL"

definition get_bins_num :: "st_table \<Rightarrow> st_index_t" where
  "get_bins_num tab = push_bit (bin_power tab) 1"

definition bins_mask :: "st_table \<Rightarrow> st_index_t" where
  "bins_mask tab = get_bins_num tab - 1"

definition hash_bin :: "st_hash_t \<Rightarrow> st_table \<Rightarrow> st_index_t" where
  "hash_bin hash_value tab = hash_value AND bins_mask tab"

definition get_allocated_entries :: "st_table \<Rightarrow> nat" where
  "get_allocated_entries tab = 2 ^ entry_power tab"

text \<open>In bytes; \<open>sizeof (st_index_t)\<close> is 8.\<close>

definition bins_size :: "st_table \<Rightarrow> nat" where
  "bins_size tab = feature_bins_words (entry_power tab) * 8"

text \<open>\<open>memset\<close> over \<open>bins_size\<close> bytes, seen as bins of the table's width.\<close>

definition initialize_bins :: "st_table \<Rightarrow> st_table" where
  "initialize_bins tab =
    tab\<lparr>bins := Some (replicate (bins_size tab div (bin_bits (size_ind tab) div 8)) EMPTY_BIN)\<rparr>"

definition make_tab_empty :: "st_table \<Rightarrow> st_table" where
  "make_tab_empty tab =
    (let tab = tab\<lparr>num_entries := 0, entries_start := 0, entries_bound := 0\<rparr>
     in if bins tab \<noteq> None then initialize_bins tab else tab)"

section \<open>Creating, clearing\<close>

definition st_init_table_with_size :: "st_hash_type \<Rightarrow> st_index_t \<Rightarrow> st_table option" where
  "st_init_table_with_size type siz =
    do {
      n \<leftarrow> get_power2 siz;
      let tab = \<lparr>entry_power = n, bin_power = feature_bin_power n, size_ind = feature_size_ind n,
                 rebuilds_num = 0, st_type = type, num_entries = 0,
                 bins = (if n \<le> MAX_POWER2_FOR_TABLES_WITHOUT_BINS then None else Some []),
                 entries_start = 0, entries_bound = 0,
                 entries = replicate (2 ^ n) uninit_entry\<rparr>;
      Some ((make_tab_empty tab)\<lparr>rebuilds_num := 0\<rparr>)
    }"

definition st_init_table :: "st_hash_type \<Rightarrow> st_table option" where
  "st_init_table type = st_init_table_with_size type 0"

definition st_clear :: "st_table \<Rightarrow> st_table" where
  "st_clear tab = (let tab = make_tab_empty tab in tab\<lparr>rebuilds_num := rebuilds_num tab + 1\<rparr>)"

text \<open>\<open>sizeof(st_table)\<close> is 56 and \<open>sizeof(st_table_entry)\<close> is 24.\<close>

definition st_memsize :: "st_table \<Rightarrow> nat" where
  "st_memsize tab = 56 + (if bins tab = None then 0 else bins_size tab) + get_allocated_entries tab * 24"

definition REBUILD_THRESHOLD :: nat where
  "REBUILD_THRESHOLD = 4"

section \<open>Searching\<close>

definition secondary_hash :: "st_index_t \<Rightarrow> st_table \<Rightarrow> st_hash_t \<Rightarrow> st_index_t \<times> st_hash_t" where
  "secondary_hash ind tab perterb =
    (let perterb = drop_bit 11 perterb;
         ind = push_bit 2 ind + ind + perterb + 1
     in (hash_bin ind tab, perterb))"

function find_entry_from :: "st_table \<Rightarrow> st_hash_t \<Rightarrow> st_data_t \<Rightarrow> nat \<Rightarrow> nat option" where
  "find_entry_from tab hash_value key i =
    (if i < entries_bound tab then
       (if PTR_EQUAL tab (entries tab ! i) hash_value key then Some i
        else find_entry_from tab hash_value key (Suc i))
     else None)"
  by pat_completeness auto
termination
  by (relation "measure (\<lambda>(tab, _, _, i). entries_bound tab - i)") auto

definition find_entry :: "st_table \<Rightarrow> st_hash_t \<Rightarrow> st_data_t \<Rightarrow> nat option" where
  "find_entry tab hash_value key = find_entry_from tab hash_value key (entries_start tab)"

text \<open>The result is the bin's value, the entry's index plus \<open>ENTRY_BASE\<close>.\<close>

partial_function (option) find_table_entry_ind_loop ::
  "st_table \<Rightarrow> st_hash_t \<Rightarrow> st_data_t \<Rightarrow> st_index_t \<times> st_hash_t \<Rightarrow> nat option option" where
  "find_table_entry_ind_loop tab hash_value key s =
    (let bin = tab_bin tab (fst s) in
     if \<not> EMPTY_OR_DELETED_BIN_P bin \<and> PTR_EQUAL tab (entries tab ! (bin - ENTRY_BASE)) hash_value key
     then Some (Some bin)
     else if EMPTY_BIN_P bin then Some None
     else find_table_entry_ind_loop tab hash_value key (secondary_hash (fst s) tab (snd s)))"

definition find_table_entry_ind :: "st_table \<Rightarrow> st_hash_t \<Rightarrow> st_data_t \<Rightarrow> nat option option" where
  "find_table_entry_ind tab hash_value key =
    find_table_entry_ind_loop tab hash_value key (hash_bin hash_value tab, hash_value)"

partial_function (option) find_table_bin_ind_loop ::
  "st_table \<Rightarrow> st_hash_t \<Rightarrow> st_data_t \<Rightarrow> st_index_t \<times> st_hash_t \<Rightarrow> st_index_t option option" where
  "find_table_bin_ind_loop tab hash_value key s =
    (let bin = tab_bin tab (fst s) in
     if \<not> EMPTY_OR_DELETED_BIN_P bin \<and> PTR_EQUAL tab (entries tab ! (bin - ENTRY_BASE)) hash_value key
     then Some (Some (fst s))
     else if EMPTY_BIN_P bin then Some None
     else find_table_bin_ind_loop tab hash_value key (secondary_hash (fst s) tab (snd s)))"

definition find_table_bin_ind :: "st_table \<Rightarrow> st_hash_t \<Rightarrow> st_data_t \<Rightarrow> st_index_t option option" where
  "find_table_bin_ind tab hash_value key =
    find_table_bin_ind_loop tab hash_value key (hash_bin hash_value tab, hash_value)"

partial_function (option) find_table_bin_ind_direct_loop ::
  "st_table \<Rightarrow> st_index_t \<times> st_hash_t \<Rightarrow> st_index_t option" where
  "find_table_bin_ind_direct_loop tab s =
    (if EMPTY_OR_DELETED_BIN_P (tab_bin tab (fst s)) then Some (fst s)
     else find_table_bin_ind_direct_loop tab (secondary_hash (fst s) tab (snd s)))"

definition find_table_bin_ind_direct :: "st_table \<Rightarrow> st_hash_t \<Rightarrow> st_data_t \<Rightarrow> st_index_t option" where
  "find_table_bin_ind_direct tab hash_value key =
    find_table_bin_ind_direct_loop tab (hash_bin hash_value tab, hash_value)"

text \<open>
  The result is the table (its entry counter incremented and a reused bin emptied when the key is
  not there), the bin index, and the found bin value or \<open>None\<close> for \<open>UNDEFINED_ENTRY_IND\<close>.  The loop
  carries the first deleted bin it met.
\<close>

partial_function (option) find_table_bin_ptr_and_reserve_loop ::
  "st_table \<Rightarrow> st_hash_t \<Rightarrow> st_data_t \<Rightarrow> (st_index_t \<times> st_hash_t) \<times> st_index_t option \<Rightarrow>
   (st_table \<times> st_index_t \<times> nat option) option" where
  "find_table_bin_ptr_and_reserve_loop tab hash_value key s =
    (let ind = fst (fst s); perterb = snd (fst s); first_deleted_bin_ind = snd s;
         entry_index = tab_bin tab ind in
     if EMPTY_BIN_P entry_index then
       (let tab = tab\<lparr>num_entries := Suc (num_entries tab)\<rparr>
        in case first_deleted_bin_ind of
             None \<Rightarrow> Some (tab, ind, None)
           | Some d \<Rightarrow> Some (MARK_BIN_EMPTY tab d, d, None))
     else if \<not> DELETED_BIN_P entry_index \<and>
         PTR_EQUAL tab (entries tab ! (entry_index - ENTRY_BASE)) hash_value key
     then Some (tab, ind, Some entry_index)
     else find_table_bin_ptr_and_reserve_loop tab hash_value key
       (secondary_hash ind tab perterb,
        if DELETED_BIN_P entry_index \<and> first_deleted_bin_ind = None then Some ind
        else first_deleted_bin_ind))"

definition find_table_bin_ptr_and_reserve ::
  "st_table \<Rightarrow> st_hash_t \<Rightarrow> st_data_t \<Rightarrow> (st_table \<times> st_index_t \<times> nat option) option" where
  "find_table_bin_ptr_and_reserve tab hash_value key =
    find_table_bin_ptr_and_reserve_loop tab hash_value key ((hash_bin hash_value tab, hash_value), None)"

section \<open>Rebuilding\<close>

text \<open>
  The copying loop of \<open>rebuild_table\<close>.  With \<open>in_place\<close> the new entries are the table's own
  array (\<open>new_tab = tab\<close>), so entry \<open>i\<close> is read from the array being written.
\<close>

function rebuild_table_loop ::
  "bool \<Rightarrow> st_table_entry list \<Rightarrow> nat \<Rightarrow> nat \<Rightarrow> nat \<Rightarrow> st_table \<Rightarrow> st_table option" where
  "rebuild_table_loop in_place src bound i ni new_tab =
    (if i < bound then
       (let curr = (if in_place then entries new_tab else src) ! i in
        if DELETED_ENTRY_P curr then rebuild_table_loop in_place src bound (Suc i) ni new_tab
        else do {
          let new_tab = new_tab\<lparr>entries := (entries new_tab)[ni := curr]\<rparr>;
          new_tab \<leftarrow> (if bins new_tab = None then Some new_tab
                      else do {
                        bin_ind \<leftarrow> find_table_bin_ind_direct new_tab (e_hash curr) (e_key curr);
                        Some (tab_set_bin new_tab bin_ind (ni + ENTRY_BASE))
                      });
          rebuild_table_loop in_place src bound (Suc i) (Suc ni)
            (new_tab\<lparr>num_entries := Suc (num_entries new_tab)\<rparr>)
        })
     else Some new_tab)"
  by pat_completeness auto
termination
  by (relation "measure (\<lambda>(_, _, bound, i, _, _). bound - i)") auto

definition rebuild_table :: "st_table \<Rightarrow> st_table option" where
  "rebuild_table tab =
    (if (2 * num_entries tab \<le> get_allocated_entries tab \<and>
         REBUILD_THRESHOLD * num_entries tab > get_allocated_entries tab) \<or>
        num_entries tab < 2 ^ MINIMAL_POWER2
     then do {
       let start = entries_start tab;
       let tab = tab\<lparr>num_entries := 0\<rparr>;
       let tab = (if bins tab \<noteq> None then initialize_bins tab else tab);
       tab \<leftarrow> rebuild_table_loop True (entries tab) (entries_bound tab) start 0 tab;
       Some (tab\<lparr>entries_start := 0, entries_bound := num_entries tab,
                 rebuilds_num := rebuilds_num tab + 1\<rparr>)
     }
     else do {
       new_tab \<leftarrow> st_init_table_with_size (st_type tab) (of_nat (2 * num_entries tab - 1));
       new_tab \<leftarrow> rebuild_table_loop False (entries tab) (entries_bound tab) (entries_start tab) 0 new_tab;
       Some (tab\<lparr>entry_power := entry_power new_tab, bin_power := bin_power new_tab,
                 size_ind := size_ind new_tab, bins := bins new_tab, entries := entries new_tab,
                 entries_start := 0, entries_bound := num_entries tab,
                 rebuilds_num := rebuilds_num tab + 1\<rparr>)
     })"

definition rebuild_table_if_necessary :: "st_table \<Rightarrow> st_table option" where
  "rebuild_table_if_necessary tab =
    (if entries_bound tab = get_allocated_entries tab then rebuild_table tab else Some tab)"

section \<open>Lookup\<close>

text \<open>The entry's index, from either search.\<close>

definition st_find_entry_index :: "st_table \<Rightarrow> st_hash_t \<Rightarrow> st_data_t \<Rightarrow> nat option option" where
  "st_find_entry_index tab hash key =
    (if bins tab = None then Some (find_entry tab hash key)
     else do {
       bin \<leftarrow> find_table_entry_ind tab hash key;
       Some (map_option (\<lambda>b. b - ENTRY_BASE) bin)
     })"

text \<open>\<open>Some None\<close> is the return value 0; \<open>Some (Some v)\<close> is 1 with \<open>*value = v\<close>.\<close>

definition st_lookup :: "st_table \<Rightarrow> st_data_t \<Rightarrow> st_data_t option option" where
  "st_lookup tab key =
    do {
      bin \<leftarrow> st_find_entry_index tab (do_hash key tab) key;
      Some (map_option (\<lambda>b. e_record (entries tab ! b)) bin)
    }"

definition st_get_key :: "st_table \<Rightarrow> st_data_t \<Rightarrow> st_data_t option option" where
  "st_get_key tab key =
    do {
      bin \<leftarrow> st_find_entry_index tab (do_hash key tab) key;
      Some (map_option (\<lambda>b. e_key (entries tab ! b)) bin)
    }"

section \<open>Insertion\<close>

text \<open>
  The common search of \<open>st_insert\<close> and \<open>st_insert2\<close>: the table after the reservation, the bin
  to fill (\<open>None\<close> without bins) and the index of the existing entry, if any.
\<close>

definition st_reserve :: "st_table \<Rightarrow> st_hash_t \<Rightarrow> st_data_t \<Rightarrow>
    (st_table \<times> st_index_t option \<times> nat option) option" where
  "st_reserve tab hash_value key =
    (if bins tab = None then
       (case find_entry tab hash_value key of
          None \<Rightarrow> Some (tab\<lparr>num_entries := Suc (num_entries tab)\<rparr>, None, None)
        | Some bin \<Rightarrow> Some (tab, None, Some bin))
     else do {
       (tab, bin_ind, bin) \<leftarrow> find_table_bin_ptr_and_reserve tab hash_value key;
       Some (tab, Some bin_ind, map_option (\<lambda>b. b - ENTRY_BASE) bin)
     })"

text \<open>The tail of the insertions: append an entry at the bound and point the bin to it.\<close>

definition st_append_entry :: "st_table \<Rightarrow> st_index_t option \<Rightarrow> st_table_entry \<Rightarrow> st_table" where
  "st_append_entry tab bin_ind entry =
    (let ind = entries_bound tab;
         tab = tab\<lparr>entries_bound := Suc ind, entries := (entries tab)[ind := entry]\<rparr>
     in case bin_ind of None \<Rightarrow> tab | Some b \<Rightarrow> tab_set_bin tab b (ind + ENTRY_BASE))"

definition st_insert2 :: "st_table \<Rightarrow> st_data_t \<Rightarrow> st_data_t \<Rightarrow> (st_data_t \<Rightarrow> st_data_t) \<Rightarrow>
    (st_table \<times> int) option" where
  "st_insert2 tab key val func =
    do {
      let hash_value = do_hash key tab;
      tab \<leftarrow> rebuild_table_if_necessary tab;
      (tab, bin_ind, bin) \<leftarrow> st_reserve tab hash_value key;
      case bin of
        None \<Rightarrow> Some (st_append_entry tab bin_ind
                       \<lparr>e_hash = hash_value, e_key = func key, e_record = val\<rparr>, 0)
      | Some b \<Rightarrow> Some (tab\<lparr>entries := (entries tab)[b := (entries tab ! b)\<lparr>e_record := val\<rparr>]\<rparr>, 1)
    }"

definition st_insert :: "st_table \<Rightarrow> st_data_t \<Rightarrow> st_data_t \<Rightarrow> (st_table \<times> int) option" where
  "st_insert tab key val =
    do {
      let hash_value = do_hash key tab;
      tab \<leftarrow> rebuild_table_if_necessary tab;
      (tab, bin_ind, bin) \<leftarrow> st_reserve tab hash_value key;
      case bin of
        None \<Rightarrow> Some (st_append_entry tab bin_ind
                       \<lparr>e_hash = hash_value, e_key = key, e_record = val\<rparr>, 0)
      | Some b \<Rightarrow> Some (tab\<lparr>entries := (entries tab)[b := (entries tab ! b)\<lparr>e_record := val\<rparr>]\<rparr>, 1)
    }"

definition st_add_direct_with_hash ::
  "st_table \<Rightarrow> st_data_t \<Rightarrow> st_data_t \<Rightarrow> st_hash_t \<Rightarrow> st_table option" where
  "st_add_direct_with_hash tab key val hash =
    do {
      tab \<leftarrow> rebuild_table_if_necessary tab;
      let ind = entries_bound tab;
      let tab = tab\<lparr>entries_bound := Suc ind,
                    entries := (entries tab)[ind := \<lparr>e_hash = hash, e_key = key, e_record = val\<rparr>],
                    num_entries := Suc (num_entries tab)\<rparr>;
      if bins tab \<noteq> None then do {
        bin_ind \<leftarrow> find_table_bin_ind_direct tab hash key;
        Some (tab_set_bin tab bin_ind (ind + ENTRY_BASE))
      } else Some tab
    }"

definition st_add_direct :: "st_table \<Rightarrow> st_data_t \<Rightarrow> st_data_t \<Rightarrow> st_table option" where
  "st_add_direct tab key val = st_add_direct_with_hash tab key val (do_hash key tab)"

text \<open>The copy shares nothing with the original; as values the two records are equal.\<close>

definition st_copy :: "st_table \<Rightarrow> st_table" where
  "st_copy old_tab =
    old_tab\<lparr>bins := (case bins old_tab of None \<Rightarrow> None | Some bs \<Rightarrow> Some bs),
            entries := take (get_allocated_entries old_tab) (entries old_tab)\<rparr>"

section \<open>Deletion\<close>

function skip_deleted :: "st_table_entry list \<Rightarrow> nat \<Rightarrow> nat \<Rightarrow> nat" where
  "skip_deleted es bound start =
    (if start < bound \<and> DELETED_ENTRY_P (es ! start) then skip_deleted es bound (Suc start)
     else start)"
  by pat_completeness auto
termination
  by (relation "measure (\<lambda>(_, bound, start). bound - start)") auto

definition update_range_for_deleted :: "st_table \<Rightarrow> nat \<Rightarrow> st_table" where
  "update_range_for_deleted tab n =
    (if entries_start tab = n
     then tab\<lparr>entries_start := skip_deleted (entries tab) (entries_bound tab) (n + 1)\<rparr>
     else tab)"

text \<open>\<open>MARK_ENTRY_DELETED\<close> on the entry at \<open>bin\<close>, and the counter.\<close>

definition st_mark_entry :: "st_table \<Rightarrow> nat \<Rightarrow> st_table" where
  "st_mark_entry tab bin =
    tab\<lparr>entries := (entries tab)[bin := MARK_ENTRY_DELETED (entries tab ! bin)],
        num_entries := num_entries tab - 1\<rparr>"

text \<open>
  The result is the table, the return value, and the final \<open>*key\<close> and \<open>*value\<close>.
\<close>

definition st_general_delete :: "st_table \<Rightarrow> st_data_t \<Rightarrow>
    (st_table \<times> int \<times> st_data_t \<times> st_data_t) option" where
  "st_general_delete tab key =
    do {
      let hash = do_hash key tab;
      found \<leftarrow> (if bins tab = None
                 then Some (map_option (\<lambda>bin. (tab, bin)) (find_entry tab hash key))
                 else do {
                   bin_ind \<leftarrow> find_table_bin_ind tab hash key;
                   Some (map_option (\<lambda>b. (MARK_BIN_DELETED tab b, tab_bin tab b - ENTRY_BASE)) bin_ind)
                 });
      case found of
        None \<Rightarrow> Some (tab, 0, key, 0)
      | Some (tab, bin) \<Rightarrow>
          (let entry = entries tab ! bin
           in Some (update_range_for_deleted (st_mark_entry tab bin) bin, 1, e_key entry, e_record entry))
    }"

definition st_delete :: "st_table \<Rightarrow> st_data_t \<Rightarrow>
    (st_table \<times> int \<times> st_data_t \<times> st_data_t) option" where
  "st_delete tab key = st_general_delete tab key"

text \<open>
  \<open>st_shift\<close>: \<open>*key\<close> is only written when an entry is found, so the result carries the key as an
  option.  A search that failed to find the entry again would index the arrays with
  \<open>UNDEFINED_*_IND\<close>; the model gives that no value (\<open>None\<close>).
\<close>

function st_shift_from :: "st_table \<Rightarrow> nat \<Rightarrow>
    (st_table \<times> int \<times> st_data_t option \<times> st_data_t) option" where
  "st_shift_from tab i =
    (if i < entries_bound tab then
       (let curr = entries tab ! i in
        if DELETED_ENTRY_P curr then st_shift_from tab (Suc i)
        else do {
          (tab, bin) \<leftarrow> (if bins tab = None
                          then map_option (\<lambda>bin. (tab, bin)) (find_entry tab (e_hash curr) (e_key curr))
                          else do {
                            bin_ind \<leftarrow> find_table_bin_ind tab (e_hash curr) (e_key curr);
                            map_option (\<lambda>b. (MARK_BIN_DELETED tab b, tab_bin tab b - ENTRY_BASE)) bin_ind
                          });
          Some (update_range_for_deleted (st_mark_entry tab bin) i, 1, Some (e_key curr), e_record curr)
        })
     else Some (tab, 0, None, 0))"
  by pat_completeness auto
termination
  by (relation "measure (\<lambda>(tab, i). entries_bound tab - i)") auto

definition st_shift :: "st_table \<Rightarrow> (st_table \<times> int \<times> st_data_t option \<times> st_data_t) option" where
  "st_shift tab = st_shift_from tab (entries_start tab)"

section \<open>Update\<close>

datatype st_retval = ST_CONTINUE | ST_STOP | ST_DELETE | ST_CHECK | ST_REPLACE

text \<open>
  The callback gets \<open>*key\<close>, \<open>*value\<close> and \<open>existing\<close> and returns its verdict with the values it
  left in \<open>*key\<close> and \<open>*value\<close>; it does not touch the table.
\<close>

type_synonym st_update_callback_func =
  "st_data_t \<Rightarrow> st_data_t \<Rightarrow> bool \<Rightarrow> st_retval \<times> st_data_t \<times> st_data_t"

definition st_update :: "st_table \<Rightarrow> st_data_t \<Rightarrow> st_update_callback_func \<Rightarrow>
    (st_table \<times> bool) option" where
  "st_update tab key func =
    do {
      let hash = do_hash key tab;
      (found, bin_ind) \<leftarrow>
        (if bins tab = None then Some (find_entry tab hash key, None)
         else do {
           bin_ind \<leftarrow> find_table_bin_ind tab hash key;
           Some (map_option (\<lambda>b. tab_bin tab b - ENTRY_BASE) bin_ind, bin_ind)
         });
      let (key, val) = (case found of None \<Rightarrow> (key, 0)
                        | Some bin \<Rightarrow> (e_key (entries tab ! bin), e_record (entries tab ! bin)));
      let existing = (found \<noteq> None);
      let (retval, key, val) = func key val existing;
      tab \<leftarrow> (case retval of
          ST_CONTINUE \<Rightarrow>
            (case found of
               None \<Rightarrow> st_add_direct_with_hash tab key val hash
             | Some bin \<Rightarrow>
                 Some (tab\<lparr>entries := (entries tab)[bin :=
                   (entries tab ! bin)\<lparr>e_key := key, e_record := val\<rparr>]\<rparr>))
        | ST_DELETE \<Rightarrow>
            (case found of
               None \<Rightarrow> Some tab
             | Some bin \<Rightarrow>
                 (let tab = (case bin_ind of None \<Rightarrow> tab | Some b \<Rightarrow> MARK_BIN_DELETED tab b)
                  in Some (update_range_for_deleted (st_mark_entry tab bin) bin)))
        | _ \<Rightarrow> Some tab);
      Some (tab, existing)
    }"

section \<open>Keys and values\<close>

function st_collect :: "(st_table_entry \<Rightarrow> st_data_t) \<Rightarrow> st_table \<Rightarrow> nat \<Rightarrow> nat \<Rightarrow> st_data_t list" where
  "st_collect field tab siz i =
    (if i < entries_bound tab \<and> siz \<noteq> 0 then
       (if DELETED_ENTRY_P (entries tab ! i) then st_collect field tab siz (Suc i)
        else field (entries tab ! i) # st_collect field tab (siz - 1) (Suc i))
     else [])"
  by pat_completeness auto
termination
  by (relation "measure (\<lambda>(_, tab, _, i). entries_bound tab - i)") auto

definition st_general_keys :: "st_table \<Rightarrow> nat \<Rightarrow> st_data_t list" where
  "st_general_keys tab siz = st_collect e_key tab siz (entries_start tab)"

definition st_general_values :: "st_table \<Rightarrow> nat \<Rightarrow> st_data_t list" where
  "st_general_values tab siz = st_collect e_record tab siz (entries_start tab)"

section \<open>Number tables\<close>

definition st_numcmp :: "st_data_t \<Rightarrow> st_data_t \<Rightarrow> int" where
  "st_numcmp x y = (if x \<noteq> y then 1 else 0)"

definition st_numhash :: "st_data_t \<Rightarrow> st_index_t" where
  "st_numhash n = (drop_bit 11 n OR push_bit 3 n) XOR drop_bit 3 n"

definition type_numhash :: st_hash_type where
  "type_numhash = \<lparr>type_compare = st_numcmp, type_hash = st_numhash\<rparr>"

definition st_init_numtable :: "st_table option" where
  "st_init_numtable = st_init_table type_numhash"

definition st_init_numtable_with_size :: "st_index_t \<Rightarrow> st_table option" where
  "st_init_numtable_with_size siz = st_init_table_with_size type_numhash siz"

declare find_entry_from.simps [simp del] rebuild_table_loop.simps [simp del]
  skip_deleted.simps [simp del] st_shift_from.simps [simp del] st_collect.simps [simp del]

end
