(* ===== verification/St_Probe.thy ===== *)
theory St_Probe
  imports St_Table
begin

text \<open>
  The probe sequence of \<open>secondary_hash\<close>.  The first six steps mix in the bits of the hash value;
  from then on the sequence is the linear congruential generator \<open>x \<mapsto> 5 x + 1\<close> modulo the number
  of bins, which runs through all bins (the Hull-Dobell argument of the comment in st.c, proved
  here).  So a search meets an empty bin whenever there is one.
\<close>

section \<open>The generator \<open>5 x + 1\<close> modulo a power of two\<close>

definition lcg :: "nat \<Rightarrow> nat" where
  "lcg x = 5 * x + 1"

primrec geo5 :: "nat \<Rightarrow> nat" where
  "geo5 0 = 0"
| "geo5 (Suc n) = 5 * geo5 n + 1"

lemma lcg_iterate: "(lcg ^^ n) x = 5 ^ n * x + geo5 n"
  by (induction n) (simp_all add: lcg_def algebra_simps)

lemma geo5_add: "geo5 (m + n) = 5 ^ n * geo5 m + geo5 n"
  by (induction n) (simp_all add: algebra_simps)

lemma geo5_closed: "4 * geo5 n + 1 = 5 ^ n"
  by (induction n) simp_all

lemma even_geo5: "even (geo5 n) \<longleftrightarrow> even n"
  by (induction n) simp_all

lemma five_power_plus_one: "\<exists>k. (5::nat) ^ n + 1 = 2 * (2 * k + 1)"
proof -
  have "5 ^ n + 1 = 2 * (2 * geo5 n + 1)" using geo5_closed [of n] by simp
  then show ?thesis by blast
qed

lemma geo5_dvd: "2 ^ p dvd geo5 n \<Longrightarrow> 2 ^ p dvd n"
proof (induction p arbitrary: n)
  case 0
  then show ?case by simp
next
  case (Suc p)
  then have "even (geo5 n)" by (auto elim: dvd_trans [rotated])
  then obtain m where n: "n = 2 * m" by (auto simp: even_geo5)
  obtain k where k: "(5::nat) ^ m + 1 = 2 * (2 * k + 1)" using five_power_plus_one by blast
  have "geo5 n = geo5 m * (5 ^ m + 1)"
    using geo5_add [of m m] n by (simp add: algebra_simps flip: mult_2)
  then have "2 * 2 ^ p dvd 2 * (geo5 m * (2 * k + 1))"
    using Suc.prems k by (simp add: ac_simps)
  then have "2 ^ p dvd geo5 m * (2 * k + 1)" by (subst (asm) dvd_times_left_cancel_iff) simp_all
  moreover have "coprime ((2::nat) ^ p) (2 * k + 1)" by simp
  ultimately have "2 ^ p dvd geo5 m" using coprime_dvd_mult_left_iff by blast
  then have "2 ^ p dvd m" by (rule Suc.IH)
  then show ?case using n by simp
qed

lemma lcg_inj_mod:
  assumes "(lcg ^^ a) x mod 2 ^ p = (lcg ^^ b) x mod 2 ^ p" "a \<le> b" "b < a + 2 ^ p"
  shows "a = b"
proof -
  obtain d where b: "b = a + d" using assms(2) le_Suc_ex by blast
  let ?y = "(lcg ^^ a) x"
  have ge: "?y \<le> 5 ^ d * ?y + geo5 d" by (simp add: trans_le_add1)
  have yb: "(lcg ^^ b) x = 5 ^ d * ?y + geo5 d"
    by (simp add: b add.commute [of a] funpow_add lcg_iterate)
  have "5 ^ d * ?y + geo5 d - ?y = geo5 d * (4 * ?y + 1)"
    by (simp add: algebra_simps flip: geo5_closed)
  moreover have "2 ^ p dvd 5 ^ d * ?y + geo5 d - ?y"
    using assms(1) ge mod_eq_dvd_iff_nat [of ?y "5 ^ d * ?y + geo5 d" "2 ^ p"] by (simp add: yb)
  moreover have "coprime ((2::nat) ^ p) (4 * ?y + 1)"
    by (simp add: coprime_commute)
  ultimately have "2 ^ p dvd geo5 d" using coprime_dvd_mult_left_iff by metis
  then have "2 ^ p dvd d" by (rule geo5_dvd)
  with assms(3) b have "d = 0" by (auto dest: dvd_imp_le)
  with b show ?thesis by simp
qed

lemma lcg_full_cycle:
  assumes "j < 2 ^ p"
  shows "\<exists>n < 2 ^ p. (lcg ^^ n) x mod 2 ^ p = j"
proof -
  let ?f = "\<lambda>n. (lcg ^^ n) x mod 2 ^ p"
  have "inj_on ?f {..<2 ^ p}"
  proof (rule inj_onI)
    fix a b :: nat
    assume "a \<in> {..<2 ^ p}" "b \<in> {..<2 ^ p}" "?f a = ?f b"
    then show "a = b"
      using lcg_inj_mod [of a x p b] lcg_inj_mod [of b x p a] by (cases "a \<le> b") auto
  qed
  moreover have "?f ` {..<2 ^ p} \<subseteq> {..<2 ^ p}" by auto
  ultimately have "?f ` {..<2 ^ p} = {..<2 ^ p}"
    by (simp add: endo_inj_surj)
  with assms have "j \<in> ?f ` {..<2 ^ p}" by simp
  then show ?thesis by blast
qed

lemma lcg_mod: "lcg (x mod m) mod m = lcg x mod m"
  unfolding lcg_def by (metis mod_add_left_eq mod_mult_right_eq)

section \<open>The probe sequence of a table\<close>

definition probe_next :: "st_table \<Rightarrow> st_index_t \<times> st_hash_t \<Rightarrow> st_index_t \<times> st_hash_t" where
  "probe_next tab s = secondary_hash (fst s) tab (snd s)"

definition probe :: "st_table \<Rightarrow> st_hash_t \<Rightarrow> nat \<Rightarrow> st_index_t" where
  "probe tab h n = fst ((probe_next tab ^^ n) (hash_bin h tab, h))"

lemma probe_next_cong: "bin_power tab' = bin_power tab \<Longrightarrow> probe_next tab' = probe_next tab"
  by (rule ext) (simp add: probe_next_def secondary_hash_def hash_bin_def bins_mask_def get_bins_num_def)

lemma probe_cong: "bin_power tab' = bin_power tab \<Longrightarrow> probe tab' = probe tab"
  by (intro ext)
    (simp add: probe_def probe_next_cong [of tab' tab] hash_bin_def bins_mask_def get_bins_num_def)

lemma bins_mask_mask: "bins_mask tab = mask (bin_power tab)"
  by (simp add: bins_mask_def get_bins_num_def mask_eq_exp_minus_1 push_bit_eq_mult)

lemma unat_hash_bin:
  assumes "bin_power tab \<le> 64"
  shows "unat (hash_bin h tab) = unat h mod 2 ^ bin_power tab"
  using assms by (simp add: hash_bin_def bins_mask_mask unat_mask_and)

lemma probe_in_range:
  assumes "bin_power tab \<le> 64"
  shows "unat (probe tab h n) < 2 ^ bin_power tab"
  using assms
  by (cases n) (simp_all add: probe_def probe_next_def secondary_hash_def Let_def unat_hash_bin)

lemma probe_perturb:
  "snd ((probe_next tab ^^ n) (i, h)) = drop_bit (11 * n) h"
  by (induction n) (simp_all add: probe_next_def secondary_hash_def Let_def algebra_simps)

lemma probe_perturb_zero: "6 \<le> n \<Longrightarrow> snd ((probe_next tab ^^ n) (i, h)) = 0"
proof -
  assume "6 \<le> n"
  then have "(2::nat) ^ 64 \<le> 2 ^ (11 * n)" by (intro power_increasing) simp_all
  moreover have "unat h < 2 ^ 64" using unsigned_less [of h] by simp
  ultimately have "unat h < 2 ^ (11 * n)" by (rule less_le_trans [rotated])
  then have "unat h div 2 ^ (11 * n) = 0" by (rule div_less)
  then show ?thesis
    by (simp add: probe_perturb) (metis unat_drop_bit_div unat_eq_zero)
qed

lemma probe_next_lcg:
  assumes "bin_power tab \<le> 63" "snd s = 0"
  shows "unat (fst (probe_next tab s)) = lcg (unat (fst s)) mod 2 ^ bin_power tab \<and> snd (probe_next tab s) = 0"
proof -
  let ?p = "bin_power tab" and ?i = "unat (fst s)"
  have dvd: "(2::nat) ^ ?p dvd 2 ^ 64" using assms(1) by (intro le_imp_power_dvd) simp
  have "unat (push_bit 2 (fst s) + fst s + 1) = (5 * ?i + 1) mod 2 ^ 64"
  proof -
    have "push_bit 2 (fst s) + fst s + 1 = word_of_nat (5 * ?i + 1)"
      by (simp add: push_bit_eq_mult)
    then show ?thesis by (simp only: unat_of_nat) simp
  qed
  then have "unat (hash_bin (push_bit 2 (fst s) + fst s + 1) tab) = (5 * ?i + 1) mod 2 ^ ?p"
    using assms(1) dvd by (simp add: unat_hash_bin mod_mod_cancel del: power_numeral)
  then show ?thesis
    using assms(2) by (simp add: probe_next_def secondary_hash_def lcg_def)
qed

lemma probe_next_iterate_lcg:
  assumes "bin_power tab \<le> 63" "snd s = 0"
  shows "unat (fst ((probe_next tab ^^ n) s)) mod 2 ^ bin_power tab
      = (lcg ^^ n) (unat (fst s)) mod 2 ^ bin_power tab \<and>
    snd ((probe_next tab ^^ n) s) = 0"
proof (induction n)
  case 0
  then show ?case using assms(2) by simp
next
  case (Suc n)
  let ?p = "bin_power tab" and ?s = "(probe_next tab ^^ n) s"
  have "unat (fst (probe_next tab ?s)) mod 2 ^ ?p = lcg (unat (fst ?s)) mod 2 ^ ?p"
    using probe_next_lcg [OF assms(1)] Suc by simp
  also have "\<dots> = lcg (unat (fst ?s) mod 2 ^ ?p) mod 2 ^ ?p"
    by (simp add: lcg_mod)
  also have "\<dots> = lcg ((lcg ^^ n) (unat (fst s)) mod 2 ^ ?p) mod 2 ^ ?p"
    using Suc by simp
  also have "\<dots> = lcg ((lcg ^^ n) (unat (fst s))) mod 2 ^ ?p"
    by (simp add: lcg_mod)
  finally show ?case using probe_next_lcg [OF assms(1)] Suc by simp
qed

lemma probe_reaches_every_bin:
  assumes "bin_power tab \<le> 63" "j < 2 ^ bin_power tab"
  shows "\<exists>n < 6 + 2 ^ bin_power tab. unat (probe tab h n) = j"
proof -
  let ?s = "(probe_next tab ^^ 6) (hash_bin h tab, h)"
  have zero: "snd ?s = 0" by (rule probe_perturb_zero) simp
  obtain n where n: "n < 2 ^ bin_power tab" "(lcg ^^ n) (unat (fst ?s)) mod 2 ^ bin_power tab = j"
    using lcg_full_cycle [OF assms(2)] by blast
  have "probe tab h (n + 6) = fst ((probe_next tab ^^ n) ?s)"
    by (simp add: probe_def funpow_add)
  moreover have "unat (probe tab h (n + 6)) < 2 ^ bin_power tab"
    using assms(1) by (simp add: probe_in_range)
  ultimately have "unat (probe tab h (n + 6)) = j"
    using probe_next_iterate_lcg [OF assms(1) zero, of n] n(2) by simp
  with n(1) show ?thesis by (intro exI [of _ "n + 6"]) simp
qed

end
