(* ===== verification/Ordered_Hash.thy ===== *)
theory Ordered_Hash
  imports Ruby_Prelude
begin

text \<open>
  What Ruby promises of a hash: a finite map up to the key equality, whose pairs keep the order of
  first insertion.  The specification is an association list; \<open>ordered_hash\<close> is the interface
  every implementation (the table of st.c, the array table of hash.c and their union) is an
  interpretation of, with the client lemmas proved once.
\<close>

section \<open>Ordered association lists up to an equality\<close>

definition al_find :: "('k \<Rightarrow> 'k \<Rightarrow> bool) \<Rightarrow> 'k \<Rightarrow> ('k \<times> 'v) list \<Rightarrow> ('k \<times> 'v) option" where
  "al_find eq k xs = find (\<lambda>p. eq k (fst p)) xs"

fun al_put :: "('k \<Rightarrow> 'k \<Rightarrow> bool) \<Rightarrow> 'k \<Rightarrow> 'v \<Rightarrow> ('k \<times> 'v) list \<Rightarrow> ('k \<times> 'v) list" where
  "al_put eq k v [] = [(k, v)]"
| "al_put eq k v (p # xs) = (if eq k (fst p) then (fst p, v) # xs else p # al_put eq k v xs)"

fun al_del :: "('k \<Rightarrow> 'k \<Rightarrow> bool) \<Rightarrow> 'k \<Rightarrow> ('k \<times> 'v) list \<Rightarrow> ('k \<times> 'v) list" where
  "al_del eq k [] = []"
| "al_del eq k (p # xs) = (if eq k (fst p) then xs else p # al_del eq k xs)"

definition al_distinct :: "('k \<Rightarrow> 'k \<Rightarrow> bool) \<Rightarrow> ('k \<times> 'v) list \<Rightarrow> bool" where
  "al_distinct eq xs \<longleftrightarrow> sorted_wrt (\<lambda>p q. \<not> eq (fst p) (fst q)) xs"

abbreviation al_absent :: "('k \<Rightarrow> 'k \<Rightarrow> bool) \<Rightarrow> 'k \<Rightarrow> ('k \<times> 'v) list \<Rightarrow> bool" where
  "al_absent eq k xs \<equiv> \<forall>p \<in> set xs. \<not> eq k (fst p)"

lemma al_find_Nil [simp]: "al_find eq k [] = None"
  by (simp add: al_find_def)

lemma al_find_Cons [simp]: "al_find eq k (p # xs) = (if eq k (fst p) then Some p else al_find eq k xs)"
  by (simp add: al_find_def)

lemma al_find_None_iff: "al_find eq k xs = None \<longleftrightarrow> al_absent eq k xs"
  by (induction xs) auto

lemma al_put_absent: "al_absent eq k xs \<Longrightarrow> al_put eq k v xs = xs @ [(k, v)]"
  by (induction xs) auto

lemma al_del_absent: "al_absent eq k xs \<Longrightarrow> al_del eq k xs = xs"
  by (induction xs) auto

lemma al_put_find_None: "al_find eq k xs = None \<Longrightarrow> al_put eq k v xs = xs @ [(k, v)]"
  by (simp add: al_find_None_iff al_put_absent)

lemma al_del_find_None: "al_find eq k xs = None \<Longrightarrow> al_del eq k xs = xs"
  by (simp add: al_find_None_iff al_del_absent)

lemma al_find_split: "al_absent eq k xs \<Longrightarrow> eq k (fst p) \<Longrightarrow> al_find eq k (xs @ p # ys) = Some p"
  by (induction xs) auto

lemma al_put_split:
  "al_absent eq k xs \<Longrightarrow> eq k (fst p) \<Longrightarrow> al_put eq k v (xs @ p # ys) = xs @ (fst p, v) # ys"
  by (induction xs) auto

lemma al_del_split: "al_absent eq k xs \<Longrightarrow> eq k (fst p) \<Longrightarrow> al_del eq k (xs @ p # ys) = xs @ ys"
  by (induction xs) auto

lemma map_fst_al_put:
  "map fst (al_put eq k v xs) = (if al_find eq k xs = None then map fst xs @ [k] else map fst xs)"
  by (induction xs) auto

lemma length_al_put:
  "length (al_put eq k v xs) = (if al_find eq k xs = None then Suc (length xs) else length xs)"
  by (induction xs) auto

lemma length_al_del:
  "length (al_del eq k xs) + (if al_find eq k xs = None then 0 else 1) = length xs"
  by (induction xs) auto

lemma set_al_del: "set (al_del eq k xs) \<subseteq> set xs"
  by (induction xs) auto

lemma al_distinct_Cons [simp]:
  "al_distinct eq (p # xs) \<longleftrightarrow> al_absent eq (fst p) xs \<and> al_distinct eq xs"
  by (simp add: al_distinct_def)

lemma al_distinct_Nil [simp]: "al_distinct eq []"
  by (simp add: al_distinct_def)

lemma al_absent_put:
  "al_absent eq x xs \<Longrightarrow> \<not> eq x k \<Longrightarrow> al_absent eq x (al_put eq k v xs)"
  by (induction xs) auto

lemma al_distinct_put:
  assumes "equivp eq"
  shows "al_distinct eq xs \<Longrightarrow> al_distinct eq (al_put eq k v xs)"
proof (induction xs)
  case Nil
  then show ?case by simp
next
  case (Cons p xs)
  moreover have "\<not> eq k (fst p) \<Longrightarrow> \<not> eq (fst p) k" using equivp_symp [OF assms] by blast
  ultimately show ?case using al_absent_put [of xs eq "fst p" k v] by simp
qed

lemma al_distinct_del: "al_distinct eq xs \<Longrightarrow> al_distinct eq (al_del eq k xs)"
  using set_al_del by (induction xs) fastforce+

lemma al_find_put:
  assumes "equivp eq"
  shows "map_option snd (al_find eq k' (al_put eq k v xs)) =
    (if eq k' k then Some v else map_option snd (al_find eq k' xs))"
proof (induction xs)
  case Nil
  then show ?case by simp
next
  case (Cons p xs)
  have eqs: "eq k (fst p) \<Longrightarrow> eq k' (fst p) = eq k' k"
    using equivp_symp [OF assms] equivp_transp [OF assms] by blast
  have neq: "eq k' (fst p) \<Longrightarrow> \<not> eq k (fst p) \<Longrightarrow> \<not> eq k' k"
    using equivp_symp [OF assms] equivp_transp [OF assms] by blast
  show ?case
  proof (cases "eq k (fst p)")
    case True
    with eqs show ?thesis by simp
  next
    case False
    with Cons neq show ?thesis by (cases "eq k' (fst p)") simp_all
  qed
qed

lemma al_find_del:
  assumes "equivp eq" "al_distinct eq xs"
  shows "al_find eq k' (al_del eq k xs) = (if eq k' k then None else al_find eq k' xs)"
  using assms(2)
proof (induction xs)
  case Nil
  then show ?case by simp
next
  case (Cons p xs)
  show ?case
  proof (cases "eq k (fst p)")
    case True
    have "eq k' k \<Longrightarrow> al_absent eq k' xs"
      using Cons.prems True equivp_symp [OF assms(1)] equivp_transp [OF assms(1)]
      by (metis al_distinct_Cons)
    moreover have "eq k' (fst p) \<Longrightarrow> eq k' k"
      using True equivp_symp [OF assms(1)] equivp_transp [OF assms(1)] by blast
    ultimately show ?thesis using True by (auto simp: al_find_None_iff)
  next
    case False
    moreover have "eq k' k \<Longrightarrow> \<not> eq k' (fst p)"
      using False equivp_symp [OF assms(1)] equivp_transp [OF assms(1)] by blast
    ultimately show ?thesis using Cons by auto
  qed
qed

lemma al_distinct_around:
  assumes "equivp eq" "al_distinct eq (xs @ p # ys)" "eq k (fst p)"
  shows "al_absent eq k xs" "al_absent eq k ys"
proof -
  have b: "\<not> eq (fst q) (fst p)" if "q \<in> set xs" for q
    using assms(2) that unfolding al_distinct_def sorted_wrt_append by simp
  have a: "\<not> eq (fst p) (fst q)" if "q \<in> set ys" for q
    using assms(2) that unfolding al_distinct_def sorted_wrt_append by simp
  show "al_absent eq k xs" using b assms(3) equivp_symp [OF assms(1)] equivp_transp [OF assms(1)] by blast
  show "al_absent eq k ys" using a assms(3) equivp_symp [OF assms(1)] equivp_transp [OF assms(1)] by blast
qed

section \<open>The interface of a hash\<close>

text \<open>
  What a table promises without its order: lookup is total and observes insertion and deletion, up
  to an equality of keys that neither changes.
\<close>

locale keyed_map =
  fixes key_ok :: "'k \<Rightarrow> bool"
    and key_eq :: "'s \<Rightarrow> 'k \<Rightarrow> 'k \<Rightarrow> bool"
    and invar :: "'s \<Rightarrow> bool"
    and room :: "'s \<Rightarrow> bool"
    and lookup :: "'s \<Rightarrow> 'k \<Rightarrow> 'v option option"
    and insert :: "'s \<Rightarrow> 'k \<Rightarrow> 'v \<Rightarrow> 's option"
    and delete :: "'s \<Rightarrow> 'k \<Rightarrow> 's option"
  assumes lookup_total: "invar s \<Longrightarrow> key_ok k \<Longrightarrow> \<exists>r. lookup s k = Some r"
    and key_refl: "invar s \<Longrightarrow> key_eq s k k"
    and insert_total: "invar s \<Longrightarrow> room s \<Longrightarrow> key_ok k \<Longrightarrow>
      \<exists>s'. insert s k v = Some s' \<and> invar s' \<and> key_eq s' = key_eq s"
    and lookup_insert: "invar s \<Longrightarrow> room s \<Longrightarrow> key_ok k \<Longrightarrow> key_ok k' \<Longrightarrow> insert s k v = Some s' \<Longrightarrow>
      lookup s' k' = (if key_eq s k' k then Some (Some v) else lookup s k')"
    and delete_total: "invar s \<Longrightarrow> key_ok k \<Longrightarrow>
      \<exists>s'. delete s k = Some s' \<and> invar s' \<and> key_eq s' = key_eq s"
    and lookup_delete: "invar s \<Longrightarrow> key_ok k \<Longrightarrow> key_ok k' \<Longrightarrow> delete s k = Some s' \<Longrightarrow>
      lookup s' k' = (if key_eq s k' k then Some None else lookup s k')"
begin

lemma lookup_after_insert:
  assumes "invar s" "room s" "key_ok k" "key_ok k'"
  shows "\<exists>s'. insert s k v = Some s' \<and> invar s' \<and>
    lookup s' k' = (if key_eq s k' k then Some (Some v) else lookup s k')"
  using insert_total [OF assms(1-3), of v] lookup_insert [OF assms, of v] by auto

lemma lookup_after_delete:
  assumes "invar s" "key_ok k" "key_ok k'"
  shows "\<exists>s'. delete s k = Some s' \<and> invar s' \<and>
    lookup s' k' = (if key_eq s k' k then Some None else lookup s k')"
  using delete_total [OF assms(1,2)] lookup_delete [OF assms] by auto

text \<open>The last value inserted under a key is the one that is found, and deletion undoes insertion.\<close>

lemma insert_overwrites:
  assumes "invar s" "room s" "key_ok k" "insert s k v = Some s1" "room s1" "key_ok k'"
  shows "\<exists>s2. insert s1 k w = Some s2 \<and> invar s2 \<and>
    lookup s2 k' = (if key_eq s k' k then Some (Some w) else lookup s k')"
proof -
  have s1: "invar s1" "key_eq s1 = key_eq s" using insert_total [OF assms(1-3), of v] assms(4) by auto
  from lookup_after_insert [OF s1(1) assms(5,3,6), of w] lookup_insert [OF assms(1-3,6,4)]
  show ?thesis by (auto simp: s1(2))
qed

lemma delete_after_insert:
  assumes "invar s" "room s" "key_ok k" "insert s k v = Some s1" "key_ok k'"
  shows "\<exists>s2. delete s1 k = Some s2 \<and> invar s2 \<and>
    lookup s2 k' = (if key_eq s k' k then Some None else lookup s k')"
proof -
  have s1: "invar s1" "key_eq s1 = key_eq s" using insert_total [OF assms(1-3), of v] assms(4) by auto
  from lookup_after_delete [OF s1(1) assms(3,5)] lookup_insert [OF assms(1-3,5,4)]
  show ?thesis by (auto simp: s1(2))
qed

end

text \<open>
  \<open>key_ok\<close> are the keys a client may use, \<open>room\<close> says that the structure can take one more entry; insertion and deletion return the new
  structure, \<open>None\<close> for an operation that does not return.
\<close>

locale ordered_hash =
  fixes key_ok :: "'k \<Rightarrow> bool"
    and key_eq :: "'s \<Rightarrow> 'k \<Rightarrow> 'k \<Rightarrow> bool"
    and invar :: "'s \<Rightarrow> bool"
    and alist :: "'s \<Rightarrow> ('k \<times> 'v) list"
    and room :: "'s \<Rightarrow> bool"
    and lookup :: "'s \<Rightarrow> 'k \<Rightarrow> 'v option option"
    and insert :: "'s \<Rightarrow> 'k \<Rightarrow> 'v \<Rightarrow> 's option"
    and delete :: "'s \<Rightarrow> 'k \<Rightarrow> 's option"
  assumes key_eq_equiv: "invar s \<Longrightarrow> equivp (key_eq s)"
    and alist_distinct: "invar s \<Longrightarrow> al_distinct (key_eq s) (alist s)"
    and lookup_law: "invar s \<Longrightarrow> key_ok k \<Longrightarrow>
      lookup s k = Some (map_option snd (al_find (key_eq s) k (alist s)))"
    and insert_law: "invar s \<Longrightarrow> room s \<Longrightarrow> key_ok k \<Longrightarrow>
      \<exists>s'. insert s k v = Some s' \<and> invar s' \<and> key_eq s' = key_eq s \<and>
           alist s' = al_put (key_eq s) k v (alist s)"
    and delete_law: "invar s \<Longrightarrow> key_ok k \<Longrightarrow>
      \<exists>s'. delete s k = Some s' \<and> invar s' \<and> key_eq s' = key_eq s \<and>
           alist s' = al_del (key_eq s) k (alist s)"
begin

lemma insertE:
  assumes "invar s" "room s" "key_ok k"
  obtains s' where "insert s k v = Some s'" "invar s'" "key_eq s' = key_eq s"
    "alist s' = al_put (key_eq s) k v (alist s)"
  using insert_law [OF assms] by blast

lemma deleteE:
  assumes "invar s" "key_ok k"
  obtains s' where "delete s k = Some s'" "invar s'" "key_eq s' = key_eq s"
    "alist s' = al_del (key_eq s) k (alist s)"
  using delete_law [OF assms] by blast

lemma insertion_order:
  assumes "invar s" "room s" "key_ok k"
  shows "\<exists>s'. insert s k v = Some s' \<and>
    map fst (alist s') = (if lookup s k = Some None then map fst (alist s) @ [k] else map fst (alist s))"
  using assms by (auto elim!: insertE [of s k v] simp: lookup_law map_fst_al_put)

lemma reinsertion_moves_last:
  assumes "invar s" "key_ok k" "delete s k = Some s1" "room s1"
  shows "\<exists>s2. insert s1 k v = Some s2 \<and> alist s2 = al_del (key_eq s) k (alist s) @ [(k, v)]"
proof -
  have s1: "invar s1" "key_eq s1 = key_eq s" "alist s1 = al_del (key_eq s) k (alist s)"
    using delete_law [OF assms(1,2)] assms(3) by auto
  have "key_eq s k k" using equivp_reflp [OF key_eq_equiv [OF assms(1)]] .
  then have "al_find (key_eq s) k (alist s1) = None"
    using al_find_del [OF key_eq_equiv [OF assms(1)] alist_distinct [OF assms(1)], of k k] s1(3) by simp
  then have "al_put (key_eq s) k v (alist s1) = alist s1 @ [(k, v)]"
    by (simp add: al_find_None_iff al_put_absent)
  with s1 insert_law [OF s1(1) assms(4,2), of v] show ?thesis by auto
qed

end

sublocale ordered_hash \<subseteq> keyed_map key_ok key_eq invar room lookup insert delete
proof
  fix s k k' v s'
  show "\<exists>r. lookup s k = Some r" if "invar s" "key_ok k" using lookup_law [OF that] by simp
  show "key_eq s k k" if "invar s" using equivp_reflp [OF key_eq_equiv [OF that]] .
  show "\<exists>s'. insert s k v = Some s' \<and> invar s' \<and> key_eq s' = key_eq s" if "invar s" "room s" "key_ok k"
    using insert_law [OF that] by blast
  show "\<exists>s'. delete s k = Some s' \<and> invar s' \<and> key_eq s' = key_eq s" if "invar s" "key_ok k"
    using delete_law [OF that] by blast
  show "lookup s' k' = (if key_eq s k' k then Some (Some v) else lookup s k')"
    if "invar s" "room s" "key_ok k" "key_ok k'" "insert s k v = Some s'"
    using insert_law [OF that(1-3), of v] that by (auto simp: lookup_law al_find_put [OF key_eq_equiv])
  show "lookup s' k' = (if key_eq s k' k then Some None else lookup s k')"
    if "invar s" "key_ok k" "key_ok k'" "delete s k = Some s'"
    using delete_law [OF that(1,2)] that by (auto simp: lookup_law al_find_del [OF key_eq_equiv alist_distinct])
qed

end
