(* ===== verification/St_Inv.thy ===== *)
theory St_Inv
  imports St_Probe Ordered_Hash
begin

text \<open>
  The invariant of the table of st.c and what the search loops compute under it.  \<open>bins_ok\<close> says
  how the bins index the entries: every used bin points to a live entry, no two bins point to the
  same entry, each live entry is met on the probe sequence of its hash value before any empty bin,
  and at most as many bins are non-empty as entry slots have been used.
\<close>

section \<open>The feature table\<close>

lemma features_rows:
  "list_all (\<lambda>n. feature_bin_power n = n + 1 \<and>
      feature_bins_words n * 8 div (bin_bits (feature_size_ind n) div 8) = 2 ^ (n + 1) \<and>
      2 ^ n + 2 \<le> (2::nat) ^ bin_bits (feature_size_ind n)) [2..<63]"
  by (simp add: upt_rec_numeral feature_bin_power_def feature_bins_words_def feature_size_ind_def
      features_def bin_bits_def)

lemma features_row:
  assumes "2 \<le> n" "n \<le> MAX_POWER2"
  shows "feature_bin_power n = n + 1"
    "feature_bins_words n * 8 div (bin_bits (feature_size_ind n) div 8) = 2 ^ (n + 1)"
    "2 ^ n + 2 \<le> (2::nat) ^ bin_bits (feature_size_ind n)"
proof -
  have "n \<in> set [2..<63]" using assms unfolding MAX_POWER2_def set_upt by simp
  then show "feature_bin_power n = n + 1"
    "feature_bins_words n * 8 div (bin_bits (feature_size_ind n) div 8) = 2 ^ (n + 1)"
    "2 ^ n + 2 \<le> (2::nat) ^ bin_bits (feature_size_ind n)"
    using features_rows unfolding list_all_iff by blast+
qed

section \<open>Live entries\<close>

abbreviation live_entry :: "st_table_entry \<Rightarrow> bool" where
  "live_entry e \<equiv> \<not> DELETED_ENTRY_P e"

definition live :: "st_table \<Rightarrow> st_table_entry list" where
  "live tab = filter live_entry (take (entries_bound tab) (entries tab))"

definition pair_of :: "st_table_entry \<Rightarrow> st_data_t \<times> st_data_t" where
  "pair_of e = (e_key e, e_record e)"

definition st_alist :: "st_table \<Rightarrow> (st_data_t \<times> st_data_t) list" where
  "st_alist tab = map pair_of (live tab)"

lemma fst_pair_of [simp]: "fst (pair_of e) = e_key e" and snd_pair_of [simp]: "snd (pair_of e) = e_record e"
  by (simp_all add: pair_of_def)

section \<open>The invariant\<close>

definition type_equal :: "st_hash_type \<Rightarrow> st_data_t \<Rightarrow> st_data_t \<Rightarrow> bool" where
  "type_equal ty x y \<longleftrightarrow> x = y \<or> type_compare ty x y = 0"

lemma EQUAL_type_equal: "EQUAL tab = type_equal (st_type tab)"
  by (intro ext) (simp add: EQUAL_def type_equal_def)

text \<open>What st.c relies on: comparison is an equivalence and equal keys have equal hash values.\<close>

definition st_type_ok :: "st_hash_type \<Rightarrow> bool" where
  "st_type_ok ty \<longleftrightarrow> equivp (type_equal ty) \<and>
     (\<forall>x y. type_equal ty x y \<longrightarrow> type_do_hash ty x = type_do_hash ty y)"

definition st_shape :: "st_table \<Rightarrow> bool" where
  "st_shape tab \<longleftrightarrow>
     MINIMAL_POWER2 \<le> entry_power tab \<and> entry_power tab \<le> MAX_POWER2 \<and>
     bin_power tab = feature_bin_power (entry_power tab) \<and>
     size_ind tab = feature_size_ind (entry_power tab) \<and>
     length (entries tab) = 2 ^ entry_power tab \<and>
     entries_start tab \<le> entries_bound tab \<and> entries_bound tab \<le> 2 ^ entry_power tab \<and>
     (\<forall>i < entries_start tab. DELETED_ENTRY_P (entries tab ! i))"

definition entries_ok :: "st_hash_type \<Rightarrow> st_table_entry list \<Rightarrow> bool" where
  "entries_ok ty es \<longleftrightarrow>
     (\<forall>e \<in> set es. e_hash e = type_do_hash ty (e_key e)) \<and> al_distinct (type_equal ty) (map pair_of es)"

text \<open>Bins as a map of entry indices: \<open>pr h n\<close> is the \<open>n\<close>th bin probed for hash value \<open>h\<close>.\<close>

definition bins_ok ::
  "(st_hash_t \<Rightarrow> nat \<Rightarrow> nat) \<Rightarrow> st_table_entry list \<Rightarrow> nat \<Rightarrow> nat list \<Rightarrow> bool" where
  "bins_ok pr es n bs \<longleftrightarrow>
     (\<forall>j < length bs. 2 \<le> bs ! j \<longrightarrow> bs ! j - 2 < n \<and> live_entry (es ! (bs ! j - 2))) \<and>
     (\<forall>j < length bs. \<forall>j' < length bs. 2 \<le> bs ! j \<longrightarrow> bs ! j = bs ! j' \<longrightarrow> j = j') \<and>
     (\<forall>i < n. live_entry (es ! i) \<longrightarrow>
        (\<exists>N. bs ! pr (e_hash (es ! i)) N = i + 2 \<and> (\<forall>m < N. bs ! pr (e_hash (es ! i)) m \<noteq> 0))) \<and>
     card {j. j < length bs \<and> bs ! j \<noteq> 0} \<le> n"

definition tab_probe :: "st_table \<Rightarrow> st_hash_t \<Rightarrow> nat \<Rightarrow> nat" where
  "tab_probe tab h n = unat (probe tab h n)"

definition st_bins_ok :: "st_table \<Rightarrow> bool" where
  "st_bins_ok tab \<longleftrightarrow> (case bins tab of None \<Rightarrow> True
     | Some bs \<Rightarrow> length bs = 2 ^ bin_power tab \<and>
                  bins_ok (tab_probe tab) (entries tab) (entries_bound tab) bs)"

definition st_inv :: "st_table \<Rightarrow> bool" where
  "st_inv tab \<longleftrightarrow> st_type_ok (st_type tab) \<and> st_shape tab \<and> num_entries tab = length (live tab) \<and>
     entries_ok (st_type tab) (live tab) \<and> st_bins_ok tab"

section \<open>Maintaining the bins\<close>

lemma card_nonzero_update:
  assumes "j < length bs" "v \<noteq> 0"
  shows "card {i. i < length bs \<and> bs[j := v] ! i \<noteq> 0} \<le> Suc (card {i. i < length bs \<and> bs ! i \<noteq> 0})"
proof -
  have "{i. i < length bs \<and> bs[j := v] ! i \<noteq> 0} \<subseteq> insert j {i. i < length bs \<and> bs ! i \<noteq> 0}"
    by (auto simp: nth_list_update)
  then have "card {i. i < length bs \<and> bs[j := v] ! i \<noteq> 0} \<le> card (insert j {i. i < length bs \<and> bs ! i \<noteq> 0})"
    by (intro card_mono) simp_all
  also have "\<dots> \<le> Suc (card {i. i < length bs \<and> bs ! i \<noteq> 0})" by (simp add: card_insert_le_m1 card_insert_if)
  finally show ?thesis .
qed

lemma card_nonzero_replace:
  assumes "j < length bs" "bs ! j \<noteq> 0"
  shows "card {i. i < length bs \<and> bs[j := v] ! i \<noteq> 0} \<le> card {i. i < length bs \<and> bs ! i \<noteq> 0}"
  using assms by (intro card_mono) (auto simp: nth_list_update split: if_splits)

lemma bins_ok_empty: "bins_ok pr es 0 (replicate n 0)"
  by (simp add: bins_ok_def)

lemma bins_ok_add:
  assumes ok: "bins_ok pr es n bs" and n: "n < length es" and e: "live_entry e"
    and j: "pr (e_hash e) N < length bs" "bs ! pr (e_hash e) N < 2"
    and before: "\<forall>m < N. bs ! pr (e_hash e) m \<noteq> 0"
  shows "bins_ok pr (es[n := e]) (Suc n) (bs[pr (e_hash e) N := n + 2])"
proof -
  let ?j = "pr (e_hash e) N"
  let ?bs = "bs[?j := n + 2]" and ?es = "es[n := e]"
  have old: "\<And>i. i < length bs \<Longrightarrow> 2 \<le> bs ! i \<Longrightarrow> bs ! i - 2 < n \<and> live_entry (es ! (bs ! i - 2))"
    and inj: "\<And>i i'. i < length bs \<Longrightarrow> i' < length bs \<Longrightarrow> 2 \<le> bs ! i \<Longrightarrow> bs ! i = bs ! i' \<Longrightarrow> i = i'"
    and path: "\<And>i. i < n \<Longrightarrow> live_entry (es ! i) \<Longrightarrow>
        \<exists>N. bs ! pr (e_hash (es ! i)) N = i + 2 \<and> (\<forall>m < N. bs ! pr (e_hash (es ! i)) m \<noteq> 0)"
    and used: "card {j. j < length bs \<and> bs ! j \<noteq> 0} \<le> n"
    using ok unfolding bins_ok_def by blast+
  have keep: "bs ! i \<noteq> 0 \<Longrightarrow> ?bs ! i \<noteq> 0" for i
    by (cases "i = ?j") (use j(1) in simp_all)
  have "\<exists>M. ?bs ! pr (e_hash (?es ! i)) M = i + 2 \<and> (\<forall>m < M. ?bs ! pr (e_hash (?es ! i)) m \<noteq> 0)"
    if "i < Suc n" "live_entry (?es ! i)" for i
  proof (cases "i = n")
    case True
    then show ?thesis using n j(1) before keep by (intro exI [of _ N]) simp
  next
    case False
    with that path [of i] obtain M where M: "bs ! pr (e_hash (es ! i)) M = i + 2"
      "\<forall>m < M. bs ! pr (e_hash (es ! i)) m \<noteq> 0" by auto
    then have "pr (e_hash (es ! i)) M \<noteq> ?j" using j(2) by auto
    with M False keep show ?thesis by (intro exI [of _ M]) simp
  qed
  moreover have "\<forall>i < length ?bs. 2 \<le> ?bs ! i \<longrightarrow> ?bs ! i - 2 < Suc n \<and> live_entry (?es ! (?bs ! i - 2))"
    using old n e j(1) by (auto simp: nth_list_update less_Suc_eq)
  moreover have "i = i'" if h: "i < length bs" "i' < length bs" "2 \<le> ?bs ! i" "?bs ! i = ?bs ! i'" for i i'
  proof -
    have new: "bs ! k \<noteq> n + 2" if "k < length bs" for k using old [OF that] by linarith
    show ?thesis
      using h new [of i] new [of i'] inj [of i i'] j(1) by (cases "i = ?j"; cases "i' = ?j") simp_all
  qed
  moreover have "card {i. i < length ?bs \<and> ?bs ! i \<noteq> 0} \<le> Suc n"
    using card_nonzero_update [OF j(1), of "n + 2"] used by simp
  ultimately show ?thesis unfolding bins_ok_def length_list_update by blast
qed

lemma bins_ok_delete:
  assumes ok: "bins_ok pr es n bs" and i: "i < n" "n \<le> length es"
    and j: "j < length bs" "bs ! j = i + 2" and d: "\<not> live_entry d"
  shows "bins_ok pr (es[i := d]) n (bs[j := 1])"
proof -
  let ?bs = "bs[j := 1]" and ?es = "es[i := d]"
  have old: "\<And>i. i < length bs \<Longrightarrow> 2 \<le> bs ! i \<Longrightarrow> bs ! i - 2 < n \<and> live_entry (es ! (bs ! i - 2))"
    and inj: "\<And>i i'. i < length bs \<Longrightarrow> i' < length bs \<Longrightarrow> 2 \<le> bs ! i \<Longrightarrow> bs ! i = bs ! i' \<Longrightarrow> i = i'"
    and path: "\<And>i. i < n \<Longrightarrow> live_entry (es ! i) \<Longrightarrow>
        \<exists>N. bs ! pr (e_hash (es ! i)) N = i + 2 \<and> (\<forall>m < N. bs ! pr (e_hash (es ! i)) m \<noteq> 0)"
    and used: "card {j. j < length bs \<and> bs ! j \<noteq> 0} \<le> n"
    using ok unfolding bins_ok_def by blast+
  have keep: "bs ! k \<noteq> 0 \<Longrightarrow> ?bs ! k \<noteq> 0" for k
    by (cases "k = j") (use j(1) in simp_all)
  have "\<exists>M. ?bs ! pr (e_hash (?es ! k)) M = k + 2 \<and> (\<forall>m < M. ?bs ! pr (e_hash (?es ! k)) m \<noteq> 0)"
    if "k < n" "live_entry (?es ! k)" for k
  proof -
    have k: "k \<noteq> i" using that d i by (cases "k = i") auto
    with that path [of k] obtain M where M: "bs ! pr (e_hash (es ! k)) M = k + 2"
      "\<forall>m < M. bs ! pr (e_hash (es ! k)) m \<noteq> 0" by auto
    then have "pr (e_hash (es ! k)) M \<noteq> j" using j(2) k by auto
    with M k keep show ?thesis by (intro exI [of _ M]) simp
  qed
  moreover have "?bs ! k - 2 < n \<and> live_entry (?es ! (?bs ! k - 2))" if "k < length ?bs" "2 \<le> ?bs ! k" for k
  proof -
    have k: "k \<noteq> j" "2 \<le> bs ! k" "k < length bs" using that j(1) by (auto simp: nth_list_update split: if_splits)
    then have "bs ! k \<noteq> i + 2" using inj [of k j] j by auto
    then have "bs ! k - 2 \<noteq> i" using k(2) by linarith
    with k old [of k] show ?thesis by simp
  qed
  moreover have "\<forall>k < length ?bs. \<forall>k' < length ?bs. 2 \<le> ?bs ! k \<longrightarrow> ?bs ! k = ?bs ! k' \<longrightarrow> k = k'"
    using inj j(1) by (auto simp: nth_list_update)
  moreover have "card {i. i < length ?bs \<and> ?bs ! i \<noteq> 0} \<le> n"
    using card_nonzero_replace [OF j(1), of 1] j(2) used by simp
  ultimately show ?thesis unfolding bins_ok_def by blast
qed

lemma bins_ok_rewrite:
  assumes "bins_ok pr es n bs" "i < n" "n \<le> length es" "e_hash e = e_hash (es ! i)"
  shows "bins_ok pr (es[i := e]) n bs"
proof -
  have same: "e_hash (es[i := e] ! k) = e_hash (es ! k)" if "k < n" for k
    using that assms by (cases "k = i") auto
  then have "live_entry (es[i := e] ! k) = live_entry (es ! k)" if "k < n" for k
    using that by (simp add: DELETED_ENTRY_P_def)
  with same assms(1) show ?thesis unfolding bins_ok_def by auto
qed

lemma bins_ok_has_empty:
  assumes "bins_ok pr es n bs" "n < length bs"
  shows "\<exists>j < length bs. bs ! j = 0"
proof (rule ccontr)
  assume "\<not> ?thesis"
  then have "{j. j < length bs \<and> bs ! j \<noteq> 0} = {..<length bs}" by auto
  with assms show False unfolding bins_ok_def by simp
qed

end
