(* ===== verification/St_Search.thy ===== *)
theory St_Search
  imports St_Inv
begin

text \<open>
  What the searches of st.c return under the invariant, stated over \<open>st_index\<close>, the index of the
  live entry whose key equals the searched one.  The loops end because the probe sequence reaches
  an empty bin.
\<close>

section \<open>The entry a key belongs to\<close>

definition st_index :: "st_table \<Rightarrow> st_hash_t \<Rightarrow> st_data_t \<Rightarrow> nat option" where
  "st_index tab h k = find (\<lambda>i. PTR_EQUAL tab (entries tab ! i) h k) [0..<entries_bound tab]"

lemma st_index_None: "st_index tab h k = None \<longleftrightarrow> (\<forall>i < entries_bound tab. \<not> PTR_EQUAL tab (entries tab ! i) h k)"
  by (auto simp: st_index_def find_None_iff)

lemma st_index_SomeD:
  "st_index tab h k = Some i \<Longrightarrow> i < entries_bound tab \<and> PTR_EQUAL tab (entries tab ! i) h k"
  by (auto simp: st_index_def find_Some_iff)

lemma type_do_hash_not_reserved [simp]: "type_do_hash ty k \<noteq> RESERVED_HASH_VAL"
  by (simp add: type_do_hash_def Let_def RESERVED_HASH_VAL_def RESERVED_HASH_SUBSTITUTION_VAL_def)

lemma do_hash_not_reserved [simp]: "do_hash k tab \<noteq> RESERVED_HASH_VAL"
  by (simp add: do_hash_def)

lemma PTR_EQUAL_live: "PTR_EQUAL tab e h k \<Longrightarrow> h \<noteq> RESERVED_HASH_VAL \<Longrightarrow> live_entry e"
  by (simp add: PTR_EQUAL_def DELETED_ENTRY_P_def)

section \<open>Positions of live entries\<close>

lemma live_mem:
  assumes "i < entries_bound tab" "entries_bound tab \<le> length (entries tab)" "live_entry (entries tab ! i)"
  shows "entries tab ! i \<in> set (live tab)"
  using assms by (auto simp: live_def in_set_conv_nth intro: exI [of _ i])

lemma live_split:
  assumes "i < entries_bound tab" "entries_bound tab \<le> length (entries tab)" "live_entry (entries tab ! i)"
  shows "live tab = filter live_entry (take i (entries tab)) @ entries tab ! i #
    filter live_entry (take (entries_bound tab - Suc i) (drop (Suc i) (entries tab)))"
  using filter_take_split [OF assms(1,2), of live_entry] assms(3) by (simp add: live_def)

lemma distinct_before:
  assumes "al_distinct eq (map pair_of (xs @ e # ys))" "p \<in> set xs"
  shows "\<not> eq (e_key p) (e_key e)"
  using assms by (auto simp: al_distinct_def sorted_wrt_append)

lemma st_inv_bound:
  assumes "st_inv tab"
  shows "entries_bound tab \<le> length (entries tab)"
  using assms by (simp add: st_inv_def st_shape_def)

lemma live_unique:
  assumes inv: "st_inv tab" and i: "i < entries_bound tab" "live_entry (entries tab ! i)"
    and j: "j < entries_bound tab" "live_entry (entries tab ! j)"
    and eq: "EQUAL tab (e_key (entries tab ! i)) (e_key (entries tab ! j))"
  shows "i = j"
proof -
  have ne: "\<not> EQUAL tab (e_key (entries tab ! a)) (e_key (entries tab ! b))"
    if "a < b" "b < entries_bound tab" "live_entry (entries tab ! a)" "live_entry (entries tab ! b)" for a b
  proof -
    have "entries tab ! a \<in> set (filter live_entry (take b (entries tab)))"
      using that st_inv_bound [OF inv] by (auto simp: in_set_conv_nth intro: exI [of _ a])
    moreover have "al_distinct (EQUAL tab) (map pair_of (live tab))"
      using inv by (simp add: st_inv_def entries_ok_def EQUAL_type_equal)
    ultimately show ?thesis
      using distinct_before live_split [OF that(2) st_inv_bound [OF inv] that(4)] by metis
  qed
  have "equivp (EQUAL tab)" using inv by (simp add: st_inv_def st_type_ok_def EQUAL_type_equal)
  then have "EQUAL tab (e_key (entries tab ! j)) (e_key (entries tab ! i))"
    using eq equivp_symp by metis
  then show ?thesis using ne [of i j] ne [of j i] i j eq by (cases i j rule: linorder_cases) auto
qed

lemma PTR_EQUAL_unique:
  assumes inv: "st_inv tab" and h: "h \<noteq> RESERVED_HASH_VAL"
    and i: "i < entries_bound tab" "PTR_EQUAL tab (entries tab ! i) h k"
    and j: "j < entries_bound tab" "PTR_EQUAL tab (entries tab ! j) h k"
  shows "i = j"
proof -
  have "equivp (EQUAL tab)" using inv by (simp add: st_inv_def st_type_ok_def EQUAL_type_equal)
  then have "EQUAL tab (e_key (entries tab ! i)) (e_key (entries tab ! j))"
    using i(2) j(2) unfolding PTR_EQUAL_def by (metis equivp_symp equivp_transp)
  then show ?thesis
    using live_unique [OF inv] i j PTR_EQUAL_live [OF _ h] by blast
qed

lemma st_index_eq:
  assumes "st_inv tab" "h \<noteq> RESERVED_HASH_VAL" "i < entries_bound tab" "PTR_EQUAL tab (entries tab ! i) h k"
  shows "st_index tab h k = Some i"
proof (cases "st_index tab h k")
  case None
  with assms show ?thesis by (simp add: st_index_None)
next
  case (Some i')
  with PTR_EQUAL_unique [OF assms] show ?thesis by (auto dest!: st_index_SomeD)
qed

section \<open>Linear search\<close>

lemma find_append_None: "find P xs = None \<Longrightarrow> find P (xs @ ys) = find P ys"
  by (induction xs) (auto split: if_splits)

lemma find_entry_from_eq:
  "find_entry_from tab h k i = find (\<lambda>i. PTR_EQUAL tab (entries tab ! i) h k) [i..<entries_bound tab]"
proof (induction tab h k i rule: find_entry_from.induct)
  case (1 tab h k i)
  then show ?case
    by (cases "i < entries_bound tab") (simp_all add: find_entry_from.simps [of tab h k i] upt_conv_Cons)
qed

lemma find_entry_eq:
  assumes inv: "st_inv tab" and h: "h \<noteq> RESERVED_HASH_VAL"
  shows "find_entry tab h k = st_index tab h k"
proof -
  have start: "entries_start tab \<le> entries_bound tab"
    and del: "\<forall>i < entries_start tab. DELETED_ENTRY_P (entries tab ! i)"
    using inv by (auto simp: st_inv_def st_shape_def)
  have "[0..<entries_bound tab] = [0..<entries_start tab] @ [entries_start tab..<entries_bound tab]"
    using start by (metis le_add_diff_inverse upt_add_eq_append zero_le)
  moreover have "find (\<lambda>i. PTR_EQUAL tab (entries tab ! i) h k) [0..<entries_start tab] = None"
    using del PTR_EQUAL_live [OF _ h] by (auto simp: find_None_iff)
  ultimately show ?thesis
    by (simp add: find_entry_def find_entry_from_eq st_index_def find_append_None)
qed

section \<open>Indexed search\<close>

text \<open>The facts on the bins a search needs.\<close>

definition indexed :: "st_table \<Rightarrow> nat list \<Rightarrow> bool" where
  "indexed tab bs \<longleftrightarrow> bins tab = Some bs \<and> length bs = 2 ^ bin_power tab \<and> bin_power tab \<le> 63 \<and>
     (\<exists>j < length bs. bs ! j = 0)"

lemma st_inv_power:
  assumes "st_inv tab"
  shows "bin_power tab = Suc (entry_power tab)" "bin_power tab \<le> 63" "entries_bound tab \<le> 2 ^ entry_power tab"
    "length (entries tab) = 2 ^ entry_power tab" "2 ^ entry_power tab + 2 \<le> (2::nat) ^ bin_bits (size_ind tab)"
  using assms features_row [of "entry_power tab"]
  by (simp_all add: st_inv_def st_shape_def MINIMAL_POWER2_def MAX_POWER2_def)

lemma st_inv_indexed:
  assumes inv: "st_inv tab" and bs: "bins tab = Some bs"
  shows "indexed tab bs" "bins_ok (tab_probe tab) (entries tab) (entries_bound tab) bs"
proof -
  have len: "length bs = 2 ^ bin_power tab"
    and ok: "bins_ok (tab_probe tab) (entries tab) (entries_bound tab) bs"
    using inv bs by (simp_all add: st_inv_def st_bins_ok_def)
  show "bins_ok (tab_probe tab) (entries tab) (entries_bound tab) bs" by (rule ok)
  have "entries_bound tab < length bs"
  proof -
    have "entries_bound tab \<le> 2 ^ entry_power tab" using st_inv_power [OF inv] by simp
    also have "\<dots> < 2 ^ Suc (entry_power tab)" by simp
    finally show ?thesis using len st_inv_power(1) [OF inv] by simp
  qed
  then show "indexed tab bs"
    using bins_ok_has_empty [OF ok] len bs st_inv_power [OF inv] by (simp add: indexed_def)
qed

lemma tab_probe_range: "indexed tab bs \<Longrightarrow> tab_probe tab h n < length bs"
  using probe_in_range [of tab h n] by (simp add: indexed_def tab_probe_def)

lemma tab_bin_nth: "bins tab = Some bs \<Longrightarrow> tab_bin tab i = bs ! unat i"
  by (simp add: tab_bin_def get_bin_def)

lemma indexed_reaches_empty:
  assumes "indexed tab bs"
  shows "\<exists>n. bs ! tab_probe tab h n = 0"
  using assms probe_reaches_every_bin [of tab _ h] unfolding indexed_def tab_probe_def by metis

lemma probe_next_fold: "secondary_hash (fst s) tab (snd s) = probe_next tab s"
  by (simp add: probe_next_def)

lemma probe_state:
  "fst ((probe_next tab ^^ n) (hash_bin h tab, h)) = probe tab h n"
  by (simp add: probe_def)

lemma probe_loop:
  assumes "\<And>s. \<not> stop (fst s) \<Longrightarrow> f s = f (probe_next tab s)" "stop (probe tab h n)"
  shows "\<exists>N. stop (probe tab h N) \<and> (\<forall>m < N. \<not> stop (probe tab h m)) \<and>
    f (hash_bin h tab, h) = f ((probe_next tab ^^ N) (hash_bin h tab, h))"
proof -
  have "stop (fst ((probe_next tab ^^ n) (hash_bin h tab, h)))" using assms(2) by (simp add: probe_state)
  with loop_reaches_first_stop [where stop = "\<lambda>s. stop (fst s)" and f = f and nxt = "probe_next tab"
      and n = n and s = "(hash_bin h tab, h)"] assms(1)
  show ?thesis unfolding probe_state by blast
qed

text \<open>The stopping states of the two searches for a key are the same.\<close>

definition search_stop :: "st_table \<Rightarrow> st_hash_t \<Rightarrow> st_data_t \<Rightarrow> st_index_t \<Rightarrow> bool" where
  "search_stop tab h k ind \<longleftrightarrow>
     (let b = tab_bin tab ind in b = 0 \<or> 2 \<le> b \<and> PTR_EQUAL tab (entries tab ! (b - 2)) h k)"

lemmas bin_tests = EMPTY_OR_DELETED_BIN_P_def EMPTY_BIN_P_def DELETED_BIN_P_def EMPTY_BIN_def
  DELETED_BIN_def ENTRY_BASE_def

lemma find_table_bin_ind_loop_step:
  "\<not> search_stop tab h k (fst s) \<Longrightarrow>
    find_table_bin_ind_loop tab h k s = find_table_bin_ind_loop tab h k (probe_next tab s)"
  by (subst find_table_bin_ind_loop.simps)
    (auto simp: search_stop_def Let_def bin_tests probe_next_def not_le)

lemma find_table_entry_ind_loop_step:
  "\<not> search_stop tab h k (fst s) \<Longrightarrow>
    find_table_entry_ind_loop tab h k s = find_table_entry_ind_loop tab h k (probe_next tab s)"
  by (subst find_table_entry_ind_loop.simps)
    (auto simp: search_stop_def Let_def bin_tests probe_next_def not_le)

text \<open>Where the search stops: at the entry of the key, or at an empty bin if there is none.\<close>

lemma search_stops:
  assumes inv: "st_inv tab" and bs: "bins tab = Some bs" and h: "h \<noteq> RESERVED_HASH_VAL"
  shows "\<exists>N. (\<forall>m < N. \<not> search_stop tab h k (probe tab h m)) \<and>
    find_table_bin_ind tab h k = find_table_bin_ind_loop tab h k ((probe_next tab ^^ N) (hash_bin h tab, h)) \<and>
    find_table_entry_ind tab h k = find_table_entry_ind_loop tab h k ((probe_next tab ^^ N) (hash_bin h tab, h)) \<and>
    (case st_index tab h k of None \<Rightarrow> bs ! tab_probe tab h N = 0
     | Some i \<Rightarrow> bs ! tab_probe tab h N = i + 2)"
proof -
  note ok = st_inv_indexed [OF inv bs]
  obtain n where "bs ! tab_probe tab h n = 0" using indexed_reaches_empty [OF ok(1)] by blast
  then have ex: "search_stop tab h k (probe tab h n)"
    by (simp add: search_stop_def tab_bin_nth [OF bs] tab_probe_def)
  obtain N where stop: "search_stop tab h k (probe tab h N)"
    and before: "\<forall>m < N. \<not> search_stop tab h k (probe tab h m)"
    and bin: "find_table_bin_ind tab h k = find_table_bin_ind_loop tab h k ((probe_next tab ^^ N) (hash_bin h tab, h))"
    using probe_loop [where stop = "search_stop tab h k" and f = "find_table_bin_ind_loop tab h k", OF find_table_bin_ind_loop_step ex] unfolding find_table_bin_ind_def by blast
  obtain N' where "search_stop tab h k (probe tab h N')"
    and "\<forall>m < N'. \<not> search_stop tab h k (probe tab h m)"
    and ent: "find_table_entry_ind tab h k = find_table_entry_ind_loop tab h k ((probe_next tab ^^ N') (hash_bin h tab, h))"
    using probe_loop [where stop = "search_stop tab h k" and f = "find_table_entry_ind_loop tab h k", OF find_table_entry_ind_loop_step ex] unfolding find_table_entry_ind_def by blast
  then have "N' = N" using stop before by (meson linorder_neqE_nat)
  let ?b = "bs ! tab_probe tab h N"
  have stop': "?b = 0 \<or> 2 \<le> ?b \<and> PTR_EQUAL tab (entries tab ! (?b - 2)) h k"
    using stop by (simp add: search_stop_def tab_bin_nth [OF bs] tab_probe_def Let_def)
  have "case st_index tab h k of None \<Rightarrow> ?b = 0 | Some i \<Rightarrow> ?b = i + 2"
  proof (cases "st_index tab h k")
    case None
    have "?b = 0"
    proof (rule ccontr)
      assume "?b \<noteq> 0"
      then have "2 \<le> ?b" "PTR_EQUAL tab (entries tab ! (?b - 2)) h k" using stop' by auto
      moreover have "?b - 2 < entries_bound tab"
        using ok(2) tab_probe_range [OF ok(1)] \<open>2 \<le> ?b\<close> unfolding bins_ok_def by blast
      ultimately show False using None by (simp add: st_index_None)
    qed
    with None show ?thesis by simp
  next
    case (Some i)
    then have i: "i < entries_bound tab" "PTR_EQUAL tab (entries tab ! i) h k"
      by (auto dest: st_index_SomeD)
    then have "live_entry (entries tab ! i)" "e_hash (entries tab ! i) = h"
      using PTR_EQUAL_live [OF _ h] by (auto simp: PTR_EQUAL_def)
    with ok(2) i(1) obtain M where M: "bs ! tab_probe tab h M = i + 2"
      "\<forall>m < M. bs ! tab_probe tab h m \<noteq> 0" unfolding bins_ok_def by blast
    then have "search_stop tab h k (probe tab h M)"
      using i(2) by (simp add: search_stop_def tab_bin_nth [OF bs] tab_probe_def)
    then have "N \<le> M" using before not_le by blast
    then have "?b \<noteq> 0" using M by (cases "N = M") auto
    then have b: "2 \<le> ?b" "PTR_EQUAL tab (entries tab ! (?b - 2)) h k" using stop' by auto
    moreover have "?b - 2 < entries_bound tab"
      using ok(2) tab_probe_range [OF ok(1)] b(1) unfolding bins_ok_def by blast
    ultimately have "?b - 2 = i" using PTR_EQUAL_unique [OF inv h] i by blast
    with Some b(1) show ?thesis by simp
  qed
  with before bin ent \<open>N' = N\<close> show ?thesis by blast
qed


text \<open>The three results for a search under the invariant.\<close>

lemma find_table_entry_ind_eq:
  assumes "st_inv tab" "bins tab = Some bs" "h \<noteq> RESERVED_HASH_VAL"
  shows "find_table_entry_ind tab h k = Some (map_option (\<lambda>i. i + 2) (st_index tab h k))"
proof -
  obtain N where N:
    "find_table_entry_ind tab h k = find_table_entry_ind_loop tab h k ((probe_next tab ^^ N) (hash_bin h tab, h))"
    "case st_index tab h k of None \<Rightarrow> bs ! tab_probe tab h N = 0 | Some i \<Rightarrow> bs ! tab_probe tab h N = i + 2"
    using search_stops [OF assms, of k] by blast
  have bin: "tab_bin tab (fst ((probe_next tab ^^ N) (hash_bin h tab, h))) = bs ! tab_probe tab h N"
    by (simp add: probe_state tab_bin_nth [OF assms(2)] tab_probe_def)
  show ?thesis
  proof (cases "st_index tab h k")
    case None
    with N(2) show ?thesis
      unfolding N(1) by (subst find_table_entry_ind_loop.simps) (simp add: bin bin_tests)
  next
    case (Some i)
    with N(2) st_index_SomeD [OF Some] show ?thesis
      unfolding N(1) by (subst find_table_entry_ind_loop.simps) (simp add: bin bin_tests)
  qed
qed

lemma find_table_bin_ind_eq:
  assumes "st_inv tab" "bins tab = Some bs" "h \<noteq> RESERVED_HASH_VAL"
  shows "case st_index tab h k of
      None \<Rightarrow> find_table_bin_ind tab h k = Some None
    | Some i \<Rightarrow> (\<exists>j. find_table_bin_ind tab h k = Some (Some j) \<and> unat j < length bs \<and> bs ! unat j = i + 2)"
proof -
  obtain N where N:
    "find_table_bin_ind tab h k = find_table_bin_ind_loop tab h k ((probe_next tab ^^ N) (hash_bin h tab, h))"
    "case st_index tab h k of None \<Rightarrow> bs ! tab_probe tab h N = 0 | Some i \<Rightarrow> bs ! tab_probe tab h N = i + 2"
    using search_stops [OF assms, of k] by blast
  have bin: "tab_bin tab (fst ((probe_next tab ^^ N) (hash_bin h tab, h))) = bs ! tab_probe tab h N"
    by (simp add: probe_state tab_bin_nth [OF assms(2)] tab_probe_def)
  have range: "tab_probe tab h N < length bs"
    using tab_probe_range st_inv_indexed [OF assms(1,2)] by blast
  show ?thesis
  proof (cases "st_index tab h k")
    case None
    with N(2) show ?thesis
      unfolding N(1) by (subst find_table_bin_ind_loop.simps) (simp add: bin bin_tests)
  next
    case (Some i)
    then have "find_table_bin_ind tab h k = Some (Some (probe tab h N))"
      using N(2) st_index_SomeD [OF Some]
      unfolding N(1) by (subst find_table_bin_ind_loop.simps) (simp add: bin [unfolded probe_state] bin_tests probe_state)
    with Some N(2) range show ?thesis by (simp add: tab_probe_def)
  qed
qed

lemma st_find_entry_index_eq:
  assumes "st_inv tab" "h \<noteq> RESERVED_HASH_VAL"
  shows "st_find_entry_index tab h k = Some (st_index tab h k)"
proof (cases "bins tab")
  case None
  with assms show ?thesis by (simp add: st_find_entry_index_def find_entry_eq)
next
  case (Some bs)
  with find_table_entry_ind_eq [OF assms(1) Some assms(2), of k] show ?thesis
    by (simp add: st_find_entry_index_def ENTRY_BASE_def option.map_comp comp_def option.map_ident)
qed

section \<open>Searching a free bin\<close>

text \<open>
  \<open>find_table_bin_ind_direct\<close> only needs an empty bin; it is also called on tables under
  construction.
\<close>

lemma find_table_bin_ind_direct_eq:
  assumes "indexed tab bs"
  shows "\<exists>N. find_table_bin_ind_direct tab h k = Some (probe tab h N) \<and>
    bs ! tab_probe tab h N < 2 \<and> (\<forall>m < N. bs ! tab_probe tab h m \<noteq> 0)"
proof -
  have bs: "bins tab = Some bs" using assms by (simp add: indexed_def)
  let ?stop = "\<lambda>i. EMPTY_OR_DELETED_BIN_P (tab_bin tab i)"
  have bin: "tab_bin tab (probe tab h n) = bs ! tab_probe tab h n" for n
    by (simp add: tab_bin_nth [OF bs] tab_probe_def)
  obtain n where "bs ! tab_probe tab h n = 0" using indexed_reaches_empty [OF assms] by blast
  then have ex: "?stop (probe tab h n)" by (simp add: bin bin_tests)
  have step: "\<not> ?stop (fst s) \<Longrightarrow>
      find_table_bin_ind_direct_loop tab s = find_table_bin_ind_direct_loop tab (probe_next tab s)" for s
    by (subst find_table_bin_ind_direct_loop.simps) (simp add: probe_next_def)
  obtain N where N: "?stop (probe tab h N)" "\<forall>m < N. \<not> ?stop (probe tab h m)"
    "find_table_bin_ind_direct tab h k = find_table_bin_ind_direct_loop tab ((probe_next tab ^^ N) (hash_bin h tab, h))"
    using probe_loop [where stop = ?stop and f = "find_table_bin_ind_direct_loop tab", OF step ex]
    unfolding find_table_bin_ind_direct_def by blast
  have "find_table_bin_ind_direct tab h k = Some (probe tab h N)"
    unfolding N(3) using N(1) by (subst find_table_bin_ind_direct_loop.simps) (simp add: probe_state)
  moreover have "bs ! tab_probe tab h N < 2 \<and> (\<forall>m < N. bs ! tab_probe tab h m \<noteq> 0)"
    using N(1,2) by (auto simp: bin bin_tests not_le)
  ultimately show ?thesis by blast
qed

section \<open>Searching and reserving\<close>

text \<open>
  The reserving search of \<open>st_insert\<close>: the entry's bin value if the key is there; else the first
  deleted bin of the probe sequence, or the empty bin that ends it.
\<close>

definition reserve_ok :: "st_table \<Rightarrow> nat list \<Rightarrow> st_hash_t \<Rightarrow> nat \<Rightarrow> bool" where
  "reserve_ok tab bs h N \<longleftrightarrow>
     bs ! tab_probe tab h N < 2 \<and> (\<forall>m < N. bs ! tab_probe tab h m \<noteq> 0)"

definition reserve_next ::
  "st_table \<Rightarrow> (st_index_t \<times> st_hash_t) \<times> st_index_t option \<Rightarrow> (st_index_t \<times> st_hash_t) \<times> st_index_t option" where
  "reserve_next tab s = (probe_next tab (fst s),
     if DELETED_BIN_P (tab_bin tab (fst (fst s))) \<and> snd s = None then Some (fst (fst s)) else snd s)"

lemma fst_reserve_next: "fst ((reserve_next tab ^^ n) s) = (probe_next tab ^^ n) (fst s)"
  by (induction n) (simp_all add: reserve_next_def)

lemma reserve_loop_step:
  "\<not> search_stop tab h k (fst (fst s)) \<Longrightarrow>
    find_table_bin_ptr_and_reserve_loop tab h k s = find_table_bin_ptr_and_reserve_loop tab h k (reserve_next tab s)"
  by (subst find_table_bin_ptr_and_reserve_loop.simps)
    (auto simp: search_stop_def Let_def bin_tests probe_next_def reserve_next_def not_le)

text \<open>The remembered bin is the first deleted one among those passed.\<close>

lemma reserve_remembers:
  assumes bs: "bins tab = Some bs" and nz: "\<forall>m < n. bs ! tab_probe tab h m \<noteq> 0"
  shows "case snd ((reserve_next tab ^^ n) ((hash_bin h tab, h), None)) of
      None \<Rightarrow> \<forall>m < n. bs ! tab_probe tab h m \<noteq> 1
    | Some d \<Rightarrow> \<exists>N < n. d = probe tab h N \<and> bs ! tab_probe tab h N = 1"
  using nz
proof (induction n)
  case 0
  then show ?case by simp
next
  case (Suc n)
  let ?s = "(reserve_next tab ^^ n) ((hash_bin h tab, h), None)"
  have cur: "fst (fst ?s) = probe tab h n" by (simp add: fst_reserve_next probe_state)
  have bin: "tab_bin tab (probe tab h n) = bs ! tab_probe tab h n"
    by (simp add: tab_bin_nth [OF bs] tab_probe_def)
  have IH: "case snd ?s of None \<Rightarrow> \<forall>m < n. bs ! tab_probe tab h m \<noteq> 1
    | Some d \<Rightarrow> \<exists>N < n. d = probe tab h N \<and> bs ! tab_probe tab h N = 1"
    using Suc by simp
  have nxt: "snd ((reserve_next tab ^^ Suc n) ((hash_bin h tab, h), None)) =
    (if bs ! tab_probe tab h n = 1 \<and> snd ?s = None then Some (probe tab h n) else snd ?s)"
    by (simp add: reserve_next_def cur bin bin_tests)
  show ?case
  proof (cases "snd ?s")
    case None
    with IH nxt show ?thesis by (auto simp: less_Suc_eq)
  next
    case (Some d)
    with IH nxt show ?thesis by (auto intro: less_SucI)
  qed
qed

lemma find_table_bin_ptr_and_reserve_eq:
  assumes inv: "st_inv tab" and bs: "bins tab = Some bs" and h: "h \<noteq> RESERVED_HASH_VAL"
  shows "case st_index tab h k of
      Some i \<Rightarrow> \<exists>j. find_table_bin_ptr_and_reserve tab h k = Some (tab, j, Some (i + 2))
    | None \<Rightarrow> \<exists>N. reserve_ok tab bs h N \<and>
        find_table_bin_ptr_and_reserve tab h k =
          Some (tab\<lparr>num_entries := Suc (num_entries tab),
                    bins := Some (bs[tab_probe tab h N := 0])\<rparr>, probe tab h N, None)"
proof -
  obtain N where before: "\<forall>m < N. \<not> search_stop tab h k (probe tab h m)"
    and at: "case st_index tab h k of None \<Rightarrow> bs ! tab_probe tab h N = 0 | Some i \<Rightarrow> bs ! tab_probe tab h N = i + 2"
    using search_stops [OF inv bs h, of k] by blast
  have bin: "tab_bin tab (probe tab h n) = bs ! tab_probe tab h n" for n
    by (simp add: tab_bin_nth [OF bs] tab_probe_def)
  have nz: "\<forall>m < N. bs ! tab_probe tab h m \<noteq> 0"
    using before by (auto simp: search_stop_def bin Let_def)
  let ?s0 = "((hash_bin h tab, h), None)"
  have reach: "find_table_bin_ptr_and_reserve_loop tab h k ?s0 =
      find_table_bin_ptr_and_reserve_loop tab h k ((reserve_next tab ^^ n) ?s0)" if "n \<le> N" for n
    using that
  proof (induction n)
    case 0
    then show ?case by simp
  next
    case (Suc n)
    then have "\<not> search_stop tab h k (fst (fst ((reserve_next tab ^^ n) ?s0)))"
      using before by (simp add: fst_reserve_next probe_state)
    with Suc reserve_loop_step show ?case by simp
  qed
  let ?sN = "(reserve_next tab ^^ N) ?s0"
  have cur: "fst (fst ?sN) = probe tab h N" by (simp add: fst_reserve_next probe_state)
  note loop = reach [OF order_refl]
  show ?thesis
  proof (cases "st_index tab h k")
    case (Some i)
    then have "PTR_EQUAL tab (entries tab ! i) h k" by (auto dest: st_index_SomeD)
    with Some at have "find_table_bin_ptr_and_reserve_loop tab h k ?sN = Some (tab, probe tab h N, Some (i + 2))"
      by (subst find_table_bin_ptr_and_reserve_loop.simps) (simp add: cur bin bin_tests)
    with Some show ?thesis by (simp add: find_table_bin_ptr_and_reserve_def loop)
  next
    case None
    note none = this
    then have zero: "bs ! tab_probe tab h N = 0" using at by simp
    show ?thesis
    proof (cases "snd ?sN")
      case None
      then have "find_table_bin_ptr_and_reserve_loop tab h k ?sN =
          Some (tab\<lparr>num_entries := Suc (num_entries tab)\<rparr>, probe tab h N, None)"
        by (subst find_table_bin_ptr_and_reserve_loop.simps) (simp add: cur bin zero bin_tests)
      moreover have "bs[tab_probe tab h N := 0] = bs" using zero by (metis list_update_id)
      ultimately show ?thesis
        using none zero nz bs
        by (auto simp: find_table_bin_ptr_and_reserve_def loop reserve_ok_def intro!: exI [of _ N])
    next
      case (Some d)
      then obtain M where M: "M < N" "d = probe tab h M" "bs ! tab_probe tab h M = 1"
        using reserve_remembers [OF bs nz] by auto
      have "find_table_bin_ptr_and_reserve_loop tab h k ?sN =
          Some (MARK_BIN_EMPTY (tab\<lparr>num_entries := Suc (num_entries tab)\<rparr>) d, d, None)"
        using Some by (subst find_table_bin_ptr_and_reserve_loop.simps) (simp add: cur bin zero bin_tests)
      then show ?thesis
        using none M nz bs
        by (auto simp: find_table_bin_ptr_and_reserve_def loop reserve_ok_def MARK_BIN_EMPTY_def
            set_bin_def EMPTY_BIN_def tab_probe_def intro!: exI [of _ M])
    qed
  qed
qed

end
