(* ===== verification/St_Update.thy ===== *)
theory St_Update
  imports St_Search
begin

text \<open>
  The three ways an operation of st.c changes the entries (appending one, overwriting a live one,
  marking one deleted), each shown once to keep the invariant and to act on the association list
  as specified; and the relation between \<open>st_index\<close> and the specification's lookup.
\<close>

section \<open>Keys in the association list\<close>

lemma st_inv_equiv: "st_inv tab \<Longrightarrow> equivp (EQUAL tab)"
  by (simp add: st_inv_def st_type_ok_def EQUAL_type_equal)

lemma st_inv_distinct: "st_inv tab \<Longrightarrow> al_distinct (EQUAL tab) (st_alist tab)"
  by (simp add: st_inv_def entries_ok_def EQUAL_type_equal st_alist_def)

lemma st_inv_hash:
  "st_inv tab \<Longrightarrow> e \<in> set (live tab) \<Longrightarrow> e_hash e = do_hash (e_key e) tab"
  by (simp add: st_inv_def entries_ok_def do_hash_def)

lemma st_inv_hash_cong: "st_inv tab \<Longrightarrow> EQUAL tab x y \<Longrightarrow> do_hash x tab = do_hash y tab"
  by (simp add: st_inv_def st_type_ok_def EQUAL_type_equal do_hash_def)

lemma PTR_EQUAL_iff:
  assumes "st_inv tab" "i < entries_bound tab" "live_entry (entries tab ! i)"
  shows "PTR_EQUAL tab (entries tab ! i) (do_hash k tab) k \<longleftrightarrow> EQUAL tab k (e_key (entries tab ! i))"
  using assms st_inv_hash [OF assms(1) live_mem [OF assms(2) st_inv_bound [OF assms(1)] assms(3)]]
    st_inv_hash_cong [OF assms(1)]
  by (auto simp: PTR_EQUAL_def)

text \<open>\<open>entry_split\<close>: the live entries around the one at index \<open>i\<close>.\<close>

definition live_before :: "st_table \<Rightarrow> nat \<Rightarrow> st_table_entry list" where
  "live_before tab i = filter live_entry (take i (entries tab))"

definition live_after :: "st_table \<Rightarrow> nat \<Rightarrow> st_table_entry list" where
  "live_after tab i = filter live_entry (take (entries_bound tab - Suc i) (drop (Suc i) (entries tab)))"

lemma entry_split:
  assumes "st_inv tab" "i < entries_bound tab" "live_entry (entries tab ! i)"
  shows "live tab = live_before tab i @ entries tab ! i # live_after tab i"
  unfolding live_before_def live_after_def
  using live_split [OF assms(2) st_inv_bound [OF assms(1)] assms(3)] .

lemma absent_before:
  assumes inv: "st_inv tab" and i: "i < entries_bound tab" "live_entry (entries tab ! i)"
    and k: "EQUAL tab k (e_key (entries tab ! i))"
  shows "al_absent (EQUAL tab) k (map pair_of (live_before tab i))"
proof -
  have "\<not> EQUAL tab (e_key p) (e_key (entries tab ! i))" if "p \<in> set (live_before tab i)" for p
    using st_inv_distinct [OF inv] that unfolding st_alist_def entry_split [OF inv i]
    by (intro distinct_before)
  then show ?thesis
    using k st_inv_equiv [OF inv] by (auto dest: equivp_symp equivp_transp)
qed

text \<open>The specification's operations at the key of entry \<open>i\<close>.\<close>

lemma alist_at:
  assumes inv: "st_inv tab" and i: "i < entries_bound tab" "live_entry (entries tab ! i)"
    and k: "EQUAL tab k (e_key (entries tab ! i))"
  shows "al_find (EQUAL tab) k (st_alist tab) = Some (pair_of (entries tab ! i))"
    "al_put (EQUAL tab) k v (st_alist tab) =
       map pair_of (live_before tab i) @ (e_key (entries tab ! i), v) # map pair_of (live_after tab i)"
    "al_del (EQUAL tab) k (st_alist tab) = map pair_of (live_before tab i @ live_after tab i)"
proof -
  note absent = absent_before [OF inv i k]
  show "al_find (EQUAL tab) k (st_alist tab) = Some (pair_of (entries tab ! i))"
    using al_find_split [where eq = "EQUAL tab" and k = k and p = "pair_of (entries tab ! i)", OF absent] k
    by (simp add: st_alist_def entry_split [OF inv i])
  show "al_put (EQUAL tab) k v (st_alist tab) =
       map pair_of (live_before tab i) @ (e_key (entries tab ! i), v) # map pair_of (live_after tab i)"
    using al_put_split [where eq = "EQUAL tab" and k = k and p = "pair_of (entries tab ! i)", OF absent] k
    by (simp add: st_alist_def entry_split [OF inv i])
  show "al_del (EQUAL tab) k (st_alist tab) = map pair_of (live_before tab i @ live_after tab i)"
    using al_del_split [where eq = "EQUAL tab" and k = k and p = "pair_of (entries tab ! i)", OF absent] k
    by (simp add: st_alist_def entry_split [OF inv i])
qed

lemma st_index_live:
  assumes "st_inv tab" "st_index tab (do_hash k tab) k = Some i"
  shows "i < entries_bound tab" "live_entry (entries tab ! i)" "EQUAL tab k (e_key (entries tab ! i))"
proof -
  show i: "i < entries_bound tab" using assms(2) by (auto dest: st_index_SomeD)
  have p: "PTR_EQUAL tab (entries tab ! i) (do_hash k tab) k" using assms(2) by (auto dest: st_index_SomeD)
  then show l: "live_entry (entries tab ! i)" using PTR_EQUAL_live do_hash_not_reserved by blast
  show "EQUAL tab k (e_key (entries tab ! i))" using p i l PTR_EQUAL_iff [OF assms(1)] by blast
qed

lemma st_index_find:
  assumes inv: "st_inv tab"
  shows "al_find (EQUAL tab) k (st_alist tab) =
    map_option (\<lambda>i. pair_of (entries tab ! i)) (st_index tab (do_hash k tab) k)"
proof (cases "st_index tab (do_hash k tab) k")
  case None
  have "\<not> EQUAL tab k (e_key e)" if e: "e \<in> set (live tab)" for e
  proof -
    obtain i where "i < entries_bound tab" "e = entries tab ! i" "live_entry e"
      using e by (auto simp: live_def in_set_conv_nth)
    with None PTR_EQUAL_iff [OF inv] show ?thesis unfolding st_index_None by blast
  qed
  then have "al_find (EQUAL tab) k (st_alist tab) = None"
    by (auto simp: st_alist_def al_find_None_iff)
  with None show ?thesis by simp
next
  case (Some i)
  with alist_at(1) [OF inv st_index_live [OF inv Some]] show ?thesis by simp
qed

section \<open>Appending an entry\<close>

definition bins_appended :: "st_table \<Rightarrow> st_hash_t \<Rightarrow> nat list option \<Rightarrow> bool" where
  "bins_appended tab h b' \<longleftrightarrow> (case bins tab of None \<Rightarrow> b' = None
     | Some bs \<Rightarrow> \<exists>N. reserve_ok tab bs h N \<and> b' = Some (bs[tab_probe tab h N := entries_bound tab + 2]))"

lemma tab_probe_cong: "bin_power tab' = bin_power tab \<Longrightarrow> tab_probe tab' = tab_probe tab"
  by (intro ext) (simp add: tab_probe_def probe_cong [of tab' tab])

lemma live_append:
  assumes "entries_bound tab < length (entries tab)" "live_entry e"
    "entries_bound tab' = Suc (entries_bound tab)" "entries tab' = (entries tab)[entries_bound tab := e]"
  shows "live tab' = live tab @ [e]"
  using assms by (simp add: live_def take_Suc_update del: take_Suc)

lemma al_distinct_snoc:
  "al_distinct eq (xs @ [p]) \<longleftrightarrow> al_distinct eq xs \<and> (\<forall>q \<in> set xs. \<not> eq (fst q) (fst p))"
  by (auto simp: al_distinct_def sorted_wrt_append)

lemma append_inv:
  assumes inv: "st_inv tab" and room: "entries_bound tab < 2 ^ entry_power tab"
    and e: "e_hash e = do_hash (e_key e) tab"
    and new: "\<forall>p \<in> set (live tab). \<not> EQUAL tab (e_key p) (e_key e)"
    and b: "bins_appended tab (e_hash e) b'"
    and tab': "tab' = tab\<lparr>num_entries := Suc (num_entries tab), entries_bound := Suc (entries_bound tab),
       entries := (entries tab)[entries_bound tab := e], bins := b'\<rparr>"
  shows "st_inv tab' \<and> live tab' = live tab @ [e]"
proof -
  note pow = st_inv_power [OF inv]
  have len: "entries_bound tab < length (entries tab)" using room pow by simp
  have l: "live_entry e" using e by (simp add: DELETED_ENTRY_P_def)
  have live': "live tab' = live tab @ [e]" by (rule live_append [OF len l]) (simp_all add: tab')
  have ty: "EQUAL tab = type_equal (st_type tab)" by (rule EQUAL_type_equal)
  have "st_shape tab'"
    using inv room by (auto simp: tab' st_inv_def st_shape_def nth_list_update)
  moreover have "entries_ok (st_type tab') (live tab')"
    unfolding live' using inv e new
    by (simp add: tab' st_inv_def entries_ok_def al_distinct_snoc do_hash_def ty)
  moreover have "st_bins_ok tab'"
  proof (cases "bins tab")
    case None
    with b show ?thesis by (simp add: tab' bins_appended_def st_bins_ok_def)
  next
    case (Some bs)
    then obtain N where N: "reserve_ok tab bs (e_hash e) N"
      "b' = Some (bs[tab_probe tab (e_hash e) N := entries_bound tab + 2])"
      using b by (auto simp: bins_appended_def)
    note idx = st_inv_indexed [OF inv Some]
    have "bins_ok (tab_probe tab) ((entries tab)[entries_bound tab := e]) (Suc (entries_bound tab))
       (bs[tab_probe tab (e_hash e) N := entries_bound tab + 2])"
      using N(1) by (intro bins_ok_add idx(2) len l tab_probe_range [OF idx(1)]) (simp_all add: reserve_ok_def)
    moreover have "tab_probe tab' = tab_probe tab" by (rule tab_probe_cong) (simp add: tab')
    ultimately show ?thesis
      using N(2) idx(1) by (simp add: st_bins_ok_def tab' indexed_def)
  qed
  ultimately have "st_inv tab'" using inv live' by (simp add: st_inv_def tab')
  with live' show ?thesis by blast
qed

text \<open>The width of the bins is enough for every entry index, so storing it loses nothing.\<close>

lemma set_bin_index:
  assumes "st_inv tab" "n < 2 ^ entry_power tab"
  shows "set_bin bs (size_ind tab) i (n + ENTRY_BASE) = bs[unat i := n + 2]"
  using assms st_inv_power(5) [OF assms(1)] by (simp add: set_bin_def ENTRY_BASE_def)

section \<open>Overwriting a live entry\<close>

lemma rewrite_inv:
  assumes inv: "st_inv tab" and i: "i < entries_bound tab" "live_entry (entries tab ! i)"
    and e: "e_hash e = e_hash (entries tab ! i)" "EQUAL tab (e_key e) (e_key (entries tab ! i))"
    and tab': "tab' = tab\<lparr>entries := (entries tab)[i := e]\<rparr>"
  shows "st_inv tab' \<and> live tab' = live_before tab i @ e # live_after tab i"
proof -
  note bound = st_inv_bound [OF inv] and split = entry_split [OF inv i]
  have l: "live_entry e" using e(1) i(2) by (simp add: DELETED_ENTRY_P_def)
  have live': "live tab' = live_before tab i @ e # live_after tab i"
    using filter_take_update_drop [OF i(1) bound, of live_entry e] l
    by (simp add: live_def tab' live_before_def live_after_def)
  have "st_shape tab'"
  proof -
    have "\<not> i < entries_start tab" using inv i(2) by (auto simp: st_inv_def st_shape_def)
    then show ?thesis using inv by (simp add: tab' st_inv_def st_shape_def)
  qed
  moreover have "entries_ok (st_type tab) (live tab')"
  proof -
    have old: "entries_ok (st_type tab) (live_before tab i @ entries tab ! i # live_after tab i)"
      using inv by (simp add: st_inv_def split)
    moreover have "type_do_hash (st_type tab) (e_key e) = type_do_hash (st_type tab) (e_key (entries tab ! i))"
      using st_inv_hash_cong [OF inv e(2)] by (simp add: do_hash_def)
    moreover have "type_equal (st_type tab) x (e_key e) = type_equal (st_type tab) x (e_key (entries tab ! i))"
      "type_equal (st_type tab) (e_key e) x = type_equal (st_type tab) (e_key (entries tab ! i)) x" for x
      using e(2) st_inv_equiv [OF inv] unfolding EQUAL_type_equal by (metis equivp_symp equivp_transp)+
    ultimately show ?thesis
      unfolding live' entries_ok_def al_distinct_def using e(1) by (simp add: sorted_wrt_append)
  qed
  moreover have "st_bins_ok tab'"
  proof (cases "bins tab")
    case None
    then show ?thesis by (simp add: tab' st_bins_ok_def)
  next
    case (Some bs)
    have "tab_probe tab' = tab_probe tab" by (rule tab_probe_cong) (simp add: tab')
    with bins_ok_rewrite [OF st_inv_indexed(2) [OF inv Some] i(1) bound e(1)]
      st_inv_indexed(1) [OF inv Some] Some
    show ?thesis by (simp add: st_bins_ok_def tab' indexed_def)
  qed
  moreover have "num_entries tab' = length (live tab')"
    unfolding live' using inv by (simp add: tab' st_inv_def split)
  ultimately have "st_inv tab'" using inv by (simp add: st_inv_def tab')
  with live' show ?thesis by blast
qed

section \<open>Deleting an entry\<close>

definition bins_deleted :: "st_table \<Rightarrow> nat \<Rightarrow> nat list option \<Rightarrow> bool" where
  "bins_deleted tab i b' \<longleftrightarrow> (case bins tab of None \<Rightarrow> b' = None
     | Some bs \<Rightarrow> \<exists>j < length bs. bs ! j = i + 2 \<and> b' = Some (bs[j := 1]))"

lemma skip_deleted_spec:
  "start \<le> bound \<Longrightarrow> start \<le> skip_deleted es bound start \<and> skip_deleted es bound start \<le> bound \<and>
     (\<forall>i. start \<le> i \<longrightarrow> i < skip_deleted es bound start \<longrightarrow> DELETED_ENTRY_P (es ! i)) \<and>
     (skip_deleted es bound start < bound \<longrightarrow> live_entry (es ! skip_deleted es bound start))"
proof (induction es bound start rule: skip_deleted.induct)
  case (1 es bound start)
  show ?case
  proof (cases "start < bound \<and> DELETED_ENTRY_P (es ! start)")
    case True
    with "1.IH" [of] have IH: "Suc start \<le> skip_deleted es bound (Suc start)"
      "skip_deleted es bound (Suc start) \<le> bound"
      "\<forall>i. Suc start \<le> i \<longrightarrow> i < skip_deleted es bound (Suc start) \<longrightarrow> DELETED_ENTRY_P (es ! i)"
      "skip_deleted es bound (Suc start) < bound \<longrightarrow> live_entry (es ! skip_deleted es bound (Suc start))"
      by simp_all
    have "DELETED_ENTRY_P (es ! i)" if "start \<le> i" "i < skip_deleted es bound (Suc start)" for i
      using that IH(3) True by (cases "i = start") auto
    with IH True show ?thesis by (simp add: skip_deleted.simps [of es bound start])
  next
    case False
    with 1 show ?thesis by (auto simp: skip_deleted.simps [of es bound start])
  qed
qed

lemma delete_inv:
  assumes inv: "st_inv tab" and i: "i < entries_bound tab" "live_entry (entries tab ! i)"
    and b: "bins_deleted tab i b'"
    and tab': "tab' = update_range_for_deleted (st_mark_entry (tab\<lparr>bins := b'\<rparr>) i) i"
  shows "st_inv tab' \<and> live tab' = live_before tab i @ live_after tab i \<and> st_type tab' = st_type tab"
proof -
  note bound = st_inv_bound [OF inv] and split = entry_split [OF inv i]
  let ?d = "MARK_ENTRY_DELETED (entries tab ! i)"
  let ?es = "(entries tab)[i := ?d]"
  let ?tab = "tab\<lparr>bins := b', entries := ?es, num_entries := num_entries tab - 1\<rparr>"
  have d: "\<not> live_entry ?d" by (simp add: MARK_ENTRY_DELETED_def DELETED_ENTRY_P_def)
  define start where "start = (if entries_start tab = i then skip_deleted ?es (entries_bound tab) (i + 1) else entries_start tab)"
  have tab'_eq: "tab' = ?tab\<lparr>entries_start := start\<rparr>"
    by (cases tab) (simp add: tab' start_def update_range_for_deleted_def st_mark_entry_def)
  have live': "live tab' = live_before tab i @ live_after tab i"
    using filter_take_update_drop [OF i(1) bound, of live_entry ?d] d
    by (simp add: live_def tab'_eq live_before_def live_after_def)
  have le: "entries_start tab \<le> entries_bound tab"
    and del: "\<forall>j < entries_start tab. DELETED_ENTRY_P (entries tab ! j)"
    using inv by (simp_all add: st_inv_def st_shape_def)
  have start: "start \<le> entries_bound tab \<and> (\<forall>j < start. DELETED_ENTRY_P (?es ! j))"
  proof (cases "entries_start tab = i")
    case True
    have skip: "i + 1 \<le> start" "start \<le> entries_bound tab"
      "\<forall>j. i + 1 \<le> j \<longrightarrow> j < start \<longrightarrow> DELETED_ENTRY_P (?es ! j)"
      using skip_deleted_spec [of "i + 1" "entries_bound tab" ?es] i(1) True by (auto simp: start_def)
    have "DELETED_ENTRY_P (?es ! j)" if "j < start" for j
      using that skip(3) del True d i(1) bound by (cases j i rule: linorder_cases) simp_all
    with skip(2) show ?thesis by blast
  next
    case False
    then show ?thesis using del le i(1) bound d by (auto simp: start_def nth_list_update)
  qed
  have "st_shape tab'"
    using inv start by (simp add: tab'_eq st_inv_def st_shape_def)
  moreover have "entries_ok (st_type tab) (live tab')"
    using inv unfolding live' st_inv_def split
    by (auto simp: entries_ok_def al_distinct_def sorted_wrt_append)
  moreover have "st_bins_ok tab'"
  proof (cases "bins tab")
    case None
    with b show ?thesis by (simp add: tab'_eq bins_deleted_def st_bins_ok_def)
  next
    case (Some bs)
    then obtain j where j: "j < length bs" "bs ! j = i + 2" "b' = Some (bs[j := 1])"
      using b by (auto simp: bins_deleted_def)
    have "tab_probe tab' = tab_probe tab" by (rule tab_probe_cong) (simp add: tab'_eq)
    with bins_ok_delete [OF st_inv_indexed(2) [OF inv Some] i(1) bound j(1,2) d]
      st_inv_indexed(1) [OF inv Some] j(3)
    show ?thesis by (simp add: st_bins_ok_def tab'_eq indexed_def)
  qed
  moreover have "num_entries tab' = length (live tab')"
    using inv unfolding live' by (simp add: tab'_eq st_inv_def split)
  ultimately have "st_inv tab'" using inv by (simp add: st_inv_def tab'_eq)
  with live' show ?thesis by (simp add: tab'_eq)
qed

end
