(* ===== verification/St_Rebuild.thy ===== *)
theory St_Rebuild
  imports St_Update
begin

text \<open>
  Creating and rebuilding tables: a new table is empty and large enough, a rebuilt table has the
  same live entries in the same order, none of them deleted, and room for at least one more.
\<close>

section \<open>The size of a new table\<close>

lemma get_power2_Some:
  assumes "unat siz < 2 ^ MAX_POWER2"
  shows "\<exists>n. get_power2 siz = Some n \<and> MINIMAL_POWER2 \<le> n \<and> n \<le> MAX_POWER2 \<and> unat siz < 2 ^ n \<and>
    (n = MINIMAL_POWER2 \<or> 2 ^ (n - 1) \<le> unat siz)"
proof -
  let ?w = "bit_width (unat siz)"
  have "?w \<le> 62" using assms by (simp add: MAX_POWER2_def bit_width_le_iff)
  then have "64 - nlz_intptr siz = ?w" by (simp add: nlz_intptr_bit_width)
  then have eq: "get_power2 siz = Some (max 2 ?w)"
    using \<open>?w \<le> 62\<close> by (auto simp: get_power2_def MAX_POWER2_def MINIMAL_POWER2_def max_def)
  have "unat siz < 2 ^ max 2 ?w" by (simp flip: bit_width_le_iff)
  moreover have "max 2 ?w = 2 \<or> 2 ^ (max 2 ?w - 1) \<le> unat siz"
  proof (cases "2 < ?w")
    case True
    then have "unat siz \<noteq> 0" by (metis bit_width_0 not_less_zero)
    then show ?thesis using True bit_width_bounds(2) [of "unat siz"] by (simp add: max_def)
  next
    case False
    then show ?thesis by simp
  qed
  ultimately show ?thesis
    unfolding eq MAX_POWER2_def MINIMAL_POWER2_def using \<open>?w \<le> 62\<close>
    by (intro exI [of _ "max 2 ?w"]) simp
qed

lemma get_power2_None: "get_power2 siz = None \<longleftrightarrow> 2 ^ MAX_POWER2 \<le> unat siz"
proof (cases "unat siz < 2 ^ MAX_POWER2")
  case True
  with get_power2_Some [OF True] show ?thesis by auto
next
  case False
  then have "62 < bit_width (unat siz)" by (simp add: MAX_POWER2_def bit_width_less_iff)
  moreover have "bit_width (unat siz) \<le> 64" using unsigned_less [of siz] by (simp add: bit_width_le_iff)
  ultimately show ?thesis
    using False by (simp add: get_power2_def nlz_intptr_bit_width MAX_POWER2_def)
qed

lemma initialize_bins_replicate:
  assumes "2 \<le> entry_power tab" "entry_power tab \<le> MAX_POWER2"
    "bin_power tab = feature_bin_power (entry_power tab)" "size_ind tab = feature_size_ind (entry_power tab)"
  shows "initialize_bins tab = tab\<lparr>bins := Some (replicate (2 ^ bin_power tab) 0)\<rparr>"
  using features_row [OF assms(1,2)] assms(3,4) by (simp add: initialize_bins_def bins_size_def EMPTY_BIN_def)

lemma live_bound_0: "entries_bound tab = 0 \<Longrightarrow> live tab = []"
  by (simp add: live_def)

lemma st_init_table_with_size_Some:
  assumes ty: "st_type_ok ty" and siz: "unat siz < 2 ^ MAX_POWER2"
  shows "\<exists>tab. st_init_table_with_size ty siz = Some tab \<and> st_inv tab \<and> live tab = [] \<and>
    st_type tab = ty \<and> unat siz < get_allocated_entries tab \<and> num_entries tab = 0 \<and>
    entries_start tab = 0 \<and> entries_bound tab = 0 \<and> rebuilds_num tab = 0 \<and>
    (bins tab = None \<longleftrightarrow> entry_power tab \<le> MAX_POWER2_FOR_TABLES_WITHOUT_BINS)"
proof -
  obtain n where n: "get_power2 siz = Some n" "2 \<le> n" "n \<le> MAX_POWER2" "unat siz < 2 ^ n"
    using get_power2_Some [OF siz] by (auto simp: MINIMAL_POWER2_def)
  let ?tab = "\<lparr>entry_power = n, bin_power = feature_bin_power n, size_ind = feature_size_ind n,
     rebuilds_num = 0, st_type = ty, num_entries = 0,
     bins = (if n \<le> MAX_POWER2_FOR_TABLES_WITHOUT_BINS then None else Some (replicate (2 ^ feature_bin_power n) 0)),
     entries_start = 0, entries_bound = 0, entries = replicate (2 ^ n) uninit_entry\<rparr>"
  have eq: "st_init_table_with_size ty siz = Some ?tab"
    using n by (simp add: st_init_table_with_size_def make_tab_empty_def initialize_bins_replicate)
  have "live ?tab = []" by (simp add: live_bound_0)
  moreover have "st_inv ?tab"
    using ty n by (simp add: st_inv_def st_shape_def live_def entries_ok_def al_distinct_def st_bins_ok_def
        bins_ok_empty MINIMAL_POWER2_def)
  ultimately show ?thesis
    unfolding eq using n(4) by (intro exI [of _ ?tab]) (simp add: get_allocated_entries_def)
qed

section \<open>The copying loop\<close>

text \<open>
  The bins of a table under construction: they index the first \<open>n\<close> entries, and there are more
  bins than entry slots.
\<close>

definition build_ok :: "st_table \<Rightarrow> nat \<Rightarrow> bool" where
  "build_ok tab n \<longleftrightarrow> (case bins tab of None \<Rightarrow> True
     | Some bs \<Rightarrow> length bs = 2 ^ bin_power tab \<and> bin_power tab \<le> 63 \<and>
         length (entries tab) < length bs \<and> length (entries tab) + 2 \<le> 2 ^ bin_bits (size_ind tab) \<and>
         bins_ok (tab_probe tab) (entries tab) n bs)"

definition same_frame :: "st_table \<Rightarrow> st_table \<Rightarrow> bool" where
  "same_frame t u \<longleftrightarrow> entry_power u = entry_power t \<and> bin_power u = bin_power t \<and> size_ind u = size_ind t \<and>
     rebuilds_num u = rebuilds_num t \<and> st_type u = st_type t \<and> entries_start u = entries_start t \<and>
     entries_bound u = entries_bound t \<and> length (entries u) = length (entries t) \<and>
     (bins u = None \<longleftrightarrow> bins t = None)"

lemma same_frame_trans: "same_frame t u \<Longrightarrow> same_frame u v \<Longrightarrow> same_frame t v"
  by (simp add: same_frame_def)

text \<open>One copied entry: written at \<open>ni\<close> and entered in the bins.\<close>

lemma build_step:
  assumes ok: "build_ok tab ni" and ni: "ni < length (entries tab)" and e: "live_entry e"
  shows "\<exists>tab'. (let tab = tab\<lparr>entries := (entries tab)[ni := e]\<rparr>
      in if bins tab = None then Some tab
         else do {
           bin_ind \<leftarrow> find_table_bin_ind_direct tab (e_hash e) (e_key e);
           Some (tab_set_bin tab bin_ind (ni + ENTRY_BASE))
         }) = Some tab' \<and>
    same_frame tab tab' \<and> entries tab' = (entries tab)[ni := e] \<and> num_entries tab' = num_entries tab \<and>
    build_ok tab' (Suc ni)"
proof (cases "bins tab")
  case None
  then show ?thesis by (simp add: same_frame_def build_ok_def)
next
  case (Some bs)
  let ?tab = "tab\<lparr>entries := (entries tab)[ni := e]\<rparr>"
  have len: "length bs = 2 ^ bin_power tab" "bin_power tab \<le> 63" "length (entries tab) < length bs"
    "length (entries tab) + 2 \<le> 2 ^ bin_bits (size_ind tab)"
    and bins: "bins_ok (tab_probe tab) (entries tab) ni bs"
    using ok Some by (simp_all add: build_ok_def)
  have pr: "tab_probe ?tab = tab_probe tab" by (rule tab_probe_cong) simp
  have idx: "indexed ?tab bs"
    using bins_ok_has_empty [OF bins] len ni Some by (simp add: indexed_def)
  obtain N where N: "find_table_bin_ind_direct ?tab (e_hash e) (e_key e) = Some (probe ?tab (e_hash e) N)"
    "bs ! tab_probe tab (e_hash e) N < 2" "\<forall>m < N. bs ! tab_probe tab (e_hash e) m \<noteq> 0"
    using find_table_bin_ind_direct_eq [OF idx, of "e_hash e" "e_key e"] pr by auto
  let ?bs = "bs[tab_probe tab (e_hash e) N := ni + 2]"
  have set: "tab_set_bin ?tab (probe ?tab (e_hash e) N) (ni + ENTRY_BASE) = ?tab\<lparr>bins := Some ?bs\<rparr>"
    using Some ni len(4) by (simp add: tab_set_bin_def set_bin_def ENTRY_BASE_def pr [symmetric] tab_probe_def)
  have "bins_ok (tab_probe tab) ((entries tab)[ni := e]) (Suc ni) ?bs"
    using bins_ok_add [OF bins ni e] tab_probe_range [OF idx] N(2,3) pr by metis
  moreover have "tab_probe (?tab\<lparr>bins := Some ?bs\<rparr>) = tab_probe tab" by (rule tab_probe_cong) simp
  ultimately have "build_ok (?tab\<lparr>bins := Some ?bs\<rparr>) (Suc ni)"
    using len by (simp add: build_ok_def)
  then show ?thesis
    using N(1) Some set by (intro exI [of _ "?tab\<lparr>bins := Some ?bs\<rparr>"]) (simp add: same_frame_def)
qed

text \<open>
  The loop copies the live entries of \<open>S\<close> (the source array as it was at the start) one behind the
  other.  In place, the entries not yet read are still those of \<open>S\<close>.
\<close>

lemma rebuild_table_loop_Some:
  assumes "i \<le> bound" "bound \<le> length S" "ni \<le> i"
    and "if in_place then length (entries nt) = length S \<and> (\<forall>j. i \<le> j \<longrightarrow> j < length S \<longrightarrow> entries nt ! j = S ! j)
         else src = S"
    and "take ni (entries nt) = filter live_entry (take i S)" "num_entries nt = ni" "ni \<le> length (entries nt)"
    and "length (filter live_entry (take bound S)) \<le> length (entries nt)" "build_ok nt ni"
  shows "\<exists>nt'. rebuild_table_loop in_place src bound i ni nt = Some nt' \<and> same_frame nt nt' \<and>
    take (num_entries nt') (entries nt') = filter live_entry (take bound S) \<and>
    num_entries nt' = length (filter live_entry (take bound S)) \<and> build_ok nt' (num_entries nt')"
  using assms
proof (induction in_place src bound i ni nt rule: rebuild_table_loop.induct)
  case (1 in_place src bound i ni nt)
  have ni: "length (filter live_entry (take i S)) = ni"
    using arg_cong [OF "1.prems"(5), of length] "1.prems"(7) by simp
  show ?case
  proof (cases "i < bound")
    case False
    then have "i = bound" using "1.prems"(1) by simp
    then show ?thesis
      using "1.prems" ni
      by (intro exI [of _ nt]) (simp add: rebuild_table_loop.simps [of _ _ bound bound] same_frame_def)
  next
    case True
    let ?curr = "(if in_place then entries nt else src) ! i"
    have curr: "?curr = S ! i" using "1.prems"(2,4) True by (auto split: if_splits)
    have iS: "i < length S" using True "1.prems"(2) by simp
    then have take_Suc_i: "take (Suc i) S = take i S @ [S ! i]" by (rule take_Suc_conv_app_nth)
    show ?thesis
    proof (cases "DELETED_ENTRY_P ?curr")
      case del: True
      have "\<exists>nt'. rebuild_table_loop in_place src bound (Suc i) ni nt = Some nt' \<and> same_frame nt nt' \<and>
        take (num_entries nt') (entries nt') = filter live_entry (take bound S) \<and>
        num_entries nt' = length (filter live_entry (take bound S)) \<and> build_ok nt' (num_entries nt')"
        by (rule "1.IH"(1) [OF True refl del])
          (use "1.prems" True del curr take_Suc_i in \<open>auto split: if_splits\<close>)
      then show ?thesis using True del by (simp add: rebuild_table_loop.simps [of _ _ bound i])
    next
      case live: False
      have "Suc (length (filter live_entry (take i S))) \<le> length (filter live_entry (take bound S))"
      proof -
        have "take bound S = take (Suc i) S @ drop (Suc i) (take bound S)"
          using True by (metis Suc_leI append_take_drop_id min.absorb1 take_take)
        then have "length (filter live_entry (take bound S)) \<ge> length (filter live_entry (take (Suc i) S))"
          by (metis filter_append le_add1 length_append)
        then show ?thesis using live curr take_Suc_i by simp
      qed
      then have room: "ni < length (entries nt)" using "1.prems"(8) ni by simp
      obtain nt1 where nt1: "(let tab = nt\<lparr>entries := (entries nt)[ni := ?curr]\<rparr>
          in if bins tab = None then Some tab
             else do {
               bin_ind \<leftarrow> find_table_bin_ind_direct tab (e_hash ?curr) (e_key ?curr);
               Some (tab_set_bin tab bin_ind (ni + ENTRY_BASE))
             }) = Some nt1"
        "same_frame nt nt1" "entries nt1 = (entries nt)[ni := ?curr]" "num_entries nt1 = num_entries nt"
        "build_ok nt1 (Suc ni)"
        using build_step [OF "1.prems"(9) room live] by blast
      let ?nt2 = "nt1\<lparr>num_entries := Suc (num_entries nt1)\<rparr>"
      have ok2: "build_ok ?nt2 (Suc ni)"
        using nt1(5) tab_probe_cong [of ?nt2 nt1] by (simp add: build_ok_def split: option.splits)
      have frame2: "same_frame nt ?nt2" using nt1(2) by (simp add: same_frame_def)
      have "\<exists>nt'. rebuild_table_loop in_place src bound (Suc i) (Suc ni) ?nt2 = Some nt' \<and> same_frame ?nt2 nt' \<and>
        take (num_entries nt') (entries nt') = filter live_entry (take bound S) \<and>
        num_entries nt' = length (filter live_entry (take bound S)) \<and> build_ok nt' (num_entries nt')"
      proof (rule "1.IH"(2) [OF True refl live refl])
        show "(if bins (nt\<lparr>entries := (entries nt)[ni := ?curr]\<rparr>) = None
               then Some (nt\<lparr>entries := (entries nt)[ni := ?curr]\<rparr>)
               else do {
                 bin_ind \<leftarrow> find_table_bin_ind_direct (nt\<lparr>entries := (entries nt)[ni := ?curr]\<rparr>) (e_hash ?curr) (e_key ?curr);
                 Some (tab_set_bin (nt\<lparr>entries := (entries nt)[ni := ?curr]\<rparr>) bin_ind (ni + ENTRY_BASE))
               }) = Some nt1"
          using nt1(1) by (simp add: Let_def)
        show "take (Suc ni) (entries ?nt2) = filter live_entry (take (Suc i) S)"
          using room nt1(3) "1.prems"(5) live curr take_Suc_i by (simp add: take_Suc_update)
        show "if in_place then length (entries ?nt2) = length S \<and>
              (\<forall>j. Suc i \<le> j \<longrightarrow> j < length S \<longrightarrow> entries ?nt2 ! j = S ! j) else src = S"
          using "1.prems"(3,4) nt1(3) by (auto split: if_splits)
      qed (use "1.prems" True nt1 ok2 room in simp_all)
      then obtain nt' where nt': "rebuild_table_loop in_place src bound (Suc i) (Suc ni) ?nt2 = Some nt'"
        "same_frame ?nt2 nt'" "take (num_entries nt') (entries nt') = filter live_entry (take bound S)"
        "num_entries nt' = length (filter live_entry (take bound S))" "build_ok nt' (num_entries nt')"
        by blast
      moreover have "rebuild_table_loop in_place src bound i ni nt = Some nt'"
        using True live nt1(1) nt'(1) by (simp add: rebuild_table_loop.simps [of _ _ bound i] Let_def)
      ultimately show ?thesis using same_frame_trans [OF frame2] by blast
    qed
  qed
qed


section \<open>Rebuilding\<close>

lemma live_take_num:
  assumes "take (num_entries nt) (entries nt) = filter live_entry xs" "entries_bound tab = num_entries nt"
    "entries tab = entries nt"
  shows "live tab = filter live_entry xs"
  using assms by (simp add: live_def filter_id_conv)

lemma skipped_start:
  assumes "st_inv tab"
  shows "filter live_entry (take (entries_start tab) (entries tab)) = []"
  using assms by (auto simp: filter_empty_conv in_set_conv_nth st_inv_def st_shape_def)

lemma build_ok_bins:
  assumes "build_ok nt n" "bins tab = bins nt" "entries tab = entries nt" "bin_power tab = bin_power nt"
    "entries_bound tab = n"
  shows "st_bins_ok tab"
  using assms tab_probe_cong [of tab nt] by (auto simp: build_ok_def st_bins_ok_def split: option.splits)

lemma st_inv_build_ok_empty:
  assumes inv: "st_inv tab" and b: "bins tab \<noteq> None"
  shows "build_ok (initialize_bins (tab\<lparr>num_entries := 0\<rparr>)) 0"
proof -
  note pow = st_inv_power [OF inv]
  have "initialize_bins (tab\<lparr>num_entries := 0\<rparr>) = tab\<lparr>num_entries := 0, bins := Some (replicate (2 ^ bin_power tab) 0)\<rparr>"
    using inv by (subst initialize_bins_replicate) (simp_all add: st_inv_def st_shape_def MINIMAL_POWER2_def)
  then show ?thesis using pow by (simp add: build_ok_def bins_ok_empty)
qed

text \<open>
  A rebuild keeps the live entries and their order, drops the deleted ones and leaves room.  The
  hypothesis is the capacity limit of the table: with more than \<open>2 ^ 61\<close> entries the new size
  would exceed \<open>MAX_POWER2\<close> and \<open>get_power2\<close> raises.
\<close>

definition st_capacity :: "st_table \<Rightarrow> bool" where
  "st_capacity tab \<longleftrightarrow> num_entries tab \<le> 2 ^ 61"

lemma rebuild_table_Some:
  assumes inv: "st_inv tab" and cap: "st_capacity tab"
  shows "\<exists>tab'. rebuild_table tab = Some tab' \<and> st_inv tab' \<and> live tab' = live tab \<and>
    st_type tab' = st_type tab \<and> entries_bound tab' = num_entries tab \<and> num_entries tab' = num_entries tab \<and>
    entries_bound tab' < 2 ^ entry_power tab' \<and> rebuilds_num tab' = rebuilds_num tab + 1"
proof -
  note pow = st_inv_power [OF inv]
  let ?S = "entries tab" and ?start = "entries_start tab" and ?bound = "entries_bound tab"
  have num: "num_entries tab = length (live tab)" and ok: "entries_ok (st_type tab) (live tab)"
    and ty: "st_type_ok (st_type tab)" and start: "?start \<le> ?bound" and shape: "st_shape tab"
    using inv by (simp_all add: st_inv_def st_shape_def)
  have bound: "?bound \<le> length ?S" by (rule st_inv_bound [OF inv])
  show ?thesis
  proof (cases "(2 * num_entries tab \<le> get_allocated_entries tab \<and>
         REBUILD_THRESHOLD * num_entries tab > get_allocated_entries tab) \<or>
        num_entries tab < 2 ^ MINIMAL_POWER2")
    case compact: True
    let ?t0 = "if bins tab \<noteq> None then initialize_bins (tab\<lparr>num_entries := 0\<rparr>) else tab\<lparr>num_entries := 0\<rparr>"
    have frame0: "same_frame tab ?t0" "entries ?t0 = ?S" "num_entries ?t0 = 0"
      by (simp_all add: same_frame_def initialize_bins_def)
    have ok0: "build_ok ?t0 0" using st_inv_build_ok_empty [OF inv] by (auto simp: build_ok_def)
    obtain nt where nt: "rebuild_table_loop True ?S ?bound ?start 0 ?t0 = Some nt" "same_frame ?t0 nt"
      "take (num_entries nt) (entries nt) = filter live_entry (take ?bound ?S)"
      "num_entries nt = length (filter live_entry (take ?bound ?S))" "build_ok nt (num_entries nt)"
      using rebuild_table_loop_Some [of ?start ?bound ?S 0 True ?t0 ?S] start bound skipped_start [OF inv] ok0 frame0(2,3)
      by (auto simp: le_trans [OF length_filter_le])
    let ?r = "nt\<lparr>entries_start := 0, entries_bound := num_entries nt, rebuilds_num := rebuilds_num nt + 1\<rparr>"
    have eq: "rebuild_table tab = Some ?r"
      unfolding rebuild_table_def if_P [OF compact] using nt(1)
      by (cases "bins tab") (simp_all add: Let_def initialize_bins_def)
    have frame: "same_frame tab nt" using same_frame_trans [OF frame0(1) nt(2)] .
    have live: "live ?r = live tab"
      using live_take_num [OF nt(3), of ?r] by (simp add: live_def)
    have num': "num_entries nt = num_entries tab" using nt(4) num by (simp add: live_def)
    have small: "num_entries tab < 2 ^ entry_power tab"
    proof -
      have "(2::nat) ^ 2 \<le> 2 ^ entry_power tab"
        using shape by (intro power_increasing) (simp_all add: st_shape_def MINIMAL_POWER2_def)
      then show ?thesis
        using compact by (auto simp: get_allocated_entries_def MINIMAL_POWER2_def)
    qed
    have "st_inv ?r"
      using ty shape frame num ok small num' build_ok_bins [OF nt(5), of ?r]
      unfolding st_inv_def live by (simp add: st_shape_def same_frame_def)
    then show ?thesis
      unfolding eq using live frame small num' frame0
      by (intro exI [of _ ?r]) (simp add: same_frame_def)
  next
    case grow: False
    then have n4: "4 \<le> num_entries tab" by (simp add: MINIMAL_POWER2_def)
    let ?siz = "of_nat (2 * num_entries tab - 1) :: st_index_t"
    have small: "2 * num_entries tab - 1 < 2 ^ 62" using cap n4 by (simp add: st_capacity_def)
    then have siz: "unat ?siz = 2 * num_entries tab - 1"
      by (simp add: unat_of_nat)
    obtain t0 where t0: "st_init_table_with_size (st_type tab) ?siz = Some t0" "st_inv t0" "live t0 = []"
      "st_type t0 = st_type tab" "unat ?siz < get_allocated_entries t0" "num_entries t0 = 0"
      "entries_start t0 = 0" "entries_bound t0 = 0" "rebuilds_num t0 = 0"
      using st_init_table_with_size_Some [OF ty, of ?siz] siz small by (auto simp: MAX_POWER2_def)
    note pow0 = st_inv_power [OF t0(2)]
    have room: "num_entries tab < length (entries t0)"
      using t0(5) siz n4 pow0 by (simp add: get_allocated_entries_def)
    have ok0: "build_ok t0 0"
    proof (cases "bins t0")
      case None
      then show ?thesis by (simp add: build_ok_def)
    next
      case (Some bs)
      then show ?thesis
        using st_inv_indexed [OF t0(2) Some] pow0 t0(8) by (simp add: build_ok_def indexed_def)
    qed
    obtain nt where nt: "rebuild_table_loop False ?S ?bound ?start 0 t0 = Some nt" "same_frame t0 nt"
      "take (num_entries nt) (entries nt) = filter live_entry (take ?bound ?S)"
      "num_entries nt = length (filter live_entry (take ?bound ?S))" "build_ok nt (num_entries nt)"
      using rebuild_table_loop_Some [of ?start ?bound ?S 0 False t0 ?S] start bound skipped_start [OF inv] ok0
        t0(6) room num by (auto simp: live_def)
    let ?r = "tab\<lparr>entry_power := entry_power nt, bin_power := bin_power nt, size_ind := size_ind nt,
       bins := bins nt, entries := entries nt, entries_start := 0, entries_bound := num_entries tab,
       rebuilds_num := rebuilds_num tab + 1\<rparr>"
    have eq: "rebuild_table tab = Some ?r"
      unfolding rebuild_table_def if_not_P [OF grow] using t0(1) nt(1) by simp
    have num': "num_entries nt = num_entries tab" using nt(4) num by (simp add: live_def)
    have live: "live ?r = live tab"
      using live_take_num [OF nt(3), of ?r] num' by (simp add: live_def)
    have "st_inv ?r"
      using ty t0(2) nt(2) num ok room num' build_ok_bins [OF nt(5), of ?r] pow0
      unfolding st_inv_def live by (simp add: st_shape_def same_frame_def)
    then show ?thesis
      unfolding eq using live nt(2) room pow0 by (intro exI [of _ ?r]) (simp add: same_frame_def)
  qed
qed

lemma rebuild_table_if_necessary_Some:
  assumes inv: "st_inv tab" and cap: "st_capacity tab"
  shows "\<exists>tab'. rebuild_table_if_necessary tab = Some tab' \<and> st_inv tab' \<and> live tab' = live tab \<and>
    st_type tab' = st_type tab \<and> num_entries tab' = num_entries tab \<and>
    entries_bound tab' < 2 ^ entry_power tab'"
proof (cases "entries_bound tab = get_allocated_entries tab")
  case True
  with rebuild_table_Some [OF inv cap] show ?thesis by (auto simp: rebuild_table_if_necessary_def)
next
  case False
  with inv st_inv_power(3) [OF inv] show ?thesis
    by (simp add: rebuild_table_if_necessary_def get_allocated_entries_def)
qed

end
