(* ===== verification/St_Ops.thy ===== *)
theory St_Ops
  imports St_Rebuild
begin

text \<open>
  The operations of st.c refine the association list: each returns (its search loops end), keeps
  the invariant and changes the list as the specification's operation does.  The table is an
  interpretation of the hash interface.
\<close>

section \<open>Lookup\<close>

lemma st_lookup_refines:
  assumes "st_inv tab"
  shows "st_lookup tab k = Some (map_option snd (al_find (EQUAL tab) k (st_alist tab)))"
  using st_index_find [OF assms, of k]
  by (simp add: st_lookup_def st_find_entry_index_eq [OF assms] option.map_comp comp_def)

lemma st_get_key_refines:
  assumes "st_inv tab"
  shows "st_get_key tab k = Some (map_option fst (al_find (EQUAL tab) k (st_alist tab)))"
  using st_index_find [OF assms, of k]
  by (simp add: st_get_key_def st_find_entry_index_eq [OF assms] option.map_comp comp_def)

section \<open>Insertion\<close>

lemma st_insert_insert2: "st_insert tab k v = st_insert2 tab k v (\<lambda>k. k)"
  by (simp add: st_insert_def st_insert2_def)

lemma st_reserve_found:
  assumes inv: "st_inv tab" and i: "st_index tab h k = Some i" and h: "h \<noteq> RESERVED_HASH_VAL"
  shows "\<exists>b. st_reserve tab h k = Some (tab, b, Some i)"
proof (cases "bins tab")
  case None
  with i find_entry_eq [OF inv h] show ?thesis by (simp add: st_reserve_def)
next
  case (Some bs)
  with i find_table_bin_ptr_and_reserve_eq [OF inv Some h, of k] show ?thesis
    by (auto simp: st_reserve_def ENTRY_BASE_def)
qed

text \<open>A reservation for a new key followed by the append is one append in the invariant's sense.\<close>

lemma st_reserve_append:
  assumes inv: "st_inv tab" and i: "st_index tab h k = None" and h: "h \<noteq> RESERVED_HASH_VAL"
    and room: "entries_bound tab < 2 ^ entry_power tab"
  shows "\<exists>tab1 b. st_reserve tab h k = Some (tab1, b, None) \<and>
    (\<forall>e. \<exists>b'. bins_appended tab h b' \<and> st_append_entry tab1 b e =
       tab\<lparr>num_entries := Suc (num_entries tab), entries_bound := Suc (entries_bound tab),
           entries := (entries tab)[entries_bound tab := e], bins := b'\<rparr>)"
proof (cases "bins tab")
  case None
  with i find_entry_eq [OF inv h] show ?thesis
    by (simp add: st_reserve_def st_append_entry_def bins_appended_def Let_def)
next
  case (Some bs)
  obtain N where N: "reserve_ok tab bs h N" "find_table_bin_ptr_and_reserve tab h k =
      Some (tab\<lparr>num_entries := Suc (num_entries tab), bins := Some (bs[tab_probe tab h N := 0])\<rparr>, probe tab h N, None)"
    using find_table_bin_ptr_and_reserve_eq [OF inv Some h, of k] i by auto
  have store: "set_bin xs (size_ind tab) (probe tab h N) (entries_bound tab + ENTRY_BASE) =
      xs[tab_probe tab h N := entries_bound tab + 2]" for xs
    using set_bin_index [OF inv room] by (simp add: tab_probe_def)
  show ?thesis
    using N Some store
    by (auto simp: st_reserve_def st_append_entry_def bins_appended_def tab_set_bin_def Let_def
        intro!: exI [of _ "Some (bs[tab_probe tab h N := entries_bound tab + 2])"])
qed

lemma st_index_type_cong:
  "st_type t = st_type u \<Longrightarrow> EQUAL t = EQUAL u \<and> do_hash k t = do_hash k u"
  by (simp add: EQUAL_type_equal do_hash_def)

lemma st_insert2_refines:
  assumes inv: "st_inv tab" and cap: "st_capacity tab" and func: "EQUAL tab k (func k)"
  shows "\<exists>tab' r. st_insert2 tab k v func = Some (tab', r) \<and> st_inv tab' \<and> st_type tab' = st_type tab \<and>
    (if al_find (EQUAL tab) k (st_alist tab) = None
     then r = 0 \<and> st_alist tab' = st_alist tab @ [(func k, v)]
     else r = 1 \<and> st_alist tab' = al_put (EQUAL tab) k v (st_alist tab))"
proof -
  obtain t where t: "rebuild_table_if_necessary tab = Some t" "st_inv t" "live t = live tab"
    "st_type t = st_type tab" "entries_bound t < 2 ^ entry_power t"
    using rebuild_table_if_necessary_Some [OF inv cap] by blast
  have al: "st_alist t = st_alist tab" using t(3) by (simp add: st_alist_def)
  have eq: "EQUAL t = EQUAL tab" and hash: "do_hash k t = do_hash k tab"
    using st_index_type_cong [OF t(4)] by auto
  let ?h = "do_hash k tab"
  show ?thesis
  proof (cases "st_index t ?h k")
    case None
    have absent: "al_find (EQUAL tab) k (st_alist tab) = None"
      using st_index_find [OF t(2), of k] None by (simp add: al eq hash)
    obtain tab1 b where r: "st_reserve t ?h k = Some (tab1, b, None)"
      "\<forall>e. \<exists>b'. bins_appended t ?h b' \<and> st_append_entry tab1 b e =
       t\<lparr>num_entries := Suc (num_entries t), entries_bound := Suc (entries_bound t),
           entries := (entries t)[entries_bound t := e], bins := b'\<rparr>"
      using st_reserve_append [OF t(2) None do_hash_not_reserved t(5)] by blast
    let ?e = "\<lparr>e_hash = ?h, e_key = func k, e_record = v\<rparr>"
    obtain b' where b': "bins_appended t ?h b'" "st_append_entry tab1 b ?e =
       t\<lparr>num_entries := Suc (num_entries t), entries_bound := Suc (entries_bound t),
           entries := (entries t)[entries_bound t := ?e], bins := b'\<rparr>"
      using r(2) by blast
    have new: "\<forall>p \<in> set (live t). \<not> EQUAL t (e_key p) (func k)"
    proof -
      have "al_absent (EQUAL tab) k (map pair_of (live t))"
        using absent t(3) by (simp add: al_find_None_iff st_alist_def)
      then show ?thesis
        using func st_inv_equiv [OF inv] unfolding eq
        by (auto dest: equivp_symp equivp_transp)
    qed
    have h': "e_hash ?e = do_hash (e_key ?e) t"
      using st_inv_hash_cong [OF inv func] by (simp add: do_hash_def t(4))
    have "st_inv (st_append_entry tab1 b ?e) \<and> live (st_append_entry tab1 b ?e) = live t @ [?e]"
      by (rule append_inv [OF t(2,5) h' _ _ b'(2)]) (use new b'(1) in simp_all)
    moreover have "st_insert2 tab k v func = Some (st_append_entry tab1 b ?e, 0)"
      using t(1) r(1) by (simp add: st_insert2_def)
    ultimately show ?thesis
      using absent b'(2) t(3,4) by (simp add: st_alist_def pair_of_def)
  next
    case (Some i)
    note i = st_index_live [OF t(2), of k i, unfolded hash, OF Some]
    obtain b where r: "st_reserve t ?h k = Some (t, b, Some i)"
      using st_reserve_found [OF t(2) Some do_hash_not_reserved] by blast
    let ?e = "(entries t ! i)\<lparr>e_record := v\<rparr>"
    let ?t = "t\<lparr>entries := (entries t)[i := ?e]\<rparr>"
    have "EQUAL t (e_key ?e) (e_key (entries t ! i))" by (simp add: EQUAL_def)
    then have "st_inv ?t \<and> live ?t = live_before t i @ ?e # live_after t i"
      by (intro rewrite_inv [OF t(2) i(1,2)]) simp_all
    moreover have "st_insert2 tab k v func = Some (?t, 1)"
      using t(1) r by (simp add: st_insert2_def)
    ultimately show ?thesis
      using alist_at(1,2) [OF t(2) i] t(4) unfolding al eq
      by (simp add: st_alist_def pair_of_def)
  qed
qed

lemma st_insert_refines:
  assumes inv: "st_inv tab" and cap: "st_capacity tab"
  shows "\<exists>tab' r. st_insert tab k v = Some (tab', r) \<and> st_inv tab' \<and> st_type tab' = st_type tab \<and>
    st_alist tab' = al_put (EQUAL tab) k v (st_alist tab) \<and>
    r = (if al_find (EQUAL tab) k (st_alist tab) = None then 0 else 1)"
proof -
  have "EQUAL tab k ((\<lambda>k. k) k)" by (simp add: EQUAL_def)
  from st_insert2_refines [where func = "\<lambda>k. k" and v = v, OF inv cap this] show ?thesis
    by (auto simp: st_insert_insert2 al_put_absent al_find_None_iff split: if_splits)
qed

text \<open>
  \<open>st_add_direct\<close> puts a pair without looking for the key; for a key that is not there it is an
  insertion.
\<close>

lemma st_add_direct_with_hash_refines:
  assumes inv: "st_inv tab" and cap: "st_capacity tab"
    and absent: "al_absent (EQUAL tab) k (st_alist tab)" and h: "h = do_hash k tab"
  shows "\<exists>tab'. st_add_direct_with_hash tab k v h = Some tab' \<and> st_inv tab' \<and> st_type tab' = st_type tab \<and>
    st_alist tab' = st_alist tab @ [(k, v)]"
proof -
  obtain t where t: "rebuild_table_if_necessary tab = Some t" "st_inv t" "live t = live tab"
    "st_type t = st_type tab" "entries_bound t < 2 ^ entry_power t"
    using rebuild_table_if_necessary_Some [OF inv cap] by blast
  have eq: "EQUAL t = EQUAL tab" and hash: "do_hash k t = h"
    using st_index_type_cong [OF t(4)] h by auto
  let ?e = "\<lparr>e_hash = h, e_key = k, e_record = v\<rparr>"
  let ?t = "t\<lparr>entries_bound := Suc (entries_bound t), entries := (entries t)[entries_bound t := ?e],
      num_entries := Suc (num_entries t)\<rparr>"
  have new: "\<forall>p \<in> set (live t). \<not> EQUAL t (e_key p) (e_key ?e)"
    using absent st_inv_equiv [OF inv] by (auto simp: st_alist_def t(3) eq dest: equivp_symp)
  have "\<exists>b'. bins_appended t h b' \<and>
      st_add_direct_with_hash tab k v h = Some (t\<lparr>num_entries := Suc (num_entries t), entries_bound := Suc (entries_bound t),
       entries := (entries t)[entries_bound t := ?e], bins := b'\<rparr>)"
  proof (cases "bins t")
    case None
    then show ?thesis using t(1) by (simp add: st_add_direct_with_hash_def bins_appended_def Let_def)
  next
    case (Some bs)
    have "tab_probe ?t = tab_probe t" by (rule tab_probe_cong) simp
    moreover have idx: "indexed ?t bs"
      using st_inv_indexed(1) [OF t(2) Some] unfolding indexed_def by auto
    ultimately obtain N where N: "find_table_bin_ind_direct ?t h k = Some (probe ?t h N)" "reserve_ok t bs h N"
      "tab_probe t h N = unat (probe ?t h N)"
      using find_table_bin_ind_direct_eq [OF idx, of h k] unfolding reserve_ok_def by (metis tab_probe_def)
    then have "st_add_direct_with_hash tab k v h = Some (tab_set_bin ?t (probe ?t h N) (entries_bound t + ENTRY_BASE))"
      using t(1) Some by (simp add: st_add_direct_with_hash_def Let_def)
    moreover have "tab_set_bin ?t (probe ?t h N) (entries_bound t + ENTRY_BASE) =
        t\<lparr>num_entries := Suc (num_entries t), entries_bound := Suc (entries_bound t),
       entries := (entries t)[entries_bound t := ?e], bins := Some (bs[tab_probe t h N := entries_bound t + 2])\<rparr>"
      using Some N(3) set_bin_index [OF t(2,5)] by (simp add: tab_set_bin_def)
    ultimately show ?thesis using N(2) Some by (auto simp: bins_appended_def)
  qed
  then obtain b' where b': "bins_appended t (e_hash ?e) b'" "st_add_direct_with_hash tab k v h =
      Some (t\<lparr>num_entries := Suc (num_entries t), entries_bound := Suc (entries_bound t),
       entries := (entries t)[entries_bound t := ?e], bins := b'\<rparr>)" by auto
  have "st_inv (the (st_add_direct_with_hash tab k v h)) \<and>
      live (the (st_add_direct_with_hash tab k v h)) = live t @ [?e]"
    by (rule append_inv [OF t(2,5) _ new b'(1)]) (use b'(2) hash in simp_all)
  with b'(2) t(3,4) show ?thesis by (simp add: st_alist_def pair_of_def)
qed

section \<open>Deletion\<close>

lemma MARK_BIN_DELETED_bins:
  "bins tab = Some bs \<Longrightarrow> MARK_BIN_DELETED tab j = tab\<lparr>bins := Some (bs[unat j := 1])\<rparr>"
  by (simp add: MARK_BIN_DELETED_def set_bin_def DELETED_BIN_def bin_bits_def)

lemma same_bins: "tab\<lparr>bins := bins tab\<rparr> = tab"
  by simp

text \<open>Deleting the entry \<open>i\<close> a search found, with its bin if there are bins.\<close>

lemma delete_found:
  assumes inv: "st_inv tab" and i: "st_index tab (do_hash k tab) k = Some i"
    and bin: "bins tab \<noteq> None \<Longrightarrow> find_table_bin_ind tab (do_hash k tab) k = Some (Some j)"
    and tab1: "tab1 = (if bins tab = None then tab else MARK_BIN_DELETED tab j)"
  shows "let tab' = update_range_for_deleted (st_mark_entry tab1 i) i
    in st_inv tab' \<and> st_type tab' = st_type tab \<and> st_alist tab' = al_del (EQUAL tab) k (st_alist tab)"
    "bins tab \<noteq> None \<Longrightarrow> tab_bin tab j = i + 2"
    "entries tab1 = entries tab"
proof -
  note i' = st_index_live [OF inv i]
  have *: "\<exists>b'. bins_deleted tab i b' \<and> tab1 = tab\<lparr>bins := b'\<rparr> \<and> (bins tab \<noteq> None \<longrightarrow> tab_bin tab j = i + 2)"
  proof (cases "bins tab")
    case None
    then show ?thesis using tab1 same_bins [of tab] by (intro exI [of _ None]) (simp add: bins_deleted_def)
  next
    case (Some bs)
    then have "unat j < length bs" "bs ! unat j = i + 2"
      using find_table_bin_ind_eq [OF inv Some do_hash_not_reserved [of k tab], of k] i bin by auto
    then show ?thesis
      using Some tab1 MARK_BIN_DELETED_bins [OF Some, of j] tab_bin_nth [OF Some, of j]
      by (auto simp: bins_deleted_def)
  qed
  then obtain b' where b': "bins_deleted tab i b'" "tab1 = tab\<lparr>bins := b'\<rparr>" by blast
  show "bins tab \<noteq> None \<Longrightarrow> tab_bin tab j = i + 2" using * by blast
  show "entries tab1 = entries tab" using b'(2) by simp
  from delete_inv [OF inv i'(1,2) b'(1) refl] alist_at(3) [OF inv i']
  show "let tab' = update_range_for_deleted (st_mark_entry tab1 i) i
    in st_inv tab' \<and> st_type tab' = st_type tab \<and> st_alist tab' = al_del (EQUAL tab) k (st_alist tab)"
    by (simp add: b'(2) Let_def st_alist_def)
qed

lemma st_delete_refines:
  assumes inv: "st_inv tab"
  shows "\<exists>tab'. st_delete tab k = Some (case al_find (EQUAL tab) k (st_alist tab) of
        None \<Rightarrow> (tab', 0, k, 0) | Some (k', v') \<Rightarrow> (tab', 1, k', v')) \<and>
    st_inv tab' \<and> st_type tab' = st_type tab \<and> st_alist tab' = al_del (EQUAL tab) k (st_alist tab)"
proof (cases "st_index tab (do_hash k tab) k")
  case None
  have absent: "al_find (EQUAL tab) k (st_alist tab) = None"
    using st_index_find [OF inv, of k] None by simp
  have "st_delete tab k = Some (tab, 0, k, 0)"
  proof (cases "bins tab")
    case bins: None
    with None find_entry_eq [OF inv do_hash_not_reserved] show ?thesis
      by (simp add: st_delete_def st_general_delete_def)
  next
    case (Some bs)
    with None find_table_bin_ind_eq [OF inv Some do_hash_not_reserved [of k tab], of k] show ?thesis
      by (simp add: st_delete_def st_general_delete_def)
  qed
  then show ?thesis
    using inv al_del_find_None [OF absent] by (simp add: absent)
next
  case (Some i)
  obtain j where j: "bins tab \<noteq> None \<Longrightarrow> find_table_bin_ind tab (do_hash k tab) k = Some (Some j)"
  proof (cases "bins tab")
    case None
    then show ?thesis using that by blast
  next
    case (Some bs)
    with find_table_bin_ind_eq [OF inv Some do_hash_not_reserved [of k tab], of k] \<open>st_index tab (do_hash k tab) k = Some i\<close>
    show ?thesis using that by auto
  qed
  let ?tab1 = "if bins tab = None then tab else MARK_BIN_DELETED tab j"
  let ?tab' = "update_range_for_deleted (st_mark_entry ?tab1 i) i"
  note found = delete_found [OF inv Some j refl]
  have "st_delete tab k = Some (?tab', 1, e_key (entries tab ! i), e_record (entries tab ! i))"
  proof (cases "bins tab")
    case None
    with Some find_entry_eq [OF inv do_hash_not_reserved] show ?thesis
      by (simp add: st_delete_def st_general_delete_def Let_def)
  next
    case (Some bs)
    with j found(2,3) show ?thesis
      by (simp add: st_delete_def st_general_delete_def ENTRY_BASE_def Let_def)
  qed
  with found(1) st_index_find [OF inv, of k] Some show ?thesis by (simp add: Let_def pair_of_def)
qed


section \<open>Shift\<close>

lemma live_empty_iff:
  "live tab = [] \<longleftrightarrow> (\<forall>i < entries_bound tab. i < length (entries tab) \<longrightarrow> DELETED_ENTRY_P (entries tab ! i))"
  by (auto simp: live_def filter_empty_conv all_set_conv_all_nth)

lemma st_shift_from_refines:
  assumes "st_inv tab" "\<forall>j < i. DELETED_ENTRY_P (entries tab ! j)"
  shows "case st_alist tab of
      [] \<Rightarrow> st_shift_from tab i = Some (tab, 0, None, 0)
    | (k, v) # rest \<Rightarrow> (\<exists>tab'. st_shift_from tab i = Some (tab', 1, Some k, v) \<and>
        st_inv tab' \<and> st_type tab' = st_type tab \<and> st_alist tab' = rest)"
  using assms
proof (induction tab i rule: st_shift_from.induct)
  case (1 tab i)
  note inv = "1.prems"(1)
  show ?case
  proof (cases "i < entries_bound tab")
    case False
    then have "live tab = []" using "1.prems"(2) by (auto simp: live_empty_iff)
    with False show ?thesis by (simp add: st_alist_def st_shift_from.simps [of tab i])
  next
    case bound: True
    let ?e = "entries tab ! i"
    show ?thesis
    proof (cases "DELETED_ENTRY_P ?e")
      case True
      then have "\<forall>j < Suc i. DELETED_ENTRY_P (entries tab ! j)"
        using "1.prems"(2) by (simp add: less_Suc_eq)
      moreover have "st_shift_from tab i = st_shift_from tab (Suc i)"
        using True bound by (simp add: st_shift_from.simps [of tab i])
      ultimately show ?thesis using "1.IH" [OF bound refl True inv] by (simp only:)
    next
      case live: False
      let ?k = "e_key ?e"
      have hash: "e_hash ?e = do_hash ?k tab"
        using st_inv_hash [OF inv live_mem [OF bound st_inv_bound [OF inv] live]] .
      then have "PTR_EQUAL tab ?e (do_hash ?k tab) ?k" by (simp add: PTR_EQUAL_def EQUAL_def)
      then have idx: "st_index tab (do_hash ?k tab) ?k = Some i"
        using st_index_eq [OF inv do_hash_not_reserved bound] by blast
      have "live_before tab i = []"
        using "1.prems"(2) by (auto simp: live_before_def filter_empty_conv in_set_conv_nth)
      then have al: "st_alist tab = pair_of ?e # map pair_of (live_after tab i)"
        using entry_split [OF inv bound live] by (simp add: st_alist_def)
      then have del: "al_del (EQUAL tab) ?k (st_alist tab) = map pair_of (live_after tab i)"
        by (simp add: EQUAL_def)
      obtain j where j: "bins tab \<noteq> None \<Longrightarrow> find_table_bin_ind tab (do_hash ?k tab) ?k = Some (Some j)"
      proof (cases "bins tab")
        case None
        then show ?thesis using that by blast
      next
        case (Some bs)
        with find_table_bin_ind_eq [OF inv Some do_hash_not_reserved [of ?k tab], of ?k] idx
        show ?thesis using that by auto
      qed
      let ?tab1 = "if bins tab = None then tab else MARK_BIN_DELETED tab j"
      note found = delete_found [OF inv idx j refl]
      have "st_shift_from tab i =
          Some (update_range_for_deleted (st_mark_entry ?tab1 i) i, 1, Some ?k, e_record ?e)"
      proof (cases "bins tab")
        case None
        with bound live idx hash find_entry_eq [OF inv do_hash_not_reserved] show ?thesis
          by (simp add: st_shift_from.simps [of tab i] Let_def)
      next
        case (Some bs)
        with bound live hash j found(2) show ?thesis
          by (simp add: st_shift_from.simps [of tab i] Let_def ENTRY_BASE_def)
      qed
      moreover have "EQUAL tab ?k ?k" by (simp add: EQUAL_def)
      ultimately show ?thesis using found(1) by (simp add: al del Let_def pair_of_def [of ?e])
    qed
  qed
qed

lemma st_shift_refines:
  assumes "st_inv tab"
  shows "case st_alist tab of
      [] \<Rightarrow> st_shift tab = Some (tab, 0, None, 0)
    | (k, v) # rest \<Rightarrow> (\<exists>tab'. st_shift tab = Some (tab', 1, Some k, v) \<and>
        st_inv tab' \<and> st_type tab' = st_type tab \<and> st_alist tab' = rest)"
  unfolding st_shift_def
  by (rule st_shift_from_refines [OF assms]) (use assms in \<open>simp add: st_inv_def st_shape_def\<close>)

section \<open>Update\<close>

text \<open>What \<open>st_update\<close> does to the list, by the verdict of the callback.\<close>

definition al_update :: "('k \<Rightarrow> 'k \<Rightarrow> bool) \<Rightarrow> 'k \<Rightarrow> ('k \<Rightarrow> 'v \<Rightarrow> bool \<Rightarrow> st_retval \<times> 'k \<times> 'v) \<Rightarrow> 'v \<Rightarrow>
    ('k \<times> 'v) list \<Rightarrow> ('k \<times> 'v) list" where
  "al_update eq k func zero xs = (case al_find eq k xs of
     None \<Rightarrow> (case func k zero False of
        (ST_CONTINUE, k', v') \<Rightarrow> xs @ [(k', v')]
      | _ \<Rightarrow> xs)
   | Some (k0, v0) \<Rightarrow> (case func k0 v0 True of
        (ST_CONTINUE, k', v') \<Rightarrow> map (\<lambda>p. if eq k (fst p) then (k', v') else p) xs
      | (ST_DELETE, _, _) \<Rightarrow> al_del eq k xs
      | _ \<Rightarrow> xs))"

lemma absent_after:
  assumes inv: "st_inv tab" and i: "i < entries_bound tab" "live_entry (entries tab ! i)"
    and k: "EQUAL tab k (e_key (entries tab ! i))"
  shows "al_absent (EQUAL tab) k (map pair_of (live_after tab i))"
proof -
  have "\<not> EQUAL tab (e_key (entries tab ! i)) (e_key p)" if "p \<in> set (live_after tab i)" for p
    using st_inv_distinct [OF inv] that unfolding st_alist_def entry_split [OF inv i]
    by (auto simp: al_distinct_def sorted_wrt_append)
  then show ?thesis
    using k st_inv_equiv [OF inv] by (auto dest: equivp_symp equivp_transp)
qed

lemma map_replace_absent: "al_absent eq k xs \<Longrightarrow> map (\<lambda>p. if eq k (fst p) then q else p) xs = xs"
  by (induction xs) auto

lemma st_update_search:
  assumes inv: "st_inv tab"
  shows "\<exists>b. (if bins tab = None then Some (find_entry tab (do_hash k tab) k, None)
         else do {
           bin_ind \<leftarrow> find_table_bin_ind tab (do_hash k tab) k;
           Some (map_option (\<lambda>b. tab_bin tab b - ENTRY_BASE) bin_ind, bin_ind)
         }) = Some (st_index tab (do_hash k tab) k, b) \<and>
    (case st_index tab (do_hash k tab) k of None \<Rightarrow> True
     | Some i \<Rightarrow> (if bins tab = None then b = None
                  else find_table_bin_ind tab (do_hash k tab) k = Some b \<and> b \<noteq> None))"
proof (cases "bins tab")
  case None
  then show ?thesis using find_entry_eq [OF inv do_hash_not_reserved] by (simp split: option.splits)
next
  case (Some bs)
  show ?thesis
    using find_table_bin_ind_eq [OF inv Some do_hash_not_reserved [of k tab], of k] Some
    by (auto simp: tab_bin_nth ENTRY_BASE_def split: option.splits)
qed

lemma st_update_refines:
  assumes inv: "st_inv tab" and cap: "st_capacity tab"
    and func: "\<And>k0 v0 ex k' v'. EQUAL tab k k0 \<Longrightarrow> ex \<or> k0 = k \<Longrightarrow> func k0 v0 ex = (ST_CONTINUE, k', v') \<Longrightarrow>
      EQUAL tab k0 k'"
  shows "\<exists>tab'. st_update tab k func = Some (tab', al_find (EQUAL tab) k (st_alist tab) \<noteq> None) \<and>
    st_inv tab' \<and> st_type tab' = st_type tab \<and> st_alist tab' = al_update (EQUAL tab) k func 0 (st_alist tab)"
proof -
  obtain b where b: "(if bins tab = None then Some (find_entry tab (do_hash k tab) k, None)
         else do {
           bin_ind \<leftarrow> find_table_bin_ind tab (do_hash k tab) k;
           Some (map_option (\<lambda>b. tab_bin tab b - ENTRY_BASE) bin_ind, bin_ind)
         }) = Some (st_index tab (do_hash k tab) k, b)"
    "case st_index tab (do_hash k tab) k of None \<Rightarrow> True
     | Some i \<Rightarrow> (if bins tab = None then b = None
                  else find_table_bin_ind tab (do_hash k tab) k = Some b \<and> b \<noteq> None)"
    using st_update_search [OF inv] by blast
  have upd: "st_update tab k func =
     (let found = st_index tab (do_hash k tab) k;
          (key, val) = (case found of None \<Rightarrow> (k, 0)
                        | Some bin \<Rightarrow> (e_key (entries tab ! bin), e_record (entries tab ! bin)));
          (retval, key, val) = func key val (found \<noteq> None)
      in do {
        tab \<leftarrow> (case retval of
            ST_CONTINUE \<Rightarrow>
              (case found of
                 None \<Rightarrow> st_add_direct_with_hash tab key val (do_hash k tab)
               | Some bin \<Rightarrow>
                   Some (tab\<lparr>entries := (entries tab)[bin :=
                     (entries tab ! bin)\<lparr>e_key := key, e_record := val\<rparr>]\<rparr>))
          | ST_DELETE \<Rightarrow>
              (case found of
                 None \<Rightarrow> Some tab
               | Some bin \<Rightarrow>
                   (let tab = (case b of None \<Rightarrow> tab | Some b \<Rightarrow> MARK_BIN_DELETED tab b)
                    in Some (update_range_for_deleted (st_mark_entry tab bin) bin)))
          | _ \<Rightarrow> Some tab);
        Some (tab, found \<noteq> None)
      })"
    unfolding st_update_def Let_def b(1) by simp
  have kk: "EQUAL tab k k" by (simp add: EQUAL_def)
  show ?thesis
  proof (cases "st_index tab (do_hash k tab) k")
    case None
    then have absent: "al_find (EQUAL tab) k (st_alist tab) = None"
      using st_index_find [OF inv, of k] by simp
    obtain r k' v' where f: "func k 0 False = (r, k', v')" by (cases "func k 0 False") auto
    show ?thesis
    proof (cases "r = ST_CONTINUE")
      case True
      then have kk': "EQUAL tab k k'" using func [OF kk] f by blast
      have "al_absent (EQUAL tab) k' (st_alist tab)"
        using absent kk' st_inv_equiv [OF inv] unfolding al_find_None_iff
        by (blast intro: equivp_transp)
      then show ?thesis
        using st_add_direct_with_hash_refines [OF inv cap, of k' "do_hash k tab" v']
          st_inv_hash_cong [OF inv kk'] None True f absent
        unfolding upd by (auto simp: al_update_def)
    next
      case False
      then show ?thesis using None f absent inv unfolding upd
        by (cases r) (auto simp: al_update_def)
    qed
  next
    case (Some i)
    note i = st_index_live [OF inv Some]
    let ?e = "entries tab ! i"
    have found: "al_find (EQUAL tab) k (st_alist tab) = Some (e_key ?e, e_record ?e)"
      using alist_at(1) [OF inv i] by (simp add: pair_of_def)
    obtain r k' v' where f: "func (e_key ?e) (e_record ?e) True = (r, k', v')"
      by (cases "func (e_key ?e) (e_record ?e) True") auto
    consider "r = ST_CONTINUE" | "r = ST_DELETE" | "r \<noteq> ST_CONTINUE" "r \<noteq> ST_DELETE" by blast
    then show ?thesis
    proof cases
      case 1
      let ?e' = "?e\<lparr>e_key := k', e_record := v'\<rparr>"
      have "EQUAL tab (e_key ?e') (e_key ?e)"
        using equivp_symp [OF st_inv_equiv [OF inv] func [OF i(3), of True]] f 1 by simp
      then have "st_inv (tab\<lparr>entries := (entries tab)[i := ?e']\<rparr>) \<and>
          live (tab\<lparr>entries := (entries tab)[i := ?e']\<rparr>) = live_before tab i @ ?e' # live_after tab i"
        by (intro rewrite_inv [OF inv i(1,2)]) simp_all
      moreover have "map (\<lambda>p. if EQUAL tab k (fst p) then (k', v') else p) (st_alist tab) =
          map pair_of (live_before tab i) @ (k', v') # map pair_of (live_after tab i)"
        using map_replace_absent [where eq = "EQUAL tab" and k = k, OF absent_before [OF inv i]]
          map_replace_absent [where eq = "EQUAL tab" and k = k, OF absent_after [OF inv i]] i(3)
        by (simp add: st_alist_def entry_split [OF inv i(1,2)] del: map_map)
      ultimately show ?thesis
        using Some f 1 found unfolding upd by (simp add: al_update_def st_alist_def pair_of_def)
    next
      case 2
      obtain j where j: "bins tab \<noteq> None \<Longrightarrow> find_table_bin_ind tab (do_hash k tab) k = Some (Some j)"
        "b = (if bins tab = None then None else Some j)"
        using b(2) Some by (cases "bins tab") auto
      have "(case b of None \<Rightarrow> tab | Some b \<Rightarrow> MARK_BIN_DELETED tab b) =
          (if bins tab = None then tab else MARK_BIN_DELETED tab j)" using j(2) by simp
      then show ?thesis
        using delete_found(1) [OF inv Some j(1) refl] Some f 2 found unfolding upd
        by (simp add: al_update_def Let_def)
    next
      case 3
      then show ?thesis using Some f found inv unfolding upd
        by (cases r) (auto simp: al_update_def)
    qed
  qed
qed

section \<open>Keys and values\<close>

lemma st_collect_eq:
  assumes "entries_bound tab \<le> length (entries tab)"
  shows "st_collect f tab siz i = take siz (map f (filter live_entry (drop i (take (entries_bound tab) (entries tab)))))"
  using assms
proof (induction f tab siz i rule: st_collect.induct)
  case (1 f tab siz i)
  show ?case
  proof (cases "i < entries_bound tab \<and> siz \<noteq> 0")
    case False
    then show ?thesis by (auto simp: st_collect.simps [of f tab siz i])
  next
    case True
    then have "drop i (take (entries_bound tab) (entries tab)) =
        entries tab ! i # drop (Suc i) (take (entries_bound tab) (entries tab))"
      using "1.prems" by (simp add: Cons_nth_drop_Suc [symmetric])
    moreover have "st_collect f tab siz i =
        (if DELETED_ENTRY_P (entries tab ! i) then st_collect f tab siz (Suc i)
         else f (entries tab ! i) # st_collect f tab (siz - 1) (Suc i))"
      using True by (simp add: st_collect.simps [of f tab siz i])
    ultimately show ?thesis using True 1 by (cases siz) auto
  qed
qed

lemma drop_start_live:
  assumes "st_inv tab"
  shows "filter live_entry (drop (entries_start tab) (take (entries_bound tab) (entries tab))) = live tab"
proof -
  have "entries_start tab \<le> entries_bound tab" using assms by (simp add: st_inv_def st_shape_def)
  then have "take (entries_bound tab) (entries tab) =
      take (entries_start tab) (entries tab) @ drop (entries_start tab) (take (entries_bound tab) (entries tab))"
    by (metis append_take_drop_id min.absorb1 take_take)
  then have "live tab = filter live_entry (take (entries_start tab) (entries tab)) @
      filter live_entry (drop (entries_start tab) (take (entries_bound tab) (entries tab)))"
    unfolding live_def by (metis filter_append)
  with skipped_start [OF assms] show ?thesis by simp
qed

lemma st_general_keys_refines:
  "st_inv tab \<Longrightarrow> st_general_keys tab siz = take siz (map fst (st_alist tab))"
  by (simp add: st_general_keys_def st_collect_eq [OF st_inv_bound] drop_start_live st_alist_def comp_def)

lemma st_general_values_refines:
  "st_inv tab \<Longrightarrow> st_general_values tab siz = take siz (map snd (st_alist tab))"
  by (simp add: st_general_values_def st_collect_eq [OF st_inv_bound] drop_start_live st_alist_def comp_def)

section \<open>The table as a hash\<close>

definition st_insert_tab :: "st_table \<Rightarrow> st_data_t \<Rightarrow> st_data_t \<Rightarrow> st_table option" where
  "st_insert_tab tab k v = map_option fst (st_insert tab k v)"

definition st_delete_tab :: "st_table \<Rightarrow> st_data_t \<Rightarrow> st_table option" where
  "st_delete_tab tab k = map_option fst (st_delete tab k)"

interpretation st: ordered_hash "\<lambda>_. True" EQUAL st_inv st_alist st_capacity st_lookup st_insert_tab st_delete_tab
proof unfold_locales
  fix s k v
  assume inv: "st_inv s"
  show "equivp (EQUAL s)" by (rule st_inv_equiv [OF inv])
  show "al_distinct (EQUAL s) (st_alist s)" by (rule st_inv_distinct [OF inv])
  show "st_lookup s k = Some (map_option snd (al_find (EQUAL s) k (st_alist s)))"
    by (rule st_lookup_refines [OF inv])
  obtain t where t: "st_delete s k = Some (case al_find (EQUAL s) k (st_alist s) of
        None \<Rightarrow> (t, 0, k, 0) | Some (k', v') \<Rightarrow> (t, 1, k', v'))"
    "st_inv t" "st_type t = st_type s" "st_alist t = al_del (EQUAL s) k (st_alist s)"
    using st_delete_refines [OF inv, of k] by blast
  have "st_delete_tab s k = Some t"
    using t(1) by (cases "al_find (EQUAL s) k (st_alist s)") (auto simp: st_delete_tab_def)
  then show "\<exists>s'. st_delete_tab s k = Some s' \<and> st_inv s' \<and> EQUAL s' = EQUAL s \<and>
      st_alist s' = al_del (EQUAL s) k (st_alist s)"
    using t st_index_type_cong by blast
  assume "st_capacity s"
  then obtain t r where t: "st_insert s k v = Some (t, r)" "st_inv t" "st_type t = st_type s"
    "st_alist t = al_put (EQUAL s) k v (st_alist s)"
    using st_insert_refines [OF inv, of k v] by blast
  then have "st_insert_tab s k v = Some t" by (simp add: st_insert_tab_def)
  then show "\<exists>s'. st_insert_tab s k v = Some s' \<and> st_inv s' \<and> EQUAL s' = EQUAL s \<and>
      st_alist s' = al_put (EQUAL s) k v (st_alist s)"
    using t st_index_type_cong by blast
qed

end
