(* ===== verification/St_Foreach.thy ===== *)
theory St_Foreach
  imports St_Ops
begin

text \<open>
  The traversal \<open>st_general_foreach\<close> of st.c.  The callback may change the table while it is
  traversed, so it is a state transformer over the table and the object \<open>arg\<close> points to; it is a
  partial one, since it may raise.  The refinement is proved for callbacks that leave the table
  alone and delete through their verdict.
\<close>

section \<open>The loop\<close>

text \<open>
  \<open>func key record error state\<close> returns the verdict and the new state; \<open>replace\<close> gets copies of the
  key and the value and returns its verdict with what it left in them.
\<close>

type_synonym 's st_foreach_check_callback_func =
  "st_data_t \<Rightarrow> st_data_t \<Rightarrow> bool \<Rightarrow> st_table \<times> 's \<Rightarrow> (st_retval \<times> st_table \<times> 's) option"

type_synonym st_replace_func = "st_data_t \<Rightarrow> st_data_t \<Rightarrow> st_retval \<times> st_data_t \<times> st_data_t"

text \<open>
  The part of an iteration after the callback has returned and the index was looked up again:
  \<open>Inl r\<close> is \<open>return r\<close>, \<open>Inr tab\<close> goes to the next index.  \<open>missing\<close> is \<open>error_p\<close>: then the entry
  pointer is \<open>&entries[UNDEFINED_ENTRY_IND]\<close> and reading its key has no value.
\<close>

definition st_foreach_verdict :: "bool \<Rightarrow> st_retval \<Rightarrow> bool \<Rightarrow> st_hash_t \<Rightarrow> bool \<Rightarrow> nat \<Rightarrow> st_table \<Rightarrow>
    (st_table \<times> int option) option" where
  "st_foreach_verdict check_p retval packed_p hash missing i tab = (case retval of
      ST_REPLACE \<Rightarrow> Some (tab, None)
    | ST_CONTINUE \<Rightarrow> Some (tab, None)
    | ST_CHECK \<Rightarrow> Some (tab, if check_p then None else Some 0)
    | ST_STOP \<Rightarrow> Some (tab, Some 0)
    | ST_DELETE \<Rightarrow>
        if missing then None
        else do {
          let key = e_key (entries tab ! i);
          found \<leftarrow> (if packed_p then Some (map_option (\<lambda>bin. (tab, bin)) (find_entry tab hash key))
                    else do {
                      bin_ind \<leftarrow> find_table_bin_ind tab hash key;
                      Some (map_option (\<lambda>b. (MARK_BIN_DELETED tab b, tab_bin tab b - ENTRY_BASE)) bin_ind)
                    });
          case found of
            None \<Rightarrow> Some (tab, None)
          | Some (tab, bin) \<Rightarrow> Some (update_range_for_deleted (st_mark_entry tab bin) bin, None)
        })"

text \<open>
  The new index after a rebuild, as \<open>st_index_t\<close>: \<open>UNDEFINED_ENTRY_IND\<close> is \<open>-1\<close>, less \<open>ENTRY_BASE\<close> for an
  indexed table.
\<close>

definition st_foreach_refind :: "st_table \<Rightarrow> st_hash_t \<Rightarrow> st_data_t \<Rightarrow> (bool \<times> bool \<times> st_index_t) option" where
  "st_foreach_refind tab hash key =
    (if bins tab = None then
       Some (True, (case find_entry tab hash key of None \<Rightarrow> (True, -1) | Some j \<Rightarrow> (False, of_nat j)))
     else do {
       bin \<leftarrow> find_table_entry_ind tab hash key;
       Some (False, (case bin of None \<Rightarrow> (True, -1 - of_nat ENTRY_BASE)
                     | Some b \<Rightarrow> (False, of_nat b - of_nat ENTRY_BASE)))
     })"

text \<open>
  \<open>replace\<close> writes through the entry pointer of before the callback; when the callback rebuilt the
  table that pointer may dangle, and the model gives no value.
\<close>

definition st_foreach_replace :: "st_replace_func option \<Rightarrow> st_retval \<Rightarrow> bool \<Rightarrow> nat \<Rightarrow> st_data_t \<Rightarrow> st_table \<Rightarrow>
    (st_retval \<times> st_data_t \<times> st_table) option" where
  "st_foreach_replace replace retval rebuilt i key tab = (case replace of
      None \<Rightarrow> Some (retval, key, tab)
    | Some replace \<Rightarrow>
        if retval \<noteq> ST_REPLACE then Some (retval, key, tab)
        else if rebuilt then None
        else (let (retval, key, value) = replace key (e_record (entries tab ! i))
              in Some (retval, key, tab\<lparr>entries := (entries tab)[i :=
                   (entries tab ! i)\<lparr>e_key := key, e_record := value\<rparr>]\<rparr>)))"

definition st_foreach_step :: "bool \<Rightarrow> 's st_foreach_check_callback_func \<Rightarrow> st_replace_func option \<Rightarrow>
    bool \<Rightarrow> st_index_t \<Rightarrow> st_table \<times> 's \<Rightarrow> ((bool \<times> st_index_t) \<times> (st_table \<times> 's) \<times> int option) option" where
  "st_foreach_step check_p func replace packed_p i ts =
    do {
      let curr = entries (fst ts) ! unat i;
      let rebuilds = rebuilds_num (fst ts);
      let hash = e_hash curr;
      (retval, tab, s) \<leftarrow> func (e_key curr) (e_record curr) False ts;
      let rebuilt = (rebuilds_num tab \<noteq> rebuilds);
      (retval, key, tab) \<leftarrow> st_foreach_replace replace retval rebuilt (unat i) (e_key curr) tab;
      (packed_p, missing, i) \<leftarrow> (if rebuilt then st_foreach_refind tab hash key
                                 else Some (packed_p, False, i));
      if missing \<and> check_p then do {
        (_, ts) \<leftarrow> func 0 0 True (tab, s);
        Some ((packed_p, i), ts, Some 1)
      } else do {
        (tab, ret) \<leftarrow> st_foreach_verdict check_p retval packed_p hash missing (unat i) tab;
        Some ((packed_p, i), (tab, s), ret)
      }
    }"

partial_function (option) st_foreach_loop :: "bool \<Rightarrow> 's st_foreach_check_callback_func \<Rightarrow>
    st_replace_func option \<Rightarrow> bool \<Rightarrow> st_index_t \<Rightarrow> st_table \<times> 's \<Rightarrow> ((st_table \<times> 's) \<times> int) option" where
  "st_foreach_loop check_p func replace packed_p i ts =
    (if unat i < entries_bound (fst ts) then
       (if DELETED_ENTRY_P (entries (fst ts) ! unat i)
        then st_foreach_loop check_p func replace packed_p (i + 1) ts
        else do {
          (pos, ts, ret) \<leftarrow> st_foreach_step check_p func replace packed_p i ts;
          (case ret of
             Some r \<Rightarrow> Some (ts, r)
           | None \<Rightarrow> st_foreach_loop check_p func replace (fst pos) (snd pos + 1) ts)
        })
     else Some (ts, 0))"

definition st_general_foreach :: "st_table \<Rightarrow> 's st_foreach_check_callback_func \<Rightarrow> st_replace_func option \<Rightarrow>
    's \<Rightarrow> bool \<Rightarrow> ((st_table \<times> 's) \<times> int) option" where
  "st_general_foreach tab func replace arg check_p =
    st_foreach_loop check_p func replace (bins tab = None) (of_nat (entries_start tab)) (tab, arg)"

definition st_foreach_with_replace ::
  "st_table \<Rightarrow> 's st_foreach_check_callback_func \<Rightarrow> st_replace_func \<Rightarrow> 's \<Rightarrow> ((st_table \<times> 's) \<times> int) option" where
  "st_foreach_with_replace tab func replace arg = st_general_foreach tab func (Some replace) arg True"

definition st_foreach :: "st_table \<Rightarrow> 's st_foreach_check_callback_func \<Rightarrow> 's \<Rightarrow> ((st_table \<times> 's) \<times> int) option" where
  "st_foreach tab func arg = st_general_foreach tab func None arg False"

definition st_foreach_check ::
  "st_table \<Rightarrow> 's st_foreach_check_callback_func \<Rightarrow> 's \<Rightarrow> ((st_table \<times> 's) \<times> int) option" where
  "st_foreach_check tab func arg = st_general_foreach tab func None arg True"

section \<open>What a traversal does\<close>

text \<open>The traversal of the list: each pair in order, kept or dropped, until a verdict stops it.\<close>

fun al_foreach :: "bool \<Rightarrow> ('k \<Rightarrow> 'v \<Rightarrow> 's \<Rightarrow> st_retval \<times> 's) \<Rightarrow> ('k \<times> 'v) list \<Rightarrow> 's \<Rightarrow> ('k \<times> 'v) list \<times> 's" where
  "al_foreach check_p f [] s = ([], s)"
| "al_foreach check_p f (p # xs) s =
    (let (r, s) = f (fst p) (snd p) s
     in if r = ST_STOP \<or> (r = ST_CHECK \<and> \<not> check_p) then (p # xs, s)
        else let (ys, s) = al_foreach check_p f xs s in (if r = ST_DELETE then ys else p # ys, s))"

text \<open>A callback that only looks at the pair and its own state.\<close>

definition st_plain_callback ::
  "(st_data_t \<Rightarrow> st_data_t \<Rightarrow> 's \<Rightarrow> st_retval \<times> 's) \<Rightarrow> 's st_foreach_check_callback_func" where
  "st_plain_callback f = (\<lambda>k v error_p (tab, s). let (r, s) = f k v s in Some (r, tab, s))"

definition live_from :: "st_table \<Rightarrow> nat \<Rightarrow> st_table_entry list" where
  "live_from tab i = filter live_entry (drop i (take (entries_bound tab) (entries tab)))"

lemma live_from_Cons:
  assumes "i < entries_bound tab" "entries_bound tab \<le> length (entries tab)"
  shows "live_from tab i = (if DELETED_ENTRY_P (entries tab ! i) then [] else [entries tab ! i]) @ live_from tab (Suc i)"
proof -
  have "drop i (take (entries_bound tab) (entries tab)) =
      entries tab ! i # drop (Suc i) (take (entries_bound tab) (entries tab))"
    using assms by (simp add: Cons_nth_drop_Suc [symmetric])
  then show ?thesis by (simp add: live_from_def)
qed

lemma live_before_Suc:
  assumes "i < length (entries tab)"
  shows "live_before tab (Suc i) = live_before tab i @ (if DELETED_ENTRY_P (entries tab ! i) then [] else [entries tab ! i])"
  using assms by (simp add: live_before_def take_Suc_conv_app_nth)

lemma live_before_from: "i \<le> entries_bound tab \<Longrightarrow> live tab = live_before tab i @ live_from tab i"
  by (metis (no_types, lifting) append_take_drop_id filter_append live_before_def live_def live_from_def min.absorb1 take_take)


lemma unat_index:
  assumes "st_inv tab" "i \<le> entries_bound tab"
  shows "unat (of_nat i :: 64 word) = i"
proof -
  have "entry_power tab < 64" using st_inv_power(1,2) [OF assms(1)] by simp
  then have "(2::nat) ^ entry_power tab < 2 ^ 64" by (rule power_strict_increasing) simp
  then have "i < 2 ^ 64" using st_inv_power(3) [OF assms(1)] assms(2) by linarith
  then show ?thesis by (simp add: unat_of_nat)
qed

text \<open>Deleting entry \<open>i\<close> leaves what is before and after it.\<close>

lemma verdict_delete:
  assumes inv: "st_inv tab" and i: "i < entries_bound tab" "live_entry (entries tab ! i)"
  shows "\<exists>tab'. st_foreach_verdict c ST_DELETE (bins tab = None) (e_hash (entries tab ! i)) False i tab = Some (tab', None) \<and>
    st_inv tab' \<and> st_type tab' = st_type tab \<and> (bins tab' = None \<longleftrightarrow> bins tab = None) \<and>
    entries_bound tab' = entries_bound tab \<and> entries tab' = (entries tab)[i := MARK_ENTRY_DELETED (entries tab ! i)]"
proof -
  let ?k = "e_key (entries tab ! i)"
  have hash: "e_hash (entries tab ! i) = do_hash ?k tab"
    using st_inv_hash [OF inv live_mem [OF i(1) st_inv_bound [OF inv] i(2)]] .
  have kk: "EQUAL tab ?k ?k" by (simp add: EQUAL_def)
  then have "PTR_EQUAL tab (entries tab ! i) (do_hash ?k tab) ?k" using hash by (simp add: PTR_EQUAL_def)
  then have idx: "st_index tab (do_hash ?k tab) ?k = Some i"
    using st_index_eq [OF inv do_hash_not_reserved i(1)] by blast
  obtain j where j: "bins tab \<noteq> None \<Longrightarrow> find_table_bin_ind tab (do_hash ?k tab) ?k = Some (Some j)"
  proof (cases "bins tab")
    case None
    then show ?thesis using that by blast
  next
    case (Some bs)
    with find_table_bin_ind_eq [OF inv Some do_hash_not_reserved [of ?k tab], of ?k] idx
    show ?thesis using that by auto
  qed
  let ?tab1 = "if bins tab = None then tab else MARK_BIN_DELETED tab j"
  note found = delete_found [OF inv idx j refl]
  let ?tab' = "update_range_for_deleted (st_mark_entry ?tab1 i) i"
  have verdict: "st_foreach_verdict c ST_DELETE (bins tab = None) (e_hash (entries tab ! i)) False i tab = Some (?tab', None)"
  proof (cases "bins tab")
    case None
    with idx hash find_entry_eq [OF inv do_hash_not_reserved] show ?thesis
      by (simp add: st_foreach_verdict_def Let_def)
  next
    case (Some bs)
    with hash j found(2) show ?thesis
      by (simp add: st_foreach_verdict_def Let_def ENTRY_BASE_def)
  qed
  have "entries_bound ?tab' = entries_bound tab" "bins ?tab' = None \<longleftrightarrow> bins tab = None"
    "entries ?tab' = (entries tab)[i := MARK_ENTRY_DELETED (entries tab ! i)]"
    using found(3) by (simp_all add: update_range_for_deleted_def st_mark_entry_def MARK_BIN_DELETED_def)
  with verdict found(1) show ?thesis by (auto simp: Let_def)
qed

text \<open>With a plain callback the loop from index \<open>i\<close> treats the live entries from \<open>i\<close> as the list.\<close>

lemma st_foreach_loop_refines:
  assumes "st_inv tab" "i \<le> entries_bound tab"
  shows "\<exists>tab' r. st_foreach_loop c (st_plain_callback f) None (bins tab = None) (of_nat i) (tab, s) =
      Some ((tab', snd (al_foreach c f (map pair_of (live_from tab i)) s)), r) \<and>
    st_inv tab' \<and> st_type tab' = st_type tab \<and> r = 0 \<and>
    st_alist tab' = map pair_of (live_before tab i) @ fst (al_foreach c f (map pair_of (live_from tab i)) s)"
  using assms
proof (induction "entries_bound tab - i" arbitrary: tab i s)
  case 0
  then have "i = entries_bound tab" by simp
  moreover from 0 have "unat (of_nat i :: 64 word) = i"
    using unat_index [OF 0(2), of i] by simp
  ultimately show ?case
    using 0 live_before_from [of i tab]
    by (subst st_foreach_loop.simps) (simp add: live_from_def st_alist_def live_def live_before_def)
next
  case (Suc n)
  then have i: "i < entries_bound tab" by simp
  note bound = st_inv_bound [OF Suc.prems(1)]
  have u: "unat (of_nat i :: 64 word) = i" using unat_index [OF Suc.prems(1), of i] i by simp
  have next_i: "(of_nat i :: 64 word) + 1 = of_nat (Suc i)" by (simp add: add.commute)
  show ?case
  proof (cases "DELETED_ENTRY_P (entries tab ! i)")
    case True
    have "\<exists>tab' r. st_foreach_loop c (st_plain_callback f) None (bins tab = None) (of_nat (Suc i)) (tab, s) =
      Some ((tab', snd (al_foreach c f (map pair_of (live_from tab (Suc i))) s)), r) \<and>
      st_inv tab' \<and> st_type tab' = st_type tab \<and> r = 0 \<and>
      st_alist tab' = map pair_of (live_before tab (Suc i)) @ fst (al_foreach c f (map pair_of (live_from tab (Suc i))) s)"
      using Suc.hyps(2) i by (intro Suc.hyps(1) [OF _ Suc.prems(1)]) simp_all
    then show ?thesis
      using True u next_i i live_from_Cons [OF i bound] live_before_Suc [of i tab] bound
      by (subst st_foreach_loop.simps) (simp add: add.commute)
  next
    case live: False
    let ?e = "entries tab ! i"
    obtain v s' where f: "f (e_key ?e) (e_record ?e) s = (v, s')"
      by (cases "f (e_key ?e) (e_record ?e) s") auto
    have from_i: "live_from tab i = ?e # live_from tab (Suc i)"
      using live_from_Cons [OF i bound] live by simp
    show ?thesis
    proof (cases "v = ST_STOP \<or> (v = ST_CHECK \<and> \<not> c)")
      case True
      then have "st_foreach_verdict c v (bins tab = None) (e_hash ?e) False i tab = Some (tab, Some 0)"
        by (auto simp: st_foreach_verdict_def)
      then have step: "st_foreach_step c (st_plain_callback f) None (bins tab = None) (of_nat i) (tab, s) =
          Some ((bins tab = None, of_nat i), (tab, s'), Some 0)"
        using f u by (simp add: st_foreach_step_def st_plain_callback_def st_foreach_replace_def)
      have "st_foreach_loop c (st_plain_callback f) None (bins tab = None) (of_nat i) (tab, s) = Some ((tab, s'), 0)"
        by (subst st_foreach_loop.simps) (simp add: u i live step)
      moreover have "al_foreach c f (map pair_of (live_from tab i)) s = (map pair_of (live_from tab i), s')"
        using f True by (simp add: from_i)
      ultimately show ?thesis
        using Suc.prems live_before_from [of i tab] by (simp add: st_alist_def)
    next
      case go: False
      have "\<exists>tab'. st_foreach_verdict c v (bins tab = None) (e_hash ?e) False i tab = Some (tab', None) \<and>
          st_inv tab' \<and> st_type tab' = st_type tab \<and> (bins tab' = None \<longleftrightarrow> bins tab = None) \<and>
          entries_bound tab' = entries_bound tab \<and>
          entries tab' = (if v = ST_DELETE then (entries tab)[i := MARK_ENTRY_DELETED ?e] else entries tab)"
        using go Suc.prems(1) verdict_delete [OF Suc.prems(1) i live, of c]
        by (cases v) (simp_all add: st_foreach_verdict_def)
      then obtain tab' where t: "st_foreach_verdict c v (bins tab = None) (e_hash ?e) False i tab = Some (tab', None)"
          "st_inv tab'" "st_type tab' = st_type tab" "bins tab' = None \<longleftrightarrow> bins tab = None"
          "entries_bound tab' = entries_bound tab"
          "entries tab' = (if v = ST_DELETE then (entries tab)[i := MARK_ENTRY_DELETED ?e] else entries tab)"
        by (elim exE conjE) (rule that; assumption)
      have from': "live_from tab' (Suc i) = live_from tab (Suc i)"
        using t(5,6) by (simp add: live_from_def drop_take)
      have before': "live_before tab' (Suc i) = live_before tab i @ (if v = ST_DELETE then [] else [?e])"
      proof -
        have "live_entry (MARK_ENTRY_DELETED ?e) \<longleftrightarrow> False"
          by (simp add: MARK_ENTRY_DELETED_def DELETED_ENTRY_P_def)
        then show ?thesis
          using t(6) live bound i by (simp add: live_before_Suc) (simp add: live_before_def)
      qed
      have "\<exists>tab'' r. st_foreach_loop c (st_plain_callback f) None (bins tab' = None) (of_nat (Suc i)) (tab', s') =
        Some ((tab'', snd (al_foreach c f (map pair_of (live_from tab' (Suc i))) s')), r) \<and>
        st_inv tab'' \<and> st_type tab'' = st_type tab' \<and> r = 0 \<and>
        st_alist tab'' = map pair_of (live_before tab' (Suc i)) @ fst (al_foreach c f (map pair_of (live_from tab' (Suc i))) s')"
        using Suc.hyps(2) i t(5) by (intro Suc.hyps(1) [OF _ t(2)]) simp_all
      then obtain tab'' where rest:
        "st_foreach_loop c (st_plain_callback f) None (bins tab = None) (of_nat i + 1) (tab', s') =
          Some ((tab'', snd (al_foreach c f (map pair_of (live_from tab (Suc i))) s')), 0)"
        "st_inv tab''" "st_type tab'' = st_type tab"
        "st_alist tab'' = map pair_of (live_before tab' (Suc i)) @ fst (al_foreach c f (map pair_of (live_from tab (Suc i))) s')"
        unfolding from' t(4) t(3) next_i by (elim exE conjE) (rule that; simp add: add.commute)
      have step: "st_foreach_step c (st_plain_callback f) None (bins tab = None) (of_nat i) (tab, s) =
          Some ((bins tab = None, of_nat i), (tab', s'), None)"
        using f t(1) u by (simp add: st_foreach_step_def st_plain_callback_def st_foreach_replace_def)
      have "st_foreach_loop c (st_plain_callback f) None (bins tab = None) (of_nat i) (tab, s) =
          Some ((tab'', snd (al_foreach c f (map pair_of (live_from tab (Suc i))) s')), 0)"
        by (subst st_foreach_loop.simps) (simp add: u i live step rest(1))
      moreover have "snd (al_foreach c f (map pair_of (live_from tab i)) s) =
          snd (al_foreach c f (map pair_of (live_from tab (Suc i))) s')"
        "map pair_of (live_before tab i) @ fst (al_foreach c f (map pair_of (live_from tab i)) s) =
          map pair_of (live_before tab' (Suc i)) @ fst (al_foreach c f (map pair_of (live_from tab (Suc i))) s')"
        using f go unfolding from_i before' by (auto simp: pair_of_def split: prod.split)
      ultimately show ?thesis using rest(2-4) by simp
    qed
  qed
qed


lemma st_general_foreach_refines:
  assumes inv: "st_inv tab"
  shows "\<exists>tab'. st_general_foreach tab (st_plain_callback f) None s c =
      Some ((tab', snd (al_foreach c f (st_alist tab) s)), 0) \<and>
    st_inv tab' \<and> st_type tab' = st_type tab \<and> st_alist tab' = fst (al_foreach c f (st_alist tab) s)"
proof -
  have start: "entries_start tab \<le> entries_bound tab" using inv by (simp add: st_inv_def st_shape_def)
  have "live_from tab (entries_start tab) = live tab"
    using drop_start_live [OF inv] by (simp add: live_from_def)
  moreover have "live_before tab (entries_start tab) = []"
    using skipped_start [OF inv] by (simp add: live_before_def)
  ultimately show ?thesis
    using st_foreach_loop_refines [OF inv start, of c f s] unfolding st_general_foreach_def st_alist_def by auto
qed

end
