(* ===== verification/St_Bulk.thy ===== *)
theory St_Bulk
  imports St_Foreach
begin

text \<open>
  Bulk insertion into a table of st.c: \<open>st_expand_table\<close>, the two rehashing routines and
  \<open>rb_hash_bulk_insert_into_st_table\<close>.  \<open>st_stringify\<close> calls into string.c and is the parameter
  \<open>stringify\<close>; the write barriers do not change the table.
\<close>

section \<open>The code\<close>

definition st_expand_table :: "st_table \<Rightarrow> nat \<Rightarrow> st_table option" where
  "st_expand_table tab siz =
    (if siz \<le> get_allocated_entries tab then Some tab
     else do {
       tmp \<leftarrow> st_init_table_with_size (st_type tab) (of_nat siz);
       let n = get_allocated_entries tab;
       Some (tab\<lparr>entry_power := entry_power tmp, bin_power := bin_power tmp, size_ind := size_ind tmp,
                 entries := take n (entries tab) @ drop n (entries tmp), bins := None,
                 rebuilds_num := rebuilds_num tab + 1\<rparr>)
     })"

function st_rehash_linear_inner :: "st_table \<Rightarrow> nat \<Rightarrow> nat \<Rightarrow> st_table" where
  "st_rehash_linear_inner tab i j =
    (if j < entries_bound tab then
       (let p = entries tab ! i; q = entries tab ! j in
        if DELETED_ENTRY_P q then st_rehash_linear_inner tab i (Suc j)
        else if PTR_EQUAL tab p (e_hash q) (e_key q) then
          st_rehash_linear_inner
            (update_range_for_deleted
              (tab\<lparr>entries := (entries tab)[i := q, j := MARK_ENTRY_DELETED q],
                   num_entries := num_entries tab - 1\<rparr>) j) i (Suc j)
        else st_rehash_linear_inner tab i (Suc j))
     else tab)"
  by pat_completeness auto
termination
  by (relation "measure (\<lambda>(tab, i, j). entries_bound tab - j)")
    (auto simp: update_range_for_deleted_def)

lemma st_rehash_linear_inner_bound:
  "entries_bound (st_rehash_linear_inner tab i j) = entries_bound tab"
  by (induction tab i j rule: st_rehash_linear_inner.induct)
    (subst st_rehash_linear_inner.simps, simp add: Let_def update_range_for_deleted_def)

declare st_rehash_linear_inner.simps [simp del]

function st_rehash_linear_outer :: "st_table \<Rightarrow> nat \<Rightarrow> st_table" where
  "st_rehash_linear_outer tab i =
    (if i < entries_bound tab then
       (if DELETED_ENTRY_P (entries tab ! i) then st_rehash_linear_outer tab (Suc i)
        else st_rehash_linear_outer (st_rehash_linear_inner tab i (i + 1)) (Suc i))
     else tab)"
  by pat_completeness auto
termination
  by (relation "measure (\<lambda>(tab, i). entries_bound tab - i)")
    (auto simp: st_rehash_linear_inner_bound)

definition st_rehash_linear :: "st_table \<Rightarrow> st_table" where
  "st_rehash_linear tab = (let tab = tab\<lparr>bins := None\<rparr> in st_rehash_linear_outer tab (entries_start tab))"

text \<open>
  The probe loop of \<open>st_rehash_indexed\<close> for the entry \<open>p\<close>: \<open>Inl ind\<close> is a free bin, \<open>Inr bin\<close> the
  bin value of an entry with the same key.
\<close>

partial_function (option) st_rehash_probe ::
  "st_table \<Rightarrow> st_table_entry \<Rightarrow> st_index_t \<times> st_hash_t \<Rightarrow> (st_index_t + nat) option" where
  "st_rehash_probe tab p s =
    (let bin = tab_bin tab (fst s) in
     if EMPTY_OR_DELETED_BIN_P bin then Some (Inl (fst s))
     else if PTR_EQUAL tab (entries tab ! (bin - ENTRY_BASE)) (e_hash p) (e_key p) then Some (Inr bin)
     else st_rehash_probe tab p (secondary_hash (fst s) tab (snd s)))"

definition st_rehash_entry :: "st_table \<Rightarrow> nat \<Rightarrow> st_table option" where
  "st_rehash_entry tab i =
    (let p = entries tab ! i in
     if DELETED_ENTRY_P p then Some tab
     else do {
       r \<leftarrow> st_rehash_probe tab p (hash_bin (e_hash p) tab, e_hash p);
       case r of
         Inl ind \<Rightarrow> Some (tab_set_bin tab ind (i + ENTRY_BASE))
       | Inr bin \<Rightarrow>
           (let q = entries tab ! (bin - ENTRY_BASE)
            in Some (update_range_for_deleted
                 (tab\<lparr>entries := (entries tab)[bin - ENTRY_BASE := q\<lparr>e_record := e_record p\<rparr>,
                                              i := MARK_ENTRY_DELETED p],
                      num_entries := num_entries tab - 1\<rparr>) bin))
     })"

function st_rehash_indexed_loop :: "nat \<Rightarrow> nat \<Rightarrow> st_table \<Rightarrow> st_table option" where
  "st_rehash_indexed_loop bound i tab =
    (if i < bound then do {
       tab \<leftarrow> st_rehash_entry tab i;
       st_rehash_indexed_loop bound (Suc i) tab
     } else Some tab)"
  by pat_completeness auto
termination
  by (relation "measure (\<lambda>(bound, i, _). bound - i)") auto

text \<open>The loop's bound \<open>tab->entries_bound\<close> does not change in it.\<close>

definition st_rehash_indexed :: "st_table \<Rightarrow> st_table option" where
  "st_rehash_indexed tab =
    (let tab = initialize_bins tab
     in st_rehash_indexed_loop (entries_bound tab) (entries_start tab) tab)"

definition st_rehash :: "st_table \<Rightarrow> st_table option" where
  "st_rehash tab =
    (if bin_power tab \<le> MAX_POWER2_FOR_TABLES_WITHOUT_BINS then Some (st_rehash_linear tab)
     else st_rehash_indexed tab)"

definition st_insert_single :: "(VALUE \<Rightarrow> st_data_t) \<Rightarrow> st_table \<Rightarrow> VALUE \<Rightarrow> VALUE \<Rightarrow> st_table" where
  "st_insert_single stringify tab key val =
    (let k = stringify key
     in tab\<lparr>entries := (entries tab)[entries_bound tab :=
                         \<lparr>e_hash = do_hash k tab, e_key = k, e_record = val\<rparr>],
            entries_bound := Suc (entries_bound tab), num_entries := Suc (num_entries tab)\<rparr>)"

text \<open>\<open>argv\<close> is read in pairs; the callers pass an even \<open>argc\<close>.\<close>

fun st_insert_linear :: "(VALUE \<Rightarrow> st_data_t) \<Rightarrow> st_table \<Rightarrow> VALUE list \<Rightarrow> st_table option" where
  "st_insert_linear stringify tab (key # val # argv) =
    do {
      (tab, _) \<leftarrow> st_insert tab (stringify key) val;
      st_insert_linear stringify tab argv
    }"
| "st_insert_linear stringify tab _ = Some tab"

fun st_push_elems :: "(VALUE \<Rightarrow> st_data_t) \<Rightarrow> st_table \<Rightarrow> VALUE list \<Rightarrow> st_table" where
  "st_push_elems stringify tab (key # val # argv) =
    st_push_elems stringify (st_insert_single stringify tab key val) argv"
| "st_push_elems stringify tab _ = tab"

definition st_insert_generic :: "(VALUE \<Rightarrow> st_data_t) \<Rightarrow> st_table \<Rightarrow> VALUE list \<Rightarrow> st_table option" where
  "st_insert_generic stringify tab argv = st_rehash (st_push_elems stringify tab argv)"

definition rb_hash_bulk_insert_into_st_table ::
  "(VALUE \<Rightarrow> st_data_t) \<Rightarrow> st_table \<Rightarrow> VALUE list \<Rightarrow> st_table option" where
  "rb_hash_bulk_insert_into_st_table stringify tab argv =
    do {
      tab \<leftarrow> st_expand_table tab (entries_bound tab + length argv div 2);
      if num_entries tab \<noteq> 0 then st_insert_generic stringify tab argv
      else if length argv \<le> 2 then Some (st_insert_single stringify tab (argv ! 0) (argv ! 1))
      else if bin_power tab \<le> MAX_POWER2_FOR_TABLES_WITHOUT_BINS
      then st_insert_linear stringify tab argv
      else st_insert_generic stringify tab argv
    }"

text \<open>\<open>rb_bug\<close> is \<open>None\<close>.\<close>

definition rb_st_nth_key :: "st_table \<Rightarrow> nat \<Rightarrow> st_data_t option" where
  "rb_st_nth_key tab index =
    (if entries_start tab = 0 \<and> num_entries tab = entries_bound tab \<and> index < num_entries tab
     then Some (e_key (entries tab ! index)) else None)"

declare st_rehash_linear_outer.simps [simp del]
  st_rehash_indexed_loop.simps [simp del]


section \<open>Rehashing with an index\<close>

text \<open>The table cut off at entry \<open>i\<close>: what the loop has indexed so far.\<close>

definition trunc :: "st_table \<Rightarrow> nat \<Rightarrow> st_table" where
  "trunc tab i = tab\<lparr>entries_bound := i, num_entries := length (filter live_entry (take i (entries tab)))\<rparr>"

lemma live_trunc: "live (trunc tab i) = filter live_entry (take i (entries tab))"
  by (simp add: live_def trunc_def)

text \<open>The bound may pass a deleted entry.\<close>

lemma skip_deleted_inv:
  assumes inv: "st_inv tab" and room: "entries_bound tab < 2 ^ entry_power tab" and d: "DELETED_ENTRY_P d"
    and tab': "tab' = tab\<lparr>entries := (entries tab)[entries_bound tab := d], entries_bound := Suc (entries_bound tab)\<rparr>"
  shows "st_inv tab' \<and> live tab' = live tab"
proof -
  have len: "entries_bound tab < length (entries tab)" using room st_inv_power(4) [OF inv] by simp
  have live': "live tab' = live tab"
    using len d by (simp add: live_def tab' take_Suc_update del: take_Suc)
  have "st_shape tab'"
    using inv room d by (auto simp: tab' st_inv_def st_shape_def nth_list_update)
  moreover have "st_bins_ok tab'"
  proof (cases "bins tab")
    case None
    then show ?thesis by (simp add: tab' st_bins_ok_def)
  next
    case (Some bs)
    have same: "(entries tab)[entries_bound tab := d] ! k = entries tab ! k" if "k < entries_bound tab" for k
      using that by simp
    note idx = st_inv_indexed [OF inv Some]
    have "bins_ok (tab_probe tab) ((entries tab)[entries_bound tab := d]) (Suc (entries_bound tab)) bs"
      using idx(2) d len unfolding bins_ok_def less_Suc_eq by (auto simp: nth_list_update)
    moreover have "tab_probe tab' = tab_probe tab" by (rule tab_probe_cong) (simp add: tab')
    ultimately show ?thesis using Some idx(1) by (simp add: tab' st_bins_ok_def indexed_def)
  qed
  ultimately show ?thesis using inv live' by (simp add: st_inv_def tab')
qed

text \<open>
  Without deleted bins the probe of the rehash stops where the search does: at the entry with the
  same key, or at an empty bin.
\<close>

lemma st_rehash_probe_step:
  "\<not> (EMPTY_OR_DELETED_BIN_P (tab_bin tab (fst s)) \<or>
      PTR_EQUAL tab (entries tab ! (tab_bin tab (fst s) - ENTRY_BASE)) (e_hash p) (e_key p)) \<Longrightarrow>
    st_rehash_probe tab p s = st_rehash_probe tab p (probe_next tab s)"
  by (subst st_rehash_probe.simps) (simp add: Let_def probe_next_def)

lemma trunc_same:
  "EQUAL (trunc tab i) = EQUAL tab" "PTR_EQUAL (trunc tab i) = PTR_EQUAL tab"
  "tab_bin (trunc tab i) = tab_bin tab" "probe (trunc tab i) = probe tab" "tab_probe (trunc tab i) = tab_probe tab"
  "search_stop (trunc tab i) = search_stop tab" "do_hash k (trunc tab i) = do_hash k tab"
  "entries (trunc tab i) = entries tab" "bins (trunc tab i) = bins tab"
  "entries_bound (trunc tab i) = i" "entry_power (trunc tab i) = entry_power tab"
  "st_type (trunc tab i) = st_type tab" "size_ind (trunc tab i) = size_ind tab"
  "entries_start (trunc tab i) = entries_start tab"
proof -
  show *: "EQUAL (trunc tab i) = EQUAL tab" by (intro ext) (simp add: trunc_def EQUAL_def)
  show **: "PTR_EQUAL (trunc tab i) = PTR_EQUAL tab" by (intro ext) (simp add: PTR_EQUAL_def *)
  show ***: "tab_bin (trunc tab i) = tab_bin tab" by (intro ext) (simp add: trunc_def tab_bin_def)
  show pr: "probe (trunc tab i) = probe tab" by (intro ext probe_cong) (simp add: trunc_def)
  show "tab_probe (trunc tab i) = tab_probe tab" by (intro ext) (simp add: tab_probe_def pr)
  show "search_stop (trunc tab i) = search_stop tab"
    by (intro ext) (simp add: search_stop_def ** ***, simp add: trunc_def)
qed (simp_all add: trunc_def do_hash_def)

lemma st_rehash_probe_eq:
  assumes inv: "st_inv (trunc tab i)" and bs: "bins tab = Some bs" and clean: "\<forall>j < length bs. bs ! j \<noteq> 1"
    and h: "e_hash p \<noteq> RESERVED_HASH_VAL"
  shows "case st_index (trunc tab i) (e_hash p) (e_key p) of
      Some i \<Rightarrow> st_rehash_probe tab p (hash_bin (e_hash p) tab, e_hash p) = Some (Inr (i + 2))
    | None \<Rightarrow> \<exists>N. reserve_ok tab bs (e_hash p) N \<and>
        st_rehash_probe tab p (hash_bin (e_hash p) tab, e_hash p) = Some (Inl (probe tab (e_hash p) N))"
proof -
  let ?h = "e_hash p" and ?k = "e_key p"
  have bs': "bins (trunc tab i) = Some bs" using bs by (simp add: trunc_same)
  obtain N where before: "\<forall>m < N. \<not> search_stop tab ?h ?k (probe tab ?h m)"
    and at: "case st_index (trunc tab i) ?h ?k of None \<Rightarrow> bs ! tab_probe tab ?h N = 0 | Some i \<Rightarrow> bs ! tab_probe tab ?h N = i + 2"
    using search_stops [OF inv bs' h, of ?k] unfolding trunc_same by blast
  have bin: "tab_bin tab (probe tab ?h n) = bs ! tab_probe tab ?h n" for n
    by (simp add: tab_bin_nth [OF bs] tab_probe_def)
  have one: "bs ! tab_probe tab ?h n \<noteq> 1" for n
    using clean tab_probe_range [OF st_inv_indexed(1) [OF inv bs']] unfolding trunc_same by blast
  let ?stop = "\<lambda>i. EMPTY_OR_DELETED_BIN_P (tab_bin tab i) \<or> PTR_EQUAL tab (entries tab ! (tab_bin tab i - ENTRY_BASE)) ?h ?k"
  have same: "?stop (probe tab ?h n) \<longleftrightarrow> search_stop tab ?h ?k (probe tab ?h n)" for n
    using one [of n] by (auto simp: search_stop_def bin bin_tests Let_def)
  have hit: "?stop (probe tab ?h N)"
  proof (cases "st_index (trunc tab i) ?h ?k")
    case None
    with at show ?thesis by (simp add: bin bin_tests)
  next
    case (Some j)
    with at st_index_SomeD [OF Some, unfolded trunc_same] show ?thesis by (simp add: bin bin_tests)
  qed
  obtain M where M: "?stop (probe tab ?h M)" "\<forall>m < M. \<not> ?stop (probe tab ?h m)"
    "st_rehash_probe tab p (hash_bin ?h tab, ?h) = st_rehash_probe tab p ((probe_next tab ^^ M) (hash_bin ?h tab, ?h))"
    using probe_loop [where stop = ?stop and f = "st_rehash_probe tab p", OF st_rehash_probe_step hit] by blast
  have "M = N" using M(1,2) hit before same by (meson linorder_neqE_nat)
  have nz: "\<forall>m < N. bs ! tab_probe tab ?h m \<noteq> 0"
    using before by (auto simp: search_stop_def bin bin_tests Let_def)
  have cur: "fst ((probe_next tab ^^ N) (hash_bin ?h tab, ?h)) = probe tab ?h N" by (simp add: probe_state)
  show ?thesis
  proof (cases "st_index (trunc tab i) ?h ?k")
    case None
    with at have "st_rehash_probe tab p (hash_bin ?h tab, ?h) = Some (Inl (probe tab ?h N))"
      unfolding M(3) \<open>M = N\<close> by (subst st_rehash_probe.simps) (simp add: cur bin bin_tests)
    then show ?thesis using None at nz by (auto simp: reserve_ok_def intro!: exI [of _ N])
  next
    case (Some j)
    with at st_index_SomeD [OF Some, unfolded trunc_same] show ?thesis
      unfolding M(3) \<open>M = N\<close> by (subst st_rehash_probe.simps) (simp add: cur bin bin_tests)
  qed
qed


text \<open>The invariant of the loop at index \<open>i\<close>.\<close>

definition rehash_ok :: "st_table \<Rightarrow> nat \<Rightarrow> bool" where
  "rehash_ok tab i \<longleftrightarrow> st_inv (trunc tab i) \<and> bins tab \<noteq> None \<and>
     (\<forall>bs. bins tab = Some bs \<longrightarrow> (\<forall>j < length bs. bs ! j \<noteq> 1)) \<and>
     entries_bound tab \<le> length (entries tab) \<and> num_entries tab = length (live tab) \<and>
     (\<forall>j. i \<le> j \<longrightarrow> j < entries_bound tab \<longrightarrow> live_entry (entries tab ! j) \<longrightarrow>
        e_hash (entries tab ! j) = do_hash (e_key (entries tab ! j)) tab)"

lemma trunc_Suc_skip:
  assumes inv: "st_inv (trunc tab i)" and i: "i < length (entries tab)" and d: "DELETED_ENTRY_P d"
  shows "st_inv (trunc (tab\<lparr>entries := (entries tab)[i := d], num_entries := n\<rparr>) (Suc i)) \<and>
    live (trunc (tab\<lparr>entries := (entries tab)[i := d], num_entries := n\<rparr>) (Suc i)) = live (trunc tab i)"
proof -
  have "i < 2 ^ entry_power (trunc tab i)"
    using st_inv_power(4) [OF inv] i by (simp add: trunc_same)
  moreover have "trunc (tab\<lparr>entries := (entries tab)[i := d], num_entries := n\<rparr>) (Suc i) =
      (trunc tab i)\<lparr>entries := (entries (trunc tab i))[entries_bound (trunc tab i) := d],
         entries_bound := Suc (entries_bound (trunc tab i))\<rparr>"
    using i d by (simp add: trunc_def take_Suc_update del: take_Suc)
  ultimately show ?thesis using skip_deleted_inv [OF inv _ d] by (simp add: trunc_same)
qed

lemma st_rehash_entry_new:
  assumes ok: "rehash_ok tab i" and i: "i < entries_bound tab" and l: "live_entry (entries tab ! i)"
    and none: "st_index (trunc tab i) (e_hash (entries tab ! i)) (e_key (entries tab ! i)) = None"
  shows "\<exists>tab'. st_rehash_entry tab i = Some tab' \<and> rehash_ok tab' (Suc i) \<and>
    st_alist (trunc tab' (Suc i)) = st_alist (trunc tab i) @ [pair_of (entries tab ! i)] \<and>
    st_type tab' = st_type tab \<and> entries_bound tab' = entries_bound tab \<and>
    (\<forall>j > i. entries tab' ! j = entries tab ! j)"
proof -
  let ?p = "entries tab ! i"
  let ?T = "trunc tab i"
  obtain bs where bs: "bins tab = Some bs" using ok by (auto simp: rehash_ok_def)
  have inv: "st_inv ?T" and clean: "\<forall>j < length bs. bs ! j \<noteq> 1" and len: "i < length (entries tab)"
    and num: "num_entries tab = length (live tab)" and hash: "e_hash ?p = do_hash (e_key ?p) tab"
    using ok bs i l by (auto simp: rehash_ok_def)
  have h: "e_hash ?p \<noteq> RESERVED_HASH_VAL" using hash by simp
  obtain N where N: "reserve_ok tab bs (e_hash ?p) N"
    "st_rehash_probe tab ?p (hash_bin (e_hash ?p) tab, e_hash ?p) = Some (Inl (probe tab (e_hash ?p) N))"
    using st_rehash_probe_eq [OF inv bs clean h] none by auto
  have room: "i < 2 ^ entry_power tab" using st_inv_power(4) [OF inv] len by (simp add: trunc_same)
  let ?bs = "bs[tab_probe tab (e_hash ?p) N := i + 2]"
  let ?tab' = "tab\<lparr>bins := Some ?bs\<rparr>"
  have "set_bin bs (size_ind tab) (probe tab (e_hash ?p) N) (i + ENTRY_BASE) = ?bs"
    using set_bin_index [OF inv, of i bs "probe tab (e_hash ?p) N"] room by (simp add: trunc_same tab_probe_def)
  then have step: "st_rehash_entry tab i = Some ?tab'"
    using l N(2) bs by (simp add: st_rehash_entry_def Let_def tab_set_bin_def)
  have "trunc ?tab' (Suc i) = ?T\<lparr>num_entries := Suc (num_entries ?T), entries_bound := Suc (entries_bound ?T),
       entries := (entries ?T)[entries_bound ?T := ?p], bins := Some ?bs\<rparr>"
    using len l by (simp add: trunc_def take_Suc_conv_app_nth)
  moreover have "\<forall>p \<in> set (live ?T). \<not> EQUAL ?T (e_key p) (e_key ?p)"
  proof -
    have "al_find (EQUAL ?T) (e_key ?p) (st_alist ?T) = None"
      using st_index_find [OF inv, of "e_key ?p"] none hash by (simp add: trunc_same)
    then show ?thesis
      using st_inv_equiv [OF inv] by (auto simp: al_find_None_iff st_alist_def dest: equivp_symp)
  qed
  moreover have "bins_appended ?T (e_hash ?p) (Some ?bs)"
    using N(1) bs by (auto simp: bins_appended_def trunc_same reserve_ok_def)
  ultimately have new: "st_inv (trunc ?tab' (Suc i)) \<and> live (trunc ?tab' (Suc i)) = live ?T @ [?p]"
    using room hash by (intro append_inv [OF inv]) (simp_all add: trunc_same)
  have "?bs ! j \<noteq> 1" if "j < length bs" for j
    using clean that by (cases "j = tab_probe tab (e_hash ?p) N") simp_all
  then have "rehash_ok ?tab' (Suc i)"
    using ok new num by (simp add: rehash_ok_def live_def do_hash_def)
  with step new show ?thesis by (intro exI [of _ ?tab']) (simp add: st_alist_def)
qed


lemma st_rehash_entry_dup:
  assumes ok: "rehash_ok tab i" and i: "i < entries_bound tab" and l: "live_entry (entries tab ! i)"
    and some: "st_index (trunc tab i) (e_hash (entries tab ! i)) (e_key (entries tab ! i)) = Some q"
  shows "\<exists>tab'. st_rehash_entry tab i = Some tab' \<and> rehash_ok tab' (Suc i) \<and>
    st_alist (trunc tab' (Suc i)) =
      al_put (EQUAL tab) (e_key (entries tab ! i)) (e_record (entries tab ! i)) (st_alist (trunc tab i)) \<and>
    st_type tab' = st_type tab \<and> entries_bound tab' = entries_bound tab \<and>
    (\<forall>j > i. entries tab' ! j = entries tab ! j)"
proof -
  let ?p = "entries tab ! i" and ?q = "entries tab ! q"
  let ?T = "trunc tab i"
  obtain bs where bs: "bins tab = Some bs" using ok by (auto simp: rehash_ok_def)
  have inv: "st_inv ?T" and clean: "\<forall>j < length bs. bs ! j \<noteq> 1" and len: "i < length (entries tab)"
    and num: "num_entries tab = length (live tab)" and hash: "e_hash ?p = do_hash (e_key ?p) tab"
    and bound: "entries_bound tab \<le> length (entries tab)"
    using ok bs i l by (auto simp: rehash_ok_def)
  have h: "e_hash ?p \<noteq> RESERVED_HASH_VAL" using hash by simp
  have probe: "st_rehash_probe tab ?p (hash_bin (e_hash ?p) tab, e_hash ?p) = Some (Inr (q + 2))"
    using st_rehash_probe_eq [OF inv bs clean h] some by auto
  have "st_index ?T (do_hash (e_key ?p) ?T) (e_key ?p) = Some q" using some hash by (simp add: trunc_same)
  note q = st_index_live [OF inv this, unfolded trunc_same]
  have "\<forall>j < entries_start tab. DELETED_ENTRY_P (entries tab ! j)"
    using inv by (simp add: st_inv_def st_shape_def trunc_same)
  then have start: "entries_start tab \<le> q" using q(2) not_le by blast
  let ?q' = "?q\<lparr>e_record := e_record ?p\<rparr>"
  let ?U = "tab\<lparr>entries := (entries tab)[q := ?q']\<rparr>"
  let ?tab' = "?U\<lparr>entries := (entries ?U)[i := MARK_ENTRY_DELETED ?p], num_entries := num_entries tab - 1\<rparr>"
  have step: "st_rehash_entry tab i = Some ?tab'"
    using l probe start by (simp add: st_rehash_entry_def Let_def ENTRY_BASE_def update_range_for_deleted_def)
  have lq: "live_entry ?q'" using q(2) by (simp add: DELETED_ENTRY_P_def)
  have TU: "trunc ?U i = ?T\<lparr>entries := (entries ?T)[q := ?q']\<rparr>"
    using filter_take_update_drop [OF q(1), of "entries tab" live_entry ?q']
      filter_take_split [OF q(1), of "entries tab" live_entry] len lq q(2) by (simp add: trunc_def)
  have "st_inv (trunc ?U i) \<and> live (trunc ?U i) = live_before ?T q @ ?q' # live_after ?T q"
    by (rule rewrite_inv [OF inv _ _ _ _ TU]) (use q in \<open>simp_all add: trunc_same EQUAL_def\<close>)
  moreover have "al_put (EQUAL tab) (e_key ?p) (e_record ?p) (st_alist ?T) =
      map pair_of (live_before ?T q) @ (e_key ?q, e_record ?p) # map pair_of (live_after ?T q)"
    using alist_at(2) [OF inv, of q "e_key ?p" "e_record ?p"] q by (simp add: trunc_same)
  ultimately have U: "st_inv (trunc ?U i)"
    "st_alist (trunc ?U i) = al_put (EQUAL tab) (e_key ?p) (e_record ?p) (st_alist ?T)"
    by (simp_all add: st_alist_def pair_of_def)
  have d: "DELETED_ENTRY_P (MARK_ENTRY_DELETED ?p)" by (simp add: MARK_ENTRY_DELETED_def DELETED_ENTRY_P_def)
  note T' = trunc_Suc_skip [OF U(1) _ d, of "num_entries tab - 1"]
  have "num_entries ?tab' = length (live ?tab')"
  proof -
    have "live ?U = live_before tab q @ ?q' # live_after tab q"
      using filter_take_update_drop [of q "entries_bound tab" "entries tab" live_entry ?q'] q(1) i bound lq
      by (simp add: live_def live_before_def live_after_def)
    moreover have "live tab = live_before tab q @ ?q # live_after tab q"
      using live_split [of q tab] q i bound by (simp add: live_before_def live_after_def)
    ultimately have "length (live ?U) = length (live tab)" by simp
    moreover have "length (live ?tab') = length (live ?U) - 1"
      using filter_take_update_drop [of i "entries_bound tab" "entries ?U" live_entry "MARK_ENTRY_DELETED ?p"]
        live_split [of i ?U] d i bound l q(1) by (simp add: live_def)
    ultimately show ?thesis using num by simp
  qed
  then have "rehash_ok ?tab' (Suc i)"
    using ok T' len q(1) clean by (simp add: rehash_ok_def do_hash_def)
  then show ?thesis
    using step T' U(2) len q(1) by (intro exI [of _ ?tab']) (simp add: st_alist_def)
qed


lemma st_rehash_entry_Some:
  assumes ok: "rehash_ok tab i" and i: "i < entries_bound tab"
  shows "\<exists>tab'. st_rehash_entry tab i = Some tab' \<and> rehash_ok tab' (Suc i) \<and>
    st_alist (trunc tab' (Suc i)) = fold (\<lambda>p. al_put (EQUAL tab) (fst p) (snd p))
      (if DELETED_ENTRY_P (entries tab ! i) then [] else [pair_of (entries tab ! i)]) (st_alist (trunc tab i)) \<and>
    st_type tab' = st_type tab \<and> entries_bound tab' = entries_bound tab \<and>
    (\<forall>j > i. entries tab' ! j = entries tab ! j)"
proof (cases "DELETED_ENTRY_P (entries tab ! i)")
  case True
  have "trunc (tab\<lparr>entries := (entries tab)[i := entries tab ! i], num_entries := num_entries tab\<rparr>) (Suc i) = trunc tab (Suc i)"
    by (simp add: trunc_def)
  with trunc_Suc_skip [of tab i "entries tab ! i" "num_entries tab"] True ok i
  have "st_inv (trunc tab (Suc i)) \<and> live (trunc tab (Suc i)) = live (trunc tab i)" by (simp add: rehash_ok_def)
  with True ok show ?thesis by (simp add: st_rehash_entry_def rehash_ok_def st_alist_def)
next
  case live: False
  have hash: "e_hash (entries tab ! i) = do_hash (e_key (entries tab ! i)) tab"
    and inv: "st_inv (trunc tab i)" using ok i live by (simp_all add: rehash_ok_def)
  show ?thesis
  proof (cases "st_index (trunc tab i) (e_hash (entries tab ! i)) (e_key (entries tab ! i))")
    case None
    then have "al_find (EQUAL tab) (e_key (entries tab ! i)) (st_alist (trunc tab i)) = None"
      using st_index_find [OF inv, of "e_key (entries tab ! i)"] hash by (simp add: trunc_same)
    then have "al_put (EQUAL tab) (e_key (entries tab ! i)) (e_record (entries tab ! i)) (st_alist (trunc tab i)) =
        st_alist (trunc tab i) @ [pair_of (entries tab ! i)]"
      by (simp add: al_put_find_None pair_of_def)
    with st_rehash_entry_new [OF ok i live None] live show ?thesis by simp
  next
    case (Some q)
    from st_rehash_entry_dup [OF ok i live Some] live show ?thesis by simp
  qed
qed

lemma st_rehash_indexed_loop_Some:
  assumes "rehash_ok tab i" "i \<le> entries_bound tab"
  shows "\<exists>tab'. st_rehash_indexed_loop (entries_bound tab) i tab = Some tab' \<and> st_inv tab' \<and>
    st_type tab' = st_type tab \<and> bins tab' \<noteq> None \<and>
    st_alist tab' = fold (\<lambda>p. al_put (EQUAL tab) (fst p) (snd p)) (map pair_of (live_from tab i)) (st_alist (trunc tab i))"
  using assms
proof (induction "entries_bound tab - i" arbitrary: tab i)
  case 0
  then have i: "i = entries_bound tab" by simp
  have "trunc tab i = tab" using 0 by (cases tab) (simp add: trunc_def rehash_ok_def live_def)
  then show ?case
    using 0 i by (simp add: rehash_ok_def live_from_def st_rehash_indexed_loop.simps)
next
  case (Suc n)
  then have i: "i < entries_bound tab" by simp
  have bound: "entries_bound tab \<le> length (entries tab)" using Suc.prems(1) by (simp add: rehash_ok_def)
  obtain t where t: "st_rehash_entry tab i = Some t" "rehash_ok t (Suc i)"
    "st_alist (trunc t (Suc i)) = fold (\<lambda>p. al_put (EQUAL tab) (fst p) (snd p))
      (if DELETED_ENTRY_P (entries tab ! i) then [] else [pair_of (entries tab ! i)]) (st_alist (trunc tab i))"
    "st_type t = st_type tab" "entries_bound t = entries_bound tab" "\<forall>j > i. entries t ! j = entries tab ! j"
    using st_rehash_entry_Some [OF Suc.prems(1) i] by blast
  have "entries_bound t \<le> length (entries t)" using t(2) by (simp add: rehash_ok_def)
  then have "drop (Suc i) (take (entries_bound tab) (entries t)) = drop (Suc i) (take (entries_bound tab) (entries tab))"
    using t(5,6) bound by (intro nth_equalityI) auto
  then have rest: "live_from t (Suc i) = live_from tab (Suc i)" by (simp add: live_from_def t(5))
  have eq: "EQUAL t = EQUAL tab" using t(4) by (simp add: EQUAL_type_equal)
  have "\<exists>tab'. st_rehash_indexed_loop (entries_bound t) (Suc i) t = Some tab' \<and> st_inv tab' \<and>
    st_type tab' = st_type t \<and> bins tab' \<noteq> None \<and>
    st_alist tab' = fold (\<lambda>p. al_put (EQUAL t) (fst p) (snd p)) (map pair_of (live_from t (Suc i))) (st_alist (trunc t (Suc i)))"
    using Suc.hyps(2) i t(2,5) by (intro Suc.hyps(1)) simp_all
  then show ?case
    using i t(1,3,4,5) live_from_Cons [OF i bound] unfolding rest eq
    by (cases "DELETED_ENTRY_P (entries tab ! i)")
      (simp_all add: st_rehash_indexed_loop.simps [of "entries_bound tab" i tab])
qed

text \<open>What a table must satisfy for its bins to be rebuilt from its entries.\<close>

definition st_rehashable :: "st_table \<Rightarrow> bool" where
  "st_rehashable tab \<longleftrightarrow> st_type_ok (st_type tab) \<and> st_shape tab \<and> num_entries tab = length (live tab) \<and>
     (\<forall>e \<in> set (live tab). e_hash e = do_hash (e_key e) tab)"

lemma bins_ok_fresh:
  assumes "\<forall>j < n. DELETED_ENTRY_P (es ! j)"
  shows "bins_ok pr es n (replicate m 0)"
proof -
  have none: "{j. j < length (replicate m (0::nat)) \<and> replicate m 0 ! j \<noteq> (0::nat)} = {}" by auto
  show ?thesis unfolding bins_ok_def none using assms by simp
qed

lemma st_rehash_indexed_refines:
  assumes ok: "st_rehashable tab"
  shows "\<exists>tab'. st_rehash_indexed tab = Some tab' \<and> st_inv tab' \<and> st_type tab' = st_type tab \<and>
    st_alist tab' = fold (\<lambda>p. al_put (EQUAL tab) (fst p) (snd p)) (st_alist tab) []"
proof -
  let ?t = "initialize_bins tab"
  have shape: "st_shape tab" using ok by (simp add: st_rehashable_def)
  have init: "?t = tab\<lparr>bins := Some (replicate (2 ^ bin_power tab) 0)\<rparr>"
    using shape by (intro initialize_bins_replicate) (simp_all add: st_shape_def MINIMAL_POWER2_def)
  let ?i = "entries_start tab"
  have dead: "\<forall>j < ?i. DELETED_ENTRY_P (entries tab ! j)" and le: "?i \<le> entries_bound tab"
    and len: "entries_bound tab \<le> length (entries tab)"
    using shape by (simp_all add: st_shape_def)
  have none: "filter live_entry (take ?i (entries tab)) = []"
    using dead by (auto simp: filter_empty_conv in_set_conv_nth)
  have "bins_ok (tab_probe (trunc ?t ?i)) (entries tab) ?i (replicate (2 ^ bin_power tab) 0)"
    by (rule bins_ok_fresh [OF dead])
  then have "st_inv (trunc ?t ?i)"
    using ok none by (simp add: st_inv_def st_rehashable_def init trunc_def st_shape_def live_def entries_ok_def
        st_bins_ok_def)
  moreover have "e_hash (entries tab ! j) = do_hash (e_key (entries tab ! j)) tab"
    if "j < entries_bound tab" "live_entry (entries tab ! j)" for j
    using ok live_mem [OF that(1) len that(2)] by (simp add: st_rehashable_def)
  ultimately have rok: "rehash_ok ?t ?i"
    using ok len by (simp add: rehash_ok_def init st_rehashable_def live_def do_hash_def)
  have "live_from ?t ?i = live tab"
    using live_before_from [OF le] none by (simp add: live_from_def live_before_def init)
  moreover have "st_alist (trunc ?t ?i) = []" by (simp add: st_alist_def live_trunc none init)
  moreover have "EQUAL ?t = EQUAL tab" by (simp add: EQUAL_type_equal init)
  ultimately show ?thesis
    using st_rehash_indexed_loop_Some [OF rok] le unfolding st_rehash_indexed_def Let_def
    by (auto simp: init st_alist_def)
qed


section \<open>Bulk insertion\<close>

fun argv_pairs :: "(VALUE \<Rightarrow> st_data_t) \<Rightarrow> VALUE list \<Rightarrow> (st_data_t \<times> st_data_t) list" where
  "argv_pairs stringify (key # val # argv) = (stringify key, val) # argv_pairs stringify argv"
| "argv_pairs stringify _ = []"

lemma length_argv_pairs: "length (argv_pairs f argv) = length argv div 2"
  by (induction f argv rule: argv_pairs.induct) simp_all

text \<open>Pushed entries are appended; the bins are not told.\<close>

lemma st_insert_single_push:
  assumes "entries_bound tab < length (entries tab)"
  shows "live (st_insert_single f tab k v) = live tab @ [\<lparr>e_hash = do_hash (f k) tab, e_key = f k, e_record = v\<rparr>]"
  using assms by (intro live_append) (simp_all add: st_insert_single_def Let_def DELETED_ENTRY_P_def)

lemma st_push_elems_rehashable:
  assumes "st_rehashable tab" "entries_bound tab + length argv div 2 \<le> 2 ^ entry_power tab"
  shows "st_rehashable (st_push_elems f tab argv) \<and> st_type (st_push_elems f tab argv) = st_type tab \<and>
    bin_power (st_push_elems f tab argv) = bin_power tab \<and>
    st_alist (st_push_elems f tab argv) = st_alist tab @ argv_pairs f argv"
  using assms
proof (induction f tab argv rule: st_push_elems.induct)
  case (1 f tab key val argv)
  let ?t = "st_insert_single f tab key val"
  have room: "entries_bound tab < length (entries tab)" using 1(2,3) by (simp add: st_rehashable_def st_shape_def)
  have push: "live ?t = live tab @ [\<lparr>e_hash = do_hash (f key) tab, e_key = f key, e_record = val\<rparr>]"
    by (rule st_insert_single_push [OF room])
  have ty: "st_type ?t = st_type tab" "bin_power ?t = bin_power tab" by (simp_all add: st_insert_single_def Let_def)
  have "st_rehashable ?t"
    using 1(2) room push unfolding st_rehashable_def ty
    by (auto simp: st_insert_single_def Let_def st_shape_def nth_list_update do_hash_def)
  moreover have "entries_bound ?t + length argv div 2 \<le> 2 ^ entry_power ?t"
    using 1(3) by (simp add: st_insert_single_def Let_def)
  ultimately have "st_rehashable (st_push_elems f ?t argv) \<and> st_type (st_push_elems f ?t argv) = st_type ?t \<and>
    bin_power (st_push_elems f ?t argv) = bin_power ?t \<and>
    st_alist (st_push_elems f ?t argv) = st_alist ?t @ argv_pairs f argv"
    by (rule 1(1))
  then show ?case using ty push by (simp add: st_alist_def pair_of_def)
qed simp_all

lemma st_inv_rehashable: "st_inv tab \<Longrightarrow> st_rehashable tab"
  by (simp add: st_inv_def st_rehashable_def entries_ok_def do_hash_def)

lemma fold_put_distinct:
  assumes "equivp eq"
  shows "al_distinct eq (ys @ xs) \<Longrightarrow> fold (\<lambda>p. al_put eq (fst p) (snd p)) xs ys = ys @ xs"
proof (induction xs arbitrary: ys)
  case (Cons p xs)
  have "al_absent eq (fst p) ys"
    using Cons.prems equivp_symp [OF assms] by (auto simp: al_distinct_def sorted_wrt_append)
  then have "al_put eq (fst p) (snd p) ys = ys @ [p]" by (simp add: al_put_absent)
  with Cons show ?case by simp
qed simp

lemma st_expand_table_Some:
  assumes inv: "st_inv tab" and siz: "siz < 2 ^ MAX_POWER2"
  shows "\<exists>t. st_expand_table tab siz = Some t \<and> st_inv t \<and> live t = live tab \<and> st_type t = st_type tab \<and>
    entries_bound t = entries_bound tab \<and> siz \<le> 2 ^ entry_power t \<and> num_entries t = num_entries tab \<and>
    (t = tab \<or> 2 ^ entry_power tab < siz \<and> bins t = None)"
proof (cases "siz \<le> get_allocated_entries tab")
  case True
  then show ?thesis using inv by (simp add: st_expand_table_def get_allocated_entries_def)
next
  case False
  have "unat (of_nat siz :: 64 word) = siz" using siz by (simp add: MAX_POWER2_def unat_of_nat)
  moreover have ty: "st_type_ok (st_type tab)" using inv by (simp add: st_inv_def)
  ultimately obtain tmp where tmp: "st_init_table_with_size (st_type tab) (of_nat siz) = Some tmp" "st_inv tmp"
    "siz < get_allocated_entries tmp"
    using st_init_table_with_size_Some [of "st_type tab" "of_nat siz"] siz by auto
  let ?n = "(2::nat) ^ entry_power tab"
  let ?t = "tab\<lparr>entry_power := entry_power tmp, bin_power := bin_power tmp, size_ind := size_ind tmp,
     entries := take ?n (entries tab) @ drop ?n (entries tmp), bins := None, rebuilds_num := rebuilds_num tab + 1\<rparr>"
  have exp: "st_expand_table tab siz = Some ?t"
    using False tmp(1) by (simp add: st_expand_table_def get_allocated_entries_def Let_def)
  note pow = st_inv_power [OF inv] and pow' = st_inv_power [OF tmp(2)]
  have big: "?n < 2 ^ entry_power tmp"
    using False tmp(3) unfolding get_allocated_entries_def by linarith
  have le: "entries_bound tab \<le> 2 ^ entry_power tmp" using big pow(3) by linarith
  have "live ?t = live tab" using pow by (simp add: live_def)
  moreover have "st_shape ?t"
    using inv tmp(2) pow pow' big le by (auto simp: st_inv_def st_shape_def nth_append)
  ultimately have "st_inv ?t" using inv by (simp add: st_inv_def st_bins_ok_def)
  with exp \<open>live ?t = live tab\<close> False tmp(3) show ?thesis
    by (intro exI [of _ ?t]) (simp add: get_allocated_entries_def)
qed


lemma bulk_insert_indexed:
  assumes inv: "st_inv tab" and big: "MAX_POWER2_FOR_TABLES_WITHOUT_BINS < bin_power tab"
    and room: "entries_bound tab + length argv div 2 < 2 ^ MAX_POWER2"
    and path: "num_entries tab \<noteq> 0 \<or> 2 < length argv"
  shows "\<exists>tab'. rb_hash_bulk_insert_into_st_table f tab argv = Some tab' \<and> st_inv tab' \<and>
    st_type tab' = st_type tab \<and>
    st_alist tab' = fold (\<lambda>p. al_put (EQUAL tab) (fst p) (snd p)) (argv_pairs f argv) (st_alist tab)"
proof -
  obtain t where t: "st_expand_table tab (entries_bound tab + length argv div 2) = Some t" "st_inv t"
    "live t = live tab" "st_type t = st_type tab" "entries_bound t = entries_bound tab"
    "entries_bound tab + length argv div 2 \<le> 2 ^ entry_power t" "num_entries t = num_entries tab"
    "t = tab \<or> 2 ^ entry_power tab < entries_bound tab + length argv div 2 \<and> bins t = None"
    using st_expand_table_Some [OF inv room] by (elim exE conjE) (rule that; assumption)
  have "entry_power tab \<le> entry_power t"
  proof (cases "t = tab")
    case False
    then have "(2::nat) ^ entry_power tab < 2 ^ entry_power t" using t(6,8) by linarith
    then show ?thesis by simp
  qed simp
  then have big': "\<not> bin_power t \<le> MAX_POWER2_FOR_TABLES_WITHOUT_BINS"
    using big st_inv_power(1) [OF inv] st_inv_power(1) [OF t(2)] by simp
  have push: "st_rehashable (st_push_elems f t argv)" "st_type (st_push_elems f t argv) = st_type t"
    "bin_power (st_push_elems f t argv) = bin_power t"
    "st_alist (st_push_elems f t argv) = st_alist t @ argv_pairs f argv"
    using st_push_elems_rehashable [OF st_inv_rehashable [OF t(2)], of argv f] t(5,6) by simp_all
  have eq: "EQUAL (st_push_elems f t argv) = EQUAL tab" using push(2) t(4) by (simp add: EQUAL_type_equal)
  have "fold (\<lambda>p. al_put (EQUAL tab) (fst p) (snd p)) (st_alist tab) [] = st_alist tab"
    using fold_put_distinct [OF st_inv_equiv [OF inv], of "[]"] st_inv_distinct [OF inv] by simp
  then have "\<exists>tab'. st_insert_generic f t argv = Some tab' \<and> st_inv tab' \<and> st_type tab' = st_type tab \<and>
      st_alist tab' = fold (\<lambda>p. al_put (EQUAL tab) (fst p) (snd p)) (argv_pairs f argv) (st_alist tab)"
    using st_rehash_indexed_refines [OF push(1)] big' push(2-4) t(3,4) eq
    by (simp add: st_insert_generic_def st_rehash_def st_alist_def)
  then show ?thesis
    using t(1,7) path big' by (cases "num_entries tab = 0") (simp_all add: rb_hash_bulk_insert_into_st_table_def)
qed

text \<open>
  The one pair pushed by \<open>st_insert_single\<close> into an emptied table that still has its bins: no bin
  points to it.
\<close>

lemma bulk_insert_single_lost:
  assumes inv: "st_inv tab" and empty: "num_entries tab = 0" and bs: "bins tab = Some bs"
    and room: "entries_bound tab < 2 ^ entry_power tab"
  shows "\<exists>tab'. rb_hash_bulk_insert_into_st_table f tab [k, v] = Some tab' \<and>
    st_alist tab' = [(f k, v)] \<and> st_lookup tab' (f k) = Some None"
proof -
  let ?t = "st_insert_single f tab k v"
  have len: "entries_bound tab < length (entries tab)" using room st_inv_power(4) [OF inv] by simp
  have none: "live tab = []" using inv empty by (simp add: st_inv_def)
  then have alist: "st_alist ?t = [(f k, v)]"
    using st_insert_single_push [OF len] by (simp add: st_alist_def pair_of_def)
  note idx = st_inv_indexed [OF inv bs]
  have no: "bs ! j < 2" if "j < length bs" for j
  proof (rule ccontr)
    assume "\<not> bs ! j < 2"
    then have "bs ! j - 2 < entries_bound tab" "live_entry (entries tab ! (bs ! j - 2))"
      using idx(2) that unfolding bins_ok_def by auto
    then show False using live_mem [OF _ st_inv_bound [OF inv]] none by force
  qed
  have bin: "tab_bin ?t (probe ?t h n) = bs ! tab_probe tab h n" for h n
    using bs probe_cong [of ?t tab] by (simp add: tab_bin_def get_bin_def tab_probe_def st_insert_single_def Let_def)
  have small: "bs ! tab_probe tab h n < 2" for h n using no tab_probe_range [OF idx(1)] by blast
  have lost: "find_table_entry_ind ?t h x = Some None" for h x
  proof -
    obtain n where n: "bs ! tab_probe tab h n = 0" using indexed_reaches_empty [OF idx(1)] by blast
    then have "search_stop ?t h x (probe ?t h n)" by (simp add: search_stop_def bin)
    then obtain N where N: "search_stop ?t h x (probe ?t h N)"
      "find_table_entry_ind ?t h x = find_table_entry_ind_loop ?t h x ((probe_next ?t ^^ N) (hash_bin h ?t, h))"
      using probe_loop [where stop = "search_stop ?t h x" and f = "find_table_entry_ind_loop ?t h x", OF find_table_entry_ind_loop_step]
      unfolding find_table_entry_ind_def by blast
    have "bs ! tab_probe tab h N = 0" using N(1) small [of h N] by (simp add: search_stop_def bin Let_def)
    then show ?thesis
      unfolding N(2) by (subst find_table_entry_ind_loop.simps) (simp add: probe_state bin bin_tests)
  qed
  have "bins ?t = Some bs" using bs by (simp add: st_insert_single_def Let_def)
  then have "st_lookup ?t (f k) = Some None"
    by (simp add: st_lookup_def st_find_entry_index_def lost)
  moreover have "rb_hash_bulk_insert_into_st_table f tab [k, v] = Some ?t"
    using room empty by (simp add: rb_hash_bulk_insert_into_st_table_def st_expand_table_def get_allocated_entries_def)
  ultimately show ?thesis using alist by blast
qed

end
