(* ===== verification/St_Hash.thy ===== *)
theory St_Hash
  imports St_Inv
begin

text \<open>
  The hash and comparison functions of st.c, and that the three built-in table types (numbers,
  strings, case-insensitive strings) satisfy what the table relies on.  \<open>st_hash\<close> is modelled for a
  little-endian machine with \<open>UNALIGNED_WORD_ACCESS\<close>; its buffer is the list of its bytes.  A
  string key is an address; the memory is a parameter \<open>mem\<close> that gives the bytes from an address
  on, and reading past the end of that list gives the terminating zero.
\<close>

section \<open>Murmur hash\<close>

definition ROTL :: "u64 \<Rightarrow> nat \<Rightarrow> u64" where
  "ROTL x n = push_bit n x OR drop_bit (64 - n) x"

definition BIG_CONSTANT :: "u64 \<Rightarrow> u64 \<Rightarrow> u64" where
  "BIG_CONSTANT x y = push_bit 32 x OR y"

definition C1 :: u64 where "C1 = BIG_CONSTANT 0x87c37b91 0x114253d5"
definition C2 :: u64 where "C2 = BIG_CONSTANT 0x4cf5ad43 0x2745937f"

definition murmur_step :: "u64 \<Rightarrow> u64 \<Rightarrow> u64" where
  "murmur_step h k =
    (let k = k * C1;
         h = h XOR ROTL k 33;
         h = h * C2;
         h = ROTL h 24
     in h)"

definition murmur_finish :: "u64 \<Rightarrow> u64" where
  "murmur_finish h =
    (let c1 = BIG_CONSTANT 0xbf58476d 0x1ce4e5b9;
         c2 = BIG_CONSTANT 0x94d049bb 0x133111eb;
         h = h XOR drop_bit 30 h;
         h = h * c1;
         h = h XOR drop_bit 27 h;
         h = h * c2;
         h = h XOR drop_bit 31 h
     in h)"

definition data_at :: "8 word list \<Rightarrow> nat \<Rightarrow> u64" where
  "data_at data n = ucast (data ! n)"

text \<open>A load of \<open>n\<close> bytes, little-endian.\<close>

definition load_le :: "nat \<Rightarrow> 8 word list \<Rightarrow> u64" where
  "load_le n data = foldr (\<lambda>b w. push_bit 8 w OR ucast b) (take n data) 0"

function st_hash_words :: "8 word list \<Rightarrow> u64 \<Rightarrow> 8 word list \<times> u64" where
  "st_hash_words data h =
    (if 8 \<le> length data then st_hash_words (drop 8 data) (murmur_step h (load_le 8 data))
     else (data, h))"
  by pat_completeness auto
termination
  by (relation "measure (\<lambda>(data, _). length data)") auto

text \<open>The switch over the remaining bytes, its cases falling through.\<close>

definition st_hash_tail :: "8 word list \<Rightarrow> u64" where
  "st_hash_tail data =
    (let len = length data;
         t = 0;
         t = (if len \<ge> 7 then t OR push_bit 48 (data_at data 6) else t);
         t = (if len \<ge> 6 then t OR push_bit 40 (data_at data 5) else t);
         t = (if len \<ge> 5 then t OR push_bit 32 (data_at data 4) else t)
     in if len \<ge> 4 then t OR load_le 4 data
        else
          let t = (if len \<ge> 3 then t OR push_bit 16 (data_at data 2) else t);
              t = (if len \<ge> 2 then t OR push_bit 8 (data_at data 1) else t)
          in t OR data_at data 0)"

definition st_hash :: "8 word list \<Rightarrow> u64 \<Rightarrow> u64" where
  "st_hash ptr h =
    (let l = length ptr;
         (data, h) = st_hash_words ptr h;
         h = (if data = [] then h
              else let t = st_hash_tail data; h = h XOR t; h = h - ROTL t 7 in h * C2);
         h = h XOR of_nat l
     in murmur_finish h)"

definition st_hash_uint32 :: "u64 \<Rightarrow> u32 \<Rightarrow> u64" where
  "st_hash_uint32 h i = murmur_step h (ucast i)"

definition st_hash_uint :: "u64 \<Rightarrow> u64 \<Rightarrow> u64" where
  "st_hash_uint h i = (let i = i + h in murmur_step h i)"

definition st_hash_end :: "u64 \<Rightarrow> u64" where
  "st_hash_end h = murmur_finish h"

definition rb_st_hash_start :: "u64 \<Rightarrow> u64" where
  "rb_st_hash_start h = h"

definition FNV1_32A_INIT :: u64 where "FNV1_32A_INIT = 0x811c9dc5"
definition FNV_32_PRIME :: u64 where "FNV_32_PRIME = 0x01000193"

section \<open>Strings\<close>

definition c_char :: "8 word list \<Rightarrow> 8 word" where
  "c_char s = (case s of [] \<Rightarrow> 0 | c # _ \<Rightarrow> c)"

definition c_string :: "8 word list \<Rightarrow> 8 word list" where
  "c_string s = takeWhile (\<lambda>c. c \<noteq> 0) s"

definition strhash :: "8 word list \<Rightarrow> u64" where
  "strhash s = st_hash (c_string s) FNV1_32A_INIT"

text \<open>\<open>char\<close> is signed: \<open>'A'\<close> is 65, \<open>'Z'\<close> is 90, \<open>'a' - 'A'\<close> is 32.\<close>

definition char_lower :: "8 word \<Rightarrow> 8 word" where
  "char_lower c = (if 65 \<le> sint c \<and> sint c \<le> 90 then c + 32 else c)"

function st_locale_insensitive_strcasecmp :: "8 word list \<Rightarrow> 8 word list \<Rightarrow> int" where
  "st_locale_insensitive_strcasecmp s1 s2 =
    (let c1 = c_char s1; c2 = c_char s2 in
     if c1 = 0 \<or> c2 = 0 then (if c1 \<noteq> 0 then 1 else if c2 \<noteq> 0 then -1 else 0)
     else let c1 = char_lower c1; c2 = char_lower c2 in
       if c1 \<noteq> c2 then (if sint c1 > sint c2 then 1 else -1)
       else st_locale_insensitive_strcasecmp (tl s1) (tl s2))"
  by pat_completeness auto
termination
  by (relation "measure (\<lambda>(s1, _). length s1)") (auto simp: c_char_def split: list.splits)

primrec st_locale_insensitive_strncasecmp :: "nat \<Rightarrow> 8 word list \<Rightarrow> 8 word list \<Rightarrow> int" where
  "st_locale_insensitive_strncasecmp 0 s1 s2 = 0"
| "st_locale_insensitive_strncasecmp (Suc n) s1 s2 =
    (let c1 = c_char s1; c2 = c_char s2 in
     if c1 = 0 \<or> c2 = 0 then (if c1 \<noteq> 0 then 1 else if c2 \<noteq> 0 then -1 else 0)
     else let c1 = char_lower c1; c2 = char_lower c2 in
       if c1 \<noteq> c2 then (if sint c1 > sint c2 then 1 else -1)
       else st_locale_insensitive_strncasecmp n (tl s1) (tl s2))"

text \<open>The C library's \<open>strcmp\<close> compares as \<open>unsigned char\<close>; its result is a sign.\<close>

function st_strcmp :: "8 word list \<Rightarrow> 8 word list \<Rightarrow> int" where
  "st_strcmp s1 s2 =
    (if c_char s1 \<noteq> c_char s2 then (if c_char s1 < c_char s2 then -1 else 1)
     else if c_char s1 = 0 then 0
     else st_strcmp (tl s1) (tl s2))"
  by pat_completeness auto
termination
  by (relation "measure (\<lambda>(s1, _). length s1)") (auto simp: c_char_def split: list.splits)

function strcasehash_loop :: "8 word list \<Rightarrow> u64 \<Rightarrow> u64" where
  "strcasehash_loop string hval =
    (if c_char string \<noteq> 0 then
       (let c = (ucast (c_char string) :: u32);
            c = (if c - 65 \<le> 90 - 65 then c + 32 else c);
            hval = hval XOR ucast c;
            hval = hval * FNV_32_PRIME
        in strcasehash_loop (tl string) hval)
     else hval)"
  by pat_completeness auto
termination
  by (relation "measure (\<lambda>(s, _). length s)") (auto simp: c_char_def split: list.splits)

definition strcasehash :: "8 word list \<Rightarrow> u64" where
  "strcasehash s = strcasehash_loop s FNV1_32A_INIT"

text \<open>The table types over strings, for a memory that gives the bytes at an address.\<close>

definition type_strhash :: "(st_data_t \<Rightarrow> 8 word list) \<Rightarrow> st_hash_type" where
  "type_strhash mem = \<lparr>type_compare = (\<lambda>x y. st_strcmp (mem x) (mem y)), type_hash = (\<lambda>x. strhash (mem x))\<rparr>"

definition type_strcasehash :: "(st_data_t \<Rightarrow> 8 word list) \<Rightarrow> st_hash_type" where
  "type_strcasehash mem = \<lparr>type_compare = (\<lambda>x y. st_locale_insensitive_strcasecmp (mem x) (mem y)),
     type_hash = (\<lambda>x. strcasehash (mem x))\<rparr>"

declare st_hash_words.simps [simp del] st_locale_insensitive_strcasecmp.simps [simp del]
  st_strcmp.simps [simp del] strcasehash_loop.simps [simp del]

section \<open>The table types are sound\<close>

lemma c_string_step:
  "c_string s = (if c_char s = 0 then [] else c_char s # c_string (tl s))"
  by (cases s) (simp_all add: c_string_def c_char_def)

lemma st_strcmp_eq_0: "st_strcmp s1 s2 = 0 \<longleftrightarrow> c_string s1 = c_string s2"
proof (induction s1 s2 rule: st_strcmp.induct)
  case (1 s1 s2)
  then show ?case
    by (subst st_strcmp.simps, subst c_string_step [of s1], subst c_string_step [of s2]) auto
qed

lemma strcasecmp_eq_0:
  "st_locale_insensitive_strcasecmp s1 s2 = 0 \<longleftrightarrow>
    map char_lower (c_string s1) = map char_lower (c_string s2)"
proof (induction s1 s2 rule: st_locale_insensitive_strcasecmp.induct)
  case (1 s1 s2)
  then show ?case
    by (subst st_locale_insensitive_strcasecmp.simps, subst c_string_step [of s1], subst c_string_step [of s2])
      (auto simp: Let_def)
qed

lemma sint_8: "sint (c :: 8 word) = (if uint c < 128 then uint c else uint c - 256)"
proof -
  have "sint c = (uint c + 128) mod 256 - 128"
    by (simp add: sint_uint signed_take_bit_eq_take_bit_shift take_bit_eq_mod)
  moreover have "(uint c + 128) mod 256 = (if uint c < 128 then uint c + 128 else uint c - 128)"
  proof (cases "uint c < 128")
    case False
    have "(uint c + 128) mod 256 = (uint c - 128) mod 256"
      using mod_add_self2 [of "uint c - 128" 256] by (simp add: algebra_simps)
    also have "\<dots> = uint c - 128" using False uint_range_size [of c] by (simp add: word_size)
    finally show ?thesis using False by simp
  qed simp
  ultimately show ?thesis by simp
qed

lemma uint_ucast_char: "uint (ucast (c :: 8 word) :: u32) = uint c" "uint (ucast (c :: 8 word) :: u64) = uint c"
  using uint_range_size [of c] by (simp_all add: unsigned_ucast_eq take_bit_eq_mod word_size)

lemma strcasehash_char:
  "(let c = (ucast (x :: 8 word) :: u32) in (if c - 65 \<le> 90 - 65 then c + 32 else c)) = ucast (char_lower x)"
proof -
  have r: "0 \<le> uint x" "uint x < 256" using uint_range_size [of x] by (simp_all add: word_size)
  have sub: "uint ((ucast x :: u32) - 65) = (uint x - 65) mod 2 ^ 32"
    by (simp add: uint_word_ariths uint_ucast_char)
  have c: "(ucast x :: u32) - 65 \<le> 90 - 65 \<longleftrightarrow> 65 \<le> uint x \<and> uint x \<le> 90"
  proof (cases "65 \<le> uint x")
    case True
    then have "(uint x - 65) mod 2 ^ 32 = uint x - 65" using r by simp
    then show ?thesis using True unfolding word_le_def sub by simp
  next
    case False
    have "(uint x - 65) mod 2 ^ 32 = (uint x - 65 + 2 ^ 32) mod 2 ^ 32"
      using mod_add_self2 [of "uint x - 65" "2 ^ 32"] by (simp add: algebra_simps)
    also have "\<dots> = uint x - 65 + 2 ^ 32" using False r by (intro mod_pos_pos_trivial) simp_all
    finally show ?thesis using False unfolding word_le_def sub by simp (use r in linarith)
  qed
  have s: "65 \<le> sint x \<and> sint x \<le> 90 \<longleftrightarrow> 65 \<le> uint x \<and> uint x \<le> 90" using r by (simp add: sint_8)
  have "uint ((ucast x :: u32) + 32) = uint (ucast (x + 32) :: u32)" if "65 \<le> uint x" "uint x \<le> 90"
    using that by (simp add: uint_word_ariths uint_ucast_char)
  then have "(ucast x :: u32) + 32 = ucast (x + 32)" if "65 \<le> uint x" "uint x \<le> 90"
    using that word_uint_eq_iff by blast
  then show ?thesis unfolding Let_def char_lower_def c s by simp
qed

lemma strcasehash_loop_step:
  "strcasehash_loop s h = (if c_char s \<noteq> 0
     then strcasehash_loop (tl s) ((h XOR ucast (char_lower (c_char s))) * FNV_32_PRIME) else h)"
proof -
  have "ucast (ucast x :: u32) = (ucast x :: u64)" for x :: "8 word"
    using uint_range_size [of x]
    by (simp add: word_uint_eq_iff unsigned_ucast_eq [of "ucast x :: u32"] uint_ucast_char take_bit_eq_mod word_size)
  with strcasehash_char [of "c_char s"] show ?thesis
    by (subst strcasehash_loop.simps) (simp add: Let_def)
qed

lemma strcasehash_loop_lower:
  "strcasehash_loop s h = fold (\<lambda>c h. (h XOR ucast (char_lower c)) * FNV_32_PRIME) (c_string s) h"
proof (induction s arbitrary: h)
  case (Cons c s)
  then show ?case by (simp add: strcasehash_loop_step [of "c # s"] c_string_def c_char_def)
qed (simp add: strcasehash_loop_step [of "[]"] c_string_def c_char_def)

lemma fold_char_lower:
  "fold (\<lambda>c h. (h XOR ucast (char_lower c)) * FNV_32_PRIME) xs h =
    fold (\<lambda>c h. (h XOR ucast c) * FNV_32_PRIME) (map char_lower xs) h"
  by (induction xs arbitrary: h) simp_all

text \<open>Equality through a function of the key is an equivalence, and hashing that function is sound.\<close>

lemma st_type_ok_via:
  assumes "\<And>x y. type_compare ty x y = 0 \<longleftrightarrow> g x = g y" "\<And>x y. g x = g y \<Longrightarrow> type_hash ty x = type_hash ty y"
  shows "st_type_ok ty"
proof -
  have eq: "type_equal ty = (\<lambda>x y. g x = g y)" using assms(1) by (intro ext) (auto simp: type_equal_def)
  have hash: "g x = g y \<Longrightarrow> type_do_hash ty x = type_do_hash ty y" for x y
    using assms(2) [of x y] by (simp add: type_do_hash_def)
  have "equivp (\<lambda>x y. g x = g y)" by (auto simp: equivp_def fun_eq_iff)
  then show ?thesis unfolding st_type_ok_def eq using hash by blast
qed

lemma st_type_ok_numhash: "st_type_ok type_numhash"
  by (rule st_type_ok_via [where g = "\<lambda>x. x"]) (simp_all add: type_numhash_def st_numcmp_def)

lemma st_type_ok_strhash: "st_type_ok (type_strhash mem)"
  by (rule st_type_ok_via [where g = "\<lambda>x. c_string (mem x)"])
    (simp_all add: type_strhash_def st_strcmp_eq_0 strhash_def)

lemma st_type_ok_strcasehash: "st_type_ok (type_strcasehash mem)"
  by (rule st_type_ok_via [where g = "\<lambda>x. map char_lower (c_string (mem x))"])
    (simp_all add: type_strcasehash_def strcasecmp_eq_0 strcasehash_def strcasehash_loop_lower fold_char_lower)

section \<open>The hash does not merge words\<close>

text \<open>Each step of the finalizer is injective: a shift-and-xor, and a product with an odd constant.\<close>

lemma xorshift_inj:
  fixes x y :: u64
  assumes "0 < n" "x XOR drop_bit n x = y XOR drop_bit n y"
  shows "x = y"
proof -
  let ?z = "x XOR y"
  have "?z = drop_bit n ?z"
    using assms(2) by (metis (no_types, lifting) drop_bit_xor xor.assoc xor.commute xor_self_eq xor.left_neutral)
  then have "unat ?z = unat ?z div 2 ^ n" by (metis unat_drop_bit_div)
  moreover have "(2::nat) ^ n \<ge> 2" using assms(1) by (cases n) simp_all
  ultimately have "unat ?z = 0" by (metis div_less_dividend less_le_trans neq0_conv one_less_numeral_iff semiring_norm(76) less_irrefl)
  then have "?z = 0" by (simp add: unat_eq_0)
  then show ?thesis by (metis xor.assoc xor.left_neutral xor.right_neutral xor_self_eq)
qed

lemma mult_odd_inj:
  fixes x y c d :: u64
  assumes "c * d = 1" "x * c = y * c"
  shows "x = y"
proof -
  have "x = x * c * d" using assms(1) by (simp add: mult.assoc)
  also have "\<dots> = y * c * d" using assms(2) by simp
  also have "\<dots> = y" using assms(1) by (simp add: mult.assoc)
  finally show ?thesis .
qed


lemma rotl_inj:
  assumes "n < 64" "ROTL x n = ROTL y n"
  shows "x = y"
proof (rule bit_word_eqI)
  fix i
  assume i: "i < LENGTH(64)"
  have "bit (ROTL z n) ((i + n) mod 64) = bit z i" for z
  proof (cases "i + n < 64")
    case True
    then show ?thesis using i bit_imp_le_length [of z "64 - n + (i + n)"]
      by (auto simp: ROTL_def bit_or_iff bit_push_bit_iff bit_drop_bit_eq)
  next
    case False
    then have "(i + n) mod 64 = i + n - 64" using i assms(1) by (simp add: mod_if)
    moreover have "64 - n + (i + n - 64) = i" using False assms(1) by simp
    ultimately show ?thesis using False i by (auto simp: ROTL_def bit_or_iff bit_push_bit_iff bit_drop_bit_eq)
  qed
  from this [of x] this [of y] assms(2) show "bit x i = bit y i" by simp
qed

lemma murmur_finish_inj:
  assumes "murmur_finish x = murmur_finish y"
  shows "x = y"
proof -
  let ?c1 = "BIG_CONSTANT 0xbf58476d 0x1ce4e5b9" and ?c2 = "BIG_CONSTANT 0x94d049bb 0x133111eb"
  let ?f = "\<lambda>x. (x XOR drop_bit 30 x) * ?c1" and ?g = "\<lambda>x :: u64. (x XOR drop_bit 27 x) * ?c2"
  have c1: "?c1 * 0x96de1b173f119089 = 1" and c2: "?c2 * 0x319642b2d24d8ec3 = 1"
    by (simp_all add: BIG_CONSTANT_def)
  have "?g (?f x) XOR drop_bit 31 (?g (?f x)) = ?g (?f y) XOR drop_bit 31 (?g (?f y))"
    using assms by (simp add: murmur_finish_def Let_def)
  then have "?g (?f x) = ?g (?f y)" by (rule xorshift_inj [rotated]) simp
  then have "?f x XOR drop_bit 27 (?f x) = ?f y XOR drop_bit 27 (?f y)" by (rule mult_odd_inj [OF c2])
  then have "?f x = ?f y" by (rule xorshift_inj [rotated]) simp
  then have "x XOR drop_bit 30 x = y XOR drop_bit 30 y" by (rule mult_odd_inj [OF c1])
  then show ?thesis by (rule xorshift_inj [rotated]) simp
qed

lemma C1_odd: "C1 * 0xa98409e882ce4d7d = 1" and C2_odd: "C2 * 0xa81e14edd9de2c7f = 1"
  by (simp_all add: C1_def C2_def BIG_CONSTANT_def)

lemma xor_left_inj: "(h :: u64) XOR x = h XOR y \<Longrightarrow> x = y"
proof -
  assume "h XOR x = h XOR y"
  then have "h XOR (h XOR x) = h XOR (h XOR y)" by simp
  then show "x = y" by (simp add: xor.assoc [symmetric])
qed

lemma murmur_step_inj:
  "murmur_step h k = murmur_step h k' \<Longrightarrow> k = k'"
  "murmur_step h k = murmur_step h' k \<Longrightarrow> h = h'"
proof -
  assume "murmur_step h k = murmur_step h k'"
  then have "(h XOR ROTL (k * C1) 33) * C2 = (h XOR ROTL (k' * C1) 33) * C2"
    unfolding murmur_step_def Let_def by (rule rotl_inj [rotated]) simp
  then have "h XOR ROTL (k * C1) 33 = h XOR ROTL (k' * C1) 33" by (rule mult_odd_inj [OF C2_odd])
  then have "ROTL (k * C1) 33 = ROTL (k' * C1) 33" by (rule xor_left_inj)
  then have "k * C1 = k' * C1" by (rule rotl_inj [rotated]) simp
  then show "k = k'" by (rule mult_odd_inj [OF C1_odd])
next
  assume "murmur_step h k = murmur_step h' k"
  then have "(h XOR ROTL (k * C1) 33) * C2 = (h' XOR ROTL (k * C1) 33) * C2"
    unfolding murmur_step_def Let_def by (rule rotl_inj [rotated]) simp
  then have "h XOR ROTL (k * C1) 33 = h' XOR ROTL (k * C1) 33" by (rule mult_odd_inj [OF C2_odd])
  then show "h = h'" by (metis xor.commute xor_left_inj)
qed

definition le_word :: "8 word list \<Rightarrow> u64" where
  "le_word xs = foldr (\<lambda>b w. push_bit 8 w OR ucast b) xs 0"

lemma bit_le_word_Cons:
  "bit (le_word (b # xs)) k \<longleftrightarrow> k < 64 \<and> (if k < 8 then bit b k else bit (le_word xs) (k - 8))"
  using bit_imp_le_length [of b k]
  by (auto simp: le_word_def bit_or_iff bit_push_bit_iff bit_ucast_iff)

lemma bit_le_word_less: "bit (le_word xs) k \<Longrightarrow> k < 8 * length xs"
proof (induction xs arbitrary: k)
  case (Cons b xs)
  show ?case
  proof (cases "k < 8")
    case False
    with Cons.prems have "bit (le_word xs) (k - 8)" by (simp add: bit_le_word_Cons)
    from Cons.IH [OF this] False show ?thesis by simp
  qed simp
qed (simp add: le_word_def)

lemma le_word_inj: "length xs = length ys \<Longrightarrow> length xs \<le> 8 \<Longrightarrow> le_word xs = le_word ys \<Longrightarrow> xs = ys"
proof (induction xs ys rule: list_induct2)
  case (Cons b xs c ys)
  have same: "bit (le_word (b # xs)) k = bit (le_word (c # ys)) k" for k using Cons.prems(2) by simp
  have "b = c"
  proof (rule bit_word_eqI)
    fix k
    assume "k < LENGTH(8)"
    with same [of k] show "bit b k = bit c k" by (simp add: bit_le_word_Cons)
  qed
  moreover have "le_word xs = le_word ys"
  proof (rule bit_word_eqI)
    fix k
    assume "k < LENGTH(64)"
    show "bit (le_word xs) k = bit (le_word ys) k"
    proof (cases "k + 8 < 64")
      case True
      with same [of "k + 8"] show ?thesis by (simp add: bit_le_word_Cons)
    next
      case False
      then have "\<not> k < 8 * length xs" using Cons.prems(1) by simp
      then show ?thesis using bit_le_word_less [of xs k] bit_le_word_less [of ys k] Cons.hyps by auto
    qed
  qed
  ultimately show ?case using Cons by simp
qed simp

lemma load_le_inj: "length xs = 8 \<Longrightarrow> length ys = 8 \<Longrightarrow> load_le 8 xs = load_le 8 ys \<Longrightarrow> xs = ys"
  using le_word_inj [of xs ys] by (simp add: load_le_def le_word_def)

lemma st_hash_word: "length data = 8 \<Longrightarrow> st_hash data h = murmur_finish (murmur_step h (load_le 8 data) XOR 8)"
  by (simp add: st_hash_def st_hash_words.simps [of data h] st_hash_words.simps [of "[]"])

lemma st_hash_word_inj:
  assumes "length xs = 8" "length ys = 8" "st_hash xs h = st_hash ys h"
  shows "xs = ys"
proof -
  have "murmur_step h (load_le 8 xs) XOR 8 = murmur_step h (load_le 8 ys) XOR 8"
    using assms(3) unfolding st_hash_word [OF assms(1)] st_hash_word [OF assms(2)] by (rule murmur_finish_inj)
  then have "murmur_step h (load_le 8 xs) = murmur_step h (load_le 8 ys)"
    unfolding xor.commute [of _ 8] by (rule xor_left_inj)
  then show ?thesis using murmur_step_inj(1) load_le_inj assms(1,2) by blast
qed

end
