(* ===== verification/St_Properties.thy ===== *)
theory St_Properties
  imports St_Bulk St_Hash
begin

text \<open>
  What the development shows of st.c, one theorem per claim, with the tables on which the
  hypotheses are exercised: a packed table with a deleted slot, and a fresh table with bins.
\<close>

section \<open>Example tables\<close>

definition num_entry :: "st_data_t \<Rightarrow> st_data_t \<Rightarrow> st_table_entry" where
  "num_entry k v = \<lparr>e_hash = type_do_hash type_numhash k, e_key = k, e_record = v\<rparr>"

text \<open>The keys 7 and 9 in a table of four slots; the slot between them was deleted.\<close>

definition packed_example :: st_table where
  "packed_example = \<lparr>entry_power = 2, bin_power = 3, size_ind = 0, rebuilds_num = 0, st_type = type_numhash,
     num_entries = 2, bins = None, entries_start = 0, entries_bound = 3,
     entries = [num_entry 7 70, MARK_ENTRY_DELETED (num_entry 8 80), num_entry 9 90, uninit_entry]\<rparr>"

definition indexed_example :: st_table where
  "indexed_example = the (st_init_numtable_with_size 20)"

lemma packed_example_live: "live packed_example = [num_entry 7 70, num_entry 9 90]"
  by (simp add: live_def packed_example_def DELETED_ENTRY_P_def MARK_ENTRY_DELETED_def num_entry_def numeral_eq_Suc)

lemma packed_example_inv: "st_inv packed_example"
proof -
  have "st_shape packed_example"
    by (simp add: st_shape_def packed_example_def MINIMAL_POWER2_def MAX_POWER2_def feature_bin_power_def
        feature_size_ind_def features_def)
  moreover have "entries_ok type_numhash (live packed_example)"
    unfolding packed_example_live
    by (simp add: entries_ok_def num_entry_def al_distinct_def type_equal_def pair_of_def type_numhash_def st_numcmp_def)
  ultimately show ?thesis
    unfolding st_inv_def packed_example_live
    using st_type_ok_numhash by (simp add: packed_example_def st_bins_ok_def)
qed

lemma packed_example_alist: "st_alist packed_example = [(7, 70), (9, 90)]"
  by (simp add: st_alist_def packed_example_live pair_of_def num_entry_def)

lemma packed_example_capacity: "st_capacity packed_example"
  by (simp add: st_capacity_def packed_example_def)

lemma packed_example_num: "num_entries packed_example = 2"
  by (simp add: packed_example_def)

lemma packed_example_EQUAL: "EQUAL packed_example x y \<longleftrightarrow> x = y"
  by (simp add: EQUAL_def packed_example_def type_numhash_def st_numcmp_def)

lemma indexed_example_facts:
  "st_inv indexed_example" "live indexed_example = []" "num_entries indexed_example = 0"
  "entries_bound indexed_example = 0" "entry_power indexed_example = 5" "bins indexed_example \<noteq> None"
  "st_type indexed_example = type_numhash"
proof -
  have p: "get_power2 20 = Some 5"
    by (simp add: get_power2_def nlz_intptr_bit_width MAX_POWER2_def MINIMAL_POWER2_def bit_width.simps)
  have "unat (20 :: 64 word) < 2 ^ MAX_POWER2" by (simp add: MAX_POWER2_def)
  from st_init_table_with_size_Some [OF st_type_ok_numhash this] obtain tab
    where tab: "st_init_table_with_size type_numhash 20 = Some tab" "st_inv tab" "live tab = []"
      "st_type tab = type_numhash" "num_entries tab = 0" "entries_bound tab = 0"
      "bins tab = None \<longleftrightarrow> entry_power tab \<le> MAX_POWER2_FOR_TABLES_WITHOUT_BINS"
    by (elim exE conjE) (rule that; assumption)
  have eq: "indexed_example = tab" by (simp add: indexed_example_def st_init_numtable_with_size_def tab(1))
  have "entry_power tab = 5"
    using tab(1) p by (auto simp: st_init_table_with_size_def Let_def make_tab_empty_def initialize_bins_def)
  then show "st_inv indexed_example" "live indexed_example = []" "num_entries indexed_example = 0"
    "entries_bound indexed_example = 0" "entry_power indexed_example = 5" "bins indexed_example \<noteq> None"
    "st_type indexed_example = type_numhash"
    unfolding eq using tab by (simp_all add: MAX_POWER2_FOR_TABLES_WITHOUT_BINS_def)
qed


lemmas packed_example_facts = packed_example_inv packed_example_alist packed_example_capacity packed_example_EQUAL

section \<open>The dictionary operations\<close>

text \<open>C1: \<open>st_insert\<close> on a well-formed table always returns, keeps the invariant (rebuilding the table
  when its entries are used up), overwrites the value of an equal key in place or appends the pair
  at the end, reports which with its return value, and afterwards \<open>st_lookup\<close> finds the new value
  under every key equal to the inserted one and is unchanged on all others.\<close>

theorem st_insert_correct:
  assumes "st_inv tab" "st_capacity tab"
  shows "\<exists>tab' r. st_insert tab k v = Some (tab', r) \<and> st_inv tab' \<and>
    st_alist tab' = al_put (EQUAL tab) k v (st_alist tab) \<and>
    r = (if al_find (EQUAL tab) k (st_alist tab) = None then 0 else 1) \<and>
    (\<forall>k'. st_lookup tab' k' = (if EQUAL tab k' k then Some (Some v) else st_lookup tab k'))"
proof -
  obtain tab' r where t: "st_insert tab k v = Some (tab', r)" "st_inv tab'"
    "st_alist tab' = al_put (EQUAL tab) k v (st_alist tab)"
    "r = (if al_find (EQUAL tab) k (st_alist tab) = None then 0 else 1)"
    using st_insert_refines [OF assms, of k v] by blast
  then have "st_insert_tab tab k v = Some tab'" by (simp add: st_insert_tab_def)
  then have "st_lookup tab' k' = (if EQUAL tab k' k then Some (Some v) else st_lookup tab k')" for k'
    using st.lookup_after_insert [OF assms, of k v k'] by auto
  with t show ?thesis by blast
qed

theorem st_insert_correct_witness:
  "\<exists>tab' r. st_insert packed_example 9 91 = Some (tab', r) \<and> st_alist tab' = [(7, 70), (9, 91)] \<and> r = 1"
  using st_insert_correct [OF packed_example_inv packed_example_capacity, of 9 91]
  by (auto simp: packed_example_facts)

text \<open>C2: \<open>st_delete\<close> always returns; it removes exactly the pair of an equal key and keeps the order
  of the others, returning 1 with the stored key and value, or returns 0 and leaves the contents
  alone; afterwards \<open>st_lookup\<close> misses that key and is unchanged on all others.\<close>

theorem st_delete_correct:
  assumes "st_inv tab"
  shows "\<exists>tab'. st_delete tab k = Some (case al_find (EQUAL tab) k (st_alist tab) of
        None \<Rightarrow> (tab', 0, k, 0) | Some (k', v') \<Rightarrow> (tab', 1, k', v')) \<and>
    st_inv tab' \<and> st_alist tab' = al_del (EQUAL tab) k (st_alist tab) \<and>
    (\<forall>k'. st_lookup tab' k' = (if EQUAL tab k' k then Some None else st_lookup tab k'))"
proof -
  obtain tab' where t: "st_delete tab k = Some (case al_find (EQUAL tab) k (st_alist tab) of
        None \<Rightarrow> (tab', 0, k, 0) | Some (k', v') \<Rightarrow> (tab', 1, k', v'))"
    "st_inv tab'" "st_alist tab' = al_del (EQUAL tab) k (st_alist tab)"
    using st_delete_refines [OF assms, of k] by blast
  have "st_delete_tab tab k = Some tab'"
    using t(1) by (cases "al_find (EQUAL tab) k (st_alist tab)") (auto simp: st_delete_tab_def)
  then have "st_lookup tab' k' = (if EQUAL tab k' k then Some None else st_lookup tab k')" for k'
    using st.lookup_after_delete [OF assms, of k k'] by auto
  with t show ?thesis by blast
qed

theorem st_delete_correct_witness:
  "\<exists>tab'. st_delete packed_example 7 = Some (tab', 1, 7, 70) \<and> st_alist tab' = [(9, 90)]"
  using st_delete_correct [OF packed_example_inv, of 7] by (auto simp: packed_example_facts)

text \<open>C3: both searches, \<open>st_lookup\<close> and \<open>st_get_key\<close>, return on every well-formed table, packed or
  indexed, and give the value and the stored key of the pair whose key equals the argument.\<close>

theorem st_lookup_correct:
  assumes "st_inv tab"
  shows "st_lookup tab k = Some (map_option snd (al_find (EQUAL tab) k (st_alist tab))) \<and>
    st_get_key tab k = Some (map_option fst (al_find (EQUAL tab) k (st_alist tab)))"
  using st_lookup_refines [OF assms] st_get_key_refines [OF assms] by blast

theorem st_lookup_correct_witness:
  "st_lookup packed_example 9 = Some (Some 90) \<and> st_get_key packed_example 8 = Some None"
  using st_lookup_correct [OF packed_example_inv, of 9] st_lookup_correct [OF packed_example_inv, of 8]
  by (simp add: packed_example_facts)

text \<open>A key that is deleted and inserted again moves to the end of the insertion order.\<close>

theorem st_reinsertion_moves_last:
  assumes "st_inv tab" "st_delete_tab tab k = Some tab1" "st_capacity tab1"
  shows "\<exists>tab2. st_insert_tab tab1 k v = Some tab2 \<and>
    st_alist tab2 = al_del (EQUAL tab) k (st_alist tab) @ [(k, v)]"
  by (rule st.reinsertion_moves_last [OF assms(1) TrueI assms(2,3)])

theorem st_reinsertion_moves_last_witness:
  "\<exists>tab1 tab2. st_delete_tab packed_example 7 = Some tab1 \<and> st_insert_tab tab1 7 71 = Some tab2 \<and>
    st_alist tab2 = [(9, 90), (7, 71)]"
proof -
  obtain tab1 where t: "st_delete_tab packed_example 7 = Some tab1" "st_inv tab1" "st_alist tab1 = [(9, 90)]"
    using st_delete_refines [OF packed_example_inv, of 7]
    by (auto simp: packed_example_facts st_delete_tab_def)
  have "num_entries tab1 = length (st_alist tab1)" using t(2) by (simp add: st_inv_def st_alist_def)
  then have "st_capacity tab1" by (simp add: st_capacity_def t(3))
  from st_reinsertion_moves_last [OF packed_example_inv t(1) this, of 71] t(1) show ?thesis
    by (auto simp: packed_example_facts)
qed

text \<open>C7: \<open>st_shift\<close> removes and returns the first pair in insertion order, or returns 0 on an empty
  table.\<close>

theorem st_shift_correct:
  assumes "st_inv tab"
  shows "case st_alist tab of
      [] \<Rightarrow> st_shift tab = Some (tab, 0, None, 0)
    | (k, v) # rest \<Rightarrow> (\<exists>tab'. st_shift tab = Some (tab', 1, Some k, v) \<and> st_inv tab' \<and> st_alist tab' = rest)"
  using st_shift_refines [OF assms] by (auto split: list.splits)

theorem st_shift_correct_witness:
  "\<exists>tab'. st_shift packed_example = Some (tab', 1, Some 7, 70) \<and> st_alist tab' = [(9, 90)]"
  using st_shift_correct [OF packed_example_inv] by (auto simp: packed_example_facts)

text \<open>C8: \<open>st_update\<close> calls its callback once, with the stored pair or the given key and 0, and then
  overwrites, inserts, deletes or keeps according to the verdict; a callback that continues must
  leave an equal key.\<close>

theorem st_update_correct:
  assumes "st_inv tab" "st_capacity tab"
    and "\<And>k0 v0 ex k' v'. EQUAL tab k k0 \<Longrightarrow> func k0 v0 ex = (ST_CONTINUE, k', v') \<Longrightarrow> EQUAL tab k0 k'"
  shows "\<exists>tab'. st_update tab k func = Some (tab', al_find (EQUAL tab) k (st_alist tab) \<noteq> None) \<and>
    st_inv tab' \<and> st_alist tab' = al_update (EQUAL tab) k func 0 (st_alist tab)"
proof -
  have "\<exists>tab'. st_update tab k func = Some (tab', al_find (EQUAL tab) k (st_alist tab) \<noteq> None) \<and>
    st_inv tab' \<and> st_type tab' = st_type tab \<and> st_alist tab' = al_update (EQUAL tab) k func 0 (st_alist tab)"
    by (rule st_update_refines [OF assms(1,2) assms(3)])
  then show ?thesis by blast
qed

theorem st_update_correct_witness:
  "\<exists>tab'. st_update packed_example 9 (\<lambda>k v ex. (ST_CONTINUE, k, v + 1)) = Some (tab', True) \<and>
    st_alist tab' = [(7, 70), (9, 91)]"
  using st_update_correct [OF packed_example_inv packed_example_capacity, of 9 "\<lambda>k v ex. (ST_CONTINUE, k, v + 1)"]
  by (auto simp: packed_example_facts al_update_def)

section \<open>Traversal\<close>

text \<open>C4: \<open>st_general_foreach\<close> with a callback that leaves the table alone visits every pair once in
  insertion order until a verdict stops it, deletes the pairs whose verdict is \<open>ST_DELETE\<close> and
  keeps the invariant, for \<open>st_foreach\<close> and \<open>st_foreach_check\<close> alike.\<close>

theorem st_foreach_correct:
  assumes "st_inv tab"
  shows "\<exists>tab'. st_general_foreach tab (st_plain_callback f) None s check_p =
      Some ((tab', snd (al_foreach check_p f (st_alist tab) s)), 0) \<and>
    st_inv tab' \<and> st_alist tab' = fst (al_foreach check_p f (st_alist tab) s)"
  using st_general_foreach_refines [OF assms, of f s check_p] by blast

theorem st_foreach_correct_witness:
  "\<exists>tab'. st_foreach packed_example (st_plain_callback (\<lambda>k v n. (if k = 7 then ST_DELETE else ST_CONTINUE, n + v))) 0 =
      Some ((tab', 160), 0) \<and> st_alist tab' = [(9, 90)]"
  using st_foreach_correct [OF packed_example_inv, of "\<lambda>k v n. (if k = 7 then ST_DELETE else ST_CONTINUE, n + v)" 0 False]
  by (auto simp: packed_example_facts st_foreach_def)

text \<open>\<open>st_general_keys\<close> and \<open>st_general_values\<close> fill their arrays with the keys and the values in
  insertion order, stopping at the size of the array, and a copied table has the same contents.\<close>

theorem st_keys_values_correct:
  assumes "st_inv tab"
  shows "st_general_keys tab siz = take siz (map fst (st_alist tab)) \<and>
    st_general_values tab siz = take siz (map snd (st_alist tab)) \<and>
    st_alist (st_copy tab) = st_alist tab \<and> st_inv (st_copy tab)"
proof -
  have "st_copy tab = tab"
    using st_inv_power(4) [OF assms]
    by (cases "bins tab") (simp_all add: st_copy_def get_allocated_entries_def)
  then show ?thesis
    using st_general_keys_refines [OF assms] st_general_values_refines [OF assms] assms by simp
qed

theorem st_keys_values_correct_witness:
  "st_general_keys packed_example 5 = [7, 9] \<and> st_general_values packed_example 1 = [70]"
  using st_keys_values_correct [OF packed_example_inv, of 5] st_keys_values_correct [OF packed_example_inv, of 1]
  by (simp add: packed_example_facts)

section \<open>Bins and rebuilding\<close>

text \<open>C6: the probe sequence of a hash value (\<open>hash_bin\<close> followed by \<open>secondary_hash\<close>) reaches every
  bin of the table, within six steps more than there are bins; so a search loop ends as soon as
  one bin is empty.\<close>

theorem probe_complete:
  assumes "bin_power tab \<le> 63" "j < 2 ^ bin_power tab"
  shows "\<exists>n < 6 + 2 ^ bin_power tab. unat (fst (((\<lambda>s. secondary_hash (fst s) tab (snd s)) ^^ n)
    (hash_bin h tab, h))) = j"
proof -
  have "probe_next tab = (\<lambda>s. secondary_hash (fst s) tab (snd s))" by (intro ext) (simp add: probe_next_def)
  then show ?thesis using probe_reaches_every_bin [OF assms, of h] by (simp add: probe_def)
qed

theorem probe_complete_witness:
  "\<exists>n < 14. unat (fst (((\<lambda>s. secondary_hash (fst s) packed_example (snd s)) ^^ n)
    (hash_bin 12345 packed_example, 12345))) = 6"
  using probe_complete [of packed_example 6 12345] by (simp add: packed_example_def)

text \<open>C5: \<open>rebuild_table\<close> returns, keeps the pairs and their order, packs the live entries to the
  front, leaves room for one more entry and counts one rebuild.\<close>

theorem rebuild_table_correct:
  assumes "st_inv tab" "st_capacity tab"
  shows "\<exists>tab'. rebuild_table tab = Some tab' \<and> st_inv tab' \<and> st_alist tab' = st_alist tab \<and>
    entries_bound tab' = num_entries tab \<and> entries_bound tab' < get_allocated_entries tab' \<and>
    rebuilds_num tab' = rebuilds_num tab + 1"
  using rebuild_table_Some [OF assms] by (auto simp: st_alist_def get_allocated_entries_def)

theorem rebuild_table_correct_witness:
  "\<exists>tab'. rebuild_table packed_example = Some tab' \<and> entries_bound tab' = 2 \<and> st_alist tab' = [(7, 70), (9, 90)]"
  using rebuild_table_correct [OF packed_example_inv packed_example_capacity]
  by (auto simp: packed_example_facts packed_example_num)

text \<open>A table made for \<open>siz\<close> entries is empty, well-formed and has more than \<open>siz\<close> slots, for
  every size below \<open>2 ^ 62\<close>; from \<open>2 ^ 62\<close> on the code raises "st_table too big".\<close>

theorem st_init_correct:
  assumes "st_type_ok ty"
  shows "if unat siz < 2 ^ MAX_POWER2
    then \<exists>tab. st_init_table_with_size ty siz = Some tab \<and> st_inv tab \<and> st_alist tab = [] \<and>
      unat siz < get_allocated_entries tab
    else st_init_table_with_size ty siz = None"
proof (cases "unat siz < 2 ^ MAX_POWER2")
  case True
  then show ?thesis using st_init_table_with_size_Some [OF assms True] by (auto simp: st_alist_def)
next
  case False
  then show ?thesis using get_power2_None [of siz] by (simp add: st_init_table_with_size_def)
qed

theorem st_init_correct_witness:
  "\<exists>tab. st_init_table_with_size type_numhash 100 = Some tab \<and> st_alist tab = [] \<and> 100 < get_allocated_entries tab"
  using st_init_correct [OF st_type_ok_numhash, of 100] by (auto simp: MAX_POWER2_def)

text \<open>The three built-in table types are sound: comparing numbers, C strings and C strings
  without regard to case are equivalences, and equal keys have equal hash values.\<close>

theorem builtin_types_ok:
  "st_type_ok type_numhash \<and> st_type_ok (type_strhash mem) \<and> st_type_ok (type_strcasehash mem)"
  using st_type_ok_numhash st_type_ok_strhash st_type_ok_strcasehash by blast

text \<open>For a fixed seed \<open>st_hash\<close> gives different 8-byte buffers different hash values.\<close>

theorem st_hash_word_injective:
  assumes "length xs = 8" "length ys = 8" "xs \<noteq> ys"
  shows "st_hash xs h \<noteq> st_hash ys h"
  using assms st_hash_word_inj by blast

theorem st_hash_word_injective_witness:
  "st_hash [1, 2, 3, 4, 5, 6, 7, 8] FNV1_32A_INIT \<noteq> st_hash [1, 2, 3, 4, 5, 6, 7, 9] FNV1_32A_INIT"
  using st_hash_word_injective [of "[1, 2, 3, 4, 5, 6, 7, 8]" "[1, 2, 3, 4, 5, 6, 7, 9]"] by simp

section \<open>Bulk insertion\<close>

text \<open>C9: \<open>rb_hash_bulk_insert_into_st_table\<close> on an indexed table acts as inserting the pairs of
  \<open>argv\<close> one after the other, duplicates included, whether or not it has to expand the table.\<close>

theorem bulk_insert_correct:
  assumes "st_inv tab" "MAX_POWER2_FOR_TABLES_WITHOUT_BINS < bin_power tab"
    and "entries_bound tab + length argv div 2 < 2 ^ MAX_POWER2"
    and "num_entries tab \<noteq> 0 \<or> 2 < length argv"
  shows "\<exists>tab'. rb_hash_bulk_insert_into_st_table stringify tab argv = Some tab' \<and> st_inv tab' \<and>
    st_alist tab' = fold (\<lambda>p. al_put (EQUAL tab) (fst p) (snd p)) (argv_pairs stringify argv) (st_alist tab)"
  using bulk_insert_indexed [OF assms] by blast

theorem bulk_insert_correct_witness:
  "\<exists>tab'. rb_hash_bulk_insert_into_st_table (\<lambda>k. k) indexed_example [1, 10, 2, 20, 1, 11] = Some tab' \<and>
    st_alist tab' = [(1, 11), (2, 20)]"
proof -
  have "bin_power indexed_example = 6"
    using st_inv_power(1) [OF indexed_example_facts(1)] indexed_example_facts(5) by simp
  moreover have "EQUAL indexed_example x y \<longleftrightarrow> x = y" for x y
    by (simp add: EQUAL_def indexed_example_facts type_numhash_def st_numcmp_def)
  ultimately show ?thesis
    using bulk_insert_correct [OF indexed_example_facts(1), of "[1, 10, 2, 20, 1, 11]" "\<lambda>k. k"]
    by (auto simp: indexed_example_facts MAX_POWER2_FOR_TABLES_WITHOUT_BINS_def MAX_POWER2_def st_alist_def)
qed

text \<open>C10: when an indexed table is empty and one pair is bulk-inserted, the entry is written but no
  bin points to it: the table counts the pair and enumerates it, and \<open>st_lookup\<close> of its key misses.\<close>

theorem bulk_insert_single_not_found:
  assumes "st_inv tab" "num_entries tab = 0" "bins tab = Some bs" "entries_bound tab < 2 ^ entry_power tab"
  shows "\<exists>tab'. rb_hash_bulk_insert_into_st_table stringify tab [k, v] = Some tab' \<and>
    st_alist tab' = [(stringify k, v)] \<and> st_lookup tab' (stringify k) = Some None"
  using assms by (rule bulk_insert_single_lost)

theorem bulk_insert_single_not_found_witness:
  "\<exists>tab'. rb_hash_bulk_insert_into_st_table (\<lambda>k. k) indexed_example [7, 70] = Some tab' \<and>
    st_alist tab' = [(7, 70)] \<and> st_lookup tab' 7 = Some None"
proof -
  obtain bs where "bins indexed_example = Some bs" using indexed_example_facts(6) by blast
  then show ?thesis
    using bulk_insert_single_not_found [OF indexed_example_facts(1,3), of bs "\<lambda>k. k" 7 70]
    by (simp add: indexed_example_facts)
qed

end
