(* ===== verification/Ar_Table.thy ===== *)
theory Ar_Table
  imports St_Foreach
begin

text \<open>
  The array table of hash.c: a hash of at most eight pairs, searched through one-byte hints of the
  hash values, and the conversion to a table of st.c.  An object of class Hash is the record
  \<open>RHash\<close>; its union \<open>as\<close>, told apart by \<open>RHASH_ST_TABLE_FLAG\<close>, is a datatype, and \<open>as.ar\<close> is
  \<open>None\<close> for \<open>NULL\<close>.  Size and bound are the two 4-bit fields of the object's flags.

  The functions of \<open>objhash\<close> (\<open>rb_any_cmp\<close>, \<open>rb_any_hash\<close>) call the methods \<open>eql?\<close> and \<open>hash\<close> of the
  keys; they are the parameter \<open>objhash\<close>, pure functions of the keys, so that a key's \<open>hash\<close> method
  does not convert the table it is looked up in.  Whether the array is in the transient heap does
  not matter to its contents and is left out.
\<close>

section \<open>Data\<close>

definition Qundef :: VALUE where "Qundef = 0x34"
definition Qnil :: VALUE where "Qnil = 8"

definition RHASH_AR_TABLE_MAX_SIZE :: nat where "RHASH_AR_TABLE_MAX_SIZE = 8"
definition RHASH_AR_TABLE_MAX_BOUND :: nat where "RHASH_AR_TABLE_MAX_BOUND = RHASH_AR_TABLE_MAX_SIZE"

type_synonym ar_hint_t = u8
type_synonym ar_table_pair = "VALUE \<times> VALUE"

definition RHASH_AR_CLEARED_HINT :: ar_hint_t where "RHASH_AR_CLEARED_HINT = 0xff"

datatype rhash_as = As_ar "ar_table_pair list option" | As_st st_table

record RHash =
  as_table :: rhash_as
  ar_hint_ary :: "ar_hint_t list"
  ar_table_size :: nat
  ar_table_bound :: nat

definition RHASH_AR_TABLE_P :: "RHash \<Rightarrow> bool" where
  "RHASH_AR_TABLE_P hash = (case as_table hash of As_ar _ \<Rightarrow> True | As_st _ \<Rightarrow> False)"

definition RHASH_AR_TABLE :: "RHash \<Rightarrow> ar_table_pair list option" where
  "RHASH_AR_TABLE hash = (case as_table hash of As_ar t \<Rightarrow> t | As_st _ \<Rightarrow> None)"

text \<open>Reading and writing \<open>pairs[n]\<close>.\<close>

definition RHASH_AR_TABLE_REF :: "RHash \<Rightarrow> nat \<Rightarrow> ar_table_pair" where
  "RHASH_AR_TABLE_REF hash n = (case RHASH_AR_TABLE hash of Some pairs \<Rightarrow> pairs ! n | None \<Rightarrow> (Qundef, Qundef))"

definition ar_write_pair :: "RHash \<Rightarrow> nat \<Rightarrow> ar_table_pair \<Rightarrow> RHash" where
  "ar_write_pair hash n p = (case as_table hash of
     As_ar (Some pairs) \<Rightarrow> hash\<lparr>as_table := As_ar (Some (pairs[n := p]))\<rparr>
   | _ \<Rightarrow> hash)"

definition ar_do_hash :: "st_hash_type \<Rightarrow> st_data_t \<Rightarrow> st_hash_t" where
  "ar_do_hash objhash key = type_hash objhash key"

definition ar_do_hash_hint :: "st_hash_t \<Rightarrow> ar_hint_t" where
  "ar_do_hash_hint hash_value = ucast hash_value"

definition ar_hint :: "RHash \<Rightarrow> nat \<Rightarrow> ar_hint_t" where
  "ar_hint hash index = ar_hint_ary hash ! index"

definition ar_hint_set_hint :: "RHash \<Rightarrow> nat \<Rightarrow> ar_hint_t \<Rightarrow> RHash" where
  "ar_hint_set_hint hash index hint = hash\<lparr>ar_hint_ary := (ar_hint_ary hash)[index := hint]\<rparr>"

definition ar_hint_set :: "RHash \<Rightarrow> nat \<Rightarrow> st_hash_t \<Rightarrow> RHash" where
  "ar_hint_set hash index hash_value = ar_hint_set_hint hash index (ar_do_hash_hint hash_value)"

definition ar_clear_entry :: "RHash \<Rightarrow> nat \<Rightarrow> RHash" where
  "ar_clear_entry hash index =
    ar_hint_set_hint (ar_write_pair hash index (Qundef, snd (RHASH_AR_TABLE_REF hash index))) index RHASH_AR_CLEARED_HINT"

definition ar_cleared_entry :: "RHash \<Rightarrow> nat \<Rightarrow> bool" where
  "ar_cleared_entry hash index \<longleftrightarrow>
    (if ar_hint hash index = RHASH_AR_CLEARED_HINT then fst (RHASH_AR_TABLE_REF hash index) = Qundef else False)"

definition ar_set_entry :: "RHash \<Rightarrow> nat \<Rightarrow> st_data_t \<Rightarrow> st_data_t \<Rightarrow> st_hash_t \<Rightarrow> RHash" where
  "ar_set_entry hash index key val hash_value = ar_hint_set (ar_write_pair hash index (key, val)) index hash_value"

definition RHASH_AR_TABLE_BOUND_SET :: "RHash \<Rightarrow> nat \<Rightarrow> RHash" where
  "RHASH_AR_TABLE_BOUND_SET hash n = hash\<lparr>ar_table_bound := n\<rparr>"

definition RHASH_AR_TABLE_SIZE_SET :: "RHash \<Rightarrow> nat \<Rightarrow> RHash" where
  "RHASH_AR_TABLE_SIZE_SET hash n = hash\<lparr>ar_table_size := n\<rparr>"

definition RHASH_AR_TABLE_SIZE_INC :: "RHash \<Rightarrow> RHash" where
  "RHASH_AR_TABLE_SIZE_INC hash = RHASH_AR_TABLE_SIZE_SET hash (ar_table_size hash + 1)"

definition RHASH_AR_TABLE_SIZE_DEC :: "RHash \<Rightarrow> RHash" where
  "RHASH_AR_TABLE_SIZE_DEC hash =
    (let new_size = ar_table_size hash - 1
     in if new_size \<noteq> 0 then RHASH_AR_TABLE_SIZE_SET hash new_size
        else RHASH_AR_TABLE_BOUND_SET (RHASH_AR_TABLE_SIZE_SET hash 0) 0)"

definition RHASH_AR_TABLE_CLEAR :: "RHash \<Rightarrow> RHash" where
  "RHASH_AR_TABLE_CLEAR hash = hash\<lparr>ar_table_size := 0, ar_table_bound := 0, as_table := As_ar None\<rparr>"

definition RHASH_ST_TABLE_SET :: "RHash \<Rightarrow> st_table \<Rightarrow> RHash" where
  "RHASH_ST_TABLE_SET hash st = hash\<lparr>as_table := As_st st\<rparr>"

text \<open>The fresh array holds indeterminate pairs; the model fills them with \<open>ST_INIT_VAL\<close>.\<close>

definition ar_alloc_table :: "RHash \<Rightarrow> RHash" where
  "ar_alloc_table hash =
    hash\<lparr>ar_table_size := 0, ar_table_bound := 0,
         as_table := As_ar (Some (replicate RHASH_AR_TABLE_MAX_SIZE (ST_INIT_VAL, ST_INIT_VAL)))\<rparr>"

definition RHASH_TABLE_NULL_P :: "RHash \<Rightarrow> bool" where
  "RHASH_TABLE_NULL_P hash \<longleftrightarrow> as_table hash = As_ar None"

definition hash_ar_table :: "RHash \<Rightarrow> RHash" where
  "hash_ar_table hash = (if RHASH_TABLE_NULL_P hash then ar_alloc_table hash else hash)"

section \<open>Search\<close>

definition ar_equal :: "st_hash_type \<Rightarrow> VALUE \<Rightarrow> VALUE \<Rightarrow> bool" where
  "ar_equal objhash x y \<longleftrightarrow> type_compare objhash x y = 0"

function ar_find_entry_hint_from :: "st_hash_type \<Rightarrow> RHash \<Rightarrow> ar_hint_t \<Rightarrow> st_data_t \<Rightarrow> nat \<Rightarrow> nat" where
  "ar_find_entry_hint_from objhash hash hint key i =
    (if i < ar_table_bound hash then
       (if ar_hint hash i = hint \<and> ar_equal objhash key (fst (RHASH_AR_TABLE_REF hash i)) then i
        else ar_find_entry_hint_from objhash hash hint key (Suc i))
     else RHASH_AR_TABLE_MAX_BOUND)"
  by pat_completeness auto
termination
  by (relation "measure (\<lambda>(_, hash, _, _, i). ar_table_bound hash - i)") auto

definition ar_find_entry_hint :: "st_hash_type \<Rightarrow> RHash \<Rightarrow> ar_hint_t \<Rightarrow> st_data_t \<Rightarrow> nat" where
  "ar_find_entry_hint objhash hash hint key = ar_find_entry_hint_from objhash hash hint key 0"

definition ar_find_entry :: "st_hash_type \<Rightarrow> RHash \<Rightarrow> st_hash_t \<Rightarrow> st_data_t \<Rightarrow> nat" where
  "ar_find_entry objhash hash hash_value key = ar_find_entry_hint objhash hash (ar_do_hash_hint hash_value) key"

section \<open>Conversion to a table of st.c\<close>

definition ar_free_and_clear_table :: "RHash \<Rightarrow> RHash" where
  "ar_free_and_clear_table hash =
    (if RHASH_AR_TABLE hash \<noteq> None then RHASH_AR_TABLE_CLEAR hash else hash)"

text \<open>\<open>st_add_direct\<close> of the entries from \<open>i\<close> on, those cleared left out when \<open>skip\<close>.\<close>

function ar_add_to_st :: "bool \<Rightarrow> RHash \<Rightarrow> nat \<Rightarrow> nat \<Rightarrow> st_table \<Rightarrow> st_table option" where
  "ar_add_to_st skip hash bound i new_tab =
    (if i < bound then
       (if skip \<and> ar_cleared_entry hash i then ar_add_to_st skip hash bound (Suc i) new_tab
        else do {
          new_tab \<leftarrow> st_add_direct new_tab (fst (RHASH_AR_TABLE_REF hash i)) (snd (RHASH_AR_TABLE_REF hash i));
          ar_add_to_st skip hash bound (Suc i) new_tab
        })
     else Some new_tab)"
  by pat_completeness auto
termination
  by (relation "measure (\<lambda>(_, _, bound, i, _). bound - i)") auto

definition ar_try_convert_table :: "st_hash_type \<Rightarrow> RHash \<Rightarrow> RHash option" where
  "ar_try_convert_table objhash hash =
    (if \<not> RHASH_AR_TABLE_P hash then Some hash
     else let size = ar_table_size hash in
       if size < RHASH_AR_TABLE_MAX_SIZE then Some hash
       else do {
         new_tab \<leftarrow> st_init_table_with_size objhash (of_nat (size * 2));
         new_tab \<leftarrow> ar_add_to_st False hash RHASH_AR_TABLE_MAX_BOUND 0 new_tab;
         Some (RHASH_ST_TABLE_SET (ar_free_and_clear_table hash) new_tab)
       })"

definition ar_force_convert_table :: "st_hash_type \<Rightarrow> RHash \<Rightarrow> RHash option" where
  "ar_force_convert_table objhash hash =
    (if \<not> RHASH_AR_TABLE_P hash then Some hash
     else if RHASH_AR_TABLE hash \<noteq> None then do {
       new_tab \<leftarrow> st_init_table_with_size objhash (of_nat (ar_table_size hash));
       new_tab \<leftarrow> ar_add_to_st True hash (ar_table_bound hash) 0 new_tab;
       Some (RHASH_ST_TABLE_SET (ar_free_and_clear_table hash) new_tab)
     }
     else do {
       new_tab \<leftarrow> st_init_table objhash;
       Some (RHASH_ST_TABLE_SET hash new_tab)
     })"

section \<open>Compaction\<close>

text \<open>The inner loop: the next entry from \<open>j\<close> on that is not cleared.\<close>

function ar_next_entry :: "RHash \<Rightarrow> nat \<Rightarrow> nat \<Rightarrow> nat option" where
  "ar_next_entry hash bound j =
    (if j < bound then
       (if \<not> ar_cleared_entry hash j then Some j else ar_next_entry hash bound (Suc j))
     else None)"
  by pat_completeness auto
termination
  by (relation "measure (\<lambda>(_, bound, j). bound - j)") auto

declare ar_next_entry.simps [simp del]

definition ar_move_entry :: "RHash \<Rightarrow> nat \<Rightarrow> nat \<Rightarrow> RHash" where
  "ar_move_entry hash i j =
    ar_clear_entry (ar_hint_set_hint (ar_write_pair hash i (RHASH_AR_TABLE_REF hash j)) i (ar_hint hash j)) j"

function ar_compact_loop :: "RHash \<Rightarrow> nat \<Rightarrow> nat \<Rightarrow> nat \<Rightarrow> RHash" where
  "ar_compact_loop hash bound i j =
    (if i < bound then
       (if ar_cleared_entry hash i then
          (let j = (if j \<le> i then i + 1 else j)
           in case ar_next_entry hash bound j of
                Some j \<Rightarrow> ar_compact_loop (ar_move_entry hash i j) bound (Suc i) (j + 1)
              | None \<Rightarrow> hash)
        else ar_compact_loop hash bound (Suc i) j)
     else hash)"
  by pat_completeness auto
termination
  by (relation "measure (\<lambda>(_, bound, i, _). bound - i)") auto

text \<open>The returned size is the new bound.\<close>

definition ar_compact_table :: "RHash \<Rightarrow> RHash" where
  "ar_compact_table hash =
    (let bound = ar_table_bound hash; size = ar_table_size hash
     in if size = bound then hash
        else RHASH_AR_TABLE_BOUND_SET (ar_compact_loop hash bound 0 0) size)"

section \<open>The operations\<close>

text \<open>1 when the table is full.\<close>

definition ar_add_direct_with_hash :: "RHash \<Rightarrow> st_data_t \<Rightarrow> st_data_t \<Rightarrow> st_hash_t \<Rightarrow> RHash \<times> int" where
  "ar_add_direct_with_hash hash key val hash_value =
    (let bin = ar_table_bound hash in
     if ar_table_size hash \<ge> RHASH_AR_TABLE_MAX_SIZE then (hash, 1)
     else
       let (hash, bin) = (if bin \<ge> RHASH_AR_TABLE_MAX_BOUND
                          then (hash_ar_table (ar_compact_table hash), ar_table_size hash)
                          else (hash, bin));
           hash = ar_set_entry hash bin key val hash_value;
           hash = RHASH_AR_TABLE_BOUND_SET hash (bin + 1)
       in (RHASH_AR_TABLE_SIZE_INC hash, 0))"

text \<open>\<open>-1\<close> tells the caller to convert the table.\<close>

definition ar_update :: "st_hash_type \<Rightarrow> RHash \<Rightarrow> st_data_t \<Rightarrow> st_update_callback_func \<Rightarrow> RHash \<times> int" where
  "ar_update objhash hash key func =
    (let hash_value = ar_do_hash objhash key;
         (hash, bin) = (if ar_table_size hash > 0 then (hash, ar_find_entry objhash hash hash_value key)
                        else (hash_ar_table hash, RHASH_AR_TABLE_MAX_BOUND));
         existing = (bin \<noteq> RHASH_AR_TABLE_MAX_BOUND);
         (key, value) = (if existing then RHASH_AR_TABLE_REF hash bin else (key, 0));
         (retval, key, value) = func key value existing;
         result = (if existing then 1 else 0)
     in case retval of
          ST_CONTINUE \<Rightarrow>
            if \<not> existing then
              (let (hash, full) = ar_add_direct_with_hash hash key value hash_value
               in if full \<noteq> 0 then (hash, -1) else (hash, result))
            else (ar_write_pair hash bin (key, value), result)
        | ST_DELETE \<Rightarrow>
            if existing then (RHASH_AR_TABLE_SIZE_DEC (ar_clear_entry hash bin), result)
            else (hash, result)
        | _ \<Rightarrow> (hash, result))"

definition ar_insert :: "st_hash_type \<Rightarrow> RHash \<Rightarrow> st_data_t \<Rightarrow> st_data_t \<Rightarrow> RHash \<times> int" where
  "ar_insert objhash hash key value =
    (let hash_value = ar_do_hash objhash key;
         hash = hash_ar_table hash;
         bin = ar_find_entry objhash hash hash_value key
     in if bin = RHASH_AR_TABLE_MAX_BOUND then
          (if ar_table_size hash \<ge> RHASH_AR_TABLE_MAX_SIZE then (hash, -1)
           else
             let (hash, bin) = (if bin \<ge> RHASH_AR_TABLE_MAX_BOUND
                                then (hash_ar_table (ar_compact_table hash), ar_table_size hash)
                                else (hash, bin));
                 hash = ar_set_entry hash bin key value hash_value;
                 hash = RHASH_AR_TABLE_BOUND_SET hash (bin + 1)
             in (RHASH_AR_TABLE_SIZE_INC hash, 0))
        else (ar_write_pair hash bin (fst (RHASH_AR_TABLE_REF hash bin), value), 1))"

definition ar_lookup :: "st_hash_type \<Rightarrow> RHash \<Rightarrow> st_data_t \<Rightarrow> st_data_t option" where
  "ar_lookup objhash hash key =
    (if ar_table_size hash = 0 then None
     else
       let hash_value = ar_do_hash objhash key;
           bin = ar_find_entry objhash hash hash_value key
       in if bin = RHASH_AR_TABLE_MAX_BOUND then None
          else Some (snd (RHASH_AR_TABLE_REF hash bin)))"

text \<open>The result is the table, the return value and the final \<open>*value\<close>.\<close>

definition ar_delete :: "st_hash_type \<Rightarrow> RHash \<Rightarrow> st_data_t \<Rightarrow> RHash \<times> int \<times> st_data_t" where
  "ar_delete objhash hash key =
    (let hash_value = ar_do_hash objhash key;
         bin = ar_find_entry objhash hash hash_value key
     in if bin = RHASH_AR_TABLE_MAX_BOUND then (hash, 0, 0)
        else
          let value = snd (RHASH_AR_TABLE_REF hash bin)
          in (RHASH_AR_TABLE_SIZE_DEC (ar_clear_entry hash bin), 1, value))"

definition ar_shift :: "RHash \<Rightarrow> RHash \<times> int \<times> st_data_t option \<times> st_data_t" where
  "ar_shift hash =
    (case (if ar_table_size hash > 0 then ar_next_entry hash (ar_table_bound hash) 0 else None) of
       Some i \<Rightarrow>
         (let (key, val) = RHASH_AR_TABLE_REF hash i
          in (RHASH_AR_TABLE_SIZE_DEC (ar_clear_entry hash i), 1, Some key, val))
     | None \<Rightarrow> (hash, 0, None, 0))"

function ar_collect :: "(ar_table_pair \<Rightarrow> st_data_t) \<Rightarrow> RHash \<Rightarrow> nat \<Rightarrow> nat \<Rightarrow> st_data_t list" where
  "ar_collect field hash siz i =
    (if i < ar_table_bound hash \<and> siz \<noteq> 0 then
       (if \<not> ar_cleared_entry hash i
        then field (RHASH_AR_TABLE_REF hash i) # ar_collect field hash (siz - 1) (Suc i)
        else ar_collect field hash siz (Suc i))
     else [])"
  by pat_completeness auto
termination
  by (relation "measure (\<lambda>(_, hash, _, i). ar_table_bound hash - i)") auto

definition ar_keys :: "RHash \<Rightarrow> nat \<Rightarrow> st_data_t list" where
  "ar_keys hash siz = ar_collect fst hash siz 0"

definition ar_values :: "RHash \<Rightarrow> nat \<Rightarrow> st_data_t list" where
  "ar_values hash siz = ar_collect snd hash siz 0"

definition ar_copy :: "RHash \<Rightarrow> RHash \<Rightarrow> RHash" where
  "ar_copy hash1 hash2 =
    (case RHASH_AR_TABLE hash2 of
       Some old_tab \<Rightarrow> hash1\<lparr>as_table := As_ar (Some old_tab), ar_hint_ary := ar_hint_ary hash2,
                            ar_table_bound := ar_table_bound hash2, ar_table_size := ar_table_size hash2\<rparr>
     | None \<Rightarrow> hash1\<lparr>ar_table_bound := ar_table_bound hash2, ar_table_size := ar_table_size hash2,
                     as_table := As_ar None\<rparr>)"

definition ar_clear :: "RHash \<Rightarrow> RHash" where
  "ar_clear hash =
    (if RHASH_AR_TABLE hash \<noteq> None then hash\<lparr>ar_table_size := 0, ar_table_bound := 0\<rparr> else hash)"

declare ar_find_entry_hint_from.simps [simp del] ar_add_to_st.simps [simp del]
  ar_compact_loop.simps [simp del] ar_collect.simps [simp del]

end
