(* ===== verification/Ar_Ops.thy ===== *)
theory Ar_Ops
  imports Ar_Table
begin

text \<open>
  The invariant of the array table and the refinement of its operations to operations on the
  association list.  An entry is seen as a cell, its hint and its pair; every write to the arrays
  is described by what it does to the cells.
\<close>

section \<open>Cells\<close>

definition ar_shape :: "RHash \<Rightarrow> bool" where
  "ar_shape hash \<longleftrightarrow> (\<exists>pairs. as_table hash = As_ar (Some pairs) \<and> length pairs = RHASH_AR_TABLE_MAX_SIZE) \<and>
     length (ar_hint_ary hash) = RHASH_AR_TABLE_MAX_SIZE"

type_synonym ar_cell_t = "ar_hint_t \<times> ar_table_pair"

definition ar_cell :: "RHash \<Rightarrow> nat \<Rightarrow> ar_cell_t" where
  "ar_cell hash i = (ar_hint hash i, RHASH_AR_TABLE_REF hash i)"

definition ar_cells :: "RHash \<Rightarrow> ar_cell_t list" where
  "ar_cells hash = map (ar_cell hash) [0..<ar_table_bound hash]"

definition used_cell :: "ar_cell_t \<Rightarrow> bool" where
  "used_cell c \<longleftrightarrow> \<not> (fst c = RHASH_AR_CLEARED_HINT \<and> fst (snd c) = Qundef)"

definition ar_alist :: "RHash \<Rightarrow> (VALUE \<times> VALUE) list" where
  "ar_alist hash = map snd (filter used_cell (ar_cells hash))"

lemma ar_cleared_entry_cell: "ar_cleared_entry hash i \<longleftrightarrow> \<not> used_cell (ar_cell hash i)"
  by (simp add: ar_cleared_entry_def used_cell_def ar_cell_def)

lemma ar_cell_sel: "ar_hint hash i = fst (ar_cell hash i)" "RHASH_AR_TABLE_REF hash i = snd (ar_cell hash i)"
  by (simp_all add: ar_cell_def)

lemma length_ar_cells [simp]: "length (ar_cells hash) = ar_table_bound hash"
  by (simp add: ar_cells_def)

lemma nth_ar_cells: "i < ar_table_bound hash \<Longrightarrow> ar_cells hash ! i = ar_cell hash i"
  by (simp add: ar_cells_def)

text \<open>The two writes, of a pair and of a hint.\<close>

lemma write_pair_facts:
  assumes "ar_shape hash"
  shows "ar_shape (ar_write_pair hash i p)" "ar_table_bound (ar_write_pair hash i p) = ar_table_bound hash"
    "ar_table_size (ar_write_pair hash i p) = ar_table_size hash"
    "i < 8 \<Longrightarrow> ar_cell (ar_write_pair hash i p) j = (if j = i then (fst (ar_cell hash i), p) else ar_cell hash j)"
  using assms
  by (auto simp: ar_shape_def ar_write_pair_def ar_cell_def RHASH_AR_TABLE_REF_def RHASH_AR_TABLE_def ar_hint_def
      RHASH_AR_TABLE_MAX_SIZE_def)

lemma set_hint_facts:
  assumes "ar_shape hash"
  shows "ar_shape (ar_hint_set_hint hash i h)" "ar_table_bound (ar_hint_set_hint hash i h) = ar_table_bound hash"
    "ar_table_size (ar_hint_set_hint hash i h) = ar_table_size hash"
    "i < 8 \<Longrightarrow> ar_cell (ar_hint_set_hint hash i h) j = (if j = i then (h, snd (ar_cell hash i)) else ar_cell hash j)"
  using assms
  by (auto simp: ar_shape_def ar_hint_set_hint_def ar_cell_def RHASH_AR_TABLE_REF_def RHASH_AR_TABLE_def ar_hint_def
      RHASH_AR_TABLE_MAX_SIZE_def)

lemma clear_entry_facts:
  assumes "ar_shape hash"
  shows "ar_shape (ar_clear_entry hash i)" "ar_table_bound (ar_clear_entry hash i) = ar_table_bound hash"
    "ar_table_size (ar_clear_entry hash i) = ar_table_size hash"
    "i < 8 \<Longrightarrow> ar_cell (ar_clear_entry hash i) j =
       (if j = i then (RHASH_AR_CLEARED_HINT, Qundef, snd (snd (ar_cell hash i))) else ar_cell hash j)"
  using write_pair_facts [OF assms] set_hint_facts [OF write_pair_facts(1) [OF assms]]
  by (auto simp: ar_clear_entry_def ar_cell_sel)

lemma set_entry_facts:
  assumes "ar_shape hash"
  shows "ar_shape (ar_set_entry hash i k v h)" "ar_table_bound (ar_set_entry hash i k v h) = ar_table_bound hash"
    "ar_table_size (ar_set_entry hash i k v h) = ar_table_size hash"
    "i < 8 \<Longrightarrow> ar_cell (ar_set_entry hash i k v h) j = (if j = i then (ar_do_hash_hint h, k, v) else ar_cell hash j)"
  using write_pair_facts [OF assms] set_hint_facts [OF write_pair_facts(1) [OF assms]]
  by (auto simp: ar_set_entry_def ar_hint_set_def)

lemma move_entry_facts:
  assumes "ar_shape hash"
  shows "ar_shape (ar_move_entry hash i j)" "ar_table_bound (ar_move_entry hash i j) = ar_table_bound hash"
    "ar_table_size (ar_move_entry hash i j) = ar_table_size hash"
    "i < 8 \<Longrightarrow> j < 8 \<Longrightarrow> i \<noteq> j \<Longrightarrow> ar_cell (ar_move_entry hash i j) k =
       (if k = j then (RHASH_AR_CLEARED_HINT, Qundef, snd (snd (ar_cell hash j)))
        else if k = i then ar_cell hash j else ar_cell hash k)"
proof -
  note w = write_pair_facts [OF assms, of i "RHASH_AR_TABLE_REF hash j"]
  note s = set_hint_facts [OF w(1), of i "ar_hint hash j"]
  note c = clear_entry_facts [OF s(1), of j]
  show "ar_shape (ar_move_entry hash i j)" "ar_table_bound (ar_move_entry hash i j) = ar_table_bound hash"
    "ar_table_size (ar_move_entry hash i j) = ar_table_size hash"
    using w s c by (simp_all add: ar_move_entry_def)
  show "i < 8 \<Longrightarrow> j < 8 \<Longrightarrow> i \<noteq> j \<Longrightarrow> ar_cell (ar_move_entry hash i j) k =
       (if k = j then (RHASH_AR_CLEARED_HINT, Qundef, snd (snd (ar_cell hash j)))
        else if k = i then ar_cell hash j else ar_cell hash k)"
    using w(4) s(4) c(4) by (simp add: ar_move_entry_def ar_cell_sel)
qed

text \<open>The same writes on the list of the cells.\<close>

lemma ar_cells_eqI:
  assumes "length cs = ar_table_bound hash" "\<And>j. j < ar_table_bound hash \<Longrightarrow> ar_cell hash j = cs ! j"
  shows "ar_cells hash = cs"
  using assms by (intro nth_equalityI) (simp_all add: nth_ar_cells)

lemma unused_cleared [simp]: "\<not> used_cell (RHASH_AR_CLEARED_HINT, Qundef, v)"
  by (simp add: used_cell_def)

lemma filter_used_update:
  assumes "i < length cs"
  shows "filter P (cs[i := c]) = filter P (take i cs) @ (if P c then [c] else []) @ filter P (drop (Suc i) cs)"
  using assms by (simp add: upd_conv_take_nth_drop)

lemma filter_used_split:
  assumes "i < length cs"
  shows "filter P cs = filter P (take i cs) @ (if P (cs ! i) then [cs ! i] else []) @ filter P (drop (Suc i) cs)"
  using filter_used_update [OF assms, of P "cs ! i"] by simp

section \<open>The invariant\<close>

text \<open>What hash.c relies on of \<open>rb_any_cmp\<close> and \<open>rb_any_hash\<close>; \<open>Qundef\<close> equals no key.\<close>

definition objhash_ok :: "st_hash_type \<Rightarrow> bool" where
  "objhash_ok ty \<longleftrightarrow> st_type_ok ty \<and> (\<forall>x. type_compare ty x x = 0) \<and>
     (\<forall>x y. type_compare ty x y = 0 \<longrightarrow> type_hash ty x = type_hash ty y) \<and>
     (\<forall>k. type_compare ty k Qundef = 0 \<longrightarrow> k = Qundef)"

lemma ar_equal_type_equal: "objhash_ok ty \<Longrightarrow> ar_equal ty = type_equal ty"
  by (intro ext) (auto simp: objhash_ok_def ar_equal_def type_equal_def)

lemma ar_equal_equivp: "objhash_ok ty \<Longrightarrow> equivp (ar_equal ty)"
  by (simp add: ar_equal_type_equal) (simp add: objhash_ok_def st_type_ok_def)

definition cell_ok :: "st_hash_type \<Rightarrow> ar_cell_t \<Rightarrow> bool" where
  "cell_ok ty c \<longleftrightarrow> fst (snd c) \<noteq> Qundef \<and> fst c = ar_do_hash_hint (ar_do_hash ty (fst (snd c)))"

definition ar_inv :: "st_hash_type \<Rightarrow> RHash \<Rightarrow> bool" where
  "ar_inv ty hash \<longleftrightarrow> objhash_ok ty \<and> length (ar_hint_ary hash) = RHASH_AR_TABLE_MAX_SIZE \<and>
     ar_table_bound hash \<le> RHASH_AR_TABLE_MAX_BOUND \<and>
     (if as_table hash = As_ar None then ar_table_bound hash = 0 else ar_shape hash) \<and>
     ar_table_size hash = length (ar_alist hash) \<and>
     (\<forall>c \<in> set (ar_cells hash). used_cell c \<longrightarrow> cell_ok ty c) \<and>
     al_distinct (ar_equal ty) (ar_alist hash)"

lemma ar_inv_bound: "ar_inv ty hash \<Longrightarrow> ar_table_bound hash \<le> 8"
  by (simp add: ar_inv_def RHASH_AR_TABLE_MAX_BOUND_def RHASH_AR_TABLE_MAX_SIZE_def)

lemma ar_inv_shape: "ar_inv ty hash \<Longrightarrow> 0 < ar_table_bound hash \<Longrightarrow> ar_shape hash"
  by (simp add: ar_inv_def split: if_splits)

lemma ar_inv_size: "ar_inv ty hash \<Longrightarrow> ar_table_size hash = length (ar_alist hash)"
  by (simp add: ar_inv_def)

lemma ar_alist_length: "length (ar_alist hash) \<le> ar_table_bound hash"
  using length_filter_le [of used_cell "ar_cells hash"] by (simp add: ar_alist_def)

lemma ar_inv_cell:
  assumes "ar_inv ty hash" "i < ar_table_bound hash" "used_cell (ar_cell hash i)"
  shows "cell_ok ty (ar_cell hash i)"
  using assms nth_mem [of i "ar_cells hash"] by (auto simp: ar_inv_def nth_ar_cells)


section \<open>Search\<close>

lemma ar_find_entry_hint_from_eq:
  "ar_find_entry_hint_from ty hash hint key i =
    (case find (\<lambda>i. ar_hint hash i = hint \<and> ar_equal ty key (fst (RHASH_AR_TABLE_REF hash i))) [i..<ar_table_bound hash] of
       None \<Rightarrow> RHASH_AR_TABLE_MAX_BOUND | Some i \<Rightarrow> i)"
proof (induction ty hash hint key i rule: ar_find_entry_hint_from.induct)
  case (1 ty hash hint key i)
  then show ?case
    by (cases "i < ar_table_bound hash") (simp_all add: ar_find_entry_hint_from.simps [of ty hash hint key i] upt_conv_Cons)
qed

text \<open>A hint match with an equal key is a used cell with an equal key, and conversely.\<close>

lemma ar_match:
  assumes inv: "ar_inv ty hash" and i: "i < ar_table_bound hash" and k: "k \<noteq> Qundef"
  shows "ar_hint hash i = ar_do_hash_hint (ar_do_hash ty k) \<and> ar_equal ty k (fst (RHASH_AR_TABLE_REF hash i)) \<longleftrightarrow>
    used_cell (ar_cell hash i) \<and> ar_equal ty k (fst (snd (ar_cell hash i)))"
proof -
  have ok: "objhash_ok ty" using inv by (simp add: ar_inv_def)
  have "ar_equal ty k x \<Longrightarrow> x \<noteq> Qundef" for x using ok k by (auto simp: objhash_ok_def ar_equal_def)
  moreover have "ar_equal ty k x \<Longrightarrow> ar_do_hash ty k = ar_do_hash ty x" for x
    using ok by (auto simp: objhash_ok_def ar_equal_def ar_do_hash_def)
  ultimately show ?thesis
    using ar_inv_cell [OF inv i] by (auto simp: ar_cell_sel used_cell_def cell_ok_def)
qed

lemma ar_find_entry_spec:
  assumes inv: "ar_inv ty hash" and k: "k \<noteq> Qundef"
  shows "ar_find_entry ty hash (ar_do_hash ty k) k < ar_table_bound hash \<and>
      used_cell (ar_cell hash (ar_find_entry ty hash (ar_do_hash ty k) k)) \<and>
      ar_equal ty k (fst (snd (ar_cell hash (ar_find_entry ty hash (ar_do_hash ty k) k)))) \<or>
    ar_find_entry ty hash (ar_do_hash ty k) k = RHASH_AR_TABLE_MAX_BOUND \<and> al_find (ar_equal ty) k (ar_alist hash) = None"
proof (cases "find (\<lambda>i. ar_hint hash i = ar_do_hash_hint (ar_do_hash ty k) \<and>
      ar_equal ty k (fst (RHASH_AR_TABLE_REF hash i))) [0..<ar_table_bound hash]")
  case None
  then have "\<not> (used_cell (ar_cell hash i) \<and> ar_equal ty k (fst (snd (ar_cell hash i))))"
    if "i < ar_table_bound hash" for i
    using ar_match [OF inv that k] that by (auto simp: find_None_iff)
  then have "al_find (ar_equal ty) k (ar_alist hash) = None"
    unfolding al_find_None_iff ar_alist_def ar_cells_def set_map set_filter set_upt by fastforce
  with None show ?thesis
    by (simp add: ar_find_entry_def ar_find_entry_hint_def ar_find_entry_hint_from_eq)
next
  case (Some i)
  then have "i < ar_table_bound hash" "ar_hint hash i = ar_do_hash_hint (ar_do_hash ty k)"
    "ar_equal ty k (fst (RHASH_AR_TABLE_REF hash i))" by (auto simp: find_Some_iff)
  with ar_match [OF inv _ k] Some show ?thesis
    by (auto simp: ar_find_entry_def ar_find_entry_hint_def ar_find_entry_hint_from_eq)
qed

text \<open>The list around a used cell.\<close>

definition ar_before :: "RHash \<Rightarrow> nat \<Rightarrow> (VALUE \<times> VALUE) list" where
  "ar_before hash i = map snd (filter used_cell (take i (ar_cells hash)))"

definition ar_after :: "RHash \<Rightarrow> nat \<Rightarrow> (VALUE \<times> VALUE) list" where
  "ar_after hash i = map snd (filter used_cell (drop (Suc i) (ar_cells hash)))"

lemma ar_alist_split:
  assumes "i < ar_table_bound hash" "used_cell (ar_cell hash i)"
  shows "ar_alist hash = ar_before hash i @ snd (ar_cell hash i) # ar_after hash i"
  using filter_used_split [of i "ar_cells hash" used_cell] assms
  by (simp add: ar_alist_def ar_before_def ar_after_def nth_ar_cells)

lemma ar_alist_update:
  assumes "i < ar_table_bound hash" "ar_cells hash' = (ar_cells hash)[i := c]"
  shows "ar_alist hash' = ar_before hash i @ (if used_cell c then [snd c] else []) @ ar_after hash i"
  using filter_used_update [of i "ar_cells hash" used_cell c] assms
  by (simp add: ar_alist_def ar_before_def ar_after_def)

lemma ar_at:
  assumes inv: "ar_inv ty hash" and i: "i < ar_table_bound hash" "used_cell (ar_cell hash i)"
    and k: "ar_equal ty k (fst (snd (ar_cell hash i)))"
  shows "al_absent (ar_equal ty) k (ar_before hash i)" "al_absent (ar_equal ty) k (ar_after hash i)"
    "al_find (ar_equal ty) k (ar_alist hash) = Some (snd (ar_cell hash i))"
    "al_put (ar_equal ty) k v (ar_alist hash) = ar_before hash i @ (fst (snd (ar_cell hash i)), v) # ar_after hash i"
    "al_del (ar_equal ty) k (ar_alist hash) = ar_before hash i @ ar_after hash i"
proof -
  have eqv: "equivp (ar_equal ty)" using inv ar_equal_equivp by (simp add: ar_inv_def)
  have d: "al_distinct (ar_equal ty) (ar_before hash i @ snd (ar_cell hash i) # ar_after hash i)"
    using inv ar_alist_split [OF i] by (simp add: ar_inv_def)
  show b: "al_absent (ar_equal ty) k (ar_before hash i)" and "al_absent (ar_equal ty) k (ar_after hash i)"
    using al_distinct_around [OF eqv d k] by blast+
  show "al_find (ar_equal ty) k (ar_alist hash) = Some (snd (ar_cell hash i))"
    "al_put (ar_equal ty) k v (ar_alist hash) = ar_before hash i @ (fst (snd (ar_cell hash i)), v) # ar_after hash i"
    "al_del (ar_equal ty) k (ar_alist hash) = ar_before hash i @ ar_after hash i"
    unfolding ar_alist_split [OF i] using k
    by (simp_all add: al_find_split [where eq = "ar_equal ty" and k = k, OF b]
        al_put_split [where eq = "ar_equal ty" and k = k, OF b] al_del_split [where eq = "ar_equal ty" and k = k, OF b])
qed


section \<open>Compaction\<close>

lemma filter_take_unused:
  assumes "i \<le> j" "j \<le> length cs" "\<forall>k. i \<le> k \<longrightarrow> k < j \<longrightarrow> \<not> P (cs ! k)"
  shows "filter P (take j cs) = filter P (take i cs)"
  using assms
proof (induction j)
  case (Suc j)
  show ?case
  proof (cases "i = Suc j")
    case False
    with Suc show ?thesis by (simp add: take_Suc_conv_app_nth)
  qed simp
qed simp

lemma filter_move:
  assumes ij: "i < j" "j < length cs" and unused: "\<forall>k. i \<le> k \<longrightarrow> k < j \<longrightarrow> \<not> P (cs ! k)"
    and c: "P (cs ! j)" and d: "\<not> P d"
  shows "filter P (cs[i := cs ! j, j := d]) = filter P cs"
proof -
  let ?cs = "cs[i := cs ! j]"
  have "filter P (?cs[j := d]) = filter P (take j ?cs) @ filter P (drop (Suc j) ?cs)"
    using filter_used_update [of j ?cs P d] ij d by simp
  also have "filter P (take j ?cs) = filter P (take (Suc i) ?cs)"
    using ij unused by (intro filter_take_unused) auto
  also have "\<dots> = filter P (take i cs) @ [cs ! j]"
    using ij c by (simp add: take_Suc_conv_app_nth)
  also have "drop (Suc j) ?cs = drop (Suc j) cs" using ij by simp
  also have "filter P (take i cs) = filter P (take j cs)"
    using filter_take_unused [of i j cs P] ij unused by simp
  finally show ?thesis using filter_used_split [of j cs P] ij c by simp
qed

lemma ar_next_entry_spec:
  "case ar_next_entry hash bound j of
     Some n \<Rightarrow> j \<le> n \<and> n < bound \<and> used_cell (ar_cell hash n) \<and> (\<forall>k. j \<le> k \<longrightarrow> k < n \<longrightarrow> \<not> used_cell (ar_cell hash k))
   | None \<Rightarrow> \<forall>k. j \<le> k \<longrightarrow> k < bound \<longrightarrow> \<not> used_cell (ar_cell hash k)"
proof (induction hash bound j rule: ar_next_entry.induct)
  case (1 hash bound j)
  show ?case
  proof (cases "j < bound \<and> \<not> used_cell (ar_cell hash j)")
    case True
    then have step: "ar_next_entry hash bound j = ar_next_entry hash bound (Suc j)"
      by (simp add: ar_next_entry.simps [of hash bound j] ar_cleared_entry_cell)
    have "\<not> used_cell (ar_cell hash k)" if "j \<le> k" "Suc j \<le> k \<Longrightarrow> \<not> used_cell (ar_cell hash k)" for k
      using that True by (cases "k = j") auto
    with 1 True show ?thesis
      unfolding step by (fastforce simp: ar_cleared_entry_cell split: option.splits)
  next
    case False
    then show ?thesis by (auto simp: ar_next_entry.simps [of hash bound j] ar_cleared_entry_cell)
  qed
qed

lemma ar_compact_loop_spec:
  assumes "ar_shape hash" "bound = ar_table_bound hash" "bound \<le> 8"
    and "\<forall>k < i. used_cell (ar_cell hash k)" "\<forall>k. i \<le> k \<longrightarrow> k < j \<longrightarrow> \<not> used_cell (ar_cell hash k)" "i \<le> bound"
  shows "let h = ar_compact_loop hash bound i j in ar_shape h \<and> ar_table_bound h = bound \<and>
    ar_table_size h = ar_table_size hash \<and> filter used_cell (ar_cells h) = filter used_cell (ar_cells hash) \<and>
    (\<exists>n \<le> bound. (\<forall>k < n. used_cell (ar_cell h k)) \<and> (\<forall>k. n \<le> k \<longrightarrow> k < bound \<longrightarrow> \<not> used_cell (ar_cell h k)))"
  using assms
proof (induction "bound - i" arbitrary: hash i j)
  case 0
  then have "i = bound" by simp
  then have stop: "ar_compact_loop hash bound i j = hash" by (simp add: ar_compact_loop.simps [of hash bound bound j])
  show ?case
    unfolding stop Let_def using 0 \<open>i = bound\<close> by (intro conjI exI [of _ bound]) simp_all
next
  case (Suc n)
  then have i: "i < bound" by simp
  show ?case
  proof (cases "used_cell (ar_cell hash i)")
    case True
    then have "ar_compact_loop hash bound i j = ar_compact_loop hash bound (Suc i) j"
      using i by (simp add: ar_compact_loop.simps [of hash bound i j] ar_cleared_entry_cell)
    moreover have "\<forall>k < Suc i. used_cell (ar_cell hash k)" using Suc.prems(4) True by (simp add: less_Suc_eq)
    ultimately show ?thesis using Suc i by (auto intro!: Suc.hyps(1) simp del: Let_def)
  next
    case clear: False
    let ?j = "if j \<le> i then i + 1 else j"
    have before: "\<forall>k. i \<le> k \<longrightarrow> k < ?j \<longrightarrow> \<not> used_cell (ar_cell hash k)"
      using Suc.prems(5) clear by (auto simp: less_Suc_eq le_less)
    show ?thesis
    proof (cases "ar_next_entry hash bound ?j")
      case None
      then have "ar_compact_loop hash bound i j = hash"
        using i clear by (simp add: ar_compact_loop.simps [of hash bound i j] ar_cleared_entry_cell)
      moreover have "\<not> used_cell (ar_cell hash k)" if "i \<le> k" "k < bound" for k
        using that before ar_next_entry_spec [where hash = hash and bound = bound and j = ?j] None by (cases "k < ?j") auto
      ultimately show ?thesis using Suc.prems i by (auto simp: Let_def intro!: exI [of _ i])
    next
      case (Some m)
      then have m: "?j \<le> m" "m < bound" "used_cell (ar_cell hash m)"
        "\<forall>k. ?j \<le> k \<longrightarrow> k < m \<longrightarrow> \<not> used_cell (ar_cell hash k)"
        using ar_next_entry_spec [where hash = hash and bound = bound and j = ?j] by simp_all
      have im: "i < m" using m(1) by (simp split: if_splits)
      have gap: "\<not> used_cell (ar_cell hash k)" if "i \<le> k" "k < m" for k
        using that before m(4) by (cases "k < ?j") auto
      let ?h = "ar_move_entry hash i m"
      note f = move_entry_facts [OF Suc.prems(1), of i m]
      have cell: "ar_cell ?h k = (if k = m then (RHASH_AR_CLEARED_HINT, Qundef, snd (snd (ar_cell hash m)))
          else if k = i then ar_cell hash m else ar_cell hash k)" for k
        using f(4) im m(2) i Suc.prems(3) by simp
      have cells: "ar_cells ?h = (ar_cells hash)[i := ar_cells hash ! m,
          m := (RHASH_AR_CLEARED_HINT, Qundef, snd (snd (ar_cell hash m)))]"
        using im m(2) i Suc.prems(2)
        by (intro ar_cells_eqI) (auto simp: f(2) cell nth_list_update nth_ar_cells)
      have same: "filter used_cell (ar_cells ?h) = filter used_cell (ar_cells hash)"
        unfolding cells using im m(2,3) gap Suc.prems(2) by (intro filter_move) (auto simp: nth_ar_cells)
      have "ar_compact_loop hash bound i j = ar_compact_loop ?h bound (Suc i) (m + 1)"
        using i clear Some by (simp add: ar_compact_loop.simps [of hash bound i j] ar_cleared_entry_cell)
      moreover have "let h = ar_compact_loop ?h bound (Suc i) (m + 1) in ar_shape h \<and> ar_table_bound h = bound \<and>
          ar_table_size h = ar_table_size ?h \<and> filter used_cell (ar_cells h) = filter used_cell (ar_cells ?h) \<and>
          (\<exists>n \<le> bound. (\<forall>k < n. used_cell (ar_cell h k)) \<and> (\<forall>k. n \<le> k \<longrightarrow> k < bound \<longrightarrow> \<not> used_cell (ar_cell h k)))"
        using Suc.hyps(2) Suc.prems i im m(3) gap f(1,2)
        by (intro Suc.hyps(1)) (auto simp: cell less_Suc_eq)
      ultimately show ?thesis using same f(3) by (simp add: Let_def)
    qed
  qed
qed


lemma ar_cells_take:
  assumes "\<forall>k < n. used_cell (ar_cell h k)" "\<forall>k. n \<le> k \<longrightarrow> k < ar_table_bound h \<longrightarrow> \<not> used_cell (ar_cell h k)"
    and "n \<le> ar_table_bound h"
  shows "filter used_cell (ar_cells h) = take n (ar_cells h)"
proof -
  have "filter used_cell (take (ar_table_bound h) (ar_cells h)) = filter used_cell (take n (ar_cells h))"
    using assms by (intro filter_take_unused) (auto simp: nth_ar_cells)
  moreover have "used_cell c" if "c \<in> set (take n (ar_cells h))" for c
    using that assms(1,3) by (auto simp: ar_cells_def take_map)
  then have "filter used_cell (take n (ar_cells h)) = take n (ar_cells h)" unfolding filter_id_conv by blast
  ultimately show ?thesis by simp
qed

lemma ar_compact_table_spec:
  assumes inv: "ar_inv ty hash"
  shows "ar_inv ty (ar_compact_table hash) \<and> ar_alist (ar_compact_table hash) = ar_alist hash \<and>
    ar_table_size (ar_compact_table hash) = ar_table_size hash \<and>
    ar_table_bound (ar_compact_table hash) = ar_table_size hash \<and>
    (ar_shape hash \<longrightarrow> ar_shape (ar_compact_table hash)) \<and>
    (as_table (ar_compact_table hash) = As_ar None \<longleftrightarrow> as_table hash = As_ar None)"
proof (cases "ar_table_size hash = ar_table_bound hash")
  case True
  then show ?thesis using inv by (simp add: ar_compact_table_def)
next
  case False
  let ?h = "ar_compact_loop hash (ar_table_bound hash) 0 0"
  have "0 < ar_table_bound hash"
    using False ar_alist_length [of hash] ar_inv_size [OF inv] by simp
  note shape = ar_inv_shape [OF inv this]
  have "let h = ?h in ar_shape h \<and> ar_table_bound h = ar_table_bound hash \<and>
    ar_table_size h = ar_table_size hash \<and> filter used_cell (ar_cells h) = filter used_cell (ar_cells hash) \<and>
    (\<exists>n \<le> ar_table_bound hash. (\<forall>k < n. used_cell (ar_cell h k)) \<and>
       (\<forall>k. n \<le> k \<longrightarrow> k < ar_table_bound hash \<longrightarrow> \<not> used_cell (ar_cell h k)))"
    using ar_inv_bound [OF inv] by (intro ar_compact_loop_spec [OF shape refl]) simp_all
  then obtain n where h: "ar_shape ?h" "ar_table_bound ?h = ar_table_bound hash" "ar_table_size ?h = ar_table_size hash"
    "filter used_cell (ar_cells ?h) = filter used_cell (ar_cells hash)" "n \<le> ar_table_bound hash"
    "\<forall>k < n. used_cell (ar_cell ?h k)" "\<forall>k. n \<le> k \<longrightarrow> k < ar_table_bound hash \<longrightarrow> \<not> used_cell (ar_cell ?h k)"
    unfolding Let_def by blast
  have tak: "filter used_cell (ar_cells hash) = take n (ar_cells ?h)"
    using ar_cells_take [of n ?h] h by simp
  then have n: "n = ar_table_size hash"
    using ar_inv_size [OF inv] h(2,5) by (simp add: ar_alist_def)
  let ?k = "RHASH_AR_TABLE_BOUND_SET ?h n"
  have "ar_cells ?k = take n (ar_cells ?h)"
    using h(2,5) by (intro ar_cells_eqI)
      (simp_all add: RHASH_AR_TABLE_BOUND_SET_def nth_ar_cells ar_cell_def ar_hint_def RHASH_AR_TABLE_REF_def RHASH_AR_TABLE_def)
  then have cells: "ar_cells ?k = filter used_cell (ar_cells hash)" using tak by simp
  then have al: "ar_alist ?k = ar_alist hash" by (simp add: ar_alist_def)
  have sh: "ar_shape ?k" using h(1) by (simp add: RHASH_AR_TABLE_BOUND_SET_def ar_shape_def)
  have "ar_inv ty ?k"
    using inv sh al h(3,5) cells unfolding ar_inv_def
    by (auto simp: RHASH_AR_TABLE_BOUND_SET_def ar_shape_def)
  moreover have "ar_compact_table hash = ?k" using False n by (simp add: ar_compact_table_def Let_def)
  moreover have "as_table hash \<noteq> As_ar None" "as_table ?k \<noteq> As_ar None" using shape sh by (auto simp: ar_shape_def)
  ultimately show ?thesis using al sh n h(3) by (simp add: RHASH_AR_TABLE_BOUND_SET_def)
qed


section \<open>Insertion and update\<close>

lemma ar_invI:
  assumes "objhash_ok ty" "ar_shape h" "ar_table_bound h \<le> 8" "ar_table_size h = length (ar_alist h)"
    and "\<And>i. i < ar_table_bound h \<Longrightarrow> used_cell (ar_cell h i) \<Longrightarrow> cell_ok ty (ar_cell h i)"
    and "al_distinct (ar_equal ty) (ar_alist h)"
  shows "ar_inv ty h"
proof -
  have "\<forall>c \<in> set (ar_cells h). used_cell c \<longrightarrow> cell_ok ty c"
    unfolding ar_cells_def set_map set_upt using assms(5) by auto
  moreover have "as_table h \<noteq> As_ar None" using assms(2) by (auto simp: ar_shape_def)
  ultimately show ?thesis
    using assms by (simp add: ar_inv_def ar_shape_def RHASH_AR_TABLE_MAX_BOUND_def RHASH_AR_TABLE_MAX_SIZE_def)
qed

lemma hash_ar_table_inv:
  assumes "ar_inv ty hash"
  shows "ar_inv ty (hash_ar_table hash) \<and> ar_shape (hash_ar_table hash) \<and>
    ar_alist (hash_ar_table hash) = ar_alist hash \<and> ar_table_size (hash_ar_table hash) = ar_table_size hash \<and>
    ar_table_bound (hash_ar_table hash) = ar_table_bound hash"
proof (cases "as_table hash = As_ar None")
  case True
  then have b: "ar_table_bound hash = 0" and l: "length (ar_hint_ary hash) = 8" and ok: "objhash_ok ty"
    using assms by (simp_all add: ar_inv_def RHASH_AR_TABLE_MAX_SIZE_def)
  then have "ar_table_size hash = 0" using ar_inv_size [OF assms] ar_alist_length [of hash] by simp
  then show ?thesis
    using True b l ok
    by (simp add: hash_ar_table_def RHASH_TABLE_NULL_P_def ar_alloc_table_def ar_inv_def ar_shape_def
        RHASH_AR_TABLE_MAX_SIZE_def ar_alist_def ar_cells_def)
next
  case False
  then show ?thesis
    using assms by (simp add: hash_ar_table_def RHASH_TABLE_NULL_P_def ar_inv_def)
qed

text \<open>The tail of \<open>ar_insert\<close> and \<open>ar_add_direct_with_hash\<close>: a new entry behind the last one.\<close>

lemma ar_append_inv:
  assumes inv: "ar_inv ty hash" and shape: "ar_shape hash" and room: "ar_table_bound hash < 8"
    and k: "k \<noteq> Qundef" "al_find (ar_equal ty) k (ar_alist hash) = None"
    and h: "ar_do_hash_hint h = ar_do_hash_hint (ar_do_hash ty k)"
  shows "let h' = RHASH_AR_TABLE_SIZE_INC (RHASH_AR_TABLE_BOUND_SET
       (ar_set_entry hash (ar_table_bound hash) k v h) (ar_table_bound hash + 1))
    in ar_inv ty h' \<and> ar_alist h' = ar_alist hash @ [(k, v)]"
proof -
  let ?n = "ar_table_bound hash"
  let ?s = "ar_set_entry hash ?n k v h"
  let ?h = "RHASH_AR_TABLE_SIZE_INC (RHASH_AR_TABLE_BOUND_SET ?s (Suc ?n))"
  note f = set_entry_facts [OF shape, of ?n k v h]
  have cell: "ar_cell ?h j = (if j = ?n then (ar_do_hash_hint h, k, v) else ar_cell hash j)" for j
  proof -
    have "ar_cell ?h j = ar_cell ?s j"
      by (simp add: RHASH_AR_TABLE_SIZE_INC_def RHASH_AR_TABLE_SIZE_SET_def RHASH_AR_TABLE_BOUND_SET_def ar_cell_def
          ar_hint_def RHASH_AR_TABLE_REF_def RHASH_AR_TABLE_def)
    then show ?thesis using f(4) room by simp
  qed
  have bound: "ar_table_bound ?h = Suc ?n" and size: "ar_table_size ?h = Suc (ar_table_size hash)"
    using f(3) by (simp_all add: RHASH_AR_TABLE_SIZE_INC_def RHASH_AR_TABLE_SIZE_SET_def RHASH_AR_TABLE_BOUND_SET_def)
  have "ar_cells ?h = ar_cells hash @ [(ar_do_hash_hint h, k, v)]"
    by (intro ar_cells_eqI) (auto simp: bound cell nth_append nth_ar_cells less_Suc_eq)
  moreover have "used_cell (ar_do_hash_hint h, k, v)" using k(1) by (simp add: used_cell_def)
  ultimately have al: "ar_alist ?h = ar_alist hash @ [(k, v)]" by (simp add: ar_alist_def)
  have ok: "objhash_ok ty" using inv by (simp add: ar_inv_def)
  have "al_distinct (ar_equal ty) (ar_alist hash @ [(k, v)])"
  proof -
    have "al_put (ar_equal ty) k v (ar_alist hash) = ar_alist hash @ [(k, v)]" using k(2) by (rule al_put_find_None)
    then show ?thesis using al_distinct_put [OF ar_equal_equivp [OF ok], of "ar_alist hash" k v] inv
      by (simp add: ar_inv_def)
  qed
  moreover have "ar_shape ?h" using f(1)
    by (simp add: RHASH_AR_TABLE_SIZE_INC_def RHASH_AR_TABLE_SIZE_SET_def RHASH_AR_TABLE_BOUND_SET_def ar_shape_def)
  ultimately have "ar_inv ty ?h"
    using ok room size al ar_inv_size [OF inv] k(1) h ar_inv_cell [OF inv]
    by (intro ar_invI) (auto simp: bound cell cell_ok_def)
  with al show ?thesis by (simp add: Let_def)
qed

text \<open>Overwriting the pair of a used cell, with an equal key.\<close>

lemma ar_rewrite_inv:
  assumes inv: "ar_inv ty hash" and i: "i < ar_table_bound hash" "used_cell (ar_cell hash i)"
    and k: "k \<noteq> Qundef" "ar_equal ty k (fst (snd (ar_cell hash i)))"
  shows "ar_inv ty (ar_write_pair hash i (k, v)) \<and>
    ar_alist (ar_write_pair hash i (k, v)) = ar_before hash i @ (k, v) # ar_after hash i"
proof -
  note shape = ar_inv_shape [OF inv order.strict_trans1 [OF le0 i(1)]]
  note f = write_pair_facts [OF shape, of i "(k, v)"]
  have i8: "i < 8" using i(1) ar_inv_bound [OF inv] by simp
  have ok: "objhash_ok ty" using inv by (simp add: ar_inv_def)
  have cells: "ar_cells (ar_write_pair hash i (k, v)) = (ar_cells hash)[i := (fst (ar_cell hash i), k, v)]"
    using i(1) f(4) [OF i8] by (intro ar_cells_eqI) (auto simp: f(2) nth_list_update nth_ar_cells)
  have "used_cell (fst (ar_cell hash i), k, v)" using k(1) by (simp add: used_cell_def)
  then have al: "ar_alist (ar_write_pair hash i (k, v)) = ar_before hash i @ (k, v) # ar_after hash i"
    using ar_alist_update [OF i(1) cells] by simp
  have hash: "ar_do_hash ty k = ar_do_hash ty (fst (snd (ar_cell hash i)))"
    using ok k(2) by (auto simp: objhash_ok_def ar_equal_def ar_do_hash_def)
  have eqv: "equivp (ar_equal ty)" by (rule ar_equal_equivp [OF ok])
  have "al_distinct (ar_equal ty) (ar_before hash i @ (k, v) # ar_after hash i)"
  proof -
    have e: "ar_equal ty x k = ar_equal ty x (fst (snd (ar_cell hash i)))"
      "ar_equal ty k x = ar_equal ty (fst (snd (ar_cell hash i))) x" for x
    proof -
      have K: "ar_equal ty k = ar_equal ty (fst (snd (ar_cell hash i)))"
        using eqv k(2) unfolding equivp_def by blast
      have sym: "ar_equal ty a b = ar_equal ty b a" for a b by (blast intro: equivp_symp [OF eqv])
      show "ar_equal ty k x = ar_equal ty (fst (snd (ar_cell hash i))) x" by (simp add: K)
      then show "ar_equal ty x k = ar_equal ty x (fst (snd (ar_cell hash i)))" by (simp only: sym [of x])
    qed
    have "al_distinct (ar_equal ty) (ar_before hash i @ snd (ar_cell hash i) # ar_after hash i)"
      using inv ar_alist_split [OF i] by (simp add: ar_inv_def)
    then show ?thesis using e by (simp add: al_distinct_def sorted_wrt_append)
  qed
  then have "ar_inv ty (ar_write_pair hash i (k, v))"
    using ok f ar_inv_bound [OF inv] ar_inv_size [OF inv] al ar_alist_split [OF i] ar_inv_cell [OF inv] hash k(1) i8
      ar_inv_cell [OF inv i]
    by (intro ar_invI) (auto simp: cell_ok_def)
  with al show ?thesis by blast
qed

text \<open>Clearing a used cell, with the counter.\<close>

lemma ar_delete_inv:
  assumes inv: "ar_inv ty hash" and i: "i < ar_table_bound hash" "used_cell (ar_cell hash i)"
  shows "ar_inv ty (RHASH_AR_TABLE_SIZE_DEC (ar_clear_entry hash i)) \<and>
    ar_alist (RHASH_AR_TABLE_SIZE_DEC (ar_clear_entry hash i)) = ar_before hash i @ ar_after hash i"
proof -
  note shape = ar_inv_shape [OF inv order.strict_trans1 [OF le0 i(1)]]
  let ?c = "ar_clear_entry hash i"
  let ?h = "RHASH_AR_TABLE_SIZE_DEC ?c"
  note f = clear_entry_facts [OF shape, of i]
  have i8: "i < 8" using i(1) ar_inv_bound [OF inv] by simp
  have ok: "objhash_ok ty" using inv by (simp add: ar_inv_def)
  have cells: "ar_cells ?c = (ar_cells hash)[i := (RHASH_AR_CLEARED_HINT, Qundef, snd (snd (ar_cell hash i)))]"
    using i(1) f(4) [OF i8] by (intro ar_cells_eqI) (auto simp: f(2) nth_list_update nth_ar_cells)
  have al: "ar_alist ?c = ar_before hash i @ ar_after hash i"
    using ar_alist_update [OF i(1) cells] by simp
  have size: "ar_table_size ?c = Suc (length (ar_alist ?c))"
    using f(3) ar_inv_size [OF inv] ar_alist_split [OF i] al by simp
  have cell: "ar_cell ?h j = ar_cell ?c j" for j
    by (simp add: RHASH_AR_TABLE_SIZE_DEC_def RHASH_AR_TABLE_SIZE_SET_def RHASH_AR_TABLE_BOUND_SET_def ar_cell_def
        ar_hint_def RHASH_AR_TABLE_REF_def RHASH_AR_TABLE_def)
  have sz: "ar_table_size ?h = length (ar_alist ?c)" and sh: "ar_shape ?h"
    and bound: "ar_table_bound ?h = (if ar_alist ?c = [] then 0 else ar_table_bound hash)"
    using size f(1,2)
    by (simp_all add: RHASH_AR_TABLE_SIZE_DEC_def RHASH_AR_TABLE_SIZE_SET_def RHASH_AR_TABLE_BOUND_SET_def
        ar_shape_def)
  have al': "ar_alist ?h = ar_alist ?c"
  proof (cases "ar_alist ?c = []")
    case True
    then show ?thesis using bound by (simp add: ar_alist_def ar_cells_def)
  next
    case False
    have "ar_cell ?h = ar_cell ?c" by (intro ext) (rule cell)
    then show ?thesis using False bound f(2) by (simp add: ar_alist_def ar_cells_def)
  qed
  have "al_distinct (ar_equal ty) (ar_before hash i @ ar_after hash i)"
    using inv ar_alist_split [OF i] by (simp add: ar_inv_def al_distinct_def sorted_wrt_append)
  then have "ar_inv ty ?h"
    using ok sh bound ar_inv_bound [OF inv] sz al al' ar_inv_cell [OF inv] f(4) [OF i8] cell
    by (intro ar_invI) (auto split: if_splits)
  with al al' show ?thesis by simp
qed


section \<open>The operations refine the list operations\<close>

lemma ar_lookup_refines:
  assumes inv: "ar_inv ty hash" and k: "k \<noteq> Qundef"
  shows "ar_lookup ty hash k = map_option snd (al_find (ar_equal ty) k (ar_alist hash))"
proof (cases "ar_table_size hash = 0")
  case True
  then show ?thesis using ar_inv_size [OF inv] by (simp add: ar_lookup_def)
next
  case False
  let ?b = "ar_find_entry ty hash (ar_do_hash ty k) k"
  from ar_find_entry_spec [OF inv k] show ?thesis
  proof
    assume b: "?b < ar_table_bound hash \<and> used_cell (ar_cell hash ?b) \<and> ar_equal ty k (fst (snd (ar_cell hash ?b)))"
    then have "?b \<noteq> RHASH_AR_TABLE_MAX_BOUND" using inv by (auto simp: ar_inv_def)
    moreover have "al_find (ar_equal ty) k (ar_alist hash) = Some (snd (ar_cell hash ?b))"
      using b ar_at(3) [OF inv, of ?b k] by blast
    ultimately show ?thesis using False by (simp add: ar_lookup_def ar_cell_def)
  qed (simp add: ar_lookup_def)
qed

lemma ar_delete_refines:
  assumes inv: "ar_inv ty hash" and k: "k \<noteq> Qundef"
  shows "\<exists>h. ar_delete ty hash k = (case al_find (ar_equal ty) k (ar_alist hash) of
        None \<Rightarrow> (h, 0, 0) | Some (_, v) \<Rightarrow> (h, 1, v)) \<and>
    ar_inv ty h \<and> ar_alist h = al_del (ar_equal ty) k (ar_alist hash)"
proof -
  let ?b = "ar_find_entry ty hash (ar_do_hash ty k) k"
  from ar_find_entry_spec [OF inv k] show ?thesis
  proof
    assume b: "?b < ar_table_bound hash \<and> used_cell (ar_cell hash ?b) \<and> ar_equal ty k (fst (snd (ar_cell hash ?b)))"
    then have ne: "?b \<noteq> RHASH_AR_TABLE_MAX_BOUND" using inv by (auto simp: ar_inv_def)
    note at = ar_at [OF inv, of ?b k] and del = ar_delete_inv [OF inv, of ?b]
    have "ar_delete ty hash k = (RHASH_AR_TABLE_SIZE_DEC (ar_clear_entry hash ?b), 1, snd (snd (ar_cell hash ?b)))"
      using ne by (simp add: ar_delete_def Let_def ar_cell_def)
    then show ?thesis
      using b at(3,5) del by (intro exI [of _ "RHASH_AR_TABLE_SIZE_DEC (ar_clear_entry hash ?b)"])
        (simp add: prod.case_eq_if)
  next
    assume "?b = RHASH_AR_TABLE_MAX_BOUND \<and> al_find (ar_equal ty) k (ar_alist hash) = None"
    then show ?thesis using inv by (simp add: ar_delete_def Let_def al_del_find_None)
  qed
qed

lemma ar_room:
  assumes inv: "ar_inv ty hash" and small: "\<not> RHASH_AR_TABLE_MAX_SIZE \<le> ar_table_size hash" and shape: "ar_shape hash"
    and k: "k \<noteq> Qundef" "al_find (ar_equal ty) k (ar_alist hash) = None" and h: "h = ar_do_hash ty k"
    and hash': "(hash', bin) = (if c then (hash_ar_table (ar_compact_table hash), ar_table_size hash) else (hash, ar_table_bound hash))"
    and c: "\<not> c \<Longrightarrow> ar_table_bound hash < RHASH_AR_TABLE_MAX_BOUND"
  shows "let h' = RHASH_AR_TABLE_SIZE_INC (RHASH_AR_TABLE_BOUND_SET (ar_set_entry hash' bin k v h) (bin + 1))
    in ar_inv ty h' \<and> ar_alist h' = ar_alist hash @ [(k, v)]"
proof (cases c)
  case True
  note comp = ar_compact_table_spec [OF inv] 
  have t: "hash_ar_table (ar_compact_table hash) = ar_compact_table hash"
    using comp shape by (auto simp: hash_ar_table_def RHASH_TABLE_NULL_P_def ar_shape_def)
  have e: "hash' = ar_compact_table hash" "bin = ar_table_bound (ar_compact_table hash)"
    using hash' True t comp by simp_all
  show ?thesis
    unfolding e using comp shape small k h ar_append_inv [of ty "ar_compact_table hash" k h v]
    by (simp add: RHASH_AR_TABLE_MAX_SIZE_def Let_def)
next
  case False
  then show ?thesis
    using hash' c shape k h ar_append_inv [OF inv, of k h v]
    by (simp add: RHASH_AR_TABLE_MAX_BOUND_def RHASH_AR_TABLE_MAX_SIZE_def Let_def)
qed

lemma ar_insert_refines:
  assumes inv: "ar_inv ty hash" and k: "k \<noteq> Qundef"
  shows "\<exists>h r. ar_insert ty hash k v = (h, r) \<and> ar_inv ty h \<and>
    (if al_find (ar_equal ty) k (ar_alist hash) = None \<and> 8 \<le> ar_table_size hash
     then r = -1 \<and> ar_alist h = ar_alist hash
     else ar_alist h = al_put (ar_equal ty) k v (ar_alist hash) \<and>
       r = (if al_find (ar_equal ty) k (ar_alist hash) = None then 0 else 1))"
proof -
  let ?t = "hash_ar_table hash"
  have t: "ar_inv ty ?t" "ar_shape ?t" "ar_alist ?t = ar_alist hash" "ar_table_size ?t = ar_table_size hash"
    "ar_table_bound ?t = ar_table_bound hash"
    using hash_ar_table_inv [OF inv] by auto
  let ?b = "ar_find_entry ty ?t (ar_do_hash ty k) k"
  from ar_find_entry_spec [OF t(1) k] show ?thesis
  proof
    assume b: "?b < ar_table_bound ?t \<and> used_cell (ar_cell ?t ?b) \<and> ar_equal ty k (fst (snd (ar_cell ?t ?b)))"
    then have ne: "?b \<noteq> RHASH_AR_TABLE_MAX_BOUND" using t(1) by (auto simp: ar_inv_def)
    note at = ar_at [OF t(1), of ?b k]
    have kq: "fst (snd (ar_cell ?t ?b)) \<noteq> Qundef" using ar_inv_cell [OF t(1)] b by (auto simp: cell_ok_def)
    have "ar_equal ty (fst (snd (ar_cell ?t ?b))) (fst (snd (ar_cell ?t ?b)))"
      using inv by (simp add: ar_inv_def objhash_ok_def ar_equal_def)
    with ar_rewrite_inv [OF t(1), of ?b "fst (snd (ar_cell ?t ?b))" v] b kq
    have w: "ar_inv ty (ar_write_pair ?t ?b (fst (snd (ar_cell ?t ?b)), v))"
      "ar_alist (ar_write_pair ?t ?b (fst (snd (ar_cell ?t ?b)), v)) = al_put (ar_equal ty) k v (ar_alist ?t)"
      using at(4) [of v] by auto
    have "ar_insert ty hash k v = (ar_write_pair ?t ?b (fst (snd (ar_cell ?t ?b)), v), 1)"
      using ne by (simp add: ar_insert_def Let_def ar_cell_def)
    then show ?thesis using w t(3) b at(3) by simp
  next
    assume b: "?b = RHASH_AR_TABLE_MAX_BOUND \<and> al_find (ar_equal ty) k (ar_alist ?t) = None"
    show ?thesis
    proof (cases "RHASH_AR_TABLE_MAX_SIZE \<le> ar_table_size ?t")
      case True
      then have "ar_insert ty hash k v = (?t, -1)" using b by (simp add: ar_insert_def Let_def)
      then show ?thesis using t b True by (simp add: RHASH_AR_TABLE_MAX_SIZE_def)
    next
      case False
      have "let h' = RHASH_AR_TABLE_SIZE_INC (RHASH_AR_TABLE_BOUND_SET
            (ar_set_entry (hash_ar_table (ar_compact_table ?t)) (ar_table_size ?t) k v (ar_do_hash ty k)) (ar_table_size ?t + 1))
        in ar_inv ty h' \<and> ar_alist h' = ar_alist ?t @ [(k, v)]"
        by (rule ar_room [OF t(1) False t(2) k _ refl, where c = True]) (use b in simp_all)
      then show ?thesis
        using b False t al_put_find_None [of "ar_equal ty" k "ar_alist hash" v]
        by (simp add: ar_insert_def Let_def RHASH_AR_TABLE_MAX_SIZE_def)
    qed
  qed
qed


text \<open>
  What hash.c needs of an update callback that continues: the key it leaves is an equal key.  For a new
  entry the callback gets the key of the call itself.
\<close>

definition update_keeps_key :: "('k \<Rightarrow> 'k \<Rightarrow> bool) \<Rightarrow> ('k \<Rightarrow> bool) \<Rightarrow> 'k \<Rightarrow>
    ('k \<Rightarrow> 'v \<Rightarrow> bool \<Rightarrow> st_retval \<times> 'k \<times> 'v) \<Rightarrow> bool" where
  "update_keeps_key eq key_ok k func \<longleftrightarrow>
     (\<forall>k0 v0 ex k' v'. eq k k0 \<longrightarrow> key_ok k0 \<longrightarrow> ex \<or> k0 = k \<longrightarrow> func k0 v0 ex = (ST_CONTINUE, k', v') \<longrightarrow>
       eq k0 k' \<and> key_ok k')"

lemma update_keeps_keyD:
  "update_keeps_key eq key_ok k func \<Longrightarrow> eq k k0 \<Longrightarrow> key_ok k0 \<Longrightarrow> ex \<or> k0 = k \<Longrightarrow>
    func k0 v0 ex = (ST_CONTINUE, k', v') \<Longrightarrow> eq k0 k' \<and> key_ok k'"
  unfolding update_keeps_key_def by blast

lemma ar_add_direct_with_hash_refines:
  assumes inv: "ar_inv ty hash" and shape: "ar_shape hash" and k: "k \<noteq> Qundef" "al_find (ar_equal ty) k (ar_alist hash) = None"
    and h: "h = ar_do_hash ty k"
  shows "\<exists>h' r. ar_add_direct_with_hash hash k v h = (h', r) \<and> ar_inv ty h' \<and>
    (if 8 \<le> ar_table_size hash then r = 1 \<and> h' = hash else r = 0 \<and> ar_alist h' = ar_alist hash @ [(k, v)])"
proof (cases "RHASH_AR_TABLE_MAX_SIZE \<le> ar_table_size hash")
  case True
  then show ?thesis using inv by (simp add: ar_add_direct_with_hash_def RHASH_AR_TABLE_MAX_SIZE_def)
next
  case False
  obtain hash' bin where e: "(hash', bin) = (if RHASH_AR_TABLE_MAX_BOUND \<le> ar_table_bound hash
      then (hash_ar_table (ar_compact_table hash), ar_table_size hash) else (hash, ar_table_bound hash))"
    by (cases "RHASH_AR_TABLE_MAX_BOUND \<le> ar_table_bound hash") auto
  have "let h' = RHASH_AR_TABLE_SIZE_INC (RHASH_AR_TABLE_BOUND_SET (ar_set_entry hash' bin k v h) (bin + 1))
    in ar_inv ty h' \<and> ar_alist h' = ar_alist hash @ [(k, v)]"
    by (rule ar_room [OF inv False shape k h e]) simp
  then show ?thesis
    using False e by (simp add: ar_add_direct_with_hash_def RHASH_AR_TABLE_MAX_SIZE_def split: prod.splits)
      (simp add: Let_def split: if_splits)
qed

lemma ar_update_start:
  assumes inv: "ar_inv ty hash" and k: "k \<noteq> Qundef"
  shows "\<exists>t b. (if ar_table_size hash > 0 then (hash, ar_find_entry ty hash (ar_do_hash ty k) k)
        else (hash_ar_table hash, RHASH_AR_TABLE_MAX_BOUND)) = (t, b) \<and>
    ar_inv ty t \<and> ar_shape t \<and> ar_alist t = ar_alist hash \<and> ar_table_size t = ar_table_size hash \<and>
    (b = RHASH_AR_TABLE_MAX_BOUND \<and> al_find (ar_equal ty) k (ar_alist hash) = None \<or>
     b \<noteq> RHASH_AR_TABLE_MAX_BOUND \<and> b < ar_table_bound t \<and> used_cell (ar_cell t b) \<and>
       ar_equal ty k (fst (snd (ar_cell t b))))"
proof (cases "ar_table_size hash = 0")
  case True
  then show ?thesis using hash_ar_table_inv [OF inv] ar_inv_size [OF inv] by auto
next
  case False
  then have "0 < ar_table_bound hash" using ar_inv_size [OF inv] ar_alist_length [of hash] by linarith
  note shape = ar_inv_shape [OF inv this]
  have "ar_table_bound hash \<le> RHASH_AR_TABLE_MAX_BOUND" using inv by (simp add: ar_inv_def)
  then show ?thesis using False inv shape ar_find_entry_spec [OF inv k] by auto
qed

lemma ar_update_refines:
  assumes inv: "ar_inv ty hash" and k: "k \<noteq> Qundef"
    and func: "update_keeps_key (ar_equal ty) (\<lambda>k. k \<noteq> Qundef) k func"
  shows "\<exists>h r. ar_update ty hash k func = (h, r) \<and> ar_inv ty h \<and>
    (if al_find (ar_equal ty) k (ar_alist hash) = None \<and> fst (func k 0 False) = ST_CONTINUE \<and> 8 \<le> ar_table_size hash
     then r = -1 \<and> ar_alist h = ar_alist hash
     else ar_alist h = al_update (ar_equal ty) k func 0 (ar_alist hash) \<and>
       r = (if al_find (ar_equal ty) k (ar_alist hash) = None then 0 else 1))"
proof -
  obtain t b where t: "(if ar_table_size hash > 0 then (hash, ar_find_entry ty hash (ar_do_hash ty k) k)
        else (hash_ar_table hash, RHASH_AR_TABLE_MAX_BOUND)) = (t, b)"
    "ar_inv ty t" "ar_shape t" "ar_alist t = ar_alist hash" "ar_table_size t = ar_table_size hash"
    "b = RHASH_AR_TABLE_MAX_BOUND \<and> al_find (ar_equal ty) k (ar_alist hash) = None \<or>
     b \<noteq> RHASH_AR_TABLE_MAX_BOUND \<and> b < ar_table_bound t \<and> used_cell (ar_cell t b) \<and>
       ar_equal ty k (fst (snd (ar_cell t b)))"
    using ar_update_start [OF inv k] by (elim exE conjE) (rule that; assumption)
  have ok: "objhash_ok ty" using inv by (simp add: ar_inv_def)
  have kk: "ar_equal ty k k" using ok by (simp add: objhash_ok_def ar_equal_def)
  from t(6) show ?thesis
  proof
    assume none: "b = RHASH_AR_TABLE_MAX_BOUND \<and> al_find (ar_equal ty) k (ar_alist hash) = None"
    obtain r k' v' where f: "func k 0 False = (r, k', v')" by (cases "func k 0 False") auto
    show ?thesis
    proof (cases "r = ST_CONTINUE")
      case True
      then have k': "ar_equal ty k k'" "k' \<noteq> Qundef" using update_keeps_keyD [OF func kk k, of False] f by blast+
      have h: "ar_do_hash ty k = ar_do_hash ty k'" using ok k'(1) by (simp add: objhash_ok_def ar_equal_def ar_do_hash_def)
      have "al_find (ar_equal ty) k' (ar_alist t) = None"
        using none k'(1) equivp_transp [OF ar_equal_equivp [OF ok]] unfolding t(4) al_find_None_iff by blast
      with ar_add_direct_with_hash_refines [OF t(2,3) k'(2) _ h, of v'] obtain h' r'
        where a: "ar_add_direct_with_hash t k' v' (ar_do_hash ty k) = (h', r')" "ar_inv ty h'"
          "if 8 \<le> ar_table_size t then r' = 1 \<and> h' = t else r' = 0 \<and> ar_alist h' = ar_alist t @ [(k', v')]"
        by blast
      then show ?thesis
        using none f True t(1,4,5) by (auto simp: ar_update_def Let_def al_update_def split: if_splits)
    next
      case False
      then show ?thesis
        using none f t(1,2,4) by (cases r) (auto simp: ar_update_def Let_def al_update_def)
    qed
  next
    assume some: "b \<noteq> RHASH_AR_TABLE_MAX_BOUND \<and> b < ar_table_bound t \<and> used_cell (ar_cell t b) \<and>
       ar_equal ty k (fst (snd (ar_cell t b)))"
    then have b: "b < ar_table_bound t" "used_cell (ar_cell t b)" "ar_equal ty k (fst (snd (ar_cell t b)))" by simp_all
    obtain k0 v0 where c: "RHASH_AR_TABLE_REF t b = (k0, v0)" by (cases "RHASH_AR_TABLE_REF t b")
    then have c': "snd (ar_cell t b) = (k0, v0)" by (simp add: ar_cell_def)
    obtain r k' v' where f: "func k0 v0 True = (r, k', v')" by (cases "func k0 v0 True") auto
    note at = ar_at [OF t(2) b]
    have found: "al_find (ar_equal ty) k (ar_alist hash) = Some (k0, v0)" using at(3) c' t(4) by simp
    have upd: "ar_update ty hash k func = (case r of
          ST_CONTINUE \<Rightarrow> (ar_write_pair t b (k', v'), 1)
        | ST_DELETE \<Rightarrow> (RHASH_AR_TABLE_SIZE_DEC (ar_clear_entry t b), 1)
        | _ \<Rightarrow> (t, 1))"
      using t(1) some c f by (cases r) (simp_all add: ar_update_def Let_def)
    consider "r = ST_CONTINUE" | "r = ST_DELETE" | "r \<noteq> ST_CONTINUE" "r \<noteq> ST_DELETE" by blast
    then show ?thesis
    proof cases
      case 1
      have "k0 \<noteq> Qundef" using ar_inv_cell [OF t(2) b(1,2)] c' by (simp add: cell_ok_def)
      then have k': "ar_equal ty k0 k'" "k' \<noteq> Qundef" using update_keeps_keyD [OF func, of k0 True] b(3) c' f 1 by auto
      then have "ar_equal ty k' (fst (snd (ar_cell t b)))"
        using equivp_symp [OF ar_equal_equivp [OF ok]] c' by simp
      note w = ar_rewrite_inv [OF t(2) b(1,2) k'(2) this, of v']
      have "map (\<lambda>p. if ar_equal ty k (fst p) then (k', v') else p) (ar_alist t) =
          ar_before t b @ (k', v') # ar_after t b"
        using map_replace_absent [where eq = "ar_equal ty" and k = k, OF at(1)]
          map_replace_absent [where eq = "ar_equal ty" and k = k, OF at(2)] b(3) c'
        by (simp add: ar_alist_split [OF b(1,2)])
      then show ?thesis using w upd 1 f found t(4) by (simp add: al_update_def)
    next
      case 2
      then show ?thesis using ar_delete_inv [OF t(2) b(1,2)] at(5) upd f found t(4) by (simp add: al_update_def)
    next
      case 3
      then show ?thesis using upd f found t(2,4) by (cases r) (simp_all add: al_update_def)
    qed
  qed
qed


lemma ar_shift_refines:
  assumes inv: "ar_inv ty hash"
  shows "case ar_alist hash of
      [] \<Rightarrow> ar_shift hash = (hash, 0, None, 0)
    | (k, v) # rest \<Rightarrow> (\<exists>h. ar_shift hash = (h, 1, Some k, v) \<and> ar_inv ty h \<and> ar_alist h = rest)"
proof (cases "ar_table_size hash = 0")
  case True
  then show ?thesis using ar_inv_size [OF inv] by (simp add: ar_shift_def)
next
  case False
  show ?thesis
  proof (cases "ar_next_entry hash (ar_table_bound hash) 0")
    case None
    then have "ar_alist hash = []"
      using ar_next_entry_spec [where hash = hash and bound = "ar_table_bound hash" and j = 0]
      by (auto simp: ar_alist_def ar_cells_def filter_empty_conv)
    then show ?thesis using ar_inv_size [OF inv] False by simp
  next
    case (Some i)
    then have i: "i < ar_table_bound hash" "used_cell (ar_cell hash i)" "\<forall>k < i. \<not> used_cell (ar_cell hash k)"
      using ar_next_entry_spec [where hash = hash and bound = "ar_table_bound hash" and j = 0] by simp_all
    have "filter used_cell (take i (ar_cells hash)) = filter used_cell (take 0 (ar_cells hash))"
      using i by (intro filter_take_unused) (simp_all add: nth_ar_cells)
    then have b: "ar_before hash i = []" by (simp add: ar_before_def)
    obtain k v where kv: "RHASH_AR_TABLE_REF hash i = (k, v)" by (cases "RHASH_AR_TABLE_REF hash i")
    have "ar_shift hash = (RHASH_AR_TABLE_SIZE_DEC (ar_clear_entry hash i), 1, Some k, v)"
      using False Some kv by (simp add: ar_shift_def)
    then show ?thesis
      using ar_alist_split [OF i(1,2)] ar_delete_inv [OF inv i(1,2)] b kv by (simp add: ar_cell_def)
  qed
qed

lemma ar_collect_eq:
  "ar_collect f hash siz i = take siz (map (\<lambda>c. f (snd c)) (filter used_cell (drop i (ar_cells hash))))"
proof (induction f hash siz i rule: ar_collect.induct)
  case (1 f hash siz i)
  show ?case
  proof (cases "i < ar_table_bound hash \<and> siz \<noteq> 0")
    case False
    then show ?thesis by (auto simp: ar_collect.simps [of f hash siz i])
  next
    case True
    then have "drop i (ar_cells hash) = ar_cell hash i # drop (Suc i) (ar_cells hash)"
      by (metis Cons_nth_drop_Suc length_ar_cells nth_ar_cells)
    moreover have "ar_collect f hash siz i = (if used_cell (ar_cell hash i)
        then f (snd (ar_cell hash i)) # ar_collect f hash (siz - 1) (Suc i) else ar_collect f hash siz (Suc i))"
      using True by (simp add: ar_collect.simps [of f hash siz i] ar_cleared_entry_cell ar_cell_sel)
    ultimately show ?thesis
      using True 1 by (cases siz) (simp_all add: ar_cleared_entry_cell)
  qed
qed

lemma ar_keys_refines: "ar_keys hash siz = take siz (map fst (ar_alist hash))"
  by (simp add: ar_keys_def ar_collect_eq ar_alist_def comp_def)

lemma ar_values_refines: "ar_values hash siz = take siz (map snd (ar_alist hash))"
  by (simp add: ar_values_def ar_collect_eq ar_alist_def comp_def)

section \<open>Conversion\<close>

lemma ar_add_to_st_Some:
  assumes "st_inv tab" "objhash_ok ty" "st_type tab = ty" "bound = ar_table_bound hash" "bound \<le> 8" "i \<le> bound"
    and "skip \<or> (\<forall>j < bound. used_cell (ar_cell hash j))"
    and "al_distinct (ar_equal ty) (st_alist tab @ map snd (filter used_cell (drop i (ar_cells hash))))"
    and "length (st_alist tab) \<le> i"
  shows "\<exists>tab'. ar_add_to_st skip hash bound i tab = Some tab' \<and> st_inv tab' \<and> st_type tab' = ty \<and>
    st_alist tab' = st_alist tab @ map snd (filter used_cell (drop i (ar_cells hash)))"
  using assms
proof (induction "bound - i" arbitrary: i tab)
  case 0
  then show ?case by (subst ar_add_to_st.simps) simp
next
  case (Suc n)
  then have i: "i < bound" by simp
  have drop: "drop i (ar_cells hash) = ar_cell hash i # drop (Suc i) (ar_cells hash)"
    using i Suc.prems(4) by (metis Cons_nth_drop_Suc length_ar_cells nth_ar_cells)
  show ?case
  proof (cases "used_cell (ar_cell hash i)")
    case False
    then have "ar_add_to_st skip hash bound i tab = ar_add_to_st skip hash bound (Suc i) tab"
      using i Suc.prems(7) by (auto simp: ar_add_to_st.simps [of skip hash bound i tab] ar_cleared_entry_cell)
    moreover have "\<exists>tab'. ar_add_to_st skip hash bound (Suc i) tab = Some tab' \<and> st_inv tab' \<and> st_type tab' = ty \<and>
      st_alist tab' = st_alist tab @ map snd (filter used_cell (drop (Suc i) (ar_cells hash)))"
      using Suc.hyps(2) Suc.prems i False drop by (intro Suc.hyps(1)) auto
    ultimately show ?thesis using drop False by simp
  next
    case True
    obtain k v where kv: "snd (ar_cell hash i) = (k, v)" by (cases "snd (ar_cell hash i)")
    have eq: "EQUAL tab = ar_equal ty" using Suc.prems(2,3) by (simp add: EQUAL_type_equal ar_equal_type_equal)
    have d: "al_distinct (ar_equal ty) (st_alist tab @ (k, v) # map snd (filter used_cell (drop (Suc i) (ar_cells hash))))"
      using Suc.prems(8) True drop kv by simp
    have "ar_equal ty k k" using Suc.prems(2) by (simp add: objhash_ok_def ar_equal_def)
    then have absent: "al_absent (EQUAL tab) k (st_alist tab)"
      using al_distinct_around(1) [OF ar_equal_equivp [OF Suc.prems(2)] d, of k] eq by simp
    have "length (live tab) \<le> 8" using Suc.prems(5,9) i by (simp add: st_alist_def)
    then have cap: "st_capacity tab" using Suc.prems(1) by (simp add: st_capacity_def st_inv_def)
    obtain t where t: "st_add_direct tab k v = Some t" "st_inv t" "st_type t = st_type tab" "st_alist t = st_alist tab @ [(k, v)]"
      using st_add_direct_with_hash_refines [OF Suc.prems(1) cap absent refl, of v] by (auto simp: st_add_direct_def)
    have "ar_add_to_st skip hash bound i tab = ar_add_to_st skip hash bound (Suc i) t"
      using i True t(1) kv by (simp add: ar_add_to_st.simps [of skip hash bound i tab] ar_cleared_entry_cell ar_cell_sel)
    moreover have "\<exists>tab'. ar_add_to_st skip hash bound (Suc i) t = Some tab' \<and> st_inv tab' \<and> st_type tab' = ty \<and>
      st_alist tab' = st_alist t @ map snd (filter used_cell (drop (Suc i) (ar_cells hash)))"
      using Suc.hyps(2) Suc.prems i t d by (intro Suc.hyps(1)) auto
    ultimately show ?thesis using drop True t(4) kv by simp
  qed
qed

lemma convert_fresh:
  assumes inv: "ar_inv ty hash" and siz: "siz \<le> 16" and skip: "skip \<or> (\<forall>j < ar_table_bound hash. used_cell (ar_cell hash j))"
  shows "\<exists>tab. do {
       new_tab \<leftarrow> st_init_table_with_size ty (of_nat siz);
       ar_add_to_st skip hash (ar_table_bound hash) 0 new_tab
     } = Some tab \<and> st_inv tab \<and> st_type tab = ty \<and> st_alist tab = ar_alist hash"
proof -
  have ok: "objhash_ok ty" and ty: "st_type_ok ty" using inv by (simp_all add: ar_inv_def objhash_ok_def)
  have "siz < 2 ^ 64" using siz by simp
  then have "unat (of_nat siz :: 64 word) = siz" by (simp add: unat_of_nat)
  then have "unat (of_nat siz :: 64 word) < 2 ^ MAX_POWER2" using siz by (simp add: MAX_POWER2_def)
  from st_init_table_with_size_Some [OF ty this] obtain new where new:
    "st_init_table_with_size ty (of_nat siz) = Some new" "st_inv new" "live new = []" "st_type new = ty"
    by (elim exE conjE) (rule that; assumption)
  then have nil: "st_alist new = []" by (simp add: st_alist_def)
  have "al_distinct (ar_equal ty) (ar_alist hash)" using inv by (simp add: ar_inv_def)
  then show ?thesis
    using ar_add_to_st_Some [OF new(2) ok new(4) refl ar_inv_bound [OF inv] le0 skip] new(1) nil
    by (simp add: ar_alist_def)
qed

lemma RHASH_AR_TABLE_P_as: "ar_inv ty hash \<Longrightarrow> RHASH_AR_TABLE_P hash"
  by (auto simp: ar_inv_def RHASH_AR_TABLE_P_def ar_shape_def split: rhash_as.splits if_splits)

lemma ar_force_convert_table_refines:
  assumes inv: "ar_inv ty hash"
  shows "\<exists>h tab. ar_force_convert_table ty hash = Some h \<and> as_table h = As_st tab \<and> st_inv tab \<and> st_type tab = ty \<and>
    st_alist tab = ar_alist hash \<and> ar_table_size h = 0 \<and> ar_table_bound h = 0 \<and>
    length (ar_hint_ary h) = length (ar_hint_ary hash)"
proof (cases "as_table hash = As_ar None")
  case True
  have ty: "st_type_ok ty" using inv by (simp add: ar_inv_def objhash_ok_def)
  have "ar_table_bound hash = 0" "ar_table_size hash = 0" "ar_alist hash = []"
    using True inv ar_inv_size [OF inv] ar_alist_length [of hash] by (simp_all add: ar_inv_def)
  moreover obtain new where "st_init_table ty = Some new" "st_inv new" "live new = []" "st_type new = ty"
    using st_init_table_with_size_Some [OF ty, of 0] unfolding st_init_table_def MAX_POWER2_def by auto
  ultimately show ?thesis
    using True by (simp add: ar_force_convert_table_def RHASH_AR_TABLE_P_def RHASH_AR_TABLE_def RHASH_ST_TABLE_SET_def
        st_alist_def)
next
  case False
  then have sh: "ar_shape hash" using inv by (simp add: ar_inv_def)
  then have some: "RHASH_AR_TABLE hash \<noteq> None" "RHASH_AR_TABLE_P hash"
    by (auto simp: ar_shape_def RHASH_AR_TABLE_def RHASH_AR_TABLE_P_def)
  have "ar_table_size hash \<le> 16" using ar_inv_size [OF inv] ar_alist_length [of hash] ar_inv_bound [OF inv] by simp
  from convert_fresh [OF inv this, of True] some show ?thesis
    by (auto simp: ar_force_convert_table_def ar_free_and_clear_table_def RHASH_AR_TABLE_CLEAR_def RHASH_ST_TABLE_SET_def
        split: bind_splits)
qed

lemma ar_try_convert_table_refines:
  assumes inv: "ar_inv ty hash" and full: "8 \<le> ar_table_size hash"
  shows "\<exists>h tab. ar_try_convert_table ty hash = Some h \<and> as_table h = As_st tab \<and> st_inv tab \<and> st_type tab = ty \<and>
    st_alist tab = ar_alist hash \<and> ar_table_size h = 0 \<and> ar_table_bound h = 0 \<and>
    length (ar_hint_ary h) = length (ar_hint_ary hash)"
proof -
  have size: "ar_table_size hash = 8" "ar_table_bound hash = 8"
    using full ar_inv_size [OF inv] ar_alist_length [of hash] ar_inv_bound [OF inv] by simp_all
  then have sh: "ar_shape hash" using ar_inv_shape [OF inv] by simp
  then have some: "RHASH_AR_TABLE hash \<noteq> None" "RHASH_AR_TABLE_P hash"
    by (auto simp: ar_shape_def RHASH_AR_TABLE_def RHASH_AR_TABLE_P_def)
  have all: "\<forall>j < ar_table_bound hash. used_cell (ar_cell hash j)"
  proof (rule ccontr)
    assume "\<not> ?thesis"
    then obtain j where "j < ar_table_bound hash" "\<not> used_cell (ar_cells hash ! j)" by (auto simp: nth_ar_cells)
    then have "length (filter used_cell (ar_cells hash)) < length (ar_cells hash)"
      by (intro length_filter_less [OF nth_mem]) simp_all
    then show False using size ar_inv_size [OF inv] by (simp add: ar_alist_def)
  qed
  from convert_fresh [OF inv, of 16 False] all some size show ?thesis
    by (auto simp: ar_try_convert_table_def ar_free_and_clear_table_def RHASH_AR_TABLE_CLEAR_def RHASH_ST_TABLE_SET_def
        RHASH_AR_TABLE_MAX_SIZE_def RHASH_AR_TABLE_MAX_BOUND_def split: bind_splits)
qed

end
