(* ===== verification/RHash.thy ===== *)
theory RHash
  imports Ar_Ops St_Bulk
begin

text \<open>
  Objects of class Hash (hash.c): the operations that pick the array table or the table of st.c and
  convert from one to the other, the iteration level, and the entry points \<open>Hash#[]=\<close>, \<open>Hash#[]\<close>
  and \<open>Hash#delete\<close>, the bulk insertion and the clearing of the table.  The result \<open>None\<close> is the "table too big" of st.c
  or a search that does not return; a Ruby exception of hash.c itself is an \<open>Inl\<close>.
\<close>

section \<open>Dispatch\<close>

definition hash_stlike_lookup :: "st_hash_type \<Rightarrow> RHash \<Rightarrow> st_data_t \<Rightarrow> st_data_t option option" where
  "hash_stlike_lookup objhash hash key = (case as_table hash of
     As_ar _ \<Rightarrow> Some (ar_lookup objhash hash key)
   | As_st tab \<Rightarrow> st_lookup tab key)"

text \<open>Table, return value and \<open>*pval\<close>.\<close>

definition rb_hash_stlike_delete :: "st_hash_type \<Rightarrow> RHash \<Rightarrow> st_data_t \<Rightarrow> (RHash \<times> int \<times> st_data_t) option" where
  "rb_hash_stlike_delete objhash hash key = (case as_table hash of
     As_ar _ \<Rightarrow> Some (ar_delete objhash hash key)
   | As_st tab \<Rightarrow> do {
       (tab, r, _, val) \<leftarrow> st_delete tab key;
       Some (RHASH_ST_TABLE_SET hash tab, r, val)
     })"

text \<open>\<open>st_update\<close> on the table of \<open>hash\<close>, which must be one of st.c.\<close>

definition rhash_st_update :: "RHash \<Rightarrow> st_data_t \<Rightarrow> st_update_callback_func \<Rightarrow> (RHash \<times> int) option" where
  "rhash_st_update hash key func = (case as_table hash of
     As_ar _ \<Rightarrow> None
   | As_st tab \<Rightarrow> do {
       (tab, existing) \<leftarrow> st_update tab key func;
       Some (RHASH_ST_TABLE_SET hash tab, if existing then 1 else 0)
     })"

definition rb_hash_stlike_update :: "st_hash_type \<Rightarrow> RHash \<Rightarrow> st_data_t \<Rightarrow> st_update_callback_func \<Rightarrow>
    (RHash \<times> int) option" where
  "rb_hash_stlike_update objhash hash key func =
    (if RHASH_AR_TABLE_P hash then
       (let (hash, result) = ar_update objhash hash key func
        in if result = -1 then do {
             hash \<leftarrow> ar_try_convert_table objhash hash;
             rhash_st_update hash key func
           }
           else Some (hash, result))
     else rhash_st_update hash key func)"

definition RHASH_SIZE :: "RHash \<Rightarrow> nat" where
  "RHASH_SIZE hash = (case as_table hash of As_ar _ \<Rightarrow> ar_table_size hash | As_st tab \<Rightarrow> num_entries tab)"

definition RHASH_EMPTY_P :: "RHash \<Rightarrow> bool" where
  "RHASH_EMPTY_P hash \<longleftrightarrow> RHASH_SIZE hash = 0"

definition RHASH_ST_CLEAR :: "RHash \<Rightarrow> RHash" where
  "RHASH_ST_CLEAR hash = hash\<lparr>as_table := As_ar None\<rparr>"

definition hash_alloc :: RHash where
  "hash_alloc = \<lparr>as_table = As_ar None, ar_hint_ary = replicate RHASH_AR_TABLE_MAX_SIZE 0,
                 ar_table_size = 0, ar_table_bound = 0\<rparr>"

definition rb_hash_new_with_size :: "st_hash_type \<Rightarrow> st_index_t \<Rightarrow> RHash option" where
  "rb_hash_new_with_size objhash siz =
    (let ret = hash_alloc in
     if siz = 0 then Some ret
     else if unat siz \<le> RHASH_AR_TABLE_MAX_SIZE then Some (ar_alloc_table ret)
     else do {
       tab \<leftarrow> st_init_table_with_size objhash siz;
       Some (RHASH_ST_TABLE_SET ret tab)
     })"

definition hash_copy :: "RHash \<Rightarrow> RHash \<Rightarrow> RHash" where
  "hash_copy ret hash =
    (if \<not> RHASH_EMPTY_P hash then
       (case as_table hash of
          As_ar _ \<Rightarrow> ar_copy ret hash
        | As_st tab \<Rightarrow> RHASH_ST_TABLE_SET ret (st_copy tab))
     else ret)"

text \<open>The table part of \<open>hash_dup\<close>: the new object is freshly allocated.\<close>

definition hash_dup :: "RHash \<Rightarrow> RHash" where
  "hash_dup hash = hash_copy hash_alloc hash"

definition rb_hash_tbl_raw :: "st_hash_type \<Rightarrow> RHash \<Rightarrow> RHash option" where
  "rb_hash_tbl_raw objhash hash = ar_force_convert_table objhash hash"

text \<open>\<open>ar_insert\<close> of the pairs of \<open>argv\<close>; \<open>stringify\<close> is \<open>key_stringify\<close>.\<close>

fun ar_bulk_insert :: "st_hash_type \<Rightarrow> (VALUE \<Rightarrow> st_data_t) \<Rightarrow> RHash \<Rightarrow> VALUE list \<Rightarrow> RHash" where
  "ar_bulk_insert objhash stringify hash (k # v # argv) =
    ar_bulk_insert objhash stringify (fst (ar_insert objhash hash (stringify k) v)) argv"
| "ar_bulk_insert objhash stringify hash _ = hash"

section \<open>The iteration level\<close>

definition RHASH_LEV_SHIFT :: nat where "RHASH_LEV_SHIFT = 12 + 13"
definition RHASH_LEV_MAX :: u32 where "RHASH_LEV_MAX = 127"
definition RHASH_LEV_MASK :: u64 where "RHASH_LEV_MASK = push_bit RHASH_LEV_SHIFT 127"

text \<open>
  \<open>hash_flags\<close> is \<open>RBASIC(hash)->flags\<close> and \<open>lev_ivar\<close> the \<open>int\<close> in the instance variable
  \<open>id_hash_iter_lev\<close>.  An \<open>int\<close> is a 32-bit word read with \<open>sint\<close>; the shift of \<open>lev-1\<close>, which has no
  cast, is one of \<open>int\<close> whose result is sign-extended.
\<close>

record hash_obj =
  hash_table :: RHash
  hash_flags :: u64
  lev_ivar :: u32
  hash_frozen :: bool
  hash_ifnone :: VALUE
  hash_proc_default :: bool

definition iter_lev_in_flags :: "hash_obj \<Rightarrow> u32" where
  "iter_lev_in_flags hash = ucast (drop_bit RHASH_LEV_SHIFT (hash_flags hash) AND ucast RHASH_LEV_MAX)"

definition iter_lev_in_ivar :: "hash_obj \<Rightarrow> u32" where
  "iter_lev_in_ivar hash = lev_ivar hash"

definition iter_lev_in_ivar_set :: "hash_obj \<Rightarrow> u32 \<Rightarrow> hash_obj" where
  "iter_lev_in_ivar_set hash lev = hash\<lparr>lev_ivar := lev\<rparr>"

definition RHASH_ITER_LEV :: "hash_obj \<Rightarrow> int" where
  "RHASH_ITER_LEV hash =
    (let lev = iter_lev_in_flags hash
     in sint (if lev = RHASH_LEV_MAX then iter_lev_in_ivar hash else lev))"

definition hash_iter_lev_inc :: "hash_obj \<Rightarrow> hash_obj" where
  "hash_iter_lev_inc hash =
    (let lev = iter_lev_in_flags hash
     in if lev = RHASH_LEV_MAX then iter_lev_in_ivar_set hash (iter_lev_in_ivar hash + 1)
        else
          let lev = lev + 1;
              hash = hash\<lparr>hash_flags := (hash_flags hash AND NOT RHASH_LEV_MASK) OR push_bit RHASH_LEV_SHIFT (scast lev)\<rparr>
          in if lev = RHASH_LEV_MAX then iter_lev_in_ivar_set hash lev else hash)"

definition hash_iter_lev_dec :: "hash_obj \<Rightarrow> hash_obj" where
  "hash_iter_lev_dec hash =
    (let lev = iter_lev_in_flags hash
     in if lev = RHASH_LEV_MAX then iter_lev_in_ivar_set hash (iter_lev_in_ivar hash - 1)
        else hash\<lparr>hash_flags := (hash_flags hash AND NOT RHASH_LEV_MASK) OR scast (push_bit RHASH_LEV_SHIFT (lev - 1))\<rparr>)"

section \<open>Entry points\<close>

datatype hash_error = FrozenError | NoNewKey | DuringIteration

text \<open>
  What hash.c calls for the keys: \<open>rb_obj_class(key) == rb_cString\<close>, \<open>RB_OBJ_FROZEN\<close>, the test of
  \<open>rb_hash_key_str\<close> for a string without instance variables or singleton class, the two ways string.c
  has to copy it (interned, or frozen), and the comparison of a table's type with \<open>&identhash\<close>.
\<close>

record hash_env =
  env_objhash :: st_hash_type
  env_is_string :: "VALUE \<Rightarrow> bool"
  env_frozen :: "VALUE \<Rightarrow> bool"
  env_plain_string :: "VALUE \<Rightarrow> bool"
  env_fstring :: "VALUE \<Rightarrow> VALUE"
  env_str_new_frozen :: "VALUE \<Rightarrow> VALUE"
  env_is_identhash :: "st_hash_type \<Rightarrow> bool"

definition hash_aset :: "VALUE \<Rightarrow> st_update_callback_func" where
  "hash_aset arg = (\<lambda>key val existing. (ST_CONTINUE, key, arg))"

definition rb_hash_key_str :: "hash_env \<Rightarrow> VALUE \<Rightarrow> VALUE" where
  "rb_hash_key_str env key = (if env_plain_string env key then env_fstring env key else env_str_new_frozen env key)"

definition hash_aset_str :: "hash_env \<Rightarrow> VALUE \<Rightarrow> st_update_callback_func" where
  "hash_aset_str env arg = (\<lambda>key val existing.
     hash_aset arg (if \<not> existing \<and> \<not> env_frozen env key then rb_hash_key_str env key else key) val existing)"

definition RHASH_TYPE_is_ident :: "hash_env \<Rightarrow> RHash \<Rightarrow> bool" where
  "RHASH_TYPE_is_ident env hash = (case as_table hash of
     As_ar _ \<Rightarrow> False | As_st tab \<Rightarrow> env_is_identhash env (st_type tab))"

text \<open>
  While the hash is iterated the callback is the \<open>_noinsert\<close> variant, which raises when the search found
  no entry.  A raise leaves \<open>st_update\<close> or \<open>ar_update\<close> out of the callback, before anything is written: for
  the table it is the verdict \<open>ST_STOP\<close>, and the exception is the \<open>Inl\<close> of \<open>RHASH_UPDATE_ITER\<close>.  The check
  of \<open>tbl_update_modify\<close> that the hash is not frozen repeats the one of \<open>rb_hash_aset\<close>, after which no Ruby
  code has run but the comparison.
\<close>

definition noinsert_callback :: "st_update_callback_func \<Rightarrow> st_update_callback_func" where
  "noinsert_callback func = (\<lambda>key val existing.
     if \<not> existing then (ST_STOP, key, val) else func key val existing)"

definition insert_callback :: "st_update_callback_func \<Rightarrow> st_update_callback_func" where
  "insert_callback func = (\<lambda>key val existing. func key val existing)"

definition UPDATE_CALLBACK :: "int \<Rightarrow> st_update_callback_func \<Rightarrow> st_update_callback_func" where
  "UPDATE_CALLBACK iter_lev func = (if iter_lev > 0 then noinsert_callback func else insert_callback func)"

definition tbl_update :: "hash_env \<Rightarrow> RHash \<Rightarrow> VALUE \<Rightarrow> st_update_callback_func \<Rightarrow> (RHash \<times> int) option" where
  "tbl_update env hash key func = rb_hash_stlike_update (env_objhash env) hash key func"

definition RHASH_UPDATE_ITER :: "hash_env \<Rightarrow> RHash \<Rightarrow> int \<Rightarrow> VALUE \<Rightarrow> st_update_callback_func \<Rightarrow>
    (hash_error + RHash) option" where
  "RHASH_UPDATE_ITER env hash iter_lev key func =
    do {
      (hash, existing) \<leftarrow> tbl_update env hash key (UPDATE_CALLBACK iter_lev func);
      Some (if iter_lev > 0 \<and> existing = 0 then Inl NoNewKey else Inr hash)
    }"

definition rb_hash_aset :: "hash_env \<Rightarrow> hash_obj \<Rightarrow> VALUE \<Rightarrow> VALUE \<Rightarrow> (hash_error + hash_obj) option" where
  "rb_hash_aset env hash key val =
    (let iter_lev = RHASH_ITER_LEV hash in
     if hash_frozen hash then Some (Inl FrozenError)
     else if RHASH_TABLE_NULL_P (hash_table hash) \<and> iter_lev > 0 then Some (Inl NoNewKey)
     else
       let tab = (if RHASH_TABLE_NULL_P (hash_table hash) then ar_alloc_table (hash_table hash) else hash_table hash);
           func = (if RHASH_TYPE_is_ident env tab \<or> \<not> env_is_string env key then hash_aset val
                   else hash_aset_str env val)
       in do {
         r \<leftarrow> RHASH_UPDATE_ITER env tab iter_lev key func;
         Some (case r of Inl e \<Rightarrow> Inl e | Inr tab \<Rightarrow> Inr (hash\<lparr>hash_table := tab\<rparr>))
       })"

text \<open>\<open>Hash#default\<close> is not redefined; \<open>call_proc\<close> is \<open>call_default_proc\<close>.\<close>

definition rb_hash_default_value :: "(VALUE \<Rightarrow> VALUE \<Rightarrow> VALUE) \<Rightarrow> hash_obj \<Rightarrow> VALUE \<Rightarrow> VALUE" where
  "rb_hash_default_value call_proc hash key =
    (let ifnone = hash_ifnone hash
     in if \<not> hash_proc_default hash then ifnone
        else if key = Qundef then Qnil
        else call_proc ifnone key)"

definition rb_hash_aref :: "(VALUE \<Rightarrow> VALUE \<Rightarrow> VALUE) \<Rightarrow> hash_env \<Rightarrow> hash_obj \<Rightarrow> VALUE \<Rightarrow> VALUE option" where
  "rb_hash_aref call_proc env hash key =
    do {
      val \<leftarrow> hash_stlike_lookup (env_objhash env) (hash_table hash) key;
      Some (case val of Some v \<Rightarrow> v | None \<Rightarrow> rb_hash_default_value call_proc hash key)
    }"

definition rb_hash_lookup2 :: "hash_env \<Rightarrow> hash_obj \<Rightarrow> VALUE \<Rightarrow> VALUE \<Rightarrow> VALUE option" where
  "rb_hash_lookup2 env hash key def =
    do {
      val \<leftarrow> hash_stlike_lookup (env_objhash env) (hash_table hash) key;
      Some (case val of Some v \<Rightarrow> v | None \<Rightarrow> def)
    }"

definition rb_hash_lookup :: "hash_env \<Rightarrow> hash_obj \<Rightarrow> VALUE \<Rightarrow> VALUE option" where
  "rb_hash_lookup env hash key = rb_hash_lookup2 env hash key Qnil"

definition rb_hash_delete_entry :: "hash_env \<Rightarrow> hash_obj \<Rightarrow> VALUE \<Rightarrow> (hash_obj \<times> VALUE) option" where
  "rb_hash_delete_entry env hash key =
    do {
      (tab, found, val) \<leftarrow> rb_hash_stlike_delete (env_objhash env) (hash_table hash) key;
      Some (hash\<lparr>hash_table := tab\<rparr>, if found \<noteq> 0 then val else Qundef)
    }"

definition rb_hash_delete :: "hash_env \<Rightarrow> hash_obj \<Rightarrow> VALUE \<Rightarrow> (hash_obj \<times> VALUE) option" where
  "rb_hash_delete env hash key =
    do {
      (hash, deleted_value) \<leftarrow> rb_hash_delete_entry env hash key;
      Some (hash, if deleted_value \<noteq> Qundef then deleted_value else Qnil)
    }"

text \<open>
  \<open>Hash#delete\<close>: \<open>block\<close> is the block of the call, if it has one, as what it makes of the hash and the key
  it is given; a block may raise, not return, or change the hash.  \<open>rb_hash_delete\<close> is the C function of
  the same name, which makes no check of its own.
\<close>

definition rb_hash_delete_m :: "hash_env \<Rightarrow> (hash_obj \<Rightarrow> VALUE \<Rightarrow> (hash_error + hash_obj \<times> VALUE) option) option \<Rightarrow>
    hash_obj \<Rightarrow> VALUE \<Rightarrow> (hash_error + hash_obj \<times> VALUE) option" where
  "rb_hash_delete_m env block hash key =
    (if hash_frozen hash then Some (Inl FrozenError)
     else do {
       (hash, val) \<leftarrow> rb_hash_delete_entry env hash key;
       if val \<noteq> Qundef then Some (Inr (hash, val))
       else (case block of
           Some yield \<Rightarrow> yield hash key
         | None \<Rightarrow> Some (Inr (hash, Qnil)))
     })"

text \<open>The pairs a bulk insertion adds, into the array table when they are sure to fit.\<close>

definition rb_hash_bulk_insert :: "hash_env \<Rightarrow> (VALUE \<Rightarrow> st_data_t) \<Rightarrow> VALUE list \<Rightarrow> RHash \<Rightarrow> RHash option" where
  "rb_hash_bulk_insert env stringify argv hash =
    (if argv = [] then Some hash
     else do {
       let siz = length argv div 2;
       hash \<leftarrow> (if RHASH_TABLE_NULL_P hash then
                  (if siz \<le> RHASH_AR_TABLE_MAX_SIZE then Some (hash_ar_table hash)
                   else rb_hash_tbl_raw (env_objhash env) hash)
                else Some hash);
       if RHASH_AR_TABLE_P hash \<and> ar_table_size hash + siz \<le> RHASH_AR_TABLE_MAX_SIZE
       then Some (ar_bulk_insert (env_objhash env) stringify hash argv)
       else do {
         hash \<leftarrow> rb_hash_tbl_raw (env_objhash env) hash;
         (case as_table hash of
            As_ar _ \<Rightarrow> None
          | As_st tab \<Rightarrow> do {
              tab \<leftarrow> rb_hash_bulk_insert_into_st_table stringify tab argv;
              Some (RHASH_ST_TABLE_SET hash tab)
            })
       }
     })"

text \<open>\<open>Hash#clear\<close> outside of an iteration.\<close>

definition rb_hash_clear_table :: "RHash \<Rightarrow> RHash" where
  "rb_hash_clear_table hash = (case as_table hash of
     As_ar _ \<Rightarrow> ar_clear hash
   | As_st tab \<Rightarrow> RHASH_ST_TABLE_SET hash (st_clear tab))"

end
