(* ===== verification/RHash_Ops.thy ===== *)
theory RHash_Ops
  imports RHash
begin

text \<open>
  A hash keeps its contents and their order across the conversion from the array table to the
  table of st.c: the operations of hash.c, whichever table is in use, are another implementation of
  \<open>ordered_hash\<close>.
\<close>

section \<open>The abstraction\<close>

definition rhash_alist :: "RHash \<Rightarrow> (VALUE \<times> VALUE) list" where
  "rhash_alist hash = (case as_table hash of As_ar _ \<Rightarrow> ar_alist hash | As_st tab \<Rightarrow> st_alist tab)"

definition rhash_equal :: "st_hash_type \<Rightarrow> RHash \<Rightarrow> VALUE \<Rightarrow> VALUE \<Rightarrow> bool" where
  "rhash_equal ty hash = (case as_table hash of As_ar _ \<Rightarrow> ar_equal ty | As_st tab \<Rightarrow> EQUAL tab)"

definition rhash_inv :: "st_hash_type \<Rightarrow> RHash \<Rightarrow> bool" where
  "rhash_inv ty hash \<longleftrightarrow> objhash_ok ty \<and> length (ar_hint_ary hash) = RHASH_AR_TABLE_MAX_SIZE \<and>
     (case as_table hash of As_ar _ \<Rightarrow> ar_inv ty hash
      | As_st tab \<Rightarrow> st_inv tab \<and> ar_table_size hash = 0 \<and> ar_table_bound hash = 0)"

definition rhash_room :: "RHash \<Rightarrow> bool" where
  "rhash_room hash \<longleftrightarrow> (case as_table hash of As_ar _ \<Rightarrow> True | As_st tab \<Rightarrow> st_capacity tab)"

abbreviation not_Qundef :: "VALUE \<Rightarrow> bool" where
  "not_Qundef k \<equiv> k \<noteq> Qundef"

lemma rhash_inv_cases:
  assumes "rhash_inv ty hash"
  obtains (ar) t where "as_table hash = As_ar t" "ar_inv ty hash" "rhash_alist hash = ar_alist hash"
      "rhash_equal ty hash = ar_equal ty" "objhash_ok ty"
  | (st) tab where "as_table hash = As_st tab" "st_inv tab" "rhash_alist hash = st_alist tab"
      "rhash_equal ty hash = EQUAL tab" "objhash_ok ty"
  using assms by (cases "as_table hash") (auto simp: rhash_inv_def rhash_alist_def rhash_equal_def)

lemma rhash_inv_ar: "as_table hash = As_ar t \<Longrightarrow> ar_inv ty hash \<Longrightarrow> rhash_inv ty hash"
  by (simp add: rhash_inv_def ar_inv_def)

lemma rhash_set_st:
  assumes "rhash_inv ty hash" "as_table hash = As_st tab0" "st_inv tab"
  shows "rhash_inv ty (RHASH_ST_TABLE_SET hash tab) \<and> rhash_alist (RHASH_ST_TABLE_SET hash tab) = st_alist tab \<and>
    rhash_equal ty (RHASH_ST_TABLE_SET hash tab) = EQUAL tab"
  using assms by (simp add: rhash_inv_def RHASH_ST_TABLE_SET_def rhash_alist_def rhash_equal_def)

lemma ar_inv_as: "ar_inv ty h \<Longrightarrow> \<exists>t. as_table h = As_ar t"
  by (auto simp: ar_inv_def ar_shape_def split: if_splits)

section \<open>Lookup and deletion\<close>

lemma hash_stlike_lookup_refines:
  assumes inv: "rhash_inv ty hash" and k: "k \<noteq> Qundef"
  shows "hash_stlike_lookup ty hash k = Some (map_option snd (al_find (rhash_equal ty hash) k (rhash_alist hash)))"
  using inv
proof (cases rule: rhash_inv_cases)
  case (ar t)
  then show ?thesis using ar_lookup_refines [OF ar(2) k] by (simp add: hash_stlike_lookup_def)
next
  case (st tab)
  then show ?thesis using st_lookup_refines [OF st(2)] by (simp add: hash_stlike_lookup_def)
qed

lemma rb_hash_stlike_delete_refines:
  assumes inv: "rhash_inv ty hash" and k: "k \<noteq> Qundef"
  shows "\<exists>h. rb_hash_stlike_delete ty hash k = Some (case al_find (rhash_equal ty hash) k (rhash_alist hash) of
        None \<Rightarrow> (h, 0, 0) | Some (_, v) \<Rightarrow> (h, 1, v)) \<and>
    rhash_inv ty h \<and> rhash_equal ty h = rhash_equal ty hash \<and>
    rhash_alist h = al_del (rhash_equal ty hash) k (rhash_alist hash)"
  using inv
proof (cases rule: rhash_inv_cases)
  case (ar t)
  obtain h where h: "ar_delete ty hash k = (case al_find (ar_equal ty) k (ar_alist hash) of
        None \<Rightarrow> (h, 0, 0) | Some (_, v) \<Rightarrow> (h, 1, v))"
    "ar_inv ty h" "ar_alist h = al_del (ar_equal ty) k (ar_alist hash)"
    using ar_delete_refines [OF ar(2) k] by blast
  obtain t' where t': "as_table h = As_ar t'" using ar_inv_as [OF h(2)] by blast
  show ?thesis
    using ar h t' rhash_inv_ar [OF t' h(2)]
    by (intro exI [of _ h]) (simp add: rb_hash_stlike_delete_def rhash_alist_def rhash_equal_def)
next
  case (st tab)
  obtain tab' where t: "st_delete tab k = Some (case al_find (EQUAL tab) k (st_alist tab) of
        None \<Rightarrow> (tab', 0, k, 0) | Some (k', v') \<Rightarrow> (tab', 1, k', v'))"
    "st_inv tab'" "st_type tab' = st_type tab" "st_alist tab' = al_del (EQUAL tab) k (st_alist tab)"
    using st_delete_refines [OF st(2), of k] by blast
  note s = rhash_set_st [OF inv st(1) t(2)]
  have "EQUAL tab' = EQUAL tab" using t(3) by (simp add: EQUAL_type_equal)
  moreover have "rb_hash_stlike_delete ty hash k = Some (case al_find (EQUAL tab) k (st_alist tab) of
        None \<Rightarrow> (RHASH_ST_TABLE_SET hash tab', 0, 0) | Some (_, v) \<Rightarrow> (RHASH_ST_TABLE_SET hash tab', 1, v))"
    using t(1) st(1) by (cases "al_find (EQUAL tab) k (st_alist tab)") (auto simp: rb_hash_stlike_delete_def)
  ultimately show ?thesis
    using s st(3,4) t(4) by (intro exI [of _ "RHASH_ST_TABLE_SET hash tab'"]) simp
qed

section \<open>Update\<close>

lemma rhash_st_update_refines:
  assumes inv: "rhash_inv ty hash" and st: "as_table hash = As_st tab" and cap: "st_capacity tab"
    and func: "\<And>k0 v0 ex k' v'. EQUAL tab k k0 \<Longrightarrow> ex \<or> k0 = k \<Longrightarrow> func k0 v0 ex = (ST_CONTINUE, k', v') \<Longrightarrow>
      EQUAL tab k0 k'"
  shows "\<exists>h. rhash_st_update hash k func = Some (h, if al_find (EQUAL tab) k (st_alist tab) = None then 0 else 1) \<and>
    rhash_inv ty h \<and> rhash_equal ty h = EQUAL tab \<and> rhash_alist h = al_update (EQUAL tab) k func 0 (st_alist tab)"
proof -
  have sinv: "st_inv tab" using inv st by (simp add: rhash_inv_def)
  have "\<exists>tab'. st_update tab k func = Some (tab', al_find (EQUAL tab) k (st_alist tab) \<noteq> None) \<and>
    st_inv tab' \<and> st_type tab' = st_type tab \<and> st_alist tab' = al_update (EQUAL tab) k func 0 (st_alist tab)"
    by (rule st_update_refines [OF sinv cap func])
  then obtain tab' where t: "st_update tab k func = Some (tab', al_find (EQUAL tab) k (st_alist tab) \<noteq> None)"
    "st_inv tab'" "st_type tab' = st_type tab" "st_alist tab' = al_update (EQUAL tab) k func 0 (st_alist tab)" by blast
  note s = rhash_set_st [OF inv st t(2)]
  have "EQUAL tab' = EQUAL tab" using t(3) by (simp add: EQUAL_type_equal)
  then show ?thesis using s t st by (intro exI [of _ "RHASH_ST_TABLE_SET hash tab'"]) (simp add: rhash_st_update_def)
qed

text \<open>
  A full array table is converted and the update runs again on the new table; the contents follow
  \<open>al_update\<close> all the same.
\<close>

definition keeps_key :: "(VALUE \<Rightarrow> VALUE \<Rightarrow> bool) \<Rightarrow> VALUE \<Rightarrow> st_update_callback_func \<Rightarrow> bool" where
  "keeps_key eq k func \<longleftrightarrow> (\<forall>k0 v0 ex k' v'. eq k k0 \<longrightarrow> ex \<or> k0 = k \<longrightarrow> func k0 v0 ex = (ST_CONTINUE, k', v') \<longrightarrow>
     eq k0 k' \<and> (k0 \<noteq> Qundef \<longrightarrow> k' \<noteq> Qundef))"

lemma keeps_keyD:
  "keeps_key eq k func \<Longrightarrow> eq k k0 \<Longrightarrow> ex \<or> k0 = k \<Longrightarrow> func k0 v0 ex = (ST_CONTINUE, k', v') \<Longrightarrow> eq k0 k'"
  unfolding keeps_key_def by blast

lemma rb_hash_stlike_update_refines:
  assumes inv: "rhash_inv ty hash" and room: "rhash_room hash" and k: "k \<noteq> Qundef"
    and func: "keeps_key (rhash_equal ty hash) k func"
  shows "\<exists>h. rb_hash_stlike_update ty hash k func =
      Some (h, if al_find (rhash_equal ty hash) k (rhash_alist hash) = None then 0 else 1) \<and>
    rhash_inv ty h \<and> rhash_equal ty h = rhash_equal ty hash \<and>
    rhash_alist h = al_update (rhash_equal ty hash) k func 0 (rhash_alist hash)"
  using inv
proof (cases rule: rhash_inv_cases)
  case (st tab)
  then have "st_capacity tab" using room by (simp add: rhash_room_def)
  from rhash_st_update_refines [OF inv st(1) this] keeps_keyD [OF func] st show ?thesis
    by (simp add: rb_hash_stlike_update_def RHASH_AR_TABLE_P_def)
next
  case (ar t0)
  have "update_keeps_key (ar_equal ty) not_Qundef k func"
    using func unfolding ar(4) update_keeps_key_def keeps_key_def by blast
  from ar_update_refines [OF ar(2) k this] obtain h r where h: "ar_update ty hash k func = (h, r)" "ar_inv ty h"
    "if al_find (ar_equal ty) k (ar_alist hash) = None \<and> fst (func k 0 False) = ST_CONTINUE \<and> 8 \<le> ar_table_size hash
     then r = -1 \<and> ar_alist h = ar_alist hash
     else ar_alist h = al_update (ar_equal ty) k func 0 (ar_alist hash) \<and>
       r = (if al_find (ar_equal ty) k (ar_alist hash) = None then 0 else 1)" by blast
  have arp: "RHASH_AR_TABLE_P hash" using ar(1) by (simp add: RHASH_AR_TABLE_P_def)
  obtain t where t: "as_table h = As_ar t" using ar_inv_as [OF h(2)] by blast
  show ?thesis
  proof (cases "al_find (ar_equal ty) k (ar_alist hash) = None \<and> fst (func k 0 False) = ST_CONTINUE \<and> 8 \<le> ar_table_size hash")
    case False
    then have r: "ar_alist h = al_update (ar_equal ty) k func 0 (ar_alist hash)"
      "r = (if al_find (ar_equal ty) k (ar_alist hash) = None then 0 else 1)"
      using h(3) unfolding if_not_P [OF False] by blast+
    then have "r \<noteq> -1" by simp
    then show ?thesis
      using h(1) t arp ar r rhash_inv_ar [OF t h(2)]
      by (simp add: rb_hash_stlike_update_def rhash_alist_def rhash_equal_def)
  next
    case True
    then have r: "r = -1" "ar_alist h = ar_alist hash" using h(3) unfolding if_P [OF True] by blast+
    have full: "8 \<le> ar_table_size h" using True ar_inv_size [OF h(2)] ar_inv_size [OF ar(2)] r(2) by simp
    obtain c tab where c: "ar_try_convert_table ty h = Some c" "as_table c = As_st tab" "st_inv tab" "st_type tab = ty"
      "st_alist tab = ar_alist h" "ar_table_size c = 0" "ar_table_bound c = 0" "length (ar_hint_ary c) = length (ar_hint_ary h)"
      using ar_try_convert_table_refines [OF h(2) full] by blast
    have eq: "EQUAL tab = ar_equal ty" using c(4) ar(5) by (simp add: EQUAL_type_equal ar_equal_type_equal)
    have cinv: "rhash_inv ty c" using c h(2) ar(5) by (simp add: rhash_inv_def ar_inv_def)
    have "length (ar_alist h) \<le> 8" using ar_alist_length [of h] ar_inv_bound [OF h(2)] by simp
    then have "length (live tab) \<le> 8" using c(5) by (simp add: st_alist_def flip: length_map [of pair_of])
    then have cap: "st_capacity tab" using c(3) by (simp add: st_capacity_def st_inv_def)
    have func': "EQUAL tab k k0 \<Longrightarrow> ex \<or> k0 = k \<Longrightarrow> func k0 v0 ex = (ST_CONTINUE, k', v') \<Longrightarrow> EQUAL tab k0 k'" for k0 v0 ex k' v'
      using keeps_keyD [OF func] ar(4) eq by simp
    have "\<exists>h'. rhash_st_update c k func = Some (h', if al_find (EQUAL tab) k (st_alist tab) = None then 0 else 1) \<and>
        rhash_inv ty h' \<and> rhash_equal ty h' = EQUAL tab \<and>
        rhash_alist h' = al_update (EQUAL tab) k func 0 (st_alist tab)"
      by (rule rhash_st_update_refines [OF cinv c(2) cap func'])
    then show ?thesis
      using h(1) r arp c ar eq by (simp add: rb_hash_stlike_update_def)
  qed
qed

section \<open>The hash as an ordered hash\<close>

lemma al_update_aset:
  assumes "equivp eq" "al_distinct eq xs"
  shows "al_update eq k (hash_aset v) z xs = al_put eq k v xs"
proof (cases "al_find eq k xs")
  case None
  then show ?thesis by (simp add: al_update_def hash_aset_def al_put_find_None)
next
  case (Some p)
  obtain a b where p: "p = (a, b)" by (cases p)
  from Some have "map (\<lambda>q. if eq k (fst q) then (a, v) else q) xs = al_put eq k v xs" unfolding p
    using assms(2)
  proof (induction xs)
    case (Cons q xs)
    show ?case
    proof (cases "eq k (fst q)")
      case True
      then have "al_absent eq k xs"
        using Cons.prems(2) al_distinct_around(2) [OF assms(1), of "[]" q xs k] by simp
      then show ?thesis using True Cons.prems(1) map_replace_absent [where eq = eq and k = k] by simp
    next
      case False
      with Cons show ?thesis by simp
    qed
  qed simp
  with Some show ?thesis by (simp add: p al_update_def hash_aset_def)
qed

type_synonym typed_hash = "st_hash_type \<times> RHash"

definition rh_insert :: "typed_hash \<Rightarrow> VALUE \<Rightarrow> VALUE \<Rightarrow> typed_hash option" where
  "rh_insert s k v = map_option (\<lambda>r. (fst s, fst r)) (rb_hash_stlike_update (fst s) (snd s) k (hash_aset v))"

definition rh_delete :: "typed_hash \<Rightarrow> VALUE \<Rightarrow> typed_hash option" where
  "rh_delete s k = map_option (\<lambda>r. (fst s, fst r)) (rb_hash_stlike_delete (fst s) (snd s) k)"

lemma rhash_inv_equiv: "rhash_inv ty hash \<Longrightarrow> equivp (rhash_equal ty hash)"
  by (erule rhash_inv_cases) (simp_all add: ar_equal_equivp st_inv_equiv)

lemma rhash_inv_distinct: "rhash_inv ty hash \<Longrightarrow> al_distinct (rhash_equal ty hash) (rhash_alist hash)"
  by (erule rhash_inv_cases) (simp_all add: st_inv_distinct, simp add: ar_inv_def)

lemma keeps_key_aset: "rhash_inv ty hash \<Longrightarrow> keeps_key (rhash_equal ty hash) k (hash_aset v)"
  using equivp_reflp [OF rhash_inv_equiv] by (auto simp: keeps_key_def hash_aset_def)

interpretation rh: ordered_hash not_Qundef "\<lambda>s. rhash_equal (fst s) (snd s)" "\<lambda>s. rhash_inv (fst s) (snd s)"
  "\<lambda>s. rhash_alist (snd s)" "\<lambda>s. rhash_room (snd s)" "\<lambda>s. hash_stlike_lookup (fst s) (snd s)" rh_insert rh_delete
proof unfold_locales
  fix s :: typed_hash and k v
  assume inv: "rhash_inv (fst s) (snd s)"
  show "equivp (rhash_equal (fst s) (snd s))" by (rule rhash_inv_equiv [OF inv])
  show "al_distinct (rhash_equal (fst s) (snd s)) (rhash_alist (snd s))" by (rule rhash_inv_distinct [OF inv])
  assume k: "not_Qundef k"
  show "hash_stlike_lookup (fst s) (snd s) k =
      Some (map_option snd (al_find (rhash_equal (fst s) (snd s)) k (rhash_alist (snd s))))"
    by (rule hash_stlike_lookup_refines [OF inv k])
  obtain h where h: "rb_hash_stlike_delete (fst s) (snd s) k =
      Some (case al_find (rhash_equal (fst s) (snd s)) k (rhash_alist (snd s)) of None \<Rightarrow> (h, 0, 0) | Some (_, v) \<Rightarrow> (h, 1, v))"
    "rhash_inv (fst s) h" "rhash_equal (fst s) h = rhash_equal (fst s) (snd s)"
    "rhash_alist h = al_del (rhash_equal (fst s) (snd s)) k (rhash_alist (snd s))"
    using rb_hash_stlike_delete_refines [OF inv k] by blast
  then have "rh_delete s k = Some (fst s, h)"
    by (simp add: rh_delete_def split: option.splits prod.splits)
  with h show "\<exists>s'. rh_delete s k = Some s' \<and> rhash_inv (fst s') (snd s') \<and>
      rhash_equal (fst s') (snd s') = rhash_equal (fst s) (snd s) \<and>
      rhash_alist (snd s') = al_del (rhash_equal (fst s) (snd s)) k (rhash_alist (snd s))"
    by auto
  assume room: "rhash_room (snd s)"
  show "\<exists>s'. rh_insert s k v = Some s' \<and> rhash_inv (fst s') (snd s') \<and>
      rhash_equal (fst s') (snd s') = rhash_equal (fst s) (snd s) \<and>
      rhash_alist (snd s') = al_put (rhash_equal (fst s) (snd s)) k v (rhash_alist (snd s))"
    using rb_hash_stlike_update_refines [OF inv room k keeps_key_aset [OF inv], of v]
      al_update_aset [OF rhash_inv_equiv [OF inv] rhash_inv_distinct [OF inv]]
    by (auto simp: rh_insert_def)
qed

end
