(* ===== verification/RHash_Properties.thy ===== *)
theory RHash_Properties
  imports RHash_Ops St_Hash
begin

text \<open>
  What the development shows of hash.c: the array table and its conversion, \<open>Hash#[]=\<close>,
  \<open>Hash#delete\<close>, \<open>Hash#[]\<close> and the iteration level.
\<close>

section \<open>Example hashes\<close>

lemma objhash_ok_numhash: "objhash_ok type_numhash"
  using st_type_ok_numhash by (simp add: objhash_ok_def type_numhash_def st_numcmp_def)

definition empty_hash :: RHash where "empty_hash = hash_alloc"

lemma empty_hash_facts: "ar_inv type_numhash empty_hash" "rhash_inv type_numhash empty_hash"
  "rhash_alist empty_hash = []" "rhash_room empty_hash" "rhash_equal type_numhash empty_hash x y \<longleftrightarrow> x = y"
proof -
  show ar: "ar_inv type_numhash empty_hash"
    using objhash_ok_numhash
    by (simp add: ar_inv_def empty_hash_def hash_alloc_def ar_alist_def ar_cells_def al_distinct_def
        RHASH_AR_TABLE_MAX_BOUND_def)
  show "rhash_inv type_numhash empty_hash" by (rule rhash_inv_ar [OF _ ar]) (simp add: empty_hash_def hash_alloc_def)
  show "rhash_alist empty_hash = []" "rhash_room empty_hash"
    by (simp_all add: empty_hash_def hash_alloc_def rhash_alist_def ar_alist_def ar_cells_def rhash_room_def)
  show "rhash_equal type_numhash empty_hash x y \<longleftrightarrow> x = y"
    by (simp add: rhash_equal_def empty_hash_def hash_alloc_def ar_equal_def type_numhash_def st_numcmp_def)
qed

text \<open>
  Objects compared by their number, but for a string at address 56 and its frozen copy at 1056, which
  are two objects and equal.
\<close>

definition text_of :: "VALUE \<Rightarrow> VALUE" where "text_of k = (if k = 1056 then 56 else k)"

definition type_texthash :: st_hash_type where
  "type_texthash = \<lparr>type_compare = (\<lambda>x y. st_numcmp (text_of x) (text_of y)), type_hash = (\<lambda>x. st_numhash (text_of x))\<rparr>"

lemma objhash_ok_texthash: "objhash_ok type_texthash"
proof -
  have "st_type_ok type_texthash"
    by (rule st_type_ok_via [where g = text_of]) (simp_all add: type_texthash_def st_numcmp_def)
  then show ?thesis by (auto simp: objhash_ok_def type_texthash_def st_numcmp_def text_of_def Qundef_def)
qed

text \<open>Eight pairs, none cleared: the next insertion has to convert.\<close>

definition full_hash :: RHash where
  "full_hash = \<lparr>as_table = As_ar (Some (map (\<lambda>n. (of_nat n, of_nat n)) [1..<9])),
     ar_hint_ary = map (\<lambda>n. ar_do_hash_hint (ar_do_hash type_numhash (of_nat n))) [1..<9],
     ar_table_size = 8, ar_table_bound = 8\<rparr>"

lemma full_hash_cells: "ar_cells full_hash =
    map (\<lambda>n. (ar_do_hash_hint (ar_do_hash type_numhash (of_nat n)), (of_nat n, of_nat n))) [1..<9]"
  by (simp add: ar_cells_def ar_cell_def full_hash_def ar_hint_def RHASH_AR_TABLE_REF_def RHASH_AR_TABLE_def
      upt_conv_Cons)

lemma full_hash_used: "filter used_cell (ar_cells full_hash) = ar_cells full_hash"
  unfolding full_hash_cells by (simp add: used_cell_def Qundef_def upt_conv_Cons)

lemma full_hash_alist: "ar_alist full_hash = map (\<lambda>n. (of_nat n, of_nat n)) [1..<9]"
  unfolding ar_alist_def full_hash_used by (simp add: full_hash_cells)

lemma full_hash_shape:
  assumes "objhash_ok ty" "al_distinct (ar_equal ty) (ar_alist full_hash)"
    and "\<forall>c \<in> set (ar_cells full_hash). used_cell c \<longrightarrow> cell_ok ty c"
  shows "ar_inv ty full_hash"
  unfolding ar_inv_def using assms full_hash_alist
  by (simp add: ar_shape_def RHASH_AR_TABLE_MAX_SIZE_def RHASH_AR_TABLE_MAX_BOUND_def)
    (simp add: full_hash_def)

lemma full_hash_inv: "ar_inv type_numhash full_hash"
proof (rule full_hash_shape [OF objhash_ok_numhash])
  show "al_distinct (ar_equal type_numhash) (ar_alist full_hash)"
    unfolding full_hash_alist
    by (simp add: al_distinct_def ar_equal_def type_numhash_def st_numcmp_def upt_conv_Cons)
  show "\<forall>c \<in> set (ar_cells full_hash). used_cell c \<longrightarrow> cell_ok type_numhash c"
    unfolding full_hash_cells by (simp add: cell_ok_def Qundef_def upt_conv_Cons)
qed

lemma full_hash_text_inv: "ar_inv type_texthash full_hash"
proof (rule full_hash_shape [OF objhash_ok_texthash])
  show "al_distinct (ar_equal type_texthash) (ar_alist full_hash)"
    unfolding full_hash_alist
    by (simp add: al_distinct_def ar_equal_def type_texthash_def st_numcmp_def upt_conv_Cons text_of_def)
  show "\<forall>c \<in> set (ar_cells full_hash). used_cell c \<longrightarrow> cell_ok type_texthash c"
    unfolding full_hash_cells
    by (simp add: cell_ok_def Qundef_def upt_conv_Cons ar_do_hash_def type_numhash_def type_texthash_def text_of_def)
qed

lemma full_hash_facts: "rhash_inv type_numhash full_hash" "rhash_room full_hash"
  "rhash_alist full_hash = map (\<lambda>n. (of_nat n, of_nat n)) [1..<9]"
  "rhash_equal type_numhash full_hash x y \<longleftrightarrow> x = y"
  "rhash_inv type_texthash full_hash" "rhash_equal type_texthash full_hash x y \<longleftrightarrow> text_of x = text_of y"
proof -
  show "rhash_inv type_numhash full_hash" by (rule rhash_inv_ar [OF _ full_hash_inv]) (simp add: full_hash_def)
  show "rhash_inv type_texthash full_hash" by (rule rhash_inv_ar [OF _ full_hash_text_inv]) (simp add: full_hash_def)
  show "rhash_room full_hash" by (simp add: rhash_room_def full_hash_def)
  show "rhash_alist full_hash = map (\<lambda>n. (of_nat n, of_nat n)) [1..<9]"
    using full_hash_alist by (simp add: rhash_alist_def full_hash_def)
  show "rhash_equal type_numhash full_hash x y \<longleftrightarrow> x = y"
    by (simp add: rhash_equal_def full_hash_def ar_equal_def type_numhash_def st_numcmp_def)
  show "rhash_equal type_texthash full_hash x y \<longleftrightarrow> text_of x = text_of y"
    by (simp add: rhash_equal_def full_hash_def ar_equal_def type_texthash_def st_numcmp_def)
qed

section \<open>The array table and its conversion\<close>

definition converted :: "st_hash_type \<Rightarrow> RHash \<Rightarrow> RHash option \<Rightarrow> bool" where
  "converted ty hash r \<longleftrightarrow> (\<exists>h tab. r = Some h \<and> as_table h = As_st tab \<and> rhash_inv ty h \<and>
     st_alist tab = ar_alist hash \<and>
     (\<forall>k. k \<noteq> Qundef \<longrightarrow> hash_stlike_lookup ty h k = hash_stlike_lookup ty hash k))"

lemma convertedI:
  assumes inv: "ar_inv ty hash"
    and h: "as_table h = As_st tab" "st_inv tab" "st_type tab = ty" "st_alist tab = ar_alist hash"
      "ar_table_size h = 0" "ar_table_bound h = 0" "length (ar_hint_ary h) = length (ar_hint_ary hash)"
  shows "converted ty hash (Some h)"
proof -
  obtain t where t: "as_table hash = As_ar t" using ar_inv_as [OF inv] by blast
  have rinv: "rhash_inv ty hash" by (rule rhash_inv_ar [OF t inv])
  have ok: "objhash_ok ty" using inv by (simp add: ar_inv_def)
  have hinv: "rhash_inv ty h" using h ok inv by (simp add: rhash_inv_def ar_inv_def)
  have "rhash_equal ty h = rhash_equal ty hash" "rhash_alist h = rhash_alist hash"
    using h t ok by (simp_all add: rhash_equal_def rhash_alist_def EQUAL_type_equal ar_equal_type_equal)
  with hinv rinv show ?thesis using h(1,4) by (simp add: converted_def hash_stlike_lookup_refines)
qed

text \<open>C13: Converting the array table, forced or because it is full, yields a well-formed table of
  st.c with the same pairs in the same order and leaves the array part of the object empty; the
  search of either table then gives the same answer for every key.\<close>

theorem ar_convert_correct:
  assumes "ar_inv ty hash"
  shows "converted ty hash (ar_force_convert_table ty hash) \<and>
    (ar_table_size hash = RHASH_AR_TABLE_MAX_SIZE \<longrightarrow> converted ty hash (ar_try_convert_table ty hash))"
proof (intro conjI impI)
  show "converted ty hash (ar_force_convert_table ty hash)"
    using ar_force_convert_table_refines [OF assms] convertedI [OF assms] by fastforce
  assume "ar_table_size hash = RHASH_AR_TABLE_MAX_SIZE"
  then have "8 \<le> ar_table_size hash" by (simp add: RHASH_AR_TABLE_MAX_SIZE_def)
  from ar_try_convert_table_refines [OF assms this] show "converted ty hash (ar_try_convert_table ty hash)"
    using convertedI [OF assms] by fastforce
qed

theorem ar_convert_correct_witness: "converted type_numhash full_hash (ar_try_convert_table type_numhash full_hash)"
  using ar_convert_correct [OF full_hash_inv] by (simp add: full_hash_def RHASH_AR_TABLE_MAX_SIZE_def)

text \<open>Compacting an array table moves the pairs down over the cleared ones without changing
  them or their order, so that the bound becomes the number of pairs.\<close>

theorem ar_compact_table_correct:
  assumes "ar_inv ty hash"
  shows "ar_inv ty (ar_compact_table hash) \<and> ar_alist (ar_compact_table hash) = ar_alist hash \<and>
    ar_table_bound (ar_compact_table hash) = length (ar_alist hash)"
  using ar_compact_table_spec [OF assms] ar_inv_size [OF assms] by simp

theorem ar_compact_table_correct_witness:
  "ar_alist (ar_compact_table (fst (ar_delete type_numhash full_hash 3))) =
     al_del (ar_equal type_numhash) 3 (ar_alist full_hash)"
proof -
  obtain h where h: "fst (ar_delete type_numhash full_hash 3) = h" "ar_inv type_numhash h"
    "ar_alist h = al_del (ar_equal type_numhash) 3 (ar_alist full_hash)"
    using ar_delete_refines [OF full_hash_inv, of 3] by (auto simp: Qundef_def split: option.splits)
  show ?thesis unfolding h(1) using ar_compact_table_correct [OF h(2)] h(3) by simp
qed

section \<open>Hash#[]=, Hash#[] and Hash#delete\<close>

text \<open>The key under which \<open>Hash#[]=\<close> stores a new pair.\<close>

definition stored_key :: "hash_env \<Rightarrow> RHash \<Rightarrow> VALUE \<Rightarrow> VALUE" where
  "stored_key env tab key =
    (if env_is_string env key \<and> \<not> RHASH_TYPE_is_ident env tab \<and> \<not> env_frozen env key
     then rb_hash_key_str env key else key)"

definition aset_pairs :: "hash_env \<Rightarrow> RHash \<Rightarrow> VALUE \<Rightarrow> VALUE \<Rightarrow> (VALUE \<times> VALUE) list" where
  "aset_pairs env tab key val =
    (let eq = rhash_equal (env_objhash env) tab; xs = rhash_alist tab
     in if al_find eq key xs = None then xs @ [(stored_key env tab key, val)] else al_put eq key val xs)"

lemma rhash_open_table:
  assumes inv: "rhash_inv ty tab" and room: "rhash_room tab"
  defines "tab' \<equiv> (if RHASH_TABLE_NULL_P tab then ar_alloc_table tab else tab)"
  shows "rhash_inv ty tab'" "rhash_room tab'" "rhash_alist tab' = rhash_alist tab"
    "rhash_equal ty tab' = rhash_equal ty tab" "RHASH_TYPE_is_ident env tab' = RHASH_TYPE_is_ident env tab"
    "RHASH_TABLE_NULL_P tab \<Longrightarrow> rhash_alist tab = []"
proof -
  have t: "tab' = hash_ar_table tab" by (simp add: tab'_def hash_ar_table_def)
  have "rhash_inv ty tab' \<and> rhash_room tab' \<and> rhash_alist tab' = rhash_alist tab \<and>
    rhash_equal ty tab' = rhash_equal ty tab \<and> RHASH_TYPE_is_ident env tab' = RHASH_TYPE_is_ident env tab \<and>
    (RHASH_TABLE_NULL_P tab \<longrightarrow> rhash_alist tab = [])"
  proof (cases "RHASH_TABLE_NULL_P tab")
    case True
    then have n: "as_table tab = As_ar None" by (simp add: RHASH_TABLE_NULL_P_def)
    then have ar: "ar_inv ty tab" using inv by (simp add: rhash_inv_def)
    note h = hash_ar_table_inv [OF ar]
    obtain t' where t': "as_table tab' = As_ar t'" using h t by (auto dest: ar_inv_as)
    have "ar_alist tab = []" using ar n ar_alist_length [of tab] by (simp add: ar_inv_def)
    then show ?thesis
      using n h t t' rhash_inv_ar [OF t', of ty]
      by (simp add: rhash_room_def rhash_alist_def rhash_equal_def RHASH_TYPE_is_ident_def)
  next
    case False
    then show ?thesis using inv room by (simp add: tab'_def)
  qed
  then show "rhash_inv ty tab'" "rhash_room tab'" "rhash_alist tab' = rhash_alist tab"
    "rhash_equal ty tab' = rhash_equal ty tab" "RHASH_TYPE_is_ident env tab' = RHASH_TYPE_is_ident env tab"
    "RHASH_TABLE_NULL_P tab \<Longrightarrow> rhash_alist tab = []" by blast+
qed

definition aset_callback :: "hash_env \<Rightarrow> RHash \<Rightarrow> VALUE \<Rightarrow> VALUE \<Rightarrow> st_update_callback_func" where
  "aset_callback env tab key val =
    (if RHASH_TYPE_is_ident env tab \<or> \<not> env_is_string env key then hash_aset val else hash_aset_str env val)"

text \<open>
  What \<open>Hash#[]=\<close> relies on of \<open>rb_hash_key_str\<close>, for the one key it may copy: the copy
  (\<open>rb_fstring\<close> or \<open>rb_str_new_frozen\<close>, a string of the same bytes and encoding) is a string equal to
  the key.  Nothing is asked of a frozen key, of a key that is not a string, or of a hash that compares
  by identity, as none of these is copied.
\<close>

definition key_str_ok :: "hash_env \<Rightarrow> RHash \<Rightarrow> VALUE \<Rightarrow> bool" where
  "key_str_ok env tab key \<longleftrightarrow>
    (env_is_string env key \<and> \<not> RHASH_TYPE_is_ident env tab \<and> \<not> env_frozen env key \<longrightarrow>
      rhash_equal (env_objhash env) tab key (rb_hash_key_str env key) \<and> rb_hash_key_str env key \<noteq> Qundef)"

lemma stored_key_equal:
  assumes inv: "rhash_inv (env_objhash env) tab" and ks: "key_str_ok env tab key"
  shows "rhash_equal (env_objhash env) tab key (stored_key env tab key) \<and>
    (key \<noteq> Qundef \<longrightarrow> stored_key env tab key \<noteq> Qundef)"
  using ks equivp_reflp [OF rhash_inv_equiv [OF inv]] by (simp add: key_str_ok_def stored_key_def)

lemma UPDATE_CALLBACK_aset:
  "UPDATE_CALLBACK lev (aset_callback env tab key val) k0 v0 ex =
    (if 0 < lev \<and> \<not> ex then (ST_STOP, k0, v0)
     else (ST_CONTINUE, if env_is_string env key \<and> \<not> RHASH_TYPE_is_ident env tab \<and> \<not> ex \<and> \<not> env_frozen env k0
       then rb_hash_key_str env k0 else k0, val))"
  by (simp add: UPDATE_CALLBACK_def noinsert_callback_def insert_callback_def aset_callback_def hash_aset_def
      hash_aset_str_def)

lemma aset_callback_keeps_key:
  assumes inv: "rhash_inv (env_objhash env) tab" and ks: "key_str_ok env tab key"
  shows "keeps_key (rhash_equal (env_objhash env) tab) key (UPDATE_CALLBACK lev (aset_callback env tab key val))"
proof -
  have refl: "rhash_equal (env_objhash env) tab k k" for k using equivp_reflp [OF rhash_inv_equiv [OF inv]] .
  show ?thesis
    unfolding keeps_key_def UPDATE_CALLBACK_aset
    using ks refl by (auto simp: key_str_ok_def)
qed

lemma al_find_append: "al_find eq k (xs @ ys) = (if al_find eq k xs = None then al_find eq k ys else al_find eq k xs)"
  by (induction xs) auto

lemma al_find_aset_pairs:
  assumes inv: "rhash_inv (env_objhash env) tab"
    and ks: "key_str_ok env tab key"
  shows "map_option snd (al_find (rhash_equal (env_objhash env) tab) key (aset_pairs env tab key val)) = Some val"
proof (cases "al_find (rhash_equal (env_objhash env) tab) key (rhash_alist tab)")
  case None
  have "rhash_equal (env_objhash env) tab key (stored_key env tab key)"
    using stored_key_equal [OF inv ks] by blast
  with None show ?thesis by (simp add: aset_pairs_def al_find_append)
next
  case (Some p)
  then show ?thesis
    using al_find_put [OF rhash_inv_equiv [OF inv], of key key val "rhash_alist tab"]
      equivp_reflp [OF rhash_inv_equiv [OF inv], of key] by (simp add: aset_pairs_def)
qed

text \<open>
  A string key is replaced by its frozen copy only when it is new, so the stored key of an existing
  pair stays and the contents change as \<open>aset_pairs\<close> says.
\<close>

lemma aset_update_pairs:
  assumes inv: "rhash_inv (env_objhash env) tab"
  shows "al_update (rhash_equal (env_objhash env) tab) key (UPDATE_CALLBACK lev (aset_callback env tab key val)) 0
      (rhash_alist tab) =
    (if 0 < lev \<and> al_find (rhash_equal (env_objhash env) tab) key (rhash_alist tab) = None then rhash_alist tab
     else aset_pairs env tab key val)"
proof (cases "al_find (rhash_equal (env_objhash env) tab) key (rhash_alist tab)")
  case None
  then show ?thesis by (simp add: al_update_def UPDATE_CALLBACK_aset aset_pairs_def stored_key_def)
next
  case (Some p)
  then have "al_update (rhash_equal (env_objhash env) tab) key (UPDATE_CALLBACK lev (aset_callback env tab key val)) 0
        (rhash_alist tab) =
      al_update (rhash_equal (env_objhash env) tab) key (hash_aset val) 0 (rhash_alist tab)"
    by (cases p) (simp add: al_update_def UPDATE_CALLBACK_aset hash_aset_def)
  then show ?thesis
    using Some al_update_aset [OF rhash_inv_equiv [OF inv] rhash_inv_distinct [OF inv]] by (simp add: aset_pairs_def)
qed

lemma RHASH_UPDATE_ITER_aset:
  assumes inv: "rhash_inv (env_objhash env) tab" and room: "rhash_room tab" and k: "key \<noteq> Qundef"
    and ks: "key_str_ok env tab key"
  shows "if 0 < lev \<and> al_find (rhash_equal (env_objhash env) tab) key (rhash_alist tab) = None
    then RHASH_UPDATE_ITER env tab lev key (aset_callback env tab key val) = Some (Inl NoNewKey)
    else \<exists>tab'. RHASH_UPDATE_ITER env tab lev key (aset_callback env tab key val) = Some (Inr tab') \<and>
      rhash_inv (env_objhash env) tab' \<and> rhash_equal (env_objhash env) tab' = rhash_equal (env_objhash env) tab \<and>
      rhash_alist tab' = aset_pairs env tab key val"
  using rb_hash_stlike_update_refines [OF inv room k aset_callback_keeps_key [OF inv ks], of lev val]
  unfolding aset_update_pairs [OF inv]
  by (auto simp: RHASH_UPDATE_ITER_def tbl_update_def)

text \<open>C11: \<open>Hash#[]=\<close> raises FrozenError on a frozen hash; during an iteration it refuses a new key
  (\<open>can't add a new key into hash during iteration\<close>) but still overwrites an existing one; otherwise
  it always returns, converting the table when it has to, and the contents change in exactly one
  place: the value of an equal key is overwritten and its stored key kept, or a pair is appended,
  under a frozen copy of an unfrozen string key.  \<open>Hash#[]\<close> then reads the new value.\<close>

theorem rb_hash_aset_correct:
  assumes inv: "rhash_inv (env_objhash env) (hash_table hash)" and room: "rhash_room (hash_table hash)"
    and k: "key \<noteq> Qundef" and ks: "key_str_ok env (hash_table hash) key"
  shows "if hash_frozen hash then rb_hash_aset env hash key val = Some (Inl FrozenError)
    else if 0 < RHASH_ITER_LEV hash \<and>
        al_find (rhash_equal (env_objhash env) (hash_table hash)) key (rhash_alist (hash_table hash)) = None
    then rb_hash_aset env hash key val = Some (Inl NoNewKey)
    else \<exists>tab'. rb_hash_aset env hash key val = Some (Inr (hash\<lparr>hash_table := tab'\<rparr>)) \<and>
      rhash_inv (env_objhash env) tab' \<and>
      rhash_equal (env_objhash env) tab' = rhash_equal (env_objhash env) (hash_table hash) \<and>
      rhash_alist tab' = aset_pairs env (hash_table hash) key val \<and>
      rb_hash_aref call_proc env (hash\<lparr>hash_table := tab'\<rparr>) key = Some val"
proof (cases "hash_frozen hash")
  case True
  then show ?thesis by (simp add: rb_hash_aset_def Let_def)
next
  case False
  define tab where "tab = (if RHASH_TABLE_NULL_P (hash_table hash) then ar_alloc_table (hash_table hash)
    else hash_table hash)"
  note o = rhash_open_table [OF inv room, folded tab_def]
  have ks': "key_str_ok env tab key" using ks by (simp add: key_str_ok_def o(4,5))
  have pairs: "aset_pairs env tab key val = aset_pairs env (hash_table hash) key val"
    by (simp add: aset_pairs_def stored_key_def o(3-5) Let_def)
  have eq: "rb_hash_aset env hash key val =
      (if RHASH_TABLE_NULL_P (hash_table hash) \<and> 0 < RHASH_ITER_LEV hash then Some (Inl NoNewKey)
       else map_option (map_sum id (\<lambda>tab. hash\<lparr>hash_table := tab\<rparr>))
         (RHASH_UPDATE_ITER env tab (RHASH_ITER_LEV hash) key (aset_callback env tab key val)))"
    using False unfolding tab_def
    by (auto simp: rb_hash_aset_def Let_def aset_callback_def map_sum_def split: option.splits sum.splits bind_splits)
  have find: "map_option snd (al_find (rhash_equal (env_objhash env) (hash_table hash)) key
      (aset_pairs env (hash_table hash) key val)) = Some val"
    by (rule al_find_aset_pairs [OF inv ks])
  have read: "rb_hash_aref call_proc env (hash\<lparr>hash_table := tab'\<rparr>) key = Some val"
    if "rhash_inv (env_objhash env) tab'"
      "rhash_equal (env_objhash env) tab' = rhash_equal (env_objhash env) (hash_table hash)"
      "rhash_alist tab' = aset_pairs env (hash_table hash) key val" for tab'
    using hash_stlike_lookup_refines [OF that(1) k] that(2,3) find by (simp add: rb_hash_aref_def)
  from RHASH_UPDATE_ITER_aset [OF o(1,2) k ks', of "RHASH_ITER_LEV hash" val] o(3,4,6) False read
  show ?thesis unfolding eq pairs by (auto split: if_splits)
qed

definition example_env :: hash_env where
  "example_env = \<lparr>env_objhash = type_texthash, env_is_string = (\<lambda>k. text_of k = 56), env_frozen = (\<lambda>k. k \<noteq> 56),
     env_plain_string = (\<lambda>k. k = 56), env_fstring = (\<lambda>k. if k = 56 then 1056 else k),
     env_str_new_frozen = (\<lambda>k. k), env_is_identhash = (\<lambda>_. False)\<rparr>"

definition full_hash_obj :: hash_obj where
  "full_hash_obj = \<lparr>hash_table = full_hash, hash_flags = 8, lev_ivar = 0, hash_frozen = False,
     hash_ifnone = Qnil, hash_proc_default = False\<rparr>"

lemma full_hash_obj_facts:
  "rhash_inv (env_objhash example_env) (hash_table full_hash_obj)" "rhash_room (hash_table full_hash_obj)"
  "key_str_ok example_env (hash_table full_hash_obj) 56" "\<not> hash_frozen full_hash_obj"
  "RHASH_ITER_LEV full_hash_obj = 0" "hash_table full_hash_obj = full_hash" "env_objhash example_env = type_texthash"
  using full_hash_facts
  by (simp_all add: full_hash_obj_def example_env_def key_str_ok_def RHASH_ITER_LEV_def
      iter_lev_in_flags_def RHASH_LEV_MAX_def RHASH_LEV_SHIFT_def Let_def text_of_def Qundef_def rb_hash_key_str_def)

text \<open>The ninth pair converts the table, and its key is the copy of the string, which the string finds.\<close>

theorem rb_hash_aset_correct_witness:
  "\<exists>tab'. rb_hash_aset example_env full_hash_obj 56 51 = Some (Inr (full_hash_obj\<lparr>hash_table := tab'\<rparr>)) \<and>
     rhash_alist tab' = rhash_alist full_hash @ [(1056, 51)] \<and>
     rb_hash_aref (\<lambda>_ _. 0) example_env (full_hash_obj\<lparr>hash_table := tab'\<rparr>) 56 = Some 51"
proof -
  have "al_find (rhash_equal type_texthash full_hash) 56 (rhash_alist full_hash) = None"
    using full_hash_facts(3,6) by (simp add: upt_conv_Cons text_of_def)
  moreover have "\<not> RHASH_TYPE_is_ident example_env full_hash" by (simp add: RHASH_TYPE_is_ident_def full_hash_def)
  ultimately have "aset_pairs example_env full_hash 56 51 = rhash_alist full_hash @ [(1056, 51)]"
    by (simp add: aset_pairs_def stored_key_def example_env_def text_of_def rb_hash_key_str_def)
  moreover have "(56 :: VALUE) \<noteq> Qundef" by (simp add: Qundef_def)
  ultimately show ?thesis
    using rb_hash_aset_correct [OF full_hash_obj_facts(1,2) _ full_hash_obj_facts(3), of 51 "\<lambda>_ _. 0"]
      full_hash_obj_facts(4-6) by auto
qed

text \<open>Deleting an entry, which makes no check of the object.\<close>

lemma rb_hash_delete_entry_spec:
  assumes inv: "rhash_inv (env_objhash env) (hash_table hash)" and k: "key \<noteq> Qundef"
  shows "\<exists>tab'. rb_hash_delete_entry env hash key = Some (hash\<lparr>hash_table := tab'\<rparr>,
        case al_find (rhash_equal (env_objhash env) (hash_table hash)) key (rhash_alist (hash_table hash)) of
          None \<Rightarrow> Qundef | Some (_, v) \<Rightarrow> v) \<and>
      rhash_inv (env_objhash env) tab' \<and>
      rhash_alist tab' = al_del (rhash_equal (env_objhash env) (hash_table hash)) key (rhash_alist (hash_table hash)) \<and>
      (\<forall>k'. k' \<noteq> Qundef \<longrightarrow> hash_stlike_lookup (env_objhash env) tab' k' =
        (if rhash_equal (env_objhash env) (hash_table hash) k' key then Some None
         else hash_stlike_lookup (env_objhash env) (hash_table hash) k'))"
proof -
  obtain h where h: "rb_hash_stlike_delete (env_objhash env) (hash_table hash) key =
      Some (case al_find (rhash_equal (env_objhash env) (hash_table hash)) key (rhash_alist (hash_table hash)) of
        None \<Rightarrow> (h, 0, 0) | Some (_, v) \<Rightarrow> (h, 1, v))"
    "rhash_inv (env_objhash env) h" "rhash_equal (env_objhash env) h = rhash_equal (env_objhash env) (hash_table hash)"
    "rhash_alist h = al_del (rhash_equal (env_objhash env) (hash_table hash)) key (rhash_alist (hash_table hash))"
    using rb_hash_stlike_delete_refines [OF inv k] by blast
  have "rb_hash_delete_entry env hash key = Some (hash\<lparr>hash_table := h\<rparr>,
        case al_find (rhash_equal (env_objhash env) (hash_table hash)) key (rhash_alist (hash_table hash)) of
          None \<Rightarrow> Qundef | Some (_, v) \<Rightarrow> v)"
    using h(1) by (auto simp: rb_hash_delete_entry_def split: option.splits)
  moreover have "hash_stlike_lookup (env_objhash env) h k' =
        (if rhash_equal (env_objhash env) (hash_table hash) k' key then Some None
         else hash_stlike_lookup (env_objhash env) (hash_table hash) k')" if "k' \<noteq> Qundef" for k'
    using h(2-4) that inv al_find_del [OF rhash_inv_equiv [OF inv] rhash_inv_distinct [OF inv], of k' key]
    by (simp add: hash_stlike_lookup_refines)
  ultimately show ?thesis using h(2,4) by blast
qed

text \<open>The value of a pair found, where no value is \<open>Qundef\<close>.\<close>

lemma al_find_defined:
  assumes "\<forall>(k, v) \<in> set xs. v \<noteq> u" "al_find eq key xs = Some (k0, v)" shows "v \<noteq> u"
  using assms unfolding al_find_def find_Some_iff by (metis (mono_tags, lifting) case_prodD nth_mem)

text \<open>C12: \<open>Hash#delete\<close> raises FrozenError on a frozen hash.  Otherwise it removes the pair of an equal
  key and no other, keeps the order of the rest and returns the removed value, and runs no block; when
  there is no such pair the contents stay, and its answer is that of the block run after the search,
  with the hash and the key, or \<open>nil\<close> without a block.  Afterwards (before the block) the key is not
  found, and the lookup of every key that is not equal to it is what it was.\<close>

theorem rb_hash_delete_m_correct:
  assumes inv: "rhash_inv (env_objhash env) (hash_table hash)" and k: "key \<noteq> Qundef"
    and vals: "\<forall>(k, v) \<in> set (rhash_alist (hash_table hash)). v \<noteq> Qundef"
  shows "if hash_frozen hash then rb_hash_delete_m env block hash key = Some (Inl FrozenError)
    else \<exists>tab'. rb_hash_delete_m env block hash key =
        (case al_find (rhash_equal (env_objhash env) (hash_table hash)) key (rhash_alist (hash_table hash)) of
          Some (_, v) \<Rightarrow> Some (Inr (hash\<lparr>hash_table := tab'\<rparr>, v))
        | None \<Rightarrow> (case block of
            Some yield \<Rightarrow> yield (hash\<lparr>hash_table := tab'\<rparr>) key
          | None \<Rightarrow> Some (Inr (hash\<lparr>hash_table := tab'\<rparr>, Qnil)))) \<and>
      rhash_inv (env_objhash env) tab' \<and>
      rhash_alist tab' = al_del (rhash_equal (env_objhash env) (hash_table hash)) key (rhash_alist (hash_table hash)) \<and>
      (\<forall>k'. k' \<noteq> Qundef \<longrightarrow> hash_stlike_lookup (env_objhash env) tab' k' =
        (if rhash_equal (env_objhash env) (hash_table hash) k' key then Some None
         else hash_stlike_lookup (env_objhash env) (hash_table hash) k'))"
proof (cases "hash_frozen hash")
  case True
  then show ?thesis by (simp add: rb_hash_delete_m_def)
next
  case False
  obtain tab' where t: "rb_hash_delete_entry env hash key = Some (hash\<lparr>hash_table := tab'\<rparr>,
        case al_find (rhash_equal (env_objhash env) (hash_table hash)) key (rhash_alist (hash_table hash)) of
          None \<Rightarrow> Qundef | Some (_, v) \<Rightarrow> v)"
    "rhash_inv (env_objhash env) tab'"
    "rhash_alist tab' = al_del (rhash_equal (env_objhash env) (hash_table hash)) key (rhash_alist (hash_table hash))"
    "\<forall>k'. k' \<noteq> Qundef \<longrightarrow> hash_stlike_lookup (env_objhash env) tab' k' =
        (if rhash_equal (env_objhash env) (hash_table hash) k' key then Some None
         else hash_stlike_lookup (env_objhash env) (hash_table hash) k')"
    using rb_hash_delete_entry_spec [OF inv k] by (elim exE conjE) (rule that; assumption)
  have "rb_hash_delete_m env block hash key =
        (case al_find (rhash_equal (env_objhash env) (hash_table hash)) key (rhash_alist (hash_table hash)) of
          Some (_, v) \<Rightarrow> Some (Inr (hash\<lparr>hash_table := tab'\<rparr>, v))
        | None \<Rightarrow> (case block of
            Some yield \<Rightarrow> yield (hash\<lparr>hash_table := tab'\<rparr>) key
          | None \<Rightarrow> Some (Inr (hash\<lparr>hash_table := tab'\<rparr>, Qnil))))"
    using False t(1) al_find_defined [OF vals]
    by (auto simp: rb_hash_delete_m_def split: option.splits)
  with False t(2-4) show ?thesis by auto
qed

theorem rb_hash_delete_m_correct_witness:
  "(\<exists>tab'. rb_hash_delete_m example_env None full_hash_obj 3 = Some (Inr (full_hash_obj\<lparr>hash_table := tab'\<rparr>, 3)) \<and>
     rhash_alist tab' = al_del (rhash_equal type_texthash full_hash) 3 (rhash_alist full_hash)) \<and>
   map_option (map_sum (\<lambda>e. e) snd)
     (rb_hash_delete_m example_env (Some (\<lambda>h k. Some (Inr (h, k + 1)))) full_hash_obj 56) = Some (Inr 57) \<and>
   rb_hash_delete_m example_env None (full_hash_obj\<lparr>hash_frozen := True\<rparr>) 3 = Some (Inl FrozenError)"
proof -
  have found: "al_find (rhash_equal type_texthash full_hash) 3 (rhash_alist full_hash) = Some (3, 3)"
    "al_find (rhash_equal type_texthash full_hash) 56 (rhash_alist full_hash) = None"
    using full_hash_facts(3,6) by (simp_all add: upt_conv_Cons text_of_def)
  have vals: "\<forall>(k, v) \<in> set (rhash_alist (hash_table full_hash_obj)). v \<noteq> Qundef"
    using full_hash_facts(3) by (simp add: upt_conv_Cons full_hash_obj_def Qundef_def)
  have k: "(3 :: VALUE) \<noteq> Qundef" "(56 :: VALUE) \<noteq> Qundef" by (simp_all add: Qundef_def)
  note t = rb_hash_delete_m_correct [OF full_hash_obj_facts(1) _ vals]
  show ?thesis
    using t [OF k(1), of None] t [OF k(2), of "Some (\<lambda>h k. Some (Inr (h, k + 1)))"] found
      rb_hash_delete_m_correct [of example_env "full_hash_obj\<lparr>hash_frozen := True\<rparr>" 3 None]
      full_hash_obj_facts(1,4,6,7) vals k
    by auto
qed

section \<open>The iteration level\<close>

lemma iter_lev_in_flags_bits: "bit (iter_lev_in_flags hash) n \<longleftrightarrow> n < 7 \<and> bit (hash_flags hash) (n + 25)"
proof -
  have "(ucast (127 :: u32) :: u64) = mask 7" by transfer (simp add: mask_eq_exp_minus_1 take_bit_eq_mod)
  then have "iter_lev_in_flags hash = ucast (take_bit 7 (drop_bit 25 (hash_flags hash)))"
    by (simp add: iter_lev_in_flags_def RHASH_LEV_SHIFT_def RHASH_LEV_MAX_def take_bit_eq_mask del: unsigned_numeral)
  then show ?thesis
    by (auto simp: bit_ucast_iff bit_take_bit_iff bit_drop_bit_eq add.commute)
qed

lemma bit_RHASH_LEV_MASK: "bit RHASH_LEV_MASK n \<longleftrightarrow> 25 \<le> n \<and> n < 32"
proof -
  have "(127 :: u64) = mask 7" by (simp add: mask_eq_exp_minus_1)
  then have "RHASH_LEV_MASK = push_bit (12 + 13) (mask 7)" by (simp only: RHASH_LEV_MASK_def RHASH_LEV_SHIFT_def)
  then have m: "RHASH_LEV_MASK = push_bit 25 (mask 7)" by simp
  show ?thesis unfolding m bit_push_bit_iff bit_mask_iff by auto
qed

lemma bit_lev:
  assumes "(lev :: u32) < 128" shows "bit lev n \<longleftrightarrow> n < 7 \<and> bit lev n"
proof -
  have "lev = take_bit 7 lev" using assms by (simp add: take_bit_eq_mod word_less_def uint_word_ariths word_mod_def) 
  then show ?thesis by (metis bit_take_bit_iff)
qed

lemma iter_lev_in_flags_write:
  assumes "\<And>n. n < 7 \<Longrightarrow> bit x (n + 25) \<longleftrightarrow> bit (lev :: u32) n" "lev < 128"
  shows "iter_lev_in_flags (hash\<lparr>hash_flags := (hash_flags hash AND NOT RHASH_LEV_MASK) OR x\<rparr>) = lev"
proof (rule bit_word_eqI)
  fix n
  show "bit (iter_lev_in_flags (hash\<lparr>hash_flags := (hash_flags hash AND NOT RHASH_LEV_MASK) OR x\<rparr>)) n \<longleftrightarrow> bit lev n"
    using assms(1) [of n] bit_lev [OF assms(2), of n]
    by (auto simp: iter_lev_in_flags_bits bit_or_iff bit_and_iff bit_not_iff bit_RHASH_LEV_MASK)
qed

lemma iter_lev_in_flags_less: "iter_lev_in_flags hash < 128"
proof -
  have "iter_lev_in_flags hash = take_bit 7 (iter_lev_in_flags hash)"
    by (rule bit_word_eqI) (auto simp: iter_lev_in_flags_bits bit_take_bit_iff)
  then have "uint (iter_lev_in_flags hash) = take_bit 7 (uint (iter_lev_in_flags hash))"
    by (metis unsigned_take_bit_eq)
  moreover have "take_bit 7 (uint (iter_lev_in_flags hash)) < 2 ^ 7" by (rule take_bit_int_less_exp)
  ultimately show ?thesis by (simp add: word_less_def)
qed

lemma sint_small: "(x :: u32) < 128 \<Longrightarrow> sint x = uint x"
  by (simp add: sint_uint word_less_def) (rule signed_take_bit_int_eq_self, simp_all add: order_trans [OF _ uint_nonnegative])

lemma bit_push_lev: "bit (push_bit 25 (scast (lev :: u32)) :: u64) (n + 25) \<longleftrightarrow> bit lev n" if "n < 7"
  using that by (auto simp: bit_push_bit_iff bit_signed_iff)

lemma bit_push_lev_int: "bit (scast (push_bit 25 (lev :: u32)) :: u64) (n + 25) \<longleftrightarrow> bit lev n" if "n < 7"
  using that by (auto simp: bit_push_bit_iff bit_signed_iff)

lemma RHASH_ITER_LEV_inc:
  assumes "RHASH_ITER_LEV hash < 2 ^ 31 - 1"
  shows "RHASH_ITER_LEV (hash_iter_lev_inc hash) = RHASH_ITER_LEV hash + 1"
proof (cases "iter_lev_in_flags hash = 127")
  case True
  then have "iter_lev_in_flags (hash_iter_lev_inc hash) = 127"
    by (simp add: hash_iter_lev_inc_def RHASH_LEV_MAX_def iter_lev_in_ivar_set_def iter_lev_in_flags_def)
  moreover have "sint (lev_ivar hash + 1) = sint (lev_ivar hash) + 1" if "sint (lev_ivar hash) < 2 ^ 31 - 1"
    using that sint_lt [of "lev_ivar hash"] sint_ge [of "lev_ivar hash"] by (simp add: sint_word_ariths signed_take_bit_int_eq_self)
  ultimately show ?thesis using assms True
    by (simp add: RHASH_ITER_LEV_def RHASH_LEV_MAX_def hash_iter_lev_inc_def iter_lev_in_ivar_def
        iter_lev_in_ivar_set_def)
next
  case False
  have less: "iter_lev_in_flags hash < 127"
    using False iter_lev_in_flags_less [of hash] by unat_arith
  define lev where "lev = iter_lev_in_flags hash + 1"
  have lev: "lev < 128" "uint lev = uint (iter_lev_in_flags hash) + 1"
    using less unfolding lev_def by (unat_arith, simp add: uint_plus_simple_iff word_less_def uint_word_ariths)
  define h where "h = hash\<lparr>hash_flags := (hash_flags hash AND NOT RHASH_LEV_MASK) OR push_bit 25 (scast lev)\<rparr>"
  have w: "iter_lev_in_flags h = lev" unfolding h_def by (rule iter_lev_in_flags_write [OF bit_push_lev lev(1)])
  have "hash_iter_lev_inc hash = (if lev = 127 then h\<lparr>lev_ivar := lev\<rparr> else h)"
    using False by (simp add: hash_iter_lev_inc_def Let_def RHASH_LEV_MAX_def iter_lev_in_ivar_set_def RHASH_LEV_SHIFT_def
        lev_def h_def)
  moreover have "iter_lev_in_flags (h\<lparr>lev_ivar := lev\<rparr>) = iter_lev_in_flags h" by (simp add: iter_lev_in_flags_def)
  ultimately have "RHASH_ITER_LEV (hash_iter_lev_inc hash) = sint lev"
    using w by (cases "lev = 127") (simp_all add: RHASH_ITER_LEV_def RHASH_LEV_MAX_def iter_lev_in_ivar_def Let_def)
  moreover have "RHASH_ITER_LEV hash = sint (iter_lev_in_flags hash)"
    using False by (simp add: RHASH_ITER_LEV_def RHASH_LEV_MAX_def)
  ultimately show ?thesis
    using sint_small [OF lev(1)] sint_small [OF iter_lev_in_flags_less] lev(2) by simp
qed

lemma RHASH_ITER_LEV_dec:
  assumes "0 < RHASH_ITER_LEV hash"
  shows "RHASH_ITER_LEV (hash_iter_lev_dec hash) = RHASH_ITER_LEV hash - 1"
proof (cases "iter_lev_in_flags hash = 127")
  case True
  then have "iter_lev_in_flags (hash_iter_lev_dec hash) = 127"
    by (simp add: hash_iter_lev_dec_def RHASH_LEV_MAX_def iter_lev_in_ivar_set_def iter_lev_in_flags_def)
  moreover have "sint (lev_ivar hash - 1) = sint (lev_ivar hash) - 1" if "0 < sint (lev_ivar hash)"
    using that sint_lt [of "lev_ivar hash"] sint_ge [of "lev_ivar hash"] by (simp add: sint_word_ariths signed_take_bit_int_eq_self)
  ultimately show ?thesis using assms True
    by (simp add: RHASH_ITER_LEV_def RHASH_LEV_MAX_def hash_iter_lev_dec_def iter_lev_in_ivar_def
        iter_lev_in_ivar_set_def)
next
  case False
  have f: "RHASH_ITER_LEV hash = sint (iter_lev_in_flags hash)"
    using False by (simp add: RHASH_ITER_LEV_def RHASH_LEV_MAX_def)
  then have pos: "0 < uint (iter_lev_in_flags hash)" using assms sint_small [OF iter_lev_in_flags_less] by simp
  let ?lev = "iter_lev_in_flags hash - 1"
  have "uint (iter_lev_in_flags hash) < 127"
    using False iter_lev_in_flags_less [of hash] by (simp add: word_less_def word_uint_eq_iff)
  then have lev: "?lev < 128" "uint ?lev = uint (iter_lev_in_flags hash) - 1" "?lev \<noteq> 127"
    using pos by (simp_all add: word_less_def uint_word_ariths word_uint_eq_iff)
  let ?h = "hash\<lparr>hash_flags := (hash_flags hash AND NOT RHASH_LEV_MASK) OR scast (push_bit 25 ?lev)\<rparr>"
  have w: "iter_lev_in_flags ?h = ?lev" by (rule iter_lev_in_flags_write [OF bit_push_lev_int lev(1)])
  have "hash_iter_lev_dec hash = ?h"
    using False by (simp add: hash_iter_lev_dec_def Let_def RHASH_LEV_MAX_def RHASH_LEV_SHIFT_def)
  then have "RHASH_ITER_LEV (hash_iter_lev_dec hash) = sint ?lev"
    using w lev(3) by (simp add: RHASH_ITER_LEV_def RHASH_LEV_MAX_def Let_def)
  then show ?thesis
    using f sint_small [OF lev(1)] sint_small [OF iter_lev_in_flags_less] lev(2) by simp
qed

text \<open>C14: However it is stored (seven bits of the flags up to 126, an instance variable from 127 on and
  for ever after), entering an iteration raises the iteration level by one and leaving it lowers
  it by one, and neither touches the flags below the level's bits.\<close>

theorem hash_iter_lev_correct:
  assumes "0 \<le> RHASH_ITER_LEV hash" "RHASH_ITER_LEV hash < 2 ^ 31 - 1"
  shows "RHASH_ITER_LEV (hash_iter_lev_inc hash) = RHASH_ITER_LEV hash + 1 \<and>
    RHASH_ITER_LEV (hash_iter_lev_dec (hash_iter_lev_inc hash)) = RHASH_ITER_LEV hash \<and>
    (\<forall>n < 25. bit (hash_flags (hash_iter_lev_dec (hash_iter_lev_inc hash))) n = bit (hash_flags hash) n)"
proof -
  have inc: "RHASH_ITER_LEV (hash_iter_lev_inc hash) = RHASH_ITER_LEV hash + 1"
    by (rule RHASH_ITER_LEV_inc [OF assms(2)])
  moreover have "bit (hash_flags (hash_iter_lev_inc h)) n = bit (hash_flags h) n"
    "bit (hash_flags (hash_iter_lev_dec h)) n = bit (hash_flags h) n" if "n < 25" for h n
    using that
    by (auto simp: hash_iter_lev_inc_def hash_iter_lev_dec_def iter_lev_in_ivar_set_def Let_def bit_or_iff bit_and_iff
        bit_not_iff bit_RHASH_LEV_MASK bit_push_bit_iff bit_signed_iff RHASH_LEV_SHIFT_def)
  ultimately show ?thesis using RHASH_ITER_LEV_dec [of "hash_iter_lev_inc hash"] assms(1) by simp
qed

theorem hash_iter_lev_correct_witness:
  "RHASH_ITER_LEV (hash_iter_lev_inc full_hash_obj) = 1"
  using hash_iter_lev_correct [of full_hash_obj] full_hash_obj_facts(5) by simp

text \<open>C15: Leaving an iteration at a level of 65 to 126 sets the upper 32 bits of the object's flags:
  the shift of \<open>lev-1\<close> in \<open>hash_iter_lev_dec\<close> is one of \<open>int\<close>, whose sign then extends over the word.\<close>

theorem hash_iter_lev_dec_upper_flags:
  assumes "65 \<le> iter_lev_in_flags hash" "iter_lev_in_flags hash \<noteq> RHASH_LEV_MAX" "32 \<le> n" "n < 64"
  shows "bit (hash_flags (hash_iter_lev_dec hash)) n"
proof -
  define lev where "lev = iter_lev_in_flags hash - 1"
  have "64 \<le> lev" "lev < 128"
    using assms(1) iter_lev_in_flags_less [of hash] unfolding lev_def by unat_arith+
  then have "odd (uint lev div 64)" 
    by (simp add: word_le_def word_less_def) presburger
  then have "bit (uint lev) 6" by (simp add: bit_iff_odd)
  then have "bit lev 6" by (simp add: bit_uint_iff)
  then have "bit (scast (push_bit 25 lev) :: u64) n"
    using assms(3,4) by (simp add: bit_signed_iff bit_push_bit_iff)
  then show ?thesis
    using assms(2) by (simp add: hash_iter_lev_dec_def Let_def lev_def RHASH_LEV_SHIFT_def bit_or_iff)
qed

theorem hash_iter_lev_dec_upper_flags_witness:
  "bit (hash_flags (hash_iter_lev_dec (full_hash_obj\<lparr>hash_flags := 70 * 2 ^ 25\<rparr>))) 40"
proof -
  have "iter_lev_in_flags (full_hash_obj\<lparr>hash_flags := 70 * 2 ^ 25\<rparr>) = 70"
    by (simp add: iter_lev_in_flags_def RHASH_LEV_SHIFT_def RHASH_LEV_MAX_def)
  then show ?thesis
    using hash_iter_lev_dec_upper_flags [of "full_hash_obj\<lparr>hash_flags := 70 * 2 ^ 25\<rparr>" 40]
    by (simp add: RHASH_LEV_MAX_def)
qed

end
