(* ===== verification/Id_Table.thy ===== *)
theory Id_Table
  imports Ruby_Prelude
begin

text \<open>
  id_table.c: the table from method and variable names to values.  Open addressing with quadratic
  probing; a slot remembers with its \<open>collision\<close> mark that a probe sequence has passed over it.
  The C \<open>int\<close>s that count slots are naturals; \<open>round_capa\<close> works on the 32-bit word.  A search
  loop that meets no unmarked slot does not end: \<open>None\<close>.
\<close>

section \<open>Data\<close>

type_synonym id_key_t = u32
type_synonym ID = u64

record item_t =
  item_key :: id_key_t
  item_collision :: bool
  item_val :: VALUE

record rb_id_table =
  capa :: nat
  num :: nat
  used :: nat
  items :: "item_t list"

definition ID_SCOPE_SHIFT :: nat where "ID_SCOPE_SHIFT = 4"
definition tLAST_OP_ID :: ID where "tLAST_OP_ID = 169"

definition is_notop_id :: "ID \<Rightarrow> bool" where
  "is_notop_id ident \<longleftrightarrow> tLAST_OP_ID < ident"

definition rb_id_to_serial :: "ID \<Rightarrow> u32" where
  "rb_id_to_serial ident = (if is_notop_id ident then ucast (drop_bit ID_SCOPE_SHIFT ident) else ucast ident)"

definition id2key :: "ID \<Rightarrow> id_key_t" where
  "id2key ident = rb_id_to_serial ident"

definition zero_item :: item_t where
  "zero_item = \<lparr>item_key = 0, item_collision = False, item_val = 0\<rparr>"

definition ITEM_GET_KEY :: "rb_id_table \<Rightarrow> nat \<Rightarrow> id_key_t" where
  "ITEM_GET_KEY tbl i = item_key (items tbl ! i)"

definition ITEM_KEY_ISSET :: "rb_id_table \<Rightarrow> nat \<Rightarrow> bool" where
  "ITEM_KEY_ISSET tbl i \<longleftrightarrow> item_key (items tbl ! i) \<noteq> 0"

definition ITEM_COLLIDED :: "rb_id_table \<Rightarrow> nat \<Rightarrow> bool" where
  "ITEM_COLLIDED tbl i = item_collision (items tbl ! i)"

definition ITEM_SET_COLLIDED :: "rb_id_table \<Rightarrow> nat \<Rightarrow> rb_id_table" where
  "ITEM_SET_COLLIDED tbl i = tbl\<lparr>items := (items tbl)[i := (items tbl ! i)\<lparr>item_collision := True\<rparr>]\<rparr>"

definition ITEM_SET_KEY :: "rb_id_table \<Rightarrow> nat \<Rightarrow> id_key_t \<Rightarrow> rb_id_table" where
  "ITEM_SET_KEY tbl i key = tbl\<lparr>items := (items tbl)[i := (items tbl ! i)\<lparr>item_key := key\<rparr>]\<rparr>"

definition item_set_val :: "rb_id_table \<Rightarrow> nat \<Rightarrow> VALUE \<Rightarrow> rb_id_table" where
  "item_set_val tbl i val = tbl\<lparr>items := (items tbl)[i := (items tbl ! i)\<lparr>item_val := val\<rparr>]\<rparr>"

section \<open>Creation\<close>

definition round_capa :: "u32 \<Rightarrow> u32" where
  "round_capa c =
    (let c = drop_bit 2 c;
         c = c OR drop_bit 1 c;
         c = c OR drop_bit 2 c;
         c = c OR drop_bit 4 c;
         c = c OR drop_bit 8 c;
         c = c OR drop_bit 16 c
     in push_bit 2 (c + 1))"

definition round_capa_nat :: "nat \<Rightarrow> nat" where
  "round_capa_nat n = unat (round_capa (of_nat n))"

definition rb_id_table_init :: "nat \<Rightarrow> rb_id_table" where
  "rb_id_table_init c =
    (if c > 0 then
       let c = round_capa_nat c in \<lparr>capa = c, num = 0, used = 0, items = replicate c zero_item\<rparr>
     else \<lparr>capa = 0, num = 0, used = 0, items = []\<rparr>)"

definition rb_id_table_create :: "nat \<Rightarrow> rb_id_table" where
  "rb_id_table_create c = rb_id_table_init c"

definition rb_id_table_clear :: "rb_id_table \<Rightarrow> rb_id_table" where
  "rb_id_table_clear tbl = tbl\<lparr>num := 0, used := 0, items := replicate (capa tbl) zero_item\<rparr>"

definition rb_id_table_size :: "rb_id_table \<Rightarrow> nat" where
  "rb_id_table_size tbl = num tbl"

section \<open>Probing\<close>

partial_function (option) index_loop :: "rb_id_table \<Rightarrow> id_key_t \<Rightarrow> nat \<Rightarrow> nat \<Rightarrow> nat option option" where
  "index_loop tbl key ix d =
    (if key \<noteq> ITEM_GET_KEY tbl ix then
       (if \<not> ITEM_COLLIDED tbl ix then Some None
        else index_loop tbl key ((ix + d) AND (capa tbl - 1)) (d + 1))
     else Some (Some ix))"

text \<open>\<open>Some None\<close> is the result -1.\<close>

definition hash_table_index :: "rb_id_table \<Rightarrow> id_key_t \<Rightarrow> nat option option" where
  "hash_table_index tbl key =
    (if capa tbl > 0 then
       let mask = capa tbl - 1 in index_loop tbl key (unat key AND mask) 1
     else Some None)"

partial_function (option) insert_loop :: "rb_id_table \<Rightarrow> nat \<Rightarrow> nat \<Rightarrow> (rb_id_table \<times> nat) option" where
  "insert_loop tbl ix d =
    (if ITEM_KEY_ISSET tbl ix
     then insert_loop (ITEM_SET_COLLIDED tbl ix) ((ix + d) AND (capa tbl - 1)) (d + 1)
     else Some (tbl, ix))"

definition hash_table_raw_insert :: "rb_id_table \<Rightarrow> id_key_t \<Rightarrow> VALUE \<Rightarrow> rb_id_table option" where
  "hash_table_raw_insert tbl key val =
    do {
      let mask = capa tbl - 1;
      (tbl, ix) \<leftarrow> insert_loop tbl (unat key AND mask) 1;
      let tbl = tbl\<lparr>num := num tbl + 1\<rparr>;
      let tbl = (if \<not> ITEM_COLLIDED tbl ix then tbl\<lparr>used := used tbl + 1\<rparr> else tbl);
      Some (item_set_val (ITEM_SET_KEY tbl ix key) ix val)
    }"

definition hash_delete_index :: "rb_id_table \<Rightarrow> nat option \<Rightarrow> rb_id_table \<times> bool" where
  "hash_delete_index tbl ix =
    (case ix of
       Some ix \<Rightarrow>
         (let tbl = (if \<not> ITEM_COLLIDED tbl ix then tbl\<lparr>used := used tbl - 1\<rparr> else tbl);
              tbl = tbl\<lparr>num := num tbl - 1\<rparr>
          in (item_set_val (ITEM_SET_KEY tbl ix 0) ix 0, True))
     | None \<Rightarrow> (tbl, False))"

text \<open>The copying loop of \<open>hash_table_extend\<close> over the old slots.\<close>

fun extend_loop :: "item_t list \<Rightarrow> rb_id_table \<Rightarrow> rb_id_table option" where
  "extend_loop [] tmp_tbl = Some tmp_tbl"
| "extend_loop (it # old) tmp_tbl =
    (if item_key it \<noteq> 0 then do {
       tmp_tbl \<leftarrow> hash_table_raw_insert tmp_tbl (item_key it) (item_val it);
       extend_loop old tmp_tbl
     }
     else extend_loop old tmp_tbl)"

definition hash_table_extend :: "rb_id_table \<Rightarrow> rb_id_table option" where
  "hash_table_extend tbl =
    (if used tbl + used tbl div 2 \<ge> capa tbl then
       let new_cap = round_capa_nat (num tbl + num tbl div 2);
           new_cap = (if new_cap < capa tbl then round_capa_nat (used tbl + used tbl div 2) else new_cap)
       in extend_loop (items tbl) \<lparr>capa = new_cap, num = 0, used = 0, items = replicate new_cap zero_item\<rparr>
     else Some tbl)"

section \<open>The operations\<close>

definition rb_id_table_lookup :: "rb_id_table \<Rightarrow> ID \<Rightarrow> VALUE option option" where
  "rb_id_table_lookup tbl ident =
    do {
      index \<leftarrow> hash_table_index tbl (id2key ident);
      Some (map_option (\<lambda>i. item_val (items tbl ! i)) index)
    }"

definition rb_id_table_insert_key :: "rb_id_table \<Rightarrow> id_key_t \<Rightarrow> VALUE \<Rightarrow> rb_id_table option" where
  "rb_id_table_insert_key tbl key val =
    do {
      index \<leftarrow> hash_table_index tbl key;
      (case index of
         Some i \<Rightarrow> Some (item_set_val tbl i val)
       | None \<Rightarrow> do {
           tbl \<leftarrow> hash_table_extend tbl;
           hash_table_raw_insert tbl key val
         })
    }"

definition rb_id_table_insert :: "rb_id_table \<Rightarrow> ID \<Rightarrow> VALUE \<Rightarrow> rb_id_table option" where
  "rb_id_table_insert tbl ident val = rb_id_table_insert_key tbl (id2key ident) val"

definition rb_id_table_delete :: "rb_id_table \<Rightarrow> ID \<Rightarrow> (rb_id_table \<times> bool) option" where
  "rb_id_table_delete tbl ident =
    do {
      index \<leftarrow> hash_table_index tbl (id2key ident);
      Some (hash_delete_index tbl index)
    }"

datatype rb_id_table_iterator_result = ID_TABLE_CONTINUE | ID_TABLE_STOP | ID_TABLE_DELETE | ID_TABLE_REPLACE

text \<open>
  The traversals.  The callback is a function of the key, the value and the caller's data; it does
  not change the table itself.  \<open>key2id\<close> (a lookup in the symbol table) is a parameter.
\<close>

function id_foreach_from :: "(id_key_t \<Rightarrow> ID) \<Rightarrow> (ID \<Rightarrow> VALUE \<Rightarrow> 's \<Rightarrow> 's \<times> rb_id_table_iterator_result) \<Rightarrow>
    rb_id_table \<Rightarrow> nat \<Rightarrow> nat \<Rightarrow> 's \<Rightarrow> rb_id_table \<times> 's" where
  "id_foreach_from key2id func tbl n i data =
    (if i < n then
       (if ITEM_KEY_ISSET tbl i then
          (let (data, ret) = func (key2id (ITEM_GET_KEY tbl i)) (item_val (items tbl ! i)) data
           in case ret of
                ID_TABLE_DELETE \<Rightarrow> id_foreach_from key2id func (fst (hash_delete_index tbl (Some i))) n (Suc i) data
              | ID_TABLE_STOP \<Rightarrow> (tbl, data)
              | _ \<Rightarrow> id_foreach_from key2id func tbl n (Suc i) data)
        else id_foreach_from key2id func tbl n (Suc i) data)
     else (tbl, data))"
  by pat_completeness auto
termination
  by (relation "measure (\<lambda>(_, _, _, n, i, _). n - i)") auto

definition rb_id_table_foreach :: "(id_key_t \<Rightarrow> ID) \<Rightarrow> (ID \<Rightarrow> VALUE \<Rightarrow> 's \<Rightarrow> 's \<times> rb_id_table_iterator_result) \<Rightarrow>
    rb_id_table \<Rightarrow> 's \<Rightarrow> rb_id_table \<times> 's" where
  "rb_id_table_foreach key2id func tbl data = id_foreach_from key2id func tbl (capa tbl) 0 data"

text \<open>\<open>rb_id_table_foreach_values\<close> is the same loop with a callback that is not shown the key.\<close>

definition rb_id_table_foreach_values :: "(VALUE \<Rightarrow> 's \<Rightarrow> 's \<times> rb_id_table_iterator_result) \<Rightarrow>
    rb_id_table \<Rightarrow> 's \<Rightarrow> rb_id_table \<times> 's" where
  "rb_id_table_foreach_values func tbl data = id_foreach_from (\<lambda>_. 0) (\<lambda>_. func) tbl (capa tbl) 0 data"

function id_foreach_replace_from :: "(VALUE \<Rightarrow> 's \<Rightarrow> 's \<times> rb_id_table_iterator_result) \<Rightarrow>
    (VALUE \<Rightarrow> 's \<Rightarrow> 's \<times> VALUE) \<Rightarrow> rb_id_table \<Rightarrow> nat \<Rightarrow> nat \<Rightarrow> 's \<Rightarrow> rb_id_table \<times> 's" where
  "id_foreach_replace_from func replace tbl n i data =
    (if i < n then
       (if ITEM_KEY_ISSET tbl i then
          (let (data, ret) = func (item_val (items tbl ! i)) data
           in case ret of
                ID_TABLE_REPLACE \<Rightarrow>
                  (let (data, val) = replace (item_val (items tbl ! i)) data
                   in id_foreach_replace_from func replace (item_set_val tbl i val) n (Suc i) data)
              | ID_TABLE_STOP \<Rightarrow> (tbl, data)
              | _ \<Rightarrow> id_foreach_replace_from func replace tbl n (Suc i) data)
        else id_foreach_replace_from func replace tbl n (Suc i) data)
     else (tbl, data))"
  by pat_completeness auto
termination
  by (relation "measure (\<lambda>(_, _, _, n, i, _). n - i)") auto

definition rb_id_table_foreach_with_replace :: "(VALUE \<Rightarrow> 's \<Rightarrow> 's \<times> rb_id_table_iterator_result) \<Rightarrow>
    (VALUE \<Rightarrow> 's \<Rightarrow> 's \<times> VALUE) \<Rightarrow> rb_id_table \<Rightarrow> 's \<Rightarrow> rb_id_table \<times> 's" where
  "rb_id_table_foreach_with_replace func replace tbl data = id_foreach_replace_from func replace tbl (capa tbl) 0 data"

declare id_foreach_from.simps [simp del] id_foreach_replace_from.simps [simp del]

end
