(* ===== verification/Id_Table_Ops.thy ===== *)
theory Id_Table_Ops
  imports Id_Table Ordered_Hash
begin

text \<open>
  id_table.c is a map: the capacity is a power of two that the probe sequence \<open>h, h+1, h+3, h+6, ...\<close>
  runs through completely, the collision marks lead every search to its key, and the table grows
  before it is full, so that every operation returns.
\<close>

section \<open>The capacity\<close>

lemma smear_step:
  assumes "\<And>i. bit y i \<longleftrightarrow> (\<exists>j<n. bit x (i + j))"
  shows "bit (y OR drop_bit n y) i \<longleftrightarrow> (\<exists>j<2 * n. bit (x :: 'a::len word) (i + j))"
proof -
  have "bit (y OR drop_bit n y) i \<longleftrightarrow> (\<exists>j<n. bit x (i + j)) \<or> (\<exists>j<n. bit x (i + (n + j)))"
    by (simp add: bit_or_iff bit_drop_bit_eq assms ac_simps)
  also have "\<dots> \<longleftrightarrow> (\<exists>j<2 * n. bit x (i + j))"
  proof
    assume "(\<exists>j<n. bit x (i + j)) \<or> (\<exists>j<n. bit x (i + (n + j)))"
    then show "\<exists>j<2 * n. bit x (i + j)"
    proof
      assume "\<exists>j<n. bit x (i + j)"
      then obtain j where "j < n" "bit x (i + j)" by blast
      then have "j < 2 * n" by simp
      with \<open>bit x (i + j)\<close> show ?thesis by blast
    next
      assume "\<exists>j<n. bit x (i + (n + j))"
      then obtain j where "j < n" "bit x (i + (n + j))" by blast
      then have "n + j < 2 * n" by simp
      with \<open>bit x (i + (n + j))\<close> show ?thesis by blast
    qed
  next
    assume "\<exists>j<2 * n. bit x (i + j)"
    then obtain j where j: "j < 2 * n" "bit x (i + j)" by blast
    show "(\<exists>j<n. bit x (i + j)) \<or> (\<exists>j<n. bit x (i + (n + j)))"
    proof (cases "j < n")
      case True
      then show ?thesis using j by blast
    next
      case False
      then have "j - n < n" "i + (n + (j - n)) = i + j" using j by simp_all
      with j show ?thesis by metis
    qed
  qed
  finally show ?thesis .
qed

lemma smear_32:
  "(let y = x OR drop_bit 1 x; y = y OR drop_bit 2 y; y = y OR drop_bit 4 y; y = y OR drop_bit 8 y;
        y = y OR drop_bit 16 y in y) = (mask (bit_width (unat x)) :: u32)"
proof (rule bit_word_eqI)
  fix i
  assume i: "i < LENGTH(32)"
  define y1 where "y1 = x OR drop_bit 1 x"
  define y2 where "y2 = y1 OR drop_bit 2 y1"
  define y4 where "y4 = y2 OR drop_bit 4 y2"
  define y8 where "y8 = y4 OR drop_bit 8 y4"
  define y16 where "y16 = y8 OR drop_bit 16 y8"
  have b1: "bit y1 i \<longleftrightarrow> (\<exists>j<2. bit x (i + j))" for i
    unfolding y1_def using smear_step [of x 1 x] by simp
  have b2: "bit y2 i \<longleftrightarrow> (\<exists>j<4. bit x (i + j))" for i
    unfolding y2_def using smear_step [of y1 2 x, OF b1] by simp
  have b4: "bit y4 i \<longleftrightarrow> (\<exists>j<8. bit x (i + j))" for i
    unfolding y4_def using smear_step [of y2 4 x, OF b2] by simp
  have b8: "bit y8 i \<longleftrightarrow> (\<exists>j<16. bit x (i + j))" for i
    unfolding y8_def using smear_step [of y4 8 x, OF b4] by simp
  have "bit y16 i \<longleftrightarrow> (\<exists>j<32. bit x (i + j))"
    unfolding y16_def using smear_step [of y8 16 x, OF b8] by simp
  also have "\<dots> \<longleftrightarrow> drop_bit i x \<noteq> 0"
    by (auto simp: bit_eq_iff bit_drop_bit_eq)
  also have "\<dots> \<longleftrightarrow> 2 ^ i \<le> unat x"
    by (metis div_less_iff_less_mult div_eq_0_iff linorder_not_less mult_1 nat_zero_less_power_iff power_eq_0_iff
        unat_drop_bit_div unat_eq_0 zero_neq_numeral)
  also have "\<dots> \<longleftrightarrow> i < bit_width (unat x)" by (simp add: bit_width_less_iff)
  also have "\<dots> \<longleftrightarrow> bit (mask (bit_width (unat x)) :: u32) i" using i by (simp add: bit_mask_iff)
  finally show "bit (let y = x OR drop_bit 1 x; y = y OR drop_bit 2 y; y = y OR drop_bit 4 y; y = y OR drop_bit 8 y;
        y = y OR drop_bit 16 y in y) i \<longleftrightarrow> bit (mask (bit_width (unat x)) :: u32) i"
    unfolding y1_def y2_def y4_def y8_def y16_def by (simp add: Let_def)
qed

lemma unat_power_small: "k < 32 \<Longrightarrow> unat (2 ^ k :: u32) = 2 ^ k"
proof -
  assume "k < 32"
  then have "unat (of_nat (2 ^ k) :: u32) = 2 ^ k" by (simp add: unsigned_of_nat take_bit_nat_eq_self del: of_nat_power)
  then show ?thesis by simp
qed

lemma round_capa_nat:
  assumes "n < 2 ^ 30"
  shows "round_capa_nat n = 2 ^ (bit_width (n div 4) + 2)"
proof -
  have n: "unat (of_nat n :: u32) = n" using assms by (simp add: unsigned_of_nat take_bit_nat_eq_self)
  have w: "unat (drop_bit 2 (of_nat n :: u32)) = n div 4" by (simp add: unat_drop_bit_div n)
  have b: "bit_width (n div 4) \<le> 28" using assms by (simp add: bit_width_le_iff)
  have "round_capa (of_nat n) = push_bit 2 (mask (bit_width (n div 4)) + 1)"
    unfolding round_capa_def smear_32 [of "drop_bit 2 (of_nat n)", unfolded w Let_def, symmetric] by (simp add: Let_def)
  also have "\<dots> = 2 ^ (bit_width (n div 4) + 2)"
    by (simp add: mask_eq_exp_minus_1 push_bit_eq_mult power_add)
  finally show ?thesis
    unfolding round_capa_nat_def using b by (simp only:) (rule unat_power_small, simp)
qed

lemma round_capa_nat_bounds:
  assumes "n < 2 ^ 30"
  shows "n < round_capa_nat n" "\<exists>p. 2 \<le> p \<and> p \<le> 30 \<and> round_capa_nat n = 2 ^ p"
proof -
  have "n div 4 < 2 ^ bit_width (n div 4)" by (rule bit_width_bounds)
  then show "n < round_capa_nat n" by (simp add: round_capa_nat [OF assms] power_add)
  have "bit_width (n div 4) \<le> 28" using assms by (simp add: bit_width_le_iff)
  then show "\<exists>p. 2 \<le> p \<and> p \<le> 30 \<and> round_capa_nat n = 2 ^ p"
    using round_capa_nat [OF assms] by (intro exI [of _ "bit_width (n div 4) + 2"]) simp
qed

section \<open>The probe sequence\<close>

definition slot :: "nat \<Rightarrow> id_key_t \<Rightarrow> nat \<Rightarrow> nat" where
  "slot c key j = (unat key + j * (j + 1) div 2) mod c"

lemma nat_and_mask: "n AND (2 ^ p - 1) = (n :: nat) mod 2 ^ p"
  by (metis mask_eq_exp_minus_1 take_bit_eq_mask take_bit_eq_mod)

lemma slot_0: "c = 2 ^ p \<Longrightarrow> unat key AND (c - 1) = slot c key 0"
  by (simp only: slot_def nat_and_mask) simp

lemma slot_Suc: "c = 2 ^ p \<Longrightarrow> (slot c key j + Suc j) AND (c - 1) = slot c key (Suc j)"
proof -
  assume c: "c = 2 ^ p"
  have "Suc j * (Suc j + 1) div 2 = j * (j + 1) div 2 + Suc j"
    by (simp add: algebra_simps)
  then show ?thesis
    unfolding slot_def c nat_and_mask mod_add_left_eq by (simp only: ac_simps)
qed

lemma slot_less: "0 < c \<Longrightarrow> slot c key j < c"
  by (simp add: slot_def)

lemma triangle_inj:
  assumes "d < e" "e < 2 ^ p" "int d * (int d + 1) div 2 mod 2 ^ p = int e * (int e + 1) div 2 mod 2 ^ p"
  shows False
proof -
  have "(2 :: int) ^ p dvd int e * (int e + 1) div 2 - int d * (int d + 1) div 2"
    using assms(3) by (metis mod_eq_dvd_iff)
  then have "2 * 2 ^ p dvd 2 * (int e * (int e + 1) div 2 - int d * (int d + 1) div 2)" by (rule mult_dvd_mono [OF dvd_refl])
  moreover have "2 * (int e * (int e + 1) div 2 - int d * (int d + 1) div 2) = (int e - int d) * (int e + int d + 1)"
  proof -
    have E: "2 * (int n * (int n + 1) div 2) = int n * (int n + 1)" for n by simp
    have "2 * (int e * (int e + 1) div 2 - int d * (int d + 1) div 2) = int e * (int e + 1) - int d * (int d + 1)"
      by (simp only: right_diff_distrib E)
    also have "\<dots> = (int e - int d) * (int e + int d + 1)" by (simp add: algebra_simps)
    finally show ?thesis .
  qed
  ultimately have dvd: "2 ^ Suc p dvd (int e - int d) * (int e + int d + 1)" by simp
  have e: "int e < 2 ^ p" using assms(2) by (metis of_nat_less_iff of_nat_numeral of_nat_power)
  show False
  proof (cases "even (int e - int d)")
    case True
    then have "coprime (2 ^ Suc p) (int e + int d + 1)" by (simp add: coprime_power_left_iff) 
    then have "2 ^ Suc p dvd int e - int d" using dvd by (simp only: coprime_dvd_mult_left_iff)
    then have "2 ^ Suc p \<le> int e - int d" using assms(1) by (intro zdvd_imp_le) simp_all
    then show False using e by simp
  next
    case False
    then have "coprime (2 ^ Suc p) (int e - int d)" by (simp add: coprime_power_left_iff)
    then have "2 ^ Suc p dvd int e + int d + 1" using dvd by (simp only: coprime_dvd_mult_right_iff)
    then have "2 ^ Suc p \<le> int e + int d + 1" by (intro zdvd_imp_le) simp_all
    then show False using assms(1) e by simp
  qed
qed

lemma slot_inj:
  assumes "d < 2 ^ p" "e < 2 ^ p" "slot (2 ^ p) key d = slot (2 ^ p) key e"
  shows "d = e"
proof -
  have "(unat key + d * (d + 1) div 2) mod 2 ^ p = (unat key + e * (e + 1) div 2) mod 2 ^ p"
    using assms(3) by (simp add: slot_def)
  then have "int ((unat key + d * (d + 1) div 2) mod 2 ^ p) = int ((unat key + e * (e + 1) div 2) mod 2 ^ p)" by simp
  then have "(int (unat key) + int d * (int d + 1) div 2) mod 2 ^ p = (int (unat key) + int e * (int e + 1) div 2) mod 2 ^ p"
    by (simp only: zmod_int zdiv_int of_nat_add of_nat_mult of_nat_1 of_nat_numeral of_nat_power)
  then have eq: "int d * (int d + 1) div 2 mod 2 ^ p = int e * (int e + 1) div 2 mod 2 ^ p"
    by (simp only: mod_eq_dvd_iff add_diff_cancel_left)
  show ?thesis
    using triangle_inj [of d e p] triangle_inj [of e d p] assms(1,2) eq by (cases d e rule: linorder_cases) auto
qed

lemma slot_surj:
  assumes "i < 2 ^ p"
  obtains j where "j < 2 ^ p" "slot (2 ^ p) key j = i"
proof -
  have "inj_on (slot (2 ^ p) key) {..<2 ^ p}" using slot_inj by (auto simp: inj_on_def)
  moreover have "slot (2 ^ p) key ` {..<2 ^ p} \<subseteq> {..<2 ^ p}" by (auto intro: slot_less)
  ultimately have "slot (2 ^ p) key ` {..<2 ^ p} = {..<2 ^ p}" by (simp add: endo_inj_surj)
  then show ?thesis using assms that by (metis imageE lessThan_iff)
qed

section \<open>The invariant\<close>

definition item_vals :: "rb_id_table \<Rightarrow> nat \<Rightarrow> VALUE" where
  "item_vals tbl i = item_val (items tbl ! i)"

text \<open>
  \<open>idt_core\<close> is what insertion relies on and keeps; \<open>used\<close> counts the slots that are or were part
  of a probe sequence.
\<close>

definition idt_core :: "rb_id_table \<Rightarrow> bool" where
  "idt_core tbl \<longleftrightarrow> length (items tbl) = capa tbl \<and> (\<exists>p. capa tbl = 2 ^ p) \<and>
     (\<forall>i < capa tbl. \<forall>j < capa tbl. ITEM_KEY_ISSET tbl i \<longrightarrow> ITEM_GET_KEY tbl i = ITEM_GET_KEY tbl j \<longrightarrow> i = j) \<and>
     (\<forall>i < capa tbl. ITEM_KEY_ISSET tbl i \<longrightarrow>
        (\<exists>j < capa tbl. slot (capa tbl) (ITEM_GET_KEY tbl i) j = i \<and>
           (\<forall>m < j. ITEM_COLLIDED tbl (slot (capa tbl) (ITEM_GET_KEY tbl i) m)))) \<and>
     num tbl = card {i. i < capa tbl \<and> ITEM_KEY_ISSET tbl i} \<and>
     used tbl = card {i. i < capa tbl \<and> (ITEM_KEY_ISSET tbl i \<or> ITEM_COLLIDED tbl i)}"

definition idt_inv :: "rb_id_table \<Rightarrow> bool" where
  "idt_inv tbl \<longleftrightarrow> (if capa tbl = 0 then items tbl = [] \<and> num tbl = 0 \<and> used tbl = 0
     else idt_core tbl \<and> used tbl < capa tbl \<and> 4 \<le> capa tbl)"

text \<open>The table as a map; the abstraction ignores where the keys are.\<close>

definition idt_map :: "rb_id_table \<Rightarrow> id_key_t \<Rightarrow> VALUE option" where
  "idt_map tbl key = map_option item_val (find (\<lambda>it. item_key it = key) (items tbl))"

lemma ITEM_KEY_ISSET_iff: "ITEM_KEY_ISSET tbl i \<longleftrightarrow> ITEM_GET_KEY tbl i \<noteq> 0"
  by (simp add: ITEM_KEY_ISSET_def ITEM_GET_KEY_def)

lemma idt_map_Some:
  assumes core: "idt_core tbl" and i: "i < capa tbl" "ITEM_GET_KEY tbl i = key" and key: "key \<noteq> 0"
  shows "idt_map tbl key = Some (item_vals tbl i)"
proof -
  have len: "length (items tbl) = capa tbl" using core by (simp add: idt_core_def)
  have "\<exists>it \<in> set (items tbl). item_key it = key" using i len by (auto simp: ITEM_GET_KEY_def)
  then have "find (\<lambda>it. item_key it = key) (items tbl) \<noteq> None" by (auto simp: find_None_iff)
  then obtain it where it: "find (\<lambda>it. item_key it = key) (items tbl) = Some it" by blast
  then obtain j where j: "j < capa tbl" "ITEM_GET_KEY tbl j = key" "it = items tbl ! j"
    using len by (auto simp: find_Some_iff ITEM_GET_KEY_def)
  then have "j = i" using core i key by (auto simp: idt_core_def ITEM_KEY_ISSET_iff)
  with it j show ?thesis by (simp add: idt_map_def item_vals_def)
qed

lemma idt_map_None:
  assumes "length (items tbl) = capa tbl" "\<And>i. i < capa tbl \<Longrightarrow> ITEM_GET_KEY tbl i \<noteq> key"
  shows "idt_map tbl key = None"
  using assms by (auto simp: idt_map_def find_None_iff in_set_conv_nth ITEM_GET_KEY_def)

lemma idt_map_present:
  "idt_map tbl key \<noteq> None \<Longrightarrow> length (items tbl) = capa tbl \<Longrightarrow> \<exists>i < capa tbl. ITEM_GET_KEY tbl i = key"
  by (rule ccontr) (simp add: idt_map_None)

lemma idt_core_inj:
  assumes "idt_core tbl" "i < capa tbl" "j < capa tbl" "ITEM_GET_KEY tbl i \<noteq> 0" "ITEM_GET_KEY tbl i = ITEM_GET_KEY tbl j"
  shows "i = j"
proof -
  have "\<forall>i < capa tbl. \<forall>j < capa tbl. ITEM_GET_KEY tbl i \<noteq> 0 \<longrightarrow> ITEM_GET_KEY tbl i = ITEM_GET_KEY tbl j \<longrightarrow> i = j"
    using assms(1) unfolding idt_core_def ITEM_KEY_ISSET_iff by (elim conjE)
  then show ?thesis using assms(2-5) by simp
qed

section \<open>Searching\<close>

lemma index_loop_reaches:
  assumes c: "capa tbl = 2 ^ p" and J: "j \<le> J"
    and before: "\<And>m. j \<le> m \<Longrightarrow> m < J \<Longrightarrow> ITEM_GET_KEY tbl (slot (capa tbl) key m) \<noteq> key \<and>
      ITEM_COLLIDED tbl (slot (capa tbl) key m)"
  shows "index_loop tbl key (slot (capa tbl) key j) (Suc j) = index_loop tbl key (slot (capa tbl) key J) (Suc J)"
  using J before
proof (induction "J - j" arbitrary: j)
  case (Suc n)
  then have "j < J" "n = J - Suc j" by simp_all
  moreover have "index_loop tbl key (slot (capa tbl) key j) (Suc j) =
      index_loop tbl key (slot (capa tbl) key (Suc j)) (Suc (Suc j))"
    using Suc.prems(2) [of j] \<open>j < J\<close> slot_Suc [OF c, of key j]
    by (subst index_loop.simps) auto
  ultimately show ?case using Suc.hyps(1) [of "Suc j"] Suc.prems(2) by simp
qed simp

lemma index_loop_stop:
  assumes "ITEM_GET_KEY tbl ix = key \<or> \<not> ITEM_COLLIDED tbl ix"
  shows "index_loop tbl key ix d = Some (if ITEM_GET_KEY tbl ix = key then Some ix else None)"
  using assms by (subst index_loop.simps) auto

text \<open>A search always returns: the key's slot, or -1 when the key is not in the table.\<close>

lemma hash_table_index_spec:
  assumes inv: "idt_inv tbl" and key: "key \<noteq> 0"
  obtains (found) i where "hash_table_index tbl key = Some (Some i)" "i < capa tbl" "ITEM_GET_KEY tbl i = key"
    | (absent) "hash_table_index tbl key = Some None" "\<And>i. i < capa tbl \<Longrightarrow> ITEM_GET_KEY tbl i \<noteq> key"
proof (cases "capa tbl = 0")
  case True
  then show ?thesis using absent by (simp add: hash_table_index_def)
next
  case False
  then have core: "idt_core tbl" and used: "used tbl < capa tbl" using inv by (simp_all add: idt_inv_def)
  obtain p where p: "capa tbl = 2 ^ p" using core by (auto simp: idt_core_def)
  let ?s = "slot (capa tbl) key"
  let ?stop = "\<lambda>j. ITEM_GET_KEY tbl (?s j) = key \<or> \<not> ITEM_COLLIDED tbl (?s j)"
  have "\<exists>u < capa tbl. \<not> ITEM_COLLIDED tbl u"
  proof (rule ccontr)
    assume "\<not> ?thesis"
    then have "{i. i < capa tbl \<and> (ITEM_KEY_ISSET tbl i \<or> ITEM_COLLIDED tbl i)} = {..<capa tbl}" by auto
    then show False using core used by (simp add: idt_core_def)
  qed
  then obtain u where u: "u < capa tbl" "\<not> ITEM_COLLIDED tbl u" by blast
  obtain ju where "?s ju = u" using slot_surj [of u p key] u(1) p by metis
  then have "?stop ju" using u by simp
  define J where "J = (LEAST j. ?stop j)"
  have stop: "?stop J" unfolding J_def by (rule LeastI [of ?stop, OF \<open>?stop ju\<close>])
  have before: "\<not> ?stop j" if "j < J" for j using not_less_Least that unfolding J_def by blast
  have "hash_table_index tbl key = index_loop tbl key (?s 0) (Suc 0)"
    using False slot_0 [OF p, of key] by (simp add: hash_table_index_def Let_def)
  also have "\<dots> = index_loop tbl key (?s J) (Suc J)"
    by (rule index_loop_reaches [OF p]) (use before in auto)
  also have "\<dots> = Some (if ITEM_GET_KEY tbl (?s J) = key then Some (?s J) else None)"
    by (rule index_loop_stop [OF stop])
  finally have res: "hash_table_index tbl key = Some (if ITEM_GET_KEY tbl (?s J) = key then Some (?s J) else None)" .
  have less: "?s J < capa tbl" using False by (simp add: slot_less)
  show ?thesis
  proof (cases "ITEM_GET_KEY tbl (?s J) = key")
    case True
    then show ?thesis using found res less by simp
  next
    case no: False
    have "ITEM_GET_KEY tbl i \<noteq> key" if i: "i < capa tbl" for i
    proof
      assume k: "ITEM_GET_KEY tbl i = key"
      then obtain j where j: "?s j = i" "\<forall>m < j. ITEM_COLLIDED tbl (?s m)"
        using core i key unfolding idt_core_def ITEM_KEY_ISSET_iff by blast
      have "?stop j" using j(1) k by simp
      then have "J \<le> j" using before by (meson not_le)
      moreover have "J \<noteq> j" using no j(1) k by auto
      ultimately have "ITEM_COLLIDED tbl (?s J)" using j(2) by simp
      then show False using stop no by simp
    qed
    then show ?thesis using absent res no by simp
  qed
qed

lemma hash_table_index_map:
  assumes "idt_inv tbl" "key \<noteq> 0"
  shows "\<exists>r. hash_table_index tbl key = Some r \<and> map_option (item_vals tbl) r = idt_map tbl key"
  using assms
proof (cases rule: hash_table_index_spec)
  case (found i)
  then have "idt_core tbl" using assms(1) by (auto simp: idt_inv_def)
  then show ?thesis using idt_map_Some [OF _ found(2,3) assms(2)] found by simp
next
  case absent
  have "length (items tbl) = capa tbl" using assms(1) by (auto simp: idt_inv_def idt_core_def split: if_splits)
  then show ?thesis using idt_map_None absent by simp
qed

section \<open>Inserting a new key\<close>

lemma idt_update_simps [idt_simps]:
  "capa (ITEM_SET_COLLIDED tbl i) = capa tbl" "num (ITEM_SET_COLLIDED tbl i) = num tbl"
  "used (ITEM_SET_COLLIDED tbl i) = used tbl" "length (items (ITEM_SET_COLLIDED tbl i)) = length (items tbl)"
  "capa (ITEM_SET_KEY tbl i key) = capa tbl" "num (ITEM_SET_KEY tbl i key) = num tbl"
  "used (ITEM_SET_KEY tbl i key) = used tbl" "length (items (ITEM_SET_KEY tbl i key)) = length (items tbl)"
  "capa (item_set_val tbl i v) = capa tbl" "num (item_set_val tbl i v) = num tbl"
  "used (item_set_val tbl i v) = used tbl" "length (items (item_set_val tbl i v)) = length (items tbl)"
  by (simp_all add: ITEM_SET_COLLIDED_def ITEM_SET_KEY_def item_set_val_def)

lemma idt_slot_simps [idt_simps]:
  "i < length (items tbl) \<Longrightarrow> ITEM_GET_KEY (ITEM_SET_COLLIDED tbl i) j = ITEM_GET_KEY tbl j"
  "i < length (items tbl) \<Longrightarrow> item_vals (ITEM_SET_COLLIDED tbl i) j = item_vals tbl j"
  "i < length (items tbl) \<Longrightarrow> ITEM_COLLIDED (ITEM_SET_COLLIDED tbl i) j \<longleftrightarrow> j = i \<or> ITEM_COLLIDED tbl j"
  "i < length (items tbl) \<Longrightarrow> ITEM_GET_KEY (ITEM_SET_KEY tbl i key) j = (if j = i then key else ITEM_GET_KEY tbl j)"
  "i < length (items tbl) \<Longrightarrow> item_vals (ITEM_SET_KEY tbl i key) j = item_vals tbl j"
  "i < length (items tbl) \<Longrightarrow> ITEM_COLLIDED (ITEM_SET_KEY tbl i key) j \<longleftrightarrow> ITEM_COLLIDED tbl j"
  "i < length (items tbl) \<Longrightarrow> ITEM_GET_KEY (item_set_val tbl i v) j = ITEM_GET_KEY tbl j"
  "i < length (items tbl) \<Longrightarrow> item_vals (item_set_val tbl i v) j = (if j = i then v else item_vals tbl j)"
  "i < length (items tbl) \<Longrightarrow> ITEM_COLLIDED (item_set_val tbl i v) j \<longleftrightarrow> ITEM_COLLIDED tbl j"
  by (auto simp: ITEM_SET_COLLIDED_def ITEM_SET_KEY_def item_set_val_def ITEM_GET_KEY_def item_vals_def
      ITEM_COLLIDED_def nth_list_update)

lemma idt_count_simps [idt_simps]:
  "ITEM_GET_KEY (tbl\<lparr>num := n\<rparr>) j = ITEM_GET_KEY tbl j" "ITEM_COLLIDED (tbl\<lparr>num := n\<rparr>) j = ITEM_COLLIDED tbl j"
  "item_vals (tbl\<lparr>num := n\<rparr>) j = item_vals tbl j"
  "ITEM_GET_KEY (tbl\<lparr>used := n\<rparr>) j = ITEM_GET_KEY tbl j" "ITEM_COLLIDED (tbl\<lparr>used := n\<rparr>) j = ITEM_COLLIDED tbl j"
  "item_vals (tbl\<lparr>used := n\<rparr>) j = item_vals tbl j"
  by (simp_all add: ITEM_GET_KEY_def ITEM_COLLIDED_def item_vals_def)

lemma ex_from_Suc: "j < J \<Longrightarrow> (\<exists>m. j \<le> m \<and> m < J \<and> P m) \<longleftrightarrow> P j \<or> (\<exists>m. Suc j \<le> m \<and> m < J \<and> P m)"
  by (metis Suc_leD Suc_leI le_neq_implies_less order_refl)

text \<open>The loop marks the slots it passes over and stops at the first free one.\<close>

lemma insert_loop_spec:
  assumes "capa tbl = 2 ^ p" "length (items tbl) = capa tbl" "j \<le> J"
    and "\<And>m. j \<le> m \<Longrightarrow> m < J \<Longrightarrow> ITEM_KEY_ISSET tbl (slot (capa tbl) key m)"
    and "\<not> ITEM_KEY_ISSET tbl (slot (capa tbl) key J)"
  shows "\<exists>t. insert_loop tbl (slot (capa tbl) key j) (Suc j) = Some (t, slot (capa tbl) key J) \<and>
    capa t = capa tbl \<and> num t = num tbl \<and> used t = used tbl \<and> length (items t) = length (items tbl) \<and>
    (\<forall>i. ITEM_GET_KEY t i = ITEM_GET_KEY tbl i \<and> item_vals t i = item_vals tbl i \<and>
      (ITEM_COLLIDED t i \<longleftrightarrow> ITEM_COLLIDED tbl i \<or> (\<exists>m. j \<le> m \<and> m < J \<and> slot (capa tbl) key m = i)))"
  using assms
proof (induction "J - j" arbitrary: j tbl)
  case 0
  then have "j = J" by simp
  with 0 show ?case by (subst insert_loop.simps) auto
next
  case (Suc n)
  let ?i = "slot (capa tbl) key j"
  let ?t = "ITEM_SET_COLLIDED tbl ?i"
  have j: "j < J" "n = J - Suc j" using Suc.hyps(2) by simp_all
  have i: "?i < length (items tbl)" using Suc.prems(1,2) by (simp add: slot_less)
  have set: "ITEM_KEY_ISSET ?t m \<longleftrightarrow> ITEM_KEY_ISSET tbl m" for m
    by (simp add: ITEM_KEY_ISSET_iff idt_simps i)
  have "\<exists>t. insert_loop ?t (slot (capa ?t) key (Suc j)) (Suc (Suc j)) = Some (t, slot (capa ?t) key J) \<and>
    capa t = capa ?t \<and> num t = num ?t \<and> used t = used ?t \<and> length (items t) = length (items ?t) \<and>
    (\<forall>i. ITEM_GET_KEY t i = ITEM_GET_KEY ?t i \<and> item_vals t i = item_vals ?t i \<and>
      (ITEM_COLLIDED t i \<longleftrightarrow> ITEM_COLLIDED ?t i \<or> (\<exists>m. Suc j \<le> m \<and> m < J \<and> slot (capa ?t) key m = i)))"
    by (rule Suc.hyps(1) [OF j(2)]) (use Suc.prems j(1) in \<open>simp_all add: idt_simps set [unfolded Suc.prems(1)]\<close>)
  then obtain t where t: "insert_loop ?t (slot (capa tbl) key (Suc j)) (Suc (Suc j)) = Some (t, slot (capa tbl) key J)"
    "capa t = capa tbl \<and> num t = num tbl \<and> used t = used tbl \<and> length (items t) = length (items tbl)"
    "\<And>i. ITEM_GET_KEY t i = ITEM_GET_KEY tbl i \<and> item_vals t i = item_vals tbl i"
    "\<And>i. ITEM_COLLIDED t i \<longleftrightarrow> ITEM_COLLIDED ?t i \<or> (\<exists>m. Suc j \<le> m \<and> m < J \<and> slot (capa tbl) key m = i)"
    by (auto simp: idt_simps i)
  have "insert_loop tbl ?i (Suc j) = Some (t, slot (capa tbl) key J)"
    using t(1) Suc.prems(4) [of j] j(1) slot_Suc [OF Suc.prems(1), of key j] by (subst insert_loop.simps) simp
  moreover have "ITEM_COLLIDED t i \<longleftrightarrow> ITEM_COLLIDED tbl i \<or> (\<exists>m. j \<le> m \<and> m < J \<and> slot (capa tbl) key m = i)" for i
    unfolding t(4) ex_from_Suc [OF j(1), where P = "\<lambda>m. slot (capa tbl) key m = i"] by (auto simp: idt_simps i)
  ultimately show ?case using t(2,3) by blast
qed

text \<open>What \<open>hash_table_raw_insert\<close> leaves: the key in a slot that was free, and marks on slots in use.\<close>

lemma hash_table_raw_insert_slots:
  assumes core: "idt_core tbl" and free: "num tbl < capa tbl"
  shows "\<exists>t J. hash_table_raw_insert tbl key v = Some t \<and> J < capa tbl \<and>
    \<not> ITEM_KEY_ISSET tbl (slot (capa tbl) key J) \<and>
    (\<forall>m < J. ITEM_KEY_ISSET tbl (slot (capa tbl) key m)) \<and>
    capa t = capa tbl \<and> length (items t) = length (items tbl) \<and> num t = Suc (num tbl) \<and>
    used t = (if ITEM_COLLIDED tbl (slot (capa tbl) key J) then used tbl else Suc (used tbl)) \<and>
    (\<forall>i. ITEM_GET_KEY t i = (if i = slot (capa tbl) key J then key else ITEM_GET_KEY tbl i)) \<and>
    (\<forall>i. item_vals t i = (if i = slot (capa tbl) key J then v else item_vals tbl i)) \<and>
    (\<forall>i. ITEM_COLLIDED t i \<longleftrightarrow> ITEM_COLLIDED tbl i \<or> (\<exists>m < J. slot (capa tbl) key m = i))"
proof -
  obtain p where p: "capa tbl = 2 ^ p" using core by (auto simp: idt_core_def)
  have len: "length (items tbl) = capa tbl" using core by (simp add: idt_core_def)
  let ?s = "slot (capa tbl) key"
  have "\<exists>u < capa tbl. \<not> ITEM_KEY_ISSET tbl u"
  proof (rule ccontr)
    assume "\<not> ?thesis"
    then have "{i. i < capa tbl \<and> ITEM_KEY_ISSET tbl i} = {..<capa tbl}" by auto
    then show False using core free by (simp add: idt_core_def)
  qed
  then obtain u where u: "u < capa tbl" "\<not> ITEM_KEY_ISSET tbl u" by blast
  obtain ju where ju: "ju < capa tbl" "?s ju = u" using slot_surj [of u p key] u(1) p by metis
  define J where "J = (LEAST j. \<not> ITEM_KEY_ISSET tbl (?s j))"
  have J: "\<not> ITEM_KEY_ISSET tbl (?s J)" unfolding J_def by (rule LeastI [of _ ju]) (use ju u in simp)
  have before: "ITEM_KEY_ISSET tbl (?s m)" if "m < J" for m using not_less_Least that unfolding J_def by blast
  have "J \<le> ju" unfolding J_def by (rule Least_le) (use ju u in simp)
  then have Jc: "J < capa tbl" using ju(1) by simp
  have less: "?s J < capa tbl" using p by (simp add: slot_less)
  obtain t where t: "insert_loop tbl (?s 0) (Suc 0) = Some (t, ?s J)" "capa t = capa tbl" "num t = num tbl"
    "used t = used tbl" "length (items t) = length (items tbl)" "\<And>i. ITEM_GET_KEY t i = ITEM_GET_KEY tbl i"
    "\<And>i. item_vals t i = item_vals tbl i"
    "\<And>i. ITEM_COLLIDED t i \<longleftrightarrow> ITEM_COLLIDED tbl i \<or> (\<exists>m < J. ?s m = i)"
    using insert_loop_spec [OF p len le0, of J key] before J by auto
  have nc: "ITEM_COLLIDED t (?s J) \<longleftrightarrow> ITEM_COLLIDED tbl (?s J)" using t(8) before J by metis
  have ix: "?s J < length (items t)" "?s J < length (items (t\<lparr>num := n\<rparr>))"
    "?s J < length (items (t\<lparr>num := n, used := n'\<rparr>))" for n n' using less len t(5) by simp_all
  define t' where "t' = (if \<not> ITEM_COLLIDED tbl (?s J) then t\<lparr>num := Suc (num tbl), used := Suc (used tbl)\<rparr>
    else t\<lparr>num := Suc (num tbl)\<rparr>)"
  have ix': "?s J < length (items t')" using ix by (simp add: t'_def)
  have "hash_table_raw_insert tbl key v = Some (item_set_val (ITEM_SET_KEY t' (?s J) key) (?s J) v)"
    using t(1,3,4) slot_0 [OF p, of key] nc
    by (auto simp: hash_table_raw_insert_def Let_def t'_def idt_simps)
  moreover have "ITEM_GET_KEY t' i = ITEM_GET_KEY tbl i" "item_vals t' i = item_vals tbl i"
    "ITEM_COLLIDED t' i \<longleftrightarrow> ITEM_COLLIDED tbl i \<or> (\<exists>m < J. ?s m = i)" for i
    using t(6-8) by (simp_all add: t'_def idt_simps)
  ultimately show ?thesis
    using Jc J before t(2,5) ix'
    by (intro exI [of _ "item_set_val (ITEM_SET_KEY t' (?s J) key) (?s J) v"] exI [of _ J])
      (simp add: idt_simps, simp add: t'_def t)
qed

lemma card_insert_index:
  assumes "k < (n :: nat)" "\<not> P k" "\<And>i. Q i \<longleftrightarrow> i = k \<or> P i"
  shows "card {i. i < n \<and> Q i} = Suc (card {i. i < n \<and> P i})"
proof -
  have "{i. i < n \<and> Q i} = insert k {i. i < n \<and> P i}" using assms(1,3) by auto
  then show ?thesis using assms(2) by simp
qed

lemma hash_table_raw_insert_spec:
  assumes core: "idt_core tbl" and free: "num tbl < capa tbl" and key: "key \<noteq> 0"
    and new: "\<And>i. i < capa tbl \<Longrightarrow> ITEM_GET_KEY tbl i \<noteq> key"
  shows "\<exists>t. hash_table_raw_insert tbl key v = Some t \<and> idt_core t \<and> capa t = capa tbl \<and> num t = Suc (num tbl) \<and>
    used t \<le> Suc (used tbl) \<and> (used tbl = num tbl \<longrightarrow> used t = num t) \<and>
    (\<forall>k. k \<noteq> 0 \<longrightarrow> idt_map t k = (if k = key then Some v else idt_map tbl k))"
proof -
  let ?s = "slot (capa tbl) key"
  obtain t J where t: "hash_table_raw_insert tbl key v = Some t" and J: "J < capa tbl"
    "\<not> ITEM_KEY_ISSET tbl (?s J)" "\<And>m. m < J \<Longrightarrow> ITEM_KEY_ISSET tbl (?s m)"
    and c: "capa t = capa tbl" "length (items t) = length (items tbl)" "num t = Suc (num tbl)"
    "used t = (if ITEM_COLLIDED tbl (?s J) then used tbl else Suc (used tbl))"
    and K: "\<And>i. ITEM_GET_KEY t i = (if i = ?s J then key else ITEM_GET_KEY tbl i)"
    and V: "\<And>i. item_vals t i = (if i = ?s J then v else item_vals tbl i)"
    and C: "\<And>i. ITEM_COLLIDED t i \<longleftrightarrow> ITEM_COLLIDED tbl i \<or> (\<exists>m < J. ?s m = i)"
    using hash_table_raw_insert_slots [OF core free, of key v] by blast
  have pos: "0 < capa tbl" using free by simp
  have sJ: "?s J < capa tbl" using pos by (simp add: slot_less)
  note core' = core [unfolded idt_core_def ITEM_KEY_ISSET_iff]
  have len: "length (items tbl) = capa tbl" using core' by blast
  have set: "ITEM_KEY_ISSET t i \<longleftrightarrow> i = ?s J \<or> ITEM_KEY_ISSET tbl i" for i
    using key by (simp add: ITEM_KEY_ISSET_iff K)
  have path: "\<exists>j < capa tbl. slot (capa tbl) (ITEM_GET_KEY t i) j = i \<and>
      (\<forall>m < j. ITEM_COLLIDED t (slot (capa tbl) (ITEM_GET_KEY t i) m))" if i: "i < capa tbl" "ITEM_KEY_ISSET t i" for i
  proof (cases "i = ?s J")
    case True
    then show ?thesis using J(1) by (intro exI [of _ J]) (auto simp: K C)
  next
    case False
    then have "ITEM_GET_KEY tbl i \<noteq> 0" using i(2) set by (simp add: ITEM_KEY_ISSET_iff)
    then obtain j where "j < capa tbl" "slot (capa tbl) (ITEM_GET_KEY tbl i) j = i"
      "\<forall>m < j. ITEM_COLLIDED tbl (slot (capa tbl) (ITEM_GET_KEY tbl i) m)" using core' i(1) by blast
    then show ?thesis using False by (intro exI [of _ j]) (simp add: K C)
  qed
  have dist: "i = j" if "i < capa tbl" "j < capa tbl" "ITEM_KEY_ISSET t i" "ITEM_GET_KEY t i = ITEM_GET_KEY t j" for i j
    using that new core' by (auto simp: K ITEM_KEY_ISSET_iff split: if_splits)
  have num: "num t = card {i. i < capa tbl \<and> ITEM_KEY_ISSET t i}"
    using card_insert_index [OF sJ J(2) set] c(3) core by (simp add: idt_core_def)
  have used: "used t = card {i. i < capa tbl \<and> (ITEM_KEY_ISSET t i \<or> ITEM_COLLIDED t i)}"
  proof (cases "ITEM_COLLIDED tbl (?s J)")
    case True
    have "ITEM_KEY_ISSET t i \<or> ITEM_COLLIDED t i \<longleftrightarrow> ITEM_KEY_ISSET tbl i \<or> ITEM_COLLIDED tbl i" for i
      using True J(3) by (auto simp: set C)
    then show ?thesis using c(4) True core by (simp add: idt_core_def)
  next
    case False
    have "ITEM_KEY_ISSET t i \<or> ITEM_COLLIDED t i \<longleftrightarrow> i = ?s J \<or> ITEM_KEY_ISSET tbl i \<or> ITEM_COLLIDED tbl i" for i
      using J(3) by (auto simp: set C)
    from card_insert_index [OF sJ _ this] False J(2) show ?thesis using c(4) core by (simp add: idt_core_def)
  qed
  have core_t: "idt_core t"
    unfolding idt_core_def c(1) using len c(2) core num used path dist by (auto simp: idt_core_def)
  have map: "idt_map t k = (if k = key then Some v else idt_map tbl k)" if k: "k \<noteq> 0" for k
  proof (cases "\<exists>i < capa tbl. ITEM_GET_KEY t i = k")
    case True
    then obtain i where i: "i < capa tbl" "ITEM_GET_KEY t i = k" by blast
    then have "idt_map t k = Some (item_vals t i)" using idt_map_Some [OF core_t _ i(2) k] c(1) by simp
    moreover have "idt_map tbl k = Some (item_vals tbl i)" if "i \<noteq> ?s J"
      using idt_map_Some [OF core i(1) _ k] i(2) that by (simp add: K)
    ultimately show ?thesis using i new by (auto simp: V K split: if_splits)
  next
    case False
    then have "idt_map t k = None" using idt_map_None [of t k] len c(1,2) by auto
    moreover have "k \<noteq> key" using False sJ by (auto simp: K)
    moreover have "ITEM_GET_KEY tbl i \<noteq> k" if "i < capa tbl" for i
      using False that J(2) k by (auto simp: K ITEM_KEY_ISSET_iff split: if_splits)
    ultimately show ?thesis using idt_map_None [OF len] by simp
  qed
  have "used tbl = num tbl \<Longrightarrow> used t = num t"
  proof -
    assume eq: "used tbl = num tbl"
    have fin: "finite {i. i < capa tbl \<and> (ITEM_KEY_ISSET tbl i \<or> ITEM_COLLIDED tbl i)}" by simp
    have "{i. i < capa tbl \<and> ITEM_KEY_ISSET tbl i} = {i. i < capa tbl \<and> (ITEM_KEY_ISSET tbl i \<or> ITEM_COLLIDED tbl i)}"
      by (rule card_subset_eq [OF fin]) (use eq core in \<open>auto simp: idt_core_def\<close>)
    then have "\<not> ITEM_COLLIDED tbl (?s J)" using J(2) sJ by blast
    then show "used t = num t" using c(3,4) eq by simp
  qed
  then show ?thesis using t core_t c map by auto
qed

section \<open>Growing\<close>

definition item_pairs :: "item_t list \<Rightarrow> (id_key_t \<times> VALUE) list" where
  "item_pairs its = map (\<lambda>it. (item_key it, item_val it)) (filter (\<lambda>it. item_key it \<noteq> 0) its)"

lemma extend_loop_spec:
  assumes "idt_core tmp" "used tmp = num tmp" "num tmp + length (item_pairs old) \<le> capa tmp"
    "distinct (map fst (item_pairs old))"
    "\<And>i. i < capa tmp \<Longrightarrow> ITEM_GET_KEY tmp i \<notin> fst ` set (item_pairs old)"
  shows "\<exists>t. extend_loop old tmp = Some t \<and> idt_core t \<and> capa t = capa tmp \<and>
    num t = num tmp + length (item_pairs old) \<and> used t = num t \<and>
    (\<forall>k. k \<noteq> 0 \<longrightarrow> idt_map t k = (case map_of (item_pairs old) k of Some v \<Rightarrow> Some v | None \<Rightarrow> idt_map tmp k))"
  using assms
proof (induction old arbitrary: tmp)
  case Nil
  then show ?case by (simp add: item_pairs_def)
next
  case (Cons it old)
  show ?case
  proof (cases "item_key it = 0")
    case True
    then have "item_pairs (it # old) = item_pairs old" by (simp add: item_pairs_def)
    then show ?thesis using Cons True by simp
  next
    case False
    then have ip: "item_pairs (it # old) = (item_key it, item_val it) # item_pairs old" by (simp add: item_pairs_def)
    have new: "\<And>i. i < capa tmp \<Longrightarrow> ITEM_GET_KEY tmp i \<noteq> item_key it" using Cons.prems(5) ip by auto
    have "num tmp < capa tmp" using Cons.prems(3) ip by simp
    from hash_table_raw_insert_spec [OF Cons.prems(1) this False new] obtain t where
      t: "hash_table_raw_insert tmp (item_key it) (item_val it) = Some t" "idt_core t" "capa t = capa tmp"
        "num t = Suc (num tmp)" "used t = num t"
        "\<And>k. k \<noteq> 0 \<Longrightarrow> idt_map t k = (if k = item_key it then Some (item_val it) else idt_map tmp k)"
      using Cons.prems(2) by blast
    have "ITEM_GET_KEY t i \<notin> fst ` set (item_pairs old)" if i: "i < capa t" for i
    proof
      assume k: "ITEM_GET_KEY t i \<in> fst ` set (item_pairs old)"
      then have nz: "ITEM_GET_KEY t i \<noteq> 0" by (auto simp: item_pairs_def)
      have "item_key it \<notin> fst ` set (item_pairs old)" using Cons.prems(4) by (simp add: ip)
      then have "ITEM_GET_KEY t i \<noteq> item_key it" using k by metis
      then have "idt_map tmp (ITEM_GET_KEY t i) \<noteq> None"
        using idt_map_Some [OF t(2) i refl nz] t(6) [OF nz] by simp
      moreover have "length (items tmp) = capa tmp" using Cons.prems(1) by (simp add: idt_core_def)
      ultimately obtain j where "j < capa tmp" "ITEM_GET_KEY tmp j = ITEM_GET_KEY t i"
        using idt_map_present [of tmp "ITEM_GET_KEY t i"] by blast
      then show False using Cons.prems(5) [of j] k ip by simp
    qed
    with Cons.IH [OF t(2,5)] Cons.prems(3,4) t(3,4) ip obtain t' where
      t': "extend_loop old t = Some t'" "idt_core t'" "capa t' = capa tmp" "num t' = num t + length (item_pairs old)"
        "used t' = num t'"
        "\<And>k. k \<noteq> 0 \<Longrightarrow> idt_map t' k = (case map_of (item_pairs old) k of Some v \<Rightarrow> Some v | None \<Rightarrow> idt_map t k)"
      by auto
    have "map_of (item_pairs old) (item_key it) = None"
      using Cons.prems(4) ip by (simp add: map_of_eq_None_iff)
    then show ?thesis using t t' False ip by (auto simp: split: option.splits)
  qed
qed

lemma item_pairs_facts:
  assumes core: "idt_core tbl"
  shows "length (item_pairs (items tbl)) = num tbl" "distinct (map fst (item_pairs (items tbl)))"
    "k \<noteq> 0 \<Longrightarrow> map_of (item_pairs (items tbl)) k = idt_map tbl k"
proof -
  have len: "length (items tbl) = capa tbl" using core by (simp add: idt_core_def)
  have "length (item_pairs (items tbl)) = card {i. i < length (items tbl) \<and> item_key (items tbl ! i) \<noteq> 0}"
    by (simp add: item_pairs_def length_filter_conv_card)
  then show "length (item_pairs (items tbl)) = num tbl"
    using core len by (simp add: idt_core_def ITEM_KEY_ISSET_def)
  show d: "distinct (map fst (item_pairs (items tbl)))"
  proof -
    have "distinct (map item_key (filter (\<lambda>it. item_key it \<noteq> 0) its))"
      if "\<And>i j. i < length its \<Longrightarrow> j < length its \<Longrightarrow> item_key (its ! i) \<noteq> 0 \<Longrightarrow>
        item_key (its ! i) = item_key (its ! j) \<Longrightarrow> i = j" for its :: "item_t list"
      using that
    proof (induction its)
      case (Cons it its)
      have "item_key it \<noteq> item_key it'" if "it' \<in> set its" "item_key it' \<noteq> 0" for it'
      proof
        assume eq: "item_key it = item_key it'"
        obtain j where "j < length its" "its ! j = it'"
          using \<open>it' \<in> set its\<close> by (auto simp: in_set_conv_nth)
        then show False using Cons.prems [of 0 "Suc j"] \<open>item_key it' \<noteq> 0\<close> eq by simp
      qed
      moreover have "distinct (map item_key (filter (\<lambda>it. item_key it \<noteq> 0) its))"
        by (rule Cons.IH) (use Cons.prems [of "Suc i" "Suc j" for i j] in auto)
      ultimately show ?case by auto
    qed simp
    from this [of "items tbl"] core show ?thesis
      by (simp add: item_pairs_def comp_def idt_core_def ITEM_KEY_ISSET_def ITEM_GET_KEY_def)
  qed
  assume k: "k \<noteq> 0"
  show "map_of (item_pairs (items tbl)) k = idt_map tbl k"
  proof -
    have "map_of (item_pairs its) k = map_option item_val (find (\<lambda>it. item_key it = k) its)" for its
      using k by (induction its) (auto simp: item_pairs_def)
    then show ?thesis by (simp add: idt_map_def)
  qed
qed

text \<open>An empty table of a power-of-two capacity.\<close>

lemma fresh_core:
  "idt_core \<lparr>capa = 2 ^ p, num = 0, used = 0, items = replicate (2 ^ p) zero_item\<rparr>"
  "idt_map \<lparr>capa = c, num = 0, used = 0, items = replicate n zero_item\<rparr> k = (if k = 0 \<and> n \<noteq> 0 then Some 0 else None)"
  by (auto simp: idt_core_def ITEM_KEY_ISSET_def ITEM_GET_KEY_def ITEM_COLLIDED_def zero_item_def)
    (auto simp: idt_map_def find_None_iff zero_item_def gr0_conv_Suc)

text \<open>
  The table grows by half of its pairs, so that after the growth it is at most two thirds full: the
  capacity stays below \<open>2 ^ 30\<close> when twice the number of used slots does.
\<close>

definition idt_room :: "rb_id_table \<Rightarrow> bool" where
  "idt_room tbl \<longleftrightarrow> used tbl < 2 ^ 29"

lemma idt_core_used: "idt_core tbl \<Longrightarrow> num tbl \<le> used tbl"
proof -
  assume core: "idt_core tbl"
  have "card {i. i < capa tbl \<and> ITEM_KEY_ISSET tbl i} \<le> card {i. i < capa tbl \<and> (ITEM_KEY_ISSET tbl i \<or> ITEM_COLLIDED tbl i)}"
    by (rule card_mono) auto
  then show ?thesis using core by (simp add: idt_core_def)
qed

lemma round_capa_nat_fits:
  assumes "n < 2 ^ 30"
  shows "\<exists>p. round_capa_nat n = 2 ^ p" "4 \<le> round_capa_nat n" "n < round_capa_nat n"
proof -
  obtain p where p: "2 \<le> p" "round_capa_nat n = 2 ^ p" using round_capa_nat_bounds(2) [OF assms] by blast
  then show "\<exists>p. round_capa_nat n = 2 ^ p" by blast
  show "4 \<le> round_capa_nat n" using p power_increasing [of 2 p "2 :: nat"] by simp
  show "n < round_capa_nat n" by (rule round_capa_nat_bounds(1) [OF assms])
qed

lemma Suc_less_capa: "n + n div 2 < c \<Longrightarrow> 4 \<le> c \<Longrightarrow> Suc n < (c :: nat)"
  by (cases "n = 0 \<or> n = 1") auto

lemma hash_table_extend_spec:
  assumes inv: "idt_inv tbl" and room: "idt_room tbl"
  shows "\<exists>t. hash_table_extend tbl = Some t \<and> idt_core t \<and> num t = num tbl \<and> Suc (used t) < capa t \<and> 4 \<le> capa t \<and>
    used t \<le> used tbl \<and> (\<forall>k. k \<noteq> 0 \<longrightarrow> idt_map t k = idt_map tbl k)"
proof (cases "used tbl + used tbl div 2 \<ge> capa tbl")
  case False
  then have "capa tbl \<noteq> 0" by simp
  then have core: "idt_core tbl" "4 \<le> capa tbl" using inv by (simp_all add: idt_inv_def)
  then show ?thesis using Suc_less_capa [of "used tbl" "capa tbl"] False by (simp add: hash_table_extend_def)
next
  case True
  have pairs: "length (item_pairs (items tbl)) = num tbl" "distinct (map fst (item_pairs (items tbl)))"
    "\<And>k. k \<noteq> 0 \<Longrightarrow> map_of (item_pairs (items tbl)) k = idt_map tbl k" "num tbl \<le> used tbl"
    using inv item_pairs_facts [of tbl] idt_core_used [of tbl]
    by (cases "capa tbl = 0"; simp add: idt_inv_def item_pairs_def idt_map_def)+
  have small: "num tbl + num tbl div 2 < 2 ^ 30" "used tbl + used tbl div 2 < 2 ^ 30"
    using room pairs(4) by (simp_all add: idt_room_def)
  define c where "c = (let c = round_capa_nat (num tbl + num tbl div 2)
    in if c < capa tbl then round_capa_nat (used tbl + used tbl div 2) else c)"
  have "\<exists>p. c = 2 ^ p" "4 \<le> c" "num tbl + num tbl div 2 < c"
    using round_capa_nat_fits [OF small(1)] round_capa_nat_fits [OF small(2)] pairs(4)
    unfolding c_def Let_def by (auto split: if_splits)
  then obtain p where p: "c = 2 ^ p" and c: "4 \<le> c" "num tbl + num tbl div 2 < c" by blast
  let ?tmp = "\<lparr>capa = c, num = 0, used = 0, items = replicate c zero_item\<rparr>"
  have core: "idt_core ?tmp" unfolding p by (rule fresh_core)
  have empty: "ITEM_GET_KEY ?tmp i \<notin> fst ` set (item_pairs (items tbl))" if "i < capa ?tmp" for i
    using that by (auto simp: ITEM_GET_KEY_def zero_item_def item_pairs_def)
  from extend_loop_spec [OF core _ _ pairs(2) empty] pairs(1) c(2) obtain t where
    t: "extend_loop (items tbl) ?tmp = Some t" "idt_core t" "capa t = c" "num t = num tbl" "used t = num t"
      "\<And>k. k \<noteq> 0 \<Longrightarrow> idt_map t k = (case map_of (item_pairs (items tbl)) k of Some v \<Rightarrow> Some v | None \<Rightarrow> idt_map ?tmp k)"
    by auto
  have "hash_table_extend tbl = Some t"
    using True t(1) by (simp add: hash_table_extend_def c_def Let_def)
  moreover have "idt_map t k = idt_map tbl k" if "k \<noteq> 0" for k
    using t(6) [OF that] pairs(3) [OF that] that by (auto simp: fresh_core(2) split: option.splits)
  ultimately show ?thesis
    using t(2-5) Suc_less_capa [OF c(2,1)] c(1) pairs(4) by auto
qed

section \<open>The operations\<close>

lemma rb_id_table_insert_key_spec:
  assumes inv: "idt_inv tbl" and room: "idt_room tbl" and key: "key \<noteq> 0"
  shows "\<exists>t. rb_id_table_insert_key tbl key v = Some t \<and> idt_inv t \<and>
    num t = (if idt_map tbl key = None then Suc (num tbl) else num tbl) \<and> used t \<le> Suc (used tbl) \<and>
    (\<forall>k. k \<noteq> 0 \<longrightarrow> idt_map t k = (if k = key then Some v else idt_map tbl k))"
  using inv key
proof (cases rule: hash_table_index_spec)
  case (found i)
  then have core: "idt_core tbl" "used tbl < capa tbl" "4 \<le> capa tbl" using inv by (auto simp: idt_inv_def)
  let ?t = "item_set_val tbl i v"
  have i: "i < length (items tbl)" using core found(2) by (simp add: idt_core_def)
  have core': "idt_core ?t"
    using core(1) unfolding idt_core_def ITEM_KEY_ISSET_iff by (simp add: idt_simps i found(2))
  have "idt_map ?t k = (if k = key then Some v else idt_map tbl k)" if k: "k \<noteq> 0" for k
  proof (cases "\<exists>j < capa tbl. ITEM_GET_KEY tbl j = k")
    case True
    then obtain j where j: "j < capa tbl" "ITEM_GET_KEY tbl j = k" by blast
    have "j = i" if "k = key"
      using idt_core_inj [OF core(1) j(1) found(2)] j(2) found(3) k that by simp
    then show ?thesis
      using idt_map_Some [OF core' _ _ k, of j] idt_map_Some [OF core(1) j k] j found(3) by (auto simp: idt_simps i)
  next
    case False
    have len: "length (items tbl) = capa tbl" using core(1) by (simp add: idt_core_def)
    have "idt_map ?t k = None" "idt_map tbl k = None"
      using False len by (auto intro!: idt_map_None simp: idt_simps i found(2))
    then show ?thesis using False found(2,3) by auto
  qed
  then show ?thesis
    using found(1) core core' idt_map_Some [OF core(1) found(2,3) key]
    by (simp add: rb_id_table_insert_key_def idt_inv_def idt_simps)
next
  case absent
  obtain t where t: "hash_table_extend tbl = Some t" "idt_core t" "num t = num tbl" "Suc (used t) < capa t" "4 \<le> capa t"
    "used t \<le> used tbl" "\<And>k. k \<noteq> 0 \<Longrightarrow> idt_map t k = idt_map tbl k"
    using hash_table_extend_spec [OF inv room] by blast
  have len: "length (items tbl) = capa tbl" using inv by (auto simp: idt_inv_def idt_core_def split: if_splits)
  have none: "idt_map tbl key = None" by (rule idt_map_None [OF len absent(2)])
  have new: "ITEM_GET_KEY t i \<noteq> key" if "i < capa t" for i
    using idt_map_Some [OF t(2) that _ key] t(7) [OF key] none by auto
  have "num t < capa t" using t(4) idt_core_used [OF t(2)] by simp
  from hash_table_raw_insert_spec [OF t(2) this key new, of v] obtain t' where
    t': "hash_table_raw_insert t key v = Some t'" "idt_core t'" "capa t' = capa t" "num t' = Suc (num t)"
      "used t' \<le> Suc (used t)" "\<And>k. k \<noteq> 0 \<Longrightarrow> idt_map t' k = (if k = key then Some v else idt_map t k)"
    by blast
  have "rb_id_table_insert_key tbl key v = Some t'" using absent(1) t(1) t'(1) by (simp add: rb_id_table_insert_key_def)
  moreover have "idt_inv t'" using t' t(4,5) by (simp add: idt_inv_def)
  ultimately show ?thesis using t t' none by auto
qed

text \<open>Deletion empties the slot and leaves its mark, so that the other searches still pass over it.\<close>

lemma hash_delete_index_spec:
  assumes inv: "idt_inv tbl" and i: "i < capa tbl" "ITEM_KEY_ISSET tbl i"
  shows "\<exists>t. hash_delete_index tbl (Some i) = (t, True) \<and> idt_inv t \<and> num t = num tbl - 1 \<and> capa t = capa tbl \<and>
    (\<forall>j. ITEM_GET_KEY t j = (if j = i then 0 else ITEM_GET_KEY tbl j)) \<and>
    (\<forall>j. j \<noteq> i \<longrightarrow> item_vals t j = item_vals tbl j) \<and>
    (\<forall>k. k \<noteq> 0 \<longrightarrow> idt_map t k = (if k = ITEM_GET_KEY tbl i then None else idt_map tbl k))"
proof -
  have core: "idt_core tbl" "used tbl < capa tbl" "4 \<le> capa tbl" using inv i by (auto simp: idt_inv_def)
  have len: "length (items tbl) = capa tbl" using core(1) by (simp add: idt_core_def)
  have il: "i < length (items tbl)" using i(1) len by simp
  define t0 where "t0 = (if \<not> ITEM_COLLIDED tbl i then tbl\<lparr>used := used tbl - 1\<rparr> else tbl)"
  define t where "t = item_set_val (ITEM_SET_KEY (t0\<lparr>num := num tbl - 1\<rparr>) i 0) i 0"
  have t: "hash_delete_index tbl (Some i) = (t, True)"
    by (simp add: hash_delete_index_def t_def t0_def Let_def)
  have fields: "capa t = capa tbl" "length (items t) = capa tbl" "num t = num tbl - 1"
    "used t = (if ITEM_COLLIDED tbl i then used tbl else used tbl - 1)"
    using len by (simp_all add: t_def t0_def idt_simps)
  have K: "ITEM_GET_KEY t j = (if j = i then 0 else ITEM_GET_KEY tbl j)"
    and V: "j \<noteq> i \<Longrightarrow> item_vals t j = item_vals tbl j" and C: "ITEM_COLLIDED t j \<longleftrightarrow> ITEM_COLLIDED tbl j" for j
    using il by (simp_all add: t_def t0_def idt_simps)
  have set: "ITEM_KEY_ISSET t j \<longleftrightarrow> j \<noteq> i \<and> ITEM_KEY_ISSET tbl j" for j by (simp add: ITEM_KEY_ISSET_iff K)
  have num: "num t = card {j. j < capa tbl \<and> ITEM_KEY_ISSET t j}"
  proof -
    have "card {j. j < capa tbl \<and> ITEM_KEY_ISSET tbl j} = Suc (card {j. j < capa tbl \<and> ITEM_KEY_ISSET t j})"
      by (rule card_insert_index [OF i(1)]) (use i(2) set in auto)
    moreover have "num tbl = card {j. j < capa tbl \<and> ITEM_KEY_ISSET tbl j}" using core(1) by (simp add: idt_core_def)
    ultimately show ?thesis using fields(3) by simp
  qed
  have used: "used t = card {j. j < capa tbl \<and> (ITEM_KEY_ISSET t j \<or> ITEM_COLLIDED t j)}"
  proof (cases "ITEM_COLLIDED tbl i")
    case True
    then have "ITEM_KEY_ISSET t j \<or> ITEM_COLLIDED t j \<longleftrightarrow> ITEM_KEY_ISSET tbl j \<or> ITEM_COLLIDED tbl j" for j
      by (auto simp: set C)
    then show ?thesis using True fields(4) core(1) by (simp add: idt_core_def)
  next
    case False
    have "ITEM_KEY_ISSET tbl j \<or> ITEM_COLLIDED tbl j \<longleftrightarrow> j = i \<or> ITEM_KEY_ISSET t j \<or> ITEM_COLLIDED t j" for j
      using i(2) by (auto simp: set C)
    from card_insert_index [OF i(1) _ this] False show ?thesis
      using fields(4) core(1) by (simp add: idt_core_def set C)
  qed
  have "used t \<le> used tbl" using fields(4) by simp
  have core_t: "idt_core t"
    unfolding idt_core_def fields(1)
  proof (intro conjI allI impI)
    fix a b
    assume "a < capa tbl" "b < capa tbl" "ITEM_KEY_ISSET t a" "ITEM_GET_KEY t a = ITEM_GET_KEY t b"
    then show "a = b"
      using idt_core_inj [OF core(1), of a b] by (auto simp: K ITEM_KEY_ISSET_iff split: if_splits)
  next
    fix a
    assume a: "a < capa tbl" "ITEM_KEY_ISSET t a"
    then have a': "a \<noteq> i" "ITEM_KEY_ISSET tbl a" by (simp_all add: set)
    then obtain j where "j < capa tbl" "slot (capa tbl) (ITEM_GET_KEY tbl a) j = a"
      "\<forall>m < j. ITEM_COLLIDED tbl (slot (capa tbl) (ITEM_GET_KEY tbl a) m)"
      using core(1) a(1) unfolding idt_core_def by blast
    then show "\<exists>j < capa tbl. slot (capa tbl) (ITEM_GET_KEY t a) j = a \<and>
        (\<forall>m < j. ITEM_COLLIDED t (slot (capa tbl) (ITEM_GET_KEY t a) m))"
      using a' by (intro exI [of _ j]) (simp add: K C)
  qed (use fields num used core(1) in \<open>auto simp: idt_core_def\<close>)
  have inv_t: "idt_inv t" using core_t core fields(1) \<open>used t \<le> used tbl\<close> by (simp add: idt_inv_def)
  have "idt_map t k = (if k = ITEM_GET_KEY tbl i then None else idt_map tbl k)" if k: "k \<noteq> 0" for k
  proof (cases "\<exists>j < capa tbl. ITEM_GET_KEY t j = k")
    case True
    then obtain j where j: "j < capa tbl" "ITEM_GET_KEY t j = k" by blast
    then have j': "j \<noteq> i" "ITEM_GET_KEY tbl j = k" using k by (auto simp: K split: if_splits)
    then have "k \<noteq> ITEM_GET_KEY tbl i" using idt_core_inj [OF core(1) j(1) i(1)] k by auto
    then show ?thesis
      using idt_map_Some [OF core_t _ j(2) k] idt_map_Some [OF core(1) j(1) j'(2) k] j(1) j' V fields(1) by simp
  next
    case False
    then have "idt_map t k = None" using idt_map_None [of t k] fields by auto
    moreover have "idt_map tbl k = None" if "k \<noteq> ITEM_GET_KEY tbl i"
    proof (rule idt_map_None [OF len])
      fix a
      assume "a < capa tbl"
      then show "ITEM_GET_KEY tbl a \<noteq> k" using False that K [of a] by (cases "a = i") auto
    qed
    ultimately show ?thesis by simp
  qed
  then show ?thesis using t inv_t fields K V by simp
qed

section \<open>The table as a map from method names\<close>

definition idt_insert :: "rb_id_table \<Rightarrow> ID \<Rightarrow> VALUE \<Rightarrow> rb_id_table option" where
  "idt_insert tbl i v = rb_id_table_insert tbl i v"

definition idt_delete :: "rb_id_table \<Rightarrow> ID \<Rightarrow> rb_id_table option" where
  "idt_delete tbl i = map_option fst (rb_id_table_delete tbl i)"

lemma rb_id_table_lookup_spec:
  "idt_inv tbl \<Longrightarrow> id2key i \<noteq> 0 \<Longrightarrow> rb_id_table_lookup tbl i = Some (idt_map tbl (id2key i))"
  using hash_table_index_map [of tbl "id2key i"]
  by (auto simp: rb_id_table_lookup_def simp flip: item_vals_def)

lemma rb_id_table_delete_spec:
  assumes inv: "idt_inv tbl" and key: "id2key i \<noteq> 0"
  shows "\<exists>t. rb_id_table_delete tbl i = Some (t, idt_map tbl (id2key i) \<noteq> None) \<and> idt_inv t \<and>
    num t = (if idt_map tbl (id2key i) = None then num tbl else num tbl - 1) \<and>
    (\<forall>k. k \<noteq> 0 \<longrightarrow> idt_map t k = (if k = id2key i then None else idt_map tbl k))"
  using inv key
proof (cases rule: hash_table_index_spec)
  case (found j)
  have "ITEM_KEY_ISSET tbl j" using found(3) key by (simp add: ITEM_KEY_ISSET_iff)
  moreover have "idt_core tbl" using inv found(2) by (auto simp: idt_inv_def)
  then have "idt_map tbl (id2key i) \<noteq> None" using idt_map_Some [OF _ found(2,3) key] by simp
  ultimately show ?thesis
    using hash_delete_index_spec [OF inv found(2)] found by (auto simp: rb_id_table_delete_def)
next
  case absent
  have "length (items tbl) = capa tbl" using inv by (auto simp: idt_inv_def idt_core_def split: if_splits)
  then have "idt_map tbl (id2key i) = None" using idt_map_None absent(2) by blast
  then show ?thesis using absent(1) inv by (auto simp: rb_id_table_delete_def hash_delete_index_def)
qed

interpretation idt: keyed_map "\<lambda>i. id2key i \<noteq> 0" "\<lambda>_ i j. id2key i = id2key j" idt_inv idt_room
  rb_id_table_lookup rb_id_table_insert idt_delete
proof unfold_locales
  fix tbl t i j and v :: VALUE
  assume inv: "idt_inv tbl"
  assume i: "id2key i \<noteq> 0"
  show "\<exists>r. rb_id_table_lookup tbl i = Some r" using rb_id_table_lookup_spec [OF inv i] by blast
  show "\<exists>t. idt_delete tbl i = Some t \<and> idt_inv t \<and> (\<lambda>i j. id2key i = id2key j) = (\<lambda>i j. id2key i = id2key j)"
    using rb_id_table_delete_spec [OF inv i] by (auto simp: idt_delete_def)
  assume j: "id2key j \<noteq> 0"
  show "rb_id_table_lookup t j = (if id2key j = id2key i then Some None else rb_id_table_lookup tbl j)"
    if "idt_delete tbl i = Some t"
    using rb_id_table_delete_spec [OF inv i] rb_id_table_lookup_spec [OF inv j] rb_id_table_lookup_spec [of t j] j that
    by (auto simp: idt_delete_def)
next
  fix tbl t i j and v :: VALUE
  assume inv: "idt_inv tbl" and room: "idt_room tbl" and i: "id2key i \<noteq> 0"
  show "\<exists>t. rb_id_table_insert tbl i v = Some t \<and> idt_inv t \<and> (\<lambda>i j. id2key i = id2key j) = (\<lambda>i j. id2key i = id2key j)"
    using rb_id_table_insert_key_spec [OF inv room i, of v] by (auto simp: rb_id_table_insert_def)
  assume j: "id2key j \<noteq> 0"
  show "rb_id_table_lookup t j = (if id2key j = id2key i then Some (Some v) else rb_id_table_lookup tbl j)"
    if "rb_id_table_insert tbl i v = Some t"
    using rb_id_table_insert_key_spec [OF inv room i, of v] rb_id_table_lookup_spec [OF inv j]
      rb_id_table_lookup_spec [of t j] j that
    by (auto simp: rb_id_table_insert_def)
qed simp

section \<open>Creation and traversal\<close>

lemma rb_id_table_create_spec:
  assumes "c < 2 ^ 30"
  shows "idt_inv (rb_id_table_create c) \<and> num (rb_id_table_create c) = 0 \<and>
    (\<forall>k. k \<noteq> 0 \<longrightarrow> idt_map (rb_id_table_create c) k = None)"
proof (cases "c = 0")
  case True
  then show ?thesis by (simp add: rb_id_table_create_def rb_id_table_init_def idt_inv_def idt_map_def)
next
  case False
  obtain p where p: "round_capa_nat c = 2 ^ p" and c: "4 \<le> round_capa_nat c"
    using round_capa_nat_fits [OF assms] by blast
  have "rb_id_table_create c = \<lparr>capa = 2 ^ p, num = 0, used = 0, items = replicate (2 ^ p) zero_item\<rparr>"
    using False p by (simp add: rb_id_table_create_def rb_id_table_init_def Let_def)
  then show ?thesis using fresh_core(1) [of p] fresh_core(2) [of "2 ^ p" "2 ^ p"] c p by (simp add: idt_inv_def)
qed

text \<open>
  What a traversal does, over the pairs in the order of their slots: the keys that the callback asks
  to delete, and the caller's data.
\<close>

fun foreach_pairs :: "(id_key_t \<Rightarrow> ID) \<Rightarrow> (ID \<Rightarrow> VALUE \<Rightarrow> 's \<Rightarrow> 's \<times> rb_id_table_iterator_result) \<Rightarrow>
    (id_key_t \<times> VALUE) list \<Rightarrow> 's \<Rightarrow> id_key_t list \<times> 's" where
  "foreach_pairs key2id func [] data = ([], data)"
| "foreach_pairs key2id func ((k, v) # xs) data =
    (let (data, ret) = func (key2id k) v data
     in case ret of
          ID_TABLE_DELETE \<Rightarrow> (let (ks, data) = foreach_pairs key2id func xs data in (k # ks, data))
        | ID_TABLE_STOP \<Rightarrow> ([], data)
        | _ \<Rightarrow> foreach_pairs key2id func xs data)"

lemma drop_items_delete: "drop (Suc i) (items (fst (hash_delete_index tbl (Some i)))) = drop (Suc i) (items tbl)"
  by (simp add: hash_delete_index_def Let_def item_set_val_def ITEM_SET_KEY_def)

lemma item_pairs_drop:
  assumes "i < length its"
  shows "item_pairs (drop i its) =
    (if item_key (its ! i) \<noteq> 0 then [(item_key (its ! i), item_val (its ! i))] else []) @ item_pairs (drop (Suc i) its)"
  using assms by (simp add: item_pairs_def flip: Cons_nth_drop_Suc)

lemma id_foreach_from_spec:
  assumes "idt_inv tbl" "i \<le> capa tbl"
  shows "\<exists>t. id_foreach_from key2id func tbl (capa tbl) i data =
      (t, snd (foreach_pairs key2id func (item_pairs (drop i (items tbl))) data)) \<and> idt_inv t \<and>
    (\<forall>k. k \<noteq> 0 \<longrightarrow> idt_map t k =
      (if k \<in> set (fst (foreach_pairs key2id func (item_pairs (drop i (items tbl))) data)) then None else idt_map tbl k))"
  using assms
proof (induction "capa tbl - i" arbitrary: i tbl data)
  case 0
  have "length (items tbl) = capa tbl" using 0(2) by (auto simp: idt_inv_def idt_core_def split: if_splits)
  with 0 show ?case by (subst id_foreach_from.simps) (simp add: item_pairs_def)
next
  case (Suc n)
  have len: "length (items tbl) = capa tbl" using Suc.prems(1) by (auto simp: idt_inv_def idt_core_def split: if_splits)
  have i: "i < capa tbl" "n = capa tbl - Suc i" using Suc.hyps(2) by simp_all
  note pairs = item_pairs_drop [of i "items tbl", unfolded len, OF i(1)]
  note step = id_foreach_from.simps [of key2id func tbl "capa tbl" i data]
  note IH = Suc.hyps(1) [OF i(2) Suc.prems(1)]
  show ?case
  proof (cases "ITEM_KEY_ISSET tbl i")
    case False
    then show ?thesis using step pairs i IH by (simp add: ITEM_KEY_ISSET_def)
  next
    case True
    then have pairs: "item_pairs (drop i (items tbl)) =
        (ITEM_GET_KEY tbl i, item_vals tbl i) # item_pairs (drop (Suc i) (items tbl))"
      using pairs by (simp add: ITEM_KEY_ISSET_def ITEM_GET_KEY_def item_vals_def)
    obtain d r where f: "func (key2id (ITEM_GET_KEY tbl i)) (item_vals tbl i) data = (d, r)" by fastforce
    show ?thesis
    proof (cases "r = ID_TABLE_DELETE")
      case del: True
      let ?t = "fst (hash_delete_index tbl (Some i))"
      have t: "idt_inv ?t" "capa ?t = capa tbl"
        "\<And>k. k \<noteq> 0 \<Longrightarrow> idt_map ?t k = (if k = ITEM_GET_KEY tbl i then None else idt_map tbl k)"
        using hash_delete_index_spec [OF Suc.prems(1) i(1) True] by auto
      have "n = capa ?t - Suc i" "Suc i \<le> capa ?t" using i t(2) by simp_all
      from Suc.hyps(1) [OF this(1) t(1) this(2), of d] obtain t' where
        "id_foreach_from key2id func ?t (capa tbl) (Suc i) d =
          (t', snd (foreach_pairs key2id func (item_pairs (drop (Suc i) (items tbl))) d))" "idt_inv t'"
        "\<And>k. k \<noteq> 0 \<Longrightarrow> idt_map t' k =
          (if k \<in> set (fst (foreach_pairs key2id func (item_pairs (drop (Suc i) (items tbl))) d)) then None else idt_map ?t k)"
        unfolding drop_items_delete t(2) by blast
      then show ?thesis
        using step True i(1) f del t(3) by (simp add: pairs item_vals_def split_beta)
    next
      case False
      then show ?thesis
        using step True i f IH [of d] by (cases r) (simp_all add: pairs item_vals_def Suc.prems(1))
    qed
  qed
qed

end
