(* ===== verification/Id_Table_Properties.thy ===== *)
theory Id_Table_Properties
  imports Id_Table_Ops
begin

text \<open>What the development shows of id_table.c.\<close>

section \<open>Example tables\<close>

definition id_example :: rb_id_table where
  "id_example = rb_id_table_create 3"

lemma id_example_facts: "idt_inv id_example" "idt_room id_example" "num id_example = 0"
  "k \<noteq> 0 \<Longrightarrow> idt_map id_example k = None"
proof -
  show "idt_inv id_example" "num id_example = 0" "k \<noteq> 0 \<Longrightarrow> idt_map id_example k = None"
    using rb_id_table_create_spec [of 3] by (simp_all add: id_example_def)
  show "idt_room id_example"
    by (simp add: idt_room_def id_example_def rb_id_table_create_def rb_id_table_init_def Let_def)
qed

lemma id2key_op: "id2key 42 = 42" "id2key 43 = 43"
  by (simp_all add: id2key_def rb_id_to_serial_def is_notop_id_def tLAST_OP_ID_def)

section \<open>The operations\<close>

text \<open>C16: \<open>rb_id_table_insert\<close> on a well-formed table always returns (the probe sequence meets a free
  slot, growing the table first when two thirds of it are used), keeps the invariant, and makes
  \<open>rb_id_table_lookup\<close> answer the new value for the ids with the same serial and what it answered
  before for all others; inserting again overwrites and does not count twice.\<close>

theorem rb_id_table_insert_correct:
  assumes "idt_inv tbl" "idt_room tbl" "id2key i \<noteq> 0" "id2key j \<noteq> 0"
  shows "\<exists>t. rb_id_table_insert tbl i v = Some t \<and> idt_inv t \<and>
    rb_id_table_size t = (if rb_id_table_lookup tbl i = Some None then rb_id_table_size tbl + 1 else rb_id_table_size tbl) \<and>
    rb_id_table_lookup t j = (if id2key j = id2key i then Some (Some v) else rb_id_table_lookup tbl j)"
proof -
  obtain t where t: "rb_id_table_insert tbl i v = Some t" "idt_inv t"
    "num t = (if idt_map tbl (id2key i) = None then Suc (num tbl) else num tbl)"
    using rb_id_table_insert_key_spec [OF assms(1-3), of v] by (auto simp: rb_id_table_insert_def)
  then show ?thesis
    using idt.lookup_insert [OF assms t(1)] rb_id_table_lookup_spec [OF assms(1,3)] by (simp add: rb_id_table_size_def)
qed

theorem rb_id_table_insert_correct_witness:
  "\<exists>t. rb_id_table_insert id_example 42 7 = Some t \<and> rb_id_table_lookup t 42 = Some (Some 7) \<and> rb_id_table_size t = 1"
  using rb_id_table_insert_correct [OF id_example_facts(1,2), of 42 42 7] id_example_facts(3,4)
    rb_id_table_lookup_spec [OF id_example_facts(1), of 42]
  by (auto simp: id2key_op rb_id_table_size_def)

text \<open>C17: \<open>rb_id_table_delete\<close> always returns, says whether the id was there, keeps the invariant, and
  afterwards the id is not found while every other id is looked up as before, although the deleted
  slot may lie on its probe sequence.\<close>

theorem rb_id_table_delete_correct:
  assumes "idt_inv tbl" "id2key i \<noteq> 0" "id2key j \<noteq> 0"
  shows "\<exists>t. rb_id_table_delete tbl i = Some (t, rb_id_table_lookup tbl i \<noteq> Some None) \<and> idt_inv t \<and>
    rb_id_table_lookup t j = (if id2key j = id2key i then Some None else rb_id_table_lookup tbl j)"
proof -
  obtain t where t: "rb_id_table_delete tbl i = Some (t, idt_map tbl (id2key i) \<noteq> None)" "idt_inv t"
    using rb_id_table_delete_spec [OF assms(1,2)] by blast
  then have "idt_delete tbl i = Some t" by (simp add: idt_delete_def)
  from t idt.lookup_delete [OF assms this] show ?thesis
    by (simp add: rb_id_table_lookup_spec [OF assms(1,2)])
qed

theorem rb_id_table_delete_correct_witness:
  "\<exists>t t'. rb_id_table_insert id_example 42 7 = Some t \<and> rb_id_table_delete t 42 = Some (t', True) \<and>
    rb_id_table_lookup t' 42 = Some None"
proof -
  obtain t where t: "rb_id_table_insert id_example 42 7 = Some t" "idt_inv t"
    "\<And>k. k \<noteq> 0 \<Longrightarrow> idt_map t k = (if k = 42 then Some 7 else None)"
    using rb_id_table_insert_key_spec [OF id_example_facts(1,2), of 42 7] id_example_facts(4)
    by (auto simp: rb_id_table_insert_def id2key_op)
  have "rb_id_table_lookup t 42 = Some (Some 7)" using rb_id_table_lookup_spec [OF t(2), of 42] t(3) by (simp add: id2key_op)
  then show ?thesis using t(1) rb_id_table_delete_correct [OF t(2), of 42 42] by (auto simp: id2key_op)
qed

lemma idt_pairs_facts:
  assumes "idt_inv tbl"
  shows "length (item_pairs (items tbl)) = num tbl" "distinct (map fst (item_pairs (items tbl)))"
    "k \<noteq> 0 \<Longrightarrow> map_of (item_pairs (items tbl)) k = idt_map tbl k"
  using assms item_pairs_facts [of tbl] by (cases "capa tbl = 0"; simp add: idt_inv_def item_pairs_def idt_map_def)+

text \<open>C18: \<open>rb_id_table_foreach\<close> shows the callback every pair once, in slot order, up to the first
  \<open>ID_TABLE_STOP\<close>; the pairs it answers \<open>ID_TABLE_DELETE\<close> for are gone afterwards and no others.\<close>

theorem rb_id_table_foreach_correct:
  assumes "idt_inv tbl"
  shows "\<exists>t. rb_id_table_foreach key2id func tbl data =
      (t, snd (foreach_pairs key2id func (item_pairs (items tbl)) data)) \<and> idt_inv t \<and>
    (\<forall>k. k \<noteq> 0 \<longrightarrow> idt_map t k =
      (if k \<in> set (fst (foreach_pairs key2id func (item_pairs (items tbl)) data)) then None else idt_map tbl k)) \<and>
    distinct (map fst (item_pairs (items tbl))) \<and>
    (\<forall>k v. k \<noteq> 0 \<longrightarrow> (k, v) \<in> set (item_pairs (items tbl)) \<longleftrightarrow> idt_map tbl k = Some v)"
proof -
  have mem: "(k, v) \<in> set (item_pairs (items tbl)) \<longleftrightarrow> idt_map tbl k = Some v" if "k \<noteq> 0" for k v
    using map_of_eq_Some_iff [OF idt_pairs_facts(2) [OF assms], of k v] idt_pairs_facts(3) [OF assms that] by simp
  from id_foreach_from_spec [OF assms le0, of key2id func data] obtain t where
    "id_foreach_from key2id func tbl (capa tbl) 0 data = (t, snd (foreach_pairs key2id func (item_pairs (items tbl)) data))"
    "idt_inv t" "\<forall>k. k \<noteq> 0 \<longrightarrow> idt_map t k =
      (if k \<in> set (fst (foreach_pairs key2id func (item_pairs (items tbl)) data)) then None else idt_map tbl k)"
    unfolding drop_0 by (elim exE conjE) (rule that; assumption)
  then show ?thesis unfolding rb_id_table_foreach_def using mem idt_pairs_facts(2) [OF assms] by blast
qed

theorem rb_id_table_foreach_correct_witness:
  "\<exists>t t'. rb_id_table_insert id_example 42 7 = Some t \<and>
    rb_id_table_foreach (\<lambda>k. 0) (\<lambda>_ v s. (s + v, ID_TABLE_DELETE)) t 5 = (t', 12) \<and> idt_map t' 42 = None"
proof -
  obtain t where t: "rb_id_table_insert id_example 42 7 = Some t" "idt_inv t" "num t = 1"
    "\<And>k. k \<noteq> 0 \<Longrightarrow> idt_map t k = (if k = 42 then Some 7 else None)"
    using rb_id_table_insert_key_spec [OF id_example_facts(1,2), of 42 7] id_example_facts(3,4)
    by (auto simp: rb_id_table_insert_def id2key_op)
  obtain p where p: "item_pairs (items t) = [p]"
    using idt_pairs_facts(1) [OF t(2)] t(3) by (auto simp: length_Suc_conv)
  then have "item_pairs (items t) = [(42, 7)]"
    using idt_pairs_facts(3) [OF t(2), of 42] t(4) [of 42] by (cases p) (auto split: if_splits)
  then show ?thesis
    using t(1) rb_id_table_foreach_correct [OF t(2), of "\<lambda>k. 0" "\<lambda>_ v s. (s + v, ID_TABLE_DELETE)" 5] by auto
qed

end
