(* ===== verification/Sync_Queue.thy ===== *)
theory Sync_Queue
  imports Ruby_Prelude
begin

text \<open>
  Thread::Queue and Thread::SizedQueue of thread_sync.c.  Under the global VM lock everything
  between two sleeps of a thread runs without interruption, so an operation is a function up to the
  point where the thread returns, raises or goes to sleep, and the steps of the system are such
  stretches.  No fiber scheduler is installed (\<open>scheduler == Qnil\<close>), so a waiter is its thread; a
  waiter's node in a \<open>list_head\<close> is its place in a list of threads.  Thread ids are 32 bits wide,
  fewer than \<open>LONG_MAX\<close>.
\<close>

section \<open>Waking sleepers\<close>

type_synonym rb_thread = u32

datatype rb_thread_status = THREAD_RUNNABLE | THREAD_STOPPED | THREAD_STOPPED_FOREVER | THREAD_KILLED

type_synonym statuses = "rb_thread \<Rightarrow> rb_thread_status"

definition LONG_MAX :: int where "LONG_MAX = 2 ^ 63 - 1"

text \<open>
  The threads left in the list and the new statuses.  A killed thread is taken out and not counted;
  with \<open>max\<close> 0 the test \<open>--max == 0\<close> does not succeed and every sleeper is woken.
\<close>

fun sync_wakeup :: "rb_thread list \<Rightarrow> int \<Rightarrow> statuses \<Rightarrow> rb_thread list \<times> statuses" where
  "sync_wakeup [] mx st = ([], st)"
| "sync_wakeup (cur # head) mx st =
    (if st cur \<noteq> THREAD_KILLED then
       (let st = st(cur := THREAD_RUNNABLE); mx = mx - 1
        in if mx = 0 then (head, st) else sync_wakeup head mx st)
     else sync_wakeup head mx st)"

definition wakeup_one :: "rb_thread list \<Rightarrow> statuses \<Rightarrow> rb_thread list \<times> statuses" where
  "wakeup_one head st = sync_wakeup head 1 st"

definition wakeup_all :: "rb_thread list \<Rightarrow> statuses \<Rightarrow> rb_thread list \<times> statuses" where
  "wakeup_all head st = sync_wakeup head LONG_MAX st"

section \<open>Queue\<close>

text \<open>\<open>closed\<close> is the flag \<open>QUEUE_CLOSED\<close> of the object.\<close>

record rb_queue =
  waitq :: "rb_thread list"
  fork_gen :: nat
  que :: "VALUE list"
  num_waiting :: int
  closed :: bool

record rb_szqueue = rb_queue +
  num_waiting_push :: int
  pushq :: "rb_thread list"
  max_len :: int

datatype sync_error = QueueEmpty | QueueFull | ClosedQueueError | ArgError

text \<open>How a stretch ends: the method returns, raises, or its thread sleeps in the queue.\<close>

datatype 'a outcome = Return 'a | Raise sync_error | Block

definition Qnil_value :: VALUE where "Qnil_value = 8"

definition queue_fork_check :: "nat \<Rightarrow> 'z rb_queue_scheme \<Rightarrow> 'z rb_queue_scheme \<times> bool" where
  "queue_fork_check vm_fork_gen q =
    (if fork_gen q = vm_fork_gen then (q, False)
     else (q\<lparr>fork_gen := vm_fork_gen, waitq := [], num_waiting := 0\<rparr>, True))"

definition queue_length :: "'z rb_queue_scheme \<Rightarrow> int" where
  "queue_length q = int (length (que q))"

definition queue_closed_p :: "'z rb_queue_scheme \<Rightarrow> bool" where
  "queue_closed_p q = closed q"

definition rb_queue_initialize :: "nat \<Rightarrow> VALUE list \<Rightarrow> rb_queue" where
  "rb_queue_initialize vm_fork_gen initial =
    \<lparr>waitq = [], fork_gen = vm_fork_gen, que = initial, num_waiting = 0, closed = False\<rparr>"

definition queue_do_push :: "'z rb_queue_scheme \<Rightarrow> VALUE \<Rightarrow> statuses \<Rightarrow>
    'z rb_queue_scheme \<times> statuses \<times> unit outcome" where
  "queue_do_push q obj st =
    (if queue_closed_p q then (q, st, Raise ClosedQueueError)
     else
       let q = q\<lparr>que := que q @ [obj]\<rparr>;
           (head, st) = wakeup_one (waitq q) st
       in (q\<lparr>waitq := head\<rparr>, st, Return ()))"

definition rb_queue_close :: "'z rb_queue_scheme \<Rightarrow> statuses \<Rightarrow> 'z rb_queue_scheme \<times> statuses" where
  "rb_queue_close q st =
    (if \<not> queue_closed_p q then
       let q = q\<lparr>closed := True\<rparr>; (head, st) = wakeup_all (waitq q) st
       in (q\<lparr>waitq := head\<rparr>, st)
     else (q, st))"

definition queue_sleep_done :: "rb_thread \<Rightarrow> 'z rb_queue_scheme \<Rightarrow> 'z rb_queue_scheme" where
  "queue_sleep_done th q = q\<lparr>waitq := removeAll th (waitq q), num_waiting := num_waiting q - 1\<rparr>"

text \<open>One turn of the loop of \<open>queue_do_pop\<close>: it is entered again when the sleep is over.\<close>

definition queue_do_pop :: "rb_thread \<Rightarrow> 'z rb_queue_scheme \<Rightarrow> bool \<Rightarrow> 'z rb_queue_scheme \<times> VALUE outcome" where
  "queue_do_pop th q should_block =
    (if que q = [] then
       (if \<not> should_block then (q, Raise QueueEmpty)
        else if queue_closed_p q then (q, Return Qnil_value)
        else (q\<lparr>waitq := waitq q @ [th], num_waiting := num_waiting q + 1\<rparr>, Block))
     else (q\<lparr>que := tl (que q)\<rparr>, Return (hd (que q))))"

definition rb_queue_empty_p :: "'z rb_queue_scheme \<Rightarrow> bool" where
  "rb_queue_empty_p q \<longleftrightarrow> queue_length q = 0"

definition rb_queue_clear :: "'z rb_queue_scheme \<Rightarrow> 'z rb_queue_scheme" where
  "rb_queue_clear q = q\<lparr>que := []\<rparr>"

definition rb_queue_num_waiting :: "'z rb_queue_scheme \<Rightarrow> int" where
  "rb_queue_num_waiting q = num_waiting q"

section \<open>SizedQueue\<close>

definition szqueue_fork_check :: "nat \<Rightarrow> rb_szqueue \<Rightarrow> rb_szqueue" where
  "szqueue_fork_check vm_fork_gen sq =
    (let (sq, forked) = queue_fork_check vm_fork_gen sq
     in if forked then sq\<lparr>pushq := [], num_waiting_push := 0\<rparr> else sq)"

definition rb_szqueue_initialize :: "nat \<Rightarrow> int \<Rightarrow> sync_error + rb_szqueue" where
  "rb_szqueue_initialize vm_fork_gen mx =
    (if mx \<le> 0 then Inl ArgError
     else Inr \<lparr>waitq = [], fork_gen = vm_fork_gen, que = [], num_waiting = 0, closed = False,
               num_waiting_push = 0, pushq = [], max_len = mx\<rparr>)"

definition rb_szqueue_close :: "rb_szqueue \<Rightarrow> statuses \<Rightarrow> rb_szqueue \<times> statuses" where
  "rb_szqueue_close sq st =
    (if \<not> queue_closed_p sq then
       let sq = sq\<lparr>closed := True\<rparr>;
           (head, st) = wakeup_all (waitq sq) st; sq = sq\<lparr>waitq := head\<rparr>;
           (head, st) = wakeup_all (pushq sq) st
       in (sq\<lparr>pushq := head\<rparr>, st)
     else (sq, st))"

definition rb_szqueue_max_set :: "rb_szqueue \<Rightarrow> int \<Rightarrow> statuses \<Rightarrow> rb_szqueue \<times> statuses \<times> int outcome" where
  "rb_szqueue_max_set sq mx st =
    (if mx \<le> 0 then (sq, st, Raise ArgError)
     else
       let diff = (if mx > max_len sq then mx - max_len sq else 0);
           sq = sq\<lparr>max_len := mx\<rparr>;
           (head, st) = sync_wakeup (pushq sq) diff st
       in (sq\<lparr>pushq := head\<rparr>, st, Return mx))"

definition szqueue_sleep_done :: "rb_thread \<Rightarrow> rb_szqueue \<Rightarrow> rb_szqueue" where
  "szqueue_sleep_done th sq = sq\<lparr>pushq := removeAll th (pushq sq), num_waiting_push := num_waiting_push sq - 1\<rparr>"

definition rb_szqueue_push :: "rb_thread \<Rightarrow> rb_szqueue \<Rightarrow> VALUE \<Rightarrow> bool \<Rightarrow> statuses \<Rightarrow>
    rb_szqueue \<times> statuses \<times> unit outcome" where
  "rb_szqueue_push th sq obj should_block st =
    (if queue_length sq \<ge> max_len sq \<and> \<not> should_block then (sq, st, Raise QueueFull)
     else if queue_length sq \<ge> max_len sq \<and> \<not> queue_closed_p sq then
       (sq\<lparr>pushq := pushq sq @ [th], num_waiting_push := num_waiting_push sq + 1\<rparr>, st, Block)
     else if queue_closed_p sq then (sq, st, Raise ClosedQueueError)
     else queue_do_push sq obj st)"

definition szqueue_do_pop :: "rb_thread \<Rightarrow> rb_szqueue \<Rightarrow> bool \<Rightarrow> statuses \<Rightarrow>
    rb_szqueue \<times> statuses \<times> VALUE outcome" where
  "szqueue_do_pop th sq should_block st =
    (let (sq, retval) = queue_do_pop th sq should_block
     in case retval of
          Return v \<Rightarrow>
            (if queue_length sq < max_len sq
             then let (head, st) = wakeup_one (pushq sq) st in (sq\<lparr>pushq := head\<rparr>, st, Return v)
             else (sq, st, Return v))
        | _ \<Rightarrow> (sq, st, retval))"

definition rb_szqueue_clear :: "rb_szqueue \<Rightarrow> statuses \<Rightarrow> rb_szqueue \<times> statuses" where
  "rb_szqueue_clear sq st =
    (let sq = sq\<lparr>que := []\<rparr>; (head, st) = wakeup_all (pushq sq) st
     in (sq\<lparr>pushq := head\<rparr>, st))"

definition rb_szqueue_num_waiting :: "rb_szqueue \<Rightarrow> int" where
  "rb_szqueue_num_waiting sq = num_waiting sq + num_waiting_push sq"

section \<open>The system\<close>

text \<open>
  \<open>Popping\<close> and \<open>Pushing\<close> are the threads inside \<open>queue_sleep\<close>: asleep in the list of waiters, or
  taken out of it by a wakeup and about to run.  Only a blocking call sleeps.
\<close>

datatype sync_pc = Running | Popping | Pushing VALUE

record sz_world =
  sz_obj :: rb_szqueue
  sz_status :: statuses
  sz_pc :: "rb_thread \<Rightarrow> sync_pc"

datatype sz_event = Pushed VALUE | Popped VALUE | Cleared | Silent

definition sz_after_push :: "rb_thread \<Rightarrow> VALUE \<Rightarrow> rb_szqueue \<times> statuses \<times> unit outcome \<Rightarrow> sz_world \<Rightarrow>
    sz_world \<times> sz_event" where
  "sz_after_push th v r w = (case r of (sq, st, out) \<Rightarrow>
    (\<lparr>sz_obj = sq, sz_status = st(th := (if out = Block then THREAD_STOPPED_FOREVER else THREAD_RUNNABLE)),
      sz_pc = (sz_pc w)(th := (if out = Block then Pushing v else Running))\<rparr>,
     if out = Return () then Pushed v else Silent))"

definition sz_after_pop :: "rb_thread \<Rightarrow> bool \<Rightarrow> rb_szqueue \<times> statuses \<times> VALUE outcome \<Rightarrow> sz_world \<Rightarrow>
    sz_world \<times> sz_event" where
  "sz_after_pop th nonempty r w = (case r of (sq, st, out) \<Rightarrow>
    (\<lparr>sz_obj = sq, sz_status = st(th := (if out = Block then THREAD_STOPPED_FOREVER else THREAD_RUNNABLE)),
      sz_pc = (sz_pc w)(th := (if out = Block then Popping else Running))\<rparr>,
     case out of Return v \<Rightarrow> if nonempty then Popped v else Silent | _ \<Rightarrow> Silent))"

definition sz_push :: "rb_thread \<Rightarrow> VALUE \<Rightarrow> bool \<Rightarrow> sz_world \<Rightarrow> sz_world \<times> sz_event" where
  "sz_push th v block w = sz_after_push th v (rb_szqueue_push th (sz_obj w) v block (sz_status w)) w"

definition sz_pop :: "rb_thread \<Rightarrow> bool \<Rightarrow> sz_world \<Rightarrow> sz_world \<times> sz_event" where
  "sz_pop th block w = sz_after_pop th (que (sz_obj w) \<noteq> []) (szqueue_do_pop th (sz_obj w) block (sz_status w)) w"

text \<open>
  The steps.  A sleeping thread may run again at any time (a wakeup that was meant for it, or a
  spurious one); a call may also end by an exception that another thread or a signal raises in it.
\<close>

inductive sz_step :: "bool \<Rightarrow> sz_world \<Rightarrow> sz_event \<Rightarrow> sz_world \<Rightarrow> bool" for interrupts where
  push: "sz_pc w th = Running \<Longrightarrow> sz_status w th = THREAD_RUNNABLE \<Longrightarrow> sz_push th v block w = (w', e) \<Longrightarrow>
    sz_step interrupts w e w'"
| pop: "sz_pc w th = Running \<Longrightarrow> sz_status w th = THREAD_RUNNABLE \<Longrightarrow> sz_pop th block w = (w', e) \<Longrightarrow>
    sz_step interrupts w e w'"
| resume_push: "sz_pc w th = Pushing v \<Longrightarrow>
    sz_push th v True (w\<lparr>sz_obj := szqueue_sleep_done th (sz_obj w)\<rparr>) = (w', e) \<Longrightarrow> sz_step interrupts w e w'"
| resume_pop: "sz_pc w th = Popping \<Longrightarrow>
    sz_pop th True (w\<lparr>sz_obj := queue_sleep_done th (sz_obj w)\<rparr>) = (w', e) \<Longrightarrow> sz_step interrupts w e w'"
| interrupt_push: "interrupts \<Longrightarrow> sz_pc w th = Pushing v \<Longrightarrow>
    sz_step interrupts w Silent (w\<lparr>sz_obj := szqueue_sleep_done th (sz_obj w),
      sz_pc := (sz_pc w)(th := Running), sz_status := (sz_status w)(th := THREAD_RUNNABLE)\<rparr>)"
| interrupt_pop: "interrupts \<Longrightarrow> sz_pc w th = Popping \<Longrightarrow>
    sz_step interrupts w Silent (w\<lparr>sz_obj := queue_sleep_done th (sz_obj w),
      sz_pc := (sz_pc w)(th := Running), sz_status := (sz_status w)(th := THREAD_RUNNABLE)\<rparr>)"
| exit: "sz_pc w th = Running \<Longrightarrow>
    sz_step interrupts w Silent (w\<lparr>sz_status := (sz_status w)(th := THREAD_KILLED)\<rparr>)"
| close: "rb_szqueue_close (sz_obj w) (sz_status w) = (sq, st) \<Longrightarrow>
    sz_step interrupts w Silent (w\<lparr>sz_obj := sq, sz_status := st\<rparr>)"
| clear: "rb_szqueue_clear (sz_obj w) (sz_status w) = (sq, st) \<Longrightarrow>
    sz_step interrupts w Cleared (w\<lparr>sz_obj := sq, sz_status := st\<rparr>)"
| max_set: "rb_szqueue_max_set (sz_obj w) m (sz_status w) = (sq, st, out) \<Longrightarrow>
    sz_step interrupts w Silent (w\<lparr>sz_obj := sq, sz_status := st\<rparr>)"

inductive sz_run :: "bool \<Rightarrow> sz_world \<Rightarrow> sz_event list \<Rightarrow> sz_world \<Rightarrow> bool" for interrupts where
  sz_run_start: "sz_run interrupts w [] w"
| sz_run_step: "sz_run interrupts w es w' \<Longrightarrow> sz_step interrupts w' e w'' \<Longrightarrow> sz_run interrupts w (es @ [e]) w''"

inductive_cases sz_stepE: "sz_step interrupts w e w'"

definition sz_start :: "nat \<Rightarrow> int \<Rightarrow> sz_world \<Rightarrow> bool" where
  "sz_start gen mx w \<longleftrightarrow> rb_szqueue_initialize gen mx = Inr (sz_obj w) \<and> (\<forall>th. sz_pc w th = Running)"

end
