(* ===== verification/Sync_Queue_Inv.thy ===== *)
theory Sync_Queue_Inv
  imports Sync_Queue
begin

text \<open>
  The invariants of a SizedQueue under concurrent use: the lists hold exactly the threads that are
  asleep in them, the counters count, and no wakeup is lost as long as no exception is raised in a
  thread that has been woken.
\<close>

section \<open>Waking\<close>

lemma sync_wakeup_alive:
  assumes "\<forall>t \<in> set q. st t \<noteq> THREAD_KILLED"
  shows "fst (sync_wakeup q n st) = (if n \<le> 0 then [] else drop (nat n) q)"
    "snd (sync_wakeup q n st) t =
      (if t \<in> set (if n \<le> 0 then q else take (nat n) q) then THREAD_RUNNABLE else st t)"
proof -
  have "fst (sync_wakeup q n st) = (if n \<le> 0 then [] else drop (nat n) q) \<and>
    snd (sync_wakeup q n st) t =
      (if t \<in> set (if n \<le> 0 then q else take (nat n) q) then THREAD_RUNNABLE else st t)"
    using assms
  proof (induction q n st rule: sync_wakeup.induct)
    case (2 cur q n st)
    define st' where "st' = st(cur := THREAD_RUNNABLE)"
    have cur: "st cur \<noteq> THREAD_KILLED" and q: "\<forall>t \<in> set q. st' t \<noteq> THREAD_KILLED"
      using 2(3) by (auto simp: st'_def)
    have st': "st' u = (if u = cur then THREAD_RUNNABLE else st u)" for u by (simp add: st'_def)
    have unfold: "sync_wakeup (cur # q) n st = (if n = 1 then (q, st') else sync_wakeup q (n - 1) st')"
      using cur by (simp add: Let_def flip: st'_def)
    show ?case
    proof (cases "n = 1")
      case True
      then show ?thesis using st' unfolding unfold by simp
    next
      case False
      have IH: "fst (sync_wakeup q (n - 1) st') = (if n - 1 \<le> 0 then [] else drop (nat (n - 1)) q) \<and>
          snd (sync_wakeup q (n - 1) st') t =
            (if t \<in> set (if n - 1 \<le> 0 then q else take (nat (n - 1)) q) then THREAD_RUNNABLE else st' t)"
        using 2(1) [OF cur st'_def refl _ q] False by simp
      show ?thesis
      proof (cases "n \<le> 0")
        case True
        then show ?thesis using IH False st' unfolding unfold by simp
      next
        case pos: False
        then have "drop (nat n) (cur # q) = drop (nat (n - 1)) q" "take (nat n) (cur # q) = cur # take (nat (n - 1)) q"
          by (simp_all add: drop_Cons' take_Cons' nat_diff_distrib')
        then show ?thesis using IH False pos st' unfolding unfold by simp
      qed
    qed
  qed simp
  then show "fst (sync_wakeup q n st) = (if n \<le> 0 then [] else drop (nat n) q)"
    "snd (sync_wakeup q n st) t =
      (if t \<in> set (if n \<le> 0 then q else take (nat n) q) then THREAD_RUNNABLE else st t)" by blast+
qed

lemma length_distinct_threads: "distinct (q :: rb_thread list) \<Longrightarrow> int (length q) < LONG_MAX"
proof -
  assume "distinct q"
  then have "length q = card (set q)" by (simp add: distinct_card)
  also have "\<dots> \<le> card (UNIV :: rb_thread set)" by (rule card_mono) simp_all
  also have "\<dots> = 2 ^ 32" by (simp add: card_word)
  finally show ?thesis by (simp add: LONG_MAX_def)
qed

lemma wakeup_one_alive:
  assumes "\<forall>t \<in> set q. st t \<noteq> THREAD_KILLED"
  shows "\<exists>st'. wakeup_one q st = (tl q, st') \<and>
    (\<forall>t. st' t = (if q \<noteq> [] \<and> t = hd q then THREAD_RUNNABLE else st t))"
proof -
  have "nat 1 = Suc 0" by simp
  then show ?thesis
    using sync_wakeup_alive [OF assms, of 1] unfolding wakeup_one_def
    by (cases "sync_wakeup q 1 st"; cases q) (auto simp: drop_Suc)
qed

lemma wakeup_all_alive:
  assumes "\<forall>t \<in> set q. st t \<noteq> THREAD_KILLED" "distinct q"
  shows "\<exists>st'. wakeup_all q st = ([], st') \<and> (\<forall>t. st' t = (if t \<in> set q then THREAD_RUNNABLE else st t))"
proof -
  have "length q \<le> nat LONG_MAX" "0 < LONG_MAX" using length_distinct_threads [OF assms(2)] by (simp_all add: LONG_MAX_def)
  then show ?thesis
    using sync_wakeup_alive [OF assms(1), of LONG_MAX] unfolding wakeup_all_def
    by (cases "sync_wakeup q LONG_MAX st") auto
qed

section \<open>The invariant\<close>

definition poppers :: "sz_world \<Rightarrow> rb_thread set" where
  "poppers w = {t. sz_pc w t = Popping}"

definition pushers :: "sz_world \<Rightarrow> rb_thread set" where
  "pushers w = {t. \<exists>v. sz_pc w t = Pushing v}"

text \<open>The threads that a wakeup has taken out of the list and that have not run since.\<close>

definition woken_poppers :: "sz_world \<Rightarrow> rb_thread set" where
  "woken_poppers w = poppers w - set (waitq (sz_obj w))"

definition woken_pushers :: "sz_world \<Rightarrow> rb_thread set" where
  "woken_pushers w = pushers w - set (pushq (sz_obj w))"

definition sz_base :: "sz_world \<Rightarrow> bool" where
  "sz_base w \<longleftrightarrow> distinct (waitq (sz_obj w)) \<and> set (waitq (sz_obj w)) \<subseteq> poppers w \<and>
     distinct (pushq (sz_obj w)) \<and> set (pushq (sz_obj w)) \<subseteq> pushers w \<and>
     (\<forall>t. sz_pc w t \<noteq> Running \<longrightarrow> sz_status w t \<noteq> THREAD_KILLED) \<and>
     num_waiting (sz_obj w) = int (card (poppers w)) \<and> num_waiting_push (sz_obj w) = int (card (pushers w)) \<and>
     0 < max_len (sz_obj w) \<and>
     (closed (sz_obj w) \<longrightarrow> waitq (sz_obj w) = [] \<and> pushq (sz_obj w) = [])"

text \<open>\<open>d\<close> threads may be missing: 1 while a woken thread runs and has not decided yet.\<close>

definition pop_wakeups :: "nat \<Rightarrow> sz_world \<Rightarrow> bool" where
  "pop_wakeups d w \<longleftrightarrow> (waitq (sz_obj w) \<noteq> [] \<longrightarrow> length (que (sz_obj w)) \<le> card (woken_poppers w) + d)"

definition push_wakeups :: "nat \<Rightarrow> sz_world \<Rightarrow> bool" where
  "push_wakeups d w \<longleftrightarrow> (pushq (sz_obj w) \<noteq> [] \<longrightarrow>
     max_len (sz_obj w) \<le> queue_length (sz_obj w) + int (card (woken_pushers w) + d))"

definition sz_inv :: "bool \<Rightarrow> sz_world \<Rightarrow> bool" where
  "sz_inv interrupts w \<longleftrightarrow> sz_base w \<and> (\<not> interrupts \<longrightarrow> pop_wakeups 0 w \<and> push_wakeups 0 w)"

lemma finite_threads [simp]: "finite (A :: rb_thread set)"
  by (rule finite_subset [OF subset_UNIV]) simp

lemma sz_base_killed:
  assumes "sz_base w"
  shows "\<forall>t \<in> set (waitq (sz_obj w)). sz_status w t \<noteq> THREAD_KILLED"
    "\<forall>t \<in> set (pushq (sz_obj w)). sz_status w t \<noteq> THREAD_KILLED"
  using assms unfolding sz_base_def poppers_def pushers_def by fastforce+

lemma sz_base_running:
  assumes "sz_base w" "sz_pc w th = Running"
  shows "th \<notin> set (waitq (sz_obj w))" "th \<notin> set (pushq (sz_obj w))" "th \<notin> poppers w" "th \<notin> pushers w"
  using assms unfolding sz_base_def poppers_def pushers_def by auto

text \<open>The state of a thread that leaves its sleep.\<close>

definition wake_up :: "rb_thread \<Rightarrow> sz_world \<Rightarrow> sz_world" where
  "wake_up th w = w\<lparr>sz_obj := (if sz_pc w th = Popping then queue_sleep_done th (sz_obj w) else szqueue_sleep_done th (sz_obj w)),
     sz_pc := (sz_pc w)(th := Running)\<rparr>"

lemma card_remove1: "th \<in> A \<Longrightarrow> int (card (A - {th})) = int (card (A :: rb_thread set)) - 1"
proof -
  assume "th \<in> A"
  then have "card A = Suc (card (A - {th}))" by (intro card.remove) simp_all
  then show ?thesis by simp
qed

lemma card_le_remove: "card (A :: rb_thread set) \<le> card (A - {th}) + 1"
  by (cases "th \<in> A") (simp_all add: card_Diff_singleton)

lemma wake_up_pop:
  assumes base: "sz_base w" and pc: "sz_pc w th = Popping"
  shows "sz_base (wake_up th w)" "pop_wakeups 0 w \<Longrightarrow> pop_wakeups 1 (wake_up th w)"
    "push_wakeups d w \<Longrightarrow> push_wakeups d (wake_up th w)"
proof -
  have p: "poppers (wake_up th w) = poppers w - {th}" "pushers (wake_up th w) = pushers w" "th \<in> poppers w"
    using pc by (auto simp: poppers_def pushers_def wake_up_def)
  have o: "sz_obj (wake_up th w) = queue_sleep_done th (sz_obj w)" using pc by (simp add: wake_up_def)
  show "sz_base (wake_up th w)"
    unfolding sz_base_def p o
  proof (intro conjI allI impI)
    show "sz_status (wake_up th w) t \<noteq> THREAD_KILLED" if "sz_pc (wake_up th w) t \<noteq> Running" for t
      using base that by (auto simp: sz_base_def wake_up_def split: if_splits)
  qed (use base in \<open>auto simp: sz_base_def queue_sleep_done_def distinct_removeAll card_remove1 [OF p(3)]\<close>)
  have W: "woken_poppers (wake_up th w) = woken_poppers w - {th}"
    by (auto simp: woken_poppers_def p o queue_sleep_done_def)
  show "pop_wakeups 0 w \<Longrightarrow> pop_wakeups 1 (wake_up th w)"
    using card_le_remove [of "woken_poppers w" th]
    unfolding pop_wakeups_def W o by (auto simp: queue_sleep_done_def)
  have "woken_pushers (wake_up th w) = woken_pushers w" by (simp add: woken_pushers_def p o queue_sleep_done_def)
  then show "push_wakeups d w \<Longrightarrow> push_wakeups d (wake_up th w)"
    by (simp add: push_wakeups_def o queue_sleep_done_def queue_length_def)
qed

lemma wake_up_push:
  assumes base: "sz_base w" and pc: "sz_pc w th = Pushing v"
  shows "sz_base (wake_up th w)" "push_wakeups 0 w \<Longrightarrow> push_wakeups 1 (wake_up th w)"
    "pop_wakeups d w \<Longrightarrow> pop_wakeups d (wake_up th w)"
proof -
  have p: "poppers (wake_up th w) = poppers w" "pushers (wake_up th w) = pushers w - {th}" "th \<in> pushers w"
    using pc by (auto simp: poppers_def pushers_def wake_up_def)
  have o: "sz_obj (wake_up th w) = szqueue_sleep_done th (sz_obj w)" using pc by (simp add: wake_up_def)
  show "sz_base (wake_up th w)"
    unfolding sz_base_def p o
  proof (intro conjI allI impI)
    show "sz_status (wake_up th w) t \<noteq> THREAD_KILLED" if "sz_pc (wake_up th w) t \<noteq> Running" for t
      using base that by (auto simp: sz_base_def wake_up_def split: if_splits)
  qed (use base in \<open>auto simp: sz_base_def szqueue_sleep_done_def distinct_removeAll card_remove1 [OF p(3)]\<close>)
  have W: "woken_pushers (wake_up th w) = woken_pushers w - {th}"
    by (auto simp: woken_pushers_def p o szqueue_sleep_done_def)
  show "push_wakeups 0 w \<Longrightarrow> push_wakeups 1 (wake_up th w)"
    using card_le_remove [of "woken_pushers w" th]
    unfolding push_wakeups_def W o by (auto simp: szqueue_sleep_done_def queue_length_def)
  have "woken_poppers (wake_up th w) = woken_poppers w" by (simp add: woken_poppers_def p o szqueue_sleep_done_def)
  then show "pop_wakeups d w \<Longrightarrow> pop_wakeups d (wake_up th w)"
    by (simp add: pop_wakeups_def o szqueue_sleep_done_def)
qed

section \<open>The operations keep the invariant\<close>

text \<open>
  The lemmas below are about a thread that is awake: the start of a call, or the return to the loop
  of a thread that \<open>wake_up\<close> took out of its sleep.
\<close>

lemma sz_base_obj:
  assumes "sz_base w" "sz_pc w' = sz_pc w"
    and "waitq (sz_obj w') = drop m (waitq (sz_obj w))" "pushq (sz_obj w') = drop n (pushq (sz_obj w))"
    and "num_waiting (sz_obj w') = num_waiting (sz_obj w)" "num_waiting_push (sz_obj w') = num_waiting_push (sz_obj w)"
    and "0 < max_len (sz_obj w')"
    and "closed (sz_obj w') \<Longrightarrow> waitq (sz_obj w') = [] \<and> pushq (sz_obj w') = []"
    and "\<And>t. sz_pc w t \<noteq> Running \<Longrightarrow> sz_status w' t \<noteq> THREAD_KILLED"
  shows "sz_base w'"
proof -
  have "poppers w' = poppers w" "pushers w' = pushers w" using assms(2) by (simp_all add: poppers_def pushers_def)
  moreover have "set (drop m (waitq (sz_obj w))) \<subseteq> poppers w" "set (drop n (pushq (sz_obj w))) \<subseteq> pushers w"
    using assms(1) set_drop_subset [of m "waitq (sz_obj w)"] set_drop_subset [of n "pushq (sz_obj w)"]
    unfolding sz_base_def by blast+
  ultimately show ?thesis
    unfolding sz_base_def using assms by (simp add: sz_base_def)
qed

lemma card_woken_drop:
  assumes "distinct q" "set q \<subseteq> (P :: rb_thread set)"
  shows "card (P - set (drop n q)) = card (P - set q) + min n (length q)"
proof -
  have "set q = set (take n q) \<union> set (drop n q)" by (metis append_take_drop_id set_append)
  moreover have "set (take n q) \<inter> set (drop n q) = {}"
    using assms(1) by (simp add: set_take_disj_set_drop_if_distinct)
  ultimately have "P - set (drop n q) = (P - set q) \<union> set (take n q)" using assms(2) by auto
  moreover have "(P - set q) \<inter> set (take n q) = {}" using set_take_subset [of n q] by blast
  moreover have "card (set (take n q)) = min n (length q)"
    using assms(1) by (simp add: distinct_card min.commute)
  ultimately show ?thesis by (simp add: card_Un_disjoint)
qed

lemma sz_close_inv:
  assumes inv: "sz_inv i w" and s: "rb_szqueue_close (sz_obj w) (sz_status w) = (sq, st)"
  shows "sz_inv i (w\<lparr>sz_obj := sq, sz_status := st\<rparr>)"
proof (cases "closed (sz_obj w)")
  case True
  then have "sq = sz_obj w" "st = sz_status w" using s by (simp_all add: rb_szqueue_close_def queue_closed_p_def)
  then show ?thesis using inv by simp
next
  case False
  have base: "sz_base w" using inv by (simp add: sz_inv_def)
  obtain st1 where 1: "wakeup_all (waitq (sz_obj w)) (sz_status w) = ([], st1)"
    "\<forall>t. st1 t = (if t \<in> set (waitq (sz_obj w)) then THREAD_RUNNABLE else sz_status w t)"
    using wakeup_all_alive [OF sz_base_killed(1) [OF base]] base by (auto simp: sz_base_def)
  have "\<forall>t \<in> set (pushq (sz_obj w)). st1 t \<noteq> THREAD_KILLED" using 1(2) sz_base_killed(2) [OF base] by simp
  then obtain st2 where 2: "wakeup_all (pushq (sz_obj w)) st1 = ([], st2)"
    "\<forall>t. st2 t = (if t \<in> set (pushq (sz_obj w)) then THREAD_RUNNABLE else st1 t)"
    using wakeup_all_alive [of "pushq (sz_obj w)" st1] base by (auto simp: sz_base_def)
  have eq: "sq = sz_obj w\<lparr>closed := True, waitq := [], pushq := []\<rparr>" "st = st2"
    using s False 1(1) 2(1) by (simp_all add: rb_szqueue_close_def queue_closed_p_def Let_def)
  have "sz_base (w\<lparr>sz_obj := sq, sz_status := st\<rparr>)"
    by (rule sz_base_obj [OF base, of _ "length (waitq (sz_obj w))" "length (pushq (sz_obj w))"])
      (use base 1(2) 2(2) eq in \<open>auto simp: sz_base_def\<close>)
  then show ?thesis by (simp add: sz_inv_def pop_wakeups_def push_wakeups_def eq)
qed

lemma sz_clear_inv:
  assumes inv: "sz_inv i w" and s: "rb_szqueue_clear (sz_obj w) (sz_status w) = (sq, st)"
  shows "sz_inv i (w\<lparr>sz_obj := sq, sz_status := st\<rparr>)"
proof -
  have base: "sz_base w" using inv by (simp add: sz_inv_def)
  obtain st2 where 2: "wakeup_all (pushq (sz_obj w)) (sz_status w) = ([], st2)"
    "\<forall>t. st2 t = (if t \<in> set (pushq (sz_obj w)) then THREAD_RUNNABLE else sz_status w t)"
    using wakeup_all_alive [OF sz_base_killed(2) [OF base]] base by (auto simp: sz_base_def)
  have eq: "sq = sz_obj w\<lparr>que := [], pushq := []\<rparr>" "st = st2"
    using s 2(1) by (simp_all add: rb_szqueue_clear_def Let_def)
  have "sz_base (w\<lparr>sz_obj := sq, sz_status := st\<rparr>)"
    by (rule sz_base_obj [OF base, of _ 0 "length (pushq (sz_obj w))"])
      (use base 2(2) eq in \<open>auto simp: sz_base_def\<close>)
  then show ?thesis by (simp add: sz_inv_def pop_wakeups_def push_wakeups_def eq)
qed

lemma sz_max_set_inv:
  assumes inv: "sz_inv i w" and s: "rb_szqueue_max_set (sz_obj w) m (sz_status w) = (sq, st, out)"
  shows "sz_inv i (w\<lparr>sz_obj := sq, sz_status := st\<rparr>)"
proof (cases "m \<le> 0")
  case True
  then have "sq = sz_obj w" "st = sz_status w" using s by (simp_all add: rb_szqueue_max_set_def)
  then show ?thesis using inv by simp
next
  case False
  have base: "sz_base w" using inv by (simp add: sz_inv_def)
  define diff where "diff = (if m > max_len (sz_obj w) then m - max_len (sz_obj w) else 0)"
  note wk = sync_wakeup_alive [OF sz_base_killed(2) [OF base], of diff]
  have eq: "sq = sz_obj w\<lparr>max_len := m, pushq := (if diff \<le> 0 then [] else drop (nat diff) (pushq (sz_obj w)))\<rparr>"
    "st = snd (sync_wakeup (pushq (sz_obj w)) diff (sz_status w))"
    using s False wk(1) by (auto simp: rb_szqueue_max_set_def Let_def diff_def split_beta)
  have drop: "pushq sq = drop (if diff \<le> 0 then length (pushq (sz_obj w)) else nat diff) (pushq (sz_obj w))"
    by (simp add: eq)
  have base': "sz_base (w\<lparr>sz_obj := sq, sz_status := st\<rparr>)"
    by (rule sz_base_obj [OF base _ _ trans [OF _ drop], of _ 0])
      (use base False wk(2) in \<open>auto simp: sz_base_def eq split: if_splits\<close>)
  have "pop_wakeups 0 w \<Longrightarrow> pop_wakeups 0 (w\<lparr>sz_obj := sq, sz_status := st\<rparr>)"
    by (simp add: pop_wakeups_def woken_poppers_def poppers_def eq)
  moreover have "push_wakeups 0 (w\<lparr>sz_obj := sq, sz_status := st\<rparr>)" if old: "push_wakeups 0 w"
  proof (cases "0 < diff \<and> drop (nat diff) (pushq (sz_obj w)) \<noteq> []")
    case False
    then show ?thesis by (auto simp: push_wakeups_def eq)
  next
    case True
    then have d: "diff = m - max_len (sz_obj w)" "0 < diff" by (auto simp: diff_def split: if_splits)
    have "card (woken_pushers (w\<lparr>sz_obj := sq, sz_status := st\<rparr>)) = card (woken_pushers w) + nat diff"
      using card_woken_drop [of "pushq (sz_obj w)" "pushers w" "nat diff"] base True
      by (simp add: woken_pushers_def pushers_def eq sz_base_def min_def)
    moreover have "pushq (sz_obj w) \<noteq> []" using True by auto
    ultimately show ?thesis using old d by (simp add: push_wakeups_def eq queue_length_def)
  qed
  ultimately show ?thesis using inv base' by (simp add: sz_inv_def)
qed

lemma wake_head:
  assumes "set q \<subseteq> (P :: rb_thread set)" "distinct q" "q \<noteq> []"
  shows "card (P - set (tl q)) = card (P - set q) + 1"
  using card_woken_drop [OF assms(2,1), of 1] assms(3) by (cases q) (simp_all add: drop_Suc)

text \<open>\<open>queue_do_push\<close> on an open queue: one sleeper is woken for the new element.\<close>

lemma queue_do_push_open:
  assumes base: "sz_base w" and open': "\<not> closed (sz_obj w)"
  shows "\<exists>st. queue_do_push (sz_obj w) v (sz_status w) =
      (sz_obj w\<lparr>que := que (sz_obj w) @ [v], waitq := tl (waitq (sz_obj w))\<rparr>, st, Return ()) \<and>
    (\<forall>t. sz_status w t \<noteq> THREAD_KILLED \<longrightarrow> st t \<noteq> THREAD_KILLED)"
proof -
  obtain st where "wakeup_one (waitq (sz_obj w)) (sz_status w) = (tl (waitq (sz_obj w)), st)"
    "\<forall>t. st t = (if waitq (sz_obj w) \<noteq> [] \<and> t = hd (waitq (sz_obj w)) then THREAD_RUNNABLE else sz_status w t)"
    using wakeup_one_alive [OF sz_base_killed(1) [OF base]] by blast
  then show ?thesis
    using open' by (intro exI [of _ st]) (simp add: queue_do_push_def queue_closed_p_def Let_def)
qed

lemma sz_push_inv:
  assumes base: "sz_base w" and pc: "sz_pc w th = Running" and push: "sz_push th v block w = (w', e)"
  shows "sz_base w'" "pop_wakeups 0 w \<Longrightarrow> pop_wakeups 0 w'" "push_wakeups 1 w \<Longrightarrow> push_wakeups 0 w'"
proof -
  let ?q = "sz_obj w"
  have pcr: "(sz_pc w)(th := Running) = sz_pc w" using pc by auto
  have run: "poppers w' = poppers w" "pushers w' = pushers w" if "sz_pc w' = sz_pc w"
    using that by (simp_all add: poppers_def pushers_def)
  have "sz_base w' \<and> (pop_wakeups 0 w \<longrightarrow> pop_wakeups 0 w') \<and> (push_wakeups 1 w \<longrightarrow> push_wakeups 0 w')"
  proof (cases "queue_length ?q \<ge> max_len ?q \<and> \<not> block \<or> closed ?q")
    case True
    then have w': "sz_obj w' = ?q" "sz_pc w' = sz_pc w" "sz_status w' = (sz_status w)(th := THREAD_RUNNABLE)"
      using push pcr
      by (auto simp: sz_push_def rb_szqueue_push_def sz_after_push_def queue_closed_p_def queue_do_push_def split: if_splits)
    have "sz_base w'"
      by (rule sz_base_obj [OF base, of _ 0 0]) (use base w' in \<open>auto simp: sz_base_def\<close>)
    moreover have "push_wakeups 0 w'" if "push_wakeups 1 w"
      using that True base w' by (auto simp: push_wakeups_def sz_base_def)
    ultimately show ?thesis by (simp add: pop_wakeups_def woken_poppers_def run w')
  next
    case False
    then have open': "\<not> closed ?q" by simp
    show ?thesis
    proof (cases "queue_length ?q \<ge> max_len ?q")
      case True
      have w': "sz_obj w' = ?q\<lparr>pushq := pushq ?q @ [th], num_waiting_push := num_waiting_push ?q + 1\<rparr>"
        "sz_pc w' = (sz_pc w)(th := Pushing v)" "sz_status w' = (sz_status w)(th := THREAD_STOPPED_FOREVER)"
        using push True False
        by (auto simp: sz_push_def rb_szqueue_push_def sz_after_push_def queue_closed_p_def)
      have p: "poppers w' = poppers w" "pushers w' = insert th (pushers w)" "th \<notin> pushers w"
        "th \<notin> set (pushq ?q)"
        using pc sz_base_running [OF base pc] by (auto simp: poppers_def pushers_def w')
      have "sz_base w'"
        unfolding sz_base_def p(1,2)
      proof (intro conjI allI impI)
        show "sz_status w' t \<noteq> THREAD_KILLED" if "sz_pc w' t \<noteq> Running" for t
          using base that by (auto simp: sz_base_def w' split: if_splits)
      qed (use base p(3,4) open' in \<open>auto simp: sz_base_def w'\<close>)
      moreover have "pop_wakeups 0 w \<Longrightarrow> pop_wakeups 0 w'"
        by (simp add: pop_wakeups_def woken_poppers_def p w')
      moreover have "push_wakeups 0 w'" using True by (simp add: push_wakeups_def w' queue_length_def)
      ultimately show ?thesis by blast
    next
      case room: False
      obtain st where st: "queue_do_push ?q v (sz_status w) =
          (?q\<lparr>que := que ?q @ [v], waitq := tl (waitq ?q)\<rparr>, st, Return ())"
        "\<And>t. sz_status w t \<noteq> THREAD_KILLED \<Longrightarrow> st t \<noteq> THREAD_KILLED"
        using queue_do_push_open [OF base open', of v] by blast
      have w': "sz_obj w' = ?q\<lparr>que := que ?q @ [v], waitq := tl (waitq ?q)\<rparr>" "sz_pc w' = sz_pc w"
        "sz_status w' = st(th := THREAD_RUNNABLE)"
        using push room open' st(1) pcr
        by (auto simp: sz_push_def rb_szqueue_push_def sz_after_push_def queue_closed_p_def)
      have "sz_base w'"
        by (rule sz_base_obj [OF base, of _ 1 0]) (use base w' st(2) open' in \<open>auto simp: sz_base_def drop_Suc\<close>)
      moreover have "pop_wakeups 0 w'" if "pop_wakeups 0 w"
      proof (cases "waitq ?q = []")
        case False
        then have "card (woken_poppers w') = card (woken_poppers w) + 1"
          using wake_head [of "waitq ?q" "poppers w"] base by (simp add: woken_poppers_def w' run sz_base_def)
        then show ?thesis using that False by (simp add: pop_wakeups_def w')
      qed (simp add: pop_wakeups_def w')
      moreover have "push_wakeups 0 w'" if "push_wakeups 1 w"
        using that by (auto simp: push_wakeups_def w' woken_pushers_def run queue_length_def)
      ultimately show ?thesis by blast
    qed
  qed
  then show "sz_base w'" "pop_wakeups 0 w \<Longrightarrow> pop_wakeups 0 w'" "push_wakeups 1 w \<Longrightarrow> push_wakeups 0 w'" by blast+
qed

lemma sz_pop_inv:
  assumes base: "sz_base w" and pc: "sz_pc w th = Running" and pop: "sz_pop th block w = (w', e)"
  shows "sz_base w'" "pop_wakeups 1 w \<Longrightarrow> pop_wakeups 0 w'" "push_wakeups 0 w \<Longrightarrow> push_wakeups 0 w'"
proof -
  let ?q = "sz_obj w"
  have pcr: "(sz_pc w)(th := Running) = sz_pc w" using pc by auto
  have run: "poppers w' = poppers w" "pushers w' = pushers w" if "sz_pc w' = sz_pc w"
    using that by (simp_all add: poppers_def pushers_def)
  have "sz_base w' \<and> (pop_wakeups 1 w \<longrightarrow> pop_wakeups 0 w') \<and> (push_wakeups 0 w \<longrightarrow> push_wakeups 0 w')"
  proof (cases "que ?q = []")
    case empty: True
    show ?thesis
    proof (cases "block \<and> \<not> closed ?q")
      case True
      have w': "sz_obj w' = ?q\<lparr>waitq := waitq ?q @ [th], num_waiting := num_waiting ?q + 1\<rparr>"
        "sz_pc w' = (sz_pc w)(th := Popping)" "sz_status w' = (sz_status w)(th := THREAD_STOPPED_FOREVER)"
        using pop empty True
        by (auto simp: sz_pop_def szqueue_do_pop_def queue_do_pop_def sz_after_pop_def queue_closed_p_def)
      have p: "pushers w' = pushers w" "poppers w' = insert th (poppers w)" "th \<notin> poppers w" "th \<notin> set (waitq ?q)"
        using pc sz_base_running [OF base pc] by (auto simp: poppers_def pushers_def w')
      have "sz_base w'"
        unfolding sz_base_def p(1,2)
      proof (intro conjI allI impI)
        show "sz_status w' t \<noteq> THREAD_KILLED" if "sz_pc w' t \<noteq> Running" for t
          using base that by (auto simp: sz_base_def w' split: if_splits)
      qed (use base p(3,4) True in \<open>auto simp: sz_base_def w'\<close>)
      moreover have "push_wakeups 0 w \<Longrightarrow> push_wakeups 0 w'"
        by (simp add: push_wakeups_def woken_pushers_def p w' queue_length_def)
      moreover have "pop_wakeups 0 w'" using empty by (simp add: pop_wakeups_def w')
      ultimately show ?thesis by blast
    next
      case False
      have none: "closed ?q \<Longrightarrow> pushq ?q = []" using base by (simp add: sz_base_def)
      then have w': "sz_obj w' = ?q" "sz_pc w' = sz_pc w" "sz_status w' = (sz_status w)(th := THREAD_RUNNABLE)"
        using pop empty False pcr
        by (auto simp: sz_pop_def szqueue_do_pop_def queue_do_pop_def sz_after_pop_def queue_closed_p_def Let_def
            wakeup_one_def split: if_splits)
      have "sz_base w'"
        by (rule sz_base_obj [OF base, of _ 0 0]) (use base w' in \<open>auto simp: sz_base_def\<close>)
      then show ?thesis
        using empty by (simp add: pop_wakeups_def push_wakeups_def woken_pushers_def run w')
    qed
  next
    case False
    then have len: "int (length (que ?q) - Suc 0) = int (length (que ?q)) - 1" by (cases "que ?q") simp_all
    let ?n = "if int (length (tl (que ?q))) < max_len ?q then 1 else 0 :: nat"
    obtain st where st: "wakeup_one (pushq ?q) (sz_status w) = (tl (pushq ?q), st)"
      "\<And>t. sz_status w t \<noteq> THREAD_KILLED \<Longrightarrow> st t \<noteq> THREAD_KILLED"
      using wakeup_one_alive [OF sz_base_killed(2) [OF base]] by fastforce
    have res: "szqueue_do_pop th ?q block (sz_status w) = (?q\<lparr>que := tl (que ?q), pushq := drop ?n (pushq ?q)\<rparr>,
        if ?n = 1 then st else sz_status w, Return (hd (que ?q)))"
      using False st(1) by (simp add: szqueue_do_pop_def queue_do_pop_def queue_length_def drop_Suc Let_def)
    have "w' = \<lparr>sz_obj = ?q\<lparr>que := tl (que ?q), pushq := drop ?n (pushq ?q)\<rparr>,
        sz_status = (if ?n = 1 then st else sz_status w)(th := THREAD_RUNNABLE), sz_pc = sz_pc w\<rparr>"
      using pop unfolding sz_pop_def res sz_after_pop_def by (simp add: pcr)
    then have w': "sz_obj w' = ?q\<lparr>que := tl (que ?q), pushq := drop ?n (pushq ?q)\<rparr>" "sz_pc w' = sz_pc w"
      "sz_status w' = (if ?n = 1 then st else sz_status w)(th := THREAD_RUNNABLE)" by simp_all
    have "sz_base w'"
      by (rule sz_base_obj [OF base, of _ 0 ?n]) (use base w' st(2) in \<open>auto simp: sz_base_def\<close>)
    moreover have "pop_wakeups 1 w \<Longrightarrow> pop_wakeups 0 w'"
      by (auto simp: pop_wakeups_def woken_poppers_def run w')
    moreover have "push_wakeups 0 w'" if old: "push_wakeups 0 w"
    proof (cases "?n = 1 \<and> pushq ?q \<noteq> []")
      case True
      then have "card (woken_pushers w') = card (woken_pushers w) + 1"
        using wake_head [of "pushq ?q" "pushers w"] base
        by (simp add: woken_pushers_def w' run sz_base_def drop_Suc split: if_splits)
      then show ?thesis using old True len by (simp add: push_wakeups_def w' queue_length_def)
    next
      case False
      then show ?thesis by (auto simp: push_wakeups_def w' queue_length_def split: if_splits)
    qed
    ultimately show ?thesis by blast
  qed
  then show "sz_base w'" "pop_wakeups 1 w \<Longrightarrow> pop_wakeups 0 w'" "push_wakeups 0 w \<Longrightarrow> push_wakeups 0 w'" by blast+
qed

section \<open>Every reachable state\<close>

lemma wake_up_obj:
  "sz_pc w th = Popping \<Longrightarrow> sz_pop th b (w\<lparr>sz_obj := queue_sleep_done th (sz_obj w)\<rparr>) = sz_pop th b (wake_up th w)"
  "sz_pc w th = Pushing v \<Longrightarrow> sz_push th v b (w\<lparr>sz_obj := szqueue_sleep_done th (sz_obj w)\<rparr>) = sz_push th v b (wake_up th w)"
  by (simp_all add: sz_pop_def sz_push_def wake_up_def sz_after_pop_def sz_after_push_def)

lemma wake_up_pc: "sz_pc (wake_up th w) th = Running"
  by (simp add: wake_up_def)

lemma sz_base_status:
  "sz_base w \<Longrightarrow> sz_pc w th = Running \<Longrightarrow> sz_base (w\<lparr>sz_status := (sz_status w)(th := s)\<rparr>)"
  by (simp add: sz_base_def poppers_def pushers_def)

lemma sz_step_inv:
  assumes "sz_step i w e w'" "sz_inv i w"
  shows "sz_inv i w'"
  using assms
proof (cases rule: sz_step.cases)
  case (push th v block)
  have "push_wakeups 0 w \<Longrightarrow> push_wakeups 1 w" by (auto simp: push_wakeups_def)
  then show ?thesis using sz_push_inv [OF _ push(1,3)] assms(2) by (simp add: sz_inv_def)
next
  case (pop th block)
  have "pop_wakeups 0 w \<Longrightarrow> pop_wakeups 1 w" by (auto simp: pop_wakeups_def)
  then show ?thesis using sz_pop_inv [OF _ pop(1,3)] assms(2) by (simp add: sz_inv_def)
next
  case (resume_push th v)
  note wake = wake_up_push [OF _ resume_push(1)]
  show ?thesis
    using sz_push_inv [OF wake(1) wake_up_pc resume_push(2) [unfolded wake_up_obj(2) [OF resume_push(1)]]] wake(2,3) assms(2)
    by (simp add: sz_inv_def)
next
  case (resume_pop th)
  note wake = wake_up_pop [OF _ resume_pop(1)]
  show ?thesis
    using sz_pop_inv [OF wake(1) wake_up_pc resume_pop(2) [unfolded wake_up_obj(1) [OF resume_pop(1)]]] wake(2,3) assms(2)
    by (simp add: sz_inv_def)
next
  case (interrupt_push th v)
  have "w' = (wake_up th w)\<lparr>sz_status := (sz_status (wake_up th w))(th := THREAD_RUNNABLE)\<rparr>"
    using interrupt_push by (simp add: wake_up_def)
  then show ?thesis
    using interrupt_push(3) sz_base_status [OF wake_up_push(1) [OF _ interrupt_push(4)] wake_up_pc] assms(2)
    by (simp add: sz_inv_def)
next
  case (interrupt_pop th)
  have "w' = (wake_up th w)\<lparr>sz_status := (sz_status (wake_up th w))(th := THREAD_RUNNABLE)\<rparr>"
    using interrupt_pop by (simp add: wake_up_def)
  then show ?thesis
    using interrupt_pop(3) sz_base_status [OF wake_up_pop(1) [OF _ interrupt_pop(4)] wake_up_pc] assms(2)
    by (simp add: sz_inv_def)
next
  case (exit th)
  then show ?thesis
    using sz_base_status [OF _ exit(3), of THREAD_KILLED] assms(2)
    by (simp add: sz_inv_def pop_wakeups_def push_wakeups_def woken_poppers_def woken_pushers_def poppers_def pushers_def)
next
  case (close sq st)
  then show ?thesis using sz_close_inv assms(2) by simp
next
  case (clear sq st)
  then show ?thesis using sz_clear_inv assms(2) by simp
next
  case (max_set m sq st out)
  then show ?thesis using sz_max_set_inv assms(2) by simp
qed

lemma sz_start_inv:
  assumes "sz_start gen m w"
  shows "sz_inv i w"
proof -
  have "0 < m" "sz_obj w = \<lparr>waitq = [], fork_gen = gen, que = [], num_waiting = 0, closed = False,
      num_waiting_push = 0, pushq = [], max_len = m\<rparr>" "\<And>t. sz_pc w t = Running"
    using assms by (simp_all add: sz_start_def rb_szqueue_initialize_def split: if_splits)
  then show ?thesis
    by (simp add: sz_inv_def sz_base_def poppers_def pushers_def pop_wakeups_def push_wakeups_def)
qed

lemma sz_run_inv: "sz_run i w es w' \<Longrightarrow> sz_inv i w \<Longrightarrow> sz_inv i w'"
  by (induction rule: sz_run.induct) (auto intro: sz_step_inv)

end
