(* ===== verification/Sync_Mutex.thy ===== *)
theory Sync_Mutex
  imports Sync_Queue
begin

text \<open>
  Thread::Mutex of thread_sync.c.  As for the queues, a step is what a fiber does under the global VM
  lock between two points where it may lose it: \<open>native_sleep\<close> and \<open>RUBY_VM_CHECK_INTS_BLOCKING\<close> in
  \<open>do_mutex_lock\<close>.  No fiber scheduler is installed, deadlock detection (\<open>patrol_thread\<close>, the counts
  of sleepers) is left out, and the chain \<open>keeping_mutexes\<close>/\<open>next_mutex\<close> is a list.
\<close>

section \<open>State\<close>

type_synonym rb_fiber = u32
type_synonym mutex_id = u64

record rb_mutex =
  mfiber :: "rb_fiber option"
  mwaitq :: "rb_fiber list"

text \<open>
  \<open>Sleeping\<close> and \<open>CheckingInts\<close> are the two points inside \<open>do_mutex_lock\<close>; the flag is
  \<open>interruptible_p\<close>.
\<close>

datatype mutex_pc = Outside | Sleeping mutex_id bool | CheckingInts mutex_id

record mutex_world =
  mutexes :: "mutex_id \<Rightarrow> rb_mutex"
  keeping_mutexes :: "rb_thread \<Rightarrow> mutex_id list"
  mstatus :: statuses
  mpc :: "rb_fiber \<Rightarrow> mutex_pc"
  fiber_threadptr :: "rb_fiber \<Rightarrow> rb_thread"
  thread_ignore_deadlock :: bool

datatype mutex_error = TrapContext | RecursiveLocking | SameThreadDeadlock | NotLocked | LockedByOther

datatype lock_outcome = Locked | Asleep | LockRaise mutex_error | RbBug

definition mutex_set :: "mutex_id \<Rightarrow> rb_mutex \<Rightarrow> mutex_world \<Rightarrow> mutex_world" where
  "mutex_set self m w = w\<lparr>mutexes := (mutexes w)(self := m)\<rparr>"

definition set_fiber :: "mutex_id \<Rightarrow> rb_fiber option \<Rightarrow> mutex_world \<Rightarrow> mutex_world" where
  "set_fiber self f w = mutex_set self (mutexes w self\<lparr>mfiber := f\<rparr>) w"

definition set_pc :: "rb_fiber \<Rightarrow> mutex_pc \<Rightarrow> mutex_world \<Rightarrow> mutex_world" where
  "set_pc f pc w = w\<lparr>mpc := (mpc w)(f := pc)\<rparr>"

definition rb_mutex_locked_p :: "mutex_world \<Rightarrow> mutex_id \<Rightarrow> bool" where
  "rb_mutex_locked_p w self \<longleftrightarrow> mfiber (mutexes w self) \<noteq> None"

definition mutex_owned_p :: "rb_fiber \<Rightarrow> rb_mutex \<Rightarrow> bool" where
  "mutex_owned_p fiber mutex \<longleftrightarrow> mfiber mutex = Some fiber"

definition rb_mutex_num_waiting :: "rb_mutex \<Rightarrow> nat" where
  "rb_mutex_num_waiting mutex = length (mwaitq mutex)"

definition thread_mutex_insert :: "rb_thread \<Rightarrow> mutex_id \<Rightarrow> mutex_world \<Rightarrow> mutex_world" where
  "thread_mutex_insert th self w = w\<lparr>keeping_mutexes := (keeping_mutexes w)(th := self # keeping_mutexes w th)\<rparr>"

definition thread_mutex_remove :: "rb_thread \<Rightarrow> mutex_id \<Rightarrow> mutex_world \<Rightarrow> mutex_world" where
  "thread_mutex_remove th self w = w\<lparr>keeping_mutexes := (keeping_mutexes w)(th := remove1 self (keeping_mutexes w th))\<rparr>"

section \<open>Locking\<close>

definition mutex_locked :: "rb_fiber \<Rightarrow> mutex_id \<Rightarrow> mutex_world \<Rightarrow> mutex_world" where
  "mutex_locked f self w = thread_mutex_insert (fiber_threadptr w f) self w"

definition rb_mutex_trylock :: "rb_fiber \<Rightarrow> mutex_id \<Rightarrow> mutex_world \<Rightarrow> mutex_world \<times> bool" where
  "rb_mutex_trylock f self w =
    (if mfiber (mutexes w self) = None then (mutex_locked f self (set_fiber self (Some f) w), True)
     else (w, False))"

text \<open>The head of the loop of \<open>do_mutex_lock\<close> up to the sleep, or the way out of the loop.\<close>

definition mutex_lock_loop :: "rb_fiber \<Rightarrow> mutex_id \<Rightarrow> bool \<Rightarrow> mutex_world \<Rightarrow> mutex_world \<times> lock_outcome" where
  "mutex_lock_loop f self interruptible w =
    (case mfiber (mutexes w self) of
       None \<Rightarrow> (w, RbBug)
     | Some g \<Rightarrow>
         (if g = f then (set_pc f Outside (mutex_locked f self w), Locked)
          else if \<not> thread_ignore_deadlock w \<and> fiber_threadptr w g = fiber_threadptr w f
          then (set_pc f Outside w, LockRaise SameThreadDeadlock)
          else
            let mutex = mutexes w self;
                w = w\<lparr>mstatus := (mstatus w)(fiber_threadptr w f := THREAD_STOPPED_FOREVER)\<rparr>;
                w = mutex_set self (mutex\<lparr>mwaitq := mwaitq mutex @ [f]\<rparr>) w
            in (set_pc f (Sleeping self interruptible) w, Asleep)))"

definition do_mutex_lock :: "rb_fiber \<Rightarrow> mutex_id \<Rightarrow> bool \<Rightarrow> bool \<Rightarrow> mutex_world \<Rightarrow> mutex_world \<times> lock_outcome" where
  "do_mutex_lock f self trap interruptible w =
    (if trap then (w, LockRaise TrapContext)
     else
       let (w, got) = rb_mutex_trylock f self w
       in if got then (w, Locked)
          else if mutex_owned_p f (mutexes w self) then (w, LockRaise RecursiveLocking)
          else mutex_lock_loop f self interruptible w)"

text \<open>
  What follows \<open>native_sleep\<close>: an interruptible fiber gives the mutex back before it looks at its
  interrupts.
\<close>

definition mutex_lock_woken :: "rb_fiber \<Rightarrow> mutex_id \<Rightarrow> bool \<Rightarrow> mutex_world \<Rightarrow> mutex_world \<times> lock_outcome" where
  "mutex_lock_woken f self interruptible w =
    (let mutex = mutexes w self;
         mutex = mutex\<lparr>mwaitq := removeAll f (mwaitq mutex)\<rparr>;
         mutex = (if mfiber mutex = None then mutex\<lparr>mfiber := Some f\<rparr> else mutex);
         w = w\<lparr>mstatus := (mstatus w)(fiber_threadptr w f := THREAD_RUNNABLE)\<rparr>
     in if interruptible then
          let mutex = (if mfiber mutex = Some f then mutex\<lparr>mfiber := None\<rparr> else mutex)
          in (set_pc f (CheckingInts self) (mutex_set self mutex w), Asleep)
        else mutex_lock_loop f self interruptible (mutex_set self mutex w))"

text \<open>\<open>RUBY_VM_CHECK_INTS_BLOCKING\<close> has returned.\<close>

definition mutex_lock_checked :: "rb_fiber \<Rightarrow> mutex_id \<Rightarrow> mutex_world \<Rightarrow> mutex_world \<times> lock_outcome" where
  "mutex_lock_checked f self w =
    mutex_lock_loop f self True
      (if mfiber (mutexes w self) = None then set_fiber self (Some f) w else w)"

section \<open>Unlocking\<close>

text \<open>The loop over the waiters: the first one is taken out and interrupted; \<open>None\<close> is \<open>rb_bug\<close>.\<close>

fun unlock_wake :: "(rb_fiber \<Rightarrow> rb_thread_status) \<Rightarrow> rb_fiber list \<Rightarrow> rb_fiber list option" where
  "unlock_wake st [] = Some []"
| "unlock_wake st (cur # head) =
    (case st cur of
       THREAD_RUNNABLE \<Rightarrow> Some head
     | THREAD_STOPPED_FOREVER \<Rightarrow> Some head
     | THREAD_STOPPED \<Rightarrow> None
     | THREAD_KILLED \<Rightarrow> None)"

definition rb_mutex_unlock_th :: "mutex_id \<Rightarrow> rb_thread \<Rightarrow> rb_fiber \<Rightarrow> mutex_world \<Rightarrow> mutex_world \<times> lock_outcome" where
  "rb_mutex_unlock_th self th f w =
    (case mfiber (mutexes w self) of
       None \<Rightarrow> (w, LockRaise NotLocked)
     | Some g \<Rightarrow>
         (if g \<noteq> f then (w, LockRaise LockedByOther)
          else case unlock_wake (\<lambda>cur. mstatus w (fiber_threadptr w cur)) (mwaitq (mutexes w self)) of
                 None \<Rightarrow> (w, RbBug)
               | Some head \<Rightarrow>
                   (thread_mutex_remove th self (mutex_set self (mutexes w self\<lparr>mfiber := None, mwaitq := head\<rparr>) w), Locked)))"

definition rb_mutex_unlock :: "rb_fiber \<Rightarrow> mutex_id \<Rightarrow> mutex_world \<Rightarrow> mutex_world \<times> lock_outcome" where
  "rb_mutex_unlock f self w = rb_mutex_unlock_th self (fiber_threadptr w f) f w"

section \<open>The system\<close>

datatype mutex_event = Acquired rb_fiber mutex_id | Released rb_fiber mutex_id | Tau

definition lock_event :: "rb_fiber \<Rightarrow> mutex_id \<Rightarrow> lock_outcome \<Rightarrow> mutex_event" where
  "lock_event f self out = (if out = Locked then Acquired f self else Tau)"

text \<open>A thread runs one fiber at a time: none of its fibers is inside a lock call.\<close>

definition thread_runs :: "mutex_world \<Rightarrow> rb_fiber \<Rightarrow> bool" where
  "thread_runs w f \<longleftrightarrow> (\<forall>g. fiber_threadptr w g = fiber_threadptr w f \<longrightarrow> mpc w g = Outside) \<and>
     mstatus w (fiber_threadptr w f) = THREAD_RUNNABLE"

inductive mutex_step :: "bool \<Rightarrow> mutex_world \<Rightarrow> mutex_event \<Rightarrow> mutex_world \<Rightarrow> bool" for interrupts where
  try_lock: "thread_runs w f \<Longrightarrow> rb_mutex_trylock f self w = (w', got) \<Longrightarrow>
    mutex_step interrupts w (if got then Acquired f self else Tau) w'"
| lock: "thread_runs w f \<Longrightarrow> do_mutex_lock f self trap interruptible w = (w', out) \<Longrightarrow>
    mutex_step interrupts w (lock_event f self out) w'"
| wake: "mpc w f = Sleeping self interruptible \<Longrightarrow> mutex_lock_woken f self interruptible w = (w', out) \<Longrightarrow>
    mutex_step interrupts w (lock_event f self out) w'"
| ints_checked: "mpc w f = CheckingInts self \<Longrightarrow> mutex_lock_checked f self w = (w', out) \<Longrightarrow>
    mutex_step interrupts w (lock_event f self out) w'"
| ints_raise: "interrupts \<Longrightarrow> mpc w f = CheckingInts self \<Longrightarrow> mutex_step interrupts w Tau (set_pc f Outside w)"
| unlock: "thread_runs w f \<Longrightarrow> rb_mutex_unlock f self w = (w', out) \<Longrightarrow>
    mutex_step interrupts w (if out = Locked then Released f self else Tau) w'"
| exit: "thread_runs w f \<Longrightarrow> keeping_mutexes w (fiber_threadptr w f) = [] \<Longrightarrow>
    mutex_step interrupts w Tau (w\<lparr>mstatus := (mstatus w)(fiber_threadptr w f := THREAD_KILLED)\<rparr>)"

inductive mutex_run :: "bool \<Rightarrow> mutex_world \<Rightarrow> mutex_event list \<Rightarrow> mutex_world \<Rightarrow> bool" for interrupts where
  mutex_run_start: "mutex_run interrupts w [] w"
| mutex_run_step: "mutex_run interrupts w es w' \<Longrightarrow> mutex_step interrupts w' e w'' \<Longrightarrow>
    mutex_run interrupts w (es @ [e]) w''"

definition mutex_start :: "mutex_world \<Rightarrow> bool" where
  "mutex_start w \<longleftrightarrow> (\<forall>self. mutexes w self = \<lparr>mfiber = None, mwaitq = []\<rparr>) \<and> (\<forall>th. keeping_mutexes w th = []) \<and>
     (\<forall>f. mpc w f = Outside) \<and> (\<forall>th. mstatus w th = THREAD_RUNNABLE)"

section \<open>The specification: a lock has one owner\<close>

type_synonym owners = "mutex_id \<Rightarrow> rb_fiber option"

inductive lock_spec :: "owners \<Rightarrow> mutex_event \<Rightarrow> owners \<Rightarrow> bool" where
  acquire: "own self = None \<Longrightarrow> lock_spec own (Acquired f self) (own(self := Some f))"
| release: "own self = Some f \<Longrightarrow> lock_spec own (Released f self) (own(self := None))"
| silent: "lock_spec own Tau own"

definition owners_of :: "mutex_world \<Rightarrow> owners" where
  "owners_of w = (\<lambda>self. mfiber (mutexes w self))"

end
