(* ===== verification/Sync_Mutex_Inv.thy ===== *)
theory Sync_Mutex_Inv
  imports Sync_Mutex
begin

text \<open>
  The invariants of a Mutex: the mutexes a thread keeps are those its fibers own, a waiter is asleep
  and owns nothing it waits for, and a free mutex with waiters has a fiber on its way to it.
\<close>

section \<open>The invariant\<close>

fun pc_on :: "mutex_pc \<Rightarrow> mutex_id option" where
  "pc_on Outside = None"
| "pc_on (Sleeping self _) = Some self"
| "pc_on (CheckingInts self) = Some self"

text \<open>
  \<open>lim\<close> is the fiber that is in the middle of a lock call, with its mutex: it is in no list, its \<open>pc\<close>
  is out of date, and it may own the mutex without the thread having recorded it.
\<close>

definition mutex_base :: "(rb_fiber \<times> mutex_id) option \<Rightarrow> mutex_world \<Rightarrow> bool" where
  "mutex_base lim w \<longleftrightarrow>
     (\<forall>m. distinct (mwaitq (mutexes w m)) \<and>
       (\<forall>f \<in> set (mwaitq (mutexes w m)). Some f \<noteq> map_option fst lim \<and> (\<exists>i. mpc w f = Sleeping m i))) \<and>
     (\<forall>f m. Some f \<noteq> map_option fst lim \<longrightarrow> pc_on (mpc w f) = Some m \<longrightarrow> mfiber (mutexes w m) \<noteq> Some f) \<and>
     (\<forall>th. distinct (keeping_mutexes w th) \<and>
       (\<forall>m. m \<in> set (keeping_mutexes w th) \<longleftrightarrow>
         (\<exists>f. mfiber (mutexes w m) = Some f \<and> fiber_threadptr w f = th \<and> Some (f, m) \<noteq> lim))) \<and>
     (\<forall>f. Some f \<noteq> map_option fst lim \<longrightarrow> mpc w f \<noteq> Outside \<longrightarrow>
       mstatus w (fiber_threadptr w f) \<in> {THREAD_RUNNABLE, THREAD_STOPPED_FOREVER})"

text \<open>A fiber on its way to the mutex: taken out of the list by an unlock, or looking at its interrupts.\<close>

definition on_way :: "mutex_world \<Rightarrow> rb_fiber \<Rightarrow> mutex_id \<Rightarrow> bool" where
  "on_way w f m \<longleftrightarrow> mpc w f = CheckingInts m \<or> (\<exists>i. mpc w f = Sleeping m i) \<and> f \<notin> set (mwaitq (mutexes w m))"

definition no_lost_wakeup :: "mutex_world \<Rightarrow> bool" where
  "no_lost_wakeup w \<longleftrightarrow> (\<forall>m. mfiber (mutexes w m) = None \<longrightarrow> mwaitq (mutexes w m) \<noteq> [] \<longrightarrow> (\<exists>f. on_way w f m))"

definition mutex_inv :: "bool \<Rightarrow> mutex_world \<Rightarrow> bool" where
  "mutex_inv interrupts w \<longleftrightarrow> mutex_base None w \<and> (\<not> interrupts \<longrightarrow> no_lost_wakeup w)"

lemma mutex_baseD:
  assumes "mutex_base lim w"
  shows "distinct (mwaitq (mutexes w m))"
    "f \<in> set (mwaitq (mutexes w m)) \<Longrightarrow> Some f \<noteq> map_option fst lim \<and> (\<exists>i. mpc w f = Sleeping m i)"
    "Some f \<noteq> map_option fst lim \<Longrightarrow> pc_on (mpc w f) = Some m \<Longrightarrow> mfiber (mutexes w m) \<noteq> Some f"
    "distinct (keeping_mutexes w th)"
    "m \<in> set (keeping_mutexes w th) \<longleftrightarrow>
       (\<exists>f. mfiber (mutexes w m) = Some f \<and> fiber_threadptr w f = th \<and> Some (f, m) \<noteq> lim)"
    "Some f \<noteq> map_option fst lim \<Longrightarrow> mpc w f \<noteq> Outside \<Longrightarrow>
       mstatus w (fiber_threadptr w f) \<in> {THREAD_RUNNABLE, THREAD_STOPPED_FOREVER}"
  using assms unfolding mutex_base_def by blast+

lemma mutex_baseI:
  assumes "\<And>m. distinct (mwaitq (mutexes w m))"
    "\<And>f m. f \<in> set (mwaitq (mutexes w m)) \<Longrightarrow> Some f \<noteq> map_option fst lim \<and> (\<exists>i. mpc w f = Sleeping m i)"
    "\<And>f m. Some f \<noteq> map_option fst lim \<Longrightarrow> pc_on (mpc w f) = Some m \<Longrightarrow> mfiber (mutexes w m) \<noteq> Some f"
    "\<And>th. distinct (keeping_mutexes w th)"
    "\<And>m th. m \<in> set (keeping_mutexes w th) \<longleftrightarrow>
       (\<exists>f. mfiber (mutexes w m) = Some f \<and> fiber_threadptr w f = th \<and> Some (f, m) \<noteq> lim)"
    "\<And>f. Some f \<noteq> map_option fst lim \<Longrightarrow> mpc w f \<noteq> Outside \<Longrightarrow>
       mstatus w (fiber_threadptr w f) \<in> {THREAD_RUNNABLE, THREAD_STOPPED_FOREVER}"
  shows "mutex_base lim w"
  using assms unfolding mutex_base_def by blast

lemma mutex_field_simps [sync_simps]:
  "mutexes (set_pc f pc w) = mutexes w" "keeping_mutexes (set_pc f pc w) = keeping_mutexes w"
  "mstatus (set_pc f pc w) = mstatus w" "mpc (set_pc f pc w) = (mpc w)(f := pc)"
  "fiber_threadptr (set_pc f pc w) = fiber_threadptr w"
  "mutexes (mutex_set m x w) = (mutexes w)(m := x)" "keeping_mutexes (mutex_set m x w) = keeping_mutexes w"
  "mstatus (mutex_set m x w) = mstatus w" "mpc (mutex_set m x w) = mpc w"
  "fiber_threadptr (mutex_set m x w) = fiber_threadptr w"
  "mutexes (thread_mutex_insert th m w) = mutexes w" "mpc (thread_mutex_insert th m w) = mpc w"
  "mstatus (thread_mutex_insert th m w) = mstatus w" "fiber_threadptr (thread_mutex_insert th m w) = fiber_threadptr w"
  "keeping_mutexes (thread_mutex_insert th m w) = (keeping_mutexes w)(th := m # keeping_mutexes w th)"
  "mutexes (thread_mutex_remove th m w) = mutexes w" "mpc (thread_mutex_remove th m w) = mpc w"
  "mstatus (thread_mutex_remove th m w) = mstatus w" "fiber_threadptr (thread_mutex_remove th m w) = fiber_threadptr w"
  "keeping_mutexes (thread_mutex_remove th m w) = (keeping_mutexes w)(th := remove1 m (keeping_mutexes w th))"
  by (simp_all add: set_pc_def mutex_set_def thread_mutex_insert_def thread_mutex_remove_def)

section \<open>Leaving a lock call\<close>

text \<open>A fiber that does not own the mutex leaves the call, or goes to look at its interrupts.\<close>

lemma base_leave:
  assumes base: "mutex_base (Some (f, m)) w" and own: "mfiber (mutexes w m) \<noteq> Some f"
    and pc: "pc = Outside \<or> pc = CheckingInts m \<and> mstatus w (fiber_threadptr w f) = THREAD_RUNNABLE"
  shows "mutex_base None (set_pc f pc w)"
proof (rule mutex_baseI)
  note b = mutex_baseD [OF base]
  show "distinct (mwaitq (mutexes (set_pc f pc w) m'))" "distinct (keeping_mutexes (set_pc f pc w) th)" for m' th
    using b(1,4) by (simp_all add: sync_simps)
  show "Some g \<noteq> map_option fst None \<and> (\<exists>i. mpc (set_pc f pc w) g = Sleeping m' i)"
    if "g \<in> set (mwaitq (mutexes (set_pc f pc w) m'))" for g m'
    using b(2) [of g m'] that by (auto simp: sync_simps)
  show "mfiber (mutexes (set_pc f pc w) m') \<noteq> Some g" if "pc_on (mpc (set_pc f pc w) g) = Some m'" for g m'
    using b(3) [of g m'] that own pc by (auto simp: sync_simps split: if_splits)
  show "m' \<in> set (keeping_mutexes (set_pc f pc w) th) \<longleftrightarrow>
      (\<exists>g. mfiber (mutexes (set_pc f pc w) m') = Some g \<and> fiber_threadptr (set_pc f pc w) g = th \<and> Some (g, m') \<noteq> None)"
    for m' th
    using b(5) [of m' th] own by (auto simp: sync_simps)
  show "mstatus (set_pc f pc w) (fiber_threadptr (set_pc f pc w) g) \<in> {THREAD_RUNNABLE, THREAD_STOPPED_FOREVER}"
    if "mpc (set_pc f pc w) g \<noteq> Outside" for g
    using b(6) [of g] that pc by (auto simp: sync_simps split: if_splits)
qed

text \<open>The fiber owns the mutex: its thread records it and the call returns.\<close>

lemma base_locked:
  assumes base: "mutex_base (Some (f, m)) w" and own: "mfiber (mutexes w m) = Some f"
  shows "mutex_base None (set_pc f Outside (mutex_locked f m w))"
proof (rule mutex_baseI)
  note b = mutex_baseD [OF base]
  let ?w = "set_pc f Outside (mutex_locked f m w)"
  show "distinct (mwaitq (mutexes ?w m'))" for m' using b(1) by (simp add: sync_simps mutex_locked_def)
  show "distinct (keeping_mutexes ?w th)" for th
    using b(4) [of th] b(5) [of m th] own by (auto simp: sync_simps mutex_locked_def)
  show "Some g \<noteq> map_option fst None \<and> (\<exists>i. mpc ?w g = Sleeping m' i)"
    if "g \<in> set (mwaitq (mutexes ?w m'))" for g m'
    using b(2) [of g m'] that by (auto simp: sync_simps mutex_locked_def)
  show "mfiber (mutexes ?w m') \<noteq> Some g" if "pc_on (mpc ?w g) = Some m'" for g m'
    using b(3) [of g m'] that by (auto simp: sync_simps mutex_locked_def split: if_splits)
  show "m' \<in> set (keeping_mutexes ?w th) \<longleftrightarrow>
      (\<exists>g. mfiber (mutexes ?w m') = Some g \<and> fiber_threadptr ?w g = th \<and> Some (g, m') \<noteq> None)" for m' th
    using b(5) [of m' th] own by (auto simp: sync_simps mutex_locked_def)
  show "mstatus ?w (fiber_threadptr ?w g) \<in> {THREAD_RUNNABLE, THREAD_STOPPED_FOREVER}"
    if "mpc ?w g \<noteq> Outside" for g
    using b(6) [of g] that by (auto simp: sync_simps mutex_locked_def split: if_splits)
qed

text \<open>The fiber goes to sleep in the list.\<close>

lemma base_sleep:
  assumes base: "mutex_base (Some (f, m)) w" and own: "mfiber (mutexes w m) \<noteq> Some f"
  shows "mutex_base None (set_pc f (Sleeping m i) (mutex_set m (mutexes w m\<lparr>mwaitq := mwaitq (mutexes w m) @ [f]\<rparr>)
    (w\<lparr>mstatus := (mstatus w)(fiber_threadptr w f := THREAD_STOPPED_FOREVER)\<rparr>)))" (is "mutex_base None ?w")
proof (rule mutex_baseI)
  note b = mutex_baseD [OF base]
  have nf: "f \<notin> set (mwaitq (mutexes w m'))" for m' using b(2) [of f m'] by auto
  show "distinct (mwaitq (mutexes ?w m'))" for m' using b(1) [of m'] nf [of m] by (cases "m' = m") (simp_all add: sync_simps)
  show "distinct (keeping_mutexes ?w th)" for th using b(4) [of th] by (simp add: sync_simps)
  show "Some g \<noteq> map_option fst None \<and> (\<exists>i. mpc ?w g = Sleeping m' i)"
    if "g \<in> set (mwaitq (mutexes ?w m'))" for g m'
    using b(2) [of g m'] that nf by (auto simp: sync_simps split: if_splits)
  show "mfiber (mutexes ?w m') \<noteq> Some g" if "pc_on (mpc ?w g) = Some m'" for g m'
    using b(3) [of g m'] that own by (auto simp: sync_simps split: if_splits)
  show "m' \<in> set (keeping_mutexes ?w th) \<longleftrightarrow>
      (\<exists>g. mfiber (mutexes ?w m') = Some g \<and> fiber_threadptr ?w g = th \<and> Some (g, m') \<noteq> None)" for m' th
    using b(5) [of m' th] own by (auto simp: sync_simps)
  show "mstatus ?w (fiber_threadptr ?w g) \<in> {THREAD_RUNNABLE, THREAD_STOPPED_FOREVER}"
    if "mpc ?w g \<noteq> Outside" for g
    using b(6) [of g] that by (auto simp: sync_simps split: if_splits)
qed

section \<open>The steps of a lock call\<close>

text \<open>What a lock call leaves once it is at the head of its loop.\<close>

lemma mutex_lock_loop_spec:
  assumes base: "mutex_base (Some (f, m)) w" and own: "mfiber (mutexes w m) = Some g"
    and loop: "mutex_lock_loop f m i w = (w', out)"
  shows "mutex_base None w'" "out \<noteq> RbBug" "out = Locked \<longleftrightarrow> g = f" "owners_of w' = owners_of w"
    "m' \<noteq> m \<Longrightarrow> mutexes w' m' = mutexes w m'" "f' \<noteq> f \<Longrightarrow> mpc w' f' = mpc w f'"
proof -
  have own': "g \<noteq> f \<Longrightarrow> mfiber (mutexes w m) \<noteq> Some f" using own by simp
  have "mutex_base None w' \<and> out \<noteq> RbBug \<and> (out = Locked \<longleftrightarrow> g = f) \<and> owners_of w' = owners_of w \<and>
    (m' \<noteq> m \<longrightarrow> mutexes w' m' = mutexes w m') \<and> (f' \<noteq> f \<longrightarrow> mpc w' f' = mpc w f')"
  proof (cases "g = f")
    case True
    then show ?thesis
      using loop own base_locked [OF base]
      by (auto simp: mutex_lock_loop_def owners_of_def sync_simps mutex_locked_def)
  next
    case False
    then show ?thesis
      using loop own base_leave [OF base own', of Outside] base_sleep [OF base own', of i]
      by (auto simp: mutex_lock_loop_def owners_of_def sync_simps Let_def split: if_splits)
  qed
  then show "mutex_base None w'" "out \<noteq> RbBug" "out = Locked \<longleftrightarrow> g = f" "owners_of w' = owners_of w"
    "m' \<noteq> m \<Longrightarrow> mutexes w' m' = mutexes w m'" "f' \<noteq> f \<Longrightarrow> mpc w' f' = mpc w f'" by blast+
qed

text \<open>A fiber outside of every lock call, or at one of the two points inside, is in no list.\<close>

lemma base_enter:
  assumes base: "mutex_base None w" and pc: "mpc w f = Outside \<or> mpc w f = CheckingInts m"
    and own: "mfiber (mutexes w m) \<noteq> Some f"
  shows "mutex_base (Some (f, m)) w"
proof (rule mutex_baseI)
  note b = mutex_baseD [OF base]
  show "Some g \<noteq> map_option fst (Some (f, m)) \<and> (\<exists>i. mpc w g = Sleeping m' i)"
    if "g \<in> set (mwaitq (mutexes w m'))" for g m' using b(2) [OF that] pc by auto
  show "m' \<in> set (keeping_mutexes w th) \<longleftrightarrow>
      (\<exists>g. mfiber (mutexes w m') = Some g \<and> fiber_threadptr w g = th \<and> Some (g, m') \<noteq> Some (f, m))" for m' th
    using b(5) [of m' th] own by auto
qed (use mutex_baseD [OF base] in auto)

lemma base_take:
  assumes base: "mutex_base (Some (f, m)) w" and free: "mfiber (mutexes w m) = None"
  shows "mutex_base (Some (f, m)) (set_fiber m (Some f) w)"
proof (rule mutex_baseI)
  note b = mutex_baseD [OF base]
  show "m' \<in> set (keeping_mutexes (set_fiber m (Some f) w) th) \<longleftrightarrow>
      (\<exists>g. mfiber (mutexes (set_fiber m (Some f) w) m') = Some g \<and>
        fiber_threadptr (set_fiber m (Some f) w) g = th \<and> Some (g, m') \<noteq> Some (f, m))" for m' th
    using b(5) [of m' th] free by (auto simp: sync_simps set_fiber_def)
  show "mfiber (mutexes (set_fiber m (Some f) w) m') \<noteq> Some g"
    if "Some g \<noteq> map_option fst (Some (f, m))" "pc_on (mpc (set_fiber m (Some f) w) g) = Some m'" for g m'
    using b(3) [of g m'] that by (auto simp: sync_simps set_fiber_def split: if_splits)
qed (use mutex_baseD [OF base] in \<open>auto simp: sync_simps set_fiber_def split: if_splits\<close>)

text \<open>\<open>native_sleep\<close> is over: out of the list, and the mutex is taken if it is free.\<close>

definition mutex_woken :: "rb_fiber \<Rightarrow> mutex_id \<Rightarrow> mutex_world \<Rightarrow> mutex_world" where
  "mutex_woken f m w = mutex_set m
     (let mutex = mutexes w m\<lparr>mwaitq := removeAll f (mwaitq (mutexes w m))\<rparr>
      in if mfiber mutex = None then mutex\<lparr>mfiber := Some f\<rparr> else mutex)
     (w\<lparr>mstatus := (mstatus w)(fiber_threadptr w f := THREAD_RUNNABLE)\<rparr>)"

lemma base_woken:
  assumes base: "mutex_base None w" and pc: "mpc w f = Sleeping m i"
  shows "mutex_base (Some (f, m)) (mutex_woken f m w)"
proof (rule mutex_baseI)
  note b = mutex_baseD [OF base]
  have own: "mfiber (mutexes w m) \<noteq> Some f" using b(3) [of f m] pc by simp
  show "distinct (mwaitq (mutexes (mutex_woken f m w) m'))" for m'
    using b(1) [of m'] by (cases "m' = m") (auto simp: mutex_woken_def sync_simps Let_def distinct_removeAll)
  show "distinct (keeping_mutexes (mutex_woken f m w) th)" for th
    using b(4) by (simp add: mutex_woken_def sync_simps)
  show "Some g \<noteq> map_option fst (Some (f, m)) \<and> (\<exists>i. mpc (mutex_woken f m w) g = Sleeping m' i)"
    if "g \<in> set (mwaitq (mutexes (mutex_woken f m w) m'))" for g m'
  proof -
    have g: "g \<in> set (mwaitq (mutexes w m'))" "m' = m \<Longrightarrow> g \<noteq> f"
      using that by (auto simp: mutex_woken_def sync_simps Let_def split: if_splits)
    then show ?thesis using b(2) [OF g(1)] pc by (auto simp: mutex_woken_def sync_simps)
  qed
  show "mfiber (mutexes (mutex_woken f m w) m') \<noteq> Some g"
    if "Some g \<noteq> map_option fst (Some (f, m))" "pc_on (mpc (mutex_woken f m w) g) = Some m'" for g m'
    using b(3) [of g m'] that by (auto simp: mutex_woken_def sync_simps Let_def split: if_splits)
  show "m' \<in> set (keeping_mutexes (mutex_woken f m w) th) \<longleftrightarrow>
      (\<exists>g. mfiber (mutexes (mutex_woken f m w) m') = Some g \<and> fiber_threadptr (mutex_woken f m w) g = th \<and>
        Some (g, m') \<noteq> Some (f, m))" for m' th
    using b(5) [of m' th] own by (auto simp: mutex_woken_def sync_simps Let_def split: if_splits)
  show "mstatus (mutex_woken f m w) (fiber_threadptr (mutex_woken f m w) g) \<in> {THREAD_RUNNABLE, THREAD_STOPPED_FOREVER}"
    if "Some g \<noteq> map_option fst (Some (f, m))" "mpc (mutex_woken f m w) g \<noteq> Outside" for g
    using b(6) [of g] that by (auto simp: mutex_woken_def sync_simps split: if_splits)
qed

text \<open>Giving the mutex back.\<close>

lemma base_give_back:
  assumes base: "mutex_base (Some (f, m)) w" and own: "mfiber (mutexes w m) = Some f"
  shows "mutex_base (Some (f, m)) (set_fiber m None w)"
proof (rule mutex_baseI)
  note b = mutex_baseD [OF base]
  show "m' \<in> set (keeping_mutexes (set_fiber m None w) th) \<longleftrightarrow>
      (\<exists>g. mfiber (mutexes (set_fiber m None w) m') = Some g \<and>
        fiber_threadptr (set_fiber m None w) g = th \<and> Some (g, m') \<noteq> Some (f, m))" for m' th
    using b(5) [of m' th] own by (auto simp: sync_simps set_fiber_def)
  show "mfiber (mutexes (set_fiber m None w) m') \<noteq> Some g"
    if "Some g \<noteq> map_option fst (Some (f, m))" "pc_on (mpc (set_fiber m None w) g) = Some m'" for g m'
    using b(3) [of g m'] that by (auto simp: sync_simps set_fiber_def split: if_splits)
qed (use mutex_baseD [OF base] in \<open>auto simp: sync_simps set_fiber_def split: if_splits\<close>)

section \<open>Every step keeps the invariant\<close>

lemma mutex_lock_woken_eq:
  "mutex_lock_woken f m i w =
    (if i then
       (let w = mutex_woken f m w
        in (set_pc f (CheckingInts m) (if mfiber (mutexes w m) = Some f then set_fiber m None w else w), Asleep))
     else mutex_lock_loop f m i (mutex_woken f m w))"
  by (auto simp: mutex_lock_woken_def mutex_woken_def set_fiber_def mutex_set_def Let_def)

text \<open>
  A step of a fiber that is engaged with no mutex but \<open>m\<close> and changes no other one keeps the wakeups,
  if it leaves \<open>m\<close> owned, without waiters, or with a fiber on its way.
\<close>

lemma no_lost_wakeup_step:
  assumes "no_lost_wakeup w" and "\<And>m'. pc_on (mpc w f) = Some m' \<Longrightarrow> m' = m"
    and "\<And>m'. m' \<noteq> m \<Longrightarrow> mutexes w' m' = mutexes w m'" and "\<And>g. g \<noteq> f \<Longrightarrow> mpc w' g = mpc w g"
    and "mfiber (mutexes w' m) \<noteq> None \<or> mwaitq (mutexes w' m) = [] \<or> (\<exists>g. on_way w' g m)"
  shows "no_lost_wakeup w'"
  unfolding no_lost_wakeup_def
proof (intro allI impI)
  fix m'
  assume free: "mfiber (mutexes w' m') = None" "mwaitq (mutexes w' m') \<noteq> []"
  show "\<exists>g. on_way w' g m'"
  proof (cases "m' = m")
    case True
    then show ?thesis using assms(5) free by blast
  next
    case False
    then obtain g where g: "on_way w g m'" using assms(1,3) free unfolding no_lost_wakeup_def by metis
    then have "pc_on (mpc w g) = Some m'" by (auto simp: on_way_def)
    then have "g \<noteq> f" using assms(2) False by blast
    then have "on_way w' g m'" using g assms(3) [OF False] assms(4) by (simp add: on_way_def)
    then show ?thesis by blast
  qed
qed

text \<open>What the invariant asks of a step of the fiber \<open>f\<close> on the mutex \<open>m\<close>.\<close>

definition step_ok :: "mutex_world \<Rightarrow> rb_fiber \<Rightarrow> mutex_id \<Rightarrow> mutex_event \<Rightarrow> mutex_world \<Rightarrow> bool" where
  "step_ok w f m e w' \<longleftrightarrow> mutex_base None w' \<and> lock_spec (owners_of w) e (owners_of w') \<and>
     (\<forall>m'. m' \<noteq> m \<longrightarrow> mutexes w' m' = mutexes w m') \<and> (\<forall>g. g \<noteq> f \<longrightarrow> mpc w' g = mpc w g) \<and>
     (mfiber (mutexes w' m) \<noteq> None \<or> mwaitq (mutexes w' m) = [] \<or> (\<exists>g. on_way w' g m))"

lemma step_ok_inv:
  assumes "mutex_inv i w" "step_ok w f m e w'" "\<And>m'. pc_on (mpc w f) = Some m' \<Longrightarrow> m' = m"
  shows "mutex_inv i w' \<and> lock_spec (owners_of w) e (owners_of w')"
  using assms no_lost_wakeup_step [of w f m w'] by (auto simp: mutex_inv_def step_ok_def)

text \<open>The head of the loop as a step, after the mutex may have been taken.\<close>

lemma loop_step_ok:
  assumes base: "mutex_base (Some (f, m)) w1" and own: "mfiber (mutexes w1 m) = Some g"
    and loop: "mutex_lock_loop f m i w1 = (w', out)"
    and taken: "mfiber (mutexes w m) = Some g \<or> mfiber (mutexes w m) = None \<and> g = f"
    and was: "mfiber (mutexes w m) \<noteq> Some f"
    and others: "\<And>m'. m' \<noteq> m \<Longrightarrow> mutexes w1 m' = mutexes w m'" and pcs: "mpc w1 = mpc w"
  shows "step_ok w f m (lock_event f m out) w'"
proof -
  note spec = mutex_lock_loop_spec [OF base own loop]
  have own': "owners_of w1 = (owners_of w)(m := Some g)"
    using own others by (auto simp: owners_of_def)
  have ls: "lock_spec (owners_of w) (lock_event f m out) (owners_of w')"
  proof (cases "g = f")
    case True
    then show ?thesis
      using taken was spec(3,4) own' lock_spec.acquire [of "owners_of w" m f]
      by (auto simp: lock_event_def owners_of_def)
  next
    case False
    then have "owners_of w' = owners_of w" using taken own' spec(4) by (auto simp: owners_of_def)
    then show ?thesis using False spec(3) lock_spec.silent by (simp add: lock_event_def)
  qed
  have "mfiber (mutexes w' m) = Some g" using spec(4) own by (metis owners_of_def)
  then show ?thesis using ls spec(1) spec(5,6) others pcs by (simp add: step_ok_def)
qed

lemma mutex_trylock_ok:
  assumes base: "mutex_base None w" and pc: "mpc w f = Outside"
    and trylock: "rb_mutex_trylock f m w = (w', True)"
  shows "step_ok w f m (Acquired f m) w'"
proof -
  have free: "mfiber (mutexes w m) = None" and w': "w' = mutex_locked f m (set_fiber m (Some f) w)"
    using trylock by (auto simp: rb_mutex_trylock_def split: if_splits)
  have own: "mfiber (mutexes (set_fiber m (Some f) w) m) = Some f" by (simp add: set_fiber_def sync_simps)
  have "mutex_base (Some (f, m)) (set_fiber m (Some f) w)"
    using base_take [OF base_enter [OF base] free] pc free by simp
  from base_locked [OF this own] have "mutex_base None (set_pc f Outside w')" by (simp add: w')
  moreover have "set_pc f Outside w' = w'"
    using pc by (simp add: set_pc_def w' mutex_locked_def set_fiber_def sync_simps fun_upd_idem)
  moreover have "owners_of w' = (owners_of w)(m := Some f)"
    by (auto simp: owners_of_def w' mutex_locked_def set_fiber_def sync_simps)
  ultimately show ?thesis
    using lock_spec.acquire [of "owners_of w" m f] free
    by (auto simp: step_ok_def owners_of_def w' mutex_locked_def set_fiber_def sync_simps)
qed

lemma mutex_lock_ok:
  assumes base: "mutex_base None w" and pc: "mpc w f = Outside"
    and lock: "do_mutex_lock f m trap i w = (w', out)"
  shows "out \<noteq> RbBug \<and> (step_ok w f m (lock_event f m out) w' \<or> w' = w \<and> lock_event f m out = Tau)"
proof (cases "trap \<or> mfiber (mutexes w m) = Some f")
  case True
  then show ?thesis
    using lock by (auto simp: do_mutex_lock_def rb_mutex_trylock_def mutex_owned_p_def lock_event_def split: if_splits)
next
  case False
  show ?thesis
  proof (cases "mfiber (mutexes w m)")
    case None
    then have "rb_mutex_trylock f m w = (w', True)" "out = Locked"
      using lock False by (auto simp: do_mutex_lock_def rb_mutex_trylock_def)
    then show ?thesis using mutex_trylock_ok [OF base pc] by (simp add: lock_event_def)
  next
    case (Some g)
    then have loop: "mutex_lock_loop f m i w = (w', out)"
      using lock False by (simp add: do_mutex_lock_def rb_mutex_trylock_def mutex_owned_p_def)
    have enter: "mutex_base (Some (f, m)) w" using base_enter [OF base] pc False by simp
    show ?thesis
      using loop_step_ok [OF enter Some loop, of w] mutex_lock_loop_spec(2) [OF enter Some loop] Some False by simp
  qed
qed

lemma mutex_woken_owner:
  "mfiber (mutexes (mutex_woken f m w) m) = Some (case mfiber (mutexes w m) of None \<Rightarrow> f | Some g \<Rightarrow> g)"
  "m' \<noteq> m \<Longrightarrow> mutexes (mutex_woken f m w) m' = mutexes w m'" "mpc (mutex_woken f m w) = mpc w"
  by (auto simp: mutex_woken_def sync_simps Let_def split: option.splits)

lemma mutex_wake_ok:
  assumes base: "mutex_base None w" and pc: "mpc w f = Sleeping m i"
    and wake: "mutex_lock_woken f m i w = (w', out)"
  shows "out \<noteq> RbBug \<and> step_ok w f m (lock_event f m out) w'"
proof -
  define w1 where "w1 = mutex_woken f m w"
  define g where "g = (case mfiber (mutexes w m) of None \<Rightarrow> f | Some g \<Rightarrow> g)"
  have b1: "mutex_base (Some (f, m)) w1" using base_woken [OF base pc] by (simp add: w1_def)
  have own: "mfiber (mutexes w1 m) = Some g" by (simp add: w1_def g_def mutex_woken_owner)
  have was: "mfiber (mutexes w m) \<noteq> Some f" using mutex_baseD(3) [OF base, of f m] pc by simp
  have others: "\<And>m'. m' \<noteq> m \<Longrightarrow> mutexes w1 m' = mutexes w m'" and pcs: "mpc w1 = mpc w"
    by (simp_all add: w1_def mutex_woken_owner)
  have st: "mstatus w1 (fiber_threadptr w1 f) = THREAD_RUNNABLE" by (simp add: w1_def mutex_woken_def sync_simps)
  show ?thesis
  proof (cases i)
    case False
    then have loop: "mutex_lock_loop f m i w1 = (w', out)" using wake by (simp add: mutex_lock_woken_eq w1_def)
    have "mfiber (mutexes w m) = Some g \<or> mfiber (mutexes w m) = None \<and> g = f"
      by (auto simp: g_def split: option.splits)
    from loop_step_ok [OF b1 own loop this was others pcs] mutex_lock_loop_spec(2) [OF b1 own loop]
    show ?thesis by simp
  next
    case True
    define w2 where "w2 = (if mfiber (mutexes w1 m) = Some f then set_fiber m None w1 else w1)"
    have w': "w' = set_pc f (CheckingInts m) w2" and out: "out = Asleep"
      using wake True by (auto simp: mutex_lock_woken_eq w1_def w2_def Let_def)
    have b2: "mutex_base (Some (f, m)) w2" using b1 base_give_back [OF b1] by (simp add: w2_def)
    have own2: "mfiber (mutexes w2 m) \<noteq> Some f" and st2: "mstatus w2 (fiber_threadptr w2 f) = THREAD_RUNNABLE"
      using st by (auto simp: w2_def set_fiber_def sync_simps)
    have "mutex_base None w'" using base_leave [OF b2 own2] st2 by (simp add: w')
    moreover have "owners_of w' = owners_of w"
    proof
      fix m' show "owners_of w' m' = owners_of w m'"
        using was own others
        by (cases "m' = m") (auto simp: owners_of_def w' w2_def set_fiber_def sync_simps g_def split: option.splits)
    qed
    moreover have "on_way w' f m" by (simp add: on_way_def w' sync_simps)
    ultimately show ?thesis
      using others pcs lock_spec.silent
      by (auto simp: step_ok_def out lock_event_def w' w2_def set_fiber_def sync_simps)
  qed
qed

lemma mutex_checked_ok:
  assumes base: "mutex_base None w" and pc: "mpc w f = CheckingInts m"
    and checked: "mutex_lock_checked f m w = (w', out)"
  shows "out \<noteq> RbBug \<and> step_ok w f m (lock_event f m out) w'"
proof -
  define w1 where "w1 = (if mfiber (mutexes w m) = None then set_fiber m (Some f) w else w)"
  define g where "g = (case mfiber (mutexes w m) of None \<Rightarrow> f | Some g \<Rightarrow> g)"
  have was: "mfiber (mutexes w m) \<noteq> Some f" using mutex_baseD(3) [OF base, of f m] pc by simp
  have enter: "mutex_base (Some (f, m)) w" using base_enter [OF base] pc was by simp
  have b1: "mutex_base (Some (f, m)) w1" using enter base_take [OF enter] by (simp add: w1_def)
  have own: "mfiber (mutexes w1 m) = Some g"
    by (auto simp: w1_def g_def set_fiber_def sync_simps split: option.splits)
  have others: "\<And>m'. m' \<noteq> m \<Longrightarrow> mutexes w1 m' = mutexes w m'" and pcs: "mpc w1 = mpc w"
    by (simp_all add: w1_def set_fiber_def sync_simps)
  have loop: "mutex_lock_loop f m True w1 = (w', out)" using checked by (simp add: mutex_lock_checked_def w1_def)
  have "mfiber (mutexes w m) = Some g \<or> mfiber (mutexes w m) = None \<and> g = f"
    by (auto simp: g_def split: option.splits)
  from loop_step_ok [OF b1 own loop this was others pcs] mutex_lock_loop_spec(2) [OF b1 own loop]
  show ?thesis by simp
qed

lemma unlock_wake_live:
  assumes "\<And>g. g \<in> set q \<Longrightarrow> st g \<in> {THREAD_RUNNABLE, THREAD_STOPPED_FOREVER}"
  shows "unlock_wake st q = Some (tl q)"
proof (cases q)
  case (Cons cur head)
  then show ?thesis using assms [of cur] by auto
qed simp

text \<open>The state after the owner's unlock.\<close>

lemma base_unlock:
  assumes base: "mutex_base None w" and own: "mfiber (mutexes w m) = Some f" and pc: "mpc w f = Outside"
  shows "mutex_base None (thread_mutex_remove (fiber_threadptr w f) m
    (mutex_set m (mutexes w m\<lparr>mfiber := None, mwaitq := tl (mwaitq (mutexes w m))\<rparr>) w))" (is "mutex_base None ?w")
proof (rule mutex_baseI)
  note b = mutex_baseD [OF base]
  show "distinct (mwaitq (mutexes ?w m'))" for m'
    using b(1) [of m'] by (cases "m' = m") (simp_all add: sync_simps distinct_tl)
  show "distinct (keeping_mutexes ?w th)" for th
    using b(4) [of th] by (auto simp: sync_simps)
  show "Some g \<noteq> map_option fst None \<and> (\<exists>i. mpc ?w g = Sleeping m' i)" if "g \<in> set (mwaitq (mutexes ?w m'))" for g m'
  proof -
    have "g \<in> set (mwaitq (mutexes w m'))"
      using that by (cases "mwaitq (mutexes w m)") (auto simp: sync_simps split: if_splits)
    then show ?thesis using b(2) [of g m'] by (auto simp: sync_simps)
  qed
  show "mfiber (mutexes ?w m') \<noteq> Some g" if "pc_on (mpc ?w g) = Some m'" for g m'
    using b(3) [of g m'] that by (auto simp: sync_simps split: if_splits)
  show "m' \<in> set (keeping_mutexes ?w th) \<longleftrightarrow>
      (\<exists>g. mfiber (mutexes ?w m') = Some g \<and> fiber_threadptr ?w g = th \<and> Some (g, m') \<noteq> None)" for m' th
    using b(5) [of m' th] b(4) [of th] own by (auto simp: sync_simps set_remove1_eq)
  show "mstatus ?w (fiber_threadptr ?w g) \<in> {THREAD_RUNNABLE, THREAD_STOPPED_FOREVER}"
    if "mpc ?w g \<noteq> Outside" for g
    using b(6) [of g] that by (auto simp: sync_simps)
qed

lemma mutex_unlock_ok:
  assumes base: "mutex_base None w" and pc: "mpc w f = Outside"
    and unlock: "rb_mutex_unlock f m w = (w', out)"
  shows "out \<noteq> RbBug \<and> (if out = Locked then step_ok w f m (Released f m) w' else w' = w)"
proof (cases "mfiber (mutexes w m) = Some f")
  case False
  then show ?thesis
    using unlock by (auto simp: rb_mutex_unlock_def rb_mutex_unlock_th_def split: option.splits if_splits)
next
  case True
  note b = mutex_baseD [OF base]
  have live: "mstatus w (fiber_threadptr w g) \<in> {THREAD_RUNNABLE, THREAD_STOPPED_FOREVER}"
    if "g \<in> set (mwaitq (mutexes w m))" for g
    using b(2) [OF that] b(6) [of g] by auto
  have w': "w' = thread_mutex_remove (fiber_threadptr w f) m
      (mutex_set m (mutexes w m\<lparr>mfiber := None, mwaitq := tl (mwaitq (mutexes w m))\<rparr>) w)" and out: "out = Locked"
    using unlock True unlock_wake_live [OF live]
    by (simp_all add: rb_mutex_unlock_def rb_mutex_unlock_th_def)
  have way: "mwaitq (mutexes w' m) = [] \<or> (\<exists>g. on_way w' g m)"
  proof (cases "mwaitq (mutexes w m)")
    case Nil
    then show ?thesis by (simp add: w' sync_simps)
  next
    case (Cons cur head)
    then have "on_way w' cur m" using b(1) [of m] b(2) [of cur m] by (auto simp: on_way_def w' sync_simps)
    then show ?thesis by blast
  qed
  have "owners_of w' = (owners_of w)(m := None)" by (auto simp: owners_of_def w' sync_simps)
  then have "lock_spec (owners_of w) (Released f m) (owners_of w')"
    using lock_spec.release [of "owners_of w" m f] True by (simp add: owners_of_def)
  then show ?thesis
    using base_unlock [OF base True pc] way by (auto simp: step_ok_def out w' sync_simps)
qed

lemma base_exit:
  assumes base: "mutex_base None w" and runs: "thread_runs w f"
  shows "mutex_base None (w\<lparr>mstatus := (mstatus w)(fiber_threadptr w f := THREAD_KILLED)\<rparr>)"
  using base runs by (auto simp: mutex_base_def thread_runs_def)

text \<open>Each step keeps the invariant and is a step of the lock of the specification.\<close>

lemma mutex_step_inv:
  assumes "mutex_step ints w e w'" and inv: "mutex_inv ints w"
  shows "mutex_inv ints w' \<and> lock_spec (owners_of w) e (owners_of w')"
proof -
  have base: "mutex_base None w" using inv by (simp add: mutex_inv_def)
  have stay: "mutex_inv ints w \<and> lock_spec (owners_of w) Tau (owners_of w)" using inv lock_spec.silent by simp
  have ok: "mutex_inv ints w' \<and> lock_spec (owners_of w) e (owners_of w')"
    if "step_ok w f m e w'" "mpc w f = Outside \<or> pc_on (mpc w f) = Some m" for f m e w'
    using step_ok_inv [OF inv that(1)] that(2) by auto
  have out: "thread_runs w f \<Longrightarrow> mpc w f = Outside" for f by (auto simp: thread_runs_def)
  from assms(1) show ?thesis
  proof cases
    case (try_lock f m got)
    have "w' = w" if "\<not> got" using try_lock that by (auto simp: rb_mutex_trylock_def split: if_splits)
    moreover have "step_ok w f m e w'" if got using mutex_trylock_ok [OF base out] try_lock that by simp
    ultimately show ?thesis using ok [of f m e w'] out [of f] try_lock stay by (cases got) auto
  next
    case (lock f m trap i out')
    then show ?thesis using mutex_lock_ok [OF base out] ok [of f m e w'] out [of f] stay by metis
  next
    case (wake f m i out)
    then show ?thesis using mutex_wake_ok [OF base] ok by (metis pc_on.simps(2))
  next
    case (ints_checked f m out)
    then show ?thesis using mutex_checked_ok [OF base] ok by (metis pc_on.simps(3))
  next
    case (ints_raise f m)
    have own: "mfiber (mutexes w m) \<noteq> Some f" using mutex_baseD(3) [OF base, of f m] ints_raise by simp
    then have "mutex_base None w'" using base_leave [OF base_enter [OF base]] ints_raise by simp
    then show ?thesis using ints_raise lock_spec.silent by (simp add: mutex_inv_def owners_of_def set_pc_def)
  next
    case (unlock f m out')
    then show ?thesis using mutex_unlock_ok [OF base out] ok [of f m e w'] out [of f] stay by metis
  next
    case (exit f)
    then show ?thesis
      using base_exit [OF base] inv lock_spec.silent
      by (auto simp: mutex_inv_def no_lost_wakeup_def on_way_def owners_of_def)
  qed
qed

lemma mutex_start_inv: "mutex_start w \<Longrightarrow> mutex_inv ints w"
  by (auto simp: mutex_start_def mutex_inv_def mutex_base_def no_lost_wakeup_def)

lemma mutex_run_inv: "mutex_run ints w es w' \<Longrightarrow> mutex_inv ints w \<Longrightarrow> mutex_inv ints w'"
  by (induction rule: mutex_run.induct) (use mutex_step_inv in blast)+

end
