(* ===== verification/Sync_Properties.thy ===== *)
theory Sync_Properties
  imports Sync_Queue_Inv Sync_Mutex_Inv
begin

text \<open>
  What the queues and the mutex of thread_sync.c promise over whole runs: a queue is first in, first
  out and bounded, a mutex has one owner, and a wakeup is not lost unless an exception hits the woken
  thread.
\<close>

section \<open>The queue as a sequence of events\<close>

fun fifo :: "VALUE list \<Rightarrow> sz_event \<Rightarrow> VALUE list option" where
  "fifo q (Pushed v) = Some (q @ [v])"
| "fifo q (Popped v) = (if q \<noteq> [] \<and> hd q = v then Some (tl q) else None)"
| "fifo q Cleared = Some []"
| "fifo q Silent = Some q"

definition pushed_of :: "sz_event list \<Rightarrow> VALUE list" where
  "pushed_of es = concat (map (\<lambda>e. case e of Pushed v \<Rightarrow> [v] | _ \<Rightarrow> []) es)"

definition popped_of :: "sz_event list \<Rightarrow> VALUE list" where
  "popped_of es = concat (map (\<lambda>e. case e of Popped v \<Rightarrow> [v] | _ \<Rightarrow> []) es)"

text \<open>What a push and a pop do to the elements, with the event they report.\<close>

lemma queue_do_push_que:
  "queue_do_push q v st = (q', st', out) \<Longrightarrow>
    (if closed q then q' = q \<and> out = Raise ClosedQueueError
     else que q' = que q @ [v] \<and> closed q' = closed q \<and> out = Return ())"
  by (auto simp: queue_do_push_def queue_closed_p_def Let_def split: prod.splits if_splits)

lemma sz_push_que:
  assumes "sz_push th v b w = (w', e)"
  shows "e = Pushed v \<and> \<not> closed (sz_obj w) \<and> queue_length (sz_obj w) < max_len (sz_obj w) \<and>
      que (sz_obj w') = que (sz_obj w) @ [v] \<and> closed (sz_obj w') = closed (sz_obj w) \<and>
      max_len (sz_obj w') = max_len (sz_obj w) \<or>
    e = Silent \<and> que (sz_obj w') = que (sz_obj w) \<and> closed (sz_obj w') = closed (sz_obj w) \<and>
      max_len (sz_obj w') = max_len (sz_obj w)"
  using assms
  by (auto simp: sz_push_def sz_after_push_def rb_szqueue_push_def queue_do_push_def queue_closed_p_def Let_def
      split: prod.splits if_splits)

lemma szqueue_do_pop_que:
  "szqueue_do_pop th sq b st = (sq', st', out) \<Longrightarrow>
    (if que sq = [] then que sq' = [] else que sq' = tl (que sq) \<and> out = Return (hd (que sq))) \<and>
    closed sq' = closed sq \<and> max_len sq' = max_len sq"
  by (auto simp: szqueue_do_pop_def queue_do_pop_def Let_def split: prod.splits if_splits outcome.splits)

lemma sz_pop_que:
  assumes "sz_pop th b w = (w', e)"
  shows "(if que (sz_obj w) = [] then e = Silent \<and> que (sz_obj w') = []
      else e = Popped (hd (que (sz_obj w))) \<and> que (sz_obj w') = tl (que (sz_obj w))) \<and>
    closed (sz_obj w') = closed (sz_obj w) \<and> max_len (sz_obj w') = max_len (sz_obj w)"
proof -
  obtain sq st out where pop: "szqueue_do_pop th (sz_obj w) b (sz_status w) = (sq, st, out)"
    by (cases "szqueue_do_pop th (sz_obj w) b (sz_status w)")
  show ?thesis
    using szqueue_do_pop_que [OF pop] assms pop
    by (auto simp: sz_pop_def sz_after_pop_def split: outcome.splits if_splits)
qed

lemma sleep_done_fields [sync_simps]:
  "que (queue_sleep_done th q) = que q" "closed (queue_sleep_done th q) = closed q"
  "que (szqueue_sleep_done th sq) = que sq" "closed (szqueue_sleep_done th sq) = closed sq"
  "max_len (szqueue_sleep_done th sq) = max_len sq" "max_len (queue_sleep_done th sq) = max_len sq"
  by (simp_all add: queue_sleep_done_def szqueue_sleep_done_def)

text \<open>One step: the elements follow the event, a closed queue stays closed and takes nothing, a push needs room.\<close>

lemma sz_step_que:
  assumes "sz_step i w e w'"
  shows "fifo (que (sz_obj w)) e = Some (que (sz_obj w')) \<and> (closed (sz_obj w) \<longrightarrow> closed (sz_obj w')) \<and>
    (\<forall>v. e = Pushed v \<longrightarrow> \<not> closed (sz_obj w) \<and> queue_length (sz_obj w') \<le> max_len (sz_obj w'))"
  using assms
proof (cases rule: sz_step.cases)
  case (push th v block)
  then show ?thesis using sz_push_que [of th v block w w' e] by (auto simp: queue_length_def)
next
  case (pop th block)
  then show ?thesis using sz_pop_que [of th block w w' e] by (auto split: if_splits)
next
  case (resume_push th v)
  then show ?thesis using sz_push_que [OF resume_push(2)] by (auto simp: queue_length_def sync_simps)
next
  case (resume_pop th)
  then show ?thesis using sz_pop_que [OF resume_pop(2)] by (auto simp: sync_simps split: if_splits)
next
  case (close sq st)
  then show ?thesis by (auto simp: rb_szqueue_close_def Let_def queue_closed_p_def split: prod.splits if_splits)
next
  case (clear sq st)
  then show ?thesis by (auto simp: rb_szqueue_clear_def Let_def split: prod.splits)
next
  case (max_set m sq st out)
  then show ?thesis by (auto simp: rb_szqueue_max_set_def Let_def split: prod.splits if_splits)
qed (simp_all add: sync_simps)

lemma sz_run_que:
  "sz_run i w es w' \<Longrightarrow> Cleared \<notin> set es \<Longrightarrow>
    que (sz_obj w) @ pushed_of es = popped_of es @ que (sz_obj w')"
proof (induction rule: sz_run.induct)
  case (sz_run_start w)
  show ?case by (simp add: pushed_of_def popped_of_def)
next
  case (sz_run_step w es w' e w'')
  have "fifo (que (sz_obj w')) e = Some (que (sz_obj w''))" using sz_step_que [OF sz_run_step(2)] by simp
  moreover have ih: "que (sz_obj w) @ pushed_of es = popped_of es @ que (sz_obj w')" and "e \<noteq> Cleared"
    using sz_run_step(3,4) by auto
  ultimately have "que (sz_obj w') @ pushed_of [e] = popped_of [e] @ que (sz_obj w'')"
    by (cases e; cases "que (sz_obj w')") (auto simp: pushed_of_def popped_of_def split: if_splits)
  moreover have "pushed_of (es @ [e]) = pushed_of es @ pushed_of [e]" "popped_of (es @ [e]) = popped_of es @ popped_of [e]"
    by (simp_all add: pushed_of_def popped_of_def)
  ultimately show ?case using ih by (metis append_assoc)
qed

lemma sz_run_closed:
  "sz_run i w es w' \<Longrightarrow> closed (sz_obj w) \<Longrightarrow> closed (sz_obj w') \<and> pushed_of es = []"
proof (induction rule: sz_run.induct)
  case (sz_run_start w)
  then show ?case by (simp add: pushed_of_def)
next
  case (sz_run_step w es w' e w'')
  then show ?case using sz_step_que [OF sz_run_step(2)] by (auto simp: pushed_of_def split: sz_event.splits)
qed

text \<open>A run without interrupts is a run.\<close>

lemma sz_reachable_inv: "sz_start gen m w \<Longrightarrow> sz_run i w es w' \<Longrightarrow> sz_inv i w'"
  using sz_start_inv sz_run_inv by blast

section \<open>Properties of the sized queue\<close>

text \<open>The trace of a run, replayed on a first-in first-out list: \<open>None\<close> when it cannot be one of a queue.\<close>

fun replay :: "VALUE list \<Rightarrow> sz_event list \<Rightarrow> VALUE list option" where
  "replay q [] = Some q"
| "replay q (e # es) = (case fifo q e of None \<Rightarrow> None | Some q \<Rightarrow> replay q es)"

lemma replay_append: "replay q (es @ es') = (case replay q es of None \<Rightarrow> None | Some q \<Rightarrow> replay q es')"
  by (induction es arbitrary: q) (auto split: option.split)

lemma sz_run_replay: "sz_run i w es w' \<Longrightarrow> replay (que (sz_obj w)) es = Some (que (sz_obj w'))"
proof (induction rule: sz_run.induct)
  case (sz_run_step w es w' e w'')
  then show ?case using sz_step_que [OF sz_run_step(2)] by (simp add: replay_append)
qed simp

text \<open>C19: SizedQueue is a queue: in every run of pushes, pops, sleeps, wakeups, interrupts, closes,
  clears and changes of the bound by any threads, in any interleaving, the events are those of a
  first-in first-out list that starts empty, where a push appends its object, a pop takes the object
  at the front and a clear drops everything, and the objects in the queue are what that list then
  holds.  In a run without a clear the objects popped so far followed by those in the queue are
  therefore exactly the objects pushed so far, in order: nothing is lost, duplicated or reordered.\<close>

theorem szqueue_fifo:
  assumes "sz_start gen m w" and "sz_run interrupts w es w'"
  shows "replay [] es = Some (que (sz_obj w')) \<and>
    (Cleared \<notin> set es \<longrightarrow> pushed_of es = popped_of es @ que (sz_obj w'))"
proof -
  have "que (sz_obj w) = []"
    using assms(1) by (auto simp: sz_start_def rb_szqueue_initialize_def split: if_splits dest: sym)
  then show ?thesis using sz_run_replay [OF assms(2)] sz_run_que [OF assms(2)] by simp
qed

text \<open>A concrete system: a queue of one place, to which a first thread pushes while a second pops.\<close>

definition sz_example :: sz_world where
  "sz_example = \<lparr>sz_obj = \<lparr>waitq = [], fork_gen = 0, que = [], num_waiting = 0, closed = False,
      num_waiting_push = 0, pushq = [], max_len = 1\<rparr>,
    sz_status = (\<lambda>_. THREAD_RUNNABLE), sz_pc = (\<lambda>_. Running)\<rparr>"

lemma sz_example_start: "sz_start 0 1 sz_example"
  by (simp add: sz_start_def sz_example_def rb_szqueue_initialize_def)

lemma sz_step_push_fn:
  "sz_pc w th = Running \<Longrightarrow> sz_status w th = THREAD_RUNNABLE \<Longrightarrow>
    sz_step i w (snd (sz_push th v b w)) (fst (sz_push th v b w))"
  by (rule sz_step.push) simp_all

lemma sz_step_pop_fn:
  "sz_pc w th = Running \<Longrightarrow> sz_status w th = THREAD_RUNNABLE \<Longrightarrow>
    sz_step i w (snd (sz_pop th b w)) (fst (sz_pop th b w))"
  by (rule sz_step.pop) simp_all

lemma sz_example_run:
  "\<exists>w'. sz_run interrupts sz_example [Silent, Pushed 3] w' \<and> sz_obj w' = sz_obj sz_example\<lparr>que := [3], num_waiting := 1\<rparr> \<and>
    sz_pc w' 1 = Popping \<and> sz_status w' 1 = THREAD_RUNNABLE"
proof -
  let ?w1 = "fst (sz_pop 1 True sz_example)"
  let ?w2 = "fst (sz_push 2 3 True ?w1)"
  have w1: "?w1 = sz_example\<lparr>sz_obj := sz_obj sz_example\<lparr>waitq := [1], num_waiting := 1\<rparr>,
      sz_status := (\<lambda>_. THREAD_RUNNABLE)(1 := THREAD_STOPPED_FOREVER), sz_pc := (\<lambda>_. Running)(1 := Popping)\<rparr>"
    "snd (sz_pop 1 True sz_example) = Silent"
    by (simp_all add: sz_pop_def sz_after_pop_def szqueue_do_pop_def queue_do_pop_def sz_example_def queue_closed_p_def)
  have w2: "snd (sz_push 2 3 True ?w1) = Pushed 3" "sz_obj ?w2 = sz_obj sz_example\<lparr>que := [3], num_waiting := 1\<rparr>"
    "sz_pc ?w2 1 = Popping" "sz_status ?w2 1 = THREAD_RUNNABLE"
    unfolding w1
    by (simp_all add: sz_push_def sz_after_push_def rb_szqueue_push_def queue_do_push_def wakeup_one_def sz_example_def
        queue_closed_p_def queue_length_def Let_def)
  have "sz_step interrupts sz_example (snd (sz_pop 1 True sz_example)) ?w1"
    by (rule sz_step_pop_fn) (simp_all add: sz_example_def)
  moreover have "sz_step interrupts ?w1 (snd (sz_push 2 3 True ?w1)) ?w2"
    by (rule sz_step_push_fn) (unfold w1(1), simp_all add: sz_example_def)
  ultimately have "sz_run interrupts sz_example (([] @ [Silent]) @ [Pushed 3]) ?w2"
    unfolding w1(2) w2(1) using sz_run_step sz_run_start by blast
  then show ?thesis using w2 by auto
qed

theorem szqueue_fifo_witness:
  "\<exists>w' w''. sz_run True sz_example [Silent, Pushed 3] w' \<and> pushed_of [Silent, Pushed 3] = popped_of [Silent, Pushed 3] @ que (sz_obj w') \<and>
    que (sz_obj w') = [3] \<and>
    sz_run True sz_example [Silent, Pushed 3, Cleared] w'' \<and> replay [] [Silent, Pushed 3, Cleared] = Some (que (sz_obj w''))"
proof -
  obtain w' where w': "sz_run True sz_example [Silent, Pushed 3] w'" using sz_example_run [of True] by blast
  obtain sq st where c: "rb_szqueue_clear (sz_obj w') (sz_status w') = (sq, st)" by fastforce
  have "sz_run True sz_example ([Silent, Pushed 3] @ [Cleared]) (w'\<lparr>sz_obj := sq, sz_status := st\<rparr>)"
    by (rule sz_run_step [OF w' sz_step.clear [OF c]])
  then have w'': "sz_run True sz_example [Silent, Pushed 3, Cleared] (w'\<lparr>sz_obj := sq, sz_status := st\<rparr>)" by simp
  show ?thesis
    using w' w'' szqueue_fifo [OF sz_example_start w'] szqueue_fifo [OF sz_example_start w''] by fastforce
qed

text \<open>C20: A push adds an object only to a queue that has never been closed and only while there is
  room: whatever has happened before, after it the queue is no longer than its maximum.  So no push
  gets through to a closed queue, asleep at the close or not.\<close>

theorem szqueue_push_guarded:
  assumes "sz_run interrupts w es w'" and "sz_step interrupts w' (Pushed v) w''"
  shows "\<not> closed (sz_obj w) \<and> \<not> closed (sz_obj w') \<and> queue_length (sz_obj w'') \<le> max_len (sz_obj w'')"
  using sz_step_que [OF assms(2)] sz_run_closed [OF assms(1)] by auto

theorem szqueue_push_guarded_witness:
  "\<exists>w' w''. sz_run True sz_example [Silent] w' \<and> sz_step True w' (Pushed 3) w'' \<and> \<not> closed (sz_obj w') \<and>
    queue_length (sz_obj w'') \<le> max_len (sz_obj w'')"
proof -
  obtain w'' where "sz_run True sz_example [Silent, Pushed 3] w''" using sz_example_run [of True] by blast
  then obtain w' where "sz_run True sz_example [Silent] w'" "sz_step True w' (Pushed 3) w''"
    by (cases rule: sz_run.cases) (auto simp: append_eq_Cons_conv Cons_eq_append_conv)
  with szqueue_push_guarded [OF this] show ?thesis by blast
qed

lemma sz_push_room:
  assumes "\<not> closed (sz_obj w)" "queue_length (sz_obj w) < max_len (sz_obj w)"
  shows "snd (sz_push th v b w) = Pushed v"
  using assms
  by (auto simp: sz_push_def sz_after_push_def rb_szqueue_push_def queue_do_push_def queue_closed_p_def Let_def
      split: prod.splits)

lemma szqueue_progress_pop:
  assumes inv: "sz_inv False w" and asleep: "waitq (sz_obj w) \<noteq> []" and elems: "que (sz_obj w) \<noteq> []"
  shows "\<exists>th w'. sz_pc w th = Popping \<and> th \<notin> set (waitq (sz_obj w)) \<and> sz_step False w (Popped (hd (que (sz_obj w)))) w'"
proof -
  have "length (que (sz_obj w)) \<le> card (woken_poppers w)" using inv asleep by (simp add: sz_inv_def pop_wakeups_def)
  moreover have "0 < length (que (sz_obj w))" using elems by simp
  ultimately have "0 < card (woken_poppers w)" by linarith
  then have "woken_poppers w \<noteq> {}" by force
  then obtain th where th: "sz_pc w th = Popping" "th \<notin> set (waitq (sz_obj w))"
    by (auto simp: woken_poppers_def poppers_def)
  obtain w' e where pop: "sz_pop th True (w\<lparr>sz_obj := queue_sleep_done th (sz_obj w)\<rparr>) = (w', e)"
    by (cases "sz_pop th True (w\<lparr>sz_obj := queue_sleep_done th (sz_obj w)\<rparr>)")
  have "e = Popped (hd (que (sz_obj w)))" using sz_pop_que [OF pop] elems by (simp add: sync_simps)
  then show ?thesis using sz_step.resume_pop [OF th(1) pop] th by blast
qed

lemma szqueue_progress_push:
  assumes inv: "sz_inv False w" and asleep: "pushq (sz_obj w) \<noteq> []" and room: "queue_length (sz_obj w) < max_len (sz_obj w)"
  shows "\<exists>th v w'. sz_pc w th = Pushing v \<and> th \<notin> set (pushq (sz_obj w)) \<and> sz_step False w (Pushed v) w'"
proof -
  have "0 < card (woken_pushers w)"
    using inv asleep room by (auto simp: sz_inv_def push_wakeups_def)
  then have "woken_pushers w \<noteq> {}" by force
  then obtain th v where th: "sz_pc w th = Pushing v" "th \<notin> set (pushq (sz_obj w))"
    by (auto simp: woken_pushers_def pushers_def)
  let ?w = "w\<lparr>sz_obj := szqueue_sleep_done th (sz_obj w)\<rparr>"
  have "\<not> closed (sz_obj w)" using inv asleep by (auto simp: sz_inv_def sz_base_def)
  then have "snd (sz_push th v True ?w) = Pushed v"
    using room by (intro sz_push_room) (simp_all add: sync_simps queue_length_def)
  then have "sz_push th v True ?w = (fst (sz_push th v True ?w), Pushed v)" by (simp add: prod_eq_iff)
  from sz_step.resume_push [OF th(1) this] show ?thesis using th by blast
qed

text \<open>C21: No wakeup is lost: in every state that a system without interrupts can reach, if a thread sleeps in
  the queue's list of poppers while there are objects, then some popper has already been woken and
  its next step takes the first object; and if a thread sleeps in the list of pushers while there
  is room, some pusher has been woken and its next step puts its object in.\<close>

theorem szqueue_progress:
  assumes "sz_start gen m w" and "sz_run False w es w'"
  shows "(waitq (sz_obj w') \<noteq> [] \<and> que (sz_obj w') \<noteq> [] \<longrightarrow>
      (\<exists>th w''. sz_pc w' th = Popping \<and> th \<notin> set (waitq (sz_obj w')) \<and> sz_step False w' (Popped (hd (que (sz_obj w')))) w'')) \<and>
    (pushq (sz_obj w') \<noteq> [] \<and> queue_length (sz_obj w') < max_len (sz_obj w') \<longrightarrow>
      (\<exists>th v w''. sz_pc w' th = Pushing v \<and> th \<notin> set (pushq (sz_obj w')) \<and> sz_step False w' (Pushed v) w''))"
  using szqueue_progress_pop szqueue_progress_push sz_reachable_inv [OF assms] by blast

text \<open>The second popper goes to sleep before the first one has run: both lists matter.\<close>

lemma sz_example_two_poppers:
  "\<exists>w'. sz_run interrupts sz_example [Silent, Silent, Pushed 3] w' \<and> waitq (sz_obj w') = [2] \<and> que (sz_obj w') = [3] \<and>
    sz_pc w' = (\<lambda>_. Running)(1 := Popping, 2 := Popping)"
proof -
  let ?w1 = "fst (sz_pop 1 True sz_example)"
  let ?w2 = "fst (sz_pop 2 True ?w1)"
  let ?w3 = "fst (sz_push 3 3 True ?w2)"
  note defs = sz_pop_def sz_after_pop_def szqueue_do_pop_def queue_do_pop_def queue_closed_p_def
    sz_push_def sz_after_push_def rb_szqueue_push_def queue_do_push_def wakeup_one_def queue_length_def Let_def
  have w1: "?w1 = sz_example\<lparr>sz_obj := sz_obj sz_example\<lparr>waitq := [1], num_waiting := 1\<rparr>,
      sz_status := (\<lambda>_. THREAD_RUNNABLE)(1 := THREAD_STOPPED_FOREVER), sz_pc := (\<lambda>_. Running)(1 := Popping)\<rparr>"
    "snd (sz_pop 1 True sz_example) = Silent"
    by (simp_all add: defs sz_example_def)
  have w2: "?w2 = sz_example\<lparr>sz_obj := sz_obj sz_example\<lparr>waitq := [1, 2], num_waiting := 2\<rparr>,
      sz_status := (\<lambda>_. THREAD_RUNNABLE)(1 := THREAD_STOPPED_FOREVER, 2 := THREAD_STOPPED_FOREVER),
      sz_pc := (\<lambda>_. Running)(1 := Popping, 2 := Popping)\<rparr>"
    "snd (sz_pop 2 True ?w1) = Silent"
    unfolding w1 by (simp_all add: defs sz_example_def)
  have w3: "snd (sz_push 3 3 True ?w2) = Pushed 3" "waitq (sz_obj ?w3) = [2]" "que (sz_obj ?w3) = [3]"
      "sz_pc ?w3 = (\<lambda>_. Running)(1 := Popping, 2 := Popping)"
    unfolding w2 by (simp_all add: defs sz_example_def fun_eq_iff)
  have "sz_step interrupts sz_example (snd (sz_pop 1 True sz_example)) ?w1"
    by (rule sz_step_pop_fn) (simp_all add: sz_example_def)
  moreover have "sz_step interrupts ?w1 (snd (sz_pop 2 True ?w1)) ?w2"
    by (rule sz_step_pop_fn) (unfold w1(1), simp_all add: sz_example_def)
  moreover have "sz_step interrupts ?w2 (snd (sz_push 3 3 True ?w2)) ?w3"
    by (rule sz_step_push_fn) (unfold w2(1), simp_all add: sz_example_def)
  ultimately have "sz_run interrupts sz_example ((([] @ [Silent]) @ [Silent]) @ [Pushed 3]) ?w3"
    unfolding w1(2) w2(2) w3(1) using sz_run_step sz_run_start by blast
  then show ?thesis using w3 by auto
qed

theorem szqueue_progress_witness:
  "\<exists>w' th w''. sz_run False sz_example [Silent, Silent, Pushed 3] w' \<and> waitq (sz_obj w') = [2] \<and>
    sz_pc w' th = Popping \<and> th \<notin> {2} \<and> sz_step False w' (Popped 3) w''"
proof -
  obtain w' where w': "sz_run False sz_example [Silent, Silent, Pushed 3] w'" "waitq (sz_obj w') = [2]" "que (sz_obj w') = [3]"
    using sz_example_two_poppers [of False] by blast
  from szqueue_progress [OF sz_example_start w'(1)] w' show ?thesis by auto
qed

text \<open>C22: With interrupts a wakeup can be lost: an exception raised in the popper that a push has woken ends
  its call without handing the wakeup on, so an object stays in the queue while another thread
  sleeps waiting for one, stopped forever, and no thread has been woken for it.\<close>

theorem szqueue_interrupt_loses_wakeup:
  "\<exists>es w'. sz_run True sz_example es w' \<and> que (sz_obj w') = [3] \<and> waitq (sz_obj w') = [2] \<and> woken_poppers w' = {} \<and>
    sz_pc w' 1 = Running"
proof -
  obtain w where w: "sz_run True sz_example [Silent, Silent, Pushed 3] w" "waitq (sz_obj w) = [2]" "que (sz_obj w) = [3]"
    "sz_pc w = (\<lambda>_. Running)(1 := Popping, 2 := Popping)"
    using sz_example_two_poppers [of True] by blast
  let ?w = "w\<lparr>sz_obj := queue_sleep_done 1 (sz_obj w), sz_pc := (sz_pc w)(1 := Running),
    sz_status := (sz_status w)(1 := THREAD_RUNNABLE)\<rparr>"
  have "sz_step True w Silent ?w" by (rule sz_step.interrupt_pop) (simp_all add: w(4))
  then have "sz_run True sz_example ([Silent, Silent, Pushed 3] @ [Silent]) ?w" using w(1) sz_run_step by blast
  moreover have "woken_poppers ?w = {}" "que (sz_obj ?w) = [3]" "waitq (sz_obj ?w) = [2]" "sz_pc ?w 1 = Running"
    using w by (auto simp: woken_poppers_def poppers_def queue_sleep_done_def)
  ultimately show ?thesis by blast
qed

section \<open>Properties of the mutex\<close>

inductive lock_run :: "owners \<Rightarrow> mutex_event list \<Rightarrow> owners \<Rightarrow> bool" where
  lock_run_start: "lock_run own [] own"
| lock_run_step: "lock_run own es own' \<Longrightarrow> lock_spec own' e own'' \<Longrightarrow> lock_run own (es @ [e]) own''"

inductive_cases lock_run_snocE: "lock_run own (es @ [e]) own'"
inductive_cases acquiredE: "lock_spec own (Acquired f m) own'"

lemma mutex_run_refines:
  "mutex_run i w es w' \<Longrightarrow> mutex_inv i w \<Longrightarrow> lock_run (owners_of w) es (owners_of w')"
proof (induction rule: mutex_run.induct)
  case (mutex_run_start w)
  show ?case by (rule lock_run_start)
next
  case (mutex_run_step w es w' e w'')
  then show ?case using lock_run_step mutex_step_inv mutex_run_inv by blast
qed

lemma lock_run_append:
  "lock_run own (es @ es') own'' \<Longrightarrow> \<exists>own'. lock_run own es own' \<and> lock_run own' es' own''"
proof (induction es' arbitrary: own'' rule: rev_induct)
  case Nil
  then show ?case using lock_run_start by auto
next
  case (snoc e es')
  then obtain own2 where "lock_run own (es @ es') own2" "lock_spec own2 e own''"
    by (metis append_assoc lock_run_snocE)
  then show ?case using snoc.IH lock_run_step by blast
qed

text \<open>A lock stays with its owner until the owner's release.\<close>

lemma lock_run_keeps:
  "lock_run own es own' \<Longrightarrow> own m = Some f \<Longrightarrow> Released f m \<notin> set es \<Longrightarrow> own' m = Some f"
proof (induction rule: lock_run.induct)
  case (lock_run_step own es own' e own'')
  then have "own' m = Some f" "e \<noteq> Released f m" by auto
  then show ?case using lock_run_step(2) by (auto elim!: lock_spec.cases split: if_splits)
qed

lemma lock_run_exclusive:
  assumes "lock_run own (xs @ [Acquired f m] @ ys @ [Acquired g m] @ zs) own'"
  shows "Released f m \<in> set ys"
proof (rule ccontr)
  assume no: "Released f m \<notin> set ys"
  obtain o1 where o1: "lock_run o1 ([Acquired f m] @ ys @ [Acquired g m] @ zs) own'"
    using lock_run_append [OF assms] by blast
  obtain o2 where o2: "lock_run o1 ([] @ [Acquired f m]) o2" "lock_run o2 (ys @ [Acquired g m] @ zs) own'"
    using lock_run_append [OF o1] by auto
  obtain o3 where o3: "lock_run o2 ys o3" "lock_run o3 ([Acquired g m] @ zs) own'" using lock_run_append [OF o2(2)] by blast
  obtain o4 where o4: "lock_run o3 ([] @ [Acquired g m]) o4" using lock_run_append [OF o3(2)] by auto
  have "o2 m = Some f" using o2(1) by (rule lock_run_snocE) (erule acquiredE, simp)
  then have "o3 m = Some f" using lock_run_keeps [OF o3(1)] no by blast
  moreover have "o3 m = None"
  proof (rule lock_run_snocE [OF o4])
    fix own assume "lock_run o3 [] own" "lock_spec own (Acquired g m) o4"
    then show ?thesis by (auto elim!: acquiredE elim: lock_run.cases)
  qed
  ultimately show False by simp
qed

text \<open>C23: A mutex is a lock: every run of try_lock, lock, lock_uninterruptible, unlock, wakeups (intended
  and spurious), interrupts and thread exits, by any fibers in any interleaving, is a run of the
  abstract lock whose owner is the mutex's fiber field.  In particular two fibers never hold it at
  the same time: between two acquisitions the first owner has released it.\<close>

theorem mutex_mutual_exclusion:
  assumes "mutex_start w" and "mutex_run interrupts w es w'"
  shows "lock_run (\<lambda>_. None) es (owners_of w') \<and>
    (\<forall>xs f m ys g zs. es = xs @ [Acquired f m] @ ys @ [Acquired g m] @ zs \<longrightarrow> Released f m \<in> set ys)"
proof -
  have "owners_of w = (\<lambda>_. None)" using assms(1) by (simp add: owners_of_def mutex_start_def)
  then have "lock_run (\<lambda>_. None) es (owners_of w')"
    using mutex_run_refines [OF assms(2) mutex_start_inv [OF assms(1)]] by simp
  then show ?thesis using lock_run_exclusive by blast
qed

text \<open>Three fibers, each of a thread of its own, and no mutex locked.\<close>

definition mutex_example :: mutex_world where
  "mutex_example = \<lparr>mutexes = (\<lambda>_. \<lparr>mfiber = None, mwaitq = []\<rparr>), keeping_mutexes = (\<lambda>_. []),
    mstatus = (\<lambda>_. THREAD_RUNNABLE), mpc = (\<lambda>_. Outside), fiber_threadptr = (\<lambda>f. f), thread_ignore_deadlock = False\<rparr>"

lemma mutex_example_start: "mutex_start mutex_example"
  by (simp add: mutex_start_def mutex_example_def)

lemma mutex_step_lock_fn:
  "thread_runs w f \<Longrightarrow> mutex_step i w (lock_event f m (snd (do_mutex_lock f m t b w))) (fst (do_mutex_lock f m t b w))"
  by (rule mutex_step.lock) simp_all

lemma mutex_step_unlock_fn:
  "thread_runs w f \<Longrightarrow> snd (rb_mutex_unlock f m w) = Locked \<Longrightarrow> mutex_step i w (Released f m) (fst (rb_mutex_unlock f m w))"
  using mutex_step.unlock [of w f m "fst (rb_mutex_unlock f m w)" Locked i] by (simp add: prod_eq_iff)

lemma mutex_step_wake_fn:
  "mpc w f = Sleeping m b \<Longrightarrow> mutex_step i w (lock_event f m (snd (mutex_lock_woken f m b w))) (fst (mutex_lock_woken f m b w))"
  by (rule mutex_step.wake) simp_all

lemma mutex_run4:
  "mutex_step i w0 e1 w1 \<Longrightarrow> mutex_step i w1 e2 w2 \<Longrightarrow> mutex_step i w2 e3 w3 \<Longrightarrow> mutex_step i w3 e4 w4 \<Longrightarrow>
    mutex_run i w0 [e1, e2, e3, e4] w4"
  using mutex_run_step [OF mutex_run_step [OF mutex_run_step [OF mutex_run_step [OF mutex_run_start]]],
      of i w0 e1 w1 e2 w2 e3 w3 e4 w4] by simp

text \<open>Fiber 1 locks, 2 and 3 go to sleep, 1 unlocks.\<close>

lemma mutex_example_run:
  "\<exists>w'. mutex_run i mutex_example [Acquired 1 0, Tau, Tau, Released 1 0] w' \<and>
    mutexes w' 0 = \<lparr>mfiber = None, mwaitq = [3]\<rparr> \<and> mpc w' = (\<lambda>_. Outside)(2 := Sleeping 0 b, 3 := Sleeping 0 b) \<and>
    fiber_threadptr w' = (\<lambda>f. f)"
proof -
  note defs = do_mutex_lock_def rb_mutex_trylock_def set_fiber_def mutex_set_def mutex_locked_def thread_mutex_insert_def
    mutex_owned_p_def mutex_lock_loop_def set_pc_def rb_mutex_unlock_def rb_mutex_unlock_th_def thread_mutex_remove_def Let_def
  let ?w1 = "fst (do_mutex_lock 1 0 False b mutex_example)"
  let ?w2 = "fst (do_mutex_lock 2 0 False b ?w1)"
  let ?w3 = "fst (do_mutex_lock 3 0 False b ?w2)"
  let ?w4 = "fst (rb_mutex_unlock 1 0 ?w3)"
  have w1: "?w1 = mutex_example\<lparr>mutexes := (\<lambda>_. \<lparr>mfiber = None, mwaitq = []\<rparr>)(0 := \<lparr>mfiber = Some 1, mwaitq = []\<rparr>),
      keeping_mutexes := (\<lambda>_. [])(1 := [0])\<rparr>" "snd (do_mutex_lock 1 0 False b mutex_example) = Locked"
    by (simp_all add: defs mutex_example_def)
  have w2: "?w2 = ?w1\<lparr>mutexes := (mutexes ?w1)(0 := \<lparr>mfiber = Some 1, mwaitq = [2]\<rparr>),
      mstatus := (mstatus ?w1)(2 := THREAD_STOPPED_FOREVER), mpc := (mpc ?w1)(2 := Sleeping 0 b)\<rparr>"
    "snd (do_mutex_lock 2 0 False b ?w1) = Asleep"
    unfolding w1 by (simp_all add: defs mutex_example_def)
  have w3: "?w3 = ?w2\<lparr>mutexes := (mutexes ?w2)(0 := \<lparr>mfiber = Some 1, mwaitq = [2, 3]\<rparr>),
      mstatus := (mstatus ?w2)(3 := THREAD_STOPPED_FOREVER), mpc := (mpc ?w2)(3 := Sleeping 0 b)\<rparr>"
    "snd (do_mutex_lock 3 0 False b ?w2) = Asleep"
    unfolding w2 w1 by (simp_all add: defs mutex_example_def)
  have w4: "snd (rb_mutex_unlock 1 0 ?w3) = Locked" "mutexes ?w4 0 = \<lparr>mfiber = None, mwaitq = [3]\<rparr>"
    "mpc ?w4 = (\<lambda>_. Outside)(2 := Sleeping 0 b, 3 := Sleeping 0 b)" "fiber_threadptr ?w4 = (\<lambda>f. f)"
    unfolding w3 w2 w1 by (simp_all add: defs mutex_example_def)
  have "mutex_step i mutex_example (lock_event 1 0 (snd (do_mutex_lock 1 0 False b mutex_example))) ?w1"
    by (rule mutex_step_lock_fn) (simp add: thread_runs_def mutex_example_def)
  moreover have "mutex_step i ?w1 (lock_event 2 0 (snd (do_mutex_lock 2 0 False b ?w1))) ?w2"
    by (rule mutex_step_lock_fn) (unfold w1(1), simp add: thread_runs_def mutex_example_def)
  moreover have "mutex_step i ?w2 (lock_event 3 0 (snd (do_mutex_lock 3 0 False b ?w2))) ?w3"
    by (rule mutex_step_lock_fn) (unfold w2(1), unfold w1(1), simp add: thread_runs_def mutex_example_def)
  moreover have "mutex_step i ?w3 (Released 1 0) ?w4"
    by (rule mutex_step_unlock_fn [OF _ w4(1)]) (unfold w3(1), unfold w2(1), unfold w1(1), simp add: thread_runs_def mutex_example_def)
  ultimately have "mutex_run i mutex_example [Acquired 1 0, Tau, Tau, Released 1 0] ?w4"
    unfolding w1(2) w2(2) w3(2) lock_event_def by (intro mutex_run4) simp_all
  then show ?thesis using w4(2-) by auto
qed

theorem mutex_mutual_exclusion_witness:
  "\<exists>w'. mutex_run True mutex_example [Acquired 1 0, Tau, Tau, Released 1 0] w' \<and>
    lock_run (\<lambda>_. None) [Acquired 1 0, Tau, Tau, Released 1 0] (owners_of w')"
  using mutex_mutual_exclusion [OF mutex_example_start] mutex_example_run [of True True] by blast

text \<open>C24: The bookkeeping of a mutex holds in every reachable state, interrupts or not: the list of mutexes
  a thread keeps holds exactly, and once each, those its fibers own; every waiter in a mutex's list is
  asleep in a lock call on it, once, and does not own it; and no call of lock or unlock reaches an
  rb_bug of the code (a waiter's thread is never found stopped or killed, and a lock call never
  ends without the mutex).\<close>

theorem mutex_bookkeeping:
  assumes "mutex_start w" and "mutex_run interrupts w es w'"
  shows "(\<forall>th. distinct (keeping_mutexes w' th) \<and> (\<forall>m. m \<in> set (keeping_mutexes w' th) \<longleftrightarrow>
        (\<exists>f. mfiber (mutexes w' m) = Some f \<and> fiber_threadptr w' f = th))) \<and>
    (\<forall>m. distinct (mwaitq (mutexes w' m)) \<and>
      (\<forall>f \<in> set (mwaitq (mutexes w' m)). (\<exists>b. mpc w' f = Sleeping m b) \<and> mfiber (mutexes w' m) \<noteq> Some f)) \<and>
    (\<forall>f m t b. thread_runs w' f \<longrightarrow> snd (do_mutex_lock f m t b w') \<noteq> RbBug \<and> snd (rb_mutex_unlock f m w') \<noteq> RbBug) \<and>
    (\<forall>f m b. mpc w' f = Sleeping m b \<longrightarrow> snd (mutex_lock_woken f m b w') \<noteq> RbBug) \<and>
    (\<forall>f m. mpc w' f = CheckingInts m \<longrightarrow> snd (mutex_lock_checked f m w') \<noteq> RbBug)"
proof -
  have base: "mutex_base None w'"
    using mutex_run_inv [OF assms(2) mutex_start_inv [OF assms(1)]] by (simp add: mutex_inv_def)
  note b = mutex_baseD [OF base]
  have "\<exists>b. mpc w' f = Sleeping m b" "mfiber (mutexes w' m) \<noteq> Some f" if "f \<in> set (mwaitq (mutexes w' m))" for f m
    using b(2) [OF that] b(3) [of f m] by auto
  moreover have "snd (do_mutex_lock f m t b w') \<noteq> RbBug \<and> snd (rb_mutex_unlock f m w') \<noteq> RbBug" if "thread_runs w' f" for f m t b
    using that mutex_lock_ok [OF base, of f m t b] mutex_unlock_ok [OF base, of f m]
    by (metis prod.collapse thread_runs_def)
  moreover have "snd (mutex_lock_woken f m b w') \<noteq> RbBug" if "mpc w' f = Sleeping m b" for f m b
    using mutex_wake_ok [OF base that] by (metis prod.collapse)
  moreover have "snd (mutex_lock_checked f m w') \<noteq> RbBug" if "mpc w' f = CheckingInts m" for f m
    using mutex_checked_ok [OF base that] by (metis prod.collapse)
  ultimately show ?thesis using b(1,4,5) by simp
qed

theorem mutex_bookkeeping_witness:
  "\<exists>w'. mutex_run True mutex_example [Acquired 1 0, Tau, Tau, Released 1 0] w' \<and> distinct (keeping_mutexes w' 1) \<and>
    (\<exists>b. mpc w' 3 = Sleeping 0 b)"
proof -
  obtain w' where w': "mutex_run True mutex_example [Acquired 1 0, Tau, Tau, Released 1 0] w'"
    "mutexes w' 0 = \<lparr>mfiber = None, mwaitq = [3]\<rparr>"
    using mutex_example_run [of True True] by blast
  from mutex_bookkeeping [OF mutex_example_start w'(1)] have "distinct (keeping_mutexes w' 1)"
    "\<forall>f \<in> set (mwaitq (mutexes w' 0)). \<exists>b. mpc w' f = Sleeping 0 b" by blast+
  then show ?thesis using w' by auto
qed

text \<open>A fiber on its way to a free mutex gets it in at most two of its own steps.\<close>

lemma mutex_checked_gets:
  assumes "mpc w f = CheckingInts m" "mfiber (mutexes w m) = None"
  shows "\<exists>w'. mutex_step i w (Acquired f m) w'"
proof -
  have "snd (mutex_lock_checked f m w) = Locked"
    using assms by (simp add: mutex_lock_checked_def mutex_lock_loop_def set_fiber_def sync_simps)
  then show ?thesis
    using mutex_step.ints_checked [OF assms(1), of "fst (mutex_lock_checked f m w)" Locked i]
    by (auto simp: lock_event_def prod_eq_iff)
qed

lemma on_way_gets:
  assumes way: "on_way w f m" and free: "mfiber (mutexes w m) = None"
  shows "\<exists>es w'. mutex_run i w (es @ [Acquired f m]) w'"
proof (cases "mpc w f = CheckingInts m")
  case True
  then obtain w' where "mutex_step i w (Acquired f m) w'" using mutex_checked_gets free by blast
  then show ?thesis using mutex_run_step mutex_run_start by blast
next
  case False
  then obtain b where b: "mpc w f = Sleeping m b" using way by (auto simp: on_way_def)
  let ?w = "fst (mutex_lock_woken f m b w)"
  have step: "mutex_step i w (lock_event f m (snd (mutex_lock_woken f m b w))) ?w" by (rule mutex_step_wake_fn) (rule b)
  show ?thesis
  proof (cases b)
    case True
    then have "snd (mutex_lock_woken f m b w) = Asleep" "mpc ?w f = CheckingInts m" "mfiber (mutexes ?w m) = None"
      using free by (simp_all add: mutex_lock_woken_eq Let_def mutex_woken_owner set_fiber_def sync_simps)
    with step obtain w' where "mutex_step i w Tau ?w" "mutex_step i ?w (Acquired f m) w'"
      using mutex_checked_gets by (fastforce simp: lock_event_def)
    then have "mutex_run i w (([] @ [Tau]) @ [Acquired f m]) w'" using mutex_run_step mutex_run_start by blast
    then show ?thesis by blast
  next
    case False
    then have "snd (mutex_lock_woken f m b w) = Locked"
      using free by (simp add: mutex_lock_woken_eq mutex_lock_loop_def mutex_woken_owner)
    with step have "mutex_run i w ([] @ [Acquired f m]) ?w"
      using mutex_run_step [OF mutex_run_start] by (simp add: lock_event_def)
    then show ?thesis by blast
  qed
qed

text \<open>C25: No wakeup of a mutex is lost: in every state that a system without interrupts can reach, if a
  mutex is free while fibers wait for it in its list, then some fiber inside a lock call on it has
  been taken out of the list, and running that fiber alone ends with it holding the mutex.\<close>

theorem mutex_progress:
  assumes "mutex_start w" and "mutex_run False w es w'"
    and "mfiber (mutexes w' m) = None" and "mwaitq (mutexes w' m) \<noteq> []"
  shows "\<exists>f. f \<notin> set (mwaitq (mutexes w' m)) \<and> pc_on (mpc w' f) = Some m \<and>
    (\<exists>es' w''. mutex_run False w' (es' @ [Acquired f m]) w'')"
proof -
  have inv: "mutex_inv False w'" using mutex_run_inv [OF assms(2) mutex_start_inv [OF assms(1)]] .
  then obtain f where f: "on_way w' f m" using assms(3,4) by (auto simp: mutex_inv_def no_lost_wakeup_def)
  moreover have "f \<notin> set (mwaitq (mutexes w' m))"
    using f inv mutex_baseD(2) [of None w' f m] by (auto simp: on_way_def mutex_inv_def)
  ultimately show ?thesis using on_way_gets [OF f assms(3)] by (auto simp: on_way_def)
qed

theorem mutex_progress_witness:
  "\<exists>w'. mutex_run False mutex_example [Acquired 1 0, Tau, Tau, Released 1 0] w' \<and> mwaitq (mutexes w' 0) = [3] \<and>
    (\<exists>f. f \<noteq> 3 \<and> (\<exists>es' w''. mutex_run False w' (es' @ [Acquired f 0]) w''))"
proof -
  obtain w' where w': "mutex_run False mutex_example [Acquired 1 0, Tau, Tau, Released 1 0] w'"
    "mutexes w' 0 = \<lparr>mfiber = None, mwaitq = [3]\<rparr>"
    using mutex_example_run [of False True] by blast
  from mutex_progress [OF mutex_example_start w'(1), of 0] w'(2)
  have "\<exists>f. f \<noteq> 3 \<and> (\<exists>es' w''. mutex_run False w' (es' @ [Acquired f 0]) w'')" by auto
  then show ?thesis using w' by (intro exI [of _ w']) simp
qed

text \<open>
  With interrupts it can be: the fiber that the unlock has woken gives the mutex back before it looks
  at its interrupts, and an exception there ends its call; the mutex stays free, the other fiber sleeps.
\<close>

lemma mutex_interrupt_loses_wakeup:
  "\<exists>es w'. mutex_run True mutex_example es w' \<and> mutexes w' 0 = \<lparr>mfiber = None, mwaitq = [3]\<rparr> \<and>
    mpc w' = (\<lambda>_. Outside)(3 := Sleeping 0 True) \<and> (\<nexists>f. on_way w' f 0)"
proof -
  obtain w where w: "mutex_run True mutex_example [Acquired 1 0, Tau, Tau, Released 1 0] w"
    "mutexes w 0 = \<lparr>mfiber = None, mwaitq = [3]\<rparr>" "mpc w = (\<lambda>_. Outside)(2 := Sleeping 0 True, 3 := Sleeping 0 True)"
    using mutex_example_run [of True True] by blast
  let ?w1 = "fst (mutex_lock_woken 2 0 True w)"
  let ?w2 = "set_pc 2 Outside ?w1"
  have "mpc w 2 = Sleeping 0 True" by (simp add: w(3))
  then have "mutex_step True w (lock_event 2 0 (snd (mutex_lock_woken 2 0 True w))) ?w1" by (rule mutex_step_wake_fn)
  moreover have w1: "snd (mutex_lock_woken 2 0 True w) = Asleep" "mpc ?w1 = (\<lambda>_. Outside)(2 := CheckingInts 0, 3 := Sleeping 0 True)"
    "mutexes ?w1 0 = \<lparr>mfiber = None, mwaitq = [3]\<rparr>"
    by (simp_all add: mutex_lock_woken_def Let_def w(2,3) set_pc_def mutex_set_def fun_eq_iff)
  moreover have "mutex_step True ?w1 Tau ?w2" by (rule mutex_step.ints_raise) (simp_all add: w1(2))
  ultimately have "mutex_run True mutex_example (([Acquired 1 0, Tau, Tau, Released 1 0] @ [Tau]) @ [Tau]) ?w2"
    using w(1) by (intro mutex_run_step) (simp_all add: lock_event_def)
  moreover have "mpc ?w2 = (\<lambda>_. Outside)(3 := Sleeping 0 True)" "mutexes ?w2 0 = \<lparr>mfiber = None, mwaitq = [3]\<rparr>"
    by (auto simp: w1(2,3) set_pc_def)
  moreover have "\<not> on_way ?w2 f 0" for f by (auto simp: on_way_def w1(2,3) set_pc_def)
  ultimately show ?thesis by blast
qed

end
