(* ===== verification/Bary.thy ===== *)
theory Bary
  imports Ruby_Prelude Bits
begin

text \<open>
  The digit arrays of bignum.c: their value, the macros on digits, comparison, shifts by less than a
  digit, complement, addition and subtraction.  A \<open>BDIGIT\<close> is an unsigned int of 32 bits, a
  \<open>BDIGIT_DBL\<close> an unsigned and a \<open>BDIGIT_DBL_SIGNED\<close> a signed long long, both 64-bit words here,
  read by \<open>uint\<close> and \<open>sint\<close>.  An array with its length is a list, least significant digit first; a
  function that fills the array \<open>zds\<close> of \<open>zn\<close> digits returns it.  The loops read the operands at
  an index before they write the result there, so the calls of the code with \<open>zds == xds\<close> compute
  the same.
\<close>

section \<open>Digits\<close>

type_synonym BDIGIT = u32
type_synonym BDIGIT_DBL = u64
type_synonym BDIGIT_DBL_SIGNED = "64 word"

definition BDIGMAX :: BDIGIT where "BDIGMAX = 0xffffffff"

definition BIGUP :: "BDIGIT_DBL \<Rightarrow> BDIGIT_DBL" where "BIGUP x = push_bit 32 x"

definition BIGDN :: "BDIGIT_DBL \<Rightarrow> BDIGIT_DBL" where "BIGDN x = drop_bit 32 x"

definition BIGDN_S :: "BDIGIT_DBL_SIGNED \<Rightarrow> BDIGIT_DBL_SIGNED" where "BIGDN_S x = signed_drop_bit 32 x"

definition BIGLO :: "64 word \<Rightarrow> BDIGIT" where "BIGLO x = ucast (x AND ucast BDIGMAX)"

definition POW2_P :: "BDIGIT \<Rightarrow> bool" where "POW2_P x \<longleftrightarrow> x AND (x - 1) = 0"

definition BDIGIT_MSB :: "BDIGIT \<Rightarrow> bool" where "BDIGIT_MSB d \<longleftrightarrow> d AND 0x80000000 \<noteq> 0"

lemma BIGLO_ucast: "BIGLO x = ucast x"
proof (rule bit_word_eqI)
  fix n assume "n < LENGTH(32)"
  moreover have "(0xffffffff :: u32) = - 1" by simp
  ultimately have "bit (0xffffffff :: u32) n" using bit_minus_1_iff by (metis possible_bit_word)
  then show "bit (BIGLO x) n \<longleftrightarrow> bit (ucast x :: u32) n" by (simp add: BIGLO_def BDIGMAX_def bit_simps)
qed

lemma uint_BIGLO [bary_simps]: "uint (BIGLO x) = uint x mod 4294967296"
  by (simp add: BIGLO_ucast unsigned_ucast_eq take_bit_eq_mod)

lemma uint_BIGLO_sint: "uint (BIGLO x) = sint x mod 4294967296"
proof -
  have "uint (BIGLO x) = take_bit 32 (uint x)" by (simp add: uint_BIGLO take_bit_eq_mod)
  also have "uint x = take_bit 64 (sint x)" by (simp add: uint_sint)
  finally show ?thesis by (simp add: take_bit_take_bit) (simp add: take_bit_eq_mod)
qed

lemma uint_BIGDN [bary_simps]: "uint (BIGDN x) = uint x div 4294967296"
  by (simp add: BIGDN_def drop_bit_eq_div uint_div)

lemma sint_BIGDN_S [bary_simps]: "sint (BIGDN_S x) = sint x div 4294967296"
  by (simp add: BIGDN_S_def sint_signed_drop_bit_eq drop_bit_eq_div)

lemma uint_digit: "0 \<le> uint (d :: BDIGIT)" "uint (d :: BDIGIT) < 4294967296" "uint (d :: BDIGIT) \<le> 4294967295"
  using uint_bounded [of d] by simp_all

lemma uint_dbl [simp]: "uint (ucast (d :: BDIGIT) :: 64 word) = uint d"
  by (simp add: unsigned_ucast_eq take_bit_int_eq_self_iff) (use uint_digit [of d] in linarith)

lemma sint_of_uint: "uint (x :: 64 word) < 9223372036854775808 \<Longrightarrow> sint x = uint x"
  by (simp add: sint_uint signed_take_bit_int_eq_self_iff) (use uint_ge_0 [of x] in linarith)

lemma sint_dbl [simp]: "sint (ucast (d :: BDIGIT) :: 64 word) = uint d"
proof -
  have "uint (ucast d :: 64 word) < 9223372036854775808" unfolding uint_dbl using uint_digit(2) [of d] by linarith
  then show ?thesis using sint_of_uint uint_dbl by metis
qed

text \<open>Sums, differences and products that fit are exact.\<close>

lemma uint_add_fits: "uint a + uint b < 18446744073709551616 \<Longrightarrow> uint ((a :: 64 word) + b) = uint a + uint b"
  by (subst uint_add_lem [THEN iffD1]) simp_all

lemma uint_mult_fits: "uint a * uint b < 18446744073709551616 \<Longrightarrow> uint ((a :: 64 word) * b) = uint a * uint b"
  by (subst uint_mult_lem [THEN iffD1]) simp_all

lemma sint_wrap: "sint (word_of_int k :: 64 word) = k" if "- 9223372036854775808 \<le> k" "k < 9223372036854775808"
  using that by (simp add: signed_take_bit_int_eq_self_iff sint_sbintrunc')

lemma sint_add_fits:
  assumes "- 9223372036854775808 \<le> sint a + sint b" "sint a + sint b < 9223372036854775808"
  shows "sint ((a :: 64 word) + b) = sint a + sint b"
  using sint_wrap [OF assms] by simp

lemma sint_sub_fits:
  assumes "- 9223372036854775808 \<le> sint a - sint b" "sint a - sint b < 9223372036854775808"
  shows "sint ((a :: 64 word) - b) = sint a - sint b"
  using sint_wrap [OF assms] by simp

section \<open>The value of an array\<close>

fun bval :: "BDIGIT list \<Rightarrow> int" where
  "bval [] = 0"
| "bval (d # ds) = uint d + 4294967296 * bval ds"

lemma bval_nonneg [simp]: "0 \<le> bval ds"
  by (induction ds) simp_all

lemma bval_append [bary_simps]: "bval (xs @ ys) = bval xs + 4294967296 ^ length xs * bval ys"
  by (induction xs) (simp_all add: algebra_simps)

lemma bval_replicate_0 [simp]: "bval (replicate n 0) = 0"
  by (induction n) simp_all

lemma bval_replicate_max: "bval (replicate n (- 1)) = 4294967296 ^ n - 1"
  by (induction n) (simp_all add: unsigned_minus_1_eq_mask mask_eq_exp_minus_1)

lemma bval_less: "bval ds < 4294967296 ^ length ds"
proof (induction ds)
  case (Cons d ds)
  then have "4294967296 * (bval ds + 1) \<le> 4294967296 * 4294967296 ^ length ds" by simp
  then show ?case using uint_digit(2) [of d] by (simp add: algebra_simps)
qed simp

lemma bval_take_drop: "n \<le> length ds \<Longrightarrow> bval ds = bval (take n ds) + 4294967296 ^ n * bval (drop n ds)"
  using bval_append [of "take n ds" "drop n ds"] by (simp add: min_def)

lemma bval_eq_0_iff: "bval ds = 0 \<longleftrightarrow> (\<forall>d \<in> set ds. d = 0)"
proof (induction ds)
  case (Cons d ds)
  have "bval (d # ds) = 0 \<longleftrightarrow> uint d = 0 \<and> bval ds = 0" 
    by (simp only: bval.simps) (use bval_nonneg [of ds] uint_digit(1) [of d] in linarith)
  then show ?case using Cons by (simp add: uint_0_iff)
qed simp

lemma bval_inject:
  "length xs = length ys \<Longrightarrow> bval xs = bval ys \<longleftrightarrow> xs = ys"
proof (induction xs ys rule: list_induct2)
  case (Cons x xs y ys)
  have "bval (x # xs) = bval (y # ys) \<longleftrightarrow> uint x = uint y \<and> bval xs = bval ys"
  proof
    assume eq: "bval (x # xs) = bval (y # ys)"
    then have "bval (x # xs) mod 4294967296 = bval (y # ys) mod 4294967296" by simp
    then have "uint x = uint y" using uint_digit [of x] uint_digit [of y] by (simp del: uint_digit)
    then show "uint x = uint y \<and> bval xs = bval ys" using eq by simp
  qed simp
  then show ?case using Cons by (simp add: word_uint_eq_iff)
qed simp

text \<open>Digits of weight \<open>P\<close> above a remainder compare first.\<close>

lemma weighted_less:
  assumes "0 \<le> x" "x < P" "0 \<le> y" "a + 1 \<le> (b :: int)"
  shows "x + P * a < y + P * b"
proof -
  have "P * (a + 1) \<le> P * b" using assms by (intro mult_left_mono) simp_all
  then show ?thesis using assms by (simp add: algebra_simps)
qed

section \<open>Truncation and comparison\<close>

fun BARY_TRUNC :: "BDIGIT list \<Rightarrow> nat \<Rightarrow> nat" where
  "BARY_TRUNC ds 0 = 0"
| "BARY_TRUNC ds (Suc n) = (if ds ! n = 0 then BARY_TRUNC ds n else Suc n)"

text \<open>The digits from the top down to the first difference.\<close>

fun bary_cmp_loop :: "BDIGIT list \<Rightarrow> BDIGIT list \<Rightarrow> nat \<Rightarrow> int" where
  "bary_cmp_loop xds yds 0 = 0"
| "bary_cmp_loop xds yds (Suc n) =
    (if xds ! n \<noteq> yds ! n then (if xds ! n < yds ! n then - 1 else 1) else bary_cmp_loop xds yds n)"

definition bary_cmp :: "BDIGIT list \<Rightarrow> BDIGIT list \<Rightarrow> int" where
  "bary_cmp xds yds =
    (let xn = BARY_TRUNC xds (length xds); yn = BARY_TRUNC yds (length yds)
     in if xn < yn then - 1 else if xn > yn then 1 else bary_cmp_loop xds yds xn)"

fun bary_zero_p :: "BDIGIT list \<Rightarrow> nat \<Rightarrow> bool" where
  "bary_zero_p xds 0 = True"
| "bary_zero_p xds (Suc xn) = (if xds ! xn \<noteq> 0 then False else bary_zero_p xds xn)"

lemma bary_zero_p_iff: "n \<le> length xds \<Longrightarrow> bary_zero_p xds n \<longleftrightarrow> bval (take n xds) = 0"
  by (induction n) (auto simp: bval_eq_0_iff take_Suc_conv_app_nth)

lemma BARY_TRUNC_spec:
  assumes "n \<le> length ds"
  shows "BARY_TRUNC ds n \<le> n" "bval (take (BARY_TRUNC ds n) ds) = bval (take n ds)"
    "0 < BARY_TRUNC ds n \<Longrightarrow> ds ! (BARY_TRUNC ds n - 1) \<noteq> 0"
proof -
  have "BARY_TRUNC ds n \<le> n \<and> bval (take (BARY_TRUNC ds n) ds) = bval (take n ds) \<and>
    (0 < BARY_TRUNC ds n \<longrightarrow> ds ! (BARY_TRUNC ds n - 1) \<noteq> 0)"
    using assms by (induction n) (auto simp: take_Suc_conv_app_nth bval_append)
  then show "BARY_TRUNC ds n \<le> n" "bval (take (BARY_TRUNC ds n) ds) = bval (take n ds)"
    "0 < BARY_TRUNC ds n \<Longrightarrow> ds ! (BARY_TRUNC ds n - 1) \<noteq> 0" by blast+
qed

text \<open>A leading digit that is not zero decides the size.\<close>

lemma bval_take_ge:
  assumes "0 < n" "n \<le> length ds" "ds ! (n - 1) \<noteq> 0"
  shows "4294967296 ^ (n - 1) \<le> bval (take n ds)"
proof -
  have "take n ds = take (n - 1) ds @ [ds ! (n - 1)]"
    using assms(1,2) take_Suc_conv_app_nth [of "n - 1" ds] by simp
  moreover have "1 \<le> uint (ds ! (n - 1))"
    using assms(3) uint_0_iff [of "ds ! (n - 1)"] uint_digit(1) [of "ds ! (n - 1)"] by linarith
  moreover have "4294967296 ^ (n - 1) * 1 \<le> 4294967296 ^ (n - 1) * uint (ds ! (n - 1))"
    using calculation by (intro mult_left_mono) simp_all
  moreover have "bval (take n ds) = bval (take (n - 1) ds) + 4294967296 ^ (n - 1) * uint (ds ! (n - 1))"
    using calculation(1) assms(1,2) by (simp add: bval_append)
  ultimately show ?thesis
    using bval_nonneg [of "take (n - 1) ds"] by linarith
qed

lemma bval_take_less: "n \<le> length ds \<Longrightarrow> bval (take n ds) < 4294967296 ^ n"
  using bval_less [of "take n ds"] by (simp add: min_absorb2)

lemma bary_cmp_loop_spec:
  assumes "n \<le> length xds" "n \<le> length yds"
  shows "bary_cmp_loop xds yds n = sgn (bval (take n xds) - bval (take n yds))"
  using assms
proof (induction n)
  case (Suc n)
  let ?x = "bval (take n xds)" and ?y = "bval (take n yds)"
  have b: "?x < 4294967296 ^ n" "?y < 4294967296 ^ n" "0 \<le> ?x" "0 \<le> ?y" using Suc bval_take_less by simp_all
  have split: "bval (take (Suc n) xds) = ?x + 4294967296 ^ n * uint (xds ! n)"
    "bval (take (Suc n) yds) = ?y + 4294967296 ^ n * uint (yds ! n)"
    using Suc by (simp_all add: take_Suc_conv_app_nth bval_append)
  show ?case
  proof (cases "xds ! n = yds ! n")
    case True
    then show ?thesis using Suc split by simp
  next
    case False
    then consider "uint (xds ! n) + 1 \<le> uint (yds ! n)" "xds ! n < yds ! n"
      | "uint (yds ! n) + 1 \<le> uint (xds ! n)" "\<not> xds ! n < yds ! n"
      by (auto simp: word_less_def) (smt (verit) word_uint_eq_iff)
    then show ?thesis
    proof cases
      case 1
      then show ?thesis using False weighted_less [OF b(3,1,4) 1(1)] by (simp add: split)
    next
      case 2
      then show ?thesis using False weighted_less [OF b(4,2,3) 2(1)] by (simp add: split)
    qed
  qed
qed simp

lemma bary_cmp_spec: "bary_cmp xds yds = sgn (bval xds - bval yds)"
proof -
  define xn yn where "xn = BARY_TRUNC xds (length xds)" and "yn = BARY_TRUNC yds (length yds)"
  note x = BARY_TRUNC_spec [of "length xds" xds, folded xn_def, simplified]
    and y = BARY_TRUNC_spec [of "length yds" yds, folded yn_def, simplified]
  have mono: "k \<le> m \<Longrightarrow> (4294967296 :: int) ^ k \<le> 4294967296 ^ m" for k m by (rule power_increasing) simp_all
  have less: "bval as < bval bs"
    if "an < bn" "bval (take an as) = bval as" "an \<le> length as" "bval (take bn bs) = bval bs" "bn \<le> length bs"
      "0 < bn \<Longrightarrow> bs ! (bn - 1) \<noteq> 0" for as bs an bn
  proof -
    have "bval as < 4294967296 ^ an" using bval_take_less [OF that(3)] that(2) by simp
    also have "\<dots> \<le> 4294967296 ^ (bn - 1)" using mono that(1) by simp
    also have "\<dots> \<le> bval bs" using bval_take_ge [of bn bs] that by simp
    finally show ?thesis .
  qed
  consider "xn < yn" | "yn < xn" | "xn = yn" by linarith
  then show ?thesis
  proof cases
    case 1
    then have "bval xds < bval yds" using less [of xn yn xds yds] x y by simp
    then show ?thesis using 1 by (simp add: bary_cmp_def xn_def [symmetric] yn_def [symmetric])
  next
    case 2
    then have "bval yds < bval xds" using less [of yn xn yds xds] x y by simp
    then show ?thesis using 2 by (simp add: bary_cmp_def xn_def [symmetric] yn_def [symmetric])
  next
    case 3
    then show ?thesis
      using bary_cmp_loop_spec [of xn xds yds] x(1,2) y(1,2)
      by (simp add: bary_cmp_def xn_def [symmetric] yn_def [symmetric])
  qed
qed

section \<open>Shifts by less than a digit\<close>

fun small_lshift_loop :: "BDIGIT list \<Rightarrow> nat \<Rightarrow> BDIGIT_DBL \<Rightarrow> BDIGIT list \<times> BDIGIT_DBL" where
  "small_lshift_loop [] shift num = ([], num)"
| "small_lshift_loop (x # xds) shift num =
    (let num = num OR push_bit shift (ucast x);
         (zds, num') = small_lshift_loop xds shift (BIGDN num)
     in (BIGLO num # zds, num'))"

definition bary_small_lshift :: "BDIGIT list \<Rightarrow> nat \<Rightarrow> BDIGIT list \<times> BDIGIT" where
  "bary_small_lshift xds shift = (let (zds, num) = small_lshift_loop xds shift 0 in (zds, BIGLO num))"

text \<open>From the most significant digit down.\<close>

fun small_rshift_loop :: "BDIGIT list \<Rightarrow> nat \<Rightarrow> BDIGIT_DBL \<Rightarrow> BDIGIT list" where
  "small_rshift_loop [] shift num = []"
| "small_rshift_loop (x # xds) shift num =
    BIGLO (drop_bit shift (num OR ucast x)) # small_rshift_loop xds shift (BIGUP (ucast x))"

definition bary_small_rshift :: "BDIGIT list \<Rightarrow> nat \<Rightarrow> BDIGIT \<Rightarrow> BDIGIT list" where
  "bary_small_rshift xds shift higher_bdigit =
    rev (small_rshift_loop (rev xds) shift (BIGUP (ucast higher_bdigit)))"

lemma uint_drop_bit_div: "uint (drop_bit s (w :: 'a::len word)) = uint w div 2 ^ s"
  by (simp add: uint_nat unat_drop_bit_div zdiv_int del: of_nat_unat)

text \<open>Words whose bits do not overlap are added by \<open>OR\<close>.\<close>

lemma uint_or_disjoint:
  assumes "uint (a :: 64 word) < 2 ^ s" "2 ^ s dvd uint b" "uint a + uint b < 18446744073709551616"
  shows "uint (a OR b) = uint a + uint b"
proof -
  have "take_bit s (uint b) = 0" using assms(2) by (simp add: take_bit_eq_mod)
  moreover have "take_bit s (uint a) = uint a" using assms(1) by (simp add: take_bit_int_eq_self_iff)
  ultimately have "\<not> (bit (uint a) n \<and> bit (uint b) n)" for n
    by (metis bit_take_bit_iff bit_0_eq bot_apply bot_bool_def)
  then have "a AND b = 0" by (auto intro!: bit_word_eqI simp: bit_simps bit_uint_iff)
  then have "a OR b = a + b" by (simp add: disjunctive_add_eq_or)
  then show ?thesis using assms(3) by (simp add: uint_add_fits)
qed

lemma uint_push_digit: "s < 32 \<Longrightarrow> uint (push_bit s (ucast (x :: BDIGIT) :: 64 word)) = uint x * 2 ^ s"
proof -
  assume s: "s < 32"
  have "uint x * 2 ^ s < 4294967296 * 2 ^ s" using uint_digit(2) [of x] by simp
  also have "\<dots> \<le> 4294967296 * 2 ^ 32" using s by (intro mult_left_mono power_increasing) simp_all
  finally have "uint x * 2 ^ s < 2 ^ 64" by simp
  then show ?thesis
    by (subst unsigned_push_bit_eq) (simp add: push_bit_eq_mult take_bit_int_eq_self_iff)
qed

lemma uint_BIGUP: "uint (BIGUP (ucast (x :: BDIGIT))) = uint x * 4294967296"
  unfolding BIGUP_def using uint_digit(2) [of x]
  by (subst unsigned_push_bit_eq) (simp add: push_bit_eq_mult take_bit_int_eq_self_iff)

lemma int_div_less: "0 < (c :: int) \<Longrightarrow> a < b * c \<Longrightarrow> a div c < b"
  by (smt (verit) mult_less_cancel_right_pos minus_mod_eq_div_mult pos_mod_sign)

lemma small_lshift_loop_spec:
  assumes "s < 32" "uint num < 2 ^ s" "small_lshift_loop xds s num = (zds, num')"
  shows "length zds = length xds \<and> uint num' < 2 ^ s \<and>
    bval zds + 4294967296 ^ length xds * uint num' = bval xds * 2 ^ s + uint num"
  using assms
proof (induction xds arbitrary: num zds num')
  case (Cons x xds)
  define n where "n = num OR push_bit s (ucast x)"
  have e: "(4294967296 :: int) = 2 ^ (32 - s) * 2 ^ s" using Cons.prems(1) by (simp flip: power_add)
  have "uint num + 2 ^ s * uint x < 0 + 2 ^ s * 4294967296"
    using Cons.prems(2) uint_digit(3) [of x] by (intro weighted_less) simp_all
  then have less: "uint num + uint x * 2 ^ s < 4294967296 * 2 ^ s" by (simp add: mult.commute)
  have "(4294967296 :: int) * 2 ^ s \<le> 4294967296 * 2 ^ 32" using Cons.prems(1) by (intro mult_left_mono power_increasing) simp_all
  then have fits: "uint num + uint x * 2 ^ s < 18446744073709551616" using less by simp
  have n: "uint n = uint num + uint x * 2 ^ s"
    using uint_or_disjoint [OF Cons.prems(2), of "push_bit s (ucast x)"] fits Cons.prems(1)
    by (simp only: n_def uint_push_digit dvd_triv_right)
  have dn: "uint (BIGDN n) < 2 ^ s" unfolding uint_BIGDN n using less by (intro int_div_less) (simp_all add: mult.commute)
  obtain zs where zs: "small_lshift_loop xds s (BIGDN n) = (zs, num')" "zds = BIGLO n # zs"
    using Cons.prems(3) by (auto simp: n_def [symmetric] Let_def split: prod.splits)
  have "uint (BIGLO n) + 4294967296 * uint (BIGDN n) = uint n" by (simp add: uint_BIGLO uint_BIGDN)
  then show ?case using Cons.IH [OF Cons.prems(1) dn zs(1)] n by (simp add: zs(2) algebra_simps)
qed simp

lemma bary_small_lshift_spec:
  assumes "s < 32" "bary_small_lshift xds s = (zds, d)"
  shows "length zds = length xds" "bval (zds @ [d]) = bval xds * 2 ^ s" "uint d < 2 ^ s"
proof -
  obtain num where num: "small_lshift_loop xds s 0 = (zds, num)" "d = BIGLO num"
    using assms(2) by (auto simp: bary_small_lshift_def split: prod.splits)
  note spec = small_lshift_loop_spec [OF assms(1) _ num(1)]
  have "(2 :: int) ^ s \<le> 2 ^ 32" using assms(1) by (intro power_increasing) simp_all
  then have "uint d = uint num" using spec by (simp add: num(2) uint_BIGLO)
  then show "length zds = length xds" "bval (zds @ [d]) = bval xds * 2 ^ s" "uint d < 2 ^ s"
    using spec by (simp_all add: bval_append)
qed

lemma length_small_rshift_loop [simp]: "length (small_rshift_loop xds s num) = length xds"
  by (induction xds arbitrary: num) simp_all

lemma small_rshift_loop_spec:
  assumes "s < 32"
  shows "bval (rev (small_rshift_loop xds s (BIGUP (ucast (h :: BDIGIT))))) =
    (bval (rev xds) + 4294967296 ^ length xds * uint h) div 2 ^ s mod 4294967296 ^ length xds"
proof (induction xds arbitrary: h)
  case (Cons x xds)
  let ?P = "4294967296 ^ length xds :: int"
  define u where "u = bval (rev xds) + ?P * uint x"
  define v where "v = u + 4294967296 * ?P * uint h"
  have "uint (BIGUP (ucast h) OR ucast x) = uint h * 4294967296 + uint x"
    using uint_or_disjoint [of "ucast x" 32 "BIGUP (ucast h)"] uint_digit [of x] uint_digit [of h]
    by (simp add: uint_BIGUP or.commute)
  then have lo: "uint (BIGLO (drop_bit s (BIGUP (ucast h) OR ucast x))) = (uint h * 4294967296 + uint x) div 2 ^ s mod 4294967296"
    by (simp only: uint_BIGLO uint_drop_bit_div)
  have e: "(4294967296 :: int) = 2 ^ (32 - s) * 2 ^ s" using assms by (simp flip: power_add)
  have "v div 2 ^ s = u div 2 ^ s + ?P * (2 ^ (32 - s) * uint h)"
  proof -
    have "v = u + ?P * (2 ^ (32 - s) * uint h) * 2 ^ s" using e by (simp add: v_def algebra_simps)
    then show ?thesis by simp
  qed
  then have low: "v div 2 ^ s mod ?P = u div 2 ^ s mod ?P" by simp
  have "v div 2 ^ s div ?P = v div ?P div 2 ^ s" by (simp add: div_mult2_eq mult.commute flip: zdiv_zmult2_eq)
  also have "v div ?P = uint h * 4294967296 + uint x"
    using bval_less [of "rev xds"] bval_nonneg [of "rev xds"] by (simp add: v_def u_def div_add1_eq algebra_simps)
  finally have high: "v div 2 ^ s div ?P = (uint h * 4294967296 + uint x) div 2 ^ s" .
  have "v div 2 ^ s mod (?P * 4294967296) = ?P * (v div 2 ^ s div ?P mod 4294967296) + v div 2 ^ s mod ?P"
    by (rule zmod_zmult2_eq) simp
  then show ?case
    using Cons.IH [of x] lo low high by (simp add: bval_append u_def v_def algebra_simps)
qed simp

lemma bary_small_rshift_spec:
  assumes "s < 32" "uint h < 2 ^ s"
  shows "length (bary_small_rshift xds s h) = length xds"
    "bval (bary_small_rshift xds s h) = (bval xds + 4294967296 ^ length xds * uint h) div 2 ^ s"
proof -
  have "bval xds + 4294967296 ^ length xds * uint h < 0 + 4294967296 ^ length xds * 2 ^ s"
    using assms bval_less [of xds] by (intro weighted_less) simp_all
  then have "(bval xds + 4294967296 ^ length xds * uint h) div 2 ^ s < 4294967296 ^ length xds"
    by (intro int_div_less) simp_all
  moreover have "0 \<le> (bval xds + 4294967296 ^ length xds * uint h) div 2 ^ s"
    by (simp add: pos_imp_zdiv_nonneg_iff)
  ultimately show "bval (bary_small_rshift xds s h) = (bval xds + 4294967296 ^ length xds * uint h) div 2 ^ s"
    using small_rshift_loop_spec [OF assms(1), of "rev xds" h] by (simp add: bary_small_rshift_def)
  show "length (bary_small_rshift xds s h) = length xds" by (simp add: bary_small_rshift_def)
qed

section \<open>Complement\<close>

definition bary_neg :: "BDIGIT list \<Rightarrow> BDIGIT list" where
  "bary_neg ds = map (\<lambda>d. BIGLO (ucast (NOT d))) ds"

text \<open>The second component tells that all digits are zero, when nothing is done.\<close>

fun bary_2comp :: "BDIGIT list \<Rightarrow> BDIGIT list \<times> bool" where
  "bary_2comp [] = ([], True)"
| "bary_2comp (d # ds) =
    (if d \<noteq> 0 then (BIGLO (ucast (NOT d + 1)) # map (\<lambda>d. BIGLO (ucast (NOT d))) ds, False)
     else let (ds, zero) = bary_2comp ds in (d # ds, zero))"

lemma BIGLO_dbl [simp]: "BIGLO (ucast (d :: BDIGIT)) = d"
  using uint_digit [of d] by (simp add: word_uint_eq_iff uint_BIGLO)

lemma uint_NOT_digit: "uint (NOT d :: BDIGIT) = 4294967295 - uint d"
proof -
  have "NOT d = - 1 - d" by (simp add: not_eq_complement)
  moreover have "uint (- 1 - d) = uint (- 1 :: BDIGIT) - uint d"
    using uint_digit(3) [of d] by (subst uint_sub_lem [THEN iffD1]) (simp_all add: unsigned_minus_1_eq_mask mask_eq_exp_minus_1)
  ultimately show ?thesis by (simp add: unsigned_minus_1_eq_mask mask_eq_exp_minus_1)
qed

lemma bval_neg [bary_simps]: "bval (bary_neg ds) = 4294967296 ^ length ds - 1 - bval ds"
  by (induction ds) (simp_all add: bary_neg_def uint_NOT_digit algebra_simps)

lemma length_bary_neg [simp]: "length (bary_neg ds) = length ds"
  by (simp add: bary_neg_def)

lemma uint_minus_digit: "d \<noteq> 0 \<Longrightarrow> uint (- d :: BDIGIT) = 4294967296 - uint d"
  by (simp add: uint_word_ariths word_uint_eq_iff) (use uint_digit [of d] in \<open>simp add: zmod_zminus1_eq_if\<close>)

lemma bary_2comp_spec:
  "length (fst (bary_2comp ds)) = length ds \<and> (snd (bary_2comp ds) \<longleftrightarrow> bval ds = 0) \<and>
    bval (fst (bary_2comp ds)) = (if bval ds = 0 then 0 else 4294967296 ^ length ds - bval ds)"
proof (induction ds)
  case (Cons d ds)
  have nn: "0 \<le> bval ds" "0 \<le> uint d" by simp_all
  show ?case
  proof (cases "d = 0")
    case True
    then show ?thesis using Cons by (auto simp: Let_def split: prod.splits)
  next
    case False
    have "uint d \<noteq> 0" using False by (simp add: uint_0_iff)
    then have "bval (d # ds) \<noteq> 0" unfolding bval.simps using nn by linarith
    moreover have "NOT d + 1 = - d" by (simp add: minus_eq_not_plus_1)
    moreover have "bval (map (\<lambda>d. BIGLO (ucast (NOT d))) ds) = 4294967296 ^ length ds - 1 - bval ds"
      using bval_neg [of ds] by (simp add: bary_neg_def)
    ultimately show ?thesis using False uint_minus_digit [OF False] by (simp add: algebra_simps)
  qed
qed simp

section \<open>Addition\<close>

fun addc_both :: "BDIGIT list \<Rightarrow> BDIGIT list \<Rightarrow> BDIGIT_DBL \<Rightarrow> BDIGIT list \<times> BDIGIT_DBL" where
  "addc_both (x # xds) (y # yds) num =
    (let num = num + (ucast x + ucast y); (zds, num') = addc_both xds yds (BIGDN num)
     in (BIGLO num # zds, num'))"
| "addc_both _ _ num = ([], num)"

text \<open>When the carry is gone the rest is copied.\<close>

fun addc_rest :: "BDIGIT list \<Rightarrow> BDIGIT_DBL \<Rightarrow> BDIGIT list \<times> BDIGIT_DBL" where
  "addc_rest [] num = ([], num)"
| "addc_rest (y # yds) num =
    (if num = 0 then (y # yds, 0)
     else let num = num + ucast y; (zds, num') = addc_rest yds (BIGDN num) in (BIGLO num # zds, num'))"

fun addc_pad :: "nat \<Rightarrow> BDIGIT_DBL \<Rightarrow> BDIGIT list \<times> BDIGIT_DBL" where
  "addc_pad 0 num = ([], num)"
| "addc_pad (Suc n) num =
    (if num = 0 then (replicate (Suc n) 0, 0)
     else let (zds, num') = addc_pad n (BIGDN num) in (BIGLO num # zds, num'))"

definition bary_addc :: "nat \<Rightarrow> BDIGIT list \<Rightarrow> BDIGIT list \<Rightarrow> bool \<Rightarrow> BDIGIT list \<times> bool" where
  "bary_addc zn xds yds carry =
    (let (xds, yds) = (if length xds > length yds then (yds, xds) else (xds, yds));
         xn = length xds; yn = length yds;
         (z1, num) = addc_both xds (take xn yds) (if carry then 1 else 0);
         (z2, num) = addc_rest (drop xn yds) num;
         (z3, num) = addc_pad (zn - yn) num
     in (z1 @ z2 @ z3, num \<noteq> 0))"

definition bary_add :: "nat \<Rightarrow> BDIGIT list \<Rightarrow> BDIGIT list \<Rightarrow> BDIGIT list \<times> bool" where
  "bary_add zn xds yds = bary_addc zn xds yds False"

fun bary_add_one :: "BDIGIT list \<Rightarrow> BDIGIT list \<times> bool" where
  "bary_add_one [] = ([], True)"
| "bary_add_one (d # ds) =
    (let d' = BIGLO (ucast d + 1)
     in if d' \<noteq> 0 then (d' # ds, False) else let (zds, c) = bary_add_one ds in (d' # zds, c))"

text \<open>A step of addition: the low digit goes out, the high part is the next carry.\<close>

lemma uint_lo_dn: "uint (BIGLO n) + 4294967296 * uint (BIGDN n) = uint n"
  by (simp add: uint_BIGLO uint_BIGDN)

lemma uint_add_digits:
  "uint num \<le> 1 \<Longrightarrow> uint ((num :: BDIGIT_DBL) + (ucast (x :: BDIGIT) + ucast (y :: BDIGIT))) = uint num + uint x + uint y"
proof -
  assume n: "uint num \<le> 1"
  have "uint (ucast x + ucast y :: 64 word) = uint x + uint y"
    using uint_digit(3) [of x] uint_digit(3) [of y] by (subst uint_add_fits) simp_all
  then show ?thesis
    using n uint_digit(3) [of x] uint_digit(3) [of y] by (subst uint_add_fits) simp_all
qed

lemma uint_add_digit: "uint num \<le> 1 \<Longrightarrow> uint ((num :: BDIGIT_DBL) + ucast (y :: BDIGIT)) = uint num + uint y"
  using uint_digit(3) [of y] by (subst uint_add_fits) simp_all

lemma addc_both_spec:
  assumes "length xds = length yds" "uint num \<le> 1" "addc_both xds yds num = (zds, num')"
  shows "length zds = length xds \<and> uint num' \<le> 1 \<and>
    bval zds + 4294967296 ^ length xds * uint num' = bval xds + bval yds + uint num"
  using assms
proof (induction xds yds arbitrary: num zds num' rule: list_induct2)
  case (Cons x xds y yds)
  define n where "n = num + (ucast x + ucast y)"
  have n: "uint n = uint num + uint x + uint y" using Cons.prems(1) by (simp add: n_def uint_add_digits)
  then have dn: "uint (BIGDN n) \<le> 1"
    using Cons.prems(1) uint_digit(3) [of x] uint_digit(3) [of y] by (simp add: uint_BIGDN)
  obtain zs where zs: "addc_both xds yds (BIGDN n) = (zs, num')" "zds = BIGLO n # zs"
    using Cons.prems(2) by (auto simp: n_def [symmetric] Let_def split: prod.splits)
  show ?case using Cons.IH [OF dn zs(1)] uint_lo_dn [of n] n by (simp add: zs(2) algebra_simps)
qed simp

lemma addc_rest_spec:
  assumes "uint num \<le> 1" "addc_rest yds num = (zds, num')"
  shows "length zds = length yds \<and> uint num' \<le> 1 \<and> bval zds + 4294967296 ^ length yds * uint num' = bval yds + uint num"
  using assms
proof (induction yds arbitrary: num zds num')
  case (Cons y yds)
  show ?case
  proof (cases "num = 0")
    case False
    define n where "n = num + ucast y"
    have n: "uint n = uint num + uint y" using Cons.prems(1) by (simp add: n_def uint_add_digit)
    then have dn: "uint (BIGDN n) \<le> 1" using Cons.prems(1) uint_digit(3) [of y] by (simp add: uint_BIGDN)
    obtain zs where zs: "addc_rest yds (BIGDN n) = (zs, num')" "zds = BIGLO n # zs"
      using Cons.prems(2) False by (auto simp: n_def [symmetric] Let_def split: prod.splits)
    show ?thesis using Cons.IH [OF dn zs(1)] uint_lo_dn [of n] n by (simp add: zs(2) algebra_simps)
  qed (use Cons.prems in auto)
qed simp

lemma addc_pad_spec:
  assumes "uint num \<le> 1" "addc_pad n num = (zds, num')"
  shows "length zds = n \<and> uint num' \<le> 1 \<and> bval zds + 4294967296 ^ n * uint num' = uint num"
  using assms
proof (induction n arbitrary: num zds num')
  case (Suc n)
  show ?case
  proof (cases "num = 0")
    case False
    have dn: "uint (BIGDN num) \<le> 1" using Suc.prems(1) by (simp add: uint_BIGDN)
    obtain zs where zs: "addc_pad n (BIGDN num) = (zs, num')" "zds = BIGLO num # zs"
      using Suc.prems(2) False by (auto simp: Let_def split: prod.splits)
    show ?thesis using Suc.IH [OF dn zs(1)] uint_lo_dn [of num] by (simp add: zs(2) algebra_simps)
  qed (use Suc.prems in auto)
qed simp

lemma bary_addc_spec:
  assumes "length xds \<le> zn" "length yds \<le> zn" "bary_addc zn xds yds carry = (zds, c)"
  shows "length zds = zn" "bval zds + of_bool c * 4294967296 ^ zn = bval xds + bval yds + of_bool carry"
proof -
  define xs ys where "xs = (if length xds > length yds then yds else xds)"
    and "ys = (if length xds > length yds then xds else yds)"
  have len: "length xs \<le> length ys" "length ys \<le> zn" and sum: "bval xs + bval ys = bval xds + bval yds"
    using assms(1,2) by (auto simp: xs_def ys_def)
  obtain z1 n1 where 1: "addc_both xs (take (length xs) ys) (if carry then 1 else 0) = (z1, n1)" by fastforce
  obtain z2 n2 where 2: "addc_rest (drop (length xs) ys) n1 = (z2, n2)" by fastforce
  obtain z3 n3 where 3: "addc_pad (zn - length ys) n2 = (z3, n3)" by fastforce
  have z: "zds = z1 @ z2 @ z3" "c = (n3 \<noteq> 0)"
    using assms(3) 1 2 3 by (auto simp: bary_addc_def xs_def ys_def Let_def split: if_splits)
  have s1: "length z1 = length xs" "uint n1 \<le> 1"
    "bval z1 + 4294967296 ^ length xs * uint n1 = bval xs + bval (take (length xs) ys) + of_bool carry"
    using addc_both_spec [OF _ _ 1] len by (auto split: if_splits)
  have s2: "length z2 = length ys - length xs" "uint n2 \<le> 1"
    "bval z2 + 4294967296 ^ (length ys - length xs) * uint n2 = bval (drop (length xs) ys) + uint n1"
    using addc_rest_spec [OF s1(2) 2] by auto
  have s3: "length z3 = zn - length ys" "uint n3 \<le> 1" "bval z3 + 4294967296 ^ (zn - length ys) * uint n3 = uint n2"
    using addc_pad_spec [OF s2(2) 3] by auto
  show "length zds = zn" using s1(1) s2(1) s3(1) len by (simp add: z(1))
  let ?B = "4294967296 :: int"
  have p: "?B ^ length xs * ?B ^ (length ys - length xs) = ?B ^ length ys" "?B ^ length ys * ?B ^ (zn - length ys) = ?B ^ zn"
    using len by (simp_all flip: power_add)
  have "uint n3 = 0 \<or> uint n3 = 1" using s3(2) uint_ge_0 [of n3] by linarith
  then have c: "uint n3 = of_bool c" by (auto simp: z(2) uint_0_iff)
  have "bval zds + of_bool c * ?B ^ zn = bval z1 + ?B ^ length xs * bval z2 + ?B ^ length ys * (bval z3 + ?B ^ (zn - length ys) * uint n3)"
    using p s1(1) s2(1) len by (simp add: z(1) bval_append c algebra_simps)
  also have "\<dots> = bval z1 + ?B ^ length xs * (bval z2 + ?B ^ (length ys - length xs) * uint n2)"
    unfolding s3(3) p(1) [symmetric] by (simp add: algebra_simps)
  also have "\<dots> = (bval z1 + ?B ^ length xs * uint n1) + ?B ^ length xs * bval (drop (length xs) ys)"
    unfolding s2(3) by (simp add: algebra_simps)
  also have "\<dots> = bval xs + bval ys + of_bool carry"
    unfolding s1(3) using bval_take_drop [OF len(1)] by simp
  finally show "bval zds + of_bool c * 4294967296 ^ zn = bval xds + bval yds + of_bool carry" using sum by simp
qed

lemma bary_add_one_spec:
  "length (fst (bary_add_one ds)) = length ds \<and>
    bval (fst (bary_add_one ds)) + of_bool (snd (bary_add_one ds)) * 4294967296 ^ length ds = bval ds + 1"
proof (induction ds)
  case (Cons d ds)
  have "uint (ucast d + 1 :: 64 word) = uint d + 1" using uint_digit(3) [of d] by (subst uint_add_fits) simp_all
  then have lo: "uint (BIGLO (ucast d + 1)) = (uint d + 1) mod 4294967296" by (simp add: uint_BIGLO)
  show ?case
  proof (cases "uint d = 4294967295")
    case True
    then have "BIGLO (ucast d + 1) = 0" using lo by (simp add: word_uint_eq_iff)
    then have "bary_add_one (d # ds) = (0 # fst (bary_add_one ds), snd (bary_add_one ds))"
      by (simp add: Let_def split: prod.splits)
    then show ?thesis using Cons True by (simp add: algebra_simps)
  next
    case False
    then have "uint (BIGLO (ucast d + 1)) = uint d + 1" using lo uint_digit [of d] by simp
    moreover have "BIGLO (ucast d + 1) \<noteq> 0"
    proof
      assume "BIGLO (ucast d + 1) = 0"
      then have "uint d + 1 = 0" using calculation by simp
      then show False using uint_digit(1) [of d] by linarith
    qed
    ultimately show ?thesis by (simp add: Let_def)
  qed
qed simp

section \<open>Subtraction\<close>

fun subb_both :: "BDIGIT list \<Rightarrow> BDIGIT list \<Rightarrow> BDIGIT_DBL_SIGNED \<Rightarrow> BDIGIT list \<times> BDIGIT_DBL_SIGNED" where
  "subb_both (x # xds) (y # yds) num =
    (let num = num + (ucast x - ucast y); (zds, num') = subb_both xds yds (BIGDN_S num)
     in (BIGLO num # zds, num'))"
| "subb_both _ _ num = ([], num)"

fun subb_x :: "BDIGIT list \<Rightarrow> BDIGIT_DBL_SIGNED \<Rightarrow> BDIGIT list \<times> BDIGIT_DBL_SIGNED" where
  "subb_x [] num = ([], num)"
| "subb_x (x # xds) num =
    (if num = 0 then (x # xds, 0)
     else let num = num + ucast x; (zds, num') = subb_x xds (BIGDN_S num) in (BIGLO num # zds, num'))"

fun subb_y :: "BDIGIT list \<Rightarrow> BDIGIT_DBL_SIGNED \<Rightarrow> BDIGIT list \<times> BDIGIT_DBL_SIGNED" where
  "subb_y [] num = ([], num)"
| "subb_y (y # yds) num =
    (let num = num - ucast y; (zds, num') = subb_y yds (BIGDN_S num) in (BIGLO num # zds, num'))"

text \<open>The digits above both operands are all ones after a borrow, else zero.\<close>

definition bary_subb :: "nat \<Rightarrow> BDIGIT list \<Rightarrow> BDIGIT list \<Rightarrow> bool \<Rightarrow> BDIGIT list \<times> bool" where
  "bary_subb zn xds yds borrow =
    (let xn = length xds; yn = length yds; sn = (if xn < yn then xn else yn);
         (z1, num) = subb_both (take sn xds) (take sn yds) (if borrow then - 1 else 0);
         (z2, num) = (if yn \<le> xn then subb_x (drop sn xds) num else subb_y (drop sn yds) num);
         i = (if yn \<le> xn then xn else yn)
     in if num = 0 then (z1 @ z2 @ replicate (zn - i) 0, False)
        else (z1 @ z2 @ replicate (zn - i) BDIGMAX, True))"

definition bary_sub :: "nat \<Rightarrow> BDIGIT list \<Rightarrow> BDIGIT list \<Rightarrow> BDIGIT list \<times> bool" where
  "bary_sub zn xds yds = bary_subb zn xds yds False"

definition bary_sub_one :: "BDIGIT list \<Rightarrow> BDIGIT list \<times> bool" where
  "bary_sub_one zds = bary_subb (length zds) zds [] True"

lemma sint_lo_dn: "uint (BIGLO n) + 4294967296 * sint (BIGDN_S n) = sint n"
  by (simp add: uint_BIGLO_sint sint_BIGDN_S)

lemma sint_eq_0_iff: "sint num = 0 \<longleftrightarrow> (num :: 64 word) = 0"
  by (metis sint_0 signed_word_eqI)

lemma sint_add_eq:
  "sint (a :: 64 word) = i \<Longrightarrow> sint b = j \<Longrightarrow> - 9223372036854775808 \<le> i + j \<Longrightarrow> i + j < 9223372036854775808 \<Longrightarrow>
    sint (a + b) = i + j"
  using sint_add_fits by blast

lemma sint_sub_eq:
  "sint (a :: 64 word) = i \<Longrightarrow> sint b = j \<Longrightarrow> - 9223372036854775808 \<le> i - j \<Longrightarrow> i - j < 9223372036854775808 \<Longrightarrow>
    sint (a - b) = i - j"
  using sint_sub_fits by blast

lemma sint_sub_digits:
  assumes "- 1 \<le> sint num" "sint num \<le> 0"
  shows "sint ((num :: BDIGIT_DBL_SIGNED) + (ucast (x :: BDIGIT) - ucast (y :: BDIGIT))) = sint num + uint x - uint y"
    "sint (num + ucast x) = sint num + uint x" "sint (num - ucast y) = sint num - uint y"
proof -
  note b = uint_digit(1,3) [of x] uint_digit(1,3) [of y]
  have "sint (ucast x - ucast y :: 64 word) = uint x - uint y" by (rule sint_sub_eq) (use b in \<open>simp_all, linarith+\<close>)
  then show "sint (num + (ucast x - ucast y)) = sint num + uint x - uint y"
    using sint_add_eq [OF refl, of "ucast x - ucast y" "uint x - uint y" num] b assms by linarith
  show "sint (num + ucast x) = sint num + uint x" using sint_add_eq [OF refl sint_dbl, of num x] b assms by linarith
  show "sint (num - ucast y) = sint num - uint y" using sint_sub_eq [OF refl sint_dbl, of num y] b assms by linarith
qed

lemma sint_dn_borrow: "- 4294967296 \<le> sint n \<Longrightarrow> sint n < 4294967296 \<Longrightarrow> - 1 \<le> sint (BIGDN_S n) \<and> sint (BIGDN_S n) \<le> 0"
  by (simp add: sint_BIGDN_S) linarith

lemma subb_both_spec:
  assumes "length xds = length yds" "- 1 \<le> sint num \<and> sint num \<le> 0" "subb_both xds yds num = (zds, num')"
  shows "length zds = length xds \<and> - 1 \<le> sint num' \<and> sint num' \<le> 0 \<and>
    bval zds + 4294967296 ^ length xds * sint num' = bval xds - bval yds + sint num"
  using assms
proof (induction xds yds arbitrary: num zds num' rule: list_induct2)
  case (Cons x xds y yds)
  define n where "n = num + (ucast x - ucast y)"
  have n: "sint n = sint num + uint x - uint y" using Cons.prems(1) by (simp add: n_def sint_sub_digits)
  then have dn: "- 1 \<le> sint (BIGDN_S n) \<and> sint (BIGDN_S n) \<le> 0"
    using Cons.prems(1) uint_digit [of x] uint_digit [of y] by (intro sint_dn_borrow) linarith+
  obtain zs where zs: "subb_both xds yds (BIGDN_S n) = (zs, num')" "zds = BIGLO n # zs"
    using Cons.prems(2) by (auto simp: n_def [symmetric] Let_def split: prod.splits)
  show ?case using Cons.IH [OF dn zs(1)] sint_lo_dn [of n] n by (simp add: zs(2) algebra_simps)
qed simp

lemma subb_x_spec:
  assumes "- 1 \<le> sint num \<and> sint num \<le> 0" "subb_x xds num = (zds, num')"
  shows "length zds = length xds \<and> - 1 \<le> sint num' \<and> sint num' \<le> 0 \<and>
    bval zds + 4294967296 ^ length xds * sint num' = bval xds + sint num"
  using assms
proof (induction xds arbitrary: num zds num')
  case (Cons x xds)
  show ?case
  proof (cases "num = 0")
    case False
    define n where "n = num + ucast x"
    have n: "sint n = sint num + uint x" using Cons.prems(1) by (simp add: n_def sint_sub_digits)
    then have dn: "- 1 \<le> sint (BIGDN_S n) \<and> sint (BIGDN_S n) \<le> 0"
      using Cons.prems(1) uint_digit [of x] by (intro sint_dn_borrow) linarith+
    obtain zs where zs: "subb_x xds (BIGDN_S n) = (zs, num')" "zds = BIGLO n # zs"
      using Cons.prems(2) False by (auto simp: n_def [symmetric] Let_def split: prod.splits)
    show ?thesis using Cons.IH [OF dn zs(1)] sint_lo_dn [of n] n by (simp add: zs(2) algebra_simps)
  qed (use Cons.prems in auto)
qed simp

lemma subb_y_spec:
  assumes "- 1 \<le> sint num \<and> sint num \<le> 0" "subb_y yds num = (zds, num')"
  shows "length zds = length yds \<and> - 1 \<le> sint num' \<and> sint num' \<le> 0 \<and>
    bval zds + 4294967296 ^ length yds * sint num' = sint num - bval yds"
  using assms
proof (induction yds arbitrary: num zds num')
  case (Cons y yds)
  define n where "n = num - ucast y"
  have n: "sint n = sint num - uint y" using Cons.prems(1) by (simp add: n_def sint_sub_digits)
  then have dn: "- 1 \<le> sint (BIGDN_S n) \<and> sint (BIGDN_S n) \<le> 0"
    using Cons.prems(1) uint_digit [of y] by (intro sint_dn_borrow) linarith+
  obtain zs where zs: "subb_y yds (BIGDN_S n) = (zs, num')" "zds = BIGLO n # zs"
    using Cons.prems(2) by (auto simp: n_def [symmetric] Let_def split: prod.splits)
  show ?case using Cons.IH [OF dn zs(1)] sint_lo_dn [of n] n by (simp add: zs(2) algebra_simps)
qed simp

lemma bary_subb_spec:
  assumes len: "length xds \<le> zn" "length yds \<le> zn" and sub: "bary_subb zn xds yds borrow = (zds, b)"
  shows "length zds = zn" "bval zds - of_bool b * 4294967296 ^ zn = bval xds - bval yds - of_bool borrow"
proof -
  let ?B = "4294967296 :: int"
  define sn m where "sn = min (length xds) (length yds)" and "m = max (length xds) (length yds)"
  have sn': "(if length xds < length yds then length xds else length yds) = sn"
    "(if length yds \<le> length xds then length xds else length yds) = m" by (auto simp: sn_def m_def)
  obtain z1 n1 where 1: "subb_both (take sn xds) (take sn yds) (if borrow then - 1 else 0) = (z1, n1)" by fastforce
  obtain z2 n2 where 2: "(if length yds \<le> length xds then subb_x (drop sn xds) n1 else subb_y (drop sn yds) n1) = (z2, n2)"
    by fastforce
  define z3 where "z3 = replicate (zn - m) (if n2 = 0 then 0 else BDIGMAX)"
  have z: "zds = z1 @ z2 @ z3" "b = (n2 \<noteq> 0)"
    using sub unfolding bary_subb_def Let_def sn' 1 prod.case 2 by (auto simp: z3_def split: if_splits)
  have s1: "length z1 = sn" "- 1 \<le> sint n1 \<and> sint n1 \<le> 0"
    "bval z1 + ?B ^ sn * sint n1 = bval (take sn xds) - bval (take sn yds) - of_bool borrow"
    using subb_both_spec [OF _ _ 1] by (auto simp: sn_def split: if_splits)
  have s2: "length z2 = m - sn \<and> - 1 \<le> sint n2 \<and> sint n2 \<le> 0 \<and>
    bval z2 + ?B ^ (m - sn) * sint n2 = bval (drop sn xds) - bval (drop sn yds) + sint n1"
  proof (cases "length yds \<le> length xds")
    case True
    then have "drop sn yds = []" "length (drop sn xds) = m - sn" by (simp_all add: sn_def m_def)
    then show ?thesis using subb_x_spec [OF s1(2), of "drop sn xds" z2 n2] 2 True by simp
  next
    case False
    then have "drop sn xds = []" "length (drop sn yds) = m - sn" by (simp_all add: sn_def m_def)
    then show ?thesis using subb_y_spec [OF s1(2), of "drop sn yds" z2 n2] 2 False by simp
  qed
  have m: "sn \<le> m" "m \<le> zn" using len by (auto simp: sn_def m_def)
  show "length zds = zn" using s1(1) s2 m by (simp add: z(1) z3_def)
  have p: "?B ^ m * ?B ^ (zn - m) = ?B ^ zn" "?B ^ sn * ?B ^ (m - sn) = ?B ^ m"
    using m by (simp_all flip: power_add)
  have "sint n2 = - 1 \<or> sint n2 = 0" using s2 by linarith
  then have c: "sint n2 = - of_bool b" by (auto simp: z(2) sint_eq_0_iff)
  have "BDIGMAX = - 1" by (simp add: BDIGMAX_def)
  then have "bval (replicate (zn - m) BDIGMAX) = ?B ^ (zn - m) - 1" using bval_replicate_max by metis
  then have v3: "bval z3 = of_bool b * (?B ^ (zn - m) - 1)" by (simp add: z(2) z3_def)
  have "bval zds = bval z1 + ?B ^ sn * bval z2 + ?B ^ m * bval z3"
    using s1(1) s2 p(2) by (simp add: z(1) bval_append algebra_simps)
  then have "bval zds - of_bool b * ?B ^ zn = bval z1 + ?B ^ sn * bval z2 + ?B ^ m * (of_bool b * (?B ^ (zn - m) - 1)) - of_bool b * ?B ^ zn"
    by (simp only: v3)
  also have "\<dots> = bval z1 + ?B ^ sn * (bval z2 + ?B ^ (m - sn) * sint n2)"
    unfolding c p(1) [symmetric] p(2) [symmetric] by (simp add: algebra_simps)
  also have "\<dots> = (bval z1 + ?B ^ sn * sint n1) + ?B ^ sn * bval (drop sn xds) - ?B ^ sn * bval (drop sn yds)"
    unfolding s2 [THEN conjunct2, THEN conjunct2, THEN conjunct2] by (simp add: algebra_simps)
  also have "\<dots> = bval xds - bval yds - of_bool borrow"
    unfolding s1(3) using bval_take_drop [of sn xds] bval_take_drop [of sn yds] by (simp add: sn_def)
  finally show "bval zds - of_bool b * 4294967296 ^ zn = bval xds - bval yds - of_bool borrow" .
qed

end
