(* ===== verification/Bary_Mul.thy ===== *)
theory Bary_Mul
  imports Bary
begin

text \<open>
  Schoolbook multiplication and the fast squaring of bignum.c, with the choice between them
  (\<open>bary_short_mul\<close>) and the special cases before the recursive methods (\<open>bary_mul_precheck\<close>).  The
  result array does not overlap the operands.
\<close>

section \<open>Writing part of an array\<close>

text \<open>The digits \<open>seg\<close> are written from \<open>zds + k\<close> on.\<close>

definition bary_put :: "nat \<Rightarrow> BDIGIT list \<Rightarrow> BDIGIT list \<Rightarrow> BDIGIT list" where
  "bary_put k seg zds = take k zds @ seg @ drop (k + length seg) zds"

lemma length_bary_put [simp]: "k + length seg \<le> length zds \<Longrightarrow> length (bary_put k seg zds) = length zds"
  by (simp add: bary_put_def)

lemma take_bary_put: "j \<le> k \<Longrightarrow> k \<le> length zds \<Longrightarrow> take j (bary_put k seg zds) = take j zds"
  by (simp add: bary_put_def min_absorb1)

lemma segment_bary_put: "k \<le> length zds \<Longrightarrow> take (length seg) (drop k (bary_put k seg zds)) = seg"
  by (simp add: bary_put_def)

lemma bval_put:
  assumes "k + length seg \<le> length zds"
  shows "bval (bary_put k seg zds) = bval zds + 4294967296 ^ k * (bval seg - bval (take (length seg) (drop k zds)))"
proof -
  have "bval zds = bval (take k zds) + 4294967296 ^ k * bval (drop k zds)" using assms by (intro bval_take_drop) simp
  moreover have "bval (drop k zds) = bval (take (length seg) (drop k zds)) + 4294967296 ^ length seg * bval (drop (k + length seg) zds)"
    using bval_take_drop [of "length seg" "drop k zds"] assms by (simp add: add.commute)
  ultimately show ?thesis using assms by (simp add: bary_put_def bval_append algebra_simps)
qed

lemma bval_update:
  "k < length zds \<Longrightarrow> bval (zds[k := d]) = bval zds + 4294967296 ^ k * (uint d - uint (zds ! k))"
proof (induction zds arbitrary: k)
  case (Cons z zds)
  then show ?case by (cases k) (simp_all add: distrib_left mult.assoc)
qed simp

lemma bval_nth_zero:
  assumes "bval zds < 4294967296 ^ k" "k \<le> n" "n < length zds"
  shows "zds ! n = 0"
proof (rule ccontr)
  assume "zds ! n \<noteq> 0"
  then have "4294967296 ^ n \<le> bval (take (Suc n) zds)" using bval_take_ge [of "Suc n" zds] assms(3) by simp
  also have "\<dots> \<le> bval zds"
    using bval_take_drop [of "Suc n" zds] assms(3) by simp
  also have "\<dots> < 4294967296 ^ k" by (rule assms)
  also have "\<dots> \<le> 4294967296 ^ n" using assms(2) by (intro power_increasing) simp_all
  finally show False by simp
qed

section \<open>Multiplication by a digit\<close>

definition bdigitdbl2bary :: "BDIGIT_DBL \<Rightarrow> BDIGIT list" where
  "bdigitdbl2bary num = [BIGLO num, ucast (BIGDN num)]"

definition bary_mul_single :: "nat \<Rightarrow> BDIGIT \<Rightarrow> BDIGIT \<Rightarrow> BDIGIT list" where
  "bary_mul_single zn x y = bdigitdbl2bary (ucast x * ucast y) @ replicate (zn - 2) 0"

fun muladd_carry :: "BDIGIT list \<Rightarrow> BDIGIT_DBL \<Rightarrow> BDIGIT list \<times> BDIGIT_DBL" where
  "muladd_carry [] n = ([], n)"
| "muladd_carry (z # zds) n =
    (if n = 0 then (z # zds, 0)
     else let n = n + ucast z; (zds', n') = muladd_carry zds (BIGDN n) in (BIGLO n # zds', n'))"

fun muladd_loop :: "BDIGIT_DBL \<Rightarrow> BDIGIT list \<Rightarrow> BDIGIT list \<Rightarrow> BDIGIT_DBL \<Rightarrow> BDIGIT list \<times> BDIGIT_DBL" where
  "muladd_loop dd [] zds n = muladd_carry zds n"
| "muladd_loop dd (y # yds) [] n = ([], n)"
| "muladd_loop dd (y # yds) (z # zds) n =
    (let ee = n + dd * ucast y;
         (z, n) = (if ee \<noteq> 0 then let n = ucast z + ee in (BIGLO n, BIGDN n) else (z, 0));
         (zds', n') = muladd_loop dd yds zds n
     in (z # zds', n'))"

definition bary_muladd_1xN :: "BDIGIT list \<Rightarrow> BDIGIT \<Rightarrow> BDIGIT list \<Rightarrow> BDIGIT list \<times> bool" where
  "bary_muladd_1xN zds x yds =
    (if x = 0 then (zds, False) else let (zds, n) = muladd_loop (ucast x) yds zds 0 in (zds, n \<noteq> 0))"

lemma mult_digits_le: "uint (x :: BDIGIT) * uint (y :: BDIGIT) \<le> 4294967295 * 4294967295"
  using uint_digit(1,3) [of x] uint_digit(1,3) [of y] by (intro mult_mono) simp_all

lemma uint_mult_digits: "uint (ucast (x :: BDIGIT) * ucast (y :: BDIGIT) :: 64 word) = uint x * uint y"
  using mult_digits_le [of x y] by (subst uint_mult_fits) simp_all

lemma bary_mul_single_spec:
  "2 \<le> zn \<Longrightarrow> length (bary_mul_single zn x y) = zn \<and> bval (bary_mul_single zn x y) = uint x * uint y"
proof -
  assume zn: "2 \<le> zn"
  let ?n = "ucast x * ucast y :: 64 word"
  have "uint (BIGDN ?n) < 4294967296"
    using uint_bounded [of ?n] by (simp add: uint_BIGDN int_div_less)
  then have "uint (ucast (BIGDN ?n) :: BDIGIT) = uint (BIGDN ?n)"
    by (simp add: unsigned_ucast_eq take_bit_int_eq_self_iff)
  then show ?thesis
    using zn uint_lo_dn [of ?n] uint_mult_digits [of x y]
    by (simp add: bary_mul_single_def bdigitdbl2bary_def bval_append)
qed

lemma muladd_carry_spec:
  assumes "uint n < 4294967296" "muladd_carry zds n = (zds', n')"
  shows "length zds' = length zds \<and> uint n' < 4294967296 \<and> bval zds' + 4294967296 ^ length zds * uint n' = bval zds + uint n"
  using assms
proof (induction zds arbitrary: n zds' n')
  case (Cons z zds)
  show ?case
  proof (cases "n = 0")
    case False
    define m where "m = n + ucast z"
    have m: "uint m = uint n + uint z" using Cons.prems(1) uint_digit(3) [of z] by (simp add: m_def uint_add_fits)
    then have dn: "uint (BIGDN m) < 4294967296" using Cons.prems(1) uint_digit(3) [of z] by (simp add: uint_BIGDN int_div_less)
    obtain zs where zs: "muladd_carry zds (BIGDN m) = (zs, n')" "zds' = BIGLO m # zs"
      using Cons.prems(2) False by (auto simp: m_def [symmetric] Let_def split: prod.splits)
    show ?thesis using Cons.IH [OF dn zs(1)] uint_lo_dn [of m] m by (simp add: zs(2) algebra_simps)
  qed (use Cons.prems in auto)
qed simp

lemma muladd_loop_spec:
  assumes "length yds \<le> length zds" "uint n < 4294967296" "muladd_loop (ucast x) yds zds n = (zds', n')"
  shows "length zds' = length zds \<and> uint n' < 4294967296 \<and>
    bval zds' + 4294967296 ^ length zds * uint n' = bval zds + uint (x :: BDIGIT) * bval yds + uint n"
  using assms
proof (induction yds arbitrary: zds n zds' n')
  case Nil
  then show ?case using muladd_carry_spec [OF Nil.prems(2), of zds zds' n'] by simp
next
  case (Cons y yds)
  obtain z zs where zds: "zds = z # zs" "length yds \<le> length zs" using Cons.prems(1) by (cases zds) auto
  define ee where "ee = n + ucast x * ucast y"
  define m where "m = ucast z + ee"
  have ee: "uint ee = uint n + uint x * uint y"
    using Cons.prems(2) mult_digits_le [of x y] unfolding ee_def by (subst uint_add_fits) (simp_all add: uint_mult_digits)
  have m: "uint m = uint z + uint ee"
    using Cons.prems(2) mult_digits_le [of x y] uint_digit(3) [of z] unfolding m_def by (subst uint_add_fits) (simp_all add: ee)
  define z1 n1 where "z1 = (if ee \<noteq> 0 then BIGLO m else z)" and "n1 = (if ee \<noteq> 0 then BIGDN m else 0)"
  have 1: "uint z1 + 4294967296 * uint n1 = uint z + uint n + uint x * uint y"
    using uint_lo_dn [of m] m ee by (auto simp: z1_def n1_def)
  have dn: "uint n1 < 4294967296"
    using uint_bounded [of m] by (simp add: n1_def uint_BIGDN int_div_less)
  obtain zs' where zs': "muladd_loop (ucast x) yds zs n1 = (zs', n')" "zds' = z1 # zs'"
    using Cons.prems(3) unfolding zds(1)
    by (auto simp: z1_def n1_def m_def ee_def Let_def split: prod.splits if_splits)
  show ?case using Cons.IH [OF zds(2) dn zs'(1)] 1 by (simp add: zs'(2) zds(1) algebra_simps)
qed

lemma bary_muladd_1xN_spec:
  assumes "length yds \<le> length zds" "bary_muladd_1xN zds x yds = (zds', c)"
  shows "length zds' = length zds"
    "bval zds + uint x * bval yds < 4294967296 ^ length zds \<Longrightarrow> \<not> c \<and> bval zds' = bval zds + uint x * bval yds"
proof -
  have "length zds' = length zds \<and>
    (bval zds + uint x * bval yds < 4294967296 ^ length zds \<longrightarrow> \<not> c \<and> bval zds' = bval zds + uint x * bval yds)"
  proof (cases "x = 0")
    case False
    then obtain n where n: "muladd_loop (ucast x) yds zds 0 = (zds', n)" "c = (n \<noteq> 0)"
      using assms(2) by (auto simp: bary_muladd_1xN_def split: prod.splits)
    have spec: "length zds' = length zds" "bval zds' + 4294967296 ^ length zds * uint n = bval zds + uint x * bval yds"
      using muladd_loop_spec [OF assms(1) _ n(1)] by auto
    have "n = 0" if "bval zds + uint x * bval yds < 4294967296 ^ length zds"
    proof (rule ccontr)
      assume "n \<noteq> 0"
      then have "1 \<le> uint n" using uint_ge_0 [of n] uint_0_iff [of n] by linarith
      then have "4294967296 ^ length zds * 1 \<le> 4294967296 ^ length zds * uint n" by (intro mult_left_mono) simp_all
      then show False using spec(2) that bval_nonneg [of zds'] by linarith
    qed
    then show ?thesis using spec n(2) by (metis add.right_neutral mult_zero_right unsigned_0)
  qed (use assms in \<open>auto simp: bary_muladd_1xN_def\<close>)
  then show "length zds' = length zds"
    "bval zds + uint x * bval yds < 4294967296 ^ length zds \<Longrightarrow> \<not> c \<and> bval zds' = bval zds + uint x * bval yds" by blast+
qed

section \<open>Schoolbook multiplication\<close>

fun mul_normal_loop :: "BDIGIT list \<Rightarrow> BDIGIT list \<Rightarrow> nat \<Rightarrow> BDIGIT list \<Rightarrow> BDIGIT list" where
  "mul_normal_loop [] yds i zds = zds"
| "mul_normal_loop (x # xds) yds i zds =
    mul_normal_loop xds yds (Suc i) (take i zds @ fst (bary_muladd_1xN (drop i zds) x yds))"

definition bary_mul_normal :: "nat \<Rightarrow> BDIGIT list \<Rightarrow> BDIGIT list \<Rightarrow> BDIGIT list" where
  "bary_mul_normal zn xds yds = mul_normal_loop xds yds 0 (replicate zn 0)"

lemma mul_normal_loop_spec:
  assumes "i + length xds + length yds \<le> length zds" "bval zds < 4294967296 ^ (i + length yds)"
  shows "length (mul_normal_loop xds yds i zds) = length zds \<and>
    bval (mul_normal_loop xds yds i zds) = bval zds + 4294967296 ^ i * bval xds * bval yds"
  using assms
proof (induction xds arbitrary: i zds)
  case (Cons x xds)
  let ?B = "4294967296 :: int"
  obtain zs c where zs: "bary_muladd_1xN (drop i zds) x yds = (zs, c)" by fastforce
  have split: "bval zds = bval (take i zds) + ?B ^ i * bval (drop i zds)" using Cons.prems(1) by (intro bval_take_drop) simp
  have "?B ^ i * bval (drop i zds) < ?B ^ i * ?B ^ length yds"
    using split Cons.prems(2) bval_nonneg [of "take i zds"] unfolding power_add by linarith
  then have low: "bval (drop i zds) < ?B ^ length yds" by simp
  have "uint x * bval yds \<le> (?B - 1) * (?B ^ length yds - 1)"
    using uint_digit(3) [of x] bval_less [of yds] by (intro mult_mono) simp_all
  then have less: "bval (drop i zds) + uint x * bval yds < ?B ^ Suc (length yds)"
    using low by (simp add: algebra_simps)
  also have "\<dots> \<le> ?B ^ length (drop i zds)" using Cons.prems(1) by (intro power_increasing) simp_all
  finally have new: "length zs = length zds - i" "bval zs = bval (drop i zds) + uint x * bval yds"
    using bary_muladd_1xN_spec [OF _ zs] Cons.prems(1) by simp_all
  define zs' where "zs' = take i zds @ zs"
  have v: "length zs' = length zds" "bval zs' = bval zds + ?B ^ i * (uint x * bval yds)"
    using new Cons.prems(1) split by (simp_all add: zs'_def bval_append algebra_simps)
  have "bval zs' < ?B ^ (Suc i + length yds)"
  proof -
    have "bval zs' = bval (take i zds) + ?B ^ i * (bval (drop i zds) + uint x * bval yds)" using v split by (simp add: algebra_simps)
    also have "\<dots> < 0 + ?B ^ i * ?B ^ Suc (length yds)"
      using less bval_take_less [of i zds] Cons.prems(1) by (intro weighted_less) simp_all
    finally show ?thesis by (simp add: power_add mult.assoc)
  qed
  then have "length (mul_normal_loop xds yds (Suc i) zs') = length zs' \<and>
    bval (mul_normal_loop xds yds (Suc i) zs') = bval zs' + ?B ^ Suc i * bval xds * bval yds"
    using Cons.prems(1) v(1) by (intro Cons.IH) simp_all
  moreover have "mul_normal_loop (x # xds) yds i zds = mul_normal_loop xds yds (Suc i) zs'" by (simp add: zs zs'_def)
  ultimately show ?case using v by (simp add: algebra_simps)
qed simp

lemma bary_mul_normal_spec:
  "length xds + length yds \<le> zn \<Longrightarrow>
    length (bary_mul_normal zn xds yds) = zn \<and> bval (bary_mul_normal zn xds yds) = bval xds * bval yds"
  using mul_normal_loop_spec [of 0 xds yds "replicate zn 0"] by (simp add: bary_mul_normal_def)

definition bary_short_mul :: "nat \<Rightarrow> BDIGIT list \<Rightarrow> BDIGIT list \<Rightarrow> BDIGIT list" where
  "bary_short_mul zn xds yds =
    (if length xds = 1 \<and> length yds = 1 then bary_mul_single zn (xds ! 0) (yds ! 0) else bary_mul_normal zn xds yds)"

lemma bary_short_mul_spec:
  assumes "length xds + length yds \<le> zn"
  shows "length (bary_short_mul zn xds yds) = zn \<and> bval (bary_short_mul zn xds yds) = bval xds * bval yds"
proof (cases "length xds = 1 \<and> length yds = 1")
  case True
  then obtain x y where "xds = [x]" "yds = [y]" by (metis One_nat_def length_0_conv length_Suc_conv)
  then show ?thesis using assms bary_mul_single_spec [of zn x y] by (simp add: bary_short_mul_def)
next
  case False
  then have "bary_short_mul zn xds yds = bary_mul_normal zn xds yds" by (simp only: bary_short_mul_def if_False)
  then show ?thesis using bary_mul_normal_spec [OF assms] by simp
qed

section \<open>Fast squaring\<close>

lemma nth_bary_put_above:
  assumes "k + length seg \<le> n" "n < length zds"
  shows "bary_put k seg zds ! n = zds ! n"
proof -
  have "n - k - length seg + (k + length seg) = n" "\<not> n - k < length seg" using assms(1) by simp_all
  then show ?thesis using assms by (simp add: bary_put_def nth_append min_def add.commute)
qed

lemma dbl_eq_0_iff [simp]: "(ucast (d :: BDIGIT) :: 64 word) = 0 \<longleftrightarrow> d = 0"
  by (metis uint_dbl uint_0_iff)

text \<open>The products with the digits above \<open>i\<close>: \<open>2 * xds[i]\<close> is \<open>vl\<close> and, above it, the bit \<open>vh\<close>.\<close>

fun sq_row :: "BDIGIT \<Rightarrow> bool \<Rightarrow> BDIGIT list \<Rightarrow> BDIGIT list \<Rightarrow> BDIGIT_DBL \<Rightarrow> BDIGIT list \<times> BDIGIT_DBL" where
  "sq_row vl vh (x # xds) (z # zds) c =
    (let w = ucast x; c = c + (ucast z + ucast vl * w); z = BIGLO c; c = BIGDN c;
         c = (if vh then c + w else c);
         (zds, c') = sq_row vl vh xds zds c
     in (z # zds, c'))"
| "sq_row vl vh _ _ c = ([], c)"

text \<open>The body of the outer loop.\<close>

definition sq_step :: "BDIGIT list \<Rightarrow> nat \<Rightarrow> BDIGIT list \<Rightarrow> BDIGIT list" where
  "sq_step xds i zds =
    (let xn = length xds; v = (ucast (xds ! i) :: BDIGIT_DBL)
     in if v = 0 then zds
        else
          let c = ucast (zds ! (i + i)) + v * v;
              zds = zds[i + i := BIGLO c]; c = BIGDN c;
              v = v * 2; vl = BIGLO v; vh = (BIGDN v \<noteq> 0);
              (row, c) = sq_row vl vh (drop (i + 1) xds) (drop (i + (i + 1)) zds) c;
              zds = bary_put (i + (i + 1)) row zds
          in if c \<noteq> 0 then
               let c = c + ucast (zds ! (i + xn)); zds = zds[i + xn := BIGLO c]; c = BIGDN c
               in if c \<noteq> 0 then zds[i + xn + 1 := zds ! (i + xn + 1) + ucast c] else zds
             else zds)"

definition sq_last :: "BDIGIT list \<Rightarrow> nat \<Rightarrow> BDIGIT list \<Rightarrow> BDIGIT list" where
  "sq_last xds i zds =
    (let xn = length xds; v = (ucast (xds ! i) :: BDIGIT_DBL)
     in if v = 0 then zds
        else
          let c = ucast (zds ! (i + i)) + v * v; zds = zds[i + i := BIGLO c]; c = BIGDN c
          in if c \<noteq> 0 then zds[i + xn := zds ! (i + xn) + BIGLO c] else zds)"

definition bary_sq_fast :: "nat \<Rightarrow> BDIGIT list \<Rightarrow> BDIGIT list" where
  "bary_sq_fast zn xds =
    (let zds = replicate zn 0; xn = length xds
     in if xn = 0 then zds
        else sq_last xds (xn - 1) (fold (sq_step xds) [0..<xn - 1] zds))"

lemma uint_BIGDN_less: "uint (BIGDN x) < 4294967296"
  using uint_bounded [of x] by (simp add: uint_BIGDN int_div_less)

text \<open>
  The accumulator of a row just fits: \<open>vl\<close> is even, so with \<open>B = 2 ^ 32\<close> the largest value is
  \<open>(2 B - 2) + (B - 1) + (B - 2) (B - 1) = B ^ 2 - 1\<close>.
\<close>

lemma sq_row_spec:
  assumes "length xds \<le> length zds" "uint vl \<le> 4294967294" "uint c \<le> 8589934590" "sq_row vl vh xds zds c = (zds', c')"
  shows "length zds' = length xds \<and> uint c' \<le> 8589934590 \<and>
    bval zds' + 4294967296 ^ length xds * uint c' =
      bval (take (length xds) zds) + (uint vl + 4294967296 * of_bool vh) * bval xds + uint c"
  using assms(1,3,4)
proof (induction xds arbitrary: zds c zds' c')
  case (Cons x xds)
  obtain z zs where zds: "zds = z # zs" "length xds \<le> length zs" using Cons.prems(1) by (cases zds) auto
  define m where "m = c + (ucast z + ucast vl * ucast x)"
  define c2 where "c2 = (if vh then BIGDN m + ucast x else BIGDN m)"
  have x: "uint x \<le> 4294967295" "0 \<le> uint x" and z: "uint z \<le> 4294967295" "0 \<le> uint z" using uint_digit by auto
  have vx: "uint vl * uint x \<le> 4294967294 * 4294967295"
    using assms(2) x by (intro mult_mono) simp_all
  have "uint (ucast z + ucast vl * ucast x :: 64 word) = uint z + uint vl * uint x"
    using vx z uint_mult_digits [of vl x] by (subst uint_add_fits) simp_all
  then have m: "uint m = uint c + uint z + uint vl * uint x"
    using vx z Cons.prems(2) unfolding m_def by (subst uint_add_fits) simp_all
  have dn: "uint (BIGDN m) \<le> 4294967295"
    using uint_bounded [of m] by (simp add: uint_BIGDN int_div_less flip: zless_add1_eq)
  then have c2: "uint c2 = uint (BIGDN m) + of_bool vh * uint x" "uint c2 \<le> 8589934590"
    using x by (auto simp: c2_def uint_add_fits)
  obtain zs' where zs': "sq_row vl vh xds zs c2 = (zs', c')" "zds' = BIGLO m # zs'"
    using Cons.prems(3) unfolding zds(1) sq_row.simps Let_def m_def [symmetric] c2_def [symmetric]
    by (auto split: prod.splits)
  show ?case
    using Cons.IH [OF zds(2) c2(2) zs'(1)] uint_lo_dn [of m] m c2(1)
    by (simp add: zs'(2) zds(1) algebra_simps)
qed simp

lemma sq_step_spec:
  assumes i: "i + 1 < length xds" "2 * length xds \<le> length zds" and top: "bval zds < 4294967296 ^ (i + length xds + 1)"
  shows "length (sq_step xds i zds) = length zds \<and>
    bval (sq_step xds i zds) = bval zds + 4294967296 ^ (2 * i) *
      (uint (xds ! i) * uint (xds ! i) + 4294967296 * (2 * uint (xds ! i) * bval (drop (i + 1) xds)))"
proof (cases "xds ! i = 0")
  case True
  then show ?thesis by (simp add: sq_step_def)
next
  case False
  let ?B = "4294967296 :: int" and ?x = "xds ! i" and ?xn = "length xds" and ?X = "bval (drop (i + 1) xds)"
  define T where "T = bval zds + ?B ^ (2 * i) * (uint ?x * uint ?x + ?B * (2 * uint ?x * ?X))"
  have x: "0 \<le> uint ?x" "uint ?x \<le> 4294967295" using uint_digit by auto
  define c :: BDIGIT_DBL where "c = ucast (zds ! (i + i)) + ucast ?x * ucast ?x"
  have c: "uint c = uint (zds ! (i + i)) + uint ?x * uint ?x"
    using mult_digits_le [of ?x ?x] uint_digit(3) [of "zds ! (i + i)"] uint_mult_digits [of ?x ?x]
    unfolding c_def by (subst uint_add_fits) simp_all
  define z1 where "z1 = zds[i + i := BIGLO c]"
  have z1: "length z1 = length zds" "bval z1 + ?B ^ (2 * i + 1) * uint (BIGDN c) = bval zds + ?B ^ (2 * i) * (uint ?x * uint ?x)"
  proof -
    have "bval z1 = bval zds + ?B ^ (2 * i) * (uint (BIGLO c) - uint (zds ! (i + i)))"
      using i bval_update [of "i + i" zds "BIGLO c"] by (simp add: z1_def mult_2)
    also have "uint (BIGLO c) = uint (zds ! (i + i)) + uint ?x * uint ?x - ?B * uint (BIGDN c)" using uint_lo_dn [of c] c by simp
    finally show "bval z1 + ?B ^ (2 * i + 1) * uint (BIGDN c) = bval zds + ?B ^ (2 * i) * (uint ?x * uint ?x)"
      by (simp add: algebra_simps)
  qed (simp add: z1_def)
  define v where "v = ucast ?x * (2 :: BDIGIT_DBL)"
  have v: "uint v = 2 * uint ?x" using x by (simp add: v_def uint_mult_fits)
  have vl: "uint (BIGLO v) \<le> 4294967294" "uint (BIGLO v) + ?B * of_bool (BIGDN v \<noteq> 0) = 2 * uint ?x"
  proof -
    have "uint (BIGDN v) < 2" unfolding uint_BIGDN v using x by (intro int_div_less) simp_all
    then have "uint (BIGDN v) = 0 \<or> uint (BIGDN v) = 1" using uint_ge_0 [of "BIGDN v"] by linarith
    then show "uint (BIGLO v) + ?B * of_bool (BIGDN v \<noteq> 0) = 2 * uint ?x"
      using uint_lo_dn [of v] v by (auto simp: uint_0_iff)
    then have "uint (BIGLO v) = 2 * (uint ?x - 2147483648 * of_bool (BIGDN v \<noteq> 0))" by simp
    then show "uint (BIGLO v) \<le> 4294967294" using uint_digit(3) [of "BIGLO v"] by presburger
  qed
  obtain row c2 where row: "sq_row (BIGLO v) (BIGDN v \<noteq> 0) (drop (i + 1) xds) (drop (i + (i + 1)) z1) (BIGDN c) = (row, c2)"
    by fastforce
  have "uint (BIGDN c) \<le> 8589934590" using uint_bounded [of c] by (simp add: uint_BIGDN)
  moreover have len: "length (drop (i + 1) xds) \<le> length (drop (i + (i + 1)) z1)" using i z1(1) by simp
  moreover have ii: "i + (i + 1) = 2 * i + 1" by simp
  ultimately have r: "length row = ?xn - (i + 1)" "uint c2 \<le> 8589934590"
    "bval row + ?B ^ (?xn - (i + 1)) * uint c2 = bval (take (?xn - (i + 1)) (drop (2 * i + 1) z1)) + 2 * uint ?x * ?X + uint (BIGDN c)"
    using sq_row_spec [OF len vl(1) _ row] unfolding vl(2) length_drop ii by blast+
  define z2 where "z2 = bary_put (2 * i + 1) row z1"
  have z2: "length z2 = length zds" "bval z2 + ?B ^ (i + ?xn) * uint c2 = T"
    and keep: "z2 ! (i + ?xn + 1) = zds ! (i + ?xn + 1)"
  proof -
    have fit: "2 * i + 1 + length row \<le> length z1" using i z1(1) r(1) by simp
    show "length z2 = length zds" using fit z1(1) by (simp add: z2_def)
    have "i + ?xn = (2 * i + 1) + (?xn - (i + 1))" using i by simp
    then have p: "?B ^ (i + ?xn) = ?B ^ (2 * i + 1) * ?B ^ (?xn - (i + 1))" by (metis power_add)
    have "bval z2 = bval z1 + ?B ^ (2 * i + 1) * (bval row - bval (take (length row) (drop (2 * i + 1) z1)))"
      unfolding z2_def by (rule bval_put [OF fit])
    also have "bval row - bval (take (length row) (drop (2 * i + 1) z1)) =
        2 * uint ?x * ?X + uint (BIGDN c) - ?B ^ (?xn - (i + 1)) * uint c2" using r by simp
    finally show "bval z2 + ?B ^ (i + ?xn) * uint c2 = T" using z1(2) by (simp add: p T_def algebra_simps)
    show "z2 ! (i + ?xn + 1) = zds ! (i + ?xn + 1)"
      using i r(1) z1(1) nth_bary_put_above [of "2 * i + 1" row "i + ?xn + 1" z1] by (simp add: z2_def z1_def)
  qed
  have code: "sq_step xds i zds = (if c2 \<noteq> 0 then
      let c = c2 + ucast (z2 ! (i + ?xn)); z = z2[i + ?xn := BIGLO c]; c = BIGDN c
      in if c \<noteq> 0 then z[i + ?xn + 1 := z ! (i + ?xn + 1) + ucast c] else z
    else z2)"
    using False unfolding sq_step_def Let_def c_def [symmetric] z1_def [symmetric] v_def [symmetric] row prod.case
    by (simp add: z2_def mult_2)
  show ?thesis
  proof (cases "c2 = 0")
    case True
    then show ?thesis using z2 by (simp add: code T_def)
  next
    case c2: False
    define c3 where "c3 = c2 + ucast (z2 ! (i + ?xn))"
    define z3 where "z3 = z2[i + ?xn := BIGLO c3]"
    have c3: "uint c3 = uint c2 + uint (z2 ! (i + ?xn))"
      using r(2) uint_digit(3) [of "z2 ! (i + ?xn)"] by (simp add: c3_def uint_add_fits)
    have "bval z3 = bval z2 + ?B ^ (i + ?xn) * (uint (BIGLO c3) - uint (z2 ! (i + ?xn)))"
      unfolding z3_def using i z2(1) by (intro bval_update) simp
    also have "uint (BIGLO c3) = uint c2 + uint (z2 ! (i + ?xn)) - ?B * uint (BIGDN c3)" using uint_lo_dn [of c3] c3 by simp
    finally have z3: "length z3 = length zds" "bval z3 + ?B ^ (i + ?xn + 1) * uint (BIGDN c3) = T"
      using z2 by (simp_all add: z3_def algebra_simps)
    show ?thesis
    proof (cases "BIGDN c3 = 0")
      case True
      then have "sq_step xds i zds = z3" using c2 by (simp add: code c3_def z3_def Let_def)
      then show ?thesis using z3 True by (simp add: T_def)
    next
      case False
      have small: "uint (BIGDN c3) \<le> 2" using c3 r(2) uint_digit(3) [of "z2 ! (i + ?xn)"] by (simp add: uint_BIGDN)
      have "z3 ! (i + ?xn + 1) = 0" using keep bval_nth_zero [OF top, of "i + ?xn + 1"] i by (simp add: z3_def)
      then have "sq_step xds i zds = z3[i + ?xn + 1 := ucast (BIGDN c3)]"
        using c2 False by (simp add: code c3_def [symmetric] z3_def [symmetric] Let_def)
      moreover have "uint (ucast (BIGDN c3) :: BDIGIT) = uint (BIGDN c3)"
        using small by (simp add: unsigned_ucast_eq take_bit_int_eq_self_iff)
      moreover have "bval (z3[i + ?xn + 1 := ucast (BIGDN c3)]) = bval z3 + ?B ^ (i + ?xn + 1) * (uint (ucast (BIGDN c3) :: BDIGIT) - uint (z3 ! (i + ?xn + 1)))"
        using i z3(1) by (intro bval_update) simp
      ultimately show ?thesis using z3 \<open>z3 ! (i + ?xn + 1) = 0\<close> by (simp add: T_def)
    qed
  qed
qed

lemma sq_last_spec:
  assumes i: "i + 1 = length xds" "2 * length xds \<le> length zds"
    and top: "bval zds + 4294967296 ^ (2 * i) * (uint (xds ! i) * uint (xds ! i)) < 4294967296 ^ (2 * length xds)"
  shows "length (sq_last xds i zds) = length zds \<and>
    bval (sq_last xds i zds) = bval zds + 4294967296 ^ (2 * i) * (uint (xds ! i) * uint (xds ! i))"
proof (cases "xds ! i = 0")
  case True
  then show ?thesis by (simp add: sq_last_def)
next
  case False
  let ?B = "4294967296 :: int" and ?x = "xds ! i"
  define c :: BDIGIT_DBL where "c = ucast (zds ! (i + i)) + ucast ?x * ucast ?x"
  have c: "uint c = uint (zds ! (i + i)) + uint ?x * uint ?x"
    using mult_digits_le [of ?x ?x] uint_digit(3) [of "zds ! (i + i)"] uint_mult_digits [of ?x ?x]
    unfolding c_def by (subst uint_add_fits) simp_all
  define z1 where "z1 = zds[i + i := BIGLO c]"
  have "bval z1 = bval zds + ?B ^ (2 * i) * (uint (BIGLO c) - uint (zds ! (i + i)))"
    using i bval_update [of "i + i" zds "BIGLO c"] by (simp add: z1_def mult_2)
  also have "uint (BIGLO c) = uint (zds ! (i + i)) + uint ?x * uint ?x - ?B * uint (BIGDN c)" using uint_lo_dn [of c] c by simp
  finally have z1: "length z1 = length zds" "bval z1 + ?B ^ (2 * i + 1) * uint (BIGDN c) = bval zds + ?B ^ (2 * i) * (uint ?x * uint ?x)"
    by (simp_all add: z1_def algebra_simps)
  have ix: "i + length xds = 2 * i + 1" using i by simp
  have code: "sq_last xds i zds = (if BIGDN c \<noteq> 0 then z1[2 * i + 1 := z1 ! (2 * i + 1) + BIGLO (BIGDN c)] else z1)"
    using False unfolding sq_last_def Let_def c_def [symmetric] z1_def [symmetric] ix by simp
  have dn: "uint (BIGLO (BIGDN c)) = uint (BIGDN c)"
    unfolding uint_BIGLO by (intro mod_pos_pos_trivial) (simp_all add: uint_BIGDN_less)
  have fit: "uint (z1 ! (2 * i + 1)) + uint (BIGDN c) < ?B"
  proof (rule ccontr)
    assume "\<not> uint (z1 ! (2 * i + 1)) + uint (BIGDN c) < ?B"
    then have "?B ^ (2 * i + 1) * ?B \<le> ?B ^ (2 * i + 1) * (uint (z1 ! (2 * i + 1)) + uint (BIGDN c))"
      by (intro mult_left_mono) simp_all
    also have "\<dots> \<le> bval z1 + ?B ^ (2 * i + 1) * uint (BIGDN c)"
    proof -
      have "bval z1 = bval (take (2 * i + 1) z1) + ?B ^ (2 * i + 1) * bval (drop (2 * i + 1) z1)"
        using i z1(1) by (intro bval_take_drop) simp
      moreover have "drop (2 * i + 1) z1 = z1 ! (2 * i + 1) # drop (2 * i + 2) z1"
        using i z1(1) Cons_nth_drop_Suc [of "2 * i + 1" z1] by simp
      ultimately show ?thesis by (simp add: algebra_simps)
    qed
    also have "\<dots> < ?B ^ (2 * length xds)" using z1(2) top by simp
    also have "2 * length xds = 2 * i + 1 + 1" using i by simp
    finally show False by simp
  qed
  then have "uint (z1 ! (2 * i + 1) + BIGLO (BIGDN c)) = uint (z1 ! (2 * i + 1)) + uint (BIGDN c)"
    using dn by (subst uint_add_lem [THEN iffD1]) simp_all
  moreover have "2 * i + 1 < length z1" using i z1(1) by simp
  ultimately have "bval (z1[2 * i + 1 := z1 ! (2 * i + 1) + BIGLO (BIGDN c)]) = bval z1 + ?B ^ (2 * i + 1) * uint (BIGDN c)"
    by (simp add: bval_update)
  then show ?thesis using z1 by (auto simp: code)
qed

text \<open>After \<open>i\<close> rows the array holds the square less that of the digits from \<open>i\<close> on.\<close>

lemma sq_rows_spec:
  assumes "i + 1 \<le> length xds" "2 * length xds \<le> zn"
  shows "length (fold (sq_step xds) [0..<i] (replicate zn 0)) = zn \<and>
    bval (fold (sq_step xds) [0..<i] (replicate zn 0)) =
      bval xds * bval xds - 4294967296 ^ (2 * i) * (bval (drop i xds) * bval (drop i xds))"
  using assms(1)
proof (induction i)
  case 0
  then show ?case by simp
next
  case (Suc i)
  let ?B = "4294967296 :: int" and ?x = "uint (xds ! i)" and ?X = "bval (drop (Suc i) xds)" and ?L = "bval (take i xds)"
  define z where "z = fold (sq_step xds) [0..<i] (replicate zn 0)"
  have z: "length z = zn" "bval z = bval xds * bval xds - ?B ^ (2 * i) * (bval (drop i xds) * bval (drop i xds))"
    using Suc by (simp_all add: z_def)
  have X: "bval xds = ?L + ?B ^ i * bval (drop i xds)" using Suc.prems by (intro bval_take_drop) simp
  have d: "bval (drop i xds) = ?x + ?B * ?X" using Suc.prems Cons_nth_drop_Suc [of i xds] by (metis Suc_leD Suc_le_eq add.commute bval.simps(2) plus_1_eq_Suc)
  have "?B ^ (2 * i) = ?B ^ i * ?B ^ i" by (simp add: mult_2 power_add)
  then have "bval z = ?L * ?L + 2 * ?L * (?B ^ i * bval (drop i xds))" using z(2) X by (simp add: algebra_simps)
  also have "\<dots> < ?B ^ (i + length xds + 1)"
  proof -
    define Q P where "Q = ?B ^ i * bval (drop i xds)" and "P = ?B ^ i * ?B ^ length xds"
    have l: "?L \<le> ?B ^ i" "0 \<le> ?L" and q: "0 \<le> Q" using bval_take_less [of i xds] Suc.prems by (simp_all add: Q_def)
    have "bval xds = ?L + Q" using X by (simp add: Q_def)
    then have "Q \<le> ?B ^ length xds" "?L \<le> ?B ^ length xds" using l(2) q bval_less [of xds] by linarith+
    then have "?L * ?L \<le> P" "?L * Q \<le> P" using l q by (auto simp: P_def intro!: mult_mono)
    moreover have "0 < P" by (simp add: P_def)
    moreover have "?B ^ (i + length xds + 1) = ?B * P" by (simp add: P_def power_add)
    moreover have "2 * ?L * Q = 2 * (?L * Q)" by simp
    ultimately show ?thesis unfolding Q_def [symmetric] by linarith
  qed
  finally have "bval z < ?B ^ (i + length xds + 1)" .
  then have "length (sq_step xds i z) = zn \<and>
    bval (sq_step xds i z) = bval z + ?B ^ (2 * i) * (?x * ?x + ?B * (2 * ?x * ?X))"
    using sq_step_spec [of i xds z] Suc.prems assms(2) z(1) by simp
  moreover have "?B ^ (2 * Suc i) = ?B ^ (2 * i) * (?B * ?B)" by simp
  ultimately show ?case using z(2) d by (simp add: z_def [symmetric] algebra_simps)
qed

lemma bary_sq_fast_spec:
  assumes "2 * length xds \<le> zn"
  shows "length (bary_sq_fast zn xds) = zn \<and> bval (bary_sq_fast zn xds) = bval xds * bval xds"
proof (cases "xds = []")
  case True
  then show ?thesis by (simp add: bary_sq_fast_def)
next
  case False
  let ?B = "4294967296 :: int"
  define i where "i = length xds - 1"
  have i: "i + 1 = length xds" using False by (simp add: i_def)
  define z where "z = fold (sq_step xds) [0..<i] (replicate zn 0)"
  have "drop i xds = [xds ! i]" using i Cons_nth_drop_Suc [of i xds] by simp
  then have z: "length z = zn" "bval z + ?B ^ (2 * i) * (uint (xds ! i) * uint (xds ! i)) = bval xds * bval xds"
    using sq_rows_spec [of i xds zn] assms i by (simp_all add: z_def)
  have "bval xds * bval xds < ?B ^ length xds * ?B ^ length xds"
    using bval_less [of xds] by (intro mult_strict_mono) simp_all
  then have "bval xds * bval xds < ?B ^ (2 * length xds)" by (simp add: mult_2 power_add)
  then have "length (sq_last xds i z) = zn \<and> bval (sq_last xds i z) = bval xds * bval xds"
    using sq_last_spec [OF i, of z] z assms by simp
  moreover have "bary_sq_fast zn xds = sq_last xds i z" using False by (simp add: bary_sq_fast_def i_def z_def Let_def)
  ultimately show ?thesis by simp
qed

end
