(* ===== verification/Bary_Balance.thy ===== *)
theory Bary_Balance
  imports Bary_Mul
begin

text \<open>
  The interface of the multiplication routines of bignum.c (\<open>mulfunc_t\<close>) and the multiplication that
  slices the longer operand (\<open>bary_mul_balance_with_mulfunc\<close>), which calls any routine of that interface.

  A routine gets the old digits of the result array, \<open>length zds\<close> being \<open>zn\<close>, and the number \<open>wn\<close> of
  digits of the work area; what the work area holds before a call is never read.  The flag \<open>sq\<close> tells that
  both operands are the same array (\<open>xds == yds && xn == yn\<close>).  A routine ends in \<open>rb_bug\<close> when the
  work area is too small; the recursive routines carry a bound on their depth.
\<close>

section \<open>Results of the multiplication routines\<close>

datatype mul_failure =
  Wds_not_enough nat nat
| Out_of_fuel

type_synonym mul_result = "mul_failure + BDIGIT list"
type_synonym mulfunc_t = "bool \<Rightarrow> BDIGIT list \<Rightarrow> BDIGIT list \<Rightarrow> BDIGIT list \<Rightarrow> nat \<Rightarrow> mul_result"

definition mul_then :: "mul_failure + 'a \<Rightarrow> ('a \<Rightarrow> mul_failure + 'b) \<Rightarrow> mul_failure + 'b" where
  "mul_then m f = (case m of Inl e \<Rightarrow> Inl e | Inr zds \<Rightarrow> f zds)"

text \<open>The result satisfies \<open>P\<close>; the lack of work area is a possible end only where \<open>bug\<close> allows it.\<close>

definition mul_post :: "bool \<Rightarrow> mul_failure + 'a \<Rightarrow> ('a \<Rightarrow> bool) \<Rightarrow> bool" where
  "mul_post bug m P = (case m of Inr zds \<Rightarrow> P zds | Inl (Wds_not_enough _ _) \<Rightarrow> bug | Inl Out_of_fuel \<Rightarrow> False)"

lemma mul_post_simps [simp]:
  "mul_post bug (Inr zds) P = P zds" "mul_post bug (Inl (Wds_not_enough wn xn)) P = bug" "\<not> mul_post bug (Inl Out_of_fuel) P"
  by (simp_all add: mul_post_def)

lemma mul_then_simps [simp]: "mul_then (Inr zds) f = f zds" "mul_then (Inl e) f = Inl e"
  by (simp_all add: mul_then_def)

lemma mul_post_then:
  assumes "mul_post bug m Q" "\<And>zds. m = Inr zds \<Longrightarrow> Q zds \<Longrightarrow> mul_post bug (f zds) P"
  shows "mul_post bug (mul_then m f) P"
  using assms by (simp add: mul_post_def mul_then_def split: sum.splits mul_failure.splits)

lemma mul_post_iff: "mul_post b m P \<longleftrightarrow> (\<exists>z. m = Inr z \<and> P z) \<or> b \<and> (\<exists>wn n. m = Inl (Wds_not_enough wn n))"
  by (auto simp: mul_post_def split: sum.splits mul_failure.splits)

lemma mul_post_mono: "mul_post bug m Q \<Longrightarrow> (\<And>zds. Q zds \<Longrightarrow> P zds) \<Longrightarrow> (bug \<Longrightarrow> bug') \<Longrightarrow> mul_post bug' m P"
  by (simp add: mul_post_def split: sum.splits mul_failure.splits)

section \<open>Slicing the longer operand\<close>

text \<open>
  The product of \<open>xds\<close> with a slice of \<open>yds\<close> is computed above its place when there is room in \<open>zds\<close>,
  else in place, the digits there being saved in the work area.
\<close>

definition slice_size :: "nat \<Rightarrow> nat \<Rightarrow> nat \<Rightarrow> nat" where
  "slice_size xn yn n = (if xn > yn - n then yn - n else xn)"

lemma slice_size: "n < yn \<Longrightarrow> slice_size xn yn n \<le> xn" "n < yn \<Longrightarrow> n + slice_size xn yn n \<le> yn"
  "n < yn \<Longrightarrow> 0 < xn \<Longrightarrow> 0 < slice_size xn yn n"
  by (auto simp: slice_size_def)

definition balance_step :: "mulfunc_t \<Rightarrow> BDIGIT list \<Rightarrow> BDIGIT list \<Rightarrow> nat \<Rightarrow> nat \<Rightarrow> BDIGIT list \<Rightarrow> mul_result" where
  "balance_step mulfunc xds yds wn n zds =
    (let xn = length xds; yn = length yds; zn = length zds; r = slice_size xn yn n; tn = xn + r
     in if 2 * (xn + r) \<le> zn - n then
          mul_then (mulfunc False (take tn (drop (n + xn + r) zds)) xds (take r (drop n yds)) wn) (\<lambda>tds.
            let zds = bary_put (n + xn + r) tds zds;
                zds = bary_put (n + xn) (replicate r 0) zds
            in Inr (bary_put n (fst (bary_add tn (take tn (drop n zds)) tds)) zds))
        else if wn < xn then Inl (Wds_not_enough wn xn)
        else
          let wds = take xn (drop n zds)
          in mul_then (mulfunc False (take tn (drop n zds)) xds (take r (drop n yds)) (wn - xn)) (\<lambda>tds.
               Inr (bary_put n (fst (bary_add tn tds wds)) zds)))"

text \<open>The first argument bounds the turns of the loop.\<close>

primrec balance_loop :: "nat \<Rightarrow> mulfunc_t \<Rightarrow> BDIGIT list \<Rightarrow> BDIGIT list \<Rightarrow> nat \<Rightarrow> nat \<Rightarrow> BDIGIT list \<Rightarrow> mul_result" where
  "balance_loop 0 mulfunc xds yds wn n zds = Inl Out_of_fuel"
| "balance_loop (Suc fuel) mulfunc xds yds wn n zds =
    (if length yds > n then
       mul_then (balance_step mulfunc xds yds wn n zds) (\<lambda>zds.
         balance_loop fuel mulfunc xds yds wn (n + slice_size (length xds) (length yds) n) zds)
     else Inr zds)"

definition bary_mul_balance_with_mulfunc :: "mulfunc_t \<Rightarrow> BDIGIT list \<Rightarrow> BDIGIT list \<Rightarrow> BDIGIT list \<Rightarrow> nat \<Rightarrow> mul_result" where
  "bary_mul_balance_with_mulfunc mulfunc zds xds yds wn =
    (let xn = length xds; yn = length yds; zn = length zds;
         zds = bary_put 0 (replicate xn 0) zds;
         r = (if yn mod xn \<noteq> 0 then yn mod xn else xn);
         wn = (if wn < xn \<and> 2 * xn + yn + r > zn then xn else wn)
     in mul_then (balance_loop (Suc yn) mulfunc xds yds wn 0 zds) (\<lambda>zds.
          Inr (bary_put (xn + yn) (replicate (zn - (xn + yn)) 0) zds)))"

declare balance_loop.simps(2) [simp del]

text \<open>
  The law of the interface, for operands of fewer than \<open>bound\<close> digits together: a square never lacks
  a work area.
\<close>

locale multiplier =
  fixes mulfunc :: mulfunc_t and bound :: nat and bug :: bool
  assumes product: "length xds + length yds \<le> length zds \<Longrightarrow> length xds + length yds < bound \<Longrightarrow> (sq \<Longrightarrow> xds = yds) \<Longrightarrow>
    mul_post (bug \<and> \<not> sq) (mulfunc sq zds xds yds wn) (\<lambda>z. length z = length zds \<and> bval z = bval xds * bval yds)"

lemma mult_add_less:
  assumes "length tds = length xs" "bval tds < 4294967296 ^ n" "bval xs = bval xds * bval yds" "length xds = n" "length xs = n + length yds"
  shows "bval tds + bval xs < 4294967296 ^ length xs"
proof -
  let ?X = "4294967296 ^ n :: int" and ?Y = "4294967296 ^ length yds :: int"
  have "bval xds \<le> ?X - 1" "bval yds \<le> ?Y - 1" using bval_less [of xds] bval_less [of yds] assms(4) by simp_all
  then have "bval xs \<le> (?X - 1) * (?Y - 1)" unfolding assms(3) by (intro mult_mono) simp_all
  moreover have "(?X - 1) * (?Y - 1) = ?X * ?Y - ?X - ?Y + 1" by (simp add: algebra_simps)
  moreover have "1 \<le> ?Y" by simp
  ultimately show ?thesis using assms(2) unfolding assms(5) power_add by linarith
qed

text \<open>Adding a product that is above the digits at hand never overflows.\<close>

lemma add_product_spec:
  assumes "length hs = n" "length xds = n" "length tds = n + length yds" "bval tds = bval xds * bval yds"
    and "bval ws = bval hs" "length ws \<le> n + length yds"
  shows "length (fst (bary_add (n + length yds) ws tds)) = n + length yds"
    "bval (fst (bary_add (n + length yds) ws tds)) = bval hs + bval tds"
    "fst (bary_add (n + length yds) tds ws) = fst (bary_add (n + length yds) ws tds)"
proof -
  let ?m = "n + length yds"
  have small: "bval hs + bval tds < 4294967296 ^ ?m"
    using mult_add_less [of "hs @ replicate (length yds) 0" tds n xds yds] assms bval_less [of hs]
    by (simp add: bval_append)
  have *: "length (fst (bary_add ?m as bs)) = ?m \<and> bval (fst (bary_add ?m as bs)) = bval hs + bval tds"
    if "length as \<le> ?m" "length bs \<le> ?m" "bval as + bval bs = bval hs + bval tds" for as bs
  proof -
    obtain z c where z: "bary_add ?m as bs = (z, c)" by fastforce
    have s: "length z = ?m" "bval z + of_bool c * 4294967296 ^ ?m = bval hs + bval tds"
      using bary_addc_spec [OF that(1,2) z [unfolded bary_add_def]] that(3) by simp_all
    then have "\<not> c" using small bval_nonneg [of z] by (cases c) simp_all
    then show ?thesis using s z by simp
  qed
  have len: "length tds \<le> ?m" using assms(3) by simp
  show "length (fst (bary_add ?m ws tds)) = ?m" "bval (fst (bary_add ?m ws tds)) = bval hs + bval tds"
    using * [OF assms(6) len] assms(5) by simp_all
  then show "fst (bary_add ?m tds ws) = fst (bary_add ?m ws tds)"
    using * [OF len assms(6)] assms(5) by (intro bval_inject [THEN iffD1]) simp_all
qed

text \<open>What a turn of the loop has to leave: the digits up to \<open>xn + n\<close> are the product with the digits below \<open>n\<close>.\<close>

definition balance_inv :: "BDIGIT list \<Rightarrow> BDIGIT list \<Rightarrow> nat \<Rightarrow> nat \<Rightarrow> BDIGIT list \<Rightarrow> bool" where
  "balance_inv xds yds zn n zds \<longleftrightarrow>
    length zds = zn \<and> bval (take (length xds + n) zds) = bval xds * bval (take n yds)"

lemma balance_slice_step:
  assumes inv: "balance_inv xds yds zn n zds" and len: "n < length yds" "length xds + length yds \<le> zn"
    and r: "r = slice_size (length xds) (length yds) n"
    and new: "length zds' = zn" "take n zds' = take n zds" "take (length xds + r) (drop n zds') = seg"
    and seg: "bval seg = bval (take (length xds) (drop n zds)) + bval xds * bval (take r (drop n yds))"
  shows "balance_inv xds yds zn (n + r) zds'"
proof -
  let ?xn = "length xds" and ?B = "4294967296 :: int"
  have l: "length zds = zn" using inv by (simp add: balance_inv_def)
  have rn: "n + r \<le> length yds" unfolding r by (rule slice_size(2) [OF len(1)])
  have "take (?xn + (n + r)) zds' = take n zds' @ take (?xn + r) (drop n zds')" by (metis take_add add.left_commute)
  then have "bval (take (?xn + (n + r)) zds') = bval (take n zds) + ?B ^ n * bval seg"
    using new len inv by (simp add: balance_inv_def bval_append min_absorb2 del: take_append)
  moreover have "take (?xn + n) zds = take n zds @ take ?xn (drop n zds)" by (metis take_add add.commute)
  then have "bval (take (?xn + n) zds) = bval (take n zds) + ?B ^ n * bval (take ?xn (drop n zds))"
    using len l by (simp add: bval_append min_absorb2 del: take_append)
  then have "bval xds * bval (take n yds) = bval (take n zds) + ?B ^ n * bval (take ?xn (drop n zds))"
    using inv by (simp add: balance_inv_def)
  moreover have "take (n + r) yds = take n yds @ take r (drop n yds)" by (rule take_add)
  then have "bval (take (n + r) yds) = bval (take n yds) + ?B ^ n * bval (take r (drop n yds))"
    using len by (simp add: bval_append min_absorb2 del: take_append)
  ultimately show ?thesis using new(1) by (simp add: balance_inv_def seg algebra_simps)
qed

context multiplier
begin

lemma balance_step:
  assumes inv: "balance_inv xds yds zn n zds" and len: "n < length yds" "length xds + length yds \<le> zn" "length xds \<le> length yds"
    and bound: "length xds + length xds < bound"
    and bug: "\<And>r. r = slice_size (length xds) (length yds) n \<Longrightarrow> zn - n < 2 * (length xds + r) \<Longrightarrow> wn < length xds \<Longrightarrow> bug"
  shows "mul_post bug (balance_step mulfunc xds yds wn n zds) (balance_inv xds yds zn (n + slice_size (length xds) (length yds) n))"
proof -
  define xn where "xn = length xds"
  define r where "r = slice_size xn (length yds) n"
  have r': "r = slice_size (length xds) (length yds) n" by (simp add: r_def xn_def)
  define ys where "ys = take r (drop n yds)"
  have r: "r \<le> xn" "n + r \<le> length yds" unfolding r_def xn_def using slice_size(1,2) [OF len(1)] by blast+
  have lens: "length zds = zn" "length ys = r" "n + xn + r \<le> zn" using inv len r by (auto simp: balance_inv_def ys_def xn_def)
  have hs: "length (take xn (drop n zds)) = xn" using lens by simp
  have mul: "mul_post bug (mulfunc False (take (xn + r) (drop k zds)) xds ys w)
      (\<lambda>z. length z = xn + r \<and> bval z = bval xds * bval ys)" if "k + xn + r \<le> zn" for k w
    using product [of xds ys "take (xn + r) (drop k zds)" False w] that lens bound r(1) by (simp add: xn_def min_absorb2)
  show ?thesis
  proof (cases "2 * (xn + r) \<le> zn - n")
    case True
    have room: "n + xn + r + xn + r \<le> zn" using True lens(3) by simp
    show ?thesis
      unfolding balance_step_def Let_def xn_def [symmetric] r_def [symmetric] ys_def [symmetric] lens(1)
      unfolding if_P [OF True]
    proof (rule mul_post_then [OF mul [OF room]], unfold mul_post_simps)
      fix tds assume t: "length tds = xn + r \<and> bval tds = bval xds * bval ys"
      define z1 where "z1 = bary_put (n + xn) (replicate r 0) (bary_put (n + xn + r) tds zds)"
      have low: "take (n + xn) z1 = take (n + xn) zds" using t lens room by (simp add: z1_def take_bary_put)
      have "take (xn + r) (drop n z1) = drop n (take (n + xn) z1) @ take r (drop (n + xn) z1)"
        using take_add [of xn r "drop n z1"] by (simp add: drop_take add.commute)
      also have "take r (drop (n + xn) z1) = replicate r 0"
        using segment_bary_put [of "n + xn" "bary_put (n + xn + r) tds zds" "replicate r 0"] t lens room by (simp add: z1_def)
      finally have z1: "take (xn + r) (drop n z1) = take xn (drop n zds) @ replicate r 0" "take n z1 = take n zds" "length z1 = zn"
        using low t lens room
        by (simp_all add: drop_take) (metis min.absorb1 le_add1 take_take, simp add: z1_def)
      have "bval (take (xn + r) (drop n z1)) = bval (take xn (drop n zds))" unfolding z1(1) by (simp add: bval_append)
      note add = add_product_spec(1,2) [OF hs xn_def [symmetric] _ _ this, of tds ys, unfolded lens(2)]
      define s where "s = fst (bary_add (xn + r) (take (xn + r) (drop n z1)) tds)"
      have s: "length s = xn + r" "bval s = bval (take xn (drop n zds)) + bval xds * bval ys"
        using add t by (simp_all add: s_def)
      show "balance_inv xds yds zn (n + r) (bary_put n s z1)"
        by (rule balance_slice_step [OF inv len(1,2) r', of _ s])
          (use s z1 lens in \<open>simp_all add: bary_put_def ys_def flip: xn_def\<close>)
    qed
  next
    case False
    show ?thesis
      unfolding balance_step_def Let_def xn_def [symmetric] r_def [symmetric] ys_def [symmetric] lens(1) if_not_P [OF False]
    proof (cases "wn < xn")
      case True
      then show "mul_post bug (if wn < xn then Inl (Wds_not_enough wn xn) else
          mul_then (mulfunc False (take (xn + r) (drop n zds)) xds ys (wn - xn))
            (\<lambda>tds. Inr (bary_put n (fst (bary_add (xn + r) tds (take xn (drop n zds)))) zds))) (balance_inv xds yds zn (n + r))"
        using bug [OF r'] False by (simp add: xn_def)
    next
      case wn: False
      show "mul_post bug (if wn < xn then Inl (Wds_not_enough wn xn) else
          mul_then (mulfunc False (take (xn + r) (drop n zds)) xds ys (wn - xn))
            (\<lambda>tds. Inr (bary_put n (fst (bary_add (xn + r) tds (take xn (drop n zds)))) zds))) (balance_inv xds yds zn (n + r))"
        unfolding if_not_P [OF wn]
      proof (rule mul_post_then [OF mul [OF lens(3)]], unfold mul_post_simps)
        fix tds assume t: "length tds = xn + r \<and> bval tds = bval xds * bval ys"
        define s where "s = fst (bary_add (xn + r) tds (take xn (drop n zds)))"
        have s: "length s = xn + r" "bval s = bval (take xn (drop n zds)) + bval xds * bval ys"
          using add_product_spec [OF hs xn_def [symmetric] _ _ refl, of tds ys] t lens(2) by (simp_all add: s_def)
        show "balance_inv xds yds zn (n + r) (bary_put n s zds)"
          by (rule balance_slice_step [OF inv len(1,2) r', of _ s])
            (use s lens in \<open>simp_all add: bary_put_def ys_def flip: xn_def\<close>)
      qed
    qed
  qed
qed

end

lemma last_slice:
  assumes "0 < xn" "xn dvd n" "n < (yn :: nat)"
  defines "r \<equiv> if yn mod xn \<noteq> 0 then yn mod xn else xn"
  shows "n + r \<le> yn" "slice_size xn yn n = (if n + r = yn then r else xn)"
proof -
  obtain k where k: "n = xn * k" using assms(2) by blast
  have y: "yn = xn * (yn div xn) + yn mod xn" by simp
  have m: "yn mod xn < xn" using assms(1) by simp
  have "n + r \<le> yn \<and> (slice_size xn yn n = (if n + r = yn then r else xn))"
  proof (cases "yn mod xn = 0")
    case True
    then have "k < yn div xn" using assms(3) y k by (metis add.right_neutral mult_less_cancel1)
    then have "xn * Suc k \<le> xn * (yn div xn)" by (intro mult_le_mono) simp_all
    then show ?thesis using True y k by (simp add: r_def slice_size_def)
  next
    case False
    have "k \<le> yn div xn"
    proof (rule ccontr)
      assume "\<not> k \<le> yn div xn"
      then have "xn * Suc (yn div xn) \<le> xn * k" by (intro mult_le_mono) simp_all
      then show False using assms(3) y k m by simp
    qed
    then consider "k = yn div xn" | "Suc k \<le> yn div xn" by linarith
    then show ?thesis
    proof cases
      case 1
      then have "yn - n = yn mod xn" using y k by (metis add_diff_cancel_left')
      then show ?thesis using False m assms(3) by (simp add: r_def slice_size_def)
    next
      case 2
      then have "xn * Suc k \<le> xn * (yn div xn)" by (intro mult_le_mono) simp_all
      then have "n + xn + yn mod xn \<le> yn" using y unfolding k mult_Suc_right by linarith
      then show ?thesis using False m by (simp add: r_def slice_size_def)
    qed
  qed
  then show "n + r \<le> yn" "slice_size xn yn n = (if n + r = yn then r else xn)" by blast+
qed

context multiplier
begin

lemma balance_loop:
  assumes len: "0 < length xds" "length xds \<le> length yds" "length xds + length yds \<le> zn" and bound: "length xds + length xds < bound"
    and bug: "\<And>n r. n < length yds \<Longrightarrow> length xds dvd n \<Longrightarrow> r = slice_size (length xds) (length yds) n \<Longrightarrow>
      zn - n < 2 * (length xds + r) \<Longrightarrow> wn < length xds \<Longrightarrow> bug"
    and inv: "balance_inv xds yds zn n zds" "n \<le> length yds" "n = length yds \<or> length xds dvd n" "length yds - n < fuel"
  shows "mul_post bug (balance_loop fuel mulfunc xds yds wn n zds) (balance_inv xds yds zn (length yds))"
  using inv
proof (induction fuel arbitrary: n zds)
  case (Suc fuel)
  show ?case
  proof (cases "n < length yds")
    case False
    then have "n = length yds" using Suc.prems(2) by simp
    then show ?thesis using Suc.prems(1) by (simp add: balance_loop.simps(2))
  next
    case True
    then have dvd: "length xds dvd n" using Suc.prems(3) by auto
    define r where "r = slice_size (length xds) (length yds) n"
    have r: "n + r \<le> length yds" "0 < r" unfolding r_def using slice_size(2) [OF True] slice_size(3) [OF True len(1)] by blast+
    have "n + r = length yds \<or> length xds dvd n + r"
      using last_slice(2) [OF len(1) dvd True] dvd by (auto simp: r_def slice_size_def split: if_splits)
    moreover have "length yds - (n + r) < fuel" using r Suc.prems(4) True by linarith
    ultimately have "mul_post bug (balance_loop fuel mulfunc xds yds wn (n + r) z) (balance_inv xds yds zn (length yds))"
      if "balance_inv xds yds zn (n + r) z" for z
      using that r(1) by (intro Suc.IH) simp_all
    then show ?thesis
      unfolding balance_loop.simps(2) if_P [OF True] r_def
      by (intro mul_post_then [OF balance_step [OF Suc.prems(1) True len(3,2) bound bug [OF True dvd]]]) simp_all
  qed
qed simp

lemma bary_mul_balance:
  fixes xds yds zds :: "BDIGIT list"
  defines "xn \<equiv> length xds" and "yn \<equiv> length yds" and "zn \<equiv> length zds"
    and "r \<equiv> if length yds mod length xds \<noteq> 0 then length yds mod length xds else length xds"
  assumes len: "0 < xn" "xn \<le> yn" "xn + yn \<le> zn" and bound: "xn + xn < bound"
    and bug: "wn < xn \<Longrightarrow> xn < yn \<Longrightarrow> 2 * xn + yn + r \<le> zn \<Longrightarrow> zn + r < 3 * xn + yn \<Longrightarrow> bug"
  shows "mul_post bug (bary_mul_balance_with_mulfunc mulfunc zds xds yds wn)
    (\<lambda>z. length z = zn \<and> bval z = bval xds * bval yds)"
proof -
  define wn' where "wn' = (if wn < xn \<and> 2 * xn + yn + r > zn then xn else wn)"
  define z0 where "z0 = bary_put 0 (replicate xn 0) zds"
  have "take xn z0 = replicate xn 0" using segment_bary_put [of 0 zds "replicate xn 0"] by (simp add: z0_def)
  then have inv: "balance_inv xds yds zn 0 z0" using len by (simp add: balance_inv_def z0_def zn_def xn_def)
  have bug': bug
    if n: "n < yn" "xn dvd n" and s: "s = slice_size xn yn n" and less: "zn - n < 2 * (xn + s)" and w: "wn' < xn" for n s
  proof -
    have w': "wn < xn" "2 * xn + yn + r \<le> zn" using w by (auto simp: wn'_def split: if_splits)
    have nr: "n + r \<le> yn" "s = (if n + r = yn then r else xn)"
      using last_slice [OF len(1) n(2,1)] unfolding r_def [folded xn_def yn_def] s by blast+
    have "n + r \<noteq> yn"
    proof
      assume "n + r = yn"
      then show False using nr(2) less w'(2) len(3) by simp
    qed
    then have sx: "s = xn" "n + xn \<le> yn" using nr s slice_size(2) [OF n(1), of xn] by auto
    have lt: "n + xn < yn"
      using sx \<open>n + r \<noteq> yn\<close> nr n(2) unfolding r_def xn_def [symmetric] yn_def [symmetric]
      by (metis dvd_add dvd_refl le_neq_implies_less mod_0_imp_dvd dvd_imp_mod_0)
    then have "n + xn + r \<le> yn"
      using last_slice(1) [OF len(1) _ \<open>n + xn < yn\<close>] n(2) unfolding r_def [folded xn_def yn_def] by simp
    then have "zn + r < 3 * xn + yn" using less sx(1) by simp
    moreover have "xn < yn" using lt by simp
    ultimately show bug by (intro bug w')
  qed
  have "mul_post bug (balance_loop (Suc yn) mulfunc xds yds wn' 0 z0) (balance_inv xds yds zn yn)"
    unfolding yn_def using len bound inv bug' unfolding xn_def yn_def by (intro balance_loop) simp_all
  then show ?thesis
    unfolding bary_mul_balance_with_mulfunc_def Let_def xn_def [symmetric] yn_def [symmetric] zn_def [symmetric]
      r_def [folded xn_def yn_def, symmetric] z0_def [symmetric] wn'_def [symmetric]
  proof (rule mul_post_then, unfold mul_post_simps)
    fix z assume z: "balance_inv xds yds zn yn z"
    then have l: "length z = zn" and v: "bval (take (xn + yn) z) = bval xds * bval yds" by (simp_all add: balance_inv_def xn_def yn_def)
    have "bary_put (xn + yn) (replicate (zn - (xn + yn)) 0) z = take (xn + yn) z @ replicate (zn - (xn + yn)) 0"
      using l len(3) by (simp add: bary_put_def)
    then show "length (bary_put (xn + yn) (replicate (zn - (xn + yn)) 0) z) = zn \<and>
        bval (bary_put (xn + yn) (replicate (zn - (xn + yn)) 0) z) = bval xds * bval yds"
      using l v len(3) by (simp add: bval_append)
  qed
qed

end

section \<open>When the work area is too small\<close>

text \<open>
  The test of \<open>bary_mul_balance_with_mulfunc\<close> looks at the last slice only.  When the digits of the result
  array leave room for the product of the last slice but not of the slice before it, no work area is
  allocated and the routine ends in \<open>rb_bug\<close>.
\<close>

context multiplier
begin

lemma may_fail: "multiplier mulfunc bound True"
  by unfold_locales (rule mul_post_mono [OF product], simp_all)

lemma balance_loop_fails:
  assumes len: "0 < length xds" "length xds \<le> length yds" "length xds + length yds \<le> zn" and bound: "length xds + length xds < bound"
    and stop: "s < length yds" "length xds dvd s" "zn - s < 2 * (length xds + slice_size (length xds) (length yds) s)" "wn < length xds"
    and inv: "balance_inv xds yds zn n zds" "n \<le> s" "length xds dvd n" "length yds - n < fuel"
  shows "mul_post True (balance_loop fuel mulfunc xds yds wn n zds) (\<lambda>_. False)"
  using inv
proof (induction fuel arbitrary: n zds)
  case (Suc fuel)
  have n: "n < length yds" using Suc.prems(2) stop(1) by linarith
  have zn: "length zds = zn" using Suc.prems(1) by (simp add: balance_inv_def)
  show ?case
  proof (cases "n = s")
    case True
    then have "balance_step mulfunc xds yds wn n zds = Inl (Wds_not_enough wn (length xds))"
      using stop(3,4) by (simp add: balance_step_def zn)
    then show ?thesis using n by (simp add: balance_loop.simps(2))
  next
    case False
    then have less: "n < s" using Suc.prems(2) by simp
    define r where "r = slice_size (length xds) (length yds) n"
    have r: "n + r \<le> length yds" "0 < r" unfolding r_def using slice_size(2) [OF n] slice_size(3) [OF n len(1)] by blast+
    have below: "n + length xds \<le> s"
    proof -
      obtain k j where "n = length xds * k" "s = length xds * j" using Suc.prems(3) stop(2) by (elim dvdE)
      then have "Suc k \<le> j" using less by simp
      then have "length xds * Suc k \<le> length xds * j" by (rule mult_le_mono2)
      then show ?thesis using \<open>n = length xds * k\<close> \<open>s = length xds * j\<close> by simp
    qed
    then have "\<not> length xds > length yds - n" using stop(1) by linarith
    then have "r = length xds" by (simp add: r_def slice_size_def)
    moreover have "length yds - (n + r) < fuel" using r Suc.prems(4) n by linarith
    ultimately have "mul_post True (balance_loop fuel mulfunc xds yds wn (n + r) z) (\<lambda>_. False)"
      if "balance_inv xds yds zn (n + r) z" for z
      using that below Suc.prems(3) by (intro Suc.IH) simp_all
    moreover have "mul_post True (balance_step mulfunc xds yds wn n zds) (balance_inv xds yds zn (n + r))"
      unfolding r_def by (rule multiplier.balance_step [OF may_fail Suc.prems(1) n len(3,2) bound TrueI])
    ultimately show ?thesis
      unfolding balance_loop.simps(2) if_P [OF n] r_def by (intro mul_post_then) simp_all
  qed
qed simp

lemma bary_mul_balance_fails:
  fixes xds yds zds :: "BDIGIT list"
  defines "xn \<equiv> length xds" and "yn \<equiv> length yds" and "zn \<equiv> length zds"
    and "r \<equiv> if length yds mod length xds \<noteq> 0 then length yds mod length xds else length xds"
  assumes len: "0 < xn" "xn < yn" and bound: "xn + xn < bound"
    and bug: "wn < xn" "2 * xn + yn + r \<le> zn" "zn + r < 3 * xn + yn"
  shows "mul_post True (bary_mul_balance_with_mulfunc mulfunc zds xds yds wn) (\<lambda>_. False)"
proof -
  define z0 where "z0 = bary_put 0 (replicate xn 0) zds"
  have "take xn z0 = replicate xn 0" using segment_bary_put [of 0 zds "replicate xn 0"] by (simp add: z0_def)
  then have inv: "balance_inv xds yds zn 0 z0" using len bug by (simp add: balance_inv_def z0_def zn_def xn_def)
  define s where "s = yn - r - xn"
  have r: "r = (if yn mod xn \<noteq> 0 then yn mod xn else xn)" by (simp add: r_def xn_def yn_def)
  have y: "yn = xn * (yn div xn) + yn mod xn" by simp
  have "xn dvd yn - r \<and> r \<le> xn \<and> 0 < r \<and> xn \<le> yn - r"
  proof (cases "yn mod xn = 0")
    case True
    then have d: "xn dvd yn" by blast
    then obtain k where "yn = xn * k" by blast
    moreover have "k \<noteq> 0 \<and> k \<noteq> 1" using calculation len by auto
    then have "2 \<le> k" by linarith
    ultimately have "xn * 2 \<le> yn" by simp
    then show ?thesis using True d len(1) by (simp add: r)
  next
    case False
    have "1 \<le> yn div xn" using len by (simp add: Suc_leI div_greater_zero_iff)
    then have "xn * 1 \<le> xn * (yn div xn)" by (intro mult_le_mono) simp_all
    moreover have "yn mod xn < xn" using len(1) by simp
    moreover have "xn \<le> yn - yn mod xn" using calculation(1) y by linarith
    ultimately show ?thesis using False by (simp add: r dvd_minus_mod)
  qed
  then have s: "s + xn + r = yn" "r \<le> xn" "0 < r" and "xn dvd yn - r" by (auto simp: s_def)
  then have "xn dvd s" unfolding s_def using dvd_diff_nat [of xn "yn - r" xn] by simp
  note s = this s
  have slice: "slice_size xn yn s = xn" "s < yn" using s(2-4) by (auto simp: slice_size_def)
  have "mul_post True (balance_loop (Suc yn) mulfunc xds yds wn 0 z0) (\<lambda>_. False)"
    unfolding yn_def
  proof (rule balance_loop_fails [OF _ _ _ bound [unfolded xn_def] _ _ _ _ inv])
    show "zn - s < 2 * (length xds + slice_size (length xds) (length yds) s)"
      using slice bug(3) s by (simp flip: xn_def yn_def)
  qed (use len bug s slice in \<open>simp_all flip: xn_def yn_def\<close>)
  then show ?thesis
    unfolding bary_mul_balance_with_mulfunc_def Let_def xn_def [symmetric] yn_def [symmetric] zn_def [symmetric]
      r_def [folded xn_def yn_def, symmetric] z0_def [symmetric]
    using bug by (intro mul_post_then [of True _ "\<lambda>_. False"]) simp_all
qed

end

end
