(* ===== verification/Bary_Div.thy ===== *)
theory Bary_Div
  imports Bary_Mul
begin

text \<open>
  Division of digit arrays in bignum.c: by one digit, and the schoolbook division (Knuth's algorithm D)
  with its estimate of a quotient digit from the two leading digits and its add-back loop, up to
  \<open>bary_divmod\<close>.  GMP is not used (\<open>USE_GMP\<close> is undefined), and nobody interrupts the division of
  very long numbers, so \<open>bds->stop\<close> stays false.
\<close>

section \<open>Subtracting a multiple\<close>

text \<open>
  The loop of \<open>bigdivrem_mulsub\<close>: \<open>t2\<close> is the multiple so far, \<open>num\<close> the borrow; a digit is
  written only when something is subtracted.
\<close>

fun mulsub_loop :: "BDIGIT list \<Rightarrow> BDIGIT \<Rightarrow> BDIGIT list \<Rightarrow> BDIGIT_DBL \<Rightarrow> BDIGIT_DBL_SIGNED \<Rightarrow>
    BDIGIT list \<times> BDIGIT_DBL \<times> BDIGIT_DBL_SIGNED" where
  "mulsub_loop (z # zds) x (y # yds) t2 num =
    (let t2 = t2 + ucast y * ucast x;
         ee = num - ucast (BIGLO t2);
         num = ucast z + ee;
         z = (if ee \<noteq> 0 then BIGLO num else z);
         (zds, t2', num') = mulsub_loop zds x yds (BIGDN t2) (BIGDN_S num)
     in (z # zds, t2', num'))"
| "mulsub_loop zds x _ t2 num = ([], t2, num)"

definition bigdivrem_mulsub :: "BDIGIT list \<Rightarrow> BDIGIT \<Rightarrow> BDIGIT list \<Rightarrow> BDIGIT list \<times> BDIGIT_DBL_SIGNED" where
  "bigdivrem_mulsub zds x yds =
    (let yn = length yds; (low, t2, num) = mulsub_loop (take yn zds) x yds 0 0;
         num = num - t2; num = num + ucast (zds ! yn)
     in (low @ drop yn zds, num))"

definition bary_mulsub_1xN :: "BDIGIT list \<Rightarrow> BDIGIT \<Rightarrow> BDIGIT list \<Rightarrow> BDIGIT list \<times> bool" where
  "bary_mulsub_1xN zds x yds =
    (let yn = length yds; (zds, num) = bigdivrem_mulsub zds x yds
     in (zds[yn := BIGLO num], BIGDN_S num \<noteq> 0))"

lemma mulsub_loop_spec:
  assumes "length zds = length yds" "uint t2 < 4294967296" "- 1 \<le> sint num \<and> sint num \<le> 0"
    and "mulsub_loop zds x yds t2 num = (zds', t2', num')"
  shows "length zds' = length yds \<and> uint t2' < 4294967296 \<and> - 1 \<le> sint num' \<and> sint num' \<le> 0 \<and>
    bval zds' + 4294967296 ^ length yds * (sint num' - uint t2') = bval zds - uint x * bval yds - uint t2 + sint num"
  using assms
proof (induction zds yds arbitrary: t2 num zds' t2' num' rule: list_induct2)
  case (Cons z zds y yds)
  define t where "t = t2 + ucast y * ucast x"
  define ee where "ee = num - ucast (BIGLO t)"
  define m where "m = ucast z + ee"
  have t: "uint t = uint t2 + uint x * uint y"
    using Cons.prems(1) mult_digits_le [of x y] uint_mult_digits [of y x] unfolding t_def
    by (subst uint_add_fits) (simp_all add: mult.commute)
  have b: "0 \<le> uint (BIGLO t)" "uint (BIGLO t) \<le> 4294967295" "0 \<le> uint z" "uint z \<le> 4294967295" using uint_digit by auto
  have nb: "- 1 \<le> sint num" "sint num \<le> 0" using Cons.prems(2) by auto
  have ee: "sint ee = sint num - uint (BIGLO t)"
    unfolding ee_def by (rule sint_sub_eq [OF refl sint_dbl]) (use nb b in linarith)+
  have m: "sint m = uint z + sint ee"
    unfolding m_def by (rule sint_add_eq [OF sint_dbl refl]) (use nb b ee in linarith)+
  have dn: "- 1 \<le> sint (BIGDN_S m) \<and> sint (BIGDN_S m) \<le> 0"
    using m ee b nb by (intro sint_dn_borrow) linarith+
  have z: "(if ee \<noteq> 0 then BIGLO m else z) = BIGLO m" by (simp add: m_def)
  obtain zs where zs: "mulsub_loop zds x yds (BIGDN t) (BIGDN_S m) = (zs, t2', num')" "zds' = BIGLO m # zs"
    using Cons.prems(3)
    unfolding mulsub_loop.simps Let_def t_def [symmetric] ee_def [symmetric] m_def [symmetric] z
    by (auto split: prod.splits)
  show ?case
    using Cons.IH [OF uint_BIGDN_less dn zs(1)] sint_lo_dn [of m] m ee t uint_lo_dn [of t]
    by (simp add: zs(2) algebra_simps)
qed simp

text \<open>
  The value of the digits with \<open>num\<close> in place of the highest one; the highest digit itself is left alone.
\<close>

lemma bigdivrem_mulsub_spec:
  assumes "length zds = length yds + 1" "bigdivrem_mulsub zds x yds = (zds', num)"
  shows "length zds' = length zds" "drop (length yds) zds' = drop (length yds) zds"
    "bval (take (length yds) zds') + 4294967296 ^ length yds * sint num = bval zds - uint x * bval yds"
proof -
  let ?yn = "length yds"
  obtain low t2 n where loop: "mulsub_loop (take ?yn zds) x yds 0 0 = (low, t2, n)" by (metis prod_cases3)
  have spec: "length low = ?yn" "uint t2 < 4294967296" "- 1 \<le> sint n \<and> sint n \<le> 0"
    "bval low + 4294967296 ^ ?yn * (sint n - uint t2) = bval (take ?yn zds) - uint x * bval yds"
    using mulsub_loop_spec [OF _ _ _ loop] assms(1) by auto
  have z: "zds' = low @ drop ?yn zds" "num = n - t2 + ucast (zds ! ?yn)"
    using assms(2) by (simp_all add: bigdivrem_mulsub_def loop Let_def)
  have t2: "sint t2 = uint t2" using spec(2) by (intro sint_of_uint) simp
  have n: "- 1 \<le> sint n" "sint n \<le> 0" using spec(3) by auto
  have "sint (n - t2) = sint n - uint t2"
    by (rule sint_sub_eq [OF refl t2]) (use spec(2) n uint_ge_0 [of t2] in linarith)+
  then have num: "sint num = sint n - uint t2 + uint (zds ! ?yn)"
    unfolding z(2) by (rule sint_add_eq [OF _ sint_dbl]) (use spec(2) n uint_ge_0 [of t2] uint_digit(1,3) [of "zds ! ?yn"] in linarith)+
  show "length zds' = length zds" "drop ?yn zds' = drop ?yn zds" using spec(1) assms(1) by (simp_all add: z(1))
  have "drop ?yn zds = [zds ! ?yn]" using assms(1) Cons_nth_drop_Suc [of ?yn zds] by simp
  then have "bval zds = bval (take ?yn zds) + 4294967296 ^ ?yn * uint (zds ! ?yn)"
    using bval_take_drop [of ?yn zds] assms(1) by simp
  then show "bval (take ?yn zds') + 4294967296 ^ ?yn * sint num = bval zds - uint x * bval yds"
    using spec(1,4) by (simp add: z(1) num algebra_simps)
qed

section \<open>Division by one digit\<close>

definition bit_length_digit :: "BDIGIT \<Rightarrow> nat" where
  "bit_length_digit d = 32 - nlz_int32 d"

fun divrem_single_loop :: "BDIGIT list \<Rightarrow> BDIGIT \<Rightarrow> BDIGIT_DBL \<Rightarrow> BDIGIT list \<times> BDIGIT_DBL" where
  "divrem_single_loop [] y t2 = ([], t2)"
| "divrem_single_loop (x # xds) y t2 =
    (let t2 = BIGUP t2 + ucast x; q = ucast (t2 div ucast y); (qds, t2') = divrem_single_loop xds y (t2 mod ucast y)
     in (q # qds, t2'))"

text \<open>The loop runs from the most significant digit down.\<close>

definition bigdivrem_single1 :: "BDIGIT list \<Rightarrow> BDIGIT \<Rightarrow> BDIGIT \<Rightarrow> BDIGIT list \<times> BDIGIT" where
  "bigdivrem_single1 xds x_higher_bdigit y =
    (if POW2_P y then (bary_small_rshift xds (bit_length_digit y - 1) x_higher_bdigit, xds ! 0 AND (y - 1))
     else let (qds, t2) = divrem_single_loop (rev xds) y (ucast x_higher_bdigit) in (rev qds, ucast t2))"

definition bigdivrem_single :: "BDIGIT list \<Rightarrow> BDIGIT \<Rightarrow> BDIGIT list \<times> BDIGIT" where
  "bigdivrem_single xds y = bigdivrem_single1 xds 0 y"

lemma uint_ucast_small: "uint (t :: 64 word) < 4294967296 \<Longrightarrow> uint (ucast t :: BDIGIT) = uint t"
  by (simp add: unsigned_ucast_eq take_bit_int_eq_self_iff)

lemma divrem_single_loop_spec:
  assumes "uint t2 < uint (y :: BDIGIT)" "divrem_single_loop xds y t2 = (qds, t2')"
  shows "length qds = length xds \<and> uint t2' < uint y \<and>
    bval (rev qds) * uint y + uint t2' = bval (rev xds) + 4294967296 ^ length xds * uint t2"
  using assms
proof (induction xds arbitrary: t2 qds t2')
  case (Cons x xds)
  let ?B = "4294967296 :: int"
  define t where "t = BIGUP t2 + ucast x"
  define q where "q = (ucast (t div ucast y) :: BDIGIT)"
  have y: "0 < uint y" using Cons.prems(1) uint_ge_0 [of t2] by linarith
  have t2: "uint t2 < ?B" using Cons.prems(1) uint_digit(2) [of y] by linarith
  have "uint (BIGUP t2) = uint t2 * ?B" using uint_BIGUP [of "ucast t2"] uint_ucast_small [OF t2] by (metis uint_dbl word_uint_eqI)
  then have t: "uint t = ?B * uint t2 + uint x"
    unfolding t_def using t2 uint_digit(2,3) [of x] uint_ge_0 [of t2] by (subst uint_add_fits) simp_all
  also have "\<dots> < ?B * uint y"
    using weighted_less [of "uint x" ?B 0 "uint t2" "uint y"] Cons.prems(1) uint_digit [of x] by simp
  finally have "uint t div uint y < ?B" using y by (intro int_div_less) (simp_all add: mult.commute)
  then have q: "uint q = uint t div uint y" by (simp add: q_def uint_div unsigned_ucast_eq take_bit_int_eq_self_iff y pos_imp_zdiv_nonneg_iff)
  have r: "uint (t mod ucast y) = uint t mod uint y" by (simp add: uint_mod)
  then have less: "uint (t mod ucast y) < uint y" using y by simp
  obtain qs where qs: "divrem_single_loop xds y (t mod ucast y) = (qs, t2')" "qds = q # qs"
    using Cons.prems(2) by (auto simp: t_def [symmetric] q_def [symmetric] Let_def split: prod.splits)
  have "uint q * uint y + uint (t mod ucast y) = ?B * uint t2 + uint x" using q r t by (simp add: mult.commute)
  then have "?B ^ length xds * (uint q * uint y) = ?B ^ length xds * (?B * uint t2 + uint x - uint (t mod ucast y))" by simp
  then show ?case
    using Cons.IH [OF less qs(1)] by (simp add: qs(2) bval_append algebra_simps)
qed simp

lemma pow2_digit:
  assumes "POW2_P y" "y \<noteq> 0"
  shows "uint y = 2 ^ (bit_length_digit y - 1)" "bit_length_digit y - 1 < 32" "uint (x AND (y - 1)) = uint x mod uint y"
proof -
  define k where "k = bit_width (unat y) - 1"
  have y: "unat y \<noteq> 0" using assms(2) by (simp add: unat_eq_0)
  have w: "bit_width (unat y) \<le> 32" using bit_width_le_iff [of "unat y" 32] unsigned_less [of y] by simp
  have "bit_width (unat y) \<noteq> 0" using y by simp
  then have sk: "Suc k = bit_width (unat y)" unfolding k_def by linarith
  have k: "2 ^ k \<le> unat y" "unat y < 2 ^ Suc k" and k32: "k < 32"
    using bit_width_bounds [of "unat y"] y w unfolding sk [symmetric] by simp_all
  have kb: "bit_length_digit y - 1 = k" using w by (simp add: bit_length_digit_def nlz_int32_bit_width k_def)
  define r where "r = unat y - 2 ^ k"
  have eq: "unat y = 2 ^ k + r" "r < 2 ^ k" using k by (simp_all add: r_def)
  have "r = 0"
  proof (rule ccontr)
    assume r: "r \<noteq> 0"
    have one: "(2 ^ k + m) div 2 ^ k = (1 :: nat)" if "m < 2 ^ k" for m using that by (subst div_add_self1) simp_all
    have "unat y - 1 = 2 ^ k + (r - 1)" using eq r by simp
    moreover have "r - 1 < 2 ^ k" using eq(2) by simp
    ultimately have "bit (unat y - 1) k" unfolding bit_iff_odd by (simp only: one) simp
    moreover have "bit (unat y) k" unfolding bit_iff_odd eq(1) one [OF eq(2)] by simp
    moreover have "unat (y - 1) = unat y - 1" using assms(2) by (simp add: unat_minus_one)
    ultimately have "bit y k" "bit (y - 1) k" by (metis bit_unsigned_iff)+
    then have "bit (y AND (y - 1)) k" by (simp add: bit_and_iff)
    then show False using assms(1) by (simp add: POW2_P_def)
  qed
  then have un: "unat y = 2 ^ k" using eq by simp
  then have ui: "uint y = 2 ^ k" by (metis of_nat_numeral of_nat_power uint_nat)
  then show "uint y = 2 ^ (bit_length_digit y - 1)" "bit_length_digit y - 1 < 32" using kb k32 by simp_all
  have "y = 2 ^ k" using un by (metis of_nat_numeral of_nat_power of_nat_unat ucast_id)
  then have "y - 1 = mask k" by (simp add: mask_eq_exp_minus_1)
  then have "unat (x AND (y - 1)) = unat x mod 2 ^ k" using unat_mask_and [of k x] k32 by simp
  then show "uint (x AND (y - 1)) = uint x mod uint y" unfolding ui by (simp add: uint_nat zmod_int del: of_nat_unat)
qed

lemma bigdivrem_single1_spec:
  assumes "xds \<noteq> []" "uint h < uint y" "bigdivrem_single1 xds h y = (qds, r)"
  shows "length qds = length xds" "bval qds * uint y + uint r = bval xds + 4294967296 ^ length xds * uint h" "uint r < uint y"
proof -
  have "0 < uint y" using assms(2) uint_ge_0 [of h] by linarith
  then have y0: "y \<noteq> 0" "0 < uint y" by auto
  have "length qds = length xds \<and> bval qds * uint y + uint r = bval xds + 4294967296 ^ length xds * uint h \<and> uint r < uint y"
  proof (cases "POW2_P y")
    case True
    let ?s = "bit_length_digit y - 1"
    note p = pow2_digit [OF True y0(1)]
    have q: "qds = bary_small_rshift xds ?s h" "r = xds ! 0 AND (y - 1)"
      using assms(3) True by (simp_all add: bigdivrem_single1_def)
    have v: "length qds = length xds" "bval qds = (bval xds + 4294967296 ^ length xds * uint h) div uint y"
      using bary_small_rshift_spec [OF p(2), of h xds] assms(2) p(1) by (simp_all add: q(1))
    obtain x xs where x: "xds = x # xs" using assms(1) by (cases xds) auto
    have "(4294967296 :: int) = 2 ^ (32 - ?s) * 2 ^ ?s" using p(2) by (simp flip: power_add)
    then have "uint y dvd 4294967296" using p(1) by (metis dvd_triv_right)
    moreover have "bval xds + 4294967296 ^ length xds * uint h = uint x + 4294967296 * (bval xs + 4294967296 ^ length xs * uint h)"
      by (simp add: x algebra_simps)
    ultimately have "bval xds + 4294967296 ^ length xds * uint h =
        uint x + uint y * (4294967296 div uint y * (bval xs + 4294967296 ^ length xs * uint h))"
      by (simp only: dvd_mult_div_cancel flip: mult.assoc)
    then have "(bval xds + 4294967296 ^ length xds * uint h) mod uint y = uint x mod uint y" by simp
    moreover have "uint r = uint x mod uint y" using p(3) [of x] by (simp add: q(2) x)
    ultimately have r: "uint r = (bval xds + 4294967296 ^ length xds * uint h) mod uint y" by simp
    have "bval qds * uint y + uint r = bval xds + 4294967296 ^ length xds * uint h"
      unfolding v(2) r by (rule div_mult_mod_eq)
    moreover have "uint r < uint y" using y0(2) by (simp only: r pos_mod_bound)
    ultimately show ?thesis using v(1) by simp
  next
    case False
    obtain qs t2 where loop: "divrem_single_loop (rev xds) y (ucast h) = (qs, t2)" by fastforce
    then have q: "qds = rev qs" "r = ucast t2" using assms(3) False by (auto simp: bigdivrem_single1_def)
    have "length qs = length xds \<and> uint t2 < uint y \<and> bval (rev qs) * uint y + uint t2 = bval xds + 4294967296 ^ length xds * uint h"
      using divrem_single_loop_spec [OF _ loop] assms(2) by simp
    moreover have "uint t2 < 4294967296" using calculation uint_digit(2) [of y] by linarith
    ultimately show ?thesis by (simp add: q uint_ucast_small)
  qed
  then show "length qds = length xds" "bval qds * uint y + uint r = bval xds + 4294967296 ^ length xds * uint h" "uint r < uint y"
    by blast+
qed

section \<open>Schoolbook division\<close>

text \<open>
  The add-back loop: \<open>num\<close> is overwritten with the carry of the addition before it is decremented.
  \<open>None\<close> is a loop that never ends.
\<close>

partial_function (option) add_back :: "BDIGIT list \<Rightarrow> BDIGIT list \<Rightarrow> BDIGIT \<Rightarrow> BDIGIT_DBL_SIGNED \<Rightarrow>
    (BDIGIT list \<times> BDIGIT) option" where
  "add_back zds yds q num =
    (if num = 0 then Some (zds, q)
     else let q = q - 1; (zds, c) = bary_add (length yds) zds yds; num = (if c then 1 else 0) - 1
          in add_back zds yds q num)"

definition estimate_digit :: "BDIGIT list \<Rightarrow> nat \<Rightarrow> BDIGIT list \<Rightarrow> BDIGIT" where
  "estimate_digit zds zn yds =
    (let yn = length yds
     in if zds ! (zn - 1) = yds ! (yn - 1) then BDIGMAX
        else ucast ((BIGUP (ucast (zds ! (zn - 1))) + ucast (zds ! (zn - 2))) div ucast (yds ! (yn - 1))))"

text \<open>One turn of the loop: the digit \<open>zn - 1\<close> becomes a digit of the quotient.\<close>

definition divrem_step :: "BDIGIT list \<Rightarrow> nat \<Rightarrow> BDIGIT list \<Rightarrow> BDIGIT list option" where
  "divrem_step zds zn yds =
    (let yn = length yds; k = zn - (yn + 1); q = estimate_digit zds zn yds
     in if q \<noteq> 0 then
          (let (seg, num) = bigdivrem_mulsub (take (yn + 1) (drop k zds)) q yds;
               zds = bary_put k seg zds
           in do { (low, q) \<leftarrow> add_back (take yn (drop k zds)) yds q num;
                   Some ((bary_put k low zds)[zn - 1 := q]) })
        else Some (zds[zn - 1 := q]))"

function bigdivrem1 :: "BDIGIT list \<Rightarrow> nat \<Rightarrow> BDIGIT list \<Rightarrow> BDIGIT list option" where
  "bigdivrem1 zds zn yds =
    do { zds \<leftarrow> divrem_step zds zn yds;
         if zn - 1 > length yds then bigdivrem1 zds (zn - 1) yds else Some zds }"
  by pat_completeness auto
termination by (relation "measure (\<lambda>(zds, zn, yds). zn)") auto

declare bigdivrem1.simps [simp del]

text \<open>
  The estimate in numbers: \<open>u\<close> are the two leading digits of \<open>W\<close>, \<open>v\<close> is the leading digit of \<open>Y\<close>,
  \<open>P\<close> the weight below.  The estimate is not too small, and what is left after subtracting the
  multiple is above \<open>- B P\<close>, so the borrow is at most one.
\<close>

lemma estimate_bounds:
  assumes "W = u * P + Wl" "0 \<le> Wl" "Wl < (P :: int)" "Y = v * P + Yl" "0 \<le> Yl" "Yl < P" "0 < v"
    and "q * v \<le> u" "0 \<le> q" "q < B" "W < (q + 1) * Y"
  shows "W div Y \<le> q" "- (B * P) < W - q * Y" "W - q * Y < Y"
proof -
  have P: "0 < P" using assms(2,3) by simp
  have Y: "0 < Y" using assms(4,5,7) P by (simp add: add_pos_nonneg)
  show "W - q * Y < Y" using assms(11) by (simp add: algebra_simps)
  have "W div Y < q + 1" using assms(11) Y by (intro int_div_less) simp_all
  then show "W div Y \<le> q" by simp
  have "q * v * P \<le> u * P" using assms(8) P by (intro mult_right_mono) simp_all
  moreover have "q * Yl \<le> q * P" using assms(6,9) by (intro mult_left_mono) simp_all
  moreover have "q * P < B * P" using assms(10) P by simp
  ultimately show "- (B * P) < W - q * Y" using assms(1,2,4) by (simp add: algebra_simps)
qed

lemma leading_digit_le:
  assumes "u * P + Wl < B * (v * P + Yl)" "0 \<le> Wl" "Yl < P" "0 < P" "0 < B" "u = w1 * B + w0" "0 \<le> (w0 :: int)"
  shows "w1 \<le> v"
proof (rule ccontr)
  assume "\<not> w1 \<le> v"
  then have "(B * P) * (v + 1) \<le> (B * P) * w1" using assms(4,5) by (intro mult_left_mono) simp_all
  moreover have "B * Yl < B * P" using assms(3,5) by simp
  moreover have "0 \<le> w0 * P" using assms(4,7) by simp
  ultimately show False using assms(1,2) unfolding assms(6) by (simp add: algebra_simps)
qed

lemma add_back_spec:
  assumes "length zs = length yds" "0 < bval yds"
    and "(num = 0 \<and> V = bval zs) \<or> (num = - 1 \<and> V = bval zs - 4294967296 ^ length yds)"
    and "V < bval yds" "0 \<le> V + uint q * bval yds"
  shows "\<exists>zs' q'. add_back zs yds q num = Some (zs', q') \<and> length zs' = length yds \<and>
    bval zs' = V + (uint q - uint q') * bval yds \<and> 0 \<le> bval zs' \<and> bval zs' < bval yds"
  using assms
proof (induction "nat (uint q)" arbitrary: zs q num V rule: less_induct)
  case less
  show ?case
  proof (cases "num = 0")
    case True
    then show ?thesis using less.prems by (subst add_back.simps) simp
  next
    case False
    let ?P = "4294967296 ^ length yds :: int"
    have V: "V = bval zs - ?P" using less.prems(3) False by simp
    then have "V < 0" using bval_less [of zs] less.prems(1) by simp
    then have q: "uint q \<noteq> 0" using less.prems(5) by auto
    then have "1 \<le> uint q" using uint_ge_0 [of q] by linarith
    then have q1: "uint (q - 1) = uint q - 1" by (subst uint_sub_lem [THEN iffD1]) simp_all
    obtain zs' c where add: "bary_add (length yds) zs yds = (zs', c)" by fastforce
    have s: "length zs' = length yds" "bval zs' + of_bool c * ?P = bval zs + bval yds"
      using bary_addc_spec [of zs "length yds" yds False zs' c] add less.prems(1) by (simp_all add: bary_add_def)
    define num' :: "64 word" where "num' = (if c then 1 else 0) - 1"
    have n: "(num' = 0 \<and> V + bval yds = bval zs') \<or> (num' = - 1 \<and> V + bval yds = bval zs' - ?P)"
      using s(2) V by (cases c) (simp_all add: num'_def)
    have "add_back zs yds q num = add_back zs' yds (q - 1) num'"
      using False by (subst add_back.simps) (simp add: add num'_def)
    moreover have "\<exists>zs2 q2. add_back zs' yds (q - 1) num' = Some (zs2, q2) \<and> length zs2 = length yds \<and>
        bval zs2 = V + bval yds + (uint (q - 1) - uint q2) * bval yds \<and> 0 \<le> bval zs2 \<and> bval zs2 < bval yds"
    proof (rule less.hyps)
      show "nat (uint (q - 1)) < nat (uint q)" unfolding q1 using \<open>1 \<le> uint q\<close> by linarith
      show "0 \<le> V + bval yds + uint (q - 1) * bval yds" using less.prems(5) by (simp add: q1 algebra_simps)
    qed (use s(1) n less.prems(2) \<open>V < 0\<close> in simp_all)
    ultimately show ?thesis by (auto simp: q1 algebra_simps)
  qed
qed

lemma estimate_digit_spec:
  assumes yn: "2 \<le> length yds" "yds ! (length yds - 1) \<noteq> 0" and zn: "length yds < zn" "zn \<le> length zds"
    and less: "bval (take (length yds + 1) (drop (zn - (length yds + 1)) zds)) < 4294967296 * bval yds"
  defines "W \<equiv> bval (take (length yds + 1) (drop (zn - (length yds + 1)) zds))" and "q \<equiv> uint (estimate_digit zds zn yds)"
  shows "W div bval yds \<le> q" "- (4294967296 ^ length yds) < W - q * bval yds" "W - q * bval yds < bval yds"
proof -
  let ?B = "4294967296 :: int" and ?yn = "length yds"
  define k where "k = zn - (?yn + 1)"
  define P where "P = ?B ^ (?yn - 1)"
  define w1 w0 v where "w1 = zds ! (zn - 1)" and "w0 = zds ! (zn - 2)" and "v = yds ! (?yn - 1)"
  define u where "u = uint w1 * ?B + uint w0"
  have code: "estimate_digit zds zn yds = (if w1 = v then BDIGMAX else ucast ((BIGUP (ucast w1) + ucast w0) div ucast v))"
    by (simp only: estimate_digit_def Let_def w1_def w0_def v_def)
  have kz: "k + ?yn + 1 = zn" using zn by (simp add: k_def)
  obtain m where m: "?yn = Suc (Suc m)" using yn(1) by (metis add_2_eq_Suc le_Suc_ex)
  have seg: "take (?yn + 1) (drop k zds) = take (?yn - 1) (drop k zds) @ [w0, w1]"
    using zn kz m by (simp add: take_Suc_conv_app_nth w0_def w1_def numeral_2_eq_2)
      (metis Suc_1 add_Suc_right diff_Suc_1 diff_Suc_Suc minus_nat.diff_0 add.commute)
  have "length (take (?yn - 1) (drop k zds)) = ?yn - 1" using zn kz by simp
  moreover have "W = bval (take (?yn - 1) (drop k zds) @ [w0, w1])" unfolding W_def k_def [symmetric] seg by (rule refl)
  ultimately have W: "W = u * P + bval (take (?yn - 1) (drop k zds))" "bval (take (?yn - 1) (drop k zds)) < P"
    using bval_less [of "take (?yn - 1) (drop k zds)"] by (simp_all add: bval_append u_def P_def algebra_simps)
  have "drop (?yn - 1) yds = [v]" using m Cons_nth_drop_Suc [of "?yn - 1" yds] by (simp add: v_def)
  then have Y: "bval yds = uint v * P + bval (take (?yn - 1) yds)" "bval (take (?yn - 1) yds) < P"
    using bval_take_drop [of "?yn - 1" yds] bval_take_less [of "?yn - 1" yds] by (simp_all add: P_def)
  have v: "0 < uint v" using yn(2) uint_ge_0 [of v] uint_0_iff [of v] unfolding v_def by linarith
  have less': "W < ?B * bval yds" using less by (simp add: W_def)
  have P: "0 < P" by (simp add: P_def)
  have Pn: "?B ^ ?yn = ?B * P" by (simp add: P_def m)
  have est: "q * uint v \<le> u \<and> W < (q + 1) * bval yds"
  proof (cases "w1 = v")
    case True
    then have "q = ?B - 1" by (simp add: q_def code BDIGMAX_def)
    then show ?thesis using True less' uint_ge_0 [of w0] uint_ge_0 [of v] by (simp add: u_def algebra_simps)
  next
    case False
    have "uint w1 \<le> uint v"
      using leading_digit_le [of u P _ ?B "uint v" _ "uint w1" "uint w0"] less' W(1) Y P by (simp add: u_def)
    then have w: "uint w1 < uint v" using False by (simp add: order_less_le word_uint_eq_iff)
    have u: "uint (BIGUP (ucast w1) + ucast w0) = u"
      using uint_digit(2) [of w1] uint_digit(2) [of w0] uint_digit(3) [of w1] unfolding u_def
      by (subst uint_add_fits) (simp_all add: uint_BIGUP)
    have "u < ?B * uint v" using weighted_less [of "uint w0" ?B 0 "uint w1" "uint v"] w uint_digit [of w0] by (simp add: u_def algebra_simps)
    then have "u div uint v < ?B" using v by (intro int_div_less) simp_all
    then have "q = u div uint v"
      using False u by (simp add: q_def code uint_ucast_small uint_div)
    then have "q * uint v \<le> u" "u < (q + 1) * uint v"
      using v by (simp_all add: minus_mod_eq_div_mult [symmetric] distrib_right pos_mod_bound)
    then have "(u + 1) * P \<le> (q + 1) * uint v * P" using P by (intro mult_right_mono) simp_all
    moreover have "0 \<le> q" by (simp add: q_def)
    then have "0 \<le> (q + 1) * bval (take (?yn - 1) yds)" by simp
    ultimately show ?thesis using W Y(1) \<open>q * uint v \<le> u\<close> by (simp add: algebra_simps)
  qed
  have "0 \<le> q" "q < ?B" using uint_digit [of "estimate_digit zds zn yds"] by (simp_all add: q_def)
  with estimate_bounds [OF W(1) bval_nonneg W(2) Y(1) bval_nonneg Y(2) v _ _ _ , of q ?B] est
  show "W div bval yds \<le> q" "- (4294967296 ^ ?yn) < W - q * bval yds" "W - q * bval yds < bval yds"
    unfolding Pn by blast+
qed

text \<open>One digit of the quotient: the window of \<open>yn + 1\<close> digits is divided.\<close>

lemma sint_borrow_cases:
  assumes "0 \<le> low" "low < P" "V = low + P * sint (num :: 64 word)" "- P < V" "V < (P :: int)"
  shows "(num = 0 \<and> V = low) \<or> (num = - 1 \<and> V = low - P)"
proof -
  have P: "0 < P" using assms(1,2) by linarith
  have "P * (- 2) < P * sint num" using assms by linarith
  then have "- 2 < sint num" using P by (simp only: mult_less_cancel_left_pos)
  moreover have "P * sint num < P * 1" using assms by linarith
  then have "sint num < 1" using P by (simp only: mult_less_cancel_left_pos)
  ultimately have "sint num = 0 \<or> sint num = - 1" by linarith
  then show ?thesis
  proof
    assume "sint num = - 1"
    moreover have "sint (- 1 :: 64 word) = - 1" by simp
    ultimately have "num = - 1" by (metis signed_word_eqI)
    then show ?thesis using assms(3) \<open>sint num = - 1\<close> by simp
  qed (use assms(3) sint_eq_0_iff in auto)
qed

lemma bval_top_pos:
  assumes "0 < length yds" "yds ! (length yds - 1) \<noteq> 0"
  shows "0 < bval yds"
proof -
  have "4294967296 ^ (length yds - 1) \<le> bval (take (length yds) yds)" using assms by (intro bval_take_ge) simp_all
  then have "4294967296 ^ (length yds - 1) \<le> bval yds" by simp
  moreover have "(0 :: int) < 4294967296 ^ (length yds - 1)" by simp
  ultimately show ?thesis by linarith
qed

lemma divrem_step_spec:
  assumes yn: "2 \<le> length yds" "yds ! (length yds - 1) \<noteq> 0" and zn: "length yds < zn" "zn \<le> length zds"
    and kz: "zn = k + length yds + 1"
    and less: "bval (take (length yds + 1) (drop k zds)) < 4294967296 * bval yds"
  defines "W \<equiv> bval (take (length yds + 1) (drop k zds))"
  shows "\<exists>zds'. divrem_step zds zn yds = Some zds' \<and> length zds' = length zds \<and> drop zn zds' = drop zn zds \<and>
    take k zds' = take k zds \<and> bval (take (length yds) (drop k zds')) = W mod bval yds \<and>
    uint (zds' ! (zn - 1)) = W div bval yds"
proof -
  let ?yn = "length yds" and ?Y = "bval yds" and ?P = "4294967296 ^ length yds :: int"
  define q where "q = estimate_digit zds zn yds"
  have k: "zn - (?yn + 1) = k" "zn - 1 = k + ?yn" using kz by simp_all
  note est = estimate_digit_spec [OF yn zn, unfolded k, OF less, folded W_def q_def]
  have Y: "0 < ?Y" "?Y < ?P" using bval_top_pos [OF _ yn(2)] yn(1) bval_less [of yds] by (linarith, simp)
  have W0: "0 \<le> W" by (simp add: W_def)
  show ?thesis
  proof (cases "q = 0")
    case True
    then have W: "W < ?Y" using est(3) by simp
    have "take (?yn + 1) (drop k zds) = take ?yn (drop k zds) @ [zds ! (k + ?yn)]"
      using zn kz by (simp add: take_Suc_conv_app_nth)
    then have split: "W = bval (take ?yn (drop k zds)) + ?P * uint (zds ! (k + ?yn))"
      using zn kz by (simp add: W_def bval_append min_absorb2)
    have "uint (zds ! (k + ?yn)) = 0"
    proof (rule ccontr)
      assume "uint (zds ! (k + ?yn)) \<noteq> 0"
      then have "?P * 1 \<le> ?P * uint (zds ! (k + ?yn))"
        using uint_ge_0 [of "zds ! (k + ?yn)"] by (intro mult_left_mono) (linarith, simp)
      then show False using split W Y(2) bval_nonneg [of "take ?yn (drop k zds)"] by linarith
    qed
    then have low: "bval (take ?yn (drop k zds)) = W" using split by simp
    have "divrem_step zds zn yds = Some (zds[k + ?yn := 0])"
      unfolding divrem_step_def Let_def q_def [symmetric] k using True by simp
    moreover have "W mod ?Y = W" "W div ?Y = 0" using W W0 by simp_all
    moreover have "drop zn (zds[k + ?yn := 0]) = drop zn zds" "take ?yn (drop k (zds[k + ?yn := 0])) = take ?yn (drop k zds)"
      "zds[k + ?yn := 0] ! (k + ?yn) = 0" using kz zn by (simp_all add: drop_update_swap)
    ultimately show ?thesis unfolding k using low by simp
  next
    case False
    have seglen: "length (take (?yn + 1) (drop k zds)) = ?yn + 1" using zn kz by simp
    obtain seg num where sub: "bigdivrem_mulsub (take (?yn + 1) (drop k zds)) q yds = (seg, num)" by fastforce
    note s = bigdivrem_mulsub_spec [OF seglen sub, unfolded seglen, folded W_def]
    define V where "V = W - uint q * ?Y"
    define zs where "zs = bary_put k seg zds"
    have low: "take ?yn (drop k zs) = take ?yn seg" using s(1) zn kz by (simp add: zs_def bary_put_def)
    have V: "V = bval (take ?yn seg) + ?P * sint num" "- ?P < V" "V < ?Y" using s(3) est by (simp_all add: V_def)
    have "bval (take ?yn seg) < ?P" using bval_take_less [of ?yn seg] s(1) by simp
    then have "(num = 0 \<and> V = bval (take ?yn seg)) \<or> (num = - 1 \<and> V = bval (take ?yn seg) - ?P)"
      using V Y(2) by (intro sint_borrow_cases) simp_all
    moreover have "0 \<le> V + uint q * ?Y" using W0 by (simp add: V_def)
    moreover have "length (take ?yn seg) = ?yn" using s(1) by simp
    ultimately obtain low' q' where ab: "add_back (take ?yn seg) yds q num = Some (low', q')" "length low' = ?yn"
      "bval low' = V + (uint q - uint q') * ?Y" "bval low' < ?Y"
      using add_back_spec [OF _ Y(1) _ V(3)] by blast
    define zs' where "zs' = (bary_put k low' zs)[k + ?yn := q']"
    have lens: "length zs = length zds" "length seg = ?yn + 1" using s(1) zn kz by (simp_all add: zs_def)
    have step: "divrem_step zds zn yds = Some zs'"
      unfolding divrem_step_def Let_def q_def [symmetric] k sub prod.case zs_def [symmetric] low ab(1)
      using False by (simp add: zs'_def)
    have W: "W = uint q' * ?Y + bval low'" using ab(3) by (simp add: V_def algebra_simps)
    then have "W div ?Y = uint q'" "W mod ?Y = bval low'" using ab(4) Y(1) by simp_all
    moreover have "take ?yn (drop k zs') = low'" using ab(2) lens zn kz by (simp add: zs'_def bary_put_def drop_update_swap)
    moreover have "take k zs' = take k zds" "drop zn zs' = drop zn zds" "length zs' = length zds" "zs' ! (k + ?yn) = q'"
      using ab(2) lens zn kz by (simp_all add: zs'_def zs_def bary_put_def)
    ultimately show ?thesis unfolding k using step by simp
  qed
qed

text \<open>The whole division, in place: the remainder below, the quotient above.\<close>

lemma bigdivrem1_spec:
  assumes yn: "2 \<le> length yds" "yds ! (length yds - 1) \<noteq> 0" and zn: "length yds < zn" "zn \<le> length zds"
    and less: "bval (take zn zds) < 4294967296 ^ (zn - length yds) * bval yds"
  shows "\<exists>zds'. bigdivrem1 zds zn yds = Some zds' \<and> length zds' = length zds \<and> drop zn zds' = drop zn zds \<and>
    bval (take (length yds) zds') < bval yds \<and>
    bval (take zn zds) = bval (take (length yds) zds') + bval yds * bval (drop (length yds) (take zn zds'))"
  using zn less
proof (induction zn arbitrary: zds)
  case (Suc m)
  let ?yn = "length yds" and ?Y = "bval yds" and ?B = "4294967296 :: int"
  define k where "k = m - ?yn"
  have kz: "Suc m = k + ?yn + 1" "m = k + ?yn" using Suc.prems(1) by (simp_all add: k_def)
  define W where "W = bval (take (?yn + 1) (drop k zds))"
  have "take (Suc m) zds = take k zds @ take (?yn + 1) (drop k zds)" using Suc.prems kz(1) by (metis add.assoc take_add)
  then have Z: "bval (take (Suc m) zds) = bval (take k zds) + ?B ^ k * W"
    using Suc.prems kz by (simp add: bval_append W_def min_absorb2)
  have "Suc m - ?yn = Suc k" using kz by simp
  then have "bval (take k zds) + ?B ^ k * W < ?B ^ k * (?B * ?Y)" using Suc.prems(3) Z by (simp add: mult_ac)
  then have "?B ^ k * W < ?B ^ k * (?B * ?Y)" using bval_nonneg [of "take k zds"] by linarith
  then have "W < ?B * ?Y" by simp
  then obtain z1 where step: "divrem_step zds (Suc m) yds = Some z1" "length z1 = length zds" "drop (Suc m) z1 = drop (Suc m) zds"
    "take k z1 = take k zds" "bval (take ?yn (drop k z1)) = W mod ?Y" "uint (z1 ! m) = W div ?Y"
    using divrem_step_spec [OF yn Suc.prems(1,2) kz(1)] by (auto simp: W_def)
  have Y: "0 < ?Y" using \<open>W < ?B * ?Y\<close> by (simp add: W_def) (smt (verit) bval_nonneg mult_nonneg_nonneg)
  have "take m z1 = take k zds @ take ?yn (drop k z1)" using kz(2) step(4) by (metis take_add)
  then have Z1: "bval (take m z1) = bval (take k zds) + ?B ^ k * (W mod ?Y)"
    using Suc.prems kz step(5) by (simp add: bval_append min_absorb2)
  have ZW: "bval (take (Suc m) zds) = bval (take m z1) + ?B ^ k * (W div ?Y) * ?Y"
    unfolding Z Z1 by (subst mult_div_mod_eq [of ?Y W, symmetric]) (simp only: distrib_left, simp add: algebra_simps)
  show ?case
  proof (cases "m > ?yn")
    case False
    then have m: "m = ?yn" "k = 0" using kz by simp_all
    have "bigdivrem1 zds (Suc m) yds = Some z1" using m step(1) by (subst bigdivrem1.simps) simp
    moreover have "drop ?yn (take (Suc m) z1) = [z1 ! m]"
      using m Suc.prems(2) step(2) by (simp add: take_Suc_conv_app_nth)
    moreover have "bval (take ?yn z1) < ?Y" using Z1 m Y by simp
    ultimately show ?thesis using step ZW m by (simp add: mult.commute)
  next
    case True
    have "bval (take m z1) < 0 + ?B ^ k * ?Y"
      unfolding Z1 using bval_take_less [of k zds] Suc.prems(2) kz pos_mod_bound [OF Y, of W] by (intro weighted_less) simp_all
    then obtain z2 where ih: "bigdivrem1 z1 m yds = Some z2" "length z2 = length z1" "drop m z2 = drop m z1"
      "bval (take ?yn z2) < ?Y" "bval (take m z1) = bval (take ?yn z2) + ?Y * bval (drop ?yn (take m z2))"
      using Suc.IH [of z1] True Suc.prems(2) step(2) kz by auto
    have "bigdivrem1 zds (Suc m) yds = Some z2" using True step(1) ih(1) by (subst bigdivrem1.simps) simp
    moreover have "drop (Suc m) z2 = drop (Suc m) zds" using ih(3) step(3) by (metis drop_drop plus_1_eq_Suc)
    moreover have "z2 ! m = z1 ! m" using ih(2,3) step(2) Suc.prems(2) by (metis Suc_le_eq hd_drop_conv_nth)
    then have "take (Suc m) z2 = take m z2 @ [z1 ! m]" using ih(2) step(2) Suc.prems(2) by (simp add: take_Suc_conv_app_nth)
    then have "bval (drop ?yn (take (Suc m) z2)) = bval (drop ?yn (take m z2)) + ?B ^ k * (W div ?Y)"
      using ih(2) step(2,6) Suc.prems(2) kz True by (simp add: bval_append min_absorb2)
    ultimately show ?thesis using ih step(2) ZW by (simp add: algebra_simps)
  qed
qed simp

end
