(* ===== verification/Bary_Divmod.thy ===== *)
theory Bary_Divmod
  imports Bary_Div
begin

text \<open>
  The division of bignum.c from \<open>bigdivrem_restoring\<close> up to \<open>bary_divmod\<close>: low digits of the divisor
  that are zero, normalisation of the divisor by a shift, the short cuts for small operands and the
  division by zero.
\<close>

text \<open>Low digits of the divisor that are zero take no part.\<close>

fun low_zero_digits :: "BDIGIT list \<Rightarrow> nat" where
  "low_zero_digits [] = 0"
| "low_zero_digits (d # ds) = (if d = 0 then Suc (low_zero_digits ds) else 0)"

definition bigdivrem_restoring :: "BDIGIT list \<Rightarrow> BDIGIT list \<Rightarrow> BDIGIT list option" where
  "bigdivrem_restoring zds yds =
    (let zn = length zds; yn = length yds; ynzero = low_zero_digits yds
     in if ynzero + 1 = yn then
          (let (qds, r) = bigdivrem_single1 (take (zn - yn) (drop ynzero zds)) (zds ! (zn - 1)) (yds ! ynzero)
           in Some ((bary_put yn qds zds)[ynzero := r]))
        else do { z \<leftarrow> bigdivrem1 (drop ynzero zds) (zn - ynzero) (drop ynzero yds); Some (take ynzero zds @ z) })"

text \<open>The quotient and the remainder are wanted when their sizes are given.\<close>

definition bary_divmod_normal :: "nat option \<Rightarrow> nat option \<Rightarrow> BDIGIT list \<Rightarrow> BDIGIT list \<Rightarrow>
    (BDIGIT list option \<times> BDIGIT list option) option" where
  "bary_divmod_normal qn rn xds yds =
    (let xn = length xds; yn = length yds; zn = xn + 1; shift = nlz_int32 (yds ! (yn - 1));
         (zds, yyds) =
           (if shift \<noteq> 0 then
              (let (zds, d) = bary_small_lshift xds shift in (zds @ [d], fst (bary_small_lshift yds shift)))
            else (xds @ [0], yds))
     in do {
       zds \<leftarrow> bigdivrem_restoring zds yyds;
       let rds = (if shift \<noteq> 0 then bary_small_rshift (take yn zds) shift 0 else take yn zds);
           qds = drop yn zds
       in Some (map_option (\<lambda>qn. qds @ replicate (qn - (zn - yn)) 0) qn,
                map_option (\<lambda>rn. rds @ replicate (rn - yn) 0) rn) })"

datatype num_error = ZeroDivisionError

definition bary2bdigitdbl :: "BDIGIT list \<Rightarrow> BDIGIT_DBL" where
  "bary2bdigitdbl ds = (if length ds = 2 then ucast (ds ! 0) OR BIGUP (ucast (ds ! 1))
    else if length ds = 1 then ucast (ds ! 0) else 0)"

definition bary_divmod :: "nat \<Rightarrow> nat \<Rightarrow> BDIGIT list \<Rightarrow> BDIGIT list \<Rightarrow> (num_error + BDIGIT list \<times> BDIGIT list) option" where
  "bary_divmod qn rn xds yds =
    (let yn = BARY_TRUNC yds (length yds)
     in if yn = 0 then Some (Inl ZeroDivisionError)
        else
          let xn = BARY_TRUNC xds (length xds)
          in if xn = 0 then Some (Inr (replicate qn 0, replicate rn 0))
             else if xn < yn \<or> xn = yn \<and> xds ! (xn - 1) < yds ! (yn - 1)
             then Some (Inr (replicate qn 0, take xn xds @ replicate (rn - xn) 0))
             else if yn = 1 then
               (let (qds, r) = bigdivrem_single (take xn xds) (yds ! 0)
                in Some (Inr (qds @ replicate (qn - xn) 0, [r] @ replicate (rn - 1) 0)))
             else if xn = 2 \<and> yn = 2 then
               (let x = bary2bdigitdbl (take 2 xds); y = bary2bdigitdbl (take 2 yds); q = x div y; r = x mod y
                in Some (Inr ([BIGLO q, BIGLO (BIGDN q)] @ replicate (qn - 2) 0, [BIGLO r, BIGLO (BIGDN r)] @ replicate (rn - 2) 0)))
             else do {
               (q, r) \<leftarrow> bary_divmod_normal (Some qn) (Some rn) (take xn xds) (take yn yds);
               Some (Inr (the q, the r)) })"

lemma low_zero_digits_spec:
  assumes "bval ds \<noteq> 0"
  shows "low_zero_digits ds < length ds" "bval ds = 4294967296 ^ low_zero_digits ds * bval (drop (low_zero_digits ds) ds)"
proof -
  have "low_zero_digits ds < length ds \<and> bval ds = 4294967296 ^ low_zero_digits ds * bval (drop (low_zero_digits ds) ds)"
    using assms by (induction ds) auto
  then show "low_zero_digits ds < length ds" "bval ds = 4294967296 ^ low_zero_digits ds * bval (drop (low_zero_digits ds) ds)"
    by blast+
qed

lemma bval_top_digit:
  assumes "0 < length ds"
  shows "bval ds = bval (take (length ds - 1) ds) + 4294967296 ^ (length ds - 1) * uint (ds ! (length ds - 1))"
proof -
  have "drop (length ds - 1) ds = [ds ! (length ds - 1)]" using assms Cons_nth_drop_Suc [of "length ds - 1" ds] by simp
  then show ?thesis using bval_take_drop [of "length ds - 1" ds] by simp
qed

lemma leading_digit_less:
  assumes "0 < length bs" "length bs \<le> length as" "uint (as ! (length as - 1)) < uint (bs ! (length bs - 1))"
  shows "bval as < 4294967296 ^ (length as - length bs) * bval bs"
proof -
  let ?B = "4294967296 :: int"
  have "bval as < 0 + ?B ^ (length as - 1) * uint (bs ! (length bs - 1))"
    unfolding bval_top_digit [OF less_le_trans [OF assms(1,2)]]
    using assms bval_take_less [of "length as - 1" as] by (intro weighted_less) simp_all
  also have "length as - 1 = (length as - length bs) + (length bs - 1)" using assms(1,2) by linarith
  also have "0 + ?B ^ ((length as - length bs) + (length bs - 1)) * uint (bs ! (length bs - 1)) \<le> ?B ^ (length as - length bs) * bval bs"
    unfolding power_add using bval_top_digit [OF assms(1)] by (simp add: mult.assoc)
  finally show ?thesis .
qed

lemma bigdivrem_restoring_spec:
  assumes len: "0 < length yds" "length yds < length zds" and top: "yds ! (length yds - 1) \<noteq> 0"
    and less: "zds ! (length zds - 1) < yds ! (length yds - 1)"
  shows "\<exists>zds'. bigdivrem_restoring zds yds = Some zds' \<and> length zds' = length zds \<and>
    bval (take (length yds) zds') < bval yds \<and>
    bval zds = bval (take (length yds) zds') + bval yds * bval (drop (length yds) zds')"
proof -
  let ?yn = "length yds" and ?zn = "length zds" and ?B = "4294967296 :: int"
  define yz where "yz = low_zero_digits yds"
  have Y0: "bval yds \<noteq> 0" using bval_top_pos [OF len(1) top] by simp
  note yz = low_zero_digits_spec [OF Y0, folded yz_def]
  have Z: "bval zds = bval (take yz zds) + ?B ^ yz * bval (drop yz zds)" using yz(1) len by (intro bval_take_drop) simp
  have low: "bval (take yz zds) < ?B ^ yz" using yz(1) len by (intro bval_take_less) simp
  have less': "uint (zds ! (?zn - 1)) < uint (yds ! (?yn - 1))" using less by (simp add: word_less_def)
  show ?thesis
  proof (cases "yz + 1 = ?yn")
    case True
    define X where "X = take (?zn - ?yn) (drop yz zds)"
    have ylast: "?yn - 1 = yz" using True by simp
    have X: "length X = ?zn - ?yn" "X \<noteq> []" using True len by (auto simp: X_def)
    have "drop yz yds = [yds ! yz]" using True Cons_nth_drop_Suc [of yz yds] by simp
    then have Y: "bval yds = ?B ^ yz * uint (yds ! yz)" using yz(2) by simp
    have "drop yz zds = X @ drop (?zn - ?yn) (drop yz zds)" unfolding X_def by (rule append_take_drop_id [symmetric])
    also have "?zn - ?yn + yz = ?zn - 1" using True len by linarith
    then have "drop (?zn - ?yn) (drop yz zds) = drop (?zn - 1) zds" unfolding drop_drop by simp
    also have "\<dots> = [zds ! (?zn - 1)]" using len Cons_nth_drop_Suc [of "?zn - 1" zds] by simp
    finally have mid: "bval (drop yz zds) = bval X + ?B ^ length X * uint (zds ! (?zn - 1))" by (simp add: bval_append)
    obtain qds r where single: "bigdivrem_single1 X (zds ! (?zn - 1)) (yds ! yz) = (qds, r)" by fastforce
    note s = bigdivrem_single1_spec [OF X(2) less' [unfolded ylast] single]
    define zds' where "zds' = (bary_put ?yn qds zds)[yz := r]"
    have "bigdivrem_restoring zds yds = Some zds'"
      unfolding bigdivrem_restoring_def Let_def yz_def [symmetric] X_def [symmetric] single prod.case
      using True by (simp add: zds'_def)
    moreover have parts: "length zds' = ?zn" "take ?yn zds' = take yz zds @ [r]" "drop ?yn zds' = qds"
      using s(1) X(1) len True by (auto simp: zds'_def bary_put_def take_Suc_conv_app_nth simp flip: True)
    moreover have "bval (take yz zds) + ?B ^ yz * uint r < 0 + ?B ^ yz * uint (yds ! yz)"
      using low s(3) by (intro weighted_less) simp_all
    moreover have "bval zds = bval (take yz zds) + ?B ^ yz * uint r + bval yds * bval qds"
      unfolding Z mid s(2) [symmetric] Y by (simp add: algebra_simps)
    moreover have "length (take yz zds) = yz" using True len by simp
    ultimately show ?thesis using Y by (simp add: bval_append)
  next
    case False
    then have yn: "2 \<le> length (drop yz yds)" using yz(1) by simp
    have tops: "drop yz yds ! (length (drop yz yds) - 1) = yds ! (?yn - 1)" "drop yz zds ! (length (drop yz zds) - 1) = zds ! (?zn - 1)"
      using yz(1) len by simp_all
    have zn: "length (drop yz yds) < ?zn - yz" "?zn - yz \<le> length (drop yz zds)" using yz(1) len by auto
    have "bval (drop yz zds) < ?B ^ (length (drop yz zds) - length (drop yz yds)) * bval (drop yz yds)"
      using leading_digit_less [of "drop yz yds" "drop yz zds", unfolded tops] yn zn less' by linarith
    then have "bval (take (?zn - yz) (drop yz zds)) < ?B ^ (?zn - yz - length (drop yz yds)) * bval (drop yz yds)" by simp
    from bigdivrem1_spec [OF yn _ zn this] top tops(1)
    obtain z where z: "bigdivrem1 (drop yz zds) (?zn - yz) (drop yz yds) = Some z" "length z = ?zn - yz"
      "bval (take (?yn - yz) z) < bval (drop yz yds)"
      "bval (drop yz zds) = bval (take (?yn - yz) z) + bval (drop yz yds) * bval (drop (?yn - yz) z)"
      by auto
    define zds' where "zds' = take yz zds @ z"
    have "bigdivrem_restoring zds yds = Some zds'"
      unfolding bigdivrem_restoring_def Let_def yz_def [symmetric] z(1) using False by (simp add: zds'_def)
    moreover have parts: "length zds' = ?zn" "take ?yn zds' = take yz zds @ take (?yn - yz) z" "drop ?yn zds' = drop (?yn - yz) z"
      "length (take yz zds) = yz"
      using z(2) yz(1) len by (simp_all add: zds'_def)
    moreover have "bval (take yz zds) + ?B ^ yz * bval (take (?yn - yz) z) < 0 + ?B ^ yz * bval (drop yz yds)"
      using low z(3) by (intro weighted_less) simp_all
    moreover have "bval zds = bval (take yz zds) + ?B ^ yz * bval (take (?yn - yz) z) + bval yds * bval (drop (?yn - yz) z)"
      unfolding Z z(4) yz(2) by (simp add: algebra_simps)
    ultimately show ?thesis using yz(2) by (simp add: bval_append)
  qed
qed

section \<open>The division is correct\<close>

text \<open>Normalisation: shifted by the leading zeros of its top digit the divisor still fits, with its top bit set.\<close>

lemma nlz_digit:
  assumes "d \<noteq> 0"
  shows "nlz_int32 d < 32" "uint d * 2 ^ nlz_int32 d < 4294967296" "2147483648 \<le> uint d * 2 ^ nlz_int32 d"
    "(2 :: int) ^ nlz_int32 d \<le> 2147483648"
proof -
  define w where "w = bit_width (unat d)"
  have un: "unat d \<noteq> 0" using assms by (simp add: unat_eq_0)
  have w32: "w \<le> 32" using bit_width_le_iff [of "unat d" 32] unsigned_less [of d] by (simp add: w_def)
  have "w \<noteq> 0" using un by (simp add: w_def)
  then obtain k where k: "w = Suc k" using not0_implies_Suc by blast
  have s: "nlz_int32 d = 32 - Suc k" by (simp add: nlz_int32_bit_width k flip: w_def)
  have b: "2 ^ k \<le> unat d" "unat d < 2 ^ Suc k" using bit_width_bounds [of "unat d"] un k by (simp_all flip: w_def)
  have p: "(2 :: nat) ^ k * 2 ^ nlz_int32 d = 2 ^ 31" "(2 :: nat) ^ Suc k * 2 ^ nlz_int32 d = 2 ^ 32"
    unfolding s using w32 k by (simp_all flip: power_add power_Suc)
  have "2 ^ k * 2 ^ nlz_int32 d \<le> unat d * 2 ^ nlz_int32 d" using b(1) by simp
  moreover have "unat d * 2 ^ nlz_int32 d < 2 ^ Suc k * 2 ^ nlz_int32 d" using b(2) by simp
  ultimately have n: "unat d * 2 ^ nlz_int32 d < 4294967296" "2147483648 \<le> unat d * 2 ^ nlz_int32 d" unfolding p by simp_all
  have i: "uint d * 2 ^ nlz_int32 d = int (unat d * 2 ^ nlz_int32 d)" by simp
  show "nlz_int32 d < 32" using s by simp
  show "uint d * 2 ^ nlz_int32 d < 4294967296" "2147483648 \<le> uint d * 2 ^ nlz_int32 d" unfolding i using n by linarith+
  have "(2 :: int) ^ nlz_int32 d \<le> 2 ^ 31" using s by (intro power_increasing) simp_all
  then show "(2 :: int) ^ nlz_int32 d \<le> 2147483648" by simp
qed

lemma normalised_digits:
  assumes len: "0 < length yds" and top: "yds ! (length yds - 1) \<noteq> 0"
    and code: "bary_small_lshift yds (nlz_int32 (yds ! (length yds - 1))) = (ys, c)"
  shows "length ys = length yds" "bval ys = bval yds * 2 ^ nlz_int32 (yds ! (length yds - 1))"
    "2147483648 \<le> uint (ys ! (length yds - 1))"
proof -
  let ?n = "length yds - 1" and ?B = "4294967296 :: int"
  define y where "y = yds ! ?n"
  define s where "s = nlz_int32 y"
  note nlz = nlz_digit [OF top, folded y_def, folded s_def]
  note shift = bary_small_lshift_spec [OF nlz(1) code [folded y_def, folded s_def]]
  have Y: "bval yds = bval (take ?n yds) + ?B ^ ?n * uint y" using bval_top_digit [OF len] by (simp add: y_def)
  have low: "bval (take ?n yds) < ?B ^ ?n" using bval_take_less [of ?n yds] by simp
  have B: "?B ^ length yds = ?B ^ ?n * ?B" using len by (metis Suc_pred' power_Suc2)
  have s0: "(0 :: int) < 2 ^ s" by simp
  have "bval (take ?n yds) * 2 ^ s < ?B ^ ?n * 2 ^ s" using low by simp
  moreover have "uint y * 2 ^ s + 2 ^ s \<le> ?B"
  proof -
    have e: "?B = 2 ^ (32 - s) * 2 ^ s" using nlz(1) by (simp flip: power_add)
    then have "uint y * 2 ^ s < 2 ^ (32 - s) * 2 ^ s" using nlz(2) by simp
    then have "uint y + 1 \<le> 2 ^ (32 - s)" by simp
    then have "(uint y + 1) * 2 ^ s \<le> 2 ^ (32 - s) * 2 ^ s" by (intro mult_right_mono) simp_all
    then show ?thesis unfolding e by (simp add: algebra_simps)
  qed
  then have "?B ^ ?n * (uint y * 2 ^ s + 2 ^ s) \<le> ?B ^ ?n * ?B" by (intro mult_left_mono) simp_all
  moreover have "?B ^ ?n * (uint y * 2 ^ s + 2 ^ s) = ?B ^ ?n * (uint y * 2 ^ s) + ?B ^ ?n * 2 ^ s" by (rule distrib_left)
  moreover have "bval yds * 2 ^ s = bval (take ?n yds) * 2 ^ s + ?B ^ ?n * (uint y * 2 ^ s)" unfolding Y by (simp only: distrib_right mult.assoc)
  ultimately have small: "bval yds * 2 ^ s < ?B ^ length yds" unfolding B by linarith
  have e: "bval ys + ?B ^ length yds * uint c = bval yds * 2 ^ s" using shift(1,2) by (simp add: bval_append)
  have c: "uint c = 0"
  proof (rule ccontr)
    assume "uint c \<noteq> 0"
    then have "?B ^ length yds * 1 \<le> ?B ^ length yds * uint c" using uint_ge_0 [of c] by (intro mult_left_mono) (linarith, simp)
    then show False using small e bval_nonneg [of ys] by linarith
  qed
  show "length ys = length yds" "bval ys = bval yds * 2 ^ nlz_int32 (yds ! ?n)"
    using shift c by (simp_all add: bval_append y_def s_def)
  have Ys: "bval ys = bval (take ?n ys) + ?B ^ ?n * uint (ys ! ?n)" using bval_top_digit [of ys] len shift(1) by simp
  have "?B ^ ?n * 2147483648 \<le> ?B ^ ?n * (uint y * 2 ^ s)" using nlz(3) by (intro mult_left_mono) simp_all
  also have "\<dots> \<le> bval ys" using shift c Y by (simp add: bval_append algebra_simps)
  also have "\<dots> < ?B ^ ?n * (uint (ys ! ?n) + 1)" using Ys bval_take_less [of ?n ys] shift(1) by (simp add: algebra_simps)
  finally have "2147483648 < uint (ys ! ?n) + 1" by (simp only: mult_less_cancel_left_pos zero_less_power zero_less_numeral)
  then show "2147483648 \<le> uint (ys ! ?n)" by simp
qed

lemma remainder_unshift:
  assumes "X * s = R + Y * s * Q" "0 \<le> (R :: int)" "R < Y * s" "0 < s"
  shows "R div s = X mod Y" "Q = X div Y"
proof -
  have "R = s * (X - Y * Q)" using assms(1) by (simp add: algebra_simps)
  then have R: "R div s = X - Y * Q" "0 \<le> X - Y * Q" "s * (X - Y * Q) < s * Y"
    using assms(2-4) by (simp_all add: zero_le_mult_iff mult.commute)
  then have "X - Y * Q < Y" using assms(4) by simp
  then have "X mod Y = X - Y * Q \<and> X div Y = Q"
    using R(2) div_pos_pos_trivial [of "X - Y * Q" Y] mod_pos_pos_trivial [of "X - Y * Q" Y]
      div_mult_self2 [of Y "X - Y * Q" Q] mod_mult_self2 [of "X - Y * Q" Y Q] by simp
  then show "R div s = X mod Y" "Q = X div Y" using R(1) by simp_all
qed

lemma bary_divmod_normal_spec:
  assumes len: "0 < length yds" and top: "yds ! (length yds - 1) \<noteq> 0"
    and ge: "length yds < length xds \<or> length yds = length xds"
  shows "\<exists>qds rds. bary_divmod_normal qn rn xds yds =
      Some (map_option (\<lambda>qn. qds @ replicate (qn - length qds) 0) qn, map_option (\<lambda>rn. rds @ replicate (rn - length rds) 0) rn) \<and>
    length qds = length xds + 1 - length yds \<and> length rds = length yds \<and>
    bval qds = bval xds div bval yds \<and> bval rds = bval xds mod bval yds"
proof -
  let ?xn = "length xds" and ?yn = "length yds" and ?B = "4294967296 :: int"
  define s where "s = nlz_int32 (yds ! (?yn - 1))"
  note nlz = nlz_digit [OF top, folded s_def]
  define zy where "zy = (if s \<noteq> 0 then
      (let (zds, d) = bary_small_lshift xds s in (zds @ [d], fst (bary_small_lshift yds s))) else (xds @ [0], yds))"
  obtain zds yyds where zy': "zy = (zds, yyds)" by fastforce
  have *: "length zds = ?xn + 1 \<and> length yyds = ?yn \<and> bval zds = bval xds * 2 ^ s \<and> bval yyds = bval yds * 2 ^ s \<and>
      zds ! ?xn < yyds ! (?yn - 1) \<and> yyds ! (?yn - 1) \<noteq> 0"
  proof (cases "s = 0")
    case True
    then have "zds = xds @ [0]" "yyds = yds" using zy' by (simp_all add: zy_def)
    then show ?thesis using True top by (simp add: bval_append word_neq_0_conv)
  next
    case False
    obtain zs d where z: "bary_small_lshift xds s = (zs, d)" by fastforce
    obtain ys c where y: "bary_small_lshift yds s = (ys, c)" by fastforce
    have zyd: "zds = zs @ [d]" "yyds = ys" using zy' False by (simp_all add: zy_def z y)
    note sz = bary_small_lshift_spec [OF nlz(1) z]
    note sy = normalised_digits [OF len top y [unfolded s_def], folded s_def]
    have "uint d < uint (ys ! (?yn - 1))" using sz(3) nlz(4) sy(3) by linarith
    then have "d < ys ! (?yn - 1)" "ys ! (?yn - 1) \<noteq> 0" by (auto simp: word_less_def)
    then show ?thesis using sz sy by (simp add: zyd nth_append)
  qed
  note zy_spec = conjunct1 [OF *] conjunct1 [OF conjunct2 [OF *]]
  have yn: "0 < length yyds" "length yyds < length zds" using * ge len by auto
  have tops: "yyds ! (length yyds - 1) \<noteq> 0" "zds ! (length zds - 1) < yyds ! (length yyds - 1)" using * by simp_all
  obtain zs where div: "bigdivrem_restoring zds yyds = Some zs" "length zs = ?xn + 1" "bval (take ?yn zs) < bval yds * 2 ^ s"
    "bval xds * 2 ^ s = bval (take ?yn zs) + bval yds * 2 ^ s * bval (drop ?yn zs)"
    using bigdivrem_restoring_spec [OF yn tops] * by auto
  note rem = remainder_unshift [OF div(4) bval_nonneg div(3) zero_less_power [OF zero_less_numeral]]
  define rds where "rds = (if s \<noteq> 0 then bary_small_rshift (take ?yn zs) s 0 else take ?yn zs)"
  have low: "length (take ?yn zs) = ?yn" using div(2) ge by auto
  have r: "length rds = ?yn \<and> bval rds = bval xds mod bval yds"
  proof (cases "s = 0")
    case True
    then show ?thesis using rem(1) low by (simp add: rds_def)
  next
    case False
    have "bval (bary_small_rshift (take ?yn zs) s 0) = bval (take ?yn zs) div 2 ^ s" "length (bary_small_rshift (take ?yn zs) s 0) = ?yn"
      using bary_small_rshift_spec [OF nlz(1), of 0 "take ?yn zs"] low by simp_all
    then show ?thesis using False unfolding rds_def rem(1) by simp
  qed
  have "bary_divmod_normal qn rn xds yds =
    Some (map_option (\<lambda>qn. drop ?yn zs @ replicate (qn - (?xn + 1 - ?yn)) 0) qn, map_option (\<lambda>rn. rds @ replicate (rn - ?yn) 0) rn)"
    unfolding bary_divmod_normal_def Let_def s_def [symmetric] zy_def [unfolded Let_def, symmetric] zy' prod.case div(1) bind.bind_lunit
    unfolding rds_def [symmetric] by (rule refl)
  then show ?thesis using div(2) r rem(2) by (intro exI [of _ "drop ?yn zs"] exI [of _ rds]) simp
qed

lemma bval_one [simp]: "bval [d] = uint d"
  by simp

lemma bary2bdigitdbl_2: "length ds = 2 \<Longrightarrow> uint (bary2bdigitdbl ds) = bval ds"
proof -
  assume "length ds = 2"
  then obtain a b where ds: "ds = [a, b]" by (auto simp: length_Suc_conv numeral_2_eq_2)
  have "uint (ucast a OR BIGUP (ucast b)) = uint a + 4294967296 * uint b"
    using uint_or_disjoint [of "ucast a" 32 "BIGUP (ucast b)"] uint_digit [of a] uint_digit [of b]
    by (simp add: uint_BIGUP or.commute)
  then show ?thesis by (simp add: ds bary2bdigitdbl_def)
qed

lemma bval_dbl: "bval [BIGLO t, BIGLO (BIGDN t)] = uint t"
  using uint_lo_dn [of t] uint_BIGDN_less [of t] by (simp add: uint_BIGLO)

text \<open>The cases a division can be settled by: a divisor that is larger, and one of a single digit.\<close>

lemma digits_less:
  assumes "0 < length y" "y ! (length y - 1) \<noteq> 0"
    and "length x < length y \<or> length x = length y \<and> x ! (length x - 1) < y ! (length y - 1)"
  shows "bval x < bval y"
proof (cases "length x < length y")
  case True
  have "bval x < 4294967296 ^ length x" by (rule bval_less)
  also have "\<dots> \<le> 4294967296 ^ (length y - 1)" using True by (intro power_increasing) simp_all
  also have "\<dots> \<le> bval y" using bval_take_ge [OF assms(1) order_refl assms(2)] by simp
  finally show ?thesis .
next
  case False
  then have "length x = length y" "uint (x ! (length x - 1)) < uint (y ! (length y - 1))"
    using assms(3) by (auto simp: word_less_def)
  then show ?thesis using leading_digit_less [of y x] assms(1) by simp
qed

lemma bigdivrem_single_spec:
  assumes "x \<noteq> []" "d \<noteq> 0" "bigdivrem_single x d = (q, r)"
  shows "length q = length x" "bval q = bval x div uint d" "uint r = bval x mod uint d"
proof -
  have "uint d \<noteq> 0" using assms(2) by (simp add: uint_0_iff)
  then have "uint (0 :: BDIGIT) < uint d" using uint_ge_0 [of d] by (simp only: unsigned_0)
  then have s: "length q = length x" "bval q * uint d + uint r = bval x" "uint r < uint d"
    using bigdivrem_single1_spec [of x 0 d q r] assms(1,3) by (simp_all add: bigdivrem_single_def)
  have eq: "bval x * 1 = uint r + uint d * 1 * bval q" using s(2) by (simp add: algebra_simps)
  note rem = remainder_unshift [OF eq uint_ge_0 _ zero_less_one]
  show "length q = length x" "bval q = bval x div uint d" "uint r = bval x mod uint d" using s rem by simp_all
qed

text \<open>The whole division, on every branch: the quotient and the remainder of the natural numbers.\<close>

lemma bary_divmod_correct:
  assumes size: "length xds \<le> qn" "length yds \<le> rn" and Y: "bval yds \<noteq> 0"
  shows "\<exists>qds rds. bary_divmod qn rn xds yds = Some (Inr (qds, rds)) \<and> length qds = qn \<and> length rds = rn \<and>
    bval qds = bval xds div bval yds \<and> bval rds = bval xds mod bval yds"
proof -
  define yn where "yn = BARY_TRUNC yds (length yds)"
  define xn where "xn = BARY_TRUNC xds (length xds)"
  define x where "x = take xn xds"
  define y where "y = take yn yds"
  note ty = BARY_TRUNC_spec [OF order_refl, of yds, folded yn_def]
  note tx = BARY_TRUNC_spec [OF order_refl, of xds, folded xn_def]
  have val: "bval x = bval xds" "bval y = bval yds" "length x = xn" "length y = yn" using tx(1,2) ty(1,2) by (simp_all add: x_def y_def)
  have yn: "0 < yn" using Y val(2) by (metis bval.simps(1) gr0I take0 take_eq_Nil2 y_def)
  have topy: "y ! (yn - 1) = yds ! (yn - 1)" "yds ! (yn - 1) \<noteq> 0" using ty(3) yn by (simp_all add: y_def)
  have sizes: "xn \<le> qn" "yn \<le> rn" using tx(1) ty(1) size by linarith+
  consider "xn = 0" | "xn \<noteq> 0" "xn < yn \<or> xn = yn \<and> xds ! (xn - 1) < yds ! (yn - 1)"
    | "xn \<noteq> 0" "yn = 1" "\<not> (xn < yn \<or> xn = yn \<and> xds ! (xn - 1) < yds ! (yn - 1))"
    | "xn = 2" "yn = 2" "\<not> (xn < yn \<or> xn = yn \<and> xds ! (xn - 1) < yds ! (yn - 1))"
    | "xn \<noteq> 0" "yn \<noteq> 1" "\<not> (xn = 2 \<and> yn = 2)" "\<not> (xn < yn \<or> xn = yn \<and> xds ! (xn - 1) < yds ! (yn - 1))"
    by blast
  then show ?thesis
  proof cases
    case 1
    then have "bary_divmod qn rn xds yds = Some (Inr (replicate qn 0, replicate rn 0))"
      using yn by (simp add: bary_divmod_def Let_def flip: yn_def xn_def)
    moreover have "bval xds = 0" using 1 val(1) by (simp add: x_def)
    ultimately show ?thesis by simp
  next
    case 2
    have "x ! (xn - 1) = xds ! (xn - 1)" using 2(1) by (simp add: x_def)
    then have less: "bval x < bval y" using digits_less [of y x] 2(2) topy yn val(3,4) by simp
    have "xn \<le> yn" using 2(2) by linarith
    moreover have "bary_divmod qn rn xds yds = Some (Inr (replicate qn 0, x @ replicate (rn - xn) 0))"
      using yn 2 by (simp add: bary_divmod_def Let_def x_def flip: yn_def xn_def)
    ultimately show ?thesis using less val sizes by (simp add: bval_append)
  next
    case 3
    obtain q r where single: "bigdivrem_single x (yds ! 0) = (q, r)" by fastforce
    have "y = [yds ! 0]" using 3(2) ty(1) by (cases yds) (simp_all add: y_def)
    then have Yv: "bval yds = uint (yds ! 0)" using val(2) by simp
    have "x \<noteq> []" using 3(1) val(3) by auto
    moreover have "yds ! 0 \<noteq> 0" using topy(2) 3(2) by simp
    ultimately have rem: "length q = length x" "bval q = bval x div bval yds" "uint r = bval x mod bval yds"
      using bigdivrem_single_spec [OF _ _ single] Yv by simp_all
    have "bary_divmod qn rn xds yds = Some (Inr (q @ replicate (qn - xn) 0, [r] @ replicate (rn - 1) 0))"
      using 3 single by (auto simp: bary_divmod_def Let_def x_def simp flip: yn_def xn_def)
    then show ?thesis using rem val sizes 3(2) by (simp add: bval_append)
  next
    case 4
    define q where "q = bary2bdigitdbl x div bary2bdigitdbl y"
    define r where "r = bary2bdigitdbl x mod bary2bdigitdbl y"
    have v: "uint (bary2bdigitdbl x) = bval xds" "uint (bary2bdigitdbl y) = bval yds"
      using 4(1,2) val by (simp_all add: bary2bdigitdbl_2)
    have "bary_divmod qn rn xds yds = Some (Inr ([BIGLO q, BIGLO (BIGDN q)] @ replicate (qn - 2) 0, [BIGLO r, BIGLO (BIGDN r)] @ replicate (rn - 2) 0))"
      using 4 unfolding bary_divmod_def Let_def yn_def [symmetric] xn_def [symmetric] q_def r_def x_def y_def by simp
    moreover have "bval ([BIGLO q, BIGLO (BIGDN q)] @ replicate (qn - 2) 0) = bval xds div bval yds"
      "bval ([BIGLO r, BIGLO (BIGDN r)] @ replicate (rn - 2) 0) = bval xds mod bval yds"
      unfolding bval_append bval_dbl by (simp_all add: q_def r_def uint_div uint_mod v)
    moreover have "2 + (qn - 2) = qn" "2 + (rn - 2) = rn" using sizes 4(1,2) by linarith+
    ultimately show ?thesis by simp
  next
    case 5
    have "length y \<le> length x" using 5(4) val(3,4) by auto
    then have len: "length y < length x \<or> length y = length x" by auto
    obtain q r where nrm: "bary_divmod_normal (Some qn) (Some rn) x y = Some (Some (q @ replicate (qn - length q) 0), Some (r @ replicate (rn - length r) 0))"
      "length q = length x + 1 - length y" "length r = length y" "bval q = bval x div bval y" "bval r = bval x mod bval y"
      using bary_divmod_normal_spec [of y x "Some qn" "Some rn"] topy yn val(4) len by auto
    have "bary_divmod qn rn xds yds = Some (Inr (q @ replicate (qn - length q) 0, r @ replicate (rn - length r) 0))"
      using 5 yn nrm(1) unfolding bary_divmod_def Let_def yn_def [symmetric] xn_def [symmetric] x_def [symmetric] y_def [symmetric] by auto
    moreover have "length q \<le> qn" "length r \<le> rn" using nrm(2,3) val(3,4) sizes yn by linarith+
    ultimately show ?thesis using nrm val by (simp add: bval_append)
  qed
qed

lemma bary_divmod_zero: "bval yds = 0 \<Longrightarrow> bary_divmod qn rn xds yds = Some (Inl ZeroDivisionError)"
proof -
  assume Y: "bval yds = 0"
  have "BARY_TRUNC yds (length yds) = 0"
  proof (rule ccontr)
    assume pos: "BARY_TRUNC yds (length yds) \<noteq> 0"
    note t = BARY_TRUNC_spec [OF order_refl, of yds]
    have "4294967296 ^ (BARY_TRUNC yds (length yds) - 1) \<le> bval (take (BARY_TRUNC yds (length yds)) yds)"
      using pos bval_take_ge [OF _ t(1,3)] by blast
    moreover have "bval (take (length yds) yds) = 0" using Y by simp
    moreover have "(0 :: int) < 4294967296 ^ (BARY_TRUNC yds (length yds) - 1)" by simp
    ultimately show False using t(2) by linarith
  qed
  then show ?thesis by (simp add: bary_divmod_def)
qed

end
