(* ===== verification/Bary_Karatsuba.thy ===== *)
theory Bary_Karatsuba
  imports Bary_Balance Bary_Divmod
begin

text \<open>
  The special cases before the recursive multiplications of bignum.c (\<open>bary_mul_precheck\<close>), Karatsuba's
  method and its branch to the other routines.  A recursive call is a call of the routine \<open>mulfunc\<close>
  that is passed in; \<open>bary_mul_karatsuba_start\<close> ties the knot with a bound on the depth.
\<close>

section \<open>The special cases\<close>

text \<open>
  The loops at the beginning of \<open>bary_mul_precheck\<close> for one operand: zero digits at both ends are
  dropped; the number of those at the low end is the second component.
\<close>

definition trim_digits :: "BDIGIT list \<Rightarrow> BDIGIT list \<times> nat" where
  "trim_digits xds =
    (let xds = take (BARY_TRUNC xds (length xds)) xds; k = low_zero_digits xds in (drop k xds, k))"

text \<open>\<open>Inl\<close> is a finished product, \<open>Inr\<close> the number of low digits already zero and the operands left.\<close>

definition bary_mul_precheck :: "BDIGIT list \<Rightarrow> BDIGIT list \<Rightarrow> BDIGIT list \<Rightarrow>
    BDIGIT list + nat \<times> BDIGIT list \<times> BDIGIT list" where
  "bary_mul_precheck zds xds yds =
    (let (xds, kx) = trim_digits xds; (yds, ky) = trim_digits yds; nlsz = kx + ky; zn = length zds - nlsz;
         (xds, yds) = (if length xds > length yds then (yds, xds) else (xds, yds));
         xn = length xds; yn = length yds; finish = (\<lambda>zds. Inl (replicate nlsz 0 @ zds))
     in if xn \<le> 1 then
          if xn = 0 then finish (replicate zn 0)
          else if xds ! 0 = 1 then finish (yds @ replicate (zn - yn) 0)
          else if POW2_P (xds ! 0) then
            (let (zds, c) = bary_small_lshift yds (bit_length_digit (xds ! 0) - 1)
             in finish (zds @ [c] @ replicate (zn - yn - 1) 0))
          else if yn = 1 \<and> yds ! 0 = 1 then finish ([xds ! 0] @ replicate (zn - 1) 0)
          else finish (bary_mul_normal zn xds yds)
        else Inr (nlsz, xds, yds))"

definition bary_sparse_p :: "BDIGIT list \<Rightarrow> bool" where
  "bary_sparse_p ds =
    (let n = length ds; c = (0 :: int);
         c = (if ds ! (2 * n div 5) \<noteq> 0 then c + 1 else c);
         c = (if c \<le> 1 \<and> ds ! (n div 2) \<noteq> 0 then c + 1 else c);
         c = (if c \<le> 1 \<and> ds ! (3 * n div 5) \<noteq> 0 then c + 1 else c)
     in c \<le> 1)"

section \<open>Karatsuba's method\<close>

text \<open>The difference of the halves, and whether it is negative.\<close>

definition karatsuba_diff :: "nat \<Rightarrow> BDIGIT list \<Rightarrow> BDIGIT list \<Rightarrow> BDIGIT list \<times> bool" where
  "karatsuba_diff n ds0 ds1 = (let (ds, b) = bary_sub n ds0 ds1 in if b then (fst (bary_2comp ds), True) else (ds, False))"

text \<open>
  What is done between the second and the third product: \<open>m\<close> is the middle product, \<open>p\<close> the low one.
  The result is \<open>zds1\<close>, the new work area and two carries.
\<close>

definition karatsuba_low :: "nat \<Rightarrow> BDIGIT list \<Rightarrow> BDIGIT list \<Rightarrow> BDIGIT list \<times> BDIGIT list \<times> bool \<times> bool" where
  "karatsuba_low n m p =
    (let zds1 = drop n p; (wds, carry1) = bary_add n (take n m) (take n p);
         (zds2, carry1) = bary_addc n (drop n m) zds1 carry1;
         (zds1, carry2) = bary_add n zds1 wds
     in (zds1, zds2, carry1, carry2))"

text \<open>What is done after the third product \<open>q\<close>: \<open>zds1\<close> and everything above it.\<close>

definition karatsuba_high :: "nat \<Rightarrow> nat \<Rightarrow> bool \<Rightarrow> BDIGIT list \<times> BDIGIT list \<times> bool \<times> bool \<Rightarrow> BDIGIT list \<Rightarrow> BDIGIT list" where
  "karatsuba_high n zn borrow low q =
    (let (zds1, wds, carry1, carry2) = low; zds2 = take n q; zds3 = drop n q;
         (zds1, carry3) = bary_add n zds1 zds2;
         (zds2, carry3) = bary_addc n zds2 (take (if 4 * n < zn then n else zn - 3 * n) zds3) carry3;
         zds23 = fst (bary_add (zn - 2 * n) (zds2 @ zds3) wds);
         zds23 = (if carry2 then fst (bary_add_one zds23) else zds23);
         c = of_bool carry1 + of_bool carry3 - (of_bool borrow :: int);
         zds3 = drop n zds23;
         zds3 = (if c < 0 then fst (bary_sub_one zds3)
                 else if c > 0 then fst (bary_add (zn - 3 * n) zds3 [word_of_int c]) else zds3)
     in zds1 @ take n zds23 @ zds3)"

definition bary_mul_karatsuba :: "mulfunc_t \<Rightarrow> bool \<Rightarrow> BDIGIT list \<Rightarrow> BDIGIT list \<Rightarrow> BDIGIT list \<Rightarrow> nat \<Rightarrow> mul_result" where
  "bary_mul_karatsuba mulfunc sq zds xds yds wn =
    (let xn = length xds; yn = length yds; zn = length zds;
         odd_y = odd yn; yn = (if odd_y then yn - 1 else yn);
         odd_xy = (odd_y \<and> yn < xn); xn = (if odd_xy then xn - 1 else xn);
         n = yn div 2; wn = (if wn < n then 2 * n else wn);
         xds0 = take n xds; xds1 = take (xn - n) (drop n xds); yds0 = take n yds; yds1 = take n (drop n yds);
         (dx, negx) = karatsuba_diff n xds0 xds1;
         (dy, negy) = karatsuba_diff n yds0 yds1;
         sub_p = (if sq then True else negx = negy)
     in mul_then (if sq then mulfunc True (take (2 * n) (drop n zds)) dx dx wn
                  else mulfunc False (take (2 * n) (drop n zds)) dx dy (wn - n)) (\<lambda>m.
          let (m, borrow) = (if sub_p then let (m, zero) = bary_2comp m in (m, \<not> zero) else (m, False))
          in mul_then (mulfunc sq (take (2 * n) zds) xds0 yds0 (wn - n)) (\<lambda>p.
            let low = karatsuba_low n m p
            in mul_then (mulfunc sq (drop (2 * n) zds) xds1 yds1 (wn - n)) (\<lambda>q.
              let zds = take n p @ karatsuba_high n zn borrow low q
              in Inr (if odd_xy then
                  (let zds = take yn zds @ fst (bary_muladd_1xN (drop yn zds) (yds ! yn) (take xn xds))
                   in take xn zds @ fst (bary_muladd_1xN (drop xn zds) (xds ! xn) (take (yn + 1) yds)))
                else if odd_y then take yn zds @ fst (bary_muladd_1xN (drop yn zds) (yds ! yn) (take xn xds))
                else zds)))))"

section \<open>Branching\<close>

definition KARATSUBA_MUL_DIGITS :: nat where "KARATSUBA_MUL_DIGITS = 70"

definition KARATSUBA_BALANCED :: "nat \<Rightarrow> nat \<Rightarrow> bool" where "KARATSUBA_BALANCED xn yn \<longleftrightarrow> yn div 2 < xn"

definition bary_mul_karatsuba_branch :: "mulfunc_t \<Rightarrow> mulfunc_t" where
  "bary_mul_karatsuba_branch start sq zds xds yds wn =
    (let zn = length zds; xn = length xds; yn = length yds;
         normal = (if sq then bary_sq_fast zn xds else bary_short_mul zn xds yds)
     in if xn < KARATSUBA_MUL_DIGITS then Inr normal
        else if bary_sparse_p xds then Inr normal
        else if bary_sparse_p yds then Inr (bary_short_mul zn yds xds)
        else if \<not> KARATSUBA_BALANCED xn yn then bary_mul_balance_with_mulfunc start zds xds yds wn
        else bary_mul_karatsuba start sq zds xds yds wn)"

text \<open>A routine behind the special cases.\<close>

definition mul_start :: "mulfunc_t \<Rightarrow> mulfunc_t" where
  "mul_start branch sq zds xds yds wn =
    (case bary_mul_precheck zds xds yds of
       Inl zds \<Rightarrow> Inr zds
     | Inr (nlsz, xds, yds) \<Rightarrow>
         mul_then (branch sq (drop nlsz zds) xds yds wn) (\<lambda>zds. Inr (replicate nlsz 0 @ zds)))"

primrec bary_mul_karatsuba_start :: "nat \<Rightarrow> mulfunc_t" where
  "bary_mul_karatsuba_start 0 = (\<lambda>sq zds xds yds wn. Inl Out_of_fuel)"
| "bary_mul_karatsuba_start (Suc fuel) = mul_start (bary_mul_karatsuba_branch (bary_mul_karatsuba_start fuel))"

section \<open>The special cases are right\<close>

lemma trim_digits_spec:
  assumes "trim_digits xds = (xs, k)"
  shows "length xs + k \<le> length xds" "bval xds = 4294967296 ^ k * bval xs"
    "0 < length xs \<Longrightarrow> xs ! (length xs - 1) \<noteq> 0 \<and> xs ! 0 \<noteq> 0"
proof -
  define ds where "ds = take (BARY_TRUNC xds (length xds)) xds"
  note t = BARY_TRUNC_spec [OF order_refl, of xds]
  have ds: "bval ds = bval xds" "length ds = BARY_TRUNC xds (length xds)" "length ds \<le> length xds"
    using t(1,2) by (simp_all add: ds_def)
  have xs: "xs = drop k ds" "k = low_zero_digits ds" using assms by (auto simp: trim_digits_def ds_def Let_def)
  have low: "low_zero_digits ds \<le> length ds \<and> bval ds = 4294967296 ^ low_zero_digits ds * bval (drop (low_zero_digits ds) ds) \<and>
      (drop (low_zero_digits ds) ds \<noteq> [] \<longrightarrow> ds ! low_zero_digits ds \<noteq> 0)" for ds
    by (induction ds) auto
  show "length xs + k \<le> length xds" "bval xds = 4294967296 ^ k * bval xs" using low [of ds] ds by (simp_all add: xs)
  assume pos: "0 < length xs"
  then have "0 < length ds" "k + (length xs - 1) = length ds - 1" using low [of ds] by (auto simp: xs)
  then have "xs ! (length xs - 1) = xds ! (BARY_TRUNC xds (length xds) - 1)"
    using ds(2) by (simp add: xs(1)) (simp add: ds_def)
  moreover have "xds ! (BARY_TRUNC xds (length xds) - 1) \<noteq> 0" using t(3) ds(2) \<open>0 < length ds\<close> by simp
  moreover have "xs ! 0 \<noteq> 0" using low [of ds] pos by (auto simp: xs)
  ultimately show "xs ! (length xs - 1) \<noteq> 0 \<and> xs ! 0 \<noteq> 0" by simp
qed

definition precheck_post :: "BDIGIT list \<Rightarrow> BDIGIT list \<Rightarrow> BDIGIT list \<Rightarrow> BDIGIT list + nat \<times> BDIGIT list \<times> BDIGIT list \<Rightarrow> bool" where
  "precheck_post zds xds yds r =
    (case r of
       Inl z \<Rightarrow> length z = length zds \<and> bval z = bval xds * bval yds
     | Inr (k, xs, ys) \<Rightarrow> 2 \<le> length xs \<and> length xs \<le> length ys \<and> length xs + length ys + k \<le> length xds + length yds \<and>
         bval xds * bval yds = 4294967296 ^ k * (bval xs * bval ys) \<and> (xds = yds \<longrightarrow> xs = ys))"

lemma bval_shifted_digit:
  assumes "POW2_P d" "d \<noteq> 0" "bary_small_lshift yds (bit_length_digit d - 1) = (zds, c)"
  shows "length zds = length yds" "bval (zds @ [c]) = uint d * bval yds"
proof -
  note p = pow2_digit(1,2) [OF assms(1,2)]
  show "length zds = length yds" "bval (zds @ [c]) = uint d * bval yds"
    using bary_small_lshift_spec [OF p(2) assms(3)] p(1) by simp_all
qed

lemma bary_mul_precheck_spec:
  assumes len: "length xds + length yds \<le> length zds"
  shows "precheck_post zds xds yds (bary_mul_precheck zds xds yds)"
proof -
  obtain xs0 kx where tx: "trim_digits xds = (xs0, kx)" by fastforce
  obtain ys0 ky where ty: "trim_digits yds = (ys0, ky)" by fastforce
  define nlsz where "nlsz = kx + ky"
  define zn where "zn = length zds - nlsz"
  define xs ys where "xs = (if length xs0 > length ys0 then ys0 else xs0)" and "ys = (if length xs0 > length ys0 then xs0 else ys0)"
  note sx = trim_digits_spec [OF tx] and sy = trim_digits_spec [OF ty]
  have ord: "length xs \<le> length ys" "length xs + length ys = length xs0 + length ys0" "bval xs * bval ys = bval xs0 * bval ys0"
    by (auto simp: xs_def ys_def)
  have total: "length xs + length ys + nlsz \<le> length xds + length yds" "length xs + length ys \<le> zn" "nlsz + zn = length zds"
    using sx(1) sy(1) ord(2) len by (auto simp: nlsz_def zn_def)
  have val: "bval xds * bval yds = 4294967296 ^ nlsz * (bval xs * bval ys)"
    unfolding ord(3) sx(2) sy(2) nlsz_def by (simp add: power_add)
  have same: "xds = yds \<longrightarrow> xs = ys" using tx ty by (auto simp: xs_def ys_def)
  have finish: "precheck_post zds xds yds (Inl (replicate nlsz 0 @ z))" if "length z = zn" "bval z = bval xs * bval ys" for z
    using that total(3) val by (simp add: precheck_post_def bval_append)
  have pair: "(if length xs0 > length ys0 then (ys0, xs0) else (xs0, ys0)) = (xs, ys)" by (simp add: xs_def ys_def)
  have code: "bary_mul_precheck zds xds yds =
    (if length xs \<le> 1 then
       if length xs = 0 then Inl (replicate nlsz 0 @ replicate zn 0)
       else if xs ! 0 = 1 then Inl (replicate nlsz 0 @ ys @ replicate (zn - length ys) 0)
       else if POW2_P (xs ! 0) then
         (let (zds, c) = bary_small_lshift ys (bit_length_digit (xs ! 0) - 1)
          in Inl (replicate nlsz 0 @ zds @ [c] @ replicate (zn - length ys - 1) 0))
       else if length ys = 1 \<and> ys ! 0 = 1 then Inl (replicate nlsz 0 @ [xs ! 0] @ replicate (zn - 1) 0)
       else Inl (replicate nlsz 0 @ bary_mul_normal zn xs ys)
     else Inr (nlsz, xs, ys))"
    unfolding bary_mul_precheck_def Let_def tx ty prod.case nlsz_def [symmetric] zn_def [symmetric] pair by (rule refl)
  show ?thesis
  proof (cases "length xs \<le> 1")
    case False
    then have "bary_mul_precheck zds xds yds = Inr (nlsz, xs, ys)" unfolding code by simp
    then show ?thesis using False ord total(1) val same by (simp add: precheck_post_def)
  next
    case True
    then consider "xs = []" | d where "xs = [d]" by (cases xs) auto
    then show ?thesis
    proof cases
      case 1
      then show ?thesis unfolding code using finish [of "replicate zn 0"] by simp
    next
      case (2 d)
      have zn: "length ys + 1 \<le> zn" using total(2) 2 by simp
      have top: "xs ! (length xs - 1) \<noteq> 0" using sx(3) sy(3) 2 by (auto simp: xs_def split: if_splits)
      then have d: "d \<noteq> 0" using 2 by simp
      consider "d = 1" | "d \<noteq> 1" "POW2_P d" | "d \<noteq> 1" "\<not> POW2_P d" "ys = [1]" | "d \<noteq> 1" "\<not> POW2_P d" "ys \<noteq> [1]" by blast
      then show ?thesis
      proof cases
        case 1
        then show ?thesis unfolding code using finish [of "ys @ replicate (zn - length ys) 0"] zn 2 by (simp add: bval_append)
      next
        case p: 2
        obtain z c where z: "bary_small_lshift ys (bit_length_digit d - 1) = (z, c)" by fastforce
        note s = bval_shifted_digit [OF p(2) d z]
        have "bval (z @ c # replicate (zn - length ys - 1) 0) = bval (z @ [c])" by (simp add: bval_append)
        then show ?thesis
          unfolding code using finish [of "z @ [c] @ replicate (zn - length ys - 1) 0"] zn 2 p z s by simp
      next
        case 3
        then show ?thesis unfolding code using finish [of "[d] @ replicate (zn - 1) 0"] zn 2 by simp
      next
        case 4
        then have "\<not> (length ys = 1 \<and> ys ! 0 = 1)" by (auto simp: length_Suc_conv)
        then show ?thesis unfolding code using finish [of "bary_mul_normal zn xs ys"] bary_mul_normal_spec [OF total(2)] 2 4 by auto
      qed
    qed
  qed
qed

section \<open>Karatsuba's method is right\<close>

lemma bary_addc_value:
  assumes "length xs \<le> n" "length ys \<le> n"
  shows "length (fst (bary_addc n xs ys c)) = n"
    "bval (fst (bary_addc n xs ys c)) = bval xs + bval ys + of_bool c - of_bool (snd (bary_addc n xs ys c)) * 4294967296 ^ n"
proof -
  obtain z b where "bary_addc n xs ys c = (z, b)" by fastforce
  then show "length (fst (bary_addc n xs ys c)) = n"
    "bval (fst (bary_addc n xs ys c)) = bval xs + bval ys + of_bool c - of_bool (snd (bary_addc n xs ys c)) * 4294967296 ^ n"
    using bary_addc_spec [OF assms] by (simp_all add: algebra_simps)
qed

lemma bary_add_value:
  assumes "length xs \<le> n" "length ys \<le> n"
  shows "length (fst (bary_add n xs ys)) = n"
    "bval (fst (bary_add n xs ys)) = bval xs + bval ys - of_bool (snd (bary_add n xs ys)) * 4294967296 ^ n"
  using bary_addc_value [OF assms, of False] by (simp_all add: bary_add_def)

lemma bary_sub_value:
  assumes "length xs \<le> n" "length ys \<le> n"
  shows "length (fst (bary_sub n xs ys)) = n"
    "bval (fst (bary_sub n xs ys)) = bval xs - bval ys + of_bool (snd (bary_sub n xs ys)) * 4294967296 ^ n"
proof -
  obtain z b where "bary_sub n xs ys = (z, b)" by fastforce
  then show "length (fst (bary_sub n xs ys)) = n"
    "bval (fst (bary_sub n xs ys)) = bval xs - bval ys + of_bool (snd (bary_sub n xs ys)) * 4294967296 ^ n"
    using bary_subb_spec [OF assms, of False z b] by (simp_all add: bary_sub_def algebra_simps)
qed

lemma bval_less_le: "length ds \<le> n \<Longrightarrow> bval ds < 4294967296 ^ n"
  using bval_less [of ds] power_increasing [of "length ds" n "4294967296 :: int"] by linarith

text \<open>A subtraction that borrows and is complemented gives the absolute difference.\<close>

lemma sub_2comp:
  assumes "length xs \<le> n" "length ys \<le> n" "bary_sub n xs ys = (ds, b)"
  shows "length ds = n" "b \<longleftrightarrow> bval xs < bval ys" "bval (if b then fst (bary_2comp ds) else ds) = \<bar>bval xs - bval ys\<bar>"
    "length (if b then fst (bary_2comp ds) else ds) = n"
proof -
  let ?P = "4294967296 ^ n :: int"
  have ds: "length ds = n" "bval ds = bval xs - bval ys + of_bool b * ?P" using bary_sub_value [OF assms(1,2)] assms(3) by simp_all
  have r: "0 \<le> bval ds" "bval ds < ?P" "bval xs < ?P" "bval ys < ?P" "0 \<le> bval xs" "0 \<le> bval ys"
    using bval_less [of ds] ds(1) bval_less_le [OF assms(1)] bval_less_le [OF assms(2)] by simp_all
  have b: "b \<longleftrightarrow> bval xs < bval ys" using ds(2) r by (cases b) simp_all
  have v: "bval (if b then fst (bary_2comp ds) else ds) = \<bar>bval xs - bval ys\<bar>"
  proof (cases b)
    case True
    then have "bval ds = bval xs - bval ys + ?P" using ds(2) by simp
    then have "bval ds \<noteq> 0" using r by linarith
    then have "bval (fst (bary_2comp ds)) = ?P - bval ds" using bary_2comp_spec [of ds] ds(1) by simp
    then show ?thesis using True ds(2) b by simp
  next
    case False
    then show ?thesis using ds(2) b by simp
  qed
  show "length ds = n" "b \<longleftrightarrow> bval xs < bval ys" "bval (if b then fst (bary_2comp ds) else ds) = \<bar>bval xs - bval ys\<bar>"
    by (fact ds(1) b v)+
  show "length (if b then fst (bary_2comp ds) else ds) = n" using bary_2comp_spec [of ds] ds(1) by simp
qed

lemma karatsuba_diff_spec:
  assumes "length ds0 \<le> n" "length ds1 \<le> n" "karatsuba_diff n ds0 ds1 = (d, neg)"
  shows "length d = n" "bval d = \<bar>bval ds0 - bval ds1\<bar>" "neg \<longleftrightarrow> bval ds0 < bval ds1"
proof -
  obtain ds b where sub: "bary_sub n ds0 ds1 = (ds, b)" by fastforce
  have "d = (if b then fst (bary_2comp ds) else ds)" "neg = b"
    using assms(3) by (auto simp: karatsuba_diff_def sub split: if_splits)
  then show "length d = n" "bval d = \<bar>bval ds0 - bval ds1\<bar>" "neg \<longleftrightarrow> bval ds0 < bval ds1"
    using sub_2comp [OF assms(1,2) sub] by simp_all
qed

text \<open>Arithmetic modulo the weight of the whole array decides a value that fits.\<close>

lemma eq_if_mod_eq: "z = t - P * e \<Longrightarrow> 0 \<le> z \<Longrightarrow> z < P \<Longrightarrow> 0 \<le> t \<Longrightarrow> t < (P :: int) \<Longrightarrow> z = t"
  using mod_mult_self2 [of t P "- e"] by simp

lemma bval_take_small:
  assumes "bval ds < 4294967296 ^ k" "k \<le> length ds"
  shows "bval (take k ds) = bval ds"
proof -
  have v: "bval ds = bval (take k ds) + 4294967296 ^ k * bval (drop k ds)" by (rule bval_take_drop) fact
  have "\<not> 1 \<le> bval (drop k ds)"
  proof
    assume "1 \<le> bval (drop k ds)"
    then have "4294967296 ^ k * 1 \<le> 4294967296 ^ k * bval (drop k ds)" by (intro mult_left_mono) simp_all
    then show False using v assms(1) bval_nonneg [of "take k ds"] by linarith
  qed
  then have "bval (drop k ds) = 0" using bval_nonneg [of "drop k ds"] by linarith
  then show ?thesis using v by simp
qed

lemma karatsuba_algebra:
  fixes R N :: int
  assumes "w0 = m0 + p0 - c * R" "w = m1 + p1 + c - c1 * R" "z1 = p1 + w0 - c2 * R" "z1' = z1 + q0 - c' * R"
    and "z2 = q0 + q1 + c' - c3 * R" "z23 = z2 + R * q1 + w - e1 * N" "u = z23 + c2 - e2 * N"
  shows "p0 + R * (z1' + R * (u + R * (c1 + c3 - b) - e3 * N)) =
    p0 + R * p1 + R * (p0 + R * p1 + (q0 + R * q1) + (m0 + R * m1 - b * (R * R))) + R * R * (q0 + R * q1) - R * (R * N) * (e1 + e2 + e3)"
  unfolding assms by (simp add: algebra_simps)

lemma karatsuba_combine:
  fixes borrow :: bool
  assumes len: "length m = 2 * n" "length p = 2 * n" "length q = zn - 2 * n" "3 * n < zn" "0 < n"
    and q: "bval q < 4294967296 ^ (2 * n)"
  defines "R \<equiv> 4294967296 ^ n :: int"
  defines "T \<equiv> bval p + R * (bval p + bval q + (bval m - of_bool borrow * (R * R))) + R * R * bval q"
  assumes T: "0 \<le> T" "T < 4294967296 ^ zn"
  shows "length (take n p @ karatsuba_high n zn borrow (karatsuba_low n m p) q) = zn \<and>
    bval (take n p @ karatsuba_high n zn borrow (karatsuba_low n m p) q) = T"
proof -
  let ?B = "4294967296 :: int"
  obtain w0 c where a1: "bary_add n (take n m) (take n p) = (w0, c)" by fastforce
  obtain w c1 where a2: "bary_addc n (drop n m) (drop n p) c = (w, c1)" by fastforce
  obtain z1 c2 where a3: "bary_add n (drop n p) w0 = (z1, c2)" by fastforce
  obtain z1' c' where b1: "bary_add n z1 (take n q) = (z1', c')" by fastforce
  define k where "k = (if 4 * n < zn then n else zn - 3 * n)"
  obtain z2 c3 where b2: "bary_addc n (take n q) (take k (drop n q)) c' = (z2, c3)" by fastforce
  define z23 where "z23 = fst (bary_add (zn - 2 * n) (z2 @ drop n q) w)"
  define u where "u = (if c2 then fst (bary_add_one z23) else z23)"
  define d where "d = of_bool c1 + of_bool c3 - (of_bool borrow :: int)"
  define v where "v = (if d < 0 then fst (bary_sub_one (drop n u))
    else if d > 0 then fst (bary_add (zn - 3 * n) (drop n u) [word_of_int d]) else drop n u)"
  have code: "karatsuba_high n zn borrow (karatsuba_low n m p) q = z1' @ take n u @ v"
    unfolding karatsuba_low_def karatsuba_high_def Let_def a1 a2 a3 b1 prod.case k_def [symmetric] b2
    unfolding z23_def [symmetric] u_def [symmetric] d_def [symmetric] v_def [symmetric] by (rule refl)
  have R: "0 < R" "R * R = ?B ^ (2 * n)" by (simp_all add: R_def mult_2 power_add)
  have mv: "bval m = bval (take n m) + R * bval (drop n m)" "bval p = bval (take n p) + R * bval (drop n p)"
    "bval q = bval (take n q) + R * bval (drop n q)"
    unfolding R_def using len by (intro bval_take_drop; simp)+
  have "bval (drop n q) < R"
  proof (rule ccontr)
    assume "\<not> bval (drop n q) < R"
    then have "R * R \<le> R * bval (drop n q)" using R(1) by (intro mult_left_mono) simp_all
    then show False using q mv(3) R(2) bval_nonneg [of "take n q"] by linarith
  qed
  then have q3: "bval (take k (drop n q)) = bval (drop n q)"
    using bval_take_small [of "drop n q" n] len by (simp add: k_def R_def)
  have 1: "length w0 = n" "bval w0 = bval (take n m) + bval (take n p) - of_bool c * R"
    using bary_add_value [of "take n m" n "take n p"] len by (simp_all add: a1 R_def)
  have 2: "length w = n" "bval w = bval (drop n m) + bval (drop n p) + of_bool c - of_bool c1 * R"
    using bary_addc_value [of "drop n m" n "drop n p" c] len by (simp_all add: a2 R_def)
  have 3: "length z1 = n" "bval z1 = bval (drop n p) + bval w0 - of_bool c2 * R"
    using bary_add_value [of "drop n p" n w0] len 1(1) by (simp_all add: a3 R_def)
  have 4: "length z1' = n" "bval z1' = bval z1 + bval (take n q) - of_bool c' * R"
    using bary_add_value [of z1 n "take n q"] len 3(1) by (simp_all add: b1 R_def)
  have lk: "length (take k (drop n q)) \<le> n" using len by (auto simp: k_def)
  have 5: "length z2 = n" "bval z2 = bval (take n q) + bval (drop n q) + of_bool c' - of_bool c3 * R"
    using bary_addc_value [OF _ lk, of "take n q" c'] len by (simp_all add: b2 R_def q3)
  define N where "N = ?B ^ (zn - 2 * n)"
  obtain e1 :: int where 6: "length z23 = zn - 2 * n" "bval z23 = bval z2 + R * bval (drop n q) + bval w - e1 * N"
    using bary_add_value [of "z2 @ drop n q" "zn - 2 * n" w] len 2(1) 5(1)
    unfolding z23_def N_def by (simp add: bval_append R_def)
  obtain e2 :: int where 7: "length u = zn - 2 * n" "bval u = bval z23 + of_bool c2 - e2 * N"
  proof (cases c2)
    case True
    then show ?thesis using that [of "of_bool (snd (bary_add_one z23))"] bary_add_one_spec [of z23] 6(1) by (simp add: u_def N_def)
  next
    case False
    then show ?thesis using that [of 0] 6(1) by (simp add: u_def)
  qed
  define M where "M = ?B ^ (zn - 3 * n)"
  have l3: "length (drop n u) = zn - 3 * n" using 7(1) by simp
  obtain e3 :: int where 8: "length v = zn - 3 * n" "bval v = bval (drop n u) + d - e3 * M"
  proof -
    consider "d < 0" | "d = 0" | "d > 0" by linarith
    then show ?thesis
    proof cases
      case 1
      then have d: "d = - 1" by (cases c1; cases c3; cases borrow) (simp_all add: d_def)
      obtain z b where z: "bary_subb (zn - 3 * n) (drop n u) [] True = (z, b)" by fastforce
      have "v = z" using 1 z l3 by (simp add: v_def bary_sub_one_def)
      then show ?thesis using that [of "- of_bool b"] bary_subb_spec [OF _ _ z] l3 d by (simp add: M_def)
    next
      case 2
      then show ?thesis using that [of 0] l3 by (simp add: v_def)
    next
      case 3
      then have "d = 1 \<or> d = 2" by (cases c1; cases c3; cases borrow) (simp_all add: d_def)
      then have "uint (word_of_int d :: BDIGIT) = d" by auto
      moreover have "length [word_of_int d :: BDIGIT] \<le> zn - 3 * n" using len by simp
      ultimately show ?thesis
        using that [of "of_bool (snd (bary_add (zn - 3 * n) (drop n u) [word_of_int d]))"]
          bary_add_value [of "drop n u" "zn - 3 * n" "[word_of_int d]"] l3 3 by (simp add: v_def M_def)
    qed
  qed
  let ?z = "take n p @ z1' @ take n u @ v"
  have lz: "length ?z = zn" using len 4(1) 7(1) 8(1) by simp
  have RN: "R * (R * N) = ?B ^ zn" "R * M = N"
    using len by (simp_all add: R_def N_def M_def flip: power_add)
  have uv: "bval (take n u) + R * bval (drop n u) = bval u"
    unfolding R_def using 7(1) len by (intro bval_take_drop [symmetric]) simp
  have "bval ?z = bval (take n p) + R * (bval z1' + R * (bval (take n u) + R * bval v))"
    using len 4(1) 7(1) by (simp add: bval_append R_def)
  also have "R * bval v = R * bval (drop n u) + R * d - e3 * N"
    unfolding 8(2) RN(2) [symmetric] by (simp add: algebra_simps)
  also have "bval (take n u) + (R * bval (drop n u) + R * d - e3 * N) = bval u + R * d - e3 * N" using uv by simp
  also have "bval (take n p) + R * (bval z1' + R * (bval u + R * d - e3 * N)) = T - ?B ^ zn * (e1 + e2 + e3)"
    unfolding T_def mv d_def RN(1) [symmetric] by (rule karatsuba_algebra [OF 1(2) 2(2) 3(2) 4(2) 5(2) 6(2) 7(2)])
  finally have e: "bval ?z = T - ?B ^ zn * (e1 + e2 + e3)" .
  have "bval ?z < ?B ^ zn" using bval_less [of ?z] unfolding lz .
  from eq_if_mod_eq [OF e bval_nonneg this T] show ?thesis using lz unfolding code by simp
qed

lemma muladd_at:
  assumes len: "k + length yds \<le> length zds" and fits: "bval zds + 4294967296 ^ k * (uint x * bval yds) < 4294967296 ^ length zds"
  shows "length (take k zds @ fst (bary_muladd_1xN (drop k zds) x yds)) = length zds"
    "bval (take k zds @ fst (bary_muladd_1xN (drop k zds) x yds)) = bval zds + 4294967296 ^ k * (uint x * bval yds)"
proof -
  let ?B = "4294967296 :: int"
  obtain z c where z: "bary_muladd_1xN (drop k zds) x yds = (z, c)" by fastforce
  have Z: "bval zds = bval (take k zds) + ?B ^ k * bval (drop k zds)" using len by (intro bval_take_drop) simp
  have pw: "?B ^ k * ?B ^ (length zds - k) = ?B ^ length zds" using len by (simp flip: power_add)
  have "?B ^ k * (bval (drop k zds) + uint x * bval yds) < ?B ^ k * ?B ^ (length zds - k)"
    unfolding pw distrib_left using fits Z bval_nonneg [of "take k zds"] by linarith
  then have "bval (drop k zds) + uint x * bval yds < ?B ^ length (drop k zds)" by simp
  then have "bval z = bval (drop k zds) + uint x * bval yds" "length z = length zds - k"
    using bary_muladd_1xN_spec [OF _ z] len by simp_all
  then show "length (take k zds @ fst (bary_muladd_1xN (drop k zds) x yds)) = length zds"
    "bval (take k zds @ fst (bary_muladd_1xN (drop k zds) x yds)) = bval zds + 4294967296 ^ k * (uint x * bval yds)"
    using len Z by (simp_all add: z bval_append algebra_simps)
qed

text \<open>The product of the even parts is completed by the odd digits.\<close>

lemma bval_product_less: "length xs + length ys \<le> n \<Longrightarrow> bval xs * bval ys < 4294967296 ^ n"
proof -
  assume len: "length xs + length ys \<le> n"
  have "bval xs * bval ys \<le> (4294967296 ^ length xs - 1) * 4294967296 ^ length ys"
    using bval_less [of xs] bval_less [of ys] by (intro mult_mono) simp_all
  also have "\<dots> < 4294967296 ^ length xs * 4294967296 ^ length ys" by simp
  also have "\<dots> \<le> 4294967296 ^ n" using len by (simp flip: power_add)
  finally show ?thesis .
qed

lemma bval_take_Suc: "n < length ds \<Longrightarrow> bval (take (Suc n) ds) = bval (take n ds) + 4294967296 ^ n * uint (ds ! n)"
  by (simp add: take_Suc_conv_app_nth bval_append)

lemma karatsuba_middle:
  assumes dx: "bval dx = \<bar>x0 - x1\<bar>" "negx \<longleftrightarrow> x0 < x1" and dy: "sq \<or> bval dy = \<bar>y0 - y1\<bar>" "negy \<longleftrightarrow> y0 < y1"
    and m: "length m = 2 * n" "bval m = bval dx * bval (if sq then dx else dy)" and same: "sq \<Longrightarrow> x0 = y0 \<and> x1 = y1"
    and code: "(if (if sq then True else negx = negy) then let (m, zero) = bary_2comp m in (m, \<not> zero) else (m, False)) = (m', borrow)"
  shows "length m' = 2 * n" "bval m' - of_bool borrow * 4294967296 ^ (2 * n) = (x1 - x0) * (y0 - y1)"
proof -
  obtain c zero where c: "bary_2comp m = (c, zero)" by fastforce
  have neg: "length c = 2 * n" "bval c - of_bool (\<not> zero) * 4294967296 ^ (2 * n) = - bval m"
    using bary_2comp_spec [of m] m(1) by (auto simp: c)
  show "length m' = 2 * n" using code c neg(1) m(1) by (auto split: if_splits)
  show "bval m' - of_bool borrow * 4294967296 ^ (2 * n) = (x1 - x0) * (y0 - y1)"
  proof (cases "if sq then True else negx = negy")
    case True
    then have "m' = c" "borrow = (\<not> zero)" using code unfolding if_P [OF True] c Let_def prod.case by simp_all
    moreover have "bval m = (x0 - x1) * (y0 - y1)"
    proof (cases sq)
      case True
      then show ?thesis using m(2) dx same by (simp add: abs_mult_self_eq)
    next
      case False
      then have "(x0 < x1) = (y0 < y1)" using \<open>if sq then True else negx = negy\<close> dx dy by simp
      then have "0 \<le> (x0 - x1) * (y0 - y1)" by (cases "x0 < x1") (simp_all add: zero_le_mult_iff)
      then have "\<bar>x0 - x1\<bar> * \<bar>y0 - y1\<bar> = (x0 - x1) * (y0 - y1)" by (simp flip: abs_mult)
      then show ?thesis using m(2) dx(1) dy(1) False by simp
    qed
    ultimately show ?thesis using neg(2) by (simp add: algebra_simps)
  next
    case False
    then have sq: "\<not> sq" "negx \<noteq> negy" by (auto split: if_splits)
    then have "m' = m" "borrow = False" using code by auto
    moreover have "bval m = (x1 - x0) * (y0 - y1)"
    proof -
      have "(x0 - x1) * (y0 - y1) \<le> 0" using sq dx(2) dy(2) by (auto simp: mult_le_0_iff linorder_not_less)
      then have "\<bar>x0 - x1\<bar> * \<bar>y0 - y1\<bar> = (x1 - x0) * (y0 - y1)" by (simp add: algebra_simps flip: abs_mult)
      then show ?thesis using m(2) dx(1) dy(1) sq(1) by simp
    qed
    ultimately show ?thesis by simp
  qed
qed

context multiplier
begin

lemma bary_mul_karatsuba:
  assumes len: "2 \<le> length xds" "length xds \<le> length yds" "length yds < 2 * length xds" "length xds + length yds \<le> length zds"
    and bound: "length yds < bound" and same: "sq \<Longrightarrow> xds = yds"
  shows "mul_post (bug \<and> \<not> sq) (bary_mul_karatsuba mulfunc sq zds xds yds wn) (\<lambda>z. length z = length zds \<and> bval z = bval xds * bval yds)"
proof -
  let ?B = "4294967296 :: int"
  define zn where "zn = length zds"
  define odd_y where "odd_y = odd (length yds)"
  define yn where "yn = (if odd_y then length yds - 1 else length yds)"
  define odd_xy where "odd_xy = (odd_y \<and> yn < length xds)"
  define xn where "xn = (if odd_xy then length xds - 1 else length xds)"
  define n where "n = yn div 2"
  define w where "w = (if wn < n then 2 * n else wn)"
  define x0 x1 y0 y1 where "x0 = take n xds" and "x1 = take (xn - n) (drop n xds)" and "y0 = take n yds" and "y1 = take n (drop n yds)"
  have yn: "yn = 2 * n" "0 < n" using len(1,2) by (auto simp: yn_def n_def odd_y_def elim!: oddE evenE)
  have yl: "length yds = (if odd_y then yn + 1 else yn)" using len(1,2) by (auto simp: yn_def)
  have yl': "length yds \<le> yn + 1" "\<not> odd_y \<Longrightarrow> length yds = yn" using yl by simp_all
  have xl1: "length xds = (if odd_xy then xn + 1 else xn)" using len(1) by (auto simp: xn_def)
  have xl2: "odd_xy \<longrightarrow> xn = yn"
  proof
    assume oxy: odd_xy
    then have "yn < length xds" by (simp add: odd_xy_def)
    then show "xn = yn" using xl1 oxy len(2) yl'(1) by simp
  qed
  have xl3: "xn \<le> yn"
  proof (cases odd_xy)
    case False
    then have "\<not> odd_y \<or> length xds \<le> yn" by (auto simp: odd_xy_def)
    then show ?thesis using False xl1 len(2) yl'(2) by auto
  qed (use xl2 in simp)
  note xl = xl1 xl2 xl3
  have nx: "n < xn"
  proof (cases odd_xy)
    case True
    then show ?thesis using xl2 yn by simp
  next
    case False
    then show ?thesis using xl1 len(3) yn yl by (simp split: if_splits)
  qed
  have zn: "xn + yn \<le> zn" "3 * n < zn" using len(4) xl(1) yl nx yn by (auto simp: zn_def split: if_splits)
  have lens: "length x0 = n" "length x1 = xn - n" "length y0 = n" "length y1 = n"
    using nx xl yl yn by (auto simp: x0_def x1_def y0_def y1_def)
  obtain dx negx where dx: "karatsuba_diff n x0 x1 = (dx, negx)" by fastforce
  obtain dy negy where dy: "karatsuba_diff n y0 y1 = (dy, negy)" by fastforce
  note kx = karatsuba_diff_spec [OF _ _ dx] and ky = karatsuba_diff_spec [OF _ _ dy]
  have same': "sq \<Longrightarrow> x0 = y0 \<and> x1 = y1"
  proof -
    assume sq
    then have eq: "xds = yds" by (rule same)
    then have "xn = yn" using len(1) by (cases odd_y) (auto simp: xn_def odd_xy_def yn_def)
    then show ?thesis using eq yn by (simp add: x0_def x1_def y0_def y1_def)
  qed
  have lx: "xn \<le> length xds" "yn \<le> length yds" using xl(1) yl by auto
  have X: "bval (take xn xds) = bval x0 + ?B ^ n * bval x1" and Y: "bval (take yn yds) = bval y0 + ?B ^ n * bval y1"
    using bval_take_drop [of n "take xn xds"] bval_take_drop [of n "take yn yds"] nx lx yn
    by (simp_all add: x0_def x1_def y0_def y1_def drop_take min_absorb1 min_absorb2)
  define finish where "finish = (\<lambda>zds. if odd_xy then
      (let zds = take yn zds @ fst (bary_muladd_1xN (drop yn zds) (yds ! yn) (take xn xds))
       in take xn zds @ fst (bary_muladd_1xN (drop xn zds) (xds ! xn) (take (yn + 1) yds)))
    else if odd_y then take yn zds @ fst (bary_muladd_1xN (drop yn zds) (yds ! yn) (take xn xds)) else zds)"
  have fin: "length (finish z) = zn \<and> bval (finish z) = bval xds * bval yds"
    if z: "length z = zn" "bval z = bval (take xn xds) * bval (take yn yds)" for z
  proof (cases odd_y)
    case False
    then have no: "\<not> odd_xy" by (simp add: odd_xy_def)
    then have "take xn xds = xds" "take yn yds = yds" using xl1 yl False by simp_all
    then show ?thesis using z no False by (simp add: finish_def)
  next
    case True
    have Yt: "bval yds = bval (take yn yds) + ?B ^ yn * uint (yds ! yn)" using bval_take_Suc [of yn yds] yl True by simp
    define z1 where "z1 = take yn z @ fst (bary_muladd_1xN (drop yn z) (yds ! yn) (take xn xds))"
    have le: "yn + length (take xn xds) \<le> length z" using z(1) zn(1) xl(1) by (simp split: if_splits)
    have v1: "bval z + ?B ^ yn * (uint (yds ! yn) * bval (take xn xds)) = bval (take xn xds) * bval yds"
      unfolding z(2) Yt by (simp add: algebra_simps)
    have "length (take xn xds) + length yds \<le> zn" using len(4) xl(1) by (simp add: zn_def split: if_splits)
    then have "bval (take xn xds) * bval yds < ?B ^ length z" unfolding z(1) by (rule bval_product_less)
    then have z1: "length z1 = zn" "bval z1 = bval (take xn xds) * bval yds"
      using muladd_at [OF le, of "yds ! yn"] unfolding v1 z1_def [symmetric] by (simp_all add: z(1))
    show ?thesis
    proof (cases odd_xy)
      case False
      then have "finish z = z1" "take xn xds = xds" using True xl1 unfolding finish_def z1_def by simp_all
      then show ?thesis using z1 by simp
    next
      case oxy: True
      have Xt: "bval xds = bval (take xn xds) + ?B ^ xn * uint (xds ! xn)" using bval_take_Suc [of xn xds] xl oxy by simp
      have yds: "take (yn + 1) yds = yds" using yl True by simp
      have le: "xn + length yds \<le> length z1" using z1(1) len(4) xl(1) oxy by (simp add: zn_def)
      have v2: "bval z1 + ?B ^ xn * (uint (xds ! xn) * bval yds) = bval xds * bval yds"
        unfolding z1(2) Xt by (simp add: algebra_simps)
      have "bval xds * bval yds < ?B ^ length z1" unfolding z1(1) zn_def using len(4) by (rule bval_product_less)
      moreover have "finish z = take xn z1 @ fst (bary_muladd_1xN (drop xn z1) (xds ! xn) yds)"
        using oxy unfolding finish_def Let_def z1_def [symmetric] yds by simp
      ultimately show ?thesis using muladd_at [OF le, of "xds ! xn"] unfolding v2 by (simp add: z1(1))
    qed
  qed
  have code: "bary_mul_karatsuba mulfunc sq zds xds yds wn =
    mul_then (if sq then mulfunc True (take (2 * n) (drop n zds)) dx dx w else mulfunc False (take (2 * n) (drop n zds)) dx dy (w - n)) (\<lambda>m.
      let (m, borrow) = (if (if sq then True else negx = negy) then let (m, zero) = bary_2comp m in (m, \<not> zero) else (m, False))
      in mul_then (mulfunc sq (take (2 * n) zds) x0 y0 (w - n)) (\<lambda>p.
        mul_then (mulfunc sq (drop (2 * n) zds) x1 y1 (w - n)) (\<lambda>q.
          Inr (finish (take n p @ karatsuba_high n zn borrow (karatsuba_low n m p) q)))))"
    unfolding bary_mul_karatsuba_def Let_def odd_y_def [symmetric] yn_def [symmetric] odd_xy_def [symmetric] xn_def [symmetric]
      n_def [symmetric] w_def [symmetric] zn_def [symmetric] x0_def [symmetric] x1_def [symmetric] y0_def [symmetric] y1_def [symmetric]
      dx dy prod.case finish_def by (rule refl)
  have ld: "length dx = n" "length dy = n" using kx(1) ky(1) lens xl3 yn by simp_all
  have zl: "length (take (2 * n) (drop n zds)) = 2 * n" "length (take (2 * n) zds) = 2 * n" "length (drop (2 * n) zds) = zn - 2 * n"
    using zn(2) by (simp_all add: zn_def)
  have bnd: "2 * n < bound" "xn < bound" using bound lx(2) yn xl3 by simp_all
  have mid: "mul_post (bug \<and> \<not> sq) (if sq then mulfunc True (take (2 * n) (drop n zds)) dx dx w else mulfunc False (take (2 * n) (drop n zds)) dx dy (w - n))
      (\<lambda>m. length m = 2 * n \<and> bval m = bval dx * bval (if sq then dx else dy))"
  proof (cases sq)
    case True
    then show ?thesis using product [of dx dx "take (2 * n) (drop n zds)" True w] ld zl bnd by simp
  next
    case False
    then show ?thesis using product [of dx dy "take (2 * n) (drop n zds)" False "w - n"] ld zl bnd by simp
  qed
  have low: "mul_post (bug \<and> \<not> sq) (mulfunc sq (take (2 * n) zds) x0 y0 (w - n)) (\<lambda>p. length p = 2 * n \<and> bval p = bval x0 * bval y0)"
    using product [of x0 y0 "take (2 * n) zds" sq "w - n"] lens same' zl bnd by simp
  have high: "mul_post (bug \<and> \<not> sq) (mulfunc sq (drop (2 * n) zds) x1 y1 (w - n)) (\<lambda>q. length q = zn - 2 * n \<and> bval q = bval x1 * bval y1)"
    using product [of x1 y1 "drop (2 * n) zds" sq "w - n"] lens same' zl bnd nx zn(1) yn by simp
  show ?thesis
    unfolding code zn_def [symmetric]
  proof (rule mul_post_then [OF mid])
    fix m assume m: "length m = 2 * n \<and> bval m = bval dx * bval (if sq then dx else dy)"
    obtain m' borrow where mb: "(if (if sq then True else negx = negy) then let (m, zero) = bary_2comp m in (m, \<not> zero) else (m, False)) = (m', borrow)"
      by fastforce
    have mid: "length m' = 2 * n" "bval m' - of_bool borrow * ?B ^ (2 * n) = (bval x1 - bval x0) * (bval y0 - bval y1)"
      using karatsuba_middle [of dx "bval x0" "bval x1" negx sq dy "bval y0" "bval y1" negy m n m' borrow] m mb kx ky lens same' xl(3) yn by auto
    show "mul_post (bug \<and> \<not> sq) (let (m, borrow) = (if (if sq then True else negx = negy) then let (m, zero) = bary_2comp m in (m, \<not> zero) else (m, False))
      in mul_then (mulfunc sq (take (2 * n) zds) x0 y0 (w - n)) (\<lambda>p.
        mul_then (mulfunc sq (drop (2 * n) zds) x1 y1 (w - n)) (\<lambda>q.
          Inr (finish (take n p @ karatsuba_high n zn borrow (karatsuba_low n m p) q))))) (\<lambda>z. length z = zn \<and> bval z = bval xds * bval yds)"
      unfolding Let_def mb [unfolded Let_def] prod.case
    proof (intro mul_post_then [OF low] mul_post_then [OF high], unfold mul_post_simps)
      fix p q assume p: "length p = 2 * n \<and> bval p = bval x0 * bval y0" and q: "length q = zn - 2 * n \<and> bval q = bval x1 * bval y1"
      have R2: "?B ^ n * ?B ^ n = ?B ^ (2 * n)" by (simp add: mult_2 power_add)
      have T: "bval p + ?B ^ n * (bval p + bval q + (bval m' - of_bool borrow * (?B ^ n * ?B ^ n))) + ?B ^ n * ?B ^ n * bval q =
          bval (take xn xds) * bval (take yn yds)"
        unfolding R2 mid(2) unfolding R2 [symmetric] X Y using p q by (simp add: algebra_simps)
      have "bval q < ?B ^ (2 * n)" using bval_product_less [of x1 y1 "2 * n"] q lens yn xl(3) nx by simp
      moreover have "bval (take xn xds) * bval (take yn yds) < ?B ^ zn"
        using bval_product_less [of "take xn xds" "take yn yds" zn] zn(1) by (simp add: min_def)
      ultimately have "length (take n p @ karatsuba_high n zn borrow (karatsuba_low n m' p) q) = zn \<and>
          bval (take n p @ karatsuba_high n zn borrow (karatsuba_low n m' p) q) = bval (take xn xds) * bval (take yn yds)"
        using karatsuba_combine [OF mid(1) _ _ zn(2) yn(2), of p q borrow] p q unfolding T by simp
      then show "length (finish (take n p @ karatsuba_high n zn borrow (karatsuba_low n m' p) q)) = zn \<and>
          bval (finish (take n p @ karatsuba_high n zn borrow (karatsuba_low n m' p) q)) = bval xds * bval yds"
        by (intro fin) simp_all
    qed
  qed
qed

end

section \<open>The recursion\<close>

lemma bary_sq_or_mul:
  assumes "length xds + length yds \<le> zn" "sq \<Longrightarrow> xds = yds"
  shows "length (if sq then bary_sq_fast zn xds else bary_short_mul zn xds yds) = zn \<and>
    bval (if sq then bary_sq_fast zn xds else bary_short_mul zn xds yds) = bval xds * bval yds"
  using bary_sq_fast_spec [of xds zn] bary_short_mul_spec [OF assms(1)] assms by (cases sq) simp_all

text \<open>A branch that is right behind the special cases makes a routine that is right.\<close>

lemma mul_start:
  assumes branch: "\<And>sq zds xds yds wn. 2 \<le> length xds \<Longrightarrow> length xds \<le> length yds \<Longrightarrow> length xds + length yds \<le> length zds \<Longrightarrow>
      length xds + length yds < bound \<Longrightarrow> (sq \<Longrightarrow> xds = yds) \<Longrightarrow>
      mul_post (bug \<and> \<not> sq) (branch sq zds xds yds wn) (\<lambda>z. length z = length zds \<and> bval z = bval xds * bval yds)"
  shows "multiplier (mul_start branch) bound bug"
proof
  fix xds yds zds :: "BDIGIT list" and sq wn
  assume len: "length xds + length yds \<le> length zds" "length xds + length yds < bound" and same: "sq \<Longrightarrow> xds = yds"
  note pre = bary_mul_precheck_spec [OF len(1)]
  show "mul_post (bug \<and> \<not> sq) (mul_start branch sq zds xds yds wn) (\<lambda>z. length z = length zds \<and> bval z = bval xds * bval yds)"
  proof (cases "bary_mul_precheck zds xds yds")
    case (Inl z)
    then show ?thesis using pre by (simp add: mul_start_def precheck_post_def)
  next
    case (Inr t)
    obtain k xs ys where t: "t = (k, xs, ys)" by (cases t)
    have p: "2 \<le> length xs" "length xs \<le> length ys" "length xs + length ys + k \<le> length xds + length yds"
      "bval xds * bval yds = 4294967296 ^ k * (bval xs * bval ys)" "xds = yds \<longrightarrow> xs = ys"
      using pre by (auto simp: Inr t precheck_post_def)
    have "mul_post (bug \<and> \<not> sq) (branch sq (drop k zds) xs ys wn) (\<lambda>z. length z = length (drop k zds) \<and> bval z = bval xs * bval ys)"
      using p len same by (intro branch) auto
    then show ?thesis
      unfolding mul_start_def Inr t sum.case prod.case
      by (rule mul_post_then) (use p len in \<open>auto simp: bval_append\<close>)
  qed
qed

context multiplier
begin

lemma bary_mul_karatsuba_branch:
  assumes len: "2 \<le> length xds" "length xds \<le> length yds" "length xds + length yds \<le> length zds"
    and bound: "length yds < bound" and same: "sq \<Longrightarrow> xds = yds" and bug
  shows "mul_post (bug \<and> \<not> sq) (bary_mul_karatsuba_branch mulfunc sq zds xds yds wn) (\<lambda>z. length z = length zds \<and> bval z = bval xds * bval yds)"
proof -
  have normal: "length (if sq then bary_sq_fast (length zds) xds else bary_short_mul (length zds) xds yds) = length zds \<and>
      bval (if sq then bary_sq_fast (length zds) xds else bary_short_mul (length zds) xds yds) = bval xds * bval yds"
    by (rule bary_sq_or_mul) (use len same in simp_all)
  consider "length xds < KARATSUBA_MUL_DIGITS \<or> bary_sparse_p xds"
    | "\<not> (length xds < KARATSUBA_MUL_DIGITS \<or> bary_sparse_p xds)" "bary_sparse_p yds"
    | "\<not> (length xds < KARATSUBA_MUL_DIGITS \<or> bary_sparse_p xds)" "\<not> bary_sparse_p yds" "\<not> KARATSUBA_BALANCED (length xds) (length yds)"
    | "\<not> (length xds < KARATSUBA_MUL_DIGITS \<or> bary_sparse_p xds)" "\<not> bary_sparse_p yds" "KARATSUBA_BALANCED (length xds) (length yds)"
    by blast
  then show ?thesis
  proof cases
    case 1
    then show ?thesis using normal by (auto simp: bary_mul_karatsuba_branch_def Let_def)
  next
    case 2
    then show ?thesis using bary_short_mul_spec [of yds xds "length zds"] len by (simp add: bary_mul_karatsuba_branch_def mult.commute)
  next
    case 3
    then have "length xds + length xds < bound" using bound by (simp add: KARATSUBA_BALANCED_def)
    moreover have "0 < length xds" using len(1) by linarith
    moreover have "\<not> sq" using 3 same len(1) by (auto simp: KARATSUBA_BALANCED_def)
    ultimately show ?thesis using 3 bary_mul_balance [OF _ len(2,3), of wn] \<open>bug\<close> by (simp add: bary_mul_karatsuba_branch_def)
  next
    case 4
    then have "length yds < 2 * length xds" using len(1) by (simp add: KARATSUBA_BALANCED_def)
    then show ?thesis using 4 bary_mul_karatsuba [OF len(1,2) _ len(3) bound same] by (simp add: bary_mul_karatsuba_branch_def)
  qed
qed

end

text \<open>Fuel above the number of digits is enough: the operands of a recursive call have fewer digits together.\<close>

lemma karatsuba_multiplier: "multiplier (bary_mul_karatsuba_start fuel) fuel True"
proof (induction fuel)
  case (Suc fuel)
  show ?case
    unfolding bary_mul_karatsuba_start.simps
    by (rule mul_start, rule multiplier.bary_mul_karatsuba_branch [OF Suc]) simp_all
qed (unfold_locales, simp)

interpretation karatsuba: multiplier "bary_mul_karatsuba_start fuel" fuel True for fuel
  by (rule karatsuba_multiplier)

end
