(* ===== verification/Bary_Toom3.thy ===== *)
theory Bary_Toom3
  imports Bary_Karatsuba
begin

text \<open>
  The Toom-Cook multiplication of bignum.c (\<open>bary_mul_toom3\<close>): evaluation at the points 0, 1, -1, -2 and
  infinity, interpolation, recomposition.  A number with a sign is a digit array with the flag that the
  code calls \<open>p\<close> (positive, that is not negative).  The digits of the work area are written before they
  are read, so a product that goes there starts from any digits (zeros here).
\<close>

section \<open>Numbers with a sign\<close>

type_synonym signed_digits = "BDIGIT list \<times> bool"

definition sval :: "signed_digits \<Rightarrow> int" where
  "sval d = (if snd d then bval (fst d) else - bval (fst d))"

text \<open>\<open>bary_sub\<close>, and \<open>bary_2comp\<close> after a borrow.\<close>

definition sub_abs :: "nat \<Rightarrow> BDIGIT list \<Rightarrow> BDIGIT list \<Rightarrow> signed_digits" where
  "sub_abs zn xds yds = (let (zds, b) = bary_sub zn xds yds in if b then (fst (bary_2comp zds), False) else (zds, True))"

definition toom3_sub :: "nat \<Rightarrow> signed_digits \<Rightarrow> signed_digits \<Rightarrow> signed_digits" where
  "toom3_sub zn x y =
    (let (xds, xp) = x; (yds, yp) = y
     in if xp = yp then (let (zds, p) = sub_abs zn xds yds in (zds, if p then xp else \<not> xp))
        else (fst (bary_add zn xds yds), xp))"

definition toom3_add :: "nat \<Rightarrow> signed_digits \<Rightarrow> signed_digits \<Rightarrow> signed_digits" where
  "toom3_add zn x y =
    (let (xds, xp) = x; (yds, yp) = y
     in if xp = yp then (fst (bary_add zn xds yds), xp)
        else (let (zds, p) = sub_abs zn xds yds in (zds, if p then xp else \<not> xp)))"

section \<open>The method\<close>

text \<open>The values of an operand at 1, -1 and -2.\<close>

definition toom3_points :: "nat \<Rightarrow> BDIGIT list \<Rightarrow> BDIGIT list \<Rightarrow> BDIGIT list \<Rightarrow>
    BDIGIT list \<times> signed_digits \<times> signed_digits" where
  "toom3_points n x0ds x1ds x2ds =
    (let u1ds = fst (bary_add (n + 1) x0ds x2ds);
         (u2ds, u2p) = sub_abs (n + 1) u1ds x1ds;
         u1ds = fst (bary_add (n + 1) u1ds x1ds);
         (u3ds, u3p) = (if u2p then (fst (bary_add (n + 1) u2ds x2ds), True) else sub_abs (n + 1) x2ds u2ds);
         u3ds = fst (bary_small_lshift u3ds 1);
         (u3ds, u3p) = (if \<not> u3p then (fst (bary_add (n + 1) u3ds x0ds), False) else sub_abs (n + 1) u3ds x0ds)
     in (u1ds, (u2ds, u2p), (u3ds, u3p)))"

text \<open>The coefficients \<open>z1\<close>, \<open>z2\<close>, \<open>z3\<close> from the values at the five points.\<close>

definition toom3_interpolate :: "nat \<Rightarrow> BDIGIT list \<Rightarrow> signed_digits \<Rightarrow> signed_digits \<Rightarrow> signed_digits \<Rightarrow> BDIGIT list \<Rightarrow>
    signed_digits \<times> signed_digits \<times> signed_digits" where
  "toom3_interpolate n t0ds t1 t2 t3 t4ds =
    (let zn = 2 * n + 1;
         (z3ds, z3p) = toom3_sub zn t3 t1; z3ds = fst (bigdivrem_single z3ds 3);
         (z1ds, z1p) = toom3_sub zn t1 t2; z1ds = bary_small_rshift z1ds 1 0;
         z2 = toom3_sub zn t2 (t0ds, True);
         (z3ds, z3p) = toom3_sub zn z2 (z3ds, z3p); z3ds = bary_small_rshift z3ds 1 0;
         z3 = (if z3p then (fst (bary_muladd_1xN z3ds 2 t4ds), z3p)
               else (let (z3ds, b) = bary_mulsub_1xN z3ds 2 t4ds
                     in if b then (fst (bary_2comp z3ds), \<not> z3p) else (z3ds, z3p)));
         z2 = toom3_add zn z2 (z1ds, z1p);
         z2 = toom3_sub zn z2 (t4ds, True);
         z1 = toom3_sub zn (z1ds, z1p) z3
     in (z1, z2, z3))"

definition toom3_add_at :: "nat \<Rightarrow> signed_digits \<Rightarrow> BDIGIT list \<Rightarrow> BDIGIT list" where
  "toom3_add_at k z zzds =
    (let (zds, p) = z; zzn = length zzds
     in take k zzds @ fst (if p then bary_add (zzn - k) (drop k zzds) zds else bary_sub (zzn - k) (drop k zzds) zds))"

definition toom3_recompose :: "nat \<Rightarrow> BDIGIT list \<Rightarrow> signed_digits \<times> signed_digits \<times> signed_digits \<Rightarrow> BDIGIT list \<Rightarrow> BDIGIT list" where
  "toom3_recompose n z0ds z z4ds =
    (let (z1, z2, z3) = z; zzn = 6 * n + 1; z0n = length z0ds; z4n = length z4ds;
         zzds = z0ds @ replicate (4 * n - z0n) 0 @ z4ds @ replicate (zzn - (4 * n + z4n)) 0;
         zzds = toom3_add_at n z1 zzds;
         zzds = toom3_add_at (2 * n) z2 zzds
     in toom3_add_at (3 * n) z3 zzds)"

definition bary_mul_toom3 :: "mulfunc_t \<Rightarrow> bool \<Rightarrow> BDIGIT list \<Rightarrow> BDIGIT list \<Rightarrow> BDIGIT list \<Rightarrow> nat \<Rightarrow> mul_result" where
  "bary_mul_toom3 mulfunc sq zds xds yds wn =
    (let xn = length xds; yn = length yds; zn = length zds; n = (yn + 2) div 3;
         wnc = 6 * (n + 1) + 2 * (2 * n) + 3 * (2 * n + 2) + 3 * (2 * n + 1);
         wn = (if wn < wnc then wnc * 3 div 2 else wn); wn = wn - wnc;
         x0 = take n xds; x1 = take n (drop n xds); x2 = drop (2 * n) xds;
         y0 = take n yds; y1 = take n (drop n yds); y2 = drop (2 * n) yds;
         (u1, (u2, u2p), (u3, u3p)) = toom3_points n x0 x1 x2;
         (v1, (v2, v2p), (v3, v3p)) = (if sq then (u1, (u2, u2p), (u3, u3p)) else toom3_points n y0 y1 y2);
         zeros = (\<lambda>k. replicate k 0)
     in mul_then (mulfunc sq (zeros (2 * n)) x0 y0 wn) (\<lambda>t0.
        mul_then (mulfunc sq (zeros (2 * n + 2)) u1 v1 wn) (\<lambda>t1.
        mul_then (mulfunc sq (zeros (2 * n + 2)) u2 v2 wn) (\<lambda>t2.
        mul_then (mulfunc sq (zeros (2 * n + 2)) u3 v3 wn) (\<lambda>t3.
        mul_then (mulfunc sq (zeros (2 * n)) x2 y2 wn) (\<lambda>t4.
          let cut = take (2 * n + 1);
              z = toom3_interpolate n t0 (cut t1, True) (cut t2, u2p = v2p) (cut t3, u3p = v3p) t4;
              zzds = toom3_recompose n t0 z t4;
              zzn = BARY_TRUNC zzds (length zzds)
          in Inr (take zzn zzds @ replicate (zn - zzn) 0)))))))"

section \<open>Branching\<close>

definition TOOM3_MUL_DIGITS :: nat where "TOOM3_MUL_DIGITS = 150"

definition TOOM3_BALANCED :: "nat \<Rightarrow> nat \<Rightarrow> bool" where "TOOM3_BALANCED xn yn \<longleftrightarrow> (yn + 2) div 3 * 2 < xn"

definition bary_mul_toom3_branch :: "mulfunc_t \<Rightarrow> mulfunc_t \<Rightarrow> mulfunc_t" where
  "bary_mul_toom3_branch karatsuba_start start sq zds xds yds wn =
    (if length xds < TOOM3_MUL_DIGITS then bary_mul_karatsuba_branch karatsuba_start sq zds xds yds wn
     else if \<not> TOOM3_BALANCED (length xds) (length yds) then bary_mul_balance_with_mulfunc start zds xds yds wn
     else bary_mul_toom3 start sq zds xds yds wn)"

primrec bary_mul_toom3_start :: "nat \<Rightarrow> mulfunc_t" where
  "bary_mul_toom3_start 0 = (\<lambda>sq zds xds yds wn. Inl Out_of_fuel)"
| "bary_mul_toom3_start (Suc fuel) =
    mul_start (bary_mul_toom3_branch (bary_mul_karatsuba_start fuel) (bary_mul_toom3_start fuel))"

definition NAIVE_MUL_DIGITS :: nat where "NAIVE_MUL_DIGITS = KARATSUBA_MUL_DIGITS"

definition bary_mul :: "bool \<Rightarrow> BDIGIT list \<Rightarrow> BDIGIT list \<Rightarrow> BDIGIT list \<Rightarrow> mul_result" where
  "bary_mul sq zds xds yds =
    (let zn = length zds; xn = length xds; yn = length yds;
         start = bary_mul_toom3_start (xn + yn + 1) sq zds xds yds 0
     in if xn \<le> yn then
          if xn < NAIVE_MUL_DIGITS then Inr (if sq then bary_sq_fast zn xds else bary_short_mul zn xds yds) else start
        else if yn < NAIVE_MUL_DIGITS then Inr (bary_short_mul zn yds xds) else start)"

section \<open>Signed arithmetic on digits\<close>

lemma sval_simps [simp]: "sval (d, True) = bval d" "sval (d, False) = - bval d"
  by (simp_all add: sval_def)

lemma abs_sval [simp]: "\<bar>sval (d, p)\<bar> = bval d"
  by (simp add: sval_def)

lemma sub_abs_spec:
  assumes "length xs \<le> n" "length ys \<le> n" "sub_abs n xs ys = (z, p)"
  shows "length z = n" "sval (z, p) = bval xs - bval ys"
proof -
  obtain d b where sub: "bary_sub n xs ys = (d, b)" by fastforce
  have z: "z = (if b then fst (bary_2comp d) else d)" "p = (\<not> b)" using assms(3) by (auto simp: sub_abs_def sub split: if_splits)
  note s = sub_2comp [OF assms(1,2) sub]
  show "length z = n" using s(4) by (simp add: z(1))
  show "sval (z, p) = bval xs - bval ys" using s(2,3) unfolding z(2) sval_def z(1) [symmetric] by simp
qed

lemma bary_add_fits:
  assumes "length xs \<le> n" "length ys \<le> n" "bval xs + bval ys < 4294967296 ^ n"
  shows "length (fst (bary_add n xs ys)) = n" "bval (fst (bary_add n xs ys)) = bval xs + bval ys"
proof -
  note v = bary_add_value [OF assms(1,2)]
  show "length (fst (bary_add n xs ys)) = n" by (rule v)
  show "bval (fst (bary_add n xs ys)) = bval xs + bval ys"
    using v(2) assms(3) bval_nonneg [of "fst (bary_add n xs ys)"] by (cases "snd (bary_add n xs ys)") simp_all
qed

lemma toom3_sub_spec:
  assumes "length (fst x) \<le> n" "length (fst y) \<le> n" "\<bar>sval x\<bar> + \<bar>sval y\<bar> < 4294967296 ^ n" "toom3_sub n x y = (z, p)"
  shows "length z = n" "sval (z, p) = sval x - sval y"
proof -
  obtain xds xp yds yp where xy: "x = (xds, xp)" "y = (yds, yp)" by (cases x; cases y) blast
  have len: "length xds \<le> n" "length yds \<le> n" "bval xds + bval yds < 4294967296 ^ n" using assms(1-3) by (simp_all add: xy)
  have "length z = n \<and> sval (z, p) = sval x - sval y"
  proof (cases "xp = yp")
    case True
    obtain d q where s: "sub_abs n xds yds = (d, q)" by fastforce
    then have "z = d" "p = (if q then xp else \<not> xp)" using assms(4) True by (auto simp: toom3_sub_def xy)
    then show ?thesis using sub_abs_spec [OF len(1,2) s] True by (cases xp; cases q) (simp_all add: xy)
  next
    case False
    then have "z = fst (bary_add n xds yds)" "p = xp" using assms(4) by (simp_all add: toom3_sub_def xy)
    then show ?thesis using bary_add_fits [OF len] False by (cases xp; cases yp) (simp_all add: xy)
  qed
  then show "length z = n" "sval (z, p) = sval x - sval y" by blast+
qed

lemma toom3_add_sub: "toom3_add n x y = toom3_sub n x (fst y, \<not> snd y)"
  by (cases x; cases y) (auto simp: toom3_add_def toom3_sub_def)

section \<open>Evaluation\<close>

text \<open>A bound that is far below the weight of one more digit.\<close>

lemma small_below_next: "a < 1000 * 4294967296 ^ n \<Longrightarrow> a < (4294967296 :: int) ^ (n + 1)"
proof -
  assume "a < 1000 * 4294967296 ^ n"
  also have "(1000 :: int) * 4294967296 ^ n \<le> 4294967296 ^ (n + 1)" by simp
  finally show ?thesis .
qed

lemma bary_add_small:
  assumes "length xs \<le> n + 1" "length ys \<le> n + 1" "bval xs + bval ys < 1000 * 4294967296 ^ n"
  shows "length (fst (bary_add (n + 1) xs ys)) = n + 1" "bval (fst (bary_add (n + 1) xs ys)) = bval xs + bval ys"
  by (rule bary_add_fits [OF assms(1,2) small_below_next [OF assms(3)]])+

lemma bary_double:
  assumes "length ds = n + 1" "bval ds < 4 * 4294967296 ^ n"
  shows "length (fst (bary_small_lshift ds 1)) = n + 1" "bval (fst (bary_small_lshift ds 1)) = 2 * bval ds"
proof -
  obtain z c where z: "bary_small_lshift ds 1 = (z, c)" by fastforce
  have s: "length z = n + 1" "bval z + 4294967296 ^ (n + 1) * uint c = 2 * bval ds"
    using bary_small_lshift_spec [OF _ z] assms(1) by (simp_all add: bval_append mult.commute)
  have "\<not> 1 \<le> uint c"
  proof
    assume "1 \<le> uint c"
    then have "4294967296 ^ (n + 1) * 1 \<le> 4294967296 ^ (n + 1) * uint c" by (intro mult_left_mono) simp_all
    moreover have "2 * bval ds < 4294967296 ^ (n + 1)" using assms(2) zero_less_power [of "4294967296 :: int" n] by (intro small_below_next) linarith
    ultimately show False using s(2) bval_nonneg [of z] by linarith
  qed
  then have "uint c = 0" using uint_ge_0 [of c] by linarith
  then show "length (fst (bary_small_lshift ds 1)) = n + 1" "bval (fst (bary_small_lshift ds 1)) = 2 * bval ds"
    unfolding z fst_conv using s by simp_all
qed

lemma toom3_points_spec:
  assumes len: "length x0 = n" "length x1 = n" "length x2 \<le> n"
    and code: "toom3_points n x0 x1 x2 = (u1, (u2, u2p), (u3, u3p))"
  defines "R \<equiv> 4294967296 ^ n :: int"
  shows "length u1 = n + 1" "bval u1 = bval x0 + bval x1 + bval x2"
    "length u2 = n + 1" "sval (u2, u2p) = bval x0 - bval x1 + bval x2"
    "length u3 = n + 1" "sval (u3, u3p) = bval x0 - 2 * bval x1 + 4 * bval x2"
proof -
  have b: "bval x0 < R" "bval x1 < R" "bval x2 < R" "0 \<le> bval x0" "0 \<le> bval x1" "0 \<le> bval x2"
    using bval_less_le [of x0 n] bval_less_le [of x1 n] bval_less_le [of x2 n] len by (simp_all add: R_def)
  note add = bary_add_small [where n = n, folded R_def]
  define a where "a = fst (bary_add (n + 1) x0 x2)"
  have a: "length a = n + 1" "bval a = bval x0 + bval x2"
    unfolding a_def by (rule add; use len b in linarith)+
  obtain d dp where d: "sub_abs (n + 1) a x1 = (d, dp)" by fastforce
  have ds: "length d = n + 1" "sval (d, dp) = bval x0 + bval x2 - bval x1"
    using sub_abs_spec [OF _ _ d] a len by simp_all
  obtain e ep where e: "(if dp then (fst (bary_add (n + 1) d x2), True) else sub_abs (n + 1) x2 d) = (e, ep)" by fastforce
  have es: "length e = n + 1 \<and> sval (e, ep) = sval (d, dp) + bval x2"
  proof (cases dp)
    case True
    then have "bval d = bval x0 + bval x2 - bval x1" using ds(2) by simp
    then have d2: "bval d < 2 * R" using b by linarith
    have "length (fst (bary_add (n + 1) d x2)) = n + 1" "bval (fst (bary_add (n + 1) d x2)) = bval d + bval x2"
      by (rule add; use ds(1) len b d2 in linarith)+
    then show ?thesis using e True by auto
  next
    case False
    then show ?thesis using sub_abs_spec [of x2 "n + 1" d e ep] e ds len by simp
  qed
  have "bval e < 4 * R" using es ds(2) b abs_sval [of e ep] by linarith
  then have dbl: "length (fst (bary_small_lshift e 1)) = n + 1" "bval (fst (bary_small_lshift e 1)) = 2 * bval e"
    using bary_double [of e n] es by (simp_all add: R_def)
  define f where "f = fst (bary_small_lshift e 1)"
  have "u1 = fst (bary_add (n + 1) a x1)" "u2 = d" "u2p = dp"
    and u3: "(u3, u3p) = (if \<not> ep then (fst (bary_add (n + 1) f x0), False) else sub_abs (n + 1) f x0)"
    using code unfolding toom3_points_def Let_def a_def [symmetric] d prod.case e f_def [symmetric] by (auto split: prod.splits)
  then show "length u1 = n + 1" "bval u1 = bval x0 + bval x1 + bval x2" "length u2 = n + 1" "sval (u2, u2p) = bval x0 - bval x1 + bval x2"
    using add [of a x1] a b len ds by simp_all
  have f: "length f = n + 1" "bval f = 2 * bval e" using dbl by (simp_all add: f_def)
  have "length u3 = n + 1 \<and> sval (u3, u3p) = 2 * sval (e, ep) - bval x0"
  proof (cases ep)
    case True
    then have "sub_abs (n + 1) f x0 = (u3, u3p)" using u3 by simp
    then show ?thesis using sub_abs_spec [of f "n + 1" x0 u3 u3p] f len True by simp
  next
    case False
    then have "u3 = fst (bary_add (n + 1) f x0)" "u3p = False" using u3 by simp_all
    then show ?thesis
      using add [of f x0] f len b \<open>bval e < 4 * R\<close> False by simp
  qed
  then show "length u3 = n + 1" "sval (u3, u3p) = bval x0 - 2 * bval x1 + 4 * bval x2" using es ds(2) by simp_all
qed

section \<open>Interpolation\<close>

lemma bary_halve:
  assumes "bval ds = 2 * v"
  shows "length (bary_small_rshift ds 1 0) = length ds" "bval (bary_small_rshift ds 1 0) = v"
  using bary_small_rshift_spec [of 1 0 ds] assms by simp_all

lemma bary_third:
  assumes "bval ds = 3 * v" "ds \<noteq> []"
  shows "length (fst (bigdivrem_single ds 3)) = length ds" "bval (fst (bigdivrem_single ds 3)) = v"
proof -
  obtain q r where q: "bigdivrem_single ds 3 = (q, r)" by fastforce
  have s: "length q = length ds" "bval q * 3 + uint r = bval ds" "uint r < 3"
    using bigdivrem_single1_spec [OF assms(2), of 0 3 q r] q by (simp_all add: bigdivrem_single_def)
  then have "bval q = v" using assms(1) uint_ge_0 [of r] by presburger
  then show "length (fst (bigdivrem_single ds 3)) = length ds" "bval (fst (bigdivrem_single ds 3)) = v" using s(1) by (simp_all add: q)
qed

lemma sval_halve: "sval (ds, p) = 2 * v \<Longrightarrow> length (bary_small_rshift ds 1 0) = length ds \<and> sval (bary_small_rshift ds 1 0, p) = v"
  using bary_halve [of ds v] bary_halve [of ds "- v"] by (cases p) simp_all

lemma sval_third:
  "sval (ds, p) = 3 * v \<Longrightarrow> ds \<noteq> [] \<Longrightarrow> length (fst (bigdivrem_single ds 3)) = length ds \<and> sval (fst (bigdivrem_single ds 3), p) = v"
  using bary_third [of ds v] bary_third [of ds "- v"] by (cases p) simp_all

lemma bary_mulsub_1xN_spec:
  assumes "length zds = length yds + 1" "bary_mulsub_1xN zds x yds = (zds', b)" "\<bar>bval zds - uint x * bval yds\<bar> < 4294967296 ^ length zds"
  shows "length zds' = length zds" "b \<longleftrightarrow> bval zds < uint x * bval yds"
    "bval (if b then fst (bary_2comp zds') else zds') = \<bar>bval zds - uint x * bval yds\<bar>"
proof -
  let ?yn = "length yds" and ?P = "4294967296 ^ length zds :: int"
  obtain z num where z: "bigdivrem_mulsub zds x yds = (z, num)" by fastforce
  note s = bigdivrem_mulsub_spec [OF assms(1) z]
  have r: "zds' = z[?yn := BIGLO num]" "b = (BIGDN_S num \<noteq> 0)" using assms(2) by (simp_all add: bary_mulsub_1xN_def z)
  have dr: "drop ?yn zds' = [BIGLO num]"
    using s(1) assms(1) Cons_nth_drop_Suc [of ?yn zds'] by (simp add: r(1))
  have "bval zds' = bval (take ?yn z) + 4294967296 ^ ?yn * uint (BIGLO num)"
    using bval_take_drop [of ?yn zds'] s(1) assms(1) dr by (simp add: r(1))
  then have v: "bval zds' + ?P * sint (BIGDN_S num) = bval zds - uint x * bval yds"
    using s(3) assms(1) unfolding sint_lo_dn [of num, symmetric] by (simp add: algebra_simps)
  have len: "length zds' = length zds" using s(1) by (simp add: r(1))
  have lt: "0 \<le> bval zds'" "bval zds' < ?P" using bval_less [of zds'] len by simp_all
  have "sint (BIGDN_S num) = 0 \<or> sint (BIGDN_S num) = - 1"
  proof -
    have "?P * sint (BIGDN_S num) < ?P * 1" "?P * (- 2) < ?P * sint (BIGDN_S num)" using v lt assms(3) by linarith+
    then have "sint (BIGDN_S num) < 1" "- 2 < sint (BIGDN_S num)" by (simp_all only: mult_less_cancel_left_pos zero_less_power zero_less_numeral)
    then show ?thesis by linarith
  qed
  then have b: "(b \<and> bval zds' - ?P = bval zds - uint x * bval yds) \<or> (\<not> b \<and> bval zds' = bval zds - uint x * bval yds)"
    using v by (auto simp: r(2) sint_eq_0_iff)
  then have bb: "b \<longleftrightarrow> bval zds < uint x * bval yds" using lt by linarith
  show "length zds' = length zds" "b \<longleftrightarrow> bval zds < uint x * bval yds" by (fact len bb)+
  show "bval (if b then fst (bary_2comp zds') else zds') = \<bar>bval zds - uint x * bval yds\<bar>"
  proof (cases b)
    case True
    then have z: "bval zds' = ?P + (bval zds - uint x * bval yds)" using b by linarith
    then have "bval zds' \<noteq> 0" using assms(3) by linarith
    then have "bval (fst (bary_2comp zds')) = ?P - bval zds'" using bary_2comp_spec [of zds'] len by simp
    then show ?thesis using True z bb by simp
  next
    case False
    then show ?thesis using b bb by simp
  qed
qed

lemma toom3_sub_small:
  assumes "length (fst x) \<le> 2 * n + 1" "length (fst y) \<le> 2 * n + 1" "\<bar>sval x\<bar> + \<bar>sval y\<bar> < 1000 * 4294967296 ^ (2 * n)"
    and "toom3_sub (2 * n + 1) x y = (z, p)"
  shows "length z = 2 * n + 1" "sval (z, p) = sval x - sval y"
  by (rule toom3_sub_spec [OF assms(1,2) small_below_next [OF assms(3)] assms(4)])+

text \<open>\<open>z3 + 2 * z(inf)\<close>, by the sign of \<open>z3\<close>.\<close>

lemma toom3_z3_spec:
  assumes len: "length ds = 2 * n + 1" "length t4 = 2 * n" and small: "bval ds + 2 * bval t4 < 1000 * 4294967296 ^ (2 * n)"
    and code: "(if p then (fst (bary_muladd_1xN ds 2 t4), p)
      else (let (ds, b) = bary_mulsub_1xN ds 2 t4 in if b then (fst (bary_2comp ds), \<not> p) else (ds, p))) = (z, zp)"
  shows "length z = 2 * n + 1" "sval (z, zp) = sval (ds, p) + 2 * bval t4"
proof -
  have fits: "bval ds + 2 * bval t4 < 4294967296 ^ (2 * n + 1)" using small by (rule small_below_next)
  have "length z = 2 * n + 1 \<and> sval (z, zp) = sval (ds, p) + 2 * bval t4"
  proof (cases p)
    case True
    obtain d c where m: "bary_muladd_1xN ds 2 t4 = (d, c)" by fastforce
    have "length d = length ds" "bval d = bval ds + uint (2 :: BDIGIT) * bval t4"
      using bary_muladd_1xN_spec [OF _ m] len fits by simp_all
    moreover have "z = d" "zp" using code True m by simp_all
    ultimately show ?thesis using len True by simp
  next
    case False
    obtain d b where m: "bary_mulsub_1xN ds 2 t4 = (d, b)" by fastforce
    have two: "uint (2 :: BDIGIT) = 2" by simp
    have "\<bar>bval ds - uint (2 :: BDIGIT) * bval t4\<bar> < 4294967296 ^ length ds"
      unfolding two len(1) using fits bval_nonneg [of ds] bval_nonneg [of t4] by linarith
    note s = bary_mulsub_1xN_spec [OF _ m this]
    have z: "z = (if b then fst (bary_2comp d) else d)" "zp = b" using code False m by (auto split: if_splits)
    have "length z = length ds" using s(1) len bary_2comp_spec [of d] by (simp add: z(1))
    moreover have "bval z = \<bar>bval ds - 2 * bval t4\<bar>" "b \<longleftrightarrow> bval ds < 2 * bval t4" using s(2,3) len by (simp_all add: z(1))
    ultimately show ?thesis using len False by (simp add: z(2) sval_def)
  qed
  then show "length z = 2 * n + 1" "sval (z, zp) = sval (ds, p) + 2 * bval t4" by blast+
qed

lemma toom3_interpolate_spec:
  assumes len: "length t0 = 2 * n" "length t1 = 2 * n + 1" "length t2 = 2 * n + 1" "length t3 = 2 * n + 1" "length t4 = 2 * n"
    and val: "bval t0 = c0" "bval t1 = c0 + c1 + c2 + c3 + c4" "sval (t2, p2) = c0 - c1 + c2 - c3 + c4"
      "sval (t3, p3) = c0 - 2 * c1 + 4 * c2 - 8 * c3 + 16 * c4" "bval t4 = c4"
    and c: "0 \<le> c1" "0 \<le> c2" "0 \<le> c3"
      "c0 < 4 * 4294967296 ^ (2 * n)" "c1 < 4 * 4294967296 ^ (2 * n)" "c2 < 4 * 4294967296 ^ (2 * n)"
      "c3 < 4 * 4294967296 ^ (2 * n)" "c4 < 4 * 4294967296 ^ (2 * n)"
    and code: "toom3_interpolate n t0 (t1, True) (t2, p2) (t3, p3) t4 = (z1, z2, z3)"
  shows "length (fst z1) = 2 * n + 1 \<and> length (fst z2) = 2 * n + 1 \<and> length (fst z3) = 2 * n + 1 \<and>
    sval z1 = c1 \<and> sval z2 = c2 \<and> sval z3 = c3"
proof -
  have c04: "0 \<le> c0" "0 \<le> c4" using val(1,5) bval_nonneg [of t0] bval_nonneg [of t4] by simp_all
  note sub = toom3_sub_small [where n = n]
  obtain a ap where a: "toom3_sub (2 * n + 1) (t3, p3) (t1, True) = (a, ap)" by fastforce
  have as: "length a = 2 * n + 1" "sval (a, ap) = 3 * (- c1 + c2 - 3 * c3 + 5 * c4)"
    using sub [OF _ _ _ a] len val c c04 by simp_all
  define a3 where "a3 = fst (bigdivrem_single a 3)"
  have "a \<noteq> []" using as(1) by auto
  note a3 = sval_third [OF as(2) this, folded a3_def]
  obtain b bp where b: "toom3_sub (2 * n + 1) (t1, True) (t2, p2) = (b, bp)" by fastforce
  have bs: "length b = 2 * n + 1" "sval (b, bp) = 2 * (c1 + c3)"
    using sub [OF _ _ _ b] len val c c04 by simp_all
  define b2 where "b2 = bary_small_rshift b 1 0"
  note b2 = sval_halve [OF bs(2), folded b2_def]
  obtain d dp where d: "toom3_sub (2 * n + 1) (t2, p2) (t0, True) = (d, dp)" by fastforce
  have ds: "length d = 2 * n + 1" "sval (d, dp) = - c1 + c2 - c3 + c4"
    using sub [OF _ _ _ d] len val c c04 by simp_all
  obtain e ep where e: "toom3_sub (2 * n + 1) (d, dp) (a3, ap) = (e, ep)" by fastforce
  have es: "length e = 2 * n + 1" "sval (e, ep) = 2 * (c3 - 2 * c4)"
    using sub [OF _ _ _ e] as(1) a3 ds c c04 by simp_all
  define e2 where "e2 = bary_small_rshift e 1 0"
  note e2 = sval_halve [OF es(2), folded e2_def]
  obtain f fp where f: "(if ep then (fst (bary_muladd_1xN e2 2 t4), ep)
      else (let (ds, b) = bary_mulsub_1xN e2 2 t4 in if b then (fst (bary_2comp ds), \<not> ep) else (ds, ep))) = (f, fp)" by fastforce
  have "bval e2 + 2 * bval t4 < 1000 * 4294967296 ^ (2 * n)" using abs_sval [of e2 ep] e2 val(5) c c04 by linarith
  note fs = toom3_z3_spec [OF _ len(5) this f]
  have f': "length f = 2 * n + 1" "sval (f, fp) = c3" using fs es(1) e2 val(5) by simp_all
  obtain g gp where g: "toom3_add (2 * n + 1) (d, dp) (b2, bp) = (g, gp)" by fastforce
  have gs: "length g = 2 * n + 1" "sval (g, gp) = c2 + c4"
    using sub [OF _ _ _ g [unfolded toom3_add_sub]] bs(1) b2 ds c c04 by (auto simp: sval_def split: if_splits)
  obtain h hp where h: "toom3_sub (2 * n + 1) (g, gp) (t4, True) = (h, hp)" by fastforce
  have hs: "length h = 2 * n + 1" "sval (h, hp) = c2"
    using sub [OF _ _ _ h] len gs val c c04 by simp_all
  obtain k kp where k: "toom3_sub (2 * n + 1) (b2, bp) (f, fp) = (k, kp)" by fastforce
  have ks: "length k = 2 * n + 1" "sval (k, kp) = c1"
    using sub [OF _ _ _ k] bs(1) b2 f' c c04 by simp_all
  have "(z1, z2, z3) = ((k, kp), (h, hp), (f, fp))"
    using code unfolding toom3_interpolate_def Let_def a b d prod.case a3_def [symmetric] b2_def [symmetric] e e2_def [symmetric]
      f [unfolded Let_def] g h k by simp
  then show ?thesis using ks hs f' by simp
qed

section \<open>Recomposition\<close>

lemma toom3_add_at_spec:
  assumes "k \<le> length zzds" "length (fst z) \<le> length zzds - k"
  shows "\<exists>e. length (toom3_add_at k z zzds) = length zzds \<and>
    bval (toom3_add_at k z zzds) = bval zzds + 4294967296 ^ k * sval z - 4294967296 ^ length zzds * e"
proof -
  obtain ds p where z: "z = (ds, p)" by (cases z)
  define s where "s = (if p then bary_add (length zzds - k) (drop k zzds) ds else bary_sub (length zzds - k) (drop k zzds) ds)"
  obtain c :: int where s: "length (fst s) = length zzds - k"
    "bval (fst s) = bval (drop k zzds) + sval z - c * 4294967296 ^ (length zzds - k)"
  proof (cases p)
    case True
    then show ?thesis
      using that [of "of_bool (snd s)"] bary_add_value [of "drop k zzds" "length zzds - k" ds] assms(2) by (simp add: s_def z)
  next
    case False
    then show ?thesis
      using that [of "- of_bool (snd s)"] bary_sub_value [of "drop k zzds" "length zzds - k" ds] assms(2) by (simp add: s_def z)
  qed
  have code: "toom3_add_at k z zzds = take k zzds @ fst s" by (simp add: toom3_add_at_def z s_def)
  have "bval zzds = bval (take k zzds) + 4294967296 ^ k * bval (drop k zzds)" using assms(1) by (rule bval_take_drop)
  moreover have "(4294967296 :: int) ^ k * 4294967296 ^ (length zzds - k) = 4294967296 ^ length zzds"
    using assms(1) by (simp flip: power_add)
  then have "4294967296 ^ k * bval (fst s) = 4294967296 ^ k * bval (drop k zzds) + 4294967296 ^ k * sval z - 4294967296 ^ length zzds * c"
    unfolding s(2) by (simp add: algebra_simps)
  ultimately show ?thesis
    unfolding code using s(1) assms(1) by (intro exI [of _ c]) (simp add: bval_append min_absorb2)
qed

lemma toom3_recompose_spec:
  assumes len: "length z0 = 2 * n" "length (fst z1) = 2 * n + 1" "length (fst z2) = 2 * n + 1" "length (fst z3) = 2 * n + 1" "length z4 = 2 * n"
  defines "R \<equiv> 4294967296 ^ n :: int"
  defines "T \<equiv> bval z0 + R * sval z1 + R ^ 2 * sval z2 + R ^ 3 * sval z3 + R ^ 4 * bval z4"
  assumes T: "0 \<le> T" "T < 4294967296 ^ (6 * n + 1)" and n: "0 < n"
  shows "length (toom3_recompose n z0 (z1, z2, z3) z4) = 6 * n + 1" "bval (toom3_recompose n z0 (z1, z2, z3) z4) = T"
proof -
  define zz where "zz = z0 @ replicate (4 * n - length z0) 0 @ z4 @ replicate (6 * n + 1 - (4 * n + length z4)) 0"
  have pw: "R ^ 2 = 4294967296 ^ (2 * n)" "R ^ 3 = 4294967296 ^ (3 * n)" "R ^ 4 = 4294967296 ^ (4 * n)"
    by (simp_all add: R_def mult.commute flip: power_mult)
  have zz: "length zz = 6 * n + 1" "bval zz = bval z0 + R ^ 4 * bval z4"
    using len(1,5) unfolding zz_def pw(3) by (simp_all add: bval_append flip: power_add)
  obtain e1 where a: "length (toom3_add_at n z1 zz) = 6 * n + 1"
    "bval (toom3_add_at n z1 zz) = bval zz + R * sval z1 - 4294967296 ^ (6 * n + 1) * e1"
    using toom3_add_at_spec [of n zz z1] len(2) n unfolding zz(1) R_def by auto
  obtain e2 where b: "length (toom3_add_at (2 * n) z2 (toom3_add_at n z1 zz)) = 6 * n + 1"
    "bval (toom3_add_at (2 * n) z2 (toom3_add_at n z1 zz)) =
      bval (toom3_add_at n z1 zz) + R ^ 2 * sval z2 - 4294967296 ^ (6 * n + 1) * e2"
    using toom3_add_at_spec [of "2 * n" "toom3_add_at n z1 zz" z2] len(3) n unfolding a(1) pw by auto
  obtain e3 where c: "length (toom3_add_at (3 * n) z3 (toom3_add_at (2 * n) z2 (toom3_add_at n z1 zz))) = 6 * n + 1"
    "bval (toom3_add_at (3 * n) z3 (toom3_add_at (2 * n) z2 (toom3_add_at n z1 zz))) =
      bval (toom3_add_at (2 * n) z2 (toom3_add_at n z1 zz)) + R ^ 3 * sval z3 - 4294967296 ^ (6 * n + 1) * e3"
    using toom3_add_at_spec [of "3 * n" "toom3_add_at (2 * n) z2 (toom3_add_at n z1 zz)" z3] len(4) n unfolding b(1) pw by auto
  define r where "r = toom3_recompose n z0 (z1, z2, z3) z4"
  have r: "r = toom3_add_at (3 * n) z3 (toom3_add_at (2 * n) z2 (toom3_add_at n z1 zz))"
    unfolding r_def toom3_recompose_def Let_def prod.case zz_def by (rule refl)
  have "bval r = T - 4294967296 ^ (6 * n + 1) * (e1 + e2 + e3)"
    unfolding r c(2) b(2) a(2) zz(2) T_def by (simp only: distrib_left)
  moreover have "bval r < 4294967296 ^ (6 * n + 1)" using bval_less [of r] c(1) by (simp add: r)
  ultimately have "bval r = T" by (rule eq_if_mod_eq [OF _ bval_nonneg _ T])
  then show "length (toom3_recompose n z0 (z1, z2, z3) z4) = 6 * n + 1" "bval (toom3_recompose n z0 (z1, z2, z3) z4) = T"
    using c(1) by (simp_all add: r flip: r_def)
qed

lemma BARY_TRUNC_below:
  assumes "bval ds < 4294967296 ^ m"
  shows "BARY_TRUNC ds (length ds) \<le> m"
proof (rule ccontr)
  assume "\<not> BARY_TRUNC ds (length ds) \<le> m"
  then have t: "0 < BARY_TRUNC ds (length ds)" "m \<le> BARY_TRUNC ds (length ds) - 1" by simp_all
  note s = BARY_TRUNC_spec [OF order_refl, of ds]
  have "(4294967296 :: int) ^ m \<le> 4294967296 ^ (BARY_TRUNC ds (length ds) - 1)" using t(2) by (intro power_increasing) simp_all
  also have "\<dots> \<le> bval (take (BARY_TRUNC ds (length ds)) ds)" using bval_take_ge [OF t(1) s(1) s(3) [OF t(1)]] .
  finally show False using assms s(2) by simp
qed

section \<open>The method is right\<close>

lemma sval_mult: "sval (t, u2p = v2p) = sval (u, u2p) * sval (v, v2p)" if "bval t = bval u * bval v"
  using that by (cases u2p; cases v2p) simp_all

lemma toom3_split:
  assumes "2 * n \<le> length ds"
  shows "bval ds = bval (take n ds) + 4294967296 ^ n * bval (take n (drop n ds)) + 4294967296 ^ (2 * n) * bval (drop (2 * n) ds)"
proof -
  have "bval ds = bval (take n ds) + 4294967296 ^ n * bval (drop n ds)" using assms by (intro bval_take_drop) simp
  also have "bval (drop n ds) = bval (take n (drop n ds)) + 4294967296 ^ n * bval (drop (2 * n) ds)"
    using bval_take_drop [of n "drop n ds"] assms by (simp add: mult_2)
  finally show ?thesis unfolding mult_2 power_add by (simp add: algebra_simps)
qed

context multiplier
begin

text \<open>A product at one of the points; the digit that is cut off is zero.\<close>

lemma toom3_product:
  assumes len: "length u = n + 1" "length v = n + 1" "2 * n + 2 < bound" "sq \<Longrightarrow> u = v"
    and small: "bval u * bval v < 1000 * 4294967296 ^ (2 * n)"
  shows "mul_post (bug \<and> \<not> sq) (mulfunc sq (replicate (2 * n + 2) 0) u v wn)
    (\<lambda>t. length (take (2 * n + 1) t) = 2 * n + 1 \<and> bval (take (2 * n + 1) t) = bval u * bval v)"
proof -
  have "mul_post (bug \<and> \<not> sq) (mulfunc sq (replicate (2 * n + 2) 0) u v wn) (\<lambda>t. length t = 2 * n + 2 \<and> bval t = bval u * bval v)"
    using product [of u v "replicate (2 * n + 2) 0" sq wn] len by simp
  then show ?thesis
  proof (rule mul_post_mono)
    fix t assume t: "length t = 2 * n + 2 \<and> bval t = bval u * bval v"
    then have "bval t < 4294967296 ^ (2 * n + 1)" using small_below_next [of "bval t" "2 * n"] small by simp
    then show "length (take (2 * n + 1) t) = 2 * n + 1 \<and> bval (take (2 * n + 1) t) = bval u * bval v"
      using t bval_take_small [of t "2 * n + 1"] by simp
  qed
qed

lemma bary_mul_toom3:
  assumes len: "(length yds + 2) div 3 * 2 < length xds" "length xds \<le> length yds" "length xds + length yds \<le> length zds"
    and bound: "length xds + length yds \<le> bound" and same: "sq \<Longrightarrow> xds = yds"
  shows "mul_post (bug \<and> \<not> sq) (bary_mul_toom3 mulfunc sq zds xds yds wn) (\<lambda>z. length z = length zds \<and> bval z = bval xds * bval yds)"
proof -
  let ?B = "4294967296 :: int"
  define n where "n = (length yds + 2) div 3"
  define zn where "zn = length zds"
  define wnc where "wnc = 6 * (n + 1) + 2 * (2 * n) + 3 * (2 * n + 2) + 3 * (2 * n + 1)"
  define w where "w = (if wn < wnc then wnc * 3 div 2 else wn) - wnc"
  define x0 x1 x2 where "x0 = take n xds" and "x1 = take n (drop n xds)" and "x2 = drop (2 * n) xds"
  define y0 y1 y2 where "y0 = take n yds" and "y1 = take n (drop n yds)" and "y2 = drop (2 * n) yds"
  define R where "R = ?B ^ n"
  have n: "2 * n < length xds" "length yds \<le> 3 * n" using len(1,2) by (simp_all add: n_def)
  then have "0 < n" using len(2) by (cases n) simp_all
  note n = n this
  have lens: "length x0 = n" "length x1 = n" "length x2 \<le> n" "length y0 = n" "length y1 = n" "length y2 \<le> n"
    using n len(2) by (simp_all add: x0_def x1_def x2_def y0_def y1_def y2_def)
  have R2: "R ^ 2 = ?B ^ (2 * n)" by (simp add: R_def mult.commute flip: power_mult)
  have X: "bval xds = bval x0 + R * bval x1 + R ^ 2 * bval x2" and Y: "bval yds = bval y0 + R * bval y1 + R ^ 2 * bval y2"
    using toom3_split [of n xds] toom3_split [of n yds] n len(2) unfolding R2
    by (simp_all add: x0_def x1_def x2_def y0_def y1_def y2_def R_def)
  obtain u1 u2 u2p u3 u3p where u: "toom3_points n x0 x1 x2 = (u1, (u2, u2p), (u3, u3p))" by (metis surj_pair)
  obtain v1 v2 v2p v3 v3p where v: "(if sq then (u1, (u2, u2p), (u3, u3p)) else toom3_points n y0 y1 y2) = (v1, (v2, v2p), (v3, v3p))"
    by (metis surj_pair)
  have v': "toom3_points n y0 y1 y2 = (v1, (v2, v2p), (v3, v3p))"
    using v u same by (cases sq) (auto simp: x0_def x1_def x2_def y0_def y1_def y2_def)
  note us = toom3_points_spec [OF lens(1-3) u] and vs = toom3_points_spec [OF lens(4-6) v']
  have eq: "sq \<Longrightarrow> x0 = y0 \<and> x2 = y2 \<and> u1 = v1 \<and> u2 = v2 \<and> u3 = v3"
    using same u v' by (auto simp: x0_def x1_def x2_def y0_def y1_def y2_def)
  define c0 c1 c2 c3 c4 where "c0 = bval x0 * bval y0" and "c1 = bval x0 * bval y1 + bval x1 * bval y0"
    and "c2 = bval x0 * bval y2 + bval x1 * bval y1 + bval x2 * bval y0" and "c3 = bval x1 * bval y2 + bval x2 * bval y1"
    and "c4 = bval x2 * bval y2"
  have p: "bval x0 * bval y0 < ?B ^ (2 * n)"
    "bval x0 * bval y1 < ?B ^ (2 * n)"
    "bval x1 * bval y0 < ?B ^ (2 * n)"
    "bval x0 * bval y2 < ?B ^ (2 * n)"
    "bval x1 * bval y1 < ?B ^ (2 * n)"
    "bval x2 * bval y0 < ?B ^ (2 * n)"
    "bval x1 * bval y2 < ?B ^ (2 * n)"
    "bval x2 * bval y1 < ?B ^ (2 * n)"
    "bval x2 * bval y2 < ?B ^ (2 * n)"
    by (rule bval_product_less; use lens in linarith)+
  have q: "0 \<le> bval x0 * bval y0"
    "0 \<le> bval x0 * bval y1"
    "0 \<le> bval x1 * bval y0"
    "0 \<le> bval x0 * bval y2"
    "0 \<le> bval x1 * bval y1"
    "0 \<le> bval x2 * bval y0"
    "0 \<le> bval x1 * bval y2"
    "0 \<le> bval x2 * bval y1"
    "0 \<le> bval x2 * bval y2"
    by simp_all
  have c: "0 \<le> c1" "0 \<le> c2" "0 \<le> c3"
    "c0 < 4 * ?B ^ (2 * n)" "c1 < 4 * ?B ^ (2 * n)" "c2 < 4 * ?B ^ (2 * n)" "c3 < 4 * ?B ^ (2 * n)" "c4 < 4 * ?B ^ (2 * n)" "0 \<le> c0" "0 \<le> c4"
    using p q unfolding c0_def c1_def c2_def c3_def c4_def by linarith+
  have t1: "bval u1 * bval v1 = c0 + c1 + c2 + c3 + c4"
    and t2: "sval (u2, u2p) * sval (v2, v2p) = c0 - c1 + c2 - c3 + c4"
    and t3: "sval (u3, u3p) * sval (v3, v3p) = c0 - 2 * c1 + 4 * c2 - 8 * c3 + 16 * c4"
    unfolding us vs c0_def c1_def c2_def c3_def c4_def by (simp_all add: algebra_simps)
  have abs: "bval u2 * bval v2 = \<bar>c0 - c1 + c2 - c3 + c4\<bar>" "bval u3 * bval v3 = \<bar>c0 - 2 * c1 + 4 * c2 - 8 * c3 + 16 * c4\<bar>"
    unfolding t2 [symmetric] t3 [symmetric] by (simp_all add: abs_mult)
  have small: "bval u1 * bval v1 < 1000 * ?B ^ (2 * n)" "bval u2 * bval v2 < 1000 * ?B ^ (2 * n)" "bval u3 * bval v3 < 1000 * ?B ^ (2 * n)"
    unfolding t1 abs using c by linarith+
  have bnd: "2 * n + 2 < bound" using bound n len(2) by linarith
  note m1 = toom3_product [OF us(1) vs(1) bnd _ small(1), of sq w] and m2 = toom3_product [OF us(3) vs(3) bnd _ small(2), of sq w]
    and m3 = toom3_product [OF us(5) vs(5) bnd _ small(3), of sq w]
  have m0: "mul_post (bug \<and> \<not> sq) (mulfunc sq (replicate (2 * n) 0) x0 y0 w) (\<lambda>t. length t = 2 * n \<and> bval t = c0)"
    using product [of x0 y0 "replicate (2 * n) 0" sq w] lens bnd eq by (simp add: c0_def)
  have m4: "mul_post (bug \<and> \<not> sq) (mulfunc sq (replicate (2 * n) 0) x2 y2 w) (\<lambda>t. length t = 2 * n \<and> bval t = c4)"
    using product [of x2 y2 "replicate (2 * n) 0" sq w] lens bnd eq by (simp add: c4_def)
  have T: "bval xds * bval yds = c0 + R * c1 + R ^ 2 * c2 + R ^ 3 * c3 + R ^ 4 * c4"
    unfolding X Y c0_def c1_def c2_def c3_def c4_def by (simp add: algebra_simps power2_eq_square power3_eq_cube power4_eq_xxxx)
  have XY: "bval xds * bval yds < ?B ^ (6 * n + 1)" using n len(2) by (intro bval_product_less) linarith
  have XYz: "bval xds * bval yds < ?B ^ zn" using len(3) unfolding zn_def by (rule bval_product_less)
  have code: "bary_mul_toom3 mulfunc sq zds xds yds wn =
    mul_then (mulfunc sq (replicate (2 * n) 0) x0 y0 w) (\<lambda>t0.
    mul_then (mulfunc sq (replicate (2 * n + 2) 0) u1 v1 w) (\<lambda>t1.
    mul_then (mulfunc sq (replicate (2 * n + 2) 0) u2 v2 w) (\<lambda>t2.
    mul_then (mulfunc sq (replicate (2 * n + 2) 0) u3 v3 w) (\<lambda>t3.
    mul_then (mulfunc sq (replicate (2 * n) 0) x2 y2 w) (\<lambda>t4.
      let z = toom3_interpolate n t0 (take (2 * n + 1) t1, True) (take (2 * n + 1) t2, u2p = v2p) (take (2 * n + 1) t3, u3p = v3p) t4;
          zzds = toom3_recompose n t0 z t4; zzn = BARY_TRUNC zzds (length zzds)
      in Inr (take zzn zzds @ replicate (zn - zzn) 0))))))"
    unfolding bary_mul_toom3_def Let_def n_def [symmetric] zn_def [symmetric] wnc_def [symmetric] w_def [symmetric]
      x0_def [symmetric] x1_def [symmetric] x2_def [symmetric] y0_def [symmetric] y1_def [symmetric] y2_def [symmetric]
      u prod.case v by (rule refl)
  show ?thesis
    unfolding code zn_def [symmetric]
  proof (rule mul_post_then [OF m0], rule mul_post_then [OF m1], (simp add: eq), rule mul_post_then [OF m2], (simp add: eq),
      rule mul_post_then [OF m3], (simp add: eq), rule mul_post_then [OF m4])
    fix t0 t1 t2 t3 t4
    assume t0: "length t0 = 2 * n \<and> bval t0 = c0" and t4: "length t4 = 2 * n \<and> bval t4 = c4"
      and t1': "length (take (2 * n + 1) t1) = 2 * n + 1 \<and> bval (take (2 * n + 1) t1) = bval u1 * bval v1"
      and t2': "length (take (2 * n + 1) t2) = 2 * n + 1 \<and> bval (take (2 * n + 1) t2) = bval u2 * bval v2"
      and t3': "length (take (2 * n + 1) t3) = 2 * n + 1 \<and> bval (take (2 * n + 1) t3) = bval u3 * bval v3"
    obtain z1 z2 z3 where z: "toom3_interpolate n t0 (take (2 * n + 1) t1, True) (take (2 * n + 1) t2, u2p = v2p) (take (2 * n + 1) t3, u3p = v3p) t4 = (z1, z2, z3)"
      by (metis surj_pair)
    note i = toom3_interpolate_spec [OF conjunct1 [OF t0] conjunct1 [OF t1'] conjunct1 [OF t2'] conjunct1 [OF t3'] conjunct1 [OF t4]
        conjunct2 [OF t0] trans [OF conjunct2 [OF t1'] t1] trans [OF sval_mult [OF conjunct2 [OF t2']] t2]
        trans [OF sval_mult [OF conjunct2 [OF t3']] t3] conjunct2 [OF t4] c(1-8) z]
    have Tv: "bval t0 + ?B ^ n * sval z1 + (?B ^ n) ^ 2 * sval z2 + (?B ^ n) ^ 3 * sval z3 + (?B ^ n) ^ 4 * bval t4 = bval xds * bval yds"
      using i t0 t4 T by (simp add: R_def)
    define zz where "zz = toom3_recompose n t0 (z1, z2, z3) t4"
    have zz: "length zz = 6 * n + 1" "bval zz = bval xds * bval yds"
      using toom3_recompose_spec [of t0 n z1 z2 z3 t4, unfolded Tv] i t0 t4 n(3) XY by (simp_all add: zz_def)
    have "BARY_TRUNC zz (length zz) \<le> zn" using XYz unfolding zz(2) [symmetric] by (rule BARY_TRUNC_below)
    moreover note BARY_TRUNC_spec [OF order_refl, of zz]
    ultimately show "mul_post (bug \<and> \<not> sq) (let z = toom3_interpolate n t0 (take (2 * n + 1) t1, True) (take (2 * n + 1) t2, u2p = v2p) (take (2 * n + 1) t3, u3p = v3p) t4;
          zzds = toom3_recompose n t0 z t4; zzn = BARY_TRUNC zzds (length zzds)
      in Inr (take zzn zzds @ replicate (zn - zzn) 0)) (\<lambda>z. length z = zn \<and> bval z = bval xds * bval yds)"
      unfolding z Let_def zz_def [symmetric] mul_post_simps using zz(2) by (simp add: bval_append)
  qed
qed

end

section \<open>Multiplication\<close>

text \<open>The routines call each other on operands with fewer digits together.\<close>

lemma toom3_multiplier: "multiplier (bary_mul_toom3_start fuel) fuel True"
proof (induction fuel)
  case (Suc fuel)
  show ?case
    unfolding bary_mul_toom3_start.simps
  proof (rule mul_start)
    fix sq wn and zds xds yds :: "BDIGIT list"
    assume len: "2 \<le> length xds" "length xds \<le> length yds" "length xds + length yds \<le> length zds" "length xds + length yds < Suc fuel"
      and same: "sq \<Longrightarrow> xds = yds"
    consider "length xds < TOOM3_MUL_DIGITS" | "\<not> length xds < TOOM3_MUL_DIGITS" "\<not> TOOM3_BALANCED (length xds) (length yds)"
      | "\<not> length xds < TOOM3_MUL_DIGITS" "TOOM3_BALANCED (length xds) (length yds)" by blast
    then show "mul_post (True \<and> \<not> sq) (bary_mul_toom3_branch (bary_mul_karatsuba_start fuel) (bary_mul_toom3_start fuel) sq zds xds yds wn)
        (\<lambda>z. length z = length zds \<and> bval z = bval xds * bval yds)"
    proof cases
      case 1
      have "length yds < fuel" using len by linarith
      then show ?thesis
        using karatsuba.bary_mul_karatsuba_branch [OF len(1-3) _ same TrueI] 1 by (simp add: bary_mul_toom3_branch_def)
    next
      case 2
      have "0 < length xds" using len(1) by linarith
      moreover have "length xds + length xds < fuel" using 2 len by (simp add: TOOM3_BALANCED_def TOOM3_MUL_DIGITS_def)
      moreover have "\<not> sq"
      proof
        assume sq
        then have "length yds = length xds" using same by simp
        then show False using 2 unfolding TOOM3_BALANCED_def TOOM3_MUL_DIGITS_def by simp
      qed
      ultimately show ?thesis
        using 2 multiplier.bary_mul_balance [OF Suc _ len(2,3), of wn] by (simp add: bary_mul_toom3_branch_def)
    next
      case 3
      then show ?thesis
        using multiplier.bary_mul_toom3 [OF Suc _ len(2,3) _ same] len(4) by (simp add: bary_mul_toom3_branch_def TOOM3_BALANCED_def)
    qed
  qed
qed (unfold_locales, simp)

interpretation toom3: multiplier "bary_mul_toom3_start fuel" fuel True for fuel
  by (rule toom3_multiplier)

lemma bary_mul_spec:
  assumes len: "length xds + length yds \<le> length zds" and same: "sq \<Longrightarrow> xds = yds"
  shows "mul_post (\<not> sq \<and> NAIVE_MUL_DIGITS \<le> length xds \<and> NAIVE_MUL_DIGITS \<le> length yds) (bary_mul sq zds xds yds)
    (\<lambda>z. length z = length zds \<and> bval z = bval xds * bval yds)"
proof -
  have start: "mul_post (True \<and> \<not> sq) (bary_mul_toom3_start (length xds + length yds + 1) sq zds xds yds 0)
      (\<lambda>z. length z = length zds \<and> bval z = bval xds * bval yds)"
    by (rule toom3.product) (use len same in simp_all)
  have normal: "mul_post b (Inr (if sq then bary_sq_fast (length zds) xds else bary_short_mul (length zds) xds yds))
      (\<lambda>z. length z = length zds \<and> bval z = bval xds * bval yds)" for b
    using bary_sq_or_mul [OF len same] by simp
  have swapped: "mul_post b (Inr (bary_short_mul (length zds) yds xds)) (\<lambda>z. length z = length zds \<and> bval z = bval xds * bval yds)" for b
    using bary_short_mul_spec [of yds xds "length zds"] len by (simp add: mult.commute add.commute)
  show ?thesis
    using normal swapped mul_post_mono [OF start] by (auto simp: bary_mul_def Let_def)
qed

end
