(* ===== verification/Bary_Properties.thy ===== *)
theory Bary_Properties
  imports Bary_Toom3
begin

text \<open>
  What the digit arrays of bignum.c promise: the products and quotients are those of the numbers, on every
  size and by every method, and where a multiplication ends in \<open>rb_bug\<close>.
\<close>

section \<open>Lemmas for the properties\<close>

text \<open>The schoolbook multiplication as a routine of the interface: it needs no work area.\<close>

definition normal_mulfunc :: mulfunc_t where
  "normal_mulfunc sq zds xds yds wn = Inr (bary_short_mul (length zds) xds yds)"

interpretation schoolbook: multiplier normal_mulfunc bound False for bound
  by unfold_locales (simp add: normal_mulfunc_def bary_short_mul_spec)

lemma mul_post_False_iff: "mul_post False m P \<longleftrightarrow> (\<exists>z. m = Inr z \<and> P z)"
  by (auto simp: mul_post_def split: sum.splits mul_failure.splits)

lemma mul_post_True_iff: "mul_post True m P \<longleftrightarrow> (\<exists>z. m = Inr z \<and> P z) \<or> (\<exists>wn xn. m = Inl (Wds_not_enough wn xn))"
  by (auto simp: mul_post_def split: sum.splits mul_failure.splits)

text \<open>Operands whose ends are not zero pass the special cases unchanged.\<close>

lemma BARY_TRUNC_append: "n \<le> length xs \<Longrightarrow> BARY_TRUNC (xs @ ys) n = BARY_TRUNC xs n"
  by (induction n) (simp_all add: nth_append)

lemma BARY_TRUNC_zeros: "BARY_TRUNC (xs @ replicate k 0) (length xs + k) = BARY_TRUNC xs (length xs)"
  by (induction k) (simp_all add: nth_append BARY_TRUNC_append replicate_append_same [symmetric] flip: append_assoc)

lemma trim_digits_zeros:
  assumes "xs \<noteq> []" "hd xs \<noteq> 0" "last xs \<noteq> 0"
  shows "trim_digits (xs @ replicate k 0) = (xs, 0)"
proof -
  have "BARY_TRUNC xs (length xs) = length xs"
    using assms(1,3) by (cases "length xs") (simp_all add: last_conv_nth)
  moreover have "low_zero_digits xs = 0" using assms(1,2) by (cases xs) simp_all
  ultimately show ?thesis using BARY_TRUNC_zeros [of xs k] by (simp add: trim_digits_def)
qed

text \<open>Two numbers whose product ends in \<open>rb_bug\<close>: \<open>2 ^ 6400 - 1\<close> and \<open>2 ^ 12800 + 2 ^ 2880 - 1\<close>.\<close>

definition bug_x :: "BDIGIT list" where "bug_x = replicate 200 (- 1)"

definition bug_y :: "BDIGIT list" where "bug_y = replicate 90 (- 1) @ replicate 310 0 @ [1]"

lemma trim_replicate: "0 < n \<Longrightarrow> trim_digits (replicate n (- 1)) = (replicate n (- 1), 0)"
  using trim_digits_zeros [of "replicate n (- 1)" 0] by (cases n) simp_all

lemma bug_inner:
  assumes "length zds = 400" and that: "290 < fuel"
  shows "mul_post True (bary_mul_toom3_start (Suc fuel) False zds bug_x (replicate 90 (- 1) @ replicate 110 0) 0) (\<lambda>_. False)"
proof -
  have "trim_digits (replicate 90 (- 1) @ replicate 110 0) = (replicate 90 (- 1), 0)"
    by (rule trim_digits_zeros) simp_all
  then have pre: "bary_mul_precheck zds bug_x (replicate 90 (- 1) @ replicate 110 0) = Inr (0, replicate 90 (- 1), bug_x)"
    by (simp add: bary_mul_precheck_def bug_x_def trim_replicate)
  have "mul_post True (bary_mul_balance_with_mulfunc (bary_mul_karatsuba_start fuel) zds (replicate 90 (- 1)) bug_x 0) (\<lambda>_. False)"
    by (intro karatsuba.bary_mul_balance_fails) (use that in \<open>simp_all add: bug_x_def assms(1)\<close>)
  moreover have "bary_mul_toom3_branch (bary_mul_karatsuba_start fuel) (bary_mul_toom3_start fuel) False zds (replicate 90 (- 1)) bug_x 0 =
      bary_mul_balance_with_mulfunc (bary_mul_karatsuba_start fuel) zds (replicate 90 (- 1)) bug_x 0"
    by (simp add: bary_mul_toom3_branch_def bary_mul_karatsuba_branch_def bary_sparse_p_def bug_x_def
        TOOM3_MUL_DIGITS_def KARATSUBA_MUL_DIGITS_def KARATSUBA_BALANCED_def)
  ultimately show ?thesis
    unfolding bary_mul_toom3_start.simps mul_start_def pre sum.case prod.case
    by (intro mul_post_then [of True _ "\<lambda>_. False"]) simp_all
qed

lemma bug_outer:
  assumes "length zds = 601" "290 < fuel"
  shows "mul_post True (bary_mul_toom3_start (Suc (Suc fuel)) False zds bug_x bug_y 0) (\<lambda>_. False)"
proof -
  have "trim_digits bug_y = (bug_y, 0)" using trim_digits_zeros [of bug_y 0] by (simp add: bug_y_def)
  then have pre: "bary_mul_precheck zds bug_x bug_y = Inr (0, bug_x, bug_y)"
    by (simp add: bary_mul_precheck_def bug_x_def trim_replicate) (simp add: bug_y_def)
  have len: "length bug_x = 200" "length bug_y = 401" by (simp_all add: bug_x_def bug_y_def)
  have low: "take 200 bug_y = replicate 90 (- 1) @ replicate 110 0" by (simp add: bug_y_def)
  define z0 where "z0 = bary_put 0 (replicate 200 0) zds"
  have z0: "length z0 = 601" using assms(1) by (simp add: z0_def)
  have "mul_post True (balance_step (bary_mul_toom3_start (Suc fuel)) bug_x bug_y 200 0 z0) (\<lambda>_. False)"
    unfolding balance_step_def Let_def len slice_size_def z0
    using bug_inner [OF _ assms(2), of "take 400 z0"] z0 by (simp add: low) (intro mul_post_then [of True _ "\<lambda>_. False"], simp_all)
  then have "mul_post True (balance_loop (Suc 401) (bary_mul_toom3_start (Suc fuel)) bug_x bug_y 200 0 z0) (\<lambda>_. False)"
    unfolding balance_loop.simps(2) len by (simp del: bary_mul_toom3_start.simps) (intro mul_post_then [of True _ "\<lambda>_. False"], simp_all)
  then have "mul_post True (bary_mul_balance_with_mulfunc (bary_mul_toom3_start (Suc fuel)) zds bug_x bug_y 0) (\<lambda>_. False)"
    unfolding bary_mul_balance_with_mulfunc_def Let_def len assms(1) z0_def
    by (simp del: bary_mul_toom3_start.simps balance_loop.simps) (intro mul_post_then [of True _ "\<lambda>_. False"], simp_all)
  moreover have "bary_mul_toom3_branch k (bary_mul_toom3_start (Suc fuel)) False zds bug_x bug_y 0 =
      bary_mul_balance_with_mulfunc (bary_mul_toom3_start (Suc fuel)) zds bug_x bug_y 0" for k
    by (simp add: bary_mul_toom3_branch_def len TOOM3_MUL_DIGITS_def TOOM3_BALANCED_def del: bary_mul_toom3_start.simps)
  ultimately show ?thesis
    unfolding bary_mul_toom3_start.simps(2) [of "Suc fuel"] mul_start_def pre sum.case prod.case
    by (intro mul_post_then [of True _ "\<lambda>_. False"]) simp_all
qed

section \<open>Properties\<close>

text \<open>C26: Division of digit arrays.  Dividing by zero digits is a \<open>ZeroDivisionError\<close>; in every other case the
  division returns, with the quotient and the remainder of the numbers in arrays of the sizes asked for.
\<close>

theorem bary_divmod_result:
  assumes "length xds \<le> qn" "length yds \<le> rn"
  shows "if bval yds = 0 then bary_divmod qn rn xds yds = Some (Inl ZeroDivisionError)
    else \<exists>qds rds. bary_divmod qn rn xds yds = Some (Inr (qds, rds)) \<and> length qds = qn \<and> length rds = rn \<and>
      bval qds = bval xds div bval yds \<and> bval rds = bval xds mod bval yds"
  using bary_divmod_zero bary_divmod_correct [OF assms] by simp

theorem bary_divmod_result_witness:
  "\<exists>qds rds. bary_divmod 3 2 [7, 0, 5] [3, 2] = Some (Inr (qds, rds)) \<and> length qds = 3 \<and> length rds = 2 \<and>
    bval qds = bval [7, 0, 5] div bval [3, 2] \<and> bval rds = bval [7, 0, 5] mod bval [3, 2]"
  using bary_divmod_result [of "[7, 0, 5]" 3 "[3, 2]" 2] by simp

text \<open>C27: Multiplication of digit arrays.  The recursion of the Toom-Cook, Karatsuba and slicing methods always
  ends, with the product of the numbers in an array of the size asked for.  The only other end is
  \<open>rb_bug\<close> for a missing work area, and only when the operands are two arrays of 70 digits or more: a
  square never ends in it.
\<close>

theorem bary_mul_product:
  assumes "length xds + length yds \<le> length zds" "sq \<Longrightarrow> xds = yds"
  shows "(\<exists>z. bary_mul sq zds xds yds = Inr z \<and> length z = length zds \<and> bval z = bval xds * bval yds) \<or>
    \<not> sq \<and> 70 \<le> length xds \<and> 70 \<le> length yds \<and> (\<exists>wn n. bary_mul sq zds xds yds = Inl (Wds_not_enough wn n))"
  using bary_mul_spec [where sq = sq, OF assms]
  by (cases "bary_mul sq zds xds yds" rule: sum.exhaust)
    (auto simp: mul_post_def NAIVE_MUL_DIGITS_def KARATSUBA_MUL_DIGITS_def split: mul_failure.splits)

theorem bary_mul_product_witness:
  "\<exists>z. bary_mul False [0, 0, 0, 0, 0] [5, 6] [7, 8, 9] = Inr z \<and> length z = 5 \<and> bval z = bval [5, 6] * bval [7, 8, 9]"
  using bary_mul_product [of "[5, 6]" "[7, 8, 9]" "[0, 0, 0, 0, 0]" False] by (auto simp del: bval.simps)

text \<open>C28: The product of \<open>2 ^ 6400 - 1\<close> and \<open>2 ^ 12800 + 2 ^ 2880 - 1\<close>, normalised numbers of 200 and 401 digits
  multiplied into an array of 601 digits as \<open>bigmul0\<close> does, ends in
  \<open>rb_bug("wds is not enough")\<close> when GMP is not used.
\<close>

theorem bary_mul_rb_bug:
  "bval bug_x = 2 ^ 6400 - 1 \<and> bval bug_y = 2 ^ 12800 + 2 ^ 2880 - 1 \<and> last bug_x \<noteq> 0 \<and> last bug_y \<noteq> 0 \<and>
    (\<exists>wn n. bary_mul False (replicate (length bug_x + length bug_y) 0) bug_x bug_y = Inl (Wds_not_enough wn n))"
proof (intro conjI)
  have "(4294967296 :: int) = 2 ^ 32" by simp
  then have p: "(4294967296 :: int) ^ 200 = 2 ^ 6400" "(4294967296 :: int) ^ 400 = 2 ^ 12800" "(4294967296 :: int) ^ 90 = 2 ^ 2880"
    by (simp_all only: flip: power_mult) simp_all
  show "bval bug_x = 2 ^ 6400 - 1" unfolding bug_x_def bval_replicate_max p by (rule refl)
  have "bval bug_y = 4294967296 ^ 90 - 1 + 4294967296 ^ (90 + 310)"
    unfolding bug_y_def bval_append bval_replicate_max by (simp add: power_add)
  then show "bval bug_y = 2 ^ 12800 + 2 ^ 2880 - 1" by (simp only: p flip: p) simp
  show "last bug_x \<noteq> 0" "last bug_y \<noteq> 0" by (simp_all add: bug_x_def bug_y_def)
  have len: "length bug_x = 200" "length bug_y = 401" by (simp_all add: bug_x_def bug_y_def)
  have "mul_post True (bary_mul_toom3_start (Suc (Suc 600)) False (replicate 601 0) bug_x bug_y 0) (\<lambda>_. False)"
    by (rule bug_outer) simp_all
  moreover have "length bug_x + length bug_y + 1 = Suc (Suc 600)" by (simp add: len)
  then have "bary_mul False (replicate (length bug_x + length bug_y) 0) bug_x bug_y =
      bary_mul_toom3_start (Suc (Suc 600)) False (replicate 601 0) bug_x bug_y 0"
    unfolding bary_mul_def Let_def
    by (simp add: len NAIVE_MUL_DIGITS_def KARATSUBA_MUL_DIGITS_def del: bary_mul_toom3_start.simps)
  ultimately show "\<exists>wn n. bary_mul False (replicate (length bug_x + length bug_y) 0) bug_x bug_y = Inl (Wds_not_enough wn n)"
    by (simp add: mul_post_True_iff)
qed

text \<open>Slicing with the schoolbook routine gives the schoolbook product, except that it ends in \<open>rb_bug\<close>
  exactly when the work area is too small and the room in the result array lies between what the last
  slice and what the slice before it need.
\<close>

theorem bary_balance_exact:
  assumes "0 < length xds" "length xds \<le> length yds" "length xds + length yds \<le> length zds"
    and "r = (if length yds mod length xds \<noteq> 0 then length yds mod length xds else length xds)"
  shows "if wn < length xds \<and> length xds < length yds \<and> 2 * length xds + length yds + r \<le> length zds \<and>
        length zds + r < 3 * length xds + length yds
      then \<exists>w n. bary_mul_balance_with_mulfunc normal_mulfunc zds xds yds wn = Inl (Wds_not_enough w n)
      else bary_mul_balance_with_mulfunc normal_mulfunc zds xds yds wn = Inr (bary_mul_normal (length zds) xds yds)"
proof (cases "wn < length xds \<and> length xds < length yds \<and> 2 * length xds + length yds + r \<le> length zds \<and>
    length zds + r < 3 * length xds + length yds")
  case True
  then show ?thesis
    using schoolbook.bary_mul_balance_fails [of xds yds "Suc (length xds + length xds)" wn zds] assms
    by (auto simp: mul_post_True_iff)
next
  case False
  then obtain z where z: "bary_mul_balance_with_mulfunc normal_mulfunc zds xds yds wn = Inr z" "length z = length zds"
    "bval z = bval xds * bval yds"
    using schoolbook.bary_mul_balance [OF assms(1-3), of "Suc (length xds + length xds)" wn] assms(4)
    by (auto simp: mul_post_False_iff)
  moreover have "z = bary_mul_normal (length zds) xds yds"
    using bary_mul_normal_spec [OF assms(3)] z(2,3) by (intro bval_inject [THEN iffD1]) simp_all
  ultimately show ?thesis using False by simp
qed

theorem bary_balance_exact_witness:
  "\<exists>wn n. bary_mul_balance_with_mulfunc normal_mulfunc (replicate 22 0) [1, 2, 3, 4, 5] [1, 2, 3, 4, 5, 6, 7, 8, 9, 10, 11] 0 =
    Inl (Wds_not_enough wn n)"
  using bary_balance_exact [where xds = "[1, 2, 3, 4, 5]" and yds = "[1, 2, 3, 4, 5, 6, 7, 8, 9, 10, 11]" and zds = "replicate 22 0" and wn = 0]
  by simp

end
