(* ===== verification/Big.thy ===== *)
theory Big
  imports Bary_Toom3
begin

text \<open>
  Integers (bignum.c, internal/bignum.h, internal/fixnum.h): a \<open>Fixnum\<close> is a tagged word, a bignum is
  a sign and an array of digits.  How the two are converted into each other and when a bignum is in
  its normal form.  Whether a bignum's digits are embedded in the object or in the heap is left out.
\<close>

section \<open>Tagged words\<close>

type_synonym long = "64 word"

definition LONG2FIX :: "long \<Rightarrow> VALUE" where "LONG2FIX i = 2 * i + 1"

definition FIX2LONG :: "VALUE \<Rightarrow> long" where "FIX2LONG x = signed_drop_bit 1 x"

definition FIXNUM_MAX :: long where "FIXNUM_MAX = 0x3fffffffffffffff"

definition FIXNUM_MIN :: long where "FIXNUM_MIN = 0xc000000000000000"

definition FIXABLE :: "long \<Rightarrow> bool" where "FIXABLE f \<longleftrightarrow> f <s FIXNUM_MAX + 1 \<and> FIXNUM_MIN \<le>s f"

text \<open>On an \<open>unsigned long\<close> the comparison is unsigned.\<close>

definition POSFIXABLE :: "u64 \<Rightarrow> bool" where "POSFIXABLE f \<longleftrightarrow> f < FIXNUM_MAX + 1"

section \<open>Integers\<close>

record RBignum =
  BIGNUM_SIGN :: bool
  BDIGITS :: "BDIGIT list"

abbreviation BIGNUM_LEN :: "RBignum \<Rightarrow> nat" where "BIGNUM_LEN x \<equiv> length (BDIGITS x)"

datatype rb_integer = Fixnum VALUE | Bignum RBignum

definition bignew :: "BDIGIT list \<Rightarrow> bool \<Rightarrow> RBignum" where
  "bignew ds sign = \<lparr>BIGNUM_SIGN = sign, BDIGITS = ds\<rparr>"

definition bigval :: "RBignum \<Rightarrow> int" where
  "bigval x = (if BIGNUM_SIGN x then bval (BDIGITS x) else - bval (BDIGITS x))"

fun ival :: "rb_integer \<Rightarrow> int" where
  "ival (Fixnum v) = sint v div 2"
| "ival (Bignum x) = bigval x"

definition fixable :: "int \<Rightarrow> bool" where "fixable i \<longleftrightarrow> - 4611686018427387904 \<le> i \<and> i < 4611686018427387904"

text \<open>
  The normal form: a fixnum has its tag, a bignum has no leading zero and does not fit into a fixnum.
\<close>

fun normal :: "rb_integer \<Rightarrow> bool" where
  "normal (Fixnum v) \<longleftrightarrow> odd v"
| "normal (Bignum x) \<longleftrightarrow> BDIGITS x \<noteq> [] \<and> last (BDIGITS x) \<noteq> 0 \<and> \<not> fixable (bigval x)"

text \<open>The loop \<open>while (--len && !ds[len])\<close>: the index it stops at.\<close>

fun top_index :: "BDIGIT list \<Rightarrow> nat \<Rightarrow> nat" where
  "top_index ds 0 = 0"
| "top_index ds (Suc n) = (if n \<noteq> 0 \<and> ds ! n = 0 then top_index ds n else n)"

definition bigtrunc :: "RBignum \<Rightarrow> RBignum" where
  "bigtrunc x =
    (let len = BIGNUM_LEN x
     in if len = 0 then x
        else let len = top_index (BDIGITS x) len
             in if BIGNUM_LEN x > len + 1 then x\<lparr>BDIGITS := take (len + 1) (BDIGITS x)\<rparr> else x)"

text \<open>The loop of \<open>bigfixize\<close> that collects the digits below \<open>i\<close>.\<close>

fun bigfixize_loop :: "BDIGIT list \<Rightarrow> nat \<Rightarrow> u64 \<Rightarrow> u64" where
  "bigfixize_loop ds 0 u = u"
| "bigfixize_loop ds (Suc i) u = bigfixize_loop ds i (BIGUP u + ucast (ds ! i))"

definition bigfixize :: "RBignum \<Rightarrow> rb_integer" where
  "bigfixize x =
    (let ds = BDIGITS x; n = BARY_TRUNC ds (length ds); big = Bignum (x\<lparr>BDIGITS := take n ds\<rparr>)
     in if n = 0 then Fixnum (LONG2FIX 0)
        else if 2 < n then big
        else let u = bigfixize_loop ds n 0
             in if BIGNUM_SIGN x then (if POSFIXABLE u then Fixnum (LONG2FIX u) else big)
                else if u \<le> - FIXNUM_MIN then Fixnum (LONG2FIX (- u)) else big)"

definition bignorm :: "rb_integer \<Rightarrow> rb_integer" where
  "bignorm x = (case x of Bignum b \<Rightarrow> bigfixize b | Fixnum v \<Rightarrow> Fixnum v)"

definition rb_uint2big :: "u64 \<Rightarrow> RBignum" where
  "rb_uint2big n = (let digits = [BIGLO n, BIGLO (BIGDN n)] in bignew (take (top_index digits 2 + 1) digits) True)"

definition rb_int2big :: "long \<Rightarrow> RBignum" where
  "rb_int2big n =
    (let neg = n <s 0; u = (if neg then 1 + (- (n + 1)) else n); big = rb_uint2big u
     in if neg then big\<lparr>BIGNUM_SIGN := False\<rparr> else big)"

definition LONG2NUM :: "long \<Rightarrow> rb_integer" where
  "LONG2NUM v = (if FIXABLE v then Fixnum (LONG2FIX v) else Bignum (rb_int2big v))"

text \<open>Of a 128-bit integer; the length becomes 0 when all digits are 0.\<close>

definition rb_uint128t2big :: "128 word \<Rightarrow> RBignum" where
  "rb_uint128t2big n =
    (let digits = map (\<lambda>i. ucast (drop_bit (32 * i) n AND 0xffffffff)) [0..<4]
     in bignew (take (BARY_TRUNC digits 4) digits) True)"

definition rb_int128t2big :: "128 word \<Rightarrow> RBignum" where
  "rb_int128t2big n =
    (let neg = n <s 0; u = (if neg then 1 + (- (n + 1)) else n); big = rb_uint128t2big u
     in if neg then big\<lparr>BIGNUM_SIGN := False\<rparr> else big)"

definition rb_big_clone :: "RBignum \<Rightarrow> RBignum" where "rb_big_clone x = bignew (BDIGITS x) (BIGNUM_SIGN x)"

definition big_extend_carry :: "RBignum \<Rightarrow> RBignum" where
  "big_extend_carry x = x\<lparr>BDIGITS := BDIGITS x @ [1]\<rparr>"

definition get2comp :: "RBignum \<Rightarrow> RBignum" where
  "get2comp x =
    (let (ds, carry) = bary_2comp (BDIGITS x); x = x\<lparr>BDIGITS := ds\<rparr> in if carry then big_extend_carry x else x)"

text \<open>
  The two's complement of a bignum, and the digit all digits above it have; and back.
\<close>

definition abs2twocomp :: "RBignum \<Rightarrow> RBignum \<times> nat \<times> BDIGIT" where
  "abs2twocomp x =
    (let n = BARY_TRUNC (BDIGITS x) (BIGNUM_LEN x)
     in if n \<noteq> 0 \<and> \<not> BIGNUM_SIGN x
        then (bignew (fst (bary_2comp (take n (BDIGITS x)))) False, n, BDIGMAX)
        else (x, n, 0))"

definition twocomp2abs_bang :: "RBignum \<Rightarrow> bool \<Rightarrow> RBignum" where
  "twocomp2abs_bang x hibits =
    (let x = x\<lparr>BIGNUM_SIGN := \<not> hibits\<rparr> in if hibits then get2comp x else x)"

definition bigzero_p :: "RBignum \<Rightarrow> bool" where "bigzero_p x = bary_zero_p (BDIGITS x) (BIGNUM_LEN x)"

definition BIGZEROP :: "RBignum \<Rightarrow> bool" where
  "BIGZEROP x \<longleftrightarrow> BIGNUM_LEN x = 0 \<or> BDIGITS x ! 0 = 0 \<and> (BIGNUM_LEN x = 1 \<or> bigzero_p x)"

section \<open>Words and their values\<close>

lemma sint_range: "- 9223372036854775808 \<le> sint (v :: 64 word)" "sint (v :: 64 word) < 9223372036854775808"
  using sint_range_size [of v] by (simp_all add: word_size)

lemma sint_FIX2LONG [int_simps]: "sint (FIX2LONG v) = sint v div 2"
  by (simp add: FIX2LONG_def sint_signed_drop_bit_eq drop_bit_eq_div)

lemma sint_LONG2FIX [int_simps]: "fixable (sint i) \<Longrightarrow> sint (LONG2FIX i) = 2 * sint i + 1"
proof -
  assume "fixable (sint i)"
  then have i: "- 4611686018427387904 \<le> sint i" "sint i < 4611686018427387904" by (simp_all add: fixable_def)
  have "sint (i + i) = sint i + sint i" by (rule sint_add_fits) (use i in linarith)+
  then have "sint (i + i + 1) = (sint i + sint i) + 1" by (rule sint_add_eq) (use i in simp_all)
  then show ?thesis by (simp add: LONG2FIX_def)
qed

lemma odd_LONG2FIX [simp]: "odd (LONG2FIX i)"
  by (simp add: LONG2FIX_def)

lemma odd_sint: "odd (sint (v :: 64 word)) \<longleftrightarrow> odd v"
proof -
  have "bit (sint v) 0 \<longleftrightarrow> bit v 0" by (simp add: bit_sint_iff)
  then show ?thesis by (simp add: bit_0)
qed

lemma FIXABLE_iff: "FIXABLE f \<longleftrightarrow> fixable (sint f)"
  by (auto simp: FIXABLE_def FIXNUM_MAX_def FIXNUM_MIN_def word_sless_alt word_sle_eq fixable_def)

lemma POSFIXABLE_iff: "POSFIXABLE f \<longleftrightarrow> uint f < 4611686018427387904"
  by (simp add: POSFIXABLE_def FIXNUM_MAX_def word_less_def)

lemma ival_LONG2FIX [int_simps]: "fixable (sint i) \<Longrightarrow> ival (Fixnum (LONG2FIX i)) = sint i"
  by (simp add: int_simps)

lemma fixable_Fixnum: "fixable (ival (Fixnum v))"
  using sint_range [of v] unfolding fixable_def ival.simps by presburger

lemma bigval_sign: "bigval x < 0 \<Longrightarrow> \<not> BIGNUM_SIGN x" "0 < bigval x \<Longrightarrow> BIGNUM_SIGN x"
proof -
  have "\<not> bval (BDIGITS x) < 0" by (simp add: not_less)
  then show "bigval x < 0 \<Longrightarrow> \<not> BIGNUM_SIGN x" "0 < bigval x \<Longrightarrow> BIGNUM_SIGN x"
    by (auto simp: bigval_def split: if_splits)
qed

lemma bigval_bignew [simp]: "bigval (bignew ds s) = (if s then bval ds else - bval ds)"
  "BDIGITS (bignew ds s) = ds" "BIGNUM_SIGN (bignew ds s) = s"
  by (simp_all add: bigval_def bignew_def)

lemma bval_eq_neg [simp]:
  "- bval xs = bval ys \<longleftrightarrow> bval xs = 0 \<and> bval ys = 0" "bval xs = - bval ys \<longleftrightarrow> bval xs = 0 \<and> bval ys = 0"
  using bval_nonneg [of xs] bval_nonneg [of ys] by linarith+

lemma bval_Cons_eq_0 [simp]: "bval (d # ds) = 0 \<longleftrightarrow> d = 0 \<and> bval ds = 0"
  by (simp add: bval_eq_0_iff del: bval.simps)

lemma bigval_eq_0: "bigval x = 0 \<longleftrightarrow> bval (BDIGITS x) = 0"
  by (simp add: bigval_def)

section \<open>The normal form is unique\<close>

lemma bval_last:
  assumes "ds \<noteq> []" "last ds \<noteq> 0"
  shows "4294967296 ^ (length ds - 1) \<le> bval ds"
  using bval_take_ge [of "length ds" ds] assms by (simp add: last_conv_nth)

lemma digits_unique:
  assumes "xs \<noteq> []" "last xs \<noteq> 0" "ys \<noteq> []" "last ys \<noteq> 0" "bval xs = bval ys"
  shows "xs = ys"
proof -
  have len: "length bs \<le> length cs" if "bs \<noteq> []" "last bs \<noteq> 0" "bval bs = bval cs" for bs cs
  proof -
    have "(4294967296 :: int) ^ (length bs - 1) < 4294967296 ^ length cs"
      using bval_last [OF that(1,2)] bval_less [of cs] that(3) by linarith
    then have "length bs - 1 < length cs" by (rule power_less_imp_less_exp [rotated]) simp
    then show ?thesis by linarith
  qed
  have "length xs = length ys" using len [OF assms(1,2,5)] len [OF assms(3,4) assms(5) [symmetric]] by (rule le_antisym)
  then show ?thesis using assms(5) bval_inject by blast
qed

lemma normal_unique:
  assumes "normal a" "normal b" "ival a = ival b"
  shows "a = b"
proof (cases a; cases b)
  fix v w assume ab: "a = Fixnum v" "b = Fixnum w"
  then have "odd (sint v)" "odd (sint w)" "sint v div 2 = sint w div 2" using assms by (simp_all add: odd_sint)
  then have "sint v = sint w" by presburger
  then show "a = b" using ab by (simp add: signed_word_eqI)
next
  fix v y assume "a = Fixnum v" "b = Bignum y"
  then show "a = b" using assms fixable_Fixnum [of v] by simp
next
  fix x w assume "a = Bignum x" "b = Fixnum w"
  then show "a = b" using assms fixable_Fixnum [of w] by simp
next
  fix x y assume ab: "a = Bignum x" "b = Bignum y"
  then have v: "bigval x = bigval y" "\<not> fixable (bigval x)" using assms by simp_all
  have "0 \<le> bval (BDIGITS x)" "0 \<le> bval (BDIGITS y)" by simp_all
  moreover have "bval (BDIGITS x) \<noteq> 0"
  proof
    assume "bval (BDIGITS x) = 0"
    then have "bigval x = 0" by (simp add: bigval_def)
    then show False using v(2) by (simp add: fixable_def)
  qed
  ultimately have "BIGNUM_SIGN x = BIGNUM_SIGN y" "bval (BDIGITS x) = bval (BDIGITS y)"
    using v(1) by (auto simp: bigval_def split: if_splits)
  moreover from this(2) have "BDIGITS x = BDIGITS y" using assms ab by (intro digits_unique) simp_all
  ultimately show "a = b" using ab by (cases x; cases y) simp
qed

section \<open>Shortening\<close>

lemma top_index_spec:
  assumes "0 < n" "n \<le> length ds"
  shows "top_index ds n < n" "bval (take (top_index ds n + 1) ds) = bval (take n ds)"
    "top_index ds n = 0 \<or> ds ! top_index ds n \<noteq> 0"
proof -
  have "top_index ds n < n \<and> bval (take (top_index ds n + 1) ds) = bval (take n ds) \<and>
      (top_index ds n = 0 \<or> ds ! top_index ds n \<noteq> 0)"
    using assms
  proof (induction n)
    case (Suc n)
    show ?case
    proof (cases "n \<noteq> 0 \<and> ds ! n = 0")
      case True
      then have "bval (take (Suc n) ds) = bval (take n ds)"
        using Suc.prems by (simp add: take_Suc_conv_app_nth bval_append)
      then show ?thesis using Suc True by auto
    next
      case False
      then show ?thesis by (simp only: top_index.simps if_False) auto
    qed
  qed simp
  then show "top_index ds n < n" "bval (take (top_index ds n + 1) ds) = bval (take n ds)"
    "top_index ds n = 0 \<or> ds ! top_index ds n \<noteq> 0" by blast+
qed

lemma bigtrunc_spec [int_simps]: "bigval (bigtrunc x) = bigval x" "BIGNUM_SIGN (bigtrunc x) = BIGNUM_SIGN x"
proof -
  have "bval (BDIGITS (bigtrunc x)) = bval (BDIGITS x)"
    using top_index_spec(2) [of "BIGNUM_LEN x" "BDIGITS x"] by (auto simp: bigtrunc_def Let_def)
  then show "bigval (bigtrunc x) = bigval x" "BIGNUM_SIGN (bigtrunc x) = BIGNUM_SIGN x"
    by (simp_all add: bigval_def bigtrunc_def Let_def)
qed

section \<open>Normalisation\<close>

lemma uint_BIGUP_add: "uint u < 4294967296 \<Longrightarrow> uint (BIGUP u + ucast (d :: BDIGIT)) = uint u * 4294967296 + uint d"
proof -
  assume u: "uint u < 4294967296"
  then have "u = ucast (ucast u :: BDIGIT)" using uint_ucast_small [OF u] uint_dbl [of "ucast u"] by (metis word_uint_eqI)
  then have B: "uint (BIGUP u) = uint u * 4294967296" using uint_BIGUP [of "ucast u"] uint_ucast_small [OF u] by simp
  show ?thesis
    by (subst uint_add_fits) (use B u uint_digit(2) [of d] in simp_all)
qed

lemma bigfixize_loop_spec:
  assumes "n \<le> 2" "n \<le> length ds" "n + k \<le> 2" "uint u < 4294967296 ^ k"
  shows "uint (bigfixize_loop ds n u) = bval (take n ds) + 4294967296 ^ n * uint u"
  using assms
proof (induction n arbitrary: u k)
  case (Suc n)
  have "k \<le> 1" using Suc.prems(3) by simp
  then have "uint u < 4294967296" using Suc.prems(4) by (cases k) simp_all
  note step = uint_BIGUP_add [OF this, of "ds ! n"]
  have "k = 0 \<or> k = 1" using \<open>k \<le> 1\<close> by linarith
  then have "uint (BIGUP u + ucast (ds ! n)) < 4294967296 ^ Suc k"
    unfolding step using Suc.prems(4) uint_digit(2) [of "ds ! n"] by (elim disjE) simp_all
  from Suc.IH [OF _ _ _ this] Suc.prems(1-3)
  have "uint (bigfixize_loop ds (Suc n) u) = bval (take n ds) + 4294967296 ^ n * (uint u * 4294967296 + uint (ds ! n))"
    by (simp add: step)
  then show ?case using Suc.prems(2) by (simp add: take_Suc_conv_app_nth bval_append algebra_simps)
qed simp

lemma bigfixize_spec: "ival (bigfixize x) = bigval x \<and> normal (bigfixize x)"
proof -
  let ?ds = "BDIGITS x"
  define n where "n = BARY_TRUNC ?ds (length ?ds)"
  note trunc = BARY_TRUNC_spec [of "length ?ds" ?ds, folded n_def, simplified]
  let ?big = "x\<lparr>BDIGITS := take n ?ds\<rparr>"
  have big: "bigval ?big = bigval x" using trunc(2) by (simp add: bigval_def)
  have norm: "normal (Bignum ?big)" if "0 < n" "\<not> fixable (bigval x)"
  proof -
    have "take n ?ds \<noteq> []" using that(1) trunc(1) by auto
    moreover from this have "last (take n ?ds) = ?ds ! (n - 1)" using trunc(1) by (simp add: last_conv_nth)
    ultimately show ?thesis using that trunc(3) big by simp
  qed
  have top: "4294967296 ^ (n - 1) \<le> bval ?ds" if "0 < n"
    using bval_take_ge [of n ?ds] trunc that by simp
  show ?thesis
  proof (cases "n = 0 \<or> 2 < n")
    case True
    moreover have "\<not> fixable (bigval x)" if "2 < n"
    proof -
      have "(4294967296 :: int) ^ 2 \<le> 4294967296 ^ (n - 1)" using that by (intro power_increasing) simp_all
      then have "18446744073709551616 \<le> bval ?ds" using top that by simp
      then show ?thesis by (auto simp: fixable_def bigval_def)
    qed
    moreover have "bval ?ds = 0" if "n = 0" using trunc(2) that by simp
    moreover have "ival (Fixnum (LONG2FIX 0)) = 0" by (simp add: int_simps fixable_def)
    ultimately show ?thesis using norm big by (auto simp: bigfixize_def Let_def n_def [symmetric] bigval_def simp del: ival.simps(1))
  next
    case False
    define u where "u = bigfixize_loop ?ds n 0"
    have u: "uint u = bval ?ds"
      using bigfixize_loop_spec [of n ?ds 0 0] trunc(1,2) False by (simp add: u_def)
    have pos: "0 < bval ?ds" using top False by (meson less_le_trans neq0_conv zero_less_numeral zero_less_power)
    have code: "bigfixize x = (if BIGNUM_SIGN x then (if POSFIXABLE u then Fixnum (LONG2FIX u) else Bignum ?big)
        else if u \<le> - FIXNUM_MIN then Fixnum (LONG2FIX (- u)) else Bignum ?big)"
      using False by (simp add: bigfixize_def Let_def n_def [symmetric] u_def)
    have min: "u \<le> - FIXNUM_MIN \<longleftrightarrow> bval ?ds \<le> 4611686018427387904" by (simp add: FIXNUM_MIN_def word_le_def u)
    show ?thesis
    proof (cases "BIGNUM_SIGN x")
      case True
      have "ival (Fixnum (LONG2FIX u)) = bval ?ds" if "bval ?ds < 4611686018427387904"
      proof -
        have "sint u = bval ?ds" using sint_of_uint [of u] u that by simp
        then show ?thesis using ival_LONG2FIX [of u] that pos by (simp add: fixable_def)
      qed
      then show ?thesis using True code norm big False u pos by (auto simp: POSFIXABLE_iff bigval_def fixable_def simp del: ival.simps(1))
    next
      case neg: False
      have "ival (Fixnum (LONG2FIX (- u))) = - bval ?ds" if "bval ?ds \<le> 4611686018427387904"
      proof -
        have "sint u = bval ?ds" using sint_of_uint [of u] u that by simp
        then have "sint (0 - u) = - bval ?ds" using sint_sub_eq [of 0 0 u] that pos by simp
        then show ?thesis using ival_LONG2FIX [of "- u"] that pos by (simp add: fixable_def)
      qed
      then show ?thesis using neg code norm big False pos min by (auto simp: bigval_def fixable_def simp del: ival.simps(1))
    qed
  qed
qed

lemma ival_bignorm [int_simps]: "ival (bignorm (Bignum x)) = bigval x"
  using bigfixize_spec by (simp add: bignorm_def)

lemma normal_bignorm [simp]: "normal (bignorm (Bignum x))"
  using bigfixize_spec by (simp add: bignorm_def)

section \<open>Machine integers as integers\<close>

lemma word_sless_0: "(n :: 64 word) <s 0 \<longleftrightarrow> sint n < 0"
  by (simp add: word_sless_alt)

text \<open>\<open>1 + (-(n + 1))\<close> is the negated number, also for the least one.\<close>

lemma uint_negated: "sint (n :: 64 word) < 0 \<Longrightarrow> uint (1 + (- (n + 1))) = - sint n"
proof -
  assume n: "sint n < 0"
  have "uint n = (sint n + 18446744073709551616) mod 18446744073709551616" by (simp add: uint_sint take_bit_eq_mod)
  also have "\<dots> = sint n + 18446744073709551616" using n sint_range(1) [of n] by (intro mod_pos_pos_trivial) linarith+
  finally have "n \<noteq> 0 \<and> uint n = sint n + 18446744073709551616" using n by auto
  moreover have "- sint n mod 18446744073709551616 = - sint n"
    using n sint_range(1) [of n] by (intro mod_pos_pos_trivial) linarith+
  ultimately show ?thesis by (simp add: uint_word_ariths)
qed

lemma bval_digits_of_word: "bval [BIGLO n, BIGLO (BIGDN n)] = uint (n :: 64 word)"
proof -
  have "uint n div 4294967296 mod 4294967296 = uint n div 4294967296"
    using uint_bounded [of n] by (intro mod_pos_pos_trivial) (simp_all add: pos_imp_zdiv_nonneg_iff)
  then show ?thesis by (simp add: bary_simps)
qed

lemma rb_uint2big_spec: "bval (BDIGITS (rb_uint2big n)) = uint n" "BIGNUM_SIGN (rb_uint2big n)"
proof -
  have "top_index [BIGLO n, BIGLO (BIGDN n)] 2 + 1 \<le> 2"
    using top_index_spec(1) [of 2 "[BIGLO n, BIGLO (BIGDN n)]"] by simp
  then show "bval (BDIGITS (rb_uint2big n)) = uint n" "BIGNUM_SIGN (rb_uint2big n)"
    using top_index_spec(2) [of 2 "[BIGLO n, BIGLO (BIGDN n)]"] bval_digits_of_word [of n]
    by (simp_all add: rb_uint2big_def Let_def)
qed

lemma bigval_rb_int2big [int_simps]: "bigval (rb_int2big n) = sint n"
proof (cases "sint n < 0")
  case True
  then show ?thesis
    using uint_negated [OF True] by (simp add: rb_int2big_def Let_def word_sless_0 bigval_def rb_uint2big_spec)
next
  case False
  then have "uint n = sint n" using sint_range(2) [of n] by (simp add: uint_sint take_bit_int_eq_self_iff)
  then show ?thesis using False by (simp add: rb_int2big_def Let_def word_sless_0 bigval_def rb_uint2big_spec)
qed

lemma length_rb_int2big: "BDIGITS (rb_int2big n) \<noteq> []"
  by (simp add: rb_int2big_def rb_uint2big_def Let_def)

lemma rb_int2big_normal: "\<not> fixable (sint n) \<Longrightarrow> normal (Bignum (rb_int2big n))"
proof -
  assume n: "\<not> fixable (sint n)"
  have "last (BDIGITS (rb_uint2big u)) \<noteq> 0" if "u \<noteq> 0" for u
  proof -
    let ?d = "[BIGLO u, BIGLO (BIGDN u)]"
    have i: "top_index ?d 2 < 2" using top_index_spec(1) [of 2 ?d] by simp
    have "?d ! top_index ?d 2 \<noteq> 0"
    proof
      assume z: "?d ! top_index ?d 2 = 0"
      then have "top_index ?d 2 = 0" using top_index_spec(3) [of 2 ?d] by simp
      then have "bval ?d = 0" using top_index_spec(2) [of 2 ?d] z by simp
      then show False using that bval_digits_of_word [of u] by (simp add: uint_0_iff)
    qed
    moreover have "top_index ?d 2 = 0 \<or> top_index ?d 2 = 1" using i by linarith
    ultimately show ?thesis by (elim disjE) (simp_all add: rb_uint2big_def Let_def)
  qed
  moreover have "n \<noteq> 0" using n by (auto simp: fixable_def)
  moreover have "1 + (- (n + 1)) \<noteq> 0" using \<open>n \<noteq> 0\<close> by simp
  ultimately have "last (BDIGITS (rb_int2big n)) \<noteq> 0" by (simp add: rb_int2big_def Let_def)
  then show ?thesis using n length_rb_int2big [of n] by (simp add: int_simps)
qed

lemma LONG2NUM_spec [int_simps]: "ival (LONG2NUM v) = sint v" "normal (LONG2NUM v)"
  using rb_int2big_normal [of v] ival_LONG2FIX [of v] bigval_rb_int2big [of v]
  by (simp_all add: LONG2NUM_def FIXABLE_iff del: ival.simps(1))

section \<open>Two's complement\<close>

lemma get2comp_spec: "bval (BDIGITS (get2comp x)) = 4294967296 ^ BIGNUM_LEN x - bval (BDIGITS x)"
  "BIGNUM_SIGN (get2comp x) = BIGNUM_SIGN x"
  using bary_2comp_spec [of "BDIGITS x"]
  by (auto simp: get2comp_def big_extend_carry_def Let_def bval_append split: prod.splits if_splits)

lemma twocomp2abs_bang_spec [int_simps]:
  "bigval (twocomp2abs_bang x h) = bval (BDIGITS x) - (if h then 4294967296 ^ BIGNUM_LEN x else 0)"
  using get2comp_spec [of "x\<lparr>BIGNUM_SIGN := False\<rparr>"] by (simp add: twocomp2abs_bang_def Let_def bigval_def)

lemma abs2twocomp_spec:
  assumes "abs2twocomp x = (x', n, h)"
  shows "n \<le> BIGNUM_LEN x'" "h = 0 \<or> h = BDIGMAX"
    "bigval x = bval (take n (BDIGITS x')) - (if h \<noteq> 0 then 4294967296 ^ n else 0)" "n = 0 \<Longrightarrow> bigval x = 0"
proof -
  let ?ds = "BDIGITS x"
  define k where "k = BARY_TRUNC ?ds (length ?ds)"
  note trunc = BARY_TRUNC_spec [of "length ?ds" ?ds, folded k_def, simplified]
  note code = assms [unfolded abs2twocomp_def Let_def, folded k_def]
  have n: "n = k" using code by (simp split: if_splits)
  have comp: "length (fst (bary_2comp (take k ?ds))) = k"
    "bval ?ds \<noteq> 0 \<Longrightarrow> bval (fst (bary_2comp (take k ?ds))) = 4294967296 ^ k - bval ?ds"
    using bary_2comp_spec [of "take k ?ds"] trunc(1,2) by (simp_all add: min_def)
  have pos: "bval ?ds \<noteq> 0" if "k \<noteq> 0"
  proof -
    have "(0 :: int) < 4294967296 ^ (k - 1)" by simp
    moreover have "4294967296 ^ (k - 1) \<le> bval (take k ?ds)" using that trunc by (intro bval_take_ge) simp_all
    ultimately show ?thesis using trunc(2) by linarith
  qed
  have zero: "bval ?ds = 0" if "k = 0" using trunc(2) that by simp
  show "n \<le> BIGNUM_LEN x'" "h = 0 \<or> h = BDIGMAX"
    using code trunc(1) comp(1) by (auto split: if_splits)
  have B: "BDIGMAX \<noteq> 0" by (simp add: BDIGMAX_def)
  show "bigval x = bval (take n (BDIGITS x')) - (if h \<noteq> 0 then 4294967296 ^ n else 0)"
    using code trunc(2) comp pos zero B by (auto simp: bigval_def split: if_splits)
  show "n = 0 \<Longrightarrow> bigval x = 0" using zero n by (simp add: bigval_def)
qed

lemma BIGZEROP_iff [int_simps]: "BIGZEROP x \<longleftrightarrow> bigval x = 0"
proof (cases "BDIGITS x")
  case Nil
  then show ?thesis by (simp add: BIGZEROP_def bigval_def)
next
  case (Cons d ds)
  have "bigzero_p x \<longleftrightarrow> bval (BDIGITS x) = 0"
    using bary_zero_p_iff [of "BIGNUM_LEN x" "BDIGITS x"] by (simp add: bigzero_p_def)
  moreover have "BIGZEROP x \<longleftrightarrow> d = 0 \<and> (ds = [] \<or> bigzero_p x)" using Cons by (simp add: BIGZEROP_def)
  moreover have "bval (BDIGITS x) = 0 \<longleftrightarrow> d = 0 \<and> bval ds = 0" unfolding Cons by (rule bval_Cons_eq_0)
  ultimately show ?thesis unfolding bigval_eq_0 by (cases "ds = []") auto
qed

end
