(* ===== verification/Big_Arith.thy ===== *)
theory Big_Arith
  imports Big
begin

text \<open>Addition, subtraction and multiplication of bignums (bignum.c), and what they compute.\<close>

section \<open>Subtraction and addition of magnitudes\<close>

definition bigsub :: "RBignum \<Rightarrow> RBignum \<Rightarrow> RBignum" where
  "bigsub x y =
    (let xn = BIGNUM_LEN x; yn = BIGNUM_LEN y; zn = (if xn < yn then yn else xn);
         (zds, borrow) = bary_sub zn (BDIGITS x) (BDIGITS y)
     in if borrow then bignew (fst (bary_2comp zds)) False else bignew zds True)"

text \<open>
  The digits of \<open>x\<close> with a \<open>long\<close> subtracted: up to the end of \<open>x\<close> or until nothing of \<open>y\<close> is left
  (from \<open>y_is_zero_x\<close> on the loop is that of \<open>bary_sub\<close>), and the digits beyond the end of \<open>x\<close>.
\<close>

fun subint_x :: "BDIGIT list \<Rightarrow> BDIGIT_DBL_SIGNED \<Rightarrow> long \<Rightarrow> BDIGIT list \<times> BDIGIT_DBL_SIGNED \<times> long" where
  "subint_x [] num y = ([], num, y)"
| "subint_x (x # xds) num y =
    (if y = 0 then (let (zds, num) = subb_x (x # xds) num in (zds, num, y))
     else let num = num + (ucast x - ucast (BIGLO y)); (zds, num', y) = subint_x xds (BIGDN_S num) (BIGDN_S y)
          in (BIGLO num # zds, num', y))"

fun subint_borrow :: "nat \<Rightarrow> BDIGIT_DBL_SIGNED \<Rightarrow> BDIGIT list \<times> BDIGIT_DBL_SIGNED" where
  "subint_borrow 0 num = ([], num)"
| "subint_borrow (Suc n) num =
    (if num = 0 then (replicate (Suc n) 0, num)
     else let (zds, num') = subint_borrow n (BIGDN_S num) in (BIGLO num # zds, num'))"

fun subint_z :: "nat \<Rightarrow> BDIGIT_DBL_SIGNED \<Rightarrow> long \<Rightarrow> BDIGIT list \<times> BDIGIT_DBL_SIGNED" where
  "subint_z 0 num y = ([], num)"
| "subint_z (Suc n) num y =
    (if y = 0 then subint_borrow (Suc n) num
     else let num = num - ucast (BIGLO y); (zds, num') = subint_z n (BIGDN_S num) (BIGDN_S y) in (BIGLO num # zds, num'))"

definition bigsub_int :: "RBignum \<Rightarrow> long \<Rightarrow> rb_integer" where
  "bigsub_int x y =
    (let xn = BIGNUM_LEN x
     in if xn = 0 then LONG2NUM (- y)
        else let zn = (if xn < 2 then 2 else xn); (low, num, y) = subint_x (BDIGITS x) 0 y;
                 (high, num) = subint_z (zn - xn) num y; z = bignew (low @ high) (BIGNUM_SIGN x);
                 z = (if num <s 0 then (let z = get2comp z in z\<lparr>BIGNUM_SIGN := \<not> BIGNUM_SIGN z\<rparr>) else z)
             in bignorm (Bignum z))"

fun addint_x :: "BDIGIT list \<Rightarrow> BDIGIT_DBL \<Rightarrow> long \<Rightarrow> BDIGIT list \<times> BDIGIT_DBL \<times> long" where
  "addint_x [] num y = ([], num, y)"
| "addint_x (x # xds) num y =
    (if y = 0 then (let (zds, num) = addc_rest (x # xds) num in (zds, num, y))
     else let num = num + (ucast x + ucast (BIGLO y)); (zds, num', y) = addint_x xds (BIGDN num) (BIGDN_S y)
          in (BIGLO num # zds, num', y))"

fun addint_z :: "nat \<Rightarrow> BDIGIT_DBL \<Rightarrow> long \<Rightarrow> BDIGIT list \<times> BDIGIT_DBL" where
  "addint_z 0 num y = ([], num)"
| "addint_z (Suc n) num y =
    (if y = 0 then addc_pad (Suc n) num
     else let num = num + ucast (BIGLO y); (zds, num') = addint_z n (BIGDN num) (BIGDN_S y) in (BIGLO num # zds, num'))"

definition bigadd_int :: "RBignum \<Rightarrow> long \<Rightarrow> rb_integer" where
  "bigadd_int x y =
    (let xn = BIGNUM_LEN x
     in if xn = 0 then LONG2NUM y
        else let zn = (if xn < 2 then 2 else xn) + 1; (low, num, y) = addint_x (BDIGITS x) 0 y;
                 (high, num) = addint_z (zn - xn) num y
             in bignorm (Bignum (bignew (low @ high) (BIGNUM_SIGN x))))"

definition bigadd :: "RBignum \<Rightarrow> RBignum \<Rightarrow> bool \<Rightarrow> RBignum" where
  "bigadd x y sign =
    (let sign = (sign = BIGNUM_SIGN y)
     in if BIGNUM_SIGN x \<noteq> sign then (if sign then bigsub y x else bigsub x y)
        else let len = (if BIGNUM_LEN x > BIGNUM_LEN y then BIGNUM_LEN x + 1 else BIGNUM_LEN y + 1)
             in bignew (fst (bary_add len (BDIGITS x) (BDIGITS y))) sign)"

fun rb_big_plus :: "RBignum \<Rightarrow> rb_integer \<Rightarrow> rb_integer" where
  "rb_big_plus x (Fixnum y) =
    (let n = FIX2LONG y
     in if (0 <s n) \<noteq> BIGNUM_SIGN x then bigsub_int x (if n <s 0 then - n else n)
        else bigadd_int x (if n <s 0 then - n else n))"
| "rb_big_plus x (Bignum y) = bignorm (Bignum (bigadd x y True))"

fun rb_big_minus :: "RBignum \<Rightarrow> rb_integer \<Rightarrow> rb_integer" where
  "rb_big_minus x (Fixnum y) =
    (let n = FIX2LONG y
     in if (0 <s n) \<noteq> BIGNUM_SIGN x then bigadd_int x (if n <s 0 then - n else n)
        else bigsub_int x (if n <s 0 then - n else n))"
| "rb_big_minus x (Bignum y) = bignorm (Bignum (bigadd x y False))"

section \<open>Multiplication\<close>

text \<open>\<open>same\<close> says that both operands are the same object.  A product may end in \<open>rb_bug\<close>.\<close>

definition bigsq :: "RBignum \<Rightarrow> mul_failure + RBignum" where
  "bigsq x =
    (let xds = BDIGITS x; xn = BIGNUM_LEN x; zn = 2 * xn
     in mul_then (if xn < NAIVE_MUL_DIGITS then Inr (bary_sq_fast zn xds) else bary_mul True (replicate zn 0) xds xds)
          (\<lambda>zds. Inr (bignew zds True)))"

definition bigmul0 :: "bool \<Rightarrow> RBignum \<Rightarrow> RBignum \<Rightarrow> mul_failure + RBignum" where
  "bigmul0 same x y =
    (if same then bigsq x
     else mul_then (bary_mul False (replicate (BIGNUM_LEN x + BIGNUM_LEN y) 0) (BDIGITS x) (BDIGITS y))
            (\<lambda>zds. Inr (bignew zds (BIGNUM_SIGN x = BIGNUM_SIGN y))))"

fun rb_big_mul :: "bool \<Rightarrow> RBignum \<Rightarrow> rb_integer \<Rightarrow> mul_failure + rb_integer" where
  "rb_big_mul same x (Fixnum y) = mul_then (bigmul0 False x (rb_int2big (FIX2LONG y))) (\<lambda>z. Inr (bignorm (Bignum z)))"
| "rb_big_mul same x (Bignum y) = mul_then (bigmul0 same x y) (\<lambda>z. Inr (bignorm (Bignum z)))"

section \<open>Magnitudes\<close>

lemma bigval_bigsub [int_simps]: "bigval (bigsub x y) = bval (BDIGITS x) - bval (BDIGITS y)"
proof -
  define zn where "zn = (if BIGNUM_LEN x < BIGNUM_LEN y then BIGNUM_LEN y else BIGNUM_LEN x)"
  obtain zds b where sub: "bary_sub zn (BDIGITS x) (BDIGITS y) = (zds, b)" by fastforce
  have "length zds = zn" "bval zds - of_bool b * 4294967296 ^ zn = bval (BDIGITS x) - bval (BDIGITS y)"
    using bary_subb_spec [of "BDIGITS x" zn "BDIGITS y" False zds b] sub by (simp_all add: bary_sub_def zn_def)
  moreover have "bval zds < 4294967296 ^ zn" using bval_less [of zds] calculation(1) by simp
  moreover have "bval (fst (bary_2comp zds)) = (if bval zds = 0 then 0 else 4294967296 ^ length zds - bval zds)"
    using bary_2comp_spec by blast
  moreover have "bval (BDIGITS y) < 4294967296 ^ zn"
  proof -
    have "(4294967296 :: int) ^ BIGNUM_LEN y \<le> 4294967296 ^ zn" by (intro power_increasing) (simp_all add: zn_def)
    then show ?thesis using bval_less [of "BDIGITS y"] by linarith
  qed
  moreover have "bval zds \<noteq> 0" if b
  proof -
    have "bval zds - 4294967296 ^ zn = bval (BDIGITS x) - bval (BDIGITS y)" using calculation(2) that by simp
    then show ?thesis using calculation(5) bval_nonneg [of "BDIGITS x"] by linarith
  qed
  ultimately show ?thesis by (cases b) (simp_all add: bigsub_def Let_def zn_def [symmetric] sub)
qed

lemma long_parts: "sint (BIGDN_S y) = sint y div 4294967296" "uint (BIGLO y) = sint y mod 4294967296"
  by (rule sint_BIGDN_S) (rule uint_BIGLO_sint)

lemma div_div_pow: "0 \<le> (y :: int) \<Longrightarrow> y div 4294967296 div 4294967296 ^ n = y div 4294967296 ^ Suc n"
  by (simp add: zdiv_zmult2_eq)

text \<open>A digit is split off the sum \<open>n\<close>; the rest of the digits carries on with \<open>d\<close>.\<close>

lemma digit_step_add:
  assumes "l + 4294967296 * d = n" "n = c + x + m" "(y :: int) = m + 4294967296 * q" "z + r = t + d + q"
  shows "l + 4294967296 * z + 4294967296 * r = x + 4294967296 * t + c + y"
proof -
  have "4294967296 * (z + r) = 4294967296 * (t + d + q)" using assms(4) by simp
  then have "4294967296 * z + 4294967296 * r = 4294967296 * t + 4294967296 * d + 4294967296 * q" by (simp only: distrib_left)
  then show ?thesis using assms(1-3) by linarith
qed

lemma digit_step_sub:
  assumes "l + 4294967296 * d = n" "n = c + x - m" "(y :: int) = m + 4294967296 * q" "z + r = t + d - q"
  shows "l + 4294967296 * z + 4294967296 * r = x + 4294967296 * t + c - y"
proof -
  have "4294967296 * (z + r) = 4294967296 * (t + d - q)" using assms(4) by simp
  then have "4294967296 * z + 4294967296 * r = 4294967296 * t + 4294967296 * d - 4294967296 * q"
    by (simp only: distrib_left right_diff_distrib)
  then show ?thesis using assms(1-3) by linarith
qed

lemma subint_x_spec:
  assumes "- 1 \<le> sint num \<and> sint num \<le> 0" "0 \<le> sint y" "subint_x xds num y = (zds, num', y')"
  shows "length zds = length xds \<and> - 1 \<le> sint num' \<and> sint num' \<le> 0 \<and> sint y' = sint y div 4294967296 ^ length xds \<and>
    bval zds + 4294967296 ^ length xds * (sint num' - sint y') = bval xds + sint num - sint y"
  using assms
proof (induction xds arbitrary: num y zds num' y')
  case (Cons x xds)
  show ?case
  proof (cases "y = 0")
    case True
    obtain zs n where sub: "subb_x (x # xds) num = (zs, n)" by fastforce
    then have "zds = zs" "num' = n" "y' = 0" using Cons.prems(3) True by (simp_all del: subb_x.simps)
    then show ?thesis using subb_x_spec [OF Cons.prems(1) sub] True by simp
  next
    case False
    define n where "n = num + (ucast x - ucast (BIGLO y))"
    obtain zs where rec: "subint_x xds (BIGDN_S n) (BIGDN_S y) = (zs, num', y')" "zds = BIGLO n # zs"
      using Cons.prems(3) False by (auto simp: n_def Let_def split: prod.splits)
    have n: "sint n = sint num + uint x - sint y mod 4294967296"
      using sint_sub_digits(1) [of num x "BIGLO y"] Cons.prems(1) by (simp add: n_def long_parts)
    have "0 \<le> sint y mod 4294967296" "sint y mod 4294967296 < 4294967296" by simp_all
    then have "- 4294967296 \<le> sint n" "sint n < 4294967296"
      using n Cons.prems(1) uint_digit(1,2) [of x] by linarith+
    then have b: "- 1 \<le> sint (BIGDN_S n) \<and> sint (BIGDN_S n) \<le> 0" by (rule sint_dn_borrow)
    have y: "0 \<le> sint (BIGDN_S y)" using Cons.prems(2) by (simp add: long_parts pos_imp_zdiv_nonneg_iff)
    note IH = Cons.IH [OF b y rec(1)]
    note q = div_div_pow [OF Cons.prems(2), of "length xds"]
    have y_parts: "sint y = sint y mod 4294967296 + 4294967296 * (sint y div 4294967296)" by simp
    have "bval zds + 4294967296 ^ Suc (length xds) * (sint num' - sint y') =
        bval (x # xds) + sint num - sint y"
      unfolding rec(2) bval.simps power_Suc [of _ "length xds"] mult.assoc
      by (rule digit_step_sub [OF sint_lo_dn n y_parts]) (insert IH, unfold long_parts q, elim conjE, linarith)
    then show ?thesis using IH rec(2) q by (simp add: long_parts)
  qed
qed simp

lemma subint_borrow_spec:
  assumes "- 1 \<le> sint num \<and> sint num \<le> 0" "subint_borrow n num = (zds, num')"
  shows "length zds = n \<and> - 1 \<le> sint num' \<and> sint num' \<le> 0 \<and> bval zds + 4294967296 ^ n * sint num' = sint num"
  using assms
proof (induction n arbitrary: num zds num')
  case (Suc n)
  show ?case
  proof (cases "num = 0")
    case True
    then show ?thesis using Suc.prems by auto
  next
    case False
    then obtain zs where rec: "subint_borrow n (BIGDN_S num) = (zs, num')" "zds = BIGLO num # zs"
      using Suc.prems(2) by (auto simp: Let_def split: prod.splits)
    have "- 1 \<le> sint (BIGDN_S num) \<and> sint (BIGDN_S num) \<le> 0" using Suc.prems(1) by (intro sint_dn_borrow) simp_all
    from Suc.IH [OF this rec(1)] show ?thesis
      using rec(2) sint_lo_dn [of num] by (simp add: algebra_simps)
  qed
qed simp

lemma subint_z_spec:
  assumes "- 1 \<le> sint num \<and> sint num \<le> 0" "0 \<le> sint y" "subint_z n num y = (zds, num')"
  shows "length zds = n \<and> - 1 \<le> sint num' \<and> sint num' \<le> 0 \<and>
    bval zds + 4294967296 ^ n * (sint num' - sint y div 4294967296 ^ n) = sint num - sint y"
  using assms
proof (induction n arbitrary: num y zds num')
  case (Suc n)
  show ?case
  proof (cases "y = 0")
    case True
    then have "subint_borrow (Suc n) num = (zds, num')" using Suc.prems(3) by (simp del: subint_borrow.simps)
    from subint_borrow_spec [OF Suc.prems(1) this] show ?thesis using True by simp
  next
    case False
    define m where "m = num - ucast (BIGLO y)"
    obtain zs where rec: "subint_z n (BIGDN_S m) (BIGDN_S y) = (zs, num')" "zds = BIGLO m # zs"
      using Suc.prems(3) False by (auto simp: m_def Let_def split: prod.splits)
    have m: "sint m = sint num - sint y mod 4294967296"
      using sint_sub_digits(3) [of num "BIGLO y"] Suc.prems(1) by (simp add: m_def long_parts)
    have "0 \<le> sint y mod 4294967296" "sint y mod 4294967296 < 4294967296" by simp_all
    then have "- 4294967296 \<le> sint m" "sint m < 4294967296" using m Suc.prems(1) by linarith+
    then have b: "- 1 \<le> sint (BIGDN_S m) \<and> sint (BIGDN_S m) \<le> 0" by (rule sint_dn_borrow)
    have y: "0 \<le> sint (BIGDN_S y)" using Suc.prems(2) by (simp add: long_parts pos_imp_zdiv_nonneg_iff)
    note IH = Suc.IH [OF b y rec(1)]
    note q = div_div_pow [OF Suc.prems(2), of n]
    have y_parts: "sint y = sint y mod 4294967296 + 4294967296 * (sint y div 4294967296)" by simp
    have "bval zds + 4294967296 ^ Suc (n) * (sint num' - sint y div 4294967296 ^ Suc n) =
        sint num - sint y"
      unfolding rec(2) bval.simps power_Suc [of _ "n"] mult.assoc
      using digit_step_sub [where x = 0 and t = 0, OF sint_lo_dn _ y_parts] IH m unfolding long_parts q by simp
    then show ?thesis using IH rec(2) q by (simp add: long_parts)
  qed
qed simp

lemma long_div_high: "0 \<le> sint (y :: long) \<Longrightarrow> 2 \<le> n \<Longrightarrow> sint y div 4294967296 ^ n = 0"
proof -
  assume "0 \<le> sint y" "2 \<le> n"
  moreover from this have "(4294967296 :: int) ^ 2 \<le> 4294967296 ^ n" by (intro power_increasing) simp_all
  ultimately show ?thesis using sint_range(2) [of y] by (intro div_pos_pos_trivial) simp_all
qed

lemma bigsub_int_spec:
  assumes y: "0 \<le> sint y" and nonempty: "BDIGITS x \<noteq> []"
  shows "ival (bigsub_int x y) = (if BIGNUM_SIGN x then bigval x - sint y else bigval x + sint y)" "normal (bigsub_int x y)"
proof -
  let ?xn = "BIGNUM_LEN x" and ?B = "4294967296 :: int"
  define zn where "zn = (if ?xn < 2 then 2 else ?xn)"
  have zn: "2 \<le> zn" "?xn \<le> zn" by (simp_all add: zn_def)
  obtain low num1 y1 where low: "subint_x (BDIGITS x) 0 y = (low, num1, y1)" by (metis prod_cases3)
  obtain high num where high: "subint_z (zn - ?xn) num1 y1 = (high, num)" by fastforce
  have L: "length low = ?xn" "- 1 \<le> sint num1 \<and> sint num1 \<le> 0" "sint y1 = sint y div ?B ^ ?xn"
    "bval low + ?B ^ ?xn * (sint num1 - sint y1) = bval (BDIGITS x) - sint y"
    using subint_x_spec [OF _ y low] by auto
  have y1: "0 \<le> sint y1" using y by (simp add: L(3) pos_imp_zdiv_nonneg_iff)
  have "sint y1 div ?B ^ (zn - ?xn) = sint y div (?B ^ ?xn * ?B ^ (zn - ?xn))"
    unfolding L(3) using y by (intro zdiv_zmult2_eq [symmetric]) simp
  also have "?B ^ ?xn * ?B ^ (zn - ?xn) = ?B ^ zn" using zn(2) by (simp flip: power_add)
  also have "sint y div ?B ^ zn = 0" using y zn(1) by (rule long_div_high)
  finally have H: "length high = zn - ?xn" "- 1 \<le> sint num" "sint num \<le> 0" "bval high + ?B ^ (zn - ?xn) * sint num = sint num1 - sint y1"
    using subint_z_spec [OF L(2) y1 high] by auto
  have "?B ^ ?xn * (?B ^ (zn - ?xn) * sint num) = ?B ^ zn * sint num"
    unfolding mult.assoc [symmetric] power_add [symmetric] using zn(2) by simp
  then have "?B ^ ?xn * (sint num1 - sint y1) = ?B ^ ?xn * bval high + ?B ^ zn * sint num"
    unfolding H(4) [symmetric] distrib_left by simp
  then have V: "bval (low @ high) + ?B ^ zn * sint num = bval (BDIGITS x) - sint y"
    using L(4) unfolding bval_append L(1) by linarith
  define z where "z = bignew (low @ high) (BIGNUM_SIGN x)"
  define z' where "z' = (if num <s 0 then (let z = get2comp z in z\<lparr>BIGNUM_SIGN := \<not> BIGNUM_SIGN z\<rparr>) else z)"
  have code: "bigsub_int x y = bignorm (Bignum z')"
    unfolding bigsub_int_def Let_def low prod.case zn_def [symmetric] high z_def [symmetric]
    using nonempty by (simp add: z'_def Let_def)
  have len: "length (low @ high) = zn" using L(1) H(1) zn(2) by simp
  have "bigval z' = (if BIGNUM_SIGN x then bval (BDIGITS x) - sint y else - (bval (BDIGITS x) - sint y))"
  proof (cases "sint num < 0")
    case True
    then have "sint num = - 1" using H(2) by linarith
    then have "bval (low @ high) - ?B ^ zn = bval (BDIGITS x) - sint y" using V by simp
    moreover have "bval (BDIGITS (get2comp z)) = ?B ^ zn - bval (low @ high)" "BIGNUM_SIGN (get2comp z) = BIGNUM_SIGN x"
      using get2comp_spec [of z] len by (simp_all only: z_def bigval_bignew)
    moreover have "z' = (get2comp z)\<lparr>BIGNUM_SIGN := \<not> BIGNUM_SIGN (get2comp z)\<rparr>"
      using True by (simp add: z'_def word_sless_0 Let_def)
    ultimately show ?thesis by (simp add: bigval_def)
  next
    case False
    then have "sint num = 0" using H(3) by linarith
    then show ?thesis using False V by (simp add: z'_def word_sless_0 z_def)
  qed
  then show "ival (bigsub_int x y) = (if BIGNUM_SIGN x then bigval x - sint y else bigval x + sint y)" "normal (bigsub_int x y)"
    by (simp_all add: code int_simps bigval_def)
qed

lemma addint_x_spec:
  assumes "uint num \<le> 1" "0 \<le> sint y" "addint_x xds num y = (zds, num', y')"
  shows "length zds = length xds \<and> uint num' \<le> 1 \<and> sint y' = sint y div 4294967296 ^ length xds \<and>
    bval zds + 4294967296 ^ length xds * (uint num' + sint y') = bval xds + uint num + sint y"
  using assms
proof (induction xds arbitrary: num y zds num' y')
  case (Cons x xds)
  show ?case
  proof (cases "y = 0")
    case True
    obtain zs n where add: "addc_rest (x # xds) num = (zs, n)" by fastforce
    then have "zds = zs" "num' = n" "y' = 0" using Cons.prems(3) True by (simp_all del: addc_rest.simps)
    then show ?thesis using addc_rest_spec [OF Cons.prems(1) add] True by simp
  next
    case False
    define n where "n = num + (ucast x + ucast (BIGLO y))"
    obtain zs where rec: "addint_x xds (BIGDN n) (BIGDN_S y) = (zs, num', y')" "zds = BIGLO n # zs"
      using Cons.prems(3) False by (auto simp: n_def Let_def split: prod.splits)
    have n: "uint n = uint num + uint x + sint y mod 4294967296"
      using uint_add_digits [OF Cons.prems(1), of x "BIGLO y"] by (simp add: n_def long_parts)
    have "sint y mod 4294967296 < 4294967296" by simp
    then have "uint n < 2 * 4294967296" using n Cons.prems(1) uint_digit(2) [of x] by linarith
    then have b: "uint (BIGDN n) \<le> 1" using int_div_less [of 4294967296 "uint n" 2] by (simp add: uint_BIGDN)
    have y: "0 \<le> sint (BIGDN_S y)" using Cons.prems(2) by (simp add: long_parts pos_imp_zdiv_nonneg_iff)
    note IH = Cons.IH [OF b y rec(1)]
    note q = div_div_pow [OF Cons.prems(2), of "length xds"]
    have y_parts: "sint y = sint y mod 4294967296 + 4294967296 * (sint y div 4294967296)" by simp
    have "bval zds + 4294967296 ^ Suc (length xds) * (uint num' + sint y') =
        bval (x # xds) + uint num + sint y"
      unfolding rec(2) bval.simps power_Suc [of _ "length xds"] mult.assoc
      by (rule digit_step_add [OF uint_lo_dn n y_parts]) (insert IH, unfold long_parts q, elim conjE, linarith)
    then show ?thesis using IH rec(2) q by (simp add: long_parts)
  qed
qed simp

lemma addint_z_spec:
  assumes "uint num \<le> 1" "0 \<le> sint y" "addint_z n num y = (zds, num')"
  shows "length zds = n \<and> uint num' \<le> 1 \<and>
    bval zds + 4294967296 ^ n * (uint num' + sint y div 4294967296 ^ n) = uint num + sint y"
  using assms
proof (induction n arbitrary: num y zds num')
  case (Suc n)
  show ?case
  proof (cases "y = 0")
    case True
    then have "addc_pad (Suc n) num = (zds, num')" using Suc.prems(3) by (simp del: addc_pad.simps)
    from addc_pad_spec [OF Suc.prems(1) this] show ?thesis using True by simp
  next
    case False
    define m where "m = num + ucast (BIGLO y)"
    obtain zs where rec: "addint_z n (BIGDN m) (BIGDN_S y) = (zs, num')" "zds = BIGLO m # zs"
      using Suc.prems(3) False by (auto simp: m_def Let_def split: prod.splits)
    have m: "uint m = uint num + sint y mod 4294967296"
      using uint_add_digit [OF Suc.prems(1), of "BIGLO y"] by (simp add: m_def long_parts)
    have "sint y mod 4294967296 < 4294967296" by simp
    then have "uint m < 2 * 4294967296" using m Suc.prems(1) by linarith
    then have b: "uint (BIGDN m) \<le> 1" using int_div_less [of 4294967296 "uint m" 2] by (simp add: uint_BIGDN)
    have y: "0 \<le> sint (BIGDN_S y)" using Suc.prems(2) by (simp add: long_parts pos_imp_zdiv_nonneg_iff)
    note IH = Suc.IH [OF b y rec(1)]
    note q = div_div_pow [OF Suc.prems(2), of n]
    have y_parts: "sint y = sint y mod 4294967296 + 4294967296 * (sint y div 4294967296)" by simp
    have "bval zds + 4294967296 ^ Suc (n) * (uint num' + sint y div 4294967296 ^ Suc n) =
        uint num + sint y"
      unfolding rec(2) bval.simps power_Suc [of _ "n"] mult.assoc
      using digit_step_add [where x = 0 and t = 0, OF uint_lo_dn _ y_parts] IH m unfolding long_parts q by simp
    then show ?thesis using IH rec(2) q by (simp add: long_parts)
  qed
qed simp

lemma bigadd_int_spec:
  assumes y: "0 \<le> sint y" and nonempty: "BDIGITS x \<noteq> []"
  shows "ival (bigadd_int x y) = (if BIGNUM_SIGN x then bigval x + sint y else bigval x - sint y)" "normal (bigadd_int x y)"
proof -
  let ?xn = "BIGNUM_LEN x" and ?B = "4294967296 :: int"
  define zn where "zn = (if ?xn < 2 then 2 else ?xn) + 1"
  have zn: "2 \<le> zn" "?xn \<le> zn" "2 \<le> zn - 1" "?xn \<le> zn - 1" by (simp_all add: zn_def)
  obtain low num1 y1 where low: "addint_x (BDIGITS x) 0 y = (low, num1, y1)" by (metis prod_cases3)
  obtain high num where high: "addint_z (zn - ?xn) num1 y1 = (high, num)" by fastforce
  have L: "length low = ?xn" "uint num1 \<le> 1" "sint y1 = sint y div ?B ^ ?xn"
    "bval low + ?B ^ ?xn * (uint num1 + sint y1) = bval (BDIGITS x) + sint y"
    using addint_x_spec [OF _ y low] by auto
  have y1: "0 \<le> sint y1" using y by (simp add: L(3) pos_imp_zdiv_nonneg_iff)
  have "sint y1 div ?B ^ (zn - ?xn) = sint y div (?B ^ ?xn * ?B ^ (zn - ?xn))"
    unfolding L(3) using y by (intro zdiv_zmult2_eq [symmetric]) simp
  also have "?B ^ ?xn * ?B ^ (zn - ?xn) = ?B ^ zn" using zn(2) by (simp flip: power_add)
  also have "sint y div ?B ^ zn = 0" using y zn(1) by (rule long_div_high)
  finally have H: "length high = zn - ?xn" "bval high + ?B ^ (zn - ?xn) * uint num = uint num1 + sint y1"
    using addint_z_spec [OF L(2) y1 high] by auto
  have "?B ^ ?xn * (?B ^ (zn - ?xn) * uint num) = ?B ^ zn * uint num"
    unfolding mult.assoc [symmetric] power_add [symmetric] using zn(2) by simp
  then have "?B ^ ?xn * (uint num1 + sint y1) = ?B ^ ?xn * bval high + ?B ^ zn * uint num"
    unfolding H(2) [symmetric] distrib_left by simp
  then have V: "bval (low @ high) + ?B ^ zn * uint num = bval (BDIGITS x) + sint y"
    using L(4) unfolding bval_append L(1) by linarith
  have "uint num = 0"
  proof (rule ccontr)
    assume "uint num \<noteq> 0"
    then have "1 \<le> uint num" using uint_ge_0 [of num] by linarith
    then have "?B ^ zn * 1 \<le> ?B ^ zn * uint num" by (intro mult_left_mono) simp_all
    moreover have "?B ^ ?xn \<le> ?B ^ (zn - 1)" using zn(4) by (intro power_increasing) simp_all
    moreover have "18446744073709551616 \<le> ?B ^ (zn - 1)" using power_increasing [OF zn(3), of ?B] by simp
    moreover have "?B ^ zn = ?B * ?B ^ (zn - 1)" using zn(1) by (subst power_Suc [symmetric]) simp
    moreover have "0 \<le> bval (low @ high)" by (rule bval_nonneg)
    ultimately show False using V bval_less [of "BDIGITS x"] sint_range(2) [of y] by linarith
  qed
  then have "bval (low @ high) = bval (BDIGITS x) + sint y" using V by simp
  moreover have "bigadd_int x y = bignorm (Bignum (bignew (low @ high) (BIGNUM_SIGN x)))"
    unfolding bigadd_int_def Let_def low prod.case zn_def [symmetric] high using nonempty by simp
  ultimately show "ival (bigadd_int x y) = (if BIGNUM_SIGN x then bigval x + sint y else bigval x - sint y)" "normal (bigadd_int x y)"
    by (simp_all add: int_simps bigval_def)
qed

lemma bigval_bigadd [int_simps]: "bigval (bigadd x y s) = (if s then bigval x + bigval y else bigval x - bigval y)"
proof -
  define len where "len = (if BIGNUM_LEN x > BIGNUM_LEN y then BIGNUM_LEN x + 1 else BIGNUM_LEN y + 1)"
  obtain zds c where add: "bary_add len (BDIGITS x) (BDIGITS y) = (zds, c)" by fastforce
  have "bval zds + of_bool c * 4294967296 ^ len = bval (BDIGITS x) + bval (BDIGITS y)" "length zds = len"
    using bary_addc_spec [of "BDIGITS x" len "BDIGITS y" False zds c] add by (simp_all add: bary_add_def len_def)
  moreover have "bval (BDIGITS x) < 4294967296 ^ (len - 1)" "bval (BDIGITS y) < 4294967296 ^ (len - 1)"
  proof -
    have "(4294967296 :: int) ^ BIGNUM_LEN x \<le> 4294967296 ^ (len - 1)" "(4294967296 :: int) ^ BIGNUM_LEN y \<le> 4294967296 ^ (len - 1)"
      by (simp_all add: power_increasing len_def)
    then show "bval (BDIGITS x) < 4294967296 ^ (len - 1)" "bval (BDIGITS y) < 4294967296 ^ (len - 1)"
      using bval_less [of "BDIGITS x"] bval_less [of "BDIGITS y"] by linarith+
  qed
  moreover have "(4294967296 :: int) ^ len = 4294967296 * 4294967296 ^ (len - 1)"
    by (subst power_Suc [symmetric]) (simp add: len_def)
  moreover have "0 \<le> bval zds" by (rule bval_nonneg)
  moreover have "(0 :: int) < 4294967296 ^ (len - 1)" by simp
  ultimately have "bval (BDIGITS x) + bval (BDIGITS y) < bval zds + 4294967296 ^ len" by linarith
  then have "\<not> c" using \<open>bval zds + of_bool c * 4294967296 ^ len = _\<close> by (cases c) simp_all
  then have "bval zds = bval (BDIGITS x) + bval (BDIGITS y)" using \<open>bval zds + of_bool c * 4294967296 ^ len = _\<close> by simp
  then show ?thesis
    by (auto simp: bigadd_def Let_def len_def [symmetric] add int_simps) (auto simp: bigval_def)
qed

section \<open>Sum, difference and product\<close>

lemma sint_minus: "fixable (sint (n :: long)) \<Longrightarrow> sint (- n) = - sint n"
  using sint_sub_eq [of 0 0 n "sint n"] by (simp add: fixable_def)

lemma fixable_FIX2LONG: "fixable (sint (FIX2LONG v))"
  using fixable_Fixnum [of v] by (simp add: sint_FIX2LONG)

lemma rb_big_plus_spec:
  assumes "BDIGITS x \<noteq> []"
  shows "ival (rb_big_plus x y) = bigval x + ival y \<and> normal (rb_big_plus x y)"
    "ival (rb_big_minus x y) = bigval x - ival y \<and> normal (rb_big_minus x y)"
proof -
  have "(ival (rb_big_plus x y) = bigval x + ival y \<and> normal (rb_big_plus x y)) \<and>
    (ival (rb_big_minus x y) = bigval x - ival y \<and> normal (rb_big_minus x y))"
  proof (cases y)
    case (Bignum z)
    then show ?thesis by (simp add: int_simps)
  next
    case (Fixnum v)
    define n m where "n = FIX2LONG v" and "m = (if n <s 0 then - n else n)"
    have "sint m = \<bar>sint n\<bar>" using sint_minus [of n] fixable_FIX2LONG [of v] by (simp add: m_def n_def word_sless_0)
    moreover from this have "0 \<le> sint m" by simp
    note bigsub_int_spec [OF this assms] bigadd_int_spec [OF this assms]
    moreover have "ival y = sint n" by (simp add: Fixnum n_def sint_FIX2LONG)
    moreover have "0 <s n \<longleftrightarrow> 0 < sint n" by (simp add: word_sless_alt)
    moreover have "rb_big_plus x y = (if (0 <s n) \<noteq> BIGNUM_SIGN x then bigsub_int x m else bigadd_int x m)"
      "rb_big_minus x y = (if (0 <s n) \<noteq> BIGNUM_SIGN x then bigadd_int x m else bigsub_int x m)"
      by (simp_all add: Fixnum Let_def flip: n_def m_def)
    ultimately show ?thesis by (cases "0 < sint n"; cases "BIGNUM_SIGN x") simp_all
  qed
  then show "ival (rb_big_plus x y) = bigval x + ival y \<and> normal (rb_big_plus x y)"
    "ival (rb_big_minus x y) = bigval x - ival y \<and> normal (rb_big_minus x y)" by blast+
qed

lemma bary_mul_post:
  assumes "length xds + length yds \<le> length zds" "sq \<Longrightarrow> xds = yds"
  shows "mul_post (\<not> sq \<and> 70 \<le> length xds \<and> 70 \<le> length yds) (bary_mul sq zds xds yds) (\<lambda>z. bval z = bval xds * bval yds)"
  by (rule mul_post_mono [OF bary_mul_spec [where sq = sq, OF assms]]) (simp_all add: NAIVE_MUL_DIGITS_def KARATSUBA_MUL_DIGITS_def)

lemma bigsq_post: "mul_post False (bigsq x) (\<lambda>z. bigval z = bigval x * bigval x)"
proof -
  have "mul_post False
      (if BIGNUM_LEN x < NAIVE_MUL_DIGITS then Inr (bary_sq_fast (2 * BIGNUM_LEN x) (BDIGITS x))
       else bary_mul True (replicate (2 * BIGNUM_LEN x) 0) (BDIGITS x) (BDIGITS x))
      (\<lambda>z. bval z = bval (BDIGITS x) * bval (BDIGITS x))"
    using bary_mul_post [of "BDIGITS x" "BDIGITS x" "replicate (2 * BIGNUM_LEN x) 0" True] bary_sq_fast_spec [of "BDIGITS x"]
    by simp
  then show ?thesis unfolding bigsq_def Let_def by (rule mul_post_then) (simp add: bigval_def)
qed

lemma bigmul0_post:
  assumes "same \<Longrightarrow> x = y"
  shows "mul_post (\<not> same \<and> 70 \<le> BIGNUM_LEN x \<and> 70 \<le> BIGNUM_LEN y) (bigmul0 same x y) (\<lambda>z. bigval z = bigval x * bigval y)"
proof (cases same)
  case True
  then show ?thesis using bigsq_post [of x] assms by (simp add: bigmul0_def)
next
  case False
  have "mul_post (\<not> same \<and> 70 \<le> BIGNUM_LEN x \<and> 70 \<le> BIGNUM_LEN y)
      (bary_mul False (replicate (BIGNUM_LEN x + BIGNUM_LEN y) 0) (BDIGITS x) (BDIGITS y))
      (\<lambda>z. bval z = bval (BDIGITS x) * bval (BDIGITS y))"
    using bary_mul_post [of "BDIGITS x" "BDIGITS y" "replicate (BIGNUM_LEN x + BIGNUM_LEN y) 0" False] False by simp
  then show ?thesis unfolding bigmul0_def if_not_P [OF False]
    by (rule mul_post_then) (simp add: bigval_def)
qed

fun big_digits :: "rb_integer \<Rightarrow> nat" where
  "big_digits (Fixnum v) = 0"
| "big_digits (Bignum x) = BIGNUM_LEN x"

lemma length_int2big_le: "BIGNUM_LEN (rb_int2big n) \<le> 2"
  by (simp add: rb_int2big_def rb_uint2big_def Let_def)

lemma rb_big_mul_post:
  assumes "same \<Longrightarrow> y = Bignum x"
  shows "mul_post (\<not> same \<and> 70 \<le> BIGNUM_LEN x \<and> 70 \<le> big_digits y) (rb_big_mul same x y) (\<lambda>z. ival z = bigval x * ival y \<and> normal z)"
proof (cases y)
  case (Fixnum v)
  let ?y = "rb_int2big (FIX2LONG v)"
  have "\<not> 70 \<le> BIGNUM_LEN ?y" using length_int2big_le [of "FIX2LONG v"] by linarith
  moreover have "mul_post (\<not> False \<and> 70 \<le> BIGNUM_LEN x \<and> 70 \<le> BIGNUM_LEN ?y) (bigmul0 False x ?y) (\<lambda>z. bigval z = bigval x * bigval ?y)"
    by (rule bigmul0_post) simp
  ultimately have "mul_post (\<not> same \<and> 70 \<le> BIGNUM_LEN x \<and> 70 \<le> big_digits y) (bigmul0 False x ?y) (\<lambda>z. bigval z = bigval x * ival y)"
    by (elim mul_post_mono) (simp_all add: Fixnum int_simps)
  then show ?thesis unfolding Fixnum rb_big_mul.simps by (rule mul_post_then) (simp add: int_simps)
next
  case (Bignum z)
  have "mul_post (\<not> same \<and> 70 \<le> BIGNUM_LEN x \<and> 70 \<le> big_digits y) (bigmul0 same x z) (\<lambda>r. bigval r = bigval x * ival y)"
    using bigmul0_post [of same x z] assms Bignum by simp
  then show ?thesis unfolding Bignum rb_big_mul.simps by (rule mul_post_then) (simp add: int_simps)
qed

end
