(* ===== verification/Big_Divmod.thy ===== *)
theory Big_Divmod
  imports Big_Arith
begin

text \<open>
  Division of bignums (bignum.c): the truncating division of the magnitudes with signs, and the floor
  division Ruby has.  \<open>None\<close> would be a loop that does not end.
\<close>

section \<open>Division\<close>

text \<open>\<open>divp\<close> and \<open>modp\<close> say which results are wanted.\<close>

definition bigdivrem :: "bool \<Rightarrow> bool \<Rightarrow> RBignum \<Rightarrow> RBignum \<Rightarrow> (num_error + RBignum option \<times> RBignum option) option" where
  "bigdivrem divp modp x y =
    (let yds = BDIGITS y; yn = BARY_TRUNC yds (BIGNUM_LEN y); xds = BDIGITS x; xn = BARY_TRUNC xds (BIGNUM_LEN x);
         sign = (BIGNUM_SIGN x = BIGNUM_SIGN y);
         give = (\<lambda>q r. Some (Inr (if divp then Some q else None, if modp then Some r else None)))
     in if yn = 0 then Some (Inl ZeroDivisionError)
        else if xn < yn \<or> xn = yn \<and> xds ! (xn - 1) < yds ! (yn - 1) then give (rb_int2big 0) x
        else if yn = 1 then
          (let (zds, dd) = bigdivrem_single (take xn xds) (yds ! 0)
           in give (bignew zds sign) ((rb_uint2big (ucast dd))\<lparr>BIGNUM_SIGN := BIGNUM_SIGN x\<rparr>))
        else if xn = 2 \<and> yn = 2 then
          (let x0 = bary2bdigitdbl (take 2 xds); y0 = bary2bdigitdbl (take 2 yds); q0 = x0 div y0; r0 = x0 mod y0
           in give (bignew [BIGLO q0, BIGLO (BIGDN q0)] sign) (bignew [BIGLO r0, BIGLO (BIGDN r0)] (BIGNUM_SIGN x)))
        else do {
          (q, r) \<leftarrow> bary_divmod_normal (if divp then Some (xn + 1) else None) (if modp then Some yn else None) (take xn xds) (take yn yds);
          Some (Inr (map_option (\<lambda>qds. bigtrunc (bignew qds sign)) q, map_option (\<lambda>rds. bigtrunc (bignew rds (BIGNUM_SIGN x))) r)) })"

definition bigdivmod :: "bool \<Rightarrow> bool \<Rightarrow> RBignum \<Rightarrow> RBignum \<Rightarrow> (num_error + RBignum option \<times> RBignum option) option" where
  "bigdivmod divp modp x y =
    do { result \<leftarrow> bigdivrem divp True x y;
         case result of
           Inl e \<Rightarrow> Some (Inl e)
         | Inr (d, m) \<Rightarrow>
             let m = the m
             in if BIGNUM_SIGN x \<noteq> BIGNUM_SIGN y \<and> \<not> BIGZEROP m
                then Some (Inr (map_option (\<lambda>d. bigadd d (rb_int2big 1) False) d, if modp then Some (bigadd m y True) else None))
                else Some (Inr (d, if modp then Some m else None)) }"

text \<open>An operand that is a fixnum is converted.\<close>

fun to_big :: "rb_integer \<Rightarrow> RBignum" where
  "to_big (Fixnum v) = rb_int2big (FIX2LONG v)"
| "to_big (Bignum y) = y"

definition rb_big_divide :: "RBignum \<Rightarrow> rb_integer \<Rightarrow> (num_error + rb_integer) option" where
  "rb_big_divide x y = map_option (map_sum id (\<lambda>(d, m). bignorm (Bignum (the d)))) (bigdivmod True False x (to_big y))"

definition rb_big_modulo :: "RBignum \<Rightarrow> rb_integer \<Rightarrow> (num_error + rb_integer) option" where
  "rb_big_modulo x y = map_option (map_sum id (\<lambda>(d, m). bignorm (Bignum (the m)))) (bigdivmod False True x (to_big y))"

definition rb_big_remainder :: "RBignum \<Rightarrow> rb_integer \<Rightarrow> (num_error + rb_integer) option" where
  "rb_big_remainder x y = map_option (map_sum id (\<lambda>(d, m). bignorm (Bignum (the m)))) (bigdivrem False True x (to_big y))"

definition rb_big_divmod :: "RBignum \<Rightarrow> rb_integer \<Rightarrow> (num_error + rb_integer \<times> rb_integer) option" where
  "rb_big_divmod x y =
    map_option (map_sum id (\<lambda>(d, m). (bignorm (Bignum (the d)), bignorm (Bignum (the m))))) (bigdivmod True True x (to_big y))"

section \<open>What it computes\<close>

lemma BARY_TRUNC_eq_0: "BARY_TRUNC ds (length ds) = 0 \<longleftrightarrow> bval ds = 0"
proof
  note t = BARY_TRUNC_spec [OF order_refl, of ds]
  show "BARY_TRUNC ds (length ds) = 0 \<Longrightarrow> bval ds = 0" using t(2) by simp
  assume 0: "bval ds = 0"
  show "BARY_TRUNC ds (length ds) = 0"
  proof (rule ccontr)
    assume "BARY_TRUNC ds (length ds) \<noteq> 0"
    then have "4294967296 ^ (BARY_TRUNC ds (length ds) - 1) \<le> bval (take (BARY_TRUNC ds (length ds)) ds)"
      using t by (intro bval_take_ge) simp_all
    moreover have "(0 :: int) < 4294967296 ^ (BARY_TRUNC ds (length ds) - 1)" by simp
    moreover have "bval (take (BARY_TRUNC ds (length ds)) ds) = 0" using t(2) 0 by simp
    ultimately show False by linarith
  qed
qed

lemma bigdivrem_zero: "bigval y = 0 \<Longrightarrow> bigdivrem divp modp x y = Some (Inl ZeroDivisionError)"
  using BARY_TRUNC_eq_0 [of "BDIGITS y"] by (simp add: bigdivrem_def bigval_eq_0 Let_def)

text \<open>A result with the sign \<open>s\<close> and the magnitude \<open>n\<close>, if it is wanted.\<close>

definition gives :: "bool \<Rightarrow> bool \<Rightarrow> int \<Rightarrow> RBignum option \<Rightarrow> bool" where
  "gives p s n z \<longleftrightarrow> (case z of None \<Rightarrow> \<not> p | Some b \<Rightarrow> p \<and> bigval b = (if s then n else - n))"

lemma gives_if: "gives p s n (if p then Some b else None) \<longleftrightarrow> (p \<longrightarrow> bigval b = (if s then n else - n))"
  by (simp add: gives_def)

lemma bigdivrem_spec:
  fixes x y :: RBignum
  assumes Y: "bigval y \<noteq> 0"
  defines "q \<equiv> bval (BDIGITS x) div bval (BDIGITS y)" and "r \<equiv> bval (BDIGITS x) mod bval (BDIGITS y)"
  shows "\<exists>d m. bigdivrem divp modp x y = Some (Inr (d, m)) \<and>
    gives divp (BIGNUM_SIGN x = BIGNUM_SIGN y) q d \<and> gives modp (BIGNUM_SIGN x) r m"
proof -
  let ?xds = "BDIGITS x" and ?yds = "BDIGITS y"
  define yn where "yn = BARY_TRUNC ?yds (BIGNUM_LEN y)"
  define xn where "xn = BARY_TRUNC ?xds (BIGNUM_LEN x)"
  define xs where "xs = take xn ?xds"
  define ys where "ys = take yn ?yds"
  define sign where "sign = (BIGNUM_SIGN x = BIGNUM_SIGN y)"
  define give where "give = (\<lambda>q r. Some (Inr (if divp then Some q else None, if modp then Some r else None)) ::
    (num_error + RBignum option \<times> RBignum option) option)"
  note ty = BARY_TRUNC_spec [OF order_refl, of ?yds, folded yn_def]
  note tx = BARY_TRUNC_spec [OF order_refl, of ?xds, folded xn_def]
  have val: "bval xs = bval ?xds" "bval ys = bval ?yds" "length xs = xn" "length ys = yn"
    using tx(1,2) ty(1,2) by (simp_all add: xs_def ys_def)
  have yn: "0 < yn" using Y BARY_TRUNC_eq_0 [of ?yds] by (auto simp: yn_def bigval_eq_0)
  have topy: "ys ! (yn - 1) = ?yds ! (yn - 1)" "?yds ! (yn - 1) \<noteq> 0" using ty(3) yn by (simp_all add: ys_def)
  note code = bigdivrem_def [of divp modp x y, unfolded Let_def, folded give_def sign_def yn_def xn_def, folded xs_def ys_def]
  have give: ?thesis if "bigdivrem divp modp x y = give a b"
    "bigval a = (if sign then q else - q)" "bigval b = (if BIGNUM_SIGN x then r else - r)" for a b
    using that by (auto simp: give_def gives_if sign_def)
  define small where "small \<longleftrightarrow> xn < yn \<or> xn = yn \<and> ?xds ! (xn - 1) < ?yds ! (yn - 1)"
  consider "small" | "\<not> small" "yn = 1" | "\<not> small" "xn = 2" "yn = 2" | "\<not> small" "yn \<noteq> 1" "\<not> (xn = 2 \<and> yn = 2)"
    by blast
  then show ?thesis
  proof cases
    case 1
    have "bval xs < bval ys"
    proof (rule digits_less)
      show "0 < length ys" "ys ! (length ys - 1) \<noteq> 0" using yn topy val(4) by simp_all
      have "xs ! (xn - 1) = ?xds ! (xn - 1)" if "xn = yn" using that yn by (simp add: xs_def)
      then show "length xs < length ys \<or> length xs = length ys \<and> xs ! (length xs - 1) < ys ! (length ys - 1)"
        using 1 val(3,4) topy(1) unfolding small_def by auto
    qed
    then have "q = 0" "r = bval ?xds" using val by (simp_all add: q_def r_def)
    moreover have "bigdivrem divp modp x y = give (rb_int2big 0) x"
      using 1 yn unfolding code small_def [symmetric] by (simp add: give_def)
    moreover have "bigval (rb_int2big 0) = 0" by (simp add: int_simps)
    ultimately show ?thesis using give [of "rb_int2big 0" x] by (simp add: bigval_def)
  next
    case 2
    obtain zs dd where single: "bigdivrem_single xs (?yds ! 0) = (zs, dd)" by fastforce
    have "ys = [?yds ! 0]" using 2(2) ty(1) by (cases ?yds) (simp_all add: ys_def)
    then have Yv: "bval ?yds = uint (?yds ! 0)" using val(2) by simp
    have "xs \<noteq> []" using 2 val(3) by (auto simp: small_def)
    moreover have "?yds ! 0 \<noteq> 0" using topy(2) 2(2) by simp
    ultimately have "bval zs = q" "uint dd = r" using bigdivrem_single_spec [OF _ _ single] val(1) Yv by (simp_all add: q_def r_def)
    moreover have "bigdivrem divp modp x y = give (bignew zs sign) ((rb_uint2big (ucast dd))\<lparr>BIGNUM_SIGN := BIGNUM_SIGN x\<rparr>)"
      using 2 unfolding code small_def [symmetric] by (simp add: single give_def)
    moreover have "bval (BDIGITS (rb_uint2big (ucast dd))) = uint dd" by (simp add: rb_uint2big_spec)
    ultimately show ?thesis using give [of "bignew zs sign" "(rb_uint2big (ucast dd))\<lparr>BIGNUM_SIGN := BIGNUM_SIGN x\<rparr>"]
      by (simp add: bigval_def)
  next
    case 3
    define q0 r0 where "q0 = bary2bdigitdbl xs div bary2bdigitdbl ys" and "r0 = bary2bdigitdbl xs mod bary2bdigitdbl ys"
    have "uint (bary2bdigitdbl xs) = bval ?xds" "uint (bary2bdigitdbl ys) = bval ?yds"
      using 3(2,3) val by (simp_all add: bary2bdigitdbl_2)
    then have "uint q0 = q" "uint r0 = r" by (simp_all add: q0_def r0_def q_def r_def uint_div uint_mod)
    moreover have "xs = take 2 ?xds" "ys = take 2 ?yds" using 3 by (simp_all add: xs_def ys_def)
    then have "bigdivrem divp modp x y = give (bignew [BIGLO q0, BIGLO (BIGDN q0)] sign) (bignew [BIGLO r0, BIGLO (BIGDN r0)] (BIGNUM_SIGN x))"
      using 3 unfolding code small_def [symmetric] by (simp add: q0_def r0_def give_def)
    ultimately show ?thesis using give [of "bignew [BIGLO q0, BIGLO (BIGDN q0)] sign" "bignew [BIGLO r0, BIGLO (BIGDN r0)] (BIGNUM_SIGN x)"]
      unfolding bigval_bignew bval_dbl by simp
  next
    case 4
    define qn rn where "qn = (if divp then Some (xn + 1) else None)" and "rn = (if modp then Some yn else None)"
    have "length ys < length xs \<or> length ys = length xs" using 4(1) val(3,4) by (auto simp: small_def)
    then obtain qs rs where nrm: "bary_divmod_normal qn rn xs ys =
        Some (map_option (\<lambda>qn. qs @ replicate (qn - length qs) 0) qn, map_option (\<lambda>rn. rs @ replicate (rn - length rs) 0) rn)"
      "bval qs = q" "bval rs = r"
      using bary_divmod_normal_spec [of ys xs qn rn] topy yn val by (auto simp: q_def r_def)
    have two: "(xn = 2 \<and> yn = 2) = False" using 4(3) by blast
    have "bigdivrem divp modp x y = Some (Inr (map_option (\<lambda>qn. bigtrunc (bignew (qs @ replicate (qn - length qs) 0) sign)) qn,
        map_option (\<lambda>rn. bigtrunc (bignew (rs @ replicate (rn - length rs) 0) (BIGNUM_SIGN x))) rn))"
      using 4(1,2) yn nrm(1) unfolding code small_def [symmetric] two if_False qn_def [symmetric] rn_def [symmetric]
      by (simp add: option.map_comp comp_def)
    then show ?thesis
      by (simp add: qn_def rn_def gives_def int_simps bval_append nrm(2,3) sign_def)
  qed
qed

text \<open>Floor division of numbers with signs, from the division of the magnitudes.\<close>

lemma floor_same: "(if s then X else - X) div (if s then Y else - Y) = X div (Y :: int)"
  "(if s then X else - X) mod (if s then Y else - Y) = (if s then X mod Y else - (X mod Y))"
  by simp_all

lemma floor_diff:
  assumes "X mod Y \<noteq> 0" "Y \<noteq> 0"
  shows "(if s then X else - X) div (if s then - Y else Y) = - (X div Y) - 1"
    "(if s then X else - X) mod (if s then - Y else Y) = (if s then X mod Y else - (X mod Y)) + (if s then - Y else (Y :: int))"
  using assms by (simp_all add: zdiv_zminus1_eq_if zdiv_zminus2_eq_if zmod_zminus1_eq_if zmod_zminus2_eq_if)

lemma floor_exact:
  assumes "X mod Y = 0" "Y \<noteq> 0"
  shows "(if s then X else - X) div (if s then - Y else Y) = - (X div (Y :: int))" "(if s then X else - X) mod (if s then - Y else Y) = 0"
  using assms by (simp_all add: zdiv_zminus1_eq_if zdiv_zminus2_eq_if zmod_zminus1_eq_if zmod_zminus2_eq_if)

lemma bigdivmod_spec:
  assumes Y: "bigval y \<noteq> 0"
  shows "\<exists>d m. bigdivmod divp modp x y = Some (Inr (d, m)) \<and>
    gives divp True (bigval x div bigval y) d \<and> gives modp True (bigval x mod bigval y) m"
proof -
  let ?X = "bval (BDIGITS x)" and ?Y = "bval (BDIGITS y)" and ?s = "BIGNUM_SIGN x"
  obtain d m where dm: "bigdivrem divp True x y = Some (Inr (d, Some m))"
    "gives divp (BIGNUM_SIGN x = BIGNUM_SIGN y) (?X div ?Y) d" "bigval m = (if ?s then ?X mod ?Y else - (?X mod ?Y))"
    using bigdivrem_spec [OF Y, of divp True x] by (auto simp: gives_def split: option.splits)
  have zero: "BIGZEROP m \<longleftrightarrow> ?X mod ?Y = 0" by (simp add: int_simps dm(3))
  have vx: "bigval x = (if ?s then ?X else - ?X)" by (simp add: bigval_def)
  have one: "bigval (rb_int2big 1) = 1" by (simp add: int_simps)
  have Y0: "?Y \<noteq> 0" using Y by (simp add: bigval_eq_0)
  show ?thesis
  proof (cases "?s = BIGNUM_SIGN y")
    case True
    then have "bigval y = (if ?s then ?Y else - ?Y)" by (simp add: bigval_def)
    then have "bigval x div bigval y = ?X div ?Y" "bigval x mod bigval y = bigval m"
      using floor_same [of ?s ?X ?Y] unfolding vx dm(3) by simp_all
    then show ?thesis using True dm(1,2) by (auto simp: bigdivmod_def gives_def split: option.splits)
  next
    case False
    then have vy: "bigval y = (if ?s then - ?Y else ?Y)" by (auto simp: bigval_def)
    show ?thesis
    proof (cases "?X mod ?Y = 0")
      case 0: True
      then have "bigval x div bigval y = - (?X div ?Y)" "bigval x mod bigval y = bigval m"
        using floor_exact [OF 0 Y0, of ?s] unfolding vx vy dm(3) by simp_all
      then show ?thesis using False dm(1,2) 0 zero by (auto simp: bigdivmod_def gives_def split: option.splits)
    next
      case nz: False
      then have "bigval x div bigval y = - (?X div ?Y) - 1" "bigval x mod bigval y = bigval m + bigval y"
        using floor_diff [OF nz Y0, of ?s] unfolding vx vy dm(3) by simp_all
      then show ?thesis using False dm(1,2) nz zero one
        by (auto simp: bigdivmod_def gives_def int_simps split: option.splits)
    qed
  qed
qed

lemma bigdivmod_zero: "bigval y = 0 \<Longrightarrow> bigdivmod divp modp x y = Some (Inl ZeroDivisionError)"
  by (simp add: bigdivmod_def bigdivrem_zero)

lemma bigval_to_big [int_simps]: "bigval (to_big y) = ival y"
  by (cases y) (simp_all add: int_simps)

end
