(* ===== verification/Integer.thy ===== *)
theory Integer
  imports Big_Divmod "HOL-Library.Signed_Division"
begin

text \<open>
  The arithmetic of \<open>Integer\<close> (numeric.c, internal/fixnum.h): fixnums where the result fits, bignums
  elsewhere, dispatched as the methods do.  Operands that are not integers are left out.
\<close>

section \<open>Fixnums\<close>

definition MSB64 :: "64 word" where "MSB64 = push_bit 63 1"

definition rb_overflowed_fix_to_int :: "long \<Rightarrow> long" where
  "rb_overflowed_fix_to_int x = signed_drop_bit 1 x XOR MSB64"

definition fits_long :: "int \<Rightarrow> bool" where "fits_long i \<longleftrightarrow> - (2 ^ 63) \<le> i \<and> i < 2 ^ 63"

text \<open>The sum is computed on the tagged words; \<open>__builtin_add_overflow\<close> says whether it wraps.\<close>

definition rb_fix_plus_fix :: "VALUE \<Rightarrow> VALUE \<Rightarrow> rb_integer" where
  "rb_fix_plus_fix x y =
    (let lz = x + (y - 1)
     in if \<not> fits_long (sint x + sint (y - 1)) then Bignum (rb_int2big (rb_overflowed_fix_to_int lz)) else Fixnum lz)"

definition rb_fix_minus_fix :: "VALUE \<Rightarrow> VALUE \<Rightarrow> rb_integer" where
  "rb_fix_minus_fix x y =
    (let lz = x - (y - 1)
     in if \<not> fits_long (sint x - sint (y - 1)) then Bignum (rb_int2big (rb_overflowed_fix_to_int lz)) else Fixnum lz)"

text \<open>The product is computed in 128 bits.\<close>

definition rb_fix_mul_fix :: "VALUE \<Rightarrow> VALUE \<Rightarrow> rb_integer" where
  "rb_fix_mul_fix x y =
    (let z = scast (FIX2LONG x) * scast (FIX2LONG y) :: 128 word
     in if z <s 4611686018427387904 \<and> - 4611686018427387904 \<le>s z then Fixnum (LONG2FIX (scast z)) else Bignum (rb_int128t2big z))"

text \<open>Quotient and remainder; the operators of C truncate.\<close>

definition rb_fix_divmod_fix :: "VALUE \<Rightarrow> VALUE \<Rightarrow> rb_integer \<times> rb_integer" where
  "rb_fix_divmod_fix a b =
    (let x = FIX2LONG a; y = FIX2LONG b
     in if x = FIXNUM_MIN \<and> y = - 1 then (LONG2NUM (- FIXNUM_MIN), Fixnum (LONG2FIX 0))
        else let d = word_of_int (sint x sdiv sint y); m = word_of_int (sint x smod sint y);
                 (d, m) = (if (if 0 <s y then m <s 0 else 0 <s m) then (d - 1, m + y) else (d, m))
             in (Fixnum (LONG2FIX d), Fixnum (LONG2FIX m)))"

definition FIXNUM_ZERO_P :: "VALUE \<Rightarrow> bool" where "FIXNUM_ZERO_P num \<longleftrightarrow> num = LONG2FIX 0"

section \<open>Addition, subtraction, multiplication\<close>

fun fix_plus :: "VALUE \<Rightarrow> rb_integer \<Rightarrow> rb_integer" where
  "fix_plus x (Fixnum y) = rb_fix_plus_fix x y"
| "fix_plus x (Bignum y) = rb_big_plus y (Fixnum x)"

fun rb_int_plus :: "rb_integer \<Rightarrow> rb_integer \<Rightarrow> rb_integer" where
  "rb_int_plus (Fixnum x) y = fix_plus x y"
| "rb_int_plus (Bignum x) y = rb_big_plus x y"

fun fix_minus :: "VALUE \<Rightarrow> rb_integer \<Rightarrow> rb_integer" where
  "fix_minus x (Fixnum y) = rb_fix_minus_fix x y"
| "fix_minus x (Bignum y) = rb_big_minus (rb_int2big (FIX2LONG x)) (Bignum y)"

fun rb_int_minus :: "rb_integer \<Rightarrow> rb_integer \<Rightarrow> rb_integer" where
  "rb_int_minus (Fixnum x) y = fix_minus x y"
| "rb_int_minus (Bignum x) y = rb_big_minus x y"

fun fix_mul :: "VALUE \<Rightarrow> rb_integer \<Rightarrow> mul_failure + rb_integer" where
  "fix_mul x (Fixnum y) = Inr (rb_fix_mul_fix x y)"
| "fix_mul x (Bignum y) =
    (if x = LONG2FIX 0 then Inr (Fixnum x) else if x = LONG2FIX 1 then Inr (Bignum y) else rb_big_mul False y (Fixnum x))"

text \<open>\<open>same\<close> says that both operands are the same object.\<close>

fun rb_int_mul :: "bool \<Rightarrow> rb_integer \<Rightarrow> rb_integer \<Rightarrow> mul_failure + rb_integer" where
  "rb_int_mul same (Fixnum x) y = fix_mul x y"
| "rb_int_mul same (Bignum x) y = rb_big_mul same x y"

section \<open>Division\<close>

fun fix_divide :: "VALUE \<Rightarrow> rb_integer \<Rightarrow> (num_error + rb_integer) option" where
  "fix_divide x (Fixnum y) = (if FIXNUM_ZERO_P y then Some (Inl ZeroDivisionError) else Some (Inr (fst (rb_fix_divmod_fix x y))))"
| "fix_divide x (Bignum y) = rb_big_divide (rb_int2big (FIX2LONG x)) (Bignum y)"

fun rb_int_div :: "rb_integer \<Rightarrow> rb_integer \<Rightarrow> (num_error + rb_integer) option" where
  "rb_int_div (Fixnum x) y = fix_divide x y"
| "rb_int_div (Bignum x) y = rb_big_divide x y"

fun fix_mod :: "VALUE \<Rightarrow> rb_integer \<Rightarrow> (num_error + rb_integer) option" where
  "fix_mod x (Fixnum y) = (if FIXNUM_ZERO_P y then Some (Inl ZeroDivisionError) else Some (Inr (snd (rb_fix_divmod_fix x y))))"
| "fix_mod x (Bignum y) = rb_big_modulo (rb_int2big (FIX2LONG x)) (Bignum y)"

fun rb_int_modulo :: "rb_integer \<Rightarrow> rb_integer \<Rightarrow> (num_error + rb_integer) option" where
  "rb_int_modulo (Fixnum x) y = fix_mod x y"
| "rb_int_modulo (Bignum x) y = rb_big_modulo x y"

fun fix_divmod :: "VALUE \<Rightarrow> rb_integer \<Rightarrow> (num_error + rb_integer \<times> rb_integer) option" where
  "fix_divmod x (Fixnum y) = (if FIXNUM_ZERO_P y then Some (Inl ZeroDivisionError) else Some (Inr (rb_fix_divmod_fix x y)))"
| "fix_divmod x (Bignum y) = rb_big_divmod (rb_int2big (FIX2LONG x)) (Bignum y)"

fun rb_int_divmod :: "rb_integer \<Rightarrow> rb_integer \<Rightarrow> (num_error + rb_integer \<times> rb_integer) option" where
  "rb_int_divmod (Fixnum x) y = fix_divmod x y"
| "rb_int_divmod (Bignum x) y = rb_big_divmod x y"

section \<open>Unary operations\<close>

definition rb_big_uminus :: "RBignum \<Rightarrow> rb_integer" where
  "rb_big_uminus x = (let z = rb_big_clone x in bignorm (Bignum (z\<lparr>BIGNUM_SIGN := \<not> BIGNUM_SIGN z\<rparr>)))"

fun rb_int_uminus :: "rb_integer \<Rightarrow> rb_integer" where
  "rb_int_uminus (Fixnum x) = LONG2NUM (- FIX2LONG x)"
| "rb_int_uminus (Bignum x) = rb_big_uminus x"

definition rb_big_abs :: "RBignum \<Rightarrow> RBignum" where
  "rb_big_abs x = (if \<not> BIGNUM_SIGN x then (rb_big_clone x)\<lparr>BIGNUM_SIGN := True\<rparr> else x)"

fun rb_int_abs :: "rb_integer \<Rightarrow> rb_integer" where
  "rb_int_abs (Fixnum x) = (let i = FIX2LONG x in LONG2NUM (if i <s 0 then - i else i))"
| "rb_int_abs (Bignum x) = Bignum (rb_big_abs x)"

fun rb_int_succ :: "rb_integer \<Rightarrow> rb_integer" where
  "rb_int_succ (Fixnum x) = LONG2NUM (FIX2LONG x + 1)"
| "rb_int_succ (Bignum x) = rb_big_plus x (Fixnum (LONG2FIX 1))"

fun rb_int_pred :: "rb_integer \<Rightarrow> rb_integer" where
  "rb_int_pred (Fixnum x) = LONG2NUM (FIX2LONG x - 1)"
| "rb_int_pred (Bignum x) = rb_big_minus x (Fixnum (LONG2FIX 1))"

definition rb_big_comp :: "RBignum \<Rightarrow> rb_integer" where
  "rb_big_comp x =
    (let z = rb_big_clone x; ds = BDIGITS z
     in if ds = [] then Fixnum (LONG2FIX (- 1))
        else if BIGNUM_SIGN z then
          (let (ds, c) = bary_add_one ds; z = z\<lparr>BDIGITS := ds\<rparr>; z = (if c then big_extend_carry z else z)
           in bignorm (Bignum (z\<lparr>BIGNUM_SIGN := False\<rparr>)))
        else
          (let (ds, c) = bary_add_one (bary_neg ds)
           in if c then Fixnum (LONG2FIX (- 1)) else bignorm (Bignum (z\<lparr>BDIGITS := bary_neg ds, BIGNUM_SIGN := True\<rparr>))))"

fun rb_int_comp :: "rb_integer \<Rightarrow> rb_integer" where
  "rb_int_comp (Fixnum x) = Fixnum (NOT x OR 1)"
| "rb_int_comp (Bignum x) = rb_big_comp x"

section \<open>Comparison\<close>

fun rb_num_positive_int_p :: "rb_integer \<Rightarrow> bool" where
  "rb_num_positive_int_p (Fixnum x) \<longleftrightarrow> LONG2FIX 0 <s x"
| "rb_num_positive_int_p (Bignum x) \<longleftrightarrow> BIGNUM_SIGN x"

fun rb_num_negative_int_p :: "rb_integer \<Rightarrow> bool" where
  "rb_num_negative_int_p (Fixnum x) \<longleftrightarrow> x <s 0"
| "rb_num_negative_int_p (Bignum x) \<longleftrightarrow> \<not> BIGNUM_SIGN x"

fun rb_big_cmp :: "RBignum \<Rightarrow> rb_integer \<Rightarrow> int" where
  "rb_big_cmp x (Fixnum y) =
    (case bigfixize x of
       Fixnum sx \<Rightarrow> if sx <s y then - 1 else of_bool (y <s sx)
     | Bignum x \<Rightarrow> if BIGNUM_SIGN x then 1 else - 1)"
| "rb_big_cmp x (Bignum y) =
    (if BIGNUM_SIGN x = BIGNUM_SIGN y
     then let cmp = bary_cmp (BDIGITS x) (BDIGITS y) in if BIGNUM_SIGN x then cmp else - cmp
     else if BIGNUM_SIGN x then 1 else - 1)"

fun fix_cmp :: "VALUE \<Rightarrow> rb_integer \<Rightarrow> int" where
  "fix_cmp x (Fixnum y) = (if x = y then 0 else if FIX2LONG y <s FIX2LONG x then 1 else - 1)"
| "fix_cmp x (Bignum y) = (let cmp = rb_big_cmp y (Fixnum x) in if cmp = 1 then - 1 else if cmp = - 1 then 1 else cmp)"

fun rb_int_cmp :: "rb_integer \<Rightarrow> rb_integer \<Rightarrow> int" where
  "rb_int_cmp (Fixnum x) y = fix_cmp x y"
| "rb_int_cmp (Bignum x) y = rb_big_cmp x y"

fun rb_big_eq :: "RBignum \<Rightarrow> rb_integer \<Rightarrow> bool" where
  "rb_big_eq x (Fixnum y) \<longleftrightarrow> bignorm (Bignum x) = Fixnum y"
| "rb_big_eq x (Bignum y) \<longleftrightarrow> BIGNUM_SIGN x = BIGNUM_SIGN y \<and> BIGNUM_LEN x = BIGNUM_LEN y \<and> BDIGITS x = BDIGITS y"

fun fix_equal :: "VALUE \<Rightarrow> rb_integer \<Rightarrow> bool" where
  "fix_equal x (Fixnum y) \<longleftrightarrow> x = y"
| "fix_equal x (Bignum y) \<longleftrightarrow> rb_big_eq y (Fixnum x)"

fun rb_int_equal :: "rb_integer \<Rightarrow> rb_integer \<Rightarrow> bool" where
  "rb_int_equal (Fixnum x) y = fix_equal x y"
| "rb_int_equal (Bignum x) y = rb_big_eq x y"

datatype big_op_t = big_op_gt | big_op_ge | big_op_lt | big_op_le

definition big_op :: "RBignum \<Rightarrow> rb_integer \<Rightarrow> big_op_t \<Rightarrow> bool" where
  "big_op x y op =
    (let n = rb_big_cmp x y
     in case op of big_op_gt \<Rightarrow> n > 0 | big_op_ge \<Rightarrow> n \<ge> 0 | big_op_lt \<Rightarrow> n < 0 | big_op_le \<Rightarrow> n \<le> 0)"

fun fix_gt :: "VALUE \<Rightarrow> rb_integer \<Rightarrow> bool" where
  "fix_gt x (Fixnum y) \<longleftrightarrow> FIX2LONG y <s FIX2LONG x"
| "fix_gt x (Bignum y) \<longleftrightarrow> rb_big_cmp y (Fixnum x) = - 1"

fun fix_ge :: "VALUE \<Rightarrow> rb_integer \<Rightarrow> bool" where
  "fix_ge x (Fixnum y) \<longleftrightarrow> FIX2LONG y \<le>s FIX2LONG x"
| "fix_ge x (Bignum y) \<longleftrightarrow> rb_big_cmp y (Fixnum x) \<noteq> 1"

fun fix_lt :: "VALUE \<Rightarrow> rb_integer \<Rightarrow> bool" where
  "fix_lt x (Fixnum y) \<longleftrightarrow> FIX2LONG x <s FIX2LONG y"
| "fix_lt x (Bignum y) \<longleftrightarrow> rb_big_cmp y (Fixnum x) = 1"

fun fix_le :: "VALUE \<Rightarrow> rb_integer \<Rightarrow> bool" where
  "fix_le x (Fixnum y) \<longleftrightarrow> FIX2LONG x \<le>s FIX2LONG y"
| "fix_le x (Bignum y) \<longleftrightarrow> rb_big_cmp y (Fixnum x) \<noteq> - 1"

fun rb_int_gt :: "rb_integer \<Rightarrow> rb_integer \<Rightarrow> bool" where
  "rb_int_gt (Fixnum x) y = fix_gt x y"
| "rb_int_gt (Bignum x) y = big_op x y big_op_gt"

fun rb_int_ge :: "rb_integer \<Rightarrow> rb_integer \<Rightarrow> bool" where
  "rb_int_ge (Fixnum x) y = fix_ge x y"
| "rb_int_ge (Bignum x) y = big_op x y big_op_ge"

fun int_lt :: "rb_integer \<Rightarrow> rb_integer \<Rightarrow> bool" where
  "int_lt (Fixnum x) y = fix_lt x y"
| "int_lt (Bignum x) y = big_op x y big_op_lt"

fun int_le :: "rb_integer \<Rightarrow> rb_integer \<Rightarrow> bool" where
  "int_le (Fixnum x) y = fix_le x y"
| "int_le (Bignum x) y = big_op x y big_op_le"

fun int_zero_p :: "rb_integer \<Rightarrow> bool" where
  "int_zero_p (Fixnum x) = FIXNUM_ZERO_P x"
| "int_zero_p (Bignum x) = BIGZEROP x"

fun rb_int_odd_p :: "rb_integer \<Rightarrow> bool" where
  "rb_int_odd_p (Fixnum x) \<longleftrightarrow> x AND 2 \<noteq> 0"
| "rb_int_odd_p (Bignum x) \<longleftrightarrow> BIGNUM_LEN x \<noteq> 0 \<and> BDIGITS x ! 0 AND 1 \<noteq> 0"

fun int_even_p :: "rb_integer \<Rightarrow> bool" where
  "int_even_p (Fixnum x) \<longleftrightarrow> x AND 2 = 0"
| "int_even_p (Bignum x) \<longleftrightarrow> \<not> (BIGNUM_LEN x \<noteq> 0 \<and> BDIGITS x ! 0 AND 1 \<noteq> 0)"

section \<open>The remainder\<close>

text \<open>For a fixnum the method \<open>Numeric#remainder\<close> calls \<open>%\<close>, \<open>==\<close> and \<open>-\<close> of \<open>Integer\<close>.\<close>

definition num_remainder :: "rb_integer \<Rightarrow> rb_integer \<Rightarrow> (num_error + rb_integer) option" where
  "num_remainder x y =
    map_option (map_sum id (\<lambda>z.
      if \<not> rb_int_equal z (Fixnum (LONG2FIX 0)) \<and>
         (rb_num_negative_int_p x \<and> rb_num_positive_int_p y \<or> rb_num_positive_int_p x \<and> rb_num_negative_int_p y)
      then rb_int_minus z y else z)) (rb_int_modulo x y)"

fun int_remainder :: "rb_integer \<Rightarrow> rb_integer \<Rightarrow> (num_error + rb_integer) option" where
  "int_remainder (Fixnum x) y = num_remainder (Fixnum x) y"
| "int_remainder (Bignum x) y = rb_big_remainder x y"

end
