(* ===== verification/Integer_Laws.thy ===== *)
theory Integer_Laws
  imports Integer
begin

text \<open>What the operations of \<open>Integer\<close> compute, and that their results are in normal form.\<close>

section \<open>Fixnum arithmetic\<close>

lemma odd_Fixnum: "odd v \<Longrightarrow> sint v = 2 * ival (Fixnum v) + 1"
  using odd_sint [of v] by (simp add: odd_two_times_div_two_succ)

lemma sint_minus_one: "odd v \<Longrightarrow> sint (v - 1) = sint (v :: 64 word) - 1"
proof -
  assume "odd v"
  then have "odd (sint v)" by (simp add: odd_sint)
  then have "sint v \<noteq> - 9223372036854775808" by auto
  then have "- 9223372036854775808 \<le> sint v - 1" using sint_range(1) [of v] by linarith
  then show ?thesis using sint_sub_eq [of v "sint v" 1 1] sint_range(2) [of v] by simp
qed

lemma sint_MSB64: "sint MSB64 = - 9223372036854775808"
  by (simp add: MSB64_def)

lemma bit_MSB64: "bit MSB64 n \<longleftrightarrow> n = 63"
  unfolding MSB64_def bit_push_bit_iff by (auto simp: bit_1_iff)

lemma sint_xor_MSB64: "sint (w XOR MSB64) = (if sint w < 0 then sint w + 9223372036854775808 else sint w - 9223372036854775808)"
proof -
  have bit: "bit w 63 \<longleftrightarrow> sint w < 0" using bit_last_iff [of w] by simp
  show ?thesis
  proof (cases "bit w 63")
    case True
    have "(w XOR MSB64) AND MSB64 = 0" by (rule bit_word_eqI) (use True in \<open>auto simp: bit_and_iff bit_xor_iff bit_MSB64\<close>)
    then have "(w XOR MSB64) + MSB64 = (w XOR MSB64) XOR MSB64" by (rule disjunctive_add_eq_xor)
    then have "w XOR MSB64 = w - MSB64" by (simp add: xor.assoc eq_diff_eq)
    then show ?thesis using True bit sint_sub_eq [of w "sint w" MSB64, OF refl sint_MSB64] sint_range [of w] by simp
  next
    case False
    have "w AND MSB64 = 0" by (rule bit_word_eqI) (use False in \<open>auto simp: bit_and_iff bit_MSB64\<close>)
    then have "w XOR MSB64 = w + MSB64" using disjunctive_add_eq_xor by metis
    then show ?thesis using False bit sint_add_eq [of w "sint w" MSB64, OF refl sint_MSB64] sint_range [of w] by simp
  qed
qed

text \<open>A wrapped tagged word \<open>lz\<close> stands for the number half of the true sum \<open>t\<close>.\<close>

lemma sint_wrapped:
  assumes lz: "lz = word_of_int t" and t: "- 18446744073709551616 \<le> t" "t < 18446744073709551616" "\<not> fits_long t" "odd t"
  shows "sint (rb_overflowed_fix_to_int lz) = t div 2 \<and> \<not> fixable (t div 2)"
proof -
  have d: "sint (signed_drop_bit 1 lz) = sint lz div 2" by (simp add: sint_signed_drop_bit_eq drop_bit_eq_div)
  have e: "sint (rb_overflowed_fix_to_int lz) =
      (if sint lz div 2 < 0 then sint lz div 2 + 9223372036854775808 else sint lz div 2 - 9223372036854775808)"
    by (simp only: rb_overflowed_fix_to_int_def sint_xor_MSB64 d)
  consider "9223372036854775808 \<le> t" | "t < - 9223372036854775808" using t(3) by (auto simp: fits_long_def)
  then show ?thesis
  proof cases
    case 1
    have "lz = word_of_int (t - 18446744073709551616)" by (simp add: lz)
    then have "sint lz = t - 18446744073709551616" using sint_wrap [of "t - 18446744073709551616"] 1 t(2) by simp
    then have "sint lz div 2 = t div 2 - 9223372036854775808" by simp
    moreover have "t div 2 < 9223372036854775808" using t(2) by simp
    moreover have "4611686018427387904 \<le> t div 2" using 1 by simp
    ultimately show ?thesis using e by (simp add: fixable_def)
  next
    case 2
    have "lz = word_of_int (t + 18446744073709551616)" by (simp add: lz)
    then have "sint lz = t + 18446744073709551616" using sint_wrap [of "t + 18446744073709551616"] 2 t(1) by simp
    then have "sint lz div 2 = t div 2 + 9223372036854775808" by simp
    moreover have "- 9223372036854775808 \<le> t div 2" using t(1) by simp
    moreover have "t div 2 < - 4611686018427387904"
    proof -
      have "t \<noteq> - 9223372036854775809 + 1" using 2 by simp
      then show ?thesis using 2 by simp
    qed
    ultimately show ?thesis using e by (simp add: fixable_def)
  qed
qed

lemma tagged_result:
  assumes "t = 2 * k + 1" "- 18446744073709551616 \<le> t" "t < 18446744073709551616" "lz = word_of_int t"
  defines "r \<equiv> if \<not> fits_long t then Bignum (rb_int2big (rb_overflowed_fix_to_int lz)) else Fixnum lz"
  shows "ival r = k \<and> normal r"
proof (cases "fits_long t")
  case True
  then have "sint lz = t" unfolding assms(4) by (intro sint_wrap) (simp_all add: fits_long_def)
  moreover from this have "odd lz" using odd_sint [of lz] assms(1) by simp
  ultimately show ?thesis using True assms(1) by (simp add: r_def)
next
  case False
  have "odd t" "t div 2 = k" using assms(1) by simp_all
  then have "sint (rb_overflowed_fix_to_int lz) = k \<and> \<not> fixable k" using sint_wrapped [OF assms(4,2,3) False] by simp
  then show ?thesis using False rb_int2big_normal by (simp add: r_def int_simps)
qed

lemma Fixnum_range: "- 4611686018427387904 \<le> ival (Fixnum v)" "ival (Fixnum v) < 4611686018427387904"
  using fixable_Fixnum [of v] by (simp_all add: fixable_def)

lemma rb_fix_plus_fix_spec:
  assumes "odd x" "odd y"
  shows "ival (rb_fix_plus_fix x y) = ival (Fixnum x) + ival (Fixnum y) \<and> normal (rb_fix_plus_fix x y)"
proof -
  have t: "sint x + sint (y - 1) = 2 * (ival (Fixnum x) + ival (Fixnum y)) + 1"
    using odd_Fixnum [OF assms(1)] odd_Fixnum [OF assms(2)] sint_minus_one [OF assms(2)] by (simp only: distrib_left)
  have "x + (y - 1) = word_of_int (sint x + sint (y - 1))" by simp
  then show ?thesis unfolding rb_fix_plus_fix_def Let_def
    by (intro tagged_result) (use t sint_range [of x] sint_range [of "y - 1"] in linarith)+
qed

lemma rb_fix_minus_fix_spec:
  assumes "odd x" "odd y"
  shows "ival (rb_fix_minus_fix x y) = ival (Fixnum x) - ival (Fixnum y) \<and> normal (rb_fix_minus_fix x y)"
proof -
  have t: "sint x - sint (y - 1) = 2 * (ival (Fixnum x) - ival (Fixnum y)) + 1"
    using odd_Fixnum [OF assms(1)] odd_Fixnum [OF assms(2)] sint_minus_one [OF assms(2)] by (simp only: right_diff_distrib)
  have "x - (y - 1) = word_of_int (sint x - sint (y - 1))" by simp
  then show ?thesis unfolding rb_fix_minus_fix_def Let_def
    by (intro tagged_result) (use t sint_range [of x] sint_range [of "y - 1"] in linarith)+
qed

text \<open>The 128-bit product.\<close>

lemma uint_digit128: "uint (ucast (drop_bit k n AND 0xffffffff :: 128 word) :: BDIGIT) = uint n div 2 ^ k mod 4294967296"
proof -
  have "drop_bit k n AND 0xffffffff = take_bit 32 (drop_bit k n)" by (simp add: take_bit_eq_mask mask_eq_exp_minus_1)
  then have "ucast (drop_bit k n AND 0xffffffff) = (ucast (drop_bit k n) :: BDIGIT)"
    by (auto intro: bit_word_eqI simp: bit_simps)
  then show ?thesis by (simp add: unsigned_ucast_eq take_bit_eq_mod uint_drop_bit_div)
qed

lemma bval_digits128: "bval (map (\<lambda>i. ucast (drop_bit (32 * i) n AND 0xffffffff)) [0..<4]) = uint (n :: 128 word)"
proof -
  let ?B = "4294967296 :: int"
  let ?d = "\<lambda>i. ucast (drop_bit (32 * i) n AND 0xffffffff) :: BDIGIT"
  have "uint n div ?B div ?B div ?B < ?B" using uint_bounded [of n] by (intro int_div_less) simp_all
  moreover have "0 \<le> uint n div ?B div ?B div ?B" by (simp add: pos_imp_zdiv_nonneg_iff)
  ultimately have top: "uint n div ?B div ?B div ?B mod ?B = uint n div ?B div ?B div ?B" by (intro mod_pos_pos_trivial)
  have d: "uint (?d 0) = uint n mod ?B" "uint (?d 1) = uint n div ?B mod ?B" "uint (?d 2) = uint n div ?B div ?B mod ?B"
    "uint (?d 3) = uint n div ?B div ?B div ?B"
    unfolding uint_digit128 using top by (simp_all add: zdiv_zmult2_eq [symmetric])
  have "[0..<4] = [0, 1, 2, 3 :: nat]" by (simp add: upt_rec)
  then show ?thesis unfolding \<open>[0..<4] = _\<close> list.map bval.simps d by (simp only: mod_mult_div_eq mult_zero_right add_0_right)
qed

lemma rb_uint128t2big_spec:
  "bval (BDIGITS (rb_uint128t2big n)) = uint n" "BIGNUM_SIGN (rb_uint128t2big n)"
  "n \<noteq> 0 \<Longrightarrow> BDIGITS (rb_uint128t2big n) \<noteq> [] \<and> last (BDIGITS (rb_uint128t2big n)) \<noteq> 0"
proof -
  define ds where "ds = map (\<lambda>i. ucast (drop_bit (32 * i) n AND 0xffffffff) :: BDIGIT) [0..<4]"
  define k where "k = BARY_TRUNC ds 4"
  have len: "length ds = 4" by (simp add: ds_def)
  note t = BARY_TRUNC_spec [of 4 ds, folded k_def]
  have code: "rb_uint128t2big n = bignew (take k ds) True" by (simp add: rb_uint128t2big_def Let_def ds_def k_def)
  show v: "bval (BDIGITS (rb_uint128t2big n)) = uint n" using t(2) len bval_digits128 [of n] by (simp add: code ds_def)
  show "BIGNUM_SIGN (rb_uint128t2big n)" by (simp add: code)
  assume "n \<noteq> 0"
  have "k \<noteq> 0"
  proof
    assume "k = 0"
    then have "uint n = 0" using v by (simp add: code)
    then show False using \<open>n \<noteq> 0\<close> by (simp add: uint_0_iff)
  qed
  moreover from this have "take k ds \<noteq> []" using len by auto
  moreover from this have "last (take k ds) = ds ! (k - 1)" using t(1) len by (simp add: last_conv_nth)
  ultimately show "BDIGITS (rb_uint128t2big n) \<noteq> [] \<and> last (BDIGITS (rb_uint128t2big n)) \<noteq> 0"
    using t(3) len by (simp add: code)
qed

lemma sint128_range: "- (2 ^ 127) \<le> sint (n :: 128 word)" "sint n < 2 ^ 127"
  using sint_range_size [of n] by (simp_all add: word_size)

lemma sint128_wrap: "- (2 ^ 127) \<le> k \<Longrightarrow> k < 2 ^ 127 \<Longrightarrow> sint (word_of_int k :: 128 word) = k"
  by (simp add: signed_take_bit_int_eq_self_iff sint_sbintrunc')

lemma rb_int128t2big_spec:
  "bigval (rb_int128t2big n) = sint n" "\<not> fixable (sint n) \<Longrightarrow> normal (Bignum (rb_int128t2big n))"
proof -
  define u where "u = (if n <s 0 then 1 + (- (n + 1)) else n)"
  have neg: "n <s 0 \<longleftrightarrow> sint n < 0" by (simp add: word_sless_alt)
  have u: "uint u = \<bar>sint n\<bar>"
  proof (cases "sint n < 0")
    case True
    have "uint n = (sint n + 2 ^ 128) mod 2 ^ 128" by (simp add: uint_sint take_bit_eq_mod)
    also have "\<dots> = sint n + 2 ^ 128" using True sint128_range(1) [of n] by (intro mod_pos_pos_trivial) simp_all
    finally have "n \<noteq> 0 \<and> uint n = sint n + 2 ^ 128" using True by auto
    moreover have "- sint n mod 2 ^ 128 = - sint n" using True sint128_range(1) [of n] by (intro mod_pos_pos_trivial) simp_all
    ultimately show ?thesis using True by (simp add: u_def neg uint_word_ariths)
  next
    case False
    then show ?thesis using sint128_range(2) [of n] by (simp add: u_def neg uint_sint take_bit_int_eq_self_iff)
  qed
  have code: "rb_int128t2big n = (if sint n < 0 then (rb_uint128t2big u)\<lparr>BIGNUM_SIGN := False\<rparr> else rb_uint128t2big u)"
    by (simp add: rb_int128t2big_def Let_def u_def neg)
  show v: "bigval (rb_int128t2big n) = sint n" by (simp add: code bigval_def rb_uint128t2big_spec u)
  assume f: "\<not> fixable (sint n)"
  then have "u \<noteq> 0" using u by (auto simp: fixable_def)
  then show "normal (Bignum (rb_int128t2big n))"
    using rb_uint128t2big_spec(3) [of u] f v by (simp add: code split: if_splits)
qed

lemma rb_fix_mul_fix_spec: "ival (rb_fix_mul_fix x y) = ival (Fixnum x) * ival (Fixnum y) \<and> normal (rb_fix_mul_fix x y)"
proof -
  let ?x = "ival (Fixnum x)" and ?y = "ival (Fixnum y)"
  define z where "z = (scast (FIX2LONG x) * scast (FIX2LONG y) :: 128 word)"
  have s: "sint (scast w :: 128 word) = sint w" for w :: long by (simp add: sint_up_scast is_up)
  have "\<bar>?x\<bar> \<le> 2 ^ 62" "\<bar>?y\<bar> \<le> 2 ^ 62" using Fixnum_range [of x] Fixnum_range [of y] by simp_all
  then have "\<bar>?x * ?y\<bar> \<le> 2 ^ 62 * 2 ^ 62" unfolding abs_mult by (intro mult_mono) simp_all
  then have b: "- (2 ^ 127) \<le> ?x * ?y" "?x * ?y < 2 ^ 127" by simp_all
  have "scast (FIX2LONG v) = (word_of_int (ival (Fixnum v)) :: 128 word)" for v
    by (metis of_int_sint s scast_id sint_FIX2LONG ival.simps(1))
  then have "z = word_of_int (?x * ?y)" by (simp add: z_def)
  then have z: "sint z = ?x * ?y" using sint128_wrap [OF b] by (simp only:)
  show ?thesis
  proof (cases "fixable (?x * ?y)")
    case True
    have "(scast z :: long) = word_of_int (?x * ?y)" unfolding z [symmetric] by (rule scast_eq)
    moreover have "- 9223372036854775808 \<le> ?x * ?y" "?x * ?y < 9223372036854775808"
      using True unfolding fixable_def by linarith+
    ultimately have "sint (scast z :: long) = ?x * ?y" using sint_wrap by metis
    with True show ?thesis using True ival_LONG2FIX [of "scast z"] z
      by (simp add: rb_fix_mul_fix_def Let_def z_def [symmetric] word_sless_alt word_sle_eq fixable_def del: ival.simps(1))
  next
    case False
    then show ?thesis using rb_int128t2big_spec [of z] z
      by (auto simp: rb_fix_mul_fix_def Let_def z_def [symmetric] word_sless_alt word_sle_eq fixable_def simp del: ival.simps(1))
  qed
qed

text \<open>The floor division from the truncating one.\<close>

lemma floor_from_trunc:
  assumes "Y \<noteq> (0 :: int)"
  shows "(if (if 0 < Y then X smod Y < 0 else 0 < X smod Y) then (X sdiv Y - 1, X smod Y + Y) else (X sdiv Y, X smod Y)) =
    (X div Y, X mod Y)"
proof -
  define q r where "q = X sdiv Y" and "r = X smod Y"
  have X: "X = Y * q + r" by (simp add: q_def r_def mult_sdiv_smod_eq)
  have r: "- \<bar>Y\<bar> < r" "r < \<bar>Y\<bar>" using smod_int_range [OF assms, of X] by (simp_all add: r_def)
  have unique: "X div Y = a \<and> X mod Y = b" if "X = Y * a + b" "if 0 < Y then 0 \<le> b \<and> b < Y else Y < b \<and> b \<le> 0" for a b
    using that int_div_pos_eq [of X Y a b] int_mod_pos_eq [of X Y a b] int_div_neg_eq [of X Y a b] int_mod_neg_eq [of X Y a b]
    by (simp split: if_splits)
  show ?thesis unfolding q_def [symmetric] r_def [symmetric]
  proof (cases "if 0 < Y then r < 0 else 0 < r")
    case True
    have "X = Y * (q - 1) + (r + Y)" using X by (simp add: algebra_simps)
    then have "X div Y = q - 1 \<and> X mod Y = r + Y" by (rule unique) (use True r in \<open>auto split: if_splits\<close>)
    then show "(if if 0 < Y then r < 0 else 0 < r then (q - 1, r + Y) else (q, r)) = (X div Y, X mod Y)" using True by simp
  next
    case False
    have "X div Y = q \<and> X mod Y = r" by (rule unique [OF X]) (use False r assms in \<open>auto split: if_splits\<close>)
    then show "(if if 0 < Y then r < 0 else 0 < r then (q - 1, r + Y) else (q, r)) = (X div Y, X mod Y)" using False by simp
  qed
qed

lemma div_between: "0 < (b :: int) \<Longrightarrow> (if a < 0 then a \<le> a div b \<and> a div b < 0 else 0 \<le> a div b \<and> a div b \<le> a)"
  using zdiv_mono2 [of a 1 b] zdiv_mono2_neg [of a 1 b] by (simp add: pos_imp_zdiv_nonneg_iff pos_imp_zdiv_neg_iff)

lemma fixable_div:
  assumes "fixable X" "Y \<noteq> 0" "\<not> (X = - 4611686018427387904 \<and> Y = - 1)"
  shows "fixable (X div Y)"
proof (cases "0 < Y")
  case True
  then show ?thesis using div_between [of Y X] assms(1) by (auto simp: fixable_def split: if_splits)
next
  case False
  then have Y: "0 < - Y" using assms(2) by simp
  have eq: "X div Y = (- X) div (- Y)" by simp
  show ?thesis
  proof (cases "X = - 4611686018427387904")
    case True
    then have "2 \<le> - Y" using Y assms(3) by auto
    then have "(- X) div (- Y) \<le> (- X) div 2" using True by (intro zdiv_mono2) simp_all
    moreover have "0 \<le> (- X) div (- Y)" using True Y by (simp only: pos_imp_zdiv_nonneg_iff)
    ultimately show ?thesis unfolding eq fixable_def using True by simp
  next
    case False
    then show ?thesis using div_between [OF Y, of "- X"] assms(1) unfolding eq by (auto simp: fixable_def split: if_splits)
  qed
qed

lemma FIXNUM_ZERO_P_iff: "FIXNUM_ZERO_P v \<longleftrightarrow> v = LONG2FIX 0"
  by (simp add: FIXNUM_ZERO_P_def)

lemma ival_zero [simp]: "ival (Fixnum (LONG2FIX 0)) = 0"
  using ival_LONG2FIX [of 0] by (simp add: fixable_def)

lemma FIXNUM_ZERO_P_ival: "odd v \<Longrightarrow> FIXNUM_ZERO_P v \<longleftrightarrow> ival (Fixnum v) = 0"
  using normal_unique [of "Fixnum v" "Fixnum (LONG2FIX 0)"] by (auto simp: FIXNUM_ZERO_P_def simp del: ival.simps)

lemma rb_fix_divmod_fix_spec:
  assumes "ival (Fixnum b) \<noteq> 0"
  shows "ival (fst (rb_fix_divmod_fix a b)) = ival (Fixnum a) div ival (Fixnum b) \<and> normal (fst (rb_fix_divmod_fix a b))"
    "ival (snd (rb_fix_divmod_fix a b)) = ival (Fixnum a) mod ival (Fixnum b) \<and> normal (snd (rb_fix_divmod_fix a b))"
proof -
  define x y where "x = FIX2LONG a" and "y = FIX2LONG b"
  define X Y where "X = sint x" and "Y = sint y"
  have XY: "ival (Fixnum a) = X" "ival (Fixnum b) = Y" by (simp_all add: X_def Y_def x_def y_def sint_FIX2LONG)
  have f: "fixable X" "fixable Y" using fixable_Fixnum [of a] fixable_Fixnum [of b] unfolding XY .
  have Y0: "Y \<noteq> 0" using assms XY by simp
  have min: "x = FIXNUM_MIN \<and> y = - 1 \<longleftrightarrow> X = - 4611686018427387904 \<and> Y = - 1"
    by (auto simp: X_def Y_def FIXNUM_MIN_def intro: signed_word_eqI)
  have "(ival (fst (rb_fix_divmod_fix a b)) = X div Y \<and> normal (fst (rb_fix_divmod_fix a b))) \<and>
    (ival (snd (rb_fix_divmod_fix a b)) = X mod Y \<and> normal (snd (rb_fix_divmod_fix a b)))"
  proof (cases "x = FIXNUM_MIN \<and> y = - 1")
    case True
    have "sint (- FIXNUM_MIN) = 4611686018427387904" by (simp add: FIXNUM_MIN_def)
    then have "ival (LONG2NUM (- FIXNUM_MIN)) = 4611686018427387904" "normal (LONG2NUM (- FIXNUM_MIN))" by (simp_all add: int_simps)
    moreover have "X = - 4611686018427387904" "Y = - 1" using True min by simp_all
    ultimately show ?thesis using True
      by (simp add: rb_fix_divmod_fix_def x_def [symmetric] y_def [symmetric] del: ival.simps)
  next
    case False
    define q r where "q = (word_of_int (X sdiv Y) :: long)" and "r = (word_of_int (X smod Y) :: long)"
    define dm where "dm = (if (if 0 <s y then r <s 0 else 0 <s r) then (q - 1, r + y) else (q, r))"
    have small: "\<bar>X sdiv Y\<bar> \<le> 4611686018427387904" "\<bar>X smod Y\<bar> < 4611686018427387904"
      using sdiv_int_range [of X Y] smod_int_range [OF Y0, of X] f by (auto simp: fixable_def)
    have fy: "- 4611686018427387904 \<le> Y" "Y < 4611686018427387904" using f(2) by (simp_all add: fixable_def)
    from small have v: "sint q = X sdiv Y" "sint r = X smod Y" unfolding q_def r_def by (intro sint_wrap; simp)+
    have "sint (q - 1) = X sdiv Y - 1" using sint_sub_eq [OF v(1), of 1 1] small by simp
    moreover have "sint (r + y) = X smod Y + Y"
      by (rule sint_add_eq [OF v(2) Y_def [symmetric]]) (use small(2) fy in linarith)+
    ultimately have "(sint (fst dm), sint (snd dm)) =
        (if (if 0 < Y then X smod Y < 0 else 0 < X smod Y) then (X sdiv Y - 1, X smod Y + Y) else (X sdiv Y, X smod Y))"
      using v by (simp add: dm_def word_sless_alt Y_def)
    then have dm: "sint (fst dm) = X div Y" "sint (snd dm) = X mod Y" unfolding floor_from_trunc [OF Y0] by simp_all
    have fd: "fixable (X div Y)" using f(1) Y0 False min by (intro fixable_div) simp_all
    have "\<bar>X mod Y\<bar> < \<bar>Y\<bar>" using Y0 by (simp add: abs_mod_less)
    then have fm: "fixable (X mod Y)" using f(2) by (auto simp: fixable_def)
    have "rb_fix_divmod_fix a b = (Fixnum (LONG2FIX (fst dm)), Fixnum (LONG2FIX (snd dm)))"
      unfolding rb_fix_divmod_fix_def Let_def x_def [symmetric] y_def [symmetric] X_def [symmetric] Y_def [symmetric]
        q_def [symmetric] r_def [symmetric] dm_def [symmetric] if_not_P [OF False] by (simp add: case_prod_unfold)
    then show ?thesis using ival_LONG2FIX [of "fst dm"] ival_LONG2FIX [of "snd dm"] fd fm dm by (simp del: ival.simps)
  qed
  then show "ival (fst (rb_fix_divmod_fix a b)) = ival (Fixnum a) div ival (Fixnum b) \<and> normal (fst (rb_fix_divmod_fix a b))"
    "ival (snd (rb_fix_divmod_fix a b)) = ival (Fixnum a) mod ival (Fixnum b) \<and> normal (snd (rb_fix_divmod_fix a b))"
    unfolding XY by blast+
qed

section \<open>The operations of Integer\<close>

text \<open>What is stated of an operation with one result: the number it stands for, in normal form.\<close>

definition is_int :: "int \<Rightarrow> rb_integer \<Rightarrow> bool" where "is_int i r \<longleftrightarrow> ival r = i \<and> normal r"

lemma is_int_unique: "is_int i a \<Longrightarrow> is_int i b \<Longrightarrow> a = b"
  using normal_unique by (simp add: is_int_def)

lemma is_int_normal: "normal r \<Longrightarrow> is_int (ival r) r"
  by (simp add: is_int_def)

lemma is_int_LONG2FIX: "fixable (sint i) \<Longrightarrow> is_int (sint i) (Fixnum (LONG2FIX i))"
  using ival_LONG2FIX [of i] by (simp add: is_int_def del: ival.simps)

lemma is_int_LONG2NUM: "is_int (sint i) (LONG2NUM i)"
  by (simp add: is_int_def int_simps)

lemma is_int_bignorm: "is_int (bigval x) (bignorm (Bignum x))"
  by (simp add: is_int_def int_simps)

lemma normal_digits: "normal (Bignum x) \<Longrightarrow> BDIGITS x \<noteq> []"
  by simp

lemma rb_int_plus_is: "normal x \<Longrightarrow> normal y \<Longrightarrow> is_int (ival x + ival y) (rb_int_plus x y)"
proof (cases x; cases y)
  fix v w assume "x = Fixnum v" "y = Fixnum w" "normal x" "normal y"
  then show ?thesis using rb_fix_plus_fix_spec [of v w] by (simp add: is_int_def del: ival.simps)
next
  fix v b assume "x = Fixnum v" "y = Bignum b" "normal y"
  then show ?thesis using rb_big_plus_spec(1) [of b x] normal_digits by (simp add: is_int_def add.commute)
next
  fix b w assume "x = Bignum b" "y = Fixnum w" "normal x"
  then show ?thesis using rb_big_plus_spec(1) [of b y] normal_digits by (simp add: is_int_def)
next
  fix b c assume "x = Bignum b" "y = Bignum c" "normal x"
  then show ?thesis using rb_big_plus_spec(1) [of b y] normal_digits by (simp add: is_int_def)
qed

lemma rb_int_minus_is: "normal x \<Longrightarrow> normal y \<Longrightarrow> is_int (ival x - ival y) (rb_int_minus x y)"
proof (cases x; cases y)
  fix v w assume "x = Fixnum v" "y = Fixnum w" "normal x" "normal y"
  then show ?thesis using rb_fix_minus_fix_spec [of v w] by (simp add: is_int_def del: ival.simps)
next
  fix v b assume "x = Fixnum v" "y = Bignum b"
  then show ?thesis using rb_big_plus_spec(2) [OF length_rb_int2big, of "FIX2LONG v" y] by (simp add: is_int_def int_simps)
next
  fix b w assume "x = Bignum b" "y = Fixnum w" "normal x"
  then show ?thesis using rb_big_plus_spec(2) [of b y] normal_digits by (simp add: is_int_def)
next
  fix b c assume "x = Bignum b" "y = Bignum c" "normal x"
  then show ?thesis using rb_big_plus_spec(2) [of b y] normal_digits by (simp add: is_int_def)
qed

lemma ival_one [simp]: "ival (Fixnum (LONG2FIX 1)) = 1"
  using ival_LONG2FIX [of 1] by (simp add: fixable_def)

lemma rb_int_mul_post:
  assumes "normal x" "normal y" "same \<Longrightarrow> x = y"
  shows "mul_post (\<not> same \<and> 70 \<le> big_digits x \<and> 70 \<le> big_digits y) (rb_int_mul same x y) (is_int (ival x * ival y))"
proof (cases x)
  case (Bignum b)
  then show ?thesis using rb_big_mul_post [of same y b] assms(3) by (simp add: is_int_def [abs_def] int_simps)
next
  case (Fixnum v)
  show ?thesis
  proof (cases y)
    case (Fixnum w)
    then show ?thesis using \<open>x = Fixnum v\<close> rb_fix_mul_fix_spec [of v w] by (simp add: is_int_def del: ival.simps)
  next
    case (Bignum b)
    have "mul_post (\<not> same \<and> 70 \<le> big_digits x \<and> 70 \<le> big_digits y) (rb_big_mul False b x) (is_int (ival x * ival y))"
      by (rule mul_post_mono [OF rb_big_mul_post]) (simp_all add: Fixnum Bignum is_int_def)
    moreover have "is_int (ival x * ival y) x" if "v = LONG2FIX 0" using that Fixnum by (simp add: is_int_def del: ival.simps)
    moreover have "is_int (ival x * ival y) y" if "v = LONG2FIX 1" using that Fixnum assms(2) by (simp add: is_int_def del: ival.simps)
    ultimately show ?thesis using Fixnum Bignum by (simp del: ival.simps)
  qed
qed

text \<open>Division: both results are wanted as numbers, a divisor that is zero raises.\<close>

lemma wanted: "gives True s n z \<longleftrightarrow> (\<exists>b. z = Some b \<and> bigval b = (if s then n else - n))"
  by (auto simp: gives_def split: option.splits)

lemma rb_big_divide_is:
  assumes "ival y \<noteq> 0"
  shows "\<exists>r. rb_big_divide x y = Some (Inr r) \<and> is_int (bigval x div ival y) r"
    "\<exists>r. rb_big_modulo x y = Some (Inr r) \<and> is_int (bigval x mod ival y) r"
    "\<exists>q r. rb_big_divmod x y = Some (Inr (q, r)) \<and> is_int (bigval x div ival y) q \<and> is_int (bigval x mod ival y) r"
proof -
  have Y: "bigval (to_big y) \<noteq> 0" using assms by (simp add: int_simps)
  show "\<exists>r. rb_big_divide x y = Some (Inr r) \<and> is_int (bigval x div ival y) r"
    using bigdivmod_spec [OF Y, of True False x] by (auto simp: rb_big_divide_def wanted is_int_def int_simps)
  show "\<exists>r. rb_big_modulo x y = Some (Inr r) \<and> is_int (bigval x mod ival y) r"
    using bigdivmod_spec [OF Y, of False True x] by (auto simp: rb_big_modulo_def wanted is_int_def int_simps)
  show "\<exists>q r. rb_big_divmod x y = Some (Inr (q, r)) \<and> is_int (bigval x div ival y) q \<and> is_int (bigval x mod ival y) r"
    using bigdivmod_spec [OF Y, of True True x] by (auto simp: rb_big_divmod_def wanted is_int_def int_simps)
qed

lemma rb_big_divide_zero:
  assumes "ival y = 0"
  shows "rb_big_divide x y = Some (Inl ZeroDivisionError)" "rb_big_modulo x y = Some (Inl ZeroDivisionError)"
    "rb_big_divmod x y = Some (Inl ZeroDivisionError)" "rb_big_remainder x y = Some (Inl ZeroDivisionError)"
proof -
  have "bigval (to_big y) = 0" using assms by (simp add: int_simps)
  then show "rb_big_divide x y = Some (Inl ZeroDivisionError)" "rb_big_modulo x y = Some (Inl ZeroDivisionError)"
    "rb_big_divmod x y = Some (Inl ZeroDivisionError)" "rb_big_remainder x y = Some (Inl ZeroDivisionError)"
    by (simp_all add: rb_big_divide_def rb_big_modulo_def rb_big_divmod_def rb_big_remainder_def bigdivmod_zero bigdivrem_zero)
qed

lemma rb_big_remainder_is:
  assumes "ival y \<noteq> 0"
  shows "\<exists>r. rb_big_remainder x y = Some (Inr r) \<and> is_int (sgn (bigval x) * (\<bar>bigval x\<bar> mod \<bar>ival y\<bar>)) r"
proof -
  have Y: "bigval (to_big y) \<noteq> 0" using assms by (simp add: int_simps)
  obtain m where m: "bigdivrem False True x (to_big y) = Some (Inr (None, Some m))"
    "bigval m = (if BIGNUM_SIGN x then bval (BDIGITS x) mod bval (BDIGITS (to_big y)) else - (bval (BDIGITS x) mod bval (BDIGITS (to_big y))))"
    using bigdivrem_spec [OF Y, of False True x] by (auto simp: wanted gives_def split: option.splits)
  have abs: "\<bar>bigval b\<bar> = bval (BDIGITS b)" for b by (simp add: bigval_def)
  have "sgn (bigval x) * (\<bar>bigval x\<bar> mod \<bar>ival y\<bar>) = bigval m"
  proof (cases "bval (BDIGITS x) = 0")
    case True
    then have "bigval m = 0" "bigval x = 0" using m(2) by (simp, simp add: bigval_eq_0)
    then show ?thesis by simp
  next
    case False
    then have "0 < bval (BDIGITS x)" using bval_nonneg [of "BDIGITS x"] by linarith
    then have "sgn (bigval x) = (if BIGNUM_SIGN x then 1 else - 1)" by (simp add: bigval_def)
    then show ?thesis by (simp add: m(2) abs flip: bigval_to_big)
  qed
  then show ?thesis using m(1) by (simp add: rb_big_remainder_def is_int_def int_simps)
qed

lemma rb_int_div_is:
  assumes "normal x" "normal y" "ival y \<noteq> 0"
  shows "\<exists>r. rb_int_div x y = Some (Inr r) \<and> is_int (ival x div ival y) r"
    "\<exists>r. rb_int_modulo x y = Some (Inr r) \<and> is_int (ival x mod ival y) r"
    "\<exists>q r. rb_int_divmod x y = Some (Inr (q, r)) \<and> is_int (ival x div ival y) q \<and> is_int (ival x mod ival y) r"
proof -
  have "(\<exists>r. rb_int_div x y = Some (Inr r) \<and> is_int (ival x div ival y) r) \<and>
    (\<exists>r. rb_int_modulo x y = Some (Inr r) \<and> is_int (ival x mod ival y) r) \<and>
    (\<exists>q r. rb_int_divmod x y = Some (Inr (q, r)) \<and> is_int (ival x div ival y) q \<and> is_int (ival x mod ival y) r)"
  proof (cases x)
    case (Bignum b)
    then show ?thesis using rb_big_divide_is [OF assms(3), of b] by simp
  next
    case (Fixnum v)
    show ?thesis
    proof (cases y)
      case (Bignum b)
      then show ?thesis using rb_big_divide_is [OF assms(3), of "rb_int2big (FIX2LONG v)"] \<open>x = Fixnum v\<close> by (simp add: int_simps)
    next
      case (Fixnum w)
      have z: "ival (Fixnum w) \<noteq> 0" "\<not> FIXNUM_ZERO_P w" using assms(2,3) Fixnum FIXNUM_ZERO_P_ival [of w] by simp_all
      note s = rb_fix_divmod_fix_spec [OF z(1), of v]
      have "\<exists>q r. rb_int_divmod x y = Some (Inr (q, r)) \<and> is_int (ival x div ival y) q \<and> is_int (ival x mod ival y) r"
        using s z(2) \<open>x = Fixnum v\<close> Fixnum by (cases "rb_fix_divmod_fix v w") (simp add: is_int_def del: ival.simps)
      then show ?thesis using s z(2) \<open>x = Fixnum v\<close> Fixnum by (simp add: is_int_def del: ival.simps)
    qed
  qed
  then show "\<exists>r. rb_int_div x y = Some (Inr r) \<and> is_int (ival x div ival y) r"
    "\<exists>r. rb_int_modulo x y = Some (Inr r) \<and> is_int (ival x mod ival y) r"
    "\<exists>q r. rb_int_divmod x y = Some (Inr (q, r)) \<and> is_int (ival x div ival y) q \<and> is_int (ival x mod ival y) r"
    by blast+
qed

lemma rb_int_div_zero:
  assumes "normal y" "ival y = 0"
  shows "rb_int_div x y = Some (Inl ZeroDivisionError)" "rb_int_modulo x y = Some (Inl ZeroDivisionError)"
    "rb_int_divmod x y = Some (Inl ZeroDivisionError)"
proof -
  have "FIXNUM_ZERO_P w" if "y = Fixnum w" for w using assms that FIXNUM_ZERO_P_ival [of w] by simp
  then show "rb_int_div x y = Some (Inl ZeroDivisionError)" "rb_int_modulo x y = Some (Inl ZeroDivisionError)"
    "rb_int_divmod x y = Some (Inl ZeroDivisionError)"
    using rb_big_divide_zero [OF assms(2)] by (cases x; cases y; simp)+
qed

section \<open>Unary operations\<close>

lemma rb_int_uminus_is: "is_int (- ival x) (rb_int_uminus x)"
proof (cases x)
  case (Fixnum v)
  then show ?thesis using is_int_LONG2NUM [of "- FIX2LONG v"] sint_minus [OF fixable_FIX2LONG, of v] by (simp add: sint_FIX2LONG)
next
  case (Bignum b)
  then show ?thesis using is_int_bignorm [of "(rb_big_clone b)\<lparr>BIGNUM_SIGN := \<not> BIGNUM_SIGN b\<rparr>"]
    by (simp add: rb_big_uminus_def rb_big_clone_def Let_def bigval_def bignew_def split: if_splits)
qed

lemma rb_int_abs_is: "normal x \<Longrightarrow> is_int \<bar>ival x\<bar> (rb_int_abs x)"
proof (cases x)
  case (Fixnum v)
  let ?i = "FIX2LONG v"
  have "sint (if ?i <s 0 then - ?i else ?i) = \<bar>sint ?i\<bar>" using sint_minus [OF fixable_FIX2LONG, of v] by (simp add: word_sless_0)
  then show ?thesis using is_int_LONG2NUM [of "if ?i <s 0 then - ?i else ?i"] Fixnum by (simp add: Let_def sint_FIX2LONG)
next
  case (Bignum b)
  assume n: "normal x"
  have "bigval (rb_big_abs b) = \<bar>bigval b\<bar>" "BDIGITS (rb_big_abs b) = BDIGITS b"
    by (simp_all add: rb_big_abs_def rb_big_clone_def bigval_def)
  moreover have "\<not> fixable \<bar>bigval b\<bar>" using n Bignum by (auto simp: fixable_def)
  ultimately show ?thesis using n Bignum by (simp add: is_int_def)
qed

lemma rb_int_succ_is: "normal x \<Longrightarrow> is_int (ival x + 1) (rb_int_succ x)"
proof (cases x)
  case (Fixnum v)
  have "sint (FIX2LONG v + 1) = sint (FIX2LONG v) + 1"
    using sint_add_eq [of "FIX2LONG v" _ 1 1] fixable_FIX2LONG [of v] by (simp add: fixable_def)
  then show ?thesis using is_int_LONG2NUM [of "FIX2LONG v + 1"] Fixnum by (simp add: sint_FIX2LONG)
next
  case (Bignum b)
  assume "normal x"
  then show ?thesis using rb_big_plus_spec(1) [of b "Fixnum (LONG2FIX 1)"] Bignum by (simp add: is_int_def del: ival.simps(1))
qed

lemma rb_int_pred_is: "normal x \<Longrightarrow> is_int (ival x - 1) (rb_int_pred x)"
proof (cases x)
  case (Fixnum v)
  have "sint (FIX2LONG v - 1) = sint (FIX2LONG v) - 1"
    using sint_sub_eq [of "FIX2LONG v" _ 1 1] fixable_FIX2LONG [of v] by (simp add: fixable_def)
  then show ?thesis using is_int_LONG2NUM [of "FIX2LONG v - 1"] Fixnum by (simp add: sint_FIX2LONG)
next
  case (Bignum b)
  assume "normal x"
  then show ?thesis using rb_big_plus_spec(2) [of b "Fixnum (LONG2FIX 1)"] Bignum by (simp add: is_int_def del: ival.simps(1))
qed

lemma odd_minus: "odd (- v) \<longleftrightarrow> odd (v :: 64 word)"
  by simp

lemma fix_comp: "odd v \<Longrightarrow> NOT v OR 1 = (- v :: 64 word)"
proof -
  assume "odd v"
  then have "NOT v AND 1 = 0" by (simp add: and_one_eq even_not_iff mod_2_eq_odd)
  then have "NOT v OR 1 = NOT v + 1" by (simp add: disjunctive_add_eq_or)
  then show ?thesis by (simp add: not_eq_complement)
qed

lemma is_int_minus_one: "is_int (- 1) (Fixnum (LONG2FIX (- 1)))"
  using is_int_LONG2FIX [of "- 1"] by (simp add: fixable_def)

lemma rb_int_comp_is: "normal x \<Longrightarrow> is_int (- ival x - 1) (rb_int_comp x)"
proof (cases x)
  case (Fixnum v)
  assume "normal x"
  then have v: "odd v" using Fixnum by simp
  have "sint v \<noteq> - 9223372036854775808" using odd_sint [of v] v by auto
  then have "sint (- v) = - sint v" using sint_sub_eq [of 0 0 v "sint v"] sint_range [of v] by simp
  then have "ival (Fixnum (- v)) = - ival (Fixnum v) - 1" using odd_Fixnum [OF v] odd_Fixnum [OF odd_minus [THEN iffD2, OF v]] by linarith
  then show ?thesis using v Fixnum by (simp add: fix_comp is_int_def del: ival.simps)
next
  case (Bignum b)
  assume n: "normal x"
  let ?ds = "BDIGITS b"
  obtain ds c where add: "bary_add_one ?ds = (ds, c)" by fastforce
  have a: "length ds = length ?ds" "bval ds + of_bool c * 4294967296 ^ length ?ds = bval ?ds + 1"
    using bary_add_one_spec [of ?ds] by (simp_all add: add)
  obtain es d where sub: "bary_add_one (bary_neg ?ds) = (es, d)" by fastforce
  have s: "length es = length ?ds" "bval es + of_bool d * 4294967296 ^ length ?ds = 4294967296 ^ length ?ds - bval ?ds"
    using bary_add_one_spec [of "bary_neg ?ds"] by (simp_all add: sub bval_neg)
  have "is_int (- bigval b - 1) (rb_big_comp b)"
  proof (cases "BIGNUM_SIGN b")
    case True
    define z where "z = (let z = (rb_big_clone b)\<lparr>BDIGITS := ds\<rparr> in (if c then big_extend_carry z else z)\<lparr>BIGNUM_SIGN := False\<rparr>)"
    have "bigval z = - bigval b - 1"
      using a True by (cases c) (simp_all add: z_def Let_def bigval_def rb_big_clone_def big_extend_carry_def bval_append)
    moreover have "rb_big_comp b = bignorm (Bignum z)"
      using n Bignum True by (simp add: rb_big_comp_def Let_def rb_big_clone_def add z_def)
    ultimately show ?thesis using is_int_bignorm [of z] by simp
  next
    case False
    define z where "z = bignew (bary_neg es) True"
    have code: "rb_big_comp b = (if d then Fixnum (LONG2FIX (- 1)) else bignorm (Bignum z))"
      using n Bignum False by (simp add: rb_big_comp_def Let_def rb_big_clone_def sub z_def) (simp add: bignew_def)
    show ?thesis
    proof (cases d)
      case True
      then have "bval es + bval ?ds = 0" using s(2) by simp
      then have "bigval b = 0" using bval_nonneg [of es] bval_nonneg [of ?ds] unfolding bigval_eq_0 by linarith
      then show ?thesis using True code is_int_minus_one by simp
    next
      case no: False
      then have "bigval z = - bigval b - 1" using s False by (simp add: z_def bigval_def bval_neg)
      then show ?thesis using no code is_int_bignorm [of z] by simp
    qed
  qed
  then show ?thesis using Bignum by simp
qed

section \<open>Comparison\<close>

lemma bigfixize_normal: "normal (Bignum x) \<Longrightarrow> bigfixize x = Bignum x"
  using bigfixize_spec [of x] by (intro normal_unique) simp_all

lemma rb_big_cmp_is:
  assumes "normal (Bignum x)" "normal y"
  shows "rb_big_cmp x y = sgn (bigval x - ival y)"
proof (cases y)
  case (Fixnum v)
  have "\<not> fixable (bigval x)" using assms(1) by simp
  then have "(if BIGNUM_SIGN x then 1 else - 1) = sgn (bigval x - ival y)"
    using fixable_Fixnum [of v] bigval_sign [of x] unfolding Fixnum fixable_def by (auto simp del: ival.simps)
  then show ?thesis using Fixnum bigfixize_normal [OF assms(1)] by simp
next
  case (Bignum z)
  show ?thesis
  proof (cases "BIGNUM_SIGN x = BIGNUM_SIGN z")
    case True
    have "sgn (bval (BDIGITS z) - bval (BDIGITS x)) = - sgn (bval (BDIGITS x) - bval (BDIGITS z))" by (simp add: sgn_if)
    then show ?thesis using True Bignum by (simp add: bigval_def bary_cmp_spec Let_def)
  next
    case False
    have "bigval x \<noteq> 0" "bigval z \<noteq> 0" using assms Bignum by (auto simp: fixable_def)
    moreover have "BIGNUM_SIGN x \<Longrightarrow> 0 \<le> bigval x" "\<not> BIGNUM_SIGN z \<Longrightarrow> bigval z \<le> 0"
      "\<not> BIGNUM_SIGN x \<Longrightarrow> bigval x \<le> 0" "BIGNUM_SIGN z \<Longrightarrow> 0 \<le> bigval z" by (simp_all add: bigval_def)
    ultimately have "bigval z < bigval x \<longleftrightarrow> BIGNUM_SIGN x" "bigval x \<noteq> bigval z" using False by linarith+
    then show ?thesis using False Bignum by (simp add: sgn_if)
  qed
qed

lemma sless_Fixnum: "odd v \<Longrightarrow> odd w \<Longrightarrow> v = w \<longleftrightarrow> ival (Fixnum v) = ival (Fixnum w)"
  using normal_unique [of "Fixnum v" "Fixnum w"] by auto

lemma rb_int_cmp_is: "normal x \<Longrightarrow> normal y \<Longrightarrow> rb_int_cmp x y = sgn (ival x - ival y)"
proof (cases x)
  case (Bignum b)
  assume "normal x" "normal y"
  then show ?thesis using rb_big_cmp_is [of b y] Bignum by simp
next
  case (Fixnum v)
  assume n: "normal x" "normal y"
  show ?thesis
  proof (cases y)
    case (Fixnum w)
    then show ?thesis using n \<open>x = Fixnum v\<close> sless_Fixnum [of v w] by (simp add: word_sless_alt sint_FIX2LONG sgn_if)
  next
    case (Bignum b)
    then show ?thesis using rb_big_cmp_is [of b x] n \<open>x = Fixnum v\<close>
      by (simp add: sgn_if Let_def del: ival.simps(1) rb_big_cmp.simps)
  qed
qed

lemma rb_int_equal_is: "normal x \<Longrightarrow> normal y \<Longrightarrow> rb_int_equal x y \<longleftrightarrow> x = y"
proof (cases x; cases y)
  fix v b assume "x = Fixnum v" "y = Bignum b" "normal y"
  then show ?thesis using bigfixize_normal [of b] by (simp add: bignorm_def)
next
  fix v b assume "x = Bignum b" "y = Fixnum v" "normal x"
  then show ?thesis using bigfixize_normal [of b] by (simp add: bignorm_def)
next
  fix b c assume "x = Bignum b" "y = Bignum c"
  then show ?thesis by (cases b; cases c) auto
qed simp

lemma rb_int_order:
  assumes "normal x" "normal y"
  shows "rb_int_gt x y \<longleftrightarrow> ival x > ival y" "rb_int_ge x y \<longleftrightarrow> ival x \<ge> ival y"
    "int_lt x y \<longleftrightarrow> ival x < ival y" "int_le x y \<longleftrightarrow> ival x \<le> ival y"
proof -
  have "(rb_int_gt x y \<longleftrightarrow> ival x > ival y) \<and> (rb_int_ge x y \<longleftrightarrow> ival x \<ge> ival y) \<and>
    (int_lt x y \<longleftrightarrow> ival x < ival y) \<and> (int_le x y \<longleftrightarrow> ival x \<le> ival y)"
  proof (cases x)
    case (Bignum b)
    then show ?thesis using rb_big_cmp_is [of b y] assms by (simp add: big_op_def Let_def sgn_if)
  next
    case (Fixnum v)
    show ?thesis
    proof (cases y)
      case (Fixnum w)
      then show ?thesis using \<open>x = Fixnum v\<close> by (simp add: word_sless_alt word_sle_eq sint_FIX2LONG)
    next
      case (Bignum b)
      then show ?thesis using rb_big_cmp_is [of b x] assms \<open>x = Fixnum v\<close>
        by (simp add: sgn_if del: ival.simps(1) rb_big_cmp.simps)
    qed
  qed
  then show "rb_int_gt x y \<longleftrightarrow> ival x > ival y" "rb_int_ge x y \<longleftrightarrow> ival x \<ge> ival y"
    "int_lt x y \<longleftrightarrow> ival x < ival y" "int_le x y \<longleftrightarrow> ival x \<le> ival y" by blast+
qed

section \<open>Zero and parity, the remainder\<close>

lemma int_zero_p_is: "normal x \<Longrightarrow> int_zero_p x \<longleftrightarrow> ival x = 0"
  by (cases x) (simp_all add: FIXNUM_ZERO_P_ival BIGZEROP_iff del: ival.simps(1))

lemma odd_bval: "odd (bval ds) \<longleftrightarrow> ds \<noteq> [] \<and> odd (ds ! 0)"
proof (cases ds)
  case (Cons d ds)
  have "odd (uint d) \<longleftrightarrow> odd d" using bit_uint_iff [of d 0] by (simp add: bit_0)
  then show ?thesis using Cons by simp
qed simp

lemma and_two_sint: "(v AND 2 \<noteq> 0) \<longleftrightarrow> odd (sint (v :: 64 word) div 2)"
proof -
  have "bit v 1 \<longleftrightarrow> v AND push_bit 1 1 \<noteq> 0" by (rule bit_iff_and_push_bit_not_eq_0)
  moreover have "bit v 1 \<longleftrightarrow> bit (sint v) 1" by (simp add: bit_sint_iff)
  moreover have "bit (sint v) 1 \<longleftrightarrow> odd (sint v div 2 ^ 1)" by (rule bit_iff_odd)
  ultimately show ?thesis by simp
qed

lemma rb_int_odd_p_is: "rb_int_odd_p x \<longleftrightarrow> odd (ival x)" "int_even_p x \<longleftrightarrow> even (ival x)"
proof -
  have "rb_int_odd_p x \<longleftrightarrow> odd (ival x)"
  proof (cases x)
    case (Bignum b)
    have "odd (bigval b) \<longleftrightarrow> odd (bval (BDIGITS b))" by (simp add: bigval_def)
    then show ?thesis using Bignum by (auto simp: odd_bval and_one_eq mod_2_eq_odd)
  qed (simp add: and_two_sint)
  moreover have "int_even_p x \<longleftrightarrow> \<not> rb_int_odd_p x" by (cases x) simp_all
  ultimately show "rb_int_odd_p x \<longleftrightarrow> odd (ival x)" "int_even_p x \<longleftrightarrow> even (ival x)" by simp_all
qed

lemma rb_num_sign_is:
  assumes "normal x"
  shows "rb_num_positive_int_p x \<longleftrightarrow> 0 < ival x" "rb_num_negative_int_p x \<longleftrightarrow> ival x < 0"
proof -
  have "(rb_num_positive_int_p x \<longleftrightarrow> 0 < ival x) \<and> (rb_num_negative_int_p x \<longleftrightarrow> ival x < 0)"
  proof (cases x)
    case (Fixnum v)
    then have "sint v = 2 * ival x + 1" using odd_Fixnum [of v] assms by simp
    moreover have "sint (LONG2FIX 0) = 1" by (simp add: LONG2FIX_def)
    ultimately show ?thesis using Fixnum by (simp add: word_sless_alt del: ival.simps) linarith
  next
    case (Bignum b)
    then have "bigval b \<noteq> 0" using assms by (auto simp: fixable_def)
    moreover have "BIGNUM_SIGN b \<Longrightarrow> 0 \<le> bigval b" "\<not> BIGNUM_SIGN b \<Longrightarrow> bigval b \<le> 0" by (simp_all add: bigval_def)
    ultimately show ?thesis using Bignum by (cases "BIGNUM_SIGN b") auto
  qed
  then show "rb_num_positive_int_p x \<longleftrightarrow> 0 < ival x" "rb_num_negative_int_p x \<longleftrightarrow> ival x < 0" by blast+
qed

text \<open>The truncating remainder from the floor remainder.\<close>

lemma trunc_from_floor:
  assumes "Y \<noteq> (0 :: int)"
  shows "sgn X * (\<bar>X\<bar> mod \<bar>Y\<bar>) = (if X mod Y \<noteq> 0 \<and> (X < 0 \<and> 0 < Y \<or> 0 < X \<and> Y < 0) then X mod Y - Y else X mod Y)"
proof -
  consider "X = 0" | "0 < X" "0 < Y" | "0 < X" "Y < 0" | "X < 0" "0 < Y" | "X < 0" "Y < 0" using assms by linarith
  then show ?thesis
  proof cases
    case 3
    then show ?thesis using zmod_zminus2_eq_if [of X "- Y"] pos_mod_bound [of "- Y" X] by auto
  next
    case 4
    then show ?thesis using zmod_zminus1_eq_if [of "- X" Y] pos_mod_bound [of Y "- X"] by auto
  qed simp_all
qed

lemma int_remainder_is:
  assumes "normal x" "normal y" "ival y \<noteq> 0"
  shows "\<exists>r. int_remainder x y = Some (Inr r) \<and> is_int (sgn (ival x) * (\<bar>ival x\<bar> mod \<bar>ival y\<bar>)) r"
proof (cases x)
  case (Bignum b)
  then show ?thesis using rb_big_remainder_is [OF assms(3), of b] by simp
next
  case (Fixnum v)
  obtain z where z: "rb_int_modulo x y = Some (Inr z)" "ival z = ival x mod ival y" "normal z"
    using rb_int_div_is(2) [OF assms] by (auto simp: is_int_def)
  have "rb_int_equal z (Fixnum (LONG2FIX 0)) \<longleftrightarrow> ival x mod ival y = 0"
    using rb_int_equal_is [of z "Fixnum (LONG2FIX 0)"] normal_unique [of z "Fixnum (LONG2FIX 0)"] z by (auto simp del: ival.simps)
  moreover have "int_remainder x y = num_remainder x y" using Fixnum by simp
  ultimately show ?thesis using z rb_int_minus_is [OF z(3) assms(2)] trunc_from_floor [OF assms(3), of "ival x"]
    by (auto simp: num_remainder_def is_int_def rb_num_sign_is [OF assms(1)] rb_num_sign_is [OF assms(2)])
qed

section \<open>The contracts of the operations\<close>

text \<open>
  An operation on integers that computes \<open>g\<close> on the numbers.  As its results are in normal form, an
  equation between numbers is an equation between objects.
\<close>

locale integer_operation =
  fixes f :: "rb_integer \<Rightarrow> rb_integer \<Rightarrow> rb_integer" and g :: "int \<Rightarrow> int \<Rightarrow> int"
  assumes computes: "normal x \<Longrightarrow> normal y \<Longrightarrow> is_int (g (ival x) (ival y)) (f x y)"
begin

lemma normal_result [simp]: "normal x \<Longrightarrow> normal y \<Longrightarrow> normal (f x y)"
  using computes by (simp add: is_int_def)

lemma value_result [simp]: "normal x \<Longrightarrow> normal y \<Longrightarrow> ival (f x y) = g (ival x) (ival y)"
  using computes by (simp add: is_int_def)

lemma the_result: "normal x \<Longrightarrow> normal y \<Longrightarrow> normal r \<Longrightarrow> f x y = r \<longleftrightarrow> g (ival x) (ival y) = ival r"
  using normal_unique [of "f x y" r] by auto

lemma commutes:
  assumes "\<And>a b. g a b = g b a" "normal x" "normal y"
  shows "f x y = f y x"
proof -
  have "g (ival x) (ival y) = g (ival y) (ival x)" by (rule assms(1))
  then show ?thesis using assms(2,3) by (simp add: the_result)
qed

lemma associates: "(\<And>a b c. g (g a b) c = g a (g b c)) \<Longrightarrow> normal x \<Longrightarrow> normal y \<Longrightarrow> normal z \<Longrightarrow> f (f x y) z = f x (f y z)"
  by (simp add: the_result)

end

interpretation plus: integer_operation rb_int_plus "(+)"
  by unfold_locales (rule rb_int_plus_is)

interpretation minus: integer_operation rb_int_minus "(-)"
  by unfold_locales (rule rb_int_minus_is)

text \<open>An operation that divides: it always returns, with an error exactly for the divisor zero.\<close>

locale integer_division =
  fixes f :: "rb_integer \<Rightarrow> rb_integer \<Rightarrow> (num_error + rb_integer) option" and g :: "int \<Rightarrow> int \<Rightarrow> int"
  assumes divides: "normal x \<Longrightarrow> normal y \<Longrightarrow> ival y \<noteq> 0 \<Longrightarrow> \<exists>r. f x y = Some (Inr r) \<and> is_int (g (ival x) (ival y)) r"
    and by_zero: "normal y \<Longrightarrow> ival y = 0 \<Longrightarrow> f x y = Some (Inl ZeroDivisionError)"
begin

lemma returns: "normal x \<Longrightarrow> normal y \<Longrightarrow> f x y \<noteq> None"
  using divides [of x y] by_zero [of y x] by auto

lemma error_iff: "normal x \<Longrightarrow> normal y \<Longrightarrow> f x y = Some (Inl e) \<longleftrightarrow> ival y = 0"
  using divides [of x y] by_zero [of y x] by (cases e; cases "ival y = 0") auto

lemma result_iff:
  assumes "normal x" "normal y"
  shows "f x y = Some (Inr r) \<longleftrightarrow> ival y \<noteq> 0 \<and> is_int (g (ival x) (ival y)) r"
proof (cases "ival y = 0")
  case True
  then show ?thesis using by_zero [OF assms(2)] by simp
next
  case False
  then obtain r' where "f x y = Some (Inr r')" "is_int (g (ival x) (ival y)) r'" using divides [OF assms] by blast
  then show ?thesis using False is_int_unique [of "g (ival x) (ival y)" r' r] by fastforce
qed

end

interpretation quotient: integer_division rb_int_div "(div)"
  using rb_int_div_is(1) rb_int_div_zero(1) by unfold_locales blast+

interpretation modulo: integer_division rb_int_modulo "(mod)"
  using rb_int_div_is(2) rb_int_div_zero(2) by unfold_locales blast+

lemma int_remainder_zero: "normal y \<Longrightarrow> ival y = 0 \<Longrightarrow> int_remainder x y = Some (Inl ZeroDivisionError)"
  using rb_int_div_zero(2) [of y x] rb_big_divide_zero(4) [of y] by (cases x) (simp_all add: num_remainder_def)

interpretation remainder: integer_division int_remainder "\<lambda>a b. sgn a * (\<bar>a\<bar> mod \<bar>b\<bar>)"
  using int_remainder_is int_remainder_zero by unfold_locales blast+

end
