(* ===== verification/Big_Bits.thy ===== *)
theory Big_Bits
  imports Integer_Laws
begin

text \<open>
  The bit operations of integers (bignum.c, numeric.c): and, or and exclusive or on the two's complement
  of the operands, single bits, and the shifts of a bignum by a number of digits and bits.
\<close>

section \<open>And, or, exclusive or\<close>

text \<open>
  With a \<open>long\<close> operand: the loops over the digits of \<open>x\<close>, and over the digits above them, where the
  digits of \<open>x\<close> are all \<open>hibitsx\<close>.  They stop when nothing but the sign is left of \<open>y\<close>.
\<close>

definition long_fixed :: "long \<Rightarrow> bool" where "long_fixed y \<longleftrightarrow> y = 0 \<or> y = - 1"

definition long_hibits :: "long \<Rightarrow> BDIGIT" where "long_hibits y = (if 0 \<le>s y then 0 else BDIGMAX)"

fun andint_x :: "BDIGIT \<Rightarrow> BDIGIT list \<Rightarrow> long \<Rightarrow> BDIGIT list \<times> long" where
  "andint_x hibitsy [] y = ([], y)"
| "andint_x hibitsy (x # xds) y =
    (if long_fixed y then (map (\<lambda>d. d AND hibitsy) (x # xds), y)
     else let (zds, y') = andint_x hibitsy xds (BIGDN_S y) in ((x AND BIGLO y) # zds, y'))"

fun andint_z :: "BDIGIT \<Rightarrow> BDIGIT \<Rightarrow> nat \<Rightarrow> long \<Rightarrow> BDIGIT list" where
  "andint_z hibitsx hibitsy 0 y = []"
| "andint_z hibitsx hibitsy (Suc n) y =
    (if long_fixed y then replicate (Suc n) (hibitsx AND hibitsy)
     else (hibitsx AND BIGLO y) # andint_z hibitsx hibitsy n (BIGDN_S y))"

text \<open>For a bignum without digits and a mask that is not negative the code returns the C constant 0: \<open>None\<close>.\<close>

definition bigand_int :: "RBignum \<Rightarrow> nat \<Rightarrow> BDIGIT \<Rightarrow> long \<Rightarrow> rb_integer option" where
  "bigand_int x xn hibitsx y =
    (if y = 0 then Some (Fixnum (LONG2FIX 0))
     else if xn = 0 then (if hibitsx \<noteq> 0 then Some (LONG2NUM y) else None)
     else let hibitsy = long_hibits y; zn = (if hibitsx \<noteq> 0 \<and> xn < 2 then 2 else xn);
              (low, y) = andint_x hibitsy (take xn (BDIGITS x)) y; high = andint_z hibitsx hibitsy (zn - xn) y
          in Some (bignorm (Bignum (twocomp2abs_bang (bignew (low @ high) False) (hibitsx \<noteq> 0 \<and> hibitsy \<noteq> 0)))))"

text \<open>For two bignums: the shorter operand first, as the swap of the code leaves them.\<close>

definition shorter_first :: "RBignum \<times> nat \<times> BDIGIT \<Rightarrow> RBignum \<times> nat \<times> BDIGIT \<Rightarrow> (RBignum \<times> nat \<times> BDIGIT) \<times> RBignum \<times> nat \<times> BDIGIT" where
  "shorter_first x y = (if fst (snd x) > fst (snd y) then (y, x) else (x, y))"

fun rb_big_and :: "RBignum \<Rightarrow> rb_integer \<Rightarrow> rb_integer option" where
  "rb_big_and x (Fixnum y) = (let (x, xn, hibitsx) = abs2twocomp x in bigand_int x xn hibitsx (FIX2LONG y))"
| "rb_big_and x (Bignum y) =
    (let ((x, n1, hibits1), y, n2, hibits2) = shorter_first (abs2twocomp x) (abs2twocomp y);
         n2 = (if hibits1 = 0 then n1 else n2); ds1 = BDIGITS x; ds2 = BDIGITS y;
         zds = map2 (AND) (take n1 ds1) (take n1 ds2) @ map (\<lambda>d. hibits1 AND d) (drop n1 (take n2 ds2))
     in Some (bignorm (Bignum (twocomp2abs_bang (bignew zds False) (hibits1 \<noteq> 0 \<and> hibits2 \<noteq> 0)))))"

fun orint_z :: "BDIGIT \<Rightarrow> nat \<Rightarrow> long \<Rightarrow> BDIGIT list" where
  "orint_z hibitsy 0 y = []"
| "orint_z hibitsy (Suc n) y =
    (if long_fixed y then (if hibitsy \<noteq> 0 then replicate (Suc n) BDIGMAX else replicate (Suc n) 0)
     else BIGLO y # orint_z hibitsy n (BIGDN_S y))"

fun orint_x :: "BDIGIT \<Rightarrow> BDIGIT \<Rightarrow> BDIGIT list \<Rightarrow> nat \<Rightarrow> long \<Rightarrow> BDIGIT list" where
  "orint_x hibitsx hibitsy [] n y = (if hibitsx \<noteq> 0 then replicate n BDIGMAX else orint_z hibitsy n y)"
| "orint_x hibitsx hibitsy (x # xds) n y =
    (if long_fixed y
     then (if hibitsy \<noteq> 0 then replicate (length (x # xds) + n) BDIGMAX
           else (x # xds) @ replicate n (if hibitsx \<noteq> 0 then BDIGMAX else 0))
     else (x OR BIGLO y) # orint_x hibitsx hibitsy xds n (BIGDN_S y))"

definition bigor_int :: "RBignum \<Rightarrow> nat \<Rightarrow> BDIGIT \<Rightarrow> long \<Rightarrow> rb_integer" where
  "bigor_int x xn hibitsx y =
    (if y = - 1 then Fixnum (LONG2FIX (- 1))
     else if xn = 0 then (if hibitsx \<noteq> 0 then Fixnum (LONG2FIX (- 1)) else Fixnum (LONG2FIX y))
     else let hibitsy = long_hibits y; zn = (if BIGNUM_LEN x < 2 then 2 else BIGNUM_LEN x);
              zds = orint_x hibitsx hibitsy (take xn (BDIGITS x)) (zn - xn) y
          in bignorm (Bignum (twocomp2abs_bang (bignew zds False) (hibitsx \<noteq> 0 \<or> hibitsy \<noteq> 0))))"

fun rb_big_or :: "RBignum \<Rightarrow> rb_integer \<Rightarrow> rb_integer" where
  "rb_big_or x (Fixnum y) = (let (x, xn, hibitsx) = abs2twocomp x in bigor_int x xn hibitsx (FIX2LONG y))"
| "rb_big_or x (Bignum y) =
    (let ((x, n1, hibits1), y, n2, hibits2) = shorter_first (abs2twocomp x) (abs2twocomp y);
         n2 = (if hibits1 \<noteq> 0 then n1 else n2); ds1 = BDIGITS x; ds2 = BDIGITS y;
         zds = map2 (OR) (take n1 ds1) (take n1 ds2) @ map (\<lambda>d. hibits1 OR d) (drop n1 (take n2 ds2))
     in bignorm (Bignum (twocomp2abs_bang (bignew zds False) (hibits1 \<noteq> 0 \<or> hibits2 \<noteq> 0))))"

text \<open>
  Here the loops run over all \<open>zn\<close> digits, so the two loops that would go on with \<open>hibitsy\<close> have
  nothing left to do.
\<close>

fun xorint_loop :: "BDIGIT list \<Rightarrow> long \<Rightarrow> BDIGIT list" where
  "xorint_loop [] y = []"
| "xorint_loop (x # xds) y = (x XOR BIGLO y) # xorint_loop xds (BIGDN_S y)"

definition bigxor_int :: "RBignum \<Rightarrow> nat \<Rightarrow> BDIGIT \<Rightarrow> long \<Rightarrow> rb_integer" where
  "bigxor_int x xn hibitsx y =
    (let hibitsy = long_hibits y; zn = (if BIGNUM_LEN x < 2 then 2 else BIGNUM_LEN x);
         zds = xorint_loop (take xn (BDIGITS x) @ replicate (zn - xn) hibitsx) y
     in bignorm (Bignum (twocomp2abs_bang (bignew zds False) (hibitsx XOR hibitsy \<noteq> 0))))"

fun rb_big_xor :: "RBignum \<Rightarrow> rb_integer \<Rightarrow> rb_integer" where
  "rb_big_xor x (Fixnum y) = (let (x, xn, hibitsx) = abs2twocomp x in bigxor_int x xn hibitsx (FIX2LONG y))"
| "rb_big_xor x (Bignum y) =
    (let ((x, n1, hibits1), y, n2, hibits2) = shorter_first (abs2twocomp x) (abs2twocomp y);
         ds1 = BDIGITS x; ds2 = BDIGITS y;
         zds = map2 (XOR) (take n1 ds1) (take n1 ds2) @ map (\<lambda>d. hibits1 XOR d) (drop n1 (take n2 ds2))
     in bignorm (Bignum (twocomp2abs_bang (bignew zds False) (hibits1 XOR hibits2 \<noteq> 0))))"

fun fix_and :: "VALUE \<Rightarrow> rb_integer \<Rightarrow> rb_integer option" where
  "fix_and x (Fixnum y) = Some (LONG2NUM (FIX2LONG x AND FIX2LONG y))"
| "fix_and x (Bignum y) = rb_big_and y (Fixnum x)"

fun rb_int_and :: "rb_integer \<Rightarrow> rb_integer \<Rightarrow> rb_integer option" where
  "rb_int_and (Fixnum x) y = fix_and x y"
| "rb_int_and (Bignum x) y = rb_big_and x y"

fun fix_or :: "VALUE \<Rightarrow> rb_integer \<Rightarrow> rb_integer" where
  "fix_or x (Fixnum y) = LONG2NUM (FIX2LONG x OR FIX2LONG y)"
| "fix_or x (Bignum y) = rb_big_or y (Fixnum x)"

fun int_or :: "rb_integer \<Rightarrow> rb_integer \<Rightarrow> rb_integer" where
  "int_or (Fixnum x) y = fix_or x y"
| "int_or (Bignum x) y = rb_big_or x y"

fun fix_xor :: "VALUE \<Rightarrow> rb_integer \<Rightarrow> rb_integer" where
  "fix_xor x (Fixnum y) = LONG2NUM (FIX2LONG x XOR FIX2LONG y)"
| "fix_xor x (Bignum y) = rb_big_xor y (Fixnum x)"

fun int_xor :: "rb_integer \<Rightarrow> rb_integer \<Rightarrow> rb_integer" where
  "int_xor (Fixnum x) y = fix_xor x y"
| "int_xor (Bignum x) y = rb_big_xor x y"

section \<open>A bit operation works digit by digit\<close>

lemma bit_digit: "bit (uint (d :: BDIGIT) + 4294967296 * x) n \<longleftrightarrow> (if n < 32 then bit d n else bit x (n - 32))"
proof -
  have "take_bit 32 (uint d) = uint d" using uint_digit [of d] by (simp add: take_bit_int_eq_self_iff)
  then have "uint d + 4294967296 * x = take_bit 32 (uint d) + push_bit 32 x" by (simp add: push_bit_eq_mult)
  also have "\<dots> = take_bit 32 (uint d) OR push_bit 32 x"
    by (rule disjunctive_add) (simp add: bit_simps)
  finally show ?thesis by (auto simp: bit_simps dest: bit_imp_possible_bit)
qed

text \<open>\<open>F\<close> on digits, \<open>G\<close> on integers.\<close>

locale bitwise =
  fixes F :: "BDIGIT \<Rightarrow> BDIGIT \<Rightarrow> BDIGIT" and G :: "int \<Rightarrow> int \<Rightarrow> int"
  assumes digit: "G (uint a + 4294967296 * x) (uint b + 4294967296 * y) = uint (F a b) + 4294967296 * G x y"
begin

lemma digits:
  "length xs = length ys \<Longrightarrow>
    G (bval xs + 4294967296 ^ length xs * a) (bval ys + 4294967296 ^ length ys * b) =
    bval (map2 F xs ys) + 4294967296 ^ length xs * G a b"
proof (induction xs ys rule: list_induct2)
  case (Cons x xs y ys)
  have eq: "bval (d # ds) + 4294967296 ^ length (d # ds) * c = uint d + 4294967296 * (bval ds + 4294967296 ^ length ds * c)" for d ds c
    by (simp add: algebra_simps)
  show ?case unfolding eq digit Cons.IH by (simp add: algebra_simps)
qed simp

end

interpretation bw_and: bitwise "(AND)" "(AND)"
  by unfold_locales (rule bit_eqI, simp add: bit_and_iff bit_digit)

interpretation bw_or: bitwise "(OR)" "(OR)"
  by unfold_locales (rule bit_eqI, simp add: bit_or_iff bit_digit)

interpretation bw_xor: bitwise "(XOR)" "(XOR)"
  by unfold_locales (rule bit_eqI, simp add: bit_xor_iff bit_digit)

section \<open>The digits of a \<open>long\<close>\<close>

fun long_digits :: "nat \<Rightarrow> long \<Rightarrow> BDIGIT list" where
  "long_digits 0 y = []"
| "long_digits (Suc n) y = BIGLO y # long_digits n (BIGDN_S y)"

lemma length_long_digits [simp]: "length (long_digits n y) = n"
  by (induction n arbitrary: y) simp_all

lemma long_fixed_simps [simp]: "BIGDN_S 0 = 0" "BIGDN_S (- 1) = - 1"
  by (simp_all add: BIGDN_S_def)

lemma BIGLO_fixed [simp]: "BIGLO 0 = 0" "BIGLO (- 1) = BDIGMAX"
  by (simp_all add: BIGLO_def BDIGMAX_def)

lemma long_digits_fixed: "long_fixed y \<Longrightarrow> long_digits n y = replicate n (long_hibits y)"
  by (induction n) (auto simp: long_fixed_def long_hibits_def word_sle_eq)

lemma long_hibits_BIGDN_S [simp]: "long_hibits (BIGDN_S y) = long_hibits y"
  by (simp add: long_hibits_def word_sle_eq sint_BIGDN_S pos_imp_zdiv_nonneg_iff)

lemma long_digits_append: "long_digits (m + n) y = long_digits m y @ long_digits n ((BIGDN_S ^^ m) y)"
  by (induction m arbitrary: y) (simp_all add: funpow_swap1)

lemma long_rest_fixed [simp]: "(BIGDN_S ^^ n) 0 = 0" "(BIGDN_S ^^ n) (- 1) = - 1"
  by (induction n) (simp_all add: funpow_swap1)

lemma long_hibits_rest [simp]: "long_hibits ((BIGDN_S ^^ n) y) = long_hibits y"
  by (induction n arbitrary: y) simp_all

text \<open>The digits below \<open>n\<close> and what is left above them.\<close>

lemma sint_long_digits: "sint y = bval (long_digits n y) + 4294967296 ^ n * sint ((BIGDN_S ^^ n) y)"
proof (induction n arbitrary: y)
  case (Suc n)
  have "sint y = uint (BIGLO y) + 4294967296 * sint (BIGDN_S y)"
    by (simp add: uint_BIGLO_sint sint_BIGDN_S)
  also have "sint (BIGDN_S y) = bval (long_digits n (BIGDN_S y)) + 4294967296 ^ n * sint ((BIGDN_S ^^ n) (BIGDN_S y))"
    by (rule Suc.IH)
  finally show ?case by (simp add: algebra_simps funpow_swap1)
qed simp

definition top_int :: "BDIGIT \<Rightarrow> int" where "top_int h = (if h \<noteq> 0 then - 1 else 0)"

lemma top_int_simps [simp]: "top_int 0 = 0" "top_int BDIGMAX = - 1"
  by (simp_all add: top_int_def BDIGMAX_def)

lemma div_twice: "- 9223372036854775808 \<le> s \<Longrightarrow> s < 9223372036854775808 \<Longrightarrow> s div 4294967296 div 4294967296 = (if 0 \<le> s then 0 else - 1 :: int)"
proof (cases "0 \<le> s")
  case False
  assume "- 9223372036854775808 \<le> s" "s < 9223372036854775808"
  then have "s div 18446744073709551616 = - 1" using False by (intro int_div_pos_eq [of _ _ _ "s + 18446744073709551616"]) simp_all
  then show ?thesis using False zdiv_zmult2_eq [of 4294967296 s 4294967296] by simp
next
  case True
  assume "- 9223372036854775808 \<le> s" "s < 9223372036854775808"
  then have "s div 18446744073709551616 = 0" using True by (intro div_pos_pos_trivial) simp_all
  then show ?thesis using True zdiv_zmult2_eq [of 4294967296 s 4294967296] by simp
qed

lemma long_rest_top: "2 \<le> n \<Longrightarrow> sint ((BIGDN_S ^^ n) y) = top_int (long_hibits y)"
proof (induction n rule: dec_induct)
  case base
  have "(BIGDN_S ^^ 2) y = BIGDN_S (BIGDN_S y)" by (simp add: numeral_2_eq_2)
  then have "sint ((BIGDN_S ^^ 2) y) = (if 0 \<le> sint y then 0 else - 1)"
    using div_twice [OF sint_range] by (simp only: sint_BIGDN_S)
  then show ?case by (simp add: long_hibits_def word_sle_eq)
next
  case (step n)
  then show ?case by (simp add: sint_BIGDN_S top_int_def)
qed

lemma long_two_digits: "2 \<le> n \<Longrightarrow> sint y = bval (long_digits n y) + 4294967296 ^ n * top_int (long_hibits y)"
  using sint_long_digits [of y n] long_rest_top by simp

section \<open>The loops\<close>

lemma BDIGMAX_minus_1: "BDIGMAX = - 1"
  by (simp add: BDIGMAX_def)

lemma map2_replicate: "length xs = n \<Longrightarrow> map2 f xs (replicate n h) = map (\<lambda>d. f d h) xs"
  by (induction xs arbitrary: n) auto

lemma map2_extend:
  "length xs \<le> length ys \<Longrightarrow>
    map2 f xs (take (length xs) ys) @ map (f h) (drop (length xs) ys) = map2 f (xs @ replicate (length ys - length xs) h) ys"
proof (induction xs arbitrary: ys)
  case Nil
  then show ?case by (induction ys) simp_all
next
  case (Cons x xs)
  then show ?case by (cases ys) simp_all
qed

lemma andint_x_eq: "andint_x (long_hibits y) xds y = (map2 (AND) xds (long_digits (length xds) y), (BIGDN_S ^^ length xds) y)"
proof (induction xds arbitrary: y)
  case (Cons x xds)
  show ?case
  proof (cases "long_fixed y")
    case True
    then have "(BIGDN_S ^^ length (x # xds)) y = y" by (auto simp: long_fixed_def simp del: funpow.simps)
    moreover have "map2 (AND) (x # xds) (long_digits (length (x # xds)) y) = map (\<lambda>d. d AND long_hibits y) (x # xds)"
      unfolding long_digits_fixed [OF True] by (rule map2_replicate) simp
    ultimately show ?thesis using True by (simp only: andint_x.simps if_True)
  next
    case False
    then show ?thesis using Cons.IH [of "BIGDN_S y"] by (simp add: funpow_swap1)
  qed
qed simp

lemma andint_z_eq: "andint_z h (long_hibits y) n y = map2 (AND) (replicate n h) (long_digits n y)"
proof (induction n arbitrary: y)
  case (Suc n)
  show ?case
  proof (cases "long_fixed y")
    case True
    then show ?thesis unfolding long_digits_fixed [OF True] by simp
  next
    case False
    then show ?thesis using Suc.IH [of "BIGDN_S y"] by simp
  qed
qed simp

lemma long_hibits_cases: "long_hibits y = 0 \<or> long_hibits y = BDIGMAX"
  by (simp add: long_hibits_def)

lemma orint_z_eq: "orint_z (long_hibits y) n y = long_digits n y"
proof (induction n arbitrary: y)
  case (Suc n)
  show ?case
  proof (cases "long_fixed y")
    case True
    then show ?thesis using long_hibits_cases [of y] unfolding long_digits_fixed [OF True] by auto
  next
    case False
    then show ?thesis using Suc.IH [of "BIGDN_S y"] by simp
  qed
qed simp

lemma orint_x_eq:
  assumes "h = 0 \<or> h = BDIGMAX"
  shows "orint_x h (long_hibits y) xds n y = map2 (OR) (xds @ replicate n h) (long_digits (length xds + n) y)"
proof (induction xds arbitrary: y)
  case Nil
  have "map2 (OR) (replicate n 0) ds = ds" if "length ds = n" for ds :: "BDIGIT list"
    using that by (induction ds arbitrary: n) auto
  moreover have "map2 (OR) (replicate n BDIGMAX) ds = replicate n BDIGMAX" if "length ds = n" for ds :: "BDIGIT list"
    using that by (induction ds arbitrary: n) (auto simp: BDIGMAX_minus_1)
  moreover have "BDIGMAX \<noteq> 0" by (simp add: BDIGMAX_def)
  ultimately show ?case using assms by (auto simp: orint_z_eq)
next
  case (Cons x xds)
  show ?case
  proof (cases "long_fixed y")
    case True
    show ?thesis using long_hibits_cases [of y] True assms
      unfolding long_digits_fixed [OF True] by (auto simp: map2_replicate [OF refl] BDIGMAX_minus_1 replicate_add map_replicate_const)
  next
    case False
    then show ?thesis using Cons.IH [of "BIGDN_S y"] by simp
  qed
qed

lemma xorint_loop_eq: "xorint_loop xds y = map2 (XOR) xds (long_digits (length xds) y)"
  by (induction xds arbitrary: y) simp_all

section \<open>The operations\<close>

text \<open>What \<open>abs2twocomp\<close> gives: the digits of \<open>v\<close> and the digit that all digits above them have.\<close>

fun tcomp :: "RBignum \<times> nat \<times> BDIGIT \<Rightarrow> int \<Rightarrow> bool" where
  "tcomp (x, n, h) v \<longleftrightarrow> n \<le> BIGNUM_LEN x \<and> (h = 0 \<or> h = BDIGMAX) \<and>
    v = bval (take n (BDIGITS x)) + 4294967296 ^ n * top_int h"

lemma tcomp_abs2twocomp: "tcomp (abs2twocomp x) (bigval x)"
proof (cases "abs2twocomp x")
  case (fields x' n h)
  then show ?thesis using abs2twocomp_spec [OF fields] by (auto simp: top_int_def)
qed

lemma bval_replicate_hibits: "h = 0 \<or> h = BDIGMAX \<Longrightarrow> bval (replicate k h) + 4294967296 ^ k * top_int h = top_int h"
  by (auto simp: BDIGMAX_minus_1 bval_replicate_max top_int_def)

text \<open>More digits of the same number.\<close>

lemma tcomp_extend:
  assumes "h = 0 \<or> h = BDIGMAX"
  shows "bval (ds @ replicate k h) + 4294967296 ^ (length ds + k) * top_int h = bval ds + 4294967296 ^ length ds * top_int h"
proof -
  have "bval (ds @ replicate k h) + 4294967296 ^ (length ds + k) * top_int h =
      bval ds + 4294967296 ^ length ds * (bval (replicate k h) + 4294967296 ^ k * top_int h)"
    by (simp add: bval_append power_add algebra_simps)
  then show ?thesis unfolding bval_replicate_hibits [OF assms] .
qed

lemma tcomp_split:
  "k \<le> length ds \<Longrightarrow> bval ds + 4294967296 ^ length ds * t =
    bval (take k ds) + 4294967296 ^ k * (bval (drop k ds) + 4294967296 ^ (length ds - k) * t)"
  using bval_take_drop [of k ds] power_add [of "4294967296 :: int" k "length ds - k"] by (simp add: algebra_simps)

lemma shorter_first_tcomp:
  assumes "shorter_first p q = ((x, m, h), y, n, k)" "tcomp p v" "tcomp q w"
  shows "m \<le> n" "tcomp (x, m, h) v \<and> tcomp (y, n, k) w \<or> tcomp (x, m, h) w \<and> tcomp (y, n, k) v"
  using assms by (auto simp: shorter_first_def split: if_splits simp del: tcomp.simps)

context bitwise
begin

lemma bignorm_result:
  assumes "length xs = length ys" "v = bval xs + 4294967296 ^ length xs * a" "w = bval ys + 4294967296 ^ length ys * b"
    and "G a b = (if t then - 1 else 0)"
  shows "is_int (G v w) (bignorm (Bignum (twocomp2abs_bang (bignew (map2 F xs ys) False) t)))"
  using digits [OF assms(1), of a b] assms by (simp add: is_int_def int_simps)

text \<open>The digits of \<open>x\<close> all, those of \<open>y\<close> as far, and the others with the digit above \<open>x\<close>.\<close>

lemma bignorm_extended:
  assumes "tcomp (x, m, h) v" "tcomp (y, n, k) w" "m \<le> n" "G (top_int h) (top_int k) = (if t then - 1 else 0)"
    and "zds = map2 F (take m (BDIGITS x)) (take m (BDIGITS y)) @ map (F h) (drop m (take n (BDIGITS y)))"
  shows "is_int (G v w) (bignorm (Bignum (twocomp2abs_bang (bignew zds False) t)))"
proof -
  let ?xs = "take m (BDIGITS x)" and ?ys = "take n (BDIGITS y)"
  have len: "length ?xs = m" "length ?ys = n" using assms(1,2) by auto
  have ext: "v = bval (?xs @ replicate (n - m) h) + 4294967296 ^ n * top_int h"
    using tcomp_extend [of h ?xs "n - m"] assms(1,3) len by simp
  have zds: "zds = map2 F (?xs @ replicate (n - m) h) ?ys"
    using map2_extend [of ?xs ?ys F h] assms(3,5) len by (simp add: min_def)
  show ?thesis unfolding zds by (rule bignorm_result [OF _ _ _ assms(4)]) (use assms(2,3) ext len in auto)
qed

text \<open>Only the digits both have, where those above do not matter.\<close>

lemma bignorm_cut:
  assumes "tcomp (x, m, h) v" "w = bval (take m ds) + 4294967296 ^ m * b" "m \<le> length ds" "G (top_int h) b = (if t then - 1 else 0)"
  shows "is_int (G v w) (bignorm (Bignum (twocomp2abs_bang (bignew (map2 F (take m (BDIGITS x)) (take m ds)) False) t)))"
  by (rule bignorm_result [OF _ _ _ assms(4)]) (use assms in auto)

end

lemma top_int_0_iff: "h = 0 \<or> h = BDIGMAX \<Longrightarrow> h \<noteq> 0 \<longleftrightarrow> h = BDIGMAX"
  by (auto simp: BDIGMAX_def)

lemma bigand_int_is:
  assumes "tcomp (x, n, h) v" "v \<noteq> 0"
  shows "\<exists>z. bigand_int x n h y = Some z \<and> is_int (v AND sint y) z"
proof -
  let ?xs = "take n (BDIGITS x)"
  have h: "h = 0 \<or> h = BDIGMAX" and len: "length ?xs = n" using assms(1) by auto
  consider "y = 0" | "y \<noteq> 0" "n = 0" | "y \<noteq> 0" "n \<noteq> 0" "h = 0" | "y \<noteq> 0" "n \<noteq> 0" "h = BDIGMAX" using h by blast
  then show ?thesis
  proof cases
    case 1
    have "is_int 0 (Fixnum (LONG2FIX 0))" by (simp add: is_int_def LONG2FIX_def)
    then show ?thesis using 1 by (simp add: bigand_int_def)
  next
    case 2
    then have "h \<noteq> 0" "v = - 1" using assms h by (auto simp: top_int_def)
    then show ?thesis using 2 by (simp add: bigand_int_def is_int_def int_simps)
  next
    case 3
    have "is_int (v AND sint y) (bignorm (Bignum (twocomp2abs_bang (bignew (map2 (AND) ?xs (take n (long_digits n y))) False) False)))"
      by (rule bw_and.bignorm_cut [OF assms(1)]) (use 3 sint_long_digits [of y n] in auto)
    then show ?thesis using 3 len by (simp add: bigand_int_def andint_x_eq)
  next
    case 4
    define zn where "zn = (if n < 2 then 2 else n)"
    have zn: "2 \<le> zn" "n \<le> zn" by (auto simp: zn_def)
    have "andint_z h (long_hibits y) (zn - n) ((BIGDN_S ^^ n) y) =
        map2 (AND) (replicate (zn - n) h) (long_digits (zn - n) ((BIGDN_S ^^ n) y))"
      using andint_z_eq [of h "(BIGDN_S ^^ n) y" "zn - n"] by simp
    then have zds: "map2 (AND) ?xs (long_digits n y) @ andint_z h (long_hibits y) (zn - n) ((BIGDN_S ^^ n) y) =
        map2 (AND) (?xs @ replicate (zn - n) h) (long_digits zn y)"
      using long_digits_append [of n "zn - n" y] zn len by simp
    have "is_int (v AND sint y) (bignorm (Bignum (twocomp2abs_bang (bignew
        (map2 (AND) (?xs @ replicate (zn - n) h) (long_digits zn y)) False) (h \<noteq> 0 \<and> long_hibits y \<noteq> 0))))"
      by (rule bw_and.bignorm_result [where a = "top_int h" and b = "top_int (long_hibits y)"])
        (use assms(1) tcomp_extend [OF h, of ?xs "zn - n"] long_two_digits [OF zn(1), of y] len zn in \<open>auto simp: top_int_def\<close>)
    moreover have "h \<noteq> 0" using 4 by (simp add: BDIGMAX_def)
    ultimately show ?thesis using 4(1,2) len by (simp add: bigand_int_def andint_x_eq zds zn_def [symmetric] Let_def)
  qed
qed

lemma bigor_int_is:
  assumes "tcomp (x, n, h) v" "fixable (sint y)"
  shows "is_int (v OR sint y) (bigor_int x n h y)"
proof -
  let ?xs = "take n (BDIGITS x)"
  have h: "h = 0 \<or> h = BDIGMAX" and len: "length ?xs = n" using assms(1) by auto
  have minus: "is_int (- 1) (Fixnum (LONG2FIX (- 1)))" by (simp add: is_int_def LONG2FIX_def)
  consider "y = - 1" | "y \<noteq> - 1" "n = 0" | "y \<noteq> - 1" "n \<noteq> 0" by blast
  then show ?thesis
  proof cases
    case 2
    then have "v = top_int h" using assms(1) by simp
    then show ?thesis using 2 minus ival_LONG2FIX [OF assms(2)] by (auto simp: bigor_int_def is_int_def top_int_def)
  next
    case 3
    define zn where "zn = (if BIGNUM_LEN x < 2 then 2 else BIGNUM_LEN x)"
    have zn: "2 \<le> zn" "n \<le> zn" using assms(1) by (auto simp: zn_def)
    have "is_int (v OR sint y) (bignorm (Bignum (twocomp2abs_bang (bignew
        (map2 (OR) (?xs @ replicate (zn - n) h) (long_digits zn y)) False) (h \<noteq> 0 \<or> long_hibits y \<noteq> 0))))"
      by (rule bw_or.bignorm_result [where a = "top_int h" and b = "top_int (long_hibits y)"])
        (use assms(1) tcomp_extend [OF h, of ?xs "zn - n"] long_two_digits [OF zn(1), of y] len zn in \<open>auto simp: top_int_def\<close>)
    then show ?thesis using 3 len zn by (simp add: bigor_int_def orint_x_eq [OF h] zn_def [symmetric] Let_def)
  qed (use minus in \<open>simp add: bigor_int_def\<close>)
qed

lemma bigxor_int_is:
  assumes "tcomp (x, n, h) v"
  shows "is_int (v XOR sint y) (bigxor_int x n h y)"
proof -
  let ?xs = "take n (BDIGITS x)"
  have h: "h = 0 \<or> h = BDIGMAX" and len: "length ?xs = n" using assms(1) by auto
  define zn where "zn = (if BIGNUM_LEN x < 2 then 2 else BIGNUM_LEN x)"
  have zn: "2 \<le> zn" "n \<le> zn" using assms(1) by (auto simp: zn_def)
  have top: "top_int h XOR top_int (long_hibits y) = (if h XOR long_hibits y \<noteq> 0 then - 1 else 0)"
    using h long_hibits_cases [of y] by (auto simp: top_int_def BDIGMAX_minus_1)
  have "is_int (v XOR sint y) (bignorm (Bignum (twocomp2abs_bang (bignew
      (map2 (XOR) (?xs @ replicate (zn - n) h) (long_digits zn y)) False) (h XOR long_hibits y \<noteq> 0))))"
    by (rule bw_xor.bignorm_result [OF _ _ _ top])
      (use assms(1) tcomp_extend [OF h, of ?xs "zn - n"] long_two_digits [OF zn(1), of y] len zn in auto)
  then show ?thesis using len zn by (simp add: bigxor_int_def xorint_loop_eq zn_def [symmetric] Let_def)
qed

text \<open>Two bignums, swapped so that the shorter one comes first.\<close>

lemma top_int_op:
  assumes "h = 0 \<or> h = BDIGMAX" "k = 0 \<or> k = BDIGMAX"
  shows "top_int h AND top_int k = (if h \<noteq> 0 \<and> k \<noteq> 0 then - 1 else 0)"
    "top_int h OR top_int k = (if h \<noteq> 0 \<or> k \<noteq> 0 then - 1 else 0)"
    "top_int h XOR top_int k = (if h XOR k \<noteq> 0 then - 1 else 0)"
  using assms by (auto simp: top_int_def BDIGMAX_minus_1)

lemma rb_big_and_is:
  assumes "bigval x \<noteq> 0"
  shows "\<exists>z. rb_big_and x y = Some z \<and> is_int (bigval x AND ival y) z"
proof (cases y)
  case (Fixnum w)
  obtain x' n h where a: "abs2twocomp x = (x', n, h)" by (cases "abs2twocomp x")
  then have "tcomp (x', n, h) (bigval x)" using tcomp_abs2twocomp [of x] by simp
  then show ?thesis using bigand_int_is [OF _ assms, of x' n h "FIX2LONG w"] Fixnum a by (simp add: sint_FIX2LONG)
next
  case (Bignum b)
  obtain x' m h y' n k where s: "shorter_first (abs2twocomp x) (abs2twocomp b) = ((x', m, h), y', n, k)" by (metis prod.exhaust)
  note o = shorter_first_tcomp [OF s tcomp_abs2twocomp tcomp_abs2twocomp]
  have "is_int (v AND w) (bignorm (Bignum (twocomp2abs_bang (bignew (map2 (AND) (take m (BDIGITS x')) (take m (BDIGITS y')) @
      map (\<lambda>d. h AND d) (drop m (take (if h = 0 then m else n) (BDIGITS y')))) False) (h \<noteq> 0 \<and> k \<noteq> 0))))"
    if t: "tcomp (x', m, h) v" "tcomp (y', n, k) w" for v w
  proof (cases "h = 0")
    case True
    have "is_int (v AND w) (bignorm (Bignum (twocomp2abs_bang (bignew (map2 (AND) (take m (BDIGITS x')) (take m (take n (BDIGITS y')))) False) False)))"
      by (rule bw_and.bignorm_cut [OF t(1)]) (use t(2) True o(1) tcomp_split [of m "take n (BDIGITS y')"] in auto)
    then show ?thesis using True o(1) by (simp add: min_def)
  next
    case False
    have "top_int h AND top_int k = (if h \<noteq> 0 \<and> k \<noteq> 0 then - 1 else 0)" using t by (intro top_int_op) auto
    note e = bw_and.bignorm_extended [OF t o(1) this refl]
    have "(if h = 0 then m else n) = n" using False by simp
    then show ?thesis using e by (simp only:)
  qed
  moreover have "rb_big_and x y = Some (bignorm (Bignum (twocomp2abs_bang (bignew (map2 (AND) (take m (BDIGITS x')) (take m (BDIGITS y')) @
      map (\<lambda>d. h AND d) (drop m (take (if h = 0 then m else n) (BDIGITS y')))) False) (h \<noteq> 0 \<and> k \<noteq> 0))))"
    using s Bignum by (simp add: Let_def)
  ultimately show ?thesis unfolding Bignum ival.simps using o(2) by (metis and.commute)
qed

lemma rb_big_or_is:
  assumes "normal y"
  shows "is_int (bigval x OR ival y) (rb_big_or x y)"
proof (cases y)
  case (Fixnum w)
  obtain x' n h where a: "abs2twocomp x = (x', n, h)" by (cases "abs2twocomp x")
  then have "tcomp (x', n, h) (bigval x)" using tcomp_abs2twocomp [of x] by simp
  then show ?thesis using bigor_int_is [of x' n h _ "FIX2LONG w"] Fixnum a fixable_Fixnum [of w] by (simp add: sint_FIX2LONG)
next
  case (Bignum b)
  obtain x' m h y' n k where s: "shorter_first (abs2twocomp x) (abs2twocomp b) = ((x', m, h), y', n, k)" by (metis prod.exhaust)
  note o = shorter_first_tcomp [OF s tcomp_abs2twocomp tcomp_abs2twocomp]
  have "is_int (v OR w) (bignorm (Bignum (twocomp2abs_bang (bignew (map2 (OR) (take m (BDIGITS x')) (take m (BDIGITS y')) @
      map (\<lambda>d. h OR d) (drop m (take (if h \<noteq> 0 then m else n) (BDIGITS y')))) False) (h \<noteq> 0 \<or> k \<noteq> 0))))"
    if t: "tcomp (x', m, h) v" "tcomp (y', n, k) w" for v w
  proof (cases "h = 0")
    case False
    then have h: "top_int h = - 1" by (simp add: top_int_def)
    have "is_int (v OR w) (bignorm (Bignum (twocomp2abs_bang (bignew (map2 (OR) (take m (BDIGITS x')) (take m (take n (BDIGITS y')))) False) True)))"
      by (rule bw_or.bignorm_cut [OF t(1)]) (use t(2) h o(1) tcomp_split [of m "take n (BDIGITS y')"] in auto)
    then show ?thesis using False o(1) by (simp add: min_def)
  next
    case True
    have "top_int h OR top_int k = (if h \<noteq> 0 \<or> k \<noteq> 0 then - 1 else 0)" using t by (intro top_int_op) auto
    note e = bw_or.bignorm_extended [OF t o(1) this refl]
    have "(if h \<noteq> 0 then m else n) = n" using True by simp
    then show ?thesis using e by (simp only:)
  qed
  moreover have "rb_big_or x y = bignorm (Bignum (twocomp2abs_bang (bignew (map2 (OR) (take m (BDIGITS x')) (take m (BDIGITS y')) @
      map (\<lambda>d. h OR d) (drop m (take (if h \<noteq> 0 then m else n) (BDIGITS y')))) False) (h \<noteq> 0 \<or> k \<noteq> 0)))"
    using s Bignum by (simp add: Let_def)
  ultimately show ?thesis unfolding Bignum ival.simps using o(2) by (metis or.commute)
qed

lemma rb_big_xor_is: "is_int (bigval x XOR ival y) (rb_big_xor x y)"
proof (cases y)
  case (Fixnum w)
  obtain x' n h where a: "abs2twocomp x = (x', n, h)" by (cases "abs2twocomp x")
  then have "tcomp (x', n, h) (bigval x)" using tcomp_abs2twocomp [of x] by simp
  then show ?thesis using bigxor_int_is [of x' n h _ "FIX2LONG w"] Fixnum a by (simp add: sint_FIX2LONG)
next
  case (Bignum b)
  obtain x' m h y' n k where s: "shorter_first (abs2twocomp x) (abs2twocomp b) = ((x', m, h), y', n, k)" by (metis prod.exhaust)
  note o = shorter_first_tcomp [OF s tcomp_abs2twocomp tcomp_abs2twocomp]
  have "is_int (v XOR w) (bignorm (Bignum (twocomp2abs_bang (bignew (map2 (XOR) (take m (BDIGITS x')) (take m (BDIGITS y')) @
      map (\<lambda>d. h XOR d) (drop m (take n (BDIGITS y')))) False) (h XOR k \<noteq> 0))))"
    if t: "tcomp (x', m, h) v" "tcomp (y', n, k) w" for v w
  proof -
    have "top_int h XOR top_int k = (if h XOR k \<noteq> 0 then - 1 else 0)" using t by (intro top_int_op) auto
    note e = bw_xor.bignorm_extended [OF t o(1) this refl]
    show ?thesis by (rule e)
  qed
  moreover have "rb_big_xor x y = bignorm (Bignum (twocomp2abs_bang (bignew (map2 (XOR) (take m (BDIGITS x')) (take m (BDIGITS y')) @
      map (\<lambda>d. h XOR d) (drop m (take n (BDIGITS y')))) False) (h XOR k \<noteq> 0)))"
    using s Bignum by (simp add: Let_def)
  ultimately show ?thesis unfolding Bignum ival.simps using o(2) by (metis xor.commute)
qed

lemma rb_int_and_is:
  assumes "normal x" "normal y"
  shows "\<exists>z. rb_int_and x y = Some z \<and> is_int (ival x AND ival y) z"
proof (cases x)
  case (Bignum b)
  then have "bigval b \<noteq> 0" using assms(1) by (auto simp: fixable_def)
  then show ?thesis using rb_big_and_is [of b y] Bignum by simp
next
  case (Fixnum v)
  show ?thesis
  proof (cases y)
    case (Bignum b)
    then have "bigval b \<noteq> 0" using assms(2) by (auto simp: fixable_def)
    then show ?thesis using rb_big_and_is [of b x] Fixnum Bignum by (simp add: and.commute)
  next
    fix w assume "y = Fixnum w"
    then show ?thesis using Fixnum by (simp add: is_int_def LONG2NUM_spec sint_FIX2LONG signed_and_eq)
  qed
qed

lemma int_or_is:
  assumes "normal x" "normal y"
  shows "is_int (ival x OR ival y) (int_or x y)"
proof (cases x; cases y)
  fix v w assume "x = Fixnum v" "y = Fixnum w"
  then show ?thesis by (simp add: is_int_def LONG2NUM_spec sint_FIX2LONG signed_or_eq)
next
  fix v b assume "x = Fixnum v" "y = Bignum b"
  then show ?thesis using rb_big_or_is [OF assms(1), of b] by (simp add: or.commute)
qed (use rb_big_or_is [OF assms(2)] in \<open>auto simp del: rb_big_or.simps ival.simps(1)\<close>)

lemma int_xor_is: "is_int (ival x XOR ival y) (int_xor x y)"
proof (cases x; cases y)
  fix v w assume "x = Fixnum v" "y = Fixnum w"
  then show ?thesis by (simp add: is_int_def LONG2NUM_spec sint_FIX2LONG signed_xor_eq)
next
  fix v b assume "x = Fixnum v" "y = Bignum b"
  then show ?thesis using rb_big_xor_is [of b x] by (simp add: xor.commute)
qed (use rb_big_xor_is [of _ y] in \<open>auto simp del: rb_big_xor.simps ival.simps(1)\<close>)

end
