(* ===== verification/Big_Size.thy ===== *)
theory Big_Size
  imports Big_Bits
begin

text \<open>
  The size of an integer in bytes and bits, and its single bits (bignum.c, numeric.c).  Sizes are numbers
  of bytes that fit into memory, so the count of bits does not overflow a \<open>size_t\<close>.
\<close>

section \<open>Sizes\<close>

text \<open>The digits of the magnitude: of a fixnum in an array of two, filled by the loop \<open>long_digits\<close> stands for.\<close>

fun absint_digits :: "rb_integer \<Rightarrow> BDIGIT list" where
  "absint_digits (Fixnum x) = (let v = FIX2LONG x in long_digits 2 (if v <s 0 then - v else v))"
| "absint_digits (Bignum x) = BDIGITS x"

text \<open>The number of bytes, and the leading zero bits in the first of them.\<close>

definition rb_absint_size :: "rb_integer \<Rightarrow> nat \<times> nat" where
  "rb_absint_size val =
    (let ds = absint_digits val; n = BARY_TRUNC ds (length ds)
     in if n = 0 then (0, 0)
        else let num_leading_zeros = nlz_int32 (ds ! (n - 1))
             in (n * 4 - num_leading_zeros div 8, num_leading_zeros mod 8))"

definition absint_numwords_small :: "nat \<Rightarrow> nat \<Rightarrow> nat \<Rightarrow> nat \<times> nat" where
  "absint_numwords_small numbytes nlz_bits_in_msbyte word_numbits =
    (let val_numbits = numbytes * 8 - nlz_bits_in_msbyte; d = val_numbits div word_numbits; m = val_numbits mod word_numbits
     in (if m = 0 then d else d + 1, if m = 0 then 0 else word_numbits - m))"

text \<open>\<open>None\<close> is the answer \<open>(size_t)-1\<close>.\<close>

definition rb_absint_numwords :: "rb_integer \<Rightarrow> nat \<Rightarrow> (nat \<times> nat) option" where
  "rb_absint_numwords val word_numbits =
    (if word_numbits = 0 then None
     else let (numbytes, nlz_bits_in_msbyte) = rb_absint_size val
          in Some (absint_numwords_small numbytes nlz_bits_in_msbyte word_numbits))"

definition rb_absint_singlebit_p :: "rb_integer \<Rightarrow> bool" where
  "rb_absint_singlebit_p val =
    (let ds = absint_digits val; ds = take (BARY_TRUNC ds (length ds)) ds; ds = dropWhile (\<lambda>d. d = 0) ds
     in length ds = 1 \<and> POW2_P (ds ! 0))"

definition BIGSIZE :: "RBignum \<Rightarrow> nat" where
  "BIGSIZE x =
    (if BIGNUM_LEN x = 0 then 0
     else let d = BDIGITS x ! (BIGNUM_LEN x - 1)
          in if d \<noteq> 0 then BIGNUM_LEN x * 4 - nlz_int32 d div 8 else fst (rb_absint_size (Bignum x)))"

definition rb_big_bit_length :: "RBignum \<Rightarrow> nat" where
  "rb_big_bit_length big =
    (let (numbytes, nlz_bits) = rb_absint_size (Bignum big)
     in if numbytes = 0 then 0
        else let (numbytes, nlz_bits) =
                   (if \<not> BIGNUM_SIGN big \<and> rb_absint_singlebit_p (Bignum big)
                    then (if nlz_bits \<noteq> 7 then (numbytes, nlz_bits + 1) else (numbytes - 1, 0))
                    else (numbytes, nlz_bits))
             in numbytes * 8 - nlz_bits)"

definition rb_fix_bit_length :: "VALUE \<Rightarrow> nat" where
  "rb_fix_bit_length x = (let v = FIX2LONG x; v = (if v <s 0 then NOT v else v) in 64 - nlz_int64 v)"

fun rb_int_bit_length :: "rb_integer \<Rightarrow> nat" where
  "rb_int_bit_length (Fixnum x) = rb_fix_bit_length x"
| "rb_int_bit_length (Bignum x) = rb_big_bit_length x"

section \<open>A single bit\<close>

datatype range_error = RangeError

fun big2ulong_loop :: "BDIGIT list \<Rightarrow> nat \<Rightarrow> u64 \<Rightarrow> u64" where
  "big2ulong_loop ds 0 num = num"
| "big2ulong_loop ds (Suc i) num = big2ulong_loop ds i (push_bit 32 num + ucast (ds ! i))"

definition big2ulong :: "RBignum \<Rightarrow> range_error + u64" where
  "big2ulong x =
    (let len = BIGNUM_LEN x
     in if len = 0 then Inr 0 else if BIGSIZE x > 8 then Inl RangeError else Inr (big2ulong_loop (BDIGITS x) len 0))"

definition big_aref_bit :: "RBignum \<Rightarrow> nat \<Rightarrow> bool" where
  "big_aref_bit x shift =
    (let s1 = shift div 32; s2 = shift mod 32; b = push_bit s2 1 :: BDIGIT; xds = BDIGITS x
     in if s1 \<ge> BIGNUM_LEN x then \<not> BIGNUM_SIGN x
        else if BIGNUM_SIGN x then xds ! s1 AND b \<noteq> 0
        else if xds ! s1 AND (b - 1) \<noteq> 0 then xds ! s1 AND b = 0
        else if list_ex (\<lambda>d. d \<noteq> 0) (take s1 xds) then xds ! s1 AND b = 0
        else xds ! s1 AND b \<noteq> 0)"

text \<open>The answer \<open>true\<close> stands for \<open>INT2FIX(1)\<close>.\<close>

fun rb_big_aref :: "RBignum \<Rightarrow> rb_integer \<Rightarrow> range_error + bool" where
  "rb_big_aref x (Bignum y) =
    (if \<not> BIGNUM_SIGN y then Inr False
     else let y = bigtrunc y
          in if BIGSIZE y > 8 then Inr (\<not> BIGNUM_SIGN x)
             else map_sum id (\<lambda>shift. big_aref_bit x (unat shift)) (big2ulong y))"
| "rb_big_aref x (Fixnum y) = (let l = FIX2LONG y in Inr (if l <s 0 then False else big_aref_bit x (unat l)))"

fun rb_fix_aref_at :: "long \<Rightarrow> long \<Rightarrow> bool" where
  "rb_fix_aref_at val i =
    (if i <s 0 then False else if 63 \<le>s i then val <s 0 else val AND push_bit (unat i) 1 \<noteq> 0)"

fun rb_fix_aref :: "VALUE \<Rightarrow> rb_integer \<Rightarrow> bool" where
  "rb_fix_aref x (Fixnum i) = rb_fix_aref_at (FIX2LONG x) (FIX2LONG i)"
| "rb_fix_aref x (Bignum i) =
    (let val = FIX2LONG x
     in case bignorm (Bignum i) of
          Fixnum i \<Rightarrow> rb_fix_aref_at val (FIX2LONG i)
        | Bignum i \<Rightarrow> if \<not> BIGNUM_SIGN i \<or> 0 \<le>s val then False else True)"

text \<open>\<open>Integer#[]\<close> with an integer argument.\<close>

fun int_aref_one_bit :: "rb_integer \<Rightarrow> rb_integer \<Rightarrow> range_error + bool" where
  "int_aref_one_bit (Fixnum x) i = Inr (rb_fix_aref x i)"
| "int_aref_one_bit (Bignum x) i = rb_big_aref x i"

section \<open>What the sizes are\<close>

lemma sint_neg_fits: "fixable (sint (v :: long)) \<Longrightarrow> sint (if v <s 0 then - v else v) = \<bar>sint v\<bar>"
proof -
  assume "fixable (sint v)"
  then have v: "- 4611686018427387904 \<le> sint v" "sint v < 4611686018427387904" by (simp_all add: fixable_def)
  have "sint (- v) = - sint v" using sint_sub_fits [of 0 v] v by simp
  then show ?thesis by (simp add: word_sless_0)
qed

lemma bval_absint_digits: "bval (absint_digits x) = \<bar>ival x\<bar>"
proof (cases x)
  case (Fixnum v)
  let ?w = "FIX2LONG v"
  have fx: "fixable (sint ?w)" using fixable_Fixnum [of v] by (simp add: sint_FIX2LONG)
  define u where "u = (if ?w <s 0 then - ?w else ?w)"
  have u: "sint u = \<bar>sint ?w\<bar>" unfolding u_def by (rule sint_neg_fits [OF fx])
  have "sint u = bval (long_digits 2 u) + 4294967296 ^ 2 * top_int (long_hibits u)" by (rule long_two_digits) simp
  moreover have "long_hibits u = 0" using u by (simp add: long_hibits_def word_sle_eq)
  ultimately show ?thesis using u Fixnum by (simp add: u_def sint_FIX2LONG Let_def)
next
  case (Bignum b)
  then show ?thesis by (simp add: bigval_def)
qed

lemma bit_width_shifted: "a < 2 ^ k \<Longrightarrow> 0 < b \<Longrightarrow> bit_width (a + 2 ^ k * b) = k + bit_width b"
proof -
  assume a: "a < 2 ^ k" and b: "0 < b"
  then have "(a + 2 ^ k * b) div 2 ^ k = b" by simp
  then have "bit_width b = bit_width (a + 2 ^ k * b) - k" using bit_width_div_exp [of "a + 2 ^ k * b" k] by simp
  moreover have "2 ^ k \<le> a + 2 ^ k * b" using b by (cases b) simp_all
  then have "k < bit_width (a + 2 ^ k * b)" by (simp only: bit_width_less_iff)
  ultimately show ?thesis by simp
qed

text \<open>The bits of a number whose top digit is not zero.\<close>

lemma bit_width_digits:
  assumes "0 < n" "n \<le> length ds" "ds ! (n - 1) \<noteq> 0"
  shows "bit_width (nat (bval (take n ds))) = 32 * n - nlz_int32 (ds ! (n - 1))" "nlz_int32 (ds ! (n - 1)) < 32"
proof -
  let ?d = "ds ! (n - 1)" and ?low = "take (n - 1) ds"
  have split: "bval (take n ds) = bval ?low + 4294967296 ^ (n - 1) * uint ?d"
  proof -
    have "length (take n ds) = n" "take n ds ! (n - 1) = ?d" "take (n - 1) (take n ds) = ?low"
      using assms(1,2) by (simp_all add: min_def)
    then show ?thesis using bval_top_digit [of "take n ds"] assms(1) by (simp only:)
  qed
  have "(4294967296 :: int) ^ (n - 1) = 2 ^ (32 * (n - 1))" by (simp add: power_mult)
  then have eq: "nat (bval (take n ds)) = nat (bval ?low) + 2 ^ (32 * (n - 1)) * unat ?d"
    unfolding split by (simp add: nat_add_distrib nat_mult_distrib nat_power_eq)
  have "bval ?low < 4294967296 ^ (n - 1)" using bval_less [of ?low] assms(1,2) by (simp add: min_def split: if_splits)
  then have low: "nat (bval ?low) < 2 ^ (32 * (n - 1))" by (simp add: nat_less_iff power_mult)
  have pos: "0 < unat ?d" using assms(3) by (simp add: unat_gt_0)
  have "bit_width (unat ?d) \<le> 32" using unsigned_less [of ?d] by (simp add: bit_width_le_iff)
  moreover have "0 < bit_width (unat ?d)" using assms(3) by (metis bit_width_eq_0_iff neq0_conv unat_eq_zero)
  moreover have "bit_width (nat (bval (take n ds))) = 32 * (n - 1) + bit_width (unat ?d)"
    unfolding eq by (rule bit_width_shifted [OF low pos])
  ultimately show "bit_width (nat (bval (take n ds))) = 32 * n - nlz_int32 ?d" "nlz_int32 ?d < 32"
    using assms(1) by (simp_all add: nlz_int32_bit_width)
qed

lemma bytes_of_bits: "l < 32 * n \<Longrightarrow> 8 * (n * 4 - l div 8) = 32 * n - l + l mod (8 :: nat)"
proof -
  assume "l < 32 * n"
  moreover have "8 * (l div 8) + l mod 8 = l" by simp
  ultimately show ?thesis unfolding diff_mult_distrib2 by linarith
qed

lemma rb_absint_size_spec:
  assumes "rb_absint_size x = (b, z)"
  shows "8 * b = bit_width (nat \<bar>ival x\<bar>) + z" "z < 8"
proof -
  let ?ds = "absint_digits x"
  define n where "n = BARY_TRUNC ?ds (length ?ds)"
  note t = BARY_TRUNC_spec [OF order_refl, of ?ds, folded n_def]
  have v: "bval (take n ?ds) = \<bar>ival x\<bar>" using t(2) bval_absint_digits [of x] by simp
  have "8 * b = bit_width (nat \<bar>ival x\<bar>) + z \<and> z < 8"
  proof (cases "n = 0")
    case True
    then show ?thesis using assms v by (simp add: rb_absint_size_def n_def [symmetric])
  next
    case False
    note w = bit_width_digits [OF _ t(1) t(3), unfolded v]
    have "nlz_int32 (?ds ! (n - 1)) < 32 * n" using w(2) False by (cases n) simp_all
    then show ?thesis using assms w(1) False bytes_of_bits by (auto simp: rb_absint_size_def n_def [symmetric] Let_def)
  qed
  then show "8 * b = bit_width (nat \<bar>ival x\<bar>) + z" "z < 8" by blast+
qed

lemma rb_absint_numwords_spec:
  assumes "rb_absint_numwords x w = Some (n, z)" "0 < w"
  shows "w * n = bit_width (nat \<bar>ival x\<bar>) + z" "z < w"
proof -
  obtain b y where s: "rb_absint_size x = (b, y)" by fastforce
  note sp = rb_absint_size_spec [OF s]
  have bits: "b * 8 - y = bit_width (nat \<bar>ival x\<bar>)" using sp by linarith
  define k where "k = bit_width (nat \<bar>ival x\<bar>)"
  have "n = (if k mod w = 0 then k div w else k div w + 1)" "z = (if k mod w = 0 then 0 else w - k mod w)"
    using assms s by (auto simp: rb_absint_numwords_def absint_numwords_small_def bits Let_def k_def)
  moreover have "w * (k div w) + k mod w = k" by simp
  moreover have "k mod w < w" using assms(2) by simp
  ultimately show "w * n = bit_width (nat \<bar>ival x\<bar>) + z" "z < w"
    unfolding k_def [symmetric] by (cases "k mod w = 0"; simp add: distrib_left; linarith)+
qed

lemma BIGSIZE_eq: "BIGSIZE x = fst (rb_absint_size (Bignum x))"
proof (cases "BIGNUM_LEN x = 0 \<or> BDIGITS x ! (BIGNUM_LEN x - 1) = 0")
  case True
  then show ?thesis by (auto simp: BIGSIZE_def rb_absint_size_def)
next
  case False
  then have "BARY_TRUNC (BDIGITS x) (BIGNUM_LEN x) = BIGNUM_LEN x" by (cases "BIGNUM_LEN x") simp_all
  then show ?thesis using False by (simp add: BIGSIZE_def rb_absint_size_def Let_def)
qed

lemma BIGSIZE_le_8: "BIGSIZE x \<le> 8 \<longleftrightarrow> \<bar>bigval x\<bar> < 18446744073709551616"
proof -
  obtain b z where s: "rb_absint_size (Bignum x) = (b, z)" by fastforce
  note sp = rb_absint_size_spec [OF s]
  have "b \<le> 8 \<longleftrightarrow> bit_width (nat \<bar>bigval x\<bar>) \<le> 64" using sp by (simp; linarith)
  also have "\<dots> \<longleftrightarrow> nat \<bar>bigval x\<bar> < 18446744073709551616" by (simp add: bit_width_le_iff)
  also have "\<dots> \<longleftrightarrow> \<bar>bigval x\<bar> < 18446744073709551616" by linarith
  finally show ?thesis by (simp add: BIGSIZE_eq s)
qed

section \<open>The length in bits\<close>

lemma dropWhile_low_zero: "dropWhile (\<lambda>d. d = 0) ds = drop (low_zero_digits ds) ds"
  by (induction ds) simp_all

lemma POW2_P_of_power: "uint d = 2 ^ k \<Longrightarrow> POW2_P d"
proof -
  assume d: "uint d = 2 ^ k"
  have "uint (d - 1) = 2 ^ k - 1" using d by (subst uint_minus_simple_alt [THEN iffD1]) (simp_all add: word_le_def d)
  then have "uint (d AND (d - 1)) = 2 ^ k AND (2 ^ k - 1)" by (simp only: uint_and d)
  also have "\<dots> = 0" by (simp add: mask_eq_exp_minus_1 [symmetric] take_bit_eq_mask [symmetric])
  finally show ?thesis by (simp add: POW2_P_def uint_0_iff)
qed

lemma power_of_two_below:
  assumes "B * a + d = 2 ^ k" "B = 2 ^ 32" "0 < d" "d < B" "0 \<le> (a :: int)"
  shows "a = 0"
proof (rule ccontr)
  assume "a \<noteq> 0"
  then have "B * 1 \<le> B * a" using assms(2,5) by (intro mult_left_mono) simp_all
  then have "2 ^ 32 \<le> (2 :: int) ^ k" using assms by linarith
  then have "32 \<le> k" using power_increasing_iff [of "2 :: int" 32 k] by (simp only:)
  then have "(2 :: int) ^ k = 2 ^ (32 + (k - 32))" by simp
  then have "(2 ^ k :: int) = B * 2 ^ (k - 32)" by (simp only: power_add assms(2))
  then have "d = B * (2 ^ (k - 32) - a)" using assms(1) by (simp add: algebra_simps)
  then have "d mod B = 0" by simp
  then show False using assms(3,4) by simp
qed

lemma rb_absint_singlebit_p_iff: "rb_absint_singlebit_p x \<longleftrightarrow> (\<exists>k. \<bar>ival x\<bar> = 2 ^ k)"
proof -
  define n where "n = BARY_TRUNC (absint_digits x) (length (absint_digits x))"
  define ds where "ds = take n (absint_digits x)"
  note t = BARY_TRUNC_spec [OF order_refl, of "absint_digits x", folded n_def]
  have v: "bval ds = \<bar>ival x\<bar>" using t(2) bval_absint_digits [of x] by (simp add: ds_def)
  define es where "es = drop (low_zero_digits ds) ds"
  have es: "rb_absint_singlebit_p x \<longleftrightarrow> length es = 1 \<and> POW2_P (es ! 0)"
    unfolding rb_absint_singlebit_p_def Let_def n_def [symmetric] ds_def [symmetric] dropWhile_low_zero es_def [symmetric] ..
  show ?thesis
  proof (cases "\<bar>ival x\<bar> = 0")
    case True
    then have "n = 0" using BARY_TRUNC_eq_0 [of "absint_digits x"] bval_absint_digits [of x] by (simp add: n_def)
    then have "es = []" by (simp add: es_def ds_def)
    then show ?thesis using es True by simp
  next
    case False
    then have pos: "0 < bval ds" using v by linarith
    note z = low_zero_digits_spec [of ds, folded es_def]
    have val: "bval ds = 2 ^ (32 * low_zero_digits ds) * bval es" using z(2) pos by (simp add: power_mult)
    have pes: "0 < bval es" using val pos by (simp add: zero_less_mult_iff)
    then obtain d rest where dr: "es = d # rest" by (cases es) simp_all
    have "d = ds ! low_zero_digits ds" using dr z(1) pos hd_drop_conv_nth [of "low_zero_digits ds" ds] by (simp add: es_def)
    have d0: "d \<noteq> 0"
    proof -
      have "dropWhile (\<lambda>d. d = 0) ds = d # rest" using dr by (simp add: dropWhile_low_zero es_def)
      then show ?thesis by (metis (mono_tags) hd_dropWhile list.sel(1) list.discI)
    qed
    show ?thesis
    proof
      assume "rb_absint_singlebit_p x"
      then have "rest = []" "POW2_P d" using es dr by simp_all
      then have "bval es = 2 ^ (bit_length_digit d - 1)" using pow2_digit(1) [OF _ d0] dr by simp
      then have "\<bar>ival x\<bar> = 2 ^ (32 * low_zero_digits ds + (bit_length_digit d - 1))" using val v by (simp add: power_add)
      then show "\<exists>k. \<bar>ival x\<bar> = 2 ^ k" by blast
    next
      assume "\<exists>k. \<bar>ival x\<bar> = 2 ^ k"
      then obtain k where k: "2 ^ (32 * low_zero_digits ds) * bval es = 2 ^ k" using val v by auto
      have le: "32 * low_zero_digits ds \<le> k"
      proof (rule ccontr)
        assume "\<not> ?thesis"
        then have "(2 :: int) ^ k < 2 ^ (32 * low_zero_digits ds)" by simp
        moreover have "2 ^ (32 * low_zero_digits ds) * 1 \<le> 2 ^ (32 * low_zero_digits ds) * bval es"
          using pes by (intro mult_left_mono) simp_all
        ultimately show False using k by linarith
      qed
      then have "2 ^ (32 * low_zero_digits ds) * bval es = 2 ^ (32 * low_zero_digits ds) * 2 ^ (k - 32 * low_zero_digits ds)"
        using k by (simp flip: power_add)
      then have m: "4294967296 * bval rest + uint d = 2 ^ (k - 32 * low_zero_digits ds)" using dr by simp
      have "uint d \<noteq> 0" using d0 by (simp add: uint_0_iff)
      then have "0 < uint d" "uint d < 4294967296" using uint_digit [of d] by linarith+
      then have "bval rest = 0" using m by (intro power_of_two_below [of 4294967296 _ "uint d"]) simp_all
      then have "POW2_P d" using m by (intro POW2_P_of_power) simp
      moreover have "rest = []"
      proof (rule ccontr)
        assume "rest \<noteq> []"
        then have "last rest = last ds" "ds \<noteq> []" using dr pos by (auto simp: es_def last_drop) (metis dr es_def last_ConsR last_drop list.discI drop_all not_le)
        moreover have "last ds \<noteq> 0"
          using t(1,3) \<open>ds \<noteq> []\<close> by (cases n) (auto simp: ds_def last_conv_nth min_def)
        moreover have "last rest \<in> set rest" using \<open>rest \<noteq> []\<close> by simp
        ultimately show False using \<open>bval rest = 0\<close> by (simp add: bval_eq_0_iff)
      qed
      ultimately show "rb_absint_singlebit_p x" using es dr by simp
    qed
  qed
qed

lemma bit_width_pred:
  assumes "n \<noteq> 0"
  shows "bit_width (n - 1) = (if \<exists>k. n = 2 ^ k then bit_width n - 1 else bit_width n)"
proof (cases "\<exists>k. n = 2 ^ k")
  case True
  then obtain k where k: "n = 2 ^ k" by blast
  have "bit_width n \<le> Suc k" "k < bit_width n" unfolding bit_width_le_iff bit_width_less_iff k by simp_all
  moreover have "bit_width (n - 1) \<le> k" unfolding bit_width_le_iff k by simp
  moreover have "k - 1 < bit_width (n - 1) \<or> k = 0"
  proof (cases k)
    case (Suc j)
    have "(2 :: nat) ^ j \<le> 2 ^ Suc j - 1" by (simp add: mult_2)
    then show ?thesis unfolding bit_width_less_iff k Suc by simp
  qed simp
  ultimately show ?thesis using True by auto
next
  case False
  define w where "w = bit_width n"
  have w: "n < 2 ^ w" "2 ^ (w - 1) \<le> n" using bit_width_bounds [of n] assms by (simp_all add: w_def)
  have "n \<noteq> 2 ^ (w - 1)" using False by blast
  then have "w - 1 < bit_width (n - 1)" unfolding bit_width_less_iff using w by linarith
  moreover have "bit_width (n - 1) \<le> w" unfolding bit_width_le_iff using w by linarith
  ultimately show ?thesis using False by (simp add: w_def)
qed

lemma rb_big_bit_length_spec:
  "rb_big_bit_length x = bit_width (nat (if bigval x < 0 then - bigval x - 1 else bigval x))"
proof -
  obtain b z where s: "rb_absint_size (Bignum x) = (b, z)" by fastforce
  define w where "w = bit_width (nat \<bar>bigval x\<bar>)"
  have sp: "8 * b = w + z" "z < 8" using rb_absint_size_spec [OF s] by (simp_all add: w_def)
  show ?thesis
  proof (cases "b = 0")
    case True
    then have "bigval x = 0" using sp by (simp add: w_def)
    then show ?thesis using s True by (simp add: rb_big_bit_length_def)
  next
    case b0: False
    then have v0: "bigval x \<noteq> 0" using sp by (auto simp: w_def)
    show ?thesis
    proof (cases "BIGNUM_SIGN x")
      case True
      then have "0 \<le> bigval x" by (simp add: bigval_def)
      moreover have "b * 8 - z = w" using sp by linarith
      ultimately show ?thesis using True s b0 by (simp add: rb_big_bit_length_def w_def)
    next
      case False
      then have neg: "bigval x < 0" using v0 bigval_sign(2) [of x] by linarith
      define m where "m = nat (- bigval x)"
      have m: "m \<noteq> 0" "nat \<bar>bigval x\<bar> = m" "nat (- bigval x - 1) = m - 1" using neg by (auto simp: m_def nat_diff_distrib)
      have "(\<exists>k. \<bar>bigval x\<bar> = 2 ^ k) \<longleftrightarrow> (\<exists>k. m = 2 ^ k)"
      proof -
        have "\<bar>bigval x\<bar> = int m" using neg by (simp add: m_def)
        then have "\<bar>bigval x\<bar> = 2 ^ k \<longleftrightarrow> m = 2 ^ k" for k by (metis of_nat_eq_iff of_nat_numeral of_nat_power)
        then show ?thesis by simp
      qed
      then have single: "rb_absint_singlebit_p (Bignum x) \<longleftrightarrow> (\<exists>k. m = 2 ^ k)" by (simp add: rb_absint_singlebit_p_iff)
      have wm: "w = bit_width m" using m(2) by (simp add: w_def)
      have "rb_big_bit_length x = (if \<exists>k. m = 2 ^ k then w - 1 else w)"
        using s sp b0 False single by (auto simp: rb_big_bit_length_def)
      then show ?thesis using bit_width_pred [OF m(1)] m(3) neg wm by simp
    qed
  qed
qed

lemma rb_int_bit_length_is: "rb_int_bit_length x = bit_width (nat (if ival x < 0 then - ival x - 1 else ival x))"
proof (cases x)
  case (Fixnum u)
  define v where "v = FIX2LONG u"
  define t where "t = (if v <s 0 then NOT v else v)"
  have t: "sint t = (if sint v < 0 then - sint v - 1 else sint v)"
  proof -
    have "NOT v = (- 1) - v" by (simp add: not_eq_complement)
    then have "sint (NOT v) = - sint v - 1" if "sint v < 0"
      using sint_sub_fits [of "- 1" v] sint_range [of v] that by simp
    then show ?thesis by (simp add: t_def word_sless_0)
  qed
  then have "0 \<le> sint t" by simp
  then have "uint t = sint t" using sint_range(2) [of t] by (simp add: uint_sint take_bit_int_eq_self_iff)
  then have "unat t = nat (sint t)" by (metis unat_eq_nat_uint)
  moreover have "bit_width (unat t) \<le> 64" using unsigned_less [of t] by (simp add: bit_width_le_iff)
  ultimately show ?thesis
    using Fixnum t by (simp add: rb_fix_bit_length_def v_def [symmetric] t_def [symmetric] nlz_int64_bit_width Let_def flip: sint_FIX2LONG)
qed (simp add: rb_big_bit_length_spec)

section \<open>What a single bit is\<close>

lemma big2ulong_loop_eq: "big2ulong_loop ds n num = bigfixize_loop ds n num"
  by (induction ds n num rule: big2ulong_loop.induct) (simp_all add: BIGUP_def)

lemma bit_bval: "bit (bval ds) i \<longleftrightarrow> i < 32 * length ds \<and> bit (ds ! (i div 32)) (i mod 32)"
proof (induction ds arbitrary: i)
  case (Cons d ds)
  show ?case
  proof (cases "i < 32")
    case False
    then have "i div 32 = Suc ((i - 32) div 32)" "i mod 32 = (i - 32) mod 32" by (simp_all add: le_div_geq le_mod_geq)
    then show ?thesis using Cons.IH [of "i - 32"] False by (auto simp: bit_digit)
  qed (simp add: bit_digit)
qed simp

lemma bit_negated: "bit (- m) i \<longleftrightarrow> (if m mod 2 ^ i = 0 then bit m i else \<not> bit (m :: int) i)"
  by (simp add: bit_iff_odd zdiv_zminus1_eq_if)

lemma bval_mod_digits: "k \<le> length ds \<Longrightarrow> bval ds mod 4294967296 ^ k = bval (take k ds)"
proof -
  assume k: "k \<le> length ds"
  then have "bval (take k ds) < 4294967296 ^ k" using bval_less [of "take k ds"] by (simp add: min_absorb2)
  then show ?thesis using bval_take_drop [OF k] by simp
qed

lemma word_and_bit: "s < 32 \<Longrightarrow> (d :: BDIGIT) AND push_bit s 1 \<noteq> 0 \<longleftrightarrow> bit d s"
  using bit_iff_and_push_bit_not_eq_0 [of d s] by simp

lemma word_and_low: "s < 32 \<Longrightarrow> (d :: BDIGIT) AND (push_bit s 1 - 1) = 0 \<longleftrightarrow> uint d mod 2 ^ s = 0"
proof -
  assume s: "s < 32"
  have "push_bit s 1 - 1 = (mask s :: BDIGIT)" by (simp add: mask_eq_exp_minus_1 push_bit_of_1)
  then have "unat (d AND (push_bit s 1 - 1)) = unat d mod 2 ^ s" using s unat_mask_and [of s d] by simp
  then have "d AND (push_bit s 1 - 1) = 0 \<longleftrightarrow> unat d mod 2 ^ s = 0" by (metis unat_eq_zero)
  moreover have "uint d mod 2 ^ s = int (unat d mod 2 ^ s)" by (simp add: uint_nat zmod_int del: of_nat_unat)
  ultimately show ?thesis by simp
qed

lemma big_aref_bit_is: "big_aref_bit x i \<longleftrightarrow> bit (bigval x) i"
  if "BIGNUM_SIGN x \<or> bigval x \<noteq> 0"
proof -
  let ?ds = "BDIGITS x" and ?s1 = "i div 32" and ?s2 = "i mod 32"
  have s2: "?s2 < 32" by simp
  have nz: "BIGNUM_SIGN x \<or> bval ?ds \<noteq> 0" using that by (auto simp: bigval_def)
  show ?thesis
  proof (cases "?s1 < BIGNUM_LEN x")
    case False
    then have i: "32 * length ?ds \<le> i" by linarith
    have "bval ?ds mod 2 ^ i = bval ?ds"
    proof -
      have "(4294967296 :: int) ^ length ?ds = 2 ^ (32 * length ?ds)" by (simp add: power_mult)
      also have "\<dots> \<le> 2 ^ i" using i by (intro power_increasing) simp_all
      finally show ?thesis using bval_less [of ?ds] by (simp del: power_increasing_iff) 
    qed
    moreover have "\<not> bit (bval ?ds) i" using i by (simp add: bit_bval)
    ultimately show ?thesis using False nz by (cases "BIGNUM_SIGN x") (simp_all add: big_aref_bit_def bigval_def bit_negated Let_def)
  next
    case True
    then have i: "i < 32 * length ?ds" by linarith
    define d where "d = ?ds ! ?s1"
    have bd: "bit (bval ?ds) i \<longleftrightarrow> bit d ?s2" using i by (simp add: bit_bval d_def)
    have "bval ?ds mod 2 ^ i = 0 \<longleftrightarrow> uint d mod 2 ^ ?s2 = 0 \<and> \<not> list_ex (\<lambda>d. d \<noteq> 0) (take ?s1 ?ds)"
    proof -
      let ?low = "take ?s1 ?ds" and ?hi = "drop ?s1 ?ds"
      have hi: "bval ?hi = uint d + 4294967296 * bval (drop (Suc ?s1) ?ds)" using True by (simp add: d_def flip: Cons_nth_drop_Suc)
      have P: "(2 :: int) ^ i = 4294967296 ^ ?s1 * 2 ^ ?s2"
      proof -
        have "(2 :: int) ^ (32 * ?s1 + ?s2) = 4294967296 ^ ?s1 * 2 ^ ?s2" unfolding power_add power_mult by simp
        then show ?thesis by (simp only: mult_div_mod_eq)
      qed
      have "bval ?ds mod 2 ^ i = 4294967296 ^ ?s1 * (bval ?ds div 4294967296 ^ ?s1 mod 2 ^ ?s2) + bval ?ds mod 4294967296 ^ ?s1"
        unfolding P by (rule zmod_zmult2_eq) simp
      moreover have "bval ?ds mod 4294967296 ^ ?s1 = bval ?low" using True by (intro bval_mod_digits) simp
      moreover have "bval ?ds div 4294967296 ^ ?s1 = bval ?hi"
        using bval_take_drop [of ?s1 ?ds] bval_less [of ?low] True by (simp add: min_def)
      moreover have "bval ?hi mod 2 ^ ?s2 = uint d mod 2 ^ ?s2"
      proof -
        have "(2 :: int) ^ ?s2 dvd 4294967296" using le_imp_power_dvd [of ?s2 32 "2 :: int"] by simp
        then have "(2 :: int) ^ ?s2 dvd 4294967296 * bval (drop (Suc ?s1) ?ds)" by (rule dvd_mult2)
        then show ?thesis unfolding hi by (metis add.right_neutral dvd_imp_mod_0 mod_add_right_eq)
      qed
      ultimately have "bval ?ds mod 2 ^ i = 4294967296 ^ ?s1 * (uint d mod 2 ^ ?s2) + bval ?low" by simp
      moreover have "0 \<le> uint d mod 2 ^ ?s2" by simp
      then have "0 \<le> 4294967296 ^ ?s1 * (uint d mod 2 ^ ?s2)" by simp
      ultimately have "bval ?ds mod 2 ^ i = 0 \<longleftrightarrow> 4294967296 ^ ?s1 * (uint d mod 2 ^ ?s2) = 0 \<and> bval ?low = 0"
        using bval_nonneg [of ?low] by linarith
      then show ?thesis by (simp add: bval_eq_0_iff list_ex_iff)
    qed
    then show ?thesis
      using True bd word_and_bit [OF s2, of d] word_and_low [OF s2, of d]
      by (auto simp: big_aref_bit_def bigval_def bit_negated Let_def d_def [symmetric])
  qed
qed

lemma bit_beyond: "- (2 ^ i) \<le> v \<Longrightarrow> v < 2 ^ i \<Longrightarrow> bit (v :: int) i \<longleftrightarrow> v < 0"
proof (cases "v < 0")
  case True
  assume "- (2 ^ i) \<le> v" "v < 2 ^ i"
  then have "v div 2 ^ i = - 1" using True by (intro int_div_pos_eq [of _ _ _ "v + 2 ^ i"]) simp_all
  then show ?thesis using True by (simp add: bit_iff_odd)
next
  case False
  assume "- (2 ^ i) \<le> v" "v < 2 ^ i"
  then show ?thesis using False by (simp add: bit_iff_odd)
qed

lemma bit_ge_63: "63 \<le> i \<Longrightarrow> bit (sint (v :: long)) i \<longleftrightarrow> sint v < 0"
proof -
  assume "63 \<le> i"
  then have "(2 :: int) ^ 63 \<le> 2 ^ i" by (intro power_increasing) simp_all
  then show ?thesis using sint_range [of v] by (intro bit_beyond) simp_all
qed

lemma nat_sint: "0 \<le> sint (v :: long) \<Longrightarrow> unat v = nat (sint v)"
proof -
  assume "0 \<le> sint v"
  then have "uint v = sint v" using sint_range(2) [of v] by (simp add: uint_sint take_bit_int_eq_self_iff)
  then show ?thesis by (metis unat_eq_nat_uint)
qed

lemma rb_fix_aref_at_is: "rb_fix_aref_at val i \<longleftrightarrow> 0 \<le> sint i \<and> bit (sint val) (nat (sint i))"
proof (cases "sint i < 63")
  case False
  moreover have "63 \<le> nat (sint i)" using False by linarith
  ultimately show ?thesis using bit_ge_63 [of "nat (sint i)" val] by (simp add: word_sless_0 word_sle_eq)
next
  case True
  show ?thesis
  proof (cases "sint i < 0")
    case False
    then have n: "unat i = nat (sint i)" by (intro nat_sint) simp
    have lt: "nat (sint i) < 63" using True by linarith
    then have "val AND push_bit (unat i) 1 \<noteq> 0 \<longleftrightarrow> bit val (nat (sint i))"
      using bit_iff_and_push_bit_not_eq_0 [of val "nat (sint i)"] n by simp
    moreover have "bit (sint val) (nat (sint i)) \<longleftrightarrow> bit val (nat (sint i))" using lt by (auto simp: bit_sint_iff)
    ultimately show ?thesis using True False by (simp add: word_sless_0 word_sle_eq)
  qed (simp add: word_sless_0)
qed

lemma bigtrunc_trunc: "BDIGITS x \<noteq> [] \<Longrightarrow> last (BDIGITS x) \<noteq> 0 \<Longrightarrow> bigtrunc x = x"
proof -
  assume x: "BDIGITS x \<noteq> []" "last (BDIGITS x) \<noteq> 0"
  then have "top_index (BDIGITS x) (BIGNUM_LEN x) = BIGNUM_LEN x - 1"
    by (cases "BIGNUM_LEN x") (simp_all add: last_conv_nth)
  then show ?thesis by (simp add: bigtrunc_def Let_def)
qed

lemma big2ulong_spec:
  assumes "BDIGITS y \<noteq> []" "last (BDIGITS y) \<noteq> 0" "bval (BDIGITS y) < 18446744073709551616"
  shows "\<exists>u. big2ulong y = Inr u \<and> uint u = bval (BDIGITS y)"
proof -
  let ?ds = "BDIGITS y"
  have len: "length ?ds \<le> 2"
  proof (rule ccontr)
    assume "\<not> length ?ds \<le> 2"
    then have "(4294967296 :: int) ^ 2 \<le> 4294967296 ^ (length ?ds - 1)" by (intro power_increasing) simp_all
    then show False using bval_last [OF assms(1,2)] assms(3) by simp
  qed
  have "BIGSIZE y \<le> 8" using assms(3) by (simp add: BIGSIZE_le_8 bigval_def)
  then have "big2ulong y = Inr (big2ulong_loop ?ds (length ?ds) 0)" using assms(1) by (simp add: big2ulong_def)
  moreover have "uint (bigfixize_loop ?ds (length ?ds) 0) = bval ?ds"
    using bigfixize_loop_spec [of "length ?ds" ?ds "2 - length ?ds" 0] len by simp
  ultimately show ?thesis by (simp add: big2ulong_loop_eq)
qed

lemma rb_big_aref_is:
  assumes "bigval x \<noteq> 0" "normal i" "BIGNUM_LEN x < 576460752303423488"
  shows "rb_big_aref x i = Inr (0 \<le> ival i \<and> bit (bigval x) (nat (ival i)))"
proof (cases i)
  case (Fixnum v)
  have "big_aref_bit x (unat (FIX2LONG v)) \<longleftrightarrow> bit (bigval x) (nat (sint (FIX2LONG v)))" if "0 \<le> sint (FIX2LONG v)"
    using big_aref_bit_is [of x] assms(1) nat_sint [OF that] by simp
  then show ?thesis using Fixnum by (auto simp: word_sless_0 sint_FIX2LONG Let_def)
next
  case (Bignum y)
  then have y: "BDIGITS y \<noteq> []" "last (BDIGITS y) \<noteq> 0" "\<not> fixable (bigval y)" using assms(2) by simp_all
  show ?thesis
  proof (cases "BIGNUM_SIGN y")
    case False
    moreover have "bigval y \<noteq> 0" using y(3) by (auto simp: fixable_def)
    ultimately have "bigval y < 0" using bigval_sign(2) [of y] by linarith
    then show ?thesis using Bignum False by simp
  next
    case True
    then have v: "bigval y = bval (BDIGITS y)" by (simp add: bigval_def)
    have size: "BIGSIZE y \<le> 8 \<longleftrightarrow> bval (BDIGITS y) < 18446744073709551616" using v by (simp add: BIGSIZE_le_8)
    show ?thesis
    proof (cases "BIGSIZE y \<le> 8")
      case le: True
      then obtain u where u: "big2ulong y = Inr u" "uint u = bval (BDIGITS y)" using big2ulong_spec [OF y(1,2)] size by blast
      then have "unat u = nat (bval (BDIGITS y))" by (metis unat_eq_nat_uint)
      then show ?thesis using Bignum True le u bigtrunc_trunc [OF y(1,2)] big_aref_bit_is [of x] assms(1) v by simp
    next
      case gt: False
      then have "18446744073709551616 \<le> bval (BDIGITS y)" using size by linarith
      then have "18446744073709551616 \<le> nat (bval (BDIGITS y))" by linarith
      then have "BIGNUM_LEN x \<le> nat (bval (BDIGITS y)) div 32" using assms(3) by linarith
      then have "big_aref_bit x (nat (bval (BDIGITS y))) \<longleftrightarrow> \<not> BIGNUM_SIGN x" by (simp add: big_aref_bit_def)
      then show ?thesis using Bignum True gt bigtrunc_trunc [OF y(1,2)] big_aref_bit_is [of x] assms(1) v by simp
    qed
  qed
qed

lemma rb_fix_aref_is:
  assumes "normal i"
  shows "rb_fix_aref x i \<longleftrightarrow> 0 \<le> ival i \<and> bit (ival (Fixnum x)) (nat (ival i))"
proof (cases i)
  case (Fixnum v)
  then show ?thesis using rb_fix_aref_at_is by (simp add: sint_FIX2LONG)
next
  case (Bignum b)
  then have "bignorm (Bignum b) = Bignum b" using assms by (metis normal_bignorm ival_bignorm ival.simps(2) normal_unique)
  moreover have "\<not> fixable (bigval b)" using assms Bignum by simp
  then have v: "bigval b < - 4611686018427387904 \<or> 4611686018427387904 \<le> bigval b" by (auto simp: fixable_def)
  then have sgn: "BIGNUM_SIGN b \<longleftrightarrow> 0 \<le> bigval b" using bigval_sign [of b] by linarith
  moreover have "bit (sint (FIX2LONG x)) (nat (bigval b)) \<longleftrightarrow> sint (FIX2LONG x) < 0" if "0 \<le> bigval b"
    using v that by (intro bit_ge_63) linarith
  ultimately show ?thesis using Bignum by (auto simp: word_sle_eq sint_FIX2LONG Let_def simp del: rb_fix_aref_at.simps)
qed

lemma int_aref_one_bit_is:
  assumes "normal x" "normal i" "big_digits x < 576460752303423488"
  shows "int_aref_one_bit x i = Inr (0 \<le> ival i \<and> bit (ival x) (nat (ival i)))"
proof (cases x)
  case (Fixnum v)
  then show ?thesis using rb_fix_aref_is [OF assms(2)] by simp
next
  case (Bignum b)
  then have "bigval b \<noteq> 0" using assms(1) by (auto simp: fixable_def)
  then show ?thesis using rb_big_aref_is [OF _ assms(2), of b] assms(3) Bignum by simp
qed

end
