(* ===== verification/Integer_Properties.thy ===== *)
theory Integer_Properties
  imports Big_Size
begin

text \<open>
  What \<open>Integer\<close> promises: its operations are those of the whole numbers, whatever the representation,
  and a number has one representation only.
\<close>

text \<open>C29: Addition, subtraction and multiplication of integers, fixnums and bignums mixed, are those of the
  whole numbers, with a result in normal form.  Only a product of two bignums of 70 digits or more,
  not the same object, may end in \<open>rb_bug\<close> instead.
\<close>

theorem integer_ring:
  assumes "normal x" "normal y" "same \<Longrightarrow> x = y"
  shows "ival (rb_int_plus x y) = ival x + ival y \<and> normal (rb_int_plus x y) \<and>
    ival (rb_int_minus x y) = ival x - ival y \<and> normal (rb_int_minus x y) \<and>
    ((\<exists>z. rb_int_mul same x y = Inr z \<and> ival z = ival x * ival y \<and> normal z) \<or>
     \<not> same \<and> 70 \<le> big_digits x \<and> 70 \<le> big_digits y \<and> (\<exists>wn n. rb_int_mul same x y = Inl (Wds_not_enough wn n)))"
  using assms(1,2) rb_int_mul_post [OF assms] by (auto simp: mul_post_iff is_int_def)

theorem integer_ring_witness:
  "ival (rb_int_plus (Fixnum 7) (Bignum \<lparr>BIGNUM_SIGN = True, BDIGITS = [0, 0, 1]\<rparr>)) = 3 + 2 ^ 64 \<and>
   normal (rb_int_plus (Fixnum 7) (Bignum \<lparr>BIGNUM_SIGN = True, BDIGITS = [0, 0, 1]\<rparr>))"
  using integer_ring [of "Fixnum 7" "Bignum \<lparr>BIGNUM_SIGN = True, BDIGITS = [0, 0, 1]\<rparr>" False]
  by (simp add: bigval_def fixable_def del: rb_int_plus.simps rb_int_minus.simps rb_int_mul.simps)

text \<open>C30: Division of integers always returns.  It raises \<open>ZeroDivisionError\<close> for the divisor zero; else \<open>/\<close>, \<open>%\<close>
  and \<open>divmod\<close> give the quotient rounded to minus infinity and the remainder with the sign of the
  divisor, and \<open>remainder\<close> the one with the sign of the dividend.
\<close>

theorem integer_floor_division:
  assumes "normal x" "normal y"
  shows "if ival y = 0
    then rb_int_div x y = Some (Inl ZeroDivisionError) \<and> rb_int_modulo x y = Some (Inl ZeroDivisionError) \<and>
      rb_int_divmod x y = Some (Inl ZeroDivisionError) \<and> int_remainder x y = Some (Inl ZeroDivisionError)
    else \<exists>q m r. rb_int_div x y = Some (Inr q) \<and> rb_int_modulo x y = Some (Inr m) \<and> rb_int_divmod x y = Some (Inr (q, m)) \<and>
      int_remainder x y = Some (Inr r) \<and> normal q \<and> normal m \<and> normal r \<and>
      ival q = ival x div ival y \<and> ival m = ival x mod ival y \<and> ival r = sgn (ival x) * (\<bar>ival x\<bar> mod \<bar>ival y\<bar>)"
proof (cases "ival y = 0")
  case True
  then show ?thesis using rb_int_div_zero [OF assms(2)] int_remainder_zero [OF assms(2)] by simp
next
  case False
  obtain q m where "rb_int_divmod x y = Some (Inr (q, m))" "is_int (ival x div ival y) q" "is_int (ival x mod ival y) m"
    using rb_int_div_is(3) [OF assms False] by blast
  then show ?thesis using False quotient.divides [OF assms False] modulo.divides [OF assms False] remainder.divides [OF assms False]
    is_int_unique by (auto simp: is_int_def)
qed

theorem integer_floor_division_witness:
  "\<exists>q m r. rb_int_divmod (Bignum \<lparr>BIGNUM_SIGN = False, BDIGITS = [0, 0, 1]\<rparr>) (Fixnum 15) = Some (Inr (q, m)) \<and>
    int_remainder (Bignum \<lparr>BIGNUM_SIGN = False, BDIGITS = [0, 0, 1]\<rparr>) (Fixnum 15) = Some (Inr r) \<and>
    ival q = - 2635249153387078803 \<and> ival m = 5 \<and> ival r = - 2"
  using integer_floor_division [of "Bignum \<lparr>BIGNUM_SIGN = False, BDIGITS = [0, 0, 1]\<rparr>" "Fixnum 15"]
  by (auto simp: bigval_def fixable_def simp del: rb_int_divmod.simps int_remainder.simps rb_int_div.simps rb_int_modulo.simps)

text \<open>Taking back: what was added is subtracted again, and the quotient times the divisor plus the
  remainder is the dividend; both times the very object, not only the number.
\<close>

theorem integer_roundtrip:
  assumes "normal x" "normal y"
  shows "rb_int_minus (rb_int_plus x y) y = x \<and> rb_int_plus (rb_int_minus x y) y = x \<and>
    (rb_int_divmod x y = Some (Inr (q, m)) \<longrightarrow> rb_int_mul False q y = Inr p \<longrightarrow> rb_int_plus p m = x)"
proof -
  have "rb_int_plus p m = x" if "rb_int_divmod x y = Some (Inr (q, m))" "rb_int_mul False q y = Inr p"
  proof -
    have "ival y \<noteq> 0" using that(1) rb_int_div_zero(3) [OF assms(2)] by auto
    then have "is_int (ival x div ival y) q \<and> is_int (ival x mod ival y) m" using rb_int_div_is(3) [OF assms] that(1) by auto
    moreover from this have "is_int (ival q * ival y) p"
      using rb_int_mul_post [of q y False] assms(2) that(2) by (auto simp: is_int_def)
    ultimately show ?thesis using assms(1) by (simp add: plus.the_result is_int_def)
  qed
  then show ?thesis using assms by (simp add: minus.the_result plus.the_result)
qed

theorem integer_roundtrip_witness:
  "rb_int_minus (rb_int_plus (Fixnum 9223372036854775807) (Fixnum 9223372036854775807)) (Fixnum 9223372036854775807) = Fixnum 9223372036854775807"
  using integer_roundtrip [of "Fixnum 9223372036854775807" "Fixnum 9223372036854775807"]
  by (simp del: rb_int_plus.simps rb_int_minus.simps)

text \<open>C31: A number has one representation: integers in normal form are equal as objects when they are equal as
  numbers, and the negation, the complement, the magnitude, the successor and the predecessor of an
  integer in normal form are the numbers of that name, in normal form again.
\<close>

theorem integer_normal_form:
  assumes "normal x" "normal y"
  shows "(ival x = ival y \<longleftrightarrow> x = y) \<and>
    (normal (rb_int_uminus x) \<and> ival (rb_int_uminus x) = - ival x) \<and> (normal (rb_int_comp x) \<and> ival (rb_int_comp x) = - ival x - 1) \<and>
    (normal (rb_int_abs x) \<and> ival (rb_int_abs x) = \<bar>ival x\<bar>) \<and>
    (normal (rb_int_succ x) \<and> ival (rb_int_succ x) = ival x + 1) \<and> (normal (rb_int_pred x) \<and> ival (rb_int_pred x) = ival x - 1)"
  using normal_unique [OF assms] rb_int_uminus_is [of x] rb_int_comp_is [OF assms(1)] rb_int_abs_is [OF assms(1)]
    rb_int_succ_is [OF assms(1)] rb_int_pred_is [OF assms(1)]
  by (auto simp: is_int_def)

theorem integer_normal_form_witness:
  "normal (rb_int_uminus (Fixnum 9223372036854775809)) \<and> ival (rb_int_uminus (Fixnum 9223372036854775809)) = 4611686018427387904"
  using integer_normal_form [of "Fixnum 9223372036854775809" "Fixnum 1"]
  by (simp del: rb_int_uminus.simps rb_int_comp.simps rb_int_abs.simps rb_int_succ.simps rb_int_pred.simps)

text \<open>C32: The comparisons of integers are those of the numbers, as are the tests for zero and for parity.\<close>

theorem integer_order:
  assumes "normal x" "normal y"
  shows "rb_int_cmp x y = sgn (ival x - ival y) \<and> (rb_int_equal x y \<longleftrightarrow> ival x = ival y) \<and>
    (rb_int_gt x y \<longleftrightarrow> ival x > ival y) \<and> (rb_int_ge x y \<longleftrightarrow> ival x \<ge> ival y) \<and>
    (int_lt x y \<longleftrightarrow> ival x < ival y) \<and> (int_le x y \<longleftrightarrow> ival x \<le> ival y) \<and>
    (int_zero_p x \<longleftrightarrow> ival x = 0) \<and> (rb_int_odd_p x \<longleftrightarrow> odd (ival x)) \<and> (int_even_p x \<longleftrightarrow> even (ival x))"
  using rb_int_cmp_is [OF assms] rb_int_equal_is [OF assms] normal_unique [OF assms] rb_int_order [OF assms] int_zero_p_is [OF assms(1)]
    rb_int_odd_p_is [of x] by auto

theorem integer_order_witness:
  "rb_int_cmp (Fixnum 7) (Bignum \<lparr>BIGNUM_SIGN = True, BDIGITS = [0, 0, 1]\<rparr>) = - 1"
  using integer_order [of "Fixnum 7" "Bignum \<lparr>BIGNUM_SIGN = True, BDIGITS = [0, 0, 1]\<rparr>"]
  by (simp add: bigval_def fixable_def del: rb_int_cmp.simps)

text \<open>C33: The bit operations see an integer as its infinite two's complement: and, or and exclusive or combine
  the bits, \<open>[]\<close> reads one bit, a negative index reads 0, and the bit length is that of the number or of
  its complement.  (The digits of a bignum fit into memory: fewer than 2 to the power 59.)
\<close>

theorem integer_bits:
  assumes "normal x" "normal y" "big_digits x < 576460752303423488"
  shows "(\<exists>z. rb_int_and x y = Some z \<and> normal z \<and> ival z = ival x AND ival y) \<and>
    normal (int_or x y) \<and> ival (int_or x y) = ival x OR ival y \<and>
    normal (int_xor x y) \<and> ival (int_xor x y) = ival x XOR ival y \<and>
    int_aref_one_bit x y = Inr (0 \<le> ival y \<and> bit (ival x) (nat (ival y))) \<and>
    rb_int_bit_length x = bit_width (nat (if ival x < 0 then - ival x - 1 else ival x))"
  using rb_int_and_is [OF assms(1,2)] int_or_is [OF assms(1,2)] int_xor_is [of x y] int_aref_one_bit_is [OF assms] rb_int_bit_length_is [of x]
  by (auto simp: is_int_def)

theorem integer_bits_witness:
  "ival (int_xor (Fixnum 7) (Bignum \<lparr>BIGNUM_SIGN = False, BDIGITS = [0, 0, 1]\<rparr>)) = 3 - 2 ^ 64 \<and>
   int_aref_one_bit (Fixnum 7) (Bignum \<lparr>BIGNUM_SIGN = False, BDIGITS = [0, 0, 1]\<rparr>) = Inr False"
  using integer_bits [of "Fixnum 7" "Bignum \<lparr>BIGNUM_SIGN = False, BDIGITS = [0, 0, 1]\<rparr>"]
  by (simp add: bigval_def fixable_def del: int_xor.simps rb_int_and.simps int_or.simps rb_int_bit_length.simps int_aref_one_bit.simps)

end
