(* ===== verification/Big_Pack.thy ===== *)
theory Big_Pack
  imports Big_Size
begin

text \<open>
  Writing an integer into a buffer of words (bignum.c, \<open>rb_integer_pack\<close>): words of any size in either
  order, bytes in either order, padding bits (nails) at the top of each word, the magnitude or the two's
  complement.  The buffer is a list of bytes.  The bits of the flags are the fields of a record; a pass
  over the buffer from \<open>word_start\<close> by \<open>word_step\<close> and from \<open>byte_start\<close> by \<open>byte_step\<close> is a pass over
  the words and their bytes, least significant first, which \<open>pack_layout\<close> puts in place.
\<close>

section \<open>The format\<close>

type_synonym byte = "8 word"

datatype word_order = No_word_order | MSWORD_FIRST | LSWORD_FIRST
datatype byte_order = No_byte_order | MSBYTE_FIRST | LSBYTE_FIRST | NATIVE_BYTE_ORDER
datatype argument_error = ArgumentError

record pack_flags =
  WORDORDER :: word_order
  BYTEORDER :: byte_order
  PACK_2COMP :: bool
  FORCE_BIGNUM :: bool
  PACK_NEGATIVE :: bool
  FORCE_GENERIC :: bool

text \<open>\<open>unpack\<close>: the flags of unpacking are supported, too.\<close>

definition validate_integer_pack_format :: "nat \<Rightarrow> nat \<Rightarrow> nat \<Rightarrow> pack_flags \<Rightarrow> bool \<Rightarrow> bool" where
  "validate_integer_pack_format numwords wordsize nails flags unpack \<longleftrightarrow>
    (unpack \<or> \<not> FORCE_BIGNUM flags \<and> \<not> PACK_NEGATIVE flags) \<and>
    (WORDORDER flags = No_word_order \<longrightarrow> \<not> 1 < numwords) \<and> BYTEORDER flags \<noteq> No_byte_order \<and>
    wordsize \<noteq> 0 \<and> \<not> 9223372036854775807 < wordsize \<and> \<not> wordsize \<le> nails div 8 \<and>
    \<not> 18446744073709551615 div wordsize < numwords"

text \<open>The number of full bytes of a word and the bits of the byte above them.\<close>

definition integer_pack_loop_setup :: "nat \<Rightarrow> nat \<Rightarrow> nat \<times> nat" where
  "integer_pack_loop_setup wordsize nails =
    (let word_num_partialbits = 8 - nails mod 8;
         word_num_partialbits = (if word_num_partialbits = 8 then 0 else word_num_partialbits);
         word_num_fullbytes = wordsize - nails div 8
     in (if word_num_partialbits \<noteq> 0 then word_num_fullbytes - 1 else word_num_fullbytes, word_num_partialbits))"

definition pack_layout :: "pack_flags \<Rightarrow> byte list list \<Rightarrow> byte list" where
  "pack_layout flags ws =
    concat (map (if BYTEORDER flags = MSBYTE_FIRST then rev else id) (if WORDORDER flags = MSWORD_FIRST then rev ws else ws))"

section \<open>The generic way\<close>

text \<open>The digits not yet read, the bits read and not yet taken, and their number.\<close>

type_synonym pack_state = "BDIGIT list \<times> BDIGIT_DBL \<times> nat"

fun integer_pack_fill_dd :: "pack_state \<Rightarrow> pack_state" where
  "integer_pack_fill_dd (dps, dd, numbits_in_dd) =
    (if dps \<noteq> [] \<and> 32 + numbits_in_dd \<le> 64 then (tl dps, dd OR push_bit numbits_in_dd (ucast (hd dps)), numbits_in_dd + 32)
     else if dps = [] then (dps, dd, 64)
     else (dps, dd, numbits_in_dd))"

fun integer_pack_take_lowbits :: "nat \<Rightarrow> pack_state \<Rightarrow> BDIGIT_DBL \<times> pack_state" where
  "integer_pack_take_lowbits n (dps, dd, numbits_in_dd) = (dd AND (push_bit n 1 - 1), dps, drop_bit n dd, numbits_in_dd - n)"

fun pack_fullbytes :: "nat \<Rightarrow> pack_state \<Rightarrow> byte list \<times> pack_state" where
  "pack_fullbytes 0 s = ([], s)"
| "pack_fullbytes (Suc k) s =
    (let (b, s) = integer_pack_take_lowbits 8 (integer_pack_fill_dd s); (bs, s) = pack_fullbytes k s in (ucast b # bs, s))"

definition pack_word :: "nat \<Rightarrow> nat \<Rightarrow> pack_state \<Rightarrow> byte list \<times> pack_state" where
  "pack_word wordsize nails s =
    (let (fullbytes, partialbits) = integer_pack_loop_setup wordsize nails; (bs, s) = pack_fullbytes fullbytes s;
         (ps, s) = (if partialbits \<noteq> 0
                    then let (b, s) = integer_pack_take_lowbits partialbits (integer_pack_fill_dd s) in ([ucast b], s)
                    else ([], s))
     in (bs @ ps @ replicate (wordsize - length (bs @ ps)) 0, s))"

fun pack_words :: "nat \<Rightarrow> nat \<Rightarrow> nat \<Rightarrow> pack_state \<Rightarrow> byte list list \<times> pack_state" where
  "pack_words 0 wordsize nails s = ([], s)"
| "pack_words (Suc n) wordsize nails s =
    (let (w, s) = pack_word wordsize nails s; (ws, s) = pack_words n wordsize nails s in (w # ws, s))"

text \<open>The second pass, which complements the bits of the words and adds one.\<close>

fun comp_fullbytes :: "nat \<Rightarrow> byte list \<Rightarrow> nat \<Rightarrow> byte list \<times> nat" where
  "comp_fullbytes (Suc k) (b # bs) carry =
    (let carry = carry + unat (NOT b); (bs, carry') = comp_fullbytes k bs (carry div 256) in (of_nat carry # bs, carry'))"
| "comp_fullbytes k bs carry = (bs, carry)"

definition comp_word :: "nat \<Rightarrow> nat \<Rightarrow> byte list \<Rightarrow> nat \<Rightarrow> byte list \<times> nat" where
  "comp_word wordsize nails w carry =
    (let (fullbytes, partialbits) = integer_pack_loop_setup wordsize nails; (low, carry) = comp_fullbytes fullbytes (take fullbytes w) carry;
         rest = drop fullbytes w
     in if partialbits \<noteq> 0
        then let m = 2 ^ partialbits - 1; carry = carry + unat ((hd rest AND of_nat m) XOR of_nat m)
             in (low @ [of_nat carry AND of_nat m] @ tl rest, carry div 2 ^ partialbits)
        else (low @ rest, carry))"

fun comp_words :: "nat \<Rightarrow> nat \<Rightarrow> byte list list \<Rightarrow> nat \<Rightarrow> byte list list" where
  "comp_words wordsize nails [] carry = []"
| "comp_words wordsize nails (w # ws) carry =
    (let (w, carry) = comp_word wordsize nails w carry in w # comp_words wordsize nails ws carry)"

text \<open>\<open>ds\<close> without leading zeros; the sign is 0 when nothing is left.\<close>

definition pack_generic :: "int \<Rightarrow> BDIGIT list \<Rightarrow> nat \<Rightarrow> nat \<Rightarrow> nat \<Rightarrow> pack_flags \<Rightarrow> int \<times> byte list" where
  "pack_generic sign ds numwords wordsize nails flags =
    (let (sign, ws) =
           (if numwords * wordsize = 0
            then (if \<not> PACK_2COMP flags \<or> 0 \<le> sign then 2 * sign
                  else if length ds = 1 \<and> ds ! 0 = 1 then - 1 else - 2, [])
            else if ds = [] then (sign, replicate numwords (replicate wordsize 0))
            else let (ws, s) = pack_words numwords wordsize nails (ds, 0, 0); (dps, dd, _) = integer_pack_fill_dd s
                 in (if dps \<noteq> [] \<or> 1 < dd then 2 * sign
                     else if dd = 1
                     then (if \<not> PACK_2COMP flags \<or> 0 \<le> sign then 2 * sign
                           else let dp = dropWhile (\<lambda>d. d = 0) ds in if length dp = 1 \<and> POW2_P (hd dp) then - 1 else - 2)
                     else sign, ws));
         ws = (if PACK_2COMP flags \<and> sign < 0 \<and> numwords \<noteq> 0 then comp_words wordsize nails ws 1 else ws)
     in (sign, pack_layout flags ws))"

section \<open>The fast ways\<close>

definition digit_bytes :: "BDIGIT \<Rightarrow> byte list" where
  "digit_bytes d = [ucast d, ucast (drop_bit 8 d), ucast (drop_bit 16 d), ucast (drop_bit 24 d)]"

text \<open>One word of 1, 2 or 4 bytes; for 2 and 4 the buffer has to be aligned.\<close>

definition pack_single :: "int \<Rightarrow> BDIGIT list \<Rightarrow> nat \<Rightarrow> pack_flags \<Rightarrow> int \<times> byte list" where
  "pack_single sign ds wordsize flags =
    (let need_swap = (wordsize \<noteq> 1 \<and> BYTEORDER flags = MSBYTE_FIRST); swap = (if need_swap then rev else id)
     in if 0 < sign \<or> \<not> PACK_2COMP flags
        then let d = ds ! 0
             in ((if 1 < length ds \<or> d AND push_bit (8 * wordsize) (- 1) \<noteq> 0 then 2 else 1) * sign, swap (take wordsize (digit_bytes d)))
        else let d = - ucast (ds ! 0) :: BDIGIT_DBL_SIGNED
             in (if wordsize = 4 \<and> length ds = 2 \<and> ds ! 1 = 1 \<and> ds ! 0 = 0 then - 1
                 else if 1 < length ds \<or> d OR (push_bit (8 * wordsize) 1 - 1) \<noteq> - 1 then - 2 else - 1,
                 swap (take wordsize (digit_bytes (ucast d)))))"

fun bytes_add_one :: "byte list \<Rightarrow> byte list \<times> bool" where
  "bytes_add_one [] = ([], True)"
| "bytes_add_one (b # bs) =
    (let b = b + 1 in if b \<noteq> 0 then (b # bs, False) else let (bs, c) = bytes_add_one bs in (b # bs, c))"

definition bytes_2comp :: "byte list \<Rightarrow> byte list \<times> bool" where "bytes_2comp buf = bytes_add_one (map NOT buf)"

fun trim_bytes :: "byte list \<Rightarrow> nat \<Rightarrow> nat" where
  "trim_bytes bs 0 = 0"
| "trim_bytes bs (Suc n) = (if bs ! n = 0 then trim_bytes bs n else Suc n)"

text \<open>The bytes of the digits as they are in memory.\<close>

definition pack_bytes :: "int \<Rightarrow> BDIGIT list \<Rightarrow> nat \<Rightarrow> pack_flags \<Rightarrow> int \<times> byte list" where
  "pack_bytes sign ds dst_size flags =
    (let bytes = concat (map digit_bytes ds); src_size = trim_bytes bytes (length bytes);
         overflow = (\<not> src_size \<le> dst_size);
         words = (if overflow then take dst_size bytes else take src_size bytes @ replicate (dst_size - src_size) 0);
         (words, overflow) =
           (if sign < 0 \<and> PACK_2COMP flags
            then let (words, zero_p) = bytes_2comp words
                 in (words, overflow \<and> \<not> (zero_p \<and> dst_size = src_size - 1 \<and> bytes ! dst_size = 1))
            else (words, overflow))
     in (if overflow then 2 * sign else sign, words))"

definition swap_bdigit :: "BDIGIT \<Rightarrow> BDIGIT" where
  "swap_bdigit x =
    (let x = push_bit 16 (x AND 0x0000FFFF) OR drop_bit 16 (x AND 0xFFFF0000)
     in push_bit 8 (x AND 0x00FF00FF) OR drop_bit 8 (x AND 0xFF00FF00))"

fun swap_chunks :: "nat \<Rightarrow> nat \<Rightarrow> BDIGIT list \<Rightarrow> BDIGIT list" where
  "swap_chunks 0 n ds = ds"
| "swap_chunks (Suc k) n ds = rev (take n ds) @ swap_chunks k n (drop n ds)"

definition pack_bdigits :: "int \<Rightarrow> BDIGIT list \<Rightarrow> nat \<Rightarrow> nat \<Rightarrow> pack_flags \<Rightarrow> int \<times> byte list" where
  "pack_bdigits sign ds numwords wordsize flags =
    (let bdigits_per_word = wordsize div 4; src_num = length ds; dst_num = numwords * bdigits_per_word;
         overflow = (\<not> src_num \<le> dst_num); mswordfirst_p = (WORDORDER flags = MSWORD_FIRST);
         msbytefirst_p = (BYTEORDER flags = MSBYTE_FIRST);
         words = (if overflow then take dst_num ds else ds @ replicate (dst_num - src_num) 0);
         (words, overflow) =
           (if sign < 0 \<and> PACK_2COMP flags
            then let (words, zero_p) = bary_2comp words
                 in (words, overflow \<and> \<not> (zero_p \<and> dst_num = src_num - 1 \<and> ds ! dst_num = 1))
            else (words, overflow));
         words = (if msbytefirst_p then map swap_bdigit words else words);
         words = (if (if mswordfirst_p then \<not> msbytefirst_p else msbytefirst_p) then swap_chunks numwords bdigits_per_word words else words);
         words = (if mswordfirst_p then rev words else words)
     in (if overflow then 2 * sign else sign, concat (map digit_bytes words)))"

text \<open>\<open>addr\<close> is the address of the buffer.\<close>

definition bary_pack :: "nat \<Rightarrow> int \<Rightarrow> BDIGIT list \<Rightarrow> nat \<Rightarrow> nat \<Rightarrow> nat \<Rightarrow> pack_flags \<Rightarrow> argument_error + int \<times> byte list" where
  "bary_pack addr sign ds numwords wordsize nails flags =
    (let ds = take (BARY_TRUNC ds (length ds)) ds; sign = (if ds = [] then 0 else sign)
     in if \<not> validate_integer_pack_format numwords wordsize nails flags False then Inl ArgumentError
        else Inr (if FORCE_GENERIC flags then pack_generic sign ds numwords wordsize nails flags
          else if sign = 0 then (0, replicate (numwords * wordsize) 0)
          else if nails = 0 \<and> numwords = 1 \<and> (wordsize = 1 \<or> wordsize = 2 \<and> addr mod 2 = 0 \<or> wordsize = 4 \<and> addr mod 4 = 0)
          then pack_single sign ds wordsize flags
          else if nails = 0 \<and> WORDORDER flags = LSWORD_FIRST \<and> BYTEORDER flags \<noteq> MSBYTE_FIRST
          then pack_bytes sign ds (numwords * wordsize) flags
          else if nails = 0 \<and> wordsize mod 4 = 0 \<and> addr mod 4 = 0
          then pack_bdigits sign ds numwords wordsize flags
          else pack_generic sign ds numwords wordsize nails flags))"

definition rb_integer_pack :: "nat \<Rightarrow> rb_integer \<Rightarrow> nat \<Rightarrow> nat \<Rightarrow> nat \<Rightarrow> pack_flags \<Rightarrow> argument_error + int \<times> byte list" where
  "rb_integer_pack addr val numwords wordsize nails flags =
    (let sign = (case val of Fixnum x \<Rightarrow> if FIX2LONG x <s 0 then - 1 else 1 | Bignum x \<Rightarrow> if BIGNUM_SIGN x then 1 else - 1)
     in bary_pack addr sign (absint_digits val) numwords wordsize nails flags)"

end
