(* ===== verification/Big_Pack_Spec.thy ===== *)
theory Big_Pack_Spec
  imports Big_Pack
begin

text \<open>
  What packing computes, whichever way is taken: the words are the digits of the number to the base two
  to the number of bits of a word, and the result says whether they are all there are.
\<close>

section \<open>Bytes of a number\<close>

fun le_bytes :: "nat \<Rightarrow> int \<Rightarrow> byte list" where
  "le_bytes 0 m = []"
| "le_bytes (Suc n) m = word_of_int m # le_bytes n (m div 256)"

lemma length_le_bytes [simp]: "length (le_bytes n m) = n"
  by (induction n arbitrary: m) simp_all

lemma le_bytes_append: "le_bytes (a + b) m = le_bytes a m @ le_bytes b (m div 256 ^ a)"
  by (induction a arbitrary: m) (simp_all add: zdiv_zmult2_eq)

lemma word_of_int_mod_256: "(word_of_int (m mod 256) :: byte) = word_of_int m"
  by (rule bit_word_eqI) (simp add: bit_simps flip: take_bit_eq_mod [of 8, simplified])

lemma mod_div_power: "(m mod 256 ^ Suc n) div 256 = (m div 256 :: int) mod 256 ^ n"
proof -
  have "m mod (256 * 256 ^ n) = 256 * (m div 256 mod 256 ^ n) + m mod 256" by (rule zmod_zmult2_eq) simp
  then show ?thesis by simp
qed

lemma le_bytes_mod: "le_bytes n (m mod 256 ^ n) = le_bytes n m"
proof (induction n arbitrary: m)
  case (Suc n)
  have "(m mod 256 ^ Suc n) mod 256 = m mod (256 :: int)" by (simp add: mod_mod_cancel)
  then have "(word_of_int (m mod 256 ^ Suc n) :: byte) = word_of_int m" by (metis word_of_int_mod_256)
  then show ?case using Suc.IH [of "m div 256"] unfolding le_bytes.simps mod_div_power by simp
qed simp

lemma le_bytes_cong: "m mod 256 ^ n = m' mod 256 ^ n \<Longrightarrow> le_bytes n m = le_bytes n m'"
  by (metis le_bytes_mod)

lemma le_bytes_0 [simp]: "le_bytes n 0 = replicate n 0"
  by (induction n) simp_all

text \<open>The words of \<open>W\<close> bits each.\<close>

fun chunk_words :: "nat \<Rightarrow> nat \<Rightarrow> nat \<Rightarrow> int \<Rightarrow> byte list list" where
  "chunk_words 0 wordsize W m = []"
| "chunk_words (Suc n) wordsize W m = le_bytes wordsize (m mod 2 ^ W) # chunk_words n wordsize W (m div 2 ^ W)"

lemma length_chunk_words [simp]: "length (chunk_words n wordsize W m) = n"
  by (induction n arbitrary: m) simp_all

section \<open>The buffer of bits\<close>

definition word_bits :: "nat \<Rightarrow> nat \<Rightarrow> nat" where "word_bits wordsize nails = 8 * wordsize - nails"

fun pack_rem :: "pack_state \<Rightarrow> int" where
  "pack_rem (dps, dd, n) = uint dd + 2 ^ n * bval dps"

fun pack_ok :: "pack_state \<Rightarrow> bool" where
  "pack_ok (dps, dd, n) \<longleftrightarrow> uint dd < 2 ^ n \<and> n \<le> 64 \<and> (dps = [] \<or> last dps \<noteq> 0)"

fun pack_avail :: "pack_state \<Rightarrow> nat" where
  "pack_avail (dps, dd, n) = n"

lemma uint_or_shifted:
  assumes "uint dd < 2 ^ n" "n \<le> 32"
  shows "uint ((dd :: 64 word) OR push_bit n (ucast (d :: BDIGIT))) = uint dd + 2 ^ n * uint d"
proof -
  have "uint (push_bit n (ucast d) :: 64 word) = push_bit n (uint d)"
  proof -
    have "uint d * 2 ^ n < 4294967296 * 2 ^ n" using uint_digit [of d] by simp
    also have "\<dots> \<le> 4294967296 * 2 ^ 32" using assms(2) by (intro mult_left_mono power_increasing) simp_all
    finally have "take_bit 64 (push_bit n (uint d)) = push_bit n (uint d)"
      using uint_digit(1) [of d] by (simp add: take_bit_int_eq_self_iff push_bit_eq_mult)
    then show ?thesis by (simp add: unsigned_push_bit_eq)
  qed
  moreover have "take_bit n (uint dd) = uint dd" using assms(1) by (simp add: take_bit_int_eq_self_iff)
  then have "uint dd OR push_bit n (uint d) = uint dd + push_bit n (uint d)"
    by (intro disjunctive_add [symmetric]) (metis bit_push_bit_iff bit_take_bit_iff not_less)
  ultimately show ?thesis by (simp add: unsigned_or_eq push_bit_eq_mult mult.commute)
qed

lemma pack_fill:
  assumes "pack_ok s"
  shows "pack_ok (integer_pack_fill_dd s)" "pack_rem (integer_pack_fill_dd s) = pack_rem s" "32 \<le> pack_avail (integer_pack_fill_dd s)"
proof -
  obtain dps dd n where s: "s = (dps, dd, n)" by (cases s)
  have ok: "uint dd < 2 ^ n" "n \<le> 64" "dps = [] \<or> last dps \<noteq> 0" using assms s by simp_all
  have "pack_ok (integer_pack_fill_dd s) \<and> pack_rem (integer_pack_fill_dd s) = pack_rem s \<and> 32 \<le> pack_avail (integer_pack_fill_dd s)"
  proof (cases dps)
    case Nil
    then show ?thesis using s uint_bounded [of dd] by simp
  next
    case (Cons d ds)
    show ?thesis
    proof (cases "n \<le> 32")
      case True
      have eq: "uint (dd OR push_bit n (ucast d)) = uint dd + 2 ^ n * uint d" by (rule uint_or_shifted [OF ok(1) True])
      have "uint dd + 2 ^ n * uint d < 0 + 2 ^ n * 4294967296"
        using ok(1) uint_digit [of d] by (intro weighted_less) simp_all
      then have "uint dd + 2 ^ n * uint d < 2 ^ (n + 32)" by (simp add: power_add)
      then show ?thesis using s Cons True eq ok(3) by (auto simp: power_add algebra_simps split: if_splits)
    next
      case False
      then show ?thesis using s Cons ok by simp
    qed
  qed
  then show "pack_ok (integer_pack_fill_dd s)" "pack_rem (integer_pack_fill_dd s) = pack_rem s" "32 \<le> pack_avail (integer_pack_fill_dd s)"
    by blast+
qed

lemma pack_take:
  assumes "pack_ok s" "n \<le> pack_avail s" "n < 64" "integer_pack_take_lowbits n s = (b, s')"
  shows "uint b = pack_rem s mod 2 ^ n" "pack_ok s'" "pack_rem s' = pack_rem s div 2 ^ n"
proof -
  obtain dps dd k where s: "s = (dps, dd, k)" by (cases s)
  have ok: "uint dd < 2 ^ k" "k \<le> 64" "n \<le> k" "dps = [] \<or> last dps \<noteq> 0" using assms s by simp_all
  have b: "b = dd AND mask n" "s' = (dps, drop_bit n dd, k - n)"
    using assms(4) s by (simp_all add: mask_eq_exp_minus_1 push_bit_of_1)
  have split: "pack_rem s = uint dd + 2 ^ n * (2 ^ (k - n) * bval dps)" using s ok(3) by (simp flip: mult.assoc power_add)
  have "b = take_bit n dd" unfolding b by (simp add: take_bit_eq_mask)
  then have "uint b = take_bit n (uint dd)" by (simp only: unsigned_take_bit_eq)
  then have "uint b = uint dd mod 2 ^ n" by (simp only: take_bit_eq_mod)
  then show "uint b = pack_rem s mod 2 ^ n" unfolding split by simp
  have d: "uint (drop_bit n dd) = uint dd div 2 ^ n" by (simp add: uint_nat unat_drop_bit_div zdiv_int del: of_nat_unat)
  show "pack_rem s' = pack_rem s div 2 ^ n" unfolding split b(2) by (simp add: d)
  have "uint dd div 2 ^ n < 2 ^ (k - n)"
    using ok(1,3) by (intro int_div_less) (simp_all flip: power_add)
  then show "pack_ok s'" unfolding b(2) using ok d by simp
qed

lemma pack_step:
  assumes "pack_ok s" "n \<le> 32" "integer_pack_take_lowbits n (integer_pack_fill_dd s) = (b, s')"
  shows "uint b = pack_rem s mod 2 ^ n" "pack_ok s'" "pack_rem s' = pack_rem s div 2 ^ n"
  using pack_take [of "integer_pack_fill_dd s" n b s'] pack_fill [OF assms(1)] assms(2,3) by simp_all

lemma ucast_byte: "uint (b :: 64 word) = x \<Longrightarrow> (ucast b :: byte) = word_of_int x"
  by (metis word_of_int_uint ucast_eq)

lemma pack_fullbytes_spec:
  "pack_ok s \<Longrightarrow> pack_fullbytes k s = (bs, s') \<Longrightarrow> bs = le_bytes k (pack_rem s) \<and> pack_ok s' \<and> pack_rem s' = pack_rem s div 256 ^ k"
proof (induction k arbitrary: s bs s')
  case (Suc k)
  obtain b t where t: "integer_pack_take_lowbits 8 (integer_pack_fill_dd s) = (b, t)" by (meson surj_pair)
  obtain bs' u where u: "pack_fullbytes k t = (bs', u)" by (meson surj_pair)
  have eq: "bs = ucast b # bs'" "s' = u" using Suc.prems(2) t u by simp_all
  note st = pack_step [OF Suc.prems(1) _ t, simplified]
  have "(ucast b :: byte) = word_of_int (pack_rem s)" using ucast_byte [OF st(1)] word_of_int_mod_256 [of "pack_rem s"] by simp
  then show ?case using Suc.IH [OF st(2) u] st(3) eq by (simp add: zdiv_zmult2_eq)
qed simp

text \<open>The two kinds of bytes of a word.\<close>

lemma loop_setup_bits:
  assumes "integer_pack_loop_setup wordsize nails = (F, P)" "\<not> wordsize \<le> nails div 8"
  shows "word_bits wordsize nails = 8 * F + P" "P < 8" "F + (if P = 0 then 0 else 1) \<le> wordsize"
    "F + (if P = 0 then 0 else 1) + nails div 8 = wordsize"
proof -
  define q where "q = nails div 8"
  define r where "r = nails mod 8"
  have n: "nails = 8 * q + r" "r < 8" by (simp_all add: q_def r_def)
  have w: "q < wordsize" using assms(2) by (simp add: q_def)
  have "P = (if r = 0 then 0 else 8 - r)" "F = (if r = 0 then wordsize - q else wordsize - q - 1)"
    using assms(1) n by (auto simp: integer_pack_loop_setup_def Let_def simp flip: q_def r_def split: if_splits)
  then show "word_bits wordsize nails = 8 * F + P" "P < 8" "F + (if P = 0 then 0 else 1) \<le> wordsize"
    "F + (if P = 0 then 0 else 1) + nails div 8 = wordsize"
    using n w unfolding word_bits_def q_def [symmetric] by auto
qed

lemma power_256: "(256 :: int) ^ k = 2 ^ (8 * k)"
  by (simp add: power_mult)

text \<open>A number of \<open>8 F + P\<close> bits in bytes.\<close>

lemma le_bytes_word:
  assumes "P < 8" "W = 8 * F + P" "F + (if P = 0 then 0 else 1) \<le> wordsize"
  shows "le_bytes wordsize (m mod 2 ^ W) =
    le_bytes F m @ (if P \<noteq> 0 then [word_of_int (m div 256 ^ F mod 2 ^ P)] else []) @
    replicate (wordsize - (F + (if P = 0 then 0 else 1))) 0"
proof -
  define x where "x = m mod 2 ^ W"
  define p where "p = (if P = 0 then 0 else 1 :: nat)"
  have W: "(2 :: int) ^ W = 256 ^ F * 2 ^ P" unfolding assms(2) power_256 power_add ..
  have x: "x = 256 ^ F * (m div 256 ^ F mod 2 ^ P) + m mod 256 ^ F" unfolding x_def W by (rule zmod_zmult2_eq) simp
  have hi: "x div 256 ^ F = m div 256 ^ F mod 2 ^ P" unfolding x by simp
  have lo: "le_bytes F x = le_bytes F m" by (rule le_bytes_cong) (simp add: x)
  have "(2 :: int) ^ P \<le> 2 ^ 8" using assms(1) by (intro power_increasing) simp_all
  then have "(2 :: int) ^ P \<le> 256" by simp
  moreover have "m div 256 ^ F mod 2 ^ P < 2 ^ P" by simp
  ultimately have "m div 256 ^ F mod 2 ^ P < 256" by (metis order.strict_trans2)
  then have less: "m div 256 ^ F mod 2 ^ P < (256 :: int) ^ p" by (simp add: p_def)
  have z: "x div 256 ^ (F + p) = 0"
    using less by (simp add: power_add zdiv_zmult2_eq hi)
  have "le_bytes p (x div 256 ^ F) = (if P \<noteq> 0 then [word_of_int (m div 256 ^ F mod 2 ^ P)] else [])"
    unfolding hi by (simp add: p_def)
  moreover have "wordsize = F + (p + (wordsize - (F + p)))" using assms(3) by (simp add: p_def split: if_splits)
  then have "le_bytes wordsize x = le_bytes F x @ le_bytes p (x div 256 ^ F) @ le_bytes (wordsize - (F + p)) (x div 256 ^ (F + p))"
    by (metis le_bytes_append power_add zdiv_zmult2_eq zero_le_numeral zero_le_power)
  ultimately show ?thesis using lo z unfolding x_def [symmetric] p_def [symmetric] by simp
qed

lemma pack_word_spec:
  assumes "pack_ok s" "\<not> wordsize \<le> nails div 8" "pack_word wordsize nails s = (w, s')"
  shows "w = le_bytes wordsize (pack_rem s mod 2 ^ word_bits wordsize nails)" "pack_ok s'"
    "pack_rem s' = pack_rem s div 2 ^ word_bits wordsize nails"
proof -
  obtain F P where FP: "integer_pack_loop_setup wordsize nails = (F, P)" by fastforce
  note l = loop_setup_bits [OF FP assms(2)]
  obtain bs t where t: "pack_fullbytes F s = (bs, t)" by (meson surj_pair)
  note f = pack_fullbytes_spec [OF assms(1) t]
  obtain b u where u: "integer_pack_take_lowbits P (integer_pack_fill_dd t) = (b, u)" by (meson surj_pair)
  note g = pack_step [OF _ _ u]
  have W: "(2 :: int) ^ word_bits wordsize nails = 256 ^ F * 2 ^ P" unfolding l(1) power_256 power_add ..
  have "w = le_bytes wordsize (pack_rem s mod 2 ^ word_bits wordsize nails) \<and> pack_ok s' \<and>
    pack_rem s' = pack_rem s div 2 ^ word_bits wordsize nails"
  proof (cases "P = 0")
    case True
    then have "w = bs @ replicate (wordsize - F) 0" "s' = t" using assms(3) FP t f by (auto simp: pack_word_def)
    then show ?thesis using f le_bytes_word [OF l(2) l(1) l(3), of "pack_rem s"] W True by simp
  next
    case False
    have ws: "w = bs @ [ucast b] @ replicate (wordsize - (F + 1)) 0" "s' = u"
      using assms(3) FP t u f False by (auto simp: pack_word_def)
    have "pack_ok t" "P \<le> 32" using f l(2) by simp_all
    note g' = g [OF this]
    have "(ucast b :: byte) = word_of_int (pack_rem s div 256 ^ F mod 2 ^ P)" using ucast_byte [OF g'(1)] f by simp
    then show ?thesis
      using ws f g' le_bytes_word [OF l(2) l(1) l(3), of "pack_rem s"] W False by (simp add: zdiv_zmult2_eq)
  qed
  then show "w = le_bytes wordsize (pack_rem s mod 2 ^ word_bits wordsize nails)" "pack_ok s'"
    "pack_rem s' = pack_rem s div 2 ^ word_bits wordsize nails" by blast+
qed

lemma pack_words_spec:
  "pack_ok s \<Longrightarrow> \<not> wordsize \<le> nails div 8 \<Longrightarrow> pack_words n wordsize nails s = (ws, s') \<Longrightarrow>
    ws = chunk_words n wordsize (word_bits wordsize nails) (pack_rem s) \<and> pack_ok s' \<and>
    pack_rem s' = pack_rem s div 2 ^ (word_bits wordsize nails * n)"
proof (induction n arbitrary: s ws s')
  case (Suc n)
  obtain w t where t: "pack_word wordsize nails s = (w, t)" by (meson surj_pair)
  obtain ws' u where u: "pack_words n wordsize nails t = (ws', u)" by (meson surj_pair)
  note p = pack_word_spec [OF Suc.prems(1,2) t]
  show ?case using Suc.IH [OF p(2) Suc.prems(2) u] Suc.prems(3) p(1,3) t u
    by (simp add: power_add zdiv_zmult2_eq)
qed simp

section \<open>The complement\<close>

lemma uint_NOT_byte: "uint (NOT (b :: byte)) = 255 - uint b"
proof -
  have "NOT b = - 1 - b" by (simp add: not_eq_complement)
  moreover have "uint (- 1 - b) = uint (- 1 :: byte) - uint b" by (subst uint_minus_simple_alt [symmetric]) simp
  ultimately show ?thesis by (simp add: unsigned_minus_1_eq_mask mask_eq_exp_minus_1)
qed

lemma uint_word_of_int_byte: "uint (word_of_int x :: byte) = x mod 256"
  by (simp add: take_bit_eq_mod uint_word_of_int)

lemma carry_step:
  assumes "carry = c + unat (NOT (word_of_int x :: byte))"
  shows "(of_nat carry :: byte) = word_of_int (int c - 1 - x)" "(int c - 1 - x) div 256 = int (carry div 256) - 1 - x div 256"
    "c \<le> 1 \<Longrightarrow> carry div 256 \<le> 1"
proof -
  have carry: "int carry = int c + 255 - x mod 256"
    using assms uint_NOT_byte [of "word_of_int x"] by (simp add: uint_word_of_int_byte)
  have eq: "int c - 1 - x = int carry + 256 * (- 1 - x div 256)" unfolding carry by (simp add: algebra_simps minus_mod_eq_mult_div [symmetric])
  have "int carry mod 256 = (int c - 1 - x) mod 256" unfolding eq by (rule mod_mult_self2 [symmetric])
  then have "(word_of_int (int carry) :: byte) = word_of_int (int c - 1 - x)" by (metis word_of_int_mod_256)
  then show "(of_nat carry :: byte) = word_of_int (int c - 1 - x)" by simp
  show "(int c - 1 - x) div 256 = int (carry div 256) - 1 - x div 256" unfolding eq by (simp add: zdiv_int)
  assume "c \<le> 1"
  moreover have "0 \<le> x mod 256" by simp
  ultimately have "carry \<le> 256" using carry by linarith
  then show "carry div 256 \<le> 1" by linarith
qed

lemma comp_fullbytes_spec:
  "c \<le> 1 \<Longrightarrow> \<exists>c'. comp_fullbytes k (le_bytes k x) c = (le_bytes k (int c - 1 - x), c') \<and> c' \<le> 1 \<and>
    (int c - 1 - x) div 256 ^ k = int c' - 1 - x div 256 ^ k"
proof (induction k arbitrary: x c)
  case (Suc k)
  define carry where "carry = c + unat (NOT (word_of_int x :: byte))"
  note st = carry_step [OF carry_def]
  obtain c' where c': "comp_fullbytes k (le_bytes k (x div 256)) (carry div 256) = (le_bytes k (int (carry div 256) - 1 - x div 256), c')"
    "c' \<le> 1" "(int (carry div 256) - 1 - x div 256) div 256 ^ k = int c' - 1 - x div 256 div 256 ^ k"
    using Suc.IH [OF st(3) [OF Suc.prems]] by blast
  have "comp_fullbytes (Suc k) (le_bytes (Suc k) x) c = (le_bytes (Suc k) (int c - 1 - x), c')"
    using c'(1) st(1,2) by (simp add: carry_def [symmetric] Let_def)
  moreover have "(int c - 1 - x) div 256 ^ Suc k = int c' - 1 - x div 256 ^ Suc k"
    using c'(3) st(2) by (simp add: zdiv_zmult2_eq)
  ultimately show ?case using c'(2) by blast
qed simp

text \<open>The byte with the remaining \<open>P\<close> bits.\<close>

lemma partial_step:
  assumes "P < 8" "0 \<le> x" "x < 2 ^ P" "m = 2 ^ P - 1" "carry = c + unat ((word_of_int x AND of_nat m) XOR of_nat m :: byte)"
  shows "(of_nat carry AND of_nat m :: byte) = word_of_int ((int c - 1 - x) mod 2 ^ P)"
    "(int c - 1 - x) div 2 ^ P = int (carry div 2 ^ P) - 1" "c \<le> 1 \<Longrightarrow> carry div 2 ^ P \<le> 1"
proof -
  have mask: "(of_nat m :: byte) = mask P" by (simp add: assms(4) mask_eq_exp_minus_1)
  have "(word_of_int x AND mask P) XOR mask P = take_bit P (NOT (word_of_int x :: byte))"
    by (rule bit_word_eqI) (auto simp: bit_simps)
  then have u: "uint ((word_of_int x AND of_nat m) XOR of_nat m :: byte) = uint (NOT (word_of_int x :: byte)) mod 2 ^ P"
    by (simp only: mask unsigned_take_bit_eq) (rule take_bit_eq_mod)
  have "(2 :: int) ^ 8 = 2 ^ (P + (8 - P))" using assms(1) by simp
  then have P8: "(256 :: int) = 2 ^ P * 2 ^ (8 - P)" by (simp only: power_add) simp
  have "x < 256" using assms(1,3) power_strict_increasing [of P 8 "2 :: int"] by simp
  then have "uint (NOT (word_of_int x :: byte)) = 255 - x"
    using uint_NOT_byte [of "word_of_int x"] assms(2) by (simp add: uint_word_of_int_byte)
  also have "\<dots> = (2 ^ P - 1 - x) + 2 ^ P * (2 ^ (8 - P) - 1)" using P8 by (simp add: algebra_simps)
  finally have "uint (NOT (word_of_int x :: byte)) mod 2 ^ P = 2 ^ P - 1 - x" using assms(2,3) by simp
  then have carry: "int carry = int c + (2 ^ P - 1 - x)" using assms(5) u by simp
  have eq: "int c - 1 - x = int carry + 2 ^ P * (- 1)" unfolding carry by simp
  have mod: "(int c - 1 - x) mod 2 ^ P = take_bit P (int carry)" unfolding eq take_bit_eq_mod by (rule mod_mult_self2)
  have "(of_nat carry AND of_nat m :: byte) = word_of_int (take_bit P (int carry))"
    unfolding mask by (rule bit_word_eqI) (auto simp: bit_simps)
  then show "(of_nat carry AND of_nat m :: byte) = word_of_int ((int c - 1 - x) mod 2 ^ P)" unfolding mod .
  show "(int c - 1 - x) div 2 ^ P = int (carry div 2 ^ P) - 1"
    unfolding eq div_mult_self2 [OF power_not_zero [OF zero_neq_numeral [symmetric]]] by (simp add: zdiv_int)
  assume "c \<le> 1"
  then have "int carry \<le> 2 ^ P" using carry assms(2) by linarith
  then have "carry \<le> 2 ^ P" by (metis of_nat_le_iff of_nat_numeral of_nat_power)
  then show "carry div 2 ^ P \<le> 1" by (metis div_le_mono div_self power_not_zero zero_neq_numeral)
qed

lemma comp_word_spec:
  assumes "\<not> wordsize \<le> nails div 8" "W = word_bits wordsize nails" "0 \<le> x" "x < 2 ^ W" "c \<le> 1"
  shows "\<exists>c'. comp_word wordsize nails (le_bytes wordsize x) c = (le_bytes wordsize ((int c - 1 - x) mod 2 ^ W), c') \<and> c' \<le> 1 \<and>
    (int c - 1 - x) div 2 ^ W = int c' - 1"
proof -
  obtain F P where FP: "integer_pack_loop_setup wordsize nails = (F, P)" by (meson surj_pair)
  note l = loop_setup_bits [OF FP assms(1), folded assms(2)]
  define p where "p = (if P = 0 then 0 else 1 :: nat)"
  note word = le_bytes_word [OF l(2) l(1) l(3), folded p_def]
  define h where "h = x div 256 ^ F"
  have W: "(2 :: int) ^ W = 256 ^ F * 2 ^ P" unfolding l(1) power_256 power_add ..
  have h: "0 \<le> h" "h < 2 ^ P" using assms(3,4) unfolding h_def W by (simp_all add: pos_imp_zdiv_nonneg_iff int_div_less mult.commute)
  have "x mod 2 ^ W = x" using assms(3,4) by simp
  then have w: "le_bytes wordsize x = le_bytes F x @ (if P \<noteq> 0 then [word_of_int h] else []) @ replicate (wordsize - (F + p)) 0"
    using word [of x] h by (simp add: h_def)
  obtain c1 where c1: "comp_fullbytes F (le_bytes F x) c = (le_bytes F (int c - 1 - x), c1)" "c1 \<le> 1"
    "(int c - 1 - x) div 256 ^ F = int c1 - 1 - h"
    using comp_fullbytes_spec [OF assms(5), of F x] unfolding h_def by blast
  show ?thesis
  proof (cases "P = 0")
    case True
    then have "h = 0" using h by simp
    then show ?thesis using c1 FP True w word [of "int c - 1 - x"] W by (simp add: comp_word_def)
  next
    case False
    define m where "m = (2 :: nat) ^ P - 1"
    define carry where "carry = c1 + unat ((word_of_int h AND of_nat m) XOR of_nat m :: byte)"
    note ps = partial_step [OF l(2) h m_def carry_def]
    have "comp_word wordsize nails (le_bytes wordsize x) c =
        (le_bytes F (int c - 1 - x) @ [of_nat carry AND of_nat m] @ replicate (wordsize - (F + p)) 0, carry div 2 ^ P)"
      using c1(1) FP False w by (simp add: comp_word_def Let_def m_def carry_def)
    moreover have "le_bytes wordsize ((int c - 1 - x) mod 2 ^ W) =
        le_bytes F (int c - 1 - x) @ [word_of_int ((int c1 - 1 - h) mod 2 ^ P)] @ replicate (wordsize - (F + p)) 0"
      using word [of "int c - 1 - x"] False c1(3) by simp
    moreover have "(int c - 1 - x) div 2 ^ W = int (carry div 2 ^ P) - 1"
      unfolding W using ps(2) c1(3) by (simp add: zdiv_zmult2_eq)
    ultimately show ?thesis using ps(1,3) c1(2) by auto
  qed
qed

lemma comp_words_spec:
  assumes "\<not> wordsize \<le> nails div 8" "W = word_bits wordsize nails"
  shows "c \<le> 1 \<Longrightarrow> comp_words wordsize nails (chunk_words n wordsize W m) c = chunk_words n wordsize W (int c - 1 - m)"
proof (induction n arbitrary: m c)
  case (Suc n)
  define x where "x = m mod 2 ^ W"
  have x: "0 \<le> x" "x < 2 ^ W" by (simp_all add: x_def)
  obtain c' where c': "comp_word wordsize nails (le_bytes wordsize x) c = (le_bytes wordsize ((int c - 1 - x) mod 2 ^ W), c')"
    "c' \<le> 1" "(int c - 1 - x) div 2 ^ W = int c' - 1"
    using comp_word_spec [OF assms x Suc.prems] by blast
  have m: "int c - 1 - m = (int c - 1 - x) + 2 ^ W * (- (m div 2 ^ W))" by (simp add: x_def algebra_simps minus_mod_eq_mult_div [symmetric])
  have "(int c - 1 - m) mod 2 ^ W = (int c - 1 - x) mod 2 ^ W" unfolding m by (rule mod_mult_self2)
  moreover have "(int c - 1 - m) div 2 ^ W = int c' - 1 - m div 2 ^ W" unfolding m div_mult_self2 [OF power_not_zero [OF zero_neq_numeral [symmetric]]] using c'(3) by simp
  ultimately show ?case using c'(1) Suc.IH [OF c'(2)] by (simp add: x_def [symmetric])
qed simp

section \<open>The generic way\<close>

definition pack_number :: "pack_flags \<Rightarrow> int \<Rightarrow> int" where
  "pack_number flags v = (if PACK_2COMP flags then v else \<bar>v\<bar>)"

text \<open>\<open>lim\<close> is the number of values of the buffer.\<close>

definition pack_sign :: "bool \<Rightarrow> int \<Rightarrow> int \<Rightarrow> int" where
  "pack_sign twos lim v =
    (if v = 0 then 0 else if v > 0 then (if v < lim then 1 else 2) else if (if twos then - v \<le> lim else - v < lim) then - 1 else - 2)"

definition pack_ref :: "pack_flags \<Rightarrow> nat \<Rightarrow> nat \<Rightarrow> nat \<Rightarrow> int \<Rightarrow> int \<times> byte list" where
  "pack_ref flags numwords wordsize nails v =
    (pack_sign (PACK_2COMP flags) (2 ^ (word_bits wordsize nails * numwords)) v,
     pack_layout flags (chunk_words numwords wordsize (word_bits wordsize nails) (pack_number flags v)))"

text \<open>The digits of \<open>v\<close> as \<open>bary_pack\<close> passes them on.\<close>

definition pack_digits :: "BDIGIT list \<Rightarrow> int \<Rightarrow> bool" where
  "pack_digits ds v \<longleftrightarrow> (ds = [] \<or> last ds \<noteq> 0) \<and> bval ds = \<bar>v\<bar>"

lemma pack_digits_Nil: "pack_digits ds v \<Longrightarrow> ds = [] \<longleftrightarrow> v = 0"
  by (cases "ds = []") (auto simp: pack_digits_def bval_eq_0_iff dest: last_in_set)

lemma le_div_iff: "0 < c \<Longrightarrow> a \<le> b div c \<longleftrightarrow> a * c \<le> (b :: int)"
proof
  assume c: "0 < c" and "a \<le> b div c"
  then have "a * c \<le> b div c * c" by (intro mult_right_mono) simp_all
  then show "a * c \<le> b" using c pos_mod_sign [OF c, of b] div_mult_mod_eq [of b c] by linarith
next
  assume "0 < c" "a * c \<le> b"
  then show "a \<le> b div c" using int_div_less [of c b a] zdiv_mono1 [of "a * c" b c] by simp
qed

lemma pack_digits_single:
  assumes "pack_digits ds v" "v \<noteq> 0"
  shows "length (dropWhile (\<lambda>d. d = 0) ds) = 1 \<and> POW2_P (hd (dropWhile (\<lambda>d. d = 0) ds)) \<longleftrightarrow> (\<exists>k. \<bar>v\<bar> = 2 ^ k)"
proof -
  have ds: "ds \<noteq> []" "last ds \<noteq> 0" "bval ds = \<bar>v\<bar>" using assms pack_digits_Nil [OF assms(1)] by (auto simp: pack_digits_def)
  have "BARY_TRUNC ds (length ds) = length ds" using ds by (cases "length ds") (simp_all add: last_conv_nth)
  then have "rb_absint_singlebit_p (Bignum (bignew ds True)) \<longleftrightarrow>
      length (dropWhile (\<lambda>d. d = 0) ds) = 1 \<and> POW2_P (dropWhile (\<lambda>d. d = 0) ds ! 0)"
    by (simp add: rb_absint_singlebit_p_def Let_def)
  moreover have "length ds' = 1 \<Longrightarrow> hd ds' = ds' ! 0" for ds' :: "BDIGIT list" by (cases ds') simp_all
  ultimately show ?thesis using rb_absint_singlebit_p_iff [of "Bignum (bignew ds True)"] ds(3) by auto
qed

lemma chunk_words_0: "chunk_words n wordsize W 0 = replicate n (replicate wordsize 0)"
  by (induction n) simp_all

text \<open>What is left after the words, as the overflow tests see it.\<close>

lemma pack_rest:
  assumes "pack_ok (dps, dd, k)" "32 \<le> k" "pack_rem (dps, dd, k) = R"
  shows "dps \<noteq> [] \<or> 1 < dd \<longleftrightarrow> 2 \<le> R" "dps = [] \<Longrightarrow> dd = 1 \<longleftrightarrow> R = 1"
proof -
  have k: "2 ^ 1 \<le> (2 :: int) ^ k" using assms(2) by (intro power_increasing) simp_all
  have pos: "0 < bval dps" if "dps \<noteq> []"
  proof -
    have "last dps \<noteq> 0" "last dps \<in> set dps" using that assms(1) by auto
    then have "bval dps \<noteq> 0" by (auto simp: bval_eq_0_iff)
    then show ?thesis using bval_nonneg [of dps] by linarith
  qed
  have "2 \<le> R" if "dps \<noteq> []"
  proof -
    have "2 ^ k * 1 \<le> 2 ^ k * bval dps" using pos [OF that] by (intro mult_left_mono) simp_all
    then show ?thesis using k assms(3) uint_ge_0 [of dd] unfolding pack_rem.simps mult_1_right power_one_right by linarith
  qed
  moreover have "1 < dd \<longleftrightarrow> 1 < uint dd" by (simp add: word_less_def)
  moreover have "dd = 1 \<longleftrightarrow> uint dd = 1" by (metis uint_1 word_uint_eqI)
  ultimately show "dps \<noteq> [] \<or> 1 < dd \<longleftrightarrow> 2 \<le> R" "dps = [] \<Longrightarrow> dd = 1 \<longleftrightarrow> R = 1"
    using assms(3) by (cases "dps = []"; auto)+
qed

lemma pack_generic_numwords_0:
  assumes "pack_digits ds v" "wordsize \<noteq> 0"
  shows "pack_generic (sgn v) ds 0 wordsize nails flags = pack_ref flags 0 wordsize nails v"
proof -
  have "length ds = 1 \<and> ds ! 0 = 1 \<longleftrightarrow> bval ds = 1"
  proof
    assume "length ds = 1 \<and> ds ! 0 = 1"
    then show "bval ds = 1" by (cases ds) auto
  next
    assume 1: "bval ds = 1"
    then obtain d rest where ds: "ds = d # rest" by (cases ds) auto
    have "bval rest = 0"
    proof (rule ccontr)
      assume "bval rest \<noteq> 0"
      then have "1 \<le> bval rest" using bval_nonneg [of rest] by linarith
      then show False using 1 ds uint_ge_0 [of d] by simp
    qed
    then have "uint d = 1" using 1 ds by simp
    then have "d = 1" by (metis uint_1 word_uint_eqI)
    moreover have "rest = []"
    proof (rule ccontr)
      assume "rest \<noteq> []"
      then have "last rest \<noteq> 0" "last rest \<in> set rest" using assms(1) ds by (auto simp: pack_digits_def)
      then show False using \<open>bval rest = 0\<close> by (auto simp: bval_eq_0_iff)
    qed
    ultimately show "length ds = 1 \<and> ds ! 0 = 1" using ds by simp
  qed
  moreover have "bval ds = \<bar>v\<bar>" using assms(1) by (simp add: pack_digits_def)
  ultimately show ?thesis
    by (cases "v < 0"; cases "v = 0") (auto simp: pack_generic_def pack_ref_def pack_sign_def pack_layout_def sgn_if)
qed

lemma pack_generic_spec:
  assumes "pack_digits ds v" "\<not> wordsize \<le> nails div 8"
  shows "pack_generic (sgn v) ds numwords wordsize nails flags = pack_ref flags numwords wordsize nails v"
proof (cases "numwords = 0")
  case True
  then show ?thesis using pack_generic_numwords_0 [OF assms(1), of wordsize] assms(2) by simp
next
  case n0: False
  have w0: "wordsize \<noteq> 0" using assms(2) by simp
  show ?thesis
  proof (cases "ds = []")
    case True
    then have "v = 0" using pack_digits_Nil [OF assms(1)] by simp
    then show ?thesis using True n0 w0
      by (simp add: pack_generic_def pack_ref_def pack_sign_def pack_number_def chunk_words_0)
  next
    case False
    then have v0: "v \<noteq> 0" using pack_digits_Nil [OF assms(1)] by simp
    define W where "W = word_bits wordsize nails"
    define lim where "lim = (2 :: int) ^ (W * numwords)"
    obtain ws s where ws: "pack_words numwords wordsize nails (ds, 0, 0) = (ws, s)" by (meson surj_pair)
    have ok: "pack_ok (ds, 0, 0)" "pack_rem (ds, 0, 0) = \<bar>v\<bar>" using assms(1) False by (auto simp: pack_digits_def)
    have p: "ws = chunk_words numwords wordsize W \<bar>v\<bar>" "pack_ok s" "pack_rem s = \<bar>v\<bar> div lim"
      using pack_words_spec [OF ok(1) assms(2) ws] ok(2) by (simp_all add: W_def lim_def)
    obtain dps dd k where f: "integer_pack_fill_dd s = (dps, dd, k)" by (metis prod.exhaust)
    have fill: "pack_ok (dps, dd, k)" "32 \<le> k" "pack_rem (dps, dd, k) = \<bar>v\<bar> div lim"
      using pack_fill [OF p(2)] p(3) unfolding f by simp_all
    note r = pack_rest [OF fill]
    have lim: "0 < lim" by (simp add: lim_def)
    have R: "2 \<le> \<bar>v\<bar> div lim \<longleftrightarrow> 2 * lim \<le> \<bar>v\<bar>" "1 \<le> \<bar>v\<bar> div lim \<longleftrightarrow> lim \<le> \<bar>v\<bar>"
      using lim by (simp_all add: le_div_iff)
    have single: "length (dropWhile (\<lambda>d. d = 0) ds) = 1 \<and> POW2_P (hd (dropWhile (\<lambda>d. d = 0) ds)) \<longleftrightarrow> \<bar>v\<bar> = lim"
      if "lim \<le> \<bar>v\<bar>" "\<bar>v\<bar> < 2 * lim"
    proof -
      have "k = W * numwords" if "\<bar>v\<bar> = 2 ^ k" for k
      proof -
        have "(2 :: int) ^ k < 2 ^ Suc (W * numwords)" "(2 :: int) ^ (W * numwords) \<le> 2 ^ k"
          using that \<open>lim \<le> \<bar>v\<bar>\<close> \<open>\<bar>v\<bar> < 2 * lim\<close> by (simp_all add: lim_def)
        then have "k < Suc (W * numwords)" "W * numwords \<le> k" by (simp_all del: power_Suc)
        then show ?thesis by simp
      qed
      then have "(\<exists>k. \<bar>v\<bar> = 2 ^ k) \<longleftrightarrow> \<bar>v\<bar> = lim" unfolding lim_def by blast
      then show ?thesis using pack_digits_single [OF assms(1) v0] by simp
    qed
    define sign where "sign = (if dps \<noteq> [] \<or> 1 < dd then 2 * sgn v
       else if dd = 1
       then (if \<not> PACK_2COMP flags \<or> 0 \<le> sgn v then 2 * sgn v
             else let dp = dropWhile (\<lambda>d. d = 0) ds in if length dp = 1 \<and> POW2_P (hd dp) then - 1 else - 2)
       else sgn v)"
    have sign: "sign = pack_sign (PACK_2COMP flags) lim v"
    proof -
      consider "2 * lim \<le> \<bar>v\<bar>" | "lim \<le> \<bar>v\<bar>" "\<bar>v\<bar> < 2 * lim" | "\<bar>v\<bar> < lim" by linarith
      then show ?thesis
      proof cases
        case 1
        then have "sign = 2 * sgn v" using r(1) R by (simp add: sign_def)
        then show ?thesis using 1 lim v0 by (auto simp: pack_sign_def sgn_if)
      next
        case 2
        then have "\<not> 2 \<le> \<bar>v\<bar> div lim" "\<bar>v\<bar> div lim = 1" using R by linarith+
        then have "sign = (if \<not> PACK_2COMP flags \<or> 0 \<le> sgn v then 2 * sgn v else if \<bar>v\<bar> = lim then - 1 else - 2)"
          using r single [OF 2] by (simp add: sign_def Let_def)
        then show ?thesis using 2 lim v0 by (auto simp: pack_sign_def sgn_if)
      next
        case 3
        then have "\<not> 2 \<le> \<bar>v\<bar> div lim" "\<bar>v\<bar> div lim \<noteq> 1" using R lim by linarith+
        then have "sign = sgn v" using r by (auto simp: sign_def)
        then show ?thesis using 3 lim v0 by (auto simp: pack_sign_def sgn_if)
      qed
    qed
    have neg: "pack_sign (PACK_2COMP flags) lim v < 0 \<longleftrightarrow> v < 0" by (auto simp: pack_sign_def)
    have "(if PACK_2COMP flags \<and> sign < 0 \<and> numwords \<noteq> 0 then comp_words wordsize nails ws 1 else ws) =
        chunk_words numwords wordsize W (pack_number flags v)"
      using comp_words_spec [OF assms(2) W_def, of 1 numwords "\<bar>v\<bar>"] n0 p(1) by (auto simp: sign neg pack_number_def)
    moreover have "pack_generic (sgn v) ds numwords wordsize nails flags =
        (sign, pack_layout flags (if PACK_2COMP flags \<and> sign < 0 \<and> numwords \<noteq> 0 then comp_words wordsize nails ws 1 else ws))"
      using n0 w0 False ws f by (simp add: pack_generic_def sign_def)
    ultimately show ?thesis using sign by (simp add: pack_ref_def W_def lim_def)
  qed
qed

section \<open>The fast ways\<close>

lemma sum_bytes: "uint (d :: BDIGIT) div 256 div 256 = uint d div 65536" "uint d div 65536 div 256 = uint d div 16777216"
  by (simp_all flip: zdiv_zmult2_eq)

lemma ucast_drop_byte: "(ucast (drop_bit k (d :: BDIGIT)) :: byte) = word_of_int (uint d div 2 ^ k)"
  by (rule bit_word_eqI) (auto simp: bit_simps simp flip: drop_bit_eq_div)

lemma le_bytes_4: "le_bytes 4 x = [word_of_int x, word_of_int (x div 256), word_of_int (x div 256 div 256), word_of_int (x div 256 div 256 div 256)]"
proof -
  have "4 = Suc (Suc (Suc (Suc 0)))" by simp
  then show ?thesis by (simp only: le_bytes.simps)
qed

lemma digit_bytes_eq: "digit_bytes d = le_bytes 4 (uint d)"
proof -
  have "(ucast d :: byte) = word_of_int (uint d)" by (rule ucast_eq)
  moreover have "(2 :: int) ^ 8 = 256" "(2 :: int) ^ 16 = 65536" "(2 :: int) ^ 24 = 16777216" by simp_all
  ultimately show ?thesis unfolding digit_bytes_def le_bytes_4 sum_bytes ucast_drop_byte by (simp only:)
qed

lemma digits_bytes_eq: "concat (map digit_bytes ds) = le_bytes (4 * length ds) (bval ds)"
proof (induction ds)
  case (Cons d ds)
  have "le_bytes (4 + 4 * length ds) (bval (d # ds)) = le_bytes 4 (bval (d # ds)) @ le_bytes (4 * length ds) (bval (d # ds) div 256 ^ 4)"
    by (rule le_bytes_append)
  moreover have "le_bytes 4 (bval (d # ds)) = le_bytes 4 (uint d)" by (rule le_bytes_cong) simp
  moreover have "uint d div 4294967296 = 0" using uint_digit [of d] by simp
  then have "bval (d # ds) div 256 ^ 4 = bval ds" by simp
  ultimately show ?case using Cons by (simp add: digit_bytes_eq del: bval.simps)
qed simp

lemma take_le_bytes: "k \<le> n \<Longrightarrow> take k (le_bytes n m) = le_bytes k m"
  using le_bytes_append [of k "n - k" m] by simp

lemma nth_le_bytes: "k < n \<Longrightarrow> le_bytes n m ! k = word_of_int (m div 256 ^ k)"
proof (induction k arbitrary: n m)
  case 0
  then show ?case by (cases n) simp_all
next
  case (Suc k)
  then show ?case by (cases n) (simp_all add: zdiv_zmult2_eq)
qed

text \<open>
  When the size of the buffer alone decides: \<open>s\<close> digits to the base \<open>b\<close>, the top one not zero, for \<open>n\<close>
  places.
\<close>

lemma pack_overflow:
  assumes "\<bar>v\<bar> < b ^ s" "0 < s \<Longrightarrow> b ^ (s - 1) \<le> \<bar>v\<bar>" "1 < (b :: int)"
  shows "(if \<not> s \<le> n \<and> \<not> ((v < 0 \<and> twos) \<and> \<bar>v\<bar> mod b ^ n = 0 \<and> n = s - 1 \<and> \<bar>v\<bar> div b ^ n = 1) then 2 * sgn v else sgn v) =
    pack_sign twos (b ^ n) v"
proof (cases "s \<le> n")
  case True
  then have "b ^ s \<le> b ^ n" using assms(3) by (intro power_increasing) simp_all
  then have "\<bar>v\<bar> < b ^ n" using assms(1) by linarith
  then show ?thesis using True by (auto simp: pack_sign_def sgn_if)
next
  case False
  then have "b ^ n \<le> b ^ (s - 1)" using assms(3) by (intro power_increasing) simp_all
  then have ge: "b ^ n \<le> \<bar>v\<bar>" using assms(2) False by linarith
  have pos: "0 < b ^ n" using assms(3) by simp
  have "\<bar>v\<bar> mod b ^ n = 0 \<and> n = s - 1 \<and> \<bar>v\<bar> div b ^ n = 1 \<longleftrightarrow> \<bar>v\<bar> = b ^ n"
  proof
    assume "\<bar>v\<bar> mod b ^ n = 0 \<and> n = s - 1 \<and> \<bar>v\<bar> div b ^ n = 1"
    then have "\<bar>v\<bar> mod b ^ n = 0" "\<bar>v\<bar> div b ^ n = 1" by blast+
    then show "\<bar>v\<bar> = b ^ n" using div_mult_mod_eq [of "\<bar>v\<bar>" "b ^ n"] by (simp only:)
  next
    assume eq: "\<bar>v\<bar> = b ^ n"
    then have "b ^ (s - 1) \<le> b ^ n" using assms(2) False by simp
    then have "s - 1 \<le> n" using assms(3) by simp
    then have "n = s - 1" using False by linarith
    moreover have "b ^ n div b ^ n = 1" using pos by (metis div_self less_irrefl)
    ultimately show "\<bar>v\<bar> mod b ^ n = 0 \<and> n = s - 1 \<and> \<bar>v\<bar> div b ^ n = 1" using eq by simp
  qed
  then show ?thesis using False ge pos by (auto simp: pack_sign_def sgn_if)
qed

lemma bytes_add_one_spec:
  "bytes_add_one (le_bytes n x) = (le_bytes n (x + 1), (x + 1) mod 256 ^ n = 0)"
proof (induction n arbitrary: x)
  case (Suc n)
  define h where "h = (word_of_int x + 1 :: byte)"
  note b = h_def [symmetric]
  have "uint h = (x + 1) mod 256" using uint_word_of_int_byte [of "x + 1"] by (simp add: h_def)
  then have z: "h = 0 \<longleftrightarrow> (x + 1) mod 256 = 0" by (metis uint_0_iff)
  have split: "(x + 1) mod 256 ^ Suc n = 256 * ((x + 1) div 256 mod 256 ^ n) + (x + 1) mod 256"
    using zmod_zmult2_eq [of "256 ^ n" "x + 1" 256] by simp
  show ?case
  proof (cases "(x + 1) mod 256 = 0")
    case True
    obtain q where q: "x + 1 = 256 * q" using True by (auto simp: mod_eq_0_iff_dvd)
    then have "x = 255 + 256 * (q - 1)" by simp
    then have "x div 256 = q - 1" by simp
    then have "x div 256 + 1 = (x + 1) div 256" using q by simp
    then show ?thesis using Suc.IH [of "x div 256"] b z True split by (simp add: Let_def)
  next
    case False
    have eq: "x + 1 = (x mod 256 + 1) + 256 * (x div 256)" by simp
    have "x mod 256 \<noteq> 255"
    proof
      assume "x mod 256 = 255"
      then have "x + 1 = 256 * (x div 256 + 1)" using div_mult_mod_eq [of x 256] by simp
      then have "256 dvd x + 1" by (rule dvdI)
      then show False using False by (simp only: dvd_imp_mod_0 simp_thms)
    qed
    then have "(x mod 256 + 1) div 256 = 0" using pos_mod_bound [of 256 x] by (intro div_pos_pos_trivial) simp_all
    then have "x div 256 = (x + 1) div 256" using arg_cong [OF eq, of "\<lambda>y. y div 256"] div_mult_self2 [of 256 "x mod 256 + 1" "x div 256"] by linarith
    moreover have "(x + 1) mod 256 ^ Suc n \<noteq> 0"
    proof
      assume "(x + 1) mod 256 ^ Suc n = 0"
      moreover have "0 \<le> (x + 1) div 256 mod 256 ^ n" "0 \<le> (x + 1) mod 256" by simp_all
      ultimately show False using split False by linarith
    qed
    ultimately show ?thesis using b z False by (simp add: Let_def)
  qed
qed simp

lemma le_bytes_NOT: "map NOT (le_bytes n x) = le_bytes n (- 1 - x)"
proof (induction n arbitrary: x)
  case (Suc n)
  have "NOT (word_of_int x :: byte) = word_of_int (- 1 - x)" by (simp add: not_eq_complement)
  moreover have "- 1 - x div 256 = (- 1 - x) div 256"
  proof -
    have eq: "- 1 - x = (255 - x mod 256) + 256 * (- 1 - x div 256)" by (simp add: algebra_simps minus_mod_eq_mult_div [symmetric])
    have "(255 - x mod 256) div 256 = 0" using pos_mod_bound [of 256 x] by (intro div_pos_pos_trivial) simp_all
    then show ?thesis unfolding eq by simp
  qed
  ultimately show ?case using Suc.IH [of "x div 256"] by simp
qed simp

lemma bytes_2comp_spec: "bytes_2comp (le_bytes n x) = (le_bytes n (- x), x mod 256 ^ n = 0)"
proof -
  have "(- x) mod 256 ^ n = 0 \<longleftrightarrow> x mod 256 ^ n = 0" by (simp add: mod_eq_0_iff_dvd)
  then show ?thesis using bytes_add_one_spec [of n "- 1 - x"] by (simp add: bytes_2comp_def le_bytes_NOT)
qed

lemma trim_bytes_spec:
  "n \<le> length bs \<Longrightarrow> trim_bytes bs n \<le> n \<and> (\<forall>i. trim_bytes bs n \<le> i \<longrightarrow> i < n \<longrightarrow> bs ! i = 0) \<and>
    (0 < trim_bytes bs n \<longrightarrow> bs ! (trim_bytes bs n - 1) \<noteq> 0)"
  by (induction n) (auto simp: less_Suc_eq)

text \<open>The size in bytes of a number given by its bytes.\<close>

lemma le_bytes_zero: "le_bytes n x = replicate n 0 \<Longrightarrow> x mod 256 ^ n = 0"
proof (induction n arbitrary: x)
  case (Suc n)
  then have "x div 256 mod 256 ^ n = 0" "(word_of_int x :: byte) = 0" by simp_all
  moreover from this have "x mod 256 = 0" by (metis uint_0_iff uint_word_of_int_byte)
  ultimately show ?case using zmod_zmult2_eq [of "256 ^ n" x 256] by simp
qed simp

lemma trim_le_bytes:
  assumes "0 \<le> x" "x < 256 ^ n" "s = trim_bytes (le_bytes n x) n"
  shows "s \<le> n" "x < 256 ^ s" "0 < s \<Longrightarrow> 256 ^ (s - 1) \<le> x"
proof -
  have t: "s \<le> n" "\<And>i. s \<le> i \<Longrightarrow> i < n \<Longrightarrow> le_bytes n x ! i = 0" "0 < s \<Longrightarrow> le_bytes n x ! (s - 1) \<noteq> 0"
    using trim_bytes_spec [of n "le_bytes n x"] by (simp_all add: assms(3))
  show "s \<le> n" by (rule t)
  have split: "le_bytes n x = le_bytes s x @ le_bytes (n - s) (x div 256 ^ s)" using le_bytes_append [of s "n - s" x] t(1) by simp
  have "le_bytes (n - s) (x div 256 ^ s) = replicate (n - s) 0"
  proof (rule nth_equalityI)
    fix i assume "i < length (le_bytes (n - s) (x div 256 ^ s))"
    then show "le_bytes (n - s) (x div 256 ^ s) ! i = replicate (n - s) 0 ! i"
      using t(2) [of "s + i"] unfolding split by (simp add: nth_append)
  qed simp
  then have "x div 256 ^ s mod 256 ^ (n - s) = 0" by (rule le_bytes_zero)
  moreover have "x div 256 ^ s < 256 ^ (n - s)" using assms(2) t(1) by (intro int_div_less) (simp_all flip: power_add)
  moreover have "0 \<le> x div 256 ^ s" using assms(1) by (simp add: pos_imp_zdiv_nonneg_iff)
  ultimately have "x div 256 ^ s = 0" by simp
  then show "x < 256 ^ s" using assms(1) le_div_iff [of "256 ^ s" 1 x] by simp
  assume "0 < s"
  then have "(word_of_int (x div 256 ^ (s - 1)) :: byte) \<noteq> 0" using t(1,3) nth_le_bytes [of "s - 1" n x] by simp
  then have "x div 256 ^ (s - 1) \<noteq> 0" by auto
  moreover have "0 \<le> x div 256 ^ (s - 1)" using assms(1) by (simp add: pos_imp_zdiv_nonneg_iff)
  ultimately show "256 ^ (s - 1) \<le> x" using le_div_iff [of "256 ^ (s - 1)" 1 x] by simp
qed

end
