(* ===== verification/Big_Pack_Fast.thy ===== *)
theory Big_Pack_Fast
  imports Big_Pack_Spec
begin

text \<open>
  The three fast ways of \<open>bary_pack\<close> -- one small word, bytes copied from memory, whole digits -- give
  what the generic way gives.
\<close>

section \<open>One word\<close>

lemma word_and_high: "d AND push_bit k (- 1) = 0 \<longleftrightarrow> uint (d :: 'a :: len word) < 2 ^ k"
proof -
  have "d AND push_bit k (- 1) = 0 \<longleftrightarrow> take_bit k d = d"
  proof
    assume a: "d AND push_bit k (- 1) = 0"
    show "take_bit k d = d"
    proof (rule bit_word_eqI)
      fix n assume n: "n < LENGTH('a)"
      have "\<not> bit (d AND push_bit k (- 1)) n" unfolding a by simp
      then show "bit (take_bit k d) n = bit d n" using n by (auto simp: bit_simps)
    qed
  next
    assume a: "take_bit k d = d"
    show "d AND push_bit k (- 1) = 0"
    proof (rule bit_word_eqI)
      fix n assume "n < LENGTH('a)"
      have "bit d n \<Longrightarrow> n < k" using a bit_take_bit_iff [of k d n] by simp
      then show "bit (d AND push_bit k (- 1)) n = bit 0 n" by (auto simp: bit_simps)
    qed
  qed
  also have "\<dots> \<longleftrightarrow> take_bit k (uint d) = uint d" by (simp add: word_uint_eq_iff unsigned_take_bit_eq)
  finally show ?thesis by (simp add: take_bit_int_eq_self_iff)
qed

lemma word_or_low: "d OR (push_bit k 1 - 1) = - 1 \<longleftrightarrow> uint (NOT d :: 'a :: len word) < 2 ^ k"
proof -
  have "push_bit k 1 - 1 = NOT (push_bit k (- 1) :: 'a word)"
    by (simp add: push_bit_eq_mult not_eq_complement)
  then have "d OR (push_bit k 1 - 1) = - 1 \<longleftrightarrow> NOT (NOT d AND push_bit k (- 1)) = NOT 0" by simp
  also have "\<dots> \<longleftrightarrow> NOT d AND push_bit k (- 1) = 0" by (metis bit.double_compl)
  finally show ?thesis by (simp only: word_and_high)
qed

lemma uint_NOT_minus: "d \<noteq> 0 \<Longrightarrow> uint (NOT (- ucast d :: 64 word)) = uint (d :: BDIGIT) - 1"
proof -
  assume "d \<noteq> 0"
  then have "1 \<le> uint d" by (metis linorder_not_less uint_0_iff uint_ge_0 zero_less_iff_neq_zero int_one_le_iff_zero_less order_le_imp_less_or_eq)
  moreover have "NOT (- ucast d :: 64 word) = ucast d - 1" by (simp add: not_eq_complement)
  moreover have "uint (ucast d - 1 :: 64 word) = (uint d - 1) mod 18446744073709551616"
    by (simp add: uint_word_ariths)
  ultimately show ?thesis using uint_digit [of d] by simp
qed

lemma fill_lowbits_iff: "(- ucast d :: 64 word) OR (push_bit k 1 - 1) = - 1 \<longleftrightarrow> d \<noteq> 0 \<and> uint (d :: BDIGIT) \<le> 2 ^ k" if "k < 64"
proof (cases "d = 0")
  case True
  have "(2 :: int) ^ k \<le> 2 ^ 63" using that by (intro power_increasing) simp_all
  moreover have "uint (NOT (0 :: 64 word)) = 18446744073709551615" by (simp add: unsigned_minus_1_eq_mask mask_eq_exp_minus_1)
  ultimately have "\<not> uint (NOT (0 :: 64 word)) < 2 ^ k" by simp
  then show ?thesis using True word_or_low [of "0 :: 64 word" k] by simp
next
  case False
  then show ?thesis using word_or_low [of "- ucast d :: 64 word" k] uint_NOT_minus [OF False] by auto
qed

lemma concat_chunk_words: "concat (chunk_words n wordsize (8 * wordsize) m) = le_bytes (n * wordsize) m"
proof (induction n arbitrary: m)
  case (Suc n)
  have "(2 :: int) ^ (8 * wordsize) = 256 ^ wordsize" by (simp add: power_256)
  then show ?case using Suc.IH by (simp add: le_bytes_append le_bytes_mod)
qed simp

lemma word_bits_0 [simp]: "word_bits wordsize 0 = 8 * wordsize"
  by (simp add: word_bits_def)

lemma pack_layout_single: "pack_layout flags [w] = (if BYTEORDER flags = MSBYTE_FIRST then rev w else w)"
  by (simp add: pack_layout_def)

lemma rev_short: "length w = 1 \<Longrightarrow> rev w = w"
  by (cases w) simp_all

lemma pack_single_spec:
  assumes "pack_digits ds v" "v \<noteq> 0" "wordsize = 1 \<or> wordsize = 2 \<or> wordsize = 4"
  shows "pack_single (sgn v) ds wordsize flags = pack_ref flags 1 wordsize 0 v"
proof -
  obtain d ds' where ds: "ds = d # ds'" using pack_digits_Nil [OF assms(1)] assms(2) by (cases ds) auto
  have val: "\<bar>v\<bar> = uint d + 4294967296 * bval ds'" using assms(1) by (simp add: ds pack_digits_def)
  have rest: "ds' = [] \<longleftrightarrow> bval ds' = 0" using assms(1)
    by (cases "ds' = []") (auto simp: ds pack_digits_def bval_eq_0_iff dest: last_in_set)
  have pow: "(2 :: int) ^ (8 * wordsize) = 256 ^ wordsize" by (simp add: power_256)
  have le: "(256 :: int) ^ wordsize \<le> 4294967296" and w4: "wordsize \<le> 4" using assms(3) by auto
  have dvd: "(256 :: int) ^ wordsize dvd 4294967296" using assms(3) by auto
  have bytes: "take wordsize (digit_bytes c) = le_bytes wordsize x" if "x mod 4294967296 = uint c" for c x
  proof -
    have "uint c mod 256 ^ wordsize = x mod 256 ^ wordsize" using mod_mod_cancel [OF dvd, of x] that by simp
    then show ?thesis using w4 by (simp add: digit_bytes_eq take_le_bytes cong: le_bytes_cong)
  qed
  have layout: "pack_layout flags (chunk_words 1 wordsize (8 * wordsize) m) =
      (if wordsize \<noteq> 1 \<and> BYTEORDER flags = MSBYTE_FIRST then rev else id) (le_bytes wordsize m)" for m
    by (simp add: pack_layout_single pow le_bytes_mod rev_short)
  have nonneg: "0 \<le> bval ds'" by simp
  have pos: "bval ds' \<noteq> 0 \<Longrightarrow> 4294967296 \<le> \<bar>v\<bar>" using val uint_digit [of d] nonneg by linarith
  show ?thesis
  proof (cases "0 < v \<or> \<not> PACK_2COMP flags")
    case True
    have c: "(1 < length ds \<or> ds ! 0 AND push_bit (8 * wordsize) (- 1) \<noteq> 0) = (256 ^ wordsize \<le> \<bar>v\<bar>)"
      unfolding word_and_high pow using val rest le pos by (cases "ds' = []") (auto simp: ds)
    have b: "take wordsize (digit_bytes (ds ! 0)) = le_bytes wordsize \<bar>v\<bar>" by (rule bytes) (use uint_digit [of d] val in \<open>simp add: ds\<close>)
    have "0 < sgn v \<or> \<not> PACK_2COMP flags" using True by auto
    then have "pack_single (sgn v) ds wordsize flags =
        ((if 256 ^ wordsize \<le> \<bar>v\<bar> then 2 else 1) * sgn v,
         (if wordsize \<noteq> 1 \<and> BYTEORDER flags = MSBYTE_FIRST then rev else id) (le_bytes wordsize \<bar>v\<bar>))"
      by (simp only: pack_single_def Let_def c b if_True)
    moreover have "pack_number flags v = \<bar>v\<bar>" using True by (auto simp: pack_number_def)
    moreover have "pack_sign (PACK_2COMP flags) (256 ^ wordsize) v = (if 256 ^ wordsize \<le> \<bar>v\<bar> then 2 else 1) * sgn v"
      using True assms(2) by (cases "0 < v") (simp_all add: pack_sign_def sgn_if)
    ultimately show ?thesis by (simp only: pack_ref_def word_bits_0 layout mult_1_right pow)
  next
    case False
    then have neg: "v < 0" "PACK_2COMP flags" using assms(2) by auto
    have d0: "ds' = [] \<Longrightarrow> d \<noteq> 0" using val assms(2) by auto
    have "uint (ucast (- ucast d :: BDIGIT_DBL_SIGNED) :: BDIGIT) = (- uint d) mod 4294967296"
      by (simp add: unsigned_ucast_eq take_bit_eq_mod uint_word_ariths mod_mod_cancel)
    moreover have "v = - uint d - 4294967296 * bval ds'" using val neg by simp
    then have "v mod 4294967296 = (- uint d) mod 4294967296" by (metis mod_mult_self2 add_uminus_conv_diff mult_minus_right)
    ultimately have b: "take wordsize (digit_bytes (ucast (- ucast d :: BDIGIT_DBL_SIGNED))) = le_bytes wordsize v"
      by (intro bytes) simp
    have k: "8 * wordsize < 64" using w4 by simp
    have s: "(wordsize = 4 \<and> length ds = 2 \<and> ds ! 1 = 1 \<and> ds ! 0 = 0) \<or>
        \<not> (1 < length ds \<or> (- ucast d :: 64 word) OR (push_bit (8 * wordsize) 1 - 1) \<noteq> - 1) \<longleftrightarrow> - v \<le> 256 ^ wordsize"
      (is "?a \<or> ?b \<longleftrightarrow> _")
    proof (cases "ds' = []")
      case True
      then show ?thesis using val neg d0 fill_lowbits_iff [OF k, of d] by (simp add: ds pow)
    next
      case False
      then have one: "1 \<le> bval ds'" using rest nonneg by linarith
      have "- v \<le> 256 ^ wordsize \<longleftrightarrow> wordsize = 4 \<and> uint d = 0 \<and> bval ds' = 1"
      proof
        assume "- v \<le> 256 ^ wordsize"
        then have "uint d + 4294967296 * bval ds' \<le> 256 ^ wordsize" using val neg by simp
        then have "4294967296 * bval ds' \<le> 256 ^ wordsize" "uint d + 4294967296 * bval ds' \<le> 4294967296"
          using uint_digit(1) [of d] le by linarith+
        moreover have "wordsize \<noteq> 4 \<Longrightarrow> (256 :: int) ^ wordsize \<le> 65536" using assms(3) by auto
        ultimately show "wordsize = 4 \<and> uint d = 0 \<and> bval ds' = 1" using one uint_digit(1) [of d] by linarith
      next
        assume "wordsize = 4 \<and> uint d = 0 \<and> bval ds' = 1"
        then show "- v \<le> 256 ^ wordsize" using val neg by simp
      qed
      moreover have "bval ds' = 1 \<longleftrightarrow> ds' = [1]"
      proof
        assume "bval ds' = 1"
        moreover have "bval [1] = 1" "(1 :: BDIGIT) \<noteq> 0" by simp_all
        moreover obtain e es where e: "ds' = e # es" using False by (cases ds') auto
        ultimately have "uint e + 4294967296 * bval es = 1" by simp
        moreover have "0 \<le> bval es" by simp
        ultimately have "bval es = 0" using uint_digit(1) [of e] by linarith
        then have "uint e = 1" using \<open>uint e + 4294967296 * bval es = 1\<close> by simp
        moreover have "es = []"
          using \<open>bval es = 0\<close> assms(1) e by (cases "es = []") (auto simp: ds pack_digits_def bval_eq_0_iff dest: last_in_set)
        ultimately show "ds' = [1]" using e by (metis uint_1 word_uint_eqI)
      qed simp
      moreover have "uint d = 0 \<longleftrightarrow> d = 0" by (simp add: uint_0_iff)
      ultimately show ?thesis using False by (cases ds') (auto simp: ds)
    qed
    have "pack_single (sgn v) ds wordsize flags =
        (if ?a \<or> ?b then - 1 else - 2, (if wordsize \<noteq> 1 \<and> BYTEORDER flags = MSBYTE_FIRST then rev else id) (le_bytes wordsize v))"
      using neg False by (simp add: pack_single_def ds b Let_def)
    moreover have "pack_sign (PACK_2COMP flags) (256 ^ wordsize) v = (if - v \<le> 256 ^ wordsize then - 1 else - 2)"
      using neg by (simp add: pack_sign_def)
    moreover have "pack_number flags v = v" using neg by (simp add: pack_number_def)
    ultimately show ?thesis by (simp only: s pack_ref_def word_bits_0 layout mult_1_right pow)
  qed
qed

section \<open>Bytes\<close>

lemma sgn_less_0: "sgn (v :: int) < 0 \<longleftrightarrow> v < 0"
  by (simp add: sgn_if)

lemma pack_bytes_spec:
  assumes "pack_digits ds v" "BYTEORDER flags \<noteq> MSBYTE_FIRST" "WORDORDER flags = LSWORD_FIRST"
  shows "pack_bytes (sgn v) ds (numwords * wordsize) flags = pack_ref flags numwords wordsize 0 v"
proof -
  define n where "n = numwords * wordsize"
  define L where "L = 4 * length ds"
  define s where "s = trim_bytes (le_bytes L \<bar>v\<bar>) L"
  have val: "bval ds = \<bar>v\<bar>" using assms(1) by (simp add: pack_digits_def)
  have bytes: "concat (map digit_bytes ds) = le_bytes L \<bar>v\<bar>" by (simp add: digits_bytes_eq L_def val)
  have "(256 :: int) ^ L = 4294967296 ^ length ds" by (simp add: L_def power_mult)
  then have vL: "\<bar>v\<bar> < 256 ^ L" using bval_less [of ds] by (simp only: val)
  have s: "s \<le> L" "\<bar>v\<bar> < 256 ^ s" "0 < s \<Longrightarrow> 256 ^ (s - 1) \<le> \<bar>v\<bar>"
    using trim_le_bytes [OF abs_ge_zero vL s_def] by simp_all
  define words where "words = (if \<not> s \<le> n then take n (le_bytes L \<bar>v\<bar>) else take s (le_bytes L \<bar>v\<bar>) @ replicate (n - s) 0)"
  have words: "words = le_bytes n \<bar>v\<bar>"
  proof (cases "s \<le> n")
    case True
    have "\<bar>v\<bar> div 256 ^ s = 0" using s(2) by (intro div_pos_pos_trivial) simp_all
    then show ?thesis using True s(1) le_bytes_append [of s "n - s" "\<bar>v\<bar>"] by (simp add: words_def take_le_bytes)
  qed (use s(1) in \<open>simp add: words_def take_le_bytes\<close>)
  have top: "le_bytes L \<bar>v\<bar> ! n = 1 \<longleftrightarrow> \<bar>v\<bar> div 256 ^ n = 1" if "n = s - 1" "\<not> s \<le> n"
  proof -
    have "s = Suc n" using that by linarith
    then have "(256 :: int) ^ s = 256 * 256 ^ n" by simp
    then have "\<bar>v\<bar> div 256 ^ n < 256" using s(2) by (intro int_div_less) simp_all
    moreover have "0 \<le> \<bar>v\<bar> div 256 ^ n" by (simp add: pos_imp_zdiv_nonneg_iff)
    ultimately have "uint (word_of_int (\<bar>v\<bar> div 256 ^ n) :: byte) = \<bar>v\<bar> div 256 ^ n"
      unfolding uint_word_of_int_byte by (intro mod_pos_pos_trivial)
    moreover have "le_bytes L \<bar>v\<bar> ! n = word_of_int (\<bar>v\<bar> div 256 ^ n)" using that s(1) by (intro nth_le_bytes) simp
    moreover have "b = 1 \<longleftrightarrow> uint b = 1" for b :: byte by (metis uint_1 word_uint_eqI)
    ultimately show ?thesis by simp
  qed
  have top': "n = s - 1 \<and> \<bar>v\<bar> div 256 ^ n = 1 \<longleftrightarrow> n = s - 1 \<and> le_bytes L \<bar>v\<bar> ! n = 1" if "\<not> s \<le> n"
    using top [OF _ that] by (rule conj_cong [OF refl, symmetric])
  define over where "over = (\<not> s \<le> n \<and> \<not> ((v < 0 \<and> PACK_2COMP flags) \<and> \<bar>v\<bar> mod 256 ^ n = 0 \<and> n = s - 1 \<and> \<bar>v\<bar> div 256 ^ n = 1))"
  have over: "(if over then 2 * sgn v else sgn v) = pack_sign (PACK_2COMP flags) (256 ^ n) v"
    unfolding over_def by (rule pack_overflow) (use s in auto)
  have "pack_bytes (sgn v) ds n flags =
      (let (words, overflow) =
             (if v < 0 \<and> PACK_2COMP flags
              then let (words, zero_p) = bytes_2comp words
                   in (words, \<not> s \<le> n \<and> \<not> (zero_p \<and> n = s - 1 \<and> le_bytes L \<bar>v\<bar> ! n = 1))
              else (words, \<not> s \<le> n))
       in (if overflow then 2 * sgn v else sgn v, words))"
    by (simp only: pack_bytes_def Let_def bytes length_le_bytes sgn_less_0 s_def words_def)
  also have "\<dots> = (if over then 2 * sgn v else sgn v, le_bytes n (pack_number flags v))"
  proof (cases "v < 0 \<and> PACK_2COMP flags")
    case True
    then have "over = (\<not> s \<le> n \<and> \<not> (\<bar>v\<bar> mod 256 ^ n = 0 \<and> n = s - 1 \<and> le_bytes L \<bar>v\<bar> ! n = 1))"
      using top' by (cases "s \<le> n") (simp_all only: over_def simp_thms)
    moreover have "pack_number flags v = - \<bar>v\<bar>" using True by (simp add: pack_number_def)
    ultimately show ?thesis by (simp only: True words bytes_2comp_spec Let_def case_prod_conv if_True simp_thms)
  next
    case False
    then have "over = (\<not> s \<le> n)" "pack_number flags v = \<bar>v\<bar>" by (auto simp: over_def pack_number_def)
    then show ?thesis by (simp only: False words Let_def case_prod_conv if_False)
  qed
  finally have code: "pack_bytes (sgn v) ds n flags = (if over then 2 * sgn v else sgn v, le_bytes n (pack_number flags v))" .
  have "(256 :: int) ^ n = 2 ^ (8 * wordsize * numwords)" by (simp add: n_def power_256 mult.commute mult.left_commute)
  then show ?thesis using assms(2,3) over
    by (simp add: code pack_ref_def pack_layout_def concat_chunk_words flip: n_def)
qed

section \<open>Digits\<close>

fun chunks :: "nat \<Rightarrow> nat \<Rightarrow> 'a list \<Rightarrow> 'a list list" where
  "chunks 0 n xs = []"
| "chunks (Suc k) n xs = take n xs # chunks k n (drop n xs)"

lemma concat_chunks: "length xs = k * n \<Longrightarrow> concat (chunks k n xs) = xs"
  by (induction k arbitrary: xs) simp_all

lemma swap_chunks_eq: "length ds = k * n \<Longrightarrow> swap_chunks k n ds = concat (map rev (chunks k n ds))"
  by (induction k arbitrary: ds) simp_all

lemma chunks_map: "chunks k n (map f xs) = map (map f) (chunks k n xs)"
  by (induction k arbitrary: xs) (simp_all add: take_map drop_map)

lemma digit_bytes_swap: "digit_bytes (swap_bdigit d) = rev (digit_bytes d)"
proof -
  have byte: "(x :: byte) = y" if "bit x 0 = bit y 0" "bit x 1 = bit y 1" "bit x 2 = bit y 2" "bit x 3 = bit y 3"
      "bit x 4 = bit y 4" "bit x 5 = bit y 5" "bit x 6 = bit y 6" "bit x 7 = bit y 7" for x y
  proof (rule bit_word_eqI)
    fix n assume "n < LENGTH(8)"
    then consider "n = 0" | "n = 1" | "n = 2" | "n = 3" | "n = 4" | "n = 5" | "n = 6" | "n = 7" by (simp, linarith)
    then show "bit x n = bit y n" using that by cases simp_all
  qed
  have "ucast (swap_bdigit d) = (ucast (drop_bit 24 d) :: byte)" "ucast (drop_bit 8 (swap_bdigit d)) = (ucast (drop_bit 16 d) :: byte)"
    "ucast (drop_bit 16 (swap_bdigit d)) = (ucast (drop_bit 8 d) :: byte)" "ucast (drop_bit 24 (swap_bdigit d)) = (ucast d :: byte)"
    unfolding swap_bdigit_def Let_def by (rule byte; simp add: bit_simps)+
  then show ?thesis by (simp add: digit_bytes_def)
qed

lemma length_chunks [simp]: "length (chunks k n xs) = k"
  by (induction k arbitrary: xs) simp_all

text \<open>The bytes of words made of whole digits.\<close>

lemma chunks_bytes:
  assumes "length ds = numwords * n"
  shows "map (\<lambda>c. concat (map digit_bytes c)) (chunks numwords n ds) = chunk_words numwords (4 * n) (8 * (4 * n)) (bval ds)"
  using assms
proof (induction numwords arbitrary: ds)
  case (Suc k)
  have len: "n \<le> length ds" "length (drop n ds) = k * n" using Suc.prems by simp_all
  have pow: "(2 :: int) ^ (32 * n) = 4294967296 ^ n" by (simp add: power_mult)
  have val: "bval ds = bval (take n ds) + bval (drop n ds) * 4294967296 ^ n" using bval_take_drop [OF len(1)] by simp
  have less: "0 \<le> bval (take n ds)" "bval (take n ds) < 4294967296 ^ n" using bval_take_less [OF len(1)] by simp_all
  have "bval ds mod 4294967296 ^ n = bval (take n ds)" unfolding val using less by simp
  moreover have "bval ds div 4294967296 ^ n = bval (drop n ds)" unfolding val using less by simp
  moreover have "concat (map digit_bytes (take n ds)) = le_bytes (4 * n) (bval (take n ds))"
    using len(1) by (simp add: digits_bytes_eq min_def)
  ultimately show ?case using Suc.IH [OF len(2)] by (simp add: pow)
qed simp

lemma pack_digits_layout:
  assumes "length ds = numwords * n"
  shows "concat (map digit_bytes
      (let ds = (if BYTEORDER flags = MSBYTE_FIRST then map swap_bdigit ds else ds);
           ds = (if (if WORDORDER flags = MSWORD_FIRST then BYTEORDER flags \<noteq> MSBYTE_FIRST else BYTEORDER flags = MSBYTE_FIRST)
                 then swap_chunks numwords n ds else ds)
       in if WORDORDER flags = MSWORD_FIRST then rev ds else ds)) =
    pack_layout flags (chunk_words numwords (4 * n) (8 * (4 * n)) (bval ds))"
proof -
  let ?cs = "chunks numwords n ds"
  let ?by = "\<lambda>c. concat (map digit_bytes c)"
  have swap: "?by (map swap_bdigit c) = rev (?by (rev c))" for c
    by (simp add: rev_concat digit_bytes_swap rev_map comp_def)
  have swap': "?by (rev (map swap_bdigit c)) = rev (?by c)" for c
    using swap [of "rev c"] by (simp add: rev_map)
  have by_concat: "?by (concat cs) = concat (map ?by cs)" for cs by (induction cs) simp_all
  have cs: "concat ?cs = ds" using assms by (rule concat_chunks)
  have all: "?by ds = concat (map ?by ?cs)" using by_concat [of ?cs] unfolding cs .
  have sw: "swap_chunks numwords n (map f ds) = concat (map (\<lambda>c. rev (map f c)) ?cs)" for f
    using swap_chunks_eq [of "map f ds" numwords n] assms by (simp add: chunks_map comp_def)
  have sw0: "swap_chunks numwords n ds = concat (map rev ?cs)" using swap_chunks_eq [of ds numwords n] assms by simp
  have "?by (if WORDORDER flags = MSWORD_FIRST then rev (map swap_bdigit ds) else swap_chunks numwords n (map swap_bdigit ds)) =
      concat (map rev (if WORDORDER flags = MSWORD_FIRST then rev (map ?by ?cs) else map ?by ?cs))"
  proof (cases "WORDORDER flags = MSWORD_FIRST")
    case True
    have "?by (rev (map swap_bdigit ds)) = rev (concat (map ?by ?cs))" unfolding swap' all ..
    then show ?thesis using True by (simp add: rev_concat rev_map)
  qed (simp add: sw by_concat comp_def swap')
  moreover have "?by (if WORDORDER flags = MSWORD_FIRST then rev (swap_chunks numwords n ds) else ds) =
      concat (if WORDORDER flags = MSWORD_FIRST then rev (map ?by ?cs) else map ?by ?cs)"
  proof (cases "WORDORDER flags = MSWORD_FIRST")
    case True
    have "rev (swap_chunks numwords n ds) = concat (rev ?cs)" by (simp add: sw0 rev_concat rev_map comp_def)
    then show ?thesis using True by (simp add: by_concat rev_map)
  qed (use all in simp)
  ultimately show ?thesis unfolding chunks_bytes [OF assms, symmetric]
    by (cases "BYTEORDER flags = MSBYTE_FIRST"; cases "WORDORDER flags = MSWORD_FIRST") (simp_all add: pack_layout_def)
qed

lemma chunk_words_cong:
  "(m :: int) mod 2 ^ (W * n) = m' mod 2 ^ (W * n) \<Longrightarrow> chunk_words n wordsize W m = chunk_words n wordsize W m'"
proof (induction n arbitrary: m m')
  case (Suc n)
  have dec: "x mod 2 ^ (W * Suc n) = 2 ^ W * (x div 2 ^ W mod 2 ^ (W * n)) + x mod 2 ^ W" for x :: int
    using zmod_zmult2_eq [of "2 ^ (W * n)" x "2 ^ W"] by (simp only: mult_Suc_right power_add zero_le_power zero_le_numeral simp_thms)
  have low: "(x mod 2 ^ (W * Suc n)) mod 2 ^ W = x mod 2 ^ W" for x :: int
    unfolding dec by (simp only: mod_mult_self4 mod_mod_trivial)
  have nz: "(2 :: int) ^ W \<noteq> 0" by simp
  have high: "(x mod 2 ^ (W * Suc n)) div 2 ^ W = x div 2 ^ W mod 2 ^ (W * n)" for x :: int
    unfolding dec div_mult_self4 [OF nz] by (simp only: mod_div_trivial add_0_right)
  have "m mod 2 ^ W = m' mod 2 ^ W" using low [of m] low [of m'] unfolding Suc.prems by (simp only:)
  moreover have "m div 2 ^ W mod 2 ^ (W * n) = m' div 2 ^ W mod 2 ^ (W * n)" using high [of m] high [of m'] unfolding Suc.prems by (simp only:)
  then have "chunk_words n wordsize W (m div 2 ^ W) = chunk_words n wordsize W (m' div 2 ^ W)" by (rule Suc.IH)
  ultimately show ?case by (simp only: chunk_words.simps)
qed simp

lemma bary_2comp_mod: "bval (fst (bary_2comp ds)) = (- bval ds) mod 4294967296 ^ length ds"
proof (cases "bval ds = 0")
  case True
  then show ?thesis using bary_2comp_spec [of ds] by simp
next
  case False
  then have "0 < bval ds" using bval_nonneg [of ds] by linarith
  then have "(4294967296 ^ length ds - bval ds) mod 4294967296 ^ length ds = 4294967296 ^ length ds - bval ds"
    using bval_less [of ds] by (intro mod_pos_pos_trivial) simp_all
  moreover have "(4294967296 ^ length ds - bval ds) mod 4294967296 ^ length ds = (- bval ds) mod 4294967296 ^ length ds" by simp
  ultimately show ?thesis using False bary_2comp_spec [of ds] by simp
qed

lemma pack_bdigits_spec:
  assumes "pack_digits ds v" "wordsize mod 4 = 0"
  shows "pack_bdigits (sgn v) ds numwords wordsize flags = pack_ref flags numwords wordsize 0 v"
proof -
  define bpw where "bpw = wordsize div 4"
  define n where "n = numwords * bpw"
  define s where "s = length ds"
  have ws: "wordsize = 4 * bpw" using assms(2) by (simp add: bpw_def) presburger
  have val: "bval ds = \<bar>v\<bar>" and top0: "ds \<noteq> [] \<Longrightarrow> last ds \<noteq> 0" using assms(1) by (auto simp: pack_digits_def)
  have vs: "\<bar>v\<bar> < 4294967296 ^ s" "0 < s \<Longrightarrow> 4294967296 ^ (s - 1) \<le> \<bar>v\<bar>"
    using bval_less [of ds] bval_take_ge [of "length ds" ds] top0 by (auto simp: val s_def last_conv_nth)
  define words where "words = (if \<not> s \<le> n then take n ds else ds @ replicate (n - s) 0)"
  have words: "length words = n" "bval words = \<bar>v\<bar> mod 4294967296 ^ n"
  proof -
    show "length words = n" by (simp add: words_def s_def)
    show "bval words = \<bar>v\<bar> mod 4294967296 ^ n"
    proof (cases "s \<le> n")
      case True
      then have "\<bar>v\<bar> < 4294967296 ^ n" using vs(1) power_increasing [of s n "4294967296 :: int"] by linarith
      then show ?thesis using True by (simp add: words_def bval_append val)
    next
      case False
      then show ?thesis using bval_mod_digits [of n ds] by (simp add: words_def val s_def)
    qed
  qed
  have top: "ds ! n = 1 \<longleftrightarrow> \<bar>v\<bar> div 4294967296 ^ n = 1" if "n = s - 1" "\<not> s \<le> n"
  proof -
    have len: "length ds = Suc n" using that by (simp add: s_def)
    then have "drop n ds = [ds ! n]" by (metis Cons_nth_drop_Suc drop_all lessI order_refl)
    then have "\<bar>v\<bar> = bval (take n ds) + uint (ds ! n) * 4294967296 ^ n" using bval_take_drop [of n ds] len val by simp
    moreover have "0 \<le> bval (take n ds)" "bval (take n ds) < 4294967296 ^ n" using bval_take_less [of n ds] len by simp_all
    ultimately have "\<bar>v\<bar> div 4294967296 ^ n = uint (ds ! n)" by simp
    moreover have "b = 1 \<longleftrightarrow> uint b = 1" for b :: BDIGIT by (metis uint_1 word_uint_eqI)
    ultimately show ?thesis by simp
  qed
  have top': "n = s - 1 \<and> \<bar>v\<bar> div 4294967296 ^ n = 1 \<longleftrightarrow> n = s - 1 \<and> ds ! n = 1" if "\<not> s \<le> n"
    using top [OF _ that] by (rule conj_cong [OF refl, symmetric])
  define over where "over = (\<not> s \<le> n \<and> \<not> ((v < 0 \<and> PACK_2COMP flags) \<and> \<bar>v\<bar> mod 4294967296 ^ n = 0 \<and> n = s - 1 \<and> \<bar>v\<bar> div 4294967296 ^ n = 1))"
  have over: "(if over then 2 * sgn v else sgn v) = pack_sign (PACK_2COMP flags) (4294967296 ^ n) v"
    unfolding over_def by (rule pack_overflow) (use vs in auto)
  define words' where "words' = (if v < 0 \<and> PACK_2COMP flags then fst (bary_2comp words) else words)"
  have words': "length words' = n" "bval words' = pack_number flags v mod 4294967296 ^ n"
  proof -
    show "length words' = n" using bary_2comp_spec [of words] by (simp add: words'_def words)
    show "bval words' = pack_number flags v mod 4294967296 ^ n"
    proof (cases "v < 0 \<and> PACK_2COMP flags")
      case True
      then have "bval words' = (- (\<bar>v\<bar> mod 4294967296 ^ n)) mod 4294967296 ^ n" by (simp add: words'_def bary_2comp_mod words)
      then show ?thesis using True by (simp add: pack_number_def mod_minus_eq)
    next
      case False
      then show ?thesis by (auto simp: words'_def words pack_number_def)
    qed
  qed
  have "(if sgn v < 0 \<and> PACK_2COMP flags
         then let (words, zero_p) = bary_2comp words in (words, \<not> s \<le> n \<and> \<not> (zero_p \<and> n = s - 1 \<and> ds ! n = 1))
         else (words, \<not> s \<le> n)) = (words', over)"
  proof (cases "v < 0 \<and> PACK_2COMP flags")
    case True
    then have "over = (\<not> s \<le> n \<and> \<not> (\<bar>v\<bar> mod 4294967296 ^ n = 0 \<and> n = s - 1 \<and> ds ! n = 1))"
      using top' by (cases "s \<le> n") (simp_all only: over_def simp_thms)
    moreover have "snd (bary_2comp words) = (\<bar>v\<bar> mod 4294967296 ^ n = 0)" using bary_2comp_spec [of words] by (simp only: words)
    ultimately show ?thesis using True by (simp add: words'_def case_prod_unfold Let_def sgn_less_0)
  next
    case False
    then have "over = (\<not> s \<le> n)" by (auto simp: over_def)
    then show ?thesis using False by (auto simp: words'_def sgn_less_0)
  qed
  note code = this
  have "pack_bdigits (sgn v) ds numwords wordsize flags =
      (if over then 2 * sgn v else sgn v, pack_layout flags (chunk_words numwords (4 * bpw) (8 * (4 * bpw)) (bval words')))"
    unfolding pack_digits_layout [OF words'(1) [unfolded n_def], symmetric]
    by (simp only: pack_bdigits_def Let_def code [unfolded Let_def] case_prod_conv flip: bpw_def n_def s_def words_def)
  moreover have "(4294967296 :: int) ^ n = 2 ^ (8 * (4 * bpw) * numwords)" proof -
    have "(4294967296 :: int) ^ n = 2 ^ (32 * n)" by (simp add: power_mult)
    moreover have "32 * n = 8 * (4 * bpw) * numwords" by (simp add: n_def)
    ultimately show ?thesis by (simp only:)
  qed
  moreover from this have "chunk_words numwords (4 * bpw) (8 * (4 * bpw)) (bval words') = chunk_words numwords (4 * bpw) (8 * (4 * bpw)) (pack_number flags v)"
    by (intro chunk_words_cong) (simp add: words')
  ultimately show ?thesis using over by (simp add: pack_ref_def ws)
qed

section \<open>All of it\<close>

lemma pack_ref_0: "pack_ref flags numwords wordsize nails 0 = (0, replicate (numwords * wordsize) 0)"
proof -
  have "concat (replicate n (replicate k (0 :: byte))) = replicate (n * k) 0" for n k by (induction n) (simp_all add: replicate_add)
  then show ?thesis by (simp add: pack_ref_def pack_sign_def pack_number_def chunk_words_0 pack_layout_def map_replicate)
qed

lemma bary_pack_is:
  assumes "sign = 1 \<or> sign = - 1"
  shows "bary_pack addr sign ds numwords wordsize nails flags =
    (if validate_integer_pack_format numwords wordsize nails flags False
     then Inr (pack_ref flags numwords wordsize nails (sign * bval ds)) else Inl ArgumentError)"
proof -
  define es where "es = take (BARY_TRUNC ds (length ds)) ds"
  define v where "v = sign * bval ds"
  have trunc: "BARY_TRUNC ds (length ds) \<le> length ds" "bval es = bval ds"
    using BARY_TRUNC_spec [of "length ds" ds] by (simp_all add: es_def)
  have "es = [] \<or> last es \<noteq> 0"
  proof (cases "BARY_TRUNC ds (length ds)")
    case (Suc k)
    then have "last es = ds ! k" using trunc(1) by (simp add: es_def take_Suc_conv_app_nth)
    then show ?thesis using BARY_TRUNC_spec(3) [of "length ds" ds] Suc by simp
  qed (simp add: es_def)
  then have d: "pack_digits es v" using assms trunc(2) by (auto simp: pack_digits_def v_def abs_mult)
  then have nil: "es = [] \<longleftrightarrow> v = 0" by (rule pack_digits_Nil)
  have "(if es = [] then 0 else sign) = sgn v"
  proof (cases "bval ds = 0")
    case False
    then have "0 < bval ds" using bval_nonneg [of ds] by linarith
    then show ?thesis using nil assms by (auto simp: v_def)
  qed (use nil in \<open>simp add: v_def\<close>)
  then have code: "bary_pack addr sign ds numwords wordsize nails flags =
      (if \<not> validate_integer_pack_format numwords wordsize nails flags False then Inl ArgumentError
       else Inr (if FORCE_GENERIC flags then pack_generic (sgn v) es numwords wordsize nails flags
         else if sgn v = 0 then (0, replicate (numwords * wordsize) 0)
         else if nails = 0 \<and> numwords = 1 \<and> (wordsize = 1 \<or> wordsize = 2 \<and> addr mod 2 = 0 \<or> wordsize = 4 \<and> addr mod 4 = 0)
         then pack_single (sgn v) es wordsize flags
         else if nails = 0 \<and> WORDORDER flags = LSWORD_FIRST \<and> BYTEORDER flags \<noteq> MSBYTE_FIRST
         then pack_bytes (sgn v) es (numwords * wordsize) flags
         else if nails = 0 \<and> wordsize mod 4 = 0 \<and> addr mod 4 = 0
         then pack_bdigits (sgn v) es numwords wordsize flags
         else pack_generic (sgn v) es numwords wordsize nails flags))"
    by (simp only: bary_pack_def Let_def es_def [symmetric])
  show ?thesis
  proof (cases "validate_integer_pack_format numwords wordsize nails flags False")
    case True
    then have g: "\<not> wordsize \<le> nails div 8" by (simp add: validate_integer_pack_format_def)
    have either: "(c \<Longrightarrow> a = z) \<Longrightarrow> (\<not> c \<Longrightarrow> b = z) \<Longrightarrow> (if c then a else b) = z" for c and a b z :: "int \<times> byte list" by simp
    have s0: "sgn v = 0 \<Longrightarrow> (0, replicate (numwords * wordsize) 0) = pack_ref flags numwords wordsize nails v" by (simp add: pack_ref_0 sgn_if split: if_splits)
    have s1: "pack_single (sgn v) es wordsize flags = pack_ref flags numwords wordsize nails v"
      if "sgn v \<noteq> 0" "nails = 0 \<and> numwords = 1 \<and> (wordsize = 1 \<or> wordsize = 2 \<and> addr mod 2 = 0 \<or> wordsize = 4 \<and> addr mod 4 = 0)"
    proof -
      have "v \<noteq> 0" using that(1) by auto
      then show ?thesis using pack_single_spec [OF d, of wordsize flags] that(2) by auto
    qed
    have s2: "pack_bytes (sgn v) es (numwords * wordsize) flags = pack_ref flags numwords wordsize nails v"
      if "nails = 0 \<and> WORDORDER flags = LSWORD_FIRST \<and> BYTEORDER flags \<noteq> MSBYTE_FIRST"
      using pack_bytes_spec [OF d, of flags numwords wordsize] that by simp
    have s3: "pack_bdigits (sgn v) es numwords wordsize flags = pack_ref flags numwords wordsize nails v"
      if "nails = 0 \<and> wordsize mod 4 = 0 \<and> addr mod 4 = 0"
      using pack_bdigits_spec [OF d, of wordsize numwords flags] that by simp
    show ?thesis unfolding code v_def [symmetric] pack_generic_spec [OF d g] if_not_P [OF not_not [THEN iffD2, OF True]] if_P [OF True]
      by (intro arg_cong [of _ _ Inr] either refl s0 s1 s2 s3)
  qed (simp add: code)
qed

lemma rb_integer_pack_is:
  "rb_integer_pack addr val numwords wordsize nails flags =
    (if validate_integer_pack_format numwords wordsize nails flags False
     then Inr (pack_ref flags numwords wordsize nails (ival val)) else Inl ArgumentError)"
proof -
  define sign :: int where "sign = (case val of Fixnum x \<Rightarrow> if FIX2LONG x <s 0 then - 1 else 1 | Bignum x \<Rightarrow> if BIGNUM_SIGN x then 1 else - 1)"
  have s: "sign = 1 \<or> sign = - 1" by (simp add: sign_def split: rb_integer.split)
  have "sign * bval (absint_digits val) = ival val"
    unfolding bval_absint_digits by (cases val) (auto simp: sign_def word_sless_alt bigval_def abs_mult sint_FIX2LONG)
  then show ?thesis unfolding rb_integer_pack_def Let_def sign_def [symmetric] bary_pack_is [OF s] by simp
qed

end
