(* ===== verification/Big_Unpack.thy ===== *)
theory Big_Unpack
  imports Big_Pack_Fast
begin

text \<open>
  Reading an integer from a buffer of words (bignum.c, \<open>rb_integer_unpack\<close>).  The buffer has
  \<open>numwords * wordsize\<close> bytes; to read the byte or the digit before the first one is a result of its own.
\<close>

section \<open>The number of digits\<close>

text \<open>Both ways count in a \<open>size_t\<close>; the second keeps clear of its bound.  Also the bits unused in the last digit.\<close>

definition integer_unpack_num_bdigits_small :: "u64 \<Rightarrow> u64 \<Rightarrow> u64 \<Rightarrow> u64 \<times> nat" where
  "integer_unpack_num_bdigits_small numwords wordsize nails =
    (let num_bits = (wordsize * 8 - nails) * numwords; num_bdigits = (num_bits + 32 - 1) div 32
     in (num_bdigits, unat (num_bdigits * 32 - num_bits)))"

definition integer_unpack_num_bdigits_generic :: "u64 \<Rightarrow> u64 \<Rightarrow> u64 \<Rightarrow> u64 \<times> nat" where
  "integer_unpack_num_bdigits_generic numwords wordsize nails =
    (let num_bytes1 = wordsize * numwords; q1 = numwords div 8; r1 = numwords mod 8;
         num_bytes2 = num_bytes1 - nails * q1; q2 = nails div 8; r2 = nails mod 8;
         num_bytes3 = num_bytes2 - q2 * r1; q3 = num_bytes3 div 32; r3 = num_bytes3 mod 32;
         num_digits1 = 8 * q3
     in if 8 * r3 \<ge> r1 * r2
        then let tmp1 = 8 * 32 - (8 * r3 - r1 * r2); q4 = tmp1 div 32; r4 = tmp1 mod 32
             in (num_digits1 + 8 - q4, unat r4)
        else let tmp1 = r1 * r2 - 8 * r3; q4 = tmp1 div 32; r4 = tmp1 mod 32
             in (num_digits1 - q4, unat r4))"

definition integer_unpack_num_bdigits :: "u64 \<Rightarrow> u64 \<Rightarrow> u64 \<Rightarrow> u64 \<times> nat" where
  "integer_unpack_num_bdigits numwords wordsize nails =
    (if numwords \<le> (18446744073709551615 - (32 - 1)) div 8 div wordsize
     then integer_unpack_num_bdigits_small numwords wordsize nails
     else integer_unpack_num_bdigits_generic numwords wordsize nails)"

section \<open>The generic way\<close>

text \<open>The words of the buffer, and the bytes of a word, least significant first.\<close>

definition buffer_words :: "pack_flags \<Rightarrow> nat \<Rightarrow> nat \<Rightarrow> byte list \<Rightarrow> byte list list" where
  "buffer_words flags numwords wordsize buf =
    (let ws = map (if BYTEORDER flags = MSBYTE_FIRST then rev else id) (chunks numwords wordsize buf)
     in if WORDORDER flags = MSWORD_FIRST then rev ws else ws)"

text \<open>The digits written, the bits not yet written, and their number.\<close>

type_synonym unpack_state = "BDIGIT list \<times> BDIGIT_DBL \<times> nat"

function push_bits_loop :: "unpack_state \<Rightarrow> unpack_state" where
  "push_bits_loop (ds, dd, numbits_in_dd) =
    (if 32 \<le> numbits_in_dd then push_bits_loop (ds @ [BIGLO dd], BIGDN dd, numbits_in_dd - 32) else (ds, dd, numbits_in_dd))"
  by pat_completeness auto
termination by (relation "measure (\<lambda>(ds, dd, n). n)") auto

declare push_bits_loop.simps [simp del]

fun integer_unpack_push_bits :: "BDIGIT_DBL \<Rightarrow> nat \<Rightarrow> unpack_state \<Rightarrow> unpack_state" where
  "integer_unpack_push_bits data numbits (ds, dd, numbits_in_dd) =
    push_bits_loop (ds, dd OR push_bit numbits_in_dd data, numbits_in_dd + numbits)"

definition unpack_word :: "nat \<Rightarrow> nat \<Rightarrow> unpack_state \<Rightarrow> byte list \<Rightarrow> unpack_state" where
  "unpack_word wordsize nails s w =
    (let (fullbytes, partialbits) = integer_pack_loop_setup wordsize nails;
         s = foldl (\<lambda>s b. integer_unpack_push_bits (ucast b) 8 s) s (take fullbytes w)
     in if partialbits \<noteq> 0 then integer_unpack_push_bits (ucast (w ! fullbytes) AND (push_bit partialbits 1 - 1)) partialbits s else s)"

text \<open>The sign, -2 when a digit 1 has to be added above the digits, and the digits.\<close>

definition unpack_sign :: "pack_flags \<Rightarrow> nat \<Rightarrow> BDIGIT list \<Rightarrow> int \<times> BDIGIT list" where
  "unpack_sign flags nlp_bits ds =
    (let n = length ds
     in if \<not> PACK_2COMP flags then (if PACK_NEGATIVE flags then - 1 else 1, ds)
        else let (sign, ds) =
               (if nlp_bits \<noteq> 0
                then (if PACK_NEGATIVE flags \<or> drop_bit (32 - nlp_bits - 1) (ds ! (n - 1)) \<noteq> 0
                      then (- 1, ds[n - 1 := ds ! (n - 1) OR push_bit (32 - nlp_bits) BDIGMAX]) else (1, ds))
                else if PACK_NEGATIVE flags then (if bary_zero_p ds n then - 2 else - 1, ds)
                else (if n \<noteq> 0 \<and> BDIGIT_MSB (ds ! (n - 1)) then - 1 else 1, ds))
             in (sign, if sign = - 1 \<and> n \<noteq> 0 then fst (bary_2comp ds) else ds))"

definition unpack_generic :: "nat \<Rightarrow> byte list \<Rightarrow> nat \<Rightarrow> nat \<Rightarrow> nat \<Rightarrow> pack_flags \<Rightarrow> nat \<Rightarrow> int \<times> BDIGIT list" where
  "unpack_generic num_bdigits buf numwords wordsize nails flags nlp_bits =
    (let ds = (if num_bdigits \<noteq> 0
               then let (ds, dd, _) = foldl (unpack_word wordsize nails) ([], 0, 0) (buffer_words flags numwords wordsize buf);
                        ds = (if dd \<noteq> 0 then ds @ [ucast dd] else ds)
                    in ds @ replicate (num_bdigits - length ds) 0
               else [])
     in unpack_sign flags nlp_bits ds)"

section \<open>The fast ways\<close>

text \<open>A word of at most 4 bytes as it is in memory.\<close>

fun bytes_bdigit :: "byte list \<Rightarrow> BDIGIT" where
  "bytes_bdigit [] = 0"
| "bytes_bdigit (b # bs) = ucast b OR push_bit 8 (bytes_bdigit bs)"

fun bytes_bdigits :: "byte list \<Rightarrow> BDIGIT list" where
  "bytes_bdigits (a # b # c # d # bs) = bytes_bdigit [a, b, c, d] # bytes_bdigits bs"
| "bytes_bdigits bs = []"

definition integer_unpack_single_bdigit :: "BDIGIT \<Rightarrow> nat \<Rightarrow> pack_flags \<Rightarrow> int \<times> BDIGIT list" where
  "integer_unpack_single_bdigit u nbytes flags =
    (if PACK_2COMP flags
     then let sign = (if PACK_NEGATIVE flags then (if nbytes = 4 \<and> u = 0 then - 2 else - 1)
                      else if drop_bit (nbytes * 8 - 1) u \<noteq> 0 then - 1 else 1)
          in (sign, [if sign < 0 then 1 + NOT (u OR push_bit (nbytes * 8) BDIGMAX) else u])
     else (if PACK_NEGATIVE flags then - 1 else 1, [u]))"

definition unpack_single :: "byte list \<Rightarrow> nat \<Rightarrow> pack_flags \<Rightarrow> int \<times> BDIGIT list" where
  "unpack_single buf wordsize flags =
    (let need_swap = (wordsize \<noteq> 1 \<and> BYTEORDER flags = MSBYTE_FIRST)
     in integer_unpack_single_bdigit (bytes_bdigit ((if need_swap then rev else id) buf)) wordsize flags)"

text \<open>\<open>None\<close>: the byte before the buffer is read.\<close>

definition unpack_bytes :: "nat \<Rightarrow> byte list \<Rightarrow> pack_flags \<Rightarrow> (int \<times> BDIGIT list) option" where
  "unpack_bytes num_bdigits buf flags =
    (let src_size = length buf; dst_size = num_bdigits * 4;
         zeros = bytes_bdigits (buf @ replicate (dst_size - src_size) 0);
         ones = bytes_bdigits (buf @ replicate (dst_size - src_size) 0xff)
     in if PACK_2COMP flags
        then if PACK_NEGATIVE flags
             then let (ds, zero_p) = bary_2comp ones in Some (if zero_p then - 2 else - 1, ds)
             else if src_size = 0 then None
             else if drop_bit 7 (buf ! (src_size - 1)) \<noteq> 0 then Some (- 1, fst (bary_2comp ones))
             else Some (1, zeros)
        else Some (if PACK_NEGATIVE flags then - 1 else 1, zeros))"

text \<open>\<open>None\<close>: the digit before the array is read.\<close>

definition unpack_bdigits :: "byte list \<Rightarrow> nat \<Rightarrow> nat \<Rightarrow> pack_flags \<Rightarrow> (int \<times> BDIGIT list) option" where
  "unpack_bdigits buf numwords wordsize flags =
    (let bdigits_per_word = wordsize div 4; mswordfirst_p = (WORDORDER flags = MSWORD_FIRST);
         msbytefirst_p = (BYTEORDER flags = MSBYTE_FIRST); ds = bytes_bdigits buf;
         ds = (if mswordfirst_p then rev ds else ds);
         ds = (if (if mswordfirst_p then \<not> msbytefirst_p else msbytefirst_p) then swap_chunks numwords bdigits_per_word ds else ds);
         ds = (if msbytefirst_p then map swap_bdigit ds else ds)
     in if PACK_2COMP flags
        then if PACK_NEGATIVE flags
             then let (ds, zero_p) = bary_2comp ds in Some (if zero_p then - 2 else - 1, ds)
             else if ds = [] then None
             else if BDIGIT_MSB (ds ! (length ds - 1)) then Some (- 1, fst (bary_2comp ds))
             else Some (1, ds)
        else Some (if PACK_NEGATIVE flags then - 1 else 1, ds))"

definition bary_unpack_internal :: "nat \<Rightarrow> nat \<Rightarrow> byte list \<Rightarrow> nat \<Rightarrow> nat \<Rightarrow> nat \<Rightarrow> pack_flags \<Rightarrow> nat \<Rightarrow> (int \<times> BDIGIT list) option" where
  "bary_unpack_internal addr num_bdigits buf numwords wordsize nails flags nlp_bits =
    (if FORCE_GENERIC flags then Some (unpack_generic num_bdigits buf numwords wordsize nails flags nlp_bits)
     else if nails = 0 \<and> numwords = 1 \<and> (wordsize = 1 \<or> wordsize = 2 \<and> addr mod 2 = 0 \<or> wordsize = 4 \<and> addr mod 4 = 0)
     then Some (unpack_single buf wordsize flags)
     else if nails = 0 \<and> WORDORDER flags = LSWORD_FIRST \<and> BYTEORDER flags \<noteq> MSBYTE_FIRST
     then unpack_bytes num_bdigits buf flags
     else if nails = 0 \<and> wordsize mod 4 = 0 then unpack_bdigits buf numwords wordsize flags
     else Some (unpack_generic num_bdigits buf numwords wordsize nails flags nlp_bits))"

section \<open>The integer\<close>

datatype unpack_failure = UnpackArgumentError | ReadBeforeBuffer

text \<open>The digits in the array of two.\<close>

definition unpack_fixbuf :: "int \<Rightarrow> nat \<Rightarrow> BDIGIT list \<Rightarrow> rb_integer" where
  "unpack_fixbuf sign num_bdigits fixbuf =
    (let u = ucast (fixbuf ! 0) + BIGUP (ucast (fixbuf ! 1))
     in if u = 0 then Fixnum (LONG2FIX 0)
        else if 0 < sign \<and> POSFIXABLE u then Fixnum (LONG2FIX u)
        else if sign < 0 \<and> \<not> BDIGIT_MSB (fixbuf ! 1) \<and> FIXNUM_MIN \<le>s - u then Fixnum (LONG2FIX (- u))
        else bignorm (Bignum (bignew (take num_bdigits fixbuf) (0 \<le> sign))))"

definition rb_integer_unpack :: "nat \<Rightarrow> byte list \<Rightarrow> nat \<Rightarrow> nat \<Rightarrow> nat \<Rightarrow> pack_flags \<Rightarrow> unpack_failure + rb_integer" where
  "rb_integer_unpack addr buf numwords wordsize nails flags =
    (if \<not> validate_integer_pack_format numwords wordsize nails flags True then Inl UnpackArgumentError
     else let (num_bdigits, nlp_bits) = integer_unpack_num_bdigits (of_nat numwords) (of_nat wordsize) (of_nat nails)
     in if 9223372036854775807 - 1 < num_bdigits then Inl UnpackArgumentError
        else case bary_unpack_internal addr (unat num_bdigits) buf numwords wordsize nails flags nlp_bits of
          None \<Rightarrow> Inl ReadBeforeBuffer
        | Some (sign, ds) \<Rightarrow>
            if num_bdigits \<le> 2 \<and> \<not> FORCE_BIGNUM flags
            then let fixbuf = ds @ replicate (2 - length ds) 0; n = unat num_bdigits
                 in if sign = - 2
                    then if n = 2 then Inr (bignorm (Bignum (bignew (ds @ [1]) (0 \<le> sign))))
                         else Inr (unpack_fixbuf sign (n + 1) (fixbuf[n := 1]))
                    else Inr (unpack_fixbuf sign n fixbuf)
            else let val = bignew ds False; val = (if sign = - 2 then big_extend_carry val else val);
                     sign = (if FORCE_BIGNUM flags \<and> sign \<noteq> 0 \<and> bary_zero_p (BDIGITS val) (BIGNUM_LEN val) then 0 else sign);
                     val = val\<lparr>BIGNUM_SIGN := 0 \<le> sign\<rparr>
                 in Inr (if FORCE_BIGNUM flags then Bignum (bigtrunc val) else bignorm (Bignum val)))"

end
