(* ===== verification/Big_Unpack_Spec.thy ===== *)
theory Big_Unpack_Spec
  imports Big_Unpack
begin

text \<open>
  What reading a buffer gives: the number whose digits are the words, as the flags say it is to be
  taken; all ways agree, and reading what was written gives the integer back.
\<close>

section \<open>The number of digits\<close>

lemma unat_u64_less: "unat (a :: u64) < 18446744073709551616"
  using unsigned_less [of a] by simp

lemma unat_mult_fits: "unat a * unat b < 18446744073709551616 \<Longrightarrow> unat ((a :: u64) * b) = unat a * unat b"
  by (simp add: unat_word_ariths)

lemma unat_add_fits: "unat a + unat b < 18446744073709551616 \<Longrightarrow> unat ((a :: u64) + b) = unat a + unat b"
  by (simp add: unat_word_ariths)

lemma unat_sub_fits: "unat b \<le> unat a \<Longrightarrow> unat ((a :: u64) - b) = unat a - unat b"
  by (simp add: unat_sub word_le_nat_alt)

definition num_digits :: "nat \<Rightarrow> nat" where "num_digits bits = (bits + 31) div 32"

lemma num_digits_eq: "k * 32 = bits + r \<Longrightarrow> r < 32 \<Longrightarrow> num_digits bits = k \<and> k * 32 - bits = r"
proof -
  assume "k * 32 = bits + r" "r < 32"
  then have e: "bits + 31 = (31 - r) + k * 32" by linarith
  have "(31 - r) div 32 = 0" by simp
  then have "num_digits bits = k" unfolding num_digits_def e by (simp only: div_mult_self1 zero_neq_numeral not_False_eq_True add_0_right)
  then show ?thesis using \<open>k * 32 = bits + r\<close> by simp
qed

text \<open>The second way over numbers.\<close>

lemma num_bdigits_nat:
  fixes N :: nat
  assumes "nails < 8 * w"
    and q1: "q1 = N div 8" and r1: "r1 = N mod 8" and b2: "b2 = w * N - nails * q1"
    and q2: "q2 = nails div 8" and r2: "r2 = nails mod 8" and b3: "b3 = b2 - q2 * r1"
    and q3: "q3 = b3 div 32" and r3: "r3 = b3 mod 32"
  shows "nails * q1 \<le> w * N" "q2 * r1 \<le> b2" "(8 * w - nails) * N + r1 * r2 = 256 * q3 + 8 * r3" "r1 * r2 \<le> 49" "r3 < 32"
proof -
  have N: "N = 8 * q1 + r1" by (simp add: q1 r1)
  have nl: "nails = 8 * q2 + r2" by (simp add: q2 r2)
  have "nails * q1 \<le> 8 * w * q1" using assms(1) by (intro mult_right_mono) simp_all
  also have "\<dots> \<le> w * N" by (simp add: N algebra_simps)
  finally show le1: "nails * q1 \<le> w * N" .
  have "nails * N \<le> 8 * w * N" using assms(1) by (intro mult_right_mono) simp_all
  then have le8: "8 * (nails * q1) + nails * r1 \<le> 8 * (w * N)" by (simp add: N algebra_simps)
  moreover have "8 * (q2 * r1) \<le> nails * r1" by (simp add: nl algebra_simps)
  ultimately show le2: "q2 * r1 \<le> b2" using le1 unfolding b2 by linarith
  have "(8 * w - nails) * N = 8 * (w * N) - nails * N" by (simp add: diff_mult_distrib mult.assoc)
  moreover have "nails * N = 8 * (nails * q1) + 8 * (q2 * r1) + r1 * r2" by (simp add: N nl algebra_simps)
  moreover have "8 * b3 = 8 * (w * N) - 8 * (nails * q1) - 8 * (q2 * r1)" by (simp add: b3 b2 diff_mult_distrib2)
  moreover have "b3 = 32 * q3 + r3" by (simp add: q3 r3)
  moreover have "nails * N \<le> 8 * (w * N)" using \<open>nails * N \<le> 8 * w * N\<close> by (simp add: mult.assoc)
  ultimately show "(8 * w - nails) * N + r1 * r2 = 256 * q3 + 8 * r3" by linarith
  have "r1 * r2 \<le> 7 * 7" by (intro mult_mono) (simp_all add: r1 r2 less_Suc_eq_le [symmetric])
  then show "r1 * r2 \<le> 49" by simp
  show "r3 < 32" by (simp add: r3)
qed

lemma integer_unpack_num_bdigits_generic_spec:
  assumes "unat nails < 8 * unat w" "unat w * unat N < 18446744073709551616"
  shows "unat (fst (integer_unpack_num_bdigits_generic N w nails)) = num_digits ((8 * unat w - unat nails) * unat N)"
    "snd (integer_unpack_num_bdigits_generic N w nails) =
      32 * num_digits ((8 * unat w - unat nails) * unat N) - (8 * unat w - unat nails) * unat N"
proof -
  define q1 r1 b2 where "q1 = N div 8" and "r1 = N mod 8" and "b2 = w * N - nails * q1"
  define q2 r2 b3 where "q2 = nails div 8" and "r2 = nails mod 8" and "b3 = b2 - q2 * r1"
  define q3 r3 where "q3 = b3 div 32" and "r3 = b3 mod 32"
  note defs = q1_def r1_def b2_def q2_def r2_def b3_def q3_def r3_def
  define bits where "bits = (8 * unat w - unat nails) * unat N"
  have u: "unat q1 = unat N div 8" "unat r1 = unat N mod 8" "unat q2 = unat nails div 8" "unat r2 = unat nails mod 8"
    "unat q3 = unat b3 div 32" "unat r3 = unat b3 mod 32" by (simp_all add: defs unat_div unat_mod)
  note n = num_bdigits_nat [OF assms(1) u(1,2) refl u(3,4) refl]
  have "unat nails * unat q1 \<le> unat w * unat N" using n(1) [OF refl refl] .
  then have b2: "unat b2 = unat w * unat N - unat nails * unat q1"
    using assms(2) by (simp add: b2_def unat_sub_fits unat_mult_fits)
  have "unat q2 * unat r1 \<le> unat b2" unfolding b2 using n(2) [OF refl refl] .
  moreover from this have "unat q2 * unat r1 < 18446744073709551616" using unat_u64_less [of b2] by linarith
  ultimately have b3: "unat b3 = unat w * unat N - unat nails * unat q1 - unat q2 * unat r1"
    by (simp add: b3_def unat_sub_fits unat_mult_fits b2)
  have m: "bits + unat r1 * unat r2 = 256 * unat q3 + 8 * unat r3" "unat r1 * unat r2 \<le> 49" "unat r3 < 32"
    unfolding bits_def by (rule n(3-5) [OF u(5,6) [unfolded b3]])+
  have rr: "unat (r1 * r2) = unat r1 * unat r2" "unat (8 * r3) = 8 * unat r3"
    using m by (simp_all add: unat_mult_fits [of r1 r2] unat_mult_fits [of 8 r3])
  have q3: "unat q3 \<le> 576460752303423487" using unat_u64_less [of b3] u(5) by simp
  then have d1: "unat (8 * q3) = 8 * unat q3" by (simp add: unat_mult_fits [of 8 q3])
  have le: "8 * r3 \<ge> r1 * r2 \<longleftrightarrow> unat r1 * unat r2 \<le> 8 * unat r3" by (simp only: word_le_nat_alt rr)
  have "unat (fst (integer_unpack_num_bdigits_generic N w nails)) * 32 = bits + snd (integer_unpack_num_bdigits_generic N w nails) \<and>
    snd (integer_unpack_num_bdigits_generic N w nails) < 32"
  proof (cases "r1 * r2 \<le> 8 * r3")
    case True
    define t where "t = 8 * 32 - (8 * r3 - r1 * r2)"
    have "unat (8 * r3 - r1 * r2) = 8 * unat r3 - unat r1 * unat r2" using True le rr by (simp add: unat_sub_fits)
    then have t: "unat t = 256 - (8 * unat r3 - unat r1 * unat r2)" using m by (simp add: t_def unat_sub_fits)
    have code: "integer_unpack_num_bdigits_generic N w nails = (8 * q3 + 8 - t div 32, unat (t mod 32))"
      using True by (simp add: integer_unpack_num_bdigits_generic_def Let_def t_def flip: defs)
    have "unat (8 * q3 + 8) = 8 * unat q3 + 8" using q3 by (simp add: unat_add_fits d1)
    moreover have "unat (t div 32) = unat t div 32" "unat (t mod 32) = unat t mod 32" by (simp_all add: unat_div unat_mod)
    moreover have "unat t div 32 \<le> 8" unfolding t by (simp add: div_le_mono [of _ 256 32, simplified])
    ultimately have r: "unat (fst (integer_unpack_num_bdigits_generic N w nails)) = 8 * unat q3 + 8 - unat t div 32"
      "snd (integer_unpack_num_bdigits_generic N w nails) = unat t mod 32" by (simp_all add: code unat_sub_fits)
    have "bits + unat t = 256 * unat q3 + 256" using m(1,3) t True le by linarith
    then show ?thesis unfolding r using \<open>unat t div 32 \<le> 8\<close> div_mult_mod_eq [of "unat t" 32] mod_less_divisor [of 32 "unat t"] by linarith
  next
    case False
    define t where "t = r1 * r2 - 8 * r3"
    have gt: "8 * unat r3 < unat r1 * unat r2" using False le by simp
    then have t: "unat t = unat r1 * unat r2 - 8 * unat r3" by (simp add: t_def unat_sub_fits rr)
    have code: "integer_unpack_num_bdigits_generic N w nails = (8 * q3 - t div 32, unat (t mod 32))"
      using False by (simp add: integer_unpack_num_bdigits_generic_def Let_def t_def flip: defs)
    have d: "unat (t div 32) = unat t div 32" "unat (t mod 32) = unat t mod 32" by (simp_all add: unat_div unat_mod)
    have tt: "unat t = 32 * (unat t div 32) + unat t mod 32" by simp
    have "bits + unat t = 256 * unat q3" using m(1) t gt by linarith
    then have "32 * (unat t div 32) \<le> 256 * unat q3" using tt by linarith
    then have "unat t div 32 \<le> 8 * unat q3" by linarith
    then have r: "unat (fst (integer_unpack_num_bdigits_generic N w nails)) = 8 * unat q3 - unat t div 32"
      "snd (integer_unpack_num_bdigits_generic N w nails) = unat t mod 32" by (simp_all add: code unat_sub_fits d d1)
    show ?thesis unfolding r using \<open>bits + unat t = 256 * unat q3\<close> tt \<open>unat t div 32 \<le> 8 * unat q3\<close>
      mod_less_divisor [of 32 "unat t"] by linarith
  qed
  then have "num_digits bits = unat (fst (integer_unpack_num_bdigits_generic N w nails)) \<and>
      unat (fst (integer_unpack_num_bdigits_generic N w nails)) * 32 - bits = snd (integer_unpack_num_bdigits_generic N w nails)"
    by (intro num_digits_eq) simp_all
  then show "unat (fst (integer_unpack_num_bdigits_generic N w nails)) = num_digits ((8 * unat w - unat nails) * unat N)"
    "snd (integer_unpack_num_bdigits_generic N w nails) =
      32 * num_digits ((8 * unat w - unat nails) * unat N) - (8 * unat w - unat nails) * unat N"
    unfolding bits_def [symmetric] by (simp_all add: mult.commute)
qed

lemma integer_unpack_num_bdigits_small_spec:
  assumes "unat nails < 8 * unat w" "unat N \<le> 18446744073709551584 div 8 div unat w"
  shows "unat (fst (integer_unpack_num_bdigits_small N w nails)) = num_digits ((8 * unat w - unat nails) * unat N)"
    "snd (integer_unpack_num_bdigits_small N w nails) =
      32 * num_digits ((8 * unat w - unat nails) * unat N) - (8 * unat w - unat nails) * unat N"
proof -
  define bits where "bits = (8 * unat w - unat nails) * unat N"
  define b where "b = (w * 8 - nails) * N"
  have "unat w \<noteq> 0" using assms(1) by auto
  then have "unat N * unat w \<le> 18446744073709551584 div 8" using assms(2) by (metis div_le_dividend less_eq_div_iff_mult_less_eq neq0_conv)
  then have NW: "unat N * (8 * unat w) \<le> 18446744073709551584" by simp
  have "bits \<le> 8 * unat w * unat N" unfolding bits_def by (intro mult_right_mono) simp_all
  then have bits: "bits \<le> 18446744073709551584" using NW by (simp add: mult.commute)
  have b: "unat b = bits"
  proof (cases "unat N = 0")
    case True
    then have "N = 0" by (simp add: unat_eq_0)
    then show ?thesis by (simp add: b_def bits_def)
  next
    case False
    then have "8 * unat w \<le> unat N * (8 * unat w)" by simp
    then have "8 * unat w < 18446744073709551616" using NW by linarith
    then have "unat (w * 8) = 8 * unat w" by (simp add: unat_mult_fits [of w 8] mult.commute)
    then have "unat (w * 8 - nails) = 8 * unat w - unat nails" using assms(1) by (simp add: unat_sub_fits)
    then show ?thesis using bits by (simp add: b_def bits_def unat_mult_fits)
  qed
  have c: "unat (b + 32 - 1) = bits + 31" using bits b unat_add_fits [of b 31] by (simp add: add_diff_eq [symmetric])
  then have k: "unat ((b + 32 - 1) div 32) = num_digits bits" by (simp add: unat_div num_digits_def)
  have le: "num_digits bits * 32 \<le> bits + 31" "bits \<le> num_digits bits * 32"
    unfolding num_digits_def using div_mult_mod_eq [of "bits + 31" 32] mod_less_divisor [of 32 "bits + 31"] by linarith+
  have "unat ((b + 32 - 1) div 32 * 32) = num_digits bits * 32"
    using unat_mult_fits [of "(b + 32 - 1) div 32" 32] le(1) bits unfolding k by simp
  then have "unat ((b + 32 - 1) div 32 * 32 - b) = num_digits bits * 32 - bits" using le(2) by (simp add: unat_sub_fits b)
  then show "unat (fst (integer_unpack_num_bdigits_small N w nails)) = num_digits ((8 * unat w - unat nails) * unat N)"
    "snd (integer_unpack_num_bdigits_small N w nails) =
      32 * num_digits ((8 * unat w - unat nails) * unat N) - (8 * unat w - unat nails) * unat N"
    using k unfolding bits_def [symmetric] by (simp_all add: integer_unpack_num_bdigits_small_def Let_def b_def mult.commute)
qed

lemma unat_of_nat_fits: "n < 18446744073709551616 \<Longrightarrow> unat (of_nat n :: u64) = n"
  by (simp add: unat_of_nat take_bit_nat_eq_self)

lemma integer_unpack_num_bdigits_spec:
  assumes "validate_integer_pack_format numwords wordsize nails flags up" "nails < 18446744073709551616"
  shows "unat (fst (integer_unpack_num_bdigits (of_nat numwords) (of_nat wordsize) (of_nat nails))) =
      num_digits (word_bits wordsize nails * numwords)"
    "snd (integer_unpack_num_bdigits (of_nat numwords) (of_nat wordsize) (of_nat nails)) =
      32 * num_digits (word_bits wordsize nails * numwords) - word_bits wordsize nails * numwords"
    "num_digits (word_bits wordsize nails * numwords) \<le> 4611686018427387904"
proof -
  have v: "wordsize \<noteq> 0" "wordsize \<le> 9223372036854775807" "\<not> wordsize \<le> nails div 8" "numwords \<le> 18446744073709551615 div wordsize"
    using assms(1) by (simp_all add: validate_integer_pack_format_def)
  have "numwords * wordsize \<le> 18446744073709551615" using v(1,4) less_eq_div_iff_mult_less_eq [of wordsize numwords] by simp
  then have wn: "wordsize * numwords < 18446744073709551616" by (simp add: mult.commute)
  have "numwords \<le> 18446744073709551615" using v(4) div_le_dividend [of 18446744073709551615 wordsize] by linarith
  then have u: "unat (of_nat numwords :: u64) = numwords" "unat (of_nat wordsize :: u64) = wordsize" "unat (of_nat nails :: u64) = nails"
    using v(2) assms(2) by (simp_all add: unat_of_nat_fits)
  have n8: "nails < 8 * wordsize" using v(3) div_mult_mod_eq [of nails 8] mod_less_divisor [of 8 nails] by linarith
  have "(of_nat numwords :: u64) \<le> (18446744073709551615 - (32 - 1)) div 8 div of_nat wordsize \<longleftrightarrow> numwords \<le> 18446744073709551584 div 8 div wordsize"
    by (simp add: word_le_nat_alt unat_div u)
  then show "unat (fst (integer_unpack_num_bdigits (of_nat numwords) (of_nat wordsize) (of_nat nails))) =
      num_digits (word_bits wordsize nails * numwords)"
    "snd (integer_unpack_num_bdigits (of_nat numwords) (of_nat wordsize) (of_nat nails)) =
      32 * num_digits (word_bits wordsize nails * numwords) - word_bits wordsize nails * numwords"
    using integer_unpack_num_bdigits_small_spec [of "of_nat nails" "of_nat wordsize" "of_nat numwords"]
      integer_unpack_num_bdigits_generic_spec [of "of_nat nails" "of_nat wordsize" "of_nat numwords"] n8 wn
    by (simp_all add: integer_unpack_num_bdigits_def u word_bits_def)
  have "word_bits wordsize nails * numwords \<le> 8 * wordsize * numwords" unfolding word_bits_def by (intro mult_right_mono) simp_all
  also have "8 * wordsize * numwords \<le> 8 * 18446744073709551615" using wn unfolding mult.assoc by linarith
  finally have "word_bits wordsize nails * numwords \<le> 147573952589676412920" by simp
  then have "num_digits (word_bits wordsize nails * numwords) \<le> (147573952589676412920 + 31) div 32"
    unfolding num_digits_def by (intro div_le_mono) simp
  then show "num_digits (word_bits wordsize nails * numwords) \<le> 4611686018427387904" by simp
qed

section \<open>The number in the buffer\<close>

fun bytes_val :: "byte list \<Rightarrow> int" where
  "bytes_val [] = 0"
| "bytes_val (b # bs) = uint b + 256 * bytes_val bs"

lemma bytes_val_append: "bytes_val (xs @ ys) = bytes_val xs + 256 ^ length xs * bytes_val ys"
  by (induction xs) (simp_all add: algebra_simps)

lemma bytes_val_nonneg [simp]: "0 \<le> bytes_val bs"
  by (induction bs) simp_all

lemma bytes_val_less: "bytes_val bs < 256 ^ length bs"
proof (induction bs)
  case (Cons b bs)
  have "uint b < 256" using uint_bounded [of b] by simp
  moreover have "256 * (bytes_val bs + 1) \<le> 256 * 256 ^ length bs" using Cons by simp
  ultimately show ?case by simp
qed simp

lemma bytes_val_le_bytes: "bytes_val (le_bytes n m) = m mod 256 ^ n"
proof (induction n arbitrary: m)
  case (Suc n)
  have "m mod (256 * 256 ^ n) = 256 * (m div 256 mod 256 ^ n) + m mod 256" by (rule zmod_zmult2_eq) simp
  then show ?case using Suc by (simp add: uint_word_of_int_byte)
qed simp

fun words_val :: "nat \<Rightarrow> byte list list \<Rightarrow> int" where
  "words_val W [] = 0"
| "words_val W (w # ws) = bytes_val w mod 2 ^ W + 2 ^ W * words_val W ws"

lemma words_val_nonneg [simp]: "0 \<le> words_val W ws"
  by (induction ws) simp_all

lemma words_val_less: "words_val W ws < 2 ^ (W * length ws)"
proof (induction ws)
  case (Cons w ws)
  have "bytes_val w mod 2 ^ W < 2 ^ W" by simp
  moreover have "2 ^ W * (words_val W ws + 1) \<le> 2 ^ W * 2 ^ (W * length ws)" using Cons by (intro mult_left_mono) simp_all
  ultimately show ?case unfolding words_val.simps list.size(4) mult_Suc_right add_Suc_right add_0_right power_add distrib_left mult_1_right
    by linarith
qed simp

text \<open>What was written is read.\<close>

lemma words_val_chunk_words: "W \<le> 8 * wordsize \<Longrightarrow> words_val W (chunk_words n wordsize W m) = m mod 2 ^ (W * n)"
proof (induction n arbitrary: m)
  case (Suc n)
  have "m mod 2 ^ W mod 256 ^ wordsize = m mod 2 ^ W"
  proof -
    have "(2 :: int) ^ W \<le> 256 ^ wordsize" unfolding power_256 using Suc.prems by (intro power_increasing) simp_all
    moreover have "0 \<le> m mod 2 ^ W" "m mod 2 ^ W < 2 ^ W" by simp_all
    ultimately show ?thesis by (intro mod_pos_pos_trivial) linarith+
  qed
  moreover have "m mod (2 ^ W * 2 ^ (W * n)) = 2 ^ W * (m div 2 ^ W mod 2 ^ (W * n)) + m mod 2 ^ W" by (rule zmod_zmult2_eq) simp
  ultimately show ?case using Suc by (simp add: bytes_val_le_bytes power_add)
qed simp

lemma chunks_concat: "\<forall>x \<in> set xs. length x = n \<Longrightarrow> chunks (length xs) n (concat xs) = xs"
  by (induction xs) simp_all

lemma buffer_words_layout:
  assumes "\<forall>w \<in> set ws. length w = wordsize"
  shows "buffer_words flags (length ws) wordsize (pack_layout flags ws) = ws"
proof -
  define f where "f = (if BYTEORDER flags = MSBYTE_FIRST then rev else id :: byte list \<Rightarrow> byte list)"
  define us where "us = (if WORDORDER flags = MSWORD_FIRST then rev ws else ws)"
  have ff: "f (f w) = w" "length (f w) = length w" for w by (simp_all add: f_def)
  have "\<forall>x \<in> set (map f us). length x = wordsize" using assms by (simp add: us_def ff)
  then have "chunks (length (map f us)) wordsize (concat (map f us)) = map f us" by (rule chunks_concat)
  moreover have "length us = length ws" by (simp add: us_def)
  moreover have "pack_layout flags ws = concat (map f us)" by (simp add: pack_layout_def f_def us_def)
  ultimately have "map f (chunks (length ws) wordsize (pack_layout flags ws)) = us" by (simp add: comp_def ff)
  then have "buffer_words flags (length ws) wordsize (pack_layout flags ws) = (if WORDORDER flags = MSWORD_FIRST then rev us else us)"
    by (simp only: buffer_words_def Let_def f_def)
  then show ?thesis by (simp add: us_def)
qed

lemma length_chunk: "w \<in> set (chunk_words n wordsize W m) \<Longrightarrow> length w = wordsize"
  by (induction n arbitrary: m) auto

lemma buffer_words_chunk_words [simp]:
  "buffer_words flags n wordsize (pack_layout flags (chunk_words n wordsize W m)) = chunk_words n wordsize W m"
  using buffer_words_layout [of "chunk_words n wordsize W m" wordsize flags] length_chunk by simp

lemma length_buffer_words [simp]: "length (buffer_words flags n wordsize buf) = n"
  by (simp add: buffer_words_def Let_def)

lemma chunks_length: "length xs = k * n \<Longrightarrow> x \<in> set (chunks k n xs) \<Longrightarrow> length x = n"
proof (induction k arbitrary: xs)
  case (Suc k)
  then show ?case using Suc.IH [of "drop n xs"] by auto
qed simp

lemma buffer_words_length: "length buf = n * wordsize \<Longrightarrow> w \<in> set (buffer_words flags n wordsize buf) \<Longrightarrow> length w = wordsize"
  using chunks_length [of buf n wordsize] by (auto simp: buffer_words_def Let_def split: if_splits)

section \<open>The generic way\<close>

text \<open>The bits read so far and their number.\<close>

fun unpack_ok :: "unpack_state \<Rightarrow> int \<Rightarrow> nat \<Rightarrow> bool" where
  "unpack_ok (ds, dd, n) m tot \<longleftrightarrow>
    n < 32 \<and> uint dd < 2 ^ n \<and> bval ds + 4294967296 ^ length ds * uint dd = m \<and> 32 * length ds + n = tot"

lemma push_bits_loop_spec:
  assumes "n < 64" "uint dd < 2 ^ n" "bval ds + 4294967296 ^ length ds * uint dd = m" "32 * length ds + n = tot"
  shows "unpack_ok (push_bits_loop (ds, dd, n)) m tot"
proof (cases "32 \<le> n")
  case False
  then show ?thesis using assms by (simp add: push_bits_loop.simps)
next
  case True
  have "(2 :: int) ^ n = 4294967296 * 2 ^ (n - 32)" using True power_add [of "2 :: int" 32 "n - 32"] by simp
  then have "uint dd div 4294967296 < 2 ^ (n - 32)" using assms(2) by (intro int_div_less) (simp_all add: mult.commute)
  moreover have dd: "uint dd = uint (BIGLO dd) + 4294967296 * uint (BIGDN dd)" by (rule uint_lo_dn [symmetric])
  have "bval (ds @ [BIGLO dd]) + 4294967296 ^ length (ds @ [BIGLO dd]) * uint (BIGDN dd) = m"
    using assms(3) unfolding dd by (simp add: bval_append algebra_simps del: uint_BIGLO uint_BIGDN)
  moreover have "push_bits_loop (ds, dd, n) = (ds @ [BIGLO dd], BIGDN dd, n - 32)"
    using assms(1) True by (simp add: push_bits_loop.simps)
  ultimately show ?thesis using assms(1,4) True by (simp add: uint_BIGDN)
qed

lemma uint_or_pushed:
  assumes "uint dd < 2 ^ n" "uint data * 2 ^ n < 18446744073709551616"
  shows "uint ((dd :: 64 word) OR push_bit n data) = uint dd + uint data * 2 ^ n"
proof -
  have "take_bit 64 (push_bit n (uint data)) = push_bit n (uint data)"
    using assms(2) by (simp add: take_bit_int_eq_self_iff push_bit_eq_mult)
  then have "uint (push_bit n data) = push_bit n (uint data)" by (simp add: unsigned_push_bit_eq)
  moreover have "take_bit n (uint dd) = uint dd" using assms(1) by (simp add: take_bit_int_eq_self_iff)
  then have "uint dd OR push_bit n (uint data) = uint dd + push_bit n (uint data)"
    by (intro disjunctive_add [symmetric]) (metis bit_push_bit_iff bit_take_bit_iff not_less)
  ultimately show ?thesis by (simp add: unsigned_or_eq push_bit_eq_mult)
qed

lemma two_63: "(2 :: int) ^ 63 \<le> 18446744073709551616"
  by simp

lemma push_bits_spec:
  assumes "unpack_ok s m tot" "uint data < 2 ^ k" "k \<le> 32"
  shows "unpack_ok (integer_unpack_push_bits data k s) (m + 2 ^ tot * uint data) (tot + k)"
proof -
  obtain ds dd n where s: "s = (ds, dd, n)" by (metis prod.exhaust)
  have ok: "n < 32" "uint dd < 2 ^ n" "bval ds + 4294967296 ^ length ds * uint dd = m" "32 * length ds + n = tot"
    using assms(1) by (simp_all add: s)
  have "uint data * 2 ^ n < 2 ^ k * 2 ^ n" using assms(2) by simp
  moreover have "(2 :: int) ^ k * 2 ^ n \<le> 2 ^ 63" unfolding power_add [symmetric] using ok(1) assms(3) by (intro power_increasing) simp_all
  ultimately have "uint data * 2 ^ n < 18446744073709551616" by (meson order.strict_trans2 order.trans two_63)
  then have "uint (dd OR push_bit n data) = uint dd + uint data * 2 ^ n" using ok(2) by (intro uint_or_pushed)
  moreover
  have "uint dd + uint data * 2 ^ n < 2 ^ (n + k)"
  proof -
    have "(uint data + 1) * 2 ^ n \<le> 2 ^ k * 2 ^ n" using assms(2) by (intro mult_right_mono) simp_all
    then show ?thesis using ok(2) by (simp add: power_add algebra_simps)
  qed
  moreover have "(2 :: int) ^ tot = 4294967296 ^ length ds * 2 ^ n" using ok(4) by (simp add: power_add power_mult flip: ok(4))
  ultimately show ?thesis unfolding s integer_unpack_push_bits.simps
    using ok assms(3) by (intro push_bits_loop_spec) (simp_all add: algebra_simps)
qed

lemma uint_byte_dbl: "uint (ucast (b :: byte) :: 64 word) = uint b"
  by (simp add: unsigned_ucast_eq take_bit_int_eq_self_iff) (use uint_bounded [of b] in simp)

lemma push_bytes_spec:
  assumes "unpack_ok s m tot"
  shows "unpack_ok (foldl (\<lambda>s b. integer_unpack_push_bits (ucast b) 8 s) s bs) (m + 2 ^ tot * bytes_val bs) (tot + 8 * length bs)"
  using assms
proof (induction bs arbitrary: s m tot)
  case (Cons b bs)
  have "uint (ucast b :: 64 word) < 2 ^ 8" unfolding uint_byte_dbl using uint_bounded [of b] by simp
  then have "unpack_ok (integer_unpack_push_bits (ucast b) 8 s) (m + 2 ^ tot * uint (ucast b :: 64 word)) (tot + 8)"
    using Cons.prems by (intro push_bits_spec) simp_all
  from Cons.IH [OF this] show ?case by (simp add: uint_byte_dbl power_add algebra_simps)
qed simp

lemma unpack_word_spec:
  assumes "unpack_ok s m tot" "\<not> wordsize \<le> nails div 8" "length w = wordsize"
  shows "unpack_ok (unpack_word wordsize nails s w) (m + 2 ^ tot * (bytes_val w mod 2 ^ word_bits wordsize nails))
    (tot + word_bits wordsize nails)"
proof -
  obtain F P where FP: "integer_pack_loop_setup wordsize nails = (F, P)" by (meson surj_pair)
  note b = loop_setup_bits [OF FP assms(2)]
  define s1 where "s1 = foldl (\<lambda>s b. integer_unpack_push_bits (ucast b) 8 s) s (take F w)"
  have F: "length (take F w) = F" using b(3) assms(3) by (simp split: if_splits)
  then have s1: "unpack_ok s1 (m + 2 ^ tot * bytes_val (take F w)) (tot + 8 * F)"
    unfolding s1_def using push_bytes_spec [OF assms(1), of "take F w"] by simp
  have split: "bytes_val w = 256 ^ F * bytes_val (drop F w) + bytes_val (take F w)"
    using bytes_val_append [of "take F w" "drop F w"] F by simp
  have low: "0 \<le> bytes_val (take F w)" "bytes_val (take F w) < 256 ^ F" using bytes_val_less [of "take F w"] F by simp_all
  show ?thesis
  proof (cases "P = 0")
    case True
    then have "bytes_val w mod 2 ^ word_bits wordsize nails = bytes_val (take F w)"
      using low by (simp add: b(1) split flip: power_256)
    then show ?thesis using s1 True by (simp add: unpack_word_def FP b(1) flip: s1_def)
  next
    case False
    then have Fw: "F < length w" using b(3) assms(3) by simp
    have P8: "(2 :: int) ^ P \<le> 2 ^ 8" using b(2) by (intro power_increasing) simp_all
    define d where "d = (ucast (w ! F) AND (push_bit P 1 - 1) :: 64 word)"
    have "uint d = uint (w ! F) mod 2 ^ P"
    proof -
      have "d = take_bit P (ucast (w ! F))" by (simp add: d_def take_bit_eq_mask mask_eq_exp_minus_1 push_bit_eq_mult)
      then have "uint d = take_bit P (uint (w ! F))" by (simp only: unsigned_take_bit_eq uint_byte_dbl)
      then show ?thesis by (simp only: take_bit_eq_mod)
    qed
    moreover from this have "uint d < 2 ^ P" by simp
    then have "unpack_ok (integer_unpack_push_bits d P s1) (m + 2 ^ tot * bytes_val (take F w) + 2 ^ (tot + 8 * F) * uint d) (tot + 8 * F + P)"
      using b(2) by (intro push_bits_spec [OF s1]) simp_all
    moreover have "drop F w = w ! F # drop (Suc F) w" using Fw by (simp add: Cons_nth_drop_Suc)
    then have "bytes_val (drop F w) mod 2 ^ P = uint (w ! F) mod 2 ^ P"
    proof -
      have "(256 :: int) = 2 ^ P * 2 ^ (8 - P)" using b(2) power_add [of "2 :: int" P "8 - P"] by simp
      then have "256 * bytes_val (drop (Suc F) w) = 2 ^ P * (2 ^ (8 - P) * bytes_val (drop (Suc F) w))" by (simp only: mult.assoc)
      then show ?thesis unfolding \<open>drop F w = w ! F # drop (Suc F) w\<close> bytes_val.simps by (simp only: mod_mult_self2)
    qed
    moreover have "bytes_val w mod 2 ^ word_bits wordsize nails = 256 ^ F * (bytes_val (drop F w) mod 2 ^ P) + bytes_val (take F w)"
    proof -
      have "bytes_val w mod (256 ^ F * 2 ^ P) = 256 ^ F * (bytes_val w div 256 ^ F mod 2 ^ P) + bytes_val w mod 256 ^ F"
        by (rule zmod_zmult2_eq) simp
      moreover have "bytes_val w div 256 ^ F = bytes_val (drop F w)" "bytes_val w mod 256 ^ F = bytes_val (take F w)"
        unfolding split using low by simp_all
      moreover have "(2 :: int) ^ word_bits wordsize nails = 256 ^ F * 2 ^ P" by (simp add: b(1) power_add power_256)
      ultimately show ?thesis by simp
    qed
    moreover have "unpack_word wordsize nails s w = integer_unpack_push_bits d P s1"
      using False by (simp only: unpack_word_def FP Let_def case_prod_conv d_def s1_def not_False_eq_True if_True)
    moreover have "(2 :: int) ^ (tot + 8 * F) = 2 ^ tot * 256 ^ F" by (simp add: power_add power_256)
    ultimately show ?thesis by (simp add: b(1) algebra_simps)
  qed
qed

lemma unpack_words_spec:
  assumes "unpack_ok s m tot" "\<not> wordsize \<le> nails div 8" "\<forall>w \<in> set ws. length w = wordsize"
  shows "unpack_ok (foldl (unpack_word wordsize nails) s ws) (m + 2 ^ tot * words_val (word_bits wordsize nails) ws)
    (tot + word_bits wordsize nails * length ws)"
  using assms
proof (induction ws arbitrary: s m tot)
  case (Cons w ws)
  have "unpack_ok (unpack_word wordsize nails s w) (m + 2 ^ tot * (bytes_val w mod 2 ^ word_bits wordsize nails))
      (tot + word_bits wordsize nails)" using Cons.prems by (intro unpack_word_spec) simp_all
  from Cons.IH [OF this Cons.prems(2)] show ?case using Cons.prems(3) by (simp add: power_add algebra_simps)
qed simp

section \<open>The sign\<close>

text \<open>The number \<open>m\<close> of \<open>tot\<close> bits as the flags say.\<close>

definition unpack_number :: "pack_flags \<Rightarrow> nat \<Rightarrow> int \<Rightarrow> int" where
  "unpack_number flags tot m =
    (if \<not> PACK_2COMP flags then (if PACK_NEGATIVE flags then - m else m)
     else if PACK_NEGATIVE flags \<or> tot \<noteq> 0 \<and> 2 ^ (tot - 1) \<le> m then m - 2 ^ tot else m)"

text \<open>What the sign and the digits stand for.\<close>

fun signed_digits_val :: "int \<times> BDIGIT list \<Rightarrow> int" where
  "signed_digits_val (sign, ds) =
    (if sign = - 2 then - (bval ds + 4294967296 ^ length ds) else if 0 \<le> sign then bval ds else - bval ds)"

text \<open>A result for \<open>n\<close> digits.\<close>

definition unpack_result :: "pack_flags \<Rightarrow> nat \<Rightarrow> int \<Rightarrow> nat \<Rightarrow> int \<times> BDIGIT list \<Rightarrow> bool" where
  "unpack_result flags tot m n r \<longleftrightarrow>
    signed_digits_val r = unpack_number flags tot m \<and> length (snd r) = n \<and> fst r \<in> {- 2, - 1, 1} \<and> (fst r = - 2 \<longrightarrow> bval (snd r) = 0)"

lemma last_digit:
  assumes "length ds = Suc k"
  shows "bval ds = bval (take k ds) + 4294967296 ^ k * uint (ds ! k)" "0 \<le> bval (take k ds)" "bval (take k ds) < 4294967296 ^ k"
proof -
  have "drop k ds = [ds ! k]" using assms by (metis Cons_nth_drop_Suc drop_all lessI order_refl)
  then show "bval ds = bval (take k ds) + 4294967296 ^ k * uint (ds ! k)" using bval_take_drop [of k ds] assms by simp
  show "0 \<le> bval (take k ds)" "bval (take k ds) < 4294967296 ^ k" using bval_take_less [of k ds] assms by simp_all
qed

lemma drop_bit_nonzero: "drop_bit j w \<noteq> 0 \<longleftrightarrow> 2 ^ j \<le> uint (w :: 'a :: len word)"
proof -
  have "drop_bit j w = 0 \<longleftrightarrow> uint w div 2 ^ j = 0" by (metis uint_0_iff uint_drop_bit_div)
  moreover have "uint w div 2 ^ j = 0 \<longleftrightarrow> uint w < 2 ^ j"
    using le_div_iff [of "2 ^ j" 1 "uint w"] pos_imp_zdiv_nonneg_iff [of "2 ^ j" "uint w"] by auto
  ultimately show ?thesis by (simp add: not_less)
qed

lemma high_part:
  assumes "m = lo + c * u" "0 \<le> lo" "lo < (c :: int)"
  shows "c * p \<le> m \<longleftrightarrow> p \<le> u"
proof
  assume "p \<le> u"
  then have "c * p \<le> c * u" using assms(2,3) by (intro mult_left_mono) simp_all
  then show "c * p \<le> m" using assms(1,2) by linarith
next
  assume "c * p \<le> m"
  then have "c * p < c * (u + 1)" using assms(1,3) unfolding distrib_left mult_1_right by linarith
  then show "p \<le> u" using assms(2,3) by simp
qed

lemma high_digit_bit:
  assumes "length ds = Suc k"
  shows "drop_bit j (ds ! k) \<noteq> 0 \<longleftrightarrow> 2 ^ (32 * k + j) \<le> bval ds"
proof -
  have "(4294967296 :: int) ^ k * 2 ^ j = 2 ^ (32 * k + j)" by (simp add: power_add power_mult)
  then show ?thesis using high_part [OF last_digit [OF assms], of "2 ^ j"] by (simp add: drop_bit_nonzero)
qed

lemma BDIGIT_MSB_drop: "BDIGIT_MSB d \<longleftrightarrow> drop_bit 31 d \<noteq> 0"
proof -
  have m: "(0x80000000 :: BDIGIT) = push_bit 31 1" by simp
  have "d AND 0x80000000 = push_bit 31 (drop_bit 31 d)"
  proof (rule bit_word_eqI)
    fix n assume "n < LENGTH(32)"
    then have "n < 31 \<or> n = 31" by (simp, linarith)
    then show "bit (d AND 0x80000000) n = bit (push_bit 31 (drop_bit 31 d)) n" unfolding m by (auto simp: bit_simps simp del: push_bit_of_1 push_bit_numeral)
  qed
  moreover have "push_bit 31 (drop_bit 31 d) = 0 \<longleftrightarrow> drop_bit 31 d = 0"
  proof
    assume e: "push_bit 31 (drop_bit 31 d) = 0"
    show "drop_bit 31 d = 0"
    proof (rule bit_word_eqI)
      fix n assume "n < LENGTH(32)"
      then show "bit (drop_bit 31 d) n = bit 0 n" using arg_cong [OF e, of "\<lambda>x. bit x 31"]
        by (cases n) (auto simp: bit_simps dest: bit_imp_le_length)
    qed
  qed simp
  ultimately show ?thesis by (simp add: BDIGIT_MSB_def)
qed

lemma uint_high_ones: "j < 32 \<Longrightarrow> uint (push_bit j BDIGMAX) = 4294967296 - 2 ^ j"
proof -
  assume j: "j < 32"
  have ones: "BDIGMAX = - 1" by (simp add: BDIGMAX_def)
  have "push_bit j BDIGMAX = - (2 ^ j)" unfolding ones push_bit_eq_mult by (rule mult_minus1)
  moreover have "uint (2 ^ j :: BDIGIT) = 2 ^ j" using j by (intro uint_2p) (simp add: word_gt_0 exp_eq_zero_iff)
  moreover from this have "(2 ^ j :: BDIGIT) \<noteq> 0" by (metis power_not_zero uint_0_eq zero_neq_numeral)
  ultimately show ?thesis by (simp add: uint_minus_digit)
qed

lemma uint_fill_high: "j < 32 \<Longrightarrow> uint d < 2 ^ j \<Longrightarrow> uint ((d :: BDIGIT) OR push_bit j BDIGMAX) = uint d + 4294967296 - 2 ^ j"
proof -
  assume j: "j < 32" "uint d < 2 ^ j"
  have "d AND push_bit j (- 1) = 0" using j(2) by (simp only: word_and_high)
  moreover have "BDIGMAX = - 1" by (simp add: BDIGMAX_def)
  ultimately have "d AND push_bit j BDIGMAX = 0" by (simp only:)
  then have "d OR push_bit j BDIGMAX = d + push_bit j BDIGMAX" by (simp add: disjunctive_add_eq_or)
  then have "uint (d OR push_bit j BDIGMAX) = (uint d + (4294967296 - 2 ^ j)) mod 4294967296"
    using uint_high_ones [OF j(1)] by (simp add: uint_word_ariths)
  also have "\<dots> = uint d + (4294967296 - 2 ^ j)"
  proof (rule mod_pos_pos_trivial)
    have "(2 :: int) ^ j \<le> 2 ^ 32" using j(1) by (intro power_increasing) simp_all
    then show "0 \<le> uint d + (4294967296 - 2 ^ j)" using uint_digit(1) [of d] by simp
    show "uint d + (4294967296 - 2 ^ j) < 4294967296" using j(2) by simp
  qed
  finally show ?thesis by simp
qed

lemma bary_2comp_pos: "bval ds \<noteq> 0 \<Longrightarrow> bval (fst (bary_2comp ds)) = 4294967296 ^ length ds - bval ds"
  using bary_2comp_spec [of ds] by simp

lemma unpack_sign_spec:
  assumes "length ds = n" "bval ds = m" "m < 2 ^ tot" "32 * n = tot + nlp" "nlp < 32"
  shows "unpack_result flags tot m n (unpack_sign flags nlp ds)"
proof (cases "PACK_2COMP flags")
  case False
  then show ?thesis using assms by (simp add: unpack_sign_def unpack_result_def unpack_number_def Let_def)
next
  case twos: True
  have B: "(4294967296 :: int) ^ n = 2 ^ (32 * n)" by (simp add: power_mult)
  have m0: "0 \<le> m" using assms(2) bval_nonneg [of ds] by simp
  show ?thesis
  proof (cases "nlp = 0")
    case True
    then have tot: "tot = 32 * n" using assms(4) by simp
    have msb: "(n \<noteq> 0 \<and> BDIGIT_MSB (ds ! (n - 1))) \<longleftrightarrow> (tot \<noteq> 0 \<and> 2 ^ (tot - 1) \<le> m)"
    proof (cases n)
      case (Suc k)
      then show ?thesis using high_digit_bit [of ds k 31] assms(1,2) by (simp add: BDIGIT_MSB_drop tot add.commute)
    qed (simp add: tot)
    have zero: "bary_zero_p ds n \<longleftrightarrow> m = 0" using bary_zero_p_iff [of n ds] assms(1,2) by simp
    show ?thesis
    proof (cases "PACK_NEGATIVE flags")
      case neg: True
      show ?thesis
      proof (cases "m = 0")
        case True
        then show ?thesis using neg twos zero \<open>nlp = 0\<close> assms(1,2) B
          by (simp add: unpack_sign_def unpack_result_def unpack_number_def Let_def tot)
      next
        case False
        then have "n \<noteq> 0" using assms(1,2) by auto
        then show ?thesis using neg twos zero \<open>nlp = 0\<close> assms(1,2) B False bary_2comp_pos [of ds] bary_2comp_spec [of ds]
          by (simp add: unpack_sign_def unpack_result_def unpack_number_def Let_def tot)
      qed
    next
      case pos: False
      show ?thesis
      proof (cases "tot \<noteq> 0 \<and> 2 ^ (tot - 1) \<le> m")
        case True
        then have "m \<noteq> 0" by (metis linorder_not_less zero_less_numeral zero_less_power)
        then have "bval (fst (bary_2comp ds)) = 4294967296 ^ n - m" using bary_2comp_pos [of ds] assms(1,2) by simp
        moreover have "length (fst (bary_2comp ds)) = n" using bary_2comp_spec [of ds] assms(1) by simp
        moreover have "unpack_sign flags nlp ds = (- 1, fst (bary_2comp ds))"
          using True msb twos pos \<open>nlp = 0\<close> assms(1) by (simp add: unpack_sign_def Let_def)
        ultimately show ?thesis using True twos pos B by (simp add: unpack_result_def unpack_number_def tot)
      next
        case False
        then have "unpack_sign flags nlp ds = (1, ds)"
          using msb twos pos \<open>nlp = 0\<close> assms(1) by (auto simp add: unpack_sign_def Let_def)
        then show ?thesis using False twos pos assms(1,2) by (auto simp: unpack_result_def unpack_number_def)
      qed
    qed
  next
    case nlp: False
    then obtain k where k: "n = Suc k" using assms(4) by (cases n) auto
    define j where "j = 32 - nlp"
    have j: "j < 32" "0 < j" "tot = 32 * k + j" using nlp assms(4,5) k by (simp_all add: j_def)
    have pow: "(2 :: int) ^ tot = 4294967296 ^ k * 2 ^ j" by (simp add: j(3) power_add power_mult)
    note d = last_digit [OF assms(1) [unfolded k]]
    have "\<not> 2 ^ (32 * k + j) \<le> bval ds" using assms(2,3) j(3) by simp
    then have "drop_bit j (ds ! k) = 0" using high_digit_bit [OF assms(1) [unfolded k], of j] by simp
    then have dj: "uint (ds ! k) < 2 ^ j" using drop_bit_nonzero [of j "ds ! k"] by simp
    have top: "drop_bit (32 - nlp - 1) (ds ! (n - 1)) \<noteq> 0 \<longleftrightarrow> 2 ^ (tot - 1) \<le> m"
      using high_digit_bit [OF assms(1) [unfolded k], of "j - 1"] j assms(2) k by (simp add: j_def add.commute)
    define es where "es = ds[n - 1 := ds ! (n - 1) OR push_bit (32 - nlp) BDIGMAX]"
    have es: "length es = Suc k" using assms(1) k by (simp add: es_def)
    have "take k es = take k ds" "es ! k = ds ! k OR push_bit j BDIGMAX" using assms(1) k by (simp_all add: es_def j_def)
    then have "bval es = bval (take k ds) + 4294967296 ^ k * (uint (ds ! k) + 4294967296 - 2 ^ j)"
      using last_digit(1) [OF es] uint_fill_high [OF j(1) dj] by simp
    also have "\<dots> = m + 4294967296 ^ n - 2 ^ tot" using d(1) assms(2) k by (simp add: pow algebra_simps)
    finally have val: "bval es = m + 4294967296 ^ n - 2 ^ tot" .
    have "(2 :: int) ^ tot < 2 ^ (32 * n)" using nlp assms(4) by (intro power_strict_increasing) simp_all
    then have "bval es \<noteq> 0" unfolding val B using m0 by linarith
    then have comp: "bval (fst (bary_2comp es)) = 2 ^ tot - m" "length (fst (bary_2comp es)) = n"
      using bary_2comp_pos [of es] bary_2comp_spec [of es] es k val by simp_all
    show ?thesis
    proof (cases "PACK_NEGATIVE flags \<or> 2 ^ (tot - 1) \<le> m")
      case True
      then have "unpack_sign flags nlp ds = (- 1, fst (bary_2comp es))"
        using top twos nlp assms(1) k by (simp add: unpack_sign_def Let_def es_def)
      then show ?thesis using True comp twos j by (auto simp: unpack_result_def unpack_number_def)
    next
      case False
      then have "unpack_sign flags nlp ds = (1, ds)" using top twos nlp assms(1) by (simp add: unpack_sign_def Let_def)
      then show ?thesis using False twos assms(1,2) by (auto simp: unpack_result_def unpack_number_def)
    qed
  qed
qed

lemma num_digits_bounds: "bits \<le> 32 * num_digits bits" "32 * num_digits bits - bits < 32"
  unfolding num_digits_def using div_mult_mod_eq [of "bits + 31" 32] mod_less_divisor [of 32 "bits + 31"] by linarith+

text \<open>The words of a buffer and the digits for them.\<close>

definition buffer_val :: "pack_flags \<Rightarrow> nat \<Rightarrow> nat \<Rightarrow> nat \<Rightarrow> byte list \<Rightarrow> int" where
  "buffer_val flags numwords wordsize nails buf = words_val (word_bits wordsize nails) (buffer_words flags numwords wordsize buf)"

lemma buffer_val_bounds: "0 \<le> buffer_val flags numwords wordsize nails buf"
  "buffer_val flags numwords wordsize nails buf < 2 ^ (word_bits wordsize nails * numwords)"
  using words_val_less [of "word_bits wordsize nails" "buffer_words flags numwords wordsize buf"] by (simp_all add: buffer_val_def)

lemma unpack_generic_spec:
  assumes "\<not> wordsize \<le> nails div 8" "length buf = numwords * wordsize" "tot = word_bits wordsize nails * numwords"
  shows "unpack_result flags tot (buffer_val flags numwords wordsize nails buf) (num_digits tot)
    (unpack_generic (num_digits tot) buf numwords wordsize nails flags (32 * num_digits tot - tot))"
proof -
  define n where "n = num_digits tot"
  define m where "m = buffer_val flags numwords wordsize nails buf"
  have n: "tot \<le> 32 * n" "32 * n - tot < 32" unfolding n_def by (rule num_digits_bounds)+
  have m: "0 \<le> m" "m < 2 ^ tot" unfolding m_def assms(3) by (rule buffer_val_bounds)+
  define ws where "ws = buffer_words flags numwords wordsize buf"
  obtain ds dd k where st: "foldl (unpack_word wordsize nails) ([], 0, 0) ws = (ds, dd, k)" by (metis prod.exhaust)
  have "\<forall>w \<in> set ws. length w = wordsize" using buffer_words_length [OF assms(2)] by (simp add: ws_def)
  then have "unpack_ok (ds, dd, k) m tot"
    using unpack_words_spec [of "([], 0, 0)" 0 0 wordsize nails ws] assms(1) unfolding st
    by (simp add: ws_def m_def buffer_val_def assms(3))
  then have ok: "k < 32" "uint dd < 2 ^ k" "bval ds + 4294967296 ^ length ds * uint dd = m" "32 * length ds + k = tot" by simp_all
  have "(2 :: int) ^ k \<le> 2 ^ 32" using ok(1) by (intro power_increasing) simp_all
  then have "uint dd < 4294967296" using ok(2) by simp
  then have dd: "uint (ucast dd :: BDIGIT) = uint dd" by (simp add: unsigned_ucast_eq take_bit_int_eq_self_iff)
  define es where "es = (if dd \<noteq> 0 then ds @ [ucast dd] else ds)"
  have es: "bval es = m" using ok(3) dd by (auto simp: es_def bval_append)
  have "length es \<le> n"
  proof (cases "dd = 0")
    case True
    then show ?thesis using ok(4) n(1) by (simp add: es_def)
  next
    case False
    have "k \<noteq> 0"
    proof
      assume "k = 0"
      then have "uint dd = 0" using ok(2) uint_ge_0 [of dd] unfolding \<open>k = 0\<close> power_0 by linarith
      then show False using False by (simp add: uint_0_iff)
    qed
    then show ?thesis using ok(4) n(1) False by (simp add: es_def)
  qed
  then have z: "length (es @ replicate (n - length es) 0) = n" "bval (es @ replicate (n - length es) 0) = m"
    by (simp_all add: bval_append es)
  have "(if n \<noteq> 0 then es @ replicate (n - length es) 0 else []) = es @ replicate (n - length es) 0" using z(1) by auto
  then have "unpack_generic n buf numwords wordsize nails flags (32 * n - tot) = unpack_sign flags (32 * n - tot) (es @ replicate (n - length es) 0)"
    by (simp only: unpack_generic_def Let_def ws_def [symmetric] st case_prod_conv es_def [symmetric])
  moreover have "unpack_result flags tot m n (unpack_sign flags (32 * n - tot) (es @ replicate (n - length es) 0))"
    by (rule unpack_sign_spec) (use z m n in simp_all)
  ultimately show ?thesis by (simp only: n_def m_def)
qed

section \<open>The fast ways\<close>

lemma bytes_bdigit_val: "length bs \<le> 4 \<Longrightarrow> uint (bytes_bdigit bs) = bytes_val bs"
proof (induction bs)
  case (Cons b bs)
  then have IH: "uint (bytes_bdigit bs) = bytes_val bs" and l: "length bs \<le> 3" by simp_all
  have "bytes_val bs < 256 ^ length bs" by (rule bytes_val_less)
  also have "(256 :: int) ^ length bs \<le> 256 ^ 3" using l by (intro power_increasing) simp_all
  finally have less: "bytes_val bs < 16777216" by simp
  have ub: "uint (ucast b :: BDIGIT) = uint b"
    using uint_bounded [of b] by (simp add: unsigned_ucast_eq take_bit_int_eq_self_iff)
  have "uint (push_bit 8 (bytes_bdigit bs)) = take_bit 32 (push_bit 8 (bytes_val bs))" unfolding unsigned_push_bit_eq IH by simp
  also have "\<dots> = 256 * bytes_val bs" unfolding push_bit_eq_mult take_bit_eq_mod using less by simp
  finally have up: "uint (push_bit 8 (bytes_bdigit bs)) = 256 * bytes_val bs" .
  have "(ucast b :: BDIGIT) AND push_bit 8 (bytes_bdigit bs) = 0"
    by (rule bit_word_eqI) (auto simp: bit_simps dest: bit_imp_le_length)
  then have "ucast b OR push_bit 8 (bytes_bdigit bs) = ucast b + push_bit 8 (bytes_bdigit bs)" by (simp add: disjunctive_add_eq_or)
  then have "uint (ucast b OR push_bit 8 (bytes_bdigit bs)) = (uint b + 256 * bytes_val bs) mod 4294967296"
    by (simp add: uint_word_ariths ub up)
  also have "\<dots> = uint b + 256 * bytes_val bs"
  proof (rule mod_pos_pos_trivial)
    have "0 \<le> uint b" "uint b < 256" "0 \<le> bytes_val bs" using uint_bounded [of b] by simp_all
    then show "0 \<le> uint b + 256 * bytes_val bs" "uint b + 256 * bytes_val bs < 4294967296" using less by linarith+
  qed
  finally show ?case by simp
qed simp

lemma bytes_bdigits_spec: "length bs = 4 * n \<Longrightarrow> length (bytes_bdigits bs) = n \<and> bval (bytes_bdigits bs) = bytes_val bs"
proof (induction bs arbitrary: n rule: bytes_bdigits.induct)
  case (1 a b c d bs)
  then obtain k where k: "n = Suc k" by (cases n) simp_all
  have "uint (bytes_bdigit [a, b, c, d]) = bytes_val [a, b, c, d]" by (rule bytes_bdigit_val) simp
  then show ?case using 1(1) [of k] 1(2) k by (simp del: bytes_bdigit.simps)
qed (auto, (rule FalseE, presburger)+)

text \<open>
  Digits that are the bits of the buffer, sign-extended when a sign is to come out: complemented, with the
  overflow told by the carry.
\<close>

lemma unpack_extended:
  assumes "PACK_2COMP flags" "length ds = n" "bval ds = m + 4294967296 ^ n - 2 ^ tot" "0 \<le> m" "m < 2 ^ tot" "tot \<le> 32 * n"
    "PACK_NEGATIVE flags \<or> tot \<noteq> 0 \<and> 2 ^ (tot - 1) \<le> m"
  shows "unpack_result flags tot m n (if snd (bary_2comp ds) then - 2 else - 1, fst (bary_2comp ds))"
    "\<not> PACK_NEGATIVE flags \<Longrightarrow> unpack_result flags tot m n (- 1, fst (bary_2comp ds))"
proof -
  have le: "(2 :: int) ^ tot \<le> 4294967296 ^ n"
    using assms(6) power_increasing [of tot "32 * n" "2 :: int"] by (simp add: power_mult)
  have num: "unpack_number flags tot m = m - 2 ^ tot" using assms(1,7) by (auto simp: unpack_number_def)
  note c = bary_2comp_spec [of ds]
  show all: "unpack_result flags tot m n (if snd (bary_2comp ds) then - 2 else - 1, fst (bary_2comp ds))"
  proof (cases "bval ds = 0")
    case True
    then have "m = 0" "4294967296 ^ n = (2 :: int) ^ tot" using assms(3,4) le by linarith+
    then show ?thesis using c True num assms(2) by (simp add: unpack_result_def)
  next
    case False
    then show ?thesis using c num assms(2,3) by (simp add: unpack_result_def)
  qed
  assume "\<not> PACK_NEGATIVE flags"
  then have "m \<noteq> 0" using assms(7) by (metis linorder_not_less zero_less_numeral zero_less_power)
  then have "bval ds \<noteq> 0" using assms(3,4) le by linarith
  then show "unpack_result flags tot m n (- 1, fst (bary_2comp ds))" using all c by simp
qed

lemma unpack_choice:
  assumes "length zeros = n" "bval zeros = m" "length ones = n" "bval ones = m + 4294967296 ^ n - 2 ^ tot"
    "0 \<le> m" "m < 2 ^ tot" "tot \<le> 32 * n" "PACK_2COMP flags \<Longrightarrow> \<not> PACK_NEGATIVE flags \<Longrightarrow> msb \<longleftrightarrow> tot \<noteq> 0 \<and> 2 ^ (tot - 1) \<le> m"
  shows "unpack_result flags tot m n
    (if PACK_2COMP flags
     then if PACK_NEGATIVE flags then (if snd (bary_2comp ones) then - 2 else - 1, fst (bary_2comp ones))
          else if msb then (- 1, fst (bary_2comp ones)) else (1, zeros)
     else (if PACK_NEGATIVE flags then - 1 else 1, zeros))"
proof (cases "PACK_2COMP flags")
  case False
  then show ?thesis using assms(1,2) by (simp add: unpack_result_def unpack_number_def)
next
  case twos: True
  note ext = unpack_extended [OF twos assms(3-7)]
  show ?thesis
  proof (cases "PACK_NEGATIVE flags")
    case True
    then show ?thesis using ext(1) twos by simp
  next
    case neg: False
    note t = assms(8) [OF twos neg]
    show ?thesis
    proof (cases "tot \<noteq> 0 \<and> 2 ^ (tot - 1) \<le> m")
      case True
      then have "unpack_result flags tot m n (- 1, fst (bary_2comp ones))" using neg by (intro ext(2)) simp_all
      then show ?thesis using True t twos neg by simp
    next
      case False
      then have "\<not> msb" "unpack_number flags tot m = m" using t neg by (auto simp: unpack_number_def)
      then show ?thesis using twos neg assms(1,2) by (simp add: unpack_result_def)
    qed
  qed
qed

lemma unpack_bytes_spec:
  assumes "length buf = numwords * wordsize" "WORDORDER flags = LSWORD_FIRST" "BYTEORDER flags \<noteq> MSBYTE_FIRST"
    "tot = 8 * wordsize * numwords"
  shows "unpack_bytes (num_digits tot) buf flags = None \<longleftrightarrow> PACK_2COMP flags \<and> \<not> PACK_NEGATIVE flags \<and> buf = []"
    "unpack_bytes (num_digits tot) buf flags = Some r \<Longrightarrow>
      unpack_result flags tot (buffer_val flags numwords wordsize 0 buf) (num_digits tot) r"
proof -
  define n where "n = num_digits tot"
  define m where "m = buffer_val flags numwords wordsize 0 buf"
  define l where "l = length buf"
  have tot: "tot = 8 * l" by (simp add: l_def assms(1,4))
  have n: "tot \<le> 32 * n" "l \<le> n * 4" using num_digits_bounds(1) [of tot] by (simp_all add: n_def tot)
  have words_concat: "words_val (8 * k) ws = bytes_val (concat ws)" if "\<forall>w \<in> set ws. length w = k" for k and ws :: "byte list list"
    using that
  proof (induction ws)
    case (Cons w ws)
    have "bytes_val w mod 256 ^ k = bytes_val w" using bytes_val_less [of w] Cons.prems by simp
    then show ?case using Cons by (simp add: bytes_val_append flip: power_256)
  qed simp
  have "buffer_words flags numwords wordsize buf = chunks numwords wordsize buf"
    using assms(2,3) by (simp add: buffer_words_def)
  moreover have "concat (chunks numwords wordsize buf) = buf" using assms(1) by (rule concat_chunks)
  ultimately have m: "m = bytes_val buf"
    using words_concat [of "buffer_words flags numwords wordsize buf" wordsize] buffer_words_length [OF assms(1), of _ flags]
    by (simp add: m_def buffer_val_def)
  have m0: "0 \<le> m" "m < 2 ^ tot" using bytes_val_less [of buf] by (simp_all add: m tot l_def flip: power_256)
  define zeros where "zeros = bytes_bdigits (buf @ replicate (n * 4 - l) 0)"
  define ones where "ones = bytes_bdigits (buf @ replicate (n * 4 - l) 0xff)"
  have "bytes_val (replicate k 0) = 0" for k by (induction k) simp_all
  then have z: "length zeros = n" "bval zeros = m"
    using bytes_bdigits_spec [of "buf @ replicate (n * 4 - l) 0" n] n(2) by (simp_all add: zeros_def bytes_val_append m l_def)
  have ff: "bytes_val (replicate k 0xff) = 256 ^ k - 1" for k by (induction k) simp_all
  have B: "(4294967296 :: int) ^ n = 256 ^ l * 256 ^ (n * 4 - l)"
  proof -
    have "(4294967296 :: int) ^ n = 256 ^ (n * 4)" by (simp add: power_mult mult.commute [of n])
    then show ?thesis using n(2) by (simp flip: power_add)
  qed
  have t2: "(2 :: int) ^ tot = 256 ^ l" by (simp add: tot power_256)
  have o: "length ones = n" "bval ones = m + 4294967296 ^ n - 2 ^ tot"
    using bytes_bdigits_spec [of "buf @ replicate (n * 4 - l) 0xff" n] n(2)
    by (simp_all add: ones_def bytes_val_append m ff t2 algebra_simps flip: l_def B)
  have top: "drop_bit 7 (buf ! (l - 1)) \<noteq> 0 \<longleftrightarrow> tot \<noteq> 0 \<and> 2 ^ (tot - 1) \<le> m" if nz: "l \<noteq> 0"
  proof -
    obtain k where k: "l = Suc k" using nz by (cases l) simp_all
    then have "drop k buf = [buf ! k]" by (metis Cons_nth_drop_Suc drop_all l_def lessI order_refl)
    then have "m = bytes_val (take k buf) + 256 ^ k * uint (buf ! k)"
      using bytes_val_append [of "take k buf" "drop k buf", unfolded append_take_drop_id] k by (simp add: m l_def)
    moreover have "bytes_val (take k buf) < 256 ^ k" using bytes_val_less [of "take k buf"] k by (simp add: l_def)
    ultimately have "256 ^ k * 2 ^ 7 \<le> m \<longleftrightarrow> 2 ^ 7 \<le> uint (buf ! k)" by (intro high_part) simp_all
    moreover have "tot - 1 = 8 * k + 7" by (simp add: tot k)
    then have "(2 :: int) ^ (tot - 1) = 256 ^ k * 2 ^ 7" by (simp only: power_add power_256)
    ultimately show ?thesis by (simp only: drop_bit_nonzero k diff_Suc_1) (simp add: tot k)
  qed
  have code: "unpack_bytes n buf flags =
      (if PACK_2COMP flags \<and> \<not> PACK_NEGATIVE flags \<and> l = 0 then None
       else Some (if PACK_2COMP flags
         then if PACK_NEGATIVE flags then (if snd (bary_2comp ones) then - 2 else - 1, fst (bary_2comp ones))
              else if drop_bit 7 (buf ! (l - 1)) \<noteq> 0 then (- 1, fst (bary_2comp ones)) else (1, zeros)
         else (if PACK_NEGATIVE flags then - 1 else 1, zeros)))"
    by (simp add: unpack_bytes_def Let_def case_prod_unfold ones_def zeros_def l_def)
  show "unpack_bytes (num_digits tot) buf flags = None \<longleftrightarrow> PACK_2COMP flags \<and> \<not> PACK_NEGATIVE flags \<and> buf = []"
    unfolding n_def [symmetric] code by (auto simp: l_def)
  assume r: "unpack_bytes (num_digits tot) buf flags = Some r"
  then have l0: "PACK_2COMP flags \<Longrightarrow> \<not> PACK_NEGATIVE flags \<Longrightarrow> l \<noteq> 0" unfolding n_def [symmetric] code by (auto split: if_splits)
  have t: "PACK_2COMP flags \<Longrightarrow> \<not> PACK_NEGATIVE flags \<Longrightarrow> drop_bit 7 (buf ! (l - 1)) \<noteq> 0 \<longleftrightarrow> tot \<noteq> 0 \<and> 2 ^ (tot - 1) \<le> m"
    using top l0 by blast
  note c = unpack_choice [OF z o m0 n(1) t]
  have cond: "\<not> (PACK_2COMP flags \<and> \<not> PACK_NEGATIVE flags \<and> l = 0)" using l0 by blast
  have "r = (if PACK_2COMP flags
         then if PACK_NEGATIVE flags then (if snd (bary_2comp ones) then - 2 else - 1, fst (bary_2comp ones))
              else if drop_bit 7 (buf ! (l - 1)) \<noteq> 0 then (- 1, fst (bary_2comp ones)) else (1, zeros)
         else (if PACK_NEGATIVE flags then - 1 else 1, zeros))"
    using r unfolding n_def [symmetric] code if_not_P [OF cond] option.inject by (rule sym)
  then show "unpack_result flags tot (buffer_val flags numwords wordsize 0 buf) (num_digits tot) r"
    unfolding n_def [symmetric] m_def [symmetric] using c by (simp only:)
qed

lemma unpack_single_spec:
  assumes "length buf = wordsize" "wordsize = 1 \<or> wordsize = 2 \<or> wordsize = 4"
  shows "unpack_result flags (8 * wordsize) (buffer_val flags 1 wordsize 0 buf) 1 (unpack_single buf wordsize flags)"
proof -
  define m where "m = buffer_val flags 1 wordsize 0 buf"
  define bs where "bs = (if wordsize \<noteq> 1 \<and> BYTEORDER flags = MSBYTE_FIRST then rev else id) buf"
  define u where "u = bytes_bdigit bs"
  have bs: "length bs = wordsize" by (simp add: bs_def assms(1))
  have w: "wordsize \<le> 4" "0 < wordsize" using assms(2) by auto
  have pow: "(2 :: int) ^ (8 * wordsize) = 256 ^ wordsize" by (simp add: power_256)
  have "buffer_words flags 1 wordsize buf = [bs]"
    using assms(1) rev_short [of buf] by (auto simp: buffer_words_def bs_def Let_def)
  then have m: "m = bytes_val bs mod 2 ^ (8 * wordsize)" by (simp add: m_def buffer_val_def)
  then have m: "m = bytes_val bs" unfolding pow using bytes_val_less [of bs] by (simp add: bs)
  have u: "uint u = m" using bytes_bdigit_val [of bs] w by (simp add: u_def bs m)
  have m0: "0 \<le> m" "m < 2 ^ (8 * wordsize)" unfolding pow using bytes_val_less [of bs] by (simp_all add: m bs)
  have code: "unpack_single buf wordsize flags = integer_unpack_single_bdigit u wordsize flags"
    by (simp only: unpack_single_def Let_def u_def bs_def)
  have top: "drop_bit (wordsize * 8 - 1) u \<noteq> 0 \<longleftrightarrow> 8 * wordsize \<noteq> 0 \<and> 2 ^ (8 * wordsize - 1) \<le> m"
    using w by (simp add: drop_bit_nonzero u mult.commute)
  define d where "d = u OR push_bit (wordsize * 8) BDIGMAX"
  have d: "uint d = m + 4294967296 - 2 ^ (8 * wordsize)"
  proof (cases "wordsize = 4")
    case True
    then have "push_bit (wordsize * 8) BDIGMAX = 0" by (simp add: BDIGMAX_def)
    then show ?thesis using True by (simp add: d_def u)
  next
    case False
    then have "wordsize * 8 < 32" using w by simp
    then show ?thesis using uint_fill_high [of "wordsize * 8" u] m0(2) by (simp add: d_def u mult.commute)
  qed
  have comp: "fst (bary_2comp [d]) = [1 + NOT d]" "snd (bary_2comp [d]) \<longleftrightarrow> d = 0"
    by (cases "d = 0"; simp add: add.commute)+
  have d0: "d = 0 \<longleftrightarrow> wordsize = 4 \<and> u = 0"
  proof -
    have "d = 0 \<longleftrightarrow> m + 4294967296 = 2 ^ (8 * wordsize)" using d by (auto simp: uint_0_iff [symmetric])
    moreover have "wordsize \<noteq> 4 \<Longrightarrow> (2 :: int) ^ (8 * wordsize) \<le> 65536" using assms(2) by auto
    moreover have "u = 0 \<longleftrightarrow> m = 0" by (simp add: uint_0_iff flip: u)
    ultimately show ?thesis using m0(1) by (cases "wordsize = 4") auto
  qed
  have "unpack_single buf wordsize flags =
      (if PACK_2COMP flags
       then if PACK_NEGATIVE flags then (if snd (bary_2comp [d]) then - 2 else - 1, fst (bary_2comp [d]))
            else if drop_bit (wordsize * 8 - 1) u \<noteq> 0 then (- 1, fst (bary_2comp [d])) else (1, [u])
       else (if PACK_NEGATIVE flags then - 1 else 1, [u]))"
    unfolding code comp d0 by (simp add: integer_unpack_single_bdigit_def Let_def d_def)
  moreover have "bval [u] = m" "bval [d] = m + 4294967296 ^ 1 - 2 ^ (8 * wordsize)" using u d by simp_all
  moreover have "8 * wordsize \<le> 32 * 1" using w by simp
  ultimately show ?thesis unfolding m_def [symmetric]
    using unpack_choice [of "[u]" 1 m "[d]" "8 * wordsize", OF _ _ _ _ m0 _ top, of flags] by simp
qed

text \<open>The digits in their place: the permutations of reading undo those of writing.\<close>

lemma swap_bdigit_swap [simp]: "swap_bdigit (swap_bdigit d) = d"
proof -
  have "le_bytes 4 (uint (swap_bdigit (swap_bdigit d))) = le_bytes 4 (uint d)"
    using digit_bytes_swap [of "swap_bdigit d"] digit_bytes_swap [of d] by (simp flip: digit_bytes_eq)
  then have "uint (swap_bdigit (swap_bdigit d)) mod 256 ^ 4 = uint d mod 256 ^ 4" by (metis bytes_val_le_bytes)
  then show ?thesis using uint_digit [of d] uint_digit [of "swap_bdigit (swap_bdigit d)"] by (simp add: word_uint_eq_iff)
qed

lemma concat_map_rev_rev: "length xs = k * n \<Longrightarrow> swap_chunks k n (swap_chunks k n xs) = xs"
proof (induction k arbitrary: xs)
  case (Suc k)
  then have "length (rev (take n xs)) = n" "length (drop n xs) = k * n" by simp_all
  then show ?case using Suc.IH [of "drop n xs"] by (simp add: take_append drop_append)
qed simp

lemma length_swap_chunks [simp]: "length xs = k * n \<Longrightarrow> length (swap_chunks k n xs) = k * n"
  by (induction k arbitrary: xs) simp_all

lemma unpack_bdigits_spec:
  assumes "length buf = numwords * wordsize" "wordsize mod 4 = 0" "tot = 8 * wordsize * numwords"
  shows "unpack_bdigits buf numwords wordsize flags = None \<longleftrightarrow> PACK_2COMP flags \<and> \<not> PACK_NEGATIVE flags \<and> buf = []"
    "unpack_bdigits buf numwords wordsize flags = Some r \<Longrightarrow>
      unpack_result flags tot (buffer_val flags numwords wordsize 0 buf) (num_digits tot) r"
proof -
  define b where "b = wordsize div 4"
  define n where "n = numwords * b"
  define m where "m = buffer_val flags numwords wordsize 0 buf"
  have w: "wordsize = 4 * b" using assms(2) by (simp add: b_def) presburger
  have tot: "tot = 32 * n" by (simp add: assms(3) n_def w)
  have nd: "num_digits tot = n" by (simp add: num_digits_def tot)
  define xs where "xs = bytes_bdigits buf"
  have xs: "length xs = n" "bval xs = bytes_val buf" using bytes_bdigits_spec [of buf n] assms(1) by (simp_all add: xs_def n_def w)
  define ys where "ys = (if WORDORDER flags = MSWORD_FIRST then rev xs else xs)"
  define zs where "zs = (if (if WORDORDER flags = MSWORD_FIRST then BYTEORDER flags \<noteq> MSBYTE_FIRST else BYTEORDER flags = MSBYTE_FIRST)
    then swap_chunks numwords b ys else ys)"
  define ds where "ds = (if BYTEORDER flags = MSBYTE_FIRST then map swap_bdigit zs else zs)"
  have len: "length ys = numwords * b" "length zs = numwords * b" "length ds = numwords * b"
    using xs(1) by (simp_all add: ys_def zs_def ds_def n_def)
  have "(if BYTEORDER flags = MSBYTE_FIRST then map swap_bdigit ds else ds) = zs" by (simp add: ds_def comp_def)
  moreover have "(if (if WORDORDER flags = MSWORD_FIRST then BYTEORDER flags \<noteq> MSBYTE_FIRST else BYTEORDER flags = MSBYTE_FIRST)
      then swap_chunks numwords b zs else zs) = ys" using concat_map_rev_rev [OF len(1)] by (simp add: zs_def)
  moreover have "(if WORDORDER flags = MSWORD_FIRST then rev ys else ys) = xs" by (simp add: ys_def)
  ultimately have "concat (map digit_bytes xs) = pack_layout flags (chunk_words numwords (4 * b) (8 * (4 * b)) (bval ds))"
    using pack_digits_layout [OF len(3), of flags] by (simp only: Let_def)
  moreover have "concat (map digit_bytes xs) = buf"
  proof -
    have "concat (map digit_bytes xs) = le_bytes (length buf) (bytes_val buf)"
      unfolding digits_bytes_eq xs by (simp add: assms(1) n_def w mult.left_commute)
    moreover have "le_bytes (length bs) (bytes_val bs) = bs" for bs
    proof (induction bs)
      case (Cons c bs)
      have "(word_of_int (uint c + 256 * bytes_val bs) :: byte) = c"
        using uint_word_of_int_byte [of "uint c + 256 * bytes_val bs"] uint_bounded [of c] by (simp add: word_uint_eq_iff)
      moreover have "(uint c + 256 * bytes_val bs) div 256 = bytes_val bs" using uint_bounded [of c] by simp
      ultimately show ?case using Cons by simp
    qed simp
    ultimately show ?thesis by simp
  qed
  ultimately have "m = bval ds mod 2 ^ (8 * (4 * b) * numwords)"
    using words_val_chunk_words [of "8 * (4 * b)" "4 * b" numwords "bval ds"] by (simp add: m_def buffer_val_def w)
  moreover have "(2 :: int) ^ (8 * (4 * b) * numwords) = 4294967296 ^ n"
  proof -
    have "8 * (4 * b) * numwords = 32 * n" by (simp add: n_def)
    then show ?thesis by (simp only:) (simp add: power_mult)
  qed
  ultimately have val: "bval ds = m" using bval_less [of ds] len(3) by (simp add: n_def)
  have lenn: "length ds = n" by (simp add: len(3) n_def)
  have m0: "0 \<le> m" "m < 2 ^ tot" using bval_less [of ds] lenn by (simp_all add: tot power_mult flip: val)
  have nil: "ds = [] \<longleftrightarrow> buf = []" using lenn assms(1) by (auto simp: n_def w)
  have msb: "BDIGIT_MSB (ds ! (length ds - 1)) \<longleftrightarrow> tot \<noteq> 0 \<and> 2 ^ (tot - 1) \<le> m" if "ds \<noteq> []"
  proof (cases n)
    case 0
    then show ?thesis using that lenn by simp
  next
    case (Suc k)
    then show ?thesis using high_digit_bit [of ds k 31] lenn val by (simp add: BDIGIT_MSB_drop tot add.commute)
  qed
  have code: "unpack_bdigits buf numwords wordsize flags =
      (if PACK_2COMP flags \<and> \<not> PACK_NEGATIVE flags \<and> ds = [] then None
       else Some (if PACK_2COMP flags
         then if PACK_NEGATIVE flags then (if snd (bary_2comp ds) then - 2 else - 1, fst (bary_2comp ds))
              else if BDIGIT_MSB (ds ! (length ds - 1)) then (- 1, fst (bary_2comp ds)) else (1, ds)
         else (if PACK_NEGATIVE flags then - 1 else 1, ds)))"
    unfolding ds_def zs_def ys_def xs_def b_def
    by (simp add: unpack_bdigits_def Let_def case_prod_unfold del: length_0_conv)
  show "unpack_bdigits buf numwords wordsize flags = None \<longleftrightarrow> PACK_2COMP flags \<and> \<not> PACK_NEGATIVE flags \<and> buf = []"
    unfolding code nil [symmetric] by simp
  assume r: "unpack_bdigits buf numwords wordsize flags = Some r"
  then have cond: "\<not> (PACK_2COMP flags \<and> \<not> PACK_NEGATIVE flags \<and> ds = [])" unfolding code by (auto split: if_splits)
  have top: "PACK_2COMP flags \<Longrightarrow> \<not> PACK_NEGATIVE flags \<Longrightarrow> BDIGIT_MSB (ds ! (length ds - 1)) \<longleftrightarrow> tot \<noteq> 0 \<and> 2 ^ (tot - 1) \<le> m"
    using msb cond by blast
  have ones: "bval ds = m + 4294967296 ^ n - 2 ^ tot" by (simp add: val tot power_mult)
  have "tot \<le> 32 * n" by (simp add: tot)
  note c = unpack_choice [OF lenn val lenn ones m0 this top]
  have "r = (if PACK_2COMP flags
         then if PACK_NEGATIVE flags then (if snd (bary_2comp ds) then - 2 else - 1, fst (bary_2comp ds))
              else if BDIGIT_MSB (ds ! (length ds - 1)) then (- 1, fst (bary_2comp ds)) else (1, ds)
         else (if PACK_NEGATIVE flags then - 1 else 1, ds))"
    using r unfolding code if_not_P [OF cond] option.inject by (rule sym)
  then show "unpack_result flags tot (buffer_val flags numwords wordsize 0 buf) (num_digits tot) r"
    unfolding nd m_def [symmetric] using c by (simp only:)
qed

section \<open>All of it\<close>

text \<open>When the byte or digit before the first is read: there is no word, and its sign is looked for.\<close>

definition reads_before :: "nat \<Rightarrow> nat \<Rightarrow> nat \<Rightarrow> pack_flags \<Rightarrow> bool" where
  "reads_before numwords wordsize nails flags \<longleftrightarrow>
    numwords = 0 \<and> nails = 0 \<and> PACK_2COMP flags \<and> \<not> PACK_NEGATIVE flags \<and> \<not> FORCE_GENERIC flags \<and>
    (WORDORDER flags = LSWORD_FIRST \<and> BYTEORDER flags \<noteq> MSBYTE_FIRST \<or> wordsize mod 4 = 0)"

lemma bary_unpack_internal_spec:
  assumes "\<not> wordsize \<le> nails div 8" "length buf = numwords * wordsize" "tot = word_bits wordsize nails * numwords"
  shows "reads_before numwords wordsize nails flags \<Longrightarrow>
      bary_unpack_internal addr (num_digits tot) buf numwords wordsize nails flags (32 * num_digits tot - tot) = None"
    "\<not> reads_before numwords wordsize nails flags \<Longrightarrow>
      \<exists>r. bary_unpack_internal addr (num_digits tot) buf numwords wordsize nails flags (32 * num_digits tot - tot) = Some r \<and>
        unpack_result flags tot (buffer_val flags numwords wordsize nails buf) (num_digits tot) r"
proof -
  let ?un = "bary_unpack_internal addr (num_digits tot) buf numwords wordsize nails flags (32 * num_digits tot - tot)"
  let ?ok = "\<lambda>o'. \<exists>r. o' = Some r \<and> unpack_result flags tot (buffer_val flags numwords wordsize nails buf) (num_digits tot) r"
  let ?single = "nails = 0 \<and> numwords = 1 \<and> (wordsize = 1 \<or> wordsize = 2 \<and> addr mod 2 = 0 \<or> wordsize = 4 \<and> addr mod 4 = 0)"
  let ?bytes = "nails = 0 \<and> WORDORDER flags = LSWORD_FIRST \<and> BYTEORDER flags \<noteq> MSBYTE_FIRST"
  let ?digits = "nails = 0 \<and> wordsize mod 4 = 0"
  have nil: "buf = [] \<longleftrightarrow> numwords = 0" using assms(1,2) by auto
  have g: "?ok (Some (unpack_generic (num_digits tot) buf numwords wordsize nails flags (32 * num_digits tot - tot)))"
    using unpack_generic_spec [OF assms, of flags] by blast
  have tot0: "tot = 8 * wordsize * numwords" if "nails = 0" using that assms(3) by simp
  have s1: "?ok (Some (unpack_single buf wordsize flags))" if "?single"
  proof -
    have "wordsize = 1 \<or> wordsize = 2 \<or> wordsize = 4" "length buf = wordsize" using that assms(2) by auto
    moreover have "num_digits (8 * wordsize) = 1" using \<open>wordsize = 1 \<or> _\<close> by (auto simp: num_digits_def)
    ultimately show ?thesis using unpack_single_spec [of buf wordsize flags] that assms(3) by simp
  qed
  have s2: "if PACK_2COMP flags \<and> \<not> PACK_NEGATIVE flags \<and> numwords = 0 then unpack_bytes (num_digits tot) buf flags = None
      else ?ok (unpack_bytes (num_digits tot) buf flags)" if b: ?bytes
    using unpack_bytes_spec [OF assms(2) _ _ tot0, of flags] b nil by (cases "unpack_bytes (num_digits tot) buf flags") auto
  have s3: "if PACK_2COMP flags \<and> \<not> PACK_NEGATIVE flags \<and> numwords = 0 then unpack_bdigits buf numwords wordsize flags = None
      else ?ok (unpack_bdigits buf numwords wordsize flags)" if b: ?digits
    using unpack_bdigits_spec [OF assms(2) _ tot0, of flags] b nil by (cases "unpack_bdigits buf numwords wordsize flags") auto
  have "if reads_before numwords wordsize nails flags then ?un = None else ?ok ?un"
  proof (cases "FORCE_GENERIC flags")
    case True
    then show ?thesis using g by (simp add: bary_unpack_internal_def reads_before_def)
  next
    case generic: False
    show ?thesis
    proof (cases ?single)
      case True
      then have "?un = Some (unpack_single buf wordsize flags)" "\<not> reads_before numwords wordsize nails flags"
        using generic by (auto simp: bary_unpack_internal_def reads_before_def)
      then show ?thesis using s1 [OF True] by simp
    next
      case single: False
      show ?thesis
      proof (cases ?bytes)
        case True
        have "?un = unpack_bytes (num_digits tot) buf flags"
          unfolding bary_unpack_internal_def if_not_P [OF generic] if_not_P [OF single] if_P [OF True] ..
        moreover have "reads_before numwords wordsize nails flags \<longleftrightarrow> PACK_2COMP flags \<and> \<not> PACK_NEGATIVE flags \<and> numwords = 0"
          using True generic by (auto simp: reads_before_def)
        ultimately show ?thesis using s2 [OF True] by (simp only:)
      next
        case bytes: False
        show ?thesis
        proof (cases ?digits)
          case True
          have "?un = unpack_bdigits buf numwords wordsize flags"
            unfolding bary_unpack_internal_def if_not_P [OF generic] if_not_P [OF single] if_not_P [OF bytes] if_P [OF True] ..
          moreover have "reads_before numwords wordsize nails flags \<longleftrightarrow> PACK_2COMP flags \<and> \<not> PACK_NEGATIVE flags \<and> numwords = 0"
            using True generic by (auto simp: reads_before_def)
          ultimately show ?thesis using s3 [OF True] by (simp only:)
        next
          case False
          have "?un = Some (unpack_generic (num_digits tot) buf numwords wordsize nails flags (32 * num_digits tot - tot))"
            unfolding bary_unpack_internal_def if_not_P [OF generic] if_not_P [OF single] if_not_P [OF bytes] if_not_P [OF False] ..
          moreover have "\<not> reads_before numwords wordsize nails flags" using False bytes by (auto simp: reads_before_def)
          ultimately show ?thesis using g by (simp only: if_False)
        qed
      qed
    qed
  qed
  then show "reads_before numwords wordsize nails flags \<Longrightarrow> ?un = None" "\<not> reads_before numwords wordsize nails flags \<Longrightarrow> ?ok ?un"
    by simp_all
qed

lemma unpack_fixbuf_spec:
  assumes "length fixbuf = 2" "bval (take n fixbuf) = bval fixbuf" "sign \<noteq> 0"
  shows "is_int (if 0 < sign then bval fixbuf else - bval fixbuf) (unpack_fixbuf sign n fixbuf)"
proof -
  obtain a b where ab: "fixbuf = [a, b]" using assms(1) by (auto simp: length_Suc_conv numeral_eq_Suc)
  define u where "u = (ucast a + BIGUP (ucast b) :: 64 word)"
  have "uint u = (uint a + uint b * 4294967296) mod 18446744073709551616" by (simp add: u_def uint_word_ariths uint_BIGUP)
  moreover have "uint a + uint b * 4294967296 < 18446744073709551616" using uint_digit(3) [of a] uint_digit(3) [of b] by linarith
  ultimately have u: "uint u = bval fixbuf" by (simp add: ab mult.commute)
  have u0: "u = 0 \<longleftrightarrow> bval fixbuf = 0" by (simp add: uint_0_iff flip: u)
  have msb: "\<not> BDIGIT_MSB (fixbuf ! 1) \<longleftrightarrow> bval fixbuf < 9223372036854775808"
    using high_digit_bit [of fixbuf 1 31] assms(1) by (auto simp: BDIGIT_MSB_drop)
  have code: "unpack_fixbuf sign n fixbuf =
      (if u = 0 then Fixnum (LONG2FIX 0)
       else if 0 < sign \<and> POSFIXABLE u then Fixnum (LONG2FIX u)
       else if sign < 0 \<and> \<not> BDIGIT_MSB (fixbuf ! 1) \<and> FIXNUM_MIN \<le>s - u then Fixnum (LONG2FIX (- u))
       else bignorm (Bignum (bignew (take n fixbuf) (0 \<le> sign))))"
    unfolding unpack_fixbuf_def Let_def u_def by (simp only: ab nth_Cons_0 nth_Cons_Suc One_nat_def)
  consider "u = 0" | "u \<noteq> 0" "0 < sign" "POSFIXABLE u" | "u \<noteq> 0" "sign < 0" "\<not> BDIGIT_MSB (fixbuf ! 1)" "FIXNUM_MIN \<le>s - u"
    | "unpack_fixbuf sign n fixbuf = bignorm (Bignum (bignew (take n fixbuf) (0 \<le> sign)))"
    using code by (metis (no_types))
  then show ?thesis
  proof cases
    case 1
    then have "unpack_fixbuf sign n fixbuf = Fixnum (LONG2FIX 0)" unfolding code by simp
    then show ?thesis using 1 u0 ival_LONG2FIX [of 0] by (simp add: is_int_def fixable_def)
  next
    case 2
    then have less: "uint u < 4611686018427387904" by (simp add: POSFIXABLE_iff)
    then have "sint u = uint u" by (simp add: sint_of_uint)
    moreover have "unpack_fixbuf sign n fixbuf = Fixnum (LONG2FIX u)" unfolding code using 2 by simp
    moreover have "fixable (uint u)" using less uint_ge_0 [of u] unfolding fixable_def by linarith
    ultimately show ?thesis using ival_LONG2FIX [of u] 2 by (simp add: is_int_def u del: ival.simps)
  next
    case 3
    then have "uint u < 9223372036854775808" using msb u by simp
    then have su: "sint u = uint u" by (rule sint_of_uint)
    then have mu: "sint (- u) = - uint u" using sint_sub_fits [of 0 u] \<open>uint u < _\<close> uint_ge_0 [of u] by simp
    moreover have "- 4611686018427387904 \<le> - uint u" using 3(4) mu by (simp add: word_sle_eq FIXNUM_MIN_def)
    moreover have "unpack_fixbuf sign n fixbuf = Fixnum (LONG2FIX (- u))" unfolding code using 3 by simp
    moreover from calculation(2) have "fixable (- uint u)" using uint_ge_0 [of u] unfolding fixable_def by linarith
    ultimately show ?thesis using ival_LONG2FIX [of "- u"] 3 by (simp add: is_int_def u del: ival.simps)
  next
    case 4
    have "ival (bignorm (Bignum (bignew (take n fixbuf) (0 \<le> sign)))) = (if 0 \<le> sign then bval fixbuf else - bval fixbuf)"
      by (simp add: ival_bignorm assms(2))
    moreover have "0 \<le> sign \<longleftrightarrow> 0 < sign" using assms(3) by linarith
    ultimately show ?thesis using 4 by (simp add: is_int_def)
  qed
qed

text \<open>The number read.\<close>

definition unpack_ref :: "pack_flags \<Rightarrow> nat \<Rightarrow> nat \<Rightarrow> nat \<Rightarrow> byte list \<Rightarrow> int" where
  "unpack_ref flags numwords wordsize nails buf =
    unpack_number flags (word_bits wordsize nails * numwords) (buffer_val flags numwords wordsize nails buf)"

lemma bigval_set_sign: "bigval (x\<lparr>BIGNUM_SIGN := s\<rparr>) = (if s then bval (BDIGITS x) else - bval (BDIGITS x))"
  by (simp add: bigval_def)

lemma rb_integer_unpack_is:
  assumes "length buf = numwords * wordsize" "nails < 18446744073709551616"
  shows "\<not> validate_integer_pack_format numwords wordsize nails flags True \<Longrightarrow>
      rb_integer_unpack addr buf numwords wordsize nails flags = Inl UnpackArgumentError"
    "validate_integer_pack_format numwords wordsize nails flags True \<Longrightarrow> reads_before numwords wordsize nails flags \<Longrightarrow>
      rb_integer_unpack addr buf numwords wordsize nails flags = Inl ReadBeforeBuffer"
    "validate_integer_pack_format numwords wordsize nails flags True \<Longrightarrow> \<not> reads_before numwords wordsize nails flags \<Longrightarrow>
      \<exists>x. rb_integer_unpack addr buf numwords wordsize nails flags = Inr x \<and> ival x = unpack_ref flags numwords wordsize nails buf \<and>
        (if FORCE_BIGNUM flags then \<exists>b. x = Bignum b else normal x)"
proof -
  show "\<not> validate_integer_pack_format numwords wordsize nails flags True \<Longrightarrow>
      rb_integer_unpack addr buf numwords wordsize nails flags = Inl UnpackArgumentError"
    by (simp add: rb_integer_unpack_def)
  assume valid: "validate_integer_pack_format numwords wordsize nails flags True"
  define tot where "tot = word_bits wordsize nails * numwords"
  define n where "n = num_digits tot"
  obtain k l where kl: "integer_unpack_num_bdigits (of_nat numwords) (of_nat wordsize) (of_nat nails) = (k, l)" by (meson surj_pair)
  have k: "unat k = n" "l = 32 * n - tot" "n \<le> 4611686018427387904"
    using integer_unpack_num_bdigits_spec [OF valid assms(2)] unfolding kl by (simp_all add: n_def tot_def)
  have "\<not> 9223372036854775807 - 1 < k" using k(1,3) by (simp add: word_less_nat_alt)
  moreover have k2: "k \<le> 2 \<longleftrightarrow> n \<le> 2" using k(1) by (simp add: word_le_nat_alt)
  ultimately have code: "rb_integer_unpack addr buf numwords wordsize nails flags =
      (case bary_unpack_internal addr n buf numwords wordsize nails flags (32 * n - tot) of
          None \<Rightarrow> Inl ReadBeforeBuffer
        | Some (sign, ds) \<Rightarrow>
            if n \<le> 2 \<and> \<not> FORCE_BIGNUM flags
            then let fixbuf = ds @ replicate (2 - length ds) 0
                 in if sign = - 2
                    then if n = 2 then Inr (bignorm (Bignum (bignew (ds @ [1]) (0 \<le> sign))))
                         else Inr (unpack_fixbuf sign (n + 1) (fixbuf[n := 1]))
                    else Inr (unpack_fixbuf sign n fixbuf)
            else let val = bignew ds False; val = (if sign = - 2 then big_extend_carry val else val);
                     sign = (if FORCE_BIGNUM flags \<and> sign \<noteq> 0 \<and> bary_zero_p (BDIGITS val) (BIGNUM_LEN val) then 0 else sign);
                     val = val\<lparr>BIGNUM_SIGN := 0 \<le> sign\<rparr>
                 in Inr (if FORCE_BIGNUM flags then Bignum (bigtrunc val) else bignorm (Bignum val)))"
    using valid by (simp only: rb_integer_unpack_def kl k(1,2) Let_def case_prod_conv not_True_eq_False if_False)
  have "\<not> wordsize \<le> nails div 8" using valid by (simp add: validate_integer_pack_format_def)
  note inner = bary_unpack_internal_spec [OF this assms(1) tot_def, of flags addr, folded n_def]
  show "reads_before numwords wordsize nails flags \<Longrightarrow> rb_integer_unpack addr buf numwords wordsize nails flags = Inl ReadBeforeBuffer"
    unfolding code by (simp add: inner(1))
  assume "\<not> reads_before numwords wordsize nails flags"
  from inner(2) [OF this] obtain sign ds where r: "bary_unpack_internal addr n buf numwords wordsize nails flags (32 * n - tot) = Some (sign, ds)"
      "unpack_result flags tot (buffer_val flags numwords wordsize nails buf) n (sign, ds)" by auto
  define v where "v = unpack_ref flags numwords wordsize nails buf"
  have res: "v = (if sign = - 2 then - (4294967296 ^ n) else if 0 \<le> sign then bval ds else - bval ds)"
      "length ds = n" "sign = - 2 \<or> sign = - 1 \<or> sign = 1" "sign = - 2 \<Longrightarrow> bval ds = 0"
    using r(2) by (auto simp: unpack_result_def v_def unpack_ref_def tot_def)
  have "\<exists>x. rb_integer_unpack addr buf numwords wordsize nails flags = Inr x \<and> ival x = v \<and> (if FORCE_BIGNUM flags then \<exists>b. x = Bignum b else normal x)"
  proof (cases "n \<le> 2 \<and> \<not> FORCE_BIGNUM flags")
    case True
    define fixbuf where "fixbuf = ds @ replicate (2 - length ds) 0"
    have f: "length fixbuf = 2" "bval fixbuf = bval ds" "bval (take n fixbuf) = bval fixbuf"
      using True res(2) by (simp_all add: fixbuf_def bval_append)
    show ?thesis
    proof (cases "sign = - 2")
      case neg: True
      show ?thesis
      proof (cases "n = 2")
        case True
        then have "rb_integer_unpack addr buf numwords wordsize nails flags = Inr (bignorm (Bignum (bignew (ds @ [1]) False)))"
          unfolding code r(1) using neg \<open>n \<le> 2 \<and> _\<close> by simp
        moreover have "ival (bignorm (Bignum (bignew (ds @ [1]) False))) = v"
          using res neg by (simp add: ival_bignorm bval_append)
        ultimately show ?thesis using \<open>n \<le> 2 \<and> _\<close> by simp
      next
        case False
        then have n2: "n < 2" using True by simp
        define fb where "fb = fixbuf[n := 1]"
        have "fb = ds @ [1] @ replicate (1 - n) 0"
          using n2 res(2) by (cases n) (simp_all add: fb_def fixbuf_def list_update_append numeral_2_eq_2)
        then have fb: "length fb = 2" "bval fb = 4294967296 ^ n" "bval (take (n + 1) fb) = bval fb"
          using n2 res(2,4) neg by (simp_all add: bval_append)
        have "rb_integer_unpack addr buf numwords wordsize nails flags = Inr (unpack_fixbuf sign (n + 1) fb)"
          unfolding code r(1) using neg True False by (simp add: fb_def fixbuf_def Let_def)
        moreover have "is_int v (unpack_fixbuf sign (n + 1) fb)"
          using unpack_fixbuf_spec [OF fb(1,3), of sign] neg res(1) fb(2) by simp
        ultimately show ?thesis using True by (simp add: is_int_def)
      qed
    next
      case False
      then have "rb_integer_unpack addr buf numwords wordsize nails flags = Inr (unpack_fixbuf sign n fixbuf)"
        unfolding code r(1) using True by (simp add: fixbuf_def Let_def)
      moreover have "is_int v (unpack_fixbuf sign n fixbuf)"
        using unpack_fixbuf_spec [OF f(1,3), of sign] res f(2) False by auto
      ultimately show ?thesis using True by (simp add: is_int_def)
    qed
  next
    case False
    define val where "val = (if sign = - 2 then big_extend_carry (bignew ds False) else bignew ds False)"
    define sg where "sg = (if FORCE_BIGNUM flags \<and> sign \<noteq> 0 \<and> bary_zero_p (BDIGITS val) (BIGNUM_LEN val) then 0 else sign)"
    have digits: "bval (BDIGITS val) = (if sign = - 2 then 4294967296 ^ n else bval ds)"
      using res by (simp add: val_def big_extend_carry_def bignew_def bval_append)
    have "bary_zero_p (BDIGITS val) (BIGNUM_LEN val) \<Longrightarrow> bval (BDIGITS val) = 0" by (simp add: bary_zero_p_iff)
    then have "bigval (val\<lparr>BIGNUM_SIGN := 0 \<le> sg\<rparr>) = v" using res(1,3) digits by (auto simp: bigval_set_sign sg_def)
    moreover have "rb_integer_unpack addr buf numwords wordsize nails flags =
        Inr (if FORCE_BIGNUM flags then Bignum (bigtrunc (val\<lparr>BIGNUM_SIGN := 0 \<le> sg\<rparr>)) else bignorm (Bignum (val\<lparr>BIGNUM_SIGN := 0 \<le> sg\<rparr>)))"
      unfolding code r(1) val_def sg_def Let_def using False by auto
    ultimately show ?thesis by (simp add: bigtrunc_spec ival_bignorm)
  qed
  then show "\<exists>x. rb_integer_unpack addr buf numwords wordsize nails flags = Inr x \<and> ival x = unpack_ref flags numwords wordsize nails buf \<and>
        (if FORCE_BIGNUM flags then \<exists>b. x = Bignum b else normal x)" by (simp only: v_def)
qed

section \<open>A buffer that was written\<close>

lemma length_concat_same: "\<forall>w \<in> set ws. length w = k \<Longrightarrow> length (concat ws) = length ws * k"
  by (induction ws) simp_all

lemma length_pack_layout: "\<forall>w \<in> set ws. length w = k \<Longrightarrow> length (pack_layout flags ws) = length ws * k"
  by (cases "BYTEORDER flags = MSBYTE_FIRST"; cases "WORDORDER flags = MSWORD_FIRST")
    (simp_all add: pack_layout_def length_concat_same [of _ k])

lemma word_bits_le: "word_bits wordsize nails \<le> 8 * wordsize"
  by (simp add: word_bits_def)

lemma pack_ref_buffer:
  assumes "pack_ref flags numwords wordsize nails v = (s, buf)"
  shows "length buf = numwords * wordsize" "s = pack_sign (PACK_2COMP flags) (2 ^ (word_bits wordsize nails * numwords)) v"
    "buffer_val flags numwords wordsize nails buf = pack_number flags v mod 2 ^ (word_bits wordsize nails * numwords)"
proof -
  have b: "buf = pack_layout flags (chunk_words numwords wordsize (word_bits wordsize nails) (pack_number flags v))"
    and "s = pack_sign (PACK_2COMP flags) (2 ^ (word_bits wordsize nails * numwords)) v"
    using assms by (simp_all add: pack_ref_def)
  then show "s = pack_sign (PACK_2COMP flags) (2 ^ (word_bits wordsize nails * numwords)) v" by simp
  show "length buf = numwords * wordsize"
    unfolding b using length_chunk by (subst length_pack_layout [of _ wordsize]) auto
  show "buffer_val flags numwords wordsize nails buf = pack_number flags v mod 2 ^ (word_bits wordsize nails * numwords)"
    unfolding buffer_val_def b buffer_words_chunk_words by (rule words_val_chunk_words [OF word_bits_le])
qed

lemma buffer_words_flags: "WORDORDER f = WORDORDER g \<Longrightarrow> BYTEORDER f = BYTEORDER g \<Longrightarrow> buffer_val f = buffer_val g"
  by (simp add: buffer_val_def buffer_words_def fun_eq_iff)

end
