(* ===== verification/Pack_Properties.thy ===== *)
theory Pack_Properties
  imports Big_Unpack_Spec
begin

text \<open>
  Properties of writing integers into buffers of words and reading them from there.
\<close>

section \<open>Writing\<close>

text \<open>C34: \<open>rb_integer_pack\<close> fills the buffer with the low bits of the integer, of its magnitude without the
  flag for the two's complement, and its result tells the sign and whether all bits are there; an ill-formed
  request is refused.
\<close>

theorem integer_pack_writes:
  "case rb_integer_pack addr val numwords wordsize nails flags of
     Inl e \<Rightarrow> \<not> validate_integer_pack_format numwords wordsize nails flags False
   | Inr (s, buf) \<Rightarrow> validate_integer_pack_format numwords wordsize nails flags False \<and> length buf = numwords * wordsize \<and>
       (let lim = 2 ^ (word_bits wordsize nails * numwords); v = ival val
        in buffer_val flags numwords wordsize nails buf = (if PACK_2COMP flags then v else \<bar>v\<bar>) mod lim \<and>
           s = (if v = 0 then 0 else if 0 < v then (if v < lim then 1 else 2)
                else if PACK_2COMP flags \<and> - lim \<le> v \<or> - lim < v then - 1 else - 2))"
proof (cases "validate_integer_pack_format numwords wordsize nails flags False")
  case True
  obtain s buf where p: "pack_ref flags numwords wordsize nails (ival val) = (s, buf)" by (meson surj_pair)
  note r = pack_ref_buffer [OF p]
  show ?thesis using True r by (auto simp: rb_integer_pack_is p Let_def pack_sign_def pack_number_def)
qed (simp add: rb_integer_pack_is)

text \<open>C35: which of its ways \<open>rb_integer_pack\<close> takes does not matter: neither the address of the buffer nor the
  flag that forces the generic way changes what is written or returned.
\<close>

theorem integer_pack_ways_agree:
  "rb_integer_pack addr val numwords wordsize nails flags =
    rb_integer_pack addr' val numwords wordsize nails (flags\<lparr>FORCE_GENERIC := True\<rparr>)"
  by (simp add: rb_integer_pack_is validate_integer_pack_format_def pack_ref_def pack_layout_def pack_number_def)

section \<open>Reading\<close>

text \<open>C36: \<open>rb_integer_unpack\<close> refuses an ill-formed request; it reads before the buffer when there is no word and
  a fast way looks for the sign; else it gives the number in the buffer, taken as the flags say.
\<close>

theorem integer_unpack_reads:
  assumes "length buf = numwords * wordsize" "nails < 18446744073709551616"
  shows "case rb_integer_unpack addr buf numwords wordsize nails flags of
      Inl UnpackArgumentError \<Rightarrow> \<not> validate_integer_pack_format numwords wordsize nails flags True
    | Inl ReadBeforeBuffer \<Rightarrow> validate_integer_pack_format numwords wordsize nails flags True \<and> reads_before numwords wordsize nails flags
    | Inr x \<Rightarrow>
        validate_integer_pack_format numwords wordsize nails flags True \<and> \<not> reads_before numwords wordsize nails flags \<and>
        (let tot = word_bits wordsize nails * numwords; m = buffer_val flags numwords wordsize nails buf
         in ival x = (if \<not> PACK_2COMP flags then (if PACK_NEGATIVE flags then - m else m)
                      else if PACK_NEGATIVE flags \<or> tot \<noteq> 0 \<and> 2 ^ (tot - 1) \<le> m then m - 2 ^ tot else m)) \<and>
        (\<not> FORCE_BIGNUM flags \<longrightarrow> normal x)"
proof (cases "validate_integer_pack_format numwords wordsize nails flags True")
  case valid: True
  show ?thesis
  proof (cases "reads_before numwords wordsize nails flags")
    case True
    then show ?thesis using rb_integer_unpack_is(2) [OF assms valid True, of addr] valid by simp
  next
    case False
    obtain x where "rb_integer_unpack addr buf numwords wordsize nails flags = Inr x" "ival x = unpack_ref flags numwords wordsize nails buf"
        "if FORCE_BIGNUM flags then \<exists>b. x = Bignum b else normal x"
      using rb_integer_unpack_is(3) [OF assms valid False, of addr] by blast
    then show ?thesis using valid False by (simp add: unpack_ref_def unpack_number_def Let_def split: if_splits)
  qed
qed (simp add: rb_integer_unpack_is(1) [OF assms])

section \<open>There and back\<close>

text \<open>C37: an integer written without overflow is read back unchanged, when the reader is told that it is
  negative; whichever ways the two take.
\<close>

theorem integer_pack_roundtrip:
  assumes "rb_integer_pack addr val numwords wordsize nails flags = Inr (s, buf)" "s \<in> {- 1, 0, 1}"
    "normal val" "nails < 18446744073709551616"
  shows "rb_integer_unpack addr' buf numwords wordsize nails
    (flags\<lparr>PACK_NEGATIVE := ival val < 0, PACK_2COMP := PACK_2COMP flags \<and> ival val < 0, FORCE_GENERIC := generic\<rparr>) = Inr val"
proof -
  define flags' where "flags' = flags\<lparr>PACK_NEGATIVE := ival val < 0, PACK_2COMP := PACK_2COMP flags \<and> ival val < 0, FORCE_GENERIC := generic\<rparr>"
  define lim where "lim = (2 :: int) ^ (word_bits wordsize nails * numwords)"
  have valid: "validate_integer_pack_format numwords wordsize nails flags False"
    and p: "pack_ref flags numwords wordsize nails (ival val) = (s, buf)"
    using assms(1) by (simp_all add: rb_integer_pack_is split: if_splits)
  note r = pack_ref_buffer [OF p, folded lim_def]
  have valid': "validate_integer_pack_format numwords wordsize nails flags' True"
    using valid by (simp add: validate_integer_pack_format_def flags'_def)
  have before: "\<not> reads_before numwords wordsize nails flags'" by (simp add: reads_before_def flags'_def)
  obtain x where x: "rb_integer_unpack addr' buf numwords wordsize nails flags' = Inr x" "ival x = unpack_ref flags' numwords wordsize nails buf"
      "if FORCE_BIGNUM flags' then \<exists>b. x = Bignum b else normal x"
    using rb_integer_unpack_is(3) [OF r(1) assms(4) valid' before, of addr'] by blast
  have "\<not> FORCE_BIGNUM flags'" using valid by (simp add: validate_integer_pack_format_def flags'_def)
  then have "normal x" using x(3) by simp
  have m: "buffer_val flags' numwords wordsize nails buf = (if PACK_2COMP flags then ival val else \<bar>ival val\<bar>) mod lim"
    using r(3) buffer_words_flags [of flags' flags] by (simp add: flags'_def pack_number_def)
  have "ival x = ival val"
  proof (cases "ival val < 0")
    case False
    then have "ival val < lim" using assms(2) r(2) by (auto simp: pack_sign_def lim_def split: if_splits)
    then show ?thesis using False m by (simp add: x(2) unpack_ref_def unpack_number_def flags'_def)
  next
    case neg: True
    show ?thesis
    proof (cases "PACK_2COMP flags")
      case True
      then have "- ival val \<le> lim" using assms(2) r(2) neg by (auto simp: pack_sign_def split: if_splits)
      then have "(ival val + lim) mod lim = ival val + lim" using neg by (intro mod_pos_pos_trivial) simp_all
      then have "ival val mod lim = ival val + lim" by simp
      then show ?thesis using True neg m by (simp add: x(2) unpack_ref_def unpack_number_def flags'_def lim_def)
    next
      case False
      then have "- ival val < lim" using assms(2) r(2) neg by (auto simp: pack_sign_def split: if_splits)
      then show ?thesis using False neg m by (simp add: x(2) unpack_ref_def unpack_number_def flags'_def)
    qed
  qed
  then show ?thesis using normal_unique \<open>normal x\<close> assms(3) x(1) unfolding flags'_def by blast
qed

text \<open>
  An integer that fits into the words as a two's complement number with its sign is read back by the
  same flags, without being told its sign.
\<close>

theorem integer_pack_signed_roundtrip:
  assumes "rb_integer_pack addr val numwords wordsize nails flags = Inr (s, buf)" "PACK_2COMP flags" "0 < numwords"
    "tot = word_bits wordsize nails * numwords" "- (2 ^ (tot - 1)) \<le> ival val" "ival val < 2 ^ (tot - 1)"
    "normal val" "nails < 18446744073709551616"
  shows "rb_integer_unpack addr' buf numwords wordsize nails flags = Inr val"
proof -
  have valid: "validate_integer_pack_format numwords wordsize nails flags False"
    and p: "pack_ref flags numwords wordsize nails (ival val) = (s, buf)"
    using assms(1) by (simp_all add: rb_integer_pack_is split: if_splits)
  note r = pack_ref_buffer [OF p, folded assms(4)]
  have valid': "validate_integer_pack_format numwords wordsize nails flags True"
    using valid by (simp add: validate_integer_pack_format_def)
  have before: "\<not> reads_before numwords wordsize nails flags" using assms(3) by (simp add: reads_before_def)
  obtain x where x: "rb_integer_unpack addr' buf numwords wordsize nails flags = Inr x" "ival x = unpack_ref flags numwords wordsize nails buf"
      "if FORCE_BIGNUM flags then \<exists>b. x = Bignum b else normal x"
    using rb_integer_unpack_is(3) [OF r(1) assms(8) valid' before, of addr'] by blast
  have f: "\<not> FORCE_BIGNUM flags" "\<not> PACK_NEGATIVE flags" using valid by (simp_all add: validate_integer_pack_format_def)
  have "\<not> wordsize \<le> nails div 8" using valid by (simp add: validate_integer_pack_format_def)
  then have "word_bits wordsize nails \<noteq> 0" unfolding word_bits_def by linarith
  then have "tot \<noteq> 0" using assms(3,4) by simp
  then obtain k where k: "tot = Suc k" by (cases tot) simp_all
  have m: "buffer_val flags numwords wordsize nails buf = ival val mod 2 ^ tot" using r(3) assms(2) by (simp add: pack_number_def)
  have "ival x = ival val"
  proof (cases "ival val < 0")
    case True
    then have "(ival val + 2 ^ tot) mod 2 ^ tot = ival val + 2 ^ tot" using assms(5) k by (intro mod_pos_pos_trivial) simp_all
    then have "ival val mod 2 ^ tot = ival val + 2 ^ tot" by simp
    moreover have "2 ^ (tot - 1) \<le> ival val + 2 ^ tot" using assms(5) k by simp
    ultimately show ?thesis using m k assms(2) f(2) unfolding x(2) unpack_ref_def unpack_number_def assms(4) [symmetric] by simp
  next
    case False
    then have "ival val mod 2 ^ tot = ival val" using assms(6) k by (intro mod_pos_pos_trivial) simp_all
    then show ?thesis using m k assms(2,6) f(2) unfolding x(2) unpack_ref_def unpack_number_def assms(4) [symmetric] by simp
  qed
  then show ?thesis using normal_unique x f(1) assms(7) by auto
qed

definition example_flags :: "word_order \<Rightarrow> byte_order \<Rightarrow> bool \<Rightarrow> bool \<Rightarrow> pack_flags" where
  "example_flags wo bo twos neg = \<lparr>WORDORDER = wo, BYTEORDER = bo, PACK_2COMP = twos, FORCE_BIGNUM = False, PACK_NEGATIVE = neg, FORCE_GENERIC = False\<rparr>"

lemma ival_example: "ival (Fixnum (LONG2FIX (- 300))) = - 300"
proof -
  have "sint (- 300 :: long) = - 300" by simp
  then show ?thesis using ival_LONG2FIX [of "- 300"] by (simp add: fixable_def del: ival.simps)
qed

text \<open>The integer -300 in two bytes, the high one first.\<close>

lemma example_pack:
  "rb_integer_pack 0 (Fixnum (LONG2FIX (- 300))) 2 1 0 (example_flags MSWORD_FIRST MSBYTE_FIRST True False) = Inr (- 1, [0xfe, 0xd4])"
  unfolding rb_integer_pack_is ival_example
  by (simp add: pack_ref_def pack_sign_def pack_layout_def word_bits_def pack_number_def example_flags_def numeral_2_eq_2
    validate_integer_pack_format_def)

lemma example_words: "buffer_words (example_flags MSWORD_FIRST MSBYTE_FIRST True False) 2 1 [0xfe, 0xd4] = [[0xd4], [0xfe]]"
  by (simp add: buffer_words_def example_flags_def numeral_2_eq_2)

theorem integer_unpack_reads_witness:
  "case rb_integer_unpack 0 [0xfe, 0xd4] 2 1 0 (example_flags MSWORD_FIRST MSBYTE_FIRST True False) of
     Inl _ \<Rightarrow> False | Inr x \<Rightarrow> ival x = - 300 \<and> normal x"
  using integer_unpack_reads [of "[0xfe, 0xd4]" 2 1 0 "example_flags MSWORD_FIRST MSBYTE_FIRST True False" 0]
  unfolding buffer_val_def example_words
  by (simp add: example_flags_def reads_before_def validate_integer_pack_format_def word_bits_def Let_def
    split: sum.splits unpack_failure.splits)

theorem integer_pack_roundtrip_witness:
  "rb_integer_unpack 0 [0xfe, 0xd4] 2 1 0 (example_flags MSWORD_FIRST MSBYTE_FIRST True True) = Inr (Fixnum (LONG2FIX (- 300)))"
  using integer_pack_roundtrip [OF example_pack, of 0 False] ival_example
  by (simp add: example_flags_def del: ival.simps)

theorem integer_pack_signed_roundtrip_witness:
  "rb_integer_unpack 4 [0xfe, 0xd4] 2 1 0 (example_flags MSWORD_FIRST MSBYTE_FIRST True False) = Inr (Fixnum (LONG2FIX (- 300)))"
  using integer_pack_signed_roundtrip [OF example_pack _ _ refl, of 4] ival_example
  by (simp add: example_flags_def word_bits_def del: ival.simps)

end
