(* ===== verification/Big_Alloc.thy ===== *)
theory Big_Alloc
  imports Big
begin

text \<open>
  The allocation of a bignum (\<open>bignew_1\<close> in bignum.c, \<open>ruby_xmalloc2\<close> in gc.c) as far as it can raise: the
  product of the number of digits and their size has to fit into a \<open>size_t\<close>, and \<open>malloc\<close> has to find
  that many bytes, if need be after a garbage collection.  \<open>malloc\<close> is a parameter: for a number of bytes,
  whether they are found.  The digits themselves are those of the results the model computes.
\<close>

section \<open>The request\<close>

type_synonym allocator = "nat \<Rightarrow> bool"

datatype alloc_error = Integer_overflow | NoMemoryError

definition SIZE_MAX :: nat where "SIZE_MAX = 18446744073709551615"

definition size_mul_or_raise :: "nat \<Rightarrow> nat \<Rightarrow> alloc_error + nat" where
  "size_mul_or_raise x y = (if x * y \<le> SIZE_MAX then Inr (x * y) else Inl Integer_overflow)"

definition xmalloc2_size :: "nat \<Rightarrow> nat \<Rightarrow> alloc_error + nat" where
  "xmalloc2_size count elsize = size_mul_or_raise count elsize"

definition objspace_malloc_prepare :: "nat \<Rightarrow> nat" where
  "objspace_malloc_prepare siz = (if siz = 0 then 1 else siz)"

text \<open>What is raised, if anything is.\<close>

definition objspace_xmalloc0 :: "allocator \<Rightarrow> nat \<Rightarrow> alloc_error option" where
  "objspace_xmalloc0 malloc siz = (if malloc (objspace_malloc_prepare siz) then None else Some NoMemoryError)"

definition ruby_xmalloc2 :: "allocator \<Rightarrow> nat \<Rightarrow> nat \<Rightarrow> alloc_error option" where
  "ruby_xmalloc2 malloc n siz = (case xmalloc2_size n siz of
     Inl e \<Rightarrow> Some e | Inr siz \<Rightarrow> objspace_xmalloc0 malloc siz)"

definition BIGNUM_EMBED_LEN_MAX :: nat where
  "BIGNUM_EMBED_LEN_MAX = (if 8 * 3 div 4 < 2 ^ 3 - (1 :: nat) then 8 * 3 div 4 else 2 ^ 3 - 1)"

definition bignew_raises :: "allocator \<Rightarrow> nat \<Rightarrow> alloc_error option" where
  "bignew_raises malloc len = (if len \<le> BIGNUM_EMBED_LEN_MAX then None else ruby_xmalloc2 malloc len 4)"

section \<open>When it raises\<close>

text \<open>Six digits are embedded in the object; from \<open>2 ^ 62\<close> digits on the size in bytes is no \<open>size_t\<close>.\<close>

lemma bignew_raises_iff:
  "bignew_raises malloc len =
    (if len \<le> 6 then None
     else if 4611686018427387904 \<le> len then Some Integer_overflow
     else if malloc (4 * len) then None else Some NoMemoryError)"
  by (simp add: bignew_raises_def BIGNUM_EMBED_LEN_MAX_def ruby_xmalloc2_def xmalloc2_size_def size_mul_or_raise_def
      objspace_xmalloc0_def objspace_malloc_prepare_def SIZE_MAX_def mult.commute not_le)

lemma bignew_raises_embedded [simp]: "len \<le> 6 \<Longrightarrow> bignew_raises malloc len = None"
  by (simp add: bignew_raises_iff)

lemma bignew_raises_enough: "(\<And>n. malloc n) \<Longrightarrow> len < 4611686018427387904 \<Longrightarrow> bignew_raises malloc len = None"
  by (simp add: bignew_raises_iff)

end
