(* ===== verification/Big_Shift.thy ===== *)
theory Big_Shift
  imports Big_Unpack_Spec Big_Alloc
begin

text \<open>
  Shifting integers (bignum.c, numeric.c): \<open>Integer#<<\<close> and \<open>Integer#>>\<close>, with the width a fixnum or a
  bignum of either sign, given that the digits of the operand lie in the address space.  A shift to the
  left asks for as many digits as its width says, and raises when it does not get them (\<open>malloc\<close> is
  the allocator); every other array here is no longer than the operand and is taken to be found.
\<close>

section \<open>Bignums\<close>

datatype shift_error = TooBigNumber | ShiftWidthTooBig | ShiftAlloc alloc_error

text \<open>By \<open>32 * shift_numdigits + shift_numbits\<close> bits.\<close>

definition big_shift3 :: "allocator \<Rightarrow> RBignum \<Rightarrow> bool \<Rightarrow> u64 \<Rightarrow> nat \<Rightarrow> shift_error + rb_integer" where
  "big_shift3 malloc x lshift_p shift_numdigits shift_numbits =
    (if lshift_p
     then if 9223372036854775807 < shift_numdigits then Inl TooBigNumber
          else let s1 = unat shift_numdigits
               in case bignew_raises malloc (BIGNUM_LEN x + s1 + 1) of
                    Some e \<Rightarrow> Inl (ShiftAlloc e)
                  | None \<Rightarrow> let (zds, top) = bary_small_lshift (BDIGITS x) shift_numbits
                      in Inr (Bignum (bignew (replicate s1 0 @ zds @ [top]) (BIGNUM_SIGN x)))
     else if 9223372036854775807 < shift_numdigits \<or> BIGNUM_LEN x \<le> unat shift_numdigits
          then Inr (Fixnum (LONG2FIX (if BIGNUM_SIGN x \<or> bary_zero_p (BDIGITS x) (BIGNUM_LEN x) then 0 else - 1)))
          else let s1 = unat shift_numdigits; (x, xn, hibitsx) = abs2twocomp x
               in if xn \<le> s1 then Inr (Fixnum (LONG2FIX (if hibitsx \<noteq> 0 then - 1 else 0)))
                  else let zds = bary_small_rshift (take (xn - s1) (drop s1 (BDIGITS x))) shift_numbits (if hibitsx \<noteq> 0 then BDIGMAX else 0)
                       in Inr (Bignum (twocomp2abs_bang (bignew zds False) (hibitsx \<noteq> 0))))"

text \<open>The two \<open>size_t\<close> in the buffer \<open>lens\<close>, which is aligned for them.\<close>

fun bytes_size_t :: "byte list \<Rightarrow> u64" where
  "bytes_size_t [] = 0"
| "bytes_size_t (b # bs) = ucast b OR push_bit 8 (bytes_size_t bs)"

definition lens_flags :: pack_flags where
  "lens_flags = \<lparr>WORDORDER = LSWORD_FIRST, BYTEORDER = NATIVE_BYTE_ORDER, PACK_2COMP = False, FORCE_BIGNUM = False,
    PACK_NEGATIVE = False, FORCE_GENERIC = False\<rparr>"

definition big_shift2 :: "allocator \<Rightarrow> RBignum \<Rightarrow> bool \<Rightarrow> RBignum \<Rightarrow> shift_error + rb_integer" where
  "big_shift2 malloc x lshift_p y =
    (if BIGZEROP x then Inr (Fixnum (LONG2FIX 0))
     else case rb_integer_pack 0 (Bignum y) 2 8 0 lens_flags of
       Inl _ \<Rightarrow> Inl TooBigNumber
     | Inr (sign, buf) \<Rightarrow>
        (let lens0 = bytes_size_t (take 8 buf); lens1 = bytes_size_t (drop 8 buf);
             (lshift_p, sign) = (if sign < 0 then (\<not> lshift_p, - sign) else (lshift_p, sign))
         in if 1 < sign \<or> 8 \<le> lens1
            then if lshift_p then Inl ShiftWidthTooBig else Inr (Fixnum (LONG2FIX (if BIGNUM_SIGN x then 0 else - 1)))
            else let shift_numbits = unat (lens0 AND 31); shift_numdigits = drop_bit 5 lens0 OR push_bit (64 - 5) lens1
                 in big_shift3 malloc x lshift_p shift_numdigits shift_numbits))"

text \<open>\<open>left\<close> for \<open>rb_big_lshift\<close>, else \<open>rb_big_rshift\<close>: the two differ in that.\<close>

definition big_shift_by :: "allocator \<Rightarrow> bool \<Rightarrow> RBignum \<Rightarrow> rb_integer \<Rightarrow> shift_error + rb_integer" where
  "big_shift_by malloc left x y =
    map_sum id bignorm
      (case y of
        Fixnum y \<Rightarrow>
          (let l = FIX2LONG y; (lshift_p, shift) = (if 0 \<le>s l then (left, l) else (\<not> left, 1 + - (l + 1)))
           in big_shift3 malloc x lshift_p (drop_bit 5 shift) (unat (shift AND 31)))
      | Bignum y \<Rightarrow> big_shift2 malloc x left y)"

definition rb_big_lshift :: "allocator \<Rightarrow> RBignum \<Rightarrow> rb_integer \<Rightarrow> shift_error + rb_integer" where
  "rb_big_lshift malloc x y = big_shift_by malloc True x y"

definition rb_big_rshift :: "allocator \<Rightarrow> RBignum \<Rightarrow> rb_integer \<Rightarrow> shift_error + rb_integer" where
  "rb_big_rshift malloc x y = big_shift_by malloc False x y"

section \<open>Fixnums\<close>

definition ULONG2NUM :: "u64 \<Rightarrow> rb_integer" where
  "ULONG2NUM v = (if POSFIXABLE v then Fixnum (LONG2FIX v) else Bignum (rb_uint2big v))"

definition fix_lshift :: "allocator \<Rightarrow> long \<Rightarrow> u64 \<Rightarrow> shift_error + rb_integer" where
  "fix_lshift malloc val width =
    (if width > 8 * 8 - 1 \<or> drop_bit (8 * 8 - 1 - unat width) val > 0 then rb_big_lshift malloc (rb_int2big val) (ULONG2NUM width)
     else Inr (LONG2NUM (push_bit (unat width) val)))"

definition fix_rshift :: "long \<Rightarrow> u64 \<Rightarrow> rb_integer" where
  "fix_rshift val i =
    (if i \<ge> 8 * 8 - 1 then Fixnum (LONG2FIX (if val <s 0 then - 1 else 0))
     else Fixnum (LONG2FIX (signed_drop_bit (unat i) val)))"

definition rb_fix_lshift :: "allocator \<Rightarrow> VALUE \<Rightarrow> rb_integer \<Rightarrow> shift_error + rb_integer" where
  "rb_fix_lshift malloc x y =
    (let val = FIX2LONG x
     in if val = 0 then Inr (Fixnum (LONG2FIX 0))
        else case y of
          Bignum _ \<Rightarrow> rb_big_lshift malloc (rb_int2big val) y
        | Fixnum y \<Rightarrow> (let width = FIX2LONG y in if width <s 0 then Inr (fix_rshift val (- width)) else fix_lshift malloc val width))"

definition rb_fix_rshift :: "allocator \<Rightarrow> VALUE \<Rightarrow> rb_integer \<Rightarrow> shift_error + rb_integer" where
  "rb_fix_rshift malloc x y =
    (let val = FIX2LONG x
     in if val = 0 then Inr (Fixnum (LONG2FIX 0))
        else case y of
          Bignum _ \<Rightarrow> rb_big_rshift malloc (rb_int2big val) y
        | Fixnum y \<Rightarrow>
            (let i = FIX2LONG y
             in if i = 0 then Inr (Fixnum x) else if i <s 0 then fix_lshift malloc val (- i) else Inr (fix_rshift val i)))"

fun rb_int_lshift :: "allocator \<Rightarrow> rb_integer \<Rightarrow> rb_integer \<Rightarrow> shift_error + rb_integer" where
  "rb_int_lshift malloc (Fixnum x) y = rb_fix_lshift malloc x y"
| "rb_int_lshift malloc (Bignum x) y = rb_big_lshift malloc x y"

fun rb_int_rshift :: "allocator \<Rightarrow> rb_integer \<Rightarrow> rb_integer \<Rightarrow> shift_error + rb_integer" where
  "rb_int_rshift malloc (Fixnum x) y = rb_fix_rshift malloc x y"
| "rb_int_rshift malloc (Bignum x) y = rb_big_rshift malloc x y"

section \<open>What they compute\<close>

text \<open>To the left by \<open>k\<close>, to the right by \<open>- k\<close>, rounding down.\<close>

definition int_shift :: "int \<Rightarrow> int \<Rightarrow> int" where
  "int_shift v k = (if 0 \<le> k then v * 2 ^ nat k else v div 2 ^ nat (- k))"

lemma bary_small_rshift_mod:
  "s < 32 \<Longrightarrow> bval (bary_small_rshift xds s h) = (bval xds + 4294967296 ^ length xds * uint h) div 2 ^ s mod 4294967296 ^ length xds"
  using small_rshift_loop_spec [of s "rev xds" h] by (simp add: bary_small_rshift_def)

text \<open>Sign bits shifted in keep a negative number negative.\<close>

lemma bary_small_rshift_signed:
  assumes "s < 32" "h = 0 \<or> h = BDIGMAX" "v = bval xds - (if h \<noteq> 0 then 4294967296 ^ length xds else 0)"
  shows "bval (bary_small_rshift xds s h) - (if h \<noteq> 0 then 4294967296 ^ length xds else 0) = v div 2 ^ s"
proof (cases "h = 0")
  case True
  have "bval xds div 2 ^ s < 4294967296 ^ length xds"
  proof (rule int_div_less)
    have "bval xds < 4294967296 ^ length xds * 1" using bval_less [of xds] by simp
    also have "\<dots> \<le> 4294967296 ^ length xds * 2 ^ s" by (intro mult_left_mono) simp_all
    finally show "bval xds < 4294967296 ^ length xds * 2 ^ s" .
  qed simp
  moreover have "0 \<le> bval xds div 2 ^ s" by (simp add: pos_imp_zdiv_nonneg_iff)
  ultimately show ?thesis using True assms(1,3) by (simp add: bary_small_rshift_mod)
next
  case False
  then have h: "uint h = 4294967295" using assms(2) by (simp add: BDIGMAX_def)
  define P where "P = (4294967296 :: int) ^ length xds"
  have v: "v = bval xds - P" "- P \<le> v" "v < 0" using False assms(3) bval_less [of xds] by (simp_all add: P_def)
  have e: "(4294967296 :: int) = 2 ^ (32 - s) * 2 ^ s" using assms(1) by (simp flip: power_add)
  have "bval xds + P * 4294967295 = v + P * 4294967296" by (simp add: v(1))
  also have "\<dots> = v + P * 2 ^ (32 - s) * 2 ^ s" unfolding e by (simp only: mult.assoc)
  finally have "(bval xds + P * uint h) div 2 ^ s = v div 2 ^ s + P * 2 ^ (32 - s)" by (simp add: h)
  then have "bval (bary_small_rshift xds s h) = (v div 2 ^ s + P * 2 ^ (32 - s)) mod P"
    using bary_small_rshift_mod [OF assms(1), of xds h] by (simp add: P_def)
  also have "\<dots> = v div 2 ^ s mod P" by simp
  also have "\<dots> = v div 2 ^ s + P"
  proof -
    have "v div 2 ^ s < 0" using v(3) by (simp add: pos_imp_zdiv_neg_iff)
    moreover have "- P \<le> v div 2 ^ s"
    proof -
      have "- P * 2 ^ s \<le> - P * 1" by (intro mult_left_mono_neg) (simp_all add: P_def)
      then have "- P * 2 ^ s \<le> v" using v(2) by linarith
      then show ?thesis using le_div_iff [of "2 ^ s" "- P" v] by simp
    qed
    ultimately have "(v div 2 ^ s + P) mod P = v div 2 ^ s + P" by (intro mod_pos_pos_trivial) simp_all
    then show ?thesis by simp
  qed
  finally show ?thesis using False by (simp add: P_def)
qed

lemma is_int_bignorm_of: "bigval x = v \<Longrightarrow> is_int v (bignorm (Bignum x))"
  by (simp add: is_int_def ival_bignorm)

lemma is_int_small: "is_int 0 (Fixnum (LONG2FIX 0))" "is_int (- 1) (Fixnum (LONG2FIX (- 1)))"
  using ival_LONG2FIX [of 0] ival_LONG2FIX [of "- 1"] by (simp_all add: is_int_def fixable_def del: ival.simps)

lemma bignorm_Fixnum [simp]: "bignorm (Fixnum v) = Fixnum v"
  by (simp add: bignorm_def)

lemma div_power_small: "- (2 ^ k) \<le> v \<Longrightarrow> v < 2 ^ k \<Longrightarrow> v div 2 ^ k = (if v < 0 then - 1 else (0 :: int))"
proof -
  assume v: "- (2 ^ k) \<le> v" "v < 2 ^ k"
  show ?thesis
  proof (cases "v < 0")
    case True
    have "(v + 2 ^ k) div 2 ^ k = 0" using v True by (intro div_pos_pos_trivial) simp_all
    then show ?thesis using True div_add_self2 [of "2 ^ k" v] by simp
  qed (use v in \<open>simp add: div_pos_pos_trivial\<close>)
qed

lemma big_shift3_left:
  assumes "nd \<le> 9223372036854775807" "nb < 32"
  shows "case bignew_raises malloc (BIGNUM_LEN x + unat nd + 1) of
      Some e \<Rightarrow> big_shift3 malloc x True nd nb = Inl (ShiftAlloc e)
    | None \<Rightarrow> \<exists>r. big_shift3 malloc x True nd nb = Inr r \<and> is_int (bigval x * 2 ^ (32 * unat nd + nb)) (bignorm r)"
proof -
  obtain zds c where z: "bary_small_lshift (BDIGITS x) nb = (zds, c)" by (meson surj_pair)
  have "bval (replicate (unat nd) 0 @ zds @ [c]) = bval (BDIGITS x) * 2 ^ (32 * unat nd + nb)"
    using bary_small_lshift_spec(2) [OF assms(2) z] by (simp add: bval_append power_add power_mult)
  then have "bigval (bignew (replicate (unat nd) 0 @ zds @ [c]) (BIGNUM_SIGN x)) = bigval x * 2 ^ (32 * unat nd + nb)"
    unfolding bigval_bignew by (simp add: bigval_def)
  moreover have "\<not> 9223372036854775807 < nd" using assms(1) by (simp add: not_less)
  ultimately show ?thesis by (simp add: big_shift3_def z is_int_bignorm_of Let_def split: option.split)
qed

lemma big_shift3_right:
  assumes "nb < 32" "BIGNUM_LEN x < 9223372036854775808"
  shows "\<exists>r. big_shift3 malloc x False nd nb = Inr r \<and> is_int (bigval x div 2 ^ (32 * unat nd + nb)) (bignorm r)"
proof -
  define k where "k = 32 * unat nd + nb"
  have out: "is_int (bigval x div 2 ^ k) (Fixnum (LONG2FIX (if bigval x < 0 then - 1 else 0)))"
    if "- (4294967296 ^ m) \<le> bigval x" "bigval x < 4294967296 ^ m" "m \<le> unat nd" for m
  proof -
    have "(4294967296 :: int) ^ m = 2 ^ (32 * m)" by (simp add: power_mult)
    also have "\<dots> \<le> 2 ^ k" using that(3) by (intro power_increasing) (simp_all add: k_def)
    finally have "- (2 ^ k) \<le> bigval x" "bigval x < 2 ^ k" using that(1,2) by linarith+
    then have "bigval x div 2 ^ k = (if bigval x < 0 then - 1 else 0)" by (rule div_power_small)
    then show ?thesis using is_int_small by simp
  qed
  show ?thesis
  proof (cases "9223372036854775807 < nd \<or> BIGNUM_LEN x \<le> unat nd")
    case True
    have "bary_zero_p (BDIGITS x) (BIGNUM_LEN x) \<longleftrightarrow> bval (BDIGITS x) = 0" by (simp add: bary_zero_p_iff)
    moreover have "bval (BDIGITS x) = 0 \<or> 0 < bval (BDIGITS x)" using bval_nonneg [of "BDIGITS x"] by linarith
    ultimately have "(BIGNUM_SIGN x \<or> bary_zero_p (BDIGITS x) (BIGNUM_LEN x)) \<longleftrightarrow> \<not> bigval x < 0"
      by (auto simp: bigval_def not_less)
    then have "big_shift3 malloc x False nd nb = Inr (Fixnum (LONG2FIX (if bigval x < 0 then - 1 else 0)))"
      using True by (simp add: big_shift3_def)
    moreover have "BIGNUM_LEN x \<le> unat nd" using True assms(2) by (auto simp: word_less_nat_alt)
    moreover have "\<bar>bigval x\<bar> < 4294967296 ^ BIGNUM_LEN x" using bval_less [of "BDIGITS x"] by (simp add: bigval_def)
    then have "- (4294967296 ^ BIGNUM_LEN x) \<le> bigval x" "bigval x < 4294967296 ^ BIGNUM_LEN x" by linarith+
    ultimately show ?thesis using out by (simp flip: k_def)
  next
    case False
    obtain x' xn h where a: "abs2twocomp x = (x', xn, h)" by (metis prod.exhaust)
    note t = abs2twocomp_spec [OF a]
    have low: "length (take xn (BDIGITS x')) = xn" using t(1) by simp
    have val: "bigval x = bval (take xn (BDIGITS x')) - (if h \<noteq> 0 then 4294967296 ^ xn else 0)" by (rule t(3))
    show ?thesis
    proof (cases "xn \<le> unat nd")
      case True
      have bounds: "0 \<le> bval (take xn (BDIGITS x'))" "bval (take xn (BDIGITS x')) < 4294967296 ^ xn"
        using bval_take_less [OF t(1)] by simp_all
      have "bigval x < 0 \<longleftrightarrow> h \<noteq> 0" using val bounds by (simp add: not_less split: if_splits)
      then have "big_shift3 malloc x False nd nb = Inr (Fixnum (LONG2FIX (if bigval x < 0 then - 1 else 0)))"
        using False True by (simp add: big_shift3_def a Let_def)
      moreover have "0 \<le> (if h \<noteq> 0 then 4294967296 ^ xn else 0 :: int)" "(if h \<noteq> 0 then 4294967296 ^ xn else 0 :: int) \<le> 4294967296 ^ xn"
        by simp_all
      then have "- (4294967296 ^ xn) \<le> bigval x" "bigval x < 4294967296 ^ xn" using bounds val by linarith+
      then have "is_int (bigval x div 2 ^ k) (Fixnum (LONG2FIX (if bigval x < 0 then - 1 else 0)))"
        using True by (intro out [of xn])
      ultimately show ?thesis by (simp flip: k_def)
    next
      case in_range: False
      define xs where "xs = take (xn - unat nd) (drop (unat nd) (BDIGITS x'))"
      have len: "length xs = xn - unat nd" using t(1) in_range by (simp add: xs_def)
      have split: "take xn (BDIGITS x') = take (unat nd) (BDIGITS x') @ xs"
        using in_range take_add [of "unat nd" "xn - unat nd" "BDIGITS x'"] by (simp add: xs_def)
      have low: "0 \<le> bval (take (unat nd) (BDIGITS x'))" "bval (take (unat nd) (BDIGITS x')) < 4294967296 ^ unat nd"
        using bval_take_less [of "unat nd" "BDIGITS x'"] t(1) in_range by simp_all
      define v where "v = bval xs - (if h \<noteq> 0 then 4294967296 ^ length xs else 0)"
      have "(4294967296 :: int) ^ xn = 4294967296 ^ unat nd * 4294967296 ^ length xs" using in_range by (simp add: len flip: power_add)
      then have "bigval x = bval (take (unat nd) (BDIGITS x')) + 4294967296 ^ unat nd * v"
        using val t(1) in_range by (cases "h = 0") (simp_all add: split bval_append v_def algebra_simps)
      then have "bigval x div 4294967296 ^ unat nd = v" using low by simp
      moreover have "(2 :: int) ^ k = 4294967296 ^ unat nd * 2 ^ nb" by (simp add: k_def power_add power_mult)
      ultimately have "bigval x div 2 ^ k = v div 2 ^ nb" by (simp add: zdiv_zmult2_eq)
      define zds where "zds = bary_small_rshift xs nb (if h \<noteq> 0 then BDIGMAX else 0)"
      have hh: "(if h \<noteq> 0 then BDIGMAX else 0) = h" using t(2) by auto
      have "bigval (twocomp2abs_bang (bignew zds False) (h \<noteq> 0)) = bval zds - (if h \<noteq> 0 then 4294967296 ^ length zds else 0)"
        by (simp add: twocomp2abs_bang_spec bignew_def)
      also have "length zds = length xs" by (simp add: zds_def bary_small_rshift_def)
      also have "bval zds - (if h \<noteq> 0 then 4294967296 ^ length xs else 0) = v div 2 ^ nb"
        unfolding zds_def hh by (rule bary_small_rshift_signed [OF assms(1) t(2) v_def])
      finally have "bigval (twocomp2abs_bang (bignew zds False) (h \<noteq> 0)) = bigval x div 2 ^ k"
        using \<open>bigval x div 2 ^ k = v div 2 ^ nb\<close> by simp
      moreover have "big_shift3 malloc x False nd nb = Inr (Bignum (twocomp2abs_bang (bignew zds False) (h \<noteq> 0)))"
        using False in_range by (simp add: big_shift3_def a Let_def zds_def xs_def)
      moreover from calculation(1) have "is_int (bigval x div 2 ^ k) (bignorm (Bignum (twocomp2abs_bang (bignew zds False) (h \<noteq> 0))))"
        by (rule is_int_bignorm_of)
      ultimately show ?thesis by (simp flip: k_def)
    qed
  qed
qed

section \<open>The width\<close>

text \<open>An array of digits in a 64-bit address space has less than \<open>2 ^ 62\<close> digits, so less than \<open>2 ^ 67\<close> bits.\<close>

definition addressable :: "RBignum \<Rightarrow> bool" where "addressable x \<longleftrightarrow> BIGNUM_LEN x < 4611686018427387904"

lemma int_shift_nat: "int_shift v (int k) = v * 2 ^ k" "int_shift v (- int k) = v div 2 ^ k"
  by (simp_all add: int_shift_def)

text \<open>Too far to the left.\<close>

definition shift_too_wide :: "int \<Rightarrow> bool" where "shift_too_wide k \<longleftrightarrow> 147573952589676412928 \<le> k"

text \<open>
  The outcome of a shift of \<open>v\<close>, a number of \<open>d\<close> digits, by \<open>k\<close> to the left; \<open>up\<close> tells that it goes to the
  left, by 0 or more.
\<close>

definition shifted :: "allocator \<Rightarrow> nat \<Rightarrow> bool \<Rightarrow> int \<Rightarrow> int \<Rightarrow> shift_error + rb_integer \<Rightarrow> bool" where
  "shifted malloc d up v k r \<longleftrightarrow>
    (if v \<noteq> 0 \<and> shift_too_wide k then r = Inl ShiftWidthTooBig
     else case (if v \<noteq> 0 \<and> up then bignew_raises malloc (d + nat k div 32 + 1) else None) of
       Some e \<Rightarrow> r = Inl (ShiftAlloc e)
     | None \<Rightarrow> \<exists>x. r = Inr x \<and> is_int (int_shift v k) x)"

lemma shifted_embedded:
  assumes "is_int (int_shift v k) x" "\<not> shift_too_wide k" "up \<Longrightarrow> d + nat k div 32 + 1 \<le> 6"
  shows "shifted malloc d up v k (Inr x)"
  using assms by (cases up; cases "v = 0") (simp_all add: shifted_def)

lemma big_shift3_spec:
  assumes "nb < 32" "addressable x" "l \<Longrightarrow> nd \<le> 9223372036854775807" "\<not> shift_too_wide k" "bigval x \<noteq> 0"
    and k: "k = (if l then int (32 * unat nd + nb) else - int (32 * unat nd + nb))"
  shows "shifted malloc (BIGNUM_LEN x) l (bigval x) k (map_sum id bignorm (big_shift3 malloc x l nd nb))"
proof (cases l)
  case True
  have nd: "nat k div 32 = unat nd" unfolding k if_P [OF True] nat_int using assms(1) by simp
  have "int_shift (bigval x) k = bigval x * 2 ^ (32 * unat nd + nb)" unfolding k if_P [OF True] by (rule int_shift_nat)
  then show ?thesis
    using big_shift3_left [OF assms(3) assms(1), OF True, of malloc x] assms(4,5) True
    by (auto simp: shifted_def nd split: option.splits)
next
  case False
  have "BIGNUM_LEN x < 9223372036854775808" using assms(2) by (simp add: addressable_def)
  then obtain r where r: "big_shift3 malloc x False nd nb = Inr r" "is_int (bigval x div 2 ^ (32 * unat nd + nb)) (bignorm r)"
    using big_shift3_right [of nb x malloc nd] assms(1) by blast
  have "int_shift (bigval x) k = bigval x div 2 ^ (32 * unat nd + nb)" unfolding k if_not_P [OF False] by (rule int_shift_nat)
  then show ?thesis using False assms(4) r by (simp add: shifted_def)
qed

lemma bytes_size_t_val: "length bs \<le> 8 \<Longrightarrow> uint (bytes_size_t bs) = bytes_val bs"
proof (induction bs)
  case (Cons b bs)
  then have IH: "uint (bytes_size_t bs) = bytes_val bs" and l: "length bs \<le> 7" by simp_all
  have "bytes_val bs < 256 ^ length bs" by (rule bytes_val_less)
  also have "(256 :: int) ^ length bs \<le> 256 ^ 7" using l by (intro power_increasing) simp_all
  finally have less: "bytes_val bs < 72057594037927936" by simp
  have ub: "uint (ucast b :: u64) = uint b" by (rule uint_byte_dbl)
  have b8: "uint b < 2 ^ 8" using uint_bounded [of b] by simp
  have "uint (ucast b OR push_bit 8 (bytes_size_t bs)) = uint (ucast b :: u64) + uint (bytes_size_t bs) * 2 ^ 8"
    by (rule uint_or_pushed) (use b8 less in \<open>simp_all add: ub IH\<close>)
  then show ?case by (simp add: ub IH)
qed simp

lemma unat_and_31: "unat ((w :: u64) AND 31) = unat w mod 32" "unat (w AND 31) < 32"
proof -
  have "w AND 31 = take_bit 5 w" by (simp add: take_bit_eq_mask mask_eq_exp_minus_1)
  then have "unat (w AND 31) = take_bit 5 (unat w)" by (simp only: unsigned_take_bit_eq)
  then show "unat (w AND 31) = unat w mod 32" by (simp add: take_bit_eq_mod)
  then show "unat (w AND 31) < 32" by simp
qed

lemma shift_parts: "32 * unat (drop_bit 5 (w :: u64)) + unat (w AND 31) = unat w"
  by (simp add: unat_and_31 unat_drop_bit_div)

lemma shift_parts2:
  assumes "b < (8 :: u64)"
  shows "unat (drop_bit 5 a OR push_bit (64 - 5) b) = unat a div 32 + 576460752303423488 * unat b"
proof -
  have d: "uint (drop_bit 5 a) = uint a div 32" by (simp add: uint_drop_bit_div)
  have "uint a < 18446744073709551616" using uint_bounded [of a] by simp
  then have "uint (drop_bit 5 a) < 2 ^ 59" unfolding d by (simp add: int_div_less)
  moreover have "uint b < 8" using assms by (simp add: word_less_def)
  then have "uint b * 2 ^ 59 < 18446744073709551616" by simp
  ultimately have "uint (drop_bit 5 a OR push_bit 59 b) = uint (drop_bit 5 a) + uint b * 2 ^ 59" by (rule uint_or_pushed)
  then have "int (unat (drop_bit 5 a OR push_bit 59 b)) = int (unat a div 32 + 576460752303423488 * unat b)"
    by (simp add: d zdiv_int)
  then have "unat (drop_bit 5 a OR push_bit 59 b) = unat a div 32 + 576460752303423488 * unat b" by (simp only: of_nat_eq_iff)
  then show ?thesis by simp
qed

lemma int_shift_0 [simp]: "int_shift 0 k = 0"
  by (simp add: int_shift_def)

lemma int_shift_far:
  assumes "addressable x" "k \<le> - 147573952589676412928"
  shows "int_shift (bigval x) k = (if bigval x < 0 then - 1 else 0)"
proof -
  have "BIGNUM_LEN x \<le> 4611686018427387904" using assms(1) by (simp add: addressable_def)
  then have le: "32 * BIGNUM_LEN x \<le> nat (- k)" using assms(2) by linarith
  have "\<bar>bigval x\<bar> < 4294967296 ^ BIGNUM_LEN x" using bval_less [of "BDIGITS x"] by (simp add: bigval_def)
  also have "(4294967296 :: int) ^ BIGNUM_LEN x = 2 ^ (32 * BIGNUM_LEN x)" by (simp add: power_mult)
  also have "\<dots> \<le> 2 ^ nat (- k)" using le by (intro power_increasing) simp_all
  finally have "- (2 ^ nat (- k)) \<le> bigval x" "bigval x < 2 ^ nat (- k)" by linarith+
  then have "bigval x div 2 ^ nat (- k) = (if bigval x < 0 then - 1 else 0)" by (rule div_power_small)
  then show ?thesis using assms(2) by (simp add: int_shift_def)
qed

lemma lens_val:
  assumes "rb_integer_pack 0 (Bignum y) 2 8 0 lens_flags = Inr (s, buf)"
    "a = bytes_size_t (take 8 buf)" "b = bytes_size_t (drop 8 buf)"
  shows "uint a + 18446744073709551616 * uint b = \<bar>bigval y\<bar> mod 340282366920938463463374607431768211456"
    "s = (if bigval y = 0 then 0 else if \<bar>bigval y\<bar> < 340282366920938463463374607431768211456 then sgn (bigval y) else 2 * sgn (bigval y))"
proof -
  have p: "pack_ref lens_flags 2 8 0 (bigval y) = (s, buf)"
    using assms(1) by (simp add: rb_integer_pack_is split: if_splits)
  note r = pack_ref_buffer [OF p]
  have len: "length buf = 16" using r(1) by simp
  have "buffer_words lens_flags 2 8 buf = [take 8 buf, take 8 (drop 8 buf)]"
    by (simp add: buffer_words_def lens_flags_def numeral_2_eq_2)
  moreover have "take 8 (drop 8 buf) = drop 8 buf" using len by simp
  ultimately have "buffer_val lens_flags 2 8 0 buf = bytes_val (take 8 buf) mod 18446744073709551616 + 18446744073709551616 * (bytes_val (drop 8 buf) mod 18446744073709551616)"
    by (simp add: buffer_val_def)
  moreover have "uint a = bytes_val (take 8 buf)" "uint b = bytes_val (drop 8 buf)"
    using bytes_size_t_val [of "take 8 buf"] bytes_size_t_val [of "drop 8 buf"] len by (simp_all add: assms(2,3))
  moreover have "uint w mod 18446744073709551616 = uint w" for w :: u64 using uint_bounded [of w] by simp
  ultimately have "buffer_val lens_flags 2 8 0 buf = uint a + 18446744073709551616 * uint b" by metis
  then show "uint a + 18446744073709551616 * uint b = \<bar>bigval y\<bar> mod 340282366920938463463374607431768211456"
    using r(3) by (simp add: pack_number_def lens_flags_def)
  show "s = (if bigval y = 0 then 0 else if \<bar>bigval y\<bar> < 340282366920938463463374607431768211456 then sgn (bigval y) else 2 * sgn (bigval y))"
    using r(2) by (simp add: pack_sign_def lens_flags_def)
qed

lemma big_shift2_spec:
  assumes "addressable x" "v = (if l then bigval y else - bigval y)"
    and up: "up \<longleftrightarrow> (if l then 0 \<le> bigval y else bigval y < 0)"
  shows "shifted malloc (BIGNUM_LEN x) up (bigval x) v (map_sum id bignorm (big_shift2 malloc x l y))"
proof (cases "bigval x = 0")
  case True
  then show ?thesis using is_int_small by (simp add: big_shift2_def BIGZEROP_iff shifted_def)
next
  case x0: False
  have "\<not> (\<exists>e. rb_integer_pack 0 (Bignum y) 2 8 0 lens_flags = Inl e)"
    by (simp add: rb_integer_pack_is validate_integer_pack_format_def lens_flags_def)
  then obtain s buf where pk: "rb_integer_pack 0 (Bignum y) 2 8 0 lens_flags = Inr (s, buf)"
    by (cases "rb_integer_pack 0 (Bignum y) 2 8 0 lens_flags") (auto simp: prod_eq_iff)
  define a b where "a = bytes_size_t (take 8 buf)" and "b = bytes_size_t (drop 8 buf)"
  note lens = lens_val [OF pk a_def b_def]
  define l' where "l' = (if s < 0 then \<not> l else l)"
  define m where "m = \<bar>bigval y\<bar>"
  have neg: "s < 0 \<longleftrightarrow> bigval y < 0" using lens(2) by (auto simp: sgn_if)
  have v: "v = (if l' then m else - m)" using assms(2) neg by (auto simp: l'_def m_def)
  have up: "up = l'" using up neg by (auto simp: l'_def)
  have big: "1 < \<bar>s\<bar> \<or> 8 \<le> b \<longleftrightarrow> 147573952589676412928 \<le> m"
  proof (cases "m < 340282366920938463463374607431768211456")
    case True
    have e: "uint a + 18446744073709551616 * uint b = m" using lens(1) True by (simp add: m_def)
    have "\<not> 1 < \<bar>s\<bar>" using lens(2) True by (simp add: m_def sgn_if)
    moreover have "8 \<le> b \<longleftrightarrow> 8 \<le> uint b" by (simp add: word_le_def)
    moreover have "uint a < 18446744073709551616" "0 \<le> uint a" using uint_bounded [of a] by simp_all
    then have "8 \<le> uint b \<longleftrightarrow> 147573952589676412928 \<le> m" using e by linarith
    ultimately show ?thesis by simp
  next
    case False
    then have "1 < \<bar>s\<bar>" using lens(2) by (auto simp: m_def sgn_if)
    then show ?thesis using False by simp
  qed
  have code: "big_shift2 malloc x l y =
      (if 1 < \<bar>s\<bar> \<or> 8 \<le> b
       then if l' then Inl ShiftWidthTooBig else Inr (Fixnum (LONG2FIX (if BIGNUM_SIGN x then 0 else - 1)))
       else big_shift3 malloc x l' (drop_bit 5 a OR push_bit (64 - 5) b) (unat (a AND 31)))"
    using x0 by (simp add: big_shift2_def BIGZEROP_iff pk Let_def a_def b_def l'_def)
  show ?thesis
  proof (cases "147573952589676412928 \<le> m")
    case True
    show ?thesis
    proof (cases l')
      case True
      then show ?thesis using code big x0 \<open>147573952589676412928 \<le> m\<close> v by (simp add: shift_too_wide_def shifted_def)
    next
      case False
      have "bigval x < 0 \<longleftrightarrow> \<not> BIGNUM_SIGN x" using x0 bigval_sign [of x] by (cases "bigval x < 0") auto
      then have "big_shift2 malloc x l y = Inr (Fixnum (LONG2FIX (if bigval x < 0 then - 1 else 0)))"
        using code big True False by simp
      moreover have "int_shift (bigval x) v = (if bigval x < 0 then - 1 else 0)"
        using False True v by (intro int_shift_far [OF assms(1)]) simp
      moreover have "\<not> shift_too_wide v" using False True v by (simp add: shift_too_wide_def)
      ultimately show ?thesis using is_int_small False by (simp add: shifted_def up)
    qed
  next
    case False
    have b8: "b < 8" using big False by (simp add: not_le)
    have e: "uint a + 18446744073709551616 * uint b = m" using lens(1) False by (simp add: m_def)
    define nd where "nd = (drop_bit 5 a OR push_bit (64 - 5) b)"
    have nd: "unat nd = unat a div 32 + 576460752303423488 * unat b" unfolding nd_def by (rule shift_parts2 [OF b8])
    have "unat b < 8" using b8 by (simp add: word_less_nat_alt)
    moreover have "unat a div 32 < 576460752303423488" using unat_u64_less [of a] by (simp add: less_mult_imp_div_less)
    ultimately have "unat nd \<le> 9223372036854775807" unfolding nd by linarith
    then have "nd \<le> 9223372036854775807" by (simp add: word_le_nat_alt)
    moreover have "int (32 * unat nd + unat (a AND 31)) = m"
    proof -
      have "32 * unat nd + unat (a AND 31) = unat a + 18446744073709551616 * unat b" by (simp add: nd unat_and_31)
      then have "int (32 * unat nd + unat (a AND 31)) = int (unat a) + 18446744073709551616 * int (unat b)" by (simp only: of_nat_add of_nat_mult of_nat_numeral)
      then show ?thesis using e by simp
    qed
    ultimately have "shifted malloc (BIGNUM_LEN x) l' (bigval x) v (map_sum id bignorm (big_shift3 malloc x l' nd (unat (a AND 31))))"
      if "\<not> shift_too_wide v"
      using big_shift3_spec [OF unat_and_31(2) assms(1) _ that x0, of l' nd a malloc] v by (simp only: simp_thms)
    moreover have "big_shift2 malloc x l y = big_shift3 malloc x l' nd (unat (a AND 31))" using code big False by (simp add: nd_def)
    moreover have "\<not> shift_too_wide v" using False v by (auto simp: shift_too_wide_def m_def)
    ultimately show ?thesis unfolding up by simp
  qed
qed

text \<open>The width of a fixnum as an unsigned number.\<close>

lemma uint_of_nonneg: "0 \<le> sint (l :: long) \<Longrightarrow> uint l = sint l"
  using sint_range(2) [of l] by (simp add: uint_sint take_bit_int_eq_self_iff)

lemma big_shift_by_spec:
  assumes "addressable x" "k = (if left then ival y else - ival y)" "bigval x \<noteq> 0"
    and up: "up \<longleftrightarrow> (if left then 0 \<le> ival y else ival y < 0)"
  shows "shifted malloc (BIGNUM_LEN x) up (bigval x) k (big_shift_by malloc left x y)"
proof (cases y)
  case (Bignum b)
  then have "k = (if left then bigval b else - bigval b)" using assms(2) by simp
  moreover have "up \<longleftrightarrow> (if left then 0 \<le> bigval b else bigval b < 0)" using up by (simp only: Bignum ival.simps)
  ultimately show ?thesis
    using big_shift2_spec [OF assms(1), of k left b up malloc] by (simp add: big_shift_by_def Bignum)
next
  case (Fixnum w)
  define l where "l = FIX2LONG w"
  define sh where "sh = (if 0 \<le>s l then l else 1 + - (l + 1))"
  have l: "sint l = ival y" by (simp add: Fixnum l_def sint_FIX2LONG)
  have fx: "fixable (sint l)" unfolding l Fixnum by (rule fixable_Fixnum)
  have nonneg: "0 \<le>s l \<longleftrightarrow> 0 \<le> sint l" by (simp add: word_sle_eq)
  have sh: "uint sh = \<bar>sint l\<bar>"
    using uint_of_nonneg [of l] uint_negated [of l] by (cases "0 \<le> sint l") (simp_all add: sh_def nonneg)
  define d where "d = (if 0 \<le>s l then left else \<not> left)"
  have kd: "k = (if d then uint sh else - uint sh)" using assms(2) l sh by (auto simp: d_def nonneg)
  have du: "up = d" using up l by (auto simp: d_def nonneg)
  have code: "big_shift_by malloc left x y = map_sum id bignorm (big_shift3 malloc x d (drop_bit 5 sh) (unat (sh AND 31)))"
    by (simp add: big_shift_by_def Fixnum sh_def d_def flip: l_def)
  have less: "uint sh < 4611686018427387905" using sh fx unfolding fixable_def by linarith
  have "unat (drop_bit 5 sh) \<le> unat sh" by (simp add: unat_drop_bit_div)
  moreover have "unat sh \<le> 9223372036854775807"
  proof -
    have "int (unat sh) \<le> 9223372036854775807" using less by simp
    then show ?thesis by linarith
  qed
  ultimately have "drop_bit 5 sh \<le> 9223372036854775807" by (simp add: word_le_nat_alt)
  moreover have "k = (if d then int (32 * unat (drop_bit 5 sh) + unat (sh AND 31)) else - int (32 * unat (drop_bit 5 sh) + unat (sh AND 31)))"
    unfolding shift_parts kd by simp
  moreover have "- uint sh < 147573952589676412928" "uint sh < 147573952589676412928" using less uint_ge_0 [of sh] by linarith+
  then have "\<not> shift_too_wide k" unfolding kd shift_too_wide_def not_le by (cases d) (simp_all only: if_True if_False)
  ultimately show ?thesis
    using big_shift3_spec [OF unat_and_31(2) assms(1) _ _ assms(3), of d "drop_bit 5 sh" k sh malloc] unfolding code du
    by (simp only: simp_thms)
qed

lemma rb_int2big_addressable: "addressable (rb_int2big n)"
  using length_int2big_le [of n] by (simp add: addressable_def)

lemma ival_ULONG2NUM: "ival (ULONG2NUM v) = uint v"
proof (cases "POSFIXABLE v")
  case True
  then have less: "uint v < 4611686018427387904" by (simp add: POSFIXABLE_iff)
  then have sv: "sint v = uint v" by (simp add: sint_of_uint)
  moreover have "fixable (sint v)" using less uint_ge_0 [of v] unfolding sv fixable_def by linarith
  ultimately show ?thesis using ival_LONG2FIX [of v] True by (simp add: ULONG2NUM_def del: ival.simps)
qed (simp add: ULONG2NUM_def bigval_def rb_uint2big_spec)

lemma fix_lshift_spec:
  assumes "fixable (sint val)" "sint val \<noteq> 0"
  shows "shifted malloc (BIGNUM_LEN (rb_int2big val)) True (sint val) (uint width) (fix_lshift malloc val width)"
proof (cases "width > 8 * 8 - 1 \<or> drop_bit (8 * 8 - 1 - unat width) val > 0")
  case True
  then have code: "fix_lshift malloc val width = big_shift_by malloc True (rb_int2big val) (ULONG2NUM width)"
    by (simp add: fix_lshift_def rb_big_lshift_def)
  have k: "uint width = (if True then ival (ULONG2NUM width) else - ival (ULONG2NUM width))" by (simp add: ival_ULONG2NUM)
  have up: "True = (if True then 0 \<le> ival (ULONG2NUM width) else ival (ULONG2NUM width) < 0)" by (simp add: ival_ULONG2NUM)
  show ?thesis
    using big_shift_by_spec [OF rb_int2big_addressable k _ up, of val malloc] assms(2) unfolding code bigval_rb_int2big by blast
next
  case False
  define w where "w = unat width"
  have w: "w \<le> 63" using False by (simp add: w_def word_less_nat_alt not_less)
  have uw: "uint width = int w" by (simp add: w_def)
  have "uint val div 2 ^ (63 - w) = 0"
  proof -
    have "drop_bit (63 - w) val = 0" using False by (simp add: w_def word_gt_0)
    then show ?thesis by (metis uint_0_eq uint_drop_bit_div)
  qed
  then have less: "uint val < 2 ^ (63 - w)" using le_div_iff [of "2 ^ (63 - w)" 1 "uint val"] by simp
  also have "(2 :: int) ^ (63 - w) \<le> 2 ^ 63" by (intro power_increasing) simp_all
  finally have sv: "sint val = uint val" by (simp add: sint_of_uint)
  have "uint val * 2 ^ w < 2 ^ (63 - w) * 2 ^ w" using less by simp
  also have "(2 :: int) ^ (63 - w) * 2 ^ w = 2 ^ 63" using w by (simp flip: power_add)
  finally have fits: "uint val * 2 ^ w < 9223372036854775808" by simp
  have "uint (push_bit w val) = take_bit 64 (push_bit w (uint val))" unfolding unsigned_push_bit_eq by simp
  also have "\<dots> = uint val * 2 ^ w" unfolding push_bit_eq_mult take_bit_eq_mod using fits by simp
  finally have up: "uint (push_bit w val) = uint val * 2 ^ w" .
  then have "sint (push_bit w val) = uint val * 2 ^ w" using fits by (simp add: sint_of_uint)
  then have "is_int (int_shift (sint val) (uint width)) (LONG2NUM (push_bit w val))"
    by (simp add: is_int_def LONG2NUM_spec uw int_shift_nat sv)
  moreover have "fix_lshift malloc val width = Inr (LONG2NUM (push_bit w val))" unfolding fix_lshift_def if_not_P [OF False] w_def ..
  moreover have "\<not> shift_too_wide (uint width)" using w by (simp add: shift_too_wide_def uw)
  moreover have "w div 32 \<le> 1" using w by linarith
  then have "BIGNUM_LEN (rb_int2big val) + nat (uint width) div 32 + 1 \<le> 6"
    unfolding uw nat_int using length_int2big_le [of val] by linarith
  ultimately show ?thesis by (simp add: shifted_embedded)
qed

lemma fix_rshift_spec:
  assumes "fixable (sint val)"
  shows "is_int (int_shift (sint val) (- uint i)) (fix_rshift val i)"
proof -
  define n where "n = unat i"
  have un: "uint i = int n" by (simp add: n_def)
  have v: "- (2 ^ 62) \<le> sint val" "sint val < 2 ^ 62" using assms by (simp_all add: fixable_def)
  have sh: "int_shift (sint val) (- uint i) = sint val div 2 ^ n" unfolding un by (rule int_shift_nat)
  show ?thesis
  proof (cases "i \<ge> 8 * 8 - 1")
    case True
    then have "63 \<le> n" by (simp add: n_def word_le_nat_alt)
    then have "(2 :: int) ^ 62 \<le> 2 ^ n" by (intro power_increasing) simp_all
    then have "- (2 ^ n) \<le> sint val" "sint val < 2 ^ n" using v by linarith+
    then have "sint val div 2 ^ n = (if sint val < 0 then - 1 else 0)" by (rule div_power_small)
    then show ?thesis using True is_int_small by (simp add: fix_rshift_def sh word_sless_0)
  next
    case False
    have d: "sint (signed_drop_bit n val) = sint val div 2 ^ n" by (simp add: sint_signed_drop_bit_eq drop_bit_eq_div)
    have "fixable (sint val div 2 ^ n)"
    proof -
      have c: "(1 :: int) \<le> 2 ^ n" "(0 :: int) < 2 ^ n" by simp_all
      have "- (2 ^ 62) * 2 ^ n \<le> - (2 ^ 62) * (1 :: int)" "2 ^ 62 * (1 :: int) \<le> 2 ^ 62 * 2 ^ n"
        using c by (intro mult_left_mono_neg mult_left_mono; simp)+
      then have "- (2 ^ 62) * 2 ^ n \<le> sint val" "sint val < 2 ^ 62 * 2 ^ n" using v by linarith+
      then have "- (2 ^ 62) \<le> sint val div 2 ^ n" "sint val div 2 ^ n < 2 ^ 62"
        using le_div_iff [OF c(2)] int_div_less [OF c(2)] by simp_all
      then show ?thesis by (simp add: fixable_def)
    qed
    then have "is_int (sint val div 2 ^ n) (Fixnum (LONG2FIX (signed_drop_bit n val)))"
      using ival_LONG2FIX [of "signed_drop_bit n val"] by (simp add: is_int_def d del: ival.simps)
    moreover have "fix_rshift val i = Fixnum (LONG2FIX (signed_drop_bit n val))" unfolding fix_rshift_def if_not_P [OF False] n_def ..
    ultimately show ?thesis by (simp add: sh)
  qed
qed

lemma sint_minus_width: "fixable (sint l) \<Longrightarrow> sint (l :: long) < 0 \<Longrightarrow> uint (- l) = - sint l"
proof -
  assume l: "fixable (sint l)" "sint l < 0"
  then have "sint (- l) = - sint l" using sint_sub_fits [of 0 l] by (simp add: fixable_def)
  then show ?thesis using uint_of_nonneg [of "- l"] l(2) by simp
qed

lemma shift_too_wide_fixnum: "fixable k \<Longrightarrow> \<not> shift_too_wide k"
  by (simp add: fixable_def shift_too_wide_def)

lemma ival_Fixnum: "ival (Fixnum x) = sint (FIX2LONG x)"
  by (simp add: sint_FIX2LONG)

lemma shifted_fixnum:
  assumes "normal (Fixnum x)"
  shows "shifted malloc (BIGNUM_LEN (rb_int2big (FIX2LONG x))) (0 \<le> ival y) (ival (Fixnum x)) (ival y) (rb_fix_lshift malloc x y)"
    "shifted malloc (BIGNUM_LEN (rb_int2big (FIX2LONG x))) (ival y < 0) (ival (Fixnum x)) (- ival y) (rb_fix_rshift malloc x y)"
proof -
  define val where "val = FIX2LONG x"
  have fx: "fixable (sint val)" unfolding val_def by (rule fixable_FIX2LONG)
  have v: "ival (Fixnum x) = sint val" unfolding val_def by (rule ival_Fixnum)
  have v0: "val = 0 \<longleftrightarrow> sint val = 0" by (simp add: sint_eq_0_iff)
  define d where "d = BIGNUM_LEN (rb_int2big val)"
  have d: "d \<le> 2" unfolding d_def by (rule length_int2big_le)
  have big: "shifted malloc d (if left then 0 \<le> ival y else ival y < 0) (sint val) (if left then ival y else - ival y)
      (big_shift_by malloc left (rb_int2big val) y)" if "val \<noteq> 0" for left
    using big_shift_by_spec [OF rb_int2big_addressable refl _ refl, of val malloc left y] that
    unfolding bigval_rb_int2big d_def v0 by blast
  have left: "shifted malloc d True (sint val) (uint w) (fix_lshift malloc val w)" if "val \<noteq> 0" for w
    using fix_lshift_spec [OF fx, of malloc w] that unfolding d_def v0 by blast
  have right: "shifted malloc d False (sint val) (- uint w) (Inr (fix_rshift val w))" for w
  proof -
    have "- uint w < 147573952589676412928" using uint_ge_0 [of w] by linarith
    then have "\<not> shift_too_wide (- uint w)" unfolding shift_too_wide_def not_le .
    then show ?thesis by (intro shifted_embedded [OF fix_rshift_spec [OF fx]]) simp_all
  qed
  show "shifted malloc (BIGNUM_LEN (rb_int2big (FIX2LONG x))) (0 \<le> ival y) (ival (Fixnum x)) (ival y) (rb_fix_lshift malloc x y)"
    unfolding val_def [symmetric] d_def [symmetric]
  proof (cases "val = 0")
    case True
    then show "shifted malloc d (0 \<le> ival y) (ival (Fixnum x)) (ival y) (rb_fix_lshift malloc x y)"
      using is_int_small v v0 by (simp add: rb_fix_lshift_def shifted_def flip: val_def)
  next
    case val0: False
    show "shifted malloc d (0 \<le> ival y) (ival (Fixnum x)) (ival y) (rb_fix_lshift malloc x y)"
    proof (cases y)
      case (Bignum b)
      then show ?thesis using big [OF val0, of True] val0 v by (simp add: rb_fix_lshift_def rb_big_lshift_def flip: val_def)
    next
      case (Fixnum w)
      define l where "l = FIX2LONG w"
      have l: "fixable (sint l)" "ival y = sint l" unfolding l_def Fixnum by (rule fixable_FIX2LONG ival_Fixnum)+
      have code: "rb_fix_lshift malloc x y = (if l <s 0 then Inr (fix_rshift val (- l)) else fix_lshift malloc val l)"
        using val0 by (simp add: rb_fix_lshift_def Fixnum flip: val_def l_def)
      show ?thesis
      proof (cases "sint l < 0")
        case True
        then show ?thesis using right [of "- l"] sint_minus_width [OF l(1)] unfolding code v l(2) by (simp add: word_sless_0 not_le)
      next
        case False
        then show ?thesis using left [OF val0, of l] uint_of_nonneg [of l] unfolding code v l(2) by (simp add: word_sless_0 not_less)
      qed
    qed
  qed
  show "shifted malloc (BIGNUM_LEN (rb_int2big (FIX2LONG x))) (ival y < 0) (ival (Fixnum x)) (- ival y) (rb_fix_rshift malloc x y)"
    unfolding val_def [symmetric] d_def [symmetric]
  proof (cases "val = 0")
    case True
    then show "shifted malloc d (ival y < 0) (ival (Fixnum x)) (- ival y) (rb_fix_rshift malloc x y)"
      using is_int_small v v0 by (simp add: rb_fix_rshift_def shifted_def flip: val_def)
  next
    case val0: False
    show "shifted malloc d (ival y < 0) (ival (Fixnum x)) (- ival y) (rb_fix_rshift malloc x y)"
    proof (cases y)
      case (Bignum b)
      then show ?thesis using big [OF val0, of False] val0 v by (simp add: rb_fix_rshift_def rb_big_rshift_def flip: val_def)
    next
      case (Fixnum w)
      define l where "l = FIX2LONG w"
      have l: "fixable (sint l)" "ival y = sint l" unfolding l_def Fixnum by (rule fixable_FIX2LONG ival_Fixnum)+
      have code: "rb_fix_rshift malloc x y =
          (if l = 0 then Inr (Fixnum x) else if l <s 0 then fix_lshift malloc val (- l) else Inr (fix_rshift val l))"
        using val0 by (simp add: rb_fix_rshift_def Fixnum flip: val_def l_def)
      consider "l = 0" | "sint l < 0" | "0 < sint l" using sint_eq_0_iff [of l] by linarith
      then show ?thesis
      proof cases
        case 1
        have "int_shift v 0 = v" for v by (simp add: int_shift_def)
        then show ?thesis using 1 assms l(2) code by (simp add: shifted_def is_int_def shift_too_wide_def del: ival.simps)
      next
        case 2
        then have "l \<noteq> 0" by auto
        then show ?thesis using 2 left [OF val0, of "- l"] sint_minus_width [OF l(1)] unfolding code v l(2) by (simp add: word_sless_0)
      next
        case 3
        then have "l \<noteq> 0" by auto
        then show ?thesis using 3 right [of l] uint_of_nonneg [of l] unfolding code v l(2) by (simp add: word_sless_0)
      qed
    qed
  qed
qed

fun fits_address_space :: "rb_integer \<Rightarrow> bool" where
  "fits_address_space (Fixnum _) \<longleftrightarrow> True"
| "fits_address_space (Bignum x) \<longleftrightarrow> addressable x"

text \<open>The digits of the operand, as a bignum if it is a fixnum.\<close>

fun digits_as_big :: "rb_integer \<Rightarrow> nat" where
  "digits_as_big (Fixnum x) = BIGNUM_LEN (rb_int2big (FIX2LONG x))"
| "digits_as_big (Bignum x) = BIGNUM_LEN x"

lemma shifted_integer:
  assumes "normal x" "fits_address_space x"
  shows "shifted malloc (digits_as_big x) (0 \<le> ival y) (ival x) (ival y) (rb_int_lshift malloc x y)"
    "shifted malloc (digits_as_big x) (ival y < 0) (ival x) (- ival y) (rb_int_rshift malloc x y)"
proof -
  have big: "shifted malloc (BIGNUM_LEN b) (if left then 0 \<le> ival y else ival y < 0) (bigval b) (if left then ival y else - ival y)
      (big_shift_by malloc left b y)" if "addressable b" "bigval b \<noteq> 0" for b left
    using big_shift_by_spec [OF that(1) refl that(2) refl, of malloc left y] .
  have nz: "bigval b \<noteq> 0" if "x = Bignum b" for b using assms(1) that by (auto simp: fixable_def)
  show "shifted malloc (digits_as_big x) (0 \<le> ival y) (ival x) (ival y) (rb_int_lshift malloc x y)"
    using shifted_fixnum(1) [of _ malloc y] big [of _ True] nz assms by (cases x) (auto simp: rb_big_lshift_def)
  show "shifted malloc (digits_as_big x) (ival y < 0) (ival x) (- ival y) (rb_int_rshift malloc x y)"
    using shifted_fixnum(2) [of _ malloc y] big [of _ False] nz assms by (cases x) (auto simp: rb_big_rshift_def)
qed

section \<open>The property\<close>

text \<open>C38: \<open>Integer#<<\<close> and \<open>Integer#>>\<close>.  The shift by \<open>k\<close> to the left multiplies by \<open>2 ^ k\<close>, and the shift by
  \<open>k\<close> to the right, which a negative width to the left also is, divides by \<open>2 ^ k\<close> and rounds towards minus
  infinity, for an operand and a width that are fixnums or bignums, of whatever size and sign; the result is a fixnum
  if it fits into one.  A shift to the right never raises.  A shift of a number other than 0 to the left raises
  \<open>RangeError\<close> by \<open>2 ^ 67\<close> bits or more, and by fewer bits exactly what the request for the digits of its result
  raises (one digit more than the operand has and the width moves it by): \<open>ArgumentError\<close> when their size in bytes is
  not a \<open>size_t\<close>, from \<open>2 ^ 62\<close> digits on, and \<open>NoMemoryError\<close> when \<open>malloc\<close> does not find them; a result of up to
  six digits needs no memory.\<close>

theorem integer_shift:
  assumes "normal x" "fits_address_space x"
  shows "(if ival x \<noteq> 0 \<and> 2 ^ 67 \<le> ival y then rb_int_lshift malloc x y = Inl ShiftWidthTooBig
      else case (if ival x \<noteq> 0 \<and> 0 \<le> ival y then bignew_raises malloc (digits_as_big x + nat (ival y) div 32 + 1) else None) of
        Some e \<Rightarrow> rb_int_lshift malloc x y = Inl (ShiftAlloc e)
      | None \<Rightarrow> \<exists>z. rb_int_lshift malloc x y = Inr z \<and> normal z \<and>
          ival z = (if 0 \<le> ival y then ival x * 2 ^ nat (ival y) else ival x div 2 ^ nat (- ival y)))
    \<and> (if ival x \<noteq> 0 \<and> ival y \<le> - (2 ^ 67) then rb_int_rshift malloc x y = Inl ShiftWidthTooBig
      else case (if ival x \<noteq> 0 \<and> ival y < 0 then bignew_raises malloc (digits_as_big x + nat (- ival y) div 32 + 1) else None) of
        Some e \<Rightarrow> rb_int_rshift malloc x y = Inl (ShiftAlloc e)
      | None \<Rightarrow> \<exists>z. rb_int_rshift malloc x y = Inr z \<and> normal z \<and>
          ival z = (if 0 \<le> - ival y then ival x * 2 ^ nat (- ival y) else ival x div 2 ^ nat (ival y)))
    \<and> (\<forall>len. bignew_raises malloc len =
        (if len \<le> 6 then None else if 2 ^ 62 \<le> len then Some Integer_overflow
         else if malloc (4 * len) then None else Some NoMemoryError))"
proof (intro conjI)
  have p: "(2 :: int) ^ 67 = 147573952589676412928" "(2 :: nat) ^ 62 = 4611686018427387904" by simp_all
  show "\<forall>len. bignew_raises malloc len =
      (if len \<le> 6 then None else if 2 ^ 62 \<le> len then Some Integer_overflow
       else if malloc (4 * len) then None else Some NoMemoryError)"
    unfolding p bignew_raises_iff by blast
  show "if ival x \<noteq> 0 \<and> 2 ^ 67 \<le> ival y then rb_int_lshift malloc x y = Inl ShiftWidthTooBig
      else case (if ival x \<noteq> 0 \<and> 0 \<le> ival y then bignew_raises malloc (digits_as_big x + nat (ival y) div 32 + 1) else None) of
        Some e \<Rightarrow> rb_int_lshift malloc x y = Inl (ShiftAlloc e)
      | None \<Rightarrow> \<exists>z. rb_int_lshift malloc x y = Inr z \<and> normal z \<and>
          ival z = (if 0 \<le> ival y then ival x * 2 ^ nat (ival y) else ival x div 2 ^ nat (- ival y))"
    using shifted_integer(1) [OF assms, of malloc y] unfolding shifted_def shift_too_wide_def int_shift_def is_int_def p
    by (simp only: conj_commute)
  have "ival y \<le> - 147573952589676412928 \<longleftrightarrow> 147573952589676412928 \<le> - ival y" by linarith
  then show "if ival x \<noteq> 0 \<and> ival y \<le> - (2 ^ 67) then rb_int_rshift malloc x y = Inl ShiftWidthTooBig
      else case (if ival x \<noteq> 0 \<and> ival y < 0 then bignew_raises malloc (digits_as_big x + nat (- ival y) div 32 + 1) else None) of
        Some e \<Rightarrow> rb_int_rshift malloc x y = Inl (ShiftAlloc e)
      | None \<Rightarrow> \<exists>z. rb_int_rshift malloc x y = Inr z \<and> normal z \<and>
          ival z = (if 0 \<le> - ival y then ival x * 2 ^ nat (- ival y) else ival x div 2 ^ nat (ival y))"
    using shifted_integer(2) [OF assms, of malloc y] unfolding shifted_def shift_too_wide_def int_shift_def is_int_def p
    by (simp only: conj_commute minus_minus)
qed

text \<open>A shift to the right, and one to the left that asks for \<open>2 ^ 62\<close> digits and one more.\<close>

theorem integer_shift_witness:
  "(\<exists>z. rb_int_lshift (\<lambda>_. True) (Bignum \<lparr>BIGNUM_SIGN = True, BDIGITS = [0, 0, 1]\<rparr>) (Fixnum (LONG2FIX (- 33))) = Inr z \<and>
     normal z \<and> ival z = 2 ^ 31) \<and>
   rb_int_lshift (\<lambda>_. True) (Bignum \<lparr>BIGNUM_SIGN = True, BDIGITS = [0, 0, 1]\<rparr>)
     (Bignum \<lparr>BIGNUM_SIGN = True, BDIGITS = [4294967295, 4294967295, 7]\<rparr>) = Inl (ShiftAlloc Integer_overflow)"
proof -
  have y: "ival (Fixnum (LONG2FIX (- 33))) = - 33"
    using ival_LONG2FIX [of "- 33"] by (simp add: fixable_def del: ival.simps)
  define x where "x = Bignum \<lparr>BIGNUM_SIGN = True, BDIGITS = [0, 0, 1]\<rparr>"
  define w where "w = Bignum \<lparr>BIGNUM_SIGN = True, BDIGITS = [4294967295, 4294967295, 7]\<rparr>"
  have x: "normal x" "fits_address_space x" "ival x = 2 ^ 64" "digits_as_big x = 3"
    by (simp_all add: x_def bigval_def fixable_def addressable_def)
  have w: "ival w = 147573952589676412927" by (simp add: w_def bigval_def)
  have req: "bignew_raises (\<lambda>_. True) (3 + nat (ival w) div 32 + 1) = Some Integer_overflow"
    by (simp add: w bignew_raises_iff)
  note s = integer_shift [OF x(1,2), of _ "\<lambda>_. True", THEN conjunct1]
  have "\<exists>z. rb_int_lshift (\<lambda>_. True) x (Fixnum (LONG2FIX (- 33))) = Inr z \<and> normal z \<and> ival z = 2 ^ 31"
    using s [of "Fixnum (LONG2FIX (- 33))"] by (simp only: y x(3)) simp
  moreover have "rb_int_lshift (\<lambda>_. True) x w = Inl (ShiftAlloc Integer_overflow)"
    using s [of w] req by (simp only: w x(3,4)) simp
  ultimately show ?thesis unfolding x_def w_def by blast
qed

end
