(* ===== verification/Big_Powm.thy ===== *)
theory Big_Powm
  imports Big_Shift
begin

text \<open>
  Powers of integers modulo an integer (bignum.c): \<open>Integer#pow\<close> with two arguments, which multiplies and
  reduces by turns, in words of 64 or 128 bits where the modulus allows it.
\<close>

section \<open>Errors and sequencing\<close>

datatype pow_error = Pow_RangeError | Pow_ZeroDivisionError | Pow_bug mul_failure | Pow_shift shift_error | Pow_alloc alloc_error | Pow_coerce

text \<open>\<open>Pow_coerce\<close> stands for a call of \<open>rb_num_coerce_bin\<close>, \<open>None\<close> for a computation that does not end.\<close>

type_synonym 'a pow_result = "(pow_error + 'a) option"

definition pow_then :: "'a pow_result \<Rightarrow> ('a \<Rightarrow> 'b pow_result) \<Rightarrow> 'b pow_result" where
  "pow_then r f = Option.bind r (\<lambda>r. case r of Inl e \<Rightarrow> Some (Inl e) | Inr z \<Rightarrow> f z)"

lemma pow_then_simps [simp]: "pow_then (Some (Inr z)) f = f z" "pow_then (Some (Inl e)) f = Some (Inl e)" "pow_then None f = None"
  by (simp_all add: pow_then_def)

lemma pow_then_mono [partial_function_mono]:
  "mono_option B \<Longrightarrow> (\<And>z. mono_option (\<lambda>f. C z f)) \<Longrightarrow> mono_option (\<lambda>f. pow_then (B f) (\<lambda>z. C z f))"
  unfolding pow_then_def by (intro bind_mono) (auto simp: monotone_def option.leq_refl split: sum.splits)

section \<open>Square and multiply\<close>

text \<open>The two loops that \<open>int_pow_tmp1\<close>, \<open>int_pow_tmp2\<close> and \<open>int_pow_tmp3\<close> have in common, over what each
  of them does for \<open>(a * b) % m\<close>; the flag is set where both factors are one object.\<close>

type_synonym 'a mul_modulo = "bool \<Rightarrow> 'a \<Rightarrow> 'a \<Rightarrow> 'a pow_result"

partial_function (option) powm_big_loop :: "allocator \<Rightarrow> 'a mul_modulo \<Rightarrow> 'a \<Rightarrow> 'a \<Rightarrow> rb_integer \<Rightarrow> (pow_error + 'a \<times> 'a \<times> VALUE) option" where
  "powm_big_loop malloc mulmod xx tmp y =
    (case y of
      Fixnum v \<Rightarrow> Some (Inr (xx, tmp, v))
    | Bignum b \<Rightarrow>
        pow_then (if rb_int_odd_p y then mulmod False tmp xx else Some (Inr tmp)) (\<lambda>tmp.
        pow_then (mulmod True xx xx) (\<lambda>xx.
        pow_then (Some (map_sum Pow_shift id (rb_big_rshift malloc b (Fixnum (LONG2FIX 1))))) (\<lambda>y.
          powm_big_loop malloc mulmod xx tmp y))))"

partial_function (option) powm_long_loop :: "'a mul_modulo \<Rightarrow> 'a \<Rightarrow> 'a \<Rightarrow> long \<Rightarrow> 'a pow_result" where
  "powm_long_loop mulmod xx tmp yy =
    (if yy = 0 then Some (Inr tmp)
     else pow_then (if yy AND 1 \<noteq> 0 then mulmod False tmp xx else Some (Inr tmp)) (\<lambda>tmp.
          pow_then (mulmod True xx xx) (\<lambda>xx.
            powm_long_loop mulmod xx tmp (signed_drop_bit 1 yy))))"

definition powm_loops :: "allocator \<Rightarrow> 'a mul_modulo \<Rightarrow> 'a \<Rightarrow> 'a \<Rightarrow> rb_integer \<Rightarrow> 'a pow_result" where
  "powm_loops malloc mulmod xx tmp y = pow_then (powm_big_loop malloc mulmod xx tmp y) (\<lambda>(xx, tmp, y). powm_long_loop mulmod xx tmp (FIX2LONG y))"

section \<open>The three functions\<close>

definition HALF_LONG_MSB :: long where "HALF_LONG_MSB = push_bit ((8 * 8 - 1) div 2) 1"

fun int_pos_p :: "rb_integer \<Rightarrow> bool" where
  "int_pos_p (Fixnum num) \<longleftrightarrow> LONG2FIX 0 <s num"
| "int_pos_p (Bignum num) \<longleftrightarrow> BIGNUM_SIGN num"

fun int_neg_p :: "rb_integer \<Rightarrow> bool" where
  "int_neg_p (Fixnum num) \<longleftrightarrow> num <s 0"
| "int_neg_p (Bignum num) \<longleftrightarrow> \<not> BIGNUM_SIGN num"

text \<open>In 64 bits.\<close>

definition mul_modulo1 :: "long \<Rightarrow> long mul_modulo" where
  "mul_modulo1 mm same a b = Some (Inr (word_of_int (sint (a * b) smod sint mm)))"

definition int_pow_tmp1 :: "allocator \<Rightarrow> VALUE \<Rightarrow> rb_integer \<Rightarrow> long \<Rightarrow> bool \<Rightarrow> rb_integer pow_result" where
  "int_pow_tmp1 malloc x y mm nega_flg =
    pow_then (powm_loops malloc (mul_modulo1 mm) (FIX2LONG x) 1 y) (\<lambda>tmp.
      Some (Inr (Fixnum (LONG2FIX (if nega_flg \<and> tmp \<noteq> 0 then tmp - mm else tmp)))))"

text \<open>In 128 bits.\<close>

definition MUL_MODULO :: "128 word \<Rightarrow> long mul_modulo" where
  "MUL_MODULO c same a b = Some (Inr (word_of_int (sint (scast a * scast b :: 128 word) smod sint c)))"

definition int_pow_tmp2 :: "allocator \<Rightarrow> VALUE \<Rightarrow> rb_integer \<Rightarrow> long \<Rightarrow> bool \<Rightarrow> rb_integer pow_result" where
  "int_pow_tmp2 malloc x y mm nega_flg =
    pow_then (powm_loops malloc (MUL_MODULO (scast mm)) (FIX2LONG x) 1 y) (\<lambda>tmp.
      Some (Inr (Fixnum (LONG2FIX (if nega_flg \<and> tmp \<noteq> 0 then tmp - mm else tmp)))))"

text \<open>As objects.\<close>

definition mul_modulo3 :: "rb_integer \<Rightarrow> rb_integer mul_modulo" where
  "mul_modulo3 m same a b =
    pow_then (Some (map_sum Pow_bug id (rb_int_mul same a b))) (\<lambda>tmp.
      map_option (map_sum (\<lambda>_. Pow_ZeroDivisionError) id) (rb_int_modulo tmp m))"

definition int_pow_tmp3 :: "allocator \<Rightarrow> rb_integer \<Rightarrow> rb_integer \<Rightarrow> rb_integer \<Rightarrow> bool \<Rightarrow> rb_integer pow_result" where
  "int_pow_tmp3 malloc x y m nega_flg =
    pow_then (powm_loops malloc (mul_modulo3 m) x (Fixnum (LONG2FIX 1)) y) (\<lambda>tmp.
      Some (Inr (if nega_flg \<and> int_pos_p tmp then rb_int_minus tmp m else tmp)))"

text \<open>With a fixnum \<open>m\<close> the remainder is a fixnum, which is \<open>the_Fixnum\<close> of it.\<close>

primrec the_Fixnum :: "rb_integer \<Rightarrow> VALUE" where
  "the_Fixnum (Fixnum v) = v"
| "the_Fixnum (Bignum b) = 0"

definition rb_int_powm :: "allocator \<Rightarrow> rb_integer \<Rightarrow> rb_integer \<Rightarrow> rb_integer \<Rightarrow> rb_integer pow_result" where
  "rb_int_powm malloc a b m =
    (if int_neg_p b then Some (Inl Pow_RangeError)
     else let (m, nega_flg) = (if int_neg_p m then (rb_int_uminus m, True) else (m, False));
              a_mod = map_option (map_sum (\<lambda>_. Pow_ZeroDivisionError) id) (rb_int_modulo a m)
       in case m of
         Fixnum v \<Rightarrow>
           (let mm = FIX2LONG v
            in if mm = 0 then Some (Inl Pow_ZeroDivisionError)
               else if mm = 1 then Some (Inr (Fixnum (LONG2FIX 0)))
               else if mm \<le>s HALF_LONG_MSB then pow_then a_mod (\<lambda>a. int_pow_tmp1 malloc (the_Fixnum a) b mm nega_flg)
               else pow_then a_mod (\<lambda>a. int_pow_tmp2 malloc (the_Fixnum a) b mm nega_flg))
       | Bignum v \<Rightarrow>
           (if bigzero_p v then Some (Inl Pow_ZeroDivisionError)
            else if bignorm m = Fixnum (LONG2FIX 1) then Some (Inr (Fixnum (LONG2FIX 0)))
            else pow_then a_mod (\<lambda>a. int_pow_tmp3 malloc a b m nega_flg)))"

section \<open>Square and multiply is power\<close>

text \<open>The result satisfies \<open>P\<close>, or the end is one of the errors \<open>E\<close>.\<close>

definition pow_post :: "(pow_error \<Rightarrow> bool) \<Rightarrow> ('a \<Rightarrow> bool) \<Rightarrow> 'a pow_result \<Rightarrow> bool" where
  "pow_post E P r \<longleftrightarrow> (\<exists>z. r = Some (Inr z) \<and> P z) \<or> (\<exists>e. r = Some (Inl e) \<and> E e)"

lemma pow_post_Inr [simp]: "pow_post E P (Some (Inr z)) \<longleftrightarrow> P z"
  by (simp add: pow_post_def)

lemma pow_post_Inl [simp]: "pow_post E P (Some (Inl e)) \<longleftrightarrow> E e"
  by (simp add: pow_post_def)

lemma pow_post_then: "pow_post E Q r \<Longrightarrow> (\<And>z. Q z \<Longrightarrow> pow_post E P (f z)) \<Longrightarrow> pow_post E P (pow_then r f)"
  unfolding pow_post_def by (elim disjE exE conjE) fastforce+

lemma pow_post_mono: "pow_post E Q r \<Longrightarrow> (\<And>z. Q z \<Longrightarrow> P z) \<Longrightarrow> (\<And>e. E e \<Longrightarrow> E' e) \<Longrightarrow> pow_post E' P r"
  by (auto simp: pow_post_def)

text \<open>
  The \<open>rb_bug\<close> of a multiplication in the course of the computation: two factors below \<open>m\<close>, of 70 digits or
  more, whose product ends in it.
\<close>

definition mul_bug :: "int \<Rightarrow> pow_error \<Rightarrow> bool" where
  "mul_bug m e \<longleftrightarrow> (\<exists>u v wn n. e = Pow_bug (Wds_not_enough wn n) \<and> rb_int_mul False u v = Inl (Wds_not_enough wn n) \<and>
     normal u \<and> normal v \<and> 0 \<le> ival u \<and> ival u < m \<and> 0 \<le> ival v \<and> ival v < m \<and> 70 \<le> big_digits u \<and> 70 \<le> big_digits v)"

lemma power_halved: "(t * x ^ n) mod m = (if odd n then t * x mod m else t) * (x * x mod m) ^ (n div 2) mod m" for m :: int
proof -
  have sq: "x ^ (2 * k) = (x * x) ^ k" for k by (simp add: power_mult power2_eq_square)
  have "t * x ^ n = (if odd n then t * x else t) * (x * x) ^ (n div 2)"
  proof (cases "odd n")
    case True
    then obtain k where "n = Suc (2 * k)" by (auto elim: oddE)
    then show ?thesis using sq [of k] by simp
  next
    case False
    then obtain k where "n = 2 * k" by (auto elim: evenE)
    then show ?thesis using sq [of k] by simp
  qed
  moreover have "a * b ^ k mod m = (a mod m) * (b mod m) ^ k mod m" "a * (b mod m) ^ k mod m = a * b ^ k mod m" for a b :: int and k
    by (simp_all add: mod_mult_eq power_mod flip: mod_mult_right_eq [of _ "_ ^ _"])
  ultimately show ?thesis by (simp split: if_split)
qed

lemma abs_bigval: "\<bar>bigval d\<bar> = bval (BDIGITS d)"
  using bval_nonneg [of "BDIGITS d"] by (simp add: bigval_def)

text \<open>Digits of a smaller number in normal form.\<close>

lemma big_digits_mono:
  assumes "normal x" "normal y" "0 \<le> ival x" "ival x \<le> ival y"
  shows "big_digits x \<le> big_digits y"
proof (cases x)
  case (Bignum b)
  have b: "BDIGITS b \<noteq> []" "last (BDIGITS b) \<noteq> 0" "\<not> fixable (bigval b)" using assms(1) Bignum by simp_all
  show ?thesis
  proof (cases y)
    case (Bignum c)
    have "\<bar>bigval b\<bar> \<le> \<bar>bigval c\<bar>" using assms(3,4) Bignum \<open>x = Bignum b\<close> by simp
    then have "bval (BDIGITS b) \<le> bval (BDIGITS c)" by (simp only: abs_bigval)
    then have "(4294967296 :: int) ^ (BIGNUM_LEN b - 1) < 4294967296 ^ BIGNUM_LEN c"
      using bval_last [OF b(1,2)] bval_less [of "BDIGITS c"] by linarith
    then have "BIGNUM_LEN b - 1 < BIGNUM_LEN c" by (rule power_less_imp_less_exp [rotated]) simp
    then show ?thesis using Bignum \<open>x = Bignum b\<close> by simp
  next
    case (Fixnum v)
    have "fixable (ival y)" unfolding Fixnum by (rule fixable_Fixnum)
    then have "fixable (ival x)" using assms(3,4) by (simp add: fixable_def)
    then show ?thesis using Bignum b(3) by simp
  qed
qed simp

section \<open>The loops\<close>

lemma and_1_sint: "w AND 1 \<noteq> 0 \<longleftrightarrow> odd (sint w)" for w :: long
proof -
  have "w AND 1 \<noteq> 0 \<longleftrightarrow> odd w" by (simp add: and_one_eq mod_2_eq_odd)
  also have "\<dots> \<longleftrightarrow> odd (sint w)" by transfer (simp add: bit_0 [symmetric] bit_signed_take_bit_iff flip: bit_0)
  finally show ?thesis .
qed

lemma sint_halved: "sint (signed_drop_bit 1 w) = sint w div 2" for w :: long
  by (simp add: sint_signed_drop_bit_eq drop_bit_eq_div)

text \<open>Half of a positive bignum.\<close>

lemma rshift_one:
  assumes "normal (Bignum b)" "addressable b" "0 \<le> bigval b"
  shows "\<exists>z. rb_big_rshift malloc b (Fixnum (LONG2FIX 1)) = Inr z \<and> is_int (bigval b div 2) z \<and> fits_address_space z"
proof -
  have "\<exists>z. rb_big_rshift malloc b (Fixnum (LONG2FIX 1)) = Inr z \<and> is_int (bigval b div 2) z"
    using shifted_integer(2) [of "Bignum b" malloc "Fixnum (LONG2FIX 1)"] assms(1,2)
    by (simp add: shifted_def shift_too_wide_def int_shift_def del: ival.simps(1) normal.simps)
  then obtain z where z: "rb_big_rshift malloc b (Fixnum (LONG2FIX 1)) = Inr z" "is_int (bigval b div 2) z" by blast
  have "big_digits z \<le> big_digits (Bignum b)"
    using z(2) assms(1,3) by (intro big_digits_mono) (simp_all add: is_int_def pos_imp_zdiv_nonneg_iff del: normal.simps)
  then have "fits_address_space z" using assms(2) by (cases z) (simp_all add: addressable_def)
  then show ?thesis using z by blast
qed

text \<open>What a multiplication modulo \<open>modulus k\<close> of numbers below it must do for the loops to compute a power.\<close>

locale modular_pow =
  fixes mulmod :: "'k \<Rightarrow> 'a mul_modulo" and valid :: "'k \<Rightarrow> bool" and modulus :: "'k \<Rightarrow> int" and bug :: "'k \<Rightarrow> pow_error \<Rightarrow> bool"
    and rep :: "'a \<Rightarrow> int" and ok :: "'k \<Rightarrow> 'a \<Rightarrow> bool"
  assumes mulmod: "valid k \<Longrightarrow> ok k a \<Longrightarrow> ok k b \<Longrightarrow> (same \<Longrightarrow> a = b) \<Longrightarrow>
    pow_post (bug k) (\<lambda>c. ok k c \<and> rep c = rep a * rep b mod modulus k) (mulmod k same a b)"
begin

text \<open>One round: the bit of the exponent, then the square.\<close>

lemma round_post:
  assumes "valid k" "ok k xx" "ok k tmp"
    "\<And>xx' tmp'. ok k xx' \<Longrightarrow> ok k tmp' \<Longrightarrow> rep tmp' = (if odd n then rep tmp * rep xx mod modulus k else rep tmp) \<Longrightarrow> rep xx' = rep xx * rep xx mod modulus k \<Longrightarrow>
      pow_post (bug k) P (f tmp' xx')"
  shows "pow_post (bug k) P (pow_then (if odd n then mulmod k False tmp xx else Some (Inr tmp)) (\<lambda>tmp. pow_then (mulmod k True xx xx) (f tmp)))"
proof (rule pow_post_then [where Q = "\<lambda>c. ok k c \<and> rep c = (if odd n then rep tmp * rep xx mod modulus k else rep tmp)"])
  show "pow_post (bug k) (\<lambda>c. ok k c \<and> rep c = (if odd n then rep tmp * rep xx mod modulus k else rep tmp)) (if odd n then mulmod k False tmp xx else Some (Inr tmp))"
    using mulmod [OF assms(1,3,2), of False] assms(3) by simp
  fix t assume t: "ok k t \<and> rep t = (if odd n then rep tmp * rep xx mod modulus k else rep tmp)"
  show "pow_post (bug k) P (pow_then (mulmod k True xx xx) (f t))"
    by (rule pow_post_then [OF mulmod [OF assms(1,2,2) refl]]) (use t in \<open>auto intro: assms(4)\<close>)
qed

lemma powm_long_loop_post:
  "valid k \<Longrightarrow> ok k xx \<Longrightarrow> ok k tmp \<Longrightarrow> 0 \<le> sint yy \<Longrightarrow>
    pow_post (bug k) (\<lambda>t. ok k t \<and> rep t mod modulus k = rep tmp * rep xx ^ nat (sint yy) mod modulus k) (powm_long_loop (mulmod k) xx tmp yy)"
proof (induction "nat (sint yy)" arbitrary: xx tmp yy rule: less_induct)
  case less
  show ?case
  proof (cases "yy = 0")
    case True
    then show ?thesis using less.prems by (subst powm_long_loop.simps) simp
  next
    case False
    define n where "n = nat (sint yy)"
    have n: "0 < n" "odd n \<longleftrightarrow> yy AND 1 \<noteq> 0" "nat (sint (signed_drop_bit 1 yy)) = n div 2"
      using less.prems(4) False sint_eq_0_iff [of yy] by (simp_all add: n_def and_1_sint even_nat_iff sint_halved nat_div_distrib del: One_nat_def)
    have rest: "pow_post (bug k) (\<lambda>t. ok k t \<and> rep t mod modulus k = rep tmp * rep xx ^ n mod modulus k) (powm_long_loop (mulmod k) xx' tmp' (signed_drop_bit 1 yy))"
      if "ok k xx'" "ok k tmp'" "rep tmp' = (if odd n then rep tmp * rep xx mod modulus k else rep tmp)" "rep xx' = rep xx * rep xx mod modulus k" for xx' tmp'
    proof -
      have "nat (sint (signed_drop_bit 1 yy)) < nat (sint yy)" unfolding n(3) using n(1) by (simp add: n_def)
      moreover have "0 \<le> sint (signed_drop_bit 1 yy)" using less.prems(4) by (simp add: sint_halved del: One_nat_def)
      ultimately show ?thesis using less.hyps [of "signed_drop_bit 1 yy" xx' tmp'] that less.prems(1) n(3) power_halved [of "rep tmp" "rep xx" n "modulus k"] by simp
    qed
    show ?thesis using round_post [OF less.prems(1,2,3), of n, OF rest] False n(2) by (subst powm_long_loop.simps) (simp add: n_def)
  qed
qed

lemma powm_big_loop_post:
  "valid k \<Longrightarrow> ok k xx \<Longrightarrow> ok k tmp \<Longrightarrow> normal y \<Longrightarrow> fits_address_space y \<Longrightarrow> 0 \<le> ival y \<Longrightarrow>
    pow_post (bug k) (\<lambda>(xx', tmp', v). ok k xx' \<and> ok k tmp' \<and> 0 \<le> sint (FIX2LONG v) \<and>
        rep tmp' * rep xx' ^ nat (sint (FIX2LONG v)) mod modulus k = rep tmp * rep xx ^ nat (ival y) mod modulus k)
      (powm_big_loop malloc (mulmod k) xx tmp y)"
proof (induction "nat (ival y)" arbitrary: xx tmp y rule: less_induct)
  case less
  show ?case
  proof (cases y)
    case (Fixnum v)
    then show ?thesis using less.prems ival_Fixnum [of v] by (subst powm_big_loop.simps) (simp del: ival.simps)
  next
    case (Bignum b)
    define n where "n = nat (ival y)"
    have b: "normal (Bignum b)" "addressable b" "0 \<le> bigval b" using less.prems Bignum by simp_all
    obtain z where z: "rb_big_rshift malloc b (Fixnum (LONG2FIX 1)) = Inr z" "is_int (bigval b div 2) z" "fits_address_space z"
      using rshift_one [OF b, of malloc] by blast
    have "bigval b \<noteq> 0" using b(1) by (auto simp: fixable_def)
    then have n: "0 < n" "odd n \<longleftrightarrow> rb_int_odd_p y" "nat (ival z) = n div 2"
      using b(3) z(2) by (simp_all add: n_def Bignum rb_int_odd_p_is even_nat_iff is_int_def nat_div_distrib del: rb_int_odd_p.simps)
    have rest: "pow_post (bug k) (\<lambda>(xx', tmp', v). ok k xx' \<and> ok k tmp' \<and> 0 \<le> sint (FIX2LONG v) \<and>
          rep tmp' * rep xx' ^ nat (sint (FIX2LONG v)) mod modulus k = rep tmp * rep xx ^ n mod modulus k) (powm_big_loop malloc (mulmod k) xx' tmp' z)"
      if "ok k xx'" "ok k tmp'" "rep tmp' = (if odd n then rep tmp * rep xx mod modulus k else rep tmp)" "rep xx' = rep xx * rep xx mod modulus k" for xx' tmp'
    proof -
      have "nat (ival z) < nat (ival y)" unfolding n(3) using n(1) by (simp add: n_def)
      moreover have "0 \<le> ival z" "normal z" using z(2) b(3) by (simp_all add: is_int_def pos_imp_zdiv_nonneg_iff)
      ultimately show ?thesis
        using less.hyps [of z xx' tmp'] that less.prems(1) z(3) n(3) power_halved [of "rep tmp" "rep xx" n "modulus k"] by simp
    qed
    show ?thesis using round_post [OF less.prems(1,2,3), of n, OF rest] n(2) z(1) Bignum
      by (subst powm_big_loop.simps) (simp add: n_def del: rb_int_odd_p.simps)
  qed
qed

lemma powm_loops_post:
  assumes "valid k" "ok k xx" "ok k tmp" "normal y" "fits_address_space y" "0 \<le> ival y"
  shows "pow_post (bug k) (\<lambda>t. ok k t \<and> rep t mod modulus k = rep tmp * rep xx ^ nat (ival y) mod modulus k) (powm_loops malloc (mulmod k) xx tmp y)"
  unfolding powm_loops_def
  by (rule pow_post_then [OF powm_big_loop_post [OF assms]]) (use powm_long_loop_post [OF assms(1)] in \<open>fastforce split: prod.splits\<close>)

end

lemma smod_nonneg: "0 \<le> a \<Longrightarrow> 0 < b \<Longrightarrow> a smod b = a mod b" for a b :: int
  by (intro smod_mod_positive) simp_all

text \<open>The product of numbers below \<open>mm\<close> fits into 64 bits if \<open>mm\<close> is at most \<open>HALF_LONG_MSB\<close>.\<close>

lemma product_below:
  fixes a b m l :: int
  assumes "0 \<le> a" "a < m" "0 \<le> b" "b < m" "m \<le> l"
  shows "0 \<le> a * b \<and> a * b < l * l"
proof -
  have "a * b < m * m" using assms by (intro mult_strict_mono) simp_all
  also have "\<dots> \<le> l * l" using assms by (intro mult_mono) simp_all
  finally show ?thesis using assms by simp
qed

lemma HALF_LONG_MSB_sint: "sint HALF_LONG_MSB = 2147483648"
  by (simp add: HALF_LONG_MSB_def push_bit_eq_mult)

interpretation tmp1: modular_pow mul_modulo1 "\<lambda>mm. 0 < sint mm \<and> sint mm \<le> sint HALF_LONG_MSB" sint "\<lambda>_ _. False"
    sint "\<lambda>mm a. 0 \<le> sint a \<and> sint a < sint mm"
proof
  fix mm a b :: long and same
  assume k: "0 < sint mm \<and> sint mm \<le> sint HALF_LONG_MSB" and a: "0 \<le> sint a \<and> sint a < sint mm" and b: "0 \<le> sint b \<and> sint b < sint mm"
  have p: "0 \<le> sint a * sint b" "sint a * sint b < 4611686018427387904"
    using product_below [of "sint a" "sint mm" "sint b" 2147483648] k a b by (simp_all add: HALF_LONG_MSB_sint)
  have "a * b = word_of_int (sint a * sint b)" by (simp add: of_int_sint)
  then have "sint (a * b) = sint a * sint b" using p sint_wrap [of "sint a * sint b"] by simp
  moreover have r: "0 \<le> sint a * sint b mod sint mm" "sint a * sint b mod sint mm < sint mm" using k by simp_all
  moreover have "sint (word_of_int (sint a * sint b mod sint mm) :: long) = sint a * sint b mod sint mm"
    by (intro sint_wrap; use r k HALF_LONG_MSB_sint in linarith)
  ultimately show "pow_post (\<lambda>_. False) (\<lambda>c. (0 \<le> sint c \<and> sint c < sint mm) \<and> sint c = sint a * sint b mod sint mm) (mul_modulo1 mm same a b)"
    using p(1) k by (simp add: mul_modulo1_def smod_nonneg)
qed

interpretation tmp2: modular_pow "\<lambda>mm :: long. MUL_MODULO (scast mm)" "\<lambda>mm. 0 < sint mm" sint "\<lambda>_ _. False"
    sint "\<lambda>mm a. 0 \<le> sint a \<and> sint a < sint mm"
proof
  fix mm a b :: long and same
  assume k: "0 < sint mm" and a: "0 \<le> sint a \<and> sint a < sint mm" and b: "0 \<le> sint b \<and> sint b < sint mm"
  have l: "sint mm < 9223372036854775808" using sint_range(2) [of mm] by simp
  have s: "sint (scast w :: 128 word) = sint w" for w :: long by (simp add: sint_up_scast is_up)
  have p: "0 \<le> sint a * sint b" "sint a * sint b < 85070591730234615865843651857942052864"
    using product_below [of "sint a" "sint mm" "sint b" 9223372036854775808] l a b by simp_all
  have "(scast a * scast b :: 128 word) = word_of_int (sint a * sint b)" by (simp add: of_int_sint flip: s)
  then have "sint (scast a * scast b :: 128 word) = sint a * sint b"
    using p sint128_wrap [of "sint a * sint b"] by simp
  moreover have r: "0 \<le> sint a * sint b mod sint mm" "sint a * sint b mod sint mm < sint mm" using k by simp_all
  moreover have "sint (word_of_int (sint a * sint b mod sint mm) :: long) = sint a * sint b mod sint mm"
    by (intro sint_wrap; use r l in linarith)
  ultimately show "pow_post (\<lambda>_. False) (\<lambda>c. (0 \<le> sint c \<and> sint c < sint mm) \<and> sint c = sint a * sint b mod sint mm) (MUL_MODULO (scast mm) same a b)"
    using p(1) k by (simp add: MUL_MODULO_def smod_nonneg s)
qed

interpretation tmp3: modular_pow mul_modulo3 "\<lambda>m. normal m \<and> 0 < ival m" ival "\<lambda>m. mul_bug (ival m)"
    ival "\<lambda>m a. normal a \<and> 0 \<le> ival a \<and> ival a < ival m"
proof
  fix m a b same
  assume k: "normal m \<and> 0 < ival m" and a: "normal a \<and> 0 \<le> ival a \<and> ival a < ival m" and b: "normal b \<and> 0 \<le> ival b \<and> ival b < ival m"
    and same: "same \<Longrightarrow> a = b"
  have "mul_post (\<not> same \<and> 70 \<le> big_digits a \<and> 70 \<le> big_digits b) (rb_int_mul same a b) (is_int (ival a * ival b))"
    by (rule rb_int_mul_post) (use same a b in blast)+
  then have "pow_post (mul_bug (ival m)) (is_int (ival a * ival b)) (Some (map_sum Pow_bug id (rb_int_mul same a b)))"
    using a b unfolding mul_post_iff pow_post_def mul_bug_def by (elim disjE exE conjE) auto
  then show "pow_post (mul_bug (ival m)) (\<lambda>c. (normal c \<and> 0 \<le> ival c \<and> ival c < ival m) \<and> ival c = ival a * ival b mod ival m)
      (mul_modulo3 m same a b)"
    unfolding mul_modulo3_def
  proof (rule pow_post_then)
    fix z assume z: "is_int (ival a * ival b) z"
    then have "normal z" "normal m" "ival m \<noteq> 0" using k by (simp_all add: is_int_def)
    from rb_int_div_is(2) [OF this] show "pow_post (mul_bug (ival m))
        (\<lambda>c. (normal c \<and> 0 \<le> ival c \<and> ival c < ival m) \<and> ival c = ival a * ival b mod ival m)
        (map_option (map_sum (\<lambda>_. Pow_ZeroDivisionError) id) (rb_int_modulo z m))"
      using z k by (auto simp: is_int_def)
  qed
qed

section \<open>What the functions compute\<close>

lemma int_sign_p: "int_pos_p x = rb_num_positive_int_p x" "int_neg_p x = rb_num_negative_int_p x"
  by (cases x; simp)+

text \<open>The remainder for the modulus of the other sign.\<close>

lemma mod_signed: "a mod (if neg then - m else m) = (if neg \<and> a mod m \<noteq> 0 then a mod m - m else a mod m)" for a m :: int
  by (simp add: zmod_zminus2_eq_if)

lemma fixnum_tmp:
  assumes "0 \<le> sint tmp" "sint tmp < sint mm" "sint mm < 4611686018427387904"
    "sint tmp mod sint mm = v mod sint mm"
  shows "is_int (v mod (if neg then - sint mm else sint mm)) (Fixnum (LONG2FIX (if neg \<and> tmp \<noteq> 0 then tmp - mm else tmp)))"
proof -
  have t: "sint tmp = v mod sint mm" using assms by simp
  have "sint (tmp - mm) = sint tmp - sint mm" using assms by (intro sint_sub_fits) simp_all
  then have "sint (if neg \<and> tmp \<noteq> 0 then tmp - mm else tmp) = v mod (if neg then - sint mm else sint mm)"
    unfolding mod_signed using t sint_eq_0_iff [of tmp] by auto
  moreover have "fixable (sint (if neg \<and> tmp \<noteq> 0 then tmp - mm else tmp))"
    using assms \<open>sint (tmp - mm) = _\<close> by (simp add: fixable_def)
  ultimately show ?thesis using is_int_LONG2FIX by metis
qed

lemma fixnum_tmp_post:
  assumes "pow_post (\<lambda>_. False) (\<lambda>t. (0 \<le> sint t \<and> sint t < sint mm) \<and> sint t mod sint mm = v mod sint mm) r" "sint mm < 4611686018427387904"
  shows "pow_post bug (is_int (v mod (if neg then - sint mm else sint mm)))
    (pow_then r (\<lambda>tmp. Some (Inr (Fixnum (LONG2FIX (if neg \<and> tmp \<noteq> 0 then tmp - mm else tmp))))))"
proof -
  obtain t where t: "r = Some (Inr t)" "0 \<le> sint t" "sint t < sint mm" "sint t mod sint mm = v mod sint mm"
    using assms(1) by (auto simp: pow_post_def)
  show ?thesis unfolding t(1) pow_then_simps pow_post_Inr by (rule fixnum_tmp [OF t(2,3) assms(2) t(4)])
qed

lemma fixnum_below: "0 \<le> ival a \<Longrightarrow> ival a < sint (mm :: long) \<Longrightarrow> sint mm < 4611686018427387904 \<Longrightarrow> normal a \<Longrightarrow>
  \<exists>v. a = Fixnum v \<and> sint (FIX2LONG v) = ival a"
  using ival_Fixnum by (cases a) (auto simp: fixable_def simp del: ival.simps(1))

lemma int_pow_tmp1_spec:
  assumes "0 < sint mm" "sint mm \<le> sint HALF_LONG_MSB" "1 < sint mm" "0 \<le> sint (FIX2LONG x)" "sint (FIX2LONG x) < sint mm"
    "normal y" "fits_address_space y" "0 \<le> ival y"
  shows "pow_post bug (is_int (sint (FIX2LONG x) ^ nat (ival y) mod (if neg then - sint mm else sint mm))) (int_pow_tmp1 malloc x y mm neg)"
proof -
  have "pow_post (\<lambda>_. False) (\<lambda>t. (0 \<le> sint t \<and> sint t < sint mm) \<and> sint t mod sint mm = sint (FIX2LONG x) ^ nat (ival y) mod sint mm)
      (powm_loops malloc (mul_modulo1 mm) (FIX2LONG x) 1 y)"
    using tmp1.powm_loops_post [of mm "FIX2LONG x" 1 y malloc] assms by simp
  then show ?thesis unfolding int_pow_tmp1_def by (rule fixnum_tmp_post) (use assms(2) HALF_LONG_MSB_sint in linarith)
qed

lemma int_pow_tmp2_spec:
  assumes "1 < sint mm" "sint mm < 4611686018427387904" "0 \<le> sint (FIX2LONG x)" "sint (FIX2LONG x) < sint mm"
    "normal y" "fits_address_space y" "0 \<le> ival y"
  shows "pow_post bug (is_int (sint (FIX2LONG x) ^ nat (ival y) mod (if neg then - sint mm else sint mm))) (int_pow_tmp2 malloc x y mm neg)"
proof -
  have "pow_post (\<lambda>_. False) (\<lambda>t. (0 \<le> sint t \<and> sint t < sint mm) \<and> sint t mod sint mm = sint (FIX2LONG x) ^ nat (ival y) mod sint mm)
      (powm_loops malloc (MUL_MODULO (scast mm)) (FIX2LONG x) 1 y)"
    using tmp2.powm_loops_post [of mm "FIX2LONG x" 1 y malloc] assms by simp
  then show ?thesis unfolding int_pow_tmp2_def by (rule fixnum_tmp_post [OF _ assms(2)])
qed

lemma int_pow_tmp3_spec:
  assumes "normal m" "1 < ival m" "normal x" "0 \<le> ival x" "ival x < ival m" "normal y" "fits_address_space y" "0 \<le> ival y"
  shows "pow_post (mul_bug (ival m)) (is_int (ival x ^ nat (ival y) mod (if neg then - ival m else ival m))) (int_pow_tmp3 malloc x y m neg)"
proof -
  have "pow_post (mul_bug (ival m)) (\<lambda>t. (normal t \<and> 0 \<le> ival t \<and> ival t < ival m) \<and> ival t mod ival m = ival x ^ nat (ival y) mod ival m)
      (powm_loops malloc (mul_modulo3 m) x (Fixnum (LONG2FIX 1)) y)"
    using tmp3.powm_loops_post [of m x "Fixnum (LONG2FIX 1)" y malloc] assms is_int_LONG2FIX [of 1]
    by (simp add: is_int_def fixable_def del: ival.simps normal.simps)
  then show ?thesis unfolding int_pow_tmp3_def
  proof (rule pow_post_then)
    fix t assume t: "(normal t \<and> 0 \<le> ival t \<and> ival t < ival m) \<and> ival t mod ival m = ival x ^ nat (ival y) mod ival m"
    then have v: "ival t = ival x ^ nat (ival y) mod ival m" "normal t" using mod_pos_pos_trivial [of "ival t" "ival m"] by auto
    have pos: "int_pos_p t \<longleftrightarrow> ival t \<noteq> 0" using t by (auto simp: int_sign_p rb_num_sign_is)
    show "pow_post (mul_bug (ival m)) (is_int (ival x ^ nat (ival y) mod (if neg then - ival m else ival m)))
        (Some (Inr (if neg \<and> int_pos_p t then rb_int_minus t m else t)))"
      unfolding mod_signed pow_post_Inr pos using v rb_int_minus_is [OF v(2) assms(1)] by (auto simp: is_int_def)
  qed
qed

lemma big_digits_abs:
  assumes "normal m" "normal M" "ival M = \<bar>ival m\<bar>"
  shows "70 \<le> big_digits M \<Longrightarrow> 70 \<le> big_digits m"
proof (cases m)
  case (Bignum c)
  have "BDIGITS v = BDIGITS c" if "M = Bignum v" for v
  proof -
    have "bval (BDIGITS v) = bval (BDIGITS c)" using assms(3) that Bignum by (simp flip: abs_bigval)
    then show ?thesis using assms(1,2) that Bignum by (intro digits_unique) simp_all
  qed
  then show "70 \<le> big_digits M \<Longrightarrow> 70 \<le> big_digits m" using Bignum by (cases M) simp_all
next
  case (Fixnum w)
  have "\<bar>ival m\<bar> \<le> 4611686018427387904" using fixable_Fixnum [of w] unfolding Fixnum fixable_def by linarith
  then have less: "ival M < 4294967296 ^ 2" using assms(3) by simp
  assume "70 \<le> big_digits M"
  then obtain v where v: "M = Bignum v" "70 \<le> BIGNUM_LEN v" by (cases M) simp_all
  have "ival M = bval (BDIGITS v)"
    using assms(3) v(1) by (simp flip: abs_bigval)
  then have "(4294967296 :: int) ^ (BIGNUM_LEN v - 1) < 4294967296 ^ 2" using less bval_last [of "BDIGITS v"] assms(2) v(1) by simp
  then have "BIGNUM_LEN v - 1 < 2" by (rule power_less_imp_less_exp [rotated]) simp
  then show "70 \<le> big_digits m" using v(2) by simp
qed

lemma rb_int_powm_spec:
  assumes "normal a" "normal b" "normal m" "fits_address_space b"
  shows "if ival b < 0 then rb_int_powm malloc a b m = Some (Inl Pow_RangeError)
    else if ival m = 0 then rb_int_powm malloc a b m = Some (Inl Pow_ZeroDivisionError)
    else pow_post (mul_bug \<bar>ival m\<bar>) (is_int (ival a ^ nat (ival b) mod ival m)) (rb_int_powm malloc a b m)"
proof (cases "ival b < 0")
  case True
  then show ?thesis using assms by (simp add: rb_int_powm_def int_sign_p rb_num_sign_is)
next
  case b0: False
  define neg where "neg \<longleftrightarrow> ival m < 0"
  define M where "M = (if neg then rb_int_uminus m else m)"
  define a_mod where "a_mod = map_option (map_sum (\<lambda>_ :: num_error. Pow_ZeroDivisionError) id) (rb_int_modulo a M)"
  have M: "normal M" "ival M = \<bar>ival m\<bar>" using rb_int_uminus_is [of m] assms(3) by (auto simp: M_def neg_def is_int_def)
  have m: "ival m = (if neg then - ival M else ival M)" unfolding M(2) neg_def by simp
  have code: "rb_int_powm malloc a b m = (case M of
         Fixnum v \<Rightarrow>
           (let mm = FIX2LONG v
            in if mm = 0 then Some (Inl Pow_ZeroDivisionError)
               else if mm = 1 then Some (Inr (Fixnum (LONG2FIX 0)))
               else if mm \<le>s HALF_LONG_MSB then pow_then a_mod (\<lambda>a. int_pow_tmp1 malloc (the_Fixnum a) b mm neg)
               else pow_then a_mod (\<lambda>a. int_pow_tmp2 malloc (the_Fixnum a) b mm neg))
       | Bignum v \<Rightarrow>
           (if bigzero_p v then Some (Inl Pow_ZeroDivisionError)
            else if bignorm M = Fixnum (LONG2FIX 1) then Some (Inr (Fixnum (LONG2FIX 0)))
            else pow_then a_mod (\<lambda>a. int_pow_tmp3 malloc a b M neg)))"
  proof -
    have "(if int_neg_p m then (rb_int_uminus m, True) else (m, False)) = (M, neg)"
      using assms(3) by (simp add: int_sign_p rb_num_sign_is M_def neg_def)
    moreover have "\<not> int_neg_p b" using b0 assms(2) by (simp add: int_sign_p rb_num_sign_is)
    ultimately show ?thesis unfolding rb_int_powm_def a_mod_def by (simp only: Let_def prod.case if_False)
  qed
  have amod: "\<exists>r. a_mod = Some (Inr r) \<and> normal r \<and> ival r = ival a mod ival M \<and> 0 \<le> ival r \<and> ival r < ival M" if "ival m \<noteq> 0"
  proof -
    have "ival M \<noteq> 0" "0 < ival M" using that M(2) by simp_all
    then show ?thesis using rb_int_div_is(2) [OF assms(1) M(1)] by (auto simp: a_mod_def is_int_def)
  qed
  have pow: "(ival a mod ival M) ^ n mod ival m = ival a ^ n mod ival m" for n
    unfolding m by (cases neg) (simp_all add: power_mod zmod_zminus2_eq_if)
  show ?thesis
  proof (cases M)
    case (Fixnum v)
    define mm where "mm = FIX2LONG v"
    have mm: "sint mm = ival M" "sint mm < 4611686018427387904" "0 \<le> sint mm"
      using ival_Fixnum [of v] fixable_FIX2LONG [of v] M(2) unfolding Fixnum mm_def fixable_def by simp_all
    have code: "rb_int_powm malloc a b m =
      (if mm = 0 then Some (Inl Pow_ZeroDivisionError)
       else if mm = 1 then Some (Inr (Fixnum (LONG2FIX 0)))
       else if mm \<le>s HALF_LONG_MSB then pow_then a_mod (\<lambda>a. int_pow_tmp1 malloc (the_Fixnum a) b mm neg)
       else pow_then a_mod (\<lambda>a. int_pow_tmp2 malloc (the_Fixnum a) b mm neg))"
      using code unfolding Fixnum by (simp add: Let_def flip: mm_def)
    have eq: "mm = 0 \<longleftrightarrow> ival m = 0" "mm = 1 \<longleftrightarrow> ival M = 1"
      using mm(1) M(2) sint_eq_0_iff [of mm] by (auto simp: signed_word_eqI)
    show ?thesis
    proof (cases "ival m = 0 \<or> ival M = 1")
      case True
      moreover have "ival m dvd 1" if "ival M = 1" using that M(2) by (simp add: zdvd1_eq)
      then have "ival a ^ nat (ival b) mod ival m = 0" if "ival M = 1" using that by (metis dvd_trans one_dvd dvd_eq_mod_eq_0)
      ultimately show ?thesis using b0 eq is_int_small M(2) by (auto simp: code)
    next
      case False
      then have m0: "ival m \<noteq> 0" "1 < sint mm" using mm(1) M(2) by auto
      obtain r where r: "a_mod = Some (Inr r)" "normal r" "ival r = ival a mod ival M" "0 \<le> ival r" "ival r < ival M"
        using amod [OF m0(1)] by blast
      obtain w where w: "r = Fixnum w" "sint (FIX2LONG w) = ival r" using fixnum_below [of r mm] r mm by auto
      have range: "0 \<le> sint (FIX2LONG w)" "sint (FIX2LONG w) < sint mm" using w(2) r(4,5) mm(1) by simp_all
      have val: "sint (FIX2LONG w) ^ nat (ival b) mod (if neg then - sint mm else sint mm) = ival a ^ nat (ival b) mod ival m"
        unfolding w(2) r(3) mm(1) using pow m by simp
      have "pow_post (mul_bug \<bar>ival m\<bar>) (is_int (ival a ^ nat (ival b) mod ival m))
          (if mm \<le>s HALF_LONG_MSB then int_pow_tmp1 malloc w b mm neg else int_pow_tmp2 malloc w b mm neg)"
        using int_pow_tmp1_spec [of mm w b _ neg malloc, unfolded val] int_pow_tmp2_spec [of mm w b _ neg malloc, unfolded val]
          m0(2) mm(2) range assms(2,4) b0 by (auto simp: word_sle_eq)
      moreover have "rb_int_powm malloc a b m = (if mm \<le>s HALF_LONG_MSB then int_pow_tmp1 malloc w b mm neg else int_pow_tmp2 malloc w b mm neg)"
        using m0 by (simp add: code eq(1) r(1) w(1)) auto
      ultimately show ?thesis using b0 m0(1) by simp
    qed
  next
    case (Bignum v)
    have v: "\<not> fixable (bigval v)" "ival M = bigval v" using M(1) Bignum by simp_all
    then have big: "1 < ival M" "ival m \<noteq> 0" using M(2) by (auto simp: fixable_def)
    have "\<not> bigzero_p v" using big v(2) by (auto simp: bigval_def bigzero_p_def bary_zero_p_iff split: if_splits)
    moreover have "bignorm M \<noteq> Fixnum (LONG2FIX 1)"
      using ival_bignorm [of v] big(1) v(2) by (metis Bignum ival_one less_irrefl)
    ultimately have code: "rb_int_powm malloc a b m = pow_then a_mod (\<lambda>a. int_pow_tmp3 malloc a b M neg)" using code unfolding Bignum by simp
    obtain r where r: "a_mod = Some (Inr r)" "normal r" "ival r = ival a mod ival M" "0 \<le> ival r" "ival r < ival M"
      using amod [OF big(2)] by blast
    have val: "ival r ^ nat (ival b) mod (if neg then - ival M else ival M) = ival a ^ nat (ival b) mod ival m"
      unfolding r(3) using pow m by simp
    have "pow_post (mul_bug (ival M)) (is_int (ival a ^ nat (ival b) mod ival m)) (int_pow_tmp3 malloc r b M neg)"
      using int_pow_tmp3_spec [of M r b neg malloc, unfolded val] M(1) big(1) r assms(2,4) b0 by simp
    then show ?thesis using b0 big(2) by (simp add: code r(1) M(2))
  qed
qed

section \<open>The property\<close>

text \<open>C39: \<open>Integer#pow\<close> with a modulus raises \<open>RangeError\<close> for a negative exponent and
  \<open>ZeroDivisionError\<close> for the modulus zero.  With a modulus of less than 70 digits (2240 bits) it else always returns
  the power modulo \<open>m\<close>, with the sign of \<open>m\<close> as \<open>%\<close> has it, whether the products are formed in 64 bits, in 128
  bits or as bignums: no product wraps.  With a longer modulus it returns that, too, unless it comes to multiply two
  different numbers below the modulus, of 70 digits or more, whose product ends in the \<open>rb_bug\<close> of the
  multiplication without GMP; then it ends in the same.
\<close>

theorem integer_modular_power:
  assumes "normal a" "normal b" "normal m" "fits_address_space b"
  shows "if ival b < 0 then rb_int_powm malloc a b m = Some (Inl Pow_RangeError)
    else if ival m = 0 then rb_int_powm malloc a b m = Some (Inl Pow_ZeroDivisionError)
    else (\<exists>z. rb_int_powm malloc a b m = Some (Inr z) \<and> normal z \<and> ival z = ival a ^ nat (ival b) mod ival m) \<or>
      70 \<le> big_digits m \<and> (\<exists>u v wn n. rb_int_powm malloc a b m = Some (Inl (Pow_bug (Wds_not_enough wn n))) \<and>
        rb_int_mul False u v = Inl (Wds_not_enough wn n) \<and> normal u \<and> normal v \<and> 0 \<le> ival u \<and> ival u < \<bar>ival m\<bar> \<and>
        0 \<le> ival v \<and> ival v < \<bar>ival m\<bar> \<and> 70 \<le> big_digits u \<and> 70 \<le> big_digits v)"
proof -
  have long: "70 \<le> big_digits m" if "normal u" "0 \<le> ival u" "ival u < \<bar>ival m\<bar>" "70 \<le> big_digits u" for u
  proof -
    define M where "M = (if ival m < 0 then rb_int_uminus m else m)"
    have M: "normal M" "ival M = \<bar>ival m\<bar>" using rb_int_uminus_is [of m] assms(3) by (auto simp: M_def is_int_def)
    have "big_digits u \<le> big_digits M" by (rule big_digits_mono [OF that(1) M(1) that(2)]) (use that(3) M(2) in simp)
    then show ?thesis using big_digits_abs [OF assms(3) M] that(4) by linarith
  qed
  show ?thesis
  proof (cases "ival b < 0 \<or> ival m = 0")
    case True
    then show ?thesis using rb_int_powm_spec [OF assms, of malloc] by auto
  next
    case False
    then have "pow_post (mul_bug \<bar>ival m\<bar>) (is_int (ival a ^ nat (ival b) mod ival m)) (rb_int_powm malloc a b m)"
      using rb_int_powm_spec [OF assms, of malloc] by (simp split: if_splits)
    then have "(\<exists>z. rb_int_powm malloc a b m = Some (Inr z) \<and> normal z \<and> ival z = ival a ^ nat (ival b) mod ival m) \<or>
        70 \<le> big_digits m \<and> (\<exists>u v wn n. rb_int_powm malloc a b m = Some (Inl (Pow_bug (Wds_not_enough wn n))) \<and>
        rb_int_mul False u v = Inl (Wds_not_enough wn n) \<and> normal u \<and> normal v \<and> 0 \<le> ival u \<and> ival u < \<bar>ival m\<bar> \<and>
        0 \<le> ival v \<and> ival v < \<bar>ival m\<bar> \<and> 70 \<le> big_digits u \<and> 70 \<le> big_digits v)"
      unfolding pow_post_def
    proof (elim disjE exE conjE)
      fix z assume "rb_int_powm malloc a b m = Some (Inr z)" "is_int (ival a ^ nat (ival b) mod ival m) z"
      then show ?thesis by (auto simp: is_int_def)
    next
      fix e assume e: "rb_int_powm malloc a b m = Some (Inl e)" "mul_bug \<bar>ival m\<bar> e"
      from e(2) [unfolded mul_bug_def] show ?thesis
      proof (elim exE conjE)
        fix u v wn n
        assume "e = Pow_bug (Wds_not_enough wn n)" "rb_int_mul False u v = Inl (Wds_not_enough wn n)" "normal u" "normal v"
          "0 \<le> ival u" "ival u < \<bar>ival m\<bar>" "0 \<le> ival v" "ival v < \<bar>ival m\<bar>" "70 \<le> big_digits u" "70 \<le> big_digits v"
        then show ?thesis using e(1) long [of u] by blast
      qed
    qed
    then show ?thesis using False by simp
  qed
qed

theorem integer_modular_power_witness:
  "\<exists>z. rb_int_powm (\<lambda>_. True) (Fixnum (LONG2FIX 3)) (Fixnum (LONG2FIX 5)) (Fixnum (LONG2FIX (- 7))) = Some (Inr z) \<and> ival z = - 2"
proof -
  have v: "normal (Fixnum (LONG2FIX n)) \<and> ival (Fixnum (LONG2FIX n)) = sint n" if "fixable (sint n)" for n
    using is_int_LONG2FIX [OF that] by (simp add: is_int_def)
  show ?thesis
    using integer_modular_power [of "Fixnum (LONG2FIX 3)" "Fixnum (LONG2FIX 5)" "Fixnum (LONG2FIX (- 7))"] v [of 3] v [of 5] v [of "- 7"]
    by (auto simp: fixable_def simp del: ival.simps normal.simps)
qed

end
