(* ===== verification/Big_Pow.thy ===== *)
theory Big_Pow
  imports Big_Powm
begin

text \<open>
  Powers of integers (numeric.c, bignum.c): \<open>Integer#**\<close> with an integer exponent of either sign.  Where
  the code turns to floating point, the number is kept as the expression that computes it.  Every product
  asks the allocator (\<open>malloc\<close>) for its digits first, as a power can be much longer than its base; the work
  areas inside a multiplication are taken to be found.
\<close>

section \<open>Bignums\<close>

datatype dbl = Dbl_of rb_integer | Dbl_pow dbl dbl | Dbl_inverse dbl

text \<open>An integer, the rational \<open>1/z\<close> or a float.\<close>

datatype pow_value = PowInt rb_integer | PowRational rb_integer | PowDbl dbl


definition BIGLEN_LIMIT :: u64 where "BIGLEN_LIMIT = 32 * 1024 * 1024"




section \<open>Fixnums\<close>






text \<open>\<open>y\<close> is the power to \<open>minusb\<close>.\<close>

definition fix_pow_inverted :: "VALUE \<Rightarrow> pow_value pow_result \<Rightarrow> pow_value pow_result" where
  "fix_pow_inverted x y =
    (if x = LONG2FIX 0 then Some (Inl Pow_ZeroDivisionError)
     else pow_then y (\<lambda>y. Some (case y of
         PowDbl d \<Rightarrow> Inr (PowDbl (Dbl_inverse (Dbl_pow (Dbl_of (Fixnum x)) d)))
       | PowInt z \<Rightarrow> Inr (PowRational z)
       | PowRational z \<Rightarrow> Inl Pow_coerce)))"

lemma fix_pow_inverted_mono [partial_function_mono]:
  "mono_option f \<Longrightarrow> mono_option (\<lambda>g. fix_pow_inverted x (f g))"
  unfolding fix_pow_inverted_def pow_then_def by (intro if_mono bind_mono option.const_mono)



section \<open>The loop over the bits of the exponent\<close>


















section \<open>Powers of bignums\<close>











text \<open>The product in the test does wrap: \<open>2 ^ 63\<close> to the power \<open>2 ^ 58\<close> passes it and is computed as an integer.\<close>

lemma big_pow_guard_wraps:
  "rb_absint_numwords (Bignum \<lparr>BIGNUM_SIGN = True, BDIGITS = [0, 2147483648]\<rparr>) 1 = Some (64, 0)"
  "\<not> (of_nat 64 > BIGLEN_LIMIT \<or> of_nat 64 * 288230376151711744 > BIGLEN_LIMIT)"
proof -
  define x where "x = Bignum \<lparr>BIGNUM_SIGN = True, BDIGITS = [0, 2147483648]\<rparr>"
  obtain b t where "rb_absint_size x = (b, t)" by fastforce
  then have "rb_absint_numwords x 1 = Some (absint_numwords_small b t 1)" by (simp add: rb_absint_numwords_def)
  then obtain n z where r: "rb_absint_numwords x 1 = Some (n, z)" by (metis surj_pair)
  have "ival x = 9223372036854775808" by (simp add: x_def bigval_def)
  then have "n = bit_width 9223372036854775808" "z = 0" using rb_absint_numwords_spec [OF r] by simp_all
  moreover have "bit_width (9223372036854775808 :: nat) \<le> 64" "\<not> bit_width (9223372036854775808 :: nat) \<le> 63"
    unfolding bit_width_le_iff by simp_all
  then have "bit_width (9223372036854775808 :: nat) = 64" by linarith
  ultimately show "rb_absint_numwords (Bignum \<lparr>BIGNUM_SIGN = True, BDIGITS = [0, 2147483648]\<rparr>) 1 = Some (64, 0)"
    using r by (simp add: x_def)
qed (simp add: BIGLEN_LIMIT_def)






section \<open>Powers of fixnums\<close>










section \<open>The method\<close>














section \<open>The property\<close>



end
