(* ===== verification/Spec2Isabelle.thy ===== *)
theory Spec2Isabelle
  imports St_Properties RHash_Properties Id_Table_Properties Sync_Properties Bary_Properties Integer_Properties Pack_Properties Big_Pow
begin

text \<open>
  Verification of the core of the Ruby 3.1.4 runtime vendored under \<open>src/ruby-3.1.4\<close>.  The rest of the
  repository is a Flutter application in Dart with the glue of its platforms; its C code is this runtime.
  The theories model five parts of it that the others rest on, in the order of their dependencies.

  \<^bold>\<open>Hash tables\<close> (\<open>st.c\<close>, \<open>include/ruby/st.h\<close>, \<open>internal/bits.h\<close>).  \<open>St_Table\<close> has the table
  (\<open>struct st_table\<close> as a record: the array of entries with its live range, the bins, the power sizes)
  and every operation; \<open>Bits\<close> the leading-zero count behind the sizes; \<open>St_Foreach\<close> the traversal with
  its callback, \<open>St_Bulk\<close> bulk insertion, \<open>St_Hash\<close> the built-in key types.  Pointers to arrays are lists,
  an index is a \<open>nat\<close>, a bin holds an index plus \<open>ENTRY_BASE\<close>; a search that would not end is \<open>None\<close>
  (\<open>partial_function (option)\<close>).  \<open>St_Inv\<close> states the invariant, \<open>St_Probe\<close> that the probe sequence
  reaches every bin, \<open>St_Search\<close>, \<open>St_Update\<close> and \<open>St_Rebuild\<close> what the searches, the three kinds of
  writes and rebuilding do, \<open>St_Ops\<close> that the operations refine those of an association list.
  \<open>Ordered_Hash\<close> is the interface that both kinds of table implement (locales, interpreted on each).

  \<^bold>\<open>Hash objects\<close> (\<open>hash.c\<close>).  \<open>Ar_Table\<close> and \<open>Ar_Ops\<close>: the table of at most eight pairs with one-byte
  hints.  \<open>RHash\<close>, \<open>RHash_Ops\<close>: objects of class \<open>Hash\<close>, which use either table and convert from one
  to the other, and the level of iterations.  They rest on the interface, not on the tables.

  \<^bold>\<open>Id tables\<close> (\<open>id_table.c\<close>).  \<open>Id_Table\<close>: the table; \<open>Id_Table_Ops\<close>: its invariant (the probe sequence
  is a permutation of the slots, a collision mark is left on every slot passed) and that it is a map.

  \<^bold>\<open>Queues, mutexes\<close> (\<open>thread_sync.c\<close>).  \<open>Sync_Queue\<close>, \<open>Sync_Mutex\<close>: under the global VM lock a thread runs
  without interruption between two points where it sleeps or checks for interrupts; these stretches are
  the rules of \<open>inductive\<close> step relations on any number of threads.  \<open>Sync_Queue_Inv\<close>, \<open>Sync_Mutex_Inv\<close>:
  invariants by rule induction.  Spurious wakeups, kills and exceptions are steps of the system.

  \<^bold>\<open>Integers\<close> (\<open>bignum.c\<close>, \<open>numeric.c\<close>, \<open>internal/fixnum.h\<close>).  Three layers.  The arrays of 32-bit digits:
  \<open>Bary\<close> (shifts, complement, addition, subtraction), \<open>Bary_Mul\<close> (schoolbook, squaring), \<open>Bary_Balance\<close>
  (the interface \<open>mulfunc_t\<close> of the multiplications and slicing), \<open>Bary_Karatsuba\<close>, \<open>Bary_Toom3\<close>,
  \<open>Bary_Div\<close>, \<open>Bary_Divmod\<close>.  The bignums: \<open>Big\<close> (sign and digits, the normal form, conversions, two's
  complement), \<open>Big_Arith\<close>, \<open>Big_Divmod\<close>.  The integers, fixnum or bignum: \<open>Integer\<close> (the dispatch of the
  methods), \<open>Integer_Laws\<close> (what they compute, with locales for an operation and for a division,
  interpreted on each operator), \<open>Big_Bits\<close>, \<open>Big_Size\<close> (bit operations and lengths).  \<open>Big_Pack\<close> and
  \<open>Big_Unpack\<close>: an integer in a buffer of words, written and read; \<open>Big_Pack_Spec\<close> has the reference (the
  words as digits of a number) and the generic way, \<open>Big_Pack_Fast\<close> and \<open>Big_Unpack_Spec\<close> the others.  \<open>Big_Alloc\<close>
  is the request for the digits of a bignum (\<open>gc.c\<close>), which may be refused.  \<open>Big_Shift\<close> has the shifts, of
  bignums of fewer than \<open>2 ^ 62\<close> digits, which is more than an address space holds, with the exception each width
  raises; \<open>Big_Powm\<close> the powers modulo an integer, whose loops are verified once over a contract for the product;
  \<open>Big_Pow\<close> is \<open>Integer#**\<close>, where a float stands as the expression that computes it.

  The properties C1 to C40 stand in the theories \<open>..._Properties\<close>, \<open>Big_Shift\<close>,
  \<open>Big_Powm\<close> and \<open>Big_Pow\<close>, each with a witness at a concrete input where it has a
  hypothesis. C1 to C10 are about \<open>st.c\<close>, C11 to C15 about \<open>hash.c\<close>, then
  \<open>id_table.c\<close>, \<open>thread_sync.c\<close>, the digit arrays and the integers.

  \<^bold>\<open>Choices.\<close>  The target is 64-bit and little-endian (LP64, \<open>BDIGIT\<close> is 32 bits, \<open>BDIGIT_DBL\<close> 64), without
  GMP.  Words keep their width where the code can wrap (\<open>uint\<close> and \<open>sint\<close> read them); sizes of arrays that
  fit into memory are \<open>nat\<close>.  The only \<open>config.h\<close> of the repository is that of a build with GMP; what is
  modelled is the code's own arithmetic, the other branch of \<open>USE_GMP\<close>.  The counter \<open>num_waiting\<close> of a queue is
  an unbounded \<open>int\<close>, as it counts threads.  Only \<open><<\<close>, \<open>>>\<close> and \<open>**\<close> make a bignum much longer than their operands:
  the memory for the result is for them the parameter \<open>malloc\<close>, and a refused request is an exception.  Elsewhere,
  and for work areas, allocation succeeds.  A function that fills a caller's array returns the list; where the code
  passes the same array as source and result, every index is read before it is written, so the result is
  the same; the equality of pointers that selects squaring is a flag.  A work area is only its size, as it
  is never read before it is written; \<open>rb_bug\<close> for a missing one is an error value.  An embedded bignum
  and one on the heap are the same record.  The fuel of the mutual recursion of Karatsuba and Toom-Cook is
  the number of digits of both operands plus one, and each call passes on fewer digits; the fuel of the
  slicing loop is the length of the longer operand plus one.  The theorems show that the fuel never runs
  out.  Functions that the code receives (comparison, hash, callbacks) are parameters of the model.

  \<^bold>\<open>Not modelled.\<close>  The compiler, the virtual machine, the garbage collector, the regular expression engine,
  encodings and transcoders, strings and arrays, input and output, processes and native threads: they work
  on memory, the operating system or generated tables more than on values.  Of the modelled files: the
  debug counters of \<open>st.c\<close>, write barriers and the transient heap of \<open>hash.c\<close>, the hook of a fiber
  scheduler and \<open>Mutex#sleep\<close> in \<open>thread_sync.c\<close>, and of \<open>bignum.c\<close> the operands that are not integers,
  roots, conversion to and from strings and floats.
\<close>

end
